(* ===== verification/BT_Prelude.thy ===== *)
theory BT_Prelude
  imports Main "HOL-Library.Word" "HOL-Library.Monad_Syntax"
begin

text \<open>
  Shared vocabulary of the development: the machine integer types of the C sources, byte
  buffers with checked accesses, and the generic lemmas the component theories build on.

  A C buffer is the list of the bytes that may legally be accessed through its pointer.
  An access outside of it is undefined behaviour in C; here it is the value \<^const>\<open>None\<close>, so that
  "the routine never leaves its buffer" is a statement one can prove (the result is \<^const>\<open>Some\<close>).
\<close>

unbundle bit_operations_syntax

type_synonym u8 = "8 word"
type_synonym u16 = "16 word"
type_synonym u32 = "32 word"
type_synonym buffer = "u8 list"

named_theorems buf_simps \<open>evaluation of checked buffer accesses\<close>

section \<open>Checked buffer accesses\<close>

definition rd :: "'a list \<Rightarrow> nat \<Rightarrow> 'a option" where
  "rd buf i = (if i < length buf then Some (buf ! i) else None)"

definition wr :: "'a list \<Rightarrow> nat \<Rightarrow> 'a \<Rightarrow> 'a list option" where
  "wr buf i x = (if i < length buf then Some (buf[i := x]) else None)"

text \<open>\<open>rd_range buf off n\<close> is the source side of \<open>memcpy(.., &buf[off], n)\<close>; a copy of
  zero bytes touches nothing.\<close>

definition rd_range :: "'a list \<Rightarrow> nat \<Rightarrow> nat \<Rightarrow> 'a list option" where
  "rd_range buf off n =
     (if n = 0 then Some [] else if off + n \<le> length buf then Some (take n (drop off buf)) else None)"

text \<open>\<open>wr_range buf off xs\<close> is the destination side of \<open>memcpy(&buf[off], xs, n)\<close>.\<close>

definition wr_range :: "'a list \<Rightarrow> nat \<Rightarrow> 'a list \<Rightarrow> 'a list option" where
  "wr_range buf off xs =
     (if xs = [] then Some buf
      else if off + length xs \<le> length buf
      then Some (take off buf @ xs @ drop (off + length xs) buf) else None)"

lemma rd_Some [buf_simps]: "i < length buf \<Longrightarrow> rd buf i = Some (buf ! i)"
  by (simp add: rd_def)

lemma rd_eq_Some_iff: "rd buf i = Some x \<longleftrightarrow> i < length buf \<and> buf ! i = x"
  by (auto simp: rd_def)

lemma rd_eq_None_iff: "rd buf i = None \<longleftrightarrow> length buf \<le> i"
  by (auto simp: rd_def)

lemma wr_Some [buf_simps]: "i < length buf \<Longrightarrow> wr buf i x = Some (buf[i := x])"
  by (simp add: wr_def)

lemma wr_eq_Some_iff: "wr buf i x = Some buf' \<longleftrightarrow> i < length buf \<and> buf' = buf[i := x]"
  by (auto simp: wr_def)

lemma rd_range_Some [buf_simps]: "off + n \<le> length buf \<Longrightarrow> rd_range buf off n = Some (take n (drop off buf))"
  by (simp add: rd_range_def)

lemma rd_range_length: "rd_range buf off n = Some xs \<Longrightarrow> length xs = n"
  by (auto simp: rd_range_def split: if_splits)

lemma wr_range_Some [buf_simps]:
  "off + length xs \<le> length buf \<Longrightarrow>
     wr_range buf off xs = Some (take off buf @ xs @ drop (off + length xs) buf)"
  by (auto simp: wr_range_def)

lemma wr_range_length: "wr_range buf off xs = Some buf' \<Longrightarrow> length buf' = length buf"
  by (auto simp: wr_range_def split: if_splits)

lemma nth_wr_range:
  assumes "off + length xs \<le> length buf" and "i < length buf"
  shows "(take off buf @ xs @ drop (off + length xs) buf) ! i =
           (if off \<le> i \<and> i < off + length xs then xs ! (i - off) else buf ! i)"
  using assms by (auto simp: nth_append)

lemma split_drop: "drop off xs = take n (drop off xs) @ drop (off + n) xs"
  using append_take_drop_id [of n "drop off xs"] by (simp add: add.commute)

lemma split_range: "xs = take off xs @ take n (drop off xs) @ drop (off + n) xs"
  using append_take_drop_id [of off xs] split_drop [of off xs n] by simp

text \<open>Reading back a range that was just written, and a range disjoint from it.\<close>

lemma rd_range_wr_range_same:
  "wr_range buf off xs = Some buf' \<Longrightarrow> rd_range buf' off (length xs) = Some xs"
  by (auto simp: wr_range_def rd_range_def split: if_splits)

lemma rd_range_wr_range_disjoint:
  assumes "wr_range buf off xs = Some buf'" and "o2 + n \<le> off \<or> off + length xs \<le> o2"
  shows "rd_range buf' o2 n = rd_range buf o2 n"
proof (cases "xs = []")
  case True
  with assms show ?thesis by (simp add: wr_range_def)
next
  case False
  with assms(1) have fit: "off + length xs \<le> length buf"
    and buf': "buf' = take off buf @ xs @ drop (off + length xs) buf"
    by (auto simp: wr_range_def split: if_splits)
  have len: "length buf' = length buf" using fit by (simp add: buf')
  have "take n (drop o2 buf') = take n (drop o2 buf)" if "o2 + n \<le> length buf"
  proof (rule nth_equalityI)
    show "length (take n (drop o2 buf')) = length (take n (drop o2 buf))" by (simp add: len)
  next
    fix i assume "i < length (take n (drop o2 buf'))"
    then have i: "i < n" "o2 + i < length buf" using that by (auto simp: len)
    with fit assms(2) show "take n (drop o2 buf') ! i = take n (drop o2 buf) ! i"
      by (auto simp: buf' nth_wr_range)
  qed
  then show ?thesis by (simp add: rd_range_def len)
qed

lemma rd_wr_same: "wr buf i x = Some buf' \<Longrightarrow> rd buf' i = Some x"
  by (auto simp: wr_def rd_def split: if_splits)

lemma rd_wr_other: "wr buf i x = Some buf' \<Longrightarrow> i \<noteq> j \<Longrightarrow> rd buf' j = rd buf j"
  by (auto simp: wr_def rd_def split: if_splits)

lemma wr_length: "wr buf i x = Some buf' \<Longrightarrow> length buf' = length buf"
  by (auto simp: wr_def split: if_splits)

section \<open>Machine integers\<close>

text \<open>C's implicit conversion of an unsigned value to a wider or narrower unsigned type.\<close>

abbreviation to8 :: "'a::len word \<Rightarrow> u8" where "to8 \<equiv> ucast"
abbreviation to16 :: "'a::len word \<Rightarrow> u16" where "to16 \<equiv> ucast"
abbreviation to32 :: "'a::len word \<Rightarrow> u32" where "to32 \<equiv> ucast"

lemma unat_u8_less [simp]: "unat (x :: u8) < 256"
  using unsigned_less [of x, where 'a = nat] by simp

lemma unat_u16_less [simp]: "unat (x :: u16) < 65536"
  using unsigned_less [of x, where 'a = nat] by simp

lemma unat_u32_less [simp]: "unat (x :: u32) < 4294967296"
  using unsigned_less [of x, where 'a = nat] by simp

lemma unat_plus_no_wrap:
  fixes x y :: "'a::len word"
  shows "unat x + unat y < 2 ^ LENGTH('a) \<Longrightarrow> unat (x + y) = unat x + unat y"
  by (simp add: unat_word_ariths)

lemma unat_plus_le:
  fixes x y z :: "'a::len word"
  shows "unat x + unat y \<le> unat z \<Longrightarrow> unat (x + y) = unat x + unat y"
  using unsigned_less [of z, where 'a = nat] by (intro unat_plus_no_wrap) linarith

lemma unat_of_nat_u32: "n < 4294967296 \<Longrightarrow> unat (of_nat n :: u32) = n"
  by (simp add: unat_of_nat)

lemma unat_of_nat_u16: "n < 65536 \<Longrightarrow> unat (of_nat n :: u16) = n"
  by (simp add: unat_of_nat)

lemma unat_of_nat_u8: "n < 256 \<Longrightarrow> unat (of_nat n :: u8) = n"
  by (simp add: unat_of_nat)

lemma sint_u32: "sint (w :: u32) = (if uint w < 2 ^ 31 then uint w else uint w - 2 ^ 32)"
proof -
  have r: "0 \<le> uint w" "uint w < 2 ^ 32" using uint_lt2p [of w] by simp_all
  have s: "sint w = signed_take_bit 31 (uint w)" by (simp add: sint_uint)
  show ?thesis
  proof (cases "uint w < 2 ^ 31")
    case True
    have "signed_take_bit 31 (uint w) = uint w" by (rule signed_take_bit_int_eq_self) (use r True in linarith)+
    then show ?thesis using s True by simp
  next
    case False
    have "signed_take_bit 31 (uint w) = signed_take_bit 31 (uint w - 2 ^ 32)"
      unfolding signed_take_bit_eq_iff_take_bit_eq by (simp add: take_bit_eq_mod)
    also have "\<dots> = uint w - 2 ^ 32" by (rule signed_take_bit_int_eq_self) (use r False in simp_all)
    finally show ?thesis using s False by simp
  qed
qed

lemma sint_of_nat_u32: "n < 2147483648 \<Longrightarrow> sint (of_nat n :: u32) = int n"
  by (simp add: sint_u32 uint_nat unsigned_of_nat take_bit_nat_eq_self)

lemma xor_right_cancel [simp]: "a XOR c = b XOR c \<longleftrightarrow> a = (b :: 'a::len word)"
  by (metis xor.assoc xor_self_eq xor.right_neutral)

lemma xor_left_cancel [simp]: "c XOR a = c XOR b \<longleftrightarrow> a = (b :: 'a::len word)"
  by (metis xor.commute xor_right_cancel)

lemma xor_eq_0_word [simp]: "a XOR b = 0 \<longleftrightarrow> a = (b :: 'a::len word)"
  by (metis xor_right_cancel xor_self_eq)

text \<open>Every byte satisfies \<open>P\<close> as soon as the 256 values do: the kernel evaluates the list.\<close>

lemma all_u8_iff: "(\<forall>x :: u8. P x) \<longleftrightarrow> (\<forall>n \<in> set [0..<256]. P (of_nat n))"
proof
  assume r: "\<forall>n \<in> set [0..<256]. P (of_nat n)"
  show "\<forall>x :: u8. P x"
  proof
    fix x :: u8
    have "unat x \<in> set [0..<256]" by simp
    with r have "P (of_nat (unat x))" by blast
    then show "P x" by simp
  qed
qed auto

end
