(* ===== verification/BT_Util.thy ===== *)
theory BT_Util
  imports BT_Prelude
begin

text \<open>
  Model of \<open>btstack_util.c\<close>: byte order conversions, buffer reversal, text forms of
  Bluetooth addresses and UUIDs, decimal parsing, bit counting and the table driven CRC-8 of
  RFCOMM.  C strings are the lists of characters that may be read through the pointer,
  including the terminating zero.  Positions of type \<open>int\<close> are never negative in the sources
  and are modelled as \<^typ>\<open>nat\<close>; the stores take their position as \<open>uint16_t\<close>, whose
  increments wrap.
\<close>

section \<open>Bluetooth addresses\<close>

definition BD_ADDR_LEN :: nat where "BD_ADDR_LEN = 6"

text \<open>\<open>memcmp\<close>: the sign of the first difference, 0 when there is none.\<close>

fun memcmp_n :: "nat \<Rightarrow> buffer \<Rightarrow> buffer \<Rightarrow> int option" where
  "memcmp_n 0 a b = Some 0"
| "memcmp_n (Suc n) (x # a) (y # b) =
     (if x = y then memcmp_n n a b else if x < y then Some (-1) else Some 1)"
| "memcmp_n (Suc n) _ _ = None"

definition bd_addr_cmp :: "buffer \<Rightarrow> buffer \<Rightarrow> int option" where
  "bd_addr_cmp a b = memcmp_n BD_ADDR_LEN a b"

definition bd_addr_copy :: "buffer \<Rightarrow> buffer \<Rightarrow> buffer option" where
  "bd_addr_copy dest src = do { xs \<leftarrow> rd_range src 0 BD_ADDR_LEN; wr_range dest 0 xs }"

section \<open>Byte order\<close>

definition little_endian_read_16 :: "buffer \<Rightarrow> nat \<Rightarrow> u16 option" where
  "little_endian_read_16 buf pos = do {
     b0 \<leftarrow> rd buf pos; b1 \<leftarrow> rd buf (pos + 1);
     Some (to16 b0 OR push_bit 8 (to16 b1)) }"

definition little_endian_read_24 :: "buffer \<Rightarrow> nat \<Rightarrow> u32 option" where
  "little_endian_read_24 buf pos = do {
     b0 \<leftarrow> rd buf pos; b1 \<leftarrow> rd buf (pos + 1); b2 \<leftarrow> rd buf (pos + 2);
     Some (to32 b0 OR push_bit 8 (to32 b1) OR push_bit 16 (to32 b2)) }"

definition little_endian_read_32 :: "buffer \<Rightarrow> nat \<Rightarrow> u32 option" where
  "little_endian_read_32 buf pos = do {
     b0 \<leftarrow> rd buf pos; b1 \<leftarrow> rd buf (pos + 1); b2 \<leftarrow> rd buf (pos + 2); b3 \<leftarrow> rd buf (pos + 3);
     Some (to32 b0 OR push_bit 8 (to32 b1) OR push_bit 16 (to32 b2) OR push_bit 24 (to32 b3)) }"

definition little_endian_store_16 :: "buffer \<Rightarrow> u16 \<Rightarrow> u16 \<Rightarrow> buffer option" where
  "little_endian_store_16 buf pos v = do {
     buf \<leftarrow> wr buf (unat pos) (to8 v);
     wr buf (unat (pos + 1)) (to8 (drop_bit 8 v)) }"

definition little_endian_store_32 :: "buffer \<Rightarrow> u16 \<Rightarrow> u32 \<Rightarrow> buffer option" where
  "little_endian_store_32 buf pos v = do {
     buf \<leftarrow> wr buf (unat pos) (to8 v);
     buf \<leftarrow> wr buf (unat (pos + 1)) (to8 (drop_bit 8 v));
     buf \<leftarrow> wr buf (unat (pos + 2)) (to8 (drop_bit 16 v));
     wr buf (unat (pos + 3)) (to8 (drop_bit 24 v)) }"

text \<open>\<open>big_endian_read_16\<close> returns \<open>uint32_t\<close>, after a conversion to \<open>uint16_t\<close>.\<close>

definition big_endian_read_16 :: "buffer \<Rightarrow> nat \<Rightarrow> u32 option" where
  "big_endian_read_16 buf pos = do {
     b1 \<leftarrow> rd buf (pos + 1); b0 \<leftarrow> rd buf pos;
     Some (to32 (to16 b1 OR push_bit 8 (to16 b0))) }"

definition big_endian_read_24 :: "buffer \<Rightarrow> nat \<Rightarrow> u32 option" where
  "big_endian_read_24 buf pos = do {
     b2 \<leftarrow> rd buf (pos + 2); b1 \<leftarrow> rd buf (pos + 1); b0 \<leftarrow> rd buf pos;
     Some (to32 b2 OR push_bit 8 (to32 b1) OR push_bit 16 (to32 b0)) }"

definition big_endian_read_32 :: "buffer \<Rightarrow> nat \<Rightarrow> u32 option" where
  "big_endian_read_32 buf pos = do {
     b3 \<leftarrow> rd buf (pos + 3); b2 \<leftarrow> rd buf (pos + 2); b1 \<leftarrow> rd buf (pos + 1); b0 \<leftarrow> rd buf pos;
     Some (to32 b3 OR push_bit 8 (to32 b2) OR push_bit 16 (to32 b1) OR push_bit 24 (to32 b0)) }"

definition big_endian_store_16 :: "buffer \<Rightarrow> u16 \<Rightarrow> u16 \<Rightarrow> buffer option" where
  "big_endian_store_16 buf pos v = do {
     buf \<leftarrow> wr buf (unat pos) (to8 (drop_bit 8 v));
     wr buf (unat (pos + 1)) (to8 v) }"

definition big_endian_store_24 :: "buffer \<Rightarrow> u16 \<Rightarrow> u32 \<Rightarrow> buffer option" where
  "big_endian_store_24 buf pos v = do {
     buf \<leftarrow> wr buf (unat pos) (to8 (drop_bit 16 v));
     buf \<leftarrow> wr buf (unat (pos + 1)) (to8 (drop_bit 8 v));
     wr buf (unat (pos + 2)) (to8 v) }"

definition big_endian_store_32 :: "buffer \<Rightarrow> u16 \<Rightarrow> u32 \<Rightarrow> buffer option" where
  "big_endian_store_32 buf pos v = do {
     buf \<leftarrow> wr buf (unat pos) (to8 (drop_bit 24 v));
     buf \<leftarrow> wr buf (unat (pos + 1)) (to8 (drop_bit 16 v));
     buf \<leftarrow> wr buf (unat (pos + 2)) (to8 (drop_bit 8 v));
     wr buf (unat (pos + 3)) (to8 v) }"

section \<open>Reversal\<close>

text \<open>The loop of \<open>reverse_bytes\<close> after its first \<open>n\<close> rounds; \<open>src\<close> and \<open>dst\<close> do not overlap.\<close>

primrec reverse_bytes_rounds :: "buffer \<Rightarrow> buffer \<Rightarrow> nat \<Rightarrow> nat \<Rightarrow> buffer option" where
  "reverse_bytes_rounds src dst len 0 = Some dst"
| "reverse_bytes_rounds src dst len (Suc i) = do {
     d \<leftarrow> reverse_bytes_rounds src dst len i;
     b \<leftarrow> rd src i;
     wr d (len - 1 - i) b }"

definition reverse_bytes :: "buffer \<Rightarrow> buffer \<Rightarrow> nat \<Rightarrow> buffer option" where
  "reverse_bytes src dst len = reverse_bytes_rounds src dst len len"

definition reverse_24 :: "buffer \<Rightarrow> buffer \<Rightarrow> buffer option" where
  "reverse_24 src dst = reverse_bytes src dst 3"

definition reverse_48 :: "buffer \<Rightarrow> buffer \<Rightarrow> buffer option" where
  "reverse_48 src dst = reverse_bytes src dst 6"

definition reverse_56 :: "buffer \<Rightarrow> buffer \<Rightarrow> buffer option" where
  "reverse_56 src dst = reverse_bytes src dst 7"

definition reverse_64 :: "buffer \<Rightarrow> buffer \<Rightarrow> buffer option" where
  "reverse_64 src dst = reverse_bytes src dst 8"

definition reverse_128 :: "buffer \<Rightarrow> buffer \<Rightarrow> buffer option" where
  "reverse_128 src dst = reverse_bytes src dst 16"

definition reverse_256 :: "buffer \<Rightarrow> buffer \<Rightarrow> buffer option" where
  "reverse_256 src dst = reverse_bytes src dst 32"

definition reverse_bd_addr :: "buffer \<Rightarrow> buffer \<Rightarrow> buffer option" where
  "reverse_bd_addr src dest = reverse_bytes src dest 6"

definition btstack_min :: "u32 \<Rightarrow> u32 \<Rightarrow> u32" where
  "btstack_min a b = (if a < b then a else b)"

definition btstack_max :: "u32 \<Rightarrow> u32 \<Rightarrow> u32" where
  "btstack_max a b = (if a > b then a else b)"

section \<open>Text forms\<close>

text \<open>The value of a \<open>char\<close>, which is signed on this target (\<open>-fsigned-char\<close>).\<close>

definition char_value :: "char \<Rightarrow> int" where
  "char_value c = (let n = of_char c in if n < 128 then n else n - 256)"

definition char_for_nibble :: "int \<Rightarrow> char" where
  "char_for_nibble nibble =
     (if nibble < 10 then char_of (char_value CHR ''0'' + nibble)
      else if nibble - 10 < 6 then char_of (char_value CHR ''A'' + (nibble - 10))
      else CHR ''?'')"

definition char_for_high_nibble :: "int \<Rightarrow> char" where
  "char_for_high_nibble v = char_for_nibble (drop_bit 4 v AND 0x0f)"

definition char_for_low_nibble :: "int \<Rightarrow> char" where
  "char_for_low_nibble v = char_for_nibble (v AND 0x0f)"

definition nibble_for_char :: "char \<Rightarrow> int" where
  "nibble_for_char ch = (let c = char_value ch in
     if c \<ge> char_value CHR ''0'' \<and> c \<le> char_value CHR ''9'' then c - char_value CHR ''0''
     else if c \<ge> char_value CHR ''a'' \<and> c \<le> char_value CHR ''f'' then c - char_value CHR ''a'' + 10
     else if c \<ge> char_value CHR ''A'' \<and> c \<le> char_value CHR ''F'' then c - char_value CHR ''A'' + 10
     else -1)"

definition bluetooth_base_uuid :: buffer where
  "bluetooth_base_uuid = [0x00, 0x00, 0x00, 0x00, 0x00, 0x00, 0x10, 0x00,
                          0x80, 0x00, 0x00, 0x80, 0x5F, 0x9B, 0x34, 0xFB]"

definition uuid_add_bluetooth_prefix :: "buffer \<Rightarrow> u32 \<Rightarrow> buffer option" where
  "uuid_add_bluetooth_prefix uuid shortUUID = do {
     uuid \<leftarrow> wr_range uuid 0 bluetooth_base_uuid;
     big_endian_store_32 uuid 0 shortUUID }"

definition uuid_has_bluetooth_prefix :: "buffer \<Rightarrow> bool option" where
  "uuid_has_bluetooth_prefix uuid128 = do {
     r \<leftarrow> memcmp_n 12 (drop 4 uuid128) (drop 4 bluetooth_base_uuid);
     Some (r = 0) }"

definition dash_locations :: int where
  "dash_locations = push_bit 3 1 OR push_bit 5 1 OR push_bit 7 1 OR push_bit 9 1"

text \<open>The characters that \<open>uuid128_to_str\<close> puts into its static buffer in the rounds from \<open>i\<close>
  on; the buffer's last byte keeps the zero it is initialised with.\<close>

fun uuid128_to_str_from :: "buffer \<Rightarrow> nat \<Rightarrow> nat \<Rightarrow> string option" where
  "uuid128_to_str_from uuid i 0 = Some []"
| "uuid128_to_str_from uuid i (Suc n) = do {
     b \<leftarrow> rd uuid i;
     rest \<leftarrow> uuid128_to_str_from uuid (i + 1) n;
     Some (char_for_high_nibble (uint b) # char_for_low_nibble (uint b) #
           (if dash_locations AND push_bit i 1 \<noteq> 0 then CHR ''-'' # rest else rest)) }"

definition uuid128_to_str :: "buffer \<Rightarrow> string option" where
  "uuid128_to_str uuid = do { s \<leftarrow> uuid128_to_str_from uuid 0 16; Some (s @ [CHR 0x00]) }"

text \<open>\<open>bd_addr_to_str\<close> writes a colon after every byte and replaces the last one by the zero.\<close>

fun bd_addr_to_str_from :: "buffer \<Rightarrow> nat \<Rightarrow> nat \<Rightarrow> string option" where
  "bd_addr_to_str_from addr i 0 = Some []"
| "bd_addr_to_str_from addr i (Suc n) = do {
     b \<leftarrow> rd addr i;
     rest \<leftarrow> bd_addr_to_str_from addr (i + 1) n;
     Some (char_for_high_nibble (uint b) # char_for_low_nibble (uint b) # CHR '':'' # rest) }"

definition bd_addr_to_str :: "buffer \<Rightarrow> string option" where
  "bd_addr_to_str addr = do {
     p \<leftarrow> bd_addr_to_str_from addr 0 6;
     Some (p[length p - 1 := CHR 0x00]) }"

definition scan_hex_byte :: "string \<Rightarrow> int option" where
  "scan_hex_byte byte_string = do {
     c0 \<leftarrow> rd byte_string 0;
     let upper_nibble = nibble_for_char c0;
     if upper_nibble < 0 then Some (-1) else do {
       c1 \<leftarrow> rd byte_string 1;
       let lower_nibble = nibble_for_char c1;
       if lower_nibble < 0 then Some (-1)
       else Some (push_bit 4 upper_nibble OR lower_nibble) } }"

text \<open>The loop of \<open>sscanf_bd_addr\<close> with \<open>n\<close> bytes to go: the flag \<open>result\<close> and the bytes collected.\<close>

fun sscanf_bd_addr_from :: "nat \<Rightarrow> string \<Rightarrow> buffer \<Rightarrow> (bool \<times> buffer) option" where
  "sscanf_bd_addr_from 0 addr_string buf = Some (False, buf)"
| "sscanf_bd_addr_from (Suc n) addr_string buf = do {
     single_byte \<leftarrow> scan_hex_byte addr_string;
     if single_byte < 0 then Some (False, buf)
     else let addr_string = drop 2 addr_string; buf = buf @ [word_of_int single_byte]
       in if n = 0 then Some (True, buf)
       else do {
         separator \<leftarrow> rd addr_string 0;
         if separator \<noteq> CHR '':'' \<and> separator \<noteq> CHR ''-'' \<and> separator \<noteq> CHR '' ''
         then Some (False, buf)
         else sscanf_bd_addr_from n (drop 1 addr_string) buf } }"

definition sscanf_bd_addr :: "string \<Rightarrow> buffer \<Rightarrow> (bool \<times> buffer) option" where
  "sscanf_bd_addr addr_string addr = do {
     (result, buf) \<leftarrow> sscanf_bd_addr_from BD_ADDR_LEN addr_string [];
     if result then do { addr \<leftarrow> bd_addr_copy addr buf; Some (result, addr) }
     else Some (result, addr) }"

fun btstack_atoi_from :: "string \<Rightarrow> u32 \<Rightarrow> u32 option" where
  "btstack_atoi_from [] v = None"
| "btstack_atoi_from (ch # str) v =
     (let chr = char_value ch in
      if chr = 0 \<or> chr < char_value CHR ''0'' \<or> chr > char_value CHR ''9'' then Some v
      else btstack_atoi_from str (v * 10 + to32 (word_of_int (chr - char_value CHR ''0'') :: u8)))"

definition btstack_atoi :: "string \<Rightarrow> u32 option" where
  "btstack_atoi str = btstack_atoi_from str 0"

definition string_len_for_uint32 :: "u32 \<Rightarrow> int" where
  "string_len_for_uint32 i =
     (if i < 10 then 1 else if i < 100 then 2 else if i < 1000 then 3
      else if i < 10000 then 4 else if i < 100000 then 5 else if i < 1000000 then 6
      else if i < 10000000 then 7 else if i < 100000000 then 8 else if i < 1000000000 then 9
      else 10)"

definition count_set_bits_uint32 :: "u32 \<Rightarrow> int" where
  "count_set_bits_uint32 x =
     (let x = (x AND 0x55555555) + (drop_bit 1 x AND 0x55555555);
          x = (x AND 0x33333333) + (drop_bit 2 x AND 0x33333333);
          x = (x AND 0x0F0F0F0F) + (drop_bit 4 x AND 0x0F0F0F0F);
          x = (x AND 0x00FF00FF) + (drop_bit 8 x AND 0x00FF00FF);
          x = (x AND 0x0000FFFF) + (drop_bit 16 x AND 0x0000FFFF)
      in sint x)"

section \<open>CRC-8\<close>

definition CRC8_INIT :: u8 where "CRC8_INIT = 0xFF"
definition CRC8_OK :: u8 where "CRC8_OK = 0xCF"

definition crc8table :: "u8 list" where
  "crc8table =
    [0x00, 0x91, 0xE3, 0x72, 0x07, 0x96, 0xE4, 0x75, 0x0E, 0x9F, 0xED, 0x7C, 0x09, 0x98, 0xEA, 0x7B,
     0x1C, 0x8D, 0xFF, 0x6E, 0x1B, 0x8A, 0xF8, 0x69, 0x12, 0x83, 0xF1, 0x60, 0x15, 0x84, 0xF6, 0x67,
     0x38, 0xA9, 0xDB, 0x4A, 0x3F, 0xAE, 0xDC, 0x4D, 0x36, 0xA7, 0xD5, 0x44, 0x31, 0xA0, 0xD2, 0x43,
     0x24, 0xB5, 0xC7, 0x56, 0x23, 0xB2, 0xC0, 0x51, 0x2A, 0xBB, 0xC9, 0x58, 0x2D, 0xBC, 0xCE, 0x5F,
     0x70, 0xE1, 0x93, 0x02, 0x77, 0xE6, 0x94, 0x05, 0x7E, 0xEF, 0x9D, 0x0C, 0x79, 0xE8, 0x9A, 0x0B,
     0x6C, 0xFD, 0x8F, 0x1E, 0x6B, 0xFA, 0x88, 0x19, 0x62, 0xF3, 0x81, 0x10, 0x65, 0xF4, 0x86, 0x17,
     0x48, 0xD9, 0xAB, 0x3A, 0x4F, 0xDE, 0xAC, 0x3D, 0x46, 0xD7, 0xA5, 0x34, 0x41, 0xD0, 0xA2, 0x33,
     0x54, 0xC5, 0xB7, 0x26, 0x53, 0xC2, 0xB0, 0x21, 0x5A, 0xCB, 0xB9, 0x28, 0x5D, 0xCC, 0xBE, 0x2F,
     0xE0, 0x71, 0x03, 0x92, 0xE7, 0x76, 0x04, 0x95, 0xEE, 0x7F, 0x0D, 0x9C, 0xE9, 0x78, 0x0A, 0x9B,
     0xFC, 0x6D, 0x1F, 0x8E, 0xFB, 0x6A, 0x18, 0x89, 0xF2, 0x63, 0x11, 0x80, 0xF5, 0x64, 0x16, 0x87,
     0xD8, 0x49, 0x3B, 0xAA, 0xDF, 0x4E, 0x3C, 0xAD, 0xD6, 0x47, 0x35, 0xA4, 0xD1, 0x40, 0x32, 0xA3,
     0xC4, 0x55, 0x27, 0xB6, 0xC3, 0x52, 0x20, 0xB1, 0xCA, 0x5B, 0x29, 0xB8, 0xCD, 0x5C, 0x2E, 0xBF,
     0x90, 0x01, 0x73, 0xE2, 0x97, 0x06, 0x74, 0xE5, 0x9E, 0x0F, 0x7D, 0xEC, 0x99, 0x08, 0x7A, 0xEB,
     0x8C, 0x1D, 0x6F, 0xFE, 0x8B, 0x1A, 0x68, 0xF9, 0x82, 0x13, 0x61, 0xF0, 0x85, 0x14, 0x66, 0xF7,
     0xA8, 0x39, 0x4B, 0xDA, 0xAF, 0x3E, 0x4C, 0xDD, 0xA6, 0x37, 0x45, 0xD4, 0xA1, 0x30, 0x42, 0xD3,
     0xB4, 0x25, 0x57, 0xC6, 0xB3, 0x22, 0x50, 0xC1, 0xBA, 0x2B, 0x59, 0xC8, 0xBD, 0x2C, 0x5E, 0xCF]"

definition crc8_lookup :: "u8 \<Rightarrow> u8" where
  "crc8_lookup i = crc8table ! unat i"

primrec crc8_rounds :: "buffer \<Rightarrow> nat \<Rightarrow> u8 option" where
  "crc8_rounds data 0 = Some CRC8_INIT"
| "crc8_rounds data (Suc count) = do {
     crc \<leftarrow> crc8_rounds data count;
     b \<leftarrow> rd data count;
     Some (crc8_lookup (crc XOR b)) }"

definition crc8 :: "buffer \<Rightarrow> u16 \<Rightarrow> u8 option" where
  "crc8 data len = crc8_rounds data (unat len)"

definition btstack_crc8_check :: "buffer \<Rightarrow> u16 \<Rightarrow> u8 \<Rightarrow> u8 option" where
  "btstack_crc8_check data len check_sum = do {
     crc \<leftarrow> crc8 data len;
     let crc = crc8_lookup (crc XOR check_sum);
     Some (if crc = CRC8_OK then 0 else 1) }"

definition btstack_crc8_calc :: "buffer \<Rightarrow> u16 \<Rightarrow> u8 option" where
  "btstack_crc8_calc data len = do { crc \<leftarrow> crc8 data len; Some (0xFF - crc) }"

section \<open>Byte order: reading back what was stored\<close>

lemma join_16: "to16 (to8 v) OR push_bit 8 (to16 (to8 (drop_bit 8 v))) = (v :: u16)"
  by (rule bit_word_eqI) (auto simp: bit_simps)

lemma join_24: "unat (v :: u32) < 2 ^ 24 \<Longrightarrow>
  to32 (to8 v) OR push_bit 8 (to32 (to8 (drop_bit 8 v))) OR push_bit 16 (to32 (to8 (drop_bit 16 v))) = v"
proof (rule bit_word_eqI)
  fix n assume v: "unat v < 2 ^ 24" and n: "n < LENGTH(32)"
  have "\<not> bit v n" if "24 \<le> n"
  proof -
    have "unat v < 2 ^ n" using v that by (meson less_le_trans one_le_numeral power_increasing)
    then have "\<not> bit (unat v) n" by (simp add: bit_iff_odd)
    then show ?thesis by (simp add: bit_unsigned_iff n)
  qed
  then show "bit (to32 (to8 v) OR push_bit 8 (to32 (to8 (drop_bit 8 v))) OR
      push_bit 16 (to32 (to8 (drop_bit 16 v)))) n = bit v n"
    using n by (cases "n < 24"; cases "n < 16") (auto simp: bit_simps)
qed

lemma join_32: "to32 (to8 v) OR push_bit 8 (to32 (to8 (drop_bit 8 v))) OR
    push_bit 16 (to32 (to8 (drop_bit 16 v))) OR push_bit 24 (to32 (to8 (drop_bit 24 v))) = (v :: u32)"
proof (rule bit_word_eqI)
  fix n assume "n < LENGTH(32)"
  then show "bit (to32 (to8 v) OR push_bit 8 (to32 (to8 (drop_bit 8 v))) OR
      push_bit 16 (to32 (to8 (drop_bit 16 v))) OR push_bit 24 (to32 (to8 (drop_bit 24 v)))) n = bit v n"
    by (cases "n < 24"; cases "n < 16") (auto simp: bit_simps)
qed

lemma unat_add_u16: "unat pos + n < 65536 \<Longrightarrow> unat (pos + of_nat n :: u16) = unat pos + n"
  by (simp add: unat_word_ariths unat_of_nat)

lemma store_pos [simp]:
  fixes pos :: u16
  shows "unat pos + 1 < 65536 \<Longrightarrow> unat (pos + 1) = unat pos + 1"
    and "unat pos + 2 < 65536 \<Longrightarrow> unat (pos + 2) = unat pos + 2"
    and "unat pos + 3 < 65536 \<Longrightarrow> unat (pos + 3) = unat pos + 3"
  using unat_add_u16 [of pos 1] unat_add_u16 [of pos 2] unat_add_u16 [of pos 3] by simp_all

lemmas byte_order_defs =
  little_endian_read_16_def little_endian_read_24_def little_endian_read_32_def
  little_endian_store_16_def little_endian_store_32_def
  big_endian_read_16_def big_endian_read_24_def big_endian_read_32_def
  big_endian_store_16_def big_endian_store_24_def big_endian_store_32_def

lemma little_endian_16_roundtrip:
  assumes "unat pos + 1 < length buf" and "unat pos + 1 < 65536"
  shows "do { buf' \<leftarrow> little_endian_store_16 buf pos v; little_endian_read_16 buf' (unat pos) } = Some v"
  using assms by (simp add: byte_order_defs buf_simps join_16)

lemma little_endian_32_roundtrip:
  assumes "unat pos + 3 < length buf" and "unat pos + 3 < 65536"
  shows "do { buf' \<leftarrow> little_endian_store_32 buf pos v; little_endian_read_32 buf' (unat pos) } = Some v"
  using assms by (simp add: byte_order_defs buf_simps join_32)

lemma big_endian_16_roundtrip:
  assumes "unat pos + 1 < length buf" and "unat pos + 1 < 65536"
  shows "do { buf' \<leftarrow> big_endian_store_16 buf pos v; big_endian_read_16 buf' (unat pos) } = Some (to32 v)"
  using assms by (simp add: byte_order_defs buf_simps join_16)

lemma big_endian_24_roundtrip:
  assumes "unat pos + 2 < length buf" and "unat pos + 2 < 65536" and "unat v < 2 ^ 24"
  shows "do { buf' \<leftarrow> big_endian_store_24 buf pos v; big_endian_read_24 buf' (unat pos) } = Some v"
  using assms join_24 [of v] by (simp add: byte_order_defs buf_simps)

lemma big_endian_32_roundtrip:
  assumes "unat pos + 3 < length buf" and "unat pos + 3 < 65536"
  shows "do { buf' \<leftarrow> big_endian_store_32 buf pos v; big_endian_read_32 buf' (unat pos) } = Some v"
  using assms by (simp add: byte_order_defs buf_simps join_32)

section \<open>Reversal\<close>

lemma reverse_bytes_rounds_eq:
  assumes "len \<le> length src" and "len \<le> length dst" and "n \<le> len"
  shows "reverse_bytes_rounds src dst len n =
           Some (take (len - n) dst @ rev (take n src) @ drop len dst)"
  using assms(3)
proof (induction n)
  case 0
  then show ?case by simp
next
  case (Suc n)
  let ?d = "take (len - n) dst @ rev (take n src) @ drop len dst"
  have lt: "len - 1 - n < length ?d" using Suc.prems assms by simp
  have upd: "?d[len - Suc n := src ! n] = take (len - Suc n) dst @ rev (take (Suc n) src) @ drop len dst"
  proof -
    have sp: "take (len - n) dst = take (len - Suc n) dst @ [dst ! (len - Suc n)]"
      using Suc.prems assms take_Suc_conv_app_nth [of "len - Suc n" dst] by (simp add: Suc_diff_Suc)
    have "rev (take (Suc n) src) = src ! n # rev (take n src)"
      using Suc.prems assms by (simp add: take_Suc_conv_app_nth)
    then show ?thesis using Suc.prems assms by (simp add: sp list_update_append)
  qed
  show ?case using Suc lt assms by (simp add: buf_simps upd)
qed

lemma reverse_bytes_eq:
  assumes "len \<le> length src" and "len \<le> length dst"
  shows "reverse_bytes src dst len = Some (rev (take len src) @ drop len dst)"
  using reverse_bytes_rounds_eq [OF assms order.refl] by (simp add: reverse_bytes_def)

section \<open>Hexadecimal text\<close>

lemma nibble_for_char_nonneg: "nibble_for_char c = -1 \<or> 0 \<le> nibble_for_char c"
  by (auto simp: nibble_for_char_def Let_def)

lemma nibble_for_char_nul [simp]: "nibble_for_char CHR 0x00 = -1"
  by (simp add: nibble_for_char_def char_value_def Let_def)

lemma nibble_roundtrip:
  assumes "0 \<le> n" and "n < 16"
  shows "nibble_for_char (char_for_nibble n) = n"
proof -
  have "\<forall>m \<in> set [0..15]. nibble_for_char (char_for_nibble m) = m"
    by (simp add: upto_rec1 nibble_for_char_def char_for_nibble_def char_value_def Let_def)
  moreover have "n \<in> set [0..15]" using assms by simp
  ultimately show ?thesis by blast
qed

lemma nibble_for_high: "nibble_for_char (char_for_high_nibble v) = drop_bit 4 v AND 0x0f"
  by (simp add: char_for_high_nibble_def, rule nibble_roundtrip)
     (simp_all add: AND_upper2'' order.strict_trans1 [OF AND_upper2])

lemma nibble_for_low: "nibble_for_char (char_for_low_nibble v) = v AND 0x0f"
  by (simp add: char_for_low_nibble_def, rule nibble_roundtrip)
     (simp_all add: order.strict_trans1 [OF AND_upper2])

lemma byte_from_nibbles:
  "push_bit 4 (drop_bit 4 (uint (b :: u8)) AND 0x0f) OR (uint b AND 0x0f) = uint b"
proof (rule bit_eqI)
  fix n
  have m: "(15 :: int) = mask 4" by (simp add: mask_eq_exp_minus_1)
  show "bit (push_bit 4 (drop_bit 4 (uint b) AND 0x0f) OR (uint b AND 0x0f)) n = bit (uint b) n"
    by (cases "n < 4"; cases "n < 8") (auto simp: m bit_simps dest: bit_imp_le_length)
qed

lemma scan_hex_byte_hex [simp]:
  "scan_hex_byte (char_for_high_nibble (uint b) # char_for_low_nibble (uint b) # rest) = Some (uint (b :: u8))"
  using byte_from_nibbles [of b]
  by (simp add: scan_hex_byte_def rd_def nibble_for_high nibble_for_low Let_def not_less)

text \<open>\<open>scan_hex_byte\<close> stays inside a zero terminated string, and a success means that the two
  characters it looked at were hexadecimal digits.\<close>

lemma scan_hex_byte_defined:
  assumes "CHR 0x00 \<in> set s"
  shows "\<exists>v. scan_hex_byte s = Some v \<and> (0 \<le> v \<longrightarrow> CHR 0x00 \<in> set (drop 2 s))"
proof -
  obtain c s' where s: "s = c # s'" using assms by (cases s) auto
  show ?thesis
  proof (cases "nibble_for_char c < 0")
    case True
    then show ?thesis by (simp add: s scan_hex_byte_def rd_def Let_def)
  next
    case False
    then have "CHR 0x00 \<in> set s'" using assms s by auto
    then obtain d s'' where s': "s' = d # s''" by (cases s') auto
    show ?thesis
    proof (cases "nibble_for_char d < 0")
      case True
      then show ?thesis by (simp add: s s' scan_hex_byte_def rd_def Let_def)
    next
      case d: False
      then have "CHR 0x00 \<in> set s''" using \<open>CHR 0x00 \<in> set s'\<close> s' by auto
      then show ?thesis using False d by (simp add: s s' scan_hex_byte_def rd_def Let_def)
    qed
  qed
qed

lemma sscanf_bd_addr_from_defined:
  assumes "CHR 0x00 \<in> set s"
  shows "\<exists>ok buf'. sscanf_bd_addr_from n s buf = Some (ok, buf') \<and> (ok \<longrightarrow> length buf' = length buf + n)"
  using assms
proof (induction n s buf rule: sscanf_bd_addr_from.induct)
  case (1 s buf)
  show ?case by (intro exI [of _ False]) simp
next
  case (2 n s buf)
  obtain v where v: "scan_hex_byte s = Some v" and nul: "0 \<le> v \<longrightarrow> CHR 0x00 \<in> set (drop 2 s)"
    using scan_hex_byte_defined [OF "2.prems"] by blast
  show ?case
  proof (cases "v < 0 \<or> n = 0")
    case True
    then show ?thesis using v by auto
  next
    case False
    then obtain c t where t: "drop 2 s = c # t" and inn: "CHR 0x00 \<in> set (c # t)"
      using nul by (cases "drop 2 s") auto
    show ?thesis
    proof (cases "c = CHR '':'' \<or> c = CHR ''-'' \<or> c = CHR '' ''")
      case sep: False
      then show ?thesis using v t False by (intro exI [of _ False]) (simp add: rd_def Let_def)
    next
      case True
      then have "CHR 0x00 \<in> set t" using inn by auto
      with "2.IH" [of v "drop 2 s" "buf @ [word_of_int v]" c] v t True False
      show ?thesis by (auto simp: rd_def Let_def)
    qed
  qed
qed

lemma list6E:
  assumes "length xs = 6"
  obtains a b c d e f where "xs = [a, b, c, d, e, f]"
  using assms by (auto simp: numeral_eq_Suc length_Suc_conv)

text \<open>C16: Address text round trip.  The text that \<open>bd_addr_to_str\<close> makes of any six byte address
  is read back by \<open>sscanf_bd_addr\<close> as exactly that address, whatever the destination held before.\<close>

theorem sscanf_bd_addr_of_str:
  assumes "length addr = 6" and "length dest = 6"
  shows "do { str \<leftarrow> bd_addr_to_str addr; sscanf_bd_addr str dest } = Some (True, addr)"
proof -
  obtain a b c d e f where "addr = [a, b, c, d, e, f]" using assms(1) by (rule list6E)
  moreover obtain a' b' c' d' e' f' where "dest = [a', b', c', d', e', f']" using assms(2) by (rule list6E)
  ultimately show ?thesis
    by (simp add: bd_addr_to_str_def sscanf_bd_addr_def bd_addr_copy_def BD_ADDR_LEN_def
        eval_nat_numeral rd_def rd_range_def wr_range_def Let_def not_less)
qed

theorem sscanf_bd_addr_of_str_witness:
  "do { str \<leftarrow> bd_addr_to_str [0x00, 0x1A, 0x7D, 0xDA, 0x71, 0xFF];
        sscanf_bd_addr str [0, 0, 0, 0, 0, 0] } = Some (True, [0x00, 0x1A, 0x7D, 0xDA, 0x71, 0xFF])"
  by (rule sscanf_bd_addr_of_str) simp_all

lemma sscanf_bd_addr_defined:
  assumes "CHR 0x00 \<in> set str" and "length addr = 6"
  shows "\<exists>ok addr'. sscanf_bd_addr str addr = Some (ok, addr') \<and> length addr' = 6 \<and> (\<not> ok \<longrightarrow> addr' = addr)"
proof -
  obtain ok buf where r: "sscanf_bd_addr_from BD_ADDR_LEN str [] = Some (ok, buf)"
    and len: "ok \<longrightarrow> length buf = 6"
    using sscanf_bd_addr_from_defined [OF assms(1), of BD_ADDR_LEN "[]"] by (auto simp: BD_ADDR_LEN_def)
  show ?thesis
    using assms(2) r len
    by (cases ok) (auto simp: sscanf_bd_addr_def bd_addr_copy_def BD_ADDR_LEN_def rd_range_def wr_range_def)
qed

section \<open>Decimal numbers\<close>

definition decimal_value :: "string \<Rightarrow> nat" where
  "decimal_value ds = foldl (\<lambda>v c. v * 10 + nat (char_value c - char_value CHR ''0'')) 0 ds"

definition is_digit :: "char \<Rightarrow> bool" where
  "is_digit c \<longleftrightarrow> char_value CHR ''0'' \<le> char_value c \<and> char_value c \<le> char_value CHR ''9''"

lemma small_to_u32: "0 \<le> d \<Longrightarrow> d < 256 \<Longrightarrow> to32 (word_of_int d :: u8) = of_nat (nat d)"
  by (simp add: unsigned_of_int take_bit_int_eq_self)

lemma digit_range: "is_digit c \<Longrightarrow> 0 \<le> char_value c - char_value CHR ''0'' \<and> char_value c - char_value CHR ''0'' < 10"
  by (auto simp: is_digit_def char_value_def Let_def)

lemma digit_to_u32:
  assumes "is_digit c"
  shows "to32 (word_of_int (char_value c - char_value CHR ''0'') :: u8) =
           of_nat (nat (char_value c - char_value CHR ''0''))"
  using digit_range [OF assms] by (intro small_to_u32) simp_all

lemma btstack_atoi_from_eq:
  assumes "\<forall>c \<in> set ds. is_digit c" and "\<not> is_digit t"
  shows "btstack_atoi_from (ds @ t # rest) (of_nat v) =
           Some (of_nat (foldl (\<lambda>v c. v * 10 + nat (char_value c - char_value CHR ''0'')) v ds))"
  using assms(1)
proof (induction ds arbitrary: v)
  case Nil
  then show ?case using assms(2) by (auto simp: is_digit_def not_le Let_def)
next
  case (Cons c ds)
  have c: "is_digit c" using Cons.prems by simp
  then have "char_value c \<noteq> 0 \<and> \<not> char_value c < char_value CHR ''0'' \<and> \<not> char_value CHR ''9'' < char_value c"
    by (auto simp: is_digit_def char_value_def Let_def)
  moreover have "(of_nat v * 10 + to32 (word_of_int (char_value c - char_value CHR ''0'') :: u8) :: u32)
      = of_nat (v * 10 + nat (char_value c - char_value CHR ''0''))"
    by (simp only: digit_to_u32 [OF c] of_nat_add of_nat_mult of_nat_numeral)
  ultimately show ?case using Cons.IH [of "v * 10 + nat (char_value c - char_value CHR ''0'')"] Cons.prems
    by (simp add: Let_def)
qed

lemma btstack_atoi_eq:
  assumes "\<forall>c \<in> set ds. is_digit c" and "\<not> is_digit t"
  shows "btstack_atoi (ds @ t # rest) = Some (of_nat (decimal_value ds))"
  using btstack_atoi_from_eq [OF assms, of rest 0] by (simp add: btstack_atoi_def decimal_value_def)

lemma string_len_for_uint32_digits:
  "\<exists>n. string_len_for_uint32 i = int n \<and> 0 < n \<and> unat i < 10 ^ n \<and> (1 < n \<longrightarrow> 10 ^ (n - 1) \<le> unat i)"
proof -
  have "unat i < 10 ^ 10" by (rule order.strict_trans [OF unat_u32_less]) simp
  then show ?thesis
    unfolding string_len_for_uint32_def word_less_nat_alt
    by (intro exI [of _ "nat (string_len_for_uint32 i)"]) (auto simp: string_len_for_uint32_def word_less_nat_alt)
qed

section \<open>CRC-8\<close>

text \<open>Bit serial reference: the reflected polynomial 0x07 is 0xE0.\<close>

definition crc8_bit :: "u8 \<Rightarrow> u8" where
  "crc8_bit x = (if odd x then drop_bit 1 x XOR 0xE0 else drop_bit 1 x)"

definition crc8_low :: "u8 list" where
  "crc8_low = [0x00, 0x91, 0xE3, 0x72, 0x07, 0x96, 0xE4, 0x75,
               0x0E, 0x9F, 0xED, 0x7C, 0x09, 0x98, 0xEA, 0x7B]"

definition crc8_high :: "u8 list" where
  "crc8_high = [0x00, 0x1C, 0x38, 0x24, 0x70, 0x6C, 0x48, 0x54,
                0xE0, 0xFC, 0xD8, 0xC4, 0x90, 0x8C, 0xA8, 0xB4]"

lemma crc8_row_lengths: "length crc8_low = 16" "length crc8_high = 16"
  by (simp_all add: crc8_low_def crc8_high_def)

lemma crc8table_rows: "crc8table = concat (map (\<lambda>h. map (\<lambda>l. h XOR l) crc8_low) crc8_high)"
  by (simp add: crc8_high_def crc8_low_def) (simp add: crc8table_def)

lemma nth_concat_map:
  assumes "\<And>x. length (f x) = k" and "i < length xs" and "j < k"
  shows "concat (map f xs) ! (k * i + j) = f (xs ! i) ! j"
  using assms(2)
proof (induction xs arbitrary: i)
  case (Cons x xs)
  then show ?case using assms(1,3) by (cases i) (auto simp: nth_append)
qed simp

lemma crc8_bit_xor: "crc8_bit (x XOR y) = crc8_bit x XOR crc8_bit y"
  by (rule bit_word_eqI) (auto simp: crc8_bit_def bit_simps even_xor_iff)

lemma crc8_bit_pow_xor: "(crc8_bit ^^ n) (x XOR y) = (crc8_bit ^^ n) x XOR (crc8_bit ^^ n) y"
  by (induction n) (simp_all add: crc8_bit_xor)

lemma crc8_bit_8: "(crc8_bit ^^ 8) x =
    crc8_bit (crc8_bit (crc8_bit (crc8_bit (crc8_bit (crc8_bit (crc8_bit (crc8_bit x)))))))"
  by (simp add: eval_nat_numeral)

lemma crc8_low_reference: "map (crc8_bit ^^ 8) [0, 1, 2, 3, 4, 5, 6, 7, 8, 9, 10, 11, 12, 13, 14, 15] = crc8_low"
  by (simp add: crc8_bit_8 crc8_low_def crc8_bit_def)

lemma crc8_high_reference: "map (crc8_bit ^^ 8)
   [0x00, 0x10, 0x20, 0x30, 0x40, 0x50, 0x60, 0x70, 0x80, 0x90, 0xA0, 0xB0, 0xC0, 0xD0, 0xE0, 0xF0] = crc8_high"
  by (simp add: crc8_bit_8 crc8_high_def crc8_bit_def)

lemma crc8_lookup_reference: "crc8_lookup x = (crc8_bit ^^ 8) x"
proof -
  let ?i = "unat x div 16" and ?j = "unat x mod 16"
  have i: "?i < 16" using unat_u8_less [of x] by (simp only: less_mult_imp_div_less)
  have j: "?j < 16" by simp
  have split: "x = push_bit 4 (drop_bit 4 x) XOR take_bit 4 x"
    by (rule bit_word_eqI) (auto simp: bit_simps)
  have hi: "push_bit 4 (drop_bit 4 x) =
      [0x00, 0x10, 0x20, 0x30, 0x40, 0x50, 0x60, 0x70, 0x80, 0x90, 0xA0, 0xB0, 0xC0, 0xD0, 0xE0, 0xF0] ! ?i"
  proof -
    have "map (\<lambda>k. push_bit 4 (of_nat k :: u8)) [0..<16] =
      [0x00, 0x10, 0x20, 0x30, 0x40, 0x50, 0x60, 0x70, 0x80, 0x90, 0xA0, 0xB0, 0xC0, 0xD0, 0xE0, 0xF0]"
      by (simp add: upt_rec)
    then have "push_bit 4 (of_nat ?i :: u8) =
      [0x00, 0x10, 0x20, 0x30, 0x40, 0x50, 0x60, 0x70, 0x80, 0x90, 0xA0, 0xB0, 0xC0, 0xD0, 0xE0, 0xF0] ! ?i"
      using i by (metis (no_types, lifting) add_0 diff_zero length_upt nth_map nth_upt)
    moreover have "drop_bit 4 x = of_nat ?i"
      unfolding word_unat_eq_iff unat_drop_bit_eq using i by (simp add: drop_bit_eq_div unat_of_nat)
    ultimately show ?thesis by simp
  qed
  have lo: "take_bit 4 x = [0, 1, 2, 3, 4, 5, 6, 7, 8, 9, 10, 11, 12, 13, 14, 15] ! ?j"
  proof -
    have "map of_nat [0..<16] = ([0, 1, 2, 3, 4, 5, 6, 7, 8, 9, 10, 11, 12, 13, 14, 15] :: u8 list)"
      by (simp add: upt_rec)
    then have "of_nat ?j = ([0, 1, 2, 3, 4, 5, 6, 7, 8, 9, 10, 11, 12, 13, 14, 15] :: u8 list) ! ?j"
      using j by (metis (no_types, lifting) add_0 diff_zero length_upt nth_map nth_upt)
    moreover have "take_bit 4 x = of_nat ?j"
      unfolding word_unat_eq_iff unsigned_take_bit_eq by (simp add: take_bit_eq_mod unat_of_nat)
    ultimately show ?thesis by simp
  qed
  have "crc8_high ! ?i = (crc8_bit ^^ 8) (push_bit 4 (drop_bit 4 x))"
    unfolding crc8_high_reference [symmetric] hi by (rule nth_map) (rule order.strict_trans2 [OF i], simp)
  moreover have "crc8_low ! ?j = (crc8_bit ^^ 8) (take_bit 4 x)"
    unfolding crc8_low_reference [symmetric] lo by (rule nth_map) (rule order.strict_trans2 [OF j], simp)
  ultimately have "(crc8_bit ^^ 8) x = crc8_high ! ?i XOR crc8_low ! ?j"
    by (subst split) (simp only: crc8_bit_pow_xor)
  moreover have "crc8_lookup x = crc8_high ! ?i XOR crc8_low ! ?j"
  proof -
    have "crc8table ! (16 * ?i + ?j) = map (\<lambda>l. crc8_high ! ?i XOR l) crc8_low ! ?j"
      unfolding crc8table_rows
      by (rule nth_concat_map [where f = "\<lambda>h. map (\<lambda>l. h XOR l) crc8_low"])
         (simp_all add: crc8_row_lengths i)
    then show ?thesis using j by (simp add: crc8_lookup_def crc8_row_lengths nth_map)
  qed
  ultimately show ?thesis by simp
qed

lemma crc8_bit_zero: "crc8_bit z = 0 \<Longrightarrow> z = 0"
proof (rule bit_word_eqI)
  fix n assume z: "crc8_bit z = 0" and n: "n < LENGTH(8)"
  have "bit (crc8_bit z) 7 = odd z"
    by (auto simp: crc8_bit_def bit_simps dest: bit_imp_le_length)
  then have ev: "even z" using z by simp
  then have d: "drop_bit 1 z = 0" using z by (simp add: crc8_bit_def)
  show "bit z n = bit 0 n"
  proof (cases n)
    case 0
    then show ?thesis using ev by (simp add: bit_0)
  next
    case (Suc m)
    have "bit (drop_bit 1 z) m = bit z (Suc m)" by (simp add: bit_simps)
    then show ?thesis using d Suc by simp
  qed
qed

lemma crc8_lookup_inj: "crc8_lookup x = crc8_lookup y \<longleftrightarrow> x = y"
proof
  assume "crc8_lookup x = crc8_lookup y"
  then have z: "(crc8_bit ^^ 8) (x XOR y) = 0"
    by (simp only: crc8_lookup_reference crc8_bit_pow_xor xor_self_eq)
  have "(crc8_bit ^^ n) v = 0 \<Longrightarrow> v = 0" for n v
    by (induction n) (auto dest: crc8_bit_zero)
  with z have "x XOR y = 0" by blast
  then show "x = y" by simp
qed simp

lemma crc8_rounds_eq:
  "n \<le> length data \<Longrightarrow>
     crc8_rounds data n = Some (foldl (\<lambda>c b. crc8_lookup (c XOR b)) CRC8_INIT (take n data))"
  by (induction n) (simp_all add: buf_simps take_Suc_conv_app_nth)

lemma crc8_fold_inj:
  "foldl (\<lambda>c b. crc8_lookup (c XOR b)) c xs = foldl (\<lambda>c b. crc8_lookup (c XOR b)) d xs \<longleftrightarrow> c = d"
  by (induction xs arbitrary: c d) (auto simp: crc8_lookup_inj)

lemma crc8_eq:
  "unat len \<le> length data \<Longrightarrow>
     crc8 data len = Some (foldl (\<lambda>c b. crc8_lookup (c XOR b)) CRC8_INIT (take (unat len) data))"
  by (simp add: crc8_def crc8_rounds_eq)

lemma crc8_update_detected:
  assumes "k < length xs" and "b \<noteq> xs ! k"
  shows "foldl (\<lambda>c b. crc8_lookup (c XOR b)) c (xs[k := b]) \<noteq> foldl (\<lambda>c b. crc8_lookup (c XOR b)) c xs"
  using assms
proof (induction xs arbitrary: c k)
  case (Cons x xs)
  then show ?case by (cases k) (auto simp: crc8_fold_inj crc8_lookup_inj)
qed simp

text \<open>A received checksum is accepted exactly when both sides computed the same register.\<close>

lemma crc8_ok_iff: "crc8_lookup (c' XOR (0xFF - c)) = CRC8_OK \<longleftrightarrow> c' = c"
proof -
  have "(0xFF :: u8) = - 1" by simp
  then have n: "0xFF - c = NOT c" by (simp add: not_eq_complement)
  have ok: "CRC8_OK = crc8_lookup 0xFF" by (simp add: CRC8_OK_def crc8_lookup_def crc8table_def)
  have "0xFF = c XOR NOT c" using \<open>(0xFF :: u8) = - 1\<close> by simp
  then show ?thesis unfolding ok crc8_lookup_inj n by (simp only: xor_right_cancel)
qed

text \<open>C17: CRC-8 error detection.  The checksum that \<open>btstack_crc8_calc\<close> appends is accepted by
  \<open>btstack_crc8_check\<close> on the unchanged data, and rejected whenever exactly one byte of the data
  arrives with any other value, for every length and position.\<close>

theorem btstack_crc8_detects:
  assumes "unat len = length data" and "k < length data" and "b \<noteq> data ! k"
  shows "\<exists>fcs. btstack_crc8_calc data len = Some fcs
           \<and> btstack_crc8_check data len fcs = Some 0
           \<and> btstack_crc8_check (data[k := b]) len fcs = Some 1"
  using assms crc8_update_detected [OF assms(2,3), of CRC8_INIT]
  by (simp add: btstack_crc8_calc_def btstack_crc8_check_def crc8_eq crc8_ok_iff)

theorem btstack_crc8_detects_witness:
  "\<exists>fcs. btstack_crc8_calc [0x03, 0x3F, 0x01] 3 = Some fcs
           \<and> btstack_crc8_check [0x03, 0x3F, 0x01] 3 fcs = Some 0
           \<and> btstack_crc8_check ([0x03, 0x3F, 0x01][1 := 0x3E]) 3 fcs = Some 1"
  by (rule btstack_crc8_detects) simp_all

section \<open>Bluetooth base UUID\<close>

lemma length_bluetooth_base_uuid [simp]: "length bluetooth_base_uuid = 16"
  by (simp add: bluetooth_base_uuid_def)

lemma uuid_add_bluetooth_prefix_eq:
  assumes "length uuid = 16"
  shows "uuid_add_bluetooth_prefix uuid v =
     Some ([to8 (drop_bit 24 v), to8 (drop_bit 16 v), to8 (drop_bit 8 v), to8 v] @ drop 4 bluetooth_base_uuid)"
  using assms
  by (simp add: uuid_add_bluetooth_prefix_def wr_range_def bluetooth_base_uuid_def big_endian_store_32_def wr_def)

lemma memcmp_n_refl: "n \<le> length a \<Longrightarrow> memcmp_n n a a = Some 0"
proof (induction n arbitrary: a)
  case (Suc n)
  then show ?case by (cases a) auto
qed simp

lemma memcmp_n_zero_iff:
  "n \<le> length a \<Longrightarrow> n \<le> length b \<Longrightarrow>
     (\<exists>r. memcmp_n n a b = Some r) \<and> (memcmp_n n a b = Some 0 \<longleftrightarrow> take n a = take n b)"
  by (induction n a b rule: memcmp_n.induct) auto

lemma uuid_prefix_recognised:
  assumes "length uuid = 16"
  shows "do { u \<leftarrow> uuid_add_bluetooth_prefix uuid v; uuid_has_bluetooth_prefix u } = Some True
       \<and> do { u \<leftarrow> uuid_add_bluetooth_prefix uuid v; big_endian_read_32 u 0 } = Some v"
  using assms join_32 [of v]
  by (simp add: uuid_add_bluetooth_prefix_eq uuid_has_bluetooth_prefix_def memcmp_n_refl
      big_endian_read_32_def buf_simps)

end
