(* ===== verification/Ring_Buffer.thy ===== *)
theory Ring_Buffer
  imports BT_Util
begin

text \<open>
  Model of \<open>btstack_ring_buffer.c\<close>: a byte queue in a circular array with 32 bit indices and an
  explicit \<open>full\<close> flag.  The abstraction \<open>rb_contents\<close> is the queued byte sequence; the operations
  refine appending to it and taking a prefix off it.  The locale \<open>byte_fifo\<close> states that
  contract and derives from it that bytes come out in the order they went in.
\<close>

section \<open>State and operations\<close>

record ring_buffer =
  rb_storage :: buffer
  rb_size :: u32
  last_read_index :: u32
  last_written_index :: u32
  rb_full :: bool

definition ERROR_CODE_MEMORY_CAPACITY_EXCEEDED :: int where
  "ERROR_CODE_MEMORY_CAPACITY_EXCEEDED = 0x07"

definition btstack_ring_buffer_init :: "buffer \<Rightarrow> u32 \<Rightarrow> ring_buffer" where
  "btstack_ring_buffer_init storage storage_size =
     \<lparr> rb_storage = storage, rb_size = storage_size,
       last_read_index = 0, last_written_index = 0, rb_full = False \<rparr>"

text \<open>\<open>diff\<close> is an \<open>int\<close>: the unsigned difference is reinterpreted as a signed number.\<close>

definition btstack_ring_buffer_bytes_available :: "ring_buffer \<Rightarrow> u32" where
  "btstack_ring_buffer_bytes_available rb =
     (if rb_full rb then rb_size rb
      else let diff = last_written_index rb - last_read_index rb
        in if sint diff \<ge> 0 then diff else diff + rb_size rb)"

definition btstack_ring_buffer_empty :: "ring_buffer \<Rightarrow> bool" where
  "btstack_ring_buffer_empty rb \<longleftrightarrow> btstack_ring_buffer_bytes_available rb = 0"

definition btstack_ring_buffer_bytes_free :: "ring_buffer \<Rightarrow> u32" where
  "btstack_ring_buffer_bytes_free rb = rb_size rb - btstack_ring_buffer_bytes_available rb"

definition btstack_ring_buffer_write :: "ring_buffer \<Rightarrow> buffer \<Rightarrow> u32 \<Rightarrow> (int \<times> ring_buffer) option" where
  "btstack_ring_buffer_write rb data data_length =
     (if btstack_ring_buffer_bytes_free rb < data_length then Some (ERROR_CODE_MEMORY_CAPACITY_EXCEEDED, rb)
      else if data_length = 0 then Some (0, rb)
      else do {
        let bytes_until_end = rb_size rb - last_written_index rb;
        let bytes_to_copy = btstack_min bytes_until_end data_length;
        chunk \<leftarrow> rd_range data 0 (unat bytes_to_copy);
        st \<leftarrow> wr_range (rb_storage rb) (unat (last_written_index rb)) chunk;
        let data_length = data_length - bytes_to_copy;
        let data = drop (unat bytes_to_copy) data;
        let w = last_written_index rb + bytes_to_copy;
        let w = (if w = rb_size rb then 0 else w);
        (st, w) \<leftarrow>
          (if data_length \<noteq> 0 then do {
             chunk \<leftarrow> rd_range data 0 (unat data_length);
             st \<leftarrow> wr_range st 0 chunk;
             Some (st, w + data_length) }
           else Some (st, w));
        Some (0, rb\<lparr> rb_storage := st, last_written_index := w,
                     rb_full := (if w = last_read_index rb then True else rb_full rb) \<rparr>) })"

text \<open>\<open>read\<close> returns the buffer state, the destination buffer and \<open>*number_of_bytes_read\<close>.\<close>

definition btstack_ring_buffer_read :: "ring_buffer \<Rightarrow> buffer \<Rightarrow> u32 \<Rightarrow> (ring_buffer \<times> buffer \<times> u32) option" where
  "btstack_ring_buffer_read rb data data_length =
     (let data_length = btstack_min data_length (btstack_ring_buffer_bytes_available rb);
          number_of_bytes_read = data_length
      in if data_length = 0 then Some (rb, data, number_of_bytes_read)
      else do {
        let bytes_until_end = rb_size rb - last_read_index rb;
        let bytes_to_copy = btstack_min bytes_until_end data_length;
        chunk \<leftarrow> rd_range (rb_storage rb) (unat (last_read_index rb)) (unat bytes_to_copy);
        data \<leftarrow> wr_range data 0 chunk;
        let data_length = data_length - bytes_to_copy;
        let r = last_read_index rb + bytes_to_copy;
        let r = (if r = rb_size rb then 0 else r);
        (data, r) \<leftarrow>
          (if data_length \<noteq> 0 then do {
             chunk \<leftarrow> rd_range (rb_storage rb) 0 (unat data_length);
             data \<leftarrow> wr_range data (unat bytes_to_copy) chunk;
             Some (data, r + data_length) }
           else Some (data, r));
        Some (rb\<lparr> last_read_index := r, rb_full := False \<rparr>, data, number_of_bytes_read) })"

section \<open>Invariant and abstraction\<close>

definition rb_inv :: "ring_buffer \<Rightarrow> bool" where
  "rb_inv rb \<longleftrightarrow> length (rb_storage rb) = unat (rb_size rb) \<and> 0 < unat (rb_size rb) \<and> unat (rb_size rb) \<le> 2 ^ 31
     \<and> unat (last_read_index rb) < unat (rb_size rb) \<and> unat (last_written_index rb) < unat (rb_size rb)
     \<and> (rb_full rb \<longrightarrow> last_read_index rb = last_written_index rb)"

text \<open>The number of queued bytes, on natural numbers.\<close>

definition rb_count :: "ring_buffer \<Rightarrow> nat" where
  "rb_count rb = (if rb_full rb then unat (rb_size rb)
     else if unat (last_read_index rb) \<le> unat (last_written_index rb)
     then unat (last_written_index rb) - unat (last_read_index rb)
     else unat (rb_size rb) - unat (last_read_index rb) + unat (last_written_index rb))"

definition rb_contents :: "ring_buffer \<Rightarrow> buffer" where
  "rb_contents rb = take (rb_count rb)
     (drop (unat (last_read_index rb)) (rb_storage rb) @ take (unat (last_read_index rb)) (rb_storage rb))"

lemma rb_count_le: "rb_inv rb \<Longrightarrow> rb_count rb \<le> unat (rb_size rb)"
  by (auto simp: rb_inv_def rb_count_def)

lemma length_rb_contents: "rb_inv rb \<Longrightarrow> length (rb_contents rb) = rb_count rb"
  using rb_count_le [of rb] by (auto simp: rb_contents_def rb_inv_def min_def)

lemma sint_small:
  fixes a :: u32
  assumes "unat a < 2 ^ 31"
  shows "sint a = uint a" and "0 \<le> uint a" and "uint a < 2 ^ 31"
proof -
  from assms have "unat a < 2147483648" by simp
  then have "int (unat a) < 2147483648" by linarith
  then show lt: "uint a < 2 ^ 31" by simp
  show ge: "0 \<le> uint a" by simp
  then have "- (2 ^ 31) \<le> uint a" by (rule order.trans [rotated]) simp
  with lt show "sint a = uint a" by (simp add: sint_uint signed_take_bit_int_eq_self)
qed

lemma sint_diff_nonneg:
  fixes a b :: u32
  assumes "unat a < 2 ^ 31" and "unat b < 2 ^ 31"
  shows "0 \<le> sint (a - b) \<longleftrightarrow> unat b \<le> unat a"
proof -
  note a = sint_small [OF assms(1)] and b = sint_small [OF assms(2)]
  have "sint (a - b) = signed_take_bit 31 (sint a - sint b)"
    by (simp add: sint_word_ariths)
  also have "\<dots> = sint a - sint b"
    by (rule signed_take_bit_int_eq_self; unfold a(1) b(1); use a b in linarith)
  finally have "0 \<le> sint (a - b) \<longleftrightarrow> uint b \<le> uint a" unfolding a(1) b(1) by linarith
  then show ?thesis by (simp only: word_le_nat_alt [symmetric] word_le_def)
qed

lemma unat_minus_u32: "unat (b :: u32) \<le> unat a \<Longrightarrow> unat (a - b) = unat a - unat b"
  by (simp add: unat_sub word_le_nat_alt)

lemma bytes_available_count:
  assumes "rb_inv rb"
  shows "unat (btstack_ring_buffer_bytes_available rb) = rb_count rb"
proof -
  let ?r = "last_read_index rb" and ?w = "last_written_index rb" and ?s = "rb_size rb"
  have b: "unat ?r < unat ?s" "unat ?w < unat ?s" "unat ?s \<le> 2 ^ 31"
    using assms by (auto simp: rb_inv_def)
  have d: "0 \<le> sint (?w - ?r) \<longleftrightarrow> unat ?r \<le> unat ?w" using b by (intro sint_diff_nonneg) auto
  show ?thesis
  proof (cases "unat ?r \<le> unat ?w")
    case True
    then show ?thesis using d
      by (simp add: btstack_ring_buffer_bytes_available_def rb_count_def unat_minus_u32)
  next
    case False
    have e: "?w - ?r + ?s = ?w + (?s - ?r)" by simp
    have "unat (?w - ?r + ?s) = unat ?w + (unat ?s - unat ?r)"
      unfolding e using b False by (subst unat_plus_no_wrap) (simp_all add: unat_minus_u32)
    then show ?thesis using d False
      by (simp add: btstack_ring_buffer_bytes_available_def rb_count_def)
  qed
qed

lemma bytes_free_count:
  "rb_inv rb \<Longrightarrow> unat (btstack_ring_buffer_bytes_free rb) = unat (rb_size rb) - rb_count rb"
  using rb_count_le [of rb] bytes_available_count [of rb]
  by (simp add: btstack_ring_buffer_bytes_free_def unat_minus_u32)

lemma rb_init_inv:
  assumes "length storage = unat n" and "0 < unat n" and "unat n \<le> 2 ^ 31"
  shows "rb_inv (btstack_ring_buffer_init storage n)"
    and "rb_contents (btstack_ring_buffer_init storage n) = []"
  using assms by (simp_all add: rb_inv_def btstack_ring_buffer_init_def rb_contents_def rb_count_def)

section \<open>Reading refines taking a prefix\<close>

lemma unat_btstack_min: "unat (btstack_min a b) = min (unat a) (unat b)"
  by (simp add: btstack_min_def word_less_nat_alt min_def)

lemma word_zero_iff_u32: "(x :: u32) = 0 \<longleftrightarrow> unat x = 0"
  by (simp add: unat_eq_0)

lemma mod_wrap: "a < s \<Longrightarrow> k \<le> s \<Longrightarrow> (a + k) mod s = (if a + k < s then a + k else a + k - s)" for a k s :: nat
  by (simp add: mod_if)

lemma rb_contents_nth:
  assumes "rb_inv rb" and "k < rb_count rb"
  shows "rb_contents rb ! k =
           rb_storage rb ! ((unat (last_read_index rb) + k) mod unat (rb_size rb))"
proof -
  have "k < unat (rb_size rb)" using assms rb_count_le [of rb] by simp
  moreover have "rb_contents rb ! k =
      (drop (unat (last_read_index rb)) (rb_storage rb) @ take (unat (last_read_index rb)) (rb_storage rb)) ! k"
    using assms(2) by (simp only: rb_contents_def nth_take)
  ultimately show ?thesis using assms
    by (auto simp: rb_inv_def nth_append mod_wrap add.commute)
qed

lemma last_written_mod:
  "rb_inv rb \<Longrightarrow> unat (last_written_index rb) =
     (unat (last_read_index rb) + rb_count rb) mod unat (rb_size rb)"
  by (auto simp: rb_inv_def rb_count_def mod_wrap)

text \<open>The effect of a successful write on the array: the byte at distance \<open>j\<close> from the write
  index is the \<open>j\<close>-th new one as long as \<open>j < n\<close>, all others are untouched.\<close>

definition ring_dist :: "nat \<Rightarrow> nat \<Rightarrow> nat \<Rightarrow> nat" where
  "ring_dist s w i = (if w \<le> i then i - w else i + s - w)"

lemma ring_write_exec:
  assumes inv: "rb_inv rb" and len: "unat n \<le> length data" and n: "n \<noteq> 0"
    and fits: "rb_count rb + unat n \<le> unat (rb_size rb)"
  defines "w \<equiv> unat (last_written_index rb)" and "s \<equiv> unat (rb_size rb)"
  shows "\<exists>st w'. btstack_ring_buffer_write rb data n =
             Some (0, rb\<lparr> rb_storage := st, last_written_index := w', rb_full := (w' = last_read_index rb) \<rparr>)
           \<and> length st = s \<and> unat w' = (w + unat n) mod s
           \<and> (\<forall>i < s. st ! i = (if ring_dist s w i < unat n then data ! ring_dist s w i else rb_storage rb ! i))"
proof -
  let ?c = "btstack_min (rb_size rb - last_written_index rb) n"
  have b: "w < s" "s \<le> 2 ^ 31" "length (rb_storage rb) = s" using inv by (auto simp: rb_inv_def w_def s_def)
  have n0: "0 < unat n" using n by (simp add: unat_gt_0)
  have nf: "\<not> rb_full rb" using n0 fits by (auto simp: rb_count_def)
  have nb: "\<not> btstack_ring_buffer_bytes_free rb < n"
    using fits bytes_free_count [OF inv] by (simp add: word_less_nat_alt)
  have su: "unat (rb_size rb - last_written_index rb) = s - w"
    using b by (simp add: unat_minus_u32 s_def w_def)
  have c: "unat ?c = min (s - w) (unat n)" by (simp add: unat_btstack_min su)
  have cn: "unat (n - ?c) = unat n - unat ?c" by (rule unat_minus_u32) (simp add: c)
  have wc: "unat (last_written_index rb + ?c) = w + unat ?c"
    using b c unfolding w_def by (subst unat_plus_no_wrap) auto
  have ns: "unat n \<le> s" using fits s_def by simp
  show ?thesis
  proof (cases "unat n \<le> s - w")
    case True
    then have c': "?c = n" using c by (simp add: word_unat_eq_iff)
    define st where "st = take w (rb_storage rb) @ take (unat n) data @ drop (w + unat n) (rb_storage rb)"
    define w' where "w' = (if last_written_index rb + n = rb_size rb then 0 else last_written_index rb + n)"
    have "unat w' = (w + unat n) mod s"
      using wc True b ns unfolding c' w'_def by (auto simp: mod_wrap word_unat_eq_iff s_def)
    moreover have "btstack_ring_buffer_write rb data n =
        Some (0, rb\<lparr> rb_storage := st, last_written_index := w', rb_full := (w' = last_read_index rb) \<rparr>)"
      using True b len n nf nb
      by (simp add: btstack_ring_buffer_write_def Let_def c' rd_range_Some wr_range_Some st_def w'_def
          w_def [symmetric])
    moreover have "length st = s" using True b len by (simp add: st_def)
    moreover have "\<forall>i < s. st ! i = (if ring_dist s w i < unat n then data ! ring_dist s w i else rb_storage rb ! i)"
      using True b len by (auto simp: st_def ring_dist_def nth_append)
    ultimately show ?thesis by blast
  next
    case False
    then have c': "unat ?c = s - w" using c by simp
    have last: "last_written_index rb + ?c = rb_size rb"
      using wc c' b by (simp add: word_unat_eq_iff s_def)
    have nz: "n - ?c \<noteq> 0" using cn c' False by (auto simp: word_unat_eq_iff)
    define m where "m = unat n - (s - w)"
    have m: "m \<le> w" "unat (n - ?c) = m" "m + (s - w) = unat n" using False ns b cn c' by (auto simp: m_def)
    define st where "st = take m (drop (s - w) data) @ drop m (take w (rb_storage rb) @ take (s - w) data)"
    define w' where "w' = n - ?c"
    have "w + unat n = m + s" using m(3) b by arith
    then have "unat w' = (w + unat n) mod s"
      using False b ns m by (simp add: w'_def mod_wrap)
    moreover have "btstack_ring_buffer_write rb data n =
        Some (0, rb\<lparr> rb_storage := st, last_written_index := w', rb_full := (w' = last_read_index rb) \<rparr>)"
      using b len n nf nb nz m
      by (simp add: btstack_ring_buffer_write_def Let_def c' last rd_range_Some wr_range_Some st_def w'_def
          w_def [symmetric] min_absorb2)
    moreover have "length st = s" using b len m by (simp add: st_def)
    moreover have "\<forall>i < s. st ! i = (if ring_dist s w i < unat n then data ! ring_dist s w i else rb_storage rb ! i)"
      using b len m by (auto simp: st_def ring_dist_def nth_append add.commute)
    ultimately show ?thesis by blast
  qed
qed

lemma ring_dist_mod:
  assumes "r < s" and "c \<le> s" and "k < s"
  shows "ring_dist s ((r + c) mod s) ((r + k) mod s) = (if c \<le> k \<and> c < s then k - c else if c = s then k else k + s - c)"
  using assms by (auto simp: ring_dist_def mod_wrap)

lemma ring_write_refines:
  assumes inv: "rb_inv rb" and len: "unat n \<le> length data"
    and fits: "rb_count rb + unat n \<le> unat (rb_size rb)"
  shows "\<exists>rb'. btstack_ring_buffer_write rb data n = Some (0, rb') \<and> rb_inv rb'
           \<and> rb_contents rb' = rb_contents rb @ take (unat n) data \<and> rb_size rb' = rb_size rb"
proof (cases "n = 0")
  case True
  then show ?thesis using inv by (simp add: btstack_ring_buffer_write_def word_less_nat_alt)
next
  case n: False
  let ?r = "unat (last_read_index rb)" and ?s = "unat (rb_size rb)" and ?n = "unat n" and ?c = "rb_count rb"
  let ?w = "unat (last_written_index rb)"
  obtain st w' where ex: "btstack_ring_buffer_write rb data n =
        Some (0, rb\<lparr> rb_storage := st, last_written_index := w', rb_full := (w' = last_read_index rb) \<rparr>)"
    and st: "length st = ?s" and w': "unat w' = (?w + ?n) mod ?s"
    and nth: "\<forall>i < ?s. st ! i = (if ring_dist ?s ?w i < ?n then data ! ring_dist ?s ?w i else rb_storage rb ! i)"
    using ring_write_exec [OF inv len n fits] by blast
  let ?rb = "rb\<lparr> rb_storage := st, last_written_index := w', rb_full := (w' = last_read_index rb) \<rparr>"
  have b: "?r < ?s" "?w < ?s" using inv by (auto simp: rb_inv_def)
  have n0: "0 < ?n" using n by (simp add: unat_gt_0)
  then have c: "?c < ?s" using fits by simp
  have w: "?w = (?r + ?c) mod ?s" by (rule last_written_mod [OF inv])
  have w'': "unat w' = (?r + (?c + ?n)) mod ?s" by (simp add: w' w mod_simps add.assoc)
  have inv': "rb_inv ?rb" using inv st w' b by (auto simp: rb_inv_def)
  have cnt: "rb_count ?rb = ?c + ?n"
    using w'' b fits c n0 by (auto simp: rb_count_def mod_wrap word_unat_eq_iff split: if_splits)
  have "rb_contents ?rb = rb_contents rb @ take ?n data"
  proof (rule nth_equalityI)
    show "length (rb_contents ?rb) = length (rb_contents rb @ take ?n data)"
      using len by (simp add: length_rb_contents [OF inv] length_rb_contents [OF inv'] cnt)
  next
    fix k assume "k < length (rb_contents ?rb)"
    then have k: "k < ?c + ?n" by (simp add: length_rb_contents [OF inv'] cnt)
    have d: "ring_dist ?s ?w ((?r + k) mod ?s) = (if ?c \<le> k then k - ?c else k + ?s - ?c)"
      using ring_dist_mod [of ?r ?s ?c k] b c k fits by (auto simp: w)
    have "rb_contents ?rb ! k = st ! ((?r + k) mod ?s)"
      using rb_contents_nth [OF inv', of k] k cnt by simp
    also have "\<dots> = (if ?c \<le> k then data ! (k - ?c) else rb_storage rb ! ((?r + k) mod ?s))"
      using nth b d k fits by auto
    also have "\<dots> = (rb_contents rb @ take ?n data) ! k"
      using k by (auto simp: nth_append length_rb_contents [OF inv] rb_contents_nth [OF inv])
    finally show "rb_contents ?rb ! k = (rb_contents rb @ take ?n data) ! k" .
  qed
  with ex inv' show ?thesis by auto
qed

lemma ring_write_rejects:
  assumes "rb_inv rb" and "unat (rb_size rb) < rb_count rb + unat n"
  shows "btstack_ring_buffer_write rb data n = Some (ERROR_CODE_MEMORY_CAPACITY_EXCEEDED, rb)"
proof -
  have "btstack_ring_buffer_bytes_free rb < n"
    using assms bytes_free_count [OF assms(1)] rb_count_le [OF assms(1)] by (simp add: word_less_nat_alt)
  then show ?thesis by (simp add: btstack_ring_buffer_write_def)
qed

section \<open>Reading refines taking a prefix\<close>

lemma ring_read_empty:
  assumes "rb_inv rb" and "min (unat n) (rb_count rb) = 0"
  shows "btstack_ring_buffer_read rb dest n = Some (rb, dest, 0)"
proof -
  have "btstack_min n (btstack_ring_buffer_bytes_available rb) = 0"
    using assms by (simp add: word_unat_eq_iff unat_btstack_min bytes_available_count)
  then show ?thesis by (simp add: btstack_ring_buffer_read_def)
qed

lemma ring_read_exec:
  assumes inv: "rb_inv rb" and k: "k = min (unat n) (rb_count rb)" and "0 < k" and len: "k \<le> length dest"
  shows "\<exists>r' m. btstack_ring_buffer_read rb dest n =
             Some (rb\<lparr> last_read_index := r', rb_full := False \<rparr>, take k (rb_contents rb) @ drop k dest, m)
           \<and> unat m = k \<and> unat r' = (unat (last_read_index rb) + k) mod unat (rb_size rb)"
proof -
  define r s st where "r = unat (last_read_index rb)" and "s = unat (rb_size rb)" and "st = rb_storage rb"
  define l where "l = btstack_min n (btstack_ring_buffer_bytes_available rb)"
  have l: "unat l = k" using inv by (simp add: l_def k unat_btstack_min bytes_available_count)
  have l0: "l \<noteq> 0" using l \<open>0 < k\<close> by auto
  have b: "r < s" "s \<le> 2 ^ 31" "length st = s" using inv by (auto simp: rb_inv_def r_def s_def st_def)
  have ks: "k \<le> s" using k rb_count_le [OF inv] by (simp add: s_def)
  let ?c = "btstack_min (rb_size rb - last_read_index rb) l"
  have su: "unat (rb_size rb - last_read_index rb) = s - r" using b by (simp add: unat_minus_u32 s_def r_def)
  have c: "unat ?c = min (s - r) k" by (simp add: unat_btstack_min su l)
  have cl: "unat (l - ?c) = k - unat ?c" using c l by (subst unat_minus_u32) simp_all
  have rc: "unat (last_read_index rb + ?c) = r + unat ?c"
    using b c unfolding r_def by (subst unat_plus_no_wrap) auto
  have cont: "take k (rb_contents rb) = take k (drop r st) @ take (k - (s - r)) (take r st)"
  proof -
    have "min k (rb_count rb) = k" using k by simp
    then have "take k (rb_contents rb) = take k (drop r st @ take r st)"
      by (simp only: rb_contents_def r_def [symmetric] st_def [symmetric] take_take)
    then show ?thesis using b by simp
  qed
  show ?thesis
  proof (cases "k \<le> s - r")
    case True
    then have c': "?c = l" using c l by (simp add: word_unat_eq_iff)
    define r' where "r' = (if last_read_index rb + l = rb_size rb then 0 else last_read_index rb + l)"
    have "unat r' = (r + k) mod s"
      using rc True b ks l unfolding c' r'_def by (auto simp: mod_wrap word_unat_eq_iff s_def)
    moreover have "btstack_ring_buffer_read rb dest n =
        Some (rb\<lparr> last_read_index := r', rb_full := False \<rparr>, take k (rb_contents rb) @ drop k dest, l)"
      using True b len l l0 \<open>0 < k\<close>
      by (simp add: btstack_ring_buffer_read_def l_def [symmetric] c' Let_def rd_range_Some wr_range_Some
          cont r_def [symmetric] st_def [symmetric] r'_def)
    ultimately show ?thesis using l by (auto simp: r_def s_def)
  next
    case False
    then have c': "unat ?c = s - r" using c by simp
    have last: "last_read_index rb + ?c = rb_size rb" using rc c' b by (simp add: word_unat_eq_iff s_def)
    have nz: "l - ?c \<noteq> 0" using cl c' False by (auto simp: word_unat_eq_iff)
    define m where "m = k - (s - r)"
    have m: "m \<le> r" "unat (l - ?c) = m" "m + (s - r) = k" "r + k = m + s"
      using False ks b cl c' by (auto simp: m_def)
    have "unat (l - ?c) = (r + k) mod s" using m b False ks by (simp add: mod_wrap)
    moreover have "btstack_ring_buffer_read rb dest n =
        Some (rb\<lparr> last_read_index := l - ?c, rb_full := False \<rparr>, take k (rb_contents rb) @ drop k dest, l)"
      using b len l l0 \<open>0 < k\<close> m nz
      by (simp add: btstack_ring_buffer_read_def l_def [symmetric] c' last Let_def rd_range_Some wr_range_Some
          cont r_def [symmetric] st_def [symmetric] m_def [symmetric] min_absorb2)
    ultimately show ?thesis using l by (auto simp: r_def s_def)
  qed
qed

lemma ring_read_refines:
  assumes inv: "rb_inv rb" and len: "min (unat n) (rb_count rb) \<le> length dest"
  shows "\<exists>rb' dest' m. btstack_ring_buffer_read rb dest n = Some (rb', dest', m) \<and> rb_inv rb'
           \<and> unat m = min (unat n) (rb_count rb)
           \<and> dest' = take (unat m) (rb_contents rb) @ drop (unat m) dest
           \<and> rb_contents rb' = drop (unat m) (rb_contents rb) \<and> rb_size rb' = rb_size rb"
proof (cases "min (unat n) (rb_count rb) = 0")
  case True
  then show ?thesis using ring_read_empty [OF inv True, of dest] inv by simp
next
  case False
  define k r s where "k = min (unat n) (rb_count rb)" and "r = unat (last_read_index rb)"
    and "s = unat (rb_size rb)"
  obtain r' m where ex: "btstack_ring_buffer_read rb dest n =
             Some (rb\<lparr> last_read_index := r', rb_full := False \<rparr>, take k (rb_contents rb) @ drop k dest, m)"
    and m: "unat m = k" and r': "unat r' = (r + k) mod s"
    using ring_read_exec [OF inv k_def _ len [folded k_def]] False by (auto simp: k_def r_def s_def)
  let ?rb = "rb\<lparr> last_read_index := r', rb_full := False \<rparr>"
  have b: "r < s" "unat (last_written_index rb) < s" using inv by (auto simp: rb_inv_def r_def s_def)
  have c: "rb_count rb \<le> s" using rb_count_le [OF inv] by (simp add: s_def)
  have w: "unat (last_written_index rb) = (r + rb_count rb) mod s"
    using last_written_mod [OF inv] by (simp add: r_def s_def)
  have inv': "rb_inv ?rb" using inv r' b by (auto simp: rb_inv_def s_def)
  have k: "0 < k" "k \<le> rb_count rb" using False by (auto simp: k_def)
  have "unat r' = (if r + k < s then r + k else r + k - s)"
    using r' b c k by (simp add: mod_wrap)
  moreover have "unat (last_written_index rb) = (if r + rb_count rb < s then r + rb_count rb else r + rb_count rb - s)"
    using w b c by (simp add: mod_wrap)
  moreover have "rb_count ?rb = (if unat r' \<le> unat (last_written_index rb) then unat (last_written_index rb) - unat r'
      else s - unat r' + unat (last_written_index rb))"
    by (simp add: rb_count_def s_def)
  ultimately have cnt: "rb_count ?rb = rb_count rb - k"
    using b c k by (simp split: if_split_asm)
  have "rb_contents ?rb = drop k (rb_contents rb)"
  proof (rule nth_equalityI)
    show "length (rb_contents ?rb) = length (drop k (rb_contents rb))"
      by (simp add: length_rb_contents [OF inv] length_rb_contents [OF inv'] cnt)
  next
    fix i assume "i < length (rb_contents ?rb)"
    then have i: "i + k < rb_count rb" using cnt by (simp add: length_rb_contents [OF inv'])
    have "rb_contents ?rb ! i = rb_storage rb ! ((r + k + i) mod s)"
      using rb_contents_nth [OF inv', of i] i cnt r' by (simp add: s_def mod_simps)
    also have "\<dots> = drop k (rb_contents rb) ! i"
      using rb_contents_nth [OF inv, of "k + i"] i
      by (simp add: length_rb_contents [OF inv] r_def s_def add.assoc add.commute)
    finally show "rb_contents ?rb ! i = drop k (rb_contents rb) ! i" .
  qed
  with ex inv' m show ?thesis by (auto simp: k_def)
qed

section \<open>The FIFO contract\<close>

text \<open>
  A client sees a queue of bytes with a capacity: \<open>put\<close> appends or refuses, \<open>get\<close> delivers up to
  \<open>n\<close> bytes.  \<open>contents\<close> is the abstract queue.
\<close>

datatype fifo_op = Put buffer | Get nat

fun fifo_run :: "('s \<Rightarrow> buffer \<Rightarrow> (bool \<times> 's) option) \<Rightarrow> ('s \<Rightarrow> nat \<Rightarrow> (buffer \<times> 's) option) \<Rightarrow>
    's \<Rightarrow> fifo_op list \<Rightarrow> (buffer \<times> buffer \<times> 's) option" where
  "fifo_run put get s [] = Some ([], [], s)"
| "fifo_run put get s (Put xs # ops) = do {
     (ok, s) \<leftarrow> put s xs;
     (inp, out, s) \<leftarrow> fifo_run put get s ops;
     Some ((if ok then xs else []) @ inp, out, s) }"
| "fifo_run put get s (Get n # ops) = do {
     (ys, s) \<leftarrow> get s n;
     (inp, out, s) \<leftarrow> fifo_run put get s ops;
     Some (inp, ys @ out, s) }"

locale byte_fifo =
  fixes inv :: "'s \<Rightarrow> bool" and contents :: "'s \<Rightarrow> buffer" and capacity :: "'s \<Rightarrow> nat"
    and put :: "'s \<Rightarrow> buffer \<Rightarrow> (bool \<times> 's) option"
    and get :: "'s \<Rightarrow> nat \<Rightarrow> (buffer \<times> 's) option"
    and lim :: nat
  assumes bound: "inv s \<Longrightarrow> length (contents s) \<le> capacity s"
    and put_law: "inv s \<Longrightarrow> length xs < lim \<Longrightarrow>
      \<exists>s'. put s xs = Some (length (contents s) + length xs \<le> capacity s, s') \<and> inv s'
         \<and> capacity s' = capacity s
         \<and> contents s' = contents s @ (if length (contents s) + length xs \<le> capacity s then xs else [])"
    and get_law: "inv s \<Longrightarrow> n < lim \<Longrightarrow>
      \<exists>s'. get s n = Some (take n (contents s), s') \<and> inv s' \<and> capacity s' = capacity s
         \<and> contents s' = drop n (contents s)"
begin

lemma run_order:
  assumes "inv s" and "\<forall>op \<in> set ops. case op of Put xs \<Rightarrow> length xs < lim | Get n \<Rightarrow> n < lim"
  shows "\<exists>inp out s'. fifo_run put get s ops = Some (inp, out, s') \<and> inv s' \<and> capacity s' = capacity s
           \<and> contents s @ inp = out @ contents s'"
  using assms
proof (induction ops arbitrary: s)
  case Nil
  then show ?case by simp
next
  case (Cons op ops)
  show ?case
  proof (cases op)
    case (Put xs)
    let ?ok = "length (contents s) + length xs \<le> capacity s"
    obtain s1 where s1: "put s xs = Some (?ok, s1)" "inv s1" "capacity s1 = capacity s"
      and c1: "contents s1 = contents s @ (if ?ok then xs else [])"
      using put_law [of s xs] Cons.prems Put by auto
    obtain inp out s' where r: "fifo_run put get s1 ops = Some (inp, out, s')" "inv s'"
        "capacity s' = capacity s1" "contents s1 @ inp = out @ contents s'"
      using Cons.IH [of s1] Cons.prems s1(2) by auto
    show ?thesis using s1 r c1 by (auto simp: Put)
  next
    case (Get n)
    obtain s1 where s1: "get s n = Some (take n (contents s), s1)" "inv s1" "capacity s1 = capacity s"
        "contents s1 = drop n (contents s)"
      using get_law [of s n] Cons.prems Get by auto
    obtain inp out s' where r: "fifo_run put get s1 ops = Some (inp, out, s')" "inv s'"
        "capacity s' = capacity s1" "contents s1 @ inp = out @ contents s'"
      using Cons.IH [of s1] Cons.prems s1(2) by auto
    have "contents s @ inp = (take n (contents s) @ out) @ contents s'"
      using r(4) s1(4) by (metis append_assoc append_take_drop_id)
    then show ?thesis using s1 r by (simp add: Get)
  qed
qed

end

text \<open>A client that hands over a whole array, and one that reads into a fresh array of \<open>n\<close> bytes.\<close>

definition rb_put :: "ring_buffer \<Rightarrow> buffer \<Rightarrow> (bool \<times> ring_buffer) option" where
  "rb_put rb xs = do {
     (err, rb) \<leftarrow> btstack_ring_buffer_write rb xs (of_nat (length xs));
     Some (err = 0, rb) }"

definition rb_get :: "ring_buffer \<Rightarrow> nat \<Rightarrow> (buffer \<times> ring_buffer) option" where
  "rb_get rb n = do {
     (rb, data, m) \<leftarrow> btstack_ring_buffer_read rb (replicate n 0) (of_nat n);
     Some (take (unat m) data, rb) }"

lemma rb_put_law:
  assumes "rb_inv rb" and "length xs < 2 ^ 32"
  shows "\<exists>rb'. rb_put rb xs = Some (length (rb_contents rb) + length xs \<le> unat (rb_size rb), rb') \<and> rb_inv rb'
     \<and> unat (rb_size rb') = unat (rb_size rb)
     \<and> rb_contents rb' = rb_contents rb @ (if length (rb_contents rb) + length xs \<le> unat (rb_size rb) then xs else [])"
proof -
  have u: "unat (of_nat (length xs) :: u32) = length xs" using assms(2) by (simp add: unat_of_nat_u32)
  show ?thesis
  proof (cases "rb_count rb + length xs \<le> unat (rb_size rb)")
    case True
    then show ?thesis
      using ring_write_refines [OF assms(1), of "of_nat (length xs)" xs]
      by (auto simp: u rb_put_def length_rb_contents [OF assms(1)])
  next
    case False
    then show ?thesis
      using ring_write_rejects [OF assms(1), of "of_nat (length xs)" xs] assms(1)
      by (simp add: u rb_put_def length_rb_contents [OF assms(1)] ERROR_CODE_MEMORY_CAPACITY_EXCEEDED_def)
  qed
qed

lemma rb_get_law:
  assumes "rb_inv rb" and "n < 2 ^ 32"
  shows "\<exists>rb'. rb_get rb n = Some (take n (rb_contents rb), rb') \<and> rb_inv rb'
     \<and> unat (rb_size rb') = unat (rb_size rb) \<and> rb_contents rb' = drop n (rb_contents rb)"
proof -
  have u: "unat (of_nat n :: u32) = n" using assms(2) by (simp add: unat_of_nat_u32)
  have c: "length (rb_contents rb) = rb_count rb" by (rule length_rb_contents [OF assms(1)])
  obtain rb' dest' m where r: "btstack_ring_buffer_read rb (replicate n 0) (of_nat n) = Some (rb', dest', m)"
    and i: "rb_inv rb'" and m: "unat m = min n (rb_count rb)"
    and d: "dest' = take (unat m) (rb_contents rb) @ drop (unat m) (replicate n 0)"
    and c': "rb_contents rb' = drop (unat m) (rb_contents rb)" and s: "rb_size rb' = rb_size rb"
    using ring_read_refines [OF assms(1), of "of_nat n" "replicate n 0"] by (auto simp: u)
  have "take (unat m) (rb_contents rb) = take n (rb_contents rb)"
    and "drop (unat m) (rb_contents rb) = drop n (rb_contents rb)"
    using m c by (auto simp: min_def)
  then show ?thesis using r i d c' s m c by (simp add: rb_get_def)
qed

interpretation rb: byte_fifo rb_inv rb_contents "\<lambda>rb. unat (rb_size rb)" rb_put rb_get "2 ^ 32"
proof unfold_locales
  show "rb_inv s \<Longrightarrow> length (rb_contents s) \<le> unat (rb_size s)" for s
    using rb_count_le [of s] by (simp add: length_rb_contents)
next
  show "rb_inv s \<Longrightarrow> length xs < 2 ^ 32 \<Longrightarrow>
      \<exists>s'. rb_put s xs = Some (length (rb_contents s) + length xs \<le> unat (rb_size s), s') \<and> rb_inv s'
         \<and> unat (rb_size s') = unat (rb_size s)
         \<and> rb_contents s' = rb_contents s @ (if length (rb_contents s) + length xs \<le> unat (rb_size s) then xs else [])"
    for s xs by (rule rb_put_law)
next
  show "rb_inv s \<Longrightarrow> n < 2 ^ 32 \<Longrightarrow>
      \<exists>s'. rb_get s n = Some (take n (rb_contents s), s') \<and> rb_inv s'
         \<and> unat (rb_size s') = unat (rb_size s) \<and> rb_contents s' = drop n (rb_contents s)"
    for s n by (rule rb_get_law)
qed

text \<open>C8: FIFO order of the ring buffer.  Any sequence of writes and reads on a ring buffer that
  starts from \<open>btstack_ring_buffer_init\<close> (storage of up to 2^31 bytes) stays inside its arrays and
  keeps the index invariant; the bytes read, followed by the bytes still queued, are exactly the
  bytes of the accepted writes in order: nothing is lost, duplicated or reordered.\<close>

theorem ring_buffer_fifo_order:
  assumes "length storage = unat storage_size" and "0 < unat storage_size" and "unat storage_size \<le> 2 ^ 31"
    and "\<forall>op \<in> set ops. case op of Put xs \<Rightarrow> length xs < 2 ^ 32 | Get n \<Rightarrow> n < 2 ^ 32"
  shows "\<exists>inp out rb. fifo_run rb_put rb_get (btstack_ring_buffer_init storage storage_size) ops = Some (inp, out, rb)
           \<and> rb_inv rb \<and> inp = out @ rb_contents rb"
  using rb.run_order [OF rb_init_inv(1) [OF assms(1-3)] assms(4)]
  by (auto simp: rb_init_inv(2) [OF assms(1-3)])

theorem ring_buffer_fifo_order_witness:
  "\<exists>inp out rb. fifo_run rb_put rb_get (btstack_ring_buffer_init [0, 0, 0] 3)
       [Put [1, 2], Get 1, Put [3, 4], Put [5], Get 9] = Some (inp, out, rb)
     \<and> rb_inv rb \<and> inp = out @ rb_contents rb"
  by (rule ring_buffer_fifo_order) simp_all

end
