(* ===== verification/Linked_List.thy ===== *)
theory Linked_List
  imports BT_Prelude
begin

text \<open>
  Model of \<open>btstack_linked_list.c\<close>: intrusive singly linked lists.  The store maps the address of
  every node to the content of its \<open>next\<close> field; a list variable is itself such a node, as the
  code makes it by its casts.  Reading or writing through an address outside the store (the null
  pointer in particular) is the value \<^const>\<open>None\<close>, and so is a loop over a cyclic chain: \<open>Some\<close> means that
  the call returns.
\<close>

section \<open>Store\<close>

type_synonym addr = nat
type_synonym store = "addr \<rightharpoonup> addr"

definition NULL :: addr where "NULL = 0"

definition set_next :: "store \<Rightarrow> addr \<Rightarrow> addr \<Rightarrow> store option" where
  "set_next h a v = (if a \<in> dom h then Some (h(a \<mapsto> v)) else None)"

section \<open>Operations\<close>

definition btstack_linked_list_empty :: "store \<Rightarrow> addr \<Rightarrow> bool option" where
  "btstack_linked_list_empty h list = do { first \<leftarrow> h list; Some (first = NULL) }"

partial_function (option) last_item_from :: "store \<Rightarrow> addr \<Rightarrow> addr \<Rightarrow> addr option" where
  "last_item_from h it lastItem =
     (if it = NULL then Some lastItem else do { n \<leftarrow> h it; last_item_from h n it })"

definition btstack_linked_list_get_last_item :: "store \<Rightarrow> addr \<Rightarrow> addr option" where
  "btstack_linked_list_get_last_item h list = do { first \<leftarrow> h list; last_item_from h first NULL }"

partial_function (option) in_list_from :: "store \<Rightarrow> addr \<Rightarrow> addr \<Rightarrow> bool option" where
  "in_list_from h it item =
     (if it = NULL then Some False else if it = item then Some True
      else do { n \<leftarrow> h it; in_list_from h n item })"

definition btstack_linked_list_add :: "store \<Rightarrow> addr \<Rightarrow> addr \<Rightarrow> store option" where
  "btstack_linked_list_add h list item = do {
     first \<leftarrow> h list;
     found \<leftarrow> in_list_from h first item;
     if found then Some h
     else do { h \<leftarrow> set_next h item first; set_next h list item } }"

text \<open>The loop of \<open>add_tail\<close> ends at the last node, or at one that already points to \<open>item\<close>.\<close>

partial_function (option) tail_from :: "store \<Rightarrow> addr \<Rightarrow> addr \<Rightarrow> (bool \<times> addr) option" where
  "tail_from h it item = do {
     n \<leftarrow> h it;
     if n = NULL then Some (False, it)
     else if n = item then Some (True, it)
     else tail_from h n item }"

definition btstack_linked_list_add_tail :: "store \<Rightarrow> addr \<Rightarrow> addr \<Rightarrow> store option" where
  "btstack_linked_list_add_tail h list item = do {
     (found, it) \<leftarrow> tail_from h list item;
     if found then Some h
     else do { h \<leftarrow> set_next h item NULL; set_next h it item } }"

partial_function (option) remove_from :: "store \<Rightarrow> addr \<Rightarrow> addr \<Rightarrow> (int \<times> store) option" where
  "remove_from h it item =
     (if it = NULL then Some (-1, h)
      else do {
        n \<leftarrow> h it;
        if n = item then do { m \<leftarrow> h item; h \<leftarrow> set_next h it m; Some (0, h) }
        else remove_from h n item })"

definition btstack_linked_list_remove :: "store \<Rightarrow> addr \<Rightarrow> addr \<Rightarrow> (int \<times> store) option" where
  "btstack_linked_list_remove h list item =
     (if item = NULL then Some (-1, h) else remove_from h list item)"

partial_function (option) count_from :: "store \<Rightarrow> addr \<Rightarrow> int \<Rightarrow> int option" where
  "count_from h it counter = do {
     n \<leftarrow> h it;
     if n = NULL then Some counter else count_from h n (counter + 1) }"

definition btstack_linked_list_count :: "store \<Rightarrow> addr \<Rightarrow> int option" where
  "btstack_linked_list_count h list = count_from h list 0"

definition btstack_linked_list_get_first_item :: "store \<Rightarrow> addr \<Rightarrow> addr option" where
  "btstack_linked_list_get_first_item h list = h list"

definition btstack_linked_list_pop :: "store \<Rightarrow> addr \<Rightarrow> (addr \<times> store) option" where
  "btstack_linked_list_pop h list = do {
     item \<leftarrow> h list;
     if item = NULL then Some (NULL, h)
     else do { n \<leftarrow> h item; h \<leftarrow> set_next h list n; Some (item, h) } }"

record list_iterator =
  advance_on_next :: bool
  it_prev :: addr
  it_curr :: addr

definition btstack_linked_list_iterator_init :: "store \<Rightarrow> addr \<Rightarrow> list_iterator option" where
  "btstack_linked_list_iterator_init h head = do {
     first \<leftarrow> h head;
     Some \<lparr> advance_on_next = False, it_prev = head, it_curr = first \<rparr> }"

definition btstack_linked_list_iterator_has_next :: "store \<Rightarrow> list_iterator \<Rightarrow> bool option" where
  "btstack_linked_list_iterator_has_next h it =
     (if \<not> advance_on_next it then Some (it_curr it \<noteq> NULL)
      else do {
        pn \<leftarrow> h (it_prev it);
        if pn \<noteq> it_curr it then Some (pn \<noteq> NULL)
        else do { n \<leftarrow> h (it_curr it); Some (n \<noteq> NULL) } })"

definition btstack_linked_list_iterator_next :: "store \<Rightarrow> list_iterator \<Rightarrow> (addr \<times> list_iterator) option" where
  "btstack_linked_list_iterator_next h it =
     (if advance_on_next it then do {
        pn \<leftarrow> h (it_prev it);
        if pn = it_curr it then do {
          n \<leftarrow> h (it_curr it);
          Some (n, it\<lparr> it_prev := it_curr it, it_curr := n \<rparr>) }
        else Some (pn, it\<lparr> it_curr := pn \<rparr>) }
      else Some (it_curr it, it\<lparr> advance_on_next := True \<rparr>))"

definition btstack_linked_list_iterator_remove :: "store \<Rightarrow> list_iterator \<Rightarrow> (store \<times> list_iterator) option" where
  "btstack_linked_list_iterator_remove h it = do {
     pn \<leftarrow> h (it_prev it); \<comment> \<open>only logged when different from \<open>curr\<close>\<close>
     n \<leftarrow> h (it_curr it);
     h \<leftarrow> set_next h (it_prev it) n;
     Some (h, it\<lparr> it_curr := n, advance_on_next := False \<rparr>) }"

section \<open>Well formed lists\<close>

text \<open>\<open>chain h a xs\<close>: following the \<open>next\<close> field of \<open>a\<close> visits exactly \<open>xs\<close> and ends.\<close>

primrec chain :: "store \<Rightarrow> addr \<Rightarrow> addr list \<Rightarrow> bool" where
  "chain h a [] = (h a = Some NULL)"
| "chain h a (x # xs) = (h a = Some x \<and> x \<noteq> NULL \<and> chain h x xs)"

definition linked :: "store \<Rightarrow> addr \<Rightarrow> addr list \<Rightarrow> bool" where
  "linked h list xs \<longleftrightarrow> list \<noteq> NULL \<and> distinct (list # xs) \<and> chain h list xs"

lemma chain_update [simp]: "a \<noteq> b \<Longrightarrow> b \<notin> set xs \<Longrightarrow> chain (h(b \<mapsto> v)) a xs = chain h a xs"
  by (induction xs arbitrary: a) auto

lemma chain_suffix: "chain h a (xs @ y # ys) \<Longrightarrow> chain h y ys \<and> h (last (a # xs)) = Some y"
  by (induction xs arbitrary: a) auto

lemma chain_not_null: "chain h a xs \<Longrightarrow> NULL \<notin> set xs"
  by (induction xs arbitrary: a) auto

lemma chain_dom: "chain h a xs \<Longrightarrow> insert a (set xs) \<subseteq> dom h"
  by (induction xs arbitrary: a) auto

lemma chain_first: "chain h a xs \<Longrightarrow> h a = Some (case xs of [] \<Rightarrow> NULL | x # _ \<Rightarrow> x)"
  by (cases xs) auto

lemma chain_last: "chain h a xs \<Longrightarrow> h (last (a # xs)) = Some NULL"
  by (induction xs arbitrary: a) auto

text \<open>Redirecting the node before the rest of a chain, and the two ways of growing one.\<close>

lemma chain_replace_tail:
  "chain h a (xs @ ys) \<Longrightarrow> distinct (a # xs) \<Longrightarrow> b = last (a # xs) \<Longrightarrow> chain (h(b \<mapsto> v)) b zs
     \<Longrightarrow> chain (h(b \<mapsto> v)) a (xs @ zs)"
proof (induction xs arbitrary: a)
  case (Cons x xs)
  have "last (x # xs) \<noteq> a" using Cons.prems(2) by (metis distinct.simps(2) last_in_set list.distinct(1))
  then show ?case using Cons by auto
qed simp

lemma in_list_from_eq:
  "chain h a xs \<Longrightarrow> h a = Some p \<Longrightarrow> in_list_from h p item = Some (item \<in> set xs)"
proof (induction xs arbitrary: a p)
  case (Cons x xs)
  obtain q where "h x = Some q" using Cons.prems(1) by (auto dest: chain_first)
  then show ?case using Cons.prems Cons.IH [of x q] by (auto simp: in_list_from.simps [of h x])
qed (simp add: in_list_from.simps)

lemma last_item_from_eq:
  "chain h a xs \<Longrightarrow> h a = Some p \<Longrightarrow> last_item_from h p l = Some (if xs = [] then l else last xs)"
proof (induction xs arbitrary: a p l)
  case (Cons x xs)
  obtain q where "h x = Some q" using Cons.prems(1) by (auto dest: chain_first)
  then show ?case using Cons.prems Cons.IH [of x q x] by (auto simp: last_item_from.simps [of h x])
qed (simp add: last_item_from.simps)

lemma count_from_eq: "chain h a xs \<Longrightarrow> count_from h a c = Some (c + int (length xs))"
proof (induction xs arbitrary: a c)
  case (Cons x xs)
  then show ?case by (simp add: count_from.simps [of h a])
qed (simp add: count_from.simps)

lemma tail_from_eq:
  "chain h a xs \<Longrightarrow> item \<notin> set xs \<Longrightarrow> tail_from h a item = Some (False, last (a # xs))"
proof (induction xs arbitrary: a)
  case (Cons x xs)
  then show ?case by (simp add: tail_from.simps [of h a])
qed (simp add: tail_from.simps)

lemma tail_from_found:
  "chain h a xs \<Longrightarrow> item \<in> set xs \<Longrightarrow> \<exists>it. tail_from h a item = Some (True, it)"
proof (induction xs arbitrary: a)
  case (Cons x xs)
  then show ?case by (auto simp: tail_from.simps [of h a])
qed simp

lemma remove_from_absent:
  "chain h a xs \<Longrightarrow> a \<noteq> NULL \<Longrightarrow> item \<noteq> NULL \<Longrightarrow> item \<notin> set xs \<Longrightarrow> remove_from h a item = Some (-1, h)"
proof (induction xs arbitrary: a)
  case Nil
  then show ?case by (simp add: remove_from.simps)
next
  case (Cons x xs)
  then show ?case by (simp add: remove_from.simps [of h a])
qed

lemma remove_from_present:
  assumes "chain h a (xs @ item # ys)" and "a \<noteq> NULL" and "item \<notin> set xs"
  shows "remove_from h a item =
           Some (0, h(last (a # xs) \<mapsto> (case ys of [] \<Rightarrow> NULL | y # _ \<Rightarrow> y)))"
  using assms
proof (induction xs arbitrary: a)
  case Nil
  then have "h a = Some item" "h item = Some (case ys of [] \<Rightarrow> NULL | y # _ \<Rightarrow> y)"
    by (auto dest: chain_first)
  then show ?case using Nil by (auto simp: remove_from.simps [of h a] set_next_def)
next
  case (Cons x xs)
  then show ?case by (simp add: remove_from.simps [of h a])
qed

section \<open>The operations refine the operations on the abstract list\<close>

text \<open>Every operation also leaves the nodes outside of the list alone (\<open>same_except\<close>).\<close>

definition same_except :: "addr set \<Rightarrow> store \<Rightarrow> store \<Rightarrow> bool" where
  "same_except A h h' \<longleftrightarrow> dom h' = dom h \<and> (\<forall>a. a \<notin> A \<longrightarrow> h' a = h a)"

lemma same_except_trans: "same_except A h h' \<Longrightarrow> same_except A h' h'' \<Longrightarrow> same_except A h h''"
  by (simp add: same_except_def)

lemma same_except_mono: "same_except A h h' \<Longrightarrow> A \<subseteq> B \<Longrightarrow> same_except B h h'"
  by (auto simp: same_except_def)

lemma same_except_chain: "same_except A h h' \<Longrightarrow> A \<inter> insert a (set xs) = {} \<Longrightarrow> chain h' a xs = chain h a xs"
  by (induction xs arbitrary: a) (auto simp: same_except_def)

lemma same_except_linked: "same_except A h h' \<Longrightarrow> A \<inter> insert a (set xs) = {} \<Longrightarrow> linked h' a xs = linked h a xs"
  by (simp add: linked_def same_except_chain)

lemma linked_frame: "linked h p fs \<Longrightarrow> same_except A h h' \<Longrightarrow> A \<inter> set (p # fs) = {} \<Longrightarrow> linked h' p fs"
  using same_except_linked [of A h h' p fs] by simp

lemma linked_dom: "linked h list xs \<Longrightarrow> insert list (set xs) \<subseteq> dom h"
  using chain_dom [of h list xs] by (simp add: linked_def)

lemma linked_item: "linked h list xs \<Longrightarrow> x \<in> set xs \<Longrightarrow> x \<in> dom h \<and> x \<noteq> NULL \<and> x \<noteq> list"
  using linked_dom [of h list xs] chain_not_null [of h list xs] by (auto simp: linked_def)

lemma list_add_refines:
  assumes "linked h list xs" and "item \<in> dom h" and "item \<noteq> NULL" and "item \<noteq> list"
  shows "\<exists>h'. btstack_linked_list_add h list item = Some h'
           \<and> linked h' list (if item \<in> set xs then xs else item # xs) \<and> same_except {list, item} h h'"
proof -
  obtain p where p: "h list = Some p" using assms(1) by (auto simp: linked_def dest: chain_first)
  have found: "in_list_from h p item = Some (item \<in> set xs)"
    using assms(1) p by (auto simp: linked_def intro: in_list_from_eq)
  show ?thesis
  proof (cases "item \<in> set xs")
    case True
    then show ?thesis using assms(1) p found by (simp add: btstack_linked_list_add_def same_except_def)
  next
    case False
    let ?h = "h(item \<mapsto> p, list \<mapsto> item)"
    have "chain ?h item xs"
    proof (cases xs)
      case Nil
      then show ?thesis using assms p by (auto simp: linked_def)
    next
      case (Cons x ys)
      then show ?thesis using assms False p by (auto simp: linked_def)
    qed
    then have "linked ?h list (item # xs)" using assms False by (auto simp: linked_def)
    moreover have "btstack_linked_list_add h list item = Some ?h"
      using assms p found False by (auto simp: btstack_linked_list_add_def set_next_def)
    ultimately show ?thesis using assms p False by (auto simp: same_except_def)
  qed
qed

lemma list_add_tail_refines:
  assumes "linked h list xs" and "item \<in> dom h" and "item \<noteq> NULL" and "item \<noteq> list"
  shows "\<exists>h'. btstack_linked_list_add_tail h list item = Some h'
           \<and> linked h' list (if item \<in> set xs then xs else xs @ [item])
           \<and> same_except (insert list (insert item (set xs))) h h'"
proof (cases "item \<in> set xs")
  case True
  then show ?thesis using assms(1) tail_from_found [of h list xs item]
    by (auto simp: linked_def btstack_linked_list_add_tail_def same_except_def)
next
  case False
  let ?l = "last (list # xs)"
  let ?h = "h(item \<mapsto> NULL, ?l \<mapsto> item)"
  have c: "chain h list xs" "distinct (list # xs)" using assms(1) by (auto simp: linked_def)
  have l: "?l \<in> insert list (set xs)" by (cases xs) auto
  then have ne: "?l \<noteq> item" using False assms(4) by auto
  have c1: "chain (h(item \<mapsto> NULL)) list (xs @ [])" using c assms(4) False by simp
  have "chain ?h ?l [item]" using ne assms(3) by simp
  then have "chain ?h list (xs @ [item])"
    by (rule chain_replace_tail [OF c1 c(2) refl])
  then have "linked ?h list (xs @ [item])" using assms c False by (auto simp: linked_def)
  moreover have "?l \<in> dom h" using chain_dom [OF c(1)] l by blast
  ultimately show ?thesis
    using assms False tail_from_eq [OF c(1) False] l
    by (auto simp: btstack_linked_list_add_tail_def set_next_def same_except_def simp del: last.simps)
qed

lemma split_at_item:
  assumes "item \<in> set xs"
  obtains ys zs where "xs = ys @ item # zs" and "item \<notin> set ys" and "remove1 item xs = ys @ zs"
  using split_list_first [OF assms] by (auto simp: remove1_append)

lemma list_remove_refines:
  assumes "linked h list xs" and "item \<noteq> list"
  shows "\<exists>h'. btstack_linked_list_remove h list item = Some (if item \<in> set xs then 0 else -1, h')
           \<and> linked h' list (remove1 item xs) \<and> same_except (insert list (set xs)) h h'
           \<and> h' item = h item"
proof (cases "item \<in> set xs")
  case False
  then show ?thesis using assms
    by (auto simp: linked_def btstack_linked_list_remove_def remove_from_absent remove1_idem same_except_def)
next
  case True
  then obtain ys zs where xs: "xs = ys @ item # zs" "item \<notin> set ys" and r: "remove1 item xs = ys @ zs"
    by (rule split_at_item)
  let ?l = "last (list # ys)" and ?n = "case zs of [] \<Rightarrow> NULL | y # _ \<Rightarrow> y"
  have c: "chain h list (ys @ item # zs)" "distinct (list # ys @ item # zs)" "list \<noteq> NULL"
    using assms(1) xs by (auto simp: linked_def)
  have l: "?l \<in> insert list (set ys)" by (cases ys) auto
  have ne: "item \<noteq> NULL" using chain_not_null [OF c(1)] by auto
  have "chain h item zs" using chain_suffix [OF c(1)] by simp
  moreover have "?l \<notin> set zs" using l c(2) by auto
  ultimately have "chain (h(?l \<mapsto> ?n)) ?l zs"
    by (cases zs) (auto simp del: last.simps)
  then have "chain (h(?l \<mapsto> ?n)) list (ys @ zs)"
    using c by (intro chain_replace_tail [OF c(1)]) auto
  then have "linked (h(?l \<mapsto> ?n)) list (ys @ zs)" using c by (auto simp: linked_def)
  moreover have "btstack_linked_list_remove h list item = Some (0, h(?l \<mapsto> ?n))"
    using remove_from_present [OF c(1) c(3) xs(2)] ne by (simp add: btstack_linked_list_remove_def)
  moreover have "?l \<in> dom h" using chain_dom [OF c(1)] l by auto
  moreover have "?l \<noteq> item" using l c xs(2) by auto
  ultimately show ?thesis using True r l xs by (auto simp: same_except_def simp del: last.simps)
qed

lemma list_pop_refines:
  assumes "linked h list xs"
  shows "\<exists>h'. btstack_linked_list_pop h list = Some (case xs of [] \<Rightarrow> NULL | x # _ \<Rightarrow> x, h')
           \<and> linked h' list (tl xs) \<and> same_except {list} h h'"
proof (cases xs)
  case Nil
  then show ?thesis using assms by (auto simp: linked_def btstack_linked_list_pop_def same_except_def)
next
  case (Cons x ys)
  obtain n where n: "h x = Some n" and n': "n = (case ys of [] \<Rightarrow> NULL | y # _ \<Rightarrow> y)"
    using assms Cons by (auto simp: linked_def dest: chain_first)
  have "chain (h(list \<mapsto> n)) list ys" using assms Cons n' by (cases ys) (auto simp: linked_def)
  then have "linked (h(list \<mapsto> n)) list ys" using assms Cons by (auto simp: linked_def)
  moreover have "btstack_linked_list_pop h list = Some (x, h(list \<mapsto> n))"
    using assms Cons n by (auto simp: linked_def btstack_linked_list_pop_def set_next_def)
  ultimately show ?thesis using Cons assms by (auto simp: same_except_def linked_def)
qed

lemma list_queries:
  assumes "linked h list xs"
  shows "btstack_linked_list_empty h list = Some (xs = [])"
    and "btstack_linked_list_get_first_item h list = Some (case xs of [] \<Rightarrow> NULL | x # _ \<Rightarrow> x)"
    and "btstack_linked_list_get_last_item h list = Some (if xs = [] then NULL else last xs)"
    and "btstack_linked_list_count h list = Some (int (length xs))"
proof -
  have c: "chain h list xs" using assms by (simp add: linked_def)
  note f = chain_first [OF c]
  have "x \<noteq> NULL" if "xs = x # ys" for x ys using c that by simp
  then show "btstack_linked_list_empty h list = Some (xs = [])"
    using f by (cases xs) (auto simp: btstack_linked_list_empty_def)
  show "btstack_linked_list_get_first_item h list = Some (case xs of [] \<Rightarrow> NULL | x # _ \<Rightarrow> x)"
    using f by (simp add: btstack_linked_list_get_first_item_def)
  show "btstack_linked_list_get_last_item h list = Some (if xs = [] then NULL else last xs)"
    using f last_item_from_eq [OF c f] by (simp add: btstack_linked_list_get_last_item_def)
  show "btstack_linked_list_count h list = Some (int (length xs))"
    using count_from_eq [OF c] by (simp add: btstack_linked_list_count_def)
qed

section \<open>Iteration with removal\<close>

text \<open>\<open>iter_rest h list it rest\<close>: the iterator of \<open>list\<close> still has to deliver \<open>rest\<close>.  Three situations:
  nothing delivered yet or the current item removed through the iterator; the current item
  delivered and still linked; the current item delivered and since removed from the list.\<close>

definition iter_at :: "store \<Rightarrow> addr \<Rightarrow> list_iterator \<Rightarrow> addr list \<Rightarrow> addr list \<Rightarrow> bool" where
  "iter_at h list it before rest \<longleftrightarrow> it_prev it = last (list # before) \<and>
     (if \<not> advance_on_next it
      then linked h list (before @ rest) \<and> it_curr it = (case rest of [] \<Rightarrow> NULL | x # _ \<Rightarrow> x)
      else it_curr it \<noteq> NULL \<and> it_curr it \<notin> set before \<and> it_curr it \<notin> set rest \<and>
           (linked h list (before @ it_curr it # rest) \<or> linked h list (before @ rest)))"

definition iter_rest :: "store \<Rightarrow> addr \<Rightarrow> list_iterator \<Rightarrow> addr list \<Rightarrow> bool" where
  "iter_rest h list it rest \<longleftrightarrow> (\<exists>before. iter_at h list it before rest)"

lemma linked_append:
  assumes "linked h list (xs @ ys)"
  shows "chain h (last (list # xs)) ys" and "last (list # xs) \<notin> set ys" and "last (list # xs) \<noteq> NULL"
proof -
  have c: "chain h list (xs @ ys)" and d: "distinct (list # xs @ ys)" and n: "list \<noteq> NULL"
    using assms by (auto simp: linked_def)
  show "chain h (last (list # xs)) ys" using c by (induction xs arbitrary: list) auto
  have l: "last (list # xs) \<in> insert list (set xs)" by (cases xs) auto
  then show "last (list # xs) \<notin> set ys" using d by auto
  show "last (list # xs) \<noteq> NULL" using l n chain_not_null [OF c] by auto
qed

lemma iterator_init_rest:
  "linked h list xs \<Longrightarrow> \<exists>it. btstack_linked_list_iterator_init h list = Some it \<and> iter_rest h list it xs"
  by (auto simp: btstack_linked_list_iterator_init_def iter_rest_def iter_at_def linked_def
      dest!: chain_first intro!: exI [of _ "[]"])

lemma iterator_has_next_rest:
  assumes "iter_rest h list it rest"
  shows "btstack_linked_list_iterator_has_next h it = Some (rest \<noteq> [])"
proof -
  obtain before where p: "it_prev it = last (list # before)"
    and r: "if \<not> advance_on_next it
        then linked h list (before @ rest) \<and> it_curr it = (case rest of [] \<Rightarrow> NULL | x # _ \<Rightarrow> x)
        else it_curr it \<noteq> NULL \<and> it_curr it \<notin> set before \<and> it_curr it \<notin> set rest \<and>
             (linked h list (before @ it_curr it # rest) \<or> linked h list (before @ rest))"
    using assms unfolding iter_rest_def iter_at_def by blast
  show ?thesis
  proof (cases "advance_on_next it")
    case False
    then have "linked h list (before @ rest)" using r by simp
    from linked_append(1) [OF this] have "rest \<noteq> [] \<Longrightarrow> hd rest \<noteq> NULL" by (cases rest) auto
    then show ?thesis using r False
      by (cases rest) (auto simp: btstack_linked_list_iterator_has_next_def)
  next
    case True
    then consider "linked h list (before @ it_curr it # rest)" | "linked h list (before @ rest)"
      using r by auto
    then show ?thesis
    proof cases
      case 1
      from linked_append(1) [OF this] have "chain h (it_prev it) (it_curr it # rest)" using p by simp
      then show ?thesis using True
        by (cases rest) (auto simp: btstack_linked_list_iterator_has_next_def)
    next
      case 2
      from linked_append(1) [OF this] have "chain h (it_prev it) rest" using p by simp
      then show ?thesis using True r
        by (cases rest) (auto simp: btstack_linked_list_iterator_has_next_def)
    qed
  qed
qed

lemma iterator_next_rest:
  assumes "iter_rest h list it (x # rest)"
  shows "\<exists>it'. btstack_linked_list_iterator_next h it = Some (x, it') \<and> iter_rest h list it' rest
           \<and> it_curr it' = x \<and> advance_on_next it'
           \<and> (\<exists>before. it_prev it' = last (list # before) \<and> linked h list (before @ x # rest))"
proof -
  obtain before where p: "it_prev it = last (list # before)"
    and r: "if \<not> advance_on_next it
        then linked h list (before @ x # rest) \<and> it_curr it = (case x # rest of [] \<Rightarrow> NULL | x # _ \<Rightarrow> x)
        else it_curr it \<noteq> NULL \<and> it_curr it \<notin> set before \<and> it_curr it \<notin> set (x # rest) \<and>
             (linked h list (before @ it_curr it # x # rest) \<or> linked h list (before @ x # rest))"
    using assms unfolding iter_rest_def iter_at_def by blast
  have x: "x \<noteq> NULL \<and> x \<notin> set before \<and> x \<notin> set rest" if "linked h list (before @ x # rest)" for before
    using that by (auto simp: linked_def dest!: chain_not_null)
  consider (fresh) "\<not> advance_on_next it" "linked h list (before @ x # rest)" "it_curr it = x"
    | (linked) "advance_on_next it" "linked h list (before @ it_curr it # x # rest)"
    | (removed) "advance_on_next it" "linked h list (before @ x # rest)" "it_curr it \<noteq> x"
    using r by (auto split: if_splits)
  then show ?thesis
  proof cases
    case fresh
    then show ?thesis using p x [OF fresh(2)]
      by (auto simp: btstack_linked_list_iterator_next_def iter_rest_def iter_at_def intro!: exI [of _ before])
  next
    case linked
    from linked_append(1) [OF linked(2)] p
    have "h (it_prev it) = Some (it_curr it)" "h (it_curr it) = Some x" by auto
    moreover have l: "linked h list ((before @ [it_curr it]) @ x # rest)" using linked(2) by simp
    ultimately show ?thesis using linked(1) x [OF l] p
      by (auto simp: btstack_linked_list_iterator_next_def iter_rest_def iter_at_def
          intro!: exI [of _ "before @ [it_curr it]"])
  next
    case removed
    from linked_append(1) [OF removed(2)] p have "h (it_prev it) = Some x" by auto
    then show ?thesis using removed x [OF removed(2)] p
      by (auto simp: btstack_linked_list_iterator_next_def iter_rest_def iter_at_def intro!: exI [of _ before])
  qed
qed

lemma chain_unique: "chain h a xs \<Longrightarrow> chain h a ys \<Longrightarrow> xs = ys"
proof (induction xs arbitrary: a ys)
  case Nil
  then show ?case by (cases ys) auto
next
  case (Cons x xs)
  then show ?case by (cases ys) auto
qed

lemma linked_unique: "linked h list xs \<Longrightarrow> linked h list ys \<Longrightarrow> xs = ys"
  by (auto simp: linked_def intro: chain_unique)

lemma iterator_remove_rest:
  assumes "it_prev it = last (list # before)" and "it_curr it = x" and "linked h list (before @ x # rest)"
  shows "\<exists>h' it'. btstack_linked_list_iterator_remove h it = Some (h', it')
           \<and> linked h' list (before @ rest) \<and> iter_rest h' list it' rest"
proof -
  let ?l = "last (list # before)" and ?n = "case rest of [] \<Rightarrow> NULL | y # _ \<Rightarrow> y"
  have c: "chain h list (before @ x # rest)" "distinct (list # before @ x # rest)" "list \<noteq> NULL"
    using assms(3) by (auto simp: linked_def)
  have t: "chain h ?l (x # rest)" and nin: "?l \<notin> set (x # rest)"
    using linked_append(1,2) [OF assms(3)] by auto
  then have "chain (h(?l \<mapsto> ?n)) ?l rest" by (cases rest) (auto simp del: last.simps)
  then have "chain (h(?l \<mapsto> ?n)) list (before @ rest)"
    using c by (intro chain_replace_tail [OF c(1)]) auto
  then have l: "linked (h(?l \<mapsto> ?n)) list (before @ rest)" using c by (auto simp: linked_def)
  have "h ?l = Some x" "h x = Some ?n" using t by (auto dest: chain_first simp del: last.simps)
  then have "btstack_linked_list_iterator_remove h it =
      Some (h(?l \<mapsto> ?n), it\<lparr> it_curr := ?n, advance_on_next := False \<rparr>)"
    using assms(1,2) by (auto simp: btstack_linked_list_iterator_remove_def set_next_def simp del: last.simps)
  then show ?thesis using l assms(1) by (auto simp: iter_rest_def iter_at_def simp del: last.simps)
qed

lemma list_remove_current_rest:
  assumes "it_prev it = last (list # before)" and "it_curr it = x" and "advance_on_next it"
    and "linked h list (before @ x # rest)"
  shows "\<exists>h'. btstack_linked_list_remove h list x = Some (0, h')
           \<and> linked h' list (before @ rest) \<and> iter_rest h' list it rest"
proof -
  have c: "chain h list (before @ x # rest)" "distinct (list # before @ x # rest)"
    using assms(4) by (auto simp: linked_def)
  have x: "x \<noteq> NULL" "x \<noteq> list" "x \<notin> set before" "x \<notin> set rest"
    using c chain_not_null [OF c(1)] by auto
  obtain h' where "btstack_linked_list_remove h list x = Some (0, h')"
      and "linked h' list (remove1 x (before @ x # rest))"
    using list_remove_refines [OF assms(4) x(2)] by auto
  moreover have "remove1 x (before @ x # rest) = before @ rest"
    using x by (simp add: remove1_append)
  ultimately show ?thesis using assms x by (auto simp: iter_rest_def iter_at_def simp del: last.simps)
qed

text \<open>A loop over the list that may drop the current element, through the iterator (\<open>P\<close>) or with
  \<open>btstack_linked_list_remove\<close> (\<open>Q\<close>); it records the elements it visits.\<close>

partial_function (option) visit_and_drop ::
    "(addr \<Rightarrow> bool) \<Rightarrow> (addr \<Rightarrow> bool) \<Rightarrow> store \<Rightarrow> addr \<Rightarrow> list_iterator \<Rightarrow> addr list \<Rightarrow> (store \<times> addr list) option" where
  "visit_and_drop P Q h list it visited = do {
     more \<leftarrow> btstack_linked_list_iterator_has_next h it;
     if \<not> more then Some (h, visited)
     else do {
       (x, it) \<leftarrow> btstack_linked_list_iterator_next h it;
       if P x then do {
         (h, it) \<leftarrow> btstack_linked_list_iterator_remove h it;
         visit_and_drop P Q h list it (visited @ [x]) }
       else if Q x then do {
         (r, h) \<leftarrow> btstack_linked_list_remove h list x;
         visit_and_drop P Q h list it (visited @ [x]) }
       else visit_and_drop P Q h list it (visited @ [x]) } }"

lemma visit_and_drop_eq:
  assumes "iter_rest h list it rest" and "linked h list (kept @ rest)"
  shows "\<exists>h'. visit_and_drop P Q h list it visited = Some (h', visited @ rest)
           \<and> linked h' list (kept @ filter (\<lambda>x. \<not> P x \<and> \<not> Q x) rest)"
  using assms
proof (induction rest arbitrary: h it kept visited)
  case Nil
  then show ?case
    by (subst visit_and_drop.simps) (auto simp: iterator_has_next_rest)
next
  case (Cons x rest)
  obtain it' before where nx: "btstack_linked_list_iterator_next h it = Some (x, it')" "iter_rest h list it' rest"
      "it_curr it' = x" "advance_on_next it'" "it_prev it' = last (list # before)"
      and b: "linked h list (before @ x # rest)"
    using iterator_next_rest [OF Cons.prems(1)] by blast
  have kb: "kept = before" using linked_unique [OF Cons.prems(2) b] by simp
  have more: "btstack_linked_list_iterator_has_next h it = Some True"
    using iterator_has_next_rest [OF Cons.prems(1)] by simp
  consider (iter) "P x" | (remove) "\<not> P x" "Q x" | (keep) "\<not> P x" "\<not> Q x" by blast
  then show ?case
  proof cases
    case iter
    obtain h' it'' where r: "btstack_linked_list_iterator_remove h it' = Some (h', it'')"
        "linked h' list (before @ rest)" "iter_rest h' list it'' rest"
      using iterator_remove_rest [OF nx(5,3) b] by blast
    from Cons.IH [OF r(3) r(2), of "visited @ [x]"] show ?thesis
      using more nx(1) r(1) iter kb by (subst visit_and_drop.simps) simp
  next
    case remove
    obtain h' where r: "btstack_linked_list_remove h list x = Some (0, h')"
        "linked h' list (before @ rest)" "iter_rest h' list it' rest"
      using list_remove_current_rest [OF nx(5,3,4) b] by blast
    from Cons.IH [OF r(3) r(2), of "visited @ [x]"] show ?thesis
      using more nx(1) r(1) remove kb by (subst visit_and_drop.simps) simp
  next
    case keep
    have "linked h list ((kept @ [x]) @ rest)" using Cons.prems(2) by simp
    from Cons.IH [OF nx(2) this, of "visited @ [x]"] show ?thesis
      using more nx(1) keep by (subst visit_and_drop.simps) simp
  qed
qed

text \<open>C14: Iteration is robust against removal.  A loop over a well formed list that drops some of its
  elements while it stands on them, with either of the two removal functions, visits every element
  of the original list once and in order, terminates, and leaves exactly the other elements linked.\<close>

theorem iteration_with_removal:
  assumes "linked h list xs"
  shows "\<exists>it h'. btstack_linked_list_iterator_init h list = Some it
           \<and> visit_and_drop P Q h list it [] = Some (h', xs)
           \<and> linked h' list (filter (\<lambda>x. \<not> P x \<and> \<not> Q x) xs)"
proof -
  obtain it where "btstack_linked_list_iterator_init h list = Some it" "iter_rest h list it xs"
    using iterator_init_rest [OF assms] by blast
  moreover from visit_and_drop_eq [OF this(2), of "[]" P Q "[]"] assms
  have "\<exists>h'. visit_and_drop P Q h list it [] = Some (h', xs)
      \<and> linked h' list (filter (\<lambda>x. \<not> P x \<and> \<not> Q x) xs)" by simp
  ultimately show ?thesis by blast
qed

theorem iteration_with_removal_witness:
  "\<exists>it h'. btstack_linked_list_iterator_init [100 \<mapsto> 1, 1 \<mapsto> 2, 2 \<mapsto> 3, 3 \<mapsto> 0] 100 = Some it
     \<and> visit_and_drop (\<lambda>x. x = 1) (\<lambda>x. x = 3) [100 \<mapsto> 1, 1 \<mapsto> 2, 2 \<mapsto> 3, 3 \<mapsto> 0] 100 it [] = Some (h', [1, 2, 3])
     \<and> linked h' 100 (filter (\<lambda>x. \<not> x = 1 \<and> \<not> x = 3) [1, 2, 3])"
  by (rule iteration_with_removal) (simp add: linked_def NULL_def)

end
