(* ===== verification/Memory_Pool.thy ===== *)
theory Memory_Pool
  imports Linked_List
begin

text \<open>
  Model of \<open>btstack_memory_pool.c\<close>: a pool of fixed size blocks whose free blocks form a singly
  linked list threaded through the blocks themselves.  The store is that of \<open>Linked_List\<close>: the
  pool variable and the first word of every block are nodes, each a cell of its own.  That they do not
  overlap rests on the size of the blocks; \<open>Pool_Memory\<close> has the operations on bytes.  The locale \<open>block_pool\<close> is the
  contract of an allocator towards its clients; it yields that a block is never handed out to
  two owners.
\<close>

section \<open>Operations\<close>

definition btstack_memory_pool_get :: "store \<Rightarrow> addr \<Rightarrow> (addr \<times> store) option" where
  "btstack_memory_pool_get h pool = do {
     node \<leftarrow> h pool;
     if node = NULL then Some (NULL, h)
     else do { n \<leftarrow> h node; h \<leftarrow> set_next h pool n; Some (node, h) } }"

partial_function (option) pool_contains_from :: "store \<Rightarrow> addr \<Rightarrow> addr \<Rightarrow> bool option" where
  "pool_contains_from h it node =
     (if it = NULL then Some False else if it = node then Some True
      else do { n \<leftarrow> h it; pool_contains_from h n node })"

definition btstack_memory_pool_free :: "store \<Rightarrow> addr \<Rightarrow> addr \<Rightarrow> store option" where
  "btstack_memory_pool_free h pool block = do {
     first \<leftarrow> h pool;
     twice \<leftarrow> pool_contains_from h first block;
     if twice then Some h
     else do { h \<leftarrow> set_next h block first; set_next h pool block } }"

text \<open>\<open>create\<close> frees the \<open>count\<close> blocks from \<open>mem_ptr\<close> on into an empty pool.\<close>

fun pool_create_from :: "store \<Rightarrow> addr \<Rightarrow> addr \<Rightarrow> nat \<Rightarrow> nat \<Rightarrow> store option" where
  "pool_create_from h pool mem_ptr block_size 0 = Some h"
| "pool_create_from h pool mem_ptr block_size (Suc n) = do {
     h \<leftarrow> btstack_memory_pool_free h pool mem_ptr;
     pool_create_from h pool (mem_ptr + block_size) block_size n }"

definition btstack_memory_pool_create :: "store \<Rightarrow> addr \<Rightarrow> addr \<Rightarrow> nat \<Rightarrow> nat \<Rightarrow> store option" where
  "btstack_memory_pool_create h pool storage count block_size = do {
     h \<leftarrow> set_next h pool NULL;
     pool_create_from h pool storage block_size count }"

section \<open>The allocator contract\<close>

text \<open>\<open>free_blocks s\<close> lists the blocks that are available in state \<open>s\<close>.\<close>

datatype pool_op = Alloc | Release addr

primrec releases_in :: "addr set \<Rightarrow> pool_op \<Rightarrow> bool" where
  "releases_in B Alloc = True"
| "releases_in B (Release b) = (b \<in> B)"

text \<open>A client run: \<open>used\<close> is the set of blocks it holds.\<close>

fun pool_run :: "('s \<Rightarrow> (addr \<times> 's) option) \<Rightarrow> ('s \<Rightarrow> addr \<Rightarrow> 's option) \<Rightarrow> 's \<Rightarrow> addr set \<Rightarrow>
    pool_op list \<Rightarrow> ('s \<times> addr set) option" where
  "pool_run get free s used [] = Some (s, used)"
| "pool_run get free s used (Alloc # ops) = do {
     (b, s) \<leftarrow> get s;
     pool_run get free s (if b = NULL then used else insert b used) ops }"
| "pool_run get free s used (Release b # ops) = do {
     s \<leftarrow> free s b; pool_run get free s (used - {b}) ops }"

locale block_pool =
  fixes inv :: "'s \<Rightarrow> addr list \<Rightarrow> bool" and blocks :: "'s \<Rightarrow> addr set"
    and get :: "'s \<Rightarrow> (addr \<times> 's) option" and free :: "'s \<Rightarrow> addr \<Rightarrow> 's option"
  assumes free_blocks: "inv s fs \<Longrightarrow> distinct fs \<and> set fs \<subseteq> blocks s"
    and block_not_null: "inv s fs \<Longrightarrow> NULL \<notin> blocks s"
    and get_some: "inv s (b # fs) \<Longrightarrow> \<exists>s'. get s = Some (b, s') \<and> inv s' fs \<and> blocks s' = blocks s"
    and get_none: "inv s [] \<Longrightarrow> \<exists>s'. get s = Some (NULL, s') \<and> inv s' [] \<and> blocks s' = blocks s"
    and free_law: "inv s fs \<Longrightarrow> b \<in> blocks s \<Longrightarrow>
      \<exists>s'. free s b = Some s' \<and> inv s' (if b \<in> set fs then fs else b # fs) \<and> blocks s' = blocks s"
begin

lemma run_partition:
  assumes "inv s fs" and "used \<inter> set fs = {}" and "used \<union> set fs = blocks s" and "finite used"
    and "\<forall>op \<in> set ops. releases_in (blocks s) op"
  shows "\<exists>s' used' fs'. pool_run get free s used ops = Some (s', used') \<and> inv s' fs' \<and> used' \<inter> set fs' = {}
           \<and> used' \<union> set fs' = blocks s \<and> card used' + length fs' = card (blocks s)"
  using assms
proof (induction ops arbitrary: s used fs)
  case Nil
  have "card used + length fs = card (used \<union> set fs)"
    using Nil.prems(2,4) free_blocks [OF Nil.prems(1)] by (simp add: card_Un_disjoint distinct_card)
  then show ?case using Nil.prems by auto
next
  case (Cons op ops)
  note d = free_blocks [OF Cons.prems(1)] and nn = block_not_null [OF Cons.prems(1)]
  show ?case
  proof (cases op)
    case Alloc
    show ?thesis
    proof (cases fs)
      case Nil
      then obtain s' where g: "get s = Some (NULL, s')" "inv s' []" "blocks s' = blocks s"
        using get_none Cons.prems(1) by blast
      from Cons.IH [OF g(2), of used] Cons.prems Nil g show ?thesis by (simp add: Alloc)
    next
      case (Cons b gs)
      then obtain s' where g: "get s = Some (b, s')" "inv s' gs" "blocks s' = blocks s"
        using get_some Cons.prems(1) by blast
      have "b \<noteq> NULL" using d nn Cons by auto
      moreover have "insert b used \<inter> set gs = {}" "insert b used \<union> set gs = blocks s"
        using \<open>fs = b # gs\<close> d Cons.prems(2,3) by auto
      ultimately show ?thesis
        using Cons.IH [OF g(2), of "insert b used"] Cons.prems g by (simp add: Alloc)
    qed
  next
    case (Release b)
    then have bB: "b \<in> blocks s" using Cons.prems(5) by auto
    obtain s' where f: "free s b = Some s'" "inv s' (if b \<in> set fs then fs else b # fs)" "blocks s' = blocks s"
      using free_law [OF Cons.prems(1) bB] by blast
    have "(used - {b}) \<inter> set (if b \<in> set fs then fs else b # fs) = {}"
      "(used - {b}) \<union> set (if b \<in> set fs then fs else b # fs) = blocks s"
      using bB Cons.prems(2,3) by auto
    then show ?thesis using Cons.IH [OF f(2), of "used - {b}"] Cons.prems f by (simp add: Release)
  qed
qed

end

section \<open>The pool implements the contract\<close>

lemma pool_contains_from_eq:
  "chain h a xs \<Longrightarrow> h a = Some p \<Longrightarrow> pool_contains_from h p item = Some (item \<in> set xs)"
proof (induction xs arbitrary: a p)
  case (Cons x xs)
  obtain q where "h x = Some q" using Cons.prems(1) by (auto dest: chain_first)
  then show ?case using Cons.prems Cons.IH [of x q] by (auto simp: pool_contains_from.simps [of h x])
qed (simp add: pool_contains_from.simps)

text \<open>Both operations coincide with the list operations they are written out from.\<close>

lemma pool_get_is_pop: "btstack_memory_pool_get h pool = btstack_linked_list_pop h pool"
  by (simp add: btstack_memory_pool_get_def btstack_linked_list_pop_def)

lemma pool_free_is_add:
  assumes "linked h pool fs"
  shows "btstack_memory_pool_free h pool b = btstack_linked_list_add h pool b"
proof -
  have c: "chain h pool fs" using assms by (simp add: linked_def)
  from chain_first [OF c] show ?thesis
    using pool_contains_from_eq [OF c] in_list_from_eq [OF c]
    by (simp add: btstack_memory_pool_free_def btstack_linked_list_add_def)
qed

text \<open>An allocator is a pool variable, the set of its blocks, and the store.\<close>

type_synonym pool_state = "addr \<times> addr set \<times> store"

fun pool_inv :: "pool_state \<Rightarrow> addr list \<Rightarrow> bool" where
  "pool_inv (pool, B, h) fs \<longleftrightarrow> linked h pool fs \<and> set fs \<subseteq> B \<and> B \<subseteq> dom h \<and> NULL \<notin> B \<and> pool \<notin> B"

fun pool_blocks :: "pool_state \<Rightarrow> addr set" where
  "pool_blocks (pool, B, h) = B"

fun pool_get :: "pool_state \<Rightarrow> (addr \<times> pool_state) option" where
  "pool_get (pool, B, h) = do { (b, h) \<leftarrow> btstack_memory_pool_get h pool; Some (b, (pool, B, h)) }"

fun pool_free :: "pool_state \<Rightarrow> addr \<Rightarrow> pool_state option" where
  "pool_free (pool, B, h) b = do { h \<leftarrow> btstack_memory_pool_free h pool b; Some (pool, B, h) }"

lemma pool_free_law:
  assumes "pool_inv (pool, B, h) fs" and "b \<in> B"
  shows "\<exists>h'. btstack_memory_pool_free h pool b = Some h'
           \<and> pool_inv (pool, B, h') (if b \<in> set fs then fs else b # fs) \<and> dom h' = dom h"
proof -
  have l: "linked h pool fs" and s: "set fs \<subseteq> B" "B \<subseteq> dom h" "NULL \<notin> B" "pool \<notin> B"
    using assms(1) by auto
  have "b \<in> dom h" "b \<noteq> NULL" "b \<noteq> pool" using assms(2) s by auto
  from list_add_refines [OF l this]
  obtain h' where h': "btstack_linked_list_add h pool b = Some h'"
      and l': "linked h' pool (if b \<in> set fs then fs else b # fs)" and d: "dom h' = dom h"
    by (auto simp: same_except_def)
  have "set (if b \<in> set fs then fs else b # fs) \<subseteq> B" using assms(2) s(1) by simp
  then have "pool_inv (pool, B, h') (if b \<in> set fs then fs else b # fs)"
    using l' d s by simp
  then show ?thesis using h' d by (simp add: pool_free_is_add [OF l])
qed

lemma pool_get_law:
  assumes "pool_inv (pool, B, h) fs"
  shows "\<exists>h'. btstack_memory_pool_get h pool = Some (case fs of [] \<Rightarrow> NULL | b # _ \<Rightarrow> b, h')
           \<and> pool_inv (pool, B, h') (tl fs)"
proof -
  have l: "linked h pool fs" and s: "set fs \<subseteq> B" "B \<subseteq> dom h" "NULL \<notin> B" "pool \<notin> B"
    using assms by auto
  from list_pop_refines [OF l]
  obtain h' where h': "btstack_linked_list_pop h pool = Some (case fs of [] \<Rightarrow> NULL | x # _ \<Rightarrow> x, h')"
      and l': "linked h' pool (tl fs)" and d: "dom h' = dom h" by (auto simp: same_except_def)
  have "set (tl fs) \<subseteq> B" using s(1) by (cases fs) auto
  then show ?thesis using h' l' d s by (simp add: pool_get_is_pop)
qed

interpretation mp: block_pool pool_inv pool_blocks pool_get pool_free
proof unfold_locales
  fix s :: pool_state and fs
  obtain pool B h where s: "s = (pool, B, h)" by (cases s)
  show "pool_inv s fs \<Longrightarrow> distinct fs \<and> set fs \<subseteq> pool_blocks s"
    and "pool_inv s fs \<Longrightarrow> NULL \<notin> pool_blocks s"
    by (auto simp: linked_def s)
  show "pool_inv s [] \<Longrightarrow> \<exists>s'. pool_get s = Some (NULL, s') \<and> pool_inv s' [] \<and> pool_blocks s' = pool_blocks s"
    using pool_get_law [of pool B h "[]"] by (auto simp: s simp del: pool_inv.simps)
  show "\<exists>s'. pool_get s = Some (b, s') \<and> pool_inv s' fs \<and> pool_blocks s' = pool_blocks s"
    if "pool_inv s (b # fs)" for b
    using pool_get_law [of pool B h "b # fs"] that by (auto simp: s simp del: pool_inv.simps)
  show "\<exists>s'. pool_free s b = Some s' \<and> pool_inv s' (if b \<in> set fs then fs else b # fs)
      \<and> pool_blocks s' = pool_blocks s" if "pool_inv s fs" and "b \<in> pool_blocks s" for b
    using pool_free_law [of pool B h fs b] that by (auto simp: s simp del: pool_inv.simps)
qed

section \<open>Creation\<close>

text \<open>The blocks that \<open>create\<close> cuts the storage into, and their addresses in the free list.\<close>

definition storage_blocks :: "addr \<Rightarrow> nat \<Rightarrow> nat \<Rightarrow> addr list" where
  "storage_blocks storage count block_size = map (\<lambda>i. storage + i * block_size) [0..<count]"

lemma storage_blocks_Suc: "storage_blocks p (Suc n) bs = p # storage_blocks (p + bs) n bs"
proof -
  have "map (\<lambda>i. p + i * bs) [0..<Suc n] = p # map (\<lambda>i. p + i * bs) (map Suc [0..<n])"
    by (simp add: upt_conv_Cons map_Suc_upt del: upt_Suc)
  then show ?thesis by (simp add: storage_blocks_def algebra_simps)
qed

lemma pool_create_from_eq:
  assumes "pool_inv (pool, B, h) fs" and "set (storage_blocks p n bs) \<subseteq> B"
    and "set (storage_blocks p n bs) \<inter> set fs = {}" and "0 < bs"
  shows "\<exists>h'. pool_create_from h pool p bs n = Some h'
           \<and> pool_inv (pool, B, h') (rev (storage_blocks p n bs) @ fs) \<and> dom h' = dom h"
  using assms
proof (induction n arbitrary: h p fs)
  case 0
  then show ?case by (simp add: storage_blocks_def)
next
  case (Suc n)
  note sb = storage_blocks_Suc [of p n bs]
  have pB: "p \<in> B" "p \<notin> set fs" using Suc.prems(2,3) by (auto simp: sb)
  obtain h1 where h1: "btstack_memory_pool_free h pool p = Some h1" "pool_inv (pool, B, h1) (p # fs)" "dom h1 = dom h"
    using pool_free_law [OF Suc.prems(1) pB(1)] pB(2) by auto
  have "p \<notin> set (storage_blocks (p + bs) n bs)" using \<open>0 < bs\<close> by (auto simp: storage_blocks_def)
  then have "set (storage_blocks (p + bs) n bs) \<inter> set (p # fs) = {}" using Suc.prems(3) by (auto simp: sb)
  from Suc.IH [OF h1(2) _ this \<open>0 < bs\<close>] Suc.prems(2) h1 show ?case by (auto simp: sb simp del: pool_inv.simps)
qed

lemma pool_create_eq:
  assumes "pool \<in> dom h" and "pool \<noteq> NULL" and "0 < bs" and "set (storage_blocks p n bs) \<subseteq> dom h"
    and "NULL \<notin> set (storage_blocks p n bs)" and "pool \<notin> set (storage_blocks p n bs)"
  shows "\<exists>h'. btstack_memory_pool_create h pool p n bs = Some h'
           \<and> pool_inv (pool, set (storage_blocks p n bs), h') (rev (storage_blocks p n bs))"
proof -
  let ?h = "h(pool \<mapsto> NULL)"
  have "pool_inv (pool, set (storage_blocks p n bs), ?h) []"
    using assms by (auto simp: linked_def)
  from pool_create_from_eq [OF this _ _ assms(3), of p n]
  show ?thesis using assms(1) by (auto simp: btstack_memory_pool_create_def set_next_def simp del: pool_inv.simps)
qed

lemma pool_create_frame:
  assumes "btstack_memory_pool_create h pool p n bs = Some h'" and "a \<noteq> pool" and "a \<notin> set (storage_blocks p n bs)"
  shows "h' a = h a"
proof -
  have free: "h2 a = h1 a" if "btstack_memory_pool_free h1 pool b = Some h2" "a \<noteq> b" for h1 h2 b
    using that assms(2)
    by (auto simp: btstack_memory_pool_free_def set_next_def bind_eq_Some_conv split: if_splits)
  have from_eq: "h2 a = h1 a" if "pool_create_from h1 pool q bs m = Some h2" "a \<notin> set (storage_blocks q m bs)" for h1 h2 q m
    using that
  proof (induction m arbitrary: q h1)
    case (Suc m)
    obtain h3 where h3: "btstack_memory_pool_free h1 pool q = Some h3" "pool_create_from h3 pool (q + bs) bs m = Some h2"
      using Suc.prems(1) by (auto simp: bind_eq_Some_conv)
    have nin: "a \<noteq> q + i * bs" if "i < Suc m" for i using Suc.prems(2) that by (auto simp: storage_blocks_def)
    have "a \<noteq> q" using nin [of 0] by simp
    moreover have "a \<notin> set (storage_blocks (q + bs) m bs)"
    proof
      assume "a \<in> set (storage_blocks (q + bs) m bs)"
      then obtain i where "i < m" "a = q + bs + i * bs" by (auto simp: storage_blocks_def)
      then show False using nin [of "Suc i"] by simp
    qed
    ultimately show ?case using Suc.IH [OF h3(2)] free [OF h3(1)] by simp
  qed simp
  have "pool_create_from (h(pool \<mapsto> NULL)) pool p bs n = Some h'"
    using assms(1) by (auto simp: btstack_memory_pool_create_def set_next_def bind_eq_Some_conv split: if_splits)
  from from_eq [OF this assms(3)] show ?thesis using assms(2) by simp
qed

end
