(* ===== verification/Pool_Memory.thy ===== *)
theory Pool_Memory
  imports Memory_Pool
begin

text \<open>
  The memory pool on bytes.  \<open>Memory_Pool\<close> gives every address a pointer of its own, which is what its clients need to
  know of it; but the code threads its list through the storage itself, and a pointer takes \<open>sizeof(void *)\<close> bytes there.
  Here memory is a map from addresses to bytes, a pointer is \<open>psz\<close> bytes of it, lowest first, and the operations of
  \<open>btstack_memory_pool.c\<close> read and write those.  On pointers that do not overlap the bytes refine the cells of
  \<open>Memory_Pool\<close>; the header of the pool asks for blocks that are large enough for that.
\<close>

section \<open>Pointers in memory\<close>

type_synonym memory = "addr \<rightharpoonup> u8"

primrec rd_ptr :: "nat \<Rightarrow> memory \<Rightarrow> addr \<Rightarrow> addr option" where
  "rd_ptr 0 m a = Some 0"
| "rd_ptr (Suc n) m a = do { b \<leftarrow> m a; v \<leftarrow> rd_ptr n m (a + 1); Some (unat b + 256 * v) }"

primrec wr_ptr :: "nat \<Rightarrow> memory \<Rightarrow> addr \<Rightarrow> addr \<Rightarrow> memory option" where
  "wr_ptr 0 m a v = Some m"
| "wr_ptr (Suc n) m a v = do { _ \<leftarrow> m a; wr_ptr n (m(a \<mapsto> of_nat v)) (a + 1) (v div 256) }"

section \<open>Operations\<close>

definition memory_pool_get :: "nat \<Rightarrow> memory \<Rightarrow> addr \<Rightarrow> (addr \<times> memory) option" where
  "memory_pool_get psz m pool = do {
     node \<leftarrow> rd_ptr psz m pool;
     if node = NULL then Some (NULL, m)
     else do { n \<leftarrow> rd_ptr psz m node; m \<leftarrow> wr_ptr psz m pool n; Some (node, m) } }"

partial_function (option) memory_pool_contains_from :: "nat \<Rightarrow> memory \<Rightarrow> addr \<Rightarrow> addr \<Rightarrow> bool option" where
  "memory_pool_contains_from psz m it node =
     (if it = NULL then Some False else if it = node then Some True
      else do { n \<leftarrow> rd_ptr psz m it; memory_pool_contains_from psz m n node })"

definition memory_pool_free :: "nat \<Rightarrow> memory \<Rightarrow> addr \<Rightarrow> addr \<Rightarrow> memory option" where
  "memory_pool_free psz m pool block = do {
     first \<leftarrow> rd_ptr psz m pool;
     twice \<leftarrow> memory_pool_contains_from psz m first block;
     if twice then Some m
     else do { m \<leftarrow> wr_ptr psz m block first; wr_ptr psz m pool block } }"

fun memory_pool_create_from :: "nat \<Rightarrow> memory \<Rightarrow> addr \<Rightarrow> addr \<Rightarrow> nat \<Rightarrow> nat \<Rightarrow> memory option" where
  "memory_pool_create_from psz m pool mem_ptr block_size 0 = Some m"
| "memory_pool_create_from psz m pool mem_ptr block_size (Suc n) = do {
     m \<leftarrow> memory_pool_free psz m pool mem_ptr;
     memory_pool_create_from psz m pool (mem_ptr + block_size) block_size n }"

definition memory_pool_create :: "nat \<Rightarrow> memory \<Rightarrow> addr \<Rightarrow> addr \<Rightarrow> nat \<Rightarrow> nat \<Rightarrow> memory option" where
  "memory_pool_create psz m pool storage count block_size = do {
     m \<leftarrow> wr_ptr psz m pool NULL;
     memory_pool_create_from psz m pool storage block_size count }"

section \<open>Reading back what was written\<close>

lemma rd_ptr_less: "rd_ptr n m a = Some v \<Longrightarrow> v < 256 ^ n"
proof (induction n arbitrary: a v)
  case (Suc n)
  obtain b w where b: "m a = Some b" "rd_ptr n m (a + 1) = Some w" "v = unat b + 256 * w"
    using Suc.prems by (auto simp: bind_eq_Some_conv)
  have "w < 256 ^ n" by (rule Suc.IH [OF b(2)])
  then have w: "256 * (w + 1) \<le> 256 * 256 ^ n" by (intro mult_le_mono2) simp
  define x where "x = unat b"
  have "x < 256" unfolding x_def by (rule unat_u8_less)
  then show ?case using b(3) [folded x_def] w by simp
qed simp

lemma range_Suc: "{a..<a + Suc n} = insert a {a + 1..<a + 1 + n}" for a :: nat
  by auto

lemma rd_ptr_cong: "(\<And>x. a \<le> x \<Longrightarrow> x < a + n \<Longrightarrow> m' x = m x) \<Longrightarrow> rd_ptr n m' a = rd_ptr n m a"
  by (induction n arbitrary: a) auto

lemma wr_ptr_eq:
  assumes "{a..<a + n} \<subseteq> dom m"
  shows "\<exists>m'. wr_ptr n m a v = Some m' \<and> dom m' = dom m \<and> (\<forall>x. x \<notin> {a..<a + n} \<longrightarrow> m' x = m x)
    \<and> (v < 256 ^ n \<longrightarrow> rd_ptr n m' a = Some v)"
  using assms
proof (induction n arbitrary: m a v)
  case (Suc n)
  have a: "a \<in> dom m" using Suc.prems unfolding range_Suc by blast
  let ?m = "m(a \<mapsto> of_nat v)"
  have "{a + 1..<a + 1 + n} \<subseteq> dom ?m" using Suc.prems unfolding range_Suc by auto
  from Suc.IH [OF this] obtain m' where m': "wr_ptr n ?m (a + 1) (v div 256) = Some m'" "dom m' = dom ?m"
    "\<forall>x. x \<notin> {a + 1..<a + 1 + n} \<longrightarrow> m' x = ?m x" "v div 256 < 256 ^ n \<longrightarrow> rd_ptr n m' (a + 1) = Some (v div 256)" by blast
  have "m' a = Some (of_nat v)" using m'(3) by simp
  moreover have "unat (of_nat v :: u8) = v mod 256" by (simp add: unsigned_of_nat take_bit_eq_mod)
  ultimately have "rd_ptr (Suc n) m' a = Some v" if "v < 256 ^ Suc n"
    using m'(4) that by (simp add: less_mult_imp_div_less mult.commute)
  moreover have "\<forall>x. x \<notin> {a..<a + Suc n} \<longrightarrow> m' x = m x" using m'(3) by auto
  ultimately show ?case using m'(1,2) a by auto
qed simp

section \<open>Cells\<close>

text \<open>The pointers at the addresses \<open>N\<close>, which are pairwise at least a pointer apart, as a store.\<close>

definition cells :: "nat \<Rightarrow> addr set \<Rightarrow> memory \<Rightarrow> store" where
  "cells psz N m = (\<lambda>a. if a \<in> N then rd_ptr psz m a else None)"

definition apart :: "nat \<Rightarrow> addr set \<Rightarrow> memory \<Rightarrow> bool" where
  "apart psz N m \<longleftrightarrow> (\<forall>a \<in> N. {a..<a + psz} \<subseteq> dom m \<and> a < 256 ^ psz) \<and> (\<forall>a \<in> N. \<forall>b \<in> N. a \<noteq> b \<longrightarrow> a + psz \<le> b \<or> b + psz \<le> a)"

lemma rd_ptr_Some: "{a..<a + n} \<subseteq> dom m \<Longrightarrow> \<exists>v. rd_ptr n m a = Some v"
proof (induction n arbitrary: a)
  case (Suc n)
  then have d: "a \<in> dom m" "{a + 1..<a + 1 + n} \<subseteq> dom m" unfolding range_Suc by blast+
  obtain v where "rd_ptr n m (a + 1) = Some v" using Suc.IH [OF d(2)] by blast
  then show ?case using d(1) by auto
qed simp

lemma dom_cells: "apart psz N m \<Longrightarrow> dom (cells psz N m) = N"
proof -
  assume ap: "apart psz N m"
  have "cells psz N m a \<noteq> None \<longleftrightarrow> a \<in> N" for a
    using rd_ptr_Some [of a psz m] ap by (cases "a \<in> N") (auto simp: cells_def apart_def)
  then show "dom (cells psz N m) = N" unfolding dom_def by blast
qed

lemma cells_bound: "cells psz N m a = Some v \<Longrightarrow> v < 256 ^ psz"
  by (auto simp: cells_def dest: rd_ptr_less split: if_splits)

lemma wr_cells:
  assumes "apart psz N m" and "a \<in> N" and "v < 256 ^ psz"
  shows "\<exists>m'. wr_ptr psz m a v = Some m' \<and> cells psz N m' = (cells psz N m)(a \<mapsto> v) \<and> apart psz N m' \<and> dom m' = dom m
    \<and> (\<forall>x. x \<notin> {a..<a + psz} \<longrightarrow> m' x = m x)"
proof -
  obtain m' where m': "wr_ptr psz m a v = Some m'" "dom m' = dom m" "\<forall>x. x \<notin> {a..<a + psz} \<longrightarrow> m' x = m x" "rd_ptr psz m' a = Some v"
    using wr_ptr_eq [of a psz m v] assms by (auto simp: apart_def)
  have "rd_ptr psz m' b = rd_ptr psz m b" if "b \<in> N" "b \<noteq> a" for b
  proof (rule rd_ptr_cong)
    fix x assume "b \<le> x" "x < b + psz"
    moreover have "a + psz \<le> b \<or> b + psz \<le> a" using assms(1,2) that by (auto simp: apart_def)
    ultimately show "m' x = m x" using m'(3) by auto
  qed
  then have "cells psz N m' = (cells psz N m)(a \<mapsto> v)" using m'(4) assms(2) by (auto simp: cells_def fun_eq_iff)
  moreover have "apart psz N m'" using assms(1) m'(2) by (simp add: apart_def)
  ultimately show ?thesis using m' by blast
qed

section \<open>The operations refine those on cells\<close>

type_synonym memory_pool_state = "nat \<times> addr \<times> addr set \<times> memory"

fun memory_pool_inv :: "memory_pool_state \<Rightarrow> addr list \<Rightarrow> bool" where
  "memory_pool_inv (psz, pool, B, m) fs \<longleftrightarrow> apart psz (insert pool B) m \<and> pool_inv (pool, B, cells psz (insert pool B) m) fs"

fun memory_pool_blocks :: "memory_pool_state \<Rightarrow> addr set" where
  "memory_pool_blocks (psz, pool, B, m) = B"

fun memory_get :: "memory_pool_state \<Rightarrow> (addr \<times> memory_pool_state) option" where
  "memory_get (psz, pool, B, m) = do { (b, m) \<leftarrow> memory_pool_get psz m pool; Some (b, (psz, pool, B, m)) }"

fun memory_free :: "memory_pool_state \<Rightarrow> addr \<Rightarrow> memory_pool_state option" where
  "memory_free (psz, pool, B, m) b = do { m \<leftarrow> memory_pool_free psz m pool b; Some (psz, pool, B, m) }"

lemma memory_contains_eq:
  assumes "chain (cells psz N m) a xs" and "cells psz N m a = Some p"
  shows "memory_pool_contains_from psz m p item = Some (item \<in> set xs)"
  using assms
proof (induction xs arbitrary: a p)
  case (Cons x xs)
  obtain q where q: "cells psz N m x = Some q" using Cons.prems(1) by (auto dest: chain_first)
  then have "rd_ptr psz m x = Some q" by (auto simp: cells_def split: if_splits)
  then show ?case using Cons.prems Cons.IH [of x q] q by (auto simp: memory_pool_contains_from.simps [of psz m x])
qed (simp add: memory_pool_contains_from.simps)

text \<open>Only the pointers of the pool and of its blocks are written.\<close>

definition writes_within :: "nat \<Rightarrow> addr set \<Rightarrow> memory \<Rightarrow> memory \<Rightarrow> bool" where
  "writes_within psz N m m' \<longleftrightarrow> dom m' = dom m \<and> (\<forall>x. (\<forall>a \<in> N. x \<notin> {a..<a + psz}) \<longrightarrow> m' x = m x)"

lemma writes_within_refl: "writes_within psz N m m"
  by (simp add: writes_within_def)

lemma writes_within_trans: "writes_within psz N m m1 \<Longrightarrow> writes_within psz N m1 m2 \<Longrightarrow> writes_within psz N m m2"
  by (simp add: writes_within_def)

lemma memory_get_law:
  assumes "memory_pool_inv (psz, pool, B, m) fs"
  shows "\<exists>m'. memory_pool_get psz m pool = Some (case fs of [] \<Rightarrow> NULL | b # _ \<Rightarrow> b, m')
    \<and> memory_pool_inv (psz, pool, B, m') (tl fs) \<and> writes_within psz {pool} m m'"
proof -
  let ?N = "insert pool B" and ?h = "cells psz (insert pool B) m"
  have ap: "apart psz ?N m" and inv: "pool_inv (pool, B, ?h) fs" using assms by auto
  have l: "linked ?h pool fs" using inv by auto
  obtain h' where h': "btstack_memory_pool_get ?h pool = Some (case fs of [] \<Rightarrow> NULL | b # _ \<Rightarrow> b, h')" "pool_inv (pool, B, h') (tl fs)"
    using pool_get_law [OF inv] by blast
  have rd: "rd_ptr psz m a = Some v" if "?h a = Some v" for a v using that by (auto simp: cells_def split: if_splits)
  show ?thesis
  proof (cases fs)
    case Nil
    then have "?h pool = Some NULL" using l by (simp add: linked_def)
    then show ?thesis using Nil rd assms by (auto simp: memory_pool_get_def intro!: exI [of _ m] writes_within_refl)
  next
    case (Cons b gs)
    then obtain n where n: "?h pool = Some b" "b \<noteq> NULL" "?h b = Some n" using l chain_first [of ?h b gs] by (auto simp: linked_def)
    obtain m' where m': "wr_ptr psz m pool n = Some m'" "cells psz ?N m' = ?h(pool \<mapsto> n)" "apart psz ?N m'" "dom m' = dom m"
      "\<forall>x. x \<notin> {pool..<pool + psz} \<longrightarrow> m' x = m x"
      using wr_cells [OF ap _ cells_bound [OF n(3)], of pool] by auto
    have "h' = ?h(pool \<mapsto> n)" using h'(1) n Cons by (auto simp: btstack_memory_pool_get_def set_next_def split: if_splits)
    then have "memory_pool_inv (psz, pool, B, m') (tl fs)" using h'(2) m'(2,3) by simp
    moreover have "memory_pool_get psz m pool = Some (b, m')" using rd [OF n(1)] rd [OF n(3)] n(2) m'(1) by (simp add: memory_pool_get_def)
    moreover have "writes_within psz {pool} m m'" using m'(4,5) by (simp add: writes_within_def)
    ultimately show ?thesis using Cons by auto
  qed
qed

lemma memory_free_law:
  assumes "memory_pool_inv (psz, pool, B, m) fs" and "b \<in> B"
  shows "\<exists>m'. memory_pool_free psz m pool b = Some m'
    \<and> memory_pool_inv (psz, pool, B, m') (if b \<in> set fs then fs else b # fs) \<and> writes_within psz {pool, b} m m'"
proof -
  let ?N = "insert pool B" and ?h = "cells psz (insert pool B) m"
  have ap: "apart psz ?N m" and inv: "pool_inv (pool, B, ?h) fs" using assms(1) by auto
  have c: "chain ?h pool fs" using inv by (auto simp: linked_def)
  obtain first where first: "?h pool = Some first" using chain_first [OF c] by blast
  then have rd: "rd_ptr psz m pool = Some first" by (auto simp: cells_def split: if_splits)
  obtain h' where h': "btstack_memory_pool_free ?h pool b = Some h'" "pool_inv (pool, B, h') (if b \<in> set fs then fs else b # fs)"
    using pool_free_law [OF inv assms(2)] by blast
  show ?thesis
  proof (cases "b \<in> set fs")
    case True
    then show ?thesis using rd memory_contains_eq [OF c first, of b] assms(1)
      by (intro exI [of _ m]) (simp add: memory_pool_free_def writes_within_refl)
  next
    case False
    obtain m1 where m1: "wr_ptr psz m b first = Some m1" "cells psz ?N m1 = ?h(b \<mapsto> first)" "apart psz ?N m1" "dom m1 = dom m"
      "\<forall>x. x \<notin> {b..<b + psz} \<longrightarrow> m1 x = m x"
      using wr_cells [OF ap _ cells_bound [OF first], of b] assms(2) by auto
    have bl: "b < 256 ^ psz" using ap assms(2) by (simp add: apart_def)
    obtain m2 where m2: "wr_ptr psz m1 pool b = Some m2" "cells psz ?N m2 = ?h(b \<mapsto> first, pool \<mapsto> b)" "apart psz ?N m2" "dom m2 = dom m1"
      "\<forall>x. x \<notin> {pool..<pool + psz} \<longrightarrow> m2 x = m1 x"
      using wr_cells [OF m1(3) _ bl, of pool] m1(2) by auto
    have "b \<in> dom ?h" "pool \<in> dom ?h" using dom_cells [OF ap] assms(2) by auto
    then have "h' = ?h(b \<mapsto> first, pool \<mapsto> b)"
      using h'(1) first pool_contains_from_eq [OF c first, of b] False by (simp add: btstack_memory_pool_free_def set_next_def)
    then have "memory_pool_inv (psz, pool, B, m2) (if b \<in> set fs then fs else b # fs)" using h'(2) m2(2,3) by simp
    moreover have "memory_pool_free psz m pool b = Some m2"
      using rd memory_contains_eq [OF c first, of b] False m1(1) m2(1) by (simp add: memory_pool_free_def)
    moreover have "writes_within psz {pool, b} m m2" using m1(4,5) m2(4,5) by (simp add: writes_within_def)
    ultimately show ?thesis by blast
  qed
qed

text \<open>The states of a pool since memory was \<open>m0\<close>: nothing but its pointers has changed.\<close>

fun memory_pool_since :: "memory_pool_state \<Rightarrow> memory_pool_state \<Rightarrow> addr list \<Rightarrow> bool" where
  "memory_pool_since (psz0, pool0, B0, m0) (psz, pool, B, m) fs \<longleftrightarrow>
     psz = psz0 \<and> pool = pool0 \<and> B = B0 \<and> memory_pool_inv (psz, pool, B, m) fs \<and> writes_within psz (insert pool B) m0 m"

lemma writes_within_mono: "writes_within psz N m m' \<Longrightarrow> N \<subseteq> N' \<Longrightarrow> writes_within psz N' m m'"
  unfolding writes_within_def by blast

lemma since_get:
  assumes "memory_pool_since s0 s fs"
  shows "\<exists>s'. memory_get s = Some (case fs of [] \<Rightarrow> NULL | b # _ \<Rightarrow> b, s') \<and> memory_pool_since s0 s' (tl fs)
    \<and> memory_pool_blocks s' = memory_pool_blocks s"
proof -
  obtain psz pool B m m0 where s: "s = (psz, pool, B, m)" "s0 = (psz, pool, B, m0)" "memory_pool_inv (psz, pool, B, m) fs"
    "writes_within psz (insert pool B) m0 m" using assms by (cases s; cases s0) auto
  obtain m' where m': "memory_pool_get psz m pool = Some (case fs of [] \<Rightarrow> NULL | b # _ \<Rightarrow> b, m')"
    "memory_pool_inv (psz, pool, B, m') (tl fs)" "writes_within psz {pool} m m'" using memory_get_law [OF s(3)] by blast
  have "writes_within psz (insert pool B) m0 m'"
    by (rule writes_within_trans [OF s(4) writes_within_mono [OF m'(3)]]) simp
  then show ?thesis using m'(1,2) by (simp add: s(1,2) del: memory_pool_inv.simps)
qed

lemma since_free:
  assumes "memory_pool_since s0 s fs" and "b \<in> memory_pool_blocks s"
  shows "\<exists>s'. memory_free s b = Some s' \<and> memory_pool_since s0 s' (if b \<in> set fs then fs else b # fs)
    \<and> memory_pool_blocks s' = memory_pool_blocks s"
proof -
  obtain psz pool B m m0 where s: "s = (psz, pool, B, m)" "s0 = (psz, pool, B, m0)" "memory_pool_inv (psz, pool, B, m) fs"
    "writes_within psz (insert pool B) m0 m" using assms(1) by (cases s; cases s0) auto
  have b: "b \<in> B" using assms(2) s(1) by simp
  obtain m' where m': "memory_pool_free psz m pool b = Some m'"
    "memory_pool_inv (psz, pool, B, m') (if b \<in> set fs then fs else b # fs)" "writes_within psz {pool, b} m m'"
    using memory_free_law [OF s(3) b] by blast
  have "writes_within psz (insert pool B) m0 m'"
    by (rule writes_within_trans [OF s(4) writes_within_mono [OF m'(3)]]) (use b in simp)
  then show ?thesis using m'(1,2) by (simp add: s(1,2) del: memory_pool_inv.simps)
qed

interpretation mm: block_pool "memory_pool_since s0" memory_pool_blocks memory_get memory_free for s0
proof unfold_locales
  fix s :: memory_pool_state and fs
  show "memory_pool_since s0 s fs \<Longrightarrow> distinct fs \<and> set fs \<subseteq> memory_pool_blocks s"
    and "memory_pool_since s0 s fs \<Longrightarrow> NULL \<notin> memory_pool_blocks s"
    by (cases s; cases s0; auto simp: linked_def)+
  show "memory_pool_since s0 s [] \<Longrightarrow>
      \<exists>s'. memory_get s = Some (NULL, s') \<and> memory_pool_since s0 s' [] \<and> memory_pool_blocks s' = memory_pool_blocks s"
    using since_get [of s0 s "[]"] by simp
  show "\<exists>s'. memory_get s = Some (b, s') \<and> memory_pool_since s0 s' fs \<and> memory_pool_blocks s' = memory_pool_blocks s"
    if "memory_pool_since s0 s (b # fs)" for b using since_get [OF that] by simp
  show "\<exists>s'. memory_free s b = Some s' \<and> memory_pool_since s0 s' (if b \<in> set fs then fs else b # fs)
      \<and> memory_pool_blocks s' = memory_pool_blocks s" if "memory_pool_since s0 s fs" and "b \<in> memory_pool_blocks s" for b
    by (rule since_free [OF that])
qed

section \<open>Creation\<close>

lemma memory_create_from_eq:
  assumes "memory_pool_since s0 (psz, pool, B, m) fs" and "set (storage_blocks p n bs) \<subseteq> B"
    and "set (storage_blocks p n bs) \<inter> set fs = {}" and "0 < bs"
  shows "\<exists>m'. memory_pool_create_from psz m pool p bs n = Some m' \<and> memory_pool_since s0 (psz, pool, B, m') (rev (storage_blocks p n bs) @ fs)"
  using assms
proof (induction n arbitrary: m p fs)
  case 0
  then show ?case by (simp add: storage_blocks_def)
next
  case (Suc n)
  note sb = storage_blocks_Suc [of p n bs]
  have pB: "p \<in> B" "p \<notin> set fs" using Suc.prems(2,3) by (auto simp: sb)
  obtain m1 where m1: "memory_pool_free psz m pool p = Some m1" "memory_pool_since s0 (psz, pool, B, m1) (p # fs)"
    using since_free [OF Suc.prems(1), of p] pB by (auto simp: bind_eq_Some_conv simp del: memory_pool_since.simps)
  have "p \<notin> set (storage_blocks (p + bs) n bs)" using \<open>0 < bs\<close> by (auto simp: storage_blocks_def)
  then have "set (storage_blocks (p + bs) n bs) \<inter> set (p # fs) = {}" using Suc.prems(3) by (auto simp: sb)
  from Suc.IH [OF m1(2) _ this \<open>0 < bs\<close>] Suc.prems(2) m1(1) show ?case by (auto simp: sb simp del: memory_pool_since.simps)
qed

text \<open>The bytes a pool of \<open>count\<close> blocks may use: its variable and its storage.\<close>

definition pool_bytes :: "nat \<Rightarrow> addr \<Rightarrow> addr set" where
  "pool_bytes psz pool = {pool..<pool + psz}"

definition storage_bytes :: "addr \<Rightarrow> nat \<Rightarrow> nat \<Rightarrow> addr set" where
  "storage_bytes storage count block_size = {storage..<storage + count * block_size}"

lemma block_in_storage:
  assumes "b \<in> set (storage_blocks storage count bs)"
  shows "{b..<b + bs} \<subseteq> storage_bytes storage count bs" and "storage \<le> b"
proof -
  obtain i where i: "i < count" "b = storage + i * bs" using assms by (auto simp: storage_blocks_def)
  have "(i + 1) * bs \<le> count * bs" using i(1) by (intro mult_le_mono1) simp
  then show "{b..<b + bs} \<subseteq> storage_bytes storage count bs" and "storage \<le> b" using i(2) by (auto simp: storage_bytes_def)
qed

lemma blocks_apart:
  assumes "a \<in> set (storage_blocks storage count bs)" and "b \<in> set (storage_blocks storage count bs)" and "a < b"
  shows "a + bs \<le> b"
proof -
  obtain i j where ij: "a = storage + i * bs" "b = storage + j * bs" using assms(1,2) by (auto simp: storage_blocks_def)
  have "i < j" using assms(3) unfolding ij by (meson add_le_cancel_left leI mult_le_mono1 not_less)
  then have "(i + 1) * bs \<le> j * bs" by (intro mult_le_mono1) simp
  then show ?thesis by (simp add: ij)
qed

lemma pool_apart:
  assumes "psz \<le> bs" and "pool_bytes psz pool \<subseteq> dom m" and "storage_bytes storage count bs \<subseteq> dom m"
    and "pool_bytes psz pool \<inter> storage_bytes storage count bs = {}" and "pool + psz \<le> 256 ^ psz" and "storage + count * bs \<le> 256 ^ psz"
    and "0 < psz"
  shows "apart psz (insert pool (set (storage_blocks storage count bs))) m"
proof -
  let ?B = "set (storage_blocks storage count bs)"
  have in_storage: "{b..<b + psz} \<subseteq> storage_bytes storage count bs" if "b \<in> ?B" for b
    using block_in_storage(1) [OF that] assms(1) by auto
  have below: "b < 256 ^ psz" if "b \<in> ?B" for b
  proof -
    have "b \<in> storage_bytes storage count bs" using in_storage [OF that] assms(7) by auto
    then show ?thesis using assms(6) by (simp add: storage_bytes_def)
  qed
  have pb: "pool + psz \<le> b \<or> b + psz \<le> pool" if "b \<in> ?B" for b
  proof (rule ccontr)
    assume n: "\<not> (pool + psz \<le> b \<or> b + psz \<le> pool)"
    then have "max pool b \<in> pool_bytes psz pool" "max pool b \<in> {b..<b + psz}" by (auto simp: pool_bytes_def)
    then show False using in_storage [OF that] assms(4) by blast
  qed
  have bb: "a + psz \<le> b \<or> b + psz \<le> a" if "a \<in> ?B" "b \<in> ?B" "a \<noteq> b" for a b
    using blocks_apart [OF that(1,2)] blocks_apart [OF that(2,1)] that(3) assms(1) by linarith
  have "{b..<b + psz} \<subseteq> dom m \<and> b < 256 ^ psz" if "b \<in> ?B" for b using in_storage [OF that] below [OF that] assms(3) by blast
  moreover have "{pool..<pool + psz} \<subseteq> dom m \<and> pool < 256 ^ psz" using assms(2,5,7) by (simp add: pool_bytes_def)
  ultimately have "\<forall>a \<in> insert pool ?B. {a..<a + psz} \<subseteq> dom m \<and> a < 256 ^ psz" by blast
  moreover have "\<forall>a \<in> insert pool ?B. \<forall>b \<in> insert pool ?B. a \<noteq> b \<longrightarrow> a + psz \<le> b \<or> b + psz \<le> a" using pb bb by auto
  ultimately show ?thesis unfolding apart_def by blast
qed

text \<open>C13: Memory pool safety, on the bytes of memory.  After \<open>btstack_memory_pool_create\<close> on a storage of \<open>count\<close> blocks,
  each at least as large as a pointer (the assumption of the header: the list of free blocks is threaded through them), every
  sequence of \<open>get\<close> and \<open>free\<close> calls (double frees included) returns and writes no byte outside the pool variable and the
  storage.  At its end the free list is intact, and every block is either held by the client or free, never both: the
  blocks held and the blocks free are disjoint, and their numbers add up to \<open>count\<close>.\<close>

theorem memory_pool_partition:
  assumes "0 < psz" and "psz \<le> block_size" and "pool \<noteq> NULL" and "storage \<noteq> NULL"
    and "pool_bytes psz pool \<subseteq> dom m" and "storage_bytes storage count block_size \<subseteq> dom m"
    and "pool_bytes psz pool \<inter> storage_bytes storage count block_size = {}"
    and "pool + psz \<le> 256 ^ psz" and "storage + count * block_size \<le> 256 ^ psz"
    and "\<forall>op \<in> set ops. releases_in (set (storage_blocks storage count block_size)) op"
  shows "\<exists>m1 m2 used fs. memory_pool_create psz m pool storage count block_size = Some m1
    \<and> pool_run memory_get memory_free (psz, pool, set (storage_blocks storage count block_size), m1) {} ops
        = Some ((psz, pool, set (storage_blocks storage count block_size), m2), used)
    \<and> dom m2 = dom m \<and> (\<forall>x. x \<notin> pool_bytes psz pool \<union> storage_bytes storage count block_size \<longrightarrow> m2 x = m x)
    \<and> memory_pool_inv (psz, pool, set (storage_blocks storage count block_size), m2) fs
    \<and> used \<inter> set fs = {} \<and> used \<union> set fs = set (storage_blocks storage count block_size)
    \<and> card used + length fs = count"
proof -
  let ?B = "set (storage_blocks storage count block_size)"
  let ?N = "insert pool ?B" and ?s0 = "(psz, pool, ?B, m)"
  have bs: "0 < block_size" using assms(1,2) by simp
  have cB: "card ?B = count" using bs by (simp add: storage_blocks_def card_image inj_on_def)
  have ap: "apart psz ?N m" by (rule pool_apart [OF assms(2,5-9,1)])
  obtain m0 where m0: "wr_ptr psz m pool NULL = Some m0" "cells psz ?N m0 = (cells psz ?N m)(pool \<mapsto> NULL)" "apart psz ?N m0"
    "dom m0 = dom m" "\<forall>x. x \<notin> {pool..<pool + psz} \<longrightarrow> m0 x = m x"
    using wr_cells [OF ap, of pool NULL] by (auto simp: NULL_def)
  have nB: "NULL \<notin> ?B" using block_in_storage(2) [of NULL] assms(4) by (auto simp: NULL_def)
  have pB: "pool \<notin> ?B"
  proof
    assume "pool \<in> ?B"
    then have "pool \<in> storage_bytes storage count block_size" using block_in_storage(1) [of pool storage count block_size] bs by auto
    moreover have "pool \<in> pool_bytes psz pool" using assms(1) by (simp add: pool_bytes_def)
    ultimately show False using assms(7) by blast
  qed
  have "writes_within psz ?N m m0" using m0(4,5) by (simp add: writes_within_def)
  then have "memory_pool_since ?s0 (psz, pool, ?B, m0) []"
    using m0(2,3) nB pB assms(3) dom_cells [OF m0(3)] by (auto simp: linked_def)
  from memory_create_from_eq [OF this _ _ bs, of storage count]
  obtain m1 where m1: "memory_pool_create_from psz m0 pool storage block_size count = Some m1"
    "memory_pool_since ?s0 (psz, pool, ?B, m1) (rev (storage_blocks storage count block_size))"
    by (auto simp del: memory_pool_since.simps)
  obtain s used fs where run: "pool_run memory_get memory_free (psz, pool, ?B, m1) {} ops = Some (s, used)" "memory_pool_since ?s0 s fs"
    "used \<inter> set fs = {}" "used \<union> set fs = ?B" "card used + length fs = card ?B"
    using mm.run_partition [OF m1(2), of "{}" ops] assms(10) by (auto simp del: memory_pool_since.simps)
  obtain m2 where s: "s = (psz, pool, ?B, m2)" "memory_pool_inv (psz, pool, ?B, m2) fs" "writes_within psz ?N m m2"
    using run(2) by (cases s) auto
  have "\<forall>x. x \<notin> pool_bytes psz pool \<union> storage_bytes storage count block_size \<longrightarrow> (\<forall>a \<in> ?N. x \<notin> {a..<a + psz})"
    using block_in_storage(1) [of _ storage count block_size] assms(2) by (fastforce simp: pool_bytes_def)
  then have "\<forall>x. x \<notin> pool_bytes psz pool \<union> storage_bytes storage count block_size \<longrightarrow> m2 x = m x"
    using s(3) unfolding writes_within_def by blast
  moreover have "dom m2 = dom m" using s(3) by (simp add: writes_within_def)
  moreover have "memory_pool_create psz m pool storage count block_size = Some m1" using m0(1) m1(1) by (simp add: memory_pool_create_def)
  ultimately show ?thesis
    by - (rule exI [of _ m1], rule exI [of _ m2], rule exI [of _ used], rule exI [of _ fs],
      use run(1,3-5) s(1,2) cB in \<open>simp del: memory_pool_inv.simps\<close>)
qed

theorem memory_pool_partition_witness:
  "\<exists>m1 m2 used fs. memory_pool_create 4 (\<lambda>a. Some 0) 16 100 3 8 = Some m1
    \<and> pool_run memory_get memory_free (4, 16, set (storage_blocks 100 3 8), m1) {} [Alloc, Alloc, Release 100, Release 100, Alloc]
        = Some ((4, 16, set (storage_blocks 100 3 8), m2), used)
    \<and> dom m2 = dom (\<lambda>a :: addr. Some (0 :: u8)) \<and> (\<forall>x. x \<notin> pool_bytes 4 16 \<union> storage_bytes 100 3 8 \<longrightarrow> m2 x = Some 0)
    \<and> memory_pool_inv (4, 16, set (storage_blocks 100 3 8), m2) fs
    \<and> used \<inter> set fs = {} \<and> used \<union> set fs = set (storage_blocks 100 3 8) \<and> card used + length fs = 3"
  by (rule memory_pool_partition) (auto simp: NULL_def storage_blocks_def pool_bytes_def storage_bytes_def)

text \<open>Without the assumption the pool destroys itself.  In two blocks of one byte the pointers overlap: freeing the second block
  overwrites the pointer of the first, and the third block that is handed out lies outside the storage.\<close>

lemma memory_pool_small_blocks:
  "do { m \<leftarrow> memory_pool_create (Suc (Suc 0)) (\<lambda>a. Some 0) 16 100 (Suc (Suc 0)) 1;
        (a, m) \<leftarrow> memory_pool_get (Suc (Suc 0)) m 16; (b, m) \<leftarrow> memory_pool_get (Suc (Suc 0)) m 16;
        (c, m) \<leftarrow> memory_pool_get (Suc (Suc 0)) m 16; Some (a, b, c) } = Some (101, 100, 25600)"
  by (simp add: memory_pool_create_def memory_pool_free_def memory_pool_get_def NULL_def
      memory_pool_contains_from.simps [of _ _ 0] memory_pool_contains_from.simps [of _ _ 100])

end
