(* ===== verification/Run_Loop.thy ===== *)
theory Run_Loop
  imports Linked_List
begin

text \<open>
  The run loop: the registry \<open>btstack_run_loop.c\<close> and its implementation for systems without an operating system,
  \<open>platform/embedded/btstack_run_loop_embedded.c\<close> (with \<open>HAVE_EMBEDDED_TICK\<close> and the tick of \<open>hal_tick.c\<close>), which
  polls data sources and keeps timers in a list ordered by the time they are due.

  Timers and data sources are nodes of the store of linked lists; their other fields are partial maps over the same
  addresses.  A function pointer is a number that \<open>handlers\<close>, a parameter, interprets; a handler may change
  everything, the lists included.
\<close>

section \<open>State\<close>

record 'app run_loop =
  rl_heap :: store
  data_sources :: addr
  timers :: addr
  ts_timeout :: "addr \<rightharpoonup> u32"
  ts_process :: "addr \<rightharpoonup> nat"
  ts_context :: "addr \<rightharpoonup> addr"
  ds_process :: "addr \<rightharpoonup> nat"
  ds_flags :: "addr \<rightharpoonup> u16"
  ds_fd :: "addr \<rightharpoonup> int"
  system_ticks :: u32
  trigger_event_received :: int
  app :: 'app

type_synonym 'app handlers = "nat \<Rightarrow> addr \<Rightarrow> 'app run_loop \<Rightarrow> 'app run_loop option"

abbreviation (input) DATA_SOURCE_CALLBACK_POLL :: u16 where "DATA_SOURCE_CALLBACK_POLL \<equiv> 1"

section \<open>The embedded run loop\<close>

definition btstack_run_loop_embedded_add_data_source :: "'app run_loop \<Rightarrow> addr \<Rightarrow> 'app run_loop option" where
  "btstack_run_loop_embedded_add_data_source rl ds = do {
     h \<leftarrow> btstack_linked_list_add (rl_heap rl) (data_sources rl) ds;
     Some (rl\<lparr> rl_heap := h \<rparr>) }"

definition btstack_run_loop_embedded_remove_data_source :: "'app run_loop \<Rightarrow> addr \<Rightarrow> (int \<times> 'app run_loop) option" where
  "btstack_run_loop_embedded_remove_data_source rl ds = do {
     (r, h) \<leftarrow> btstack_linked_list_remove (rl_heap rl) (data_sources rl) ds;
     Some (r, rl\<lparr> rl_heap := h \<rparr>) }"

definition hal_tick_get_tick_period_in_ms :: int where "hal_tick_get_tick_period_in_ms = 1"

definition btstack_run_loop_embedded_ticks_for_ms :: "u32 \<Rightarrow> u32" where
  "btstack_run_loop_embedded_ticks_for_ms time_in_ms = time_in_ms div word_of_int hal_tick_get_tick_period_in_ms"

definition btstack_run_loop_embedded_set_timer :: "'app run_loop \<Rightarrow> addr \<Rightarrow> u32 \<Rightarrow> 'app run_loop option" where
  "btstack_run_loop_embedded_set_timer rl ts timeout_in_ms =
     (let ticks = btstack_run_loop_embedded_ticks_for_ms timeout_in_ms;
          ticks = (if ticks = 0 then ticks + 1 else ticks)
      in if ts \<notin> dom (ts_timeout rl) then None
         else Some (rl\<lparr> ts_timeout := (ts_timeout rl)(ts \<mapsto> system_ticks rl + 1 + ticks) \<rparr>))"

definition btstack_run_loop_embedded_reconstruct_higher_bits :: "u32 \<Rightarrow> u32 \<Rightarrow> int" where
  "btstack_run_loop_embedded_reconstruct_higher_bits now ticks =
     (let delta = sint (ticks - now)
      in if delta \<ge> 0 then if ticks \<ge> now then 0 else 1
         else if ticks < now then 0 else -1)"

text \<open>The loop of \<open>add_timer\<close>: \<^const>\<open>None\<close> inside when the timer is met, else the node to insert behind.\<close>

partial_function (option) timer_place_from ::
    "store \<Rightarrow> (addr \<rightharpoonup> u32) \<Rightarrow> u32 \<Rightarrow> int \<Rightarrow> u32 \<Rightarrow> addr \<Rightarrow> addr \<Rightarrow> addr option option" where
  "timer_place_from h timeout now new_high new_low ts it = do {
     n \<leftarrow> h it;
     if n = NULL then Some (Some it)
     else if n = ts then Some None
     else do {
       next_low \<leftarrow> timeout n;
       let next_high = btstack_run_loop_embedded_reconstruct_higher_bits now next_low;
       if new_high < next_high \<or> new_high = next_high \<and> new_low < next_low then Some (Some it)
       else timer_place_from h timeout now new_high new_low ts n } }"

definition btstack_run_loop_embedded_add_timer :: "'app run_loop \<Rightarrow> addr \<Rightarrow> 'app run_loop option" where
  "btstack_run_loop_embedded_add_timer rl ts = do {
     let now = system_ticks rl;
     new_low \<leftarrow> ts_timeout rl ts;
     let new_high = btstack_run_loop_embedded_reconstruct_higher_bits now new_low;
     place \<leftarrow> timer_place_from (rl_heap rl) (ts_timeout rl) now new_high new_low ts (timers rl);
     case place of
       None \<Rightarrow> Some rl
     | Some it \<Rightarrow> do {
         n \<leftarrow> rl_heap rl it;
         h \<leftarrow> set_next (rl_heap rl) ts n;
         h \<leftarrow> set_next h it ts;
         Some (rl\<lparr> rl_heap := h \<rparr>) } }"

definition btstack_run_loop_embedded_remove_timer :: "'app run_loop \<Rightarrow> addr \<Rightarrow> (int \<times> 'app run_loop) option" where
  "btstack_run_loop_embedded_remove_timer rl ts = do {
     (r, h) \<leftarrow> btstack_linked_list_remove (rl_heap rl) (timers rl) ts;
     Some (r, rl\<lparr> rl_heap := h \<rparr>) }"

definition btstack_run_loop_embedded_enable_data_source_callbacks :: "'app run_loop \<Rightarrow> addr \<Rightarrow> u16 \<Rightarrow> 'app run_loop option" where
  "btstack_run_loop_embedded_enable_data_source_callbacks rl ds callback_types = do {
     flags \<leftarrow> ds_flags rl ds;
     Some (rl\<lparr> ds_flags := (ds_flags rl)(ds \<mapsto> flags OR callback_types) \<rparr>) }"

definition btstack_run_loop_embedded_disable_data_source_callbacks :: "'app run_loop \<Rightarrow> addr \<Rightarrow> u16 \<Rightarrow> 'app run_loop option" where
  "btstack_run_loop_embedded_disable_data_source_callbacks rl ds callback_types = do {
     flags \<leftarrow> ds_flags rl ds;
     Some (rl\<lparr> ds_flags := (ds_flags rl)(ds \<mapsto> flags AND NOT callback_types) \<rparr>) }"

text \<open>Polling the data sources from \<open>ds\<close> on; the next one is read before the callback.\<close>

partial_function (option) poll_from :: "'app handlers \<Rightarrow> 'app run_loop \<Rightarrow> addr \<Rightarrow> 'app run_loop option" where
  "poll_from handlers rl ds =
     (if ds = NULL then Some rl
      else do {
        n \<leftarrow> rl_heap rl ds;
        flags \<leftarrow> ds_flags rl ds;
        rl \<leftarrow> (if flags AND DATA_SOURCE_CALLBACK_POLL \<noteq> 0
              then do { p \<leftarrow> ds_process rl ds; handlers p ds rl } else Some rl);
        poll_from handlers rl n })"

definition btstack_run_loop_embedded_execute_once_data :: "'app handlers \<Rightarrow> 'app run_loop \<Rightarrow> 'app run_loop option" where
  "btstack_run_loop_embedded_execute_once_data handlers rl = do {
     first \<leftarrow> rl_heap rl (data_sources rl);
     poll_from handlers rl first }"

definition timer_pending :: "u32 \<Rightarrow> u32 \<Rightarrow> bool" where
  "timer_pending now timeout_low \<longleftrightarrow>
     (let timeout_high = btstack_run_loop_embedded_reconstruct_higher_bits now timeout_low
      in timeout_high > 0 \<or> timeout_high = 0 \<and> timeout_low > now)"

partial_function (option) run_timers :: "'app handlers \<Rightarrow> u32 \<Rightarrow> 'app run_loop \<Rightarrow> 'app run_loop option" where
  "run_timers handlers now rl = do {
     ts \<leftarrow> rl_heap rl (timers rl);
     if ts = NULL then Some rl
     else do {
       timeout_low \<leftarrow> ts_timeout rl ts;
       if timer_pending now timeout_low then Some rl
       else do {
         (r, rl) \<leftarrow> btstack_run_loop_embedded_remove_timer rl ts;
         p \<leftarrow> ts_process rl ts;
         rl \<leftarrow> handlers p ts rl;
         run_timers handlers now rl } } }"

definition btstack_run_loop_embedded_execute_once_timer :: "'app handlers \<Rightarrow> 'app run_loop \<Rightarrow> 'app run_loop option" where
  "btstack_run_loop_embedded_execute_once_timer handlers rl = run_timers handlers (system_ticks rl) rl"

definition btstack_run_loop_embedded_execute_once :: "'app handlers \<Rightarrow> 'app run_loop \<Rightarrow> 'app run_loop option" where
  "btstack_run_loop_embedded_execute_once handlers rl = do {
     first \<leftarrow> rl_heap rl (data_sources rl);
     rl \<leftarrow> poll_from handlers rl first;
     run_timers handlers (system_ticks rl) rl }"

definition btstack_run_loop_embedded_tick_handler :: "'app run_loop \<Rightarrow> 'app run_loop" where
  "btstack_run_loop_embedded_tick_handler rl = rl\<lparr> system_ticks := system_ticks rl + 1, trigger_event_received := 1 \<rparr>"

definition btstack_run_loop_embedded_get_ticks :: "'app run_loop \<Rightarrow> u32" where
  "btstack_run_loop_embedded_get_ticks rl = system_ticks rl"

definition btstack_run_loop_embedded_get_time_ms :: "'app run_loop \<Rightarrow> u32" where
  "btstack_run_loop_embedded_get_time_ms rl = system_ticks rl * word_of_int hal_tick_get_tick_period_in_ms"

definition btstack_run_loop_embedded_trigger :: "'app run_loop \<Rightarrow> 'app run_loop" where
  "btstack_run_loop_embedded_trigger rl = rl\<lparr> trigger_event_received := 1 \<rparr>"

definition btstack_run_loop_embedded_init :: "'app run_loop \<Rightarrow> 'app run_loop option" where
  "btstack_run_loop_embedded_init rl = do {
     h \<leftarrow> set_next (rl_heap rl) (data_sources rl) NULL;
     h \<leftarrow> set_next h (timers rl) NULL;
     Some (rl\<lparr> rl_heap := h, system_ticks := 0 \<rparr>) }"

section \<open>The registry\<close>

text \<open>The table of an implementation; the four routines for data sources may be null.  \<open>execute\<close>, which does not
  return, and \<open>dump_timer\<close>, which only prints, are left out.\<close>

record 'app btstack_run_loop =
  impl_init :: "'app run_loop \<Rightarrow> 'app run_loop option"
  impl_add_data_source :: "('app run_loop \<Rightarrow> addr \<Rightarrow> 'app run_loop option) option"
  impl_remove_data_source :: "('app run_loop \<Rightarrow> addr \<Rightarrow> (int \<times> 'app run_loop) option) option"
  impl_enable_data_source_callbacks :: "('app run_loop \<Rightarrow> addr \<Rightarrow> u16 \<Rightarrow> 'app run_loop option) option"
  impl_disable_data_source_callbacks :: "('app run_loop \<Rightarrow> addr \<Rightarrow> u16 \<Rightarrow> 'app run_loop option) option"
  impl_set_timer :: "'app run_loop \<Rightarrow> addr \<Rightarrow> u32 \<Rightarrow> 'app run_loop option"
  impl_add_timer :: "'app run_loop \<Rightarrow> addr \<Rightarrow> 'app run_loop option"
  impl_remove_timer :: "'app run_loop \<Rightarrow> addr \<Rightarrow> (int \<times> 'app run_loop) option"
  impl_get_time_ms :: "'app run_loop \<Rightarrow> u32"

definition btstack_run_loop_embedded :: "'app btstack_run_loop" where
  "btstack_run_loop_embedded =
     \<lparr> impl_init = btstack_run_loop_embedded_init,
       impl_add_data_source = Some btstack_run_loop_embedded_add_data_source,
       impl_remove_data_source = Some btstack_run_loop_embedded_remove_data_source,
       impl_enable_data_source_callbacks = Some btstack_run_loop_embedded_enable_data_source_callbacks,
       impl_disable_data_source_callbacks = Some btstack_run_loop_embedded_disable_data_source_callbacks,
       impl_set_timer = btstack_run_loop_embedded_set_timer,
       impl_add_timer = btstack_run_loop_embedded_add_timer,
       impl_remove_timer = btstack_run_loop_embedded_remove_timer,
       impl_get_time_ms = btstack_run_loop_embedded_get_time_ms \<rparr>"

definition btstack_run_loop_embedded_get_instance :: "'app btstack_run_loop" where
  "btstack_run_loop_embedded_get_instance = btstack_run_loop_embedded"

text \<open>\<open>the_run_loop\<close>, null before initialisation, and the state.  Used before that, the registry loops for ever.\<close>

type_synonym 'app registry = "'app btstack_run_loop option \<times> 'app run_loop"

definition btstack_run_loop_assert :: "'app registry \<Rightarrow> 'app btstack_run_loop option" where
  "btstack_run_loop_assert g = fst g"

definition btstack_run_loop_set_timer_handler :: "'app registry \<Rightarrow> addr \<Rightarrow> nat \<Rightarrow> 'app registry option" where
  "btstack_run_loop_set_timer_handler = (\<lambda>(impl, rl) ts process.
     if ts \<notin> dom (ts_process rl) then None else Some (impl, rl\<lparr> ts_process := (ts_process rl)(ts \<mapsto> process) \<rparr>))"

definition btstack_run_loop_set_data_source_handler :: "'app registry \<Rightarrow> addr \<Rightarrow> nat \<Rightarrow> 'app registry option" where
  "btstack_run_loop_set_data_source_handler = (\<lambda>(impl, rl) ds process.
     if ds \<notin> dom (ds_process rl) then None else Some (impl, rl\<lparr> ds_process := (ds_process rl)(ds \<mapsto> process) \<rparr>))"

definition btstack_run_loop_set_data_source_fd :: "'app registry \<Rightarrow> addr \<Rightarrow> int \<Rightarrow> 'app registry option" where
  "btstack_run_loop_set_data_source_fd = (\<lambda>(impl, rl) ds fd.
     if ds \<notin> dom (ds_fd rl) then None else Some (impl, rl\<lparr> ds_fd := (ds_fd rl)(ds \<mapsto> fd) \<rparr>))"

definition btstack_run_loop_get_data_source_fd :: "'app registry \<Rightarrow> addr \<Rightarrow> int option" where
  "btstack_run_loop_get_data_source_fd g ds = ds_fd (snd g) ds"

definition btstack_run_loop_enable_data_source_callbacks :: "'app registry \<Rightarrow> addr \<Rightarrow> u16 \<Rightarrow> 'app registry option" where
  "btstack_run_loop_enable_data_source_callbacks g ds callbacks = do {
     impl \<leftarrow> btstack_run_loop_assert g;
     case impl_enable_data_source_callbacks impl of
       Some f \<Rightarrow> map_option (Pair (Some impl)) (f (snd g) ds callbacks)
     | None \<Rightarrow> Some g }"

definition btstack_run_loop_disable_data_source_callbacks :: "'app registry \<Rightarrow> addr \<Rightarrow> u16 \<Rightarrow> 'app registry option" where
  "btstack_run_loop_disable_data_source_callbacks g ds callbacks = do {
     impl \<leftarrow> btstack_run_loop_assert g;
     case impl_disable_data_source_callbacks impl of
       Some f \<Rightarrow> map_option (Pair (Some impl)) (f (snd g) ds callbacks)
     | None \<Rightarrow> Some g }"

definition btstack_run_loop_add_data_source :: "'app registry \<Rightarrow> addr \<Rightarrow> 'app registry option" where
  "btstack_run_loop_add_data_source g ds = do {
     impl \<leftarrow> btstack_run_loop_assert g;
     case impl_add_data_source impl of
       Some f \<Rightarrow> map_option (Pair (Some impl)) (f (snd g) ds)
     | None \<Rightarrow> Some g }"

definition btstack_run_loop_remove_data_source :: "'app registry \<Rightarrow> addr \<Rightarrow> (int \<times> 'app registry) option" where
  "btstack_run_loop_remove_data_source g ds = do {
     impl \<leftarrow> btstack_run_loop_assert g;
     case impl_remove_data_source impl of
       Some f \<Rightarrow> map_option (\<lambda>(r, rl). (r, Some impl, rl)) (f (snd g) ds)
     | None \<Rightarrow> Some (0, g) }"

definition btstack_run_loop_set_timer :: "'app registry \<Rightarrow> addr \<Rightarrow> u32 \<Rightarrow> 'app registry option" where
  "btstack_run_loop_set_timer g a timeout_in_ms = do {
     impl \<leftarrow> btstack_run_loop_assert g;
     map_option (Pair (Some impl)) (impl_set_timer impl (snd g) a timeout_in_ms) }"

definition btstack_run_loop_set_timer_context :: "'app registry \<Rightarrow> addr \<Rightarrow> addr \<Rightarrow> 'app registry option" where
  "btstack_run_loop_set_timer_context = (\<lambda>(impl, rl) ts context.
     if ts \<notin> dom (ts_context rl) then None else Some (impl, rl\<lparr> ts_context := (ts_context rl)(ts \<mapsto> context) \<rparr>))"

definition btstack_run_loop_get_timer_context :: "'app registry \<Rightarrow> addr \<Rightarrow> addr option" where
  "btstack_run_loop_get_timer_context g ts = ts_context (snd g) ts"

definition btstack_run_loop_add_timer :: "'app registry \<Rightarrow> addr \<Rightarrow> 'app registry option" where
  "btstack_run_loop_add_timer g ts = do {
     impl \<leftarrow> btstack_run_loop_assert g;
     map_option (Pair (Some impl)) (impl_add_timer impl (snd g) ts) }"

definition btstack_run_loop_remove_timer :: "'app registry \<Rightarrow> addr \<Rightarrow> (int \<times> 'app registry) option" where
  "btstack_run_loop_remove_timer g ts = do {
     impl \<leftarrow> btstack_run_loop_assert g;
     map_option (\<lambda>(r, rl). (r, Some impl, rl)) (impl_remove_timer impl (snd g) ts) }"

definition btstack_run_loop_get_time_ms :: "'app registry \<Rightarrow> u32 option" where
  "btstack_run_loop_get_time_ms g = map_option (\<lambda>impl. impl_get_time_ms impl (snd g)) (btstack_run_loop_assert g)"

text \<open>A second initialisation loops for ever.\<close>

definition btstack_run_loop_init :: "'app registry \<Rightarrow> 'app btstack_run_loop \<Rightarrow> 'app registry option" where
  "btstack_run_loop_init g run_loop =
     (if fst g \<noteq> None then None else map_option (Pair (Some run_loop)) (impl_init run_loop (snd g)))"

definition btstack_run_loop_reset :: "'app registry \<Rightarrow> 'app registry" where
  "btstack_run_loop_reset g = (None, snd g)"

section \<open>Deadlines\<close>

text \<open>The time until a timeout, negative when it is over: the code's two part comparison is one of these.\<close>

definition due :: "u32 \<Rightarrow> u32 \<Rightarrow> int" where
  "due now t = sint (t - now)"

lemma due_cases:
  obtains "due now t = uint t - uint now" | "due now t = uint t - uint now + 2 ^ 32" "uint t < uint now" "0 < due now t"
    | "due now t = uint t - uint now - 2 ^ 32" "uint now \<le> uint t" "due now t < 0"
proof -
  have r: "0 \<le> uint t" "uint t < 2 ^ 32" "0 \<le> uint now" "uint now < 2 ^ 32" using uint_lt2p [of t] uint_lt2p [of now] by simp_all
  have u: "uint (t - now) = (if uint now \<le> uint t then uint t - uint now else uint t - uint now + 2 ^ 32)" by (simp add: uint_sub_if')
  have lt: "uint t - uint now < 2 ^ 32" "0 < uint t - uint now + 2 ^ 32" using r by linarith+
  have d: "due now t = (if uint (t - now) < 2 ^ 31 then uint (t - now) else uint (t - now) - 2 ^ 32)"
    unfolding due_def by (rule sint_u32)
  show ?thesis
  proof (cases "uint now \<le> uint t")
    case True
    then have "uint (t - now) = uint t - uint now" using u by simp
    then have "due now t = uint t - uint now \<or> due now t = uint t - uint now - 2 ^ 32 \<and> due now t < 0"
      using d lt by (auto split: if_splits)
    with True that(1,3) show ?thesis by blast
  next
    case False
    then have "uint (t - now) = uint t - uint now + 2 ^ 32" using u by simp
    then have "due now t = uint t - uint now \<or> due now t = uint t - uint now + 2 ^ 32 \<and> 0 < due now t"
      using d lt by (auto split: if_splits)
    with False that(1,2) show ?thesis by (meson not_le)
  qed
qed

text \<open>The upper bits make a number that is as far from now as the timeout.\<close>

lemma reconstruct_higher_bits:
  "btstack_run_loop_embedded_reconstruct_higher_bits now t * 2 ^ 32 + uint t = uint now + due now t"
  by (rule due_cases [of now t])
    (auto simp: btstack_run_loop_embedded_reconstruct_higher_bits_def due_def [symmetric] word_le_def word_less_def)

lemma earlier_iff:
  "btstack_run_loop_embedded_reconstruct_higher_bits now a < btstack_run_loop_embedded_reconstruct_higher_bits now b \<or>
   btstack_run_loop_embedded_reconstruct_higher_bits now a = btstack_run_loop_embedded_reconstruct_higher_bits now b \<and> a < b
   \<longleftrightarrow> due now a < due now b"
proof -
  let ?h = "btstack_run_loop_embedded_reconstruct_higher_bits now"
  have r: "0 \<le> uint a" "uint a < 2 ^ 32" "0 \<le> uint b" "uint b < 2 ^ 32" using uint_lt2p [of a] uint_lt2p [of b] by simp_all
  have e: "due now a < due now b \<longleftrightarrow> ?h a * 2 ^ 32 + uint a < ?h b * 2 ^ 32 + uint b"
    using reconstruct_higher_bits [of now a] reconstruct_higher_bits [of now b] by linarith
  consider "?h a < ?h b" | "?h a = ?h b" | "?h b < ?h a" by linarith
  then show ?thesis
  proof cases
    case 1
    then have "(?h a + 1) * 2 ^ 32 \<le> ?h b * 2 ^ 32" by simp
    then have "?h a * 2 ^ 32 + uint a < ?h b * 2 ^ 32 + uint b" using r unfolding distrib_right by linarith
    with e 1 show ?thesis by simp
  next
    case 2
    with e show ?thesis by (simp add: word_less_def)
  next
    case 3
    then have "(?h b + 1) * 2 ^ 32 \<le> ?h a * 2 ^ 32" by simp
    then have "\<not> ?h a * 2 ^ 32 + uint a < ?h b * 2 ^ 32 + uint b" using r unfolding distrib_right by linarith
    with e 3 show ?thesis by simp
  qed
qed

lemma timer_pending_iff: "timer_pending now t \<longleftrightarrow> 0 < due now t"
  by (rule due_cases [of now t])
    (auto simp: timer_pending_def btstack_run_loop_embedded_reconstruct_higher_bits_def Let_def due_def [symmetric]
      word_le_def word_less_def)

lemma due_tick: "- (2 ^ 31) < due now t \<Longrightarrow> due (now + 1) t = due now t - 1"
proof -
  assume a: "- (2 ^ 31) < due now t"
  have "t - (now + 1) = (t - now) - 1" by simp
  moreover have "sint ((t - now) - 1) = sint (t - now) - 1"
  proof -
    have "uint ((t - now) - 1) = (if 1 \<le> uint (t - now) then uint (t - now) - 1 else uint (t - now) - 1 + 2 ^ 32)"
      by (simp add: uint_sub_if')
    moreover have "0 \<le> uint (t - now)" "uint (t - now) < 2 ^ 32" using uint_lt2p [of "t - now"] by simp_all
    ultimately show ?thesis using a unfolding due_def sint_u32 by (auto split: if_splits)
  qed
  ultimately show ?thesis unfolding due_def by (simp only:)
qed

section \<open>The list of timers\<close>

definition due_of :: "'app run_loop \<Rightarrow> addr \<Rightarrow> int" where
  "due_of rl ts = due (system_ticks rl) (the (ts_timeout rl ts))"

definition has_timers :: "'app run_loop \<Rightarrow> addr list \<Rightarrow> bool" where
  "has_timers rl xs \<longleftrightarrow> linked (rl_heap rl) (timers rl) xs \<and> set xs \<subseteq> dom (ts_timeout rl)"

text \<open>Ordered insertion, behind the timers that are due no later.\<close>

definition insert_due :: "('a \<Rightarrow> int) \<Rightarrow> 'a \<Rightarrow> 'a list \<Rightarrow> 'a list" where
  "insert_due f x xs = takeWhile (\<lambda>y. f y \<le> f x) xs @ x # dropWhile (\<lambda>y. f y \<le> f x) xs"

lemma insert_due_simps [simp]:
  "insert_due f x [] = [x]"
  "insert_due f x (y # ys) = (if f y \<le> f x then y # insert_due f x ys else x # y # ys)"
  by (simp_all add: insert_due_def)

lemma insert_due_set [simp]: "set (insert_due f x xs) = insert x (set xs)"
  by (induction xs) auto

lemma insert_due_distinct: "distinct xs \<Longrightarrow> x \<notin> set xs \<Longrightarrow> distinct (insert_due f x xs)"
  by (induction xs) auto

lemma insert_due_sorted: "sorted (map f xs) \<Longrightarrow> sorted (map f (insert_due f x xs))"
  by (induction xs) fastforce+

lemma timer_place:
  assumes "chain h a xs" and "ts \<notin> set xs" and "set xs \<subseteq> dom timeout" and "timeout ts = Some t"
  shows "timer_place_from h timeout now (btstack_run_loop_embedded_reconstruct_higher_bits now t) t ts a
    = Some (Some (last (a # takeWhile (\<lambda>y. due now (the (timeout y)) \<le> due now t) xs)))"
  using assms(1-3)
proof (induction xs arbitrary: a)
  case Nil
  then show ?case by (subst timer_place_from.simps) simp
next
  case (Cons x xs)
  obtain u where u: "timeout x = Some u" using Cons.prems(3) by auto
  have x: "h a = Some x" "x \<noteq> NULL" "x \<noteq> ts" using Cons.prems by auto
  have "timer_place_from h timeout now (btstack_run_loop_embedded_reconstruct_higher_bits now t) t ts a
    = (if due now t < due now u then Some (Some a)
       else timer_place_from h timeout now (btstack_run_loop_embedded_reconstruct_higher_bits now t) t ts x)"
    using x u by (subst timer_place_from.simps) (simp add: earlier_iff Let_def)
  with Cons u show ?case by (cases "due now t < due now u") simp_all
qed

lemma chain_insert:
  assumes "chain h a (ps @ ss)" and "distinct (a # ps @ ss)" and "x \<notin> insert a (set (ps @ ss))" and "x \<noteq> NULL"
    and "h (last (a # ps)) = Some n"
  shows "chain (h(x \<mapsto> n, last (a # ps) \<mapsto> x)) a (ps @ x # ss)"
  using assms
proof (induction ps arbitrary: a)
  case Nil
  have "chain (h(x \<mapsto> n)) x ss" using Nil.prems by (cases ss) auto
  then have "chain (h(x \<mapsto> n, a \<mapsto> x)) x ss" using Nil.prems by (subst chain_update) auto
  then show ?case using Nil.prems by (simp del: fun_upd_apply add: fun_upd_same)
next
  case (Cons p ps)
  let ?h = "h(x \<mapsto> n, last (p # ps) \<mapsto> x)"
  have "last (p # ps) \<in> set (p # ps)" by (rule last_in_set) simp
  then have "last (p # ps) \<noteq> a" using Cons.prems(2) by auto
  moreover have "chain ?h p (ps @ x # ss)" using Cons.prems by (intro Cons.IH) auto
  moreover have "?h a = Some p" using Cons.prems calculation(1) by auto
  ultimately show ?case using Cons.prems by (simp del: fun_upd_apply)
qed

lemma add_timer_inserts:
  assumes "has_timers rl xs" and "ts \<notin> set xs" and "ts \<in> dom (rl_heap rl)" and "ts \<in> dom (ts_timeout rl)"
    and "ts \<noteq> NULL" and "ts \<noteq> timers rl"
  shows "\<exists>h. btstack_run_loop_embedded_add_timer rl ts = Some (rl\<lparr> rl_heap := h \<rparr>)
           \<and> has_timers (rl\<lparr> rl_heap := h \<rparr>) (insert_due (due_of rl) ts xs)
           \<and> (sorted (map (due_of rl) xs) \<longrightarrow> sorted (map (due_of rl) (insert_due (due_of rl) ts xs)))
           \<and> same_except (insert (timers rl) (insert ts (set xs))) (rl_heap rl) h"
proof -
  let ?P = "\<lambda>y. due_of rl y \<le> due_of rl ts" and ?l = "timers rl"
  define ps ss where "ps = takeWhile ?P xs" and "ss = dropWhile ?P xs"
  have xs: "xs = ps @ ss" unfolding ps_def ss_def by simp
  have ins: "insert_due (due_of rl) ts (ps @ ss) = ps @ ts # ss" unfolding ps_def ss_def insert_due_def by simp
  obtain t where t: "ts_timeout rl ts = Some t" using assms(4) by auto
  have ds: "distinct (?l # ps @ ts # ss)" "set (ps @ ts # ss) \<subseteq> dom (ts_timeout rl)"
    using assms(1,2,4,6) unfolding has_timers_def linked_def xs by auto
  have c: "chain (rl_heap rl) ?l xs" and d: "distinct (?l # xs)" and nl: "?l \<noteq> NULL"
    and tm: "set xs \<subseteq> dom (ts_timeout rl)" using assms(1) by (auto simp: has_timers_def linked_def)
  have place: "timer_place_from (rl_heap rl) (ts_timeout rl) (system_ticks rl)
      (btstack_run_loop_embedded_reconstruct_higher_bits (system_ticks rl) t) t ts ?l = Some (Some (last (?l # ps)))"
    using timer_place [OF c assms(2) tm t, of "system_ticks rl"] t by (simp add: ps_def due_of_def)
  have li: "last (?l # ps) \<in> insert ?l (set xs)" using last_in_set [of "?l # ps"] unfolding xs by auto
  then have ld: "last (?l # ps) \<in> dom (rl_heap rl)" and lt: "last (?l # ps) \<noteq> ts"
    using chain_dom [OF c] assms(2,6) by auto
  then obtain n where n: "rl_heap rl (last (?l # ps)) = Some n" by auto
  define h where "h = (rl_heap rl)(ts \<mapsto> n, last (?l # ps) \<mapsto> ts)"
  have "btstack_run_loop_embedded_add_timer rl ts = Some (rl\<lparr> rl_heap := h \<rparr>)"
    using place t n assms(3) ld by (simp add: btstack_run_loop_embedded_add_timer_def set_next_def h_def)
  moreover have "chain h ?l (ps @ ts # ss)"
    unfolding h_def by (rule chain_insert [OF c [unfolded xs] d [unfolded xs] _ assms(5) n]) (use assms(2,6) xs in simp)
  then have "has_timers (rl\<lparr> rl_heap := h \<rparr>) (insert_due (due_of rl) ts xs)"
    using ds nl unfolding has_timers_def linked_def xs ins by simp
  moreover have "same_except (insert ?l (insert ts (set xs))) (rl_heap rl) h"
    using li ld assms(3) unfolding same_except_def h_def by auto
  ultimately show ?thesis using insert_due_sorted [of "due_of rl" xs ts] by (intro exI [of _ h]) simp
qed

section \<open>Running the timers\<close>

lemma insert_due_append: "\<forall>y \<in> set xs. f y \<le> f x \<Longrightarrow> insert_due f x (xs @ ys) = xs @ insert_due f x ys"
  by (induction xs) auto

lemma insert_due_cong: "(\<And>y. y \<in> insert x (set xs) \<Longrightarrow> f y = g y) \<Longrightarrow> insert_due f x xs = insert_due g x xs"
  by (induction xs) auto

lemma due_set_timer:
  fixes k :: u32
  assumes "uint k < 2 ^ 31 - 1"
  shows "due now (now + 1 + k) = 1 + uint k"
proof -
  have "uint (1 + k) = (1 + uint k) mod 2 ^ 32" by (simp add: uint_word_ariths)
  then have "uint (1 + k) = 1 + uint k" using assms by simp
  then show ?thesis using assms unfolding due_def sint_u32 by simp
qed

lemma set_timer_due:
  assumes "ts \<in> dom (ts_timeout rl)" and "uint ms < 2 ^ 31 - 2"
  shows "\<exists>t. btstack_run_loop_embedded_set_timer rl ts ms = Some (rl\<lparr> ts_timeout := (ts_timeout rl)(ts \<mapsto> t) \<rparr>)
           \<and> due (system_ticks rl) t = 1 + max 1 (uint ms)"
proof -
  define k :: u32 where "k = (if ms = 0 then 1 else ms)"
  have "ms \<noteq> 0 \<Longrightarrow> 1 \<le> uint ms" by (metis int_one_le_iff_zero_less order_le_less uint_ge_0 unsigned_eq_0_iff)
  then have "uint k = max 1 (uint ms)" by (auto simp: k_def)
  then have "due (system_ticks rl) (system_ticks rl + 1 + k) = 1 + max 1 (uint ms)"
    using assms(2) by (subst due_set_timer) auto
  moreover have "btstack_run_loop_embedded_set_timer rl ts ms
      = Some (rl\<lparr> ts_timeout := (ts_timeout rl)(ts \<mapsto> system_ticks rl + 1 + k) \<rparr>)"
    using assms(1) by (auto simp: btstack_run_loop_embedded_set_timer_def btstack_run_loop_embedded_ticks_for_ms_def
        hal_tick_get_tick_period_in_ms_def k_def Let_def)
  ultimately show ?thesis by blast
qed

text \<open>A handler that updates the application's state and either is done with its timer or sets it again.\<close>

definition rearms :: "'app handlers \<Rightarrow> (nat \<Rightarrow> addr \<Rightarrow> 'app \<Rightarrow> 'app) \<Rightarrow> (addr \<Rightarrow> u32 option) \<Rightarrow> addr set \<Rightarrow> bool" where
  "rearms handlers f period S \<longleftrightarrow> (\<forall>ts \<in> S. \<forall>p rl. handlers p ts rl =
     (let rl = rl\<lparr> app := f p ts (app rl) \<rparr>
      in case period ts of
           None \<Rightarrow> Some rl
         | Some ms \<Rightarrow> do {
             rl \<leftarrow> btstack_run_loop_embedded_set_timer rl ts ms;
             btstack_run_loop_embedded_add_timer rl ts }))"

lemma remove_first_timer:
  assumes "has_timers rl (x # xs)"
  shows "\<exists>h. btstack_run_loop_embedded_remove_timer rl x = Some (0, rl\<lparr> rl_heap := h \<rparr>)
           \<and> has_timers (rl\<lparr> rl_heap := h \<rparr>) xs \<and> x \<in> dom h
           \<and> same_except (insert (timers rl) (insert x (set xs))) (rl_heap rl) h"
proof -
  have l: "linked (rl_heap rl) (timers rl) (x # xs)" using assms by (simp add: has_timers_def)
  then have "x \<noteq> timers rl" "x \<in> dom (rl_heap rl)" using linked_dom [OF l] by (auto simp: linked_def)
  with list_remove_refines [OF l, of x] assms show ?thesis
    by (auto simp: btstack_run_loop_embedded_remove_timer_def has_timers_def)
qed

lemma rearms_step:
  assumes "rearms handlers f period S" and "now = system_ticks rl" and "has_timers rl (d # ds @ ws)"
    and so: "sorted (map (due_of rl) (ds @ ws))" and dd: "due_of rl d \<le> 0" and ds: "\<forall>y \<in> set ds. due_of rl y \<le> 0"
    and p: "ts_process rl d = Some p" and ms: "\<forall>ms. period d = Some ms \<longrightarrow> uint ms < 2 ^ 31 - 2" and S: "d \<in> S"
  shows "\<exists>rl' ws'. run_timers handlers now rl = run_timers handlers now rl' \<and> has_timers rl' (ds @ ws')
           \<and> sorted (map (due_of rl') (ds @ ws')) \<and> set ws' = set ws \<union> (if period d = None then {} else {d})
           \<and> (\<forall>y. y \<noteq> d \<longrightarrow> due_of rl' y = due_of rl y)
           \<and> (\<forall>ms. period d = Some ms \<longrightarrow> due_of rl' d = 1 + max 1 (uint ms))
           \<and> app rl' = f p d (app rl) \<and> ts_process rl' = ts_process rl \<and> system_ticks rl' = now
           \<and> (\<forall>a. a \<noteq> d \<longrightarrow> ts_timeout rl' a = ts_timeout rl a) \<and> timers rl' = timers rl
           \<and> data_sources rl' = data_sources rl
           \<and> same_except (insert (timers rl) (set (d # ds @ ws))) (rl_heap rl) (rl_heap rl')"
proof -
  obtain h where rm: "btstack_run_loop_embedded_remove_timer rl d = Some (0, rl\<lparr> rl_heap := h \<rparr>)"
    and h: "has_timers (rl\<lparr> rl_heap := h \<rparr>) (ds @ ws)" "d \<in> dom h"
    and fr: "same_except (insert (timers rl) (set (d # ds @ ws))) (rl_heap rl) h"
    using remove_first_timer [OF assms(3)] by auto
  obtain t where t: "ts_timeout rl d = Some t" using assms(3) by (auto simp: has_timers_def)
  have f: "rl_heap rl (timers rl) = Some d" "d \<noteq> NULL" and dl: "d \<noteq> timers rl" and nin: "d \<notin> set (ds @ ws)"
    using assms(3) by (auto simp: has_timers_def linked_def)
  define rl1 where "rl1 = rl\<lparr> rl_heap := h, app := f p d (app rl) \<rparr>"
  have "\<not> timer_pending now t" using assms(2) dd t by (simp add: timer_pending_iff due_of_def)
  then have step: "run_timers handlers now rl = Option.bind (handlers p d (rl\<lparr> rl_heap := h \<rparr>)) (run_timers handlers now)"
    using f t rm p by (subst run_timers.simps) simp
  have fields1: "rl_heap rl1 = h" "data_sources rl1 = data_sources rl" "timers rl1 = timers rl" "ts_process rl1 = ts_process rl" "system_ticks rl1 = now"
    "ts_timeout rl1 = ts_timeout rl" "app rl1 = f p d (app rl)" using assms(2) by (simp_all add: rl1_def)
  have due1: "due_of rl1 = due_of rl" by (simp add: due_of_def fields1 fun_eq_iff assms(2) [symmetric])
  have ht1: "has_timers rl1 (ds @ ws)" using h(1) by (simp add: rl1_def has_timers_def)
  show ?thesis
  proof (cases "period d")
    case None
    then have "handlers p d (rl\<lparr> rl_heap := h \<rparr>) = Some rl1"
      using assms(1) S by (simp add: rearms_def rl1_def)
    with step None ht1 so fr show ?thesis by (intro exI [of _ rl1] exI [of _ ws]) (simp add: fields1 due1)
  next
    case (Some k)
    have "d \<in> dom (ts_timeout rl1)" using t by (simp add: fields1 domI)
    from set_timer_due [OF this, of k] ms Some obtain u where
      st: "btstack_run_loop_embedded_set_timer rl1 d k = Some (rl1\<lparr> ts_timeout := (ts_timeout rl1)(d \<mapsto> u) \<rparr>)"
      and u: "due now u = 1 + max 1 (uint k)" unfolding fields1 by blast
    define rl2 where "rl2 = rl1\<lparr> ts_timeout := (ts_timeout rl1)(d \<mapsto> u) \<rparr>"
    have fields: "rl_heap rl2 = h" "data_sources rl2 = data_sources rl" "timers rl2 = timers rl" "ts_process rl2 = ts_process rl" "system_ticks rl2 = now"
      "ts_timeout rl2 = (ts_timeout rl)(d \<mapsto> u)" "app rl2 = f p d (app rl)"
      using assms(2) by (simp_all add: rl2_def rl1_def)
    have due2: "due_of rl2 d = 1 + max 1 (uint k)" "\<And>y. y \<noteq> d \<Longrightarrow> due_of rl2 y = due_of rl y"
      using u assms(2) by (simp_all add: due_of_def fields)
    have m: "map (due_of rl2) (ds @ ws) = map (due_of rl) (ds @ ws)" using nin by (intro map_cong refl due2(2)) auto
    have ht2: "has_timers rl2 (ds @ ws)" using h(1) by (auto simp: has_timers_def fields)
    have "d \<in> dom (rl_heap rl2)" "d \<in> dom (ts_timeout rl2)" "d \<noteq> timers rl2" using h(2) dl by (simp_all add: fields)
    from add_timer_inserts [OF ht2 nin this(1,2) f(2) this(3)] obtain h3 where
      ad: "btstack_run_loop_embedded_add_timer rl2 d = Some (rl2\<lparr> rl_heap := h3 \<rparr>)"
      and ht3: "has_timers (rl2\<lparr> rl_heap := h3 \<rparr>) (insert_due (due_of rl2) d (ds @ ws))"
      and so3: "sorted (map (due_of rl2) (insert_due (due_of rl2) d (ds @ ws)))"
      and fr3: "same_except (insert (timers rl) (set (d # ds @ ws))) h h3"
      unfolding m fields using so by auto
    define rl3 ws3 where "rl3 = rl2\<lparr> rl_heap := h3 \<rparr>" and "ws3 = insert_due (due_of rl2) d ws"
    have d3: "due_of rl3 = due_of rl2" by (simp add: rl3_def due_of_def fun_eq_iff)
    have "\<forall>y \<in> set ds. due_of rl2 y \<le> due_of rl2 d" using ds due2 nin by fastforce
    then have i3: "insert_due (due_of rl2) d (ds @ ws) = ds @ ws3" unfolding ws3_def by (rule insert_due_append)
    have "handlers p d (rl\<lparr> rl_heap := h \<rparr>) = Some rl3"
      using assms(1) S Some st ad by (simp add: rearms_def rl1_def rl2_def rl3_def)
    with step have s: "run_timers handlers now rl = run_timers handlers now rl3" by simp
    have "has_timers rl3 (ds @ ws3)" "sorted (map (due_of rl3) (ds @ ws3))"
      using ht3 so3 unfolding i3 d3 rl3_def [symmetric] by simp_all
    moreover have "ts_process rl3 = ts_process rl" "system_ticks rl3 = now" "app rl3 = f p d (app rl)"
      "timers rl3 = timers rl" "data_sources rl3 = data_sources rl" "rl_heap rl3 = h3" "ts_timeout rl3 = (ts_timeout rl)(d \<mapsto> u)" by (simp_all add: rl3_def fields)
    moreover have "set ws3 = insert d (set ws)" by (simp add: ws3_def)
    ultimately show ?thesis using s Some due2 same_except_trans [OF fr fr3] by (intro exI [of _ rl3] exI [of _ ws3]) (simp add: d3)
  qed
qed

lemma run_timers_pending:
  assumes "has_timers rl ws" and "\<forall>w \<in> set ws. 0 < due_of rl w" and "now = system_ticks rl"
  shows "run_timers handlers now rl = Some rl"
proof (cases ws)
  case Nil
  then have "rl_heap rl (timers rl) = Some NULL" using assms(1) by (simp add: has_timers_def linked_def)
  then show ?thesis by (subst run_timers.simps) simp
next
  case (Cons w ws')
  then have "rl_heap rl (timers rl) = Some w" "w \<noteq> NULL" using assms(1) by (auto simp: has_timers_def linked_def)
  moreover obtain t where t: "ts_timeout rl w = Some t" using Cons assms(1) by (auto simp: has_timers_def)
  moreover have "timer_pending now t" using t Cons assms(2,3) by (simp add: timer_pending_iff due_of_def)
  ultimately show ?thesis by (subst run_timers.simps) simp
qed

lemma run_timers_rearms:
  assumes "rearms handlers f period S" and "now = system_ticks rl"
    and "has_timers rl (ds @ ws)" and "sorted (map (due_of rl) (ds @ ws))"
    and "\<forall>d \<in> set ds. due_of rl d \<le> 0" and "\<forall>w \<in> set ws. 0 < due_of rl w"
    and "set ds \<subseteq> dom (ts_process rl)"
    and "\<forall>d \<in> set ds. \<forall>ms. period d = Some ms \<longrightarrow> uint ms < 2 ^ 31 - 2" and "set ds \<subseteq> S"
  shows "\<exists>rl' ws'. run_timers handlers now rl = Some rl' \<and> has_timers rl' ws' \<and> sorted (map (due_of rl') ws')
           \<and> set ws' = set ws \<union> {d \<in> set ds. period d \<noteq> None}
           \<and> (\<forall>w \<in> set ws'. 0 < due_of rl' w)
           \<and> (\<forall>d \<in> set ds. \<forall>ms. period d = Some ms \<longrightarrow> due_of rl' d = 1 + max 1 (uint ms))
           \<and> app rl' = fold (\<lambda>d. f (the (ts_process rl d)) d) ds (app rl)
           \<and> system_ticks rl' = now \<and> (\<forall>a. a \<notin> set ds \<longrightarrow> ts_timeout rl' a = ts_timeout rl a)
           \<and> timers rl' = timers rl \<and> data_sources rl' = data_sources rl
           \<and> same_except (insert (timers rl) (set (ds @ ws))) (rl_heap rl) (rl_heap rl')"
  using assms(2-)
proof (induction ds arbitrary: rl ws)
  case Nil
  with run_timers_pending [of rl ws now handlers] show ?case
    by (intro exI [of _ rl] exI [of _ ws]) (simp add: same_except_def)
next
  case (Cons d ds)
  obtain p where p: "ts_process rl d = Some p" using Cons.prems(6) by auto
  have nin: "d \<notin> set ds" "d \<notin> set ws" using Cons.prems(2) by (auto simp: has_timers_def linked_def)
  obtain rl1 ws1 where s: "run_timers handlers now rl = run_timers handlers now rl1"
    and r1: "has_timers rl1 (ds @ ws1)" "sorted (map (due_of rl1) (ds @ ws1))"
      "set ws1 = set ws \<union> (if period d = None then {} else {d})" "\<And>y. y \<noteq> d \<Longrightarrow> due_of rl1 y = due_of rl y"
      "\<And>ms. period d = Some ms \<Longrightarrow> due_of rl1 d = 1 + max 1 (uint ms)" "app rl1 = f p d (app rl)"
      "ts_process rl1 = ts_process rl" "system_ticks rl1 = now" "\<And>a. a \<noteq> d \<Longrightarrow> ts_timeout rl1 a = ts_timeout rl a"
      "timers rl1 = timers rl" "data_sources rl1 = data_sources rl"
    and fr1: "same_except (insert (timers rl) (set (d # ds @ ws))) (rl_heap rl) (rl_heap rl1)"
    using rearms_step [OF assms(1), of now rl d ds ws p] Cons.prems p by auto
  have "\<forall>w \<in> set ws1. 0 < due_of rl1 w"
  proof
    fix w assume "w \<in> set ws1"
    then show "0 < due_of rl1 w" using r1(3,4,5) Cons.prems(5) nin(2) by (cases "w = d") (auto split: if_splits)
  qed
  moreover have "\<forall>y \<in> set ds. due_of rl1 y \<le> 0" using r1(4) Cons.prems(4) nin(1) by (metis list.set_intros(2))
  ultimately obtain rl' ws' where r: "run_timers handlers now rl1 = Some rl'"
      "has_timers rl' ws'" "sorted (map (due_of rl') ws')" "set ws' = set ws1 \<union> {d \<in> set ds. period d \<noteq> None}"
      "\<forall>w \<in> set ws'. 0 < due_of rl' w" "\<forall>d \<in> set ds. \<forall>ms. period d = Some ms \<longrightarrow> due_of rl' d = 1 + max 1 (uint ms)"
      "app rl' = fold (\<lambda>d. f (the (ts_process rl1 d)) d) ds (app rl1)" "system_ticks rl' = now"
      "\<forall>a. a \<notin> set ds \<longrightarrow> ts_timeout rl' a = ts_timeout rl1 a" "timers rl' = timers rl1" "data_sources rl' = data_sources rl1"
      and fr': "same_except (insert (timers rl1) (set (ds @ ws1))) (rl_heap rl1) (rl_heap rl')"
    using Cons.IH [of rl1 ws1] r1(1,2,7,8) Cons.prems(6-8) by auto
  have "\<And>ms. period d = Some ms \<Longrightarrow> due_of rl' d = 1 + max 1 (uint ms)"
    using r1(5) r(8,9) nin(1) r1(8) by (simp add: due_of_def)
  moreover have "set ws' = set ws \<union> {d' \<in> set (d # ds). period d' \<noteq> None}" using r(4) r1(3) by (auto split: if_splits)
  moreover have "\<forall>a. a \<notin> set (d # ds) \<longrightarrow> ts_timeout rl' a = ts_timeout rl a" using r(9) r1(9) by simp
  moreover have "insert (timers rl1) (set (ds @ ws1)) \<subseteq> insert (timers rl) (set ((d # ds) @ ws))"
    using r1(3,10) by (auto split: if_splits)
  then have "same_except (insert (timers rl) (set ((d # ds) @ ws))) (rl_heap rl) (rl_heap rl')"
    using same_except_trans [OF fr1] same_except_mono [OF fr'] by simp
  ultimately show ?case using r r1 p unfolding s by (intro exI [of _ rl'] exI [of _ ws']) simp
qed

section \<open>Polling the data sources\<close>

definition polled :: "'app run_loop \<Rightarrow> addr \<Rightarrow> bool" where
  "polled rl d \<longleftrightarrow> the (ds_flags rl d) AND DATA_SOURCE_CALLBACK_POLL \<noteq> 0"

text \<open>A data source that updates the application's state and may take itself off the list.\<close>

definition polls :: "'app handlers \<Rightarrow> (nat \<Rightarrow> addr \<Rightarrow> 'app \<Rightarrow> 'app) \<Rightarrow> (addr \<Rightarrow> bool) \<Rightarrow> addr set \<Rightarrow> bool" where
  "polls handlers g leaves S \<longleftrightarrow> (\<forall>d \<in> S. \<forall>p rl. handlers p d rl =
     (let rl = rl\<lparr> app := g p d (app rl) \<rparr>
      in if leaves d then map_option snd (btstack_run_loop_embedded_remove_data_source rl d) else Some rl))"

definition poll_app :: "'app run_loop \<Rightarrow> (nat \<Rightarrow> addr \<Rightarrow> 'app \<Rightarrow> 'app) \<Rightarrow> addr \<Rightarrow> 'app \<Rightarrow> 'app" where
  "poll_app rl g d = (if polled rl d then g (the (ds_process rl d)) d else id)"

lemma poll_from_polls:
  assumes "polls handlers g leaves S" and "linked (rl_heap rl) (data_sources rl) (ks @ ds)" and "set ds \<subseteq> S"
    and "set ds \<subseteq> dom (ds_flags rl) \<inter> dom (ds_process rl)"
  shows "\<exists>h. poll_from handlers rl (case ds of [] \<Rightarrow> NULL | d # _ \<Rightarrow> d)
             = Some (rl\<lparr> rl_heap := h, app := fold (poll_app rl g) ds (app rl) \<rparr>)
           \<and> linked h (data_sources rl) (ks @ filter (\<lambda>d. \<not> (polled rl d \<and> leaves d)) ds)
           \<and> same_except (insert (data_sources rl) (set (ks @ ds))) (rl_heap rl) h"
  using assms(2-)
proof (induction ds arbitrary: rl ks)
  case Nil
  then show ?case by (subst poll_from.simps) (auto simp: same_except_def intro!: exI [of _ "rl_heap rl"])
next
  case (Cons d ds)
  define n where "n = (case ds of [] \<Rightarrow> NULL | d # _ \<Rightarrow> d)"
  obtain fl p where fl: "ds_flags rl d = Some fl" and p: "ds_process rl d = Some p" using Cons.prems(3) by auto
  have "chain (rl_heap rl) d ds" using Cons.prems(1) chain_suffix by (auto simp: linked_def)
  then have n: "rl_heap rl d = Some n" unfolding n_def by (rule chain_first)
  have d: "d \<noteq> NULL" "d \<noteq> data_sources rl" "d \<in> S" 
    using Cons.prems(1,2) chain_not_null [of "rl_heap rl" "data_sources rl" "ks @ d # ds"] by (auto simp: linked_def)
  let ?rl = "rl\<lparr> app := poll_app rl g d (app rl) \<rparr>"
  define gone where "gone \<longleftrightarrow> polled rl d \<and> leaves d"
  obtain h1 where s: "poll_from handlers rl d = poll_from handlers (?rl\<lparr> rl_heap := h1 \<rparr>) n"
    and l1: "linked h1 (data_sources rl) ((ks @ (if gone then [] else [d])) @ ds)"
    and fr: "same_except (insert (data_sources rl) (set (ks @ d # ds))) (rl_heap rl) h1"
  proof (cases gone)
    case True
    have "remove1 d (ks @ d # ds) = ks @ ds" using Cons.prems(1) by (auto simp: linked_def remove1_append)
    with list_remove_refines [OF Cons.prems(1) d(2)] obtain h1 where
      "btstack_linked_list_remove (rl_heap rl) (data_sources rl) d = Some (0, h1)" "linked h1 (data_sources rl) (ks @ ds)"
      "same_except (insert (data_sources rl) (set (ks @ d # ds))) (rl_heap rl) h1" by auto
    moreover from this(1) have "poll_from handlers rl d = poll_from handlers (?rl\<lparr> rl_heap := h1 \<rparr>) n"
      using assms(1) d n fl p True by (subst poll_from.simps)
        (simp add: polls_def gone_def polled_def poll_app_def btstack_run_loop_embedded_remove_data_source_def)
    ultimately show ?thesis using True that by simp
  next
    case False
    then have "poll_from handlers rl d = poll_from handlers ?rl n"
      using assms(1) d n fl p by (subst poll_from.simps) (auto simp: polls_def gone_def polled_def poll_app_def)
    then show ?thesis using that [of "rl_heap rl"] False Cons.prems(1) by (simp add: same_except_def)
  qed
  let ?rl1 = "?rl\<lparr> rl_heap := h1 \<rparr>"
  have e: "poll_app ?rl1 g = poll_app rl g" "polled ?rl1 = polled rl" by (auto simp: poll_app_def polled_def fun_eq_iff)
  from Cons.IH [of ?rl1 "ks @ (if gone then [] else [d])"] l1 Cons.prems(2,3) obtain h where
    h: "poll_from handlers ?rl1 n = Some (?rl1\<lparr> rl_heap := h, app := fold (poll_app rl g) ds (poll_app rl g d (app rl)) \<rparr>)"
      "linked h (data_sources rl) ((ks @ (if gone then [] else [d])) @ filter (\<lambda>d. \<not> (polled rl d \<and> leaves d)) ds)"
      "same_except (insert (data_sources rl) (set ((ks @ (if gone then [] else [d])) @ ds))) h1 h"
    unfolding e n_def [symmetric] by auto
  have "same_except (insert (data_sources rl) (set (ks @ d # ds))) (rl_heap rl) h"
    by (rule same_except_trans [OF fr same_except_mono [OF h(3)]]) auto
  with s h(1,2) show ?case by (intro exI [of _ h]) (auto simp: gone_def)
qed

lemma filter_sorted_split:
  "sorted (map f xs) \<Longrightarrow> filter (\<lambda>x. f x \<le> c) xs @ filter (\<lambda>x. c < f x) xs = xs" for f :: "'a \<Rightarrow> int"
proof (induction xs)
  case (Cons x xs)
  show ?case
  proof (cases "f x \<le> c")
    case False
    then have "\<forall>y \<in> set xs. c < f y" using Cons.prems by auto
    then show ?thesis using False by (auto simp: filter_empty_conv not_le)
  qed (use Cons in auto)
qed simp

section \<open>A timer set again while it is active\<close>

definition timer_cycle :: "u32 \<Rightarrow> addr set \<Rightarrow> 'app run_loop \<Rightarrow> bool" where
  "timer_cycle now C rl \<longleftrightarrow> timers rl \<noteq> NULL \<and> timers rl \<notin> C \<and> NULL \<notin> C
     \<and> (\<forall>c \<in> insert (timers rl) C. \<exists>c' \<in> C. rl_heap rl c = Some c')
     \<and> (\<forall>c \<in> C. \<exists>t. ts_timeout rl c = Some t \<and> due now t \<le> 0)"

lemma timer_cycle_step:
  assumes "timer_cycle now C rl" and "rearms handlers f (\<lambda>_. None) C"
  shows "\<exists>c t rl' rl''. rl_heap rl (timers rl) = Some c \<and> c \<noteq> NULL \<and> ts_timeout rl c = Some t \<and> \<not> timer_pending now t
           \<and> btstack_run_loop_embedded_remove_timer rl c = Some (0, rl') \<and> ts_process rl' = ts_process rl
           \<and> (\<forall>p. \<exists>rl''. handlers p c rl' = Some rl'' \<and> timer_cycle now C rl'')"
proof -
  obtain c where c: "c \<in> C" "rl_heap rl (timers rl) = Some c" using assms(1) by (auto simp: timer_cycle_def)
  obtain c' where c': "c' \<in> C" "rl_heap rl c = Some c'" using assms(1) c(1) by (auto simp: timer_cycle_def)
  obtain t where t: "ts_timeout rl c = Some t" "\<not> timer_pending now t"
    using assms(1) c(1) by (auto simp: timer_cycle_def timer_pending_iff)
  have ne: "c \<noteq> NULL" "timers rl \<noteq> NULL" using assms(1) c(1) by (auto simp: timer_cycle_def)
  define rl' where "rl' = rl\<lparr> rl_heap := (rl_heap rl)(timers rl \<mapsto> c') \<rparr>"
  have "btstack_run_loop_embedded_remove_timer rl c = Some (0, rl')"
    using c c' ne by (simp add: btstack_run_loop_embedded_remove_timer_def btstack_linked_list_remove_def
        remove_from.simps [of "rl_heap rl" "timers rl"] set_next_def domI rl'_def)
  moreover have "handlers p c rl' = Some (rl'\<lparr> app := f p c (app rl') \<rparr>)" for p
    using assms(2) c(1) by (simp add: rearms_def)
  moreover have "timer_cycle now C (rl'\<lparr> app := a \<rparr>)" for a
    using assms(1) c'(1) unfolding timer_cycle_def by (auto simp: rl'_def)
  ultimately show ?thesis using c t ne by (fastforce simp: rl'_def)
qed

lemma run_timers_cycle:
  assumes "run_timers handlers now rl = Some y" and "rearms handlers f (\<lambda>_. None) C"
  shows "\<not> timer_cycle now C rl"
  using assms
proof (induction rule: run_timers.raw_induct [rotated, consumes 1])
  case (1 run handlers now rl y)
  show ?case
  proof
    assume cyc: "timer_cycle now C rl"
    from timer_cycle_step [OF cyc 1(3)] obtain c t rl' where
      s: "rl_heap rl (timers rl) = Some c" "c \<noteq> NULL" "ts_timeout rl c = Some t" "\<not> timer_pending now t"
        "btstack_run_loop_embedded_remove_timer rl c = Some (0, rl')"
      and h: "\<And>p. \<exists>rl''. handlers p c rl' = Some rl'' \<and> timer_cycle now C rl''" by auto
    from 1(2) s obtain p where "ts_process rl' c = Some p" by (auto simp: bind_eq_Some_conv)
    with h [of p] obtain rl'' where "handlers p c rl' = Some rl''" "timer_cycle now C rl''" by auto
    with 1(1) [of handlers now rl'' y] 1(2,3) s \<open>ts_process rl' c = Some p\<close> show False by simp
  qed
qed

lemma timer_place_first:
  assumes "h l = Some x" and "x \<noteq> NULL" and "x \<noteq> ts" and "timeout x = Some u" and "due now t < due now u"
  shows "timer_place_from h timeout now (btstack_run_loop_embedded_reconstruct_higher_bits now t) t ts l = Some (Some l)"
  using assms by (subst timer_place_from.simps) (simp add: earlier_iff Let_def)

lemma chain_members:
  "chain h a (xs @ y # ys) \<Longrightarrow> c \<in> insert a (set xs) \<Longrightarrow> \<exists>c' \<in> set (xs @ [y]). h c = Some c'"
proof (induction xs arbitrary: a)
  case (Cons x xs)
  then show ?case by (cases "c = a") fastforce+
qed simp

text \<open>A run loop with two data sources and three timers, two of them due, whose tick has just overflowed.\<close>

definition example_run_loop :: "addr list run_loop" where
  "example_run_loop =
     \<lparr> rl_heap = [200 \<mapsto> 11, 11 \<mapsto> 12, 12 \<mapsto> NULL, 100 \<mapsto> 31, 31 \<mapsto> 32, 32 \<mapsto> 33, 33 \<mapsto> NULL, 34 \<mapsto> NULL],
       data_sources = 200, timers = 100,
       ts_timeout = [31 \<mapsto> 0xfffffff0, 32 \<mapsto> 5, 33 \<mapsto> 9, 34 \<mapsto> 5],
       ts_process = [31 \<mapsto> 50, 32 \<mapsto> 50, 33 \<mapsto> 50, 34 \<mapsto> 50], ts_context = Map.empty,
       ds_process = [11 \<mapsto> 60, 12 \<mapsto> 60], ds_flags = [11 \<mapsto> 1, 12 \<mapsto> 1], ds_fd = Map.empty,
       system_ticks = 5, trigger_event_received = 0, app = [] \<rparr>"

text \<open>Its handlers record who ran; the first data source leaves the list, and timer 32 is set again to 0 ms.\<close>

definition example_handlers :: "addr list handlers" where
  "example_handlers = (\<lambda>p a rl.
     (let rl = rl\<lparr> app := app rl @ [a] \<rparr>
      in if a = 11 then map_option snd (btstack_run_loop_embedded_remove_data_source rl a)
         else if a = 32 then do {
           rl \<leftarrow> btstack_run_loop_embedded_set_timer rl a 0;
           btstack_run_loop_embedded_add_timer rl a }
         else Some rl))"

lemma example_has_timers: "has_timers example_run_loop [31, 32, 33]"
  by (simp add: has_timers_def linked_def example_run_loop_def NULL_def)

lemma example_due:
  "due_of example_run_loop 31 = - 21" "due_of example_run_loop 32 = 0" "due_of example_run_loop 33 = 4"
  "due_of example_run_loop 34 = 0"
  by (simp_all add: due_of_def due_def example_run_loop_def)

section \<open>Properties\<close>

text \<open>C9: One pass of the run loop.  It returns, whatever is due, for handlers that update the application's state
  and may take their own data source off the list, or set their own timer again, even to 0 ms: every data source
  enabled for polling is polled once, in order, with the next one remembered so that leaving the list is harmless;
  then exactly the timers that are due when the timers start run, once each, in the order of their deadlines.  In
  the end the list holds the timers that were not due and those that were set again, is sorted, and no timer
  in it is due: a set-again timer is due \<open>1 + max 1 ms\<close> ticks later, so it cannot keep the pass from ending.\<close>

theorem run_loop_pass:
  assumes "polls handlers g leaves (set dss)" and "rearms handlers f period (set xs)"
    and "linked (rl_heap rl) (data_sources rl) dss" and "set dss \<subseteq> dom (ds_flags rl) \<inter> dom (ds_process rl)"
    and "has_timers rl xs" and "sorted (map (due_of rl) xs)" and "set xs \<subseteq> dom (ts_process rl)"
    and "insert (data_sources rl) (set dss) \<inter> insert (timers rl) (set xs) = {}"
    and "\<forall>ts \<in> set xs. \<forall>ms. period ts = Some ms \<longrightarrow> uint ms < 2 ^ 31 - 2"
  shows "\<exists>rl' xs'. btstack_run_loop_embedded_execute_once handlers rl = Some rl'
           \<and> app rl' = fold (\<lambda>ts. f (the (ts_process rl ts)) ts) (filter (\<lambda>ts. due_of rl ts \<le> 0) xs)
                         (fold (poll_app rl g) dss (app rl))
           \<and> linked (rl_heap rl') (data_sources rl') (filter (\<lambda>d. \<not> (polled rl d \<and> leaves d)) dss)
           \<and> has_timers rl' xs' \<and> sorted (map (due_of rl') xs')
           \<and> set xs' = {ts \<in> set xs. due_of rl ts \<le> 0 \<longrightarrow> period ts \<noteq> None}
           \<and> (\<forall>ts \<in> set xs'. 0 < due_of rl' ts)
           \<and> (\<forall>ts \<in> set xs. \<forall>ms. due_of rl ts \<le> 0 \<and> period ts = Some ms \<longrightarrow> due_of rl' ts = 1 + max 1 (uint ms))"
proof -
  obtain h where p: "poll_from handlers rl (case dss of [] \<Rightarrow> NULL | d # _ \<Rightarrow> d)
      = Some (rl\<lparr> rl_heap := h, app := fold (poll_app rl g) dss (app rl) \<rparr>)"
    and l: "linked h (data_sources rl) (filter (\<lambda>d. \<not> (polled rl d \<and> leaves d)) dss)"
    and fr: "same_except (insert (data_sources rl) (set dss)) (rl_heap rl) h"
    using poll_from_polls [OF assms(1), of rl "[]" dss] assms(3,4) by auto
  define rl1 where "rl1 = rl\<lparr> rl_heap := h, app := fold (poll_app rl g) dss (app rl) \<rparr>"
  have first: "rl_heap rl (data_sources rl) = Some (case dss of [] \<Rightarrow> NULL | d # _ \<Rightarrow> d)"
    using assms(3) by (auto simp: linked_def dest: chain_first)
  let ?due = "filter (\<lambda>ts. due_of rl ts \<le> 0) xs" and ?pend = "filter (\<lambda>ts. 0 < due_of rl ts) xs"
  have xs: "?due @ ?pend = xs" by (rule filter_sorted_split [OF assms(6)])
  have d1: "due_of rl1 = due_of rl" by (simp add: rl1_def due_of_def fun_eq_iff)
  have tp: "ts_process rl1 = ts_process rl" by (simp add: rl1_def)
  have ht1: "has_timers rl1 xs"
    using assms(5) same_except_linked [OF fr assms(8)] by (simp add: rl1_def has_timers_def)
  have "\<exists>rl' xs'. run_timers handlers (system_ticks rl1) rl1 = Some rl' \<and> has_timers rl' xs' \<and> sorted (map (due_of rl') xs')
      \<and> set xs' = set ?pend \<union> {d \<in> set ?due. period d \<noteq> None} \<and> (\<forall>w \<in> set xs'. 0 < due_of rl' w)
      \<and> (\<forall>d \<in> set ?due. \<forall>ms. period d = Some ms \<longrightarrow> due_of rl' d = 1 + max 1 (uint ms))
      \<and> app rl' = fold (\<lambda>d. f (the (ts_process rl1 d)) d) ?due (app rl1)
      \<and> system_ticks rl' = system_ticks rl1 \<and> (\<forall>a. a \<notin> set ?due \<longrightarrow> ts_timeout rl' a = ts_timeout rl1 a)
      \<and> timers rl' = timers rl1 \<and> data_sources rl' = data_sources rl1
      \<and> same_except (insert (timers rl1) (set (?due @ ?pend))) (rl_heap rl1) (rl_heap rl')"
    by (rule run_timers_rearms [OF assms(2) refl]) (use ht1 assms(6,7,9) in \<open>auto simp: xs d1 tp\<close>)
  then obtain rl' xs' where r: "run_timers handlers (system_ticks rl1) rl1 = Some rl'" "has_timers rl' xs'"
      "sorted (map (due_of rl') xs')" "set xs' = set ?pend \<union> {d \<in> set ?due. period d \<noteq> None}"
      "\<forall>w \<in> set xs'. 0 < due_of rl' w"
      "\<forall>d \<in> set ?due. \<forall>ms. period d = Some ms \<longrightarrow> due_of rl' d = 1 + max 1 (uint ms)"
      "app rl' = fold (\<lambda>d. f (the (ts_process rl1 d)) d) ?due (app rl1)" "data_sources rl' = data_sources rl1"
      "same_except (insert (timers rl1) (set xs)) (rl_heap rl1) (rl_heap rl')" unfolding xs by blast
  have "linked (rl_heap rl') (data_sources rl') (filter (\<lambda>d. \<not> (polled rl d \<and> leaves d)) dss)"
  proof (subst same_except_linked [OF r(9)])
    show "insert (timers rl1) (set xs) \<inter> insert (data_sources rl') (set (filter (\<lambda>d. \<not> (polled rl d \<and> leaves d)) dss)) = {}"
      using assms(8) r(8) by (auto simp: rl1_def)
    show "linked (rl_heap rl1) (data_sources rl') (filter (\<lambda>d. \<not> (polled rl d \<and> leaves d)) dss)"
      using l r(8) by (simp add: rl1_def)
  qed
  moreover have "btstack_run_loop_embedded_execute_once handlers rl = Some rl'"
    using p first r(1) by (simp add: btstack_run_loop_embedded_execute_once_def rl1_def [symmetric])
  moreover have "set xs' = {ts \<in> set xs. due_of rl ts \<le> 0 \<longrightarrow> period ts \<noteq> None}" unfolding r(4) by auto
  moreover have "app rl' = fold (\<lambda>ts. f (the (ts_process rl ts)) ts) ?due (fold (poll_app rl g) dss (app rl))"
    using r(7) unfolding tp by (simp add: rl1_def)
  moreover have "\<forall>ts \<in> set xs. \<forall>ms. due_of rl ts \<le> 0 \<and> period ts = Some ms \<longrightarrow> due_of rl' ts = 1 + max 1 (uint ms)"
    using r(6) by simp
  ultimately show ?thesis using r(2,3,5) by blast
qed

theorem run_loop_pass_witness:
  "\<exists>rl' xs'. btstack_run_loop_embedded_execute_once example_handlers example_run_loop = Some rl'
     \<and> app rl' = [11, 12, 31, 32] \<and> set xs' = {32, 33} \<and> has_timers rl' xs' \<and> due_of rl' 32 = 2"
proof -
  let ?rl = example_run_loop and ?ts = "[31, 32, 33] :: addr list" and ?ds = "[11, 12] :: addr list"
  let ?period = "\<lambda>a. if a = 32 then Some (0 :: u32) else None" and ?f = "\<lambda>_ a s. s @ [a]"
  have po: "polls example_handlers ?f (\<lambda>a. a = 11) (set ?ds)" by (simp add: polls_def example_handlers_def)
  have re: "rearms example_handlers ?f ?period (set ?ts)" by (simp add: rearms_def example_handlers_def)
  have ds: "linked (rl_heap ?rl) (data_sources ?rl) ?ds" "set ?ds \<subseteq> dom (ds_flags ?rl) \<inter> dom (ds_process ?rl)"
    by (simp_all add: linked_def example_run_loop_def NULL_def)
  have so: "sorted (map (due_of ?rl) ?ts)" by (simp add: example_due)
  have ts: "set ?ts \<subseteq> dom (ts_process ?rl)"
    "insert (data_sources ?rl) (set ?ds) \<inter> insert (timers ?rl) (set ?ts) = {}" by (simp_all add: example_run_loop_def)
  have p: "polled ?rl 11" "polled ?rl 12" by (simp_all add: polled_def example_run_loop_def)
  have a: "app ?rl = []" by (simp add: example_run_loop_def)
  have "\<forall>ts \<in> set ?ts. \<forall>ms. ?period ts = Some ms \<longrightarrow> uint ms < 2 ^ 31 - 2" by simp
  from run_loop_pass [OF po re ds example_has_timers so ts this] obtain rl' xs' where
    r: "btstack_run_loop_embedded_execute_once example_handlers ?rl = Some rl'"
      "app rl' = fold (\<lambda>ts. ?f (the (ts_process ?rl ts)) ts) (filter (\<lambda>ts. due_of ?rl ts \<le> 0) ?ts)
         (fold (poll_app ?rl ?f) ?ds (app ?rl))"
      "has_timers rl' xs'" "set xs' = {ts \<in> set ?ts. due_of ?rl ts \<le> 0 \<longrightarrow> ?period ts \<noteq> None}"
      "\<forall>ts \<in> set ?ts. \<forall>ms. due_of ?rl ts \<le> 0 \<and> ?period ts = Some ms \<longrightarrow> due_of rl' ts = 1 + max 1 (uint ms)"
    by blast
  have "set xs' = {32, 33}" unfolding r(4) by (auto simp: example_due)
  moreover have "app rl' = [11, 12, 31, 32]" unfolding r(2) by (simp add: example_due poll_app_def p a)
  moreover have "due_of rl' 32 = 2" using r(5) by (simp add: example_due)
  ultimately show ?thesis using r(1,3) by blast
qed

text \<open>C10: Adding a timer is ordered insertion.  The run loop splits a 32 bit deadline in two parts and rebuilds its upper
  bits from the current tick, so as to compare across the overflow of the tick; the walk that compares this way puts
  a timer that is not yet active exactly where insertion by the signed time left puts it: behind every timer due no
  later (those of the same deadline run in the order they were added), before all others.  A sorted list stays
  sorted, and no memory but the links of the list and of the timer changes.\<close>

theorem run_loop_add_timer:
  assumes "has_timers rl xs" and "ts \<notin> set xs" and "ts \<in> dom (rl_heap rl)" and "ts \<in> dom (ts_timeout rl)"
    and "ts \<noteq> NULL" and "ts \<noteq> timers rl"
  shows "\<exists>h. btstack_run_loop_embedded_add_timer rl ts = Some (rl\<lparr> rl_heap := h \<rparr>)
           \<and> has_timers (rl\<lparr> rl_heap := h \<rparr>) (insert_due (due_of rl) ts xs)
           \<and> (sorted (map (due_of rl) xs) \<longrightarrow> sorted (map (due_of rl) (insert_due (due_of rl) ts xs)))
           \<and> same_except (insert (timers rl) (insert ts (set xs))) (rl_heap rl) h"
  using assms by (rule add_timer_inserts)

theorem run_loop_add_timer_witness:
  "\<exists>h. btstack_run_loop_embedded_add_timer example_run_loop 34 = Some (example_run_loop\<lparr> rl_heap := h \<rparr>)
     \<and> has_timers (example_run_loop\<lparr> rl_heap := h \<rparr>) [31, 32, 34, 33]"
proof -
  have "insert_due (due_of example_run_loop) 34 [31, 32, 33] = [31, 32, 34, 33]" by (simp add: example_due)
  moreover have "34 \<in> dom (rl_heap example_run_loop)" "34 \<in> dom (ts_timeout example_run_loop)" "34 \<noteq> NULL"
    "34 \<noteq> timers example_run_loop" by (auto simp: example_run_loop_def NULL_def)
  ultimately show ?thesis using run_loop_add_timer [OF example_has_timers, of 34] by auto
qed

text \<open>A timer that is already active must not be added again with an earlier deadline.  \<open>add_timer\<close> stops at
  the first timer due later and so does not get to its test for a timer that is in the list already: it links the
  timer in a second time, in front, and the list becomes a ring, so that it is no list any more.  Once all timers
  of the ring are due, the loop that runs the timers never returns, even though no handler sets a timer again.\<close>

theorem run_loop_readd_hangs:
  assumes "has_timers rl (x # ms @ ts # zs)" and "due_of rl ts < due_of rl x"
    and "rearms handlers f (\<lambda>_. None) (set (x # ms @ [ts]))"
  shows "\<exists>h. btstack_run_loop_embedded_add_timer rl ts = Some (rl\<lparr> rl_heap := h \<rparr>)
           \<and> (\<forall>ys. \<not> linked h (timers rl) ys)
           \<and> (\<forall>now a. (\<forall>y \<in> set (x # ms @ [ts]). due now (the (ts_timeout rl y)) \<le> 0)
                \<longrightarrow> btstack_run_loop_embedded_execute_once_timer handlers
                      (rl\<lparr> rl_heap := h, system_ticks := now, app := a \<rparr>) = None)"
proof -
  let ?l = "timers rl" and ?C = "set (x # ms @ [ts])"
  have c: "chain (rl_heap rl) ?l (x # ms @ ts # zs)" and d: "distinct (?l # x # ms @ ts # zs)" and nl: "?l \<noteq> NULL"
    and tm: "set (x # ms @ ts # zs) \<subseteq> dom (ts_timeout rl)" using assms(1) by (auto simp: has_timers_def linked_def)
  have nn: "NULL \<notin> ?C" using chain_not_null [OF c] by simp
  obtain t u where t: "ts_timeout rl ts = Some t" and u: "ts_timeout rl x = Some u" using tm by auto
  have hx: "rl_heap rl ?l = Some x" and tsd: "ts \<in> dom (rl_heap rl)" using c chain_dom [OF c] by auto
  define h where "h = (rl_heap rl)(ts \<mapsto> x, ?l \<mapsto> ts)"
  have "timer_place_from (rl_heap rl) (ts_timeout rl) (system_ticks rl)
      (btstack_run_loop_embedded_reconstruct_higher_bits (system_ticks rl) t) t ts ?l = Some (Some ?l)"
    using assms(2) t u nn d by (intro timer_place_first [where x = x and u = u]) (auto simp: due_of_def hx)
  then have add: "btstack_run_loop_embedded_add_timer rl ts = Some (rl\<lparr> rl_heap := h \<rparr>)"
    using t hx tsd by (simp add: btstack_run_loop_embedded_add_timer_def set_next_def h_def domI)
  have ring: "\<exists>c' \<in> ?C. h c = Some c'" if "c \<in> insert ?l ?C" for c
  proof -
    show ?thesis
    proof (cases "c = ?l \<or> c = ts")
      case False
      then have "c \<in> insert x (set ms)" using that by auto
      then show ?thesis using chain_members [of "rl_heap rl" x ms ts zs c] c False by (auto simp: h_def)
    qed (use d in \<open>auto simp: h_def\<close>)
  qed
  have "\<not> linked h ?l ys" for ys
  proof
    assume "linked h ?l ys"
    then have ch: "chain h ?l ys" by (simp add: linked_def)
    have "chain h a ys \<Longrightarrow> a \<in> insert ?l ?C \<Longrightarrow> False" for a
    proof (induction ys arbitrary: a)
      case Nil
      then show ?case using ring [of a] nn by auto
    next
      case (Cons y ys)
      then show ?case using ring [of a] by auto
    qed
    with ch show False by blast
  qed
  moreover have "btstack_run_loop_embedded_execute_once_timer handlers (rl\<lparr> rl_heap := h, system_ticks := now, app := a \<rparr>) = None"
    if all: "\<forall>y \<in> ?C. due now (the (ts_timeout rl y)) \<le> 0" for now a
  proof -
    have "\<forall>c \<in> ?C. \<exists>t. ts_timeout rl c = Some t \<and> due now t \<le> 0" using all tm by force
    then have "timer_cycle now ?C (rl\<lparr> rl_heap := h, system_ticks := now, app := a \<rparr>)"
      using ring nn nl d unfolding timer_cycle_def by simp
    then show ?thesis using run_timers_cycle [OF _ assms(3)]
      by (fastforce simp: btstack_run_loop_embedded_execute_once_timer_def)
  qed
  ultimately show ?thesis using add by blast
qed

text \<open>Timer 33, active behind timer 32, is set to an earlier deadline and added again.\<close>

definition example_readd :: "addr list run_loop" where
  "example_readd = example_run_loop\<lparr> ts_timeout := [31 \<mapsto> 7, 32 \<mapsto> 8, 33 \<mapsto> 6] \<rparr>"

theorem run_loop_readd_hangs_witness:
  "\<exists>h. btstack_run_loop_embedded_add_timer example_readd 33 = Some (example_readd\<lparr> rl_heap := h \<rparr>)
     \<and> btstack_run_loop_embedded_execute_once_timer (\<lambda>_ _. Some) (example_readd\<lparr> rl_heap := h, system_ticks := 10, app := [] \<rparr>) = None"
proof -
  have "has_timers example_readd (31 # [32] @ 33 # [])" "due_of example_readd 33 < due_of example_readd 31"
    by (simp_all add: has_timers_def linked_def example_readd_def example_run_loop_def NULL_def due_of_def due_def)
  moreover have "rearms (\<lambda>_ _. Some) (\<lambda>_ _ a. a) (\<lambda>_. None) (set (31 # [32] @ [33]))" by (simp add: rearms_def)
  moreover have "\<forall>y \<in> set (31 # [32] @ [33]). due 10 (the (ts_timeout example_readd y)) \<le> 0"
    by (simp add: example_readd_def example_run_loop_def due_def)
  ultimately show ?thesis using run_loop_readd_hangs [of example_readd 31 "[32]" 33 "[]"] by blast
qed

end
