(* ===== verification/Slip.thy ===== *)
theory Slip
  imports BT_Util
begin

text \<open>
  Model of \<open>btstack_slip.c\<close>: the SLIP framing of the H5 transport, with the byte by byte encoder
  and the decoder state machine.  The file keeps a second copy of the decoder (suffix \<open>_ext\<close>) with
  its own variables; it is modelled by its own definitions on a second decoder record and shown to
  be the same machine.
\<close>

definition BTSTACK_SLIP_SOF :: u8 where "BTSTACK_SLIP_SOF = 0xc0"

section \<open>Encoder\<close>

datatype encoder_state = SLIP_ENCODER_DEFAULT | SLIP_ENCODER_SEND_DC | SLIP_ENCODER_SEND_DD

record slip_encoder =
  enc_state :: encoder_state
  enc_data :: buffer \<comment> \<open>what \<open>encoder_data\<close> points to from here on\<close>
  enc_len :: u16

definition btstack_slip_encoder_start :: "buffer \<Rightarrow> u16 \<Rightarrow> slip_encoder" where
  "btstack_slip_encoder_start data len =
     \<lparr> enc_state = SLIP_ENCODER_DEFAULT, enc_data = data, enc_len = len \<rparr>"

definition btstack_slip_encoder_has_data :: "slip_encoder \<Rightarrow> bool" where
  "btstack_slip_encoder_has_data e =
     (if enc_state e \<noteq> SLIP_ENCODER_DEFAULT then True else enc_len e > 0)"

definition btstack_slip_encoder_get_byte :: "slip_encoder \<Rightarrow> (u8 \<times> slip_encoder) option" where
  "btstack_slip_encoder_get_byte e =
     (case enc_state e of
        SLIP_ENCODER_DEFAULT \<Rightarrow> do {
          next_byte \<leftarrow> rd (enc_data e) 0;
          let e = e\<lparr> enc_data := drop 1 (enc_data e), enc_len := enc_len e - 1 \<rparr>;
          Some (if next_byte = BTSTACK_SLIP_SOF then (0xdb, e\<lparr> enc_state := SLIP_ENCODER_SEND_DC \<rparr>)
                else if next_byte = 0xdb then (0xdb, e\<lparr> enc_state := SLIP_ENCODER_SEND_DD \<rparr>)
                else (next_byte, e)) }
      | SLIP_ENCODER_SEND_DC \<Rightarrow> Some (0xdc, e\<lparr> enc_state := SLIP_ENCODER_DEFAULT \<rparr>)
      | SLIP_ENCODER_SEND_DD \<Rightarrow> Some (0xdd, e\<lparr> enc_state := SLIP_ENCODER_DEFAULT \<rparr>))"

section \<open>Decoder\<close>

datatype decoder_state = SLIP_DECODER_UNKNOWN | SLIP_DECODER_ACTIVE | SLIP_DECODER_X_C0
  | SLIP_DECODER_X_DB | SLIP_DECODER_COMPLETE

record slip_decoder =
  dec_state :: decoder_state
  dec_buffer :: buffer
  dec_max_size :: u16
  dec_pos :: u16

definition btstack_slip_decoder_reset :: "slip_decoder \<Rightarrow> slip_decoder" where
  "btstack_slip_decoder_reset d = d\<lparr> dec_state := SLIP_DECODER_UNKNOWN, dec_pos := 0 \<rparr>"

definition btstack_slip_decoder_store_byte :: "slip_decoder \<Rightarrow> u8 \<Rightarrow> slip_decoder option" where
  "btstack_slip_decoder_store_byte d input =
     (let d = (if dec_pos d \<ge> dec_max_size d then btstack_slip_decoder_reset d else d)
      in do {
        buf \<leftarrow> wr (dec_buffer d) (unat (dec_pos d)) input;
        Some (d\<lparr> dec_buffer := buf, dec_pos := dec_pos d + 1 \<rparr>) })"

definition btstack_slip_decoder_init :: "buffer \<Rightarrow> u16 \<Rightarrow> slip_decoder" where
  "btstack_slip_decoder_init buf max_size =
     \<lparr> dec_state = SLIP_DECODER_UNKNOWN, dec_buffer = buf, dec_max_size = max_size, dec_pos = 0 \<rparr>"

definition btstack_slip_decoder_process :: "slip_decoder \<Rightarrow> u8 \<Rightarrow> slip_decoder option" where
  "btstack_slip_decoder_process d input =
     (case dec_state d of
        SLIP_DECODER_UNKNOWN \<Rightarrow>
          if input \<noteq> BTSTACK_SLIP_SOF then Some d
          else Some ((btstack_slip_decoder_reset d)\<lparr> dec_state := SLIP_DECODER_X_C0 \<rparr>)
      | SLIP_DECODER_COMPLETE \<Rightarrow> Some (btstack_slip_decoder_reset d)
      | SLIP_DECODER_X_C0 \<Rightarrow>
          if input = BTSTACK_SLIP_SOF then Some d
          else if input = 0xdb then Some (d\<lparr> dec_state := SLIP_DECODER_X_DB \<rparr>)
          else do {
            d \<leftarrow> btstack_slip_decoder_store_byte d input;
            Some (d\<lparr> dec_state := SLIP_DECODER_ACTIVE \<rparr>) }
      | SLIP_DECODER_X_DB \<Rightarrow>
          if input = 0xdc then do {
            d \<leftarrow> btstack_slip_decoder_store_byte d BTSTACK_SLIP_SOF;
            Some (d\<lparr> dec_state := SLIP_DECODER_ACTIVE \<rparr>) }
          else if input = 0xdd then do {
            d \<leftarrow> btstack_slip_decoder_store_byte d 0xdb;
            Some (d\<lparr> dec_state := SLIP_DECODER_ACTIVE \<rparr>) }
          else Some (btstack_slip_decoder_reset d)
      | SLIP_DECODER_ACTIVE \<Rightarrow>
          if input = BTSTACK_SLIP_SOF then
            (if dec_pos d \<noteq> 0 then Some (d\<lparr> dec_state := SLIP_DECODER_COMPLETE \<rparr>)
             else Some (btstack_slip_decoder_reset d))
          else if input = 0xdb then Some (d\<lparr> dec_state := SLIP_DECODER_X_DB \<rparr>)
          else btstack_slip_decoder_store_byte d input)"

definition btstack_slip_decoder_frame_size :: "slip_decoder \<Rightarrow> u16" where
  "btstack_slip_decoder_frame_size d =
     (case dec_state d of SLIP_DECODER_COMPLETE \<Rightarrow> dec_pos d | _ \<Rightarrow> 0)"

subsection \<open>The second copy\<close>

definition btstack_slip_decoder_reset_ext :: "slip_decoder \<Rightarrow> slip_decoder" where
  "btstack_slip_decoder_reset_ext d = d\<lparr> dec_state := SLIP_DECODER_UNKNOWN, dec_pos := 0 \<rparr>"

definition btstack_slip_decoder_store_byte_ext :: "slip_decoder \<Rightarrow> u8 \<Rightarrow> slip_decoder option" where
  "btstack_slip_decoder_store_byte_ext d input =
     (let d = (if dec_pos d \<ge> dec_max_size d then btstack_slip_decoder_reset_ext d else d)
      in do {
        buf \<leftarrow> wr (dec_buffer d) (unat (dec_pos d)) input;
        Some (d\<lparr> dec_buffer := buf, dec_pos := dec_pos d + 1 \<rparr>) })"

definition btstack_slip_decoder_init_ext :: "buffer \<Rightarrow> u16 \<Rightarrow> slip_decoder" where
  "btstack_slip_decoder_init_ext buf max_size =
     \<lparr> dec_state = SLIP_DECODER_UNKNOWN, dec_buffer = buf, dec_max_size = max_size, dec_pos = 0 \<rparr>"

definition btstack_slip_decoder_process_ext :: "slip_decoder \<Rightarrow> u8 \<Rightarrow> slip_decoder option" where
  "btstack_slip_decoder_process_ext d input =
     (case dec_state d of
        SLIP_DECODER_UNKNOWN \<Rightarrow>
          if input \<noteq> BTSTACK_SLIP_SOF then Some d
          else Some ((btstack_slip_decoder_reset_ext d)\<lparr> dec_state := SLIP_DECODER_X_C0 \<rparr>)
      | SLIP_DECODER_COMPLETE \<Rightarrow> Some (btstack_slip_decoder_reset_ext d)
      | SLIP_DECODER_X_C0 \<Rightarrow>
          if input = BTSTACK_SLIP_SOF then Some d
          else if input = 0xdb then Some (d\<lparr> dec_state := SLIP_DECODER_X_DB \<rparr>)
          else do {
            d \<leftarrow> btstack_slip_decoder_store_byte_ext d input;
            Some (d\<lparr> dec_state := SLIP_DECODER_ACTIVE \<rparr>) }
      | SLIP_DECODER_X_DB \<Rightarrow>
          if input = 0xdc then do {
            d \<leftarrow> btstack_slip_decoder_store_byte_ext d BTSTACK_SLIP_SOF;
            Some (d\<lparr> dec_state := SLIP_DECODER_ACTIVE \<rparr>) }
          else if input = 0xdd then do {
            d \<leftarrow> btstack_slip_decoder_store_byte_ext d 0xdb;
            Some (d\<lparr> dec_state := SLIP_DECODER_ACTIVE \<rparr>) }
          else Some (btstack_slip_decoder_reset_ext d)
      | SLIP_DECODER_ACTIVE \<Rightarrow>
          if input = BTSTACK_SLIP_SOF then
            (if dec_pos d \<noteq> 0 then Some (d\<lparr> dec_state := SLIP_DECODER_COMPLETE \<rparr>)
             else Some (btstack_slip_decoder_reset_ext d))
          else if input = 0xdb then Some (d\<lparr> dec_state := SLIP_DECODER_X_DB \<rparr>)
          else btstack_slip_decoder_store_byte_ext d input)"

lemma slip_ext_same:
  "btstack_slip_decoder_reset_ext = btstack_slip_decoder_reset"
  "btstack_slip_decoder_store_byte_ext = btstack_slip_decoder_store_byte"
  "btstack_slip_decoder_init_ext = btstack_slip_decoder_init"
  "btstack_slip_decoder_process_ext = btstack_slip_decoder_process"
proof -
  show r: "btstack_slip_decoder_reset_ext = btstack_slip_decoder_reset"
    by (simp add: fun_eq_iff btstack_slip_decoder_reset_ext_def btstack_slip_decoder_reset_def)
  show s: "btstack_slip_decoder_store_byte_ext = btstack_slip_decoder_store_byte"
    by (simp add: fun_eq_iff btstack_slip_decoder_store_byte_ext_def btstack_slip_decoder_store_byte_def r)
  show "btstack_slip_decoder_init_ext = btstack_slip_decoder_init"
    by (simp add: fun_eq_iff btstack_slip_decoder_init_ext_def btstack_slip_decoder_init_def)
  show "btstack_slip_decoder_process_ext = btstack_slip_decoder_process"
    unfolding fun_eq_iff btstack_slip_decoder_process_ext_def btstack_slip_decoder_process_def r s by simp
qed

section \<open>Runs\<close>

text \<open>Drain the encoder the way its client does; the bound on the number of bytes is twice the
  remaining length plus one pending byte.\<close>

fun slip_encode_from :: "nat \<Rightarrow> slip_encoder \<Rightarrow> buffer option" where
  "slip_encode_from n e =
     (if \<not> btstack_slip_encoder_has_data e then Some []
      else case n of 0 \<Rightarrow> None
         | Suc m \<Rightarrow> do {
             (b, e) \<leftarrow> btstack_slip_encoder_get_byte e;
             rest \<leftarrow> slip_encode_from m e;
             Some (b # rest) })"

definition slip_encode :: "buffer \<Rightarrow> u16 \<Rightarrow> buffer option" where
  "slip_encode data len = slip_encode_from (2 * unat len) (btstack_slip_encoder_start data len)"

fun slip_decode :: "slip_decoder \<Rightarrow> buffer \<Rightarrow> slip_decoder option" where
  "slip_decode d [] = Some d"
| "slip_decode d (b # bs) = do { d \<leftarrow> btstack_slip_decoder_process d b; slip_decode d bs }"

section \<open>The encoder escapes every byte\<close>

definition slip_escape :: "u8 \<Rightarrow> buffer" where
  "slip_escape b = (if b = 0xc0 then [0xdb, 0xdc] else if b = 0xdb then [0xdb, 0xdd] else [b])"

declare slip_encode_from.simps [simp del]

lemma enc_len_pos: "enc_len e > 0 \<longleftrightarrow> 0 < unat (enc_len e)"
  by (simp add: word_less_nat_alt)

lemma slip_encode_from_eq:
  assumes "unat (enc_len e) \<le> length (enc_data e)" and "enc_state e = SLIP_ENCODER_DEFAULT"
    and "2 * unat (enc_len e) \<le> n"
  shows "slip_encode_from n e = Some (concat (map slip_escape (take (unat (enc_len e)) (enc_data e))))"
  using assms
proof (induction "unat (enc_len e)" arbitrary: e n)
  case 0
  then show ?case
    by (subst slip_encode_from.simps) (simp add: btstack_slip_encoder_has_data_def enc_len_pos)
next
  case (Suc k)
  obtain b rest where d: "enc_data e = b # rest" using Suc.hyps(2) Suc.prems(1) by (cases "enc_data e") auto
  obtain m where n: "n = Suc (Suc m)" "2 * k \<le> m"
  proof -
    have "2 * Suc k \<le> n" using Suc.hyps(2) Suc.prems(3) by simp
    then have "n = Suc (Suc (n - 2))" "2 * k \<le> n - 2" by simp_all
    then show ?thesis by (rule that)
  qed
  let ?e = "e\<lparr> enc_data := rest, enc_len := enc_len e - 1 \<rparr>"
  have l: "unat (enc_len ?e) = k"
  proof -
    have "enc_len e \<noteq> 0" using Suc.hyps(2) by auto
    then show ?thesis using Suc.hyps(2) by (simp add: unat_minus_one)
  qed
  have IH: "slip_encode_from j ?e = Some (concat (map slip_escape (take k rest)))" if "2 * k \<le> j" for j
    using Suc.hyps(1) [of ?e j] l Suc.prems d Suc.hyps(2) that by simp
  have has: "btstack_slip_encoder_has_data e"
    using Suc.hyps(2) by (simp add: btstack_slip_encoder_has_data_def enc_len_pos)
  have e': "(?e\<lparr> enc_state := SLIP_ENCODER_SEND_DC \<rparr>)\<lparr> enc_state := SLIP_ENCODER_DEFAULT \<rparr> = ?e"
      "(?e\<lparr> enc_state := SLIP_ENCODER_SEND_DD \<rparr>)\<lparr> enc_state := SLIP_ENCODER_DEFAULT \<rparr> = ?e"
    using Suc.prems(2) by (cases e; simp)+
  have len: "take (unat (enc_len e)) (enc_data e) = b # take k rest" by (simp add: d flip: Suc.hyps(2))
  have pend: "slip_encode_from (Suc m) (?e\<lparr> enc_state := SLIP_ENCODER_SEND_DC \<rparr>) =
        Some (0xdc # concat (map slip_escape (take k rest)))"
      "slip_encode_from (Suc m) (?e\<lparr> enc_state := SLIP_ENCODER_SEND_DD \<rparr>) =
        Some (0xdd # concat (map slip_escape (take k rest)))"
    using IH [OF n(2)] e'
    by (subst slip_encode_from.simps; simp add: btstack_slip_encoder_has_data_def btstack_slip_encoder_get_byte_def)+
  show ?case
    unfolding len n using has d Suc.prems(2) pend IH [of "Suc m"] n(2)
    by (subst slip_encode_from.simps)
       (simp add: btstack_slip_encoder_get_byte_def rd_def slip_escape_def BTSTACK_SLIP_SOF_def Let_def)
qed

lemma slip_encode_eq:
  assumes "unat len \<le> length data"
  shows "slip_encode data len = Some (concat (map slip_escape (take (unat len) data)))"
  using assms slip_encode_from_eq [of "btstack_slip_encoder_start data len"]
  by (simp add: slip_encode_def btstack_slip_encoder_start_def)

section \<open>Decoder safety\<close>

text \<open>The position never passes the size, and a complete frame is not empty.\<close>

definition dec_inv :: "slip_decoder \<Rightarrow> bool" where
  "dec_inv d \<longleftrightarrow> 0 < unat (dec_max_size d) \<and> unat (dec_max_size d) \<le> length (dec_buffer d)
     \<and> unat (dec_pos d) \<le> unat (dec_max_size d) \<and> (dec_state d = SLIP_DECODER_COMPLETE \<longrightarrow> dec_pos d \<noteq> 0)"

lemma dec_store_byte:
  assumes "dec_inv d" and "dec_state d \<noteq> SLIP_DECODER_COMPLETE"
  shows "\<exists>d'. btstack_slip_decoder_store_byte d b = Some d' \<and> dec_inv d' \<and> dec_state d' \<noteq> SLIP_DECODER_COMPLETE
           \<and> dec_pos d' \<noteq> 0 \<and> dec_max_size d' = dec_max_size d \<and> length (dec_buffer d') = length (dec_buffer d)"
proof (cases "dec_pos d \<ge> dec_max_size d")
  case True
  have "0 < length (dec_buffer d)" using assms(1) by (auto simp: dec_inv_def)
  then show ?thesis using assms True
    by (auto simp: btstack_slip_decoder_store_byte_def btstack_slip_decoder_reset_def dec_inv_def wr_def Let_def)
next
  case False
  then have lt: "unat (dec_pos d) < unat (dec_max_size d)" by (simp add: word_le_nat_alt)
  have "unat (dec_pos d) + 1 < 65536" using lt unat_u16_less [of "dec_max_size d"] by linarith
  then have "unat (dec_pos d + 1) = unat (dec_pos d) + 1"
    by (subst unat_plus_no_wrap) auto
  then show ?thesis using assms lt False
    by (auto simp: btstack_slip_decoder_store_byte_def dec_inv_def wr_def unat_eq_0)
qed

lemma dec_process_inv:
  assumes "dec_inv d"
  shows "\<exists>d'. btstack_slip_decoder_process d b = Some d' \<and> dec_inv d' \<and> dec_max_size d' = dec_max_size d
           \<and> length (dec_buffer d') = length (dec_buffer d)"
proof -
  have stay: "dec_inv (d\<lparr> dec_state := s \<rparr>)" if "s = SLIP_DECODER_COMPLETE \<longrightarrow> dec_pos d \<noteq> 0" for s
    using assms that by (simp add: dec_inv_def)
  have rst: "dec_inv (btstack_slip_decoder_reset d)"
    and rst2: "dec_inv ((btstack_slip_decoder_reset d)\<lparr> dec_state := SLIP_DECODER_X_C0 \<rparr>)"
    using assms by (auto simp: dec_inv_def btstack_slip_decoder_reset_def)
  have fld: "dec_max_size (btstack_slip_decoder_reset d) = dec_max_size d"
    "dec_buffer (btstack_slip_decoder_reset d) = dec_buffer d"
    by (simp_all add: btstack_slip_decoder_reset_def)
  have store: "\<exists>d'. btstack_slip_decoder_store_byte d c = Some d' \<and> dec_inv d'
      \<and> dec_inv (d'\<lparr> dec_state := SLIP_DECODER_ACTIVE \<rparr>) \<and> dec_max_size d' = dec_max_size d
      \<and> length (dec_buffer d') = length (dec_buffer d)" if "dec_state d \<noteq> SLIP_DECODER_COMPLETE" for c
    using dec_store_byte [OF assms that, of c] by (auto simp: dec_inv_def)
  show ?thesis
  proof (cases "dec_state d")
    case SLIP_DECODER_UNKNOWN
    then show ?thesis using assms rst2 by (simp add: btstack_slip_decoder_process_def fld)
  next
    case SLIP_DECODER_ACTIVE
    then show ?thesis using store [of b] stay rst by (auto simp: btstack_slip_decoder_process_def fld)
  next
    case SLIP_DECODER_X_C0
    then show ?thesis using store [of b] stay assms by (auto simp: btstack_slip_decoder_process_def)
  next
    case SLIP_DECODER_X_DB
    then show ?thesis using store [of BTSTACK_SLIP_SOF] store [of "0xdb"] rst
      by (auto simp: btstack_slip_decoder_process_def fld)
  next
    case SLIP_DECODER_COMPLETE
    then show ?thesis using rst by (simp add: btstack_slip_decoder_process_def fld)
  qed
qed

lemma slip_decode_inv:
  assumes "dec_inv d"
  shows "\<exists>d'. slip_decode d bs = Some d' \<and> dec_inv d' \<and> dec_max_size d' = dec_max_size d
           \<and> length (dec_buffer d') = length (dec_buffer d)"
  using assms
proof (induction bs arbitrary: d)
  case (Cons b bs)
  obtain d' where d': "btstack_slip_decoder_process d b = Some d'" "dec_inv d'"
      "dec_max_size d' = dec_max_size d" "length (dec_buffer d') = length (dec_buffer d)"
    using dec_process_inv [OF Cons.prems] by blast
  from Cons.IH [OF d'(2)] d' show ?case by auto
qed simp

lemma dec_init_inv:
  "0 < unat n \<Longrightarrow> unat n \<le> length buf \<Longrightarrow> dec_inv (btstack_slip_decoder_init buf n)"
  by (simp add: dec_inv_def btstack_slip_decoder_init_def)

text \<open>C15: Decoder memory safety.  From \<open>btstack_slip_decoder_init\<close> with a buffer of at least
  \<open>max_size > 0\<close> bytes, the decoder accepts any byte sequence whatsoever without ever storing outside
  the buffer, and a frame it reports is between 1 and \<open>max_size\<close> bytes long.\<close>

theorem slip_decoder_safe:
  assumes "0 < unat max_size" and "unat max_size \<le> length buf"
  shows "\<exists>d. slip_decode (btstack_slip_decoder_init buf max_size) input = Some d
           \<and> length (dec_buffer d) = length buf
           \<and> unat (btstack_slip_decoder_frame_size d) \<le> unat max_size
           \<and> (btstack_slip_decoder_frame_size d = 0 \<longleftrightarrow> dec_state d \<noteq> SLIP_DECODER_COMPLETE)"
  using slip_decode_inv [OF dec_init_inv [OF assms], of input]
  by (auto simp: btstack_slip_decoder_frame_size_def dec_inv_def btstack_slip_decoder_init_def
      split: decoder_state.splits)

theorem slip_decoder_safe_witness:
  "\<exists>d. slip_decode (btstack_slip_decoder_init [0, 0] 2) [0xc0, 1, 2, 3, 0xdb, 0xdc, 0xc0] = Some d
     \<and> length (dec_buffer d) = length [0, 0 :: u8]
     \<and> unat (btstack_slip_decoder_frame_size d) \<le> unat (2 :: u16)
     \<and> (btstack_slip_decoder_frame_size d = 0 \<longleftrightarrow> dec_state d \<noteq> SLIP_DECODER_COMPLETE)"
  by (rule slip_decoder_safe) simp_all

section \<open>Round trip\<close>

lemma slip_decode_append:
  "slip_decode d (xs @ ys) = do { d \<leftarrow> slip_decode d xs; slip_decode d ys }"
  by (induction xs arbitrary: d) (simp_all add: Option.bind_assoc)

text \<open>In the states that accept payload, an escaped byte is stored at the current position.\<close>

lemma slip_decode_escape:
  assumes "dec_state d = SLIP_DECODER_ACTIVE \<or> dec_state d = SLIP_DECODER_X_C0"
    and "unat (dec_pos d) < unat (dec_max_size d)" and "unat (dec_max_size d) \<le> length (dec_buffer d)"
  shows "slip_decode d (slip_escape b) =
     Some (d\<lparr> dec_state := SLIP_DECODER_ACTIVE, dec_buffer := (dec_buffer d)[unat (dec_pos d) := b],
              dec_pos := dec_pos d + 1 \<rparr>)"
  using assms
  by (cases d) (auto simp: slip_escape_def btstack_slip_decoder_process_def BTSTACK_SLIP_SOF_def
      btstack_slip_decoder_store_byte_def wr_def word_le_nat_alt)

lemma slip_decode_payload:
  assumes "dec_state d = SLIP_DECODER_ACTIVE \<or> dec_state d = SLIP_DECODER_X_C0" and "p \<noteq> []"
    and "unat (dec_pos d) + length p \<le> unat (dec_max_size d)"
    and "unat (dec_max_size d) \<le> length (dec_buffer d)"
  shows "\<exists>d'. slip_decode d (concat (map slip_escape p)) = Some d' \<and> dec_state d' = SLIP_DECODER_ACTIVE
     \<and> unat (dec_pos d') = unat (dec_pos d) + length p \<and> length (dec_buffer d') = length (dec_buffer d)
     \<and> take (unat (dec_pos d')) (dec_buffer d') = take (unat (dec_pos d)) (dec_buffer d) @ p"
  using assms
proof (induction p arbitrary: d)
  case (Cons b p)
  let ?i = "unat (dec_pos d)"
  let ?d = "d\<lparr> dec_state := SLIP_DECODER_ACTIVE, dec_buffer := (dec_buffer d)[?i := b],
              dec_pos := dec_pos d + 1 \<rparr>"
  have fit: "?i + length p + 1 \<le> unat (dec_max_size d)" using Cons.prems(3) by simp
  have one: "slip_decode d (slip_escape b) = Some ?d"
    using Cons.prems fit by (intro slip_decode_escape) auto
  have pos: "unat (dec_pos d + 1) = ?i + 1"
  proof -
    have "?i + 1 < 65536" using fit unat_u16_less [of "dec_max_size d"] by linarith
    then show ?thesis by (subst unat_plus_no_wrap) auto
  qed
  have pre: "take (unat (dec_pos ?d)) (dec_buffer ?d) = take ?i (dec_buffer d) @ [b]"
    using fit Cons.prems(4) by (simp add: pos take_Suc_conv_app_nth)
  show ?case
  proof (cases "p = []")
    case True
    then show ?thesis using one pre pos by (simp add: slip_decode_append)
  next
    case False
    from Cons.IH [of ?d, OF _ False] fit Cons.prems(4) pos obtain d' where
      "slip_decode ?d (concat (map slip_escape p)) = Some d'" "dec_state d' = SLIP_DECODER_ACTIVE"
      "unat (dec_pos d') = unat (dec_pos ?d) + length p" "length (dec_buffer d') = length (dec_buffer ?d)"
      "take (unat (dec_pos d')) (dec_buffer d') = take (unat (dec_pos ?d)) (dec_buffer ?d) @ p"
      by auto
    then show ?thesis using one pre pos by (simp add: slip_decode_append)
  qed
qed simp

text \<open>C7: SLIP round trip.  Draining the encoder on a non-empty payload, with the frame delimiter
  sent before and after it, drives a freshly initialised decoder whose buffer is large enough into
  a complete frame: the reported size is the payload length and the buffer holds the payload,
  whatever bytes it contains.\<close>

theorem slip_roundtrip:
  assumes "p \<noteq> []" and "unat len = length p" and "length p \<le> unat max_size" and "unat max_size \<le> length buf"
  shows "\<exists>enc d. slip_encode p len = Some enc
     \<and> slip_decode (btstack_slip_decoder_init buf max_size) (BTSTACK_SLIP_SOF # enc @ [BTSTACK_SLIP_SOF]) = Some d
     \<and> btstack_slip_decoder_frame_size d = len \<and> take (length p) (dec_buffer d) = p"
proof -
  let ?d0 = "(btstack_slip_decoder_init buf max_size)\<lparr> dec_state := SLIP_DECODER_X_C0 \<rparr>"
  let ?enc = "concat (map slip_escape p)"
  have enc: "slip_encode p len = Some ?enc" using assms(2) by (simp add: slip_encode_eq)
  have start: "btstack_slip_decoder_process (btstack_slip_decoder_init buf max_size) BTSTACK_SLIP_SOF = Some ?d0"
    by (simp add: btstack_slip_decoder_process_def btstack_slip_decoder_init_def btstack_slip_decoder_reset_def)
  obtain d' where d': "slip_decode ?d0 ?enc = Some d'" "dec_state d' = SLIP_DECODER_ACTIVE"
    "unat (dec_pos d') = length p" "take (unat (dec_pos d')) (dec_buffer d') = p"
    using slip_decode_payload [of ?d0 p] assms by (auto simp: btstack_slip_decoder_init_def)
  have pos: "dec_pos d' = len" "dec_pos d' \<noteq> 0" using d'(3) assms(1,2) by (auto simp: word_unat_eq_iff)
  have "slip_decode (btstack_slip_decoder_init buf max_size) (BTSTACK_SLIP_SOF # ?enc @ [BTSTACK_SLIP_SOF]) =
          Some (d'\<lparr> dec_state := SLIP_DECODER_COMPLETE \<rparr>)"
    using start d' pos by (simp add: slip_decode_append btstack_slip_decoder_process_def)
  then show ?thesis using enc d' pos by (auto simp: btstack_slip_decoder_frame_size_def)
qed

theorem slip_roundtrip_witness:
  "\<exists>enc d. slip_encode [0xc0, 1, 0xdb] 3 = Some enc
     \<and> slip_decode (btstack_slip_decoder_init [0, 0, 0, 0] 4) (BTSTACK_SLIP_SOF # enc @ [BTSTACK_SLIP_SOF]) = Some d
     \<and> btstack_slip_decoder_frame_size d = 3 \<and> take (length [0xc0, 1, 0xdb :: u8]) (dec_buffer d) = [0xc0, 1, 0xdb]"
  by (rule slip_roundtrip) simp_all

section \<open>Overlong frames\<close>

lemma slip_process_max_size: "btstack_slip_decoder_process d b = Some d' \<Longrightarrow> dec_max_size d' = dec_max_size d"
  by (auto simp: btstack_slip_decoder_process_def btstack_slip_decoder_store_byte_def btstack_slip_decoder_reset_def bind_eq_Some_conv Let_def
      split: decoder_state.splits if_splits)

lemma slip_decode_max_size: "slip_decode d bs = Some d' \<Longrightarrow> dec_max_size d' = dec_max_size d"
  by (induction bs arbitrary: d) (auto simp: bind_eq_Some_conv dest: slip_process_max_size)

lemma overflowing_escape:
  assumes "dec_state d = SLIP_DECODER_ACTIVE" and "dec_max_size d \<le> dec_pos d" and "c \<in> {0xc0, 0xdb}" and "dec_buffer d \<noteq> []"
  shows "slip_decode d (slip_escape c)
    = Some (d\<lparr> dec_state := SLIP_DECODER_ACTIVE, dec_buffer := (dec_buffer d)[0 := c], dec_pos := 1 \<rparr>)"
  using assms by (auto simp: slip_escape_def btstack_slip_decoder_process_def btstack_slip_decoder_store_byte_def
      btstack_slip_decoder_reset_def BTSTACK_SLIP_SOF_def wr_def)

text \<open>C18: A frame longer than the buffer is not always dropped.  Whenever the first byte that does not fit any more is one
  that is sent escaped, \<open>btstack_slip_decoder_store_byte\<close> resets the decoder, but its caller then enters the active state: the
  rest of the overlong frame, from that byte on, is delivered as a frame of its own, provided it fits the buffer.\<close>

theorem slip_overlong_frame_delivered:
  assumes "xs \<noteq> []" and "length xs = unat max_size" and "unat max_size \<le> length buf" and "c \<in> {0xc0, 0xdb}"
    and "length ys < unat max_size"
  shows "\<exists>d. slip_decode (btstack_slip_decoder_init buf max_size)
        (BTSTACK_SLIP_SOF # concat (map slip_escape (xs @ c # ys)) @ [BTSTACK_SLIP_SOF]) = Some d
     \<and> btstack_slip_decoder_frame_size d = of_nat (Suc (length ys)) \<and> take (Suc (length ys)) (dec_buffer d) = c # ys"
proof -
  let ?d0 = "(btstack_slip_decoder_init buf max_size)\<lparr> dec_state := SLIP_DECODER_X_C0 \<rparr>"
  have start: "slip_decode (btstack_slip_decoder_init buf max_size) [BTSTACK_SLIP_SOF] = Some ?d0"
    by (simp add: btstack_slip_decoder_process_def btstack_slip_decoder_init_def btstack_slip_decoder_reset_def)
  obtain d1 where d1: "slip_decode ?d0 (concat (map slip_escape xs)) = Some d1" "dec_state d1 = SLIP_DECODER_ACTIVE"
    "unat (dec_pos d1) = length xs" "length (dec_buffer d1) = length buf"
    using slip_decode_payload [of ?d0 xs] assms(1-3) by (auto simp: btstack_slip_decoder_init_def)
  have m: "dec_max_size d1 = max_size" using slip_decode_max_size [OF d1(1)] by (simp add: btstack_slip_decoder_init_def)
  have nb: "dec_buffer d1 \<noteq> []" using d1(4) assms(1-3) by auto
  define d2 where "d2 = d1\<lparr> dec_state := SLIP_DECODER_ACTIVE, dec_buffer := (dec_buffer d1)[0 := c], dec_pos := 1 \<rparr>"
  have esc: "slip_decode d1 (slip_escape c) = Some d2"
    unfolding d2_def by (rule overflowing_escape) (use d1 m nb assms(2,4) in \<open>simp_all add: word_le_nat_alt\<close>)
  have t2: "take 1 (dec_buffer d2) = [c]" using nb by (cases "dec_buffer d1") (simp_all add: d2_def)
  obtain d3 where d3: "slip_decode d2 (concat (map slip_escape ys)) = Some d3" "dec_state d3 = SLIP_DECODER_ACTIVE"
    "unat (dec_pos d3) = Suc (length ys)" "take (Suc (length ys)) (dec_buffer d3) = c # ys"
  proof (cases "ys = []")
    case True
    then show ?thesis using that [of d2] t2 by (simp add: d2_def)
  next
    case False
    then show ?thesis using that slip_decode_payload [of d2 ys] assms(3,5) t2 m d1(4) by (auto simp: d2_def)
  qed
  have "dec_pos d3 = of_nat (Suc (length ys))" unfolding d3(3) [symmetric] by simp
  moreover have "dec_pos d3 \<noteq> 0" using d3(3) by auto
  ultimately have "slip_decode d3 [BTSTACK_SLIP_SOF] = Some (d3\<lparr> dec_state := SLIP_DECODER_COMPLETE \<rparr>)
     \<and> btstack_slip_decoder_frame_size (d3\<lparr> dec_state := SLIP_DECODER_COMPLETE \<rparr>) = of_nat (Suc (length ys))"
    using d3(2) by (simp add: btstack_slip_decoder_process_def btstack_slip_decoder_frame_size_def)
  then show ?thesis using start d1(1) esc d3(1,4)
    by (intro exI [of _ "d3\<lparr> dec_state := SLIP_DECODER_COMPLETE \<rparr>"])
      (simp add: slip_decode_append slip_decode_append [of _ "[BTSTACK_SLIP_SOF]", simplified])
qed

theorem slip_overlong_frame_delivered_witness:
  "\<exists>d. slip_decode (btstack_slip_decoder_init [0, 0] 2) (BTSTACK_SLIP_SOF # concat (map slip_escape ([1, 2] @ 0xc0 # [3])) @ [BTSTACK_SLIP_SOF]) = Some d
     \<and> btstack_slip_decoder_frame_size d = of_nat (Suc (length [3 :: u8])) \<and> take (Suc (length [3 :: u8])) (dec_buffer d) = 0xc0 # [3]"
  by (rule slip_overlong_frame_delivered) simp_all

end
