(* ===== verification/H5_Link.thy ===== *)
theory H5_Link
  imports Slip
begin

text \<open>
  Model of \<open>hci_transport_h5.c\<close>: the three-wire transport between host and controller.  A link is brought up with sync
  and config messages; then each side has at most one packet under way, numbered modulo 8, repeats it until the other side
  acknowledges it, and may let the other side sleep.

  A timer of the run loop is the time it was set to, or \<^const>\<open>None\<close> when it is not in the list.  Adding a timer that is
  in the list already is undefined (what the run loop does then is the subject of \<open>Run_Loop\<close>).  What
  passes the interfaces is recorded in \<open>h5_trace\<close>, oldest first: calls of the UART driver, packets accepted from the upper
  layer, events and packets passed to it.  An outgoing packet is kept as the bytes it had when it was accepted: the code keeps
  a pointer, and relies on the upper layer leaving the buffer alone until it is told that the packet was sent.  Frames are taken
  from the decoder, as long as there is no connection; the copy of that routine that reads them from the receive queue of the
  product afterwards is not modelled.  The packet handler of the upper layer is the parameter \<open>ph\<close>: it may change the
  state, as it may send a packet from inside the call.
\<close>

section \<open>State\<close>

datatype hci_transport_link_state = LINK_UNINITIALIZED | LINK_INITIALIZED | LINK_ACTIVE

datatype h5_event = Send_block buffer | Receive_byte | Set_parity int | Set_sleep u8 | Set_baudrate u32
  | Uart_init u32 | Uart_open | Uart_close
  | Accept u8 buffer | Emit buffer | Deliver u8 buffer

record h5 =
  h5_decoder :: slip_decoder \<comment> \<open>its buffer is \<open>hci_packet_with_pre_buffer + HCI_INCOMING_PRE_BUFFER_SIZE\<close>\<close>
  h5_decoder_ext :: slip_decoder
  h5_encoder :: slip_encoder
  slip_outgoing_buffer :: buffer
  slip_outgoing_dic :: u16
  slip_outgoing_dic_present :: u16
  slip_write_active :: bool
  link_state :: hci_transport_link_state
  link_timer :: "u16 option"
  link_seq_nr :: u8
  link_ack_nr :: u8
  link_resend_timeout_ms :: u16
  link_peer_asleep :: bool
  link_peer_supports_data_integrity_check :: u8
  inactivity_timer :: "u16 option"
  link_inactivity_timeout_ms :: u16
  hci_packet_type :: u8
  hci_packet_size :: u16
  hci_packet :: "buffer option"
  hci_transport_link_actions :: u32
  uart_baudrate :: u32
  btstack_uart_sleep_mode :: u8
  hci_transport_bcsp_mode :: bool
  last_sleep_state :: bool
  h5_trace :: "h5_event list"

type_synonym h5_handler = "u8 \<Rightarrow> buffer \<Rightarrow> h5 \<Rightarrow> h5 option"

abbreviation (input) HCI_TRANSPORT_LINK_SEND_SYNC :: u32 where "HCI_TRANSPORT_LINK_SEND_SYNC \<equiv> 0x001"
abbreviation (input) HCI_TRANSPORT_LINK_SEND_SYNC_RESPONSE :: u32 where "HCI_TRANSPORT_LINK_SEND_SYNC_RESPONSE \<equiv> 0x002"
abbreviation (input) HCI_TRANSPORT_LINK_SEND_CONFIG :: u32 where "HCI_TRANSPORT_LINK_SEND_CONFIG \<equiv> 0x004"
abbreviation (input) HCI_TRANSPORT_LINK_SEND_CONFIG_RESPONSE_EMPTY :: u32 where
  "HCI_TRANSPORT_LINK_SEND_CONFIG_RESPONSE_EMPTY \<equiv> 0x008"
abbreviation (input) HCI_TRANSPORT_LINK_SEND_CONFIG_RESPONSE :: u32 where "HCI_TRANSPORT_LINK_SEND_CONFIG_RESPONSE \<equiv> 0x010"
abbreviation (input) HCI_TRANSPORT_LINK_SEND_SLEEP :: u32 where "HCI_TRANSPORT_LINK_SEND_SLEEP \<equiv> 0x020"
abbreviation (input) HCI_TRANSPORT_LINK_SEND_WOKEN :: u32 where "HCI_TRANSPORT_LINK_SEND_WOKEN \<equiv> 0x040"
abbreviation (input) HCI_TRANSPORT_LINK_SEND_WAKEUP :: u32 where "HCI_TRANSPORT_LINK_SEND_WAKEUP \<equiv> 0x080"
abbreviation (input) HCI_TRANSPORT_LINK_SEND_QUEUED_PACKET :: u32 where "HCI_TRANSPORT_LINK_SEND_QUEUED_PACKET \<equiv> 0x100"
abbreviation (input) HCI_TRANSPORT_LINK_SEND_ACK_PACKET :: u32 where "HCI_TRANSPORT_LINK_SEND_ACK_PACKET \<equiv> 0x200"
abbreviation (input) HCI_TRANSPORT_LINK_ENTER_SLEEP :: u32 where "HCI_TRANSPORT_LINK_ENTER_SLEEP \<equiv> 0x400"

definition has_action :: "u32 \<Rightarrow> h5 \<Rightarrow> bool" where
  "has_action a s \<longleftrightarrow> hci_transport_link_actions s AND a \<noteq> 0"

definition add_action :: "u32 \<Rightarrow> h5 \<Rightarrow> h5" where
  "add_action a s = s\<lparr> hci_transport_link_actions := hci_transport_link_actions s OR a \<rparr>"

definition clear_action :: "u32 \<Rightarrow> h5 \<Rightarrow> h5" where
  "clear_action a s = s\<lparr> hci_transport_link_actions := hci_transport_link_actions s AND NOT a \<rparr>"

definition trace :: "h5_event \<Rightarrow> h5 \<Rightarrow> h5" where
  "trace c s = s\<lparr> h5_trace := h5_trace s @ [c] \<rparr>"

abbreviation (input) LINK_CONTROL_PACKET_TYPE :: u8 where "LINK_CONTROL_PACKET_TYPE \<equiv> 0x0f"
abbreviation (input) LINK_ACKNOWLEDGEMENT_TYPE :: u8 where "LINK_ACKNOWLEDGEMENT_TYPE \<equiv> 0x00"
abbreviation (input) LINK_PERIOD_MS :: u16 where "LINK_PERIOD_MS \<equiv> 250"
abbreviation (input) LINK_WAKEUP_MS :: u16 where "LINK_WAKEUP_MS \<equiv> 50"
abbreviation (input) LINK_SLIP_TX_CHUNK_LEN :: nat where "LINK_SLIP_TX_CHUNK_LEN \<equiv> 1037"

definition link_control_sync :: buffer where "link_control_sync = [0x01, 0x7e]"
definition link_control_sync_response :: buffer where "link_control_sync_response = [0x02, 0x7d]"
definition link_control_config :: buffer where "link_control_config = [0x03, 0xfc, 0x11]"
definition link_control_config_response_empty :: buffer where "link_control_config_response_empty = [0x04, 0x7b]"
definition link_control_config_response :: buffer where "link_control_config_response = [0x04, 0x7b, 0x11]"
definition link_control_wakeup :: buffer where "link_control_wakeup = [0x05, 0xfa]"
definition link_control_woken :: buffer where "link_control_woken = [0x06, 0xf9]"
definition link_control_sleep :: buffer where "link_control_sleep = [0x07, 0x78]"

section \<open>The data integrity check\<close>

definition crc16_ccitt_table :: "u16 list" where
  "crc16_ccitt_table = [0x0000, 0x1081, 0x2102, 0x3183, 0x4204, 0x5285, 0x6306, 0x7387,
     0x8408, 0x9489, 0xa50a, 0xb58b, 0xc60c, 0xd68d, 0xe70e, 0xf78f]"

definition crc16_ccitt_update :: "u16 \<Rightarrow> u8 \<Rightarrow> u16" where
  "crc16_ccitt_update crc ch =
     (let crc = drop_bit 4 crc XOR crc16_ccitt_table ! unat ((crc XOR to16 ch) AND 0x000f);
          crc = drop_bit 4 crc XOR crc16_ccitt_table ! unat ((crc XOR drop_bit 4 (to16 ch)) AND 0x000f)
      in crc)"

primrec reverse_bits_rounds :: "nat \<Rightarrow> u32 \<Rightarrow> u16 \<Rightarrow> u32" where
  "reverse_bits_rounds 0 reverse v = reverse"
| "reverse_bits_rounds (Suc n) reverse v =
     reverse_bits_rounds n (push_bit 1 reverse OR to32 (v AND 1)) (drop_bit 1 v)"

definition btstack_reverse_bits_16 :: "u16 \<Rightarrow> u16" where
  "btstack_reverse_bits_16 v = to16 (reverse_bits_rounds 16 0 v)"

definition crc16_calc_for_slip_frame :: "buffer \<Rightarrow> buffer \<Rightarrow> u16 \<Rightarrow> u16 option" where
  "crc16_calc_for_slip_frame header payload len = do {
     xs \<leftarrow> rd_range header 0 4;
     ys \<leftarrow> rd_range payload 0 (unat len);
     Some (btstack_reverse_bits_16 (foldl crc16_ccitt_update (foldl crc16_ccitt_update 0xffff xs) ys)) }"

section \<open>Outgoing frames\<close>

text \<open>The loops that fill the outgoing buffer: the whole data, and at most a chunk.\<close>

partial_function (option) slip_fill :: "slip_encoder \<Rightarrow> buffer \<Rightarrow> nat \<Rightarrow> (slip_encoder \<times> buffer \<times> nat) option" where
  "slip_fill enc buf pos =
     (if btstack_slip_encoder_has_data enc then do {
        (b, enc) \<leftarrow> btstack_slip_encoder_get_byte enc;
        buf \<leftarrow> wr buf pos b;
        slip_fill enc buf (pos + 1) }
      else Some (enc, buf, pos))"

partial_function (option) slip_fill_chunk :: "slip_encoder \<Rightarrow> buffer \<Rightarrow> nat \<Rightarrow> (slip_encoder \<times> buffer \<times> nat) option" where
  "slip_fill_chunk enc buf pos =
     (if btstack_slip_encoder_has_data enc \<and> pos < LINK_SLIP_TX_CHUNK_LEN then do {
        (b, enc) \<leftarrow> btstack_slip_encoder_get_byte enc;
        buf \<leftarrow> wr buf pos b;
        slip_fill_chunk enc buf (pos + 1) }
      else Some (enc, buf, pos))"

definition hci_transport_slip_encode_chunk_and_send :: "nat \<Rightarrow> h5 \<Rightarrow> h5 option" where
  "hci_transport_slip_encode_chunk_and_send pos s = do {
     (enc, buf, pos) \<leftarrow> slip_fill_chunk (h5_encoder s) (slip_outgoing_buffer s) pos;
     (enc, buf, pos) \<leftarrow>
       (if \<not> btstack_slip_encoder_has_data enc then do {
          (enc, buf, pos) \<leftarrow>
            (if slip_outgoing_dic_present s \<noteq> 0 then do {
               dic_buffer \<leftarrow> big_endian_store_16 [0, 0] 0 (slip_outgoing_dic s);
               slip_fill (btstack_slip_encoder_start dic_buffer 2) buf pos }
             else Some (enc, buf, pos));
          buf \<leftarrow> wr buf pos BTSTACK_SLIP_SOF;
          Some (enc, buf, pos + 1) }
        else Some (enc, buf, pos));
     sent \<leftarrow> rd_range buf 0 pos;
     Some (trace (Send_block sent) (s\<lparr> h5_encoder := enc, slip_outgoing_buffer := buf, slip_write_active := True \<rparr>)) }"

definition hci_transport_slip_send_next_chunk :: "h5 \<Rightarrow> h5 option" where
  "hci_transport_slip_send_next_chunk s = hci_transport_slip_encode_chunk_and_send 0 s"

definition hci_transport_slip_send_frame :: "buffer \<Rightarrow> buffer \<Rightarrow> u16 \<Rightarrow> u16 \<Rightarrow> h5 \<Rightarrow> h5 option" where
  "hci_transport_slip_send_frame header packet packet_size data_integrity_check s = do {
     h0 \<leftarrow> rd header 0;
     buf \<leftarrow> wr (slip_outgoing_buffer s) 0 BTSTACK_SLIP_SOF;
     (_, buf, pos) \<leftarrow> slip_fill (btstack_slip_encoder_start header 4) buf 1;
     hci_transport_slip_encode_chunk_and_send pos
       (s\<lparr> slip_outgoing_dic := data_integrity_check, slip_outgoing_dic_present := to16 (h0 AND 0x40),
           slip_outgoing_buffer := buf, h5_encoder := btstack_slip_encoder_start packet packet_size \<rparr>) }"

definition hci_transport_link_calc_header :: "u8 \<Rightarrow> u8 \<Rightarrow> u8 \<Rightarrow> u8 \<Rightarrow> u8 \<Rightarrow> u16 \<Rightarrow> buffer" where
  "hci_transport_link_calc_header sequence_nr acknowledgement_nr data_integrity_check_present reliable_packet packet_type payload_length =
     (let h0 = sequence_nr OR push_bit 3 acknowledgement_nr OR push_bit 6 data_integrity_check_present OR push_bit 7 reliable_packet;
          h1 = packet_type OR to8 (push_bit 4 (payload_length AND 0x0f));
          h2 = to8 (drop_bit 4 payload_length)
      in [h0, h1, h2, 0xff - (h0 + h1 + h2)])"

definition hci_transport_link_send_control :: "buffer \<Rightarrow> u16 \<Rightarrow> h5 \<Rightarrow> h5 option" where
  "hci_transport_link_send_control message message_len s = do {
     let header = hci_transport_link_calc_header 0 0 (link_peer_supports_data_integrity_check s) 0 LINK_CONTROL_PACKET_TYPE message_len;
     data_integrity_check \<leftarrow>
       (if link_peer_supports_data_integrity_check s \<noteq> 0 then crc16_calc_for_slip_frame header message message_len else Some 0);
     hci_transport_slip_send_frame header message message_len data_integrity_check s }"

definition hci_transport_link_send_sync :: "h5 \<Rightarrow> h5 option" where
  "hci_transport_link_send_sync = hci_transport_link_send_control link_control_sync 2"
definition hci_transport_link_send_sync_response :: "h5 \<Rightarrow> h5 option" where
  "hci_transport_link_send_sync_response = hci_transport_link_send_control link_control_sync_response 2"
definition hci_transport_link_send_config :: "h5 \<Rightarrow> h5 option" where
  "hci_transport_link_send_config = hci_transport_link_send_control link_control_config 3"
definition hci_transport_link_send_config_response :: "h5 \<Rightarrow> h5 option" where
  "hci_transport_link_send_config_response = hci_transport_link_send_control link_control_config_response 3"
definition hci_transport_link_send_config_response_empty :: "h5 \<Rightarrow> h5 option" where
  "hci_transport_link_send_config_response_empty = hci_transport_link_send_control link_control_config_response_empty 2"
definition hci_transport_link_send_woken :: "h5 \<Rightarrow> h5 option" where
  "hci_transport_link_send_woken = hci_transport_link_send_control link_control_woken 2"
definition hci_transport_link_send_wakeup :: "h5 \<Rightarrow> h5 option" where
  "hci_transport_link_send_wakeup = hci_transport_link_send_control link_control_wakeup 2"
definition hci_transport_link_send_sleep :: "h5 \<Rightarrow> h5 option" where
  "hci_transport_link_send_sleep = hci_transport_link_send_control link_control_sleep 2"

definition hci_transport_inactivity_timer_set :: "h5 \<Rightarrow> h5" where
  "hci_transport_inactivity_timer_set s =
     (if link_inactivity_timeout_ms s = 0 then s else s\<lparr> inactivity_timer := Some (link_inactivity_timeout_ms s) \<rparr>)"

text \<open>A packet that was cleared is a null pointer, of which no byte can be read.\<close>

definition hci_transport_link_send_queued_packet :: "h5 \<Rightarrow> h5 option" where
  "hci_transport_link_send_queued_packet s = do {
     let packet = (case hci_packet s of None \<Rightarrow> [] | Some p \<Rightarrow> p);
     let header = hci_transport_link_calc_header (link_seq_nr s) (link_ack_nr s) (link_peer_supports_data_integrity_check s) 1
                    (hci_packet_type s) (hci_packet_size s);
     data_integrity_check \<leftarrow>
       (if link_peer_supports_data_integrity_check s \<noteq> 0 then crc16_calc_for_slip_frame header packet (hci_packet_size s) else Some 0);
     s \<leftarrow> hci_transport_slip_send_frame header packet (hci_packet_size s) data_integrity_check s;
     Some (hci_transport_inactivity_timer_set s) }"

definition hci_transport_link_send_ack_packet :: "h5 \<Rightarrow> h5 option" where
  "hci_transport_link_send_ack_packet s =
     hci_transport_slip_send_frame (hci_transport_link_calc_header 0 (link_ack_nr s) 0 0 LINK_ACKNOWLEDGEMENT_TYPE 0) [] 0 0 s"

section \<open>The link\<close>

definition hci_transport_link_run :: "h5 \<Rightarrow> h5 option" where
  "hci_transport_link_run s =
     (if slip_write_active s then Some s
      else if has_action HCI_TRANSPORT_LINK_SEND_SYNC s then
        hci_transport_link_send_sync (clear_action HCI_TRANSPORT_LINK_SEND_SYNC s)
      else if has_action HCI_TRANSPORT_LINK_SEND_SYNC_RESPONSE s then
        hci_transport_link_send_sync_response (clear_action HCI_TRANSPORT_LINK_SEND_SYNC_RESPONSE s)
      else if has_action HCI_TRANSPORT_LINK_SEND_CONFIG s then
        hci_transport_link_send_config (clear_action HCI_TRANSPORT_LINK_SEND_CONFIG s)
      else if has_action HCI_TRANSPORT_LINK_SEND_CONFIG_RESPONSE s then
        hci_transport_link_send_config_response (clear_action HCI_TRANSPORT_LINK_SEND_CONFIG_RESPONSE s)
      else if has_action HCI_TRANSPORT_LINK_SEND_CONFIG_RESPONSE_EMPTY s then
        hci_transport_link_send_config_response_empty (clear_action HCI_TRANSPORT_LINK_SEND_CONFIG_RESPONSE_EMPTY s)
      else if has_action HCI_TRANSPORT_LINK_SEND_WOKEN s then
        hci_transport_link_send_woken (clear_action HCI_TRANSPORT_LINK_SEND_WOKEN s)
      else if has_action HCI_TRANSPORT_LINK_SEND_WAKEUP s then
        hci_transport_link_send_wakeup (clear_action HCI_TRANSPORT_LINK_SEND_WAKEUP s)
      else if has_action HCI_TRANSPORT_LINK_SEND_QUEUED_PACKET s then
        hci_transport_link_send_queued_packet
          (clear_action HCI_TRANSPORT_LINK_SEND_ACK_PACKET (clear_action HCI_TRANSPORT_LINK_SEND_QUEUED_PACKET s))
      else if has_action HCI_TRANSPORT_LINK_SEND_ACK_PACKET s then
        hci_transport_link_send_ack_packet (clear_action HCI_TRANSPORT_LINK_SEND_ACK_PACKET s)
      else if has_action HCI_TRANSPORT_LINK_SEND_SLEEP s then
        hci_transport_link_send_sleep
          ((add_action HCI_TRANSPORT_LINK_ENTER_SLEEP (clear_action HCI_TRANSPORT_LINK_SEND_SLEEP s))\<lparr> link_peer_asleep := True \<rparr>)
      else Some s)"

definition hci_transport_link_set_timer :: "u16 \<Rightarrow> h5 \<Rightarrow> h5 option" where
  "hci_transport_link_set_timer timeout_ms s =
     (if link_timer s = None then Some (s\<lparr> link_timer := Some timeout_ms \<rparr>) else None)"

definition hci_transport_link_have_outgoing_packet :: "h5 \<Rightarrow> bool" where
  "hci_transport_link_have_outgoing_packet s \<longleftrightarrow> hci_packet s \<noteq> None"

definition hci_transport_link_timeout_handler :: "h5 \<Rightarrow> h5 option" where
  "hci_transport_link_timeout_handler s =
     (case link_state s of
        LINK_UNINITIALIZED \<Rightarrow> do {
          s \<leftarrow> hci_transport_link_set_timer LINK_PERIOD_MS (add_action HCI_TRANSPORT_LINK_SEND_SYNC s);
          hci_transport_link_run s }
      | LINK_INITIALIZED \<Rightarrow> do {
          s \<leftarrow> hci_transport_link_set_timer LINK_PERIOD_MS (add_action HCI_TRANSPORT_LINK_SEND_CONFIG s);
          hci_transport_link_run s }
      | LINK_ACTIVE \<Rightarrow>
          if \<not> hci_transport_link_have_outgoing_packet s then Some s
          else if link_peer_asleep s then
            hci_transport_link_set_timer LINK_WAKEUP_MS (add_action HCI_TRANSPORT_LINK_SEND_WAKEUP s)
          else do {
            s \<leftarrow> hci_transport_link_set_timer (link_resend_timeout_ms s) (add_action HCI_TRANSPORT_LINK_SEND_QUEUED_PACKET s);
            hci_transport_link_run s })"

definition hci_transport_inactivity_timeout_handler :: "h5 \<Rightarrow> h5 option" where
  "hci_transport_inactivity_timeout_handler s =
     (if hci_transport_link_have_outgoing_packet s then Some s
      else if link_state s \<noteq> LINK_ACTIVE then Some s
      else if hci_transport_link_actions s \<noteq> 0 then Some s
      else if link_peer_asleep s then Some s
      else hci_transport_link_run (add_action HCI_TRANSPORT_LINK_SEND_SLEEP s))"

definition hci_transport_link_init :: "h5 \<Rightarrow> h5 option" where
  "hci_transport_link_init s = do {
     s \<leftarrow> hci_transport_link_set_timer LINK_PERIOD_MS
       (add_action HCI_TRANSPORT_LINK_SEND_SYNC
         (s\<lparr> link_state := LINK_UNINITIALIZED, link_peer_asleep := False, link_peer_supports_data_integrity_check := 0 \<rparr>));
     hci_transport_link_run s }"

definition hci_transport_link_inc_seq_nr :: "u8 \<Rightarrow> u8" where
  "hci_transport_link_inc_seq_nr seq_nr = (seq_nr + 1) AND 0x07"

definition hci_transport_link_clear_queue :: "h5 \<Rightarrow> h5" where
  "hci_transport_link_clear_queue s = s\<lparr> link_timer := None, hci_packet := None \<rparr>"

definition hci_transport_h5_queue_packet :: "u8 \<Rightarrow> buffer \<Rightarrow> u16 \<Rightarrow> h5 \<Rightarrow> h5" where
  "hci_transport_h5_queue_packet packet_type packet sz s =
     s\<lparr> hci_packet := Some packet, hci_packet_type := packet_type, hci_packet_size := sz \<rparr>"

text \<open>An event of the transport itself.\<close>

definition emit_event :: "h5_handler \<Rightarrow> buffer \<Rightarrow> h5 \<Rightarrow> h5 option" where
  "emit_event ph event s = ph 0x04 event (trace (Emit event) s)"

definition hci_transport_h5_emit_sleep_state :: "h5_handler \<Rightarrow> bool \<Rightarrow> h5 \<Rightarrow> h5 option" where
  "hci_transport_h5_emit_sleep_state ph sleep_active s =
     (if sleep_active = last_sleep_state s then Some s
      else emit_event ph [0x69, 1, (if sleep_active then 1 else 0)] (s\<lparr> last_sleep_state := sleep_active \<rparr>))"

section \<open>Incoming frames\<close>

text \<open>\<open>memcmp (slip_payload, message, n) == 0\<close>: the comparison does not look at the length of the frame.\<close>

definition payload_is :: "buffer \<Rightarrow> nat \<Rightarrow> buffer \<Rightarrow> bool option" where
  "payload_is message n buf = do { xs \<leftarrow> rd_range buf 4 n; Some (xs = take n message) }"

definition link_uninitialized_frame :: "buffer \<Rightarrow> u8 \<Rightarrow> h5 \<Rightarrow> h5 option" where
  "link_uninitialized_frame buf link_packet_type s =
     (if link_packet_type \<noteq> LINK_CONTROL_PACKET_TYPE then Some s
      else do {
        sync \<leftarrow> payload_is link_control_sync 2 buf;
        if sync then Some (add_action HCI_TRANSPORT_LINK_SEND_SYNC_RESPONSE s)
        else do {
          sync_response \<leftarrow> payload_is link_control_sync_response 2 buf;
          if sync_response then
            hci_transport_link_set_timer LINK_PERIOD_MS
              (add_action HCI_TRANSPORT_LINK_SEND_CONFIG (s\<lparr> link_state := LINK_INITIALIZED, link_timer := None \<rparr>))
          else Some s } })"

definition link_initialized_frame :: "h5_handler \<Rightarrow> buffer \<Rightarrow> u8 \<Rightarrow> u16 \<Rightarrow> h5 \<Rightarrow> h5 option" where
  "link_initialized_frame ph buf link_packet_type link_payload_len s =
     (if link_packet_type \<noteq> LINK_CONTROL_PACKET_TYPE then Some s
      else do {
        sync \<leftarrow> payload_is link_control_sync 2 buf;
        if sync then Some (add_action HCI_TRANSPORT_LINK_SEND_SYNC_RESPONSE s)
        else do {
          config \<leftarrow> payload_is link_control_config 2 buf;
          if config then
            (if link_payload_len = 2 then Some (add_action HCI_TRANSPORT_LINK_SEND_CONFIG_RESPONSE_EMPTY s)
             else Some (add_action HCI_TRANSPORT_LINK_SEND_CONFIG_RESPONSE s))
          else do {
            config_response \<leftarrow> payload_is link_control_config_response 2 buf;
            if config_response then do {
              config \<leftarrow> rd buf 6;
              emit_event ph [0x6e, 0] (s\<lparr> link_peer_supports_data_integrity_check := (if config AND 0x10 \<noteq> 0 then 1 else 0),
                link_state := LINK_ACTIVE, link_timer := None, link_seq_nr := 0, link_ack_nr := 0 \<rparr>) }
            else Some s } } })"

definition link_control_frame :: "h5_handler \<Rightarrow> buffer \<Rightarrow> u16 \<Rightarrow> h5 \<Rightarrow> h5 option" where
  "link_control_frame ph buf link_payload_len s = do {
     config \<leftarrow> payload_is link_control_config 3 buf;
     if config then
       (if link_payload_len = 2 then Some (add_action HCI_TRANSPORT_LINK_SEND_CONFIG_RESPONSE_EMPTY s)
        else Some (add_action HCI_TRANSPORT_LINK_SEND_CONFIG_RESPONSE s))
     else do {
       sync \<leftarrow> payload_is link_control_sync 2 buf;
       if sync then Some s
       else do {
         sleep \<leftarrow> payload_is link_control_sleep 2 buf;
         if sleep then do {
           s \<leftarrow> (if btstack_uart_sleep_mode s \<noteq> 0 then
                   hci_transport_h5_emit_sleep_state ph True (trace (Set_sleep (btstack_uart_sleep_mode s)) s)
                 else Some s);
           Some (s\<lparr> link_peer_asleep := True \<rparr>) }
         else do {
           wakeup \<leftarrow> payload_is link_control_wakeup 2 buf;
           if wakeup then Some (add_action HCI_TRANSPORT_LINK_SEND_WOKEN (s\<lparr> link_peer_asleep := False \<rparr>))
           else do {
             woken \<leftarrow> payload_is link_control_woken 2 buf;
             if woken then Some (s\<lparr> link_peer_asleep := False \<rparr>) else Some s } } } } }"

definition link_active_frame :: "h5_handler \<Rightarrow> buffer \<Rightarrow> u8 \<Rightarrow> u8 \<Rightarrow> bool \<Rightarrow> u8 \<Rightarrow> u16 \<Rightarrow> h5 \<Rightarrow> h5 option" where
  "link_active_frame ph buf seq_nr ack_nr reliable_packet link_packet_type link_payload_len s =
     (if reliable_packet \<and> seq_nr \<noteq> link_ack_nr s then Some (add_action HCI_TRANSPORT_LINK_SEND_ACK_PACKET s)
      else do {
        let s = (if reliable_packet
                 then add_action HCI_TRANSPORT_LINK_SEND_ACK_PACKET (s\<lparr> link_ack_nr := hci_transport_link_inc_seq_nr (link_ack_nr s) \<rparr>)
                 else s);
        let next_seq_nr = hci_transport_link_inc_seq_nr (link_seq_nr s);
        s \<leftarrow> (if (reliable_packet \<or> link_packet_type = LINK_ACKNOWLEDGEMENT_TYPE)
                  \<and> hci_transport_link_have_outgoing_packet s \<and> next_seq_nr = ack_nr
               then emit_event ph [0x6e, 0] (hci_transport_link_clear_queue (s\<lparr> link_seq_nr := next_seq_nr \<rparr>))
               else Some s);
        if link_packet_type = LINK_CONTROL_PACKET_TYPE then link_control_frame ph buf link_payload_len s
        else if link_packet_type = 0x04 \<or> link_packet_type = 0x02 \<or> link_packet_type = 0x03 then do {
          payload \<leftarrow> rd_range buf 4 (unat link_payload_len);
          s \<leftarrow> ph link_packet_type payload (trace (Deliver link_packet_type payload) (s\<lparr> link_peer_asleep := False \<rparr>));
          Some (hci_transport_inactivity_timer_set s) }
        else Some s })"

text \<open>What is done with a frame that starts at \<open>buf\<close>.\<close>

definition link_process_frame :: "h5_handler \<Rightarrow> buffer \<Rightarrow> u16 \<Rightarrow> h5 \<Rightarrow> h5 option" where
  "link_process_frame ph buf frame_size_without_header s = do {
        slip_header \<leftarrow> rd_range buf 0 4;
        let h0 = slip_header ! 0;
        let h1 = slip_header ! 1;
        let h2 = slip_header ! 2;
        let h3 = slip_header ! 3;
        let seq_nr = h0 AND 0x07;
        let ack_nr = drop_bit 3 h0 AND 0x07;
        let data_integrity_check_present = (h0 AND 0x40 \<noteq> 0);
        let reliable_packet = (h0 AND 0x80 \<noteq> 0);
        let link_packet_type = h1 AND 0x0f;
        let link_payload_len = drop_bit 4 (to16 h1) OR push_bit 4 (to16 h2);
        if slip_header = [0x01, 0x7a, 0x06, 0x10] then Some (trace (Set_parity 1) s)
        else if h0 + h1 + h2 + h3 \<noteq> 0xff then Some s
        else do {
          let received_payload_len = frame_size_without_header - (if data_integrity_check_present then 2 else 0);
          if link_payload_len \<noteq> received_payload_len then Some s
          else do {
            intact \<leftarrow> (if data_integrity_check_present then do {
                dic_packet \<leftarrow> big_endian_read_16 (drop 4 buf) (unat received_payload_len);
                dic_calculate \<leftarrow> crc16_calc_for_slip_frame slip_header (drop 4 buf) received_payload_len;
                Some (to16 dic_packet = dic_calculate) }
              else Some True);
            if \<not> intact then Some s
            else do {
              s \<leftarrow> (case link_state s of
                  LINK_UNINITIALIZED \<Rightarrow> link_uninitialized_frame buf link_packet_type s
                | LINK_INITIALIZED \<Rightarrow> link_initialized_frame ph buf link_packet_type link_payload_len s
                | LINK_ACTIVE \<Rightarrow> link_active_frame ph buf seq_nr ack_nr reliable_packet link_packet_type link_payload_len s);
              hci_transport_link_run s } } } }"

text \<open>The frame is in the buffer of the decoder.\<close>

definition hci_transport_h5_process_frame :: "h5_handler \<Rightarrow> u16 \<Rightarrow> h5 \<Rightarrow> h5 option" where
  "hci_transport_h5_process_frame ph frame_size s =
     (if frame_size < 4 then Some s else link_process_frame ph (dec_buffer (h5_decoder s)) (frame_size - 4) s)"

section \<open>The interface\<close>

definition hci_transport_slip_init :: "h5 \<Rightarrow> h5" where
  "hci_transport_slip_init s =
     s\<lparr> h5_decoder := btstack_slip_decoder_init (dec_buffer (h5_decoder s)) (of_nat (length (dec_buffer (h5_decoder s)))) \<rparr>"

definition hci_transport_slip_init_ext :: "h5 \<Rightarrow> h5" where
  "hci_transport_slip_init_ext s =
     s\<lparr> h5_decoder_ext := btstack_slip_decoder_init_ext (dec_buffer (h5_decoder_ext s)) (of_nat (length (dec_buffer (h5_decoder_ext s)))) \<rparr>"

definition hci_transport_link_calc_resend_timeout :: "u32 \<Rightarrow> u32 \<Rightarrow> u16 option" where
  "hci_transport_link_calc_resend_timeout packet_buffer_size baudrate =
     (if baudrate = 0 then None
      else Some (to16 (push_bit 3 (packet_buffer_size + 6) * 3000 div baudrate + 850)))"

definition hci_transport_link_update_resend_timeout :: "u32 \<Rightarrow> h5 \<Rightarrow> h5 option" where
  "hci_transport_link_update_resend_timeout baudrate s = do {
     t \<leftarrow> hci_transport_link_calc_resend_timeout (of_nat (length (dec_buffer (h5_decoder s)) - 6)) baudrate;
     Some (s\<lparr> link_resend_timeout_ms := t \<rparr>) }"

definition hci_transport_h5_read_next_byte :: "h5 \<Rightarrow> h5" where
  "hci_transport_h5_read_next_byte s = trace Receive_byte s"

text \<open>The byte received is an argument; the receive time is only logged.\<close>

definition hci_transport_h5_block_received :: "h5_handler \<Rightarrow> bool \<Rightarrow> u8 \<Rightarrow> h5 \<Rightarrow> h5 option" where
  "hci_transport_h5_block_received ph hasConnect byte s =
     (if hasConnect then Some s
      else do {
        d \<leftarrow> btstack_slip_decoder_process (h5_decoder s) byte;
        let s = s\<lparr> h5_decoder := d \<rparr>;
        let frame_size = btstack_slip_decoder_frame_size d;
        s \<leftarrow> (if frame_size \<noteq> 0 then
                if uart_baudrate s = 0 then None
                else do { s \<leftarrow> hci_transport_h5_process_frame ph frame_size s; Some (hci_transport_slip_init s) }
              else Some s);
        Some (hci_transport_h5_read_next_byte s) })"

definition hci_transport_h5_block_sent :: "h5_handler \<Rightarrow> h5 \<Rightarrow> h5 option" where
  "hci_transport_h5_block_sent ph s =
     (if btstack_slip_encoder_has_data (h5_encoder s) then hci_transport_slip_send_next_chunk s
      else do {
        let s = s\<lparr> slip_write_active := False \<rparr>;
        s \<leftarrow> (if has_action HCI_TRANSPORT_LINK_ENTER_SLEEP s then do {
                let s = clear_action HCI_TRANSPORT_LINK_ENTER_SLEEP s;
                let s = (if btstack_uart_sleep_mode s \<noteq> 0 then trace (Set_sleep (btstack_uart_sleep_mode s)) s else s);
                hci_transport_h5_emit_sleep_state ph True s }
              else Some s);
        hci_transport_link_run s })"

text \<open>What the UART driver returns is an argument: the status of \<open>open\<close>, \<open>close\<close> and \<open>set_baudrate\<close>, and its sleep modes.  A
  configuration that is missing or not of a UART is \<^const>\<open>None\<close>.\<close>

definition hci_transport_h5_init :: "u32 option \<Rightarrow> h5 \<Rightarrow> h5" where
  "hci_transport_h5_init transport_config s =
     (case transport_config of None \<Rightarrow> s
      | Some baudrate_init \<Rightarrow> trace (Uart_init baudrate_init) (s\<lparr> uart_baudrate := baudrate_init \<rparr>))"

definition hci_transport_h5_open :: "int \<Rightarrow> u32 \<Rightarrow> h5 \<Rightarrow> (int \<times> h5) option" where
  "hci_transport_h5_open res supported_sleep_modes s =
     (let s = trace Uart_open s in
      if res \<noteq> 0 then Some (res, s)
      else do {
        let s = (if hci_transport_bcsp_mode s then trace (Set_parity 1) s else s);
        let s = s\<lparr> btstack_uart_sleep_mode := (if supported_sleep_modes AND 4 \<noteq> 0 then 2 else 0) \<rparr>;
        s \<leftarrow> hci_transport_link_update_resend_timeout (uart_baudrate s) s;
        s \<leftarrow> hci_transport_link_init (hci_transport_slip_init_ext (hci_transport_slip_init s));
        Some (0, hci_transport_h5_read_next_byte s) })"

definition hci_transport_h5_close :: "int \<Rightarrow> h5 \<Rightarrow> int \<times> h5" where
  "hci_transport_h5_close res s = (res, trace Uart_close s)"

definition hci_transport_h5_can_send_packet_now :: "h5 \<Rightarrow> bool" where
  "hci_transport_h5_can_send_packet_now s \<longleftrightarrow> \<not> hci_transport_link_have_outgoing_packet s \<and> link_state s = LINK_ACTIVE"

definition hci_transport_h5_send_packet :: "h5_handler \<Rightarrow> u8 \<Rightarrow> buffer \<Rightarrow> u16 \<Rightarrow> h5 \<Rightarrow> (int \<times> h5) option" where
  "hci_transport_h5_send_packet ph packet_type packet sz s =
     (if \<not> hci_transport_h5_can_send_packet_now s then Some (-1, s)
      else do {
        let s = trace (Accept packet_type packet) (hci_transport_h5_queue_packet packet_type packet sz s);
        s \<leftarrow> (if link_peer_asleep s then do {
                s \<leftarrow> hci_transport_h5_emit_sleep_state ph False s;
                let s = (if btstack_uart_sleep_mode s \<noteq> 0 then trace (Set_sleep 0) s else s);
                hci_transport_link_set_timer LINK_WAKEUP_MS (add_action HCI_TRANSPORT_LINK_SEND_WAKEUP s) }
              else hci_transport_link_set_timer (link_resend_timeout_ms s) (add_action HCI_TRANSPORT_LINK_SEND_QUEUED_PACKET s));
        s \<leftarrow> hci_transport_link_run s;
        Some (0, s) })"

definition hci_transport_h5_set_baudrate :: "int \<Rightarrow> u32 \<Rightarrow> h5 \<Rightarrow> (int \<times> h5) option" where
  "hci_transport_h5_set_baudrate res baudrate s =
     (let s = trace (Set_baudrate baudrate) s in
      if res \<noteq> 0 then Some (res, s)
      else do { s \<leftarrow> hci_transport_link_update_resend_timeout baudrate s; Some (0, s) })"

definition hci_transport_h5_reset_link :: "h5 \<Rightarrow> h5 option" where
  "hci_transport_h5_reset_link s =
     hci_transport_link_init (hci_transport_slip_init_ext (hci_transport_slip_init (hci_transport_link_clear_queue s)))"

definition hci_transport_h5_set_auto_sleep :: "u16 \<Rightarrow> h5 \<Rightarrow> h5" where
  "hci_transport_h5_set_auto_sleep inactivity_timeout_ms s = s\<lparr> link_inactivity_timeout_ms := inactivity_timeout_ms \<rparr>"

definition hci_transport_h5_enable_bcsp_mode :: "h5 \<Rightarrow> h5" where
  "hci_transport_h5_enable_bcsp_mode s = s\<lparr> hci_transport_bcsp_mode := True \<rparr>"

end
