(* ===== verification/H5_Frame.thy ===== *)
theory H5_Frame
  imports H5_Link
begin

text \<open>
  The frames of \<open>H5_Link\<close>.  What the encoder has still to give is known at every moment, so the blocks handed to the UART are
  the pieces of whole frames, however they are cut into chunks and the check sequence is appended; and the bytes of a frame,
  received one by one, reach \<open>hci_transport_h5_process_frame\<close> with the fields they were built from.
\<close>

section \<open>What the encoder still has to send\<close>

fun enc_pending :: "encoder_state \<Rightarrow> buffer" where
  "enc_pending SLIP_ENCODER_DEFAULT = []"
| "enc_pending SLIP_ENCODER_SEND_DC = [0xdc]"
| "enc_pending SLIP_ENCODER_SEND_DD = [0xdd]"

definition enc_rest :: "slip_encoder \<Rightarrow> buffer" where
  "enc_rest e = enc_pending (enc_state e) @ concat (map slip_escape (take (unat (enc_len e)) (enc_data e)))"

definition enc_ok :: "slip_encoder \<Rightarrow> bool" where
  "enc_ok e \<longleftrightarrow> unat (enc_len e) \<le> length (enc_data e)"

lemma slip_escape_not_Nil [simp]: "slip_escape b \<noteq> []"
  by (simp add: slip_escape_def)

lemma has_data_iff:
  assumes "enc_ok e"
  shows "btstack_slip_encoder_has_data e \<longleftrightarrow> enc_rest e \<noteq> []"
proof (cases "enc_state e")
  case SLIP_ENCODER_DEFAULT
  have "concat (map slip_escape (take (unat (enc_len e)) (enc_data e))) = [] \<longleftrightarrow> take (unat (enc_len e)) (enc_data e) = []"
    by (cases "take (unat (enc_len e)) (enc_data e)") auto
  moreover have "0 < unat (enc_len e) \<longleftrightarrow> unat (enc_len e) \<noteq> 0" by auto
  ultimately show ?thesis using assms SLIP_ENCODER_DEFAULT
    unfolding btstack_slip_encoder_has_data_def enc_rest_def enc_ok_def enc_len_pos by auto
qed (simp_all add: btstack_slip_encoder_has_data_def enc_rest_def)

lemma get_byte_rest:
  assumes "enc_ok e" and "enc_rest e = b # r"
  shows "\<exists>e'. btstack_slip_encoder_get_byte e = Some (b, e') \<and> enc_ok e' \<and> enc_rest e' = r"
proof (cases "enc_state e")
  case SLIP_ENCODER_DEFAULT
  have l: "0 < unat (enc_len e)" using assms(2) SLIP_ENCODER_DEFAULT by (cases "unat (enc_len e)") (simp_all add: enc_rest_def)
  obtain c cs where d: "enc_data e = c # cs" using l assms(1) by (cases "enc_data e") (simp_all add: enc_ok_def)
  have m: "unat (enc_len e - 1) = unat (enc_len e) - 1" using l by (intro unat_minus_one) auto
  have t: "take (unat (enc_len e)) (c # cs) = c # take (unat (enc_len e) - 1) cs" using l by (cases "unat (enc_len e)") simp_all
  have r: "slip_escape c @ concat (map slip_escape (take (unat (enc_len e) - 1) cs)) = b # r"
    using assms(2) unfolding enc_rest_def SLIP_ENCODER_DEFAULT d t by simp
  have ok: "unat (enc_len e) - 1 \<le> length cs" using assms(1) by (simp add: enc_ok_def d)
  show ?thesis
    using SLIP_ENCODER_DEFAULT r ok m
    by (auto simp: btstack_slip_encoder_get_byte_def d rd_def enc_ok_def enc_rest_def slip_escape_def BTSTACK_SLIP_SOF_def split: if_splits)
qed (use assms in \<open>auto simp: btstack_slip_encoder_get_byte_def enc_rest_def enc_ok_def\<close>)

lemma slip_fill_eq:
  assumes "enc_ok e" and "pos + length (enc_rest e) \<le> length buf"
  shows "\<exists>e'. slip_fill e buf pos = Some (e', take pos buf @ enc_rest e @ drop (pos + length (enc_rest e)) buf, pos + length (enc_rest e))
    \<and> enc_ok e' \<and> enc_rest e' = []"
  using assms
proof (induction "enc_rest e" arbitrary: e buf pos)
  case Nil
  then show ?case using has_data_iff [OF Nil(2)] by (subst slip_fill.simps) simp
next
  case (Cons b r)
  obtain e' where e': "btstack_slip_encoder_get_byte e = Some (b, e')" "enc_ok e'" "enc_rest e' = r"
    using get_byte_rest [OF Cons(3)] Cons(2) by metis
  have r: "enc_rest e = b # r" using Cons(2) by simp
  have ll: "length (enc_rest e) = Suc (length r)" unfolding Cons(2) [symmetric] by simp
  then have l: "pos < length buf" "length (enc_rest e) = Suc (length r)" using Cons(4) by simp_all
  have w: "wr buf pos b = Some (buf[pos := b])" using l(1) by (simp add: wr_def)
  obtain e'' where e'': "slip_fill e' (buf[pos := b]) (pos + 1)
      = Some (e'', take (pos + 1) (buf[pos := b]) @ r @ drop (pos + 1 + length r) (buf[pos := b]), pos + 1 + length r)"
      "enc_ok e''" "enc_rest e'' = []"
    using Cons(1) [of e' "pos + 1" "buf[pos := b]"] e'(2,3) Cons(4) l(2) by auto
  have t: "take (pos + 1) (buf[pos := b]) = take pos buf @ [b]" using l(1) by (simp add: take_Suc_conv_app_nth)
  have h: "btstack_slip_encoder_has_data e" using has_data_iff [OF Cons(3)] r by simp
  have "slip_fill e buf pos = slip_fill e' (buf[pos := b]) (pos + 1)" using e'(1) w h by (subst slip_fill.simps) simp
  moreover have "take pos buf @ enc_rest e @ drop (pos + length (enc_rest e)) buf
      = take (pos + 1) (buf[pos := b]) @ r @ drop (pos + 1 + length r) (buf[pos := b])"
    unfolding t r by (simp add: drop_update_cancel)
  ultimately show ?case using e'' l(2) by auto
qed

lemma slip_fill_chunk_eq:
  assumes "enc_ok e" and "n = min (length (enc_rest e)) (1037 - pos)" and "pos + n \<le> length buf"
  shows "\<exists>e'. slip_fill_chunk e buf pos = Some (e', take pos buf @ take n (enc_rest e) @ drop (pos + n) buf, pos + n)
    \<and> enc_ok e' \<and> enc_rest e' = drop n (enc_rest e)"
  using assms
proof (induction n arbitrary: e buf pos)
  case 0
  have "length (enc_rest e) = 0 \<or> \<not> pos < 1037" using 0(2) by (auto simp: min_def split: if_splits)
  then show ?case using has_data_iff [OF 0(1)] 0(1) by (subst slip_fill_chunk.simps) auto
next
  case (Suc n)
  then have p: "pos < 1037" by simp
  obtain b r where r: "enc_rest e = b # r" using Suc.prems(2) by (cases "enc_rest e") simp_all
  obtain e' where e': "btstack_slip_encoder_get_byte e = Some (b, e')" "enc_ok e'" "enc_rest e' = r"
    using get_byte_rest [OF Suc.prems(1) r] by metis
  have l: "pos < length buf" using Suc.prems(3) by simp
  have w: "wr buf pos b = Some (buf[pos := b])" using l by (simp add: wr_def)
  have n: "n = min (length (enc_rest e')) (1037 - (pos + 1))" using Suc.prems(2) p r e'(3) by simp
  obtain e'' where e'': "slip_fill_chunk e' (buf[pos := b]) (pos + 1)
      = Some (e'', take (pos + 1) (buf[pos := b]) @ take n r @ drop (pos + 1 + n) (buf[pos := b]), pos + 1 + n)"
      "enc_ok e''" "enc_rest e'' = drop n r"
    using Suc.IH [OF e'(2) n, of "buf[pos := b]"] e'(3) Suc.prems(3) by auto
  have t: "take (pos + 1) (buf[pos := b]) = take pos buf @ [b]" using l by (simp add: take_Suc_conv_app_nth)
  have h: "btstack_slip_encoder_has_data e" using has_data_iff [OF Suc.prems(1)] r by simp
  show ?case
    using e'(1) w e'' t h p unfolding r by (subst slip_fill_chunk.simps) (simp add: drop_update_cancel)
qed

section \<open>What the transport still has to send\<close>

definition slip_frame :: "buffer \<Rightarrow> buffer" where
  "slip_frame f = BTSTACK_SLIP_SOF # concat (map slip_escape f) @ [BTSTACK_SLIP_SOF]"

definition dic_bytes :: "u16 \<Rightarrow> buffer" where
  "dic_bytes dic = [to8 (drop_bit 8 dic), to8 dic]"

definition frame_end :: "h5 \<Rightarrow> buffer" where
  "frame_end s = (if slip_outgoing_dic_present s \<noteq> 0 then concat (map slip_escape (dic_bytes (slip_outgoing_dic s))) else [])
     @ [BTSTACK_SLIP_SOF]"

lemma frame_end_not_Nil [simp]: "frame_end s \<noteq> []"
  by (simp add: frame_end_def)

text \<open>The part of the frame under way behind the block the UART is sending.\<close>

definition h5_outgoing :: "h5 \<Rightarrow> buffer" where
  "h5_outgoing s = (if enc_rest (h5_encoder s) = [] then [] else enc_rest (h5_encoder s) @ frame_end s)"

definition out_ok :: "h5 \<Rightarrow> bool" where
  "out_ok s \<longleftrightarrow> enc_ok (h5_encoder s) \<and> length (slip_outgoing_buffer s) = LINK_SLIP_TX_CHUNK_LEN + 4 + 1"

fun block_of :: "h5_event \<Rightarrow> buffer" where
  "block_of (Send_block b) = b"
| "block_of _ = []"

definition sent_bytes :: "h5 \<Rightarrow> buffer" where
  "sent_bytes s = concat (map block_of (h5_trace s))"

text \<open>Nothing but the output changes, and one block is handed to the UART.\<close>

definition sends_block :: "h5 \<Rightarrow> buffer \<Rightarrow> h5 \<Rightarrow> bool" where
  "sends_block s b s' \<longleftrightarrow> (\<exists>e ob dic present. s' = s\<lparr> h5_encoder := e, slip_outgoing_buffer := ob, slip_outgoing_dic := dic,
     slip_outgoing_dic_present := present, slip_write_active := True, h5_trace := h5_trace s @ [Send_block b] \<rparr>)"

lemma concat_slip_escape_length: "length (concat (map slip_escape xs)) \<le> 2 * length xs"
  by (induction xs) (auto simp: slip_escape_def)

lemma enc_rest_start: "enc_rest (btstack_slip_encoder_start data len) = concat (map slip_escape (take (unat len) data))"
  and enc_ok_start: "enc_ok (btstack_slip_encoder_start data len) \<longleftrightarrow> unat len \<le> length data"
  by (simp_all add: enc_rest_def enc_ok_def btstack_slip_encoder_start_def)

lemma store_dic: "big_endian_store_16 [0, 0] 0 dic = Some (dic_bytes dic)"
  by (simp add: big_endian_store_16_def wr_def dic_bytes_def)

lemma chunk_and_send:
  assumes "out_ok s" and "pos \<le> LINK_SLIP_TX_CHUNK_LEN"
  shows "\<exists>b e ob. hci_transport_slip_encode_chunk_and_send pos s
      = Some (trace (Send_block (take pos (slip_outgoing_buffer s) @ b))
          (s\<lparr> h5_encoder := e, slip_outgoing_buffer := ob, slip_write_active := True \<rparr>))
    \<and> enc_ok e \<and> length ob = LINK_SLIP_TX_CHUNK_LEN + 4 + 1
    \<and> b @ (if enc_rest e = [] then [] else enc_rest e @ frame_end s) = enc_rest (h5_encoder s) @ frame_end s
    \<and> (pos < LINK_SLIP_TX_CHUNK_LEN \<longrightarrow> b \<noteq> [])"
proof -
  let ?e = "h5_encoder s" and ?buf = "slip_outgoing_buffer s"
  have e: "enc_ok ?e" and lb: "length ?buf = 1042" using assms(1) by (simp_all add: out_ok_def)
  define n where "n = min (length (enc_rest ?e)) (1037 - pos)"
  have fit: "pos + n \<le> 1037" using assms(2) by (simp add: n_def)
  obtain e1 where e1: "slip_fill_chunk ?e ?buf pos = Some (e1, take pos ?buf @ take n (enc_rest ?e) @ drop (pos + n) ?buf, pos + n)"
    "enc_ok e1" "enc_rest e1 = drop n (enc_rest ?e)"
    using slip_fill_chunk_eq [OF e n_def, of ?buf] fit lb by auto
  define buf1 where "buf1 = take pos ?buf @ take n (enc_rest ?e) @ drop (pos + n) ?buf"
  have ln: "length (take n (enc_rest ?e)) = n" by (simp add: n_def)
  have l1: "length buf1 = 1042" using lb fit ln by (simp add: buf1_def)
  have t1: "take (pos + n) buf1 = take pos ?buf @ take n (enc_rest ?e)" using fit lb ln by (simp add: buf1_def)
  show ?thesis
  proof (cases "enc_rest e1 = []")
    case False
    have "rd_range buf1 0 (pos + n) = Some (take (pos + n) buf1)" using fit l1 by (simp add: rd_range_def)
    moreover have "take n (enc_rest ?e) \<noteq> []" if "pos < 1037" using that False e1(3) by (auto simp: n_def)
    ultimately show ?thesis using e1 False has_data_iff [OF e1(2)] l1 t1
      by - (rule exI [of _ "take n (enc_rest ?e)"], rule exI [of _ e1], rule exI [of _ buf1],
        simp add: hci_transport_slip_encode_chunk_and_send_def buf1_def [symmetric])
  next
    case True
    then have all: "take n (enc_rest ?e) = enc_rest ?e" using e1(3) by simp
    define d where "d = (if slip_outgoing_dic_present s \<noteq> 0 then concat (map slip_escape (dic_bytes (slip_outgoing_dic s))) else [])"
    have ld: "length d \<le> 4" using concat_slip_escape_length [of "dic_bytes (slip_outgoing_dic s)"] by (simp add: d_def dic_bytes_def)
    have "\<exists>e2. (if slip_outgoing_dic_present s \<noteq> 0 then do {
               dic_buffer \<leftarrow> big_endian_store_16 [0, 0] 0 (slip_outgoing_dic s);
               slip_fill (btstack_slip_encoder_start dic_buffer 2) buf1 (pos + n) }
             else Some (e1, buf1, pos + n)) = Some (e2, take (pos + n) buf1 @ d @ drop (pos + n + length d) buf1, pos + n + length d)
        \<and> enc_ok e2 \<and> enc_rest e2 = []"
    proof (cases "slip_outgoing_dic_present s \<noteq> 0")
      case False
      then show ?thesis using e1(2) True by (simp add: d_def)
    next
      case p: True
      have r: "enc_rest (btstack_slip_encoder_start (dic_bytes (slip_outgoing_dic s)) 2) = d"
        "enc_ok (btstack_slip_encoder_start (dic_bytes (slip_outgoing_dic s)) 2)"
        using p by (simp_all add: enc_rest_start enc_ok_start d_def dic_bytes_def)
      show ?thesis using slip_fill_eq [OF r(2), of "pos + n" buf1] p ld fit l1 by (simp add: r(1) store_dic)
    qed
    then obtain e2 where e2: "(if slip_outgoing_dic_present s \<noteq> 0 then do {
               dic_buffer \<leftarrow> big_endian_store_16 [0, 0] 0 (slip_outgoing_dic s);
               slip_fill (btstack_slip_encoder_start dic_buffer 2) buf1 (pos + n) }
             else Some (e1, buf1, pos + n)) = Some (e2, take (pos + n) buf1 @ d @ drop (pos + n + length d) buf1, pos + n + length d)"
        "enc_ok e2" "enc_rest e2 = []" by blast
    define buf2 where "buf2 = take (pos + n) buf1 @ d @ drop (pos + n + length d) buf1"
    have l2: "length buf2 = 1042" using l1 fit ld by (simp add: buf2_def)
    define p where "p = pos + n + length d"
    have lp: "p < 1042" using fit ld by (simp add: p_def)
    have w: "wr buf2 p BTSTACK_SLIP_SOF = Some (buf2[p := BTSTACK_SLIP_SOF])" using lp l2 by (simp add: wr_def)
    have "take p buf2 = take (pos + n) buf1 @ d" using l1 fit ld by (simp add: buf2_def p_def del: take_append) simp
    then have "take p buf2 = take pos ?buf @ enc_rest ?e @ d" unfolding t1 all by simp
    then have out: "rd_range (buf2[p := BTSTACK_SLIP_SOF]) 0 (p + 1) = Some (take pos ?buf @ enc_rest ?e @ frame_end s)"
      using lp l2 by (simp add: rd_range_def take_Suc_conv_app_nth frame_end_def d_def [symmetric])
    show ?thesis
      using e1(1) True has_data_iff [OF e1(2)] e2 [folded p_def, folded buf2_def [unfolded p_def [symmetric]]] w out l2
      by - (rule exI [of _ "enc_rest ?e @ frame_end s"], rule exI [of _ e2], rule exI [of _ "buf2[p := BTSTACK_SLIP_SOF]"],
        simp add: hci_transport_slip_encode_chunk_and_send_def buf1_def [symmetric])
  qed
qed

section \<open>Sending a frame\<close>

lemma sends_block_simps:
  assumes "sends_block s b s'"
  shows "link_state s' = link_state s" "link_timer s' = link_timer s" "link_seq_nr s' = link_seq_nr s"
    "link_ack_nr s' = link_ack_nr s" "link_resend_timeout_ms s' = link_resend_timeout_ms s" "link_peer_asleep s' = link_peer_asleep s"
    "link_peer_supports_data_integrity_check s' = link_peer_supports_data_integrity_check s"
    "hci_packet_type s' = hci_packet_type s" "hci_packet_size s' = hci_packet_size s" "hci_packet s' = hci_packet s"
    "hci_transport_link_actions s' = hci_transport_link_actions s" "h5_decoder s' = h5_decoder s"
    "slip_write_active s'" "h5_trace s' = h5_trace s @ [Send_block b]" "uart_baudrate s' = uart_baudrate s"
    "inactivity_timer s' = inactivity_timer s" "link_inactivity_timeout_ms s' = link_inactivity_timeout_ms s"
    "last_sleep_state s' = last_sleep_state s" "btstack_uart_sleep_mode s' = btstack_uart_sleep_mode s"
  using assms by (auto simp: sends_block_def)

lemma frame_end_update:
  "frame_end (s\<lparr> h5_encoder := e, slip_outgoing_buffer := ob, slip_write_active := w, h5_trace := t \<rparr>) = frame_end s"
  by (simp add: frame_end_def)

lemma to16_u8_zero: "to16 (x :: u8) = 0 \<longleftrightarrow> x = 0"
proof -
  have "unat x < 2 ^ 16" by (rule less_trans [OF unat_u8_less]) simp
  then have "unat (to16 x) = unat x" by (simp add: unsigned_ucast_eq take_bit_nat_eq_self)
  then show ?thesis by (metis unat_eq_0)
qed

lemma send_frame:
  assumes "out_ok s" and "length header = 4" and "unat sz \<le> length packet"
  shows "\<exists>b s'. hci_transport_slip_send_frame header packet sz dic s = Some s' \<and> sends_block s b s' \<and> out_ok s'
    \<and> b @ h5_outgoing s' = slip_frame (header @ take (unat sz) packet @ (if header ! 0 AND 0x40 = 0 then [] else dic_bytes dic))"
proof -
  let ?buf = "slip_outgoing_buffer s" and ?eh = "btstack_slip_encoder_start header 4"
  have lb: "length ?buf = 1042" using assms(1) by (simp add: out_ok_def)
  define buf1 where "buf1 = ?buf[0 := BTSTACK_SLIP_SOF]"
  have w: "wr ?buf 0 BTSTACK_SLIP_SOF = Some buf1" using lb by (simp add: wr_def buf1_def)
  have l1: "length buf1 = 1042" using lb by (simp add: buf1_def)
  have eh: "enc_ok ?eh" "enc_rest ?eh = concat (map slip_escape header)" using assms(2) by (simp_all add: enc_ok_start enc_rest_start)
  have lh: "length (concat (map slip_escape header)) \<le> 8" using concat_slip_escape_length [of header] assms(2) by simp
  define pos where "pos = 1 + length (concat (map slip_escape header))"
  define buf2 where "buf2 = take 1 buf1 @ concat (map slip_escape header) @ drop pos buf1"
  obtain e' where f: "slip_fill ?eh buf1 1 = Some (e', buf2, pos)"
    using slip_fill_eq [OF eh(1), of 1 buf1] lh l1 by (auto simp: eh(2) buf2_def pos_def)
  have l2: "length buf2 = 1042" using l1 lh by (simp add: buf2_def pos_def)
  have t1: "take 1 buf1 = [BTSTACK_SLIP_SOF]" using lb unfolding buf1_def by (cases ?buf) simp_all
  have t2: "take pos buf2 = BTSTACK_SLIP_SOF # concat (map slip_escape header)" using l1 t1 by (simp add: buf2_def pos_def)
  define s1 where "s1 = s\<lparr> slip_outgoing_dic := dic, slip_outgoing_dic_present := to16 (header ! 0 AND 0x40),
           slip_outgoing_buffer := buf2, h5_encoder := btstack_slip_encoder_start packet sz \<rparr>"
  have ok1: "out_ok s1" using assms(3) l2 by (simp add: out_ok_def s1_def enc_ok_start)
  have pl: "pos \<le> LINK_SLIP_TX_CHUNK_LEN" using lh by (simp add: pos_def)
  obtain b e ob where c: "hci_transport_slip_encode_chunk_and_send pos s1
      = Some (trace (Send_block (take pos (slip_outgoing_buffer s1) @ b))
          (s1\<lparr> h5_encoder := e, slip_outgoing_buffer := ob, slip_write_active := True \<rparr>))"
    "enc_ok e" "length ob = LINK_SLIP_TX_CHUNK_LEN + 4 + 1"
    "b @ (if enc_rest e = [] then [] else enc_rest e @ frame_end s1) = enc_rest (h5_encoder s1) @ frame_end s1"
    using chunk_and_send [OF ok1 pl] by blast
  let ?s' = "trace (Send_block (take pos (slip_outgoing_buffer s1) @ b))
          (s1\<lparr> h5_encoder := e, slip_outgoing_buffer := ob, slip_write_active := True \<rparr>)"
  let ?b = "take pos (slip_outgoing_buffer s1) @ b"
  have z: "to16 (header ! 0 AND 0x40) = 0 \<longleftrightarrow> header ! 0 AND 0x40 = 0" by (rule to16_u8_zero)
  have h0: "rd header 0 = Some (header ! 0)" using assms(2) by (simp add: rd_def)
  have "hci_transport_slip_send_frame header packet sz dic s = Some ?s'"
    using h0 w f c(1) by (simp add: hci_transport_slip_send_frame_def s1_def)
  moreover have "sends_block s ?b ?s'"
    unfolding sends_block_def trace_def s1_def
    by (rule exI [of _ e], rule exI [of _ ob], rule exI [of _ dic], rule exI [of _ "to16 (header ! 0 AND 0x40)"]) simp
  moreover have "out_ok ?s'" using c(2,3) by (simp add: out_ok_def trace_def)
  moreover have "?b @ h5_outgoing ?s' = slip_frame (header @ take (unat sz) packet @ (if header ! 0 AND 0x40 = 0 then [] else dic_bytes dic))"
  proof -
    have "frame_end s1 = concat (map slip_escape (if header ! 0 AND 0x40 = 0 then [] else dic_bytes dic)) @ [BTSTACK_SLIP_SOF]"
      using z by (simp add: frame_end_def s1_def)
    moreover have "enc_rest (h5_encoder s1) = concat (map slip_escape (take (unat sz) packet))" by (simp add: s1_def enc_rest_start)
    moreover have "take pos (slip_outgoing_buffer s1) = BTSTACK_SLIP_SOF # concat (map slip_escape header)" by (simp add: s1_def t2)
    moreover have "h5_outgoing ?s' = (if enc_rest e = [] then [] else enc_rest e @ frame_end s1)"
      by (simp add: h5_outgoing_def trace_def frame_end_update)
    ultimately show ?thesis unfolding append_assoc using c(4) by (simp add: slip_frame_def del: append_assoc)
  qed
  ultimately show ?thesis by blast
qed

lemma block_sent_continues:
  assumes "out_ok s" and "h5_outgoing s \<noteq> []"
  shows "\<exists>b s'. hci_transport_h5_block_sent ph s = Some s' \<and> sends_block s b s' \<and> out_ok s' \<and> b @ h5_outgoing s' = h5_outgoing s \<and> b \<noteq> []"
proof -
  have r: "enc_rest (h5_encoder s) \<noteq> []" using assms(2) by (auto simp: h5_outgoing_def)
  have h: "btstack_slip_encoder_has_data (h5_encoder s)" using has_data_iff [of "h5_encoder s"] assms(1) r by (simp add: out_ok_def)
  obtain b e ob where c: "hci_transport_slip_encode_chunk_and_send 0 s
      = Some (trace (Send_block b) (s\<lparr> h5_encoder := e, slip_outgoing_buffer := ob, slip_write_active := True \<rparr>))"
    "enc_ok e" "length ob = LINK_SLIP_TX_CHUNK_LEN + 4 + 1"
    "b @ (if enc_rest e = [] then [] else enc_rest e @ frame_end s) = enc_rest (h5_encoder s) @ frame_end s" "b \<noteq> []"
    using chunk_and_send [OF assms(1), of 0] by (simp only: take_0 append_Nil) fastforce
  let ?s' = "trace (Send_block b) (s\<lparr> h5_encoder := e, slip_outgoing_buffer := ob, slip_write_active := True \<rparr>)"
  have "hci_transport_h5_block_sent ph s = Some ?s'"
    using h c(1) by (simp add: hci_transport_h5_block_sent_def hci_transport_slip_send_next_chunk_def)
  moreover have "sends_block s b ?s'"
    unfolding sends_block_def trace_def
    by (rule exI [of _ e], rule exI [of _ ob], rule exI [of _ "slip_outgoing_dic s"], rule exI [of _ "slip_outgoing_dic_present s"]) simp
  moreover have "out_ok ?s'" using c(2,3) by (simp add: out_ok_def trace_def)
  moreover have "b @ h5_outgoing ?s' = h5_outgoing s"
    using c(4) r by (simp add: h5_outgoing_def trace_def frame_end_update split: if_splits)
  ultimately show ?thesis using c(5) by blast
qed

lemma block_sent_done:
  assumes "out_ok s" and "h5_outgoing s = []"
  shows "\<not> btstack_slip_encoder_has_data (h5_encoder s)"
  using assms has_data_iff [of "h5_encoder s"] by (auto simp: h5_outgoing_def out_ok_def frame_end_def split: if_splits)

section \<open>Frames\<close>

record h5_frame =
  f_reliable :: bool
  f_seq :: u8
  f_ack :: u8
  f_dic :: bool
  f_type :: u8
  f_payload :: buffer

definition frame_ok :: "h5_frame \<Rightarrow> bool" where
  "frame_ok f \<longleftrightarrow> f_seq f < 8 \<and> f_ack f < 8 \<and> f_type f < 16 \<and> length (f_payload f) < 4096"

definition frame_header :: "h5_frame \<Rightarrow> buffer" where
  "frame_header f = hci_transport_link_calc_header (f_seq f) (f_ack f) (if f_dic f then 1 else 0) (if f_reliable f then 1 else 0)
     (f_type f) (of_nat (length (f_payload f)))"

definition frame_crc :: "buffer \<Rightarrow> buffer \<Rightarrow> u16" where
  "frame_crc header payload = btstack_reverse_bits_16 (foldl crc16_ccitt_update 0xffff (header @ payload))"

definition frame_bytes :: "h5_frame \<Rightarrow> buffer" where
  "frame_bytes f = frame_header f @ f_payload f @ (if f_dic f then dic_bytes (frame_crc (frame_header f) (f_payload f)) else [])"

lemma frame_header_length [simp]: "length (frame_header f) = 4"
  by (simp add: frame_header_def hci_transport_link_calc_header_def Let_def)

lemma crc16_calc:
  assumes "length header = 4" and "unat len \<le> length payload"
  shows "crc16_calc_for_slip_frame header payload len = Some (frame_crc header (take (unat len) payload))"
  using assms by (simp add: crc16_calc_for_slip_frame_def rd_range_def frame_crc_def)

lemma bits_below:
  fixes x :: "'a::len word"
  assumes "x < 2 ^ k" and "k < LENGTH('a)" and "bit x i"
  shows "i < k"
proof (rule ccontr)
  assume "\<not> i < k"
  have "unat (of_nat (2 ^ k) :: 'a word) = 2 ^ k" unfolding unsigned_of_nat using assms(2) by (simp add: take_bit_nat_eq_self)
  then have "unat (2 ^ k :: 'a word) = 2 ^ k" by simp
  then have "unat x < 2 ^ k" using assms(1) by (simp add: word_less_nat_alt)
  also have "(2 :: nat) ^ k \<le> 2 ^ i" using \<open>\<not> i < k\<close> by simp
  finally have "unat x div 2 ^ i = 0" by simp
  moreover have "bit (unat x) i" using assms(3) by (simp add: bit_unsigned_iff bit_imp_le_length)
  ultimately show False by (simp add: bit_iff_odd)
qed

lemma header_byte_0:
  assumes "s < (8 :: u8)" and "a < 8" and "h = s OR push_bit 3 a OR push_bit 6 (if d then 1 else 0) OR push_bit 7 (if r then 1 else 0)"
  shows "h AND 0x07 = s" and "drop_bit 3 h AND 0x07 = a" and "h AND 0x40 \<noteq> 0 \<longleftrightarrow> d" and "h AND 0x80 \<noteq> 0 \<longleftrightarrow> r"
proof -
  have s: "i < 3" if "bit s i" for i using bits_below [of s 3 i] assms(1) that by simp
  have a: "i < 3" if "bit a i" for i using bits_below [of a 3 i] assms(2) that by simp
  have m: "(0x07 :: u8) = mask 3" by (simp add: mask_eq_exp_minus_1)
  have b: "bit h i \<longleftrightarrow> bit s i \<or> (3 \<le> i \<and> bit a (i - 3)) \<or> (i = 6 \<and> d) \<or> (i = 7 \<and> r)" if "i < 8" for i
    using that by (auto simp: assms(3) bit_or_iff bit_push_bit_iff bit_1_iff)
  show "h AND 0x07 = s"
    unfolding m by (rule bit_word_eqI) (use s in \<open>fastforce simp: bit_and_iff bit_mask_iff b not_less\<close>)
  show "drop_bit 3 h AND 0x07 = a"
    unfolding m by (rule bit_word_eqI) (use s a in \<open>fastforce simp: bit_and_iff bit_mask_iff b not_less bit_drop_bit_eq\<close>)
  have "h AND 0x40 \<noteq> 0 \<longleftrightarrow> bit h 6" using bit_iff_and_push_bit_not_eq_0 [of h 6] by simp
  then show "h AND 0x40 \<noteq> 0 \<longleftrightarrow> d" using s [of 6] s [of 7] a [of 3] a [of 4] by (auto simp: b)
  have "h AND 0x80 \<noteq> 0 \<longleftrightarrow> bit h 7" using bit_iff_and_push_bit_not_eq_0 [of h 7] by simp
  then show "h AND 0x80 \<noteq> 0 \<longleftrightarrow> r" using s [of 6] s [of 7] a [of 3] a [of 4] by (auto simp: b)
qed

lemma header_length_field:
  assumes "t < (16 :: u8)" and "n < (4096 :: u16)"
  shows "(t OR to8 (push_bit 4 (n AND 0x0f))) AND 0x0f = t"
    and "drop_bit 4 (to16 (t OR to8 (push_bit 4 (n AND 0x0f)))) OR push_bit 4 (to16 (to8 (drop_bit 4 n))) = n"
proof -
  have t: "i < 4" if "bit t i" for i using bits_below [of t 4 i] assms(1) that by simp
  have n: "i < 12" if "bit n i" for i using bits_below [of n 12 i] assms(2) that by simp
  have m: "(0x0f :: u8) = mask 4" "(0x0f :: u16) = mask 4" by (simp_all add: mask_eq_exp_minus_1)
  show "(t OR to8 (push_bit 4 (n AND 0x0f))) AND 0x0f = t"
    unfolding m by (rule bit_word_eqI) (auto simp: bit_and_iff bit_or_iff bit_mask_iff bit_push_bit_iff bit_ucast_iff not_less dest: t)
  show "drop_bit 4 (to16 (t OR to8 (push_bit 4 (n AND 0x0f)))) OR push_bit 4 (to16 (to8 (drop_bit 4 n))) = n"
    unfolding m
  proof (rule bit_word_eqI)
    fix i assume "i < LENGTH(16)"
    then show "bit (drop_bit 4 (to16 (t OR to8 (push_bit 4 (n AND mask 4)))) OR push_bit 4 (to16 (to8 (drop_bit 4 n)))) i = bit n i"
      using t n by (cases "i < 4"; cases "i < 12")
        (auto simp: bit_and_iff bit_or_iff bit_mask_iff bit_push_bit_iff bit_ucast_iff not_less bit_drop_bit_eq dest: t n)
  qed
qed

lemma frame_header_fields:
  assumes "frame_ok f" and "frame_header f = [h0, h1, h2, h3]"
  shows "h0 AND 0x07 = f_seq f" and "drop_bit 3 h0 AND 0x07 = f_ack f" and "h0 AND 0x40 \<noteq> 0 \<longleftrightarrow> f_dic f"
    and "h0 AND 0x80 \<noteq> 0 \<longleftrightarrow> f_reliable f" and "h1 AND 0x0f = f_type f"
    and "drop_bit 4 (to16 h1) OR push_bit 4 (to16 h2) = of_nat (length (f_payload f))" and "h0 + h1 + h2 + h3 = 0xff"
proof -
  let ?n = "of_nat (length (f_payload f)) :: u16"
  have ok: "f_seq f < 8" "f_ack f < 8" "f_type f < 16" "length (f_payload f) < 4096" using assms(1) by (simp_all add: frame_ok_def)
  have n: "?n < 4096" using ok(4) by (simp add: word_less_nat_alt unat_of_nat_u16)
  have h: "h0 = f_seq f OR push_bit 3 (f_ack f) OR push_bit 6 (if f_dic f then 1 else 0) OR push_bit 7 (if f_reliable f then 1 else 0)"
    "h1 = f_type f OR to8 (push_bit 4 (?n AND 0x0f))" "h2 = to8 (drop_bit 4 ?n)" "h3 = 0xff - (h0 + h1 + h2)"
    using assms(2) unfolding frame_header_def hci_transport_link_calc_header_def Let_def list.inject by auto
  show "h0 AND 0x07 = f_seq f" "drop_bit 3 h0 AND 0x07 = f_ack f" "h0 AND 0x40 \<noteq> 0 \<longleftrightarrow> f_dic f" "h0 AND 0x80 \<noteq> 0 \<longleftrightarrow> f_reliable f"
    using header_byte_0 [OF ok(1,2) h(1)] by blast+
  show "h1 AND 0x0f = f_type f" "drop_bit 4 (to16 h1) OR push_bit 4 (to16 h2) = ?n"
    using header_length_field [OF ok(3) n] unfolding h(2,3) by blast+
  show "h0 + h1 + h2 + h3 = 0xff" unfolding h(4) by simp
qed

text \<open>A frame with correct checks, acted on as the state of the link says.\<close>

definition frame_action :: "h5_handler \<Rightarrow> buffer \<Rightarrow> h5_frame \<Rightarrow> h5 \<Rightarrow> h5 option" where
  "frame_action ph buf f s = do {
     s \<leftarrow> (case link_state s of
         LINK_UNINITIALIZED \<Rightarrow> link_uninitialized_frame buf (f_type f) s
       | LINK_INITIALIZED \<Rightarrow> link_initialized_frame ph buf (f_type f) (of_nat (length (f_payload f))) s
       | LINK_ACTIVE \<Rightarrow> link_active_frame ph buf (f_seq f) (f_ack f) (f_reliable f) (f_type f) (of_nat (length (f_payload f))) s);
     hci_transport_link_run s }"

lemma frame_bytes_length: "length (frame_bytes f) = 4 + length (f_payload f) + (if f_dic f then 2 else 0)"
  by (simp add: frame_bytes_def dic_bytes_def)

lemma read_dic: "big_endian_read_16 (xs @ dic_bytes d @ ys) (length xs) = Some (to32 d)"
proof -
  have "to16 (to8 d) OR push_bit 8 (to16 (to8 (drop_bit 8 d))) = d"
    by (rule bit_word_eqI) (auto simp: bit_or_iff bit_push_bit_iff bit_ucast_iff bit_drop_bit_eq)
  then show ?thesis by (simp add: big_endian_read_16_def dic_bytes_def rd_def nth_append)
qed

lemma to16_to32_word: "to16 (to32 (i :: u16)) = i"
  by (rule bit_word_eqI) (simp add: bit_ucast_iff)

lemma link_process_frame_eq:
  assumes ok: "frame_ok f" and buf: "buf = frame_bytes f @ junk"
  shows "link_process_frame ph buf (of_nat (length (frame_bytes f)) - 4) s = frame_action ph buf f s"
proof -
  have "length (frame_header f) = Suc (Suc (Suc (Suc 0)))" by simp
  then obtain h0 h1 h2 h3 where h: "frame_header f = [h0, h1, h2, h3]" unfolding length_Suc_conv by blast
  note hf = frame_header_fields [OF ok h]
  let ?n = "length (f_payload f)" and ?d = "dic_bytes (frame_crc (frame_header f) (f_payload f))"
  have n: "?n < 4096" using ok by (simp add: frame_ok_def)
  have b: "buf = [h0, h1, h2, h3] @ f_payload f @ (if f_dic f then ?d else []) @ junk"
    unfolding buf frame_bytes_def h by simp
  have rh: "rd_range buf 0 4 = Some [h0, h1, h2, h3]" by (simp add: rd_range_def b)
  have d4: "drop 4 buf = f_payload f @ (if f_dic f then ?d else []) @ junk" by (simp add: b)
  have len: "(of_nat (length (frame_bytes f)) - 4) - (if f_dic f then 2 else 0) = (of_nat ?n :: u16)" by (simp add: frame_bytes_length)
  have un: "unat (of_nat ?n :: u16) = ?n" by (rule unat_of_nat_u16) (use n in simp)
  have bcsp: "[h0, h1, h2, h3] \<noteq> [0x01, 0x7a, 0x06, 0x10]" using hf(7) by auto
  have dic: "big_endian_read_16 (drop 4 buf) ?n = Some (to32 (frame_crc (frame_header f) (f_payload f)))"
    "crc16_calc_for_slip_frame [h0, h1, h2, h3] (drop 4 buf) (of_nat ?n) = Some (frame_crc (frame_header f) (f_payload f))" if "f_dic f"
    using read_dic [of "f_payload f"] crc16_calc [of "[h0, h1, h2, h3]"] un that unfolding d4 h by simp_all
  have intact: "(if f_dic f then do {
                dic_packet \<leftarrow> big_endian_read_16 (drop 4 buf) ?n;
                dic_calculate \<leftarrow> crc16_calc_for_slip_frame [h0, h1, h2, h3] (drop 4 buf) (of_nat ?n);
                Some (to16 dic_packet = dic_calculate) }
              else Some True) = Some True"
    using dic by (simp add: to16_to32_word)
  have nths: "[h0, h1, h2, h3] ! 0 = h0" "[h0, h1, h2, h3] ! 1 = h1" "[h0, h1, h2, h3] ! 2 = h2" "[h0, h1, h2, h3] ! 3 = h3"
    by simp_all
  show ?thesis
    unfolding link_process_frame_def Let_def rh Option.bind.bind_lunit nths hf len un intact frame_action_def
    using bcsp by (simp only: if_False simp_thms)
qed

lemma process_frame_eq:
  assumes "frame_ok f" and "dec_buffer (h5_decoder s) = frame_bytes f @ junk"
  shows "hci_transport_h5_process_frame ph (of_nat (length (frame_bytes f))) s = frame_action ph (dec_buffer (h5_decoder s)) f s"
proof -
  have "length (f_payload f) < 4096" using assms(1) by (simp add: frame_ok_def)
  then have "unat (of_nat (length (frame_bytes f)) :: u16) = length (frame_bytes f)" by (intro unat_of_nat_u16) (simp add: frame_bytes_length)
  then have "\<not> (of_nat (length (frame_bytes f)) :: u16) < 4" by (simp add: word_less_nat_alt frame_bytes_length)
  then show ?thesis unfolding hci_transport_h5_process_frame_def using link_process_frame_eq [OF assms] by simp
qed

section \<open>Receiving a frame\<close>

fun h5_receive :: "h5_handler \<Rightarrow> buffer \<Rightarrow> h5 \<Rightarrow> h5 option" where
  "h5_receive ph [] s = Some s"
| "h5_receive ph (b # bs) s = do { s \<leftarrow> hci_transport_h5_block_received ph False b s; h5_receive ph bs s }"

lemma h5_receive_append: "h5_receive ph (xs @ ys) s = do { s \<leftarrow> h5_receive ph xs s; h5_receive ph ys s }"
proof (induction xs arbitrary: s)
  case Nil
  then show ?case by simp
next
  case (Cons a xs)
  then show ?case by (cases "hci_transport_h5_block_received ph False a s") simp_all
qed

lemma store_byte_state: "btstack_slip_decoder_store_byte d b = Some d' \<Longrightarrow> dec_state d \<noteq> SLIP_DECODER_COMPLETE \<Longrightarrow> dec_state d' \<noteq> SLIP_DECODER_COMPLETE"
  by (auto simp: btstack_slip_decoder_store_byte_def btstack_slip_decoder_reset_def Let_def bind_eq_Some_conv split: if_splits)

lemma process_not_complete:
  assumes "btstack_slip_decoder_process d b = Some d'" and "b \<noteq> BTSTACK_SLIP_SOF" and "dec_state d \<noteq> SLIP_DECODER_COMPLETE"
  shows "dec_state d' \<noteq> SLIP_DECODER_COMPLETE"
  using assms store_byte_state [of d b d']
  by (auto simp: btstack_slip_decoder_process_def btstack_slip_decoder_reset_def bind_eq_Some_conv split: decoder_state.splits if_splits)

lemma receive_quiet:
  assumes "slip_decode (h5_decoder s) bs = Some d" and "BTSTACK_SLIP_SOF \<notin> set bs" and "dec_state (h5_decoder s) \<noteq> SLIP_DECODER_COMPLETE"
  shows "h5_receive ph bs s = Some (s\<lparr> h5_decoder := d, h5_trace := h5_trace s @ replicate (length bs) Receive_byte \<rparr>)"
  using assms
proof (induction bs arbitrary: s)
  case Nil
  then show ?case by simp
next
  case (Cons b bs)
  obtain d1 where d1: "btstack_slip_decoder_process (h5_decoder s) b = Some d1" "slip_decode d1 bs = Some d"
    using Cons.prems(1) by (auto simp: bind_eq_Some_conv)
  have n: "dec_state d1 \<noteq> SLIP_DECODER_COMPLETE" using process_not_complete [OF d1(1)] Cons.prems(2,3) by auto
  then have z: "btstack_slip_decoder_frame_size d1 = 0" by (simp add: btstack_slip_decoder_frame_size_def split: decoder_state.splits)
  let ?s = "trace Receive_byte (s\<lparr> h5_decoder := d1 \<rparr>)"
  have "hci_transport_h5_block_received ph False b s = Some ?s"
    using d1(1) z by (simp add: hci_transport_h5_block_received_def hci_transport_h5_read_next_byte_def)
  moreover have "h5_receive ph bs ?s = Some (?s\<lparr> h5_decoder := d, h5_trace := h5_trace ?s @ replicate (length bs) Receive_byte \<rparr>)"
    by (rule Cons.IH) (use d1(2) n Cons.prems(2) in \<open>simp_all add: trace_def\<close>)
  ultimately show ?case by (simp add: trace_def)
qed

lemma slip_escape_no_sof: "BTSTACK_SLIP_SOF \<notin> set (concat (map slip_escape xs))"
  by (auto simp: slip_escape_def BTSTACK_SLIP_SOF_def split: if_splits)

definition decoder_fresh :: "h5 \<Rightarrow> bool" where
  "decoder_fresh s \<longleftrightarrow> h5_decoder s = btstack_slip_decoder_init (dec_buffer (h5_decoder s)) (of_nat (length (dec_buffer (h5_decoder s))))
     \<and> length (dec_buffer (h5_decoder s)) < 65536"

lemma receive_frame:
  assumes "decoder_fresh s" and "f \<noteq> []" and "length f \<le> length (dec_buffer (h5_decoder s))"
  shows "\<exists>d junk ts. dec_buffer d = f @ junk \<and> length (dec_buffer d) = length (dec_buffer (h5_decoder s)) \<and> set ts \<subseteq> {Receive_byte}
    \<and> h5_receive ph (slip_frame f) s = (if uart_baudrate s = 0 then None else do {
        s \<leftarrow> hci_transport_h5_process_frame ph (of_nat (length f)) (s\<lparr> h5_decoder := d, h5_trace := h5_trace s @ ts \<rparr>);
        Some (hci_transport_h5_read_next_byte (hci_transport_slip_init s)) })"
proof -
  let ?buf = "dec_buffer (h5_decoder s)"
  have lb: "length ?buf < 65536" using assms(1) by (simp add: decoder_fresh_def)
  have um: "unat (of_nat (length ?buf) :: u16) = length ?buf" by (rule unat_of_nat_u16 [OF lb])
  have d0: "h5_decoder s = btstack_slip_decoder_init ?buf (of_nat (length ?buf))" using assms(1) by (simp add: decoder_fresh_def)
  define d1 where "d1 = (h5_decoder s)\<lparr> dec_state := SLIP_DECODER_X_C0 \<rparr>"
  have p1: "btstack_slip_decoder_process (h5_decoder s) BTSTACK_SLIP_SOF = Some d1"
    unfolding d1_def by (subst (1 2) d0) (simp add: btstack_slip_decoder_process_def btstack_slip_decoder_init_def btstack_slip_decoder_reset_def)
  have i: "btstack_slip_decoder_init b n = d \<Longrightarrow> dec_pos d = 0 \<and> dec_max_size d = n \<and> dec_buffer d = b" for b n d
    by (auto simp: btstack_slip_decoder_init_def btstack_slip_decoder_reset_def)
  have f1: "dec_pos d1 = 0" "dec_max_size d1 = of_nat (length ?buf)" "dec_buffer d1 = ?buf" "dec_state d1 = SLIP_DECODER_X_C0"
    using i [OF d0 [symmetric]] unfolding d1_def by simp_all
  obtain d2 where d2: "slip_decode d1 (concat (map slip_escape f)) = Some d2" "dec_state d2 = SLIP_DECODER_ACTIVE"
    "unat (dec_pos d2) = length f" "length (dec_buffer d2) = length ?buf" "take (length f) (dec_buffer d2) = f"
    using slip_decode_payload [of d1 f] assms(2,3) um f1 by auto
  have pos: "dec_pos d2 = of_nat (length f)" "dec_pos d2 \<noteq> 0"
    using d2(3) assms(2,3) lb by (auto simp: word_unat_eq_iff unat_of_nat_u16)
  define d3 where "d3 = d2\<lparr> dec_state := SLIP_DECODER_COMPLETE \<rparr>"
  have p3: "btstack_slip_decoder_process d2 BTSTACK_SLIP_SOF = Some d3" "btstack_slip_decoder_frame_size d3 = of_nat (length f)"
    using d2(2) pos by (simp_all add: btstack_slip_decoder_process_def btstack_slip_decoder_frame_size_def d3_def)
  let ?s1 = "trace Receive_byte (s\<lparr> h5_decoder := d1 \<rparr>)"
  let ?n = "length (concat (map slip_escape f))"
  let ?s2 = "?s1\<lparr> h5_decoder := d2, h5_trace := h5_trace ?s1 @ replicate ?n Receive_byte \<rparr>"
  have b1: "hci_transport_h5_block_received ph False BTSTACK_SLIP_SOF s = Some ?s1"
    using p1 f1(4) by (simp add: hci_transport_h5_block_received_def hci_transport_h5_read_next_byte_def btstack_slip_decoder_frame_size_def)
  have b2: "h5_receive ph (concat (map slip_escape f)) ?s1 = Some ?s2"
    by (rule receive_quiet) (use d2(1) f1(4) slip_escape_no_sof in \<open>simp_all add: trace_def\<close>)
  have "f = take (length f) (dec_buffer d3)" using d2(5) by (simp add: d3_def)
  then have "dec_buffer d3 = f @ drop (length f) (dec_buffer d3)" by (metis append_take_drop_id)
  moreover have e: "?s2\<lparr> h5_decoder := d3 \<rparr> = s\<lparr> h5_decoder := d3, h5_trace := h5_trace s @ replicate (1 + ?n) Receive_byte \<rparr>"
    by (rule h5.equality) (simp_all add: trace_def)
  have "hci_transport_h5_block_received ph False BTSTACK_SLIP_SOF ?s2 = (if uart_baudrate s = 0 then None else do {
        s \<leftarrow> hci_transport_h5_process_frame ph (of_nat (length f)) (s\<lparr> h5_decoder := d3, h5_trace := h5_trace s @ replicate (1 + ?n) Receive_byte \<rparr>);
        Some (hci_transport_h5_read_next_byte (hci_transport_slip_init s)) })"
    unfolding e [symmetric] using p3 pos by (simp add: hci_transport_h5_block_received_def trace_def Option.bind_assoc)
  then have "h5_receive ph (slip_frame f) s = (if uart_baudrate s = 0 then None else do {
        s \<leftarrow> hci_transport_h5_process_frame ph (of_nat (length f)) (s\<lparr> h5_decoder := d3, h5_trace := h5_trace s @ replicate (1 + ?n) Receive_byte \<rparr>);
        Some (hci_transport_h5_read_next_byte (hci_transport_slip_init s)) })"
    using b1 b2 by (simp add: slip_frame_def h5_receive_append)
  moreover have "length (dec_buffer d3) = length ?buf" by (simp add: d3_def d2(4))
  ultimately show ?thesis
    by (intro exI [of _ d3] exI [of _ "drop (length f) (dec_buffer d3)"] exI [of _ "replicate (1 + ?n) Receive_byte"]) auto
qed

end
