(* ===== verification/H5_Steps.thy ===== *)
theory H5_Steps
  imports H5_Frame
begin

text \<open>
  What one step of an end of the link does, whichever entry of \<open>H5_Link\<close> it is: which packets it accepts and passes on, which
  frames it sends, how its two numbers move (\<open>h5_moves\<close> for a step that learns nothing from the other end, \<open>h5_step\<close> for one that does),
  and that it keeps \<open>h5_wf\<close>.  All that is asked of the upper layer is that it does nothing to the transport but send packets.
\<close>

section \<open>What an end of the link has done\<close>

fun accept_of :: "h5_event \<Rightarrow> (u8 \<times> buffer) list" where
  "accept_of (Accept t p) = [(t, p)]"
| "accept_of _ = []"

fun deliver_of :: "h5_event \<Rightarrow> (u8 \<times> buffer) list" where
  "deliver_of (Deliver t p) = [(t, p)]"
| "deliver_of _ = []"

definition accepted :: "h5 \<Rightarrow> (u8 \<times> buffer) list" where
  "accepted s = concat (map accept_of (h5_trace s))"

definition delivered :: "h5 \<Rightarrow> (u8 \<times> buffer) list" where
  "delivered s = concat (map deliver_of (h5_trace s))"

definition pending :: "h5 \<Rightarrow> (u8 \<times> buffer) option" where
  "pending s = map_option (\<lambda>p. (hci_packet_type s, p)) (hci_packet s)"

definition seq_of :: "h5 \<Rightarrow> u8" where "seq_of s = (if link_state s = LINK_ACTIVE then link_seq_nr s else 0)"
definition ack_of :: "h5 \<Rightarrow> u8" where "ack_of s = (if link_state s = LINK_ACTIVE then link_ack_nr s else 0)"

text \<open>The bytes sent and those of the frame under way.\<close>

definition h5_out :: "h5 \<Rightarrow> buffer" where "h5_out s = sent_bytes s @ h5_outgoing s"

definition wire :: "h5_frame \<Rightarrow> buffer" where "wire f = slip_frame (frame_bytes f)"

definition packet_ok :: "u8 \<Rightarrow> buffer \<Rightarrow> bool" where
  "packet_ok t p \<longleftrightarrow> 0 < t \<and> t \<le> 4 \<and> p \<noteq> [] \<and> length p < 4096"

definition h5_wf :: "h5 \<Rightarrow> bool" where
  "h5_wf s \<longleftrightarrow> out_ok s \<and> (slip_write_active s \<or> h5_outgoing s = []) \<and> link_seq_nr s < 8 \<and> link_ack_nr s < 8
     \<and> link_peer_supports_data_integrity_check s \<in> {0, 1}
     \<and> (has_action HCI_TRANSPORT_LINK_SEND_QUEUED_PACKET s \<longrightarrow> hci_packet_size s \<noteq> 0)
     \<and> (case hci_packet s of None \<Rightarrow> True | Some p \<Rightarrow> packet_ok (hci_packet_type s) p \<and> hci_packet_size s = of_nat (length p))
     \<and> (link_state s \<noteq> LINK_ACTIVE \<longrightarrow> hci_packet s = None \<and> \<not> has_action HCI_TRANSPORT_LINK_SEND_QUEUED_PACKET s
          \<and> \<not> has_action HCI_TRANSPORT_LINK_SEND_ACK_PACKET s)"

text \<open>The frames an end sends in a state: control messages, acknowledgements and the pending packet.\<close>

definition frame_for :: "h5 \<Rightarrow> h5_frame \<Rightarrow> bool" where
  "frame_for s f \<longleftrightarrow> frame_ok f \<and>
     (\<not> f_reliable f \<and> f_type f = LINK_CONTROL_PACKET_TYPE
      \<or> \<not> f_reliable f \<and> f_type f = LINK_ACKNOWLEDGEMENT_TYPE \<and> f_ack f = ack_of s
      \<or> f_reliable f \<and> f_seq f = seq_of s \<and> f_ack f = ack_of s \<and> pending s = Some (f_type f, f_payload f) \<and> 0 < f_type f \<and> f_type f \<le> 4)"

text \<open>A step that acknowledges nothing and accepts at most one packet, if none is pending.\<close>

definition h5_moves :: "h5 \<Rightarrow> h5_frame list \<Rightarrow> h5 \<Rightarrow> bool" where
  "h5_moves s fs s' \<longleftrightarrow> h5_wf s' \<and> seq_of s' = seq_of s \<and> ack_of s' = ack_of s
     \<and> (accepted s' = accepted s \<and> pending s' = pending s
        \<or> (\<exists>p. accepted s' = accepted s @ [p] \<and> pending s = None \<and> pending s' = Some p))
     \<and> delivered s' = delivered s
     \<and> link_state s' = link_state s \<and> h5_decoder s' = h5_decoder s
     \<and> h5_out s' = h5_out s @ concat (map wire fs)
     \<and> (slip_write_active s \<longrightarrow> slip_write_active s')
     \<and> (fs = [] \<or> (\<exists>f. fs = [f] \<and> frame_for s' f \<and> \<not> slip_write_active s \<and> slip_write_active s'))"

lemma h5_moves_refl: "h5_wf s \<Longrightarrow> h5_moves s [] s"
  by (simp add: h5_moves_def)

lemma frame_for_later:
  assumes "frame_for s f" and "seq_of s' = seq_of s" and "ack_of s' = ack_of s" and "pending s \<noteq> None \<Longrightarrow> pending s' = pending s"
  shows "frame_for s' f"
  using assms by (auto simp: frame_for_def)

lemma h5_moves_trans:
  assumes "h5_moves s fs s1" and "h5_moves s1 gs s2"
  shows "h5_moves s (fs @ gs) s2"
proof -
  have e: "seq_of s1 = seq_of s" "ack_of s1 = ack_of s" "seq_of s2 = seq_of s1" "ack_of s2 = ack_of s1"
    using assms by (simp_all add: h5_moves_def)
  have p: "pending s1 \<noteq> None \<Longrightarrow> pending s2 = pending s1" using assms(2) by (auto simp: h5_moves_def)
  have "accepted s2 = accepted s \<and> pending s2 = pending s
        \<or> (\<exists>p. accepted s2 = accepted s @ [p] \<and> pending s = None \<and> pending s2 = Some p)"
    using assms unfolding h5_moves_def by auto
  moreover have "fs @ gs = [] \<or> (\<exists>f. fs @ gs = [f] \<and> frame_for s2 f \<and> \<not> slip_write_active s \<and> slip_write_active s2)"
  proof (cases "fs = []")
    case True
    then show ?thesis using assms unfolding h5_moves_def by auto
  next
    case False
    then obtain f where f: "fs = [f]" "frame_for s1 f" "\<not> slip_write_active s" "slip_write_active s1"
      using assms(1) unfolding h5_moves_def by auto
    then have "gs = []" "slip_write_active s2" using assms(2) unfolding h5_moves_def by auto
    moreover have "frame_for s2 f" by (rule frame_for_later [OF f(2) e(3,4) p])
    ultimately show ?thesis using f by simp
  qed
  ultimately show ?thesis using assms unfolding h5_moves_def by auto
qed

section \<open>Actions\<close>

lemma has_clear: "has_action a (clear_action b s) \<Longrightarrow> has_action a s"
proof -
  have "(x AND NOT b) AND a = (x AND a) AND NOT b" for x :: u32 by (simp add: ac_simps)
  then show "has_action a (clear_action b s) \<Longrightarrow> has_action a s" by (auto simp: has_action_def clear_action_def)
qed

lemma has_clear_same [simp]: "\<not> has_action a (clear_action a s)"
  by (simp add: has_action_def clear_action_def and.assoc)

lemma has_add: "has_action a (add_action b s) \<longleftrightarrow> has_action a s \<or> b AND a \<noteq> 0"
  by (auto simp: has_action_def add_action_def bit.conj_disj_distrib2 or_eq_0_iff)

lemma clear_action_simps [simp]:
  "link_state (clear_action a s) = link_state s" "link_seq_nr (clear_action a s) = link_seq_nr s" "link_ack_nr (clear_action a s) = link_ack_nr s"
  "h5_decoder (clear_action a s) = h5_decoder s" "h5_encoder (clear_action a s) = h5_encoder s" "slip_outgoing_buffer (clear_action a s) = slip_outgoing_buffer s"
  "slip_outgoing_dic (clear_action a s) = slip_outgoing_dic s" "slip_outgoing_dic_present (clear_action a s) = slip_outgoing_dic_present s"
  "hci_packet (clear_action a s) = hci_packet s" "hci_packet_type (clear_action a s) = hci_packet_type s" "hci_packet_size (clear_action a s) = hci_packet_size s"
  "h5_trace (clear_action a s) = h5_trace s" "slip_write_active (clear_action a s) = slip_write_active s"
  "link_peer_supports_data_integrity_check (clear_action a s) = link_peer_supports_data_integrity_check s"
  by (simp_all add: clear_action_def)

lemma add_action_simps [simp]:
  "link_state (add_action a s) = link_state s" "link_seq_nr (add_action a s) = link_seq_nr s" "link_ack_nr (add_action a s) = link_ack_nr s"
  "h5_decoder (add_action a s) = h5_decoder s" "h5_encoder (add_action a s) = h5_encoder s" "slip_outgoing_buffer (add_action a s) = slip_outgoing_buffer s"
  "slip_outgoing_dic (add_action a s) = slip_outgoing_dic s" "slip_outgoing_dic_present (add_action a s) = slip_outgoing_dic_present s"
  "hci_packet (add_action a s) = hci_packet s" "hci_packet_type (add_action a s) = hci_packet_type s" "hci_packet_size (add_action a s) = hci_packet_size s"
  "h5_trace (add_action a s) = h5_trace s" "slip_write_active (add_action a s) = slip_write_active s"
  "link_peer_supports_data_integrity_check (add_action a s) = link_peer_supports_data_integrity_check s"
  by (simp_all add: add_action_def)

text \<open>A change that does not concern packets, numbers or output.\<close>

definition same_link :: "h5 \<Rightarrow> h5 \<Rightarrow> bool" where
  "same_link s s' \<longleftrightarrow> link_state s' = link_state s \<and> link_seq_nr s' = link_seq_nr s \<and> link_ack_nr s' = link_ack_nr s
     \<and> hci_packet s' = hci_packet s \<and> hci_packet_type s' = hci_packet_type s \<and> hci_packet_size s' = hci_packet_size s
     \<and> h5_encoder s' = h5_encoder s \<and> slip_outgoing_buffer s' = slip_outgoing_buffer s \<and> slip_outgoing_dic s' = slip_outgoing_dic s
     \<and> slip_outgoing_dic_present s' = slip_outgoing_dic_present s \<and> slip_write_active s' = slip_write_active s
     \<and> accepted s' = accepted s \<and> delivered s' = delivered s \<and> sent_bytes s' = sent_bytes s
     \<and> link_peer_supports_data_integrity_check s' = link_peer_supports_data_integrity_check s
     \<and> h5_decoder s' = h5_decoder s
     \<and> (has_action HCI_TRANSPORT_LINK_SEND_QUEUED_PACKET s' \<longrightarrow>
          has_action HCI_TRANSPORT_LINK_SEND_QUEUED_PACKET s \<or> link_state s = LINK_ACTIVE \<and> hci_packet s \<noteq> None)
     \<and> (has_action HCI_TRANSPORT_LINK_SEND_ACK_PACKET s' \<longrightarrow> has_action HCI_TRANSPORT_LINK_SEND_ACK_PACKET s \<or> link_state s = LINK_ACTIVE)"

lemma same_link_refl: "same_link s s"
  by (simp add: same_link_def)

lemma same_link_trans: "same_link s s1 \<Longrightarrow> same_link s1 s2 \<Longrightarrow> same_link s s2"
  unfolding same_link_def by (elim conjE, intro conjI) (simp_all, blast+)

lemma same_link_views:
  assumes "same_link s s'"
  shows "seq_of s' = seq_of s" "ack_of s' = ack_of s" "accepted s' = accepted s" "pending s' = pending s" "delivered s' = delivered s"
    "h5_out s' = h5_out s" "h5_outgoing s' = h5_outgoing s" "slip_write_active s' = slip_write_active s" "link_state s' = link_state s"
    "out_ok s' = out_ok s" "h5_decoder s' = h5_decoder s"
  using assms by (simp_all add: same_link_def seq_of_def ack_of_def pending_def h5_out_def h5_outgoing_def frame_end_def out_ok_def)

lemma packet_size_not_0:
  assumes "packet_ok t p"
  shows "(of_nat (length p) :: u16) \<noteq> 0"
proof -
  have "unat (of_nat (length p) :: u16) = length p" by (rule unat_of_nat_u16) (use assms in \<open>simp add: packet_ok_def\<close>)
  then show ?thesis using assms by (auto simp: packet_ok_def)
qed

lemma same_link_moves:
  assumes "h5_wf s" and "same_link s s'"
  shows "h5_moves s [] s'"
proof -
  note v = same_link_views [OF assms(2)]
  have e: "link_seq_nr s' = link_seq_nr s" "link_ack_nr s' = link_ack_nr s" "hci_packet s' = hci_packet s" "hci_packet_type s' = hci_packet_type s"
    "hci_packet_size s' = hci_packet_size s" "link_peer_supports_data_integrity_check s' = link_peer_supports_data_integrity_check s"
    using assms(2) unfolding same_link_def by blast+
  have q: "has_action HCI_TRANSPORT_LINK_SEND_QUEUED_PACKET s' \<Longrightarrow>
      has_action HCI_TRANSPORT_LINK_SEND_QUEUED_PACKET s \<or> link_state s = LINK_ACTIVE \<and> hci_packet s \<noteq> None"
    "has_action HCI_TRANSPORT_LINK_SEND_ACK_PACKET s' \<Longrightarrow> has_action HCI_TRANSPORT_LINK_SEND_ACK_PACKET s \<or> link_state s = LINK_ACTIVE"
    using assms(2) unfolding same_link_def by blast+
  have z: "hci_packet_size s \<noteq> 0" if "hci_packet s \<noteq> None"
    using that assms(1) packet_size_not_0 by (auto simp: h5_wf_def)
  have "h5_wf s'" using assms(1) q z unfolding h5_wf_def v e by blast
  then show ?thesis by (simp add: h5_moves_def v)
qed

section \<open>Sending\<close>

lemma sends_block_views:
  assumes "sends_block s b s'"
  shows "accepted s' = accepted s" "delivered s' = delivered s" "pending s' = pending s" "seq_of s' = seq_of s" "ack_of s' = ack_of s"
    "sent_bytes s' = sent_bytes s @ b" "has_action a s' = has_action a s"
  using sends_block_simps [OF assms]
  by (simp_all add: accepted_def delivered_def pending_def seq_of_def ack_of_def sent_bytes_def has_action_def)

lemma frame_header_dic:
  assumes "frame_ok f"
  shows "frame_header f ! 0 AND 0x40 = 0 \<longleftrightarrow> \<not> f_dic f"
proof -
  have "length (frame_header f) = Suc (Suc (Suc (Suc 0)))" by simp
  then obtain h0 h1 h2 h3 where h: "frame_header f = [h0, h1, h2, h3]" unfolding length_Suc_conv by blast
  show ?thesis using frame_header_fields(3) [OF assms h] by (auto simp: h)
qed

lemma send_frame_wire:
  assumes wf: "h5_wf s" and idle: "\<not> slip_write_active s" and ok: "frame_ok f" and p: "packet = f_payload f"
    and dic: "f_dic f \<Longrightarrow> dic = frame_crc (frame_header f) (f_payload f)"
    and f: "\<And>s'. seq_of s' = seq_of s \<Longrightarrow> ack_of s' = ack_of s \<Longrightarrow> pending s' = pending s \<Longrightarrow> frame_for s' f"
  shows "\<exists>s'. hci_transport_slip_send_frame (frame_header f) packet (of_nat (length (f_payload f))) dic s = Some s' \<and> h5_moves s [f] s'"
proof -
  have l: "length (f_payload f) < 4096" using ok by (simp add: frame_ok_def)
  have u: "unat (of_nat (length (f_payload f)) :: u16) = length (f_payload f)" by (rule unat_of_nat_u16) (use l in simp)
  obtain b s' where b: "hci_transport_slip_send_frame (frame_header f) packet (of_nat (length (f_payload f))) dic s = Some s'"
    "sends_block s b s'" "out_ok s'" "b @ h5_outgoing s' = slip_frame (frame_header f @ take (unat (of_nat (length (f_payload f)) :: u16)) packet
      @ (if frame_header f ! 0 AND 0x40 = 0 then [] else dic_bytes dic))"
    using send_frame [of s "frame_header f" "of_nat (length (f_payload f))" packet dic] wf u p unfolding h5_wf_def by auto
  note v = sends_block_views [OF b(2)] and w = sends_block_simps [OF b(2)]
  have "b @ h5_outgoing s' = wire f"
    using b(4) dic by (auto simp: u p frame_header_dic [OF ok] wire_def frame_bytes_def)
  moreover have "h5_outgoing s = []" using wf idle by (simp add: h5_wf_def)
  ultimately have out: "h5_out s' = h5_out s @ wire f" by (simp add: h5_out_def v(6))
  have "h5_wf s'" using wf b(3) unfolding h5_wf_def w(1-12) v by (simp add: w(13))
  then have "h5_moves s [f] s'" using out idle f [OF v(4,5,3)] w(13) by (simp add: h5_moves_def v w(1,12))
  then show ?thesis using b(1) by blast
qed

definition control_frame :: "bool \<Rightarrow> buffer \<Rightarrow> h5_frame" where
  "control_frame dic m = \<lparr> f_reliable = False, f_seq = 0, f_ack = 0, f_dic = dic, f_type = LINK_CONTROL_PACKET_TYPE, f_payload = m \<rparr>"

lemma dic_flag:
  assumes "x \<in> {0, 1 :: u8}"
  shows "(if x \<noteq> 0 then 1 else 0) = x"
  using assms by auto

lemma send_control_moves:
  assumes "h5_wf s" and "\<not> slip_write_active s" and "length m < 4096" and "n = of_nat (length m)"
  shows "\<exists>f s'. hci_transport_link_send_control m n s = Some s' \<and> h5_moves s [f] s'"
proof -
  let ?f = "control_frame (link_peer_supports_data_integrity_check s \<noteq> 0) m"
  have ok: "frame_ok ?f" using assms(3) by (simp add: frame_ok_def control_frame_def)
  have u: "unat n = length m" unfolding assms(4) by (rule unat_of_nat_u16) (use assms(3) in simp)
  have h: "hci_transport_link_calc_header 0 0 (link_peer_supports_data_integrity_check s) 0 LINK_CONTROL_PACKET_TYPE n = frame_header ?f"
    using assms(1,4) by (auto simp: frame_header_def control_frame_def h5_wf_def)
  have c: "crc16_calc_for_slip_frame (frame_header ?f) m n = Some (frame_crc (frame_header ?f) m)"
    using crc16_calc [of "frame_header ?f" n m] u by simp
  let ?dic = "if link_peer_supports_data_integrity_check s \<noteq> 0 then frame_crc (frame_header ?f) m else 0"
  have p: "f_payload ?f = m" "f_dic ?f \<longleftrightarrow> link_peer_supports_data_integrity_check s \<noteq> 0" by (simp_all add: control_frame_def)
  obtain s' where "hci_transport_slip_send_frame (frame_header ?f) m (of_nat (length (f_payload ?f))) ?dic s = Some s'" "h5_moves s [?f] s'"
    using send_frame_wire [OF assms(1,2) ok, of m ?dic] p ok by (auto simp: frame_for_def control_frame_def)
  then show ?thesis using h c p assms(4) by (auto simp: hci_transport_link_send_control_def)
qed

lemma clear_same_link: "same_link s (clear_action a s)"
  unfolding same_link_def using has_clear by (auto simp: accepted_def delivered_def sent_bytes_def)

lemmas control_sends =
  hci_transport_link_send_sync_def hci_transport_link_send_sync_response_def hci_transport_link_send_config_def
  hci_transport_link_send_config_response_def hci_transport_link_send_config_response_empty_def hci_transport_link_send_woken_def
  hci_transport_link_send_wakeup_def hci_transport_link_send_sleep_def

lemmas control_messages =
  link_control_sync_def link_control_sync_response_def link_control_config_def link_control_config_response_def
  link_control_config_response_empty_def link_control_woken_def link_control_wakeup_def link_control_sleep_def

lemma control_moves:
  assumes "h5_wf s" and "\<not> slip_write_active s" and "same_link s s1"
  shows "hci_transport_link_send_sync s1 = Some s' \<Longrightarrow> \<exists>fs. h5_moves s fs s'"
    "hci_transport_link_send_sync_response s1 = Some s' \<Longrightarrow> \<exists>fs. h5_moves s fs s'"
    "hci_transport_link_send_config s1 = Some s' \<Longrightarrow> \<exists>fs. h5_moves s fs s'"
    "hci_transport_link_send_config_response s1 = Some s' \<Longrightarrow> \<exists>fs. h5_moves s fs s'"
    "hci_transport_link_send_config_response_empty s1 = Some s' \<Longrightarrow> \<exists>fs. h5_moves s fs s'"
    "hci_transport_link_send_woken s1 = Some s' \<Longrightarrow> \<exists>fs. h5_moves s fs s'"
    "hci_transport_link_send_wakeup s1 = Some s' \<Longrightarrow> \<exists>fs. h5_moves s fs s'"
    "hci_transport_link_send_sleep s1 = Some s' \<Longrightarrow> \<exists>fs. h5_moves s fs s'"
proof -
  have m: "h5_moves s [] s1" by (rule same_link_moves [OF assms(1,3)])
  have w: "h5_wf s1" "\<not> slip_write_active s1" using m assms(2) same_link_views(8) [OF assms(3)] by (simp_all add: h5_moves_def)
  have *: "\<exists>fs. h5_moves s fs s'" if "hci_transport_link_send_control m n s1 = Some s'" "length m < 4096" "n = of_nat (length m)" for m n
    using send_control_moves [OF w that(2,3)] that(1) h5_moves_trans [OF m] by fastforce
  show "hci_transport_link_send_sync s1 = Some s' \<Longrightarrow> \<exists>fs. h5_moves s fs s'"
    "hci_transport_link_send_sync_response s1 = Some s' \<Longrightarrow> \<exists>fs. h5_moves s fs s'"
    "hci_transport_link_send_config s1 = Some s' \<Longrightarrow> \<exists>fs. h5_moves s fs s'"
    "hci_transport_link_send_config_response s1 = Some s' \<Longrightarrow> \<exists>fs. h5_moves s fs s'"
    "hci_transport_link_send_config_response_empty s1 = Some s' \<Longrightarrow> \<exists>fs. h5_moves s fs s'"
    "hci_transport_link_send_woken s1 = Some s' \<Longrightarrow> \<exists>fs. h5_moves s fs s'"
    "hci_transport_link_send_wakeup s1 = Some s' \<Longrightarrow> \<exists>fs. h5_moves s fs s'"
    "hci_transport_link_send_sleep s1 = Some s' \<Longrightarrow> \<exists>fs. h5_moves s fs s'"
    unfolding control_sends by (erule *; simp add: control_messages)+
qed

lemma inactivity_timer_same_link: "same_link s (hci_transport_inactivity_timer_set s)"
  by (simp add: same_link_def hci_transport_inactivity_timer_set_def accepted_def delivered_def sent_bytes_def has_action_def)

lemma send_null_frame:
  assumes "out_ok s" and "length header = 4" and "sz \<noteq> 0"
  shows "hci_transport_slip_send_frame header [] sz dic s = None"
proof -
  let ?buf = "slip_outgoing_buffer s" and ?eh = "btstack_slip_encoder_start header 4"
  have lb: "length ?buf = 1042" using assms(1) by (simp add: out_ok_def)
  have w: "wr ?buf 0 BTSTACK_SLIP_SOF = Some (?buf[0 := BTSTACK_SLIP_SOF])" using lb by (simp add: wr_def)
  have eh: "enc_ok ?eh" "enc_rest ?eh = concat (map slip_escape header)" using assms(2) by (simp_all add: enc_ok_start enc_rest_start)
  have lh: "length (concat (map slip_escape header)) \<le> 8" using concat_slip_escape_length [of header] assms(2) by simp
  obtain e' buf where f: "slip_fill ?eh (?buf[0 := BTSTACK_SLIP_SOF]) 1 = Some (e', buf, 1 + length (concat (map slip_escape header)))"
    using slip_fill_eq [OF eh(1), of 1 "?buf[0 := BTSTACK_SLIP_SOF]"] lh lb by (auto simp: eh(2))
  have "slip_fill_chunk (btstack_slip_encoder_start [] sz) b pos = None" if "pos < LINK_SLIP_TX_CHUNK_LEN" for b pos
    using that assms(3) by (subst slip_fill_chunk.simps)
      (simp add: btstack_slip_encoder_start_def btstack_slip_encoder_has_data_def btstack_slip_encoder_get_byte_def rd_def word_gt_0)
  moreover have "1 + length (concat (map slip_escape header)) < LINK_SLIP_TX_CHUNK_LEN" using lh by simp
  moreover have "rd header 0 = Some (header ! 0)" using assms(2) by (simp add: rd_def)
  ultimately show ?thesis
    using w f by (simp add: hci_transport_slip_send_frame_def hci_transport_slip_encode_chunk_and_send_def)
qed

text \<open>A packet that was cleared while it waited to be sent again: the null pointer is read.\<close>

lemma send_cleared_packet:
  assumes "out_ok s" and "hci_packet s = None" and "hci_packet_size s \<noteq> 0"
  shows "hci_transport_link_send_queued_packet s = None"
proof -
  have "length (hci_transport_link_calc_header a b c d e n) = 4" for a b c d e n
    by (simp add: hci_transport_link_calc_header_def Let_def)
  then show ?thesis using send_null_frame [OF assms(1) _ assms(3)] assms(2)
    by (simp add: hci_transport_link_send_queued_packet_def split: Option.bind_split)
qed

lemma queued_packet_moves:
  assumes "h5_wf s" and "\<not> slip_write_active s" and "link_state s = LINK_ACTIVE" and "hci_packet_size s \<noteq> 0"
    and "hci_transport_link_send_queued_packet s = Some s'"
  shows "\<exists>f. h5_moves s [f] s'"
proof (cases "hci_packet s")
  case None
  then show ?thesis using send_cleared_packet [of s] assms(1,4,5) by (simp add: h5_wf_def)
next
  case (Some p)
  let ?d = "link_peer_supports_data_integrity_check s"
  define f where "f = \<lparr> f_reliable = True, f_seq = link_seq_nr s, f_ack = link_ack_nr s, f_dic = (?d \<noteq> 0), f_type = hci_packet_type s, f_payload = p \<rparr>"
  have pk: "packet_ok (hci_packet_type s) p" "hci_packet_size s = of_nat (length p)" using assms(1) Some by (simp_all add: h5_wf_def)
  have t: "hci_packet_type s < 16" using pk(1) unfolding packet_ok_def by (auto intro: order_le_less_trans)
  have ok: "frame_ok f" using assms(1) pk(1) t by (simp add: frame_ok_def f_def h5_wf_def packet_ok_def)
  have l: "length p < 4096" using pk(1) by (simp add: packet_ok_def)
  have u: "unat (hci_packet_size s) = length p" unfolding pk(2) by (rule unat_of_nat_u16) (use l in simp)
  have h: "hci_transport_link_calc_header (link_seq_nr s) (link_ack_nr s) ?d 1 (hci_packet_type s) (hci_packet_size s) = frame_header f"
    using assms(1) pk(2) by (auto simp: frame_header_def f_def h5_wf_def)
  have c: "crc16_calc_for_slip_frame (frame_header f) p (hci_packet_size s) = Some (frame_crc (frame_header f) p)"
    using crc16_calc [of "frame_header f" "hci_packet_size s" p] u by simp
  let ?dic = "if ?d \<noteq> 0 then frame_crc (frame_header f) p else 0"
  have fp: "f_payload f = p" "f_dic f \<longleftrightarrow> ?d \<noteq> 0" by (simp_all add: f_def)
  have ff: "frame_for s1 f" if "seq_of s1 = seq_of s" "ack_of s1 = ack_of s" "pending s1 = pending s" for s1
    using that ok pk(1) assms(3) Some by (simp add: frame_for_def f_def seq_of_def ack_of_def pending_def packet_ok_def)
  obtain s1 where s1: "hci_transport_slip_send_frame (frame_header f) p (of_nat (length (f_payload f))) ?dic s = Some s1" "h5_moves s [f] s1"
    using send_frame_wire [OF assms(1,2) ok, of p ?dic] fp ff by auto
  have "s' = hci_transport_inactivity_timer_set s1"
    using assms(5) s1(1) h c pk(2) fp Some by (auto simp: hci_transport_link_send_queued_packet_def)
  moreover have "h5_moves s1 [] (hci_transport_inactivity_timer_set s1)"
    by (rule same_link_moves [OF _ inactivity_timer_same_link]) (use s1(2) in \<open>simp add: h5_moves_def\<close>)
  ultimately show ?thesis using h5_moves_trans [OF s1(2)] by auto
qed

lemma ack_packet_moves:
  assumes "h5_wf s" and "\<not> slip_write_active s" and "link_state s = LINK_ACTIVE" and "hci_transport_link_send_ack_packet s = Some s'"
  shows "\<exists>f. h5_moves s [f] s'"
proof -
  define f where "f = \<lparr> f_reliable = False, f_seq = 0, f_ack = link_ack_nr s, f_dic = False, f_type = LINK_ACKNOWLEDGEMENT_TYPE, f_payload = [] \<rparr>"
  have ok: "frame_ok f" using assms(1) by (simp add: frame_ok_def f_def h5_wf_def)
  have h: "hci_transport_link_calc_header 0 (link_ack_nr s) 0 0 LINK_ACKNOWLEDGEMENT_TYPE 0 = frame_header f"
    by (simp add: frame_header_def f_def)
  have ff: "frame_for s1 f" if "ack_of s1 = ack_of s" for s1
    using that ok assms(3) by (simp add: frame_for_def f_def ack_of_def)
  obtain s1 where "hci_transport_slip_send_frame (frame_header f) [] (of_nat (length (f_payload f))) 0 s = Some s1" "h5_moves s [f] s1"
    using send_frame_wire [OF assms(1,2) ok, of "[]" 0] ff by (auto simp: f_def)
  then show ?thesis using assms(4) h by (auto simp: hci_transport_link_send_ack_packet_def f_def)
qed

lemma h5_moves_wf: "h5_moves s fs s' \<Longrightarrow> h5_wf s'"
  by (simp add: h5_moves_def)

lemma h5_moves_after_same_link:
  assumes "h5_wf s" and "same_link s s1" and "h5_wf s1 \<Longrightarrow> \<exists>fs. h5_moves s1 fs s'"
  shows "\<exists>fs. h5_moves s fs s'"
  using assms same_link_moves [OF assms(1,2)] h5_moves_trans h5_moves_wf by blast

lemma queued_active:
  assumes "h5_wf s" and "has_action HCI_TRANSPORT_LINK_SEND_QUEUED_PACKET s \<or> has_action HCI_TRANSPORT_LINK_SEND_ACK_PACKET s"
  shows "link_state s = LINK_ACTIVE"
  using assms unfolding h5_wf_def by blast

lemma link_run_moves:
  assumes "h5_wf s" and "hci_transport_link_run s = Some s'"
  shows "\<exists>fs. h5_moves s fs s'"
proof (cases "slip_write_active s")
  case True
  then have "s' = s" using assms(2) by (simp add: hci_transport_link_run_def)
  then show ?thesis using h5_moves_refl [OF assms(1)] by blast
next
  case False
  note cm = control_moves [OF assms(1) False clear_same_link]
  have q: "\<exists>fs. h5_moves s fs s'"
    if "hci_transport_link_send_queued_packet
          (clear_action HCI_TRANSPORT_LINK_SEND_ACK_PACKET (clear_action HCI_TRANSPORT_LINK_SEND_QUEUED_PACKET s)) = Some s'"
      and "has_action HCI_TRANSPORT_LINK_SEND_QUEUED_PACKET s"
  proof (rule h5_moves_after_same_link [OF assms(1) same_link_trans [OF clear_same_link clear_same_link]])
    let ?s = "clear_action HCI_TRANSPORT_LINK_SEND_ACK_PACKET (clear_action HCI_TRANSPORT_LINK_SEND_QUEUED_PACKET s)"
    assume "h5_wf ?s"
    moreover have "hci_packet_size ?s \<noteq> 0" using assms(1) that(2) by (simp add: h5_wf_def)
    ultimately show "\<exists>fs. h5_moves ?s fs s'"
      using queued_packet_moves [of ?s s'] that(1) False queued_active [OF assms(1)] that(2) by (simp, blast)
  qed
  have a: "\<exists>fs. h5_moves s fs s'"
    if "hci_transport_link_send_ack_packet (clear_action HCI_TRANSPORT_LINK_SEND_ACK_PACKET s) = Some s'"
      and "has_action HCI_TRANSPORT_LINK_SEND_ACK_PACKET s"
    by (rule h5_moves_after_same_link [OF assms(1) clear_same_link])
      (use ack_packet_moves [OF _ _ _ that(1)] False queued_active [OF assms(1)] that(2) in auto)
  have sl: "same_link s ((add_action HCI_TRANSPORT_LINK_ENTER_SLEEP (clear_action HCI_TRANSPORT_LINK_SEND_SLEEP s))\<lparr> link_peer_asleep := True \<rparr>)"
    using clear_same_link [of s HCI_TRANSPORT_LINK_SEND_SLEEP]
    unfolding same_link_def by (simp add: accepted_def delivered_def sent_bytes_def has_action_def add_action_def bit.conj_disj_distrib2)
  show ?thesis
    using assms(2) False cm q a control_moves(8) [OF assms(1) False sl] h5_moves_refl [OF assms(1)]
    unfolding hci_transport_link_run_def by (auto split: if_splits)
qed

section \<open>The steps of an end\<close>

text \<open>Whatever the upper layer does inside its packet handler, it does by sending a packet.\<close>

definition h5_handler_ok :: "h5_handler \<Rightarrow> bool" where
  "h5_handler_ok ph \<longleftrightarrow> (\<forall>t p s s'. h5_wf s \<longrightarrow> ph t p s = Some s' \<longrightarrow> (\<exists>fs. h5_moves s fs s'))"

lemma handler_moves: "h5_handler_ok ph \<Longrightarrow> ph t p s = Some s' \<Longrightarrow> h5_wf s \<Longrightarrow> \<exists>fs. h5_moves s fs s'"
  unfolding h5_handler_ok_def by blast

lemma event_same_link:
  assumes "accept_of e = []" and "deliver_of e = []" and "block_of e = []"
  shows "same_link s (trace e s)"
  using assms by (simp add: same_link_def trace_def accepted_def delivered_def sent_bytes_def has_action_def)

lemma fields_same_link:
  "same_link s (s\<lparr> link_timer := t \<rparr>)" "same_link s (s\<lparr> link_peer_asleep := b \<rparr>)" "same_link s (s\<lparr> last_sleep_state := b \<rparr>)"
  by (simp_all add: same_link_def accepted_def delivered_def sent_bytes_def has_action_def)

lemma add_same_link:
  assumes "a AND HCI_TRANSPORT_LINK_SEND_QUEUED_PACKET = 0 \<or> link_state s = LINK_ACTIVE \<and> hci_packet s \<noteq> None"
    and "a AND HCI_TRANSPORT_LINK_SEND_ACK_PACKET = 0 \<or> link_state s = LINK_ACTIVE"
  shows "same_link s (add_action a s)"
  using assms by (auto simp: same_link_def has_add accepted_def delivered_def sent_bytes_def)

lemma emit_moves:
  assumes "h5_handler_ok ph" and "h5_wf s" and "emit_event ph e s = Some s'"
  shows "\<exists>fs. h5_moves s fs s'"
  using assms(3) handler_moves [OF assms(1)] h5_moves_after_same_link [OF assms(2) event_same_link, of "Emit e" s']
  by (simp add: emit_event_def)

lemma emit_sleep_state_moves:
  assumes "h5_handler_ok ph" and "h5_wf s" and "hci_transport_h5_emit_sleep_state ph b s = Some s'"
  shows "\<exists>fs. h5_moves s fs s'"
proof (cases "b = last_sleep_state s")
  case True
  then have "s' = s" using assms(3) by (simp add: hci_transport_h5_emit_sleep_state_def)
  then show ?thesis using h5_moves_refl [OF assms(2)] by blast
next
  case False
  then have e: "emit_event ph [0x69, 1, (if b then 1 else 0)] (s\<lparr> last_sleep_state := b \<rparr>) = Some s'"
    using assms(3) by (simp add: hci_transport_h5_emit_sleep_state_def)
  show ?thesis by (rule h5_moves_after_same_link [OF assms(2) fields_same_link(3) emit_moves [OF assms(1) _ e]])
qed

lemma h5_moves_then:
  assumes "\<exists>fs. h5_moves s fs s1" and "h5_wf s1 \<Longrightarrow> \<exists>fs. h5_moves s1 fs s2"
  shows "\<exists>fs. h5_moves s fs s2"
  using assms h5_moves_trans h5_moves_wf by blast

lemma set_timer_same_link: "hci_transport_link_set_timer t s = Some s' \<Longrightarrow> same_link s s'"
  using fields_same_link(1) by (auto simp: hci_transport_link_set_timer_def split: if_splits)

lemma set_timer_run_moves:
  assumes "h5_wf s" and "same_link s s1" and "do { s \<leftarrow> hci_transport_link_set_timer t s1; hci_transport_link_run s } = Some s'"
  shows "\<exists>fs. h5_moves s fs s'"
proof -
  obtain s2 where s2: "hci_transport_link_set_timer t s1 = Some s2" "hci_transport_link_run s2 = Some s'"
    using assms(3) by (auto simp: bind_eq_Some_conv)
  show ?thesis
    by (rule h5_moves_after_same_link [OF assms(1) same_link_trans [OF assms(2) set_timer_same_link [OF s2(1)]] link_run_moves [OF _ s2(2)]])
qed

lemma timeout_moves:
  assumes "h5_wf s" and "hci_transport_link_timeout_handler s = Some s'"
  shows "\<exists>fs. h5_moves s fs s'"
proof (cases "link_state s")
  case LINK_UNINITIALIZED
  then show ?thesis using assms(2) set_timer_run_moves [OF assms(1) add_same_link, of HCI_TRANSPORT_LINK_SEND_SYNC LINK_PERIOD_MS s']
    by (simp add: hci_transport_link_timeout_handler_def)
next
  case LINK_INITIALIZED
  then show ?thesis using assms(2) set_timer_run_moves [OF assms(1) add_same_link, of HCI_TRANSPORT_LINK_SEND_CONFIG LINK_PERIOD_MS s']
    by (simp add: hci_transport_link_timeout_handler_def)
next
  case LINK_ACTIVE
  have w: "\<exists>fs. h5_moves s fs s'" if "hci_transport_link_set_timer LINK_WAKEUP_MS (add_action HCI_TRANSPORT_LINK_SEND_WAKEUP s) = Some s'"
    using same_link_moves [OF assms(1) same_link_trans [OF add_same_link set_timer_same_link [OF that]]] by auto
  show ?thesis
    using assms(2) LINK_ACTIVE w h5_moves_refl [OF assms(1)]
      set_timer_run_moves [OF assms(1) add_same_link, of HCI_TRANSPORT_LINK_SEND_QUEUED_PACKET "link_resend_timeout_ms s" s']
    by (auto simp: hci_transport_link_timeout_handler_def hci_transport_link_have_outgoing_packet_def split: if_splits)
qed

lemma inactivity_timeout_moves:
  assumes "h5_wf s" and "hci_transport_inactivity_timeout_handler s = Some s'"
  shows "\<exists>fs. h5_moves s fs s'"
  using assms(2) h5_moves_refl [OF assms(1)] h5_moves_after_same_link [OF assms(1) add_same_link link_run_moves, of HCI_TRANSPORT_LINK_SEND_SLEEP s']
  by (auto simp: hci_transport_inactivity_timeout_handler_def split: if_splits)

lemma accept_moves:
  assumes "h5_wf s" and "hci_transport_h5_can_send_packet_now s" and "packet_ok t p"
  shows "h5_moves s [] (trace (Accept t p) (hci_transport_h5_queue_packet t p (of_nat (length p)) s))"
proof -
  let ?s = "trace (Accept t p) (hci_transport_h5_queue_packet t p (of_nat (length p)) s)"
  have v: "accepted ?s = accepted s @ [(t, p)]" "pending ?s = Some (t, p)" "delivered ?s = delivered s" "seq_of ?s = seq_of s" "ack_of ?s = ack_of s"
    "h5_out ?s = h5_out s" "h5_outgoing ?s = h5_outgoing s" "slip_write_active ?s = slip_write_active s" "link_state ?s = link_state s" "h5_decoder ?s = h5_decoder s"
    "out_ok ?s = out_ok s" "link_seq_nr ?s = link_seq_nr s" "link_ack_nr ?s = link_ack_nr s" "has_action a ?s = has_action a s"
    "link_peer_supports_data_integrity_check ?s = link_peer_supports_data_integrity_check s" for a
    by (simp_all add: trace_def hci_transport_h5_queue_packet_def accepted_def delivered_def pending_def seq_of_def ack_of_def h5_out_def
        sent_bytes_def h5_outgoing_def frame_end_def out_ok_def has_action_def)
  have f: "hci_packet ?s = Some p" "hci_packet_type ?s = t" "hci_packet_size ?s = of_nat (length p)"
    by (simp_all add: trace_def hci_transport_h5_queue_packet_def)
  have c: "hci_packet s = None" "link_state s = LINK_ACTIVE"
    using assms(2) by (simp_all add: hci_transport_h5_can_send_packet_now_def hci_transport_link_have_outgoing_packet_def)
  have "h5_wf ?s" using assms(1,3) c packet_size_not_0 [OF assms(3)] unfolding h5_wf_def v f by simp
  then show ?thesis using c unfolding h5_moves_def v by (simp add: pending_def)
qed

lemma send_packet_moves:
  assumes "h5_handler_ok ph" and "h5_wf s" and "packet_ok t p" and "hci_transport_h5_send_packet ph t p (of_nat (length p)) s = Some (r, s')"
  shows "\<exists>fs. h5_moves s fs s'"
proof (cases "hci_transport_h5_can_send_packet_now s")
  case False
  then show ?thesis using assms(4) h5_moves_refl [OF assms(2)] by (auto simp: hci_transport_h5_send_packet_def)
next
  case True
  let ?s = "trace (Accept t p) (hci_transport_h5_queue_packet t p (of_nat (length p)) s)"
  note a = accept_moves [OF assms(2) True assms(3)]
  have act: "link_state ?s = LINK_ACTIVE" "hci_packet ?s \<noteq> None"
    using True by (simp_all add: hci_transport_h5_can_send_packet_now_def trace_def hci_transport_h5_queue_packet_def)
  note wf = h5_moves_wf [OF a]
  have "\<exists>fs. h5_moves ?s fs s'"
  proof (cases "link_peer_asleep ?s")
    case False
    then have "do { s \<leftarrow> hci_transport_link_set_timer (link_resend_timeout_ms ?s) (add_action HCI_TRANSPORT_LINK_SEND_QUEUED_PACKET ?s);
        hci_transport_link_run s } = Some s'"
      using assms(4) True unfolding hci_transport_h5_send_packet_def Let_def by (auto simp: bind_eq_Some_conv)
    then show ?thesis by (rule set_timer_run_moves [OF wf add_same_link, rotated -1]) (use act in simp_all)
  next
    case asleep: True
    define wake where "wake s1 = (if btstack_uart_sleep_mode s1 \<noteq> 0 then trace (Set_sleep 0) s1 else s1)" for s1
    obtain s1 where s1: "hci_transport_h5_emit_sleep_state ph False ?s = Some s1"
      "do { s \<leftarrow> hci_transport_link_set_timer LINK_WAKEUP_MS (add_action HCI_TRANSPORT_LINK_SEND_WAKEUP (wake s1)); hci_transport_link_run s } = Some s'"
      using assms(4) True asleep unfolding hci_transport_h5_send_packet_def Let_def wake_def
      by (auto simp: bind_eq_Some_conv split: if_splits)
    show ?thesis
    proof (rule h5_moves_then [OF emit_sleep_state_moves [OF assms(1) wf s1(1)]])
      assume w1: "h5_wf s1"
      have k: "same_link s1 (wake s1)" using event_same_link [of "Set_sleep 0"] same_link_refl by (simp add: wake_def)
      show "\<exists>fs. h5_moves s1 fs s'"
        by (rule set_timer_run_moves [OF w1 same_link_trans [OF k add_same_link] s1(2)]) simp_all
    qed
  qed
  then show ?thesis using h5_moves_trans [OF a] by blast
qed

text \<open>A step may also take a frame over and learn that the pending packet has arrived.\<close>

definition h5_step :: "bool \<Rightarrow> bool \<Rightarrow> (u8 \<times> buffer) list \<Rightarrow> h5 \<Rightarrow> h5_frame list \<Rightarrow> h5 \<Rightarrow> bool" where
  "h5_step got acked ds s fs s' \<longleftrightarrow> h5_wf s'
     \<and> ack_of s' = (if got then hci_transport_link_inc_seq_nr (ack_of s) else ack_of s)
     \<and> seq_of s' = (if acked then hci_transport_link_inc_seq_nr (seq_of s) else seq_of s)
     \<and> (acked \<longrightarrow> pending s \<noteq> None)
     \<and> (accepted s' = accepted s \<and> pending s' = (if acked then None else pending s)
        \<or> (\<exists>p. accepted s' = accepted s @ [p] \<and> (acked \<or> pending s = None) \<and> pending s' = Some p))
     \<and> delivered s' = delivered s @ ds \<and> h5_decoder s' = h5_decoder s
     \<and> h5_out s' = h5_out s @ concat (map wire fs)
     \<and> (fs = [] \<or> (\<exists>f. fs = [f] \<and> frame_for s' f \<and> slip_write_active s'))"

lemma h5_moves_step: "h5_moves s fs s' \<Longrightarrow> h5_step False False [] s fs s'"
  unfolding h5_moves_def h5_step_def by auto

lemma h5_step_wf: "h5_step g a ds s fs s' \<Longrightarrow> h5_wf s'"
  by (simp add: h5_step_def)

lemma h5_step_moves:
  assumes "h5_step g a ds s fs s1" and "h5_moves s1 gs s2"
  shows "h5_step g a ds s (fs @ gs) s2"
proof -
  have e: "seq_of s2 = seq_of s1" "ack_of s2 = ack_of s1" using assms(2) by (simp_all add: h5_moves_def)
  have p: "pending s1 \<noteq> None \<Longrightarrow> pending s2 = pending s1" using assms(2) by (auto simp: h5_moves_def)
  have "accepted s2 = accepted s \<and> pending s2 = (if a then None else pending s)
        \<or> (\<exists>p. accepted s2 = accepted s @ [p] \<and> (a \<or> pending s = None) \<and> pending s2 = Some p)"
    using assms unfolding h5_moves_def h5_step_def by (auto split: if_splits)
  moreover have "fs @ gs = [] \<or> (\<exists>f. fs @ gs = [f] \<and> frame_for s2 f \<and> slip_write_active s2)"
  proof (cases "fs = []")
    case True
    then show ?thesis using assms(2) unfolding h5_moves_def by auto
  next
    case False
    then obtain f where f: "fs = [f]" "frame_for s1 f" "slip_write_active s1" using assms(1) unfolding h5_step_def by auto
    then have "gs = []" "slip_write_active s2" using assms(2) unfolding h5_moves_def by auto
    moreover have "frame_for s2 f" by (rule frame_for_later [OF f(2) e p])
    ultimately show ?thesis using f by simp
  qed
  ultimately show ?thesis using assms e unfolding h5_moves_def h5_step_def by auto
qed

lemma h5_step_then:
  assumes "h5_step g a ds s fs s1" and "h5_wf s1 \<Longrightarrow> \<exists>fs. h5_moves s1 fs s2"
  shows "\<exists>fs. h5_step g a ds s fs s2"
  using assms h5_step_moves h5_step_wf by blast

section \<open>A block was sent\<close>

lemma same_out_step:
  assumes "h5_wf s" and "h5_wf s'" and "seq_of s' = seq_of s" "ack_of s' = ack_of s" "accepted s' = accepted s" "pending s' = pending s"
    "delivered s' = delivered s" "h5_out s' = h5_out s" "h5_decoder s' = h5_decoder s"
  shows "h5_step False False [] s [] s'"
  using assms by (simp add: h5_step_def)

lemma block_sent_step:
  assumes ph: "h5_handler_ok ph" and wf: "h5_wf s" and run: "hci_transport_h5_block_sent ph s = Some s'"
  shows "\<exists>fs. h5_step False False [] s fs s'"
proof (cases "h5_outgoing s = []")
  case False
  obtain b where b: "sends_block s b s'" "out_ok s'" "b @ h5_outgoing s' = h5_outgoing s"
    using block_sent_continues [of s ph] wf False run by (auto simp: h5_wf_def)
  note v = sends_block_views [OF b(1)] and w = sends_block_simps [OF b(1)]
  have "h5_wf s'" using wf b(2) unfolding h5_wf_def w(1-12) v by (simp add: w(13))
  then have "h5_step False False [] s [] s'"
    by (rule same_out_step [OF wf]) (use b(3) v w(12) in \<open>simp_all add: h5_out_def\<close>)
  then show ?thesis by blast
next
  case True
  have nd: "\<not> btstack_slip_encoder_has_data (h5_encoder s)" using block_sent_done [OF _ True] wf by (simp add: h5_wf_def)
  define s0 where "s0 = s\<lparr> slip_write_active := False \<rparr>"
  have v: "accepted s0 = accepted s" "pending s0 = pending s" "delivered s0 = delivered s" "seq_of s0 = seq_of s" "ack_of s0 = ack_of s"
    "h5_out s0 = h5_out s" "h5_outgoing s0 = h5_outgoing s" "out_ok s0 = out_ok s" "h5_decoder s0 = h5_decoder s" "has_action a s0 = has_action a s" for a
    by (simp_all add: s0_def accepted_def delivered_def pending_def seq_of_def ack_of_def h5_out_def sent_bytes_def h5_outgoing_def
        frame_end_def out_ok_def has_action_def)
  have f: "link_state s0 = link_state s" "link_seq_nr s0 = link_seq_nr s" "link_ack_nr s0 = link_ack_nr s" "hci_packet s0 = hci_packet s"
    "hci_packet_type s0 = hci_packet_type s" "hci_packet_size s0 = hci_packet_size s"
    "link_peer_supports_data_integrity_check s0 = link_peer_supports_data_integrity_check s"
    by (simp_all add: s0_def)
  have wf0: "h5_wf s0" using wf True unfolding h5_wf_def v f by simp
  then have st: "h5_step False False [] s [] s0" by (rule same_out_step [OF wf]) (simp_all add: v)
  show ?thesis
  proof (rule h5_step_then [OF st])
    show "\<exists>fs. h5_moves s0 fs s'"
    proof (cases "has_action HCI_TRANSPORT_LINK_ENTER_SLEEP s0")
      case False
      then have "hci_transport_link_run s0 = Some s'"
        using run nd by (simp add: hci_transport_h5_block_sent_def s0_def Let_def)
      then show ?thesis by (rule link_run_moves [OF wf0])
    next
      case True
      define sleep where "sleep s1 = (if btstack_uart_sleep_mode s1 \<noteq> 0 then trace (Set_sleep (btstack_uart_sleep_mode s1)) s1 else s1)" for s1
      let ?s = "sleep (clear_action HCI_TRANSPORT_LINK_ENTER_SLEEP s0)"
      obtain s2 where s2: "hci_transport_h5_emit_sleep_state ph True ?s = Some s2" "hci_transport_link_run s2 = Some s'"
        using run nd True by (auto simp: hci_transport_h5_block_sent_def s0_def [symmetric] Let_def sleep_def bind_eq_Some_conv)
      have k: "same_link s0 ?s"
        using same_link_trans [OF clear_same_link event_same_link] clear_same_link by (simp add: sleep_def)
      show ?thesis
        by (rule h5_moves_after_same_link [OF wf0 k h5_moves_then])
          (use emit_sleep_state_moves [OF ph _ s2(1)] link_run_moves [OF _ s2(2)] in blast)+
    qed
  qed
qed

section \<open>A frame has arrived\<close>

lemma run_after_same_link:
  assumes "h5_wf s" and "same_link s s1" and "hci_transport_link_run s1 = Some s'"
  shows "\<exists>fs. h5_step False False [] s fs s'"
  using h5_moves_after_same_link [OF assms(1,2) link_run_moves [OF _ assms(3)]] h5_moves_step by blast

lemma link_state_step:
  assumes wf: "h5_wf s" and "link_state s \<noteq> LINK_ACTIVE" and "same_link s s1" and "seq < 8" and "ack < 8"
    and "dic \<in> {0, 1}" and st: "st = LINK_ACTIVE \<longrightarrow> seq = 0 \<and> ack = 0"
    and s2: "s2 = s1\<lparr> link_peer_supports_data_integrity_check := dic, link_state := st, link_timer := t, link_seq_nr := seq, link_ack_nr := ack \<rparr>"
  shows "h5_step False False [] s [] s2"
proof -
  note m = same_link_moves [OF wf assms(3)]
  note wf1 = h5_moves_wf [OF m]
  have n: "link_state s1 \<noteq> LINK_ACTIVE" using assms(2,3) by (simp add: same_link_def)
  have v: "accepted s2 = accepted s1" "delivered s2 = delivered s1" "seq_of s2 = seq_of s1" "ack_of s2 = ack_of s1"
    "h5_out s2 = h5_out s1" "h5_outgoing s2 = h5_outgoing s1" "out_ok s2 = out_ok s1" "has_action a s2 = has_action a s1"
    "slip_write_active s2 = slip_write_active s1" "hci_packet s2 = hci_packet s1" "link_seq_nr s2 = seq" "link_ack_nr s2 = ack"
    "link_peer_supports_data_integrity_check s2 = dic" "hci_packet_size s2 = hci_packet_size s1" "pending s2 = pending s1"
    "hci_packet_type s2 = hci_packet_type s1" "h5_decoder s2 = h5_decoder s1" for a
    using n st by (simp_all add: s2 accepted_def delivered_def seq_of_def ack_of_def h5_out_def sent_bytes_def h5_outgoing_def
        frame_end_def out_ok_def has_action_def pending_def)
  have "h5_wf s2" using wf1 n assms(4-6) unfolding h5_wf_def v by simp
  then have "h5_step False False [] s1 [] s2" by (rule same_out_step [OF wf1]) (simp_all add: v)
  then show ?thesis using m unfolding h5_step_def h5_moves_def by auto
qed

lemma uninitialized_frame_step:
  assumes wf: "h5_wf s" and "link_state s = LINK_UNINITIALIZED" and "link_uninitialized_frame buf t s = Some s1"
    and "hci_transport_link_run s1 = Some s'"
  shows "\<exists>fs. h5_step False False [] s fs s'"
proof -
  consider "same_link s s1"
    | "hci_transport_link_set_timer LINK_PERIOD_MS
              (add_action HCI_TRANSPORT_LINK_SEND_CONFIG (s\<lparr> link_state := LINK_INITIALIZED, link_timer := None \<rparr>)) = Some s1"
    using assms(3) same_link_refl add_same_link [of HCI_TRANSPORT_LINK_SEND_SYNC_RESPONSE s]
    by (auto simp: link_uninitialized_frame_def bind_eq_Some_conv split: if_splits)
  then show ?thesis
  proof cases
    case 1
    then show ?thesis by (rule run_after_same_link [OF wf _ assms(4)])
  next
    case 2
    let ?s = "s\<lparr> link_state := LINK_INITIALIZED, link_timer := None \<rparr>"
    have "?s = s\<lparr> link_peer_supports_data_integrity_check := link_peer_supports_data_integrity_check s, link_state := LINK_INITIALIZED,
        link_timer := None, link_seq_nr := link_seq_nr s, link_ack_nr := link_ack_nr s \<rparr>" by (rule h5.equality) simp_all
    then have st: "h5_step False False [] s [] ?s"
      by (rule link_state_step [OF wf _ same_link_refl, rotated -1]) (use wf assms(2) in \<open>simp_all add: h5_wf_def\<close>)
    have k: "same_link ?s s1" by (rule same_link_trans [OF add_same_link set_timer_same_link [OF 2]]) simp_all
    show ?thesis
      by (rule h5_step_then [OF st h5_moves_after_same_link [OF _ k link_run_moves [OF _ assms(4)]]])
  qed
qed

lemma initialized_frame_step:
  assumes ph: "h5_handler_ok ph" and wf: "h5_wf s" and "link_state s = LINK_INITIALIZED" and "link_initialized_frame ph buf t n s = Some s1"
    and "hci_transport_link_run s1 = Some s'"
  shows "\<exists>fs. h5_step False False [] s fs s'"
proof -
  consider "same_link s s1"
    | d :: u8 where "d \<in> {0, 1}" "emit_event ph [0x6e, 0] (s\<lparr> link_peer_supports_data_integrity_check := d,
                link_state := LINK_ACTIVE, link_timer := None, link_seq_nr := 0, link_ack_nr := 0 \<rparr>) = Some s1"
    using assms(4) same_link_refl add_same_link [of HCI_TRANSPORT_LINK_SEND_SYNC_RESPONSE s]
      add_same_link [of HCI_TRANSPORT_LINK_SEND_CONFIG_RESPONSE_EMPTY s] add_same_link [of HCI_TRANSPORT_LINK_SEND_CONFIG_RESPONSE s]
    by (auto simp: link_initialized_frame_def bind_eq_Some_conv split: if_splits)
  then show ?thesis
  proof cases
    case 1
    then show ?thesis by (rule run_after_same_link [OF wf _ assms(5)])
  next
    case (2 d)
    let ?s = "s\<lparr> link_peer_supports_data_integrity_check := d,
                link_state := LINK_ACTIVE, link_timer := None, link_seq_nr := 0, link_ack_nr := 0 \<rparr>"
    have st: "h5_step False False [] s [] ?s"
      by (rule link_state_step [OF wf _ same_link_refl, rotated -1, OF refl]) (use assms(3) 2(1) in simp_all)
    show ?thesis
      by (rule h5_step_then [OF st h5_moves_then [OF emit_moves [OF ph _ 2(2)] link_run_moves [OF _ assms(5)]]])
  qed
qed

lemma control_frame_moves:
  assumes ph: "h5_handler_ok ph" and wf: "h5_wf s" and run: "link_control_frame ph buf n s = Some s'"
  shows "\<exists>fs. h5_moves s fs s'"
proof -
  let ?sleep = "do { s \<leftarrow> (if btstack_uart_sleep_mode s \<noteq> 0 then
                   hci_transport_h5_emit_sleep_state ph True (trace (Set_sleep (btstack_uart_sleep_mode s)) s)
                 else Some s);
           Some (s\<lparr> link_peer_asleep := True \<rparr>) }"
  consider "same_link s s'" | "?sleep = Some s'"
    using run same_link_refl add_same_link [of HCI_TRANSPORT_LINK_SEND_CONFIG_RESPONSE_EMPTY s] add_same_link [of HCI_TRANSPORT_LINK_SEND_CONFIG_RESPONSE s]
      same_link_trans [OF fields_same_link(2) [of s False] add_same_link, of HCI_TRANSPORT_LINK_SEND_WOKEN] fields_same_link(2)
    by (auto simp: link_control_frame_def bind_eq_Some_conv split: if_splits)
  then show ?thesis
  proof cases
    case 1
    then show ?thesis using same_link_moves [OF wf] by blast
  next
    case 2
    then obtain s1 where s1: "s' = s1\<lparr> link_peer_asleep := True \<rparr>" "(if btstack_uart_sleep_mode s \<noteq> 0 then
                   hci_transport_h5_emit_sleep_state ph True (trace (Set_sleep (btstack_uart_sleep_mode s)) s)
                 else Some s) = Some s1" by (auto simp: bind_eq_Some_conv)
    have "\<exists>fs. h5_moves s fs s1"
    proof (cases "btstack_uart_sleep_mode s \<noteq> 0")
      case True
      then have e: "hci_transport_h5_emit_sleep_state ph True (trace (Set_sleep (btstack_uart_sleep_mode s)) s) = Some s1" using s1(2) by simp
      show ?thesis by (rule h5_moves_after_same_link [OF wf event_same_link emit_sleep_state_moves [OF ph _ e]]) simp_all
    next
      case False
      then show ?thesis using s1(2) h5_moves_refl [OF wf] by auto
    qed
    then show ?thesis unfolding s1(1)
      by (rule h5_moves_then) (use same_link_moves [OF _ fields_same_link(2)] in blast)
  qed
qed

lemma taken_over_step:
  assumes wf: "h5_wf s" and act: "link_state s = LINK_ACTIVE"
    and s1: "s1 = add_action HCI_TRANSPORT_LINK_SEND_ACK_PACKET (s\<lparr> link_ack_nr := hci_transport_link_inc_seq_nr (link_ack_nr s) \<rparr>)"
  shows "h5_step True False [] s [] s1"
proof -
  have v: "accepted s1 = accepted s" "pending s1 = pending s" "delivered s1 = delivered s" "seq_of s1 = seq_of s"
    "h5_out s1 = h5_out s" "h5_outgoing s1 = h5_outgoing s" "out_ok s1 = out_ok s" "slip_write_active s1 = slip_write_active s"
    "link_state s1 = link_state s" "h5_decoder s1 = h5_decoder s" "link_seq_nr s1 = link_seq_nr s" "link_ack_nr s1 = hci_transport_link_inc_seq_nr (link_ack_nr s)"
    "hci_packet s1 = hci_packet s" "hci_packet_size s1 = hci_packet_size s" "hci_packet_type s1 = hci_packet_type s"
    "link_peer_supports_data_integrity_check s1 = link_peer_supports_data_integrity_check s"
    "has_action HCI_TRANSPORT_LINK_SEND_QUEUED_PACKET s1 = has_action HCI_TRANSPORT_LINK_SEND_QUEUED_PACKET s"
    by (simp_all add: s1 accepted_def delivered_def pending_def seq_of_def h5_out_def sent_bytes_def h5_outgoing_def
        frame_end_def out_ok_def has_add) (simp add: has_action_def)
  have a: "hci_transport_link_inc_seq_nr x < 8" for x
    by (rule order_le_less_trans [of _ "0x07"]) (simp_all add: hci_transport_link_inc_seq_nr_def word_and_le1)
  have "h5_wf s1" using wf act a unfolding h5_wf_def v by simp
  then show ?thesis using act by (simp add: h5_step_def v ack_of_def)
qed

lemma acknowledged_step:
  assumes wf: "h5_wf s" and act: "link_state s = LINK_ACTIVE" and p: "hci_packet s \<noteq> None"
    and st: "h5_step g False [] s0 [] s" and same: "accepted s = accepted s0" "pending s = pending s0"
    and s1: "s1 = hci_transport_link_clear_queue (s\<lparr> link_seq_nr := hci_transport_link_inc_seq_nr (link_seq_nr s) \<rparr>)"
  shows "h5_step g True [] s0 [] s1"
proof -
  have v: "accepted s1 = accepted s" "pending s1 = None" "delivered s1 = delivered s" "ack_of s1 = ack_of s"
    "h5_out s1 = h5_out s" "h5_outgoing s1 = h5_outgoing s" "out_ok s1 = out_ok s" "slip_write_active s1 = slip_write_active s"
    "link_state s1 = link_state s" "h5_decoder s1 = h5_decoder s" "link_seq_nr s1 = hci_transport_link_inc_seq_nr (link_seq_nr s)" "link_ack_nr s1 = link_ack_nr s"
    "hci_packet s1 = None" "hci_packet_size s1 = hci_packet_size s" "has_action a s1 = has_action a s"
    "link_peer_supports_data_integrity_check s1 = link_peer_supports_data_integrity_check s" for a
    by (simp_all add: s1 hci_transport_link_clear_queue_def accepted_def delivered_def pending_def ack_of_def h5_out_def sent_bytes_def
        h5_outgoing_def frame_end_def out_ok_def has_action_def)
  have a: "hci_transport_link_inc_seq_nr x < 8" for x
    by (rule order_le_less_trans [of _ "0x07"]) (simp_all add: hci_transport_link_inc_seq_nr_def word_and_le1)
  have "h5_wf s1" using wf act a unfolding h5_wf_def v by simp
  moreover have "seq_of s1 = hci_transport_link_inc_seq_nr (seq_of s)" using act by (simp add: seq_of_def v)
  moreover have "pending s \<noteq> None" using p by (simp add: pending_def)
  ultimately show ?thesis using st same unfolding h5_step_def v by simp
qed

lemma deliver_step:
  assumes st: "h5_step g a [] s fs s1" and s2: "s2 = trace (Deliver t p) (s1\<lparr> link_peer_asleep := False \<rparr>)"
  shows "h5_step g a [(t, p)] s fs s2"
proof -
  have v: "accepted s2 = accepted s1" "pending s2 = pending s1" "delivered s2 = delivered s1 @ [(t, p)]" "ack_of s2 = ack_of s1" "seq_of s2 = seq_of s1"
    "h5_out s2 = h5_out s1" "h5_outgoing s2 = h5_outgoing s1" "out_ok s2 = out_ok s1" "slip_write_active s2 = slip_write_active s1"
    "link_state s2 = link_state s1" "h5_decoder s2 = h5_decoder s1" "link_seq_nr s2 = link_seq_nr s1" "link_ack_nr s2 = link_ack_nr s1"
    "hci_packet s2 = hci_packet s1" "hci_packet_size s2 = hci_packet_size s1" "hci_packet_type s2 = hci_packet_type s1" "has_action b s2 = has_action b s1"
    "link_peer_supports_data_integrity_check s2 = link_peer_supports_data_integrity_check s1" for b
    by (simp_all add: s2 trace_def accepted_def delivered_def pending_def ack_of_def seq_of_def h5_out_def sent_bytes_def
        h5_outgoing_def frame_end_def out_ok_def has_action_def)
  have "h5_wf s2 = h5_wf s1" unfolding h5_wf_def v ..
  moreover have "frame_for s2 f = frame_for s1 f" for f unfolding frame_for_def v ..
  ultimately show ?thesis using st unfolding h5_step_def v by simp
qed

definition peer_frame :: "h5_frame \<Rightarrow> bool" where
  "peer_frame f \<longleftrightarrow> frame_ok f \<and> (if f_reliable f then 0 < f_type f \<and> f_type f \<le> 4 else f_type f \<in> {0, 0x0f})"

lemma frame_for_peer: "frame_for s f \<Longrightarrow> peer_frame f"
  by (auto simp: frame_for_def peer_frame_def)

lemma payload_range:
  assumes "frame_ok f"
  shows "rd_range (frame_bytes f @ junk) 4 (unat (of_nat (length (f_payload f)) :: u16)) = Some (f_payload f)"
proof -
  have "length (f_payload f) < 65536" using assms by (simp add: frame_ok_def)
  then show ?thesis by (simp add: rd_range_def frame_bytes_def unat_of_nat_u16)
qed

lemma active_frame_step:
  assumes ph: "h5_handler_ok ph" and wf: "h5_wf s" and act: "link_state s = LINK_ACTIVE" and f: "peer_frame f"
    and buf: "buf = frame_bytes f @ junk"
    and run: "link_active_frame ph buf (f_seq f) (f_ack f) (f_reliable f) (f_type f) (of_nat (length (f_payload f))) s = Some s1"
    and run': "hci_transport_link_run s1 = Some s'"
  shows "\<exists>got acked fs. h5_step got acked (if got \<and> f_type f \<in> {2, 3, 4} then [(f_type f, f_payload f)] else []) s fs s'
    \<and> (got \<longleftrightarrow> f_reliable f \<and> f_seq f = ack_of s)
    \<and> (acked \<longrightarrow> (f_reliable f \<or> f_type f = 0) \<and> f_ack f = hci_transport_link_inc_seq_nr (seq_of s))"
proof (cases "f_reliable f \<and> f_seq f \<noteq> link_ack_nr s")
  case True
  then have "s1 = add_action HCI_TRANSPORT_LINK_SEND_ACK_PACKET s" using run by (simp add: link_active_frame_def)
  then have k: "same_link s s1" using act add_same_link [of HCI_TRANSPORT_LINK_SEND_ACK_PACKET s] by simp
  show ?thesis
    by (rule exI [of _ False], rule exI [of _ False]) (use run_after_same_link [OF wf k run'] True act in \<open>simp add: ack_of_def\<close>)
next
  case False
  define got where "got = f_reliable f"
  define sa where "sa = (if got then add_action HCI_TRANSPORT_LINK_SEND_ACK_PACKET (s\<lparr> link_ack_nr := hci_transport_link_inc_seq_nr (link_ack_nr s) \<rparr>) else s)"
  have sa: "h5_step got False [] s [] sa"
    using taken_over_step [OF wf act refl] h5_moves_step [OF h5_moves_refl [OF wf]] by (simp add: sa_def)
  have v: "accepted sa = accepted s" "pending sa = pending s" by (simp_all add: sa_def accepted_def pending_def)
  have e: "link_seq_nr sa = link_seq_nr s" "hci_packet sa = hci_packet s" "link_state sa = LINK_ACTIVE" using act by (simp_all add: sa_def)
  define acked where "acked \<longleftrightarrow> (f_reliable f \<or> f_type f = 0) \<and> hci_transport_link_have_outgoing_packet s
      \<and> hci_transport_link_inc_seq_nr (link_seq_nr s) = f_ack f"
  define clear where "clear = hci_transport_link_clear_queue (sa\<lparr> link_seq_nr := hci_transport_link_inc_seq_nr (link_seq_nr sa) \<rparr>)"
  define rest where "rest s2 = (if f_type f = LINK_CONTROL_PACKET_TYPE then link_control_frame ph buf (of_nat (length (f_payload f))) s2
        else if f_type f = 0x04 \<or> f_type f = 0x02 \<or> f_type f = 0x03 then do {
          s \<leftarrow> ph (f_type f) (f_payload f) (trace (Deliver (f_type f) (f_payload f)) (s2\<lparr> link_peer_asleep := False \<rparr>));
          Some (hci_transport_inactivity_timer_set s) }
        else Some s2)" for s2
  have nn: "\<not> (f_reliable f \<and> f_seq f \<noteq> link_ack_nr s)" using False by blast
  have fok: "frame_ok f" using f by (simp add: peer_frame_def)
  have "link_active_frame ph buf (f_seq f) (f_ack f) (f_reliable f) (f_type f) (of_nat (length (f_payload f))) s
      = do { s2 \<leftarrow> (if acked then emit_event ph [0x6e, 0] clear else Some sa); rest s2 }"
    unfolding link_active_frame_def Let_def sa_def [unfolded got_def, symmetric] if_not_P [OF nn] rest_def acked_def clear_def e
      hci_transport_link_have_outgoing_packet_def buf payload_range [OF fok] Option.bind.bind_lunit by auto
  then have "do { s2 \<leftarrow> (if acked then emit_event ph [0x6e, 0] clear else Some sa); rest s2 } = Some s1" using run by simp
  then obtain s2 where s2: "(if acked then emit_event ph [0x6e, 0] clear else Some sa) = Some s2" "rest s2 = Some s1"
    unfolding bind_eq_Some_conv by blast
  have "\<exists>fs. h5_step got acked [] s fs s2"
  proof (cases acked)
    case True
    then have "hci_packet sa \<noteq> None" by (simp add: acked_def hci_transport_link_have_outgoing_packet_def e)
    then have "h5_step got True [] s [] clear" by (rule acknowledged_step [OF h5_step_wf [OF sa] e(3) _ sa _ _ clear_def]) (simp_all add: v)
    then show ?thesis using True s2(1) emit_moves [OF ph] h5_step_then by simp
  next
    case False
    then show ?thesis using sa s2(1) by auto
  qed
  then obtain fs where st: "h5_step got acked [] s fs s2" by blast
  have cond: "(got \<longleftrightarrow> f_reliable f \<and> f_seq f = ack_of s)
    \<and> (acked \<longrightarrow> (f_reliable f \<or> f_type f = 0) \<and> f_ack f = hci_transport_link_inc_seq_nr (seq_of s))"
    using False act by (auto simp: got_def acked_def ack_of_def seq_of_def)
  show ?thesis
  proof (cases "f_type f \<in> {2, 3, 4}")
    case True
    then have g: "got" using f by (cases "f_reliable f") (auto simp: got_def peer_frame_def)
    define s3 where "s3 = trace (Deliver (f_type f) (f_payload f)) (s2\<lparr> link_peer_asleep := False \<rparr>)"
    have d: "h5_step got acked [(f_type f, f_payload f)] s fs s3" by (rule deliver_step [OF st s3_def])
    have "rest s2 = do { s \<leftarrow> ph (f_type f) (f_payload f) s3; Some (hci_transport_inactivity_timer_set s) }"
      using True by (auto simp: rest_def s3_def)
    then have "do { s \<leftarrow> ph (f_type f) (f_payload f) s3; Some (hci_transport_inactivity_timer_set s) } = Some s1" using s2(2) by simp
    then obtain s4 where s4: "ph (f_type f) (f_payload f) s3 = Some s4" "s1 = hci_transport_inactivity_timer_set s4"
      unfolding bind_eq_Some_conv by auto
    have "\<exists>fs. h5_moves s3 fs s'"
      by (rule h5_moves_then [OF handler_moves [OF ph s4(1) h5_step_wf [OF d]]
            h5_moves_after_same_link [OF _ inactivity_timer_same_link link_run_moves]])
        (use run' s4(2) in simp_all)
    then have "\<exists>fs. h5_step got acked [(f_type f, f_payload f)] s fs s'" by (rule h5_step_then [OF d])
    then show ?thesis using True g cond by auto
  next
    case False
    have "\<exists>fs. h5_moves s2 fs s1"
    proof (cases "f_type f = LINK_CONTROL_PACKET_TYPE")
      case True
      then have "link_control_frame ph buf (of_nat (length (f_payload f))) s2 = Some s1" using s2(2) by (simp add: rest_def)
      then show ?thesis by (rule control_frame_moves [OF ph h5_step_wf [OF st]])
    next
      case no: False
      then have "s1 = s2" using s2(2) False by (auto simp: rest_def)
      then show ?thesis using h5_moves_refl [OF h5_step_wf [OF st]] by blast
    qed
    then have "\<exists>fs. h5_moves s2 fs s'" by (rule h5_moves_then) (rule link_run_moves [OF _ run'])
    then have "\<exists>fs. h5_step got acked [] s fs s'" by (rule h5_step_then [OF st])
    then show ?thesis using False cond by auto
  qed
qed

lemma frame_action_step:
  assumes ph: "h5_handler_ok ph" and wf: "h5_wf s" and f: "peer_frame f" and buf: "buf = frame_bytes f @ junk"
    and run: "frame_action ph buf f s = Some s'"
  shows "\<exists>got acked fs. h5_step got acked (if got \<and> f_type f \<in> {2, 3, 4} then [(f_type f, f_payload f)] else []) s fs s'
    \<and> (got \<longrightarrow> f_reliable f \<and> f_seq f = ack_of s)
    \<and> (acked \<longrightarrow> (f_reliable f \<or> f_type f = 0) \<and> f_ack f = hci_transport_link_inc_seq_nr (seq_of s))"
proof (cases "link_state s")
  case LINK_UNINITIALIZED
  then obtain s1 where "link_uninitialized_frame buf (f_type f) s = Some s1" "hci_transport_link_run s1 = Some s'"
    using run by (auto simp: frame_action_def bind_eq_Some_conv)
  from uninitialized_frame_step [OF wf LINK_UNINITIALIZED this] show ?thesis
    by - (rule exI [of _ False], rule exI [of _ False], simp)
next
  case LINK_INITIALIZED
  then obtain s1 where "link_initialized_frame ph buf (f_type f) (of_nat (length (f_payload f))) s = Some s1" "hci_transport_link_run s1 = Some s'"
    using run by (auto simp: frame_action_def bind_eq_Some_conv)
  from initialized_frame_step [OF ph wf LINK_INITIALIZED this] show ?thesis
    by - (rule exI [of _ False], rule exI [of _ False], simp)
next
  case LINK_ACTIVE
  then obtain s1 where "link_active_frame ph buf (f_seq f) (f_ack f) (f_reliable f) (f_type f) (of_nat (length (f_payload f))) s = Some s1"
    "hci_transport_link_run s1 = Some s'"
    using run by (auto simp: frame_action_def bind_eq_Some_conv)
  from active_frame_step [OF ph wf LINK_ACTIVE f buf this] show ?thesis by blast
qed

end
