(* ===== verification/H5_Net.thy ===== *)
theory H5_Net
  imports H5_Steps
begin

text \<open>
  Two ends of the link, each running \<open>H5_Link\<close>, and two wires that may lose frames.  \<open>h5_dir\<close> relates the frames ever sent in one
  direction to the packets they carry and the frames of the other direction to what they acknowledge; it is kept by every step.
\<close>

section \<open>What a step means for the other end\<close>

definition same_view :: "h5 \<Rightarrow> h5 \<Rightarrow> bool" where
  "same_view s s' \<longleftrightarrow> seq_of s' = seq_of s \<and> ack_of s' = ack_of s \<and> accepted s' = accepted s \<and> pending s' = pending s
     \<and> delivered s' = delivered s \<and> h5_out s' = h5_out s"

definition link_step :: "bool \<Rightarrow> bool \<Rightarrow> (u8 \<times> buffer) list \<Rightarrow> h5 \<Rightarrow> h5_frame list \<Rightarrow> h5 \<Rightarrow> bool" where
  "link_step got acked ds s fs s' \<longleftrightarrow>
     ack_of s' = (if got then hci_transport_link_inc_seq_nr (ack_of s) else ack_of s)
     \<and> seq_of s' = (if acked then hci_transport_link_inc_seq_nr (seq_of s) else seq_of s)
     \<and> (acked \<longrightarrow> pending s \<noteq> None)
     \<and> (accepted s' = accepted s \<and> pending s' = (if acked then None else pending s)
        \<or> (\<exists>p. accepted s' = accepted s @ [p] \<and> (acked \<or> pending s = None) \<and> pending s' = Some p))
     \<and> delivered s' = delivered s @ ds
     \<and> h5_out s' = h5_out s @ concat (map wire fs)
     \<and> (\<forall>f \<in> set fs. frame_for s' f)"

lemma h5_step_link_step: "h5_step got acked ds s fs s' \<Longrightarrow> link_step got acked ds s fs s'"
  by (auto simp: h5_step_def link_step_def)

lemma link_step_view:
  assumes "same_view s s1" and "link_step got acked ds s1 fs s2" and "same_view s2 s'"
  shows "link_step got acked ds s fs s'"
proof -
  have f: "frame_for s' f = frame_for s2 f" for f using assms(3) unfolding frame_for_def same_view_def by simp
  have e: "seq_of s1 = seq_of s" "ack_of s1 = ack_of s" "accepted s1 = accepted s" "pending s1 = pending s" "delivered s1 = delivered s"
    "h5_out s1 = h5_out s" "seq_of s' = seq_of s2" "ack_of s' = ack_of s2" "accepted s' = accepted s2" "pending s' = pending s2"
    "delivered s' = delivered s2" "h5_out s' = h5_out s2"
    using assms(1,3) unfolding same_view_def by blast+
  show ?thesis using assms(2) unfolding link_step_def e f .
qed

section \<open>Receiving the bytes of a frame\<close>

lemma decoder_same_view:
  assumes "set ts \<subseteq> {Receive_byte}"
  shows "same_view s (s\<lparr> h5_decoder := d, h5_trace := h5_trace s @ ts \<rparr>)"
proof -
  have "concat (map accept_of ts) = []" "concat (map deliver_of ts) = []" "concat (map block_of ts) = []" using assms by (induction ts) auto
  then show ?thesis
    by (simp add: same_view_def seq_of_def ack_of_def accepted_def pending_def delivered_def h5_out_def sent_bytes_def h5_outgoing_def frame_end_def)
qed

lemma next_byte_same_view: "same_view s (hci_transport_h5_read_next_byte (hci_transport_slip_init s))"
  by (simp add: same_view_def seq_of_def ack_of_def accepted_def pending_def delivered_def h5_out_def sent_bytes_def h5_outgoing_def
      frame_end_def hci_transport_h5_read_next_byte_def hci_transport_slip_init_def trace_def)

lemma decoder_wf:
  "h5_wf (s\<lparr> h5_decoder := d, h5_trace := ts \<rparr>) = h5_wf s"
  "h5_wf (hci_transport_h5_read_next_byte (hci_transport_slip_init s)) = h5_wf s"
  by (simp_all add: h5_wf_def out_ok_def h5_outgoing_def frame_end_def has_action_def hci_transport_h5_read_next_byte_def
      hci_transport_slip_init_def trace_def split: option.split)

lemma receive_wire:
  assumes ph: "h5_handler_ok ph" and wf: "h5_wf s" and fresh: "decoder_fresh s" and f: "peer_frame f"
    and fit: "length (frame_bytes f) \<le> length (dec_buffer (h5_decoder s))" and run: "h5_receive ph (wire f) s = Some s'"
  shows "\<exists>got acked fs. link_step got acked (if got \<and> f_type f \<in> {2, 3, 4} then [(f_type f, f_payload f)] else []) s fs s'
    \<and> (got \<longrightarrow> f_reliable f \<and> f_seq f = ack_of s)
    \<and> (acked \<longrightarrow> (f_reliable f \<or> f_type f = 0) \<and> f_ack f = hci_transport_link_inc_seq_nr (seq_of s))
    \<and> h5_wf s' \<and> decoder_fresh s'"
proof -
  have fok: "frame_ok f" using f by (simp add: peer_frame_def)
  have ne: "frame_bytes f \<noteq> []" using frame_bytes_length [of f] by auto
  obtain d junk ts where d: "dec_buffer d = frame_bytes f @ junk" "length (dec_buffer d) = length (dec_buffer (h5_decoder s))"
    "set ts \<subseteq> {Receive_byte}"
    "h5_receive ph (slip_frame (frame_bytes f)) s = (if uart_baudrate s = 0 then None else do {
        s \<leftarrow> hci_transport_h5_process_frame ph (of_nat (length (frame_bytes f))) (s\<lparr> h5_decoder := d, h5_trace := h5_trace s @ ts \<rparr>);
        Some (hci_transport_h5_read_next_byte (hci_transport_slip_init s)) })"
    using receive_frame [OF fresh ne fit, of ph] by auto
  let ?s = "s\<lparr> h5_decoder := d, h5_trace := h5_trace s @ ts \<rparr>"
  have db: "dec_buffer (h5_decoder ?s) = frame_bytes f @ junk" using d(1) by simp
  obtain s2 where s2: "frame_action ph (dec_buffer d) f ?s = Some s2" "s' = hci_transport_h5_read_next_byte (hci_transport_slip_init s2)"
    using run d(4) process_frame_eq [OF fok db, of ph] unfolding wire_def by (auto simp: bind_eq_Some_conv split: if_splits)
  have wf1: "h5_wf ?s" unfolding decoder_wf by (rule wf)
  obtain got acked fs where st: "h5_step got acked (if got \<and> f_type f \<in> {2, 3, 4} then [(f_type f, f_payload f)] else []) ?s fs s2"
    and c: "got \<longrightarrow> f_reliable f \<and> f_seq f = ack_of ?s"
      "acked \<longrightarrow> (f_reliable f \<or> f_type f = 0) \<and> f_ack f = hci_transport_link_inc_seq_nr (seq_of ?s)"
    using frame_action_step [OF ph wf1 f d(1) s2(1)] by blast
  note v = decoder_same_view [OF d(3), of s d]
  have "link_step got acked (if got \<and> f_type f \<in> {2, 3, 4} then [(f_type f, f_payload f)] else []) s fs s'"
    unfolding s2(2) by (rule link_step_view [OF v h5_step_link_step [OF st] next_byte_same_view])
  moreover have "h5_wf s'" unfolding s2(2) decoder_wf by (rule h5_step_wf [OF st])
  moreover have "h5_decoder s2 = d" using st by (simp add: h5_step_def)
  then have "decoder_fresh s'" using fresh d(2) unfolding s2(2)
    by (simp add: decoder_fresh_def hci_transport_h5_read_next_byte_def hci_transport_slip_init_def trace_def btstack_slip_decoder_init_def)
  moreover have "ack_of ?s = ack_of s" "seq_of ?s = seq_of s" using v by (simp_all add: same_view_def)
  ultimately show ?thesis using c by (intro exI [of _ got] exI [of _ acked] exI [of _ fs]) auto
qed

section \<open>The frames on a wire\<close>

lemma slip_escape_inject:
  assumes "concat (map slip_escape xs) = concat (map slip_escape ys)"
  shows "xs = ys"
  using assms
proof (induction xs arbitrary: ys)
  case Nil
  then show ?case by (cases ys) auto
next
  case (Cons x xs)
  then obtain y ys' where ys: "ys = y # ys'" by (cases ys) auto
  have "x = y \<and> concat (map slip_escape xs) = concat (map slip_escape ys')"
    using Cons.prems unfolding ys list.map concat.simps slip_escape_def [of x] slip_escape_def [of y] by (auto split: if_splits)
  then show ?case using Cons.IH ys by blast
qed

lemma split_at:
  assumes "z \<notin> set xs" and "z \<notin> set ys" and "xs @ z # us = ys @ z # vs"
  shows "xs = ys \<and> us = vs"
  using assms by (induction xs arbitrary: ys) (auto simp: Cons_eq_append_conv append_eq_Cons_conv)

lemma frame_bytes_inject:
  assumes "frame_ok f" and "frame_ok g" and "frame_bytes f = frame_bytes g"
  shows "f = g"
proof -
  have "frame_header f = take 4 (frame_bytes f)" "frame_header g = take 4 (frame_bytes g)" by (simp_all add: frame_bytes_def)
  then have hh: "frame_header f = frame_header g" using assms(3) by simp
  have "length (frame_header f) = Suc (Suc (Suc (Suc 0)))" by simp
  then obtain h0 h1 h2 h3 where h: "frame_header f = [h0, h1, h2, h3]" unfolding length_Suc_conv by blast
  then have h': "frame_header g = [h0, h1, h2, h3]" using hh by simp
  note a = frame_header_fields [OF assms(1) h] and b = frame_header_fields [OF assms(2) h']
  have dic: "f_dic f = f_dic g" using a(3) b(3) by blast
  have "length (f_payload f) = length (f_payload g)"
    using arg_cong [OF assms(3), of length] dic by (simp add: frame_bytes_length)
  then have "f_payload f = f_payload g"
    using assms(3) hh dic by (auto simp: frame_bytes_def append_eq_append_conv split: if_splits)
  then show ?thesis using a(1,2,4,5) b(1,2,4,5) dic by (intro h5_frame.equality) auto
qed

lemma wire_eq: "wire f = BTSTACK_SLIP_SOF # concat (map slip_escape (frame_bytes f)) @ [BTSTACK_SLIP_SOF]"
  by (simp add: wire_def slip_frame_def)

lemma wire_inject:
  assumes "\<forall>f \<in> set fs. frame_ok f" and "\<forall>f \<in> set gs. frame_ok f" and "concat (map wire fs) = concat (map wire gs)"
  shows "fs = gs"
  using assms
proof (induction fs arbitrary: gs)
  case Nil
  then show ?case by (cases gs) (auto simp: wire_eq)
next
  case (Cons f fs)
  then obtain g gs' where g: "gs = g # gs'" by (cases gs) (auto simp: wire_eq)
  have "concat (map slip_escape (frame_bytes f)) = concat (map slip_escape (frame_bytes g))
      \<and> concat (map wire fs) = concat (map wire gs')"
    by (rule split_at [of BTSTACK_SLIP_SOF])
      (use Cons.prems(3) slip_escape_no_sof in \<open>simp_all add: g wire_eq [of f] wire_eq [of g]\<close>)
  then have "frame_bytes f = frame_bytes g" "fs = gs'" using slip_escape_inject Cons.IH [of gs'] Cons.prems g by auto
  then show ?case using frame_bytes_inject [of f g] Cons.prems g by simp
qed

section \<open>Two ends and the wires between them\<close>

text \<open>What an end does when no frame arrives.\<close>

inductive h5_local :: "h5_handler \<Rightarrow> h5 \<Rightarrow> h5 \<Rightarrow> bool" for ph where
  local_send: "packet_ok t p \<Longrightarrow> hci_transport_h5_send_packet ph t p (of_nat (length p)) s = Some (r, s') \<Longrightarrow> h5_local ph s s'"
| local_timeout: "link_timer s \<noteq> None \<Longrightarrow> hci_transport_link_timeout_handler (s\<lparr> link_timer := None \<rparr>) = Some s' \<Longrightarrow> h5_local ph s s'"
| local_inactive: "inactivity_timer s \<noteq> None \<Longrightarrow> hci_transport_inactivity_timeout_handler (s\<lparr> inactivity_timer := None \<rparr>) = Some s'
    \<Longrightarrow> h5_local ph s s'"
| local_sent: "slip_write_active s \<Longrightarrow> hci_transport_h5_block_sent ph s = Some s' \<Longrightarrow> h5_local ph s s'"
| local_auto_sleep: "h5_local ph s (hci_transport_h5_set_auto_sleep t s)"

record h5_net =
  end_a :: h5
  seen_a :: nat \<comment> \<open>how many frames of the other end have reached this end or were lost\<close>
  end_b :: h5
  seen_b :: nat

text \<open>A wire keeps the order of the frames, but may lose any of them.\<close>

definition h5_arrives :: "h5_handler \<Rightarrow> h5 \<Rightarrow> nat \<Rightarrow> nat \<Rightarrow> h5 \<Rightarrow> h5 \<Rightarrow> bool" where
  "h5_arrives ph from_end seen i s s' \<longleftrightarrow> (\<exists>fs. (\<forall>f \<in> set fs. frame_ok f) \<and> h5_out from_end = concat (map wire fs) \<and> seen \<le> i \<and> i < length fs
     \<and> length (frame_bytes (fs ! i)) \<le> length (dec_buffer (h5_decoder s)) \<and> h5_receive ph (wire (fs ! i)) s = Some s')"

inductive h5_net_step :: "h5_handler \<Rightarrow> h5_handler \<Rightarrow> h5_net \<Rightarrow> h5_net \<Rightarrow> bool" for pa pb where
  net_local_a: "h5_local pa (end_a n) s \<Longrightarrow> h5_net_step pa pb n (n\<lparr> end_a := s \<rparr>)"
| net_local_b: "h5_local pb (end_b n) s \<Longrightarrow> h5_net_step pa pb n (n\<lparr> end_b := s \<rparr>)"
| net_arrive_a: "h5_arrives pa (end_b n) (seen_a n) i (end_a n) s \<Longrightarrow> h5_net_step pa pb n (n\<lparr> end_a := s, seen_a := Suc i \<rparr>)"
| net_arrive_b: "h5_arrives pb (end_a n) (seen_b n) i (end_b n) s \<Longrightarrow> h5_net_step pa pb n (n\<lparr> end_b := s, seen_b := Suc i \<rparr>)"

text \<open>An end that has carried nothing yet: it was just opened, or has just become active.\<close>

definition h5_new :: "h5 \<Rightarrow> bool" where
  "h5_new s \<longleftrightarrow> h5_wf s \<and> decoder_fresh s \<and> seq_of s = 0 \<and> ack_of s = 0 \<and> accepted s = [] \<and> delivered s = [] \<and> pending s = None
     \<and> (\<exists>fs. h5_out s = concat (map wire fs) \<and> (\<forall>f \<in> set fs. frame_ok f \<and> \<not> f_reliable f \<and> f_type f = LINK_CONTROL_PACKET_TYPE))"

inductive h5_net_run :: "h5_handler \<Rightarrow> h5_handler \<Rightarrow> h5_net \<Rightarrow> bool" for pa pb where
  net_new: "h5_new (end_a n) \<Longrightarrow> h5_new (end_b n) \<Longrightarrow> h5_net_run pa pb n"
| net_step: "h5_net_run pa pb n \<Longrightarrow> h5_net_step pa pb n n' \<Longrightarrow> h5_net_run pa pb n'"

section \<open>One direction\<close>

definition passed_on :: "(u8 \<times> buffer) list \<Rightarrow> (u8 \<times> buffer) list" where
  "passed_on = filter (\<lambda>(t, p). t \<in> {2, 3, 4})"

definition acknowledged :: "h5 \<Rightarrow> nat" where
  "acknowledged s = length (accepted s) - (if pending s = None then 0 else 1)"

definition h5_dir :: "h5 \<Rightarrow> nat \<Rightarrow> h5 \<Rightarrow> nat \<Rightarrow> h5_frame list \<Rightarrow> nat list \<Rightarrow> h5_frame list \<Rightarrow> nat list \<Rightarrow> nat \<Rightarrow> bool" where
  "h5_dir x seen_x y seen_y fx ks fy ms r \<longleftrightarrow>
     (\<forall>p. pending x = Some p \<longrightarrow> accepted x \<noteq> [] \<and> last (accepted x) = p)
     \<and> unat (seq_of x) = acknowledged x mod 8 \<and> unat (ack_of y) = r mod 8 \<and> acknowledged x \<le> r \<and> r \<le> length (accepted x)
     \<and> length ks = length fx \<and> length ms = length fy
     \<and> (\<forall>i < length fx. f_reliable (fx ! i) \<longrightarrow> ks ! i < length (accepted x) \<and> unat (f_seq (fx ! i)) = ks ! i mod 8
          \<and> accepted x ! (ks ! i) = (f_type (fx ! i), f_payload (fx ! i)))
     \<and> sorted ks \<and> (\<forall>k \<in> set ks. k \<le> acknowledged x) \<and> (\<forall>i < length fx. seen_y \<le> i \<longrightarrow> r \<le> Suc (ks ! i))
     \<and> (\<forall>i < length fy. f_reliable (fy ! i) \<or> f_type (fy ! i) = 0 \<longrightarrow> unat (f_ack (fy ! i)) = ms ! i mod 8)
     \<and> sorted ms \<and> (\<forall>m \<in> set ms. m \<le> r) \<and> (\<forall>i < length fy. seen_x \<le> i \<longrightarrow> acknowledged x \<le> ms ! i)
     \<and> delivered y = passed_on (take r (accepted x))"

lemma inc_mod_8: "unat (hci_transport_link_inc_seq_nr x) = Suc (unat x) mod 8"
proof -
  have "n AND 7 = n mod 8" for n :: nat using take_bit_eq_mask [of 3 n] by (simp add: take_bit_eq_mod mask_eq_exp_minus_1)
  then have "unat (hci_transport_link_inc_seq_nr x) = unat (x + 1) mod 8"
    by (simp add: hci_transport_link_inc_seq_nr_def unsigned_and_eq)
  also have "\<dots> = Suc (unat x) mod 8" by (simp add: unat_word_ariths mod_mod_cancel)
  finally show ?thesis .
qed

lemma near_mod_8:
  assumes "(a :: nat) mod 8 = b mod 8" and "a = b \<or> Suc a = b \<or> a = Suc b"
  shows "a = b"
  using assms by (auto simp: mod_Suc split: if_splits)

lemma acknowledged_step_count:
  assumes "link_step got acked ds x gs x'" and "\<forall>p. pending x = Some p \<longrightarrow> accepted x \<noteq> [] \<and> last (accepted x) = p"
  shows "acknowledged x' = acknowledged x + (if acked then 1 else 0)"
    and "\<forall>p. pending x' = Some p \<longrightarrow> accepted x' \<noteq> [] \<and> last (accepted x') = p"
    and "\<exists>ps. accepted x' = accepted x @ ps"
proof -
  have acc: "acked \<longrightarrow> pending x \<noteq> None" "accepted x' = accepted x \<and> pending x' = (if acked then None else pending x)
        \<or> (\<exists>p. accepted x' = accepted x @ [p] \<and> (acked \<or> pending x = None) \<and> pending x' = Some p)"
    using assms(1) unfolding link_step_def by blast+
  then show "\<exists>ps. accepted x' = accepted x @ ps" by auto
  have l: "length (accepted x) \<noteq> 0" if "pending x \<noteq> None" using assms(2) that by auto
  show "acknowledged x' = acknowledged x + (if acked then 1 else 0)"
    using acc l unfolding acknowledged_def by (cases acked; cases "pending x") auto
  show "\<forall>p. pending x' = Some p \<longrightarrow> accepted x' \<noteq> [] \<and> last (accepted x') = p"
    using acc assms(2) by (cases acked) auto
qed

lemma dir_sender:
  assumes dir: "h5_dir x seen_x y seen_y fx ks fy ms r" and st: "link_step got acked ds x gs x'"
    and seen: "seen_x \<le> seen_x'"
    and ack: "acked \<Longrightarrow> \<exists>i < length fy. seen_x \<le> i \<and> seen_x' = Suc i \<and> (f_reliable (fy ! i) \<or> f_type (fy ! i) = 0)
      \<and> f_ack (fy ! i) = hci_transport_link_inc_seq_nr (seq_of x)"
  shows "h5_dir x' seen_x' y seen_y (fx @ gs) (ks @ replicate (length gs) (acknowledged x')) fy ms r"
proof -
  let ?na = "acknowledged x" and ?na' = "acknowledged x'"
  have pend: "\<forall>p. pending x = Some p \<longrightarrow> accepted x \<noteq> [] \<and> last (accepted x) = p" using dir by (simp add: h5_dir_def)
  note na = acknowledged_step_count(1) [OF st pend] and pend' = acknowledged_step_count(2) [OF st pend]
  obtain ps where ps: "accepted x' = accepted x @ ps" using acknowledged_step_count(3) [OF st pend] by blast
  have d: "unat (seq_of x) = ?na mod 8" "unat (ack_of y) = r mod 8" "?na \<le> r" "r \<le> length (accepted x)" "length ks = length fx"
    "length ms = length fy" "sorted ks" "\<forall>k \<in> set ks. k \<le> ?na" "\<forall>i < length fx. seen_y \<le> i \<longrightarrow> r \<le> Suc (ks ! i)"
    "sorted ms" "\<forall>m \<in> set ms. m \<le> r" "\<forall>i < length fy. seen_x \<le> i \<longrightarrow> ?na \<le> ms ! i"
    using dir unfolding h5_dir_def by blast+
  have d1: "\<forall>i < length fx. f_reliable (fx ! i) \<longrightarrow> ks ! i < length (accepted x) \<and> unat (f_seq (fx ! i)) = ks ! i mod 8
          \<and> accepted x ! (ks ! i) = (f_type (fx ! i), f_payload (fx ! i))"
    and d2: "\<forall>i < length fy. f_reliable (fy ! i) \<or> f_type (fy ! i) = 0 \<longrightarrow> unat (f_ack (fy ! i)) = ms ! i mod 8"
    and d3: "delivered y = passed_on (take r (accepted x))" using dir unfolding h5_dir_def by blast+
  have le: "length (accepted x) \<le> Suc ?na" by (cases "pending x") (simp_all add: acknowledged_def)
  have na_r: "?na' \<le> r" and na_ms: "\<forall>i < length fy. seen_x' \<le> i \<longrightarrow> ?na' \<le> ms ! i"
  proof -
    have "?na' \<le> r \<and> (\<forall>i < length fy. seen_x' \<le> i \<longrightarrow> ?na' \<le> ms ! i)"
    proof (cases acked)
      case False
      then show ?thesis using na d(3,12) seen by (simp add: order_trans)
    next
      case True
      obtain i where i: "i < length fy" "seen_x \<le> i" "seen_x' = Suc i" "f_reliable (fy ! i) \<or> f_type (fy ! i) = 0"
        "f_ack (fy ! i) = hci_transport_link_inc_seq_nr (seq_of x)" using ack [OF True] by blast
      have "ms ! i mod 8 = Suc ?na mod 8" using d2 [rule_format, OF i(1,4)] i(5) d(1) inc_mod_8 [of "seq_of x"] by (simp add: mod_Suc_eq)
      moreover have "?na \<le> ms ! i" "ms ! i \<le> r" using d(6,11,12) i(1,2) by auto
      ultimately have m: "ms ! i = Suc ?na" using d(4) le near_mod_8 [of "ms ! i" "Suc ?na"] by linarith
      have "ms ! i \<le> ms ! j" if "Suc i \<le> j" "j < length fy" for j using d(6,10) that by (intro sorted_nth_mono) auto
      then show ?thesis using m \<open>ms ! i \<le> r\<close> na True i(3) by simp
    qed
    then show "?na' \<le> r" "\<forall>i < length fy. seen_x' \<le> i \<longrightarrow> ?na' \<le> ms ! i" by blast+
  qed
  have seq: "unat (seq_of x') = ?na' mod 8"
    using st d(1) na inc_mod_8 [of "seq_of x"] unfolding link_step_def by (simp add: mod_Suc_eq)
  have acc: "?na' < length (accepted x') \<and> accepted x' ! ?na' = p" if "pending x' = Some p" for p
    using pend' that last_conv_nth [of "accepted x'"] by (auto simp: acknowledged_def)
  have new: "?na' < length (accepted x') \<and> unat (f_seq g) = ?na' mod 8 \<and> accepted x' ! ?na' = (f_type g, f_payload g)"
    if "g \<in> set gs" "f_reliable g" for g
  proof -
    have "frame_for x' g" using st that(1) by (simp add: link_step_def)
    then have "f_seq g = seq_of x'" "pending x' = Some (f_type g, f_payload g)" using that(2) by (auto simp: frame_for_def)
    then show ?thesis using seq acc by simp
  qed
  have frames: "\<forall>i < length (fx @ gs). f_reliable ((fx @ gs) ! i) \<longrightarrow> (ks @ replicate (length gs) ?na') ! i < length (accepted x')
      \<and> unat (f_seq ((fx @ gs) ! i)) = (ks @ replicate (length gs) ?na') ! i mod 8
      \<and> accepted x' ! ((ks @ replicate (length gs) ?na') ! i) = (f_type ((fx @ gs) ! i), f_payload ((fx @ gs) ! i))"
  proof (intro allI impI)
    fix i assume i: "i < length (fx @ gs)" "f_reliable ((fx @ gs) ! i)"
    show "(ks @ replicate (length gs) ?na') ! i < length (accepted x') \<and> unat (f_seq ((fx @ gs) ! i)) = (ks @ replicate (length gs) ?na') ! i mod 8
      \<and> accepted x' ! ((ks @ replicate (length gs) ?na') ! i) = (f_type ((fx @ gs) ! i), f_payload ((fx @ gs) ! i))"
    proof (cases "i < length fx")
      case True
      then have e: "(fx @ gs) ! i = fx ! i" "(ks @ replicate (length gs) ?na') ! i = ks ! i" using d(5) by (simp_all add: nth_append)
      then have k: "ks ! i < length (accepted x)" "unat (f_seq (fx ! i)) = ks ! i mod 8" "accepted x ! (ks ! i) = (f_type (fx ! i), f_payload (fx ! i))"
        using d1 True i(2) by simp_all
      show ?thesis unfolding e ps using k by (simp add: nth_append)
    next
      case False
      then have "(fx @ gs) ! i \<in> set gs" "(ks @ replicate (length gs) ?na') ! i = ?na'" using i d(5) by (simp_all add: nth_append)
      then show ?thesis using new i(2) by simp
    qed
  qed
  have kk: "\<forall>k \<in> set (ks @ replicate (length gs) ?na'). k \<le> ?na'" using d(8) na by (auto intro: order_trans)
  have so: "sorted (ks @ replicate (length gs) ?na')"
    using d(7,8) na by (auto simp: sorted_append sorted_replicate intro: order_trans)
  have rk: "\<forall>i < length (fx @ gs). seen_y \<le> i \<longrightarrow> r \<le> Suc ((ks @ replicate (length gs) ?na') ! i)"
    using d(4,5,9) le na by (auto simp: nth_append)
  have rl: "r \<le> length (accepted x')" "take r (accepted x') = take r (accepted x)" using d(4) ps by simp_all
  show ?thesis unfolding h5_dir_def
    using pend' seq d(2) na_r rl d(5,6) frames so kk rk d2 d(10,11) na_ms d3 by simp
qed

lemma dir_receiver:
  assumes dir: "h5_dir x seen_x y seen_y fx ks fy ms r" and st: "link_step got acked ds y gs y'"
    and seen: "seen_y \<le> seen_y'"
    and got: "if got then \<exists>i < length fx. seen_y \<le> i \<and> seen_y' = Suc i \<and> f_reliable (fx ! i) \<and> f_seq (fx ! i) = ack_of y
        \<and> ds = passed_on [(f_type (fx ! i), f_payload (fx ! i))] else ds = []"
  shows "\<exists>r'. h5_dir x seen_x y' seen_y' fx ks (fy @ gs) (ms @ replicate (length gs) r') r'"
proof -
  let ?na = "acknowledged x"
  have d: "unat (seq_of x) = ?na mod 8" "unat (ack_of y) = r mod 8" "?na \<le> r" "r \<le> length (accepted x)" "length ks = length fx"
    "length ms = length fy" "sorted ks" "\<forall>k \<in> set ks. k \<le> ?na" "\<forall>i < length fx. seen_y \<le> i \<longrightarrow> r \<le> Suc (ks ! i)"
    "sorted ms" "\<forall>m \<in> set ms. m \<le> r" "\<forall>i < length fy. seen_x \<le> i \<longrightarrow> ?na \<le> ms ! i"
    using dir unfolding h5_dir_def by blast+
  have d1: "\<forall>i < length fx. f_reliable (fx ! i) \<longrightarrow> ks ! i < length (accepted x) \<and> unat (f_seq (fx ! i)) = ks ! i mod 8
          \<and> accepted x ! (ks ! i) = (f_type (fx ! i), f_payload (fx ! i))"
    and d2: "\<forall>i < length fy. f_reliable (fy ! i) \<or> f_type (fy ! i) = 0 \<longrightarrow> unat (f_ack (fy ! i)) = ms ! i mod 8"
    and d3: "delivered y = passed_on (take r (accepted x))"
    and pend: "\<forall>p. pending x = Some p \<longrightarrow> accepted x \<noteq> [] \<and> last (accepted x) = p" using dir unfolding h5_dir_def by blast+
  have dl: "delivered y' = delivered y @ ds" using st by (simp add: link_step_def)
  define r' where "r' = r + (if got then 1 else 0)"
  have r: "r' \<le> length (accepted x) \<and> (\<forall>i < length fx. seen_y' \<le> i \<longrightarrow> r' \<le> Suc (ks ! i))
    \<and> delivered y' = passed_on (take r' (accepted x))"
  proof (cases got)
    case False
    then show ?thesis using d(4,9) d3 got seen dl by (simp add: r'_def order_trans)
  next
    case True
    obtain i where i: "i < length fx" "seen_y \<le> i" "seen_y' = Suc i" "f_reliable (fx ! i)" "f_seq (fx ! i) = ack_of y"
      "ds = passed_on [(f_type (fx ! i), f_payload (fx ! i))]" using got True by auto
    have k: "ks ! i < length (accepted x)" "ks ! i mod 8 = r mod 8" "accepted x ! (ks ! i) = (f_type (fx ! i), f_payload (fx ! i))"
      using d1 i d(2) by auto
    have "r \<le> Suc (ks ! i)" "ks ! i \<le> r" using d(3,5,8,9) i(1,2) by (auto intro: order_trans)
    then have kr: "ks ! i = r" using k(2) near_mod_8 [of "ks ! i" r] by linarith
    have "ks ! i \<le> ks ! j" if "Suc i \<le> j" "j < length fx" for j using d(5,7) that by (intro sorted_nth_mono) auto
    then have "\<forall>j < length fx. seen_y' \<le> j \<longrightarrow> r' \<le> Suc (ks ! j)" using kr True i(3) by (auto simp: r'_def)
    moreover have "take r' (accepted x) = take r (accepted x) @ [(f_type (fx ! i), f_payload (fx ! i))]"
      using k(1,3) kr True by (simp add: r'_def take_Suc_conv_app_nth)
    ultimately show ?thesis using k(1) kr True d3 dl i(6) by (simp add: r'_def passed_on_def)
  qed
  have ack: "unat (ack_of y') = r' mod 8"
    using st d(2) inc_mod_8 [of "ack_of y"] unfolding link_step_def by (simp add: r'_def mod_Suc_eq)
  have new: "unat (f_ack g) = r' mod 8" if "g \<in> set gs" "f_reliable g \<or> f_type g = 0" for g
  proof -
    have "frame_for y' g" using st that(1) by (simp add: link_step_def)
    then show ?thesis using that(2) ack by (auto simp: frame_for_def)
  qed
  have frames: "\<forall>i < length (fy @ gs). f_reliable ((fy @ gs) ! i) \<or> f_type ((fy @ gs) ! i) = 0 \<longrightarrow>
      unat (f_ack ((fy @ gs) ! i)) = (ms @ replicate (length gs) r') ! i mod 8"
  proof (intro allI impI)
    fix i assume i: "i < length (fy @ gs)" "f_reliable ((fy @ gs) ! i) \<or> f_type ((fy @ gs) ! i) = 0"
    show "unat (f_ack ((fy @ gs) ! i)) = (ms @ replicate (length gs) r') ! i mod 8"
    proof (cases "i < length fy")
      case True
      then show ?thesis using d2 [rule_format, of i] i d(6) by (simp add: nth_append)
    next
      case False
      then have "(fy @ gs) ! i \<in> set gs" "(ms @ replicate (length gs) r') ! i = r'" using i d(6) by (simp_all add: nth_append)
      then show ?thesis using new i(2) by simp
    qed
  qed
  have le: "r \<le> r'" by (simp add: r'_def)
  have mm: "\<forall>m \<in> set (ms @ replicate (length gs) r'). m \<le> r'" using d(11) le by (auto intro: order_trans)
  have so: "sorted (ms @ replicate (length gs) r')"
    using d(10,11) le by (auto simp: sorted_append sorted_replicate intro: order_trans)
  have nr: "?na \<le> r'" using d(3) le by simp
  have mk: "\<forall>i < length (fy @ gs). seen_x \<le> i \<longrightarrow> ?na \<le> (ms @ replicate (length gs) r') ! i"
    using d(6,12) nr by (auto simp: nth_append)
  have "h5_dir x seen_x y' seen_y' fx ks (fy @ gs) (ms @ replicate (length gs) r') r'" unfolding h5_dir_def
    using pend d(1) ack nr r d(5,6) d1 d(7,8) frames so mm mk by simp
  then show ?thesis by blast
qed

lemma local_step:
  assumes ph: "h5_handler_ok ph" and wf: "h5_wf s" and "h5_local ph s s'"
  shows "\<exists>fs. link_step False False [] s fs s' \<and> h5_wf s' \<and> h5_decoder s' = h5_decoder s"
proof -
  have m: "\<exists>fs. link_step False False [] s fs s' \<and> h5_wf s' \<and> h5_decoder s' = h5_decoder s" if "\<exists>fs. h5_moves s fs s'"
  proof -
    from that obtain fs where fs: "h5_moves s fs s'" by blast
    have "h5_wf s'" "h5_decoder s' = h5_decoder s" using fs by (simp_all add: h5_moves_def)
    then show ?thesis using h5_step_link_step [OF h5_moves_step [OF fs]] by blast
  qed
  have i: "same_link s (s\<lparr> inactivity_timer := t \<rparr>)" "same_link s (s\<lparr> link_inactivity_timeout_ms := m \<rparr>)" for t m
    by (simp_all add: same_link_def accepted_def delivered_def sent_bytes_def has_action_def)
  show ?thesis
    using assms(3)
  proof cases
    case (local_send t p r)
    then show ?thesis using m send_packet_moves [OF ph wf] by blast
  next
    case local_timeout
    show ?thesis by (rule m, rule h5_moves_after_same_link [OF wf fields_same_link(1) timeout_moves]) (use local_timeout in simp_all)
  next
    case local_inactive
    show ?thesis by (rule m, rule h5_moves_after_same_link [OF wf i(1) inactivity_timeout_moves]) (use local_inactive in simp_all)
  next
    case local_sent
    then obtain fs where fs: "h5_step False False [] s fs s'" using block_sent_step [OF ph wf] by blast
    have "h5_wf s'" "h5_decoder s' = h5_decoder s" using fs by (simp_all add: h5_step_def)
    then show ?thesis using h5_step_link_step [OF fs] by blast
  next
    case (local_auto_sleep t)
    then show ?thesis using m same_link_moves [OF wf i(2)] by (auto simp: hci_transport_h5_set_auto_sleep_def)
  qed
qed

definition h5_pair :: "h5 \<Rightarrow> nat \<Rightarrow> h5 \<Rightarrow> nat \<Rightarrow> bool" where
  "h5_pair x seen_x y seen_y \<longleftrightarrow> h5_wf x \<and> decoder_fresh x \<and> h5_wf y \<and> decoder_fresh y
     \<and> (\<exists>fx fy kx my rx ky mx ry. h5_out x = concat (map wire fx) \<and> h5_out y = concat (map wire fy)
         \<and> (\<forall>f \<in> set fx. peer_frame f) \<and> (\<forall>f \<in> set fy. peer_frame f)
         \<and> h5_dir x seen_x y seen_y fx kx fy my rx \<and> h5_dir y seen_y x seen_x fy ky fx mx ry)"

lemma pair_sym: "h5_pair x seen_x y seen_y \<Longrightarrow> h5_pair y seen_y x seen_x"
  unfolding h5_pair_def by blast

lemma pair_step:
  assumes wf: "h5_wf x'" "decoder_fresh x'" and pair: "h5_pair x seen_x y seen_y" and st: "link_step got acked ds x gs x'"
    and seen: "seen_x \<le> seen_x'"
    and arrived: "\<And>fy. h5_out y = concat (map wire fy) \<Longrightarrow> \<forall>f \<in> set fy. peer_frame f \<Longrightarrow>
      got = False \<and> acked = False \<and> ds = [] \<or>
      (\<exists>i < length fy. seen_x \<le> i \<and> seen_x' = Suc i
        \<and> (got \<longrightarrow> f_reliable (fy ! i) \<and> f_seq (fy ! i) = ack_of x) \<and> ds = (if got then passed_on [(f_type (fy ! i), f_payload (fy ! i))] else [])
        \<and> (acked \<longrightarrow> (f_reliable (fy ! i) \<or> f_type (fy ! i) = 0) \<and> f_ack (fy ! i) = hci_transport_link_inc_seq_nr (seq_of x)))"
  shows "h5_pair x' seen_x' y seen_y"
proof -
  obtain fx fy kx my rx ky mx ry where f: "h5_out x = concat (map wire fx)" "h5_out y = concat (map wire fy)"
    "\<forall>f \<in> set fx. peer_frame f" "\<forall>f \<in> set fy. peer_frame f"
    and d: "h5_dir x seen_x y seen_y fx kx fy my rx" "h5_dir y seen_y x seen_x fy ky fx mx ry"
    and w: "h5_wf y" "decoder_fresh y" using pair unfolding h5_pair_def by blast
  note ar = arrived [OF f(2,4)]
  have "h5_dir x' seen_x' y seen_y (fx @ gs) (kx @ replicate (length gs) (acknowledged x')) fy my rx"
    by (rule dir_sender [OF d(1) st seen]) (use ar in auto)
  moreover have "\<exists>r'. h5_dir y seen_y x' seen_x' fy ky (fx @ gs) (mx @ replicate (length gs) r') r'"
    by (rule dir_receiver [OF d(2) st seen]) (use ar in auto)
  moreover have "h5_out x' = concat (map wire (fx @ gs))" using st f(1) by (simp add: link_step_def)
  moreover have "\<forall>f \<in> set (fx @ gs). peer_frame f" using f(3) st frame_for_peer by (auto simp: link_step_def)
  ultimately show ?thesis unfolding h5_pair_def using wf w f(2,4) by blast
qed

lemma pair_local:
  assumes "h5_handler_ok ph" and "h5_pair x seen_x y seen_y" and "h5_local ph x x'"
  shows "h5_pair x' seen_x y seen_y"
proof -
  have w: "h5_wf x" "decoder_fresh x" using assms(2) by (simp_all add: h5_pair_def)
  obtain fs where fs: "link_step False False [] x fs x'" "h5_wf x'" "h5_decoder x' = h5_decoder x"
    using local_step [OF assms(1) w(1) assms(3)] by blast
  have "decoder_fresh x'" using w(2) unfolding decoder_fresh_def fs(3) .
  then show ?thesis using pair_step [OF fs(2) _ assms(2) fs(1) order_refl] by blast
qed

lemma pair_arrives:
  assumes ph: "h5_handler_ok ph" and pair: "h5_pair x seen_x y seen_y" and "h5_arrives ph y seen_x i x x'"
  shows "h5_pair x' (Suc i) y seen_y"
proof -
  have w: "h5_wf x" "decoder_fresh x" using pair by (simp_all add: h5_pair_def)
  obtain fs where fs: "\<forall>f \<in> set fs. frame_ok f" "h5_out y = concat (map wire fs)" "seen_x \<le> i" "i < length fs"
    "length (frame_bytes (fs ! i)) \<le> length (dec_buffer (h5_decoder x))" "h5_receive ph (wire (fs ! i)) x = Some x'"
    using assms(3) unfolding h5_arrives_def by blast
  have uniq: "fy = fs" if "h5_out y = concat (map wire fy)" "\<forall>f \<in> set fy. peer_frame f" for fy
    by (rule wire_inject) (use that fs(1,2) in \<open>auto simp: peer_frame_def\<close>)
  obtain fy where fy: "h5_out y = concat (map wire fy)" "\<forall>f \<in> set fy. peer_frame f" using pair unfolding h5_pair_def by blast
  have p: "peer_frame (fs ! i)" using fy(2) fs(4) uniq [OF fy] by simp
  obtain got acked gs where st: "link_step got acked (if got \<and> f_type (fs ! i) \<in> {2, 3, 4} then [(f_type (fs ! i), f_payload (fs ! i))] else []) x gs x'"
    "got \<longrightarrow> f_reliable (fs ! i) \<and> f_seq (fs ! i) = ack_of x"
    "acked \<longrightarrow> (f_reliable (fs ! i) \<or> f_type (fs ! i) = 0) \<and> f_ack (fs ! i) = hci_transport_link_inc_seq_nr (seq_of x)"
    "h5_wf x'" "decoder_fresh x'"
    using receive_wire [OF ph w p fs(5,6)] by blast
  show ?thesis
  proof (rule pair_step [OF st(4,5) pair st(1)])
    show "seen_x \<le> Suc i" using fs(3) by simp
  next
    fix fz assume "h5_out y = concat (map wire fz)" "\<forall>f \<in> set fz. peer_frame f"
    then have "fz = fs" by (rule uniq)
    then show "got = False \<and> acked = False
        \<and> (if got \<and> f_type (fs ! i) \<in> {2, 3, 4} then [(f_type (fs ! i), f_payload (fs ! i))] else []) = [] \<or>
      (\<exists>j < length fz. seen_x \<le> j \<and> Suc i = Suc j
        \<and> (got \<longrightarrow> f_reliable (fz ! j) \<and> f_seq (fz ! j) = ack_of x)
        \<and> (if got \<and> f_type (fs ! i) \<in> {2, 3, 4} then [(f_type (fs ! i), f_payload (fs ! i))] else [])
          = (if got then passed_on [(f_type (fz ! j), f_payload (fz ! j))] else [])
        \<and> (acked \<longrightarrow> (f_reliable (fz ! j) \<or> f_type (fz ! j) = 0) \<and> f_ack (fz ! j) = hci_transport_link_inc_seq_nr (seq_of x)))"
      using fs(3,4) st(2,3) by (intro disjI2 exI [of _ i]) (auto simp: passed_on_def)
  qed
qed

lemma new_dir:
  assumes "h5_new x" and "h5_new y" and "\<forall>f \<in> set fx. \<not> f_reliable f" and "\<forall>f \<in> set fy. \<not> f_reliable f \<and> f_type f \<noteq> 0"
  shows "h5_dir x n y m fx (replicate (length fx) 0) fy (replicate (length fy) 0) 0"
  using assms by (auto simp: h5_dir_def h5_new_def acknowledged_def passed_on_def dest: nth_mem)

lemma pair_new:
  assumes "h5_new x" and "h5_new y"
  shows "h5_pair x n y m"
proof -
  obtain fx where fx: "h5_out x = concat (map wire fx)" "\<forall>f \<in> set fx. frame_ok f \<and> \<not> f_reliable f \<and> f_type f = LINK_CONTROL_PACKET_TYPE"
    using assms(1) by (auto simp: h5_new_def)
  obtain fy where fy: "h5_out y = concat (map wire fy)" "\<forall>f \<in> set fy. frame_ok f \<and> \<not> f_reliable f \<and> f_type f = LINK_CONTROL_PACKET_TYPE"
    using assms(2) by (auto simp: h5_new_def)
  have p: "\<forall>f \<in> set fx. peer_frame f" "\<forall>f \<in> set fy. peer_frame f" using fx(2) fy(2) by (auto simp: peer_frame_def)
  have "h5_dir x n y m fx (replicate (length fx) 0) fy (replicate (length fy) 0) 0" by (rule new_dir) (use assms fx(2) fy(2) in auto)
  moreover have "h5_dir y m x n fy (replicate (length fy) 0) fx (replicate (length fx) 0) 0" by (rule new_dir) (use assms fx(2) fy(2) in auto)
  moreover have "h5_wf x \<and> decoder_fresh x \<and> h5_wf y \<and> decoder_fresh y" using assms by (simp add: h5_new_def)
  ultimately show ?thesis unfolding h5_pair_def using fx(1) fy(1) p by blast
qed

lemma net_pair:
  assumes "h5_handler_ok pa" and "h5_handler_ok pb" and "h5_net_run pa pb n"
  shows "h5_pair (end_a n) (seen_a n) (end_b n) (seen_b n)"
  using assms(3)
proof induction
  case (net_new n)
  then show ?case by (rule pair_new)
next
  case (net_step n n')
  from net_step(2,3) show ?case
  proof cases
    case (net_local_a s)
    then show ?thesis using pair_local [OF assms(1) net_step(3)] by simp
  next
    case (net_local_b s)
    then show ?thesis using pair_sym [OF pair_local [OF assms(2) pair_sym [OF net_step(3)]]] by simp
  next
    case (net_arrive_a i s)
    then show ?thesis using pair_arrives [OF assms(1) net_step(3)] by simp
  next
    case (net_arrive_b i s)
    then show ?thesis using pair_sym [OF pair_arrives [OF assms(2) pair_sym [OF net_step(3)]]] by simp
  qed
qed

lemma dir_result:
  assumes "h5_dir x seen_x y seen_y fx ks fy ms r"
  shows "acknowledged x \<le> r \<and> r \<le> length (accepted x) \<and> delivered y = passed_on (take r (accepted x))"
  using assms unfolding h5_dir_def by (elim conjE) (intro conjI)

end
