(* ===== verification/H5_Delivery.thy ===== *)
theory H5_Delivery
  imports H5_Net
begin

text \<open>
  What the link promises the upper layers: nothing is delivered twice, out of order or without having been sent, whatever the wires
  lose; and while they lose nothing, everything that is sent is delivered.
\<close>

section \<open>Upper layers\<close>

text \<open>An upper layer that takes what it is given and does nothing with the transport; and one that answers every call with a packet
  of its own, whenever the transport takes one.\<close>

definition ack_frame :: "u8 \<Rightarrow> h5_frame" where
  "ack_frame n = \<lparr> f_reliable = False, f_seq = 0, f_ack = n, f_dic = False, f_type = LINK_ACKNOWLEDGEMENT_TYPE, f_payload = [] \<rparr>"

definition h5_sink :: h5_handler where "h5_sink t p s = Some s"

lemma sink_ok: "h5_handler_ok h5_sink"
  unfolding h5_handler_ok_def h5_sink_def using h5_moves_refl by blast

definition h5_answer :: "u8 \<Rightarrow> buffer \<Rightarrow> h5_handler" where
  "h5_answer t p _ _ s = map_option snd (hci_transport_h5_send_packet h5_sink t p (of_nat (length p)) s)"

lemma answer_ok: "packet_ok t p \<Longrightarrow> h5_handler_ok (h5_answer t p)"
  unfolding h5_handler_ok_def h5_answer_def using send_packet_moves [OF sink_ok] by auto

section \<open>Getting through\<close>

lemma send_frame_block:
  assumes "out_ok s" and "frame_ok f" and "f_dic f \<Longrightarrow> dic = frame_crc (frame_header f) (f_payload f)"
  shows "\<exists>b s'. hci_transport_slip_send_frame (frame_header f) (f_payload f) (of_nat (length (f_payload f))) dic s = Some s'
    \<and> sends_block s b s' \<and> out_ok s' \<and> b @ h5_outgoing s' = wire f"
proof -
  have l: "length (f_payload f) < 4096" using assms(2) by (simp add: frame_ok_def)
  have u: "unat (of_nat (length (f_payload f)) :: u16) = length (f_payload f)" by (rule unat_of_nat_u16) (use l in simp)
  show ?thesis
    using send_frame [OF assms(1), of "frame_header f" "of_nat (length (f_payload f))" "f_payload f" dic] u assms(3)
    by (auto simp: frame_header_dic [OF assms(2)] wire_def frame_bytes_def)
qed

definition packet_frame :: "h5 \<Rightarrow> buffer \<Rightarrow> h5_frame" where
  "packet_frame s p = \<lparr> f_reliable = True, f_seq = link_seq_nr s, f_ack = link_ack_nr s,
     f_dic = (link_peer_supports_data_integrity_check s \<noteq> 0), f_type = hci_packet_type s, f_payload = p \<rparr>"

lemma packet_frame_ok:
  assumes "h5_wf s" and "hci_packet s = Some p"
  shows "frame_ok (packet_frame s p)" and "peer_frame (packet_frame s p)"
proof -
  have pk: "packet_ok (hci_packet_type s) p" using assms by (simp add: h5_wf_def)
  then have "hci_packet_type s < 16" unfolding packet_ok_def by (auto intro: order_le_less_trans)
  then show "frame_ok (packet_frame s p)" using assms(1) pk by (simp add: frame_ok_def packet_frame_def h5_wf_def packet_ok_def)
  then show "peer_frame (packet_frame s p)" using pk by (simp add: peer_frame_def packet_frame_def packet_ok_def)
qed

lemma send_queued_packet_Some:
  assumes "h5_wf s" and "hci_packet s = Some p"
  shows "\<exists>b s'. hci_transport_link_send_queued_packet s = Some (hci_transport_inactivity_timer_set s')
    \<and> sends_block s b s' \<and> out_ok s' \<and> b @ h5_outgoing s' = wire (packet_frame s p)"
proof -
  let ?d = "link_peer_supports_data_integrity_check s" and ?f = "packet_frame s p"
  have pk: "packet_ok (hci_packet_type s) p" "hci_packet_size s = of_nat (length p)" using assms by (simp_all add: h5_wf_def)
  have l: "length p < 4096" using pk(1) by (simp add: packet_ok_def)
  have u: "unat (hci_packet_size s) = length p" unfolding pk(2) by (rule unat_of_nat_u16) (use l in simp)
  have h: "hci_transport_link_calc_header (link_seq_nr s) (link_ack_nr s) ?d 1 (hci_packet_type s) (hci_packet_size s) = frame_header ?f"
    using assms(1) pk(2) by (auto simp: frame_header_def packet_frame_def h5_wf_def)
  have c: "crc16_calc_for_slip_frame (frame_header ?f) p (hci_packet_size s) = Some (frame_crc (frame_header ?f) p)"
    using crc16_calc [of "frame_header ?f" "hci_packet_size s" p] u by simp
  let ?dic = "if ?d \<noteq> 0 then frame_crc (frame_header ?f) p else 0"
  have fp: "f_payload ?f = p" "f_dic ?f \<longleftrightarrow> ?d \<noteq> 0" by (simp_all add: packet_frame_def)
  obtain b s1 where s1: "hci_transport_slip_send_frame (frame_header ?f) p (of_nat (length p)) ?dic s = Some s1" "sends_block s b s1"
    "out_ok s1" "b @ h5_outgoing s1 = wire ?f"
    using send_frame_block [OF _ packet_frame_ok(1) [OF assms], of s ?dic] assms(1) unfolding fp by (auto simp: h5_wf_def)
  have "hci_transport_link_send_queued_packet s = Some (hci_transport_inactivity_timer_set s1)"
    using s1(1) h c assms(2) unfolding pk(2) by (cases "?d = 0") (simp_all add: hci_transport_link_send_queued_packet_def Let_def pk(2))
  then show ?thesis using s1(2-4) by blast
qed

lemma send_ack_packet_Some:
  assumes "h5_wf s"
  shows "\<exists>b s'. hci_transport_link_send_ack_packet s = Some s' \<and> sends_block s b s' \<and> out_ok s' \<and> b @ h5_outgoing s' = wire (ack_frame (link_ack_nr s))"
proof -
  have "frame_ok (ack_frame (link_ack_nr s))" using assms by (simp add: frame_ok_def ack_frame_def h5_wf_def)
  from send_frame_block [OF _ this, of s 0] show ?thesis
    using assms by (auto simp: hci_transport_link_send_ack_packet_def ack_frame_def frame_header_def h5_wf_def)
qed

text \<open>An end that has nothing to do, and one that waits for an acknowledgement.\<close>

definition h5_rests :: "h5 \<Rightarrow> bool" where
  "h5_rests s \<longleftrightarrow> h5_wf s \<and> decoder_fresh s \<and> link_state s = LINK_ACTIVE \<and> hci_transport_link_actions s = 0 \<and> \<not> slip_write_active s
     \<and> \<not> link_peer_asleep s \<and> uart_baudrate s \<noteq> 0 \<and> 4 \<le> length (dec_buffer (h5_decoder s))"

definition h5_idle :: "h5 \<Rightarrow> bool" where
  "h5_idle s \<longleftrightarrow> h5_rests s \<and> hci_packet s = None \<and> link_timer s = None"

text \<open>What the UART changes while it takes the rest of a frame.\<close>

definition sent_on :: "h5 \<Rightarrow> h5 \<Rightarrow> bool" where
  "sent_on s s' \<longleftrightarrow> (\<exists>e ob dic present ts. set ts \<subseteq> range Send_block \<and> s' = s\<lparr> h5_encoder := e, slip_outgoing_buffer := ob, slip_outgoing_dic := dic,
     slip_outgoing_dic_present := present, slip_write_active := False, h5_trace := h5_trace s @ ts \<rparr>)"

lemma sent_on_simps:
  assumes "sent_on s s'"
  shows "link_state s' = link_state s" "link_timer s' = link_timer s" "link_seq_nr s' = link_seq_nr s"
    "link_ack_nr s' = link_ack_nr s" "link_peer_asleep s' = link_peer_asleep s"
    "link_peer_supports_data_integrity_check s' = link_peer_supports_data_integrity_check s"
    "hci_packet_type s' = hci_packet_type s" "hci_packet_size s' = hci_packet_size s" "hci_packet s' = hci_packet s"
    "hci_transport_link_actions s' = hci_transport_link_actions s" "h5_decoder s' = h5_decoder s"
    "\<not> slip_write_active s'" "uart_baudrate s' = uart_baudrate s" "accepted s' = accepted s" "delivered s' = delivered s"
proof -
  have "concat (map accept_of ts) = [] \<and> concat (map deliver_of ts) = []" if "set ts \<subseteq> range Send_block" for ts
    using that by (induction ts) auto
  then show "accepted s' = accepted s" "delivered s' = delivered s" using assms by (auto simp: sent_on_def accepted_def delivered_def)
qed (use assms in \<open>auto simp: sent_on_def\<close>)

lemma sends_block_sent_on:
  assumes "sends_block s b s1" and "sent_on s1 s'"
  shows "sent_on s s'"
proof -
  obtain e ob dic present ts where s': "set ts \<subseteq> range Send_block" "s' = s1\<lparr> h5_encoder := e, slip_outgoing_buffer := ob,
     slip_outgoing_dic := dic, slip_outgoing_dic_present := present, slip_write_active := False, h5_trace := h5_trace s1 @ ts \<rparr>"
    using assms(2) unfolding sent_on_def by blast
  have "s' = s\<lparr> h5_encoder := e, slip_outgoing_buffer := ob, slip_outgoing_dic := dic, slip_outgoing_dic_present := present,
     slip_write_active := False, h5_trace := h5_trace s @ (Send_block b # ts) \<rparr>" using assms(1) s'(2) unfolding sends_block_def by force
  moreover have "set (Send_block b # ts) \<subseteq> range Send_block" using s'(1) by simp
  ultimately show ?thesis unfolding sent_on_def by blast
qed

lemma drain:
  assumes "out_ok s" and "slip_write_active s" and "hci_transport_link_actions s = 0"
  shows "\<exists>s'. (h5_local ph)\<^sup>*\<^sup>* s s' \<and> sent_on s s' \<and> out_ok s' \<and> h5_outgoing s' = [] \<and> sent_bytes s' = sent_bytes s @ h5_outgoing s"
  using assms
proof (induction "length (h5_outgoing s)" arbitrary: s rule: less_induct)
  case less
  show ?case
  proof (cases "h5_outgoing s = []")
    case True
    let ?s = "s\<lparr> slip_write_active := False \<rparr>"
    have "hci_transport_h5_block_sent ph s = Some ?s"
      using block_sent_done [OF less.prems(1) True] less.prems(3)
      by (simp add: hci_transport_h5_block_sent_def hci_transport_link_run_def has_action_def)
    then have "h5_local ph s ?s" using less.prems(2) by (rule local_sent [rotated])
    moreover have "sent_on s ?s" unfolding sent_on_def
      by (rule exI [of _ "h5_encoder s"], rule exI [of _ "slip_outgoing_buffer s"], rule exI [of _ "slip_outgoing_dic s"],
          rule exI [of _ "slip_outgoing_dic_present s"], rule exI [of _ "[]"]) simp
    moreover have "h5_outgoing ?s = h5_outgoing s" "sent_bytes ?s = sent_bytes s" by (simp_all add: h5_outgoing_def frame_end_def sent_bytes_def)
    ultimately show ?thesis using less.prems(1) True by (intro exI [of _ ?s]) (auto simp: out_ok_def)
  next
    case False
    obtain b s1 where b: "hci_transport_h5_block_sent ph s = Some s1" "sends_block s b s1" "out_ok s1" "b @ h5_outgoing s1 = h5_outgoing s" "b \<noteq> []"
      using block_sent_continues [OF less.prems(1) False] by blast
    have l: "length (h5_outgoing s1) < length (h5_outgoing s)" using b(5) unfolding b(4) [symmetric] by simp
    note w = sends_block_simps [OF b(2)]
    obtain s' where s': "(h5_local ph)\<^sup>*\<^sup>* s1 s'" "sent_on s1 s'" "out_ok s'" "h5_outgoing s' = []"
      "sent_bytes s' = sent_bytes s1 @ h5_outgoing s1" using less.hyps [OF l b(3) w(13)] w(11) less.prems(3) by auto
    have "h5_local ph s s1" using b(1) less.prems(2) by (rule local_sent [rotated])
    then have "(h5_local ph)\<^sup>*\<^sup>* s s'" using s'(1) by (rule converse_rtranclp_into_rtranclp)
    moreover have "sent_bytes s' = sent_bytes s @ h5_outgoing s" using s'(5) b(4) by (simp add: sends_block_views(6) [OF b(2)])
    ultimately show ?thesis using s'(3,4) sends_block_sent_on [OF b(2) s'(2)] by blast
  qed
qed

lemma sent_on_wf:
  assumes "h5_wf s" and "sent_on s s'" and "out_ok s'" and "h5_outgoing s' = []"
  shows "h5_wf s'"
  using assms(1,3,4) unfolding h5_wf_def sent_on_simps [OF assms(2)] has_action_def by simp

lemma drain_rests:
  assumes "h5_wf s" and "decoder_fresh s" and "slip_write_active s" and "hci_transport_link_actions s = 0" and "link_state s = LINK_ACTIVE"
    and "\<not> link_peer_asleep s" and "uart_baudrate s \<noteq> 0" and "4 \<le> length (dec_buffer (h5_decoder s))"
  shows "\<exists>s'. (h5_local ph)\<^sup>*\<^sup>* s s' \<and> sent_on s s' \<and> h5_rests s' \<and> h5_out s' = h5_out s"
proof -
  obtain s' where s': "(h5_local ph)\<^sup>*\<^sup>* s s'" "sent_on s s'" "out_ok s'" "h5_outgoing s' = []" "sent_bytes s' = sent_bytes s @ h5_outgoing s"
    using drain [of s ph] assms(1,3,4) by (auto simp: h5_wf_def)
  note v = sent_on_simps [OF s'(2)]
  have "h5_rests s'" using sent_on_wf [OF assms(1) s'(2-4)] assms(2,4-8) unfolding h5_rests_def decoder_fresh_def v by (simp add: v(12))
  then show ?thesis using s' by (auto simp: h5_out_def)
qed

lemma inactivity_timer_set_simps [simp]:
  "link_state (hci_transport_inactivity_timer_set s) = link_state s" "link_timer (hci_transport_inactivity_timer_set s) = link_timer s"
  "link_seq_nr (hci_transport_inactivity_timer_set s) = link_seq_nr s" "link_ack_nr (hci_transport_inactivity_timer_set s) = link_ack_nr s"
  "link_peer_asleep (hci_transport_inactivity_timer_set s) = link_peer_asleep s"
  "link_peer_supports_data_integrity_check (hci_transport_inactivity_timer_set s) = link_peer_supports_data_integrity_check s"
  "hci_packet (hci_transport_inactivity_timer_set s) = hci_packet s" "hci_packet_type (hci_transport_inactivity_timer_set s) = hci_packet_type s"
  "hci_packet_size (hci_transport_inactivity_timer_set s) = hci_packet_size s"
  "hci_transport_link_actions (hci_transport_inactivity_timer_set s) = hci_transport_link_actions s"
  "slip_write_active (hci_transport_inactivity_timer_set s) = slip_write_active s" "h5_decoder (hci_transport_inactivity_timer_set s) = h5_decoder s"
  "uart_baudrate (hci_transport_inactivity_timer_set s) = uart_baudrate s" "accepted (hci_transport_inactivity_timer_set s) = accepted s"
  "delivered (hci_transport_inactivity_timer_set s) = delivered s" "h5_out (hci_transport_inactivity_timer_set s) = h5_out s"
  "out_ok (hci_transport_inactivity_timer_set s) = out_ok s" "h5_outgoing (hci_transport_inactivity_timer_set s) = h5_outgoing s"
  by (simp_all add: hci_transport_inactivity_timer_set_def accepted_def delivered_def h5_out_def sent_bytes_def h5_outgoing_def frame_end_def out_ok_def)

lemma send_idle:
  assumes a: "h5_idle a" and p: "packet_ok t p"
  shows "\<exists>a'. (h5_local h5_sink)\<^sup>*\<^sup>* a a' \<and> h5_rests a' \<and> hci_packet a' = Some p \<and> hci_packet_type a' = t
    \<and> link_seq_nr a' = link_seq_nr a \<and> link_ack_nr a' = link_ack_nr a \<and> h5_decoder a' = h5_decoder a
    \<and> accepted a' = accepted a @ [(t, p)] \<and> delivered a' = delivered a \<and> h5_out a' = h5_out a @ wire (packet_frame a' p)"
proof -
  define a1 where "a1 = a\<lparr> hci_packet := Some p, hci_packet_type := t, hci_packet_size := of_nat (length p),
    h5_trace := h5_trace a @ [Accept t p], link_timer := Some (link_resend_timeout_ms a) \<rparr>"
  have rest: "h5_wf a" "decoder_fresh a" "link_state a = LINK_ACTIVE" "hci_transport_link_actions a = 0" "\<not> slip_write_active a"
    "\<not> link_peer_asleep a" "uart_baudrate a \<noteq> 0" "4 \<le> length (dec_buffer (h5_decoder a))" "hci_packet a = None" "link_timer a = None"
    using a by (simp_all add: h5_idle_def h5_rests_def)
  have o1: "h5_outgoing a1 = h5_outgoing a" "out_ok a1 = out_ok a" by (simp_all add: a1_def h5_outgoing_def frame_end_def out_ok_def)
  have wf1: "h5_wf a1" using rest(1,3,4) p unfolding h5_wf_def o1 by (simp add: a1_def has_action_def)
  have v1: "accepted a1 = accepted a @ [(t, p)]" "delivered a1 = delivered a" "h5_out a1 = h5_out a" "h5_outgoing a1 = []"
    using rest(1,5) unfolding h5_out_def o1 by (simp_all add: a1_def accepted_def delivered_def sent_bytes_def h5_wf_def)
  obtain b a2 where a2: "hci_transport_link_send_queued_packet a1 = Some (hci_transport_inactivity_timer_set a2)" "sends_block a1 b a2" "out_ok a2"
    "b @ h5_outgoing a2 = wire (packet_frame a1 p)"
    using send_queued_packet_Some [OF wf1, of p] by (auto simp: a1_def)
  note w = sends_block_simps [OF a2(2)] and w' = sends_block_views [OF a2(2)]
  let ?a3 = "hci_transport_inactivity_timer_set a2"
  have cl: "clear_action HCI_TRANSPORT_LINK_SEND_ACK_PACKET (clear_action HCI_TRANSPORT_LINK_SEND_QUEUED_PACKET
      (a\<lparr> hci_packet := Some p, hci_packet_type := t, hci_packet_size := of_nat (length p), h5_trace := h5_trace a @ [Accept t p],
        hci_transport_link_actions := HCI_TRANSPORT_LINK_SEND_QUEUED_PACKET, link_timer := Some (link_resend_timeout_ms a) \<rparr>)) = a1"
    using rest(4) by (simp add: clear_action_def a1_def)
  have "hci_transport_h5_send_packet h5_sink t p (of_nat (length p)) a = Some (0, ?a3)"
    using rest(3-6,9,10) a2(1) cl
    by (simp add: hci_transport_h5_send_packet_def hci_transport_h5_can_send_packet_now_def hci_transport_link_have_outgoing_packet_def trace_def
        hci_transport_h5_queue_packet_def hci_transport_link_set_timer_def add_action_def hci_transport_link_run_def has_action_def)
  then have l: "h5_local h5_sink a ?a3" by (rule local_send [OF p])
  have wf3: "h5_wf ?a3" using wf1 a2(3) unfolding h5_wf_def inactivity_timer_set_simps has_action_def w(1-12) by (simp add: w(13))
  have f1: "h5_decoder a1 = h5_decoder a" "hci_transport_link_actions a1 = 0" "link_state a1 = LINK_ACTIVE" "\<not> link_peer_asleep a1"
    "uart_baudrate a1 = uart_baudrate a" "link_seq_nr a1 = link_seq_nr a" "link_ack_nr a1 = link_ack_nr a" "hci_packet a1 = Some p" "hci_packet_type a1 = t"
    using rest by (simp_all add: a1_def)
  obtain a' where a': "(h5_local h5_sink)\<^sup>*\<^sup>* ?a3 a'" "sent_on ?a3 a'" "h5_rests a'" "h5_out a' = h5_out ?a3"
    using drain_rests [OF wf3, of h5_sink] rest(2,7,8) by (auto simp: w f1 decoder_fresh_def)
  note x = sent_on_simps [OF a'(2)]
  have pf: "packet_frame a' p = packet_frame a1 p" by (simp add: packet_frame_def x w)
  have "h5_out a' = h5_out a @ wire (packet_frame a' p)"
  proof -
    have "h5_out a2 = h5_out a1 @ wire (packet_frame a1 p)" using a2(4) v1(4) by (simp add: h5_out_def w'(6))
    then show ?thesis using a'(4) v1(3) unfolding pf by simp
  qed
  then show ?thesis using converse_rtranclp_into_rtranclp [of "h5_local h5_sink", OF l a'(1)] a'(3)
    by (intro exI [of _ a']) (simp add: x w w' f1 v1)
qed

lemma next_byte_simps:
  fixes s
  defines "s' \<equiv> hci_transport_h5_read_next_byte (hci_transport_slip_init s)"
  shows "link_state s' = link_state s" "link_timer s' = link_timer s" "link_seq_nr s' = link_seq_nr s" "link_ack_nr s' = link_ack_nr s"
    "link_peer_asleep s' = link_peer_asleep s" "hci_packet s' = hci_packet s" "hci_transport_link_actions s' = hci_transport_link_actions s"
    "slip_write_active s' = slip_write_active s" "uart_baudrate s' = uart_baudrate s"
    "length (dec_buffer (h5_decoder s')) = length (dec_buffer (h5_decoder s))"
    "length (dec_buffer (h5_decoder s)) < 65536 \<Longrightarrow> decoder_fresh s'"
  by (simp_all add: s'_def hci_transport_h5_read_next_byte_def hci_transport_slip_init_def trace_def btstack_slip_decoder_init_def
      btstack_slip_decoder_reset_def decoder_fresh_def)

lemma deliver_views:
  fixes s n t p
  defines "s' \<equiv> s\<lparr> link_ack_nr := n, link_peer_asleep := False, h5_trace := h5_trace s @ [Deliver t p] \<rparr>"
  shows "accepted s' = accepted s" "delivered s' = delivered s @ [(t, p)]" "h5_out s' = h5_out s" "out_ok s' = out_ok s"
    "h5_outgoing s' = h5_outgoing s"
  by (simp_all add: s'_def accepted_def delivered_def h5_out_def sent_bytes_def h5_outgoing_def frame_end_def out_ok_def)

lemma receive_idle:
  assumes b: "h5_idle b" and f: "frame_ok f" and r: "f_reliable f" "f_seq f = link_ack_nr b" "f_type f \<in> {2, 3, 4}"
    and fit: "length (frame_bytes f) \<le> length (dec_buffer (h5_decoder b))"
  shows "\<exists>b' b''. h5_receive h5_sink (wire f) b = Some b' \<and> (h5_local h5_sink)\<^sup>*\<^sup>* b' b'' \<and> h5_idle b''
    \<and> link_seq_nr b'' = link_seq_nr b \<and> link_ack_nr b'' = hci_transport_link_inc_seq_nr (link_ack_nr b)
    \<and> length (dec_buffer (h5_decoder b'')) = length (dec_buffer (h5_decoder b))
    \<and> accepted b'' = accepted b \<and> delivered b'' = delivered b @ [(f_type f, f_payload f)]
    \<and> h5_out b'' = h5_out b @ wire (ack_frame (hci_transport_link_inc_seq_nr (link_ack_nr b)))"
proof -
  let ?n = "hci_transport_link_inc_seq_nr (link_ack_nr b)"
  have rest: "h5_wf b" "decoder_fresh b" "link_state b = LINK_ACTIVE" "hci_transport_link_actions b = 0" "\<not> slip_write_active b"
    "\<not> link_peer_asleep b" "uart_baudrate b \<noteq> 0" "4 \<le> length (dec_buffer (h5_decoder b))" "hci_packet b = None" "link_timer b = None"
    using b by (simp_all add: h5_idle_def h5_rests_def)
  have ne: "frame_bytes f \<noteq> []" using frame_bytes_length [of f] by auto
  obtain d junk ts where d: "dec_buffer d = frame_bytes f @ junk" "length (dec_buffer d) = length (dec_buffer (h5_decoder b))"
    "set ts \<subseteq> {Receive_byte}"
    "h5_receive h5_sink (slip_frame (frame_bytes f)) b = (if uart_baudrate b = 0 then None else do {
        s \<leftarrow> hci_transport_h5_process_frame h5_sink (of_nat (length (frame_bytes f))) (b\<lparr> h5_decoder := d, h5_trace := h5_trace b @ ts \<rparr>);
        Some (hci_transport_h5_read_next_byte (hci_transport_slip_init s)) })"
    using receive_frame [OF rest(2) ne fit, of h5_sink] by auto
  let ?b0 = "b\<lparr> h5_decoder := d, h5_trace := h5_trace b @ ts \<rparr>"
  have sv: "same_view b ?b0" by (rule decoder_same_view [OF d(3)])
  define b1 where "b1 = hci_transport_inactivity_timer_set (?b0\<lparr> link_ack_nr := ?n, link_peer_asleep := False,
    h5_trace := h5_trace ?b0 @ [Deliver (f_type f) (f_payload f)] \<rparr>)"
  have n: "?n < 8" by (rule order_le_less_trans [of _ "0x07"]) (simp_all add: hci_transport_link_inc_seq_nr_def word_and_le1)
  have f1: "link_state b1 = LINK_ACTIVE" "link_timer b1 = None" "link_seq_nr b1 = link_seq_nr b" "link_ack_nr b1 = ?n"
    "\<not> link_peer_asleep b1" "hci_packet b1 = None" "hci_transport_link_actions b1 = 0" "\<not> slip_write_active b1" "h5_decoder b1 = d"
    "uart_baudrate b1 = uart_baudrate b"
    using rest by (simp_all add: b1_def)
  have o1: "out_ok b1 = out_ok b" "h5_outgoing b1 = h5_outgoing b" unfolding b1_def inactivity_timer_set_simps
    by (simp_all add: h5_outgoing_def frame_end_def out_ok_def)
  have wf1: "h5_wf b1" using rest(1) n unfolding h5_wf_def o1 f1 by (simp add: b1_def has_action_def f1(7) [unfolded b1_def, simplified] rest(4))
  have v1: "accepted b1 = accepted b" "delivered b1 = delivered b @ [(f_type f, f_payload f)]" "h5_out b1 = h5_out b"
    using sv unfolding b1_def inactivity_timer_set_simps deliver_views by (simp_all add: same_view_def)
  obtain c b2 where b2: "hci_transport_link_send_ack_packet b1 = Some b2" "sends_block b1 c b2" "out_ok b2" "c @ h5_outgoing b2 = wire (ack_frame ?n)"
    using send_ack_packet_Some [OF wf1] unfolding f1(4) by auto
  note w = sends_block_simps [OF b2(2)] and w' = sends_block_views [OF b2(2)]
  have rd: "rd_range (dec_buffer d) 4 (unat (of_nat (length (f_payload f)) :: u16)) = Some (f_payload f)"
    unfolding d(1) by (rule payload_range [OF f])
  have ran: "hci_transport_link_run (hci_transport_inactivity_timer_set (?b0\<lparr> link_ack_nr := ?n, hci_transport_link_actions := HCI_TRANSPORT_LINK_SEND_ACK_PACKET,
      link_peer_asleep := False, h5_trace := h5_trace ?b0 @ [Deliver (f_type f) (f_payload f)] \<rparr>)) = Some b2" (is "hci_transport_link_run ?q = _")
  proof -
    have "clear_action HCI_TRANSPORT_LINK_SEND_ACK_PACKET ?q = b1"
      using rest(4) by (simp add: b1_def clear_action_def hci_transport_inactivity_timer_set_def)
    moreover have "\<not> slip_write_active ?q" "hci_transport_link_actions ?q = HCI_TRANSPORT_LINK_SEND_ACK_PACKET" using rest(5) by simp_all
    ultimately show ?thesis using b2(1) by (simp add: hci_transport_link_run_def has_action_def)
  qed
  have act: "frame_action h5_sink (dec_buffer d) f ?b0 = Some b2"
    using ran rest(3,4,9) r rd
    by (auto simp: frame_action_def link_active_frame_def add_action_def hci_transport_link_have_outgoing_packet_def h5_sink_def trace_def Let_def)
  let ?b3 = "hci_transport_h5_read_next_byte (hci_transport_slip_init b2)"
  have "hci_transport_h5_process_frame h5_sink (of_nat (length (frame_bytes f))) ?b0 = Some b2"
    using process_frame_eq [OF f, of ?b0 junk h5_sink] d(1) act by simp
  then have rc: "h5_receive h5_sink (wire f) b = Some ?b3" using d(4) rest(7) by (simp add: wire_def)
  note y = next_byte_simps [of b2] and sv3 = next_byte_same_view [of b2]
  have wf2: "h5_wf b2" using wf1 b2(3) unfolding h5_wf_def has_action_def w(1-12) by (simp add: w(13))
  have len: "length (dec_buffer (h5_decoder ?b3)) = length (dec_buffer (h5_decoder b))" using d(2) by (simp add: y w f1)
  have fresh: "decoder_fresh ?b3" by (rule y(11)) (use rest(2) d(2) in \<open>simp add: decoder_fresh_def w f1\<close>)
  obtain b4 where b4: "(h5_local h5_sink)\<^sup>*\<^sup>* ?b3 b4" "sent_on ?b3 b4" "h5_rests b4" "h5_out b4 = h5_out ?b3"
    using drain_rests [OF _ fresh, of h5_sink] wf2 rest(7,8) len by (auto simp: decoder_wf y w f1)
  note x = sent_on_simps [OF b4(2)]
  have "h5_idle b4" using b4(3) by (simp add: h5_idle_def x y w f1)
  moreover have "h5_out b4 = h5_out b @ wire (ack_frame ?n)"
  proof -
    have "h5_out b2 = h5_out b1 @ wire (ack_frame ?n)" using b2(4) wf1 f1(8) by (simp add: h5_out_def h5_wf_def w'(6))
    then show ?thesis using b4(4) sv3 v1(3) by (simp add: same_view_def)
  qed
  moreover have "accepted b4 = accepted b" "delivered b4 = delivered b @ [(f_type f, f_payload f)]"
    using sv3 v1 by (simp_all add: x same_view_def w')
  moreover have "link_seq_nr b4 = link_seq_nr b" "link_ack_nr b4 = ?n" by (simp_all add: x y w f1)
  moreover have "length (dec_buffer (h5_decoder b4)) = length (dec_buffer (h5_decoder b))" using len by (simp add: x)
  ultimately show ?thesis using rc b4(1) by blast
qed

lemma receive_ack:
  assumes a: "h5_rests a" and p: "hci_packet a \<noteq> None"
  shows "\<exists>a'. h5_receive h5_sink (wire (ack_frame (hci_transport_link_inc_seq_nr (link_seq_nr a)))) a = Some a' \<and> h5_idle a'
    \<and> link_seq_nr a' = hci_transport_link_inc_seq_nr (link_seq_nr a) \<and> link_ack_nr a' = link_ack_nr a
    \<and> length (dec_buffer (h5_decoder a')) = length (dec_buffer (h5_decoder a))
    \<and> accepted a' = accepted a \<and> delivered a' = delivered a \<and> h5_out a' = h5_out a"
proof -
  let ?n = "hci_transport_link_inc_seq_nr (link_seq_nr a)"
  let ?f = "ack_frame ?n"
  have rest: "h5_wf a" "decoder_fresh a" "link_state a = LINK_ACTIVE" "hci_transport_link_actions a = 0" "\<not> slip_write_active a"
    "\<not> link_peer_asleep a" "uart_baudrate a \<noteq> 0" "4 \<le> length (dec_buffer (h5_decoder a))"
    using a by (simp_all add: h5_rests_def)
  have n: "?n < 8" by (rule order_le_less_trans [of _ "0x07"]) (simp_all add: hci_transport_link_inc_seq_nr_def word_and_le1)
  then have f: "frame_ok ?f" by (simp add: frame_ok_def ack_frame_def)
  have ne: "frame_bytes ?f \<noteq> []" using frame_bytes_length [of ?f] by auto
  have fit: "length (frame_bytes ?f) \<le> length (dec_buffer (h5_decoder a))" using rest(8) by (simp add: frame_bytes_length ack_frame_def)
  obtain d junk ts where d: "dec_buffer d = frame_bytes ?f @ junk" "length (dec_buffer d) = length (dec_buffer (h5_decoder a))"
    "set ts \<subseteq> {Receive_byte}"
    "h5_receive h5_sink (slip_frame (frame_bytes ?f)) a = (if uart_baudrate a = 0 then None else do {
        s \<leftarrow> hci_transport_h5_process_frame h5_sink (of_nat (length (frame_bytes ?f))) (a\<lparr> h5_decoder := d, h5_trace := h5_trace a @ ts \<rparr>);
        Some (hci_transport_h5_read_next_byte (hci_transport_slip_init s)) })"
    using receive_frame [OF rest(2) ne fit, of h5_sink] by auto
  let ?a0 = "a\<lparr> h5_decoder := d, h5_trace := h5_trace a @ ts \<rparr>"
  have sv: "same_view a ?a0" by (rule decoder_same_view [OF d(3)])
  define a1 where "a1 = ?a0\<lparr> link_seq_nr := ?n, link_timer := None, hci_packet := None, h5_trace := h5_trace ?a0 @ [Emit [0x6e, 0]] \<rparr>"
  have act: "frame_action h5_sink (dec_buffer d) ?f ?a0 = Some a1"
    using rest(3-5) p
    by (simp add: frame_action_def link_active_frame_def ack_frame_def hci_transport_link_have_outgoing_packet_def emit_event_def h5_sink_def
        trace_def hci_transport_link_clear_queue_def hci_transport_link_run_def has_action_def a1_def)
  have f1: "link_state a1 = LINK_ACTIVE" "link_timer a1 = None" "link_seq_nr a1 = ?n" "link_ack_nr a1 = link_ack_nr a"
    "\<not> link_peer_asleep a1" "hci_packet a1 = None" "hci_transport_link_actions a1 = 0" "\<not> slip_write_active a1" "h5_decoder a1 = d"
    "uart_baudrate a1 = uart_baudrate a"
    using rest by (simp_all add: a1_def)
  have o1: "out_ok a1 = out_ok a" "h5_outgoing a1 = h5_outgoing a" by (simp_all add: a1_def h5_outgoing_def frame_end_def out_ok_def)
  have wf1: "h5_wf a1" using rest(1) n unfolding h5_wf_def o1 f1 by (simp add: a1_def has_action_def rest(4,5))
  have "accepted a1 = accepted ?a0" "delivered a1 = delivered ?a0" "h5_out a1 = h5_out ?a0"
    by (simp_all add: a1_def accepted_def delivered_def h5_out_def sent_bytes_def h5_outgoing_def frame_end_def)
  then have v1: "accepted a1 = accepted a" "delivered a1 = delivered a" "h5_out a1 = h5_out a" using sv by (simp_all add: same_view_def)
  let ?a2 = "hci_transport_h5_read_next_byte (hci_transport_slip_init a1)"
  have "hci_transport_h5_process_frame h5_sink (of_nat (length (frame_bytes ?f))) ?a0 = Some a1"
    using process_frame_eq [OF f, of ?a0 junk h5_sink] d(1) act by simp
  then have rc: "h5_receive h5_sink (wire ?f) a = Some ?a2" using d(4) rest(7) by (simp add: wire_def)
  note y = next_byte_simps [of a1] and sv2 = next_byte_same_view [of a1]
  have len: "length (dec_buffer (h5_decoder ?a2)) = length (dec_buffer (h5_decoder a))" using d(2) by (simp add: y f1)
  have fresh: "decoder_fresh ?a2" by (rule y(11)) (use rest(2) d(2) in \<open>simp add: decoder_fresh_def f1\<close>)
  have "h5_idle ?a2" using wf1 fresh rest(7,8) len unfolding h5_idle_def h5_rests_def decoder_wf by (simp add: y f1)
  moreover have "accepted ?a2 = accepted a" "delivered ?a2 = delivered a" "h5_out ?a2 = h5_out a" using sv2 v1 by (simp_all add: same_view_def)
  ultimately show ?thesis using rc len by (intro exI [of _ ?a2]) (simp add: y f1)
qed

text \<open>Both ends idle, agreed on the numbers of the direction from \<open>end_a\<close> to \<open>end_b\<close>, and no frame under way.\<close>

definition h5_quiet :: "h5_net \<Rightarrow> bool" where
  "h5_quiet n \<longleftrightarrow> h5_idle (end_a n) \<and> h5_idle (end_b n) \<and> link_ack_nr (end_b n) = link_seq_nr (end_a n)
     \<and> (\<exists>fs. h5_out (end_a n) = concat (map wire fs) \<and> (\<forall>f \<in> set fs. frame_ok f) \<and> length fs = seen_b n)
     \<and> (\<exists>fs. h5_out (end_b n) = concat (map wire fs) \<and> (\<forall>f \<in> set fs. frame_ok f) \<and> length fs = seen_a n)"

abbreviation h5_net_steps :: "h5_net \<Rightarrow> h5_net \<Rightarrow> bool" where
  "h5_net_steps \<equiv> (h5_net_step h5_sink h5_sink)\<^sup>*\<^sup>*"

lemma steps_of_a: "(h5_local h5_sink)\<^sup>*\<^sup>* s s' \<Longrightarrow> end_a n = s \<Longrightarrow> h5_net_steps n (n\<lparr> end_a := s' \<rparr>)"
proof (induction rule: rtranclp_induct)
  case (step s1 s2)
  have "h5_net_step h5_sink h5_sink (n\<lparr> end_a := s1 \<rparr>) (n\<lparr> end_a := s2 \<rparr>)"
    using net_local_a [of h5_sink "n\<lparr> end_a := s1 \<rparr>" s2 h5_sink] step(2) by simp
  then show ?case using step(3) [OF step(4)] by (rule rtranclp.rtrancl_into_rtrancl [rotated])
qed auto

lemma steps_of_b: "(h5_local h5_sink)\<^sup>*\<^sup>* s s' \<Longrightarrow> end_b n = s \<Longrightarrow> h5_net_steps n (n\<lparr> end_b := s' \<rparr>)"
proof (induction rule: rtranclp_induct)
  case (step s1 s2)
  have "h5_net_step h5_sink h5_sink (n\<lparr> end_b := s1 \<rparr>) (n\<lparr> end_b := s2 \<rparr>)"
    using net_local_b [of h5_sink "n\<lparr> end_b := s1 \<rparr>" s2 h5_sink] step(2) by simp
  then show ?case using step(3) [OF step(4)] by (rule rtranclp.rtrancl_into_rtrancl [rotated])
qed auto

lemma arrives_next:
  assumes "h5_out x = concat (map wire fs) @ wire f" and "\<forall>g \<in> set fs. frame_ok g" and "frame_ok f"
    and "length (frame_bytes f) \<le> length (dec_buffer (h5_decoder y))" and "h5_receive ph (wire f) y = Some y'"
  shows "h5_arrives ph x (length fs) (length fs) y y'"
  unfolding h5_arrives_def by (rule exI [of _ "fs @ [f]"]) (use assms in auto)

definition sendable :: "nat \<Rightarrow> u8 \<times> buffer \<Rightarrow> bool" where
  "sendable space = (\<lambda>(t, p). packet_ok t p \<and> t \<in> {2, 3, 4} \<and> length p + 6 \<le> space)"

lemma packet_gets_through:
  assumes q: "h5_quiet n" and p: "sendable (length (dec_buffer (h5_decoder (end_b n)))) tp"
  shows "\<exists>n'. h5_net_steps n n' \<and> h5_quiet n' \<and> length (dec_buffer (h5_decoder (end_b n'))) = length (dec_buffer (h5_decoder (end_b n)))
    \<and> accepted (end_a n') = accepted (end_a n) @ [tp] \<and> delivered (end_b n') = delivered (end_b n) @ [tp]
    \<and> accepted (end_b n') = accepted (end_b n) \<and> delivered (end_a n') = delivered (end_a n)"
proof -
  obtain t p where tp: "tp = (t, p)" by (cases tp)
  let ?a = "end_a n" and ?b = "end_b n"
  have i: "h5_idle ?a" "h5_idle ?b" "link_ack_nr ?b = link_seq_nr ?a" using q by (simp_all add: h5_quiet_def)
  obtain fx fy where fx: "h5_out ?a = concat (map wire fx)" "\<forall>f \<in> set fx. frame_ok f" "length fx = seen_b n"
    and fy: "h5_out ?b = concat (map wire fy)" "\<forall>f \<in> set fy. frame_ok f" "length fy = seen_a n" using q by (auto simp: h5_quiet_def)
  have pk: "packet_ok t p" "t \<in> {2, 3, 4}" "length p + 6 \<le> length (dec_buffer (h5_decoder ?b))"
    using p unfolding tp sendable_def by simp_all
  obtain a1 where a1: "(h5_local h5_sink)\<^sup>*\<^sup>* ?a a1" "h5_rests a1" "hci_packet a1 = Some p" "hci_packet_type a1 = t"
    "link_seq_nr a1 = link_seq_nr ?a" "h5_decoder a1 = h5_decoder ?a" "accepted a1 = accepted ?a @ [(t, p)]" "delivered a1 = delivered ?a"
    "h5_out a1 = h5_out ?a @ wire (packet_frame a1 p)" using send_idle [OF i(1) pk(1)] by blast
  let ?f = "packet_frame a1 p"
  have fok: "frame_ok ?f" by (rule packet_frame_ok) (use a1(2,3) in \<open>simp_all add: h5_rests_def\<close>)
  have ff: "f_reliable ?f" "f_seq ?f = link_ack_nr ?b" "f_type ?f = t" "f_payload ?f = p" using a1(4,5) i(3) by (simp_all add: packet_frame_def)
  have fit: "length (frame_bytes ?f) \<le> length (dec_buffer (h5_decoder ?b))" using pk(3) by (simp add: frame_bytes_length ff)
  let ?k = "hci_transport_link_inc_seq_nr (link_seq_nr ?a)"
  obtain b0 b1 where b: "h5_receive h5_sink (wire ?f) ?b = Some b0" "(h5_local h5_sink)\<^sup>*\<^sup>* b0 b1" "h5_idle b1" "link_ack_nr b1 = ?k"
    "length (dec_buffer (h5_decoder b1)) = length (dec_buffer (h5_decoder ?b))" "accepted b1 = accepted ?b" "delivered b1 = delivered ?b @ [(t, p)]"
    "h5_out b1 = h5_out ?b @ wire (ack_frame ?k)"
    using receive_idle [OF i(2) fok ff(1,2) _ fit] pk(2) i(3) unfolding ff(3,4) by auto
  obtain a2 where a2: "h5_receive h5_sink (wire (ack_frame ?k)) a1 = Some a2" "h5_idle a2" "link_seq_nr a2 = ?k"
    "accepted a2 = accepted a1" "delivered a2 = delivered a1" "h5_out a2 = h5_out a1"
    using receive_ack [OF a1(2)] a1(3,5) by auto
  let ?n1 = "n\<lparr> end_a := a1 \<rparr>"
  let ?n2 = "?n1\<lparr> end_b := b0, seen_b := Suc (length fx) \<rparr>"
  let ?n3 = "?n2\<lparr> end_b := b1 \<rparr>"
  let ?n4 = "?n3\<lparr> end_a := a2, seen_a := Suc (length fy) \<rparr>"
  have s1: "h5_net_steps n ?n1" by (rule steps_of_a [OF a1(1) refl])
  have "h5_net_step h5_sink h5_sink ?n1 ?n2"
    by (rule net_arrive_b) (use arrives_next [OF _ fx(2) fok fit b(1)] a1(9) fx(1,3) in simp)
  with s1 have s2: "h5_net_steps n ?n2" by (rule rtranclp.rtrancl_into_rtrancl)
  have "h5_net_steps ?n2 ?n3" by (rule steps_of_b [OF b(2)]) simp
  with s2 have s3: "h5_net_steps n ?n3" by (rule rtranclp_trans)
  have k: "frame_ok (ack_frame ?k)" using a2(2,3) by (simp add: frame_ok_def ack_frame_def h5_idle_def h5_rests_def h5_wf_def)
  have "length (frame_bytes (ack_frame ?k)) \<le> length (dec_buffer (h5_decoder a1))"
    using a1(2) by (simp add: frame_bytes_length ack_frame_def h5_rests_def)
  then have "h5_arrives h5_sink b1 (length fy) (length fy) a1 a2" using arrives_next [OF _ fy(2) k _ a2(1)] b(8) fy(1) by simp
  then have "h5_net_step h5_sink h5_sink ?n3 ?n4" by (intro net_arrive_a) (use fy(3) in simp)
  with s3 have s4: "h5_net_steps n ?n4" by (rule rtranclp.rtrancl_into_rtrancl)
  have "\<exists>fs. h5_out a2 = concat (map wire fs) \<and> (\<forall>f \<in> set fs. frame_ok f) \<and> length fs = Suc (length fx)"
    by (rule exI [of _ "fx @ [?f]"]) (use a2(6) a1(9) fx fok in auto)
  moreover have "\<exists>fs. h5_out b1 = concat (map wire fs) \<and> (\<forall>f \<in> set fs. frame_ok f) \<and> length fs = Suc (length fy)"
    by (rule exI [of _ "fy @ [ack_frame ?k]"]) (use b(8) fy k in auto)
  ultimately have "h5_quiet ?n4" using a2(2,3) b(3,4) by (simp add: h5_quiet_def)
  then show ?thesis using s4 a1(7,8) a2(4,5) b(5-7) by (intro exI [of _ ?n4]) (simp add: tp)
qed

lemma net_run_steps: "(h5_net_step pa pb)\<^sup>*\<^sup>* n n' \<Longrightarrow> h5_net_run pa pb n \<Longrightarrow> h5_net_run pa pb n'"
  by (induction rule: rtranclp_induct) (auto intro: net_step)

section \<open>An example\<close>

definition h5_demo :: h5 where
  "h5_demo = \<lparr> h5_decoder = btstack_slip_decoder_init (replicate 16 0) 16, h5_decoder_ext = btstack_slip_decoder_init_ext [] 0,
     h5_encoder = btstack_slip_encoder_start [] 0, slip_outgoing_buffer = replicate 1042 0, slip_outgoing_dic = 0, slip_outgoing_dic_present = 0,
     slip_write_active = False, link_state = LINK_ACTIVE, link_timer = None, link_seq_nr = 0, link_ack_nr = 0, link_resend_timeout_ms = 900,
     link_peer_asleep = False, link_peer_supports_data_integrity_check = 1, inactivity_timer = None, link_inactivity_timeout_ms = 0,
     hci_packet_type = 0, hci_packet_size = 0, hci_packet = None, hci_transport_link_actions = 0, uart_baudrate = 115200,
     btstack_uart_sleep_mode = 0, hci_transport_bcsp_mode = False, last_sleep_state = False, h5_trace = [] \<rparr>"

definition h5_demo_net :: h5_net where
  "h5_demo_net = \<lparr> end_a = h5_demo, seen_a = 0, end_b = h5_demo, seen_b = 0 \<rparr>"

lemma demo_wf: "h5_wf h5_demo \<and> decoder_fresh h5_demo \<and> h5_out h5_demo = [] \<and> length (dec_buffer (h5_decoder h5_demo)) = 16"
  by (simp add: h5_wf_def h5_demo_def out_ok_def h5_outgoing_def enc_ok_def enc_rest_def btstack_slip_encoder_start_def has_action_def
      decoder_fresh_def btstack_slip_decoder_init_def btstack_slip_decoder_reset_def h5_out_def sent_bytes_def)

lemma demo_views: "accepted h5_demo = [] \<and> delivered h5_demo = [] \<and> pending h5_demo = None \<and> seq_of h5_demo = 0 \<and> ack_of h5_demo = 0"
  by (simp add: h5_demo_def accepted_def delivered_def pending_def seq_of_def ack_of_def)

lemma demo_net: "h5_quiet h5_demo_net" "h5_net_run pa pb h5_demo_net"
proof -
  have "h5_new h5_demo" using demo_wf demo_views by (auto simp: h5_new_def intro!: exI [of _ "[]"])
  then show "h5_net_run pa pb h5_demo_net" by (intro net_new) (simp_all add: h5_demo_net_def)
  have "link_state h5_demo = LINK_ACTIVE" "hci_transport_link_actions h5_demo = 0" "\<not> slip_write_active h5_demo" "\<not> link_peer_asleep h5_demo"
    "uart_baudrate h5_demo \<noteq> 0" "hci_packet h5_demo = None" "link_timer h5_demo = None" "link_ack_nr h5_demo = link_seq_nr h5_demo"
    by (simp_all add: h5_demo_def)
  then show "h5_quiet h5_demo_net" using demo_wf by (simp add: h5_quiet_def h5_idle_def h5_rests_def h5_demo_net_def)
qed

section \<open>Properties\<close>

text \<open>C20: The link delivers every packet at most once and in order.  Take any two ends that have carried nothing yet (just opened, or
  just active), connected by wires that keep the order of frames but may lose any of them (one that does not fit the receiver's buffer is lost),
  and let any steps happen on either side: packets handed over by the upper layer (1 to 4095 bytes), blocks sent, both timers,
  frames received byte by byte, packets sent from inside the packet handler.
  Then, in each direction, the HCI packets passed to the upper layer of the receiver are exactly the first \<open>r\<close> packets the sender
  accepted (commands left out, which no host receives), and every packet the sender regards as acknowledged is among these \<open>r\<close>.
  The upper layers do nothing to the transport but send packets, neither end is reset, bytes are lost
  with their frames but not altered, and a step whose result is undefined in C is no step.\<close>

theorem h5_exactly_once:
  assumes "h5_handler_ok pa" and "h5_handler_ok pb" and "h5_net_run pa pb n"
  shows "(\<exists>r. acknowledged (end_a n) \<le> r \<and> r \<le> length (accepted (end_a n)) \<and> delivered (end_b n) = passed_on (take r (accepted (end_a n))))
    \<and> (\<exists>r. acknowledged (end_b n) \<le> r \<and> r \<le> length (accepted (end_b n)) \<and> delivered (end_a n) = passed_on (take r (accepted (end_b n))))"
proof -
  obtain fx fy kx my rx ky mx ry where "h5_dir (end_a n) (seen_a n) (end_b n) (seen_b n) fx kx fy my rx"
    "h5_dir (end_b n) (seen_b n) (end_a n) (seen_a n) fy ky fx mx ry"
    using net_pair [OF assms] unfolding h5_pair_def by blast
  from dir_result [OF this(1)] dir_result [OF this(2)] show ?thesis by blast
qed

theorem h5_exactly_once_witness:
  "\<exists>n r. h5_net_run h5_sink h5_sink n \<and> accepted (end_a n) = [(2, [1, 0xc0, 3])] \<and> r \<le> 1
     \<and> delivered (end_b n) = passed_on (take r [(2, [1, 0xc0, 3])]) \<and> delivered (end_b n) \<noteq> []"
proof -
  have s: "sendable (length (dec_buffer (h5_decoder (end_b h5_demo_net)))) (2, [1, 0xc0, 3])"
    using demo_wf by (simp add: h5_demo_net_def sendable_def packet_ok_def)
  have e: "end_a h5_demo_net = h5_demo" "end_b h5_demo_net = h5_demo" by (simp_all add: h5_demo_net_def)
  obtain n where n: "h5_net_steps h5_demo_net n" "accepted (end_a n) = [(2, [1, 0xc0, 3])]" "delivered (end_b n) \<noteq> []"
    using packet_gets_through [OF demo_net(1) s] demo_views unfolding e by auto
  have "h5_net_run h5_sink h5_sink n" by (rule net_run_steps [OF n(1) demo_net(2)])
  with h5_exactly_once [OF sink_ok sink_ok this] n(2,3) show ?thesis by auto
qed



end
