(* ===== verification/H5_Faults.thy ===== *)
theory H5_Faults
  imports H5_Delivery
begin

text \<open>
  A frame sent through the whole code and received by the whole code, and two faults of the link.
\<close>

section \<open>A frame on its way\<close>

fun h5_blocks_sent :: "h5_handler \<Rightarrow> nat \<Rightarrow> h5 \<Rightarrow> h5 option" where
  "h5_blocks_sent ph 0 s = Some s"
| "h5_blocks_sent ph (Suc n) s = do { s \<leftarrow> hci_transport_h5_block_sent ph s; h5_blocks_sent ph n s }"

lemma blocks_sent:
  assumes "out_ok s"
  shows "\<exists>n s'. h5_blocks_sent ph n s = Some s' \<and> n \<le> length (h5_outgoing s) \<and> sent_bytes s' = sent_bytes s @ h5_outgoing s \<and> h5_outgoing s' = []"
  using assms
proof (induction "length (h5_outgoing s)" arbitrary: s rule: less_induct)
  case less
  show ?case
  proof (cases "h5_outgoing s = []")
    case True
    then show ?thesis by (intro exI [of _ 0] exI [of _ s]) simp
  next
    case False
    obtain b s1 where b: "hci_transport_h5_block_sent ph s = Some s1" "sends_block s b s1" "out_ok s1" "b @ h5_outgoing s1 = h5_outgoing s" "b \<noteq> []"
      using block_sent_continues [OF less.prems False] by blast
    have l: "length (h5_outgoing s1) < length (h5_outgoing s)" using b(5) unfolding b(4) [symmetric] by simp
    obtain n s' where n: "h5_blocks_sent ph n s1 = Some s'" "n \<le> length (h5_outgoing s1)"
      "sent_bytes s' = sent_bytes s1 @ h5_outgoing s1" "h5_outgoing s' = []" using less.hyps [OF l b(3)] by blast
    have "sent_bytes s' = sent_bytes s @ h5_outgoing s" using n(3) b(4) by (simp add: sends_block_views(6) [OF b(2)])
    then show ?thesis using b(1) n(1,2,4) l by (intro exI [of _ "Suc n"] exI [of _ s']) simp
  qed
qed

theorem h5_frame_roundtrip:
  assumes "out_ok s" and "frame_ok f" and "decoder_fresh r" and "length (frame_bytes f) \<le> length (dec_buffer (h5_decoder r))" and "uart_baudrate r \<noteq> 0"
  shows "\<exists>s1 n s2 d junk ts.
    hci_transport_slip_send_frame (frame_header f) (f_payload f) (of_nat (length (f_payload f))) (frame_crc (frame_header f) (f_payload f)) s = Some s1
    \<and> h5_blocks_sent pa n s1 = Some s2 \<and> sent_bytes s2 = sent_bytes s @ wire f
    \<and> dec_buffer d = frame_bytes f @ junk \<and> set ts \<subseteq> {Receive_byte}
    \<and> h5_receive pb (wire f) r = do {
        r \<leftarrow> frame_action pb (dec_buffer d) f (r\<lparr> h5_decoder := d, h5_trace := h5_trace r @ ts \<rparr>);
        Some (hci_transport_h5_read_next_byte (hci_transport_slip_init r)) }"
proof -
  have l: "length (f_payload f) < 4096" using assms(2) by (simp add: frame_ok_def)
  have u: "unat (of_nat (length (f_payload f)) :: u16) = length (f_payload f)" by (rule unat_of_nat_u16) (use l in simp)
  have dic: "(if f_dic f then xs else []) = (if frame_header f ! 0 AND 0x40 = 0 then [] else xs)" for xs :: buffer
    by (simp add: frame_header_dic [OF assms(2)])
  obtain b s1 where b: "hci_transport_slip_send_frame (frame_header f) (f_payload f) (of_nat (length (f_payload f)))
      (frame_crc (frame_header f) (f_payload f)) s = Some s1" "sends_block s b s1" "out_ok s1" "b @ h5_outgoing s1 = wire f"
    using send_frame [OF assms(1), of "frame_header f" "of_nat (length (f_payload f))" "f_payload f" "frame_crc (frame_header f) (f_payload f)"] u
    unfolding wire_def frame_bytes_def dic by auto
  obtain n s2 where n: "h5_blocks_sent pa n s1 = Some s2" "sent_bytes s2 = sent_bytes s1 @ h5_outgoing s1"
    using blocks_sent [OF b(3)] by blast
  have sent: "sent_bytes s2 = sent_bytes s @ wire f" using n(2) b(4) by (simp add: sends_block_views(6) [OF b(2)])
  have ne: "frame_bytes f \<noteq> []" using frame_bytes_length [of f] by auto
  obtain d junk ts where d: "dec_buffer d = frame_bytes f @ junk" "set ts \<subseteq> {Receive_byte}"
    "h5_receive pb (slip_frame (frame_bytes f)) r = (if uart_baudrate r = 0 then None else do {
        r \<leftarrow> hci_transport_h5_process_frame pb (of_nat (length (frame_bytes f))) (r\<lparr> h5_decoder := d, h5_trace := h5_trace r @ ts \<rparr>);
        Some (hci_transport_h5_read_next_byte (hci_transport_slip_init r)) })"
    using receive_frame [OF assms(3) ne assms(4), of pb] by auto
  have db: "dec_buffer (h5_decoder (r\<lparr> h5_decoder := d, h5_trace := h5_trace r @ ts \<rparr>)) = frame_bytes f @ junk" using d(1) by simp
  have rc: "h5_receive pb (wire f) r = do {
        r \<leftarrow> frame_action pb (dec_buffer d) f (r\<lparr> h5_decoder := d, h5_trace := h5_trace r @ ts \<rparr>);
        Some (hci_transport_h5_read_next_byte (hci_transport_slip_init r)) }"
    using d(3) process_frame_eq [OF assms(2) db, of pb] assms(5) by (simp add: wire_def)
  show ?thesis
    by (rule exI [of _ s1], rule exI [of _ n], rule exI [of _ s2], rule exI [of _ d], rule exI [of _ junk], rule exI [of _ ts])
      (use b(1) n(1) sent d(1,2) rc in simp)
qed

section \<open>Faults\<close>

text \<open>An acknowledgement clears the packet while its repetition is still waiting for the UART.\<close>

theorem h5_ack_clears_waiting_packet:
  assumes wf: "h5_wf s" and act: "link_state s = LINK_ACTIVE" and busy: "slip_write_active s" and last_block: "h5_outgoing s = []"
    and p: "hci_packet s \<noteq> None" and waiting: "hci_transport_link_actions s = HCI_TRANSPORT_LINK_SEND_QUEUED_PACKET"
    and buf: "dec_buffer (h5_decoder s) = frame_bytes (ack_frame (hci_transport_link_inc_seq_nr (link_seq_nr s))) @ junk"
  shows "\<exists>s'. hci_transport_h5_process_frame h5_sink 4 s = Some s' \<and> hci_packet s' = None \<and> hci_transport_h5_block_sent h5_sink s' = None"
proof -
  let ?f = "ack_frame (hci_transport_link_inc_seq_nr (link_seq_nr s))"
  have "hci_transport_link_inc_seq_nr (link_seq_nr s) < 8"
    by (rule order_le_less_trans [of _ "0x07"]) (simp_all add: hci_transport_link_inc_seq_nr_def word_and_le1)
  then have ok: "frame_ok ?f" by (simp add: frame_ok_def ack_frame_def)
  have l: "of_nat (length (frame_bytes ?f)) = (4 :: u16)" by (simp add: frame_bytes_length ack_frame_def)
  define s' where "s' = trace (Emit [0x6e, 0]) (hci_transport_link_clear_queue (s\<lparr> link_seq_nr := hci_transport_link_inc_seq_nr (link_seq_nr s) \<rparr>))"
  have "hci_transport_h5_process_frame h5_sink 4 s = frame_action h5_sink (dec_buffer (h5_decoder s)) ?f s"
    using process_frame_eq [OF ok buf, of h5_sink] unfolding l .
  also have "\<dots> = hci_transport_link_run s'"
    using act p by (simp add: frame_action_def link_active_frame_def ack_frame_def hci_transport_link_have_outgoing_packet_def
        emit_event_def h5_sink_def s'_def)
  also have "\<dots> = Some s'" using busy by (simp add: hci_transport_link_run_def s'_def trace_def hci_transport_link_clear_queue_def)
  finally have pf: "hci_transport_h5_process_frame h5_sink 4 s = Some s'" .
  have f: "hci_packet s' = None" "h5_encoder s' = h5_encoder s" "hci_transport_link_actions s' = HCI_TRANSPORT_LINK_SEND_QUEUED_PACKET"
    "hci_packet_size s' = hci_packet_size s" "out_ok s' = out_ok s" "slip_outgoing_buffer s' = slip_outgoing_buffer s"
    using waiting by (simp_all add: s'_def trace_def hci_transport_link_clear_queue_def out_ok_def)
  have sz: "hci_packet_size s \<noteq> 0" using wf waiting by (simp add: h5_wf_def has_action_def)
  have nd: "\<not> btstack_slip_encoder_has_data (h5_encoder s')" using block_sent_done [OF _ last_block] wf f(2) by (simp add: h5_wf_def)
  have "hci_transport_link_send_queued_packet (clear_action a (clear_action b (s'\<lparr> slip_write_active := False \<rparr>))) = None" for a b
    by (rule send_cleared_packet) (use wf f sz in \<open>simp_all add: h5_wf_def out_ok_def\<close>)
  then have "hci_transport_h5_block_sent h5_sink s' = None"
    using nd f(3) by (simp add: hci_transport_h5_block_sent_def has_action_def hci_transport_link_run_def)
  then show ?thesis using pf f(1) by blast
qed

text \<open>The wakeup message is requested again when the timer expires, but nobody sends it.\<close>

fun h5_timeouts :: "nat \<Rightarrow> h5 \<Rightarrow> h5 option" where
  "h5_timeouts 0 s = Some s"
| "h5_timeouts (Suc n) s =
     (if link_timer s = None then None else do { s \<leftarrow> hci_transport_link_timeout_handler (s\<lparr> link_timer := None \<rparr>); h5_timeouts n s })"

theorem h5_wakeup_not_repeated:
  assumes "link_state s = LINK_ACTIVE" and "link_peer_asleep s" and "hci_packet s \<noteq> None" and "link_timer s \<noteq> None"
  shows "\<exists>s'. h5_timeouts n s = Some s' \<and> h5_out s' = h5_out s \<and> hci_packet s' = hci_packet s \<and> slip_write_active s' = slip_write_active s"
  using assms
proof (induction n arbitrary: s)
  case 0
  then show ?case by simp
next
  case (Suc n)
  let ?s = "(add_action HCI_TRANSPORT_LINK_SEND_WAKEUP (s\<lparr> link_timer := None \<rparr>))\<lparr> link_timer := Some LINK_WAKEUP_MS \<rparr>"
  have "hci_transport_link_timeout_handler (s\<lparr> link_timer := None \<rparr>) = Some ?s"
    using Suc.prems by (simp add: hci_transport_link_timeout_handler_def hci_transport_link_have_outgoing_packet_def
        hci_transport_link_set_timer_def add_action_def)
  moreover have "h5_out ?s = h5_out s" by (simp add: add_action_def h5_out_def sent_bytes_def h5_outgoing_def frame_end_def)
  moreover have "\<exists>s'. h5_timeouts n ?s = Some s' \<and> h5_out s' = h5_out ?s \<and> hci_packet s' = hci_packet ?s \<and> slip_write_active s' = slip_write_active ?s"
    by (rule Suc.IH) (use Suc.prems in \<open>simp_all add: add_action_def\<close>)
  ultimately show ?case using Suc.prems(4) by (simp add: add_action_def)
qed

end
