(* ===== verification/Ad_Parser.thy ===== *)
theory Ad_Parser
  imports BT_Util
begin

text \<open>
  Model of \<open>ad_parser.c\<close>: the iterator over the length/type/value structures of advertising data and
  the two service UUID searches.  The data pointer is the list of bytes that may be read from it,
  which may be longer than the announced \<open>ad_len\<close>; a read outside of it is \<^const>\<open>None\<close>.
\<close>

definition INCOMPLETE_LIST_16 :: u8 where "INCOMPLETE_LIST_16 = 0x02"
definition COMPLETE_LIST_16 :: u8 where "COMPLETE_LIST_16 = 0x03"
definition INCOMPLETE_LIST_128 :: u8 where "INCOMPLETE_LIST_128 = 0x06"
definition COMPLETE_LIST_128 :: u8 where "COMPLETE_LIST_128 = 0x07"

lemmas ad_types = INCOMPLETE_LIST_16_def COMPLETE_LIST_16_def INCOMPLETE_LIST_128_def COMPLETE_LIST_128_def

section \<open>Iterator\<close>

record ad_context =
  ad_data :: buffer
  ad_offset :: u8
  ad_length :: u8

definition ad_iterator_init :: "u8 \<Rightarrow> buffer \<Rightarrow> ad_context" where
  "ad_iterator_init len data = \<lparr> ad_data = data, ad_offset = 0, ad_length = len \<rparr>"

definition ad_iterator_has_more :: "ad_context \<Rightarrow> bool" where
  "ad_iterator_has_more c = (ad_offset c < ad_length c)"

definition ad_iterator_next :: "ad_context \<Rightarrow> ad_context option" where
  "ad_iterator_next c = do {
     chunk_len \<leftarrow> rd (ad_data c) (unat (ad_offset c));
     let new_offset = unat (ad_offset c) + 1 + unat chunk_len;
     let new_offset = (if new_offset > 0xff then 0xff else new_offset);
     Some (c\<lparr> ad_offset := of_nat new_offset \<rparr>) }"

definition ad_iterator_get_data_len :: "ad_context \<Rightarrow> u8 option" where
  "ad_iterator_get_data_len c = do { l \<leftarrow> rd (ad_data c) (unat (ad_offset c)); Some (l - 1) }"

definition ad_iterator_get_data_type :: "ad_context \<Rightarrow> u8 option" where
  "ad_iterator_get_data_type c = rd (ad_data c) (unat (ad_offset c) + 1)"

definition ad_iterator_get_data :: "ad_context \<Rightarrow> buffer" where
  "ad_iterator_get_data c = drop (unat (ad_offset c) + 2) (ad_data c)"

section \<open>UUID search\<close>

text \<open>\<open>for (i = ..; i < n; i += k) if (test(i)) return 1;\<close> as a function of its test.\<close>

function find_step :: "nat \<Rightarrow> (nat \<Rightarrow> bool option) \<Rightarrow> nat \<Rightarrow> nat \<Rightarrow> bool option" where
  "find_step k test i n =
     (if i < n \<and> 0 < k then do {
        found \<leftarrow> test i;
        if found then Some True else find_step k test (i + k) n }
      else Some False)"
  by pat_completeness auto
termination by (relation "measure (\<lambda>(k, test, i, n). n - i)") auto

declare find_step.simps [simp del]

lemma ad_iterator_next_progress:
  "ad_iterator_has_more c \<Longrightarrow> ad_iterator_next c = Some c' \<Longrightarrow>
     ad_length c' = ad_length c \<and> unat (ad_offset c) < unat (ad_offset c')"
proof -
  assume more: "ad_iterator_has_more c" and next': "ad_iterator_next c = Some c'"
  have lt: "unat (ad_offset c) < 255"
  proof -
    have "unat (ad_offset c) < unat (ad_length c)"
      using more by (simp add: ad_iterator_has_more_def word_less_nat_alt)
    then show ?thesis using unat_u8_less [of "ad_length c"] by linarith
  qed
  obtain l where "rd (ad_data c) (unat (ad_offset c)) = Some l"
    "c' = c\<lparr> ad_offset := of_nat (if unat (ad_offset c) + 1 + unat l > 0xff then 0xff
            else unat (ad_offset c) + 1 + unat l) \<rparr>"
    using next' by (auto simp: ad_iterator_next_def Let_def bind_eq_Some_conv)
  then show ?thesis using lt by (auto simp: unat_of_nat)
qed

text \<open>The local buffers are written completely before they are read, so that what they hold first
  (zeros here) does not matter.\<close>

text \<open>The test of one structure of the 16 bit search, then the loop over the structures.\<close>

definition ad_chunk_contains_uuid16 :: "ad_context \<Rightarrow> u16 \<Rightarrow> bool option" where
  "ad_chunk_contains_uuid16 c uuid16 = do {
     data_type \<leftarrow> ad_iterator_get_data_type c;
     data_len \<leftarrow> ad_iterator_get_data_len c;
     let data = ad_iterator_get_data c;
     if data_type = INCOMPLETE_LIST_16 \<or> data_type = COMPLETE_LIST_16 then
       find_step 2 (\<lambda>i. do { uuid \<leftarrow> little_endian_read_16 data i; Some (uuid = uuid16) }) 0 (unat data_len)
     else if data_type = INCOMPLETE_LIST_128 \<or> data_type = COMPLETE_LIST_128 then do {
       ad_uuid128 \<leftarrow> uuid_add_bluetooth_prefix (replicate 16 0) (to32 uuid16);
       uuid128_bt \<leftarrow> reverse_128 ad_uuid128 (replicate 16 0);
       find_step 16 (\<lambda>i. do { r \<leftarrow> memcmp_n 16 uuid128_bt (drop i data); Some (r = 0) }) 0 (unat data_len) }
     else Some False }"

function ad_contains_uuid16_from :: "ad_context \<Rightarrow> u16 \<Rightarrow> bool option" where
  "ad_contains_uuid16_from c uuid16 =
     (if ad_iterator_has_more c then
        (case ad_chunk_contains_uuid16 c uuid16 of
           None \<Rightarrow> None
         | Some True \<Rightarrow> Some True
         | Some False \<Rightarrow> (case ad_iterator_next c of
             None \<Rightarrow> None
           | Some c' \<Rightarrow> ad_contains_uuid16_from c' uuid16))
      else Some False)"
  by pat_completeness auto
termination
  by (relation "measure (\<lambda>(c, u). 256 - unat (ad_offset c))")
     (auto dest!: ad_iterator_next_progress intro!: diff_less_mono2 simp: less_imp_le)

definition ad_data_contains_uuid16 :: "u8 \<Rightarrow> buffer \<Rightarrow> u16 \<Rightarrow> bool option" where
  "ad_data_contains_uuid16 ad_len data uuid16 = ad_contains_uuid16_from (ad_iterator_init ad_len data) uuid16"

definition ad_chunk_contains_uuid128 :: "ad_context \<Rightarrow> buffer \<Rightarrow> bool option" where
  "ad_chunk_contains_uuid128 c uuid128_le = do {
     data_type \<leftarrow> ad_iterator_get_data_type c;
     data_len \<leftarrow> ad_iterator_get_data_len c;
     let data = ad_iterator_get_data c;
     if data_type = INCOMPLETE_LIST_16 \<or> data_type = COMPLETE_LIST_16 then
       find_step 2 (\<lambda>i. do {
         uuid16 \<leftarrow> little_endian_read_16 data i;
         ad_uuid128 \<leftarrow> uuid_add_bluetooth_prefix (replicate 16 0) (to32 uuid16);
         r \<leftarrow> memcmp_n 16 ad_uuid128 uuid128_le;
         Some (r = 0) }) 0 (unat data_len)
     else if data_type = INCOMPLETE_LIST_128 \<or> data_type = COMPLETE_LIST_128 then
       find_step 16 (\<lambda>i. do { r \<leftarrow> memcmp_n 16 uuid128_le (drop i data); Some (r = 0) }) 0 (unat data_len)
     else Some False }"

function ad_contains_uuid128_from :: "ad_context \<Rightarrow> buffer \<Rightarrow> bool option" where
  "ad_contains_uuid128_from c uuid128_le =
     (if ad_iterator_has_more c then
        (case ad_chunk_contains_uuid128 c uuid128_le of
           None \<Rightarrow> None
         | Some True \<Rightarrow> Some True
         | Some False \<Rightarrow> (case ad_iterator_next c of
             None \<Rightarrow> None
           | Some c' \<Rightarrow> ad_contains_uuid128_from c' uuid128_le))
      else Some False)"
  by pat_completeness auto
termination
  by (relation "measure (\<lambda>(c, u). 256 - unat (ad_offset c))")
     (auto dest!: ad_iterator_next_progress intro!: diff_less_mono2 simp: less_imp_le)

definition ad_data_contains_uuid128 :: "u8 \<Rightarrow> buffer \<Rightarrow> buffer \<Rightarrow> bool option" where
  "ad_data_contains_uuid128 ad_len data uuid128 = do {
     uuid128_le \<leftarrow> reverse_128 uuid128 (replicate 16 0);
     ad_contains_uuid128_from (ad_iterator_init ad_len data) uuid128_le }"

declare ad_contains_uuid16_from.simps [simp del] ad_contains_uuid128_from.simps [simp del]

section \<open>What the searches compute\<close>

text \<open>The advertising data that carries the given type/payload structures, and the entries of a
  payload read as a list of \<open>k\<close> byte values.\<close>

definition ad_bytes :: "(u8 \<times> buffer) list \<Rightarrow> buffer" where
  "ad_bytes xs = concat (map (\<lambda>(t, p). of_nat (length p + 1) # t # p) xs)"

definition entries :: "nat \<Rightarrow> buffer \<Rightarrow> buffer list" where
  "entries k p = map (\<lambda>j. take k (drop (k * j) p)) [0..<length p div k]"

definition uuid_expand :: "u16 \<Rightarrow> buffer" where
  "uuid_expand u = [0, 0, to8 (drop_bit 8 u), to8 u] @ drop 4 bluetooth_base_uuid"

definition lists_16 :: "u8 \<Rightarrow> bool" where "lists_16 t = (t = INCOMPLETE_LIST_16 \<or> t = COMPLETE_LIST_16)"
definition lists_128 :: "u8 \<Rightarrow> bool" where "lists_128 t = (t = INCOMPLETE_LIST_128 \<or> t = COMPLETE_LIST_128)"

definition whole_entries :: "u8 \<times> buffer \<Rightarrow> bool" where
  "whole_entries = (\<lambda>(t, p). (lists_16 t \<longrightarrow> 2 dvd length p) \<and> (lists_128 t \<longrightarrow> 16 dvd length p))"

definition announces :: "u16 \<Rightarrow> u8 \<times> buffer \<Rightarrow> bool" where
  "announces u = (\<lambda>(t, p). lists_16 t \<and> [to8 u, to8 (drop_bit 8 u)] \<in> set (entries 2 p)
                     \<or> lists_128 t \<and> rev (uuid_expand u) \<in> set (entries 16 p))"

lemma entries_iff: "x \<in> set (entries k p) \<longleftrightarrow> (\<exists>j < length p div k. take k (drop (k * j) p) = x)"
  by (auto simp: entries_def image_iff)

lemma find_step_eq:
  assumes "0 < k" and "\<And>j. j < m \<Longrightarrow> test (i + k * j) = Some (P j)" and "n = i + k * m"
  shows "find_step k test i n = Some (\<exists>j < m. P j)"
  using assms(2,3)
proof (induction m arbitrary: i P)
  case 0
  then show ?case by (simp add: find_step.simps)
next
  case (Suc m)
  have IH: "find_step k test (i + k) n = Some (\<exists>j < m. P (Suc j))"
    by (rule Suc.IH) (use Suc.prems(1) [of "Suc j" for j] Suc.prems(2) in \<open>auto simp: algebra_simps\<close>)
  have "i < n" using assms(1) Suc.prems(2) by simp
  then show ?case
    using Suc.prems(1) [of 0] IH assms(1) by (subst find_step.simps) (auto simp: less_Suc_eq_0_disj)
qed

lemma little_endian_read_16_drop:
  "i + 1 < length p \<Longrightarrow> little_endian_read_16 (p @ rest) i = Some (to16 (p ! i) OR push_bit 8 (to16 (p ! (i + 1))))"
  by (simp add: little_endian_read_16_def rd_def nth_append)

lemma u16_of_bytes_iff:
  "to16 a OR push_bit 8 (to16 b) = (u :: u16) \<longleftrightarrow> a = to8 u \<and> b = to8 (drop_bit 8 u)"
proof
  assume u: "to16 a OR push_bit 8 (to16 b) = u"
  show "a = to8 u \<and> b = to8 (drop_bit 8 u)"
    unfolding u [symmetric] by (intro conjI; rule bit_word_eqI) (auto simp: bit_simps dest: bit_imp_le_length)
next
  assume "a = to8 u \<and> b = to8 (drop_bit 8 u)"
  then show "to16 a OR push_bit 8 (to16 b) = u" by (simp add: join_16)
qed

lemma take_2_drop: "i + 1 < length p \<Longrightarrow> take 2 (drop i p) = [p ! i, p ! (i + 1)]"
  using Cons_nth_drop_Suc [of i p] Cons_nth_drop_Suc [of "Suc i" p] by (metis One_nat_def Suc_1 Suc_eq_plus1
      Suc_lessD add_2_eq_Suc' take0 take_Suc_Cons)

lemma search_16_eq:
  assumes "2 dvd length p"
  shows "find_step 2 (\<lambda>i. do { uuid \<leftarrow> little_endian_read_16 (p @ rest) i; Some (uuid = u) }) 0 (length p) =
           Some ([to8 u, to8 (drop_bit 8 u)] \<in> set (entries 2 p))"
proof -
  have "find_step 2 (\<lambda>i. do { uuid \<leftarrow> little_endian_read_16 (p @ rest) i; Some (uuid = u) }) 0 (length p) =
          Some (\<exists>j < length p div 2. take 2 (drop (2 * j) p) = [to8 u, to8 (drop_bit 8 u)])"
    by (rule find_step_eq)
       (use assms in \<open>auto simp: little_endian_read_16_drop u16_of_bytes_iff take_2_drop\<close>)
  then show ?thesis by (simp add: entries_iff)
qed

lemma search_128_eq:
  assumes "16 dvd length p" and "length key = 16"
  shows "find_step 16 (\<lambda>i. do { r \<leftarrow> memcmp_n 16 key (drop i (p @ rest)); Some (r = 0) }) 0 (length p) =
           Some (key \<in> set (entries 16 p))"
proof -
  have "\<exists>r. memcmp_n 16 key (drop (16 * j) (p @ rest)) = Some r \<and> (r = 0 \<longleftrightarrow> take 16 (drop (16 * j) p) = key)"
    if "j < length p div 16" for j
  proof -
    have len: "16 * j + 16 \<le> length p" using that by auto
    then have "take 16 (drop (16 * j) (p @ rest)) = take 16 (drop (16 * j) p)" by simp
    moreover have "16 \<le> length (drop (16 * j) (p @ rest))" using len by simp
    ultimately show ?thesis
      using memcmp_n_zero_iff [of 16 key "drop (16 * j) (p @ rest)"] assms(2)
      by (auto simp del: drop_append length_drop)
  qed
  then have "do { r \<leftarrow> memcmp_n 16 key (drop (16 * j) (p @ rest)); Some (r = 0) } =
               Some (take 16 (drop (16 * j) p) = key)" if "j < length p div 16" for j
    using that by fastforce
  then have "find_step 16 (\<lambda>i. do { r \<leftarrow> memcmp_n 16 key (drop i (p @ rest)); Some (r = 0) }) 0 (length p) =
          Some (\<exists>j < length p div 16. take 16 (drop (16 * j) p) = key)"
    by (intro find_step_eq) (use assms(1) in auto)
  then show ?thesis by (simp add: entries_iff)
qed

text \<open>A cursor at the first byte of a structure.\<close>

definition at_struct :: "ad_context \<Rightarrow> buffer \<Rightarrow> u8 \<Rightarrow> buffer \<Rightarrow> buffer \<Rightarrow> bool" where
  "at_struct c pre t p rest \<longleftrightarrow> ad_data c = pre @ (of_nat (length p + 1) # t # p) @ rest
     \<and> unat (ad_offset c) = length pre \<and> length p + 1 < 256"

lemma at_struct_access:
  assumes "at_struct c pre t p rest"
  shows "ad_iterator_get_data_type c = Some t" and "ad_iterator_get_data_len c = Some (of_nat (length p))"
    and "ad_iterator_get_data c = p @ rest"
  using assms by (auto simp: at_struct_def ad_iterator_get_data_type_def ad_iterator_get_data_len_def
      ad_iterator_get_data_def rd_def nth_append)

lemma at_struct_next:
  assumes "at_struct c pre t p rest" and "length pre + 2 + length p \<le> 255"
  shows "\<exists>c'. ad_iterator_next c = Some c' \<and> ad_data c' = ad_data c \<and> ad_length c' = ad_length c
     \<and> unat (ad_offset c') = length pre + 2 + length p"
proof -
  have u: "unat (of_nat (length p + 1) :: u8) = length p + 1"
    using assms(2) by (intro unat_of_nat_u8) simp
  have o: "unat (of_nat (length pre + 2 + length p) :: u8) = length pre + 2 + length p"
    using assms(2) by (intro unat_of_nat_u8) simp
  have r: "rd (ad_data c) (unat (ad_offset c)) = Some (of_nat (length p + 1))"
    using assms(1) by (auto simp: at_struct_def rd_def nth_append)
  have "ad_iterator_next c = Some (c\<lparr> ad_offset := of_nat (length pre + 2 + length p) \<rparr>)"
    using assms unfolding ad_iterator_next_def r Option.bind.bind_lunit u Let_def
    by (auto simp: at_struct_def)
  then show ?thesis using o by simp
qed

lemma uuid_expand_eq: "uuid_add_bluetooth_prefix (replicate 16 0) (to32 u) = Some (uuid_expand u)"
proof -
  have nb: "\<not> bit u (16 + n)" "\<not> bit u (24 + n)" for n by (auto dest: bit_imp_le_length)
  show ?thesis
    by (simp add: uuid_add_bluetooth_prefix_eq uuid_expand_def)
       (intro conjI bit_word_eqI; simp add: bit_simps nb)
qed

lemma chunk_uuid16_eq:
  assumes "at_struct c pre t p rest" and "whole_entries (t, p)"
  shows "ad_chunk_contains_uuid16 c u = Some (announces u (t, p))"
proof -
  have len: "unat (of_nat (length p) :: u8) = length p"
    using assms(1) by (intro unat_of_nat_u8) (simp add: at_struct_def)
  have ex: "uuid_add_bluetooth_prefix (replicate 16 0) (to32 u) = Some (uuid_expand u)"
    by (rule uuid_expand_eq)
  have rv: "reverse_128 (uuid_expand u) (replicate 16 0) = Some (rev (uuid_expand u))"
    by (simp add: reverse_128_def reverse_bytes_eq uuid_expand_def)
  have "length (rev (uuid_expand u)) = 16" by (simp add: uuid_expand_def)
  note s128 = search_128_eq [OF _ this]
  show ?thesis
    using assms(2) search_16_eq [of p rest u] s128 [of p rest]
    unfolding ad_chunk_contains_uuid16_def at_struct_access [OF assms(1)] Option.bind.bind_lunit ex rv Let_def len
    by (auto simp: announces_def whole_entries_def lists_16_def lists_128_def ad_types)
qed

lemma ad_bytes_Cons: "ad_bytes ((t, p) # xs) = (of_nat (length p + 1) # t # p) @ ad_bytes xs"
  by (simp add: ad_bytes_def)

text \<open>A search over all structures, from the answers of its test on each of them.\<close>

lemma contains_uuid16_from_eq:
  assumes "ad_data c = pre @ ad_bytes xs @ rest" and "unat (ad_offset c) = length pre"
    and "unat (ad_length c) = length pre + length (ad_bytes xs)" and "list_all whole_entries xs"
  shows "ad_contains_uuid16_from c u = Some (list_ex (announces u) xs)"
  using assms
proof (induction xs arbitrary: c pre)
  case Nil
  then show ?case
    by (subst ad_contains_uuid16_from.simps) (simp add: ad_bytes_def ad_iterator_has_more_def word_less_nat_alt)
next
  case (Cons x xs)
  obtain t p where x: "x = (t, p)" by (cases x)
  have tot: "length pre + 2 + length p + length (ad_bytes xs) = unat (ad_length c)"
    using Cons.prems(3) by (simp add: x ad_bytes_Cons)
  then have small: "length pre + 2 + length p \<le> 255" using unat_u8_less [of "ad_length c"] by linarith
  have at: "at_struct c pre t p (ad_bytes xs @ rest)"
    using Cons.prems(1,2) small by (simp add: at_struct_def x ad_bytes_Cons)
  have more: "ad_iterator_has_more c"
    using tot Cons.prems(2) by (simp add: ad_iterator_has_more_def word_less_nat_alt)
  obtain c' where c': "ad_iterator_next c = Some c'" "ad_data c' = ad_data c" "ad_length c' = ad_length c"
    "unat (ad_offset c') = length pre + 2 + length p"
    using at_struct_next [OF at small] by blast
  have rest: "ad_contains_uuid16_from c' u = Some (list_ex (announces u) xs)"
    by (rule Cons.IH [of _ "pre @ (of_nat (length p + 1) # t # p)"])
       (use Cons.prems c' tot in \<open>simp_all add: x ad_bytes_Cons\<close>)
  have "ad_chunk_contains_uuid16 c u = Some (announces u x)"
    unfolding x using chunk_uuid16_eq [OF at] Cons.prems(4) by (simp add: x)
  then show ?case using more c'(1) rest
    by (subst ad_contains_uuid16_from.simps) (simp split: bool.splits)
qed

text \<open>C19: Service search.  On advertising data made of any structures whose UUID lists hold whole
  entries, \<open>ad_data_contains_uuid16\<close> reads only inside the announced length and answers whether one of the
  16 bit lists holds the UUID (little endian) or one of the 128 bit lists holds its expansion with
  the Bluetooth base UUID (little endian).\<close>

theorem ad_data_contains_uuid16_spec:
  assumes "list_all whole_entries xs" and "unat ad_len = length (ad_bytes xs)"
  shows "ad_data_contains_uuid16 ad_len (ad_bytes xs) u = Some (list_ex (announces u) xs)"
  using contains_uuid16_from_eq [of "ad_iterator_init ad_len (ad_bytes xs)" "[]" xs "[]" u] assms
  by (simp add: ad_data_contains_uuid16_def ad_iterator_init_def)

theorem ad_data_contains_uuid16_spec_witness:
  "ad_data_contains_uuid16 9 (ad_bytes [(0x01, [0x06]), (0x03, [0x0A, 0x18, 0x0F, 0x18])]) 0x180F =
     Some (list_ex (announces 0x180F) [(0x01, [0x06]), (0x03, [0x0A, 0x18, 0x0F, 0x18])])"
  by (rule ad_data_contains_uuid16_spec)
     (simp_all add: whole_entries_def lists_16_def lists_128_def ad_types ad_bytes_def)

section \<open>What goes wrong\<close>

text \<open>The 128 bit search does not recognise 16 bit lists.  A list of one 16 bit UUID is never found
  when looking for the very 128 bit UUID it stands for: the expansion is compared in network order
  with the reversed key.\<close>

theorem ad_data_contains_uuid128_misses_uuid16:
  "ad_data_contains_uuid128 4 (ad_bytes [(COMPLETE_LIST_16, [to8 u, to8 (drop_bit 8 u)])]) (uuid_expand u) = Some False"
proof -
  let ?d = "ad_bytes [(COMPLETE_LIST_16, [to8 u, to8 (drop_bit 8 u)])]"
  let ?c = "ad_iterator_init 4 ?d" and ?k = "rev (uuid_expand u)"
  have key: "reverse_128 (uuid_expand u) (replicate 16 0) = Some ?k"
    by (simp add: reverse_128_def reverse_bytes_eq uuid_expand_def)
  have at: "at_struct ?c [] COMPLETE_LIST_16 [to8 u, to8 (drop_bit 8 u)] []"
    by (simp add: at_struct_def ad_iterator_init_def ad_bytes_def)
  have ex: "uuid_add_bluetooth_prefix (replicate 16 0) (to32 u) = Some (uuid_expand u)"
    by (rule uuid_expand_eq)
  have k: "?k = 0xFB # tl ?k" "uuid_expand u = 0 # tl (uuid_expand u)"
    by (simp_all add: uuid_expand_def bluetooth_base_uuid_def)
  have m: "memcmp_n 16 (uuid_expand u) ?k = Some (-1)"
    using memcmp_n.simps(2) [of 15 0 "tl (uuid_expand u)" "0xFB" "tl ?k"] by (simp flip: k)
  have rd: "little_endian_read_16 [to8 u, to8 (drop_bit 8 u)] 0 = Some u"
    by (simp add: little_endian_read_16_def rd_def join_16)
  have chunk: "ad_chunk_contains_uuid128 ?c ?k = Some False"
    unfolding ad_chunk_contains_uuid128_def at_struct_access [OF at] Option.bind.bind_lunit Let_def
    by (subst find_step.simps, subst find_step.simps) (simp add: ad_types rd ex m)
  obtain c' where c': "ad_iterator_next ?c = Some c'" "ad_length c' = 4" "unat (ad_offset c') = 4"
    using at_struct_next [OF at] by (auto simp: ad_iterator_init_def)
  have "ad_contains_uuid128_from ?c ?k = Some False"
    using c' chunk
    by (subst ad_contains_uuid128_from.simps, subst ad_contains_uuid128_from.simps)
       (simp add: ad_iterator_has_more_def word_less_nat_alt)
  then show ?thesis by (simp add: ad_data_contains_uuid128_def key)
qed

text \<open>A structure that announces a byte too few makes the search read past the data: for a UUID list
  with one stray byte at the very end, and no match before it, the second byte of the UUID is read behind
  the announced length.\<close>

theorem ad_data_contains_uuid16_overread:
  "ad_data_contains_uuid16 3 [2, COMPLETE_LIST_16, b] u = None"
proof -
  have at: "at_struct (ad_iterator_init 3 [2, COMPLETE_LIST_16, b]) [] COMPLETE_LIST_16 [b] []"
    by (simp add: at_struct_def ad_iterator_init_def)
  have "ad_chunk_contains_uuid16 (ad_iterator_init 3 [2, COMPLETE_LIST_16, b]) u = None"
    unfolding ad_chunk_contains_uuid16_def at_struct_access [OF at] Option.bind.bind_lunit Let_def
    by (subst find_step.simps) (simp add: ad_types little_endian_read_16_def rd_def)
  then show ?thesis
    unfolding ad_data_contains_uuid16_def
    by (subst ad_contains_uuid16_from.simps)
       (simp add: ad_iterator_init_def ad_iterator_has_more_def)
qed

end
