(* ===== verification/Flash_Bank.thy ===== *)
theory Flash_Bank
  imports BT_Util
begin

text \<open>
  The interface \<open>hal_flash_bank_t\<close> (a table of function pointers over a context) and its implementation
  in RAM, \<open>hal_flash_bank_memory.c\<close>.  The contract that a log structured store needs from two banks of
  byte programmable flash is the locale \<open>flash_banks\<close>; the RAM implementation is shown to satisfy it.

  The banks' bytes are the part \<open>storage\<close> of the context; bank \<open>b\<close> starts at \<open>b * bank_size\<close>.
\<close>

text \<open>A read whose result is \<^const>\<open>None\<close> leaves the caller's buffer unfilled; the callers in the sources
  pass buffers that are not initialised.  A write or erase that is \<^const>\<open>None\<close> does not return.\<close>

record 's hal_flash_bank =
  hal_get_size :: "'s \<Rightarrow> u32"
  hal_get_alignment :: "'s \<Rightarrow> u32"
  hal_erase :: "'s \<Rightarrow> int \<Rightarrow> 's option"
  hal_read :: "'s \<Rightarrow> int \<Rightarrow> u32 \<Rightarrow> u32 \<Rightarrow> buffer option"
  hal_write :: "'s \<Rightarrow> int \<Rightarrow> u32 \<Rightarrow> buffer \<Rightarrow> u32 \<Rightarrow> 's option"

section \<open>Flash in RAM\<close>

record flash_memory =
  bank_size :: u32
  storage :: buffer

definition bank_base :: "flash_memory \<Rightarrow> int \<Rightarrow> nat" where
  "bank_base self bank = nat bank * unat (bank_size self)"

definition hal_flash_bank_memory_get_size :: "flash_memory \<Rightarrow> u32" where
  "hal_flash_bank_memory_get_size self = bank_size self"

definition hal_flash_bank_memory_get_alignment :: "flash_memory \<Rightarrow> u32" where
  "hal_flash_bank_memory_get_alignment self = 1"

definition hal_flash_bank_memory_erase :: "flash_memory \<Rightarrow> int \<Rightarrow> flash_memory option" where
  "hal_flash_bank_memory_erase self bank =
     (if bank > 1 then Some self
      else if bank < 0 then None
      else do {
        st \<leftarrow> wr_range (storage self) (bank_base self bank) (replicate (unat (bank_size self)) 0xff);
        Some (self\<lparr> storage := st \<rparr>) })"

definition hal_flash_bank_memory_read :: "flash_memory \<Rightarrow> int \<Rightarrow> u32 \<Rightarrow> u32 \<Rightarrow> buffer option" where
  "hal_flash_bank_memory_read self bank offset sz =
     (if bank > 1 then None
      else if offset > bank_size self then None
      else if offset + sz > bank_size self then None
      else if bank < 0 then None
      else rd_range (storage self) (bank_base self bank + unat offset) (unat sz))"

text \<open>The loop of the write: \<open>pos\<close> is where \<open>banks[bank][offset]\<close> lies, \<open>n\<close> the bytes to go.  Programming a
  byte that is not erased ends the program.\<close>

primrec flash_write_loop :: "buffer \<Rightarrow> nat \<Rightarrow> buffer \<Rightarrow> nat \<Rightarrow> buffer option" where
  "flash_write_loop st pos data 0 = Some st"
| "flash_write_loop st pos data (Suc n) = do {
     d \<leftarrow> rd data 0;
     if d = 0xff then flash_write_loop st pos (drop 1 data) n
     else do {
       old \<leftarrow> rd st pos;
       if old \<noteq> 0xff \<and> d \<noteq> 0x00 then None
       else do {
         st \<leftarrow> wr st pos d;
         flash_write_loop st (pos + 1) (drop 1 data) n } } }"

definition hal_flash_bank_memory_write ::
    "flash_memory \<Rightarrow> int \<Rightarrow> u32 \<Rightarrow> buffer \<Rightarrow> u32 \<Rightarrow> flash_memory option" where
  "hal_flash_bank_memory_write self bank offset data sz =
     (if bank > 1 then Some self
      else if offset > bank_size self then Some self
      else if offset + sz > bank_size self then Some self
      else if bank < 0 then None
      else do {
        st \<leftarrow> flash_write_loop (storage self) (bank_base self bank + unat offset) data (unat sz);
        Some (self\<lparr> storage := st \<rparr>) })"

definition hal_flash_bank_memory_instance :: "flash_memory hal_flash_bank" where
  "hal_flash_bank_memory_instance =
     \<lparr> hal_get_size = hal_flash_bank_memory_get_size,
       hal_get_alignment = hal_flash_bank_memory_get_alignment,
       hal_erase = hal_flash_bank_memory_erase,
       hal_read = hal_flash_bank_memory_read,
       hal_write = hal_flash_bank_memory_write \<rparr>"

definition hal_flash_bank_memory_init_instance :: "buffer \<Rightarrow> u32 \<Rightarrow> flash_memory option" where
  "hal_flash_bank_memory_init_instance st storage_size = do {
     st \<leftarrow> wr_range st 0 (replicate (unat storage_size) 0xff);
     Some \<lparr> bank_size = storage_size div 2, storage = st \<rparr> }"

section \<open>The contract\<close>

text \<open>
  Two banks of the same size, programmable byte by byte.  \<open>cells s b\<close> is what bank \<open>b\<close> holds.  Writing
  \<open>data\<close> is promised to work where every target byte is erased or overwritten by zero, and only for data
  without the erased value \<open>0xff\<close>, which this kind of flash cannot be told apart from "not written".
\<close>

definition programs :: "buffer \<Rightarrow> buffer \<Rightarrow> bool" where
  "programs old data \<longleftrightarrow> list_all2 (\<lambda>o_byte d. d \<noteq> 0xff \<and> (o_byte = 0xff \<or> d = 0)) old data"

lemma programs_erased: "0xff \<notin> set data \<Longrightarrow> programs (replicate (length data) 0xff) data"
  by (induction data) (auto simp: programs_def)

locale flash_banks =
  fixes hal :: "'s hal_flash_bank"
    and ok :: "'s \<Rightarrow> bool"
    and cells :: "'s \<Rightarrow> int \<Rightarrow> buffer"
  assumes size_cells: "ok s \<Longrightarrow> b = 0 \<or> b = 1 \<Longrightarrow> length (cells s b) = unat (hal_get_size hal s)"
    and size_small: "ok s \<Longrightarrow> 2 * unat (hal_get_size hal s) < 4294967296"
    and align: "ok s \<Longrightarrow> hal_get_alignment hal s = 1"
    and read_ok: "ok s \<Longrightarrow> b = 0 \<or> b = 1 \<Longrightarrow> unat off + unat n \<le> unat (hal_get_size hal s) \<Longrightarrow>
          hal_read hal s b off n = Some (take (unat n) (drop (unat off) (cells s b)))"
    and erase_ok: "ok s \<Longrightarrow> b = 0 \<or> b = 1 \<Longrightarrow>
          \<exists>s'. hal_erase hal s b = Some s' \<and> ok s' \<and> hal_get_size hal s' = hal_get_size hal s
             \<and> cells s' b = replicate (unat (hal_get_size hal s)) 0xff \<and> cells s' (1 - b) = cells s (1 - b)"
    and write_ok: "ok s \<Longrightarrow> b = 0 \<or> b = 1 \<Longrightarrow> unat off + unat n \<le> unat (hal_get_size hal s) \<Longrightarrow>
          unat n = length data \<Longrightarrow> programs (take (unat n) (drop (unat off) (cells s b))) data \<Longrightarrow>
          \<exists>s'. hal_write hal s b off data n = Some s' \<and> ok s' \<and> hal_get_size hal s' = hal_get_size hal s
             \<and> cells s' b = take (unat off) (cells s b) @ data @ drop (unat off + unat n) (cells s b)
             \<and> cells s' (1 - b) = cells s (1 - b)"
begin

text \<open>What was written reads back.\<close>

lemma write_read:
  assumes "ok s" and "b = 0 \<or> b = 1" and "unat off + unat n \<le> unat (hal_get_size hal s)"
    and "unat n = length data" and "programs (take (unat n) (drop (unat off) (cells s b))) data"
  shows "do { s' \<leftarrow> hal_write hal s b off data n; hal_read hal s' b off n } = Some data"
proof -
  obtain s' where s': "hal_write hal s b off data n = Some s'" "ok s'"
    "hal_get_size hal s' = hal_get_size hal s"
    "cells s' b = take (unat off) (cells s b) @ data @ drop (unat off + unat n) (cells s b)"
    using write_ok [OF assms] by blast
  moreover have "take (unat n) (drop (unat off) (cells s' b)) = data"
    using s'(4) assms(3,4) size_cells [OF assms(1,2)] by simp
  ultimately show ?thesis using read_ok [of s' b off n] assms(2,3) by simp
qed

end

section \<open>The RAM implementation satisfies it\<close>

definition fm_ok :: "flash_memory \<Rightarrow> bool" where
  "fm_ok s \<longleftrightarrow> 2 * unat (bank_size s) \<le> length (storage s) \<and> 2 * unat (bank_size s) < 4294967296"

definition fm_cells :: "flash_memory \<Rightarrow> int \<Rightarrow> buffer" where
  "fm_cells s b = take (unat (bank_size s)) (drop (bank_base s b) (storage s))"

lemma flash_write_loop_eq:
  assumes "pos + length data \<le> length st" and "programs (take (length data) (drop pos st)) data"
  shows "flash_write_loop st pos data (length data) =
           Some (take pos st @ data @ drop (pos + length data) st)"
  using assms
proof (induction data arbitrary: st pos)
  case (Cons d ds)
  have lt: "pos < length st" using Cons.prems(1) by simp
  have dr: "drop pos st = st ! pos # drop (Suc pos) st" using lt by (simp add: Cons_nth_drop_Suc)
  have p: "d \<noteq> 0xff" "st ! pos = 0xff \<or> d = 0" "programs (take (length ds) (drop (Suc pos) st)) ds"
    using Cons.prems(2) by (simp_all add: programs_def dr)
  have "flash_write_loop (st[pos := d]) (Suc pos) ds (length ds) =
          Some (take (Suc pos) (st[pos := d]) @ ds @ drop (Suc pos + length ds) (st[pos := d]))"
    using Cons.prems(1) p(3) by (intro Cons.IH) simp_all
  then show ?case using p lt by (simp add: rd_def wr_def take_Suc_conv_app_nth)
qed simp

lemma fm_bank_fit: "fm_ok s \<Longrightarrow> b = 0 \<or> b = 1 \<Longrightarrow> bank_base s b + unat (bank_size s) \<le> length (storage s)"
  by (auto simp: fm_ok_def bank_base_def)

lemma nth_window: "i < m \<Longrightarrow> base + m \<le> length st \<Longrightarrow> take m (drop base st) ! i = st ! (base + i)"
  by simp

lemma length_window: "base + m \<le> length st \<Longrightarrow> length (take m (drop base st)) = m"
  by simp

lemma take_drop_splice:
  assumes "off + length xs \<le> m" and "base + m \<le> length st"
  shows "take m (drop base (take (base + off) st @ xs @ drop (base + off + length xs) st)) =
           take off (take m (drop base st)) @ xs @ drop (off + length xs) (take m (drop base st))"
    (is "take m (drop base ?st) = take off ?w @ xs @ drop _ ?w")
proof (rule nth_equalityI)
  have len: "length ?st = length st" using assms by simp
  have win: "length (take m (drop base ?st)) = m" using assms(2) len by (simp only: length_window)
  show "length (take m (drop base ?st)) = length (take off ?w @ xs @ drop (off + length xs) ?w)"
    unfolding win using assms by simp
  fix i assume "i < length (take m (drop base ?st))"
  then have i: "i < m" "base + i < length st" unfolding win using assms(2) by auto
  have "take m (drop base ?st) ! i = ?st ! (base + i)"
    using i(1) assms(2) len by (intro nth_window) simp_all
  also have "\<dots> = (if base + off \<le> base + i \<and> base + i < base + off + length xs
      then xs ! (base + i - (base + off)) else st ! (base + i))"
    using i(2) assms by (intro nth_wr_range) simp_all
  also have "\<dots> = (if off \<le> i \<and> i < off + length xs then xs ! (i - off) else ?w ! i)"
    using i assms(2) by (simp add: nth_window)
  also have "\<dots> = (take off ?w @ xs @ drop (off + length xs) ?w) ! i"
    using i assms by (intro nth_wr_range [symmetric]) simp_all
  finally show "take m (drop base ?st) ! i = (take off ?w @ xs @ drop (off + length xs) ?w) ! i" .
qed

lemma take_drop_splice_other:
  assumes "b2 + m \<le> i \<or> i + length xs \<le> b2" and "i + length xs \<le> length st" and "b2 + m \<le> length st"
  shows "take m (drop b2 (take i st @ xs @ drop (i + length xs) st)) = take m (drop b2 st)"
    (is "take m (drop b2 ?st) = _")
proof (rule nth_equalityI)
  have len: "length ?st = length st" using assms by simp
  then show "length (take m (drop b2 ?st)) = length (take m (drop b2 st))"
    using assms(3) by (simp only: length_window)
  fix j assume "j < length (take m (drop b2 ?st))"
  then have j: "j < m" using assms(3) len by (simp only: length_window)
  have "take m (drop b2 ?st) ! j = ?st ! (b2 + j)"
    using j assms(3) len by (intro nth_window) simp_all
  also have "\<dots> = (if i \<le> b2 + j \<and> b2 + j < i + length xs then xs ! (b2 + j - i) else st ! (b2 + j))"
    using j assms by (intro nth_wr_range) simp_all
  also have "\<dots> = take m (drop b2 st) ! j" using j assms by (auto simp: nth_window)
  finally show "take m (drop b2 ?st) ! j = take m (drop b2 st) ! j" .
qed

lemmas fm_instance = hal_flash_bank_memory_instance_def hal_flash_bank_memory_get_size_def
  hal_flash_bank_memory_get_alignment_def

lemma fm_write:
  assumes ok: "fm_ok s" and b: "b = 0 \<or> b = 1" and fit: "unat off + unat n \<le> unat (bank_size s)"
    and n: "unat n = length data" and prog: "programs (take (unat n) (drop (unat off) (fm_cells s b))) data"
  shows "\<exists>st. hal_flash_bank_memory_write s b off data n = Some (s\<lparr> storage := st \<rparr>)
     \<and> length st = length (storage s)
     \<and> fm_cells (s\<lparr> storage := st \<rparr>) b =
         take (unat off) (fm_cells s b) @ data @ drop (unat off + unat n) (fm_cells s b)
     \<and> fm_cells (s\<lparr> storage := st \<rparr>) (1 - b) = fm_cells s (1 - b)"
proof -
  let ?B = "unat (bank_size s)" and ?base = "bank_base s b"
  let ?st = "take (?base + unat off) (storage s) @ data @ drop (?base + unat off + length data) (storage s)"
  have B: "?base + ?B \<le> length (storage s)" by (rule fm_bank_fit [OF ok b])
  have B': "bank_base s (1 - b) + ?B \<le> length (storage s)" using b by (intro fm_bank_fit [OF ok]) auto
  have win: "take (length data) (drop (?base + unat off) (storage s)) =
               take (unat n) (drop (unat off) (fm_cells s b))"
    using fit n by (simp add: fm_cells_def drop_take add.commute)
  have loop: "flash_write_loop (storage s) (?base + unat off) data (unat n) = Some ?st"
    unfolding n using B fit n prog win by (intro flash_write_loop_eq) simp_all
  have noov: "unat (off + n) = unat off + unat n"
    using fit by (rule unat_plus_le)
  have "hal_flash_bank_memory_write s b off data n = Some (s\<lparr> storage := ?st \<rparr>)"
    using b fit noov loop
    by (auto simp: hal_flash_bank_memory_write_def word_less_nat_alt not_less)
  moreover have "length ?st = length (storage s)" using B fit n by simp
  moreover have "fm_cells (s\<lparr> storage := ?st \<rparr>) b =
      take (unat off) (fm_cells s b) @ data @ drop (unat off + unat n) (fm_cells s b)"
    unfolding fm_cells_def n using take_drop_splice [of "unat off" data ?B ?base "storage s"] B fit n
    by (simp add: bank_base_def)
  moreover have "fm_cells (s\<lparr> storage := ?st \<rparr>) (1 - b) = fm_cells s (1 - b)"
  proof -
    have "bank_base s (1 - b) + ?B \<le> ?base + unat off \<or> ?base + unat off + length data \<le> bank_base s (1 - b)"
      using b fit n by (auto simp: bank_base_def)
    then show ?thesis
      unfolding fm_cells_def
      using take_drop_splice_other [of "bank_base s (1 - b)" ?B "?base + unat off" data "storage s"] B B' fit n
      by (simp add: bank_base_def)
  qed
  ultimately show ?thesis by blast
qed

lemma fm_erase:
  assumes ok: "fm_ok s" and b: "b = 0 \<or> b = 1"
  shows "\<exists>st. hal_flash_bank_memory_erase s b = Some (s\<lparr> storage := st \<rparr>)
     \<and> length st = length (storage s)
     \<and> fm_cells (s\<lparr> storage := st \<rparr>) b = replicate (unat (bank_size s)) 0xff
     \<and> fm_cells (s\<lparr> storage := st \<rparr>) (1 - b) = fm_cells s (1 - b)"
proof -
  let ?B = "unat (bank_size s)" and ?base = "bank_base s b"
  let ?ff = "replicate ?B (0xff :: u8)"
  let ?st = "take ?base (storage s) @ ?ff @ drop (?base + length ?ff) (storage s)"
  have B: "?base + ?B \<le> length (storage s)" by (rule fm_bank_fit [OF ok b])
  have B': "bank_base s (1 - b) + ?B \<le> length (storage s)" using b by (intro fm_bank_fit [OF ok]) auto
  have "wr_range (storage s) ?base ?ff = Some ?st" using B by (intro wr_range_Some) simp
  then have "hal_flash_bank_memory_erase s b = Some (s\<lparr> storage := ?st \<rparr>)"
    using b by (auto simp: hal_flash_bank_memory_erase_def)
  moreover have "length ?st = length (storage s)" using B by simp
  moreover have "fm_cells (s\<lparr> storage := ?st \<rparr>) b = ?ff"
    using B by (simp add: fm_cells_def bank_base_def)
  moreover have "fm_cells (s\<lparr> storage := ?st \<rparr>) (1 - b) = fm_cells s (1 - b)"
    unfolding fm_cells_def
    using take_drop_splice_other [of "bank_base s (1 - b)" ?B ?base ?ff "storage s"] B B' b
    by (auto simp: bank_base_def)
  ultimately show ?thesis by blast
qed

lemma fm_read:
  assumes ok: "fm_ok s" and b: "b = 0 \<or> b = 1" and fit: "unat off + unat n \<le> unat (bank_size s)"
  shows "hal_flash_bank_memory_read s b off n = Some (take (unat n) (drop (unat off) (fm_cells s b)))"
proof -
  have noov: "unat (off + n) = unat off + unat n"
    using fit by (rule unat_plus_le)
  have "take (unat n) (drop (bank_base s b + unat off) (storage s)) = take (unat n) (drop (unat off) (fm_cells s b))"
    using fit by (simp add: fm_cells_def drop_take add.commute)
  then show ?thesis
    using b fit noov fm_bank_fit [OF ok b]
    by (auto simp: hal_flash_bank_memory_read_def word_less_nat_alt not_less rd_range_def)
qed

lemma fm_ok_update: "fm_ok s \<Longrightarrow> length st = length (storage s) \<Longrightarrow> fm_ok (s\<lparr> storage := st \<rparr>)"
  by (simp add: fm_ok_def)

interpretation fm: flash_banks hal_flash_bank_memory_instance fm_ok fm_cells
proof
  fix s :: flash_memory and b :: int
  assume ok: "fm_ok s" and b: "b = 0 \<or> b = 1"
  show "length (fm_cells s b) = unat (hal_get_size hal_flash_bank_memory_instance s)"
    using fm_bank_fit [OF ok b] by (simp add: fm_cells_def fm_instance)
  show "\<exists>s'. hal_erase hal_flash_bank_memory_instance s b = Some s' \<and> fm_ok s'
      \<and> hal_get_size hal_flash_bank_memory_instance s' = hal_get_size hal_flash_bank_memory_instance s
      \<and> fm_cells s' b = replicate (unat (hal_get_size hal_flash_bank_memory_instance s)) 0xff
      \<and> fm_cells s' (1 - b) = fm_cells s (1 - b)"
    using fm_erase [OF ok b] fm_ok_update [OF ok] by (auto simp: fm_instance)
  fix off n :: u32 assume "unat off + unat n \<le> unat (hal_get_size hal_flash_bank_memory_instance s)"
  then have fit: "unat off + unat n \<le> unat (bank_size s)" by (simp add: fm_instance)
  show "hal_read hal_flash_bank_memory_instance s b off n = Some (take (unat n) (drop (unat off) (fm_cells s b)))"
    using fm_read [OF ok b fit] by (simp add: fm_instance)
  fix data assume "unat n = length data" "programs (take (unat n) (drop (unat off) (fm_cells s b))) data"
  with fm_write [OF ok b fit] fm_ok_update [OF ok]
  show "\<exists>s'. hal_write hal_flash_bank_memory_instance s b off data n = Some s' \<and> fm_ok s'
      \<and> hal_get_size hal_flash_bank_memory_instance s' = hal_get_size hal_flash_bank_memory_instance s
      \<and> fm_cells s' b = take (unat off) (fm_cells s b) @ data @ drop (unat off + unat n) (fm_cells s b)
      \<and> fm_cells s' (1 - b) = fm_cells s (1 - b)"
    by (fastforce simp: fm_instance)
qed (simp_all add: fm_instance fm_ok_def)

text \<open>Flash in RAM.  After \<open>hal_flash_bank_memory_init_instance\<close> both banks are erased, and data
  without the byte \<open>0xff\<close> that is written inside an erased bank reads back, whatever its position.\<close>

theorem hal_flash_bank_memory_write_read:
  assumes "unat storage_size \<le> length st" and "unat off + unat n \<le> unat storage_size div 2"
    and "unat n = length data" and "0xff \<notin> set data" and "bank = 0 \<or> bank = 1"
  shows "do { s \<leftarrow> hal_flash_bank_memory_init_instance st storage_size;
              s \<leftarrow> hal_flash_bank_memory_write s bank off data n;
              hal_flash_bank_memory_read s bank off n } = Some data"
proof -
  let ?st = "replicate (unat storage_size) 0xff @ drop (unat storage_size) st"
  let ?s = "\<lparr> bank_size = storage_size div 2, storage = ?st \<rparr>"
  have i: "hal_flash_bank_memory_init_instance st storage_size = Some ?s"
    using assms(1) wr_range_Some [of 0 "replicate (unat storage_size) 0xff" st]
    by (simp add: hal_flash_bank_memory_init_instance_def)
  have sz: "unat (bank_size ?s) = unat storage_size div 2" by (simp add: unat_div)
  have ok: "fm_ok ?s"
    using assms(1) unat_u32_less [of storage_size] unfolding fm_ok_def sz by (simp; linarith)
  have "fm_cells ?s bank = replicate (unat storage_size div 2) 0xff"
  proof -
    have "2 * (unat storage_size div 2) \<le> unat storage_size" by simp
    then show ?thesis
      unfolding fm_cells_def sz using assms(5) by (auto simp: bank_base_def unat_div)
  qed
  then have "programs (take (unat n) (drop (unat off) (fm_cells ?s bank))) data"
    using assms(2-4) programs_erased [of data] by (simp add: min_absorb1 [OF le_diff_conv2 [THEN iffD2]])
  then show ?thesis
    using fm.write_read [OF ok assms(5), of off n data] assms(2,3) i sz by (simp add: fm_instance)
qed

theorem hal_flash_bank_memory_write_read_witness:
  "do { s \<leftarrow> hal_flash_bank_memory_init_instance [1, 2, 3, 4, 5, 6, 7, 8] 8;
        s \<leftarrow> hal_flash_bank_memory_write s 1 1 [0, 0xfe] 2;
        hal_flash_bank_memory_read s 1 1 2 } = Some [0, 0xfe]"
  by (rule hal_flash_bank_memory_write_read) simp_all

text \<open>A byte \<open>0xff\<close> inside the data is not kept at its place.  The write loop skips it without moving on
  in the flash, so the bytes after it end up too early: two bytes \<open>0xff\<close>, \<open>d\<close> read back as \<open>d\<close>, \<open>0xff\<close>.\<close>

theorem hal_flash_bank_memory_write_shifts:
  assumes "d \<noteq> 0xff"
  shows "do { s \<leftarrow> hal_flash_bank_memory_init_instance [0, 0, 0, 0] 4;
              s \<leftarrow> hal_flash_bank_memory_write s 0 0 [0xff, d] 2;
              hal_flash_bank_memory_read s 0 0 2 } = Some [d, 0xff]"
proof -
  have two: "unat (2 :: u32) = Suc (Suc 0)" by simp
  have four: "unat (4 :: u32) = Suc (Suc (Suc (Suc 0)))" by simp
  have rep: "replicate (unat (4 :: u32)) (0xff :: u8) = [0xff, 0xff, 0xff, 0xff]" unfolding four by simp
  have i: "hal_flash_bank_memory_init_instance [0, 0, 0, 0] 4 =
      Some \<lparr> bank_size = 2, storage = [0xff, 0xff, 0xff, 0xff] \<rparr>"
    unfolding hal_flash_bank_memory_init_instance_def rep by (simp add: wr_range_def)
  have "flash_write_loop [0xff, 0xff, 0xff, 0xff] 0 [0xff, d] (unat (2 :: u32)) = Some [d, 0xff, 0xff, 0xff]"
    unfolding two using assms by (simp add: rd_def wr_def)
  then show ?thesis
    by (simp add: i hal_flash_bank_memory_write_def hal_flash_bank_memory_read_def rd_range_def bank_base_def)
qed

theorem hal_flash_bank_memory_write_shifts_witness:
  "do { s \<leftarrow> hal_flash_bank_memory_init_instance [0, 0, 0, 0] 4;
        s \<leftarrow> hal_flash_bank_memory_write s 0 0 [0xff, 0x12] 2;
        hal_flash_bank_memory_read s 0 0 2 } = Some [0x12, 0xff]"
  by (rule hal_flash_bank_memory_write_shifts) simp

end
