(* ===== verification/Tag_Store.thy ===== *)
theory Tag_Store
  imports BT_Prelude
begin

text \<open>
  The interface \<open>btstack_tlv_t\<close> (\<open>btstack_tlv.h\<close>) by which the key and device databases keep their
  records: get, store and delete a value by its 32 bit tag.  The locale \<open>tag_store\<close> is its contract over
  the list of live entries, and what follows from it for any sequence of operations is proved once
  there.  The registry \<open>btstack_tlv_set_instance\<close> / \<open>btstack_tlv_get_instance\<close> is modelled too.
\<close>

text \<open>The buffer argument of \<open>get_tag\<close> is \<^const>\<open>None\<close> for a null pointer; the result is the returned size and
  the buffer afterwards.\<close>

record 's btstack_tlv =
  get_tag :: "'s \<Rightarrow> u32 \<Rightarrow> buffer option \<Rightarrow> u32 \<Rightarrow> (u32 \<times> buffer option) option"
  store_tag :: "'s \<Rightarrow> u32 \<Rightarrow> buffer \<Rightarrow> u32 \<Rightarrow> (int \<times> 's) option"
  delete_tag :: "'s \<Rightarrow> u32 \<Rightarrow> 's option"

record 's tlv_singleton =
  btstack_tlv_singleton_impl :: "'s btstack_tlv"
  btstack_tlv_singleton_context :: 's

definition btstack_tlv_set_instance :: "'s tlv_singleton \<Rightarrow> 's btstack_tlv \<Rightarrow> 's \<Rightarrow> 's tlv_singleton" where
  "btstack_tlv_set_instance g tlv_impl tlv_context =
     g\<lparr> btstack_tlv_singleton_impl := tlv_impl, btstack_tlv_singleton_context := tlv_context \<rparr>"

definition btstack_tlv_get_instance :: "'s tlv_singleton \<Rightarrow> 's btstack_tlv \<times> 's" where
  "btstack_tlv_get_instance g = (btstack_tlv_singleton_impl g, btstack_tlv_singleton_context g)"

section \<open>Association lists of tags\<close>

type_synonym tlv_entry = "u32 \<times> buffer"

fun tlv_lookup :: "tlv_entry list \<Rightarrow> u32 \<Rightarrow> buffer option" where
  "tlv_lookup [] t = None"
| "tlv_lookup ((t', v) # es) t = (if t' = t then Some v else tlv_lookup es t)"

definition tlv_without :: "u32 \<Rightarrow> tlv_entry list \<Rightarrow> tlv_entry list" where
  "tlv_without tag = filter (\<lambda>(t, v). t \<noteq> tag)"

text \<open>Flash bytes that the entries take: a header of eight bytes each.\<close>

definition tlv_used :: "tlv_entry list \<Rightarrow> nat" where
  "tlv_used L = (\<Sum>(t, v) \<leftarrow> L. 8 + length v)"

lemma tlv_lookup_append: "tlv_lookup (es @ fs) u = (case tlv_lookup es u of None \<Rightarrow> tlv_lookup fs u | Some v \<Rightarrow> Some v)"
  by (induction es) (auto split: option.splits)

lemma tlv_lookup_without: "tlv_lookup (tlv_without tag L) t = (if t = tag then None else tlv_lookup L t)"
  by (induction L) (auto simp: tlv_without_def)

lemma tlv_lookup_set: "t \<notin> set (map fst L) \<Longrightarrow> tlv_lookup L t = None"
  by (induction L) auto

lemma tlv_used_Nil [simp]: "tlv_used [] = 0" by (simp add: tlv_used_def)
lemma tlv_used_Cons [simp]: "tlv_used ((t, v) # L) = 8 + length v + tlv_used L" by (simp add: tlv_used_def)
lemma tlv_used_append [simp]: "tlv_used (L @ M) = tlv_used L + tlv_used M" by (simp add: tlv_used_def)

lemma tlv_without_fst: "set (map fst (tlv_without tag L)) = set (map fst L) - {tag}"
  by (induction L) (auto simp: tlv_without_def)

lemma tlv_without_distinct: "distinct (map fst L) \<Longrightarrow> distinct (map fst (tlv_without tag L))"
  unfolding tlv_without_def by (rule distinct_map_filter)

lemma tlv_used_without_le: "tlv_used (tlv_without tag L) \<le> tlv_used L"
  by (induction L) (auto simp: tlv_without_def)

section \<open>The contract\<close>

datatype tag_op = Store u32 buffer | Delete u32

text \<open>What a sequence of operations does to the live entries of a store with room for \<open>cap\<close> bytes, and
  the results of its stores.  A value is refused (result 2) when it does not fit beside everything that
  is live, the value it would replace included.\<close>

fun tag_spec :: "nat \<Rightarrow> tlv_entry list \<Rightarrow> tag_op list \<Rightarrow> tlv_entry list \<times> int list" where
  "tag_spec cap L [] = (L, [])"
| "tag_spec cap L (Store t v # ops) =
     (if 8 + length v + tlv_used L \<le> cap
      then let (L', rs) = tag_spec cap (tlv_without t L @ [(t, v)]) ops in (L', 0 # rs)
      else let (L', rs) = tag_spec cap L ops in (L', 2 # rs))"
| "tag_spec cap L (Delete t # ops) = tag_spec cap (tlv_without t L) ops"

fun tag_run :: "'s btstack_tlv \<Rightarrow> 's \<Rightarrow> tag_op list \<Rightarrow> ('s \<times> int list) option" where
  "tag_run tlv s [] = Some (s, [])"
| "tag_run tlv s (Store t v # ops) = do {
     stored \<leftarrow> store_tag tlv s t v (of_nat (length v));
     res \<leftarrow> tag_run tlv (snd stored) ops;
     Some (fst res, fst stored # snd res) }"
| "tag_run tlv s (Delete t # ops) = do { s \<leftarrow> delete_tag tlv s t; tag_run tlv s ops }"

primrec op_admissible :: "(tlv_entry \<Rightarrow> bool) \<Rightarrow> tag_op \<Rightarrow> bool" where
  "op_admissible ok (Store t v) = ok (t, v)"
| "op_admissible ok (Delete t) = (t \<noteq> 0)"

locale tag_store =
  fixes tlv :: "'s btstack_tlv" and holds :: "'s \<Rightarrow> tlv_entry list \<Rightarrow> bool"
    and ok_entry :: "tlv_entry \<Rightarrow> bool" and cap :: "'s \<Rightarrow> nat"
  assumes ok_entry_law: "ok_entry (t, v) \<Longrightarrow> t \<noteq> 0 \<and> length v < 4294967296"
    and get_law: "holds s L \<Longrightarrow> t \<noteq> 0 \<Longrightarrow> length b = unat n \<Longrightarrow>
      get_tag tlv s t (Some b) n = (case tlv_lookup L t of None \<Rightarrow> Some (0, Some b)
        | Some v \<Rightarrow> Some (of_nat (min (unat n) (length v)), Some (take (unat n) v @ drop (length v) b)))"
    and store_law: "holds s L \<Longrightarrow> ok_entry (t, v) \<Longrightarrow> unat n = length v \<Longrightarrow>
      \<exists>s'. store_tag tlv s t v n = Some (if 8 + length v + tlv_used L \<le> cap s then 0 else 2, s')
        \<and> cap s' = cap s
        \<and> holds s' (if 8 + length v + tlv_used L \<le> cap s then tlv_without t L @ [(t, v)] else L)"
    and delete_law: "holds s L \<Longrightarrow> t \<noteq> 0 \<Longrightarrow>
      \<exists>s'. delete_tag tlv s t = Some s' \<and> cap s' = cap s \<and> holds s' (tlv_without t L)"
begin

lemma run_eq:
  assumes "holds s L" and "list_all (op_admissible ok_entry) ops"
  shows "\<exists>s'. tag_run tlv s ops = Some (s', snd (tag_spec (cap s) L ops)) \<and> cap s' = cap s
     \<and> holds s' (fst (tag_spec (cap s) L ops))"
  using assms
proof (induction ops arbitrary: s L)
  case (Cons op ops)
  show ?case
  proof (cases op)
    case (Store t v)
    let ?L = "if 8 + length v + tlv_used L \<le> cap s then tlv_without t L @ [(t, v)] else L"
    have ok: "ok_entry (t, v)" using Cons.prems(2) Store by simp
    then have len: "unat (of_nat (length v) :: u32) = length v"
      using ok_entry_law by (intro unat_of_nat_u32) blast
    obtain s1 where s1: "store_tag tlv s t v (of_nat (length v)) =
        Some (if 8 + length v + tlv_used L \<le> cap s then 0 else 2, s1)" "cap s1 = cap s" "holds s1 ?L"
      using store_law [OF Cons.prems(1) ok len] by blast
    obtain s2 where s2: "tag_run tlv s1 ops = Some (s2, snd (tag_spec (cap s) ?L ops))" "cap s2 = cap s"
      "holds s2 (fst (tag_spec (cap s) ?L ops))"
      using Cons.IH [OF s1(3)] Cons.prems(2) s1(2) by auto
    then show ?thesis using s1 s2 Store by (auto simp: split_def Let_def)
  next
    case (Delete t)
    obtain s1 where s1: "delete_tag tlv s t = Some s1" "cap s1 = cap s" "holds s1 (tlv_without t L)"
      using delete_law [OF Cons.prems(1), of t] Cons.prems(2) Delete by auto
    then show ?thesis using Cons.IH [OF s1(3)] Cons.prems(2) Delete by auto
  qed
qed simp

lemma get_after_run:
  assumes "holds s L" and "list_all (op_admissible ok_entry) ops" and "t \<noteq> 0" and "length b = unat n"
  shows "\<exists>s' rs. tag_run tlv s ops = Some (s', rs) \<and> rs = snd (tag_spec (cap s) L ops)
     \<and> get_tag tlv s' t (Some b) n = (case tlv_lookup (fst (tag_spec (cap s) L ops)) t of
          None \<Rightarrow> Some (0, Some b)
        | Some v \<Rightarrow> Some (of_nat (min (unat n) (length v)), Some (take (unat n) v @ drop (length v) b)))"
  using run_eq [OF assms(1,2)] get_law [OF _ assms(3,4)] by blast

end

end
