(* ===== verification/Tlv_Flash.thy ===== *)
theory Tlv_Flash
  imports Flash_Bank Tag_Store
begin

text \<open>
  Model of \<open>btstack_tlv_flash_bank.c\<close>: the log structured tag/length/value store over two flash banks.
  The HAL is a parameter (the record of function pointers with its context), as in the source.

  Bytes that a failed or short HAL read leaves uninitialised in a local buffer cannot be read: a
  routine that would look at them is \<^const>\<open>None\<close>, and so is one whose HAL call does not return.
  Arithmetic on \<open>int\<close> positions is kept on 32 bit words, as the comparisons with the bank size are.
\<close>

record 's tlv_flash_bank =
  hal_flash_bank_impl :: "'s hal_flash_bank"
  hal_flash_bank_context :: 's
  current_bank :: int
  write_offset :: u32

record tlv_iterator =
  it_bank :: int
  it_offset :: u32
  it_tag :: u32
  it_len :: u32

definition BTSTACK_TLV_HEADER_LEN :: u32 where "BTSTACK_TLV_HEADER_LEN = 8"
definition BTSTACK_FLASH_ALIGNMENT_MAX :: u32 where "BTSTACK_FLASH_ALIGNMENT_MAX = 8"

text \<open>"BTstack" with its terminating zero.\<close>

definition btstack_tlv_header_magic :: buffer where
  "btstack_tlv_header_magic = [0x42, 0x54, 0x73, 0x74, 0x61, 0x63, 0x6b, 0]"

abbreviation tlv_size :: "'s tlv_flash_bank \<Rightarrow> u32" where
  "tlv_size self \<equiv> hal_get_size (hal_flash_bank_impl self) (hal_flash_bank_context self)"

abbreviation tlv_alignment :: "'s tlv_flash_bank \<Rightarrow> u32" where
  "tlv_alignment self \<equiv> hal_get_alignment (hal_flash_bank_impl self) (hal_flash_bank_context self)"

section \<open>Access with alignment\<close>

definition btstack_tlv_flash_bank_align_size :: "'s tlv_flash_bank \<Rightarrow> u32 \<Rightarrow> u32" where
  "btstack_tlv_flash_bank_align_size self n =
     (let alignment = tlv_alignment self in (n + alignment - 1) AND NOT (alignment - 1))"

text \<open>The bytes that the routine puts into the caller's buffer, from its start.\<close>

definition btstack_tlv_flash_bank_read :: "'s tlv_flash_bank \<Rightarrow> int \<Rightarrow> u32 \<Rightarrow> u32 \<Rightarrow> buffer option" where
  "btstack_tlv_flash_bank_read self bank offset n =
     (let alignment = tlv_alignment self;
          lower_bits = n AND (alignment - 1);
          size_aligned = n - lower_bits
      in do {
        xs \<leftarrow> (if size_aligned \<noteq> 0
                then hal_read (hal_flash_bank_impl self) (hal_flash_bank_context self) bank offset size_aligned
                else Some []);
        let offset = offset + size_aligned;
        let n = n - size_aligned;
        if n = 0 then Some xs
        else if alignment > BTSTACK_FLASH_ALIGNMENT_MAX then None
        else do {
          block \<leftarrow> hal_read (hal_flash_bank_impl self) (hal_flash_bank_context self) bank offset alignment;
          let bytes_to_copy = btstack_min (alignment - lower_bits) n;
          ys \<leftarrow> rd_range block 0 (unat bytes_to_copy);
          Some (xs @ ys) } })"

definition btstack_tlv_flash_bank_write ::
    "'s tlv_flash_bank \<Rightarrow> int \<Rightarrow> u32 \<Rightarrow> buffer \<Rightarrow> u32 \<Rightarrow> 's tlv_flash_bank option" where
  "btstack_tlv_flash_bank_write self bank offset buf n =
     (let alignment = tlv_alignment self;
          lower_bits = n AND (alignment - 1);
          size_aligned = n - lower_bits
      in do {
        context \<leftarrow> (if size_aligned \<noteq> 0
                then hal_write (hal_flash_bank_impl self) (hal_flash_bank_context self) bank offset buf size_aligned
                else Some (hal_flash_bank_context self));
        let self = self\<lparr> hal_flash_bank_context := context \<rparr>;
        let buf = drop (unat size_aligned) buf;
        let offset = offset + size_aligned;
        let n = n - size_aligned;
        if n = 0 then Some self
        else if alignment > BTSTACK_FLASH_ALIGNMENT_MAX then None
        else do {
          tail \<leftarrow> rd_range buf 0 (unat lower_bits);
          block \<leftarrow> wr_range (replicate (unat alignment) 0xff) 0 tail;
          context \<leftarrow> hal_write (hal_flash_bank_impl self) (hal_flash_bank_context self) bank offset block alignment;
          Some (self\<lparr> hal_flash_bank_context := context \<rparr>) } })"

section \<open>Iterator\<close>

definition btstack_tlv_flash_bank_iterator_fetch_tag_len ::
    "'s tlv_flash_bank \<Rightarrow> tlv_iterator \<Rightarrow> tlv_iterator option" where
  "btstack_tlv_flash_bank_iterator_fetch_tag_len self it = do {
     entry \<leftarrow> btstack_tlv_flash_bank_read self (it_bank it) (it_offset it) 8;
     tag \<leftarrow> big_endian_read_32 entry 0;
     len \<leftarrow> big_endian_read_32 entry 4;
     Some (it\<lparr> it_tag := tag, it_len := len \<rparr>) }"

definition btstack_tlv_flash_bank_iterator_init :: "'s tlv_flash_bank \<Rightarrow> int \<Rightarrow> tlv_iterator option" where
  "btstack_tlv_flash_bank_iterator_init self bank =
     btstack_tlv_flash_bank_iterator_fetch_tag_len self
       \<lparr> it_bank = bank, it_offset = BTSTACK_TLV_HEADER_LEN, it_tag = 0, it_len = 0 \<rparr>"

definition btstack_tlv_flash_bank_iterator_has_next :: "'s tlv_flash_bank \<Rightarrow> tlv_iterator \<Rightarrow> bool" where
  "btstack_tlv_flash_bank_iterator_has_next self it = (if it_tag it = 0xffffffff then False else True)"

definition tlv_iterator_fetch_next :: "'s tlv_flash_bank \<Rightarrow> tlv_iterator \<Rightarrow> tlv_iterator option" where
  "tlv_iterator_fetch_next self it =
     (let it = it\<lparr> it_offset := it_offset it + (8 + btstack_tlv_flash_bank_align_size self (it_len it)) \<rparr>
      in if it_offset it \<ge> tlv_size self then Some (it\<lparr> it_tag := 0xffffffff, it_len := 0 \<rparr>)
         else btstack_tlv_flash_bank_iterator_fetch_tag_len self it)"

section \<open>Banks\<close>

definition btstack_tlv_flash_bank_get_latest_bank :: "'s tlv_flash_bank \<Rightarrow> int option" where
  "btstack_tlv_flash_bank_get_latest_bank self = do {
     header0 \<leftarrow> btstack_tlv_flash_bank_read self 0 0 BTSTACK_TLV_HEADER_LEN;
     header1 \<leftarrow> btstack_tlv_flash_bank_read self 1 0 BTSTACK_TLV_HEADER_LEN;
     cmp0 \<leftarrow> memcmp_n 7 header0 btstack_tlv_header_magic;
     cmp1 \<leftarrow> memcmp_n 7 header1 btstack_tlv_header_magic;
     let valid0 = (cmp0 = 0);
     let valid1 = (cmp1 = 0);
     if \<not> valid0 \<and> \<not> valid1 then Some (-1)
     else if valid0 \<and> \<not> valid1 then Some 0
     else if \<not> valid0 \<and> valid1 then Some 1
     else do {
       e0 \<leftarrow> rd header0 7;
       e1 \<leftarrow> rd header1 7;
       let epoch0 = e0 AND 0x03;
       let epoch1 = e1 AND 0x03;
       if epoch0 = (epoch1 + 1) AND 0x03 then Some 0
       else if epoch1 = (epoch0 + 1) AND 0x03 then Some 1
       else Some (-1) } }"

definition btstack_tlv_flash_bank_write_header ::
    "'s tlv_flash_bank \<Rightarrow> int \<Rightarrow> u8 \<Rightarrow> 's tlv_flash_bank option" where
  "btstack_tlv_flash_bank_write_header self bank epoch =
     btstack_tlv_flash_bank_write self bank 0 (take 7 btstack_tlv_header_magic @ [epoch]) BTSTACK_TLV_HEADER_LEN"

partial_function (option) test_erased_from :: "'s tlv_flash_bank \<Rightarrow> int \<Rightarrow> u32 \<Rightarrow> bool option" where
  "test_erased_from self bank offset =
     (if offset < tlv_size self then
        (let copy_size = (if offset + 16 < tlv_size self then 16 else tlv_size self - offset)
         in do {
           buf \<leftarrow> btstack_tlv_flash_bank_read self bank offset copy_size;
           r \<leftarrow> memcmp_n (unat copy_size) buf (replicate 16 0xff);
           if r \<noteq> 0 then Some False
           else test_erased_from self bank (offset + copy_size) })
      else Some True)"

definition btstack_tlv_flash_bank_test_erased :: "'s tlv_flash_bank \<Rightarrow> int \<Rightarrow> u32 \<Rightarrow> bool option" where
  "btstack_tlv_flash_bank_test_erased self bank offset = test_erased_from self bank offset"

definition btstack_tlv_flash_bank_erase_bank :: "'s tlv_flash_bank \<Rightarrow> int \<Rightarrow> 's tlv_flash_bank option" where
  "btstack_tlv_flash_bank_erase_bank self bank = do {
     erased \<leftarrow> btstack_tlv_flash_bank_test_erased self bank 0;
     if erased then Some self
     else do {
       context \<leftarrow> hal_erase (hal_flash_bank_impl self) (hal_flash_bank_context self) bank;
       Some (self\<lparr> hal_flash_bank_context := context \<rparr>) } }"

section \<open>Migration\<close>

text \<open>The inner loop copies one entry in pieces of at most 32 bytes.\<close>

partial_function (option) migrate_copy ::
    "'s tlv_flash_bank \<Rightarrow> int \<Rightarrow> u32 \<Rightarrow> u32 \<Rightarrow> u32 \<Rightarrow> ('s tlv_flash_bank \<times> u32) option" where
  "migrate_copy self next_bank tag_index next_write_pos bytes_to_copy =
     (if bytes_to_copy = 0 then Some (self, next_write_pos)
      else (let n = btstack_min bytes_to_copy 32 in do {
        copy_buffer \<leftarrow> btstack_tlv_flash_bank_read self (current_bank self) tag_index n;
        self \<leftarrow> btstack_tlv_flash_bank_write self next_bank next_write_pos copy_buffer n;
        migrate_copy self next_bank (tag_index + n) (next_write_pos + n) (bytes_to_copy - n) }))"

partial_function (option) migrate_entries ::
    "'s tlv_flash_bank \<Rightarrow> int \<Rightarrow> tlv_iterator \<Rightarrow> u32 \<Rightarrow> ('s tlv_flash_bank \<times> u32) option" where
  "migrate_entries self next_bank it next_write_pos =
     (if btstack_tlv_flash_bank_iterator_has_next self it then do {
        moved \<leftarrow> (if it_tag it \<noteq> 0
                   then migrate_copy self next_bank (it_offset it) next_write_pos (8 + it_len it)
                   else Some (self, next_write_pos));
        it \<leftarrow> tlv_iterator_fetch_next (fst moved) it;
        migrate_entries (fst moved) next_bank it (snd moved) }
      else Some (self, next_write_pos))"

definition btstack_tlv_flash_bank_migrate :: "'s tlv_flash_bank \<Rightarrow> 's tlv_flash_bank option" where
  "btstack_tlv_flash_bank_migrate self = do {
     let next_bank = 1 - current_bank self;
     self \<leftarrow> btstack_tlv_flash_bank_erase_bank self next_bank;
     it \<leftarrow> btstack_tlv_flash_bank_iterator_init self (current_bank self);
     moved \<leftarrow> migrate_entries self next_bank it 8;
     let self = fst moved;
     let next_write_pos = snd moved;
     epoch \<leftarrow> btstack_tlv_flash_bank_read self (current_bank self) (BTSTACK_TLV_HEADER_LEN - 1) 1;
     epoch_buffer \<leftarrow> rd epoch 0;
     self \<leftarrow> btstack_tlv_flash_bank_write_header self next_bank ((epoch_buffer + 1) AND 3);
     Some (self\<lparr> current_bank := next_bank, write_offset := next_write_pos \<rparr>) }"

section \<open>Tags\<close>

partial_function (option) delete_tag_from ::
    "'s tlv_flash_bank \<Rightarrow> tlv_iterator \<Rightarrow> u32 \<Rightarrow> u32 \<Rightarrow> 's tlv_flash_bank option" where
  "delete_tag_from self it tag offset =
     (if btstack_tlv_flash_bank_iterator_has_next self it \<and> it_offset it < offset then do {
        self \<leftarrow> (if it_tag it = tag
                  then btstack_tlv_flash_bank_write self (current_bank self) (it_offset it) [0, 0, 0, 0] 4
                  else Some self);
        it \<leftarrow> tlv_iterator_fetch_next self it;
        delete_tag_from self it tag offset }
      else Some self)"

definition btstack_tlv_flash_bank_delete_tag_until_offset ::
    "'s tlv_flash_bank \<Rightarrow> u32 \<Rightarrow> u32 \<Rightarrow> 's tlv_flash_bank option" where
  "btstack_tlv_flash_bank_delete_tag_until_offset self tag offset = do {
     it \<leftarrow> btstack_tlv_flash_bank_iterator_init self (current_bank self);
     delete_tag_from self it tag offset }"

partial_function (option) find_tag_from ::
    "'s tlv_flash_bank \<Rightarrow> tlv_iterator \<Rightarrow> u32 \<Rightarrow> (u32 \<times> u32) option" where
  "find_tag_from self it tag =
     (if btstack_tlv_flash_bank_iterator_has_next self it then
        (if it_tag it = tag then Some (it_offset it, it_len it)
         else do { it \<leftarrow> tlv_iterator_fetch_next self it; find_tag_from self it tag })
      else Some (0, 0))"

text \<open>The caller's buffer is \<^const>\<open>None\<close> for a null pointer; the result is the returned size and the buffer.\<close>

definition btstack_tlv_flash_bank_get_tag ::
    "'s tlv_flash_bank \<Rightarrow> u32 \<Rightarrow> buffer option \<Rightarrow> u32 \<Rightarrow> (u32 \<times> buffer option) option" where
  "btstack_tlv_flash_bank_get_tag self tag buf buffer_size = do {
     it \<leftarrow> btstack_tlv_flash_bank_iterator_init self (current_bank self);
     found \<leftarrow> find_tag_from self it tag;
     let tag_index = fst found;
     let tag_len = snd found;
     if tag_index = 0 then Some (0, buf)
     else (case buf of
         None \<Rightarrow> Some (tag_len, None)
       | Some b \<Rightarrow> do {
           let copy_size = btstack_min buffer_size tag_len;
           xs \<leftarrow> btstack_tlv_flash_bank_read self (current_bank self) (tag_index + 8) copy_size;
           b \<leftarrow> wr_range b 0 xs;
           Some (copy_size, Some b) }) }"

definition btstack_tlv_flash_bank_store_tag ::
    "'s tlv_flash_bank \<Rightarrow> u32 \<Rightarrow> buffer \<Rightarrow> u32 \<Rightarrow> (int \<times> 's tlv_flash_bank) option" where
  "btstack_tlv_flash_bank_store_tag self tag data data_size = do {
     self \<leftarrow> (if write_offset self + 8 + data_size > tlv_size self
               then btstack_tlv_flash_bank_migrate self else Some self);
     if write_offset self + 8 + data_size > tlv_size self then Some (2, self)
     else do {
       entry \<leftarrow> big_endian_store_32 (replicate 8 0) 0 tag;
       entry \<leftarrow> big_endian_store_32 entry 4 data_size;
       self \<leftarrow> btstack_tlv_flash_bank_write self (current_bank self) (write_offset self + 8) data data_size;
       self \<leftarrow> btstack_tlv_flash_bank_write self (current_bank self) (write_offset self) entry 8;
       self \<leftarrow> btstack_tlv_flash_bank_delete_tag_until_offset self tag (write_offset self);
       Some (0, self\<lparr> write_offset :=
               write_offset self + (8 + btstack_tlv_flash_bank_align_size self data_size) \<rparr>) } }"

definition btstack_tlv_flash_bank_delete_tag :: "'s tlv_flash_bank \<Rightarrow> u32 \<Rightarrow> 's tlv_flash_bank option" where
  "btstack_tlv_flash_bank_delete_tag self tag =
     btstack_tlv_flash_bank_delete_tag_until_offset self tag (write_offset self)"

section \<open>Start up\<close>

text \<open>Walk to the end of the log: the last tag, its offset, and where the iterator stopped.\<close>

partial_function (option) find_end_from ::
    "'s tlv_flash_bank \<Rightarrow> tlv_iterator \<Rightarrow> u32 \<Rightarrow> u32 \<Rightarrow> (u32 \<times> u32 \<times> u32) option" where
  "find_end_from self it last_tag last_offset =
     (if btstack_tlv_flash_bank_iterator_has_next self it then do {
        next_it \<leftarrow> tlv_iterator_fetch_next self it;
        find_end_from self next_it (it_tag it) (it_offset it) }
      else Some (last_tag, last_offset, it_offset it))"

definition btstack_tlv_flash_bank_init_instance ::
    "'s hal_flash_bank \<Rightarrow> 's \<Rightarrow> 's tlv_flash_bank option" where
  "btstack_tlv_flash_bank_init_instance impl context = do {
     let self = \<lparr> hal_flash_bank_impl = impl, hal_flash_bank_context = context,
                   current_bank = 0, write_offset = 0 \<rparr>;
     bank \<leftarrow> btstack_tlv_flash_bank_get_latest_bank self;
     let self = self\<lparr> current_bank := bank \<rparr>;
     self \<leftarrow> (if current_bank self \<ge> 0 then do {
         it \<leftarrow> btstack_tlv_flash_bank_iterator_init self (current_bank self);
         end \<leftarrow> find_end_from self it 0 0;
         let last_tag = fst end;
         let last_offset = fst (snd end);
         let self = self\<lparr> write_offset := snd (snd end) \<rparr>;
         if write_offset self < tlv_size self then do {
           self \<leftarrow> (if last_tag \<noteq> 0
                     then btstack_tlv_flash_bank_delete_tag_until_offset self last_tag last_offset
                     else Some self);
           clean \<leftarrow> btstack_tlv_flash_bank_test_erased self (current_bank self) (write_offset self);
           if \<not> clean then btstack_tlv_flash_bank_migrate self else Some self }
         else Some (self\<lparr> current_bank := -1 \<rparr>) }
       else Some self);
     if current_bank self < 0 then do {
       self \<leftarrow> btstack_tlv_flash_bank_erase_bank self 0;
       let self = self\<lparr> current_bank := 0 \<rparr>;
       self \<leftarrow> btstack_tlv_flash_bank_write_header self (current_bank self) 0;
       Some (self\<lparr> write_offset := 8 \<rparr>) }
     else Some self }"

section \<open>The log\<close>

definition be32 :: "u32 \<Rightarrow> buffer" where
  "be32 v = [to8 (drop_bit 24 v), to8 (drop_bit 16 v), to8 (drop_bit 8 v), to8 v]"

definition tlv_entry_bytes :: "u32 \<times> buffer \<Rightarrow> buffer" where
  "tlv_entry_bytes = (\<lambda>(t, v). be32 t @ be32 (of_nat (length v)) @ v)"

definition tlv_log :: "(u32 \<times> buffer) list \<Rightarrow> buffer" where
  "tlv_log es = concat (map tlv_entry_bytes es)"

definition tlv_header :: "u8 \<Rightarrow> buffer" where
  "tlv_header epoch = take 7 btstack_tlv_header_magic @ [epoch]"

text \<open>What overwriting the tag of an entry does to the log, and the entries that are not deleted.\<close>

definition tlv_mark :: "u32 \<Rightarrow> (u32 \<times> buffer) list \<Rightarrow> (u32 \<times> buffer) list" where
  "tlv_mark t = map (\<lambda>(t', v). (if t' = t then 0 else t', v))"

definition tlv_live :: "(u32 \<times> buffer) list \<Rightarrow> (u32 \<times> buffer) list" where
  "tlv_live = filter (\<lambda>(t, v). t \<noteq> 0)"

definition tlv_good :: "u32 \<times> buffer \<Rightarrow> bool" where
  "tlv_good e \<longleftrightarrow> 0xff \<notin> set (tlv_entry_bytes e)"

lemma length_be32 [simp]: "length (be32 v) = 4" by (simp add: be32_def)
lemma length_tlv_header [simp]: "length (tlv_header e) = 8" by (simp add: tlv_header_def btstack_tlv_header_magic_def)
lemma length_tlv_entry_bytes [simp]: "length (tlv_entry_bytes (t, v)) = 8 + length v"
  by (simp add: tlv_entry_bytes_def)
lemma tlv_log_Nil [simp]: "tlv_log [] = []" by (simp add: tlv_log_def)
lemma tlv_log_Cons [simp]: "tlv_log (e # es) = tlv_entry_bytes e @ tlv_log es" by (simp add: tlv_log_def)
lemma tlv_log_append [simp]: "tlv_log (es @ fs) = tlv_log es @ tlv_log fs" by (simp add: tlv_log_def)

lemma length_tlv_log_mark [simp]: "length (tlv_log (tlv_mark t es)) = length (tlv_log es)"
  by (induction es) (auto simp: tlv_mark_def)

lemma be32_0: "be32 0 = [0, 0, 0, 0]" by (simp add: be32_def)

lemma be32_read: "big_endian_read_32 (be32 v @ ys) 0 = Some v"
  using join_32 [of v] by (simp add: big_endian_read_32_def be32_def rd_def)

lemma be32_read_4: "big_endian_read_32 (be32 u @ be32 v) 4 = Some v"
  using join_32 [of v] by (simp add: big_endian_read_32_def be32_def rd_def)

lemma be32_store:
  "do { entry \<leftarrow> big_endian_store_32 (replicate 8 0) 0 t; big_endian_store_32 entry 4 n } = Some (be32 t @ be32 n)"
proof -
  have rep: "replicate 8 0 = [0, 0, 0, 0, 0, 0, 0, 0 :: u8]" by (simp add: numeral_eq_Suc)
  show ?thesis unfolding rep by (simp add: big_endian_store_32_def be32_def wr_def)
qed

lemma erased_tag: "big_endian_read_32 (replicate 8 0xff) 0 = Some 0xffffffff"
    "big_endian_read_32 (replicate 8 0xff) 4 = Some 0xffffffff"
  by (simp_all add: big_endian_read_32_def rd_def)

lemma be32_ff: "be32 0xffffffff = [0xff, 0xff, 0xff, 0xff]" by (simp add: be32_def)

lemma tlv_good_tag: "tlv_good (t, v) \<Longrightarrow> t \<noteq> 0xffffffff"
  by (auto simp: tlv_good_def tlv_entry_bytes_def be32_ff)

lemma tlv_good_mark: "tlv_good (t, v) \<Longrightarrow> tlv_good (0, v)"
  by (auto simp: tlv_good_def tlv_entry_bytes_def be32_0)

lemma tlv_good_mark_list: "list_all tlv_good es \<Longrightarrow> list_all tlv_good (tlv_mark t es)"
  by (induction es) (auto simp: tlv_mark_def tlv_good_mark)

lemma tlv_lookup_mark: "u \<noteq> 0 \<Longrightarrow> tlv_lookup (tlv_mark t es) u = (if u = t then None else tlv_lookup es u)"
  by (induction es) (auto simp: tlv_mark_def)

lemma tlv_lookup_live: "u \<noteq> 0 \<Longrightarrow> tlv_lookup (tlv_live es) u = tlv_lookup es u"
  by (induction es) (auto simp: tlv_live_def)

text \<open>
  What the store relies on: a bank that holds the header, the entries \<open>es\<close> and \<open>k\<close> erased bytes.  The
  iterator reads eight bytes behind the last entry unless the bank is full there, so between one and
  seven erased bytes at the end are a state in which it reads bytes that are not there.
\<close>

definition tlv_readable :: "(u32 \<times> buffer) list \<Rightarrow> nat \<Rightarrow> bool" where
  "tlv_readable es k \<longleftrightarrow> 8 \<le> k \<or> k = 0 \<and> es \<noteq> []"

definition tlv_bank ::
    "'s hal_flash_bank \<Rightarrow> ('s \<Rightarrow> bool) \<Rightarrow> ('s \<Rightarrow> int \<Rightarrow> buffer) \<Rightarrow> 's tlv_flash_bank \<Rightarrow> u8 \<Rightarrow>
      (u32 \<times> buffer) list \<Rightarrow> nat \<Rightarrow> bool" where
  "tlv_bank hal ok cells self epoch es k \<longleftrightarrow>
     hal_flash_bank_impl self = hal \<and> ok (hal_flash_bank_context self)
     \<and> (current_bank self = 0 \<or> current_bank self = 1)
     \<and> cells (hal_flash_bank_context self) (current_bank self) = tlv_header epoch @ tlv_log es @ replicate k 0xff
     \<and> list_all tlv_good es"

definition tlv_inv ::
    "'s hal_flash_bank \<Rightarrow> ('s \<Rightarrow> bool) \<Rightarrow> ('s \<Rightarrow> int \<Rightarrow> buffer) \<Rightarrow> 's tlv_flash_bank \<Rightarrow> u8 \<Rightarrow>
      (u32 \<times> buffer) list \<Rightarrow> nat \<Rightarrow> bool" where
  "tlv_inv hal ok cells self epoch es k \<longleftrightarrow>
     tlv_bank hal ok cells self epoch es k \<and> unat (write_offset self) = 8 + length (tlv_log es)"

context flash_banks begin

abbreviation "ctx \<equiv> hal_flash_bank_context"

lemma tlv_read_segment:
  assumes "hal_flash_bank_impl self = hal" and "ok (ctx self)" and "b = 0 \<or> b = 1"
    and "cells (ctx self) b = A @ B @ C" and "length A = unat off" and "length B = unat n"
  shows "btstack_tlv_flash_bank_read self b off n = Some B"
proof -
  have sz: "unat off + unat n \<le> unat (hal_get_size hal (ctx self))"
    using size_cells [OF assms(2,3)] assms(4-6) by simp
  have "hal_read hal (ctx self) b off n = Some B"
    using read_ok [OF assms(2,3) sz] assms(4-6) by simp
  moreover have "n = 0 \<Longrightarrow> B = []" using assms(6) by simp
  ultimately show ?thesis
    using align [OF assms(2)] assms(1) by (simp add: btstack_tlv_flash_bank_read_def Let_def)
qed

lemma tlv_write_segment:
  assumes "hal_flash_bank_impl self = hal" and "ok (ctx self)" and "b = 0 \<or> b = 1"
    and "cells (ctx self) b = A @ B @ C" and "length A = unat off" and "length data = unat n"
    and "length B = unat n" and "programs B data"
  shows "\<exists>s. btstack_tlv_flash_bank_write self b off data n = Some (self\<lparr> hal_flash_bank_context := s \<rparr>)
     \<and> ok s \<and> hal_get_size hal s = hal_get_size hal (ctx self)
     \<and> cells s b = A @ data @ C \<and> cells s (1 - b) = cells (ctx self) (1 - b)"
proof (cases "n = 0")
  case True
  then have "btstack_tlv_flash_bank_write self b off data n = Some (self\<lparr> hal_flash_bank_context := ctx self \<rparr>)"
    by (simp add: btstack_tlv_flash_bank_write_def Let_def)
  then show ?thesis using True assms by (intro exI [of _ "ctx self"]) auto
next
  case False
  have sz: "unat off + unat n \<le> unat (hal_get_size hal (ctx self))"
    using size_cells [OF assms(2,3)] assms(4,5,7) by simp
  have seg: "take (unat n) (drop (unat off) (cells (ctx self) b)) = B" using assms(4,5,7) by simp
  obtain s where s: "hal_write hal (ctx self) b off data n = Some s" "ok s"
    "hal_get_size hal s = hal_get_size hal (ctx self)"
    "cells s b = take (unat off) (cells (ctx self) b) @ data @ drop (unat off + unat n) (cells (ctx self) b)"
    "cells s (1 - b) = cells (ctx self) (1 - b)"
    using write_ok [OF assms(2,3) sz, of data] assms(6,8) seg by auto
  have "cells s b = A @ data @ C" using s(4) assms(4,5,7) by simp
  then show ?thesis
    using s(1-3,5) False align [OF assms(2)] assms(1)
    by (intro exI [of _ s]) (simp add: btstack_tlv_flash_bank_write_def Let_def)
qed

end

section \<open>Walking the log\<close>

text \<open>The iterator stands on the entry \<open>hd es2\<close> after \<open>es1\<close>, or at the end.\<close>

definition it_on :: "'s tlv_flash_bank \<Rightarrow> tlv_iterator \<Rightarrow> (u32 \<times> buffer) list \<Rightarrow> (u32 \<times> buffer) list \<Rightarrow> bool" where
  "it_on self it es1 es2 \<longleftrightarrow> it_bank it = current_bank self
     \<and> unat (it_offset it) = 8 + length (tlv_log es1)
     \<and> (case es2 of [] \<Rightarrow> it_tag it = 0xffffffff
          | e # _ \<Rightarrow> it_tag it = fst e \<and> unat (it_len it) = length (snd e))"

lemma it_on_has_next:
  assumes "it_on self it es1 es2" and "list_all tlv_good es2"
  shows "btstack_tlv_flash_bank_iterator_has_next self it \<longleftrightarrow> es2 \<noteq> []"
  using assms tlv_good_tag
  by (cases es2) (auto simp: it_on_def btstack_tlv_flash_bank_iterator_has_next_def)

context flash_banks begin

lemma tlv_bank_size:
  assumes "tlv_bank hal ok cells self epoch es k"
  shows "unat (hal_get_size hal (ctx self)) = 8 + length (tlv_log es) + k"
proof -
  have a: "ok (ctx self)" "current_bank self = 0 \<or> current_bank self = 1"
    and c: "cells (ctx self) (current_bank self) = tlv_header epoch @ tlv_log es @ replicate k 0xff"
    using assms by (auto simp: tlv_bank_def)
  show ?thesis unfolding size_cells [OF a, symmetric] c by simp
qed

lemma tlv_fetch_entry:
  assumes inv: "tlv_bank hal ok cells self epoch (es1 @ e # es2) k"
    and it: "it_bank it = current_bank self" "unat (it_offset it) = 8 + length (tlv_log es1)"
  shows "\<exists>it'. btstack_tlv_flash_bank_iterator_fetch_tag_len self it = Some it' \<and> it_on self it' es1 (e # es2)"
proof -
  obtain t v where e: "e = (t, v)" by (cases e)
  let ?A = "tlv_header epoch @ tlv_log es1" and ?B = "be32 t @ be32 (of_nat (length v))"
  let ?C = "v @ tlv_log es2 @ replicate k 0xff"
  have len: "unat (of_nat (length v) :: u32) = length v"
  proof (rule unat_of_nat_u32)
    have "length v \<le> 8 + length (tlv_log (es1 @ e # es2)) + k" by (simp add: e)
    also have "\<dots> < 4294967296" unfolding tlv_bank_size [OF inv, symmetric] by simp
    finally show "length v < 4294967296" .
  qed
  have "btstack_tlv_flash_bank_read self (it_bank it) (it_offset it) 8 = Some ?B"
    using inv it by (intro tlv_read_segment [of self "it_bank it" ?A ?B ?C])
      (auto simp: tlv_bank_def e tlv_entry_bytes_def)
  then show ?thesis
    using it len by (simp add: btstack_tlv_flash_bank_iterator_fetch_tag_len_def be32_read be32_read_4 it_on_def e)
qed

lemma tlv_fetch_end:
  assumes inv: "tlv_bank hal ok cells self epoch es k" and k: "8 \<le> k"
    and it: "it_bank it = current_bank self" "unat (it_offset it) = 8 + length (tlv_log es)"
  shows "\<exists>it'. btstack_tlv_flash_bank_iterator_fetch_tag_len self it = Some it' \<and> it_on self it' es []"
proof -
  let ?A = "tlv_header epoch @ tlv_log es" and ?B = "replicate 8 0xff :: buffer"
  have "replicate k (0xff :: u8) = ?B @ replicate (k - 8) 0xff" using k by (simp flip: replicate_add)
  then have "btstack_tlv_flash_bank_read self (it_bank it) (it_offset it) 8 = Some ?B"
    using inv it by (intro tlv_read_segment [of self "it_bank it" ?A ?B "replicate (k - 8) 0xff"])
      (auto simp: tlv_bank_def)
  then show ?thesis
    using it by (simp add: btstack_tlv_flash_bank_iterator_fetch_tag_len_def erased_tag it_on_def)
qed

lemma tlv_iterator_init_on:
  assumes inv: "tlv_bank hal ok cells self epoch es k" and "tlv_readable es k"
  shows "\<exists>it. btstack_tlv_flash_bank_iterator_init self (current_bank self) = Some it \<and> it_on self it [] es"
proof (cases es)
  case Nil
  then show ?thesis
    using tlv_fetch_end [OF inv] assms(2)
    by (simp add: btstack_tlv_flash_bank_iterator_init_def tlv_readable_def BTSTACK_TLV_HEADER_LEN_def)
next
  case (Cons e es2)
  have "tlv_bank hal ok cells self epoch ([] @ e # es2) k" using inv Cons by simp
  from tlv_fetch_entry [OF this] show ?thesis
    by (simp add: Cons btstack_tlv_flash_bank_iterator_init_def BTSTACK_TLV_HEADER_LEN_def)
qed

lemma tlv_iterator_next_on:
  assumes inv: "tlv_bank hal ok cells self epoch (es1 @ e # es2) k" and room: "tlv_readable (es1 @ e # es2) k"
    and it: "it_on self it es1 (e' # es2')" and same: "length (snd e') = length (snd e)"
  shows "\<exists>it'. tlv_iterator_fetch_next self it = Some it' \<and> it_on self it' (es1 @ [e]) es2"
proof -
  obtain t v where e: "e = (t, v)" by (cases e)
  let ?off = "it_offset it + (8 + it_len it)"
  have it': "it_bank it = current_bank self" "unat (it_offset it) = 8 + length (tlv_log es1)"
    "unat (it_len it) = length v" using it same by (simp_all add: it_on_def e)
  have sz: "unat (tlv_size self) = 8 + length (tlv_log (es1 @ e # es2)) + k"
    using tlv_bank_size [OF inv] inv by (simp add: tlv_bank_def)
  have len: "unat (8 + it_len it) = 8 + length v"
  proof -
    have "unat (8 :: u32) + unat (it_len it) \<le> unat (tlv_size self)" unfolding sz it' by (simp add: e)
    then show ?thesis using it' by (subst unat_plus_le) simp_all
  qed
  have off: "unat ?off = 8 + length (tlv_log (es1 @ [e]))"
  proof -
    have "unat (it_offset it) + unat (8 + it_len it) \<le> unat (tlv_size self)"
      unfolding sz len it' by (simp add: e)
    then show ?thesis using it' len by (subst unat_plus_le) (simp_all add: e)
  qed
  have al: "btstack_tlv_flash_bank_align_size self (it_len it) = it_len it"
    using align inv by (simp add: tlv_bank_def btstack_tlv_flash_bank_align_size_def)
  let ?it = "it\<lparr> it_offset := ?off \<rparr>"
  have itb: "it_bank ?it = current_bank self" "unat (it_offset ?it) = 8 + length (tlv_log (es1 @ [e]))"
    using it' off by simp_all
  show ?thesis
  proof (cases es2)
    case Nil
    show ?thesis
    proof (cases "k = 0")
      case True
      then have "it_offset ?it \<ge> tlv_size self" using off sz Nil by (simp add: word_le_nat_alt)
      then show ?thesis using Nil itb al
        by (simp add: tlv_iterator_fetch_next_def Let_def it_on_def)
    next
      case False
      then have k: "8 \<le> k" using room by (simp add: tlv_readable_def)
      have inv': "tlv_bank hal ok cells self epoch (es1 @ [e]) k" using inv Nil by simp
      have "\<not> it_offset ?it \<ge> tlv_size self" using off sz Nil k by (simp add: word_le_nat_alt)
      then show ?thesis using tlv_fetch_end [OF inv' k itb] Nil al
        by (simp add: tlv_iterator_fetch_next_def Let_def)
    qed
  next
    case (Cons f es3)
    obtain tf vf where f: "f = (tf, vf)" by (cases f)
    have inv': "tlv_bank hal ok cells self epoch ((es1 @ [e]) @ f # es3) k" using inv Cons by simp
    have "\<not> it_offset ?it \<ge> tlv_size self" using off sz Cons by (simp add: word_le_nat_alt f)
    then show ?thesis using tlv_fetch_entry [OF inv' itb] Cons al
      by (simp add: tlv_iterator_fetch_next_def Let_def)
  qed
qed

end

section \<open>Reading, deleting, writing\<close>

fun tlv_find :: "nat \<Rightarrow> (u32 \<times> buffer) list \<Rightarrow> u32 \<Rightarrow> (nat \<times> buffer) option" where
  "tlv_find off [] t = None"
| "tlv_find off ((t', v) # es) t = (if t' = t then Some (off, v) else tlv_find (off + 8 + length v) es t)"

lemma tlv_find_lookup: "map_option snd (tlv_find off es t) = tlv_lookup es t"
  by (induction off es t rule: tlv_find.induct) auto

lemma tlv_find_split:
  "tlv_find off es t = Some (o', v) \<Longrightarrow>
     \<exists>es1 es2. es = es1 @ (t, v) # es2 \<and> o' = off + length (tlv_log es1)"
proof (induction off es t rule: tlv_find.induct)
  case (2 off t' v' es t)
  show ?case
  proof (cases "t' = t")
    case True
    then show ?thesis using "2.prems" by (intro exI [of _ "[]"] exI [of _ es]) simp
  next
    case False
    then obtain es1 es2 where "es = es1 @ (t, v) # es2" "o' = off + 8 + length v' + length (tlv_log es1)"
      using 2 by auto
    then show ?thesis by (intro exI [of _ "(t', v') # es1"] exI [of _ es2]) simp
  qed
qed simp

context flash_banks begin

lemma tlv_find_from_eq:
  assumes "tlv_bank hal ok cells self epoch (es1 @ es2) k" and "tlv_readable (es1 @ es2) k"
    and "it_on self it es1 es2"
  shows "\<exists>o' l. find_tag_from self it tag = Some (o', l) \<and>
     (case tlv_find (8 + length (tlv_log es1)) es2 tag of
        None \<Rightarrow> o' = 0 | Some (i, v) \<Rightarrow> unat o' = i \<and> unat l = length v)"
  using assms
proof (induction es2 arbitrary: it es1)
  case Nil
  then show ?case
    by (subst find_tag_from.simps) (simp add: it_on_has_next)
next
  case (Cons e es2)
  obtain t v where e: "e = (t, v)" by (cases e)
  have good: "list_all tlv_good (e # es2)" using Cons.prems(1) by (simp add: tlv_bank_def)
  have has: "btstack_tlv_flash_bank_iterator_has_next self it"
    using it_on_has_next [OF Cons.prems(3) good] by simp
  show ?case
  proof (cases "t = tag")
    case True
    then show ?thesis using has Cons.prems(3)
      by (subst find_tag_from.simps) (simp add: e it_on_def)
  next
    case False
    obtain it' where it': "tlv_iterator_fetch_next self it = Some it'" "it_on self it' (es1 @ [e]) es2"
      using tlv_iterator_next_on [OF Cons.prems refl] by blast
    have "tlv_bank hal ok cells self epoch ((es1 @ [e]) @ es2) k" "tlv_readable ((es1 @ [e]) @ es2) k"
      using Cons.prems(1,2) by simp_all
    from Cons.IH [OF this it'(2)] have IH: "\<exists>o' l. find_tag_from self it' tag = Some (o', l) \<and>
      (case tlv_find (8 + length (tlv_log es1) + 8 + length v) es2 tag of
         None \<Rightarrow> o' = 0 | Some (i, v) \<Rightarrow> unat o' = i \<and> unat l = length v)"
      by (simp add: e add.assoc)
    have "find_tag_from self it tag = find_tag_from self it' tag"
      using has it'(1) False Cons.prems(3) by (subst find_tag_from.simps) (simp add: it_on_def e)
    then show ?thesis using IH False by (simp add: e)
  qed
qed

lemma tlv_get_tag_eq:
  assumes inv: "tlv_bank hal ok cells self epoch es k" and room: "tlv_readable es k"
    and buf: "length b = unat n"
  shows "btstack_tlv_flash_bank_get_tag self tag (Some b) n =
     (case tlv_lookup es tag of None \<Rightarrow> Some (0, Some b)
        | Some v \<Rightarrow> Some (of_nat (min (unat n) (length v)),
                        Some (take (unat n) v @ drop (length v) b)))"
    and "btstack_tlv_flash_bank_get_tag self tag None n =
     Some (case tlv_lookup es tag of None \<Rightarrow> 0 | Some v \<Rightarrow> of_nat (length v), None)"
proof -
  obtain it where it: "btstack_tlv_flash_bank_iterator_init self (current_bank self) = Some it" "it_on self it [] es"
    using tlv_iterator_init_on [OF inv room] by blast
  obtain o' l where f: "find_tag_from self it tag = Some (o', l)"
    "case tlv_find 8 es tag of None \<Rightarrow> o' = 0 | Some (i, v) \<Rightarrow> unat o' = i \<and> unat l = length v"
    using tlv_find_from_eq [of self epoch "[]" es k it tag] inv room it(2) by auto
  note lk = tlv_find_lookup [of 8 es tag, symmetric]
  have "(btstack_tlv_flash_bank_get_tag self tag (Some b) n =
      (case tlv_lookup es tag of None \<Rightarrow> Some (0, Some b)
        | Some v \<Rightarrow> Some (of_nat (min (unat n) (length v)),
                        Some (take (unat n) v @ drop (length v) b)))) \<and>
    (btstack_tlv_flash_bank_get_tag self tag None n =
     Some (case tlv_lookup es tag of None \<Rightarrow> 0 | Some v \<Rightarrow> of_nat (length v), None))"
  proof (cases "tlv_find 8 es tag")
    case None
    then show ?thesis using it(1) f lk by (simp add: btstack_tlv_flash_bank_get_tag_def Let_def)
  next
    case (Some iv)
    obtain i v where iv: "iv = (i, v)" by (cases iv)
    obtain es1 es2 where es: "es = es1 @ (tag, v) # es2" "i = 8 + length (tlv_log es1)"
      using tlv_find_split [of 8 es tag i v] Some iv by auto
    have o': "unat o' = i" "unat l = length v" using f(2) Some iv by simp_all
    then have nz: "o' \<noteq> 0" using es(2) by auto
    have l: "l = of_nat (length v)" by (simp flip: o'(2))
    let ?m = "btstack_min n l"
    have m: "unat ?m = min (unat n) (length v)"
      using o'(2) by (simp add: btstack_min_def word_less_nat_alt min_def)
    then have m': "?m = of_nat (min (unat n) (length v))" by (simp flip: m)
    have off: "unat (o' + 8) = i + 8"
    proof -
      have "unat o' + unat (8 :: u32) \<le> unat (hal_get_size hal (ctx self))"
        unfolding tlv_bank_size [OF inv] using o'(1) es by simp
      then show ?thesis using o'(1) by (subst unat_plus_le) simp_all
    qed
    have rd: "btstack_tlv_flash_bank_read self (current_bank self) (o' + 8) ?m = Some (take (unat n) v)"
    proof (rule tlv_read_segment)
      show "cells (ctx self) (current_bank self) =
          (tlv_header epoch @ tlv_log es1 @ be32 tag @ be32 (of_nat (length v))) @ take (unat n) v @
          (drop (unat n) v @ tlv_log es2 @ replicate k 0xff)"
        using inv by (simp add: tlv_bank_def es(1) tlv_entry_bytes_def)
    qed (use inv off es(2) m in \<open>simp_all add: tlv_bank_def min.commute\<close>)
    have wr: "wr_range b 0 (take (unat n) v) = Some (take (unat n) v @ drop (length v) b)"
      using buf by (auto simp: wr_range_def min_def)
    show ?thesis
      using it(1) f(1) nz rd wr lk Some iv l m'
      by (simp add: btstack_tlv_flash_bank_get_tag_def Let_def)
  qed
  then show "btstack_tlv_flash_bank_get_tag self tag (Some b) n =
     (case tlv_lookup es tag of None \<Rightarrow> Some (0, Some b)
        | Some v \<Rightarrow> Some (of_nat (min (unat n) (length v)),
                        Some (take (unat n) v @ drop (length v) b)))"
    and "btstack_tlv_flash_bank_get_tag self tag None n =
     Some (case tlv_lookup es tag of None \<Rightarrow> 0 | Some v \<Rightarrow> of_nat (length v), None)"
    by blast+
qed

end

context flash_banks begin

text \<open>Overwriting the tag of one entry.\<close>

lemma tlv_zero_tag:
  assumes inv: "tlv_bank hal ok cells self epoch (es1 @ (t, v) # es2) k"
    and off: "unat off = 8 + length (tlv_log es1)"
  shows "\<exists>s. btstack_tlv_flash_bank_write self (current_bank self) off [0, 0, 0, 0] 4 =
        Some (self\<lparr> hal_flash_bank_context := s \<rparr>)
     \<and> tlv_bank hal ok cells (self\<lparr> hal_flash_bank_context := s \<rparr>) epoch (es1 @ (0, v) # es2) k
     \<and> hal_get_size hal s = hal_get_size hal (ctx self)
     \<and> cells s (1 - current_bank self) = cells (ctx self) (1 - current_bank self)"
proof -
  have good: "tlv_good (t, v)" using inv by (simp add: tlv_bank_def)
  have prog: "programs (be32 t) [0, 0, 0, 0]" by (simp add: programs_def be32_def)
  obtain s where "btstack_tlv_flash_bank_write self (current_bank self) off [0, 0, 0, 0] 4 =
        Some (self\<lparr> hal_flash_bank_context := s \<rparr>)" "ok s" "hal_get_size hal s = hal_get_size hal (ctx self)"
     "cells s (current_bank self) = (tlv_header epoch @ tlv_log es1) @ [0, 0, 0, 0] @
        (be32 (of_nat (length v)) @ v @ tlv_log es2 @ replicate k 0xff)"
     "cells s (1 - current_bank self) = cells (ctx self) (1 - current_bank self)"
    using tlv_write_segment [of self "current_bank self" "tlv_header epoch @ tlv_log es1" "be32 t"
        "be32 (of_nat (length v)) @ v @ tlv_log es2 @ replicate k 0xff" off "[0, 0, 0, 0]" 4]
      inv off prog by (auto simp: tlv_bank_def tlv_entry_bytes_def)
  then show ?thesis
    using inv tlv_good_mark [OF good]
    by (intro exI [of _ s]) (simp add: tlv_bank_def tlv_entry_bytes_def be32_0)
qed

lemma it_on_context: "it_on (self\<lparr> hal_flash_bank_context := s \<rparr>) it es1 es2 = it_on self it es1 es2"
  by (simp add: it_on_def split: list.splits)

lemma tlv_delete_from_eq:
  assumes "tlv_bank hal ok cells self epoch (es1 @ es2 @ tl_es) k" and "tlv_readable (es1 @ es2 @ tl_es) k"
    and "it_on self it es1 (es2 @ tl_es)" and "unat off = 8 + length (tlv_log (es1 @ es2))"
  shows "\<exists>s. delete_tag_from self it tag off = Some (self\<lparr> hal_flash_bank_context := s \<rparr>)
     \<and> tlv_bank hal ok cells (self\<lparr> hal_flash_bank_context := s \<rparr>) epoch (es1 @ tlv_mark tag es2 @ tl_es) k
     \<and> cells s (1 - current_bank self) = cells (ctx self) (1 - current_bank self)"
  using assms
proof (induction es2 arbitrary: self it es1)
  case Nil
  then have "\<not> it_offset it < off" by (simp add: it_on_def word_less_nat_alt)
  then have "delete_tag_from self it tag off = Some (self\<lparr> hal_flash_bank_context := ctx self \<rparr>)"
    by (subst delete_tag_from.simps) simp
  then show ?case using Nil.prems(1) by (intro exI [of _ "ctx self"]) (simp add: tlv_mark_def)
next
  case (Cons e es2)
  obtain t v where e: "e = (t, v)" by (cases e)
  let ?e' = "(if t = tag then 0 else t, v)"
  have good: "list_all tlv_good ((e # es2) @ tl_es)" using Cons.prems(1) by (simp add: tlv_bank_def)
  have has: "btstack_tlv_flash_bank_iterator_has_next self it"
    using it_on_has_next [OF Cons.prems(3) good] by simp
  have lt: "it_offset it < off" using Cons.prems(3,4) by (simp add: it_on_def word_less_nat_alt e)
  have tag: "it_tag it = t" using Cons.prems(3) by (simp add: it_on_def e)
  obtain s1 where s1: "(if it_tag it = tag
      then btstack_tlv_flash_bank_write self (current_bank self) (it_offset it) [0, 0, 0, 0] 4
      else Some self) = Some (self\<lparr> hal_flash_bank_context := s1 \<rparr>)"
    "tlv_bank hal ok cells (self\<lparr> hal_flash_bank_context := s1 \<rparr>) epoch (es1 @ ?e' # es2 @ tl_es) k"
    "cells s1 (1 - current_bank self) = cells (ctx self) (1 - current_bank self)"
  proof (cases "t = tag")
    case True
    have "unat (it_offset it) = 8 + length (tlv_log es1)" using Cons.prems(3) by (simp add: it_on_def)
    with tlv_zero_tag [of self epoch es1 t v "es2 @ tl_es" k "it_offset it"] Cons.prems(1) True tag that
    show ?thesis by (auto simp: e)
  next
    case False
    have "self = self\<lparr> hal_flash_bank_context := ctx self \<rparr>" by simp
    with that [of "ctx self"] Cons.prems(1) False tag show ?thesis by (simp add: e)
  qed
  let ?self = "self\<lparr> hal_flash_bank_context := s1 \<rparr>"
  have room: "tlv_readable (es1 @ ?e' # es2 @ tl_es) k"
    using Cons.prems(2) by (simp add: tlv_readable_def)
  obtain it' where it': "tlv_iterator_fetch_next ?self it = Some it'" "it_on ?self it' (es1 @ [?e']) (es2 @ tl_es)"
    using tlv_iterator_next_on [OF s1(2) room, of it e "es2 @ tl_es"] Cons.prems(3)
    by (auto simp: it_on_context e)
  have "\<exists>s. delete_tag_from ?self it' tag off = Some (?self\<lparr> hal_flash_bank_context := s \<rparr>)
     \<and> tlv_bank hal ok cells (?self\<lparr> hal_flash_bank_context := s \<rparr>) epoch ((es1 @ [?e']) @ tlv_mark tag es2 @ tl_es) k
     \<and> cells s (1 - current_bank ?self) = cells (ctx ?self) (1 - current_bank ?self)"
  proof (rule Cons.IH)
    show "tlv_bank hal ok cells ?self epoch ((es1 @ [?e']) @ es2 @ tl_es) k" using s1(2) by simp
    show "tlv_readable ((es1 @ [?e']) @ es2 @ tl_es) k" using room by simp
    show "it_on ?self it' (es1 @ [?e']) (es2 @ tl_es)" by (rule it'(2))
    show "unat off = 8 + length (tlv_log ((es1 @ [?e']) @ es2))" using Cons.prems(4) by (simp add: e)
  qed
  then obtain s where s: "delete_tag_from ?self it' tag off = Some (self\<lparr> hal_flash_bank_context := s \<rparr>)"
    "tlv_bank hal ok cells (self\<lparr> hal_flash_bank_context := s \<rparr>) epoch ((es1 @ [?e']) @ tlv_mark tag es2 @ tl_es) k"
    "cells s (1 - current_bank self) = cells s1 (1 - current_bank self)" by auto
  have "delete_tag_from self it tag off = delete_tag_from ?self it' tag off"
    by (subst delete_tag_from.simps) (simp add: has lt s1(1) it'(1))
  then show ?case using s s1(3) by (intro exI [of _ s]) (auto simp: tlv_mark_def e)
qed

lemma tlv_delete_until_eq:
  assumes inv: "tlv_bank hal ok cells self epoch (es @ tl_es) k" and "tlv_readable (es @ tl_es) k"
    and "unat off = 8 + length (tlv_log es)"
  shows "\<exists>s. btstack_tlv_flash_bank_delete_tag_until_offset self tag off = Some (self\<lparr> hal_flash_bank_context := s \<rparr>)
     \<and> tlv_bank hal ok cells (self\<lparr> hal_flash_bank_context := s \<rparr>) epoch (tlv_mark tag es @ tl_es) k
     \<and> cells s (1 - current_bank self) = cells (ctx self) (1 - current_bank self)"
proof -
  obtain it where it: "btstack_tlv_flash_bank_iterator_init self (current_bank self) = Some it"
      "it_on self it [] (es @ tl_es)"
    using tlv_iterator_init_on [OF assms(1,2)] by blast
  then show ?thesis
    using tlv_delete_from_eq [of self epoch "[]" es tl_es k it off tag] assms
    by (simp add: btstack_tlv_flash_bank_delete_tag_until_offset_def)
qed

text \<open>Appending an entry to a log with enough erased bytes behind it.\<close>

lemma tlv_append_eq:
  assumes inv: "tlv_inv hal ok cells self epoch es k" and fit: "8 + length data \<le> k"
    and n: "unat n = length data" and good: "tlv_good (tag, data)"
    and room: "tlv_readable (es @ [(tag, data)]) (k - (8 + length data))"
  shows "\<exists>self1 self2 self3. btstack_tlv_flash_bank_write self (current_bank self) (write_offset self + 8) data n = Some self1
     \<and> btstack_tlv_flash_bank_write self1 (current_bank self1) (write_offset self1) (be32 tag @ be32 n) 8 = Some self2
     \<and> btstack_tlv_flash_bank_delete_tag_until_offset self2 tag (write_offset self2) = Some self3
     \<and> (let self' = self3\<lparr> write_offset := write_offset self3 + (8 + btstack_tlv_flash_bank_align_size self3 n) \<rparr> in
          tlv_inv hal ok cells self' epoch (tlv_mark tag es @ [(tag, data)]) (k - (8 + length data))
          \<and> current_bank self' = current_bank self
          \<and> cells (ctx self') (1 - current_bank self) = cells (ctx self) (1 - current_bank self))"
proof -
  let ?b = "current_bank self" and ?w = "write_offset self" and ?k = "k - (8 + length data)"
  let ?A = "tlv_header epoch @ tlv_log es"
  have bank: "tlv_bank hal ok cells self epoch es k" and w: "unat ?w = 8 + length (tlv_log es)"
    using inv by (simp_all add: tlv_inv_def)
  have b: "hal_flash_bank_impl self = hal" "ok (ctx self)" "?b = 0 \<or> ?b = 1"
    "cells (ctx self) ?b = ?A @ replicate k 0xff" "list_all tlv_good es" using bank by (simp_all add: tlv_bank_def)
  have k: "replicate k (0xff :: u8) = replicate 8 0xff @ replicate (length data) 0xff @ replicate ?k 0xff"
    using fit by (simp flip: replicate_add)
  have len: "of_nat (length data) = n" by (simp flip: n)
  have ff: "0xff \<notin> set data" "0xff \<notin> set (be32 tag @ be32 n)"
    using good by (auto simp: tlv_good_def tlv_entry_bytes_def len)
  have sz: "unat (hal_get_size hal (ctx self)) = 8 + length (tlv_log es) + k" by (rule tlv_bank_size [OF bank])
  have w8: "unat (?w + 8) = 16 + length (tlv_log es)"
  proof -
    have "unat ?w + unat (8 :: u32) \<le> unat (hal_get_size hal (ctx self))" unfolding sz w using fit by simp
    then show ?thesis by (simp add: unat_plus_le w)
  qed
  have "\<exists>s. btstack_tlv_flash_bank_write self ?b (?w + 8) data n = Some (self\<lparr> hal_flash_bank_context := s \<rparr>)
     \<and> ok s \<and> hal_get_size hal s = hal_get_size hal (ctx self)
     \<and> cells s ?b = (?A @ replicate 8 0xff) @ data @ replicate ?k 0xff
     \<and> cells s (1 - ?b) = cells (ctx self) (1 - ?b)"
  proof (rule tlv_write_segment [OF b(1-3)])
    show "cells (ctx self) ?b = (?A @ replicate 8 0xff) @ replicate (length data) 0xff @ replicate ?k 0xff"
      unfolding b(4) k by simp
    show "programs (replicate (length data) 0xff) data" by (rule programs_erased [OF ff(1)])
  qed (simp_all add: w8 n)
  then obtain s1 where s1: "btstack_tlv_flash_bank_write self ?b (?w + 8) data n = Some (self\<lparr> hal_flash_bank_context := s1 \<rparr>)"
    "ok s1" "hal_get_size hal s1 = hal_get_size hal (ctx self)"
    "cells s1 ?b = (?A @ replicate 8 0xff) @ data @ replicate ?k 0xff"
    "cells s1 (1 - ?b) = cells (ctx self) (1 - ?b)" by blast
  let ?s1 = "self\<lparr> hal_flash_bank_context := s1 \<rparr>"
  have "\<exists>s. btstack_tlv_flash_bank_write ?s1 ?b ?w (be32 tag @ be32 n) 8 = Some (?s1\<lparr> hal_flash_bank_context := s \<rparr>)
     \<and> ok s \<and> hal_get_size hal s = hal_get_size hal (ctx ?s1)
     \<and> cells s ?b = ?A @ (be32 tag @ be32 n) @ (data @ replicate ?k 0xff)
     \<and> cells s (1 - ?b) = cells (ctx ?s1) (1 - ?b)"
    by (rule tlv_write_segment [where B = "replicate 8 0xff"])
       (use b(1,3) s1(2,4) w programs_erased [OF ff(2)] in simp_all)
  then obtain s2 where s2: "btstack_tlv_flash_bank_write ?s1 ?b ?w (be32 tag @ be32 n) 8 = Some (self\<lparr> hal_flash_bank_context := s2 \<rparr>)"
    "ok s2" "hal_get_size hal s2 = hal_get_size hal s1"
    "cells s2 ?b = ?A @ (be32 tag @ be32 n) @ (data @ replicate ?k 0xff)"
    "cells s2 (1 - ?b) = cells s1 (1 - ?b)" by auto
  let ?s2 = "self\<lparr> hal_flash_bank_context := s2 \<rparr>"
  have bank2: "tlv_bank hal ok cells ?s2 epoch (es @ [(tag, data)]) ?k"
    using b s2(2,4) good by (simp add: tlv_bank_def tlv_entry_bytes_def len)
  obtain s3 where s3: "btstack_tlv_flash_bank_delete_tag_until_offset ?s2 tag ?w = Some (self\<lparr> hal_flash_bank_context := s3 \<rparr>)"
    "tlv_bank hal ok cells (self\<lparr> hal_flash_bank_context := s3 \<rparr>) epoch (tlv_mark tag es @ [(tag, data)]) ?k"
    "cells s3 (1 - ?b) = cells s2 (1 - ?b)"
    using tlv_delete_until_eq [OF bank2 room, of ?w tag] w by auto
  let ?s3 = "self\<lparr> hal_flash_bank_context := s3 \<rparr>"
  have al: "btstack_tlv_flash_bank_align_size ?s3 n = n"
    using align s3(2) by (simp add: tlv_bank_def btstack_tlv_flash_bank_align_size_def)
  have n8: "unat (8 + n) = 8 + length data"
  proof -
    have "unat (8 :: u32) + unat n \<le> unat (hal_get_size hal (ctx self))" unfolding sz n using fit by simp
    then show ?thesis by (simp add: unat_plus_le n)
  qed
  have "unat (?w + (8 + n)) = 8 + length (tlv_log (tlv_mark tag es @ [(tag, data)]))"
  proof -
    have "unat ?w + unat (8 + n) \<le> unat (hal_get_size hal (ctx self))" unfolding sz w n8 using fit by simp
    then show ?thesis by (simp add: unat_plus_le w n8)
  qed
  then show ?thesis
    using s1(1,5) s2(1,5) s3 al by (intro exI [of _ ?s1] exI [of _ ?s2] exI [of _ ?s3])
      (simp add: tlv_inv_def tlv_bank_def Let_def)
qed

lemma tlv_store_fits:
  assumes inv: "tlv_inv hal ok cells self epoch es k" and fit: "8 + length data \<le> k"
    and n: "unat n = length data" and good: "tlv_good (tag, data)"
    and room: "tlv_readable (es @ [(tag, data)]) (k - (8 + length data))"
  shows "\<exists>self'. btstack_tlv_flash_bank_store_tag self tag data n = Some (0, self')
     \<and> tlv_inv hal ok cells self' epoch (tlv_mark tag es @ [(tag, data)]) (k - (8 + length data))
     \<and> current_bank self' = current_bank self
     \<and> cells (ctx self') (1 - current_bank self) = cells (ctx self) (1 - current_bank self)"
proof -
  have bank: "tlv_bank hal ok cells self epoch es k" and w: "unat (write_offset self) = 8 + length (tlv_log es)"
    using inv by (simp_all add: tlv_inv_def)
  have impl: "hal_flash_bank_impl self = hal" using bank by (simp add: tlv_bank_def)
  have sz: "unat (hal_get_size hal (ctx self)) = 8 + length (tlv_log es) + k" by (rule tlv_bank_size [OF bank])
  have w8: "unat (write_offset self + 8) = 16 + length (tlv_log es)"
  proof -
    have "unat (write_offset self) + unat (8 :: u32) \<le> unat (hal_get_size hal (ctx self))"
      unfolding sz w using fit by simp
    then show ?thesis by (simp add: unat_plus_le w)
  qed
  have "unat (write_offset self + 8 + n) = 16 + length (tlv_log es) + length data"
  proof -
    have "unat (write_offset self + 8) + unat n \<le> unat (hal_get_size hal (ctx self))"
      unfolding sz w8 n using fit by simp
    then show ?thesis by (simp add: unat_plus_le w8 n)
  qed
  then have space: "\<not> write_offset self + 8 + n > tlv_size self"
    unfolding word_less_nat_alt impl sz using fit by simp
  show ?thesis
    using tlv_append_eq [OF assms] space be32_store [of tag n]
    by (auto simp: btstack_tlv_flash_bank_store_tag_def Let_def simp flip: Option.bind_assoc)
qed

end

section \<open>Migration\<close>

lemma memcmp_n_erased:
  assumes "n \<le> 16" and "length xs = n"
  shows "\<exists>r. memcmp_n n xs (replicate 16 0xff) = Some r \<and> (r = 0 \<longleftrightarrow> (\<forall>x \<in> set xs. x = 0xff))"
proof -
  have "take n xs = take n (replicate 16 0xff) \<longleftrightarrow> (\<forall>x \<in> set xs. x = 0xff)"
  proof
    assume "take n xs = take n (replicate 16 0xff)"
    then have "xs = replicate n 0xff" using assms by (simp add: min_absorb1)
    then show "\<forall>x \<in> set xs. x = 0xff" by simp
  next
    assume "\<forall>x \<in> set xs. x = 0xff"
    then have "xs = replicate n 0xff" using assms(2) by (metis replicate_eqI)
    then show "take n xs = take n (replicate 16 0xff)" using assms(1) by (simp add: min_absorb1)
  qed
  then show ?thesis using memcmp_n_zero_iff [of n xs "replicate 16 0xff"] assms by auto
qed

context flash_banks begin

lemma test_erased_from_eq:
  assumes "hal_flash_bank_impl self = hal" and "ok (ctx self)" and "b = 0 \<or> b = 1"
    and "unat off \<le> unat (tlv_size self)"
  shows "test_erased_from self b off = Some (\<forall>x \<in> set (drop (unat off) (cells (ctx self) b)). x = 0xff)"
  using assms(4)
proof (induction "unat (tlv_size self) - unat off" arbitrary: off rule: less_induct)
  case less
  let ?c = "cells (ctx self) b" and ?size = "tlv_size self"
  let ?n = "if off + 16 < ?size then 16 else ?size - off"
  have len: "length ?c = unat ?size" using size_cells [OF assms(2,3)] assms(1) by simp
  show ?case
  proof (cases "off < ?size")
    case False
    then have "unat off = unat ?size" using less.prems by (simp add: word_less_nat_alt)
    then show ?thesis using len False by (subst test_erased_from.simps) simp
  next
    case True
    then have lt: "unat off < unat ?size" by (simp add: word_less_nat_alt)
    have small: "2 * unat ?size < 4294967296" using size_small [OF assms(2)] assms(1) by simp
    have off16: "unat (off + 16) = unat off + 16"
      using lt small by (cases "unat ?size < 16") (auto intro!: unat_plus_no_wrap [THEN trans])
    have n: "0 < unat ?n" "unat ?n \<le> 16" "unat off + unat ?n \<le> unat ?size"
      using lt off16 by (auto simp: word_less_nat_alt unat_sub word_le_nat_alt)
    have next_off: "unat (off + ?n) = unat off + unat ?n" using n(3) by (rule unat_plus_le)
    let ?xs = "take (unat ?n) (drop (unat off) ?c)"
    have rd: "btstack_tlv_flash_bank_read self b off ?n = Some ?xs"
      by (rule tlv_read_segment [OF assms(1-3) split_range])
         (use n(3) len in \<open>simp_all del: drop_drop\<close>)
    have xs: "length ?xs = unat ?n" using n(3) len by simp
    obtain r where r: "memcmp_n (unat ?n) ?xs (replicate 16 0xff) = Some r" "r = 0 \<longleftrightarrow> (\<forall>x \<in> set ?xs. x = 0xff)"
      using memcmp_n_erased [OF n(2) xs] by blast
    have IH: "test_erased_from self b (off + ?n) =
        Some (\<forall>x \<in> set (drop (unat off + unat ?n) ?c). x = 0xff)"
      using less.hyps [of "off + ?n"] n(1,3) lt unfolding next_off by linarith
    have split: "set (drop (unat off) ?c) = set ?xs \<union> set (drop (unat off + unat ?n) ?c)"
      using arg_cong [OF split_drop [of "unat off" ?c "unat ?n"], of set] by (simp only: set_append)
    have "test_erased_from self b off =
        (if r \<noteq> 0 then Some False else test_erased_from self b (off + ?n))"
      by (subst test_erased_from.simps) (simp only: True if_True Let_def rd r(1) Option.bind.bind_lunit)
    moreover have "(\<forall>x \<in> set (drop (unat off) ?c). x = 0xff) \<longleftrightarrow>
        r = 0 \<and> (\<forall>x \<in> set (drop (unat off + unat ?n) ?c). x = 0xff)"
      using split r(2) by blast
    ultimately show ?thesis unfolding IH by (cases "r = 0") (simp_all only: simp_thms if_False if_True)
  qed
qed

lemma tlv_erase_bank_eq:
  assumes "hal_flash_bank_impl self = hal" and "ok (ctx self)" and "b = 0 \<or> b = 1"
  shows "\<exists>s. btstack_tlv_flash_bank_erase_bank self b = Some (self\<lparr> hal_flash_bank_context := s \<rparr>)
     \<and> ok s \<and> hal_get_size hal s = hal_get_size hal (ctx self)
     \<and> cells s b = replicate (unat (hal_get_size hal (ctx self))) 0xff
     \<and> cells s (1 - b) = cells (ctx self) (1 - b)"
proof (cases "\<forall>x \<in> set (cells (ctx self) b). x = 0xff")
  case True
  then have "cells (ctx self) b = replicate (unat (hal_get_size hal (ctx self))) 0xff"
    using size_cells [OF assms(2,3)] by (metis replicate_eqI)
  moreover have "btstack_tlv_flash_bank_erase_bank self b = Some self"
    using True test_erased_from_eq [OF assms, of 0]
    by (simp add: btstack_tlv_flash_bank_erase_bank_def btstack_tlv_flash_bank_test_erased_def)
  ultimately show ?thesis using assms(2) by (intro exI [of _ "ctx self"]) simp
next
  case False
  then have "test_erased_from self b 0 = Some False" using test_erased_from_eq [OF assms, of 0] by auto
  moreover obtain s where "hal_erase hal (ctx self) b = Some s" "ok s" "hal_get_size hal s = hal_get_size hal (ctx self)"
    "cells s b = replicate (unat (hal_get_size hal (ctx self))) 0xff" "cells s (1 - b) = cells (ctx self) (1 - b)"
    using erase_ok [OF assms(2,3)] by blast
  ultimately show ?thesis
    using assms(1)
    by (intro exI [of _ s])
       (simp add: btstack_tlv_flash_bank_erase_bank_def btstack_tlv_flash_bank_test_erased_def)
qed

text \<open>The copy loop moves the bytes \<open>B\<close> of the current bank to the erased bytes after \<open>D\<close> of the other.\<close>

lemma migrate_copy_eq:
  assumes "hal_flash_bank_impl self = hal" and "ok (ctx self)" and "current_bank self = 0 \<or> current_bank self = 1"
    and "cells (ctx self) (current_bank self) = A @ B @ C" and "length A = unat src"
    and "cells (ctx self) (1 - current_bank self) = D @ replicate (length B + m) 0xff" and "length D = unat dst"
    and "0xff \<notin> set B" and "length B = unat n"
  shows "\<exists>s. migrate_copy self (1 - current_bank self) src dst n =
        Some (self\<lparr> hal_flash_bank_context := s \<rparr>, dst + n)
     \<and> ok s \<and> hal_get_size hal s = hal_get_size hal (ctx self)
     \<and> cells s (current_bank self) = cells (ctx self) (current_bank self)
     \<and> cells s (1 - current_bank self) = D @ B @ replicate m 0xff"
  using assms
proof (induction "unat n" arbitrary: self A B D src dst n rule: less_induct)
  case less
  let ?b = "current_bank self" and ?nb = "1 - current_bank self"
  note p = less.prems
  show ?case
  proof (cases "n = 0")
    case True
    have "self = self\<lparr> hal_flash_bank_context := ctx self \<rparr>" by simp
    then show ?thesis using True p by (intro exI [of _ "ctx self"]) (subst migrate_copy.simps, simp)
  next
    case False
    let ?c = "btstack_min n 32"
    have c: "unat ?c = min (unat n) 32" by (simp add: btstack_min_def word_less_nat_alt min_def)
    have c0: "0 < unat ?c" "unat ?c \<le> unat n" using False c by (auto simp: unat_gt_0)
    let ?B1 = "take (unat ?c) B" and ?B2 = "drop (unat ?c) B"
    have B: "length ?B1 = unat ?c" "length ?B2 = unat n - unat ?c" using c0(2) p(9) by simp_all
    have nb: "?nb = 0 \<or> ?nb = 1" using p(3) by auto
    have rd: "btstack_tlv_flash_bank_read self ?b src ?c = Some ?B1"
      by (rule tlv_read_segment [OF p(1-3), of A ?B1 "?B2 @ C"]) (use p B in simp_all)
    have er: "replicate (length B + m) (0xff :: u8) = replicate (length ?B1) 0xff @ replicate (length ?B2 + m) 0xff"
      using c0(2) p(9) by (simp flip: replicate_add)
    have ff: "0xff \<notin> set ?B1" "0xff \<notin> set ?B2" using p(8) by (auto dest: in_set_takeD in_set_dropD)
    have "\<exists>s. btstack_tlv_flash_bank_write self ?nb dst ?B1 ?c = Some (self\<lparr> hal_flash_bank_context := s \<rparr>)
      \<and> ok s \<and> hal_get_size hal s = hal_get_size hal (ctx self)
      \<and> cells s ?nb = D @ ?B1 @ replicate (length ?B2 + m) 0xff
      \<and> cells s (1 - ?nb) = cells (ctx self) (1 - ?nb)"
    proof (rule tlv_write_segment [OF p(1,2) nb])
      show "cells (ctx self) ?nb = D @ replicate (length ?B1) 0xff @ replicate (length ?B2 + m) 0xff"
        unfolding p(6) er ..
      show "programs (replicate (length ?B1) 0xff) ?B1" by (rule programs_erased [OF ff(1)])
    qed (use p(7) B in simp_all)
    then obtain s where s: "btstack_tlv_flash_bank_write self ?nb dst ?B1 ?c = Some (self\<lparr> hal_flash_bank_context := s \<rparr>)"
      "ok s" "hal_get_size hal s = hal_get_size hal (ctx self)"
      "cells s ?nb = (D @ ?B1) @ replicate (length ?B2 + m) 0xff" "cells s ?b = cells (ctx self) ?b"
      by auto
    let ?self = "self\<lparr> hal_flash_bank_context := s \<rparr>"
    have szb: "unat (hal_get_size hal (ctx self)) = length A + length B + length C"
      unfolding size_cells [OF p(2,3), symmetric] p(4) by simp
    have sznb: "unat (hal_get_size hal (ctx self)) = length D + length B + m"
      unfolding size_cells [OF p(2) nb, symmetric] p(6) by simp
    have from': "unat (src + ?c) = length (A @ ?B1)"
    proof -
      have "unat src + unat ?c \<le> unat (hal_get_size hal (ctx self))"
        unfolding szb using p(5,9) c0(2) by simp
      then show ?thesis using p(5) B(1) by (simp add: unat_plus_le)
    qed
    have to': "unat (dst + ?c) = length (D @ ?B1)"
    proof -
      have "unat dst + unat ?c \<le> unat (hal_get_size hal (ctx self))"
        unfolding sznb using p(7,9) c0(2) by simp
      then show ?thesis using p(7) B(1) by (simp add: unat_plus_le)
    qed
    have n': "unat (n - ?c) = unat n - unat ?c" using c0(2) by (simp add: unat_sub word_le_nat_alt)
    have "\<exists>s'. migrate_copy ?self (1 - current_bank ?self) (src + ?c) (dst + ?c) (n - ?c) =
        Some (?self\<lparr> hal_flash_bank_context := s' \<rparr>, (dst + ?c) + (n - ?c))
     \<and> ok s' \<and> hal_get_size hal s' = hal_get_size hal (ctx ?self)
     \<and> cells s' (current_bank ?self) = cells (ctx ?self) (current_bank ?self)
     \<and> cells s' (1 - current_bank ?self) = (D @ ?B1) @ ?B2 @ replicate m 0xff"
    proof (rule less.hyps)
      show "unat (n - ?c) < unat n" using n' c0 by simp
      show "cells (ctx ?self) (current_bank ?self) = (A @ ?B1) @ ?B2 @ C" using s(5) p(4) by simp
      show "cells (ctx ?self) (1 - current_bank ?self) = (D @ ?B1) @ replicate (length ?B2 + m) 0xff"
        using s(4) by simp
    qed (use p(1,3) s(2) from' to' ff(2) n' B(2) in simp_all)
    moreover have "migrate_copy self ?nb src dst n = migrate_copy ?self ?nb (src + ?c) (dst + ?c) (n - ?c)"
      by (subst migrate_copy.simps) (simp add: False rd s(1) Let_def)
    ultimately show ?thesis using s(3,5) by auto
  qed
qed

end

lemma tlv_live_Cons: "tlv_live ((t, v) # es) = (if t = 0 then tlv_live es else (t, v) # tlv_live es)"
  by (simp add: tlv_live_def)

lemma tlv_good_live: "list_all tlv_good es \<Longrightarrow> list_all tlv_good (tlv_live es)"
  by (induction es) (auto simp: tlv_live_def)

lemma length_tlv_log_live: "length (tlv_log (tlv_live es)) \<le> length (tlv_log es)"
  by (induction es) (auto simp: tlv_live_def)

lemma tlv_header_no_ff: "0xff \<notin> set (tlv_header (e AND 3))"
proof -
  have "e AND 3 \<noteq> 0xff"
  proof
    assume "e AND 3 = 0xff"
    then have "bit (e AND 3) 7 = bit (0xff :: u8) 7" by simp
    then show False by (simp add: bit_simps)
  qed
  then show ?thesis by (simp add: tlv_header_def btstack_tlv_header_magic_def)
qed

context flash_banks begin

lemma tlv_bank_context:
  assumes "tlv_bank hal ok cells self epoch es k" and "ok s" and "cells s (current_bank self) = cells (ctx self) (current_bank self)"
  shows "tlv_bank hal ok cells (self\<lparr> hal_flash_bank_context := s \<rparr>) epoch es k"
  using assms by (simp add: tlv_bank_def)

lemma migrate_entries_eq:
  assumes "tlv_bank hal ok cells self epoch (es1 @ es2) k" and "tlv_readable (es1 @ es2) k"
    and "it_on self it es1 es2"
    and "cells (ctx self) (1 - current_bank self) = D @ replicate (length (tlv_log (tlv_live es2)) + m) 0xff"
    and "length D = unat dst"
  shows "\<exists>s dst'. migrate_entries self (1 - current_bank self) it dst = Some (self\<lparr> hal_flash_bank_context := s \<rparr>, dst')
     \<and> unat dst' = length D + length (tlv_log (tlv_live es2)) \<and> ok s
     \<and> hal_get_size hal s = hal_get_size hal (ctx self)
     \<and> cells s (current_bank self) = cells (ctx self) (current_bank self)
     \<and> cells s (1 - current_bank self) = D @ tlv_log (tlv_live es2) @ replicate m 0xff"
  using assms
proof (induction es2 arbitrary: self it es1 D dst)
  case Nil
  have self: "self = self\<lparr> hal_flash_bank_context := ctx self \<rparr>" by simp
  have "\<not> btstack_tlv_flash_bank_iterator_has_next self it" using it_on_has_next [OF Nil.prems(3)] by simp
  then have "migrate_entries self (1 - current_bank self) it dst = Some (self\<lparr> hal_flash_bank_context := ctx self \<rparr>, dst)"
    by (subst migrate_entries.simps) simp
  then show ?case using Nil.prems
    by (intro exI [of _ "ctx self"] exI [of _ dst]) (simp add: tlv_live_def tlv_bank_def)
next
  case (Cons e es2)
  obtain t v where e: "e = (t, v)" by (cases e)
  let ?b = "current_bank self" and ?nb = "1 - current_bank self"
  note p = Cons.prems
  have bank: "hal_flash_bank_impl self = hal" "ok (ctx self)" "?b = 0 \<or> ?b = 1"
    "cells (ctx self) ?b = tlv_header epoch @ tlv_log (es1 @ e # es2) @ replicate k 0xff"
    "list_all tlv_good (es1 @ e # es2)" using p(1) by (simp_all add: tlv_bank_def)
  have nb: "?nb = 0 \<or> ?nb = 1" using bank(3) by auto
  have it: "unat (it_offset it) = 8 + length (tlv_log es1)" "it_tag it = t" "unat (it_len it) = length v"
    using p(3) by (simp_all add: it_on_def e)
  have has: "btstack_tlv_flash_bank_iterator_has_next self it" using it_on_has_next [OF p(3)] bank(5) by simp
  have sz: "unat (hal_get_size hal (ctx self)) = 8 + length (tlv_log (es1 @ e # es2)) + k"
    by (rule tlv_bank_size [OF p(1)])
  have sznb: "unat (hal_get_size hal (ctx self)) = length D + length (tlv_log (tlv_live (e # es2))) + m"
    unfolding size_cells [OF bank(2) nb, symmetric] p(4) by simp
  have n: "unat (8 + it_len it) = 8 + length v"
  proof -
    have "unat (8 :: u32) + unat (it_len it) \<le> unat (hal_get_size hal (ctx self))" unfolding sz it(3) by (simp add: e)
    then show ?thesis by (simp add: unat_plus_le it(3))
  qed
  let ?X = "if t = 0 then [] else tlv_entry_bytes (t, v)"
  have live: "tlv_log (tlv_live (e # es2)) = ?X @ tlv_log (tlv_live es2)" by (simp add: e tlv_live_Cons)
  obtain s1 dst1 where s1: "(if it_tag it \<noteq> 0
        then migrate_copy self ?nb (it_offset it) dst (8 + it_len it) else Some (self, dst)) =
        Some (self\<lparr> hal_flash_bank_context := s1 \<rparr>, dst1)" "unat dst1 = length (D @ ?X)" "ok s1"
    "hal_get_size hal s1 = hal_get_size hal (ctx self)" "cells s1 ?b = cells (ctx self) ?b"
    "cells s1 ?nb = (D @ ?X) @ replicate (length (tlv_log (tlv_live es2)) + m) 0xff"
  proof (cases "t = 0")
    case True
    have "self = self\<lparr> hal_flash_bank_context := ctx self \<rparr>" by simp
    with that [of "ctx self" dst] True it(2) bank(2) p(4,5) show ?thesis by (simp add: e tlv_live_Cons)
  next
    case False
    let ?B = "tlv_entry_bytes (t, v)"
    have "\<exists>s. migrate_copy self ?nb (it_offset it) dst (8 + it_len it) =
        Some (self\<lparr> hal_flash_bank_context := s \<rparr>, dst + (8 + it_len it))
     \<and> ok s \<and> hal_get_size hal s = hal_get_size hal (ctx self) \<and> cells s ?b = cells (ctx self) ?b
     \<and> cells s ?nb = D @ ?B @ replicate (length (tlv_log (tlv_live es2)) + m) 0xff"
    proof (rule migrate_copy_eq [OF bank(1-3)])
      show "cells (ctx self) ?b = (tlv_header epoch @ tlv_log es1) @ ?B @ (tlv_log es2 @ replicate k 0xff)"
        unfolding bank(4) by (simp add: e)
      show "cells (ctx self) ?nb = D @ replicate (length ?B + (length (tlv_log (tlv_live es2)) + m)) 0xff"
        unfolding p(4) by (simp add: e tlv_live_Cons False add_ac)
      show "0xff \<notin> set ?B" using bank(5) by (simp add: e tlv_good_def)
    qed (use p(5) it n in simp_all)
    moreover have "unat (dst + (8 + it_len it)) = length D + (8 + length v)"
    proof -
      have "unat dst + unat (8 + it_len it) \<le> unat (hal_get_size hal (ctx self))"
        unfolding sznb n using p(5) by (simp add: e tlv_live_Cons False)
      then show ?thesis using p(5) n by (simp add: unat_plus_le)
    qed
    ultimately show ?thesis using that False it(2) by auto
  qed
  let ?self = "self\<lparr> hal_flash_bank_context := s1 \<rparr>"
  have inv1: "tlv_bank hal ok cells ?self epoch (es1 @ e # es2) k"
    by (rule tlv_bank_context [OF p(1) s1(3,5)])
  have on1: "it_on ?self it es1 (e # es2)" using p(3) by (simp add: it_on_def)
  obtain it' where it': "tlv_iterator_fetch_next ?self it = Some it'" "it_on ?self it' (es1 @ [e]) es2"
    using tlv_iterator_next_on [OF inv1 p(2) on1 refl] by blast
  have "\<exists>s dst'. migrate_entries ?self (1 - current_bank ?self) it' dst1 = Some (?self\<lparr> hal_flash_bank_context := s \<rparr>, dst')
     \<and> unat dst' = length (D @ ?X) + length (tlv_log (tlv_live es2)) \<and> ok s
     \<and> hal_get_size hal s = hal_get_size hal (ctx ?self)
     \<and> cells s (current_bank ?self) = cells (ctx ?self) (current_bank ?self)
     \<and> cells s (1 - current_bank ?self) = (D @ ?X) @ tlv_log (tlv_live es2) @ replicate m 0xff"
    by (rule Cons.IH [of _ "es1 @ [e]"]) (use inv1 p(2) it'(2) s1(2,6) in simp_all)
  moreover have "migrate_entries self ?nb it dst = migrate_entries ?self ?nb it' dst1"
    by (subst migrate_entries.simps) (simp add: has s1(1) it'(1))
  ultimately show ?case unfolding live using s1(4,5) by (auto simp: add.assoc)
qed

text \<open>A migration keeps exactly the live entries and raises the epoch.\<close>

lemma tlv_migrate_eq:
  assumes inv: "tlv_bank hal ok cells self epoch es k" and room: "tlv_readable es k"
  shows "\<exists>self'. btstack_tlv_flash_bank_migrate self = Some self'
     \<and> tlv_inv hal ok cells self' ((epoch + 1) AND 3) (tlv_live es)
         (k + length (tlv_log es) - length (tlv_log (tlv_live es)))
     \<and> current_bank self' = 1 - current_bank self
     \<and> hal_get_size hal (ctx self') = hal_get_size hal (ctx self)
     \<and> cells (ctx self') (current_bank self) = cells (ctx self) (current_bank self)"
proof -
  let ?b = "current_bank self" and ?nb = "1 - current_bank self"
  let ?L = "tlv_log (tlv_live es)"
  let ?m = "k + length (tlv_log es) - length ?L"
  have bank: "hal_flash_bank_impl self = hal" "ok (ctx self)" "?b = 0 \<or> ?b = 1"
    "cells (ctx self) ?b = tlv_header epoch @ tlv_log es @ replicate k 0xff"
    "list_all tlv_good es" using inv by (simp_all add: tlv_bank_def)
  have nb: "?nb = 0 \<or> ?nb = 1" using bank(3) by auto
  have sz: "unat (hal_get_size hal (ctx self)) = 8 + (length ?L + ?m)"
    using tlv_bank_size [OF inv] length_tlv_log_live [of es] by simp
  obtain s1 where s1: "btstack_tlv_flash_bank_erase_bank self ?nb = Some (self\<lparr> hal_flash_bank_context := s1 \<rparr>)"
    "ok s1" "hal_get_size hal s1 = hal_get_size hal (ctx self)"
    "cells s1 ?nb = replicate (8 + (length ?L + ?m)) 0xff" "cells s1 ?b = cells (ctx self) ?b"
    using tlv_erase_bank_eq [OF bank(1,2) nb] unfolding sz by auto
  let ?s1 = "self\<lparr> hal_flash_bank_context := s1 \<rparr>"
  have inv1: "tlv_bank hal ok cells ?s1 epoch ([] @ es) k" using tlv_bank_context [OF inv s1(2,5)] by simp
  obtain it where it: "btstack_tlv_flash_bank_iterator_init ?s1 ?b = Some it" "it_on ?s1 it [] es"
    using tlv_iterator_init_on [of ?s1 epoch es k] inv1 room by auto
  have er: "cells (ctx ?s1) (1 - current_bank ?s1) = replicate 8 0xff @ replicate (length ?L + ?m) 0xff"
    using s1(4) by (simp add: replicate_add)
  obtain s2 dst where s2: "migrate_entries ?s1 ?nb it 8 = Some (self\<lparr> hal_flash_bank_context := s2 \<rparr>, dst)"
    "unat dst = 8 + length ?L" "ok s2" "hal_get_size hal s2 = hal_get_size hal s1"
    "cells s2 ?b = cells s1 ?b" "cells s2 ?nb = replicate 8 0xff @ ?L @ replicate ?m 0xff"
    using migrate_entries_eq [OF inv1 _ _ er, of it 8] room it(2) by auto
  let ?s2 = "self\<lparr> hal_flash_bank_context := s2 \<rparr>"
  have rd: "btstack_tlv_flash_bank_read ?s2 ?b (BTSTACK_TLV_HEADER_LEN - 1) 1 = Some [epoch]"
    by (rule tlv_read_segment [of _ _ "take 7 btstack_tlv_header_magic" _ "tlv_log es @ replicate k 0xff"])
       (use bank s2(3,5) s1(5) in \<open>simp_all add: tlv_header_def btstack_tlv_header_magic_def BTSTACK_TLV_HEADER_LEN_def\<close>)
  let ?h = "tlv_header ((epoch + 1) AND 3)"
  have "\<exists>s. btstack_tlv_flash_bank_write ?s2 ?nb 0 ?h 8 = Some (?s2\<lparr> hal_flash_bank_context := s \<rparr>)
     \<and> ok s \<and> hal_get_size hal s = hal_get_size hal (ctx ?s2)
     \<and> cells s ?nb = [] @ ?h @ (?L @ replicate ?m 0xff) \<and> cells s (1 - ?nb) = cells (ctx ?s2) (1 - ?nb)"
    by (rule tlv_write_segment [where B = "replicate 8 0xff"])
       (use bank(1) nb s2(3,6) programs_erased [OF tlv_header_no_ff] in simp_all)
  then obtain s3 where s3: "btstack_tlv_flash_bank_write ?s2 ?nb 0 ?h 8 = Some (self\<lparr> hal_flash_bank_context := s3 \<rparr>)"
    "ok s3" "hal_get_size hal s3 = hal_get_size hal s2" "cells s3 ?nb = ?h @ ?L @ replicate ?m 0xff"
    "cells s3 ?b = cells s2 ?b" by auto
  have "btstack_tlv_flash_bank_migrate self =
      Some (self\<lparr> hal_flash_bank_context := s3, current_bank := ?nb, write_offset := dst \<rparr>)"
    using s1(1) it(1) s2(1) rd s3(1)
    by (simp add: btstack_tlv_flash_bank_migrate_def btstack_tlv_flash_bank_write_header_def Let_def
        rd_def BTSTACK_TLV_HEADER_LEN_def tlv_header_def)
  then show ?thesis
    using bank(1) nb s3(2-5) s2(2,4,5) s1(3,5) tlv_good_live [OF bank(5)]
    by (simp add: tlv_inv_def tlv_bank_def)
qed

end

section \<open>Storing and deleting\<close>

lemma length_tlv_log: "length (tlv_log es) = tlv_used es"
  by (induction es) (auto simp: tlv_used_def)

lemma tlv_live_append [simp]: "tlv_live (es @ fs) = tlv_live es @ tlv_live fs"
  by (simp add: tlv_live_def)

lemma tlv_live_live [simp]: "tlv_live (tlv_live es) = tlv_live es"
  by (simp add: tlv_live_def)

lemma tlv_live_mark: "tlv_live (tlv_mark tag es) = tlv_without tag (tlv_live es)"
  by (induction es) (auto simp: tlv_live_def tlv_mark_def tlv_without_def)

context flash_banks begin

lemma tlv_store_eq:
  assumes inv: "tlv_inv hal ok cells self epoch es k" and room: "tlv_readable es k"
    and n: "unat n = length data" "length data < 1073741824" and good: "tlv_good (tag, data)"
    and k2: "k2 = k + tlv_used es - tlv_used (tlv_live es)"
    and gaps: "8 + length data \<le> k \<Longrightarrow> k - (8 + length data) = 0 \<or> 8 \<le> k - (8 + length data)"
      "8 + length data \<le> k2 \<Longrightarrow> k2 - (8 + length data) = 0 \<or> 8 \<le> k2 - (8 + length data)"
  shows "\<exists>self'. btstack_tlv_flash_bank_store_tag self tag data n = Some (if 8 + length data \<le> k2 then 0 else 2, self')
     \<and> (if 8 + length data \<le> k then
           tlv_inv hal ok cells self' epoch (tlv_mark tag es @ [(tag, data)]) (k - (8 + length data))
           \<and> current_bank self' = current_bank self
           \<and> cells (ctx self') (1 - current_bank self) = cells (ctx self) (1 - current_bank self)
        else tlv_inv hal ok cells self' ((epoch + 1) AND 3)
            (if 8 + length data \<le> k2 then tlv_mark tag (tlv_live es) @ [(tag, data)] else tlv_live es)
            (if 8 + length data \<le> k2 then k2 - (8 + length data) else k2)
           \<and> current_bank self' = 1 - current_bank self
           \<and> cells (ctx self') (current_bank self) = cells (ctx self) (current_bank self))"
proof -
  have bank: "tlv_bank hal ok cells self epoch es k" and w: "unat (write_offset self) = 8 + length (tlv_log es)"
    using inv by (simp_all add: tlv_inv_def)
  have impl: "hal_flash_bank_impl self = hal" "ok (ctx self)" using bank by (simp_all add: tlv_bank_def)
  have kk: "k \<le> k2" unfolding k2 length_tlv_log [symmetric] using length_tlv_log_live [of es] by linarith
  have over: "write_offset self' + 8 + n > tlv_size self' \<longleftrightarrow> k' < 8 + length data"
    if "tlv_inv hal ok cells self' epoch' es' k'" for self' epoch' es' k'
  proof -
    have b: "tlv_bank hal ok cells self' epoch' es' k'" and w': "unat (write_offset self') = 8 + length (tlv_log es')"
      using that by (simp_all add: tlv_inv_def)
    have i: "hal_flash_bank_impl self' = hal" "ok (ctx self')" using b by (simp_all add: tlv_bank_def)
    have s: "unat (tlv_size self') = 8 + length (tlv_log es') + k'" unfolding i(1) by (rule tlv_bank_size [OF b])
    have small: "2 * unat (tlv_size self') < 4294967296" unfolding i(1) by (rule size_small [OF i(2)])
    have "length (tlv_log es') < 2147483640" using s small by linarith
    then have "unat (write_offset self' + 8) = 16 + length (tlv_log es')"
      using w' by (subst unat_plus_no_wrap) simp_all
    moreover have "unat (write_offset self' + 8 + n) = unat (write_offset self' + 8) + unat n"
      using calculation n \<open>length (tlv_log es') < 2147483640\<close> by (intro unat_plus_no_wrap) simp
    ultimately show ?thesis unfolding word_less_nat_alt s n by linarith
  qed
  show ?thesis
  proof (cases "8 + length data \<le> k")
    case True
    have "tlv_readable (es @ [(tag, data)]) (k - (8 + length data))"
      using gaps(1) [OF True] by (auto simp: tlv_readable_def)
    from tlv_store_fits [OF inv True n(1) good this] show ?thesis using True kk by auto
  next
    case False
    obtain self1 where m: "btstack_tlv_flash_bank_migrate self = Some self1"
      "tlv_inv hal ok cells self1 ((epoch + 1) AND 3) (tlv_live es) k2"
      "current_bank self1 = 1 - current_bank self" "cells (ctx self1) (current_bank self) = cells (ctx self) (current_bank self)"
      using tlv_migrate_eq [OF bank room] unfolding k2 length_tlv_log [symmetric] by blast
    have mig: "write_offset self + 8 + n > tlv_size self" using over [OF inv] False by simp
    show ?thesis
    proof (cases "8 + length data \<le> k2")
      case True
      have "tlv_readable (tlv_live es @ [(tag, data)]) (k2 - (8 + length data))"
        using gaps(2) [OF True] by (auto simp: tlv_readable_def)
      from tlv_store_fits [OF m(2) True n(1) good this] obtain self' where
        "btstack_tlv_flash_bank_store_tag self1 tag data n = Some (0, self')"
        "tlv_inv hal ok cells self' ((epoch + 1) AND 3) (tlv_mark tag (tlv_live es) @ [(tag, data)]) (k2 - (8 + length data))"
        "current_bank self' = current_bank self1" "cells (ctx self') (1 - current_bank self1) = cells (ctx self1) (1 - current_bank self1)"
        by blast
      moreover have "btstack_tlv_flash_bank_store_tag self tag data n = btstack_tlv_flash_bank_store_tag self1 tag data n"
        using mig m(1) over [OF m(2)] True by (simp add: btstack_tlv_flash_bank_store_tag_def)
      ultimately show ?thesis using True False m(3,4) by simp
    next
      case F: False
      have "btstack_tlv_flash_bank_store_tag self tag data n = Some (2, self1)"
        using mig m(1) over [OF m(2)] F by (simp add: btstack_tlv_flash_bank_store_tag_def)
      then show ?thesis using False F m by simp
    qed
  qed
qed

lemma tlv_delete_eq:
  assumes inv: "tlv_inv hal ok cells self epoch es k" and room: "tlv_readable es k"
  shows "\<exists>s. btstack_tlv_flash_bank_delete_tag self tag = Some (self\<lparr> hal_flash_bank_context := s \<rparr>)
     \<and> tlv_inv hal ok cells (self\<lparr> hal_flash_bank_context := s \<rparr>) epoch (tlv_mark tag es) k
     \<and> cells s (1 - current_bank self) = cells (ctx self) (1 - current_bank self)"
  using tlv_delete_until_eq [of self epoch es "[]" k "write_offset self" tag] assms
  by (auto simp: tlv_inv_def btstack_tlv_flash_bank_delete_tag_def)

section \<open>Start up\<close>

lemma find_end_from_eq:
  assumes "tlv_bank hal ok cells self epoch (es1 @ es2) k" and "tlv_readable (es1 @ es2) k"
    and "it_on self it es1 es2"
  shows "\<exists>t' o' e'. find_end_from self it t o1 = Some (t', o', e')
     \<and> unat e' = 8 + length (tlv_log (es1 @ es2))
     \<and> (if es2 = [] then t' = t \<and> o' = o1
        else t' = fst (last es2) \<and> unat o' = 8 + length (tlv_log (es1 @ butlast es2)))"
  using assms
proof (induction es2 arbitrary: it es1 t o1)
  case Nil
  have "\<not> btstack_tlv_flash_bank_iterator_has_next self it" using it_on_has_next [OF Nil.prems(3)] by simp
  then show ?case using Nil.prems(3) by (subst find_end_from.simps) (simp add: it_on_def)
next
  case (Cons e es2)
  have good: "list_all tlv_good (e # es2)" using Cons.prems(1) by (simp add: tlv_bank_def)
  have has: "btstack_tlv_flash_bank_iterator_has_next self it" using it_on_has_next [OF Cons.prems(3) good] by simp
  obtain it' where it': "tlv_iterator_fetch_next self it = Some it'" "it_on self it' (es1 @ [e]) es2"
    using tlv_iterator_next_on [OF Cons.prems refl] by blast
  have "tlv_bank hal ok cells self epoch ((es1 @ [e]) @ es2) k" "tlv_readable ((es1 @ [e]) @ es2) k"
    using Cons.prems(1,2) by simp_all
  from Cons.IH [OF this it'(2), of "it_tag it" "it_offset it"] show ?case
    using Cons.prems(3) by (subst find_end_from.simps) (auto simp: has it'(1) it_on_def split: if_splits)
qed

end

definition tlv_valid :: "buffer \<Rightarrow> bool" where
  "tlv_valid c \<longleftrightarrow> take 7 c = take 7 btstack_tlv_header_magic"

lemma tlv_valid_header [simp]: "tlv_valid (tlv_header e @ c)"
  by (simp add: tlv_valid_def tlv_header_def btstack_tlv_header_magic_def)

lemma tlv_header_epoch [simp]: "(tlv_header e @ c) ! 7 = e"
  by (simp add: tlv_header_def btstack_tlv_header_magic_def)

lemma erased_invalid: "\<not> tlv_valid (replicate n 0xff)"
  by (cases n) (simp_all add: tlv_valid_def btstack_tlv_header_magic_def)

lemma memcmp_magic:
  assumes "length h = 8"
  shows "\<exists>r. memcmp_n 7 h btstack_tlv_header_magic = Some r \<and> (r = 0 \<longleftrightarrow> tlv_valid h)"
  using memcmp_n_zero_iff [of 7 h btstack_tlv_header_magic] assms
  by (auto simp: tlv_valid_def btstack_tlv_header_magic_def)

text \<open>The other bank is no newer: it has no valid header, or the epoch before.\<close>

definition tlv_other_older :: "u8 \<Rightarrow> buffer \<Rightarrow> bool" where
  "tlv_other_older epoch c \<longleftrightarrow> (tlv_valid c \<longrightarrow> epoch AND 3 = ((c ! 7 AND 3) + 1) AND 3)"

lemma unat_and_3: "unat ((x + 1 :: u8) AND 3) = (unat x + 1) mod 4"
proof -
  have "(x + 1) AND 3 = take_bit 2 (x + 1)" by (simp add: take_bit_eq_mask mask_eq_exp_minus_1)
  then have "unat ((x + 1) AND 3) = unat (x + 1) mod 4"
    by (simp only: unsigned_take_bit_eq) (simp add: take_bit_eq_mod)
  also have "\<dots> = (unat x + 1) mod 256 mod 4" by (simp add: unat_word_ariths)
  also have "\<dots> = (unat x + 1) mod 4" by (rule mod_mod_cancel) simp
  finally show ?thesis .
qed

lemma epoch_not_both: "\<not> ((e :: u8) = (f + 1) AND 3 \<and> f = (e + 1) AND 3)"
proof
  assume "e = (f + 1) AND 3 \<and> f = (e + 1) AND 3"
  then have "unat e = (unat f + 1) mod 4" "unat f = (unat e + 1) mod 4" by (metis unat_and_3)+
  then show False by presburger
qed

context flash_banks begin

lemma tlv_latest_bank_eq:
  assumes "hal_flash_bank_impl self = hal" and "ok (ctx self)" and "8 \<le> unat (tlv_size self)"
    and "b = 0 \<or> b = 1" and "tlv_valid (cells (ctx self) b)"
    and "tlv_other_older (cells (ctx self) b ! 7) (cells (ctx self) (1 - b))"
  shows "btstack_tlv_flash_bank_get_latest_bank self = Some b"
proof -
  let ?c = "\<lambda>b. cells (ctx self) b" and ?h = "\<lambda>b. take 8 (cells (ctx self) b)"
  have len: "length (?c 0) = unat (tlv_size self)" "length (?c 1) = unat (tlv_size self)"
    using size_cells [OF assms(2)] assms(1) by simp_all
  have rd: "btstack_tlv_flash_bank_read self i 0 BTSTACK_TLV_HEADER_LEN = Some (?h i)" if "i = 0 \<or> i = 1" for i
    by (rule tlv_read_segment [OF assms(1,2) that, of "[]" _ "drop 8 (?c i)"])
       (use that assms(3) len in \<open>auto simp: BTSTACK_TLV_HEADER_LEN_def\<close>)
  have h: "length (?h 0) = 8" "length (?h 1) = 8" using len assms(3) by simp_all
  have v: "tlv_valid (?h i) = tlv_valid (?c i)" for i by (simp add: tlv_valid_def)
  obtain r0 r1 where r: "memcmp_n 7 (?h 0) btstack_tlv_header_magic = Some r0" "r0 = 0 \<longleftrightarrow> tlv_valid (?c 0)"
    "memcmp_n 7 (?h 1) btstack_tlv_header_magic = Some r1" "r1 = 0 \<longleftrightarrow> tlv_valid (?c 1)"
    using memcmp_magic [OF h(1)] memcmp_magic [OF h(2)] unfolding v by blast
  have e: "rd (?h 0) 7 = Some (?c 0 ! 7)" "rd (?h 1) 7 = Some (?c 1 ! 7)" using h by (simp_all add: rd_def)
  note un = btstack_tlv_flash_bank_get_latest_bank_def Let_def
  show ?thesis
    using assms(4)
  proof
    assume b: "b = 0"
    show ?thesis
      using assms(5,6) rd [of 0] rd [of 1] r e unfolding un b
      by (simp add: tlv_other_older_def)
  next
    assume b: "b = 1"
    show ?thesis
      using assms(5,6) rd [of 0] rd [of 1] r e epoch_not_both [of "?c 1 ! 7 AND 3" "?c 0 ! 7 AND 3"] unfolding un b
      by (auto simp: tlv_other_older_def)
  qed
qed

lemma tlv_latest_bank_none:
  assumes "hal_flash_bank_impl self = hal" and "ok (ctx self)" and "8 \<le> unat (tlv_size self)"
    and "\<not> tlv_valid (cells (ctx self) 0)" and "\<not> tlv_valid (cells (ctx self) 1)"
  shows "btstack_tlv_flash_bank_get_latest_bank self = Some (-1)"
proof -
  let ?h = "\<lambda>b. take 8 (cells (ctx self) b)"
  have len: "length (cells (ctx self) i) = unat (tlv_size self)" if "i = 0 \<or> i = 1" for i
    using size_cells [OF assms(2) that] assms(1) by simp
  have rd: "btstack_tlv_flash_bank_read self i 0 BTSTACK_TLV_HEADER_LEN = Some (?h i)" if "i = 0 \<or> i = 1" for i
    by (rule tlv_read_segment [OF assms(1,2) that, of "[]" _ "drop 8 (cells (ctx self) i)"])
       (use that assms(3) len in \<open>auto simp: BTSTACK_TLV_HEADER_LEN_def\<close>)
  have v: "tlv_valid (?h i) = tlv_valid (cells (ctx self) i)" for i by (simp add: tlv_valid_def)
  have "\<exists>r. memcmp_n 7 (?h i) btstack_tlv_header_magic = Some r \<and> r \<noteq> 0" if "i = 0 \<or> i = 1" for i
    using memcmp_magic [of "?h i"] len [OF that] assms(3-5) that unfolding v by auto
  from this [of 0] this [of 1] show ?thesis
    using rd [of 0] rd [of 1] by (auto simp: btstack_tlv_flash_bank_get_latest_bank_def Let_def)
qed

text \<open>Without a valid bank the store starts empty in bank 0.\<close>

lemma tlv_init_fresh_eq:
  assumes ok: "ok s" and size: "8 \<le> unat (hal_get_size hal s)"
    and "\<not> tlv_valid (cells s 0)" and "\<not> tlv_valid (cells s 1)"
  shows "\<exists>self. btstack_tlv_flash_bank_init_instance hal s = Some self
     \<and> tlv_inv hal ok cells self 0 [] (unat (hal_get_size hal s) - 8) \<and> current_bank self = 0
     \<and> hal_get_size hal (ctx self) = hal_get_size hal s \<and> cells (ctx self) 1 = cells s 1"
proof -
  let ?self = "\<lparr> hal_flash_bank_impl = hal, hal_flash_bank_context = s, current_bank = -1, write_offset = 0 \<rparr>"
  have lb: "btstack_tlv_flash_bank_get_latest_bank (?self\<lparr> current_bank := 0 \<rparr>) = Some (-1)"
    using tlv_latest_bank_none [of "?self\<lparr> current_bank := 0 \<rparr>"] assms by simp
  let ?n = "unat (hal_get_size hal s)"
  obtain s1 where s1: "btstack_tlv_flash_bank_erase_bank ?self 0 = Some (?self\<lparr> hal_flash_bank_context := s1 \<rparr>)"
    "ok s1" "hal_get_size hal s1 = hal_get_size hal s" "cells s1 0 = replicate ?n 0xff" "cells s1 1 = cells s 1"
    using tlv_erase_bank_eq [of ?self 0] ok by auto
  let ?s1 = "?self\<lparr> hal_flash_bank_context := s1, current_bank := 0 \<rparr>"
  have n: "replicate ?n (0xff :: u8) = [] @ replicate 8 0xff @ replicate (?n - 8) 0xff"
    using size by (simp flip: replicate_add)
  have h: "0xff \<notin> set (tlv_header 0)" using tlv_header_no_ff [of 0] by simp
  have "\<exists>s2. btstack_tlv_flash_bank_write ?s1 0 0 (tlv_header 0) 8 = Some (?s1\<lparr> hal_flash_bank_context := s2 \<rparr>)
     \<and> ok s2 \<and> hal_get_size hal s2 = hal_get_size hal (ctx ?s1)
     \<and> cells s2 0 = [] @ tlv_header 0 @ replicate (?n - 8) 0xff \<and> cells s2 (1 - 0) = cells (ctx ?s1) (1 - 0)"
    by (rule tlv_write_segment [where B = "replicate 8 0xff"])
       (use s1(2,4) n programs_erased [OF h] in simp_all)
  then obtain s2 where s2: "btstack_tlv_flash_bank_write ?s1 0 0 (tlv_header 0) 8 = Some (?s1\<lparr> hal_flash_bank_context := s2 \<rparr>)"
    "ok s2" "hal_get_size hal s2 = hal_get_size hal s1" "cells s2 0 = tlv_header 0 @ replicate (?n - 8) 0xff"
    "cells s2 1 = cells s1 1" by auto
  have "btstack_tlv_flash_bank_init_instance hal s =
      Some (?s1\<lparr> hal_flash_bank_context := s2, write_offset := 8 \<rparr>)"
    using lb s1(1) s2(1)
    by (simp add: btstack_tlv_flash_bank_init_instance_def Let_def btstack_tlv_flash_bank_write_header_def
        BTSTACK_TLV_HEADER_LEN_def tlv_header_def)
  then show ?thesis using s2 s1(3,5) by (simp add: tlv_inv_def tlv_bank_def)
qed

text \<open>With a valid bank that is not full the log is taken over, and older entries with the tag of the
  last one are deleted.\<close>

lemma tlv_init_recovers_eq:
  assumes self: "hal_flash_bank_impl self = hal" and bank: "tlv_bank hal ok cells self epoch es k" and k: "8 \<le> k"
    and older: "tlv_other_older epoch (cells (ctx self) (1 - current_bank self))"
  shows "\<exists>self'. btstack_tlv_flash_bank_init_instance hal (ctx self) = Some self'
     \<and> tlv_inv hal ok cells self' epoch
        (if es = [] then [] else if fst (last es) = 0 then es
         else tlv_mark (fst (last es)) (butlast es) @ [last es]) k
     \<and> current_bank self' = current_bank self
     \<and> cells (ctx self') (1 - current_bank self) = cells (ctx self) (1 - current_bank self)"
proof -
  let ?b = "current_bank self"
  let ?s0 = "\<lparr> hal_flash_bank_impl = hal, hal_flash_bank_context = ctx self, current_bank = 0, write_offset = 0 \<rparr>"
  let ?s1 = "?s0\<lparr> current_bank := ?b \<rparr>"
  have b: "ok (ctx self)" "?b = 0 \<or> ?b = 1"
    "cells (ctx self) ?b = tlv_header epoch @ tlv_log es @ replicate k 0xff" using bank by (simp_all add: tlv_bank_def)
  have sz: "unat (hal_get_size hal (ctx self)) = 8 + length (tlv_log es) + k" by (rule tlv_bank_size [OF bank])
  have lb: "btstack_tlv_flash_bank_get_latest_bank ?s0 = Some ?b"
    using tlv_latest_bank_eq [of ?s0 ?b] b sz older by simp
  have bank1: "tlv_bank hal ok cells (?s1\<lparr> write_offset := w \<rparr>) epoch es k" for w
    using bank by (simp add: tlv_bank_def)
  have bank1': "tlv_bank hal ok cells ?s1 epoch es k" using bank by (simp add: tlv_bank_def)
  have room: "tlv_readable es k" using k by (simp add: tlv_readable_def)
  obtain it where it: "btstack_tlv_flash_bank_iterator_init ?s1 ?b = Some it" "it_on ?s1 it [] es"
    using tlv_iterator_init_on [OF bank1' room] by auto
  obtain t' o' e' where f: "find_end_from ?s1 it 0 0 = Some (t', o', e')" "unat e' = 8 + length (tlv_log es)"
    "if es = [] then t' = 0 \<and> o' = 0 else t' = fst (last es) \<and> unat o' = 8 + length (tlv_log (butlast es))"
    using find_end_from_eq [of ?s1 epoch "[]" es k it 0 0] bank1' room it(2) by auto
  let ?s2 = "?s1\<lparr> write_offset := e' \<rparr>"
  let ?es = "if es = [] then [] else if fst (last es) = 0 then es
         else tlv_mark (fst (last es)) (butlast es) @ [last es]"
  have lt: "e' < hal_get_size hal (ctx self)" unfolding word_less_nat_alt sz f(2) using k by simp
  obtain s where s: "(if t' \<noteq> 0 then btstack_tlv_flash_bank_delete_tag_until_offset ?s2 t' o' else Some ?s2) =
      Some (?s2\<lparr> hal_flash_bank_context := s \<rparr>)"
    "tlv_bank hal ok cells (?s2\<lparr> hal_flash_bank_context := s \<rparr>) epoch ?es k"
    "cells s (1 - ?b) = cells (ctx self) (1 - ?b)"
  proof (cases "t' = 0")
    case True
    then have "?es = es" using f(3) by (auto split: if_splits)
    then show ?thesis using that [of "ctx self"] True bank1 [of e'] by simp
  next
    case False
    then have es: "es \<noteq> []" "es = butlast es @ [last es]" "t' = fst (last es)"
      "unat o' = 8 + length (tlv_log (butlast es))" using f(3) by (auto split: if_splits)
    have "tlv_bank hal ok cells ?s2 epoch (butlast es @ [last es]) k" "tlv_readable (butlast es @ [last es]) k"
      using bank1 [of e'] room es(1) by simp_all
    from tlv_delete_until_eq [OF this es(4), of t'] obtain s where
      "btstack_tlv_flash_bank_delete_tag_until_offset ?s2 t' o' = Some (?s2\<lparr> hal_flash_bank_context := s \<rparr>)"
      "tlv_bank hal ok cells (?s2\<lparr> hal_flash_bank_context := s \<rparr>) epoch (tlv_mark t' (butlast es) @ [last es]) k"
      "cells s (1 - ?b) = cells (ctx self) (1 - ?b)" by auto
    then show ?thesis using that [of s] False es(1,3) by simp
  qed
  let ?s3 = "?s2\<lparr> hal_flash_bank_context := s \<rparr>"
  have len: "length (tlv_log ?es) = length (tlv_log es)"
  proof (cases "es = []")
    case False
    then have "length (tlv_log es) = length (tlv_log (butlast es @ [last es]))" by simp
    then show ?thesis using False by (simp del: append_butlast_last_id)
  qed simp
  have okc: "ok s" "cells s ?b = tlv_header epoch @ tlv_log ?es @ replicate k 0xff" using s(2) by (simp_all add: tlv_bank_def)
  have szs: "unat (hal_get_size hal s) = 8 + length (tlv_log es) + k"
    using tlv_bank_size [OF s(2)] len by simp
  have "drop (unat e') (cells s ?b) = replicate k 0xff" unfolding okc(2) f(2) using len by simp
  then have clean: "btstack_tlv_flash_bank_test_erased ?s3 ?b e' = Some True"
    using test_erased_from_eq [of ?s3 ?b e'] okc(1) b(2) szs f(2)
    by (simp add: btstack_tlv_flash_bank_test_erased_def)
  have "btstack_tlv_flash_bank_init_instance hal (ctx self) = Some ?s3"
    using lb it(1) f(1) lt s(1) clean b(2)
    by (auto simp: btstack_tlv_flash_bank_init_instance_def Let_def)
  then show ?thesis using s(2,3) f(2) len by (simp add: tlv_inv_def)
qed

end

section \<open>The store over flash in RAM as a \<open>btstack_tlv_t\<close>\<close>

definition btstack_tlv_flash_bank :: "'s tlv_flash_bank btstack_tlv" where
  "btstack_tlv_flash_bank =
     \<lparr> get_tag = btstack_tlv_flash_bank_get_tag,
       store_tag = btstack_tlv_flash_bank_store_tag,
       delete_tag = btstack_tlv_flash_bank_delete_tag \<rparr>"

abbreviation "fm_inv \<equiv> tlv_inv hal_flash_bank_memory_instance fm_ok fm_cells"

text \<open>
  What the store holds: \<open>L\<close> are the live entries of the current bank's log.  Sizes are multiples of eight,
  so that a bank is never left with one to seven erased bytes (see \<^const>\<open>tlv_readable\<close>).
\<close>

definition tlv_holds :: "flash_memory tlv_flash_bank \<Rightarrow> tlv_entry list \<Rightarrow> bool" where
  "tlv_holds self L \<longleftrightarrow> (\<exists>epoch es k. fm_inv self epoch es k \<and> L = tlv_live es
     \<and> distinct (map fst L) \<and> 8 dvd k \<and> (\<forall>e \<in> set es. 8 dvd length (snd e)) \<and> 8 \<le> k + tlv_used es
     \<and> tlv_other_older epoch (fm_cells (hal_flash_bank_context self) (1 - current_bank self)))"

definition tlv_ok_entry :: "tlv_entry \<Rightarrow> bool" where
  "tlv_ok_entry = (\<lambda>(t, v). t \<noteq> 0 \<and> tlv_good (t, v) \<and> 8 dvd length v \<and> length v < 1073741824)"

definition tlv_cap :: "flash_memory tlv_flash_bank \<Rightarrow> nat" where
  "tlv_cap self = unat (bank_size (hal_flash_bank_context self)) - 8"

lemma tlv_cap_eq: "fm_inv self epoch es k \<Longrightarrow> tlv_cap self = tlv_used es + k"
  using fm.tlv_bank_size [of self epoch es k] by (simp add: tlv_inv_def tlv_cap_def fm_instance length_tlv_log)

lemma dvd_used: "(\<forall>e \<in> set es. 8 dvd length (snd e)) \<Longrightarrow> 8 dvd tlv_used es"
  by (induction es) auto

lemma used_live_le: "tlv_used (tlv_live es) \<le> tlv_used es"
  using length_tlv_log_live [of es] by (simp add: length_tlv_log)

lemma holds_readable: "8 dvd k \<Longrightarrow> 8 \<le> k + tlv_used es \<Longrightarrow> tlv_readable es k"
  by (cases "k = 0") (auto simp: tlv_readable_def dvd_imp_le)

lemma dvd_gap: "8 dvd n \<Longrightarrow> n = 0 \<or> 8 \<le> (n :: nat)"
  by (cases "n = 0") (auto intro: dvd_imp_le)

lemma other_older_header: "tlv_other_older ((e + 1) AND 3) (tlv_header e @ c)"
proof -
  have "unat (((e AND 3) + 1) AND 3) = (unat e + 1) mod 4"
  proof -
    have "e AND 3 = take_bit 2 e" by (simp add: take_bit_eq_mask mask_eq_exp_minus_1)
    then have "unat (e AND 3) = unat e mod 4" by (simp only: unsigned_take_bit_eq) (simp add: take_bit_eq_mod)
    then show ?thesis by (simp add: unat_and_3 mod_simps)
  qed
  moreover have "((e + 1) AND 3) AND 3 = (e + 1) AND 3" by (simp add: and.assoc)
  ultimately show ?thesis by (simp add: tlv_other_older_def word_unat_eq_iff unat_and_3)
qed

lemma tlv_holds_store:
  assumes holds: "tlv_holds s L" and ok: "tlv_ok_entry (t, v)" and n: "unat n = length v"
  shows "\<exists>s'. btstack_tlv_flash_bank_store_tag s t v n =
        Some (if 8 + length v + tlv_used L \<le> tlv_cap s then 0 else 2, s')
     \<and> tlv_cap s' = tlv_cap s
     \<and> tlv_holds s' (if 8 + length v + tlv_used L \<le> tlv_cap s then tlv_without t L @ [(t, v)] else L)"
proof -
  obtain epoch es k where inv: "fm_inv s epoch es k" and L: "L = tlv_live es" and d: "distinct (map fst L)"
    and a: "8 dvd k" "\<forall>e \<in> set es. 8 dvd length (snd e)" and big: "8 \<le> k + tlv_used es"
    and older: "tlv_other_older epoch (fm_cells (hal_flash_bank_context s) (1 - current_bank s))"
    using holds by (auto simp: tlv_holds_def)
  have tv: "t \<noteq> 0" "tlv_good (t, v)" "8 dvd length v" "length v < 1073741824" using ok by (simp_all add: tlv_ok_entry_def)
  let ?k2 = "k + tlv_used es - tlv_used (tlv_live es)"
  have al: "\<forall>e \<in> set (tlv_live es). 8 dvd length (snd e)" using a(2) by (simp add: tlv_live_def)
  have k2: "8 dvd ?k2" using a(1) dvd_used [OF a(2)] dvd_used [OF al] by (intro dvd_diff_nat dvd_add)
  have fits: "8 + length v + tlv_used L \<le> tlv_cap s \<longleftrightarrow> 8 + length v \<le> ?k2"
    unfolding tlv_cap_eq [OF inv] L using used_live_le [of es] by linarith
  have gaps: "k - (8 + length v) = 0 \<or> 8 \<le> k - (8 + length v)" "?k2 - (8 + length v) = 0 \<or> 8 \<le> ?k2 - (8 + length v)"
  proof -
    have "8 dvd 8 + length v" using tv(3) by simp
    then show "k - (8 + length v) = 0 \<or> 8 \<le> k - (8 + length v)" "?k2 - (8 + length v) = 0 \<or> 8 \<le> ?k2 - (8 + length v)"
      using dvd_gap [OF dvd_diff_nat [OF a(1)]] dvd_gap [OF dvd_diff_nat [OF k2]] by blast+
  qed
  obtain s' where st: "btstack_tlv_flash_bank_store_tag s t v n = Some (if 8 + length v \<le> ?k2 then 0 else 2, s')"
    and res: "if 8 + length v \<le> k then
        fm_inv s' epoch (tlv_mark t es @ [(t, v)]) (k - (8 + length v)) \<and> current_bank s' = current_bank s
        \<and> fm_cells (hal_flash_bank_context s') (1 - current_bank s) = fm_cells (hal_flash_bank_context s) (1 - current_bank s)
      else fm_inv s' ((epoch + 1) AND 3)
          (if 8 + length v \<le> ?k2 then tlv_mark t (tlv_live es) @ [(t, v)] else tlv_live es)
          (if 8 + length v \<le> ?k2 then ?k2 - (8 + length v) else ?k2) \<and> current_bank s' = 1 - current_bank s
        \<and> fm_cells (hal_flash_bank_context s') (current_bank s) = fm_cells (hal_flash_bank_context s) (current_bank s)"
    using fm.tlv_store_eq [OF inv holds_readable [OF a(1) big] n tv(4,2) refl gaps] by blast
  have um: "tlv_used (tlv_mark t xs) = tlv_used xs" for xs by (simp flip: length_tlv_log)
  have new: "distinct (map fst (tlv_without t L @ [(t, v)]))"
    using tlv_without_distinct [OF d] tlv_without_fst [of t L] by auto
  have am: "\<forall>e \<in> set (tlv_mark t xs @ [(t, v)]). 8 dvd length (snd e)" if "\<forall>e \<in> set xs. 8 dvd length (snd e)" for xs
    using that tv(3) by (auto simp: tlv_mark_def)
  have live_new: "tlv_live (tlv_mark t xs @ [(t, v)]) = tlv_without t (tlv_live xs) @ [(t, v)]" for xs
    using tv(1) by (simp add: tlv_live_mark) (simp add: tlv_live_def)
  have kk: "k \<le> ?k2" using used_live_le [of es] by linarith
  let ?c' = "fm_cells (hal_flash_bank_context s')"
  show ?thesis
  proof (cases "8 + length v \<le> k")
    case True
    then have fit: "8 + length v + tlv_used L \<le> tlv_cap s" using fits kk by linarith
    have inv': "fm_inv s' epoch (tlv_mark t es @ [(t, v)]) (k - (8 + length v))" using res True by simp
    have "tlv_holds s' (tlv_without t L @ [(t, v)])"
      unfolding tlv_holds_def
      using inv' live_new [of es] new am [OF a(2)] a(1) tv(3) older res True um L
      by (intro exI [of _ epoch] exI [of _ "tlv_mark t es @ [(t, v)]"] exI [of _ "k - (8 + length v)"])
         (auto intro: dvd_diff_nat)
    moreover have "tlv_cap s' = tlv_cap s" unfolding tlv_cap_eq [OF inv'] tlv_cap_eq [OF inv] using True um by simp
    ultimately show ?thesis using st fit fits by simp
  next
    case F: False
    have older': "tlv_other_older ((epoch + 1) AND 3) (?c' (1 - current_bank s'))"
      using res F inv other_older_header [of epoch] by (auto simp: tlv_inv_def tlv_bank_def)
    show ?thesis
    proof (cases "8 + length v \<le> ?k2")
      case True
      have inv': "fm_inv s' ((epoch + 1) AND 3) (tlv_mark t (tlv_live es) @ [(t, v)]) (?k2 - (8 + length v))"
        using res F True by simp
      have "tlv_holds s' (tlv_without t L @ [(t, v)])"
        unfolding tlv_holds_def
        using inv' live_new [of "tlv_live es"] new am [OF al] dvd_diff_nat [OF k2, of "8 + length v"] tv(3) older' um L
        by (intro exI [of _ "(epoch + 1) AND 3"] exI [of _ "tlv_mark t (tlv_live es) @ [(t, v)]"]
              exI [of _ "?k2 - (8 + length v)"])
           (auto intro: dvd_diff_nat)
      moreover have "tlv_cap s' = tlv_cap s"
        unfolding tlv_cap_eq [OF inv'] tlv_cap_eq [OF inv] using True um used_live_le [of es] by simp
      ultimately show ?thesis using st fits True by simp
    next
      case False
      have inv': "fm_inv s' ((epoch + 1) AND 3) (tlv_live es) ?k2" using res F False by simp
      have cap': "tlv_cap s' = tlv_cap s"
        unfolding tlv_cap_eq [OF inv'] tlv_cap_eq [OF inv] using used_live_le [of es] by simp
      have "tlv_holds s' L"
        unfolding tlv_holds_def
        using inv' al k2 older' L d big cap' tlv_cap_eq [OF inv'] tlv_cap_eq [OF inv]
        by (intro exI [of _ "(epoch + 1) AND 3"] exI [of _ "tlv_live es"] exI [of _ ?k2]) auto
      then show ?thesis using st fits False cap' by simp
    qed
  qed
qed

lemma tlv_holds_delete:
  assumes "tlv_holds s L" and "t \<noteq> 0"
  shows "\<exists>s'. btstack_tlv_flash_bank_delete_tag s t = Some s' \<and> tlv_cap s' = tlv_cap s \<and> tlv_holds s' (tlv_without t L)"
proof -
  obtain epoch es k where inv: "fm_inv s epoch es k" and L: "L = tlv_live es" and d: "distinct (map fst L)"
    and a: "8 dvd k" "\<forall>e \<in> set es. 8 dvd length (snd e)" and big: "8 \<le> k + tlv_used es"
    and older: "tlv_other_older epoch (fm_cells (hal_flash_bank_context s) (1 - current_bank s))"
    using assms(1) by (auto simp: tlv_holds_def)
  obtain c where c: "btstack_tlv_flash_bank_delete_tag s t = Some (s\<lparr> hal_flash_bank_context := c \<rparr>)"
    "fm_inv (s\<lparr> hal_flash_bank_context := c \<rparr>) epoch (tlv_mark t es) k"
    "fm_cells c (1 - current_bank s) = fm_cells (hal_flash_bank_context s) (1 - current_bank s)"
    using fm.tlv_delete_eq [OF inv holds_readable [OF a(1) big], of t] by blast
  have um: "tlv_used (tlv_mark t es) = tlv_used es" by (simp flip: length_tlv_log)
  have "tlv_holds (s\<lparr> hal_flash_bank_context := c \<rparr>) (tlv_without t L)"
    unfolding tlv_holds_def
    using c(2,3) L tlv_live_mark [of t es] tlv_without_distinct [OF d] a older big um
    by (intro exI [of _ epoch] exI [of _ "tlv_mark t es"] exI [of _ k]) (auto simp: tlv_mark_def)
  moreover have "tlv_cap (s\<lparr> hal_flash_bank_context := c \<rparr>) = tlv_cap s"
    unfolding tlv_cap_eq [OF c(2)] tlv_cap_eq [OF inv] um ..
  ultimately show ?thesis using c(1) by blast
qed

interpretation tf: tag_store btstack_tlv_flash_bank tlv_holds tlv_ok_entry tlv_cap
proof
  fix t v assume "tlv_ok_entry (t, v)"
  then show "t \<noteq> 0 \<and> length v < 4294967296" by (simp add: tlv_ok_entry_def)
next
  fix s L and t :: u32 and b :: buffer and n :: u32
  assume h: "tlv_holds s L" and t: "t \<noteq> 0" and b: "length b = unat n"
  obtain epoch es k where inv: "tlv_bank hal_flash_bank_memory_instance fm_ok fm_cells s epoch es k"
    and L: "L = tlv_live es" and r: "tlv_readable es k"
    using h holds_readable by (auto simp: tlv_holds_def tlv_inv_def)
  show "get_tag btstack_tlv_flash_bank s t (Some b) n = (case tlv_lookup L t of None \<Rightarrow> Some (0, Some b)
        | Some v \<Rightarrow> Some (of_nat (min (unat n) (length v)), Some (take (unat n) v @ drop (length v) b)))"
    unfolding L tlv_lookup_live [OF t]
    using fm.tlv_get_tag_eq(1) [OF inv r b] by (simp add: btstack_tlv_flash_bank_def)
next
  fix s L t v and n :: u32
  assume "tlv_holds s L" "tlv_ok_entry (t, v)" "unat n = length v"
  from tlv_holds_store [OF this]
  show "\<exists>s'. store_tag btstack_tlv_flash_bank s t v n = Some (if 8 + length v + tlv_used L \<le> tlv_cap s then 0 else 2, s')
      \<and> tlv_cap s' = tlv_cap s
      \<and> tlv_holds s' (if 8 + length v + tlv_used L \<le> tlv_cap s then tlv_without t L @ [(t, v)] else L)"
    by (simp add: btstack_tlv_flash_bank_def)
next
  fix s L and t :: u32
  assume "tlv_holds s L" "t \<noteq> 0"
  from tlv_holds_delete [OF this]
  show "\<exists>s'. delete_tag btstack_tlv_flash_bank s t = Some s' \<and> tlv_cap s' = tlv_cap s \<and> tlv_holds s' (tlv_without t L)"
    by (simp add: btstack_tlv_flash_bank_def)
qed


section \<open>Properties of the store\<close>

text \<open>A store freshly created in erased RAM.\<close>

definition tlv_fresh :: "buffer \<Rightarrow> u32 \<Rightarrow> flash_memory tlv_flash_bank option" where
  "tlv_fresh st n = do {
     context \<leftarrow> hal_flash_bank_memory_init_instance st n;
     btstack_tlv_flash_bank_init_instance hal_flash_bank_memory_instance context }"

lemma tlv_fresh_holds:
  assumes "unat n \<le> length st" and "16 \<le> unat n div 2" and "16 dvd unat n"
  shows "\<exists>self. tlv_fresh st n = Some self \<and> tlv_holds self [] \<and> tlv_cap self = unat n div 2 - 8
     \<and> unat (write_offset self) < unat (bank_size (hal_flash_bank_context self))"
proof -
  let ?st = "replicate (unat n) 0xff @ drop (unat n) st" and ?B = "unat n div 2"
  let ?s = "\<lparr> bank_size = n div 2, storage = ?st \<rparr>"
  have i: "hal_flash_bank_memory_init_instance st n = Some ?s"
    using assms(1) wr_range_Some [of 0 "replicate (unat n) 0xff" st]
    by (simp add: hal_flash_bank_memory_init_instance_def)
  have sz: "unat (bank_size ?s) = ?B" by (simp add: unat_div)
  have ok: "fm_ok ?s" using assms(1) unat_u32_less [of n] unfolding fm_ok_def sz by (simp; linarith)
  have two: "2 * ?B \<le> unat n" by simp
  have cells: "fm_cells ?s b = replicate ?B 0xff" if "b = 0 \<or> b = 1" for b
    unfolding fm_cells_def sz using that two by (auto simp: bank_base_def unat_div)
  have inval: "\<not> tlv_valid (replicate ?B 0xff)" by (rule erased_invalid)
  obtain self where self: "btstack_tlv_flash_bank_init_instance hal_flash_bank_memory_instance ?s = Some self"
    "fm_inv self 0 [] (?B - 8)" "current_bank self = 0" "fm_cells (hal_flash_bank_context self) 1 = replicate ?B 0xff"
    using fm.tlv_init_fresh_eq [OF ok] cells [of 0] cells [of 1] inval assms(2) sz
    by (auto simp: hal_flash_bank_memory_instance_def hal_flash_bank_memory_get_size_def)
  have "8 dvd ?B - 8"
  proof -
    have "16 dvd 2 * ?B" using assms(3) by (simp add: dvd_mult_div_cancel dvd_trans [of 2 16])
    then have "8 dvd ?B" by presburger
    then show ?thesis by (simp add: dvd_diff_nat)
  qed
  then have "tlv_holds self []"
    unfolding tlv_holds_def using self inval assms(2)
    by (intro exI [of _ 0] exI [of _ "[]"] exI [of _ "?B - 8"]) (auto simp: tlv_live_def tlv_other_older_def)
  moreover have "tlv_cap self = ?B - 8" using tlv_cap_eq [OF self(2)] by simp
  moreover have "unat (write_offset self) < unat (bank_size (hal_flash_bank_context self))"
    using self(2) fm.tlv_bank_size [of self 0 "[]" "?B - 8"] assms(2) by (simp add: tlv_inv_def fm_instance)
  ultimately show ?thesis using i self(1) by (simp add: tlv_fresh_def)
qed

text \<open>C1: The tag store keeps its promise.  Starting from erased flash in RAM (banks of a multiple of
  eight and at least sixteen bytes), any sequence of stores and deletions runs to the end, migrations
  included; every store answers 0 exactly when the value fits beside the live values and 2 otherwise; and
  afterwards \<open>get_tag\<close> returns for every tag but 0 the size of the value last stored successfully and not deleted since, or that
  of the caller's buffer when it is smaller, and as many of its bytes, or 0 when there is no value.  Tags are not 0; tags, values
  and the four bytes of a length hold no byte \<open>0xff\<close>, and value lengths are multiples of eight below \<open>2 ^ 30\<close>.\<close>

theorem tlv_flash_bank_run:
  assumes "unat n \<le> length st" and "16 \<le> unat n div 2" and "16 dvd unat n"
    and "list_all (op_admissible tlv_ok_entry) ops" and "t \<noteq> 0" and "length b = unat m"
  shows "\<exists>self self' L rs. tlv_fresh st n = Some self
     \<and> tag_spec (unat n div 2 - 8) [] ops = (L, rs)
     \<and> tag_run btstack_tlv_flash_bank self ops = Some (self', rs)
     \<and> btstack_tlv_flash_bank_get_tag self' t (Some b) m = (case tlv_lookup L t of
          None \<Rightarrow> Some (0, Some b)
        | Some v \<Rightarrow> Some (of_nat (min (unat m) (length v)), Some (take (unat m) v @ drop (length v) b)))"
proof -
  obtain self where self: "tlv_fresh st n = Some self" "tlv_holds self []" "tlv_cap self = unat n div 2 - 8"
    using tlv_fresh_holds [OF assms(1-3)] by blast
  obtain L rs where spec: "tag_spec (unat n div 2 - 8) [] ops = (L, rs)" by (cases "tag_spec (unat n div 2 - 8) [] ops")
  show ?thesis
    using tf.get_after_run [OF self(2) assms(4-6)] self(1,3) spec by (auto simp: btstack_tlv_flash_bank_def)
qed

theorem tlv_flash_bank_run_witness:
  "\<exists>self self' L rs. tlv_fresh (replicate 64 0) 64 = Some self
     \<and> tag_spec (unat (64 :: u32) div 2 - 8) []
         [Store 1 [1, 2, 3, 4, 5, 6, 7, 8], Store 1 [8, 7, 6, 5, 4, 3, 2, 1], Delete 7] = (L, rs)
     \<and> tag_run btstack_tlv_flash_bank self
         [Store 1 [1, 2, 3, 4, 5, 6, 7, 8], Store 1 [8, 7, 6, 5, 4, 3, 2, 1], Delete 7] = Some (self', rs)
     \<and> btstack_tlv_flash_bank_get_tag self' 1 (Some [0, 0, 0]) 3 = (case tlv_lookup L 1 of
          None \<Rightarrow> Some (0, Some [0, 0, 0])
        | Some v \<Rightarrow> Some (of_nat (min (unat (3 :: u32)) (length v)), Some (take (unat (3 :: u32)) v @ drop (length v) [0, 0, 0])))"
  by (rule tlv_flash_bank_run)
     (simp_all add: tlv_ok_entry_def tlv_good_def tlv_entry_bytes_def be32_def, simp add: numeral_eq_Suc)

text \<open>C2: Restart.  When the current bank is not full, \<open>btstack_tlv_flash_bank_init_instance\<close> on the flash that a
  store left behind finds the current bank and yields a store with the same contents.\<close>

theorem tlv_flash_bank_restart:
  assumes "tlv_holds self L" and "unat (write_offset self) < unat (bank_size (hal_flash_bank_context self))"
    and "t \<noteq> 0"
  shows "\<exists>self'. btstack_tlv_flash_bank_init_instance hal_flash_bank_memory_instance (hal_flash_bank_context self) = Some self'
     \<and> btstack_tlv_flash_bank_get_tag self' t None 0 =
         Some (case tlv_lookup L t of None \<Rightarrow> 0 | Some v \<Rightarrow> of_nat (length v), None)
     \<and> tlv_holds self' L"
proof -
  obtain epoch es k where inv: "fm_inv self epoch es k" and L: "L = tlv_live es" and d: "distinct (map fst L)"
    and a: "8 dvd k" "\<forall>e \<in> set es. 8 dvd length (snd e)" and big: "8 \<le> k + tlv_used es"
    and older: "tlv_other_older epoch (fm_cells (hal_flash_bank_context self) (1 - current_bank self))"
    using assms(1) by (auto simp: tlv_holds_def)
  have bank: "tlv_bank hal_flash_bank_memory_instance fm_ok fm_cells self epoch es k" using inv by (simp add: tlv_inv_def)
  have "k \<noteq> 0" using fm.tlv_bank_size [OF bank] inv assms(2) by (auto simp: tlv_inv_def fm_instance)
  then have k: "8 \<le> k" using dvd_gap [OF a(1)] by simp
  let ?es = "if es = [] then [] else if fst (last es) = 0 then es
         else tlv_mark (fst (last es)) (butlast es) @ [last es]"
  have impl: "hal_flash_bank_impl self = hal_flash_bank_memory_instance" using bank by (simp add: tlv_bank_def)
  obtain self' where self': "btstack_tlv_flash_bank_init_instance hal_flash_bank_memory_instance (hal_flash_bank_context self) = Some self'"
    "fm_inv self' epoch ?es k" "current_bank self' = current_bank self"
    "fm_cells (hal_flash_bank_context self') (1 - current_bank self) = fm_cells (hal_flash_bank_context self) (1 - current_bank self)"
    using fm.tlv_init_recovers_eq [OF impl bank k older] by blast
  have same: "tlv_live ?es = L"
  proof (cases "es = [] \<or> fst (last es) = 0")
    case False
    then obtain xs tt v where es: "es = xs @ [(tt, v)]" "tt \<noteq> 0"
      by (metis append_butlast_last_id prod.collapse)
    have "tt \<notin> fst ` set (tlv_live xs)" using d unfolding L es by (auto simp: tlv_live_def)
    then have "tlv_without tt (tlv_live xs) = tlv_live xs"
      unfolding tlv_without_def by (intro filter_True) force
    then show ?thesis unfolding L es using es(2) by (simp add: tlv_live_mark)
  qed (use L in auto)
  have al: "\<forall>e \<in> set ?es. 8 dvd length (snd e)"
  proof -
    have "\<forall>e \<in> set (butlast es). 8 dvd length (snd e)" using a(2) by (blast dest: in_set_butlastD)
    then show ?thesis using a(2) by (auto simp: tlv_mark_def split_def)
  qed
  have used: "tlv_used ?es = tlv_used es"
  proof (cases "es = []")
    case False
    then have "tlv_used es = tlv_used (butlast es) + tlv_used [last es]" by (simp flip: tlv_used_append)
    then show ?thesis using False by (simp flip: length_tlv_log)
  qed simp
  have "tlv_holds self' L"
    unfolding tlv_holds_def
    using self' same d a(1) al big used older
    by (intro exI [of _ epoch] exI [of _ ?es] exI [of _ k]) simp
  moreover have "btstack_tlv_flash_bank_get_tag self' t None 0 =
      Some (case tlv_lookup L t of None \<Rightarrow> 0 | Some v \<Rightarrow> of_nat (length v), None)"
    using fm.tlv_get_tag_eq(2) [of self' epoch ?es k "[]" 0 t] self'(2) k tlv_lookup_live [OF assms(3), of ?es]
    unfolding same by (simp add: tlv_inv_def tlv_readable_def)
  ultimately show ?thesis using self'(1) by blast
qed


theorem tlv_flash_bank_restart_witness:
  "\<exists>self self'. tlv_fresh (replicate 64 0) 64 = Some self
     \<and> btstack_tlv_flash_bank_init_instance hal_flash_bank_memory_instance (hal_flash_bank_context self) = Some self'
     \<and> btstack_tlv_flash_bank_get_tag self' 5 None 0 =
         Some (case tlv_lookup [] 5 of None \<Rightarrow> 0 | Some v \<Rightarrow> of_nat (length v), None)
     \<and> tlv_holds self' []"
proof -
  obtain self where "tlv_fresh (replicate 64 0) 64 = Some self" "tlv_holds self []"
    "unat (write_offset self) < unat (bank_size (hal_flash_bank_context self))"
    using tlv_fresh_holds [of 64 "replicate 64 0"] by auto
  then show ?thesis using tlv_flash_bank_restart [of self "[]" 5] by auto
qed

section \<open>What goes wrong\<close>

text \<open>C21: A completely full bank is lost at the next start.  \<open>btstack_tlv_flash_bank_init_instance\<close> takes an
  iterator that stops at the very end of the bank for a failure, although \<open>store_tag\<close> fills a bank to its
  last byte: it starts over with an empty store, and every tag is gone.\<close>

theorem tlv_flash_bank_full_is_lost:
  assumes holds: "tlv_holds self L" and full: "unat (write_offset self) = unat (bank_size (hal_flash_bank_context self))"
  shows "\<exists>self'. btstack_tlv_flash_bank_init_instance hal_flash_bank_memory_instance (hal_flash_bank_context self) = Some self'
     \<and> current_bank self' = 0 \<and> btstack_tlv_flash_bank_get_tag self' t None 0 = Some (0, None)"
proof -
  let ?impl = hal_flash_bank_memory_instance and ?ctx = "hal_flash_bank_context self" and ?b = "current_bank self"
  obtain epoch es k where inv: "fm_inv self epoch es k" and big: "8 \<le> k + tlv_used es"
    and older: "tlv_other_older epoch (fm_cells ?ctx (1 - ?b))"
    using holds by (auto simp: tlv_holds_def)
  have bank: "tlv_bank ?impl fm_ok fm_cells self epoch es k" and w: "unat (write_offset self) = 8 + tlv_used es"
    using inv by (simp_all add: tlv_inv_def length_tlv_log)
  have sz: "unat (hal_get_size ?impl ?ctx) = 8 + tlv_used es + k"
    using fm.tlv_bank_size [OF bank] by (simp add: length_tlv_log)
  have k: "k = 0" using full sz w by (simp add: fm_instance)
  have es: "es \<noteq> []" using big k by auto
  have room: "tlv_readable es k" using k es by (simp add: tlv_readable_def)
  have b: "fm_ok ?ctx" "?b = 0 \<or> ?b = 1" "fm_cells ?ctx ?b = tlv_header epoch @ tlv_log es @ replicate k 0xff"
    using bank by (simp_all add: tlv_bank_def)
  let ?s0 = "\<lparr> hal_flash_bank_impl = ?impl, hal_flash_bank_context = ?ctx, current_bank = 0, write_offset = 0 \<rparr>"
  let ?s1 = "?s0\<lparr> current_bank := ?b \<rparr>"
  have lb: "btstack_tlv_flash_bank_get_latest_bank ?s0 = Some ?b"
    using fm.tlv_latest_bank_eq [of ?s0 ?b] b sz older by simp
  have bank1: "tlv_bank ?impl fm_ok fm_cells ?s1 epoch es k" using bank by (simp add: tlv_bank_def)
  obtain it where it: "btstack_tlv_flash_bank_iterator_init ?s1 ?b = Some it" "it_on ?s1 it [] es"
    using fm.tlv_iterator_init_on [OF bank1 room] by auto
  obtain t' o' e' where f: "find_end_from ?s1 it 0 0 = Some (t', o', e')" "unat e' = 8 + tlv_used es"
    using fm.find_end_from_eq [of ?s1 epoch "[]" es k it 0 0] bank1 room it(2) by (auto simp: length_tlv_log)
  have ge: "\<not> e' < hal_get_size ?impl ?ctx" unfolding word_less_nat_alt sz f(2) k by simp
  let ?s2 = "?s1\<lparr> write_offset := e', current_bank := -1 \<rparr>"
  let ?n = "unat (hal_get_size ?impl ?ctx)"
  obtain s3 where s3: "btstack_tlv_flash_bank_erase_bank ?s2 0 = Some (?s2\<lparr> hal_flash_bank_context := s3 \<rparr>)"
    "fm_ok s3" "hal_get_size ?impl s3 = hal_get_size ?impl ?ctx" "fm_cells s3 0 = replicate ?n 0xff"
    using fm.tlv_erase_bank_eq [of ?s2 0] b(1) by auto
  let ?s3 = "?s2\<lparr> hal_flash_bank_context := s3, current_bank := 0 \<rparr>"
  have n: "replicate ?n (0xff :: u8) = [] @ replicate 8 0xff @ replicate (?n - 8) 0xff"
    using sz by (simp flip: replicate_add)
  have h: "0xff \<notin> set (tlv_header 0)" using tlv_header_no_ff [of 0] by simp
  have "\<exists>s4. btstack_tlv_flash_bank_write ?s3 0 0 (tlv_header 0) 8 = Some (?s3\<lparr> hal_flash_bank_context := s4 \<rparr>)
     \<and> fm_ok s4 \<and> hal_get_size ?impl s4 = hal_get_size ?impl (hal_flash_bank_context ?s3)
     \<and> fm_cells s4 0 = [] @ tlv_header 0 @ replicate (?n - 8) 0xff
     \<and> fm_cells s4 (1 - 0) = fm_cells (hal_flash_bank_context ?s3) (1 - 0)"
    by (rule fm.tlv_write_segment [where B = "replicate 8 0xff"])
       (use s3(2,4) n programs_erased [OF h] in simp_all)
  then obtain s4 where s4: "btstack_tlv_flash_bank_write ?s3 0 0 (tlv_header 0) 8 = Some (?s3\<lparr> hal_flash_bank_context := s4 \<rparr>)"
    "fm_ok s4" "fm_cells s4 0 = tlv_header 0 @ replicate (?n - 8) 0xff" by auto
  let ?s5 = "?s3\<lparr> hal_flash_bank_context := s4, write_offset := 8 \<rparr>"
  have "btstack_tlv_flash_bank_init_instance ?impl ?ctx = Some ?s5"
    using lb it(1) f(1) ge s3(1) s4(1) b(2)
    by (auto simp: btstack_tlv_flash_bank_init_instance_def Let_def btstack_tlv_flash_bank_write_header_def
        BTSTACK_TLV_HEADER_LEN_def tlv_header_def)
  moreover have "tlv_bank ?impl fm_ok fm_cells ?s5 0 [] (?n - 8)" using s4(2,3) by (simp add: tlv_bank_def)
  moreover have "tlv_readable [] (?n - 8)" using sz big k by (simp add: tlv_readable_def)
  ultimately show ?thesis using fm.tlv_get_tag_eq(2) [of ?s5 0 "[]" "?n - 8" "[]" 0 t] by simp
qed

theorem tlv_flash_bank_full_is_lost_witness:
  "\<exists>self self'. tlv_holds self [(1, [1, 2, 3, 4, 5, 6, 7, 8])]
     \<and> btstack_tlv_flash_bank_init_instance hal_flash_bank_memory_instance (hal_flash_bank_context self) = Some self'
     \<and> current_bank self' = 0 \<and> btstack_tlv_flash_bank_get_tag self' 1 None 0 = Some (0, None)"
proof -
  let ?e = "(1, [1, 2, 3, 4, 5, 6, 7, 8]) :: tlv_entry"
  let ?self = "\<lparr> hal_flash_bank_impl = hal_flash_bank_memory_instance,
      hal_flash_bank_context = \<lparr> bank_size = 24, storage = tlv_header 0 @ tlv_log [?e] @ replicate 24 0xff \<rparr>,
      current_bank = 0, write_offset = 24 \<rparr>"
  have good: "tlv_good ?e" by (simp add: tlv_good_def tlv_entry_bytes_def be32_def)
  have "fm_inv ?self 0 [?e] 0"
    using good by (simp add: tlv_inv_def tlv_bank_def fm_ok_def fm_cells_def bank_base_def)
  moreover have "fm_cells (hal_flash_bank_context ?self) (1 - current_bank ?self) = replicate 24 0xff"
    by (simp add: fm_cells_def bank_base_def)
  then have "\<not> tlv_valid (fm_cells (hal_flash_bank_context ?self) (1 - current_bank ?self))"
    by (simp only: erased_invalid not_False_eq_True)
  moreover have "8 dvd Suc (Suc (Suc (Suc (Suc (Suc (Suc (Suc 0)))))))" by (simp add: numeral_eq_Suc)
  ultimately have "tlv_holds ?self [?e]"
    unfolding tlv_holds_def
    by (intro exI [of _ 0] exI [of _ "[?e]"]) (simp add: tlv_live_def tlv_other_older_def erased_invalid)
  from tlv_flash_bank_full_is_lost [OF this, of 1] \<open>tlv_holds ?self [?e]\<close> show ?thesis by auto
qed

text \<open>Reads of a size that is not a multiple of the flash alignment are cut short.  With an alignment of
  four bytes, a read of three bytes puts a single byte into the caller's buffer: the rest copied is bounded
  by the alignment less the remainder instead of the remainder.\<close>

theorem tlv_flash_bank_read_unaligned_short:
  assumes "tlv_alignment self = 4"
    and "hal_read (hal_flash_bank_impl self) (hal_flash_bank_context self) bank off 4 = Some [a, b, c, d]"
  shows "btstack_tlv_flash_bank_read self bank off 3 = Some [a]"
  using assms
  by (simp add: btstack_tlv_flash_bank_read_def Let_def BTSTACK_FLASH_ALIGNMENT_MAX_def btstack_min_def rd_range_def)

theorem tlv_flash_bank_read_unaligned_short_witness:
  "btstack_tlv_flash_bank_read
     \<lparr> hal_flash_bank_impl = \<lparr> hal_get_size = \<lambda>s. 4, hal_get_alignment = \<lambda>s. 4, hal_erase = \<lambda>s b. Some s,
         hal_read = \<lambda>s b off n. Some (take (unat n) s), hal_write = \<lambda>s b off xs n. Some s \<rparr>,
       hal_flash_bank_context = [1, 2, 3, 4 :: u8], current_bank = 0, write_offset = 8 \<rparr> 0 0 3 = Some [1]"
  by (rule tlv_flash_bank_read_unaligned_short) simp_all


end
