(* ===== verification/Link_Key_Db.thy ===== *)
theory Link_Key_Db
  imports Memory_Pool BT_Util
begin

text \<open>
  The link key database: the interface \<open>btstack_link_key_db_t\<close> as the locale \<open>link_key_db\<close>, and
  \<open>btstack_link_key_db_memory.c\<close>, which keeps its records in a linked list over blocks of a memory pool
  (\<open>btstack_memory.c\<close>) ordered by last use.  The records live in the same heap as the list nodes: an
  entry's first word is its \<open>next\<close> pointer, the rest is the partial map \<open>entries\<close>.
\<close>

datatype link_key_type = COMBINATION_KEY | LOCAL_UNIT_KEY | REMOTE_UNIT_KEY | DEBUG_COMBINATION_KEY
  | UNAUTHENTICATED_COMBINATION_KEY_GENERATED_FROM_P192 | AUTHENTICATED_COMBINATION_KEY_GENERATED_FROM_P192
  | CHANGED_COMBINATION_KEY | UNAUTHENTICATED_COMBINATION_KEY_GENERATED_FROM_P256
  | AUTHENTICATED_COMBINATION_KEY_GENERATED_FROM_P256

definition LINK_KEY_LEN :: nat where "LINK_KEY_LEN = 16"

section \<open>The contract\<close>

type_synonym link_key_map = "buffer \<rightharpoonup> buffer \<times> link_key_type"

text \<open>\<open>keys s M\<close>: the database \<open>s\<close> knows the keys \<open>M\<close>.  A full database makes room for a new key by
  forgetting one other.\<close>

locale link_key_db =
  fixes get :: "'s \<Rightarrow> buffer \<Rightarrow> ((buffer \<times> link_key_type) option \<times> 's) option"
    and put :: "'s \<Rightarrow> buffer \<Rightarrow> buffer \<Rightarrow> link_key_type \<Rightarrow> 's option"
    and delete :: "'s \<Rightarrow> buffer \<Rightarrow> 's option"
    and keys :: "'s \<Rightarrow> link_key_map \<Rightarrow> bool" and cap :: "'s \<Rightarrow> nat"
    and ok_key :: "buffer \<Rightarrow> buffer \<Rightarrow> link_key_type \<Rightarrow> bool"
  assumes bounded: "keys s M \<Longrightarrow> finite (dom M) \<and> card (dom M) \<le> cap s \<and> 0 < cap s"
    and get_law: "keys s M \<Longrightarrow> length a = 6 \<Longrightarrow> \<exists>s'. get s a = Some (M a, s') \<and> keys s' M \<and> cap s' = cap s"
    and put_law: "keys s M \<Longrightarrow> ok_key a k t \<Longrightarrow>
      \<exists>s' V. put s a k t = Some s' \<and> keys s' ((M |` (- V))(a \<mapsto> (k, t))) \<and> cap s' = cap s
        \<and> V \<subseteq> dom M - {a} \<and> card V \<le> 1 \<and> (a \<in> dom M \<or> card (dom M) < cap s \<longrightarrow> V = {})"
    and delete_law: "keys s M \<Longrightarrow> length a = 6 \<Longrightarrow>
      \<exists>s'. delete s a = Some s' \<and> keys s' (M(a := None)) \<and> cap s' = cap s"
begin

lemma put_get:
  assumes "keys s M" and "ok_key a k t" and "length a = 6"
  shows "\<exists>s' s''. put s a k t = Some s' \<and> get s' a = Some (Some (k, t), s'')"
  using put_law [OF assms(1,2)] get_law [OF _ assms(3)] by fastforce

lemma delete_get:
  assumes "keys s M" and "length a = 6"
  shows "\<exists>s' s''. delete s a = Some s' \<and> get s' a = Some (None, s'')"
  using delete_law [OF assms] get_law [OF _ assms(2)] by fastforce

end

section \<open>The database in memory\<close>

record link_key_entry =
  e_bd_addr :: buffer
  e_link_key :: buffer
  e_link_key_type :: link_key_type

record link_key_memory =
  nodes :: store
  entries :: "addr \<rightharpoonup> link_key_entry"
  db_mem_link_keys :: addr
  link_key_pool :: addr

definition btstack_memory_btstack_link_key_db_memory_entry_get :: "link_key_memory \<Rightarrow> (addr \<times> link_key_memory) option" where
  "btstack_memory_btstack_link_key_db_memory_entry_get s = do {
     got \<leftarrow> btstack_memory_pool_get (nodes s) (link_key_pool s);
     Some (fst got, s\<lparr> nodes := snd got \<rparr>) }"

definition btstack_memory_btstack_link_key_db_memory_entry_free :: "link_key_memory \<Rightarrow> addr \<Rightarrow> link_key_memory option" where
  "btstack_memory_btstack_link_key_db_memory_entry_free s item = do {
     h \<leftarrow> btstack_memory_pool_free (nodes s) (link_key_pool s) item;
     Some (s\<lparr> nodes := h \<rparr>) }"

partial_function (option) get_item_from :: "link_key_memory \<Rightarrow> addr \<Rightarrow> buffer \<Rightarrow> addr option" where
  "get_item_from s it bd_addr =
     (if it = NULL then Some NULL
      else do {
        item \<leftarrow> entries s it;
        r \<leftarrow> bd_addr_cmp (e_bd_addr item) bd_addr;
        if r = 0 then Some it
        else do { n \<leftarrow> nodes s it; get_item_from s n bd_addr } })"

text \<open>\<open>get_item\<close> is passed the value of the list head.\<close>

definition get_item :: "link_key_memory \<Rightarrow> buffer \<Rightarrow> addr option" where
  "get_item s bd_addr = do { first \<leftarrow> nodes s (db_mem_link_keys s); get_item_from s first bd_addr }"

definition get_link_key :: "link_key_memory \<Rightarrow> buffer \<Rightarrow> ((buffer \<times> link_key_type) option \<times> link_key_memory) option" where
  "get_link_key s bd_addr = do {
     item \<leftarrow> get_item s bd_addr;
     if item = NULL then Some (None, s)
     else do {
       e \<leftarrow> entries s item;
       key \<leftarrow> rd_range (e_link_key e) 0 LINK_KEY_LEN;
       removed \<leftarrow> btstack_linked_list_remove (nodes s) (db_mem_link_keys s) item;
       h \<leftarrow> btstack_linked_list_add (snd removed) (db_mem_link_keys s) item;
       Some (Some (key, e_link_key_type e), s\<lparr> nodes := h \<rparr>) } }"

definition delete_link_key :: "link_key_memory \<Rightarrow> buffer \<Rightarrow> link_key_memory option" where
  "delete_link_key s bd_addr = do {
     item \<leftarrow> get_item s bd_addr;
     if item = NULL then Some s
     else do {
       removed \<leftarrow> btstack_linked_list_remove (nodes s) (db_mem_link_keys s) item;
       btstack_memory_btstack_link_key_db_memory_entry_free (s\<lparr> nodes := snd removed \<rparr>) item } }"

definition put_link_key :: "link_key_memory \<Rightarrow> buffer \<Rightarrow> buffer \<Rightarrow> link_key_type \<Rightarrow> link_key_memory option" where
  "put_link_key s bd_addr link_key link_key_type = do {
     record \<leftarrow> get_item s bd_addr;
     s \<leftarrow> (if record \<noteq> NULL then do {
              removed \<leftarrow> btstack_linked_list_remove (nodes s) (db_mem_link_keys s) record;
              Some (s\<lparr> nodes := snd removed \<rparr>) } else Some s);
     (record, s) \<leftarrow> (if record = NULL then btstack_memory_btstack_link_key_db_memory_entry_get s else Some (record, s));
     (record, s) \<leftarrow> (if record = NULL then do {
              last_item \<leftarrow> btstack_linked_list_get_last_item (nodes s) (db_mem_link_keys s);
              if last_item \<noteq> NULL then do {
                removed \<leftarrow> btstack_linked_list_remove (nodes s) (db_mem_link_keys s) last_item;
                Some (last_item, s\<lparr> nodes := snd removed \<rparr>) }
              else Some (last_item, s) } else Some (record, s));
     if record = NULL then Some s
     else do {
       bd_addr \<leftarrow> rd_range bd_addr 0 BD_ADDR_LEN;
       link_key \<leftarrow> rd_range link_key 0 LINK_KEY_LEN;
       h \<leftarrow> btstack_linked_list_add (nodes s) (db_mem_link_keys s) record;
       Some (s\<lparr> entries := (entries s)(record \<mapsto>
                 \<lparr> e_bd_addr = bd_addr, e_link_key = link_key, e_link_key_type = link_key_type \<rparr>),
               nodes := h \<rparr>) } }"

text \<open>The iterator's context is the next item to deliver.\<close>

definition link_key_iterator_init :: "link_key_memory \<Rightarrow> addr option" where
  "link_key_iterator_init s = nodes s (db_mem_link_keys s)"

definition link_key_iterator_get_next ::
    "link_key_memory \<Rightarrow> addr \<Rightarrow> ((buffer \<times> buffer \<times> link_key_type) option \<times> addr) option" where
  "link_key_iterator_get_next s item =
     (if item = NULL then Some (None, item)
      else do {
        e \<leftarrow> entries s item;
        bd_addr \<leftarrow> rd_range (e_bd_addr e) 0 6;
        link_key \<leftarrow> rd_range (e_link_key e) 0 16;
        n \<leftarrow> nodes s item;
        Some (Some (bd_addr, link_key, e_link_key_type e), n) })"

section \<open>Least recently used order\<close>

type_synonym link_key_record = "buffer \<times> buffer \<times> link_key_type"

text \<open>The abstract database: the records by last use, most recent first.\<close>

definition lru_drop :: "buffer \<Rightarrow> link_key_record list \<Rightarrow> link_key_record list" where
  "lru_drop a = filter (\<lambda>r. fst r \<noteq> a)"

definition lru_touch :: "buffer \<Rightarrow> link_key_record list \<Rightarrow> link_key_record list" where
  "lru_touch a L = (case map_of L a of None \<Rightarrow> L | Some v \<Rightarrow> (a, v) # lru_drop a L)"

definition lru_put :: "nat \<Rightarrow> link_key_record \<Rightarrow> link_key_record list \<Rightarrow> link_key_record list" where
  "lru_put n r L =
     r # (if map_of L (fst r) \<noteq> None then lru_drop (fst r) L else if length L < n then L else butlast L)"

definition lk_addr :: "link_key_memory \<Rightarrow> addr \<Rightarrow> buffer" where
  "lk_addr s x = e_bd_addr (the (entries s x))"

definition lk_record :: "link_key_memory \<Rightarrow> addr \<Rightarrow> link_key_record" where
  "lk_record s x = (e_bd_addr (the (entries s x)), e_link_key (the (entries s x)), e_link_key_type (the (entries s x)))"

definition lk_inv :: "link_key_memory \<Rightarrow> addr list \<Rightarrow> addr list \<Rightarrow> bool" where
  "lk_inv s xs fs \<longleftrightarrow> linked (nodes s) (db_mem_link_keys s) xs \<and> linked (nodes s) (link_key_pool s) fs
     \<and> set (db_mem_link_keys s # xs) \<inter> set (link_key_pool s # fs) = {}
     \<and> (\<forall>x \<in> set xs. \<exists>e. entries s x = Some e \<and> length (e_bd_addr e) = 6 \<and> length (e_link_key e) = 16)
     \<and> distinct (map (lk_addr s) xs)"

definition lk_holds :: "nat \<Rightarrow> link_key_memory \<Rightarrow> link_key_record list \<Rightarrow> bool" where
  "lk_holds n s L \<longleftrightarrow> 0 < n \<and> (\<exists>xs fs. lk_inv s xs fs \<and> length xs + length fs = n \<and> L = map (lk_record s) xs)"

text \<open>The search finds the record of an address.\<close>

lemma bd_addr_cmp_eq:
  assumes "length a = 6" and "length b = 6"
  shows "\<exists>r. bd_addr_cmp a b = Some r \<and> (r = 0 \<longleftrightarrow> a = b)"
  using memcmp_n_zero_iff [of 6 a b] assms by (auto simp: bd_addr_cmp_def BD_ADDR_LEN_def)

lemma get_item_from_eq:
  assumes "chain (nodes s) p xs" and "nodes s p = Some it" and "length a = 6"
    and "\<forall>x \<in> set xs. \<exists>e. entries s x = Some e \<and> length (e_bd_addr e) = 6"
  shows "get_item_from s it a = Some (case List.find (\<lambda>x. lk_addr s x = a) xs of None \<Rightarrow> NULL | Some x \<Rightarrow> x)"
  using assms
proof (induction xs arbitrary: p it)
  case (Cons x xs)
  have x: "it = x" "x \<noteq> NULL" "chain (nodes s) x xs" using Cons.prems(1,2) by auto
  obtain e where e: "entries s x = Some e" "length (e_bd_addr e) = 6" using Cons.prems(4) by auto
  obtain r where r: "bd_addr_cmp (e_bd_addr e) a = Some r" "r = 0 \<longleftrightarrow> e_bd_addr e = a"
    using bd_addr_cmp_eq [OF e(2) Cons.prems(3)] by blast
  obtain n where n: "nodes s x = Some n" using x(3) by (auto dest: chain_first)
  have "get_item_from s n a = Some (case List.find (\<lambda>x. lk_addr s x = a) xs of None \<Rightarrow> NULL | Some x \<Rightarrow> x)"
    using Cons.IH [OF x(3) n Cons.prems(3)] Cons.prems(4) by simp
  then show ?case using x(1,2) e(1) r n by (subst get_item_from.simps) (simp add: lk_addr_def)
qed (simp add: get_item_from.simps)

lemma get_item_eq:
  assumes "lk_inv s xs fs" and "length a = 6"
  shows "get_item s a = Some (case List.find (\<lambda>x. lk_addr s x = a) xs of None \<Rightarrow> NULL | Some x \<Rightarrow> x)"
proof -
  have c: "chain (nodes s) (db_mem_link_keys s) xs" using assms(1) by (simp add: lk_inv_def linked_def)
  obtain p where p: "nodes s (db_mem_link_keys s) = Some p" using chain_first [OF c] by blast
  show ?thesis
    using get_item_from_eq [OF c p assms(2)] assms(1) p by (fastforce simp: get_item_def lk_inv_def)
qed

lemma get_item_cases:
  assumes "lk_inv s xs fs" and "length a = 6"
  obtains (absent) "get_item s a = Some NULL" and "a \<notin> lk_addr s ` set xs"
  | (present) x where "get_item s a = Some x" and "x \<noteq> NULL" and "x \<in> set xs" and "lk_addr s x = a"
proof (cases "List.find (\<lambda>x. lk_addr s x = a) xs")
  case None
  then have "a \<notin> lk_addr s ` set xs" by (auto simp: find_None_iff)
  then show ?thesis using absent get_item_eq [OF assms] None by simp
next
  case (Some x)
  then have x: "x \<in> set xs" "lk_addr s x = a" by (auto simp: find_Some_iff)
  have "linked (nodes s) (db_mem_link_keys s) xs" using assms(1) by (simp add: lk_inv_def)
  from linked_item [OF this x(1)] show ?thesis using present x Some get_item_eq [OF assms] by simp
qed

text \<open>Records by address.\<close>

lemma fst_lk_record: "fst (lk_record s x) = lk_addr s x"
  by (simp add: lk_record_def lk_addr_def)

lemma map_of_records:
  assumes "distinct (map (lk_addr s) xs)" and "x \<in> set xs"
  shows "map_of (map (lk_record s) xs) (lk_addr s x) = Some (snd (lk_record s x))"
proof (rule map_of_is_SomeI)
  have "map fst (map (lk_record s) xs) = map (lk_addr s) xs" by (simp add: fst_lk_record)
  then show "distinct (map fst (map (lk_record s) xs))" using assms(1) by (simp only:)
  have "(lk_addr s x, snd (lk_record s x)) = lk_record s x" by (simp add: prod_eq_iff fst_lk_record)
  then show "(lk_addr s x, snd (lk_record s x)) \<in> set (map (lk_record s) xs)" using assms(2) by simp
qed

lemma map_of_records_none:
  "a \<notin> lk_addr s ` set xs \<Longrightarrow> map_of (map (lk_record s) xs) a = None"
  by (auto simp: map_of_eq_None_iff lk_record_def lk_addr_def image_iff)

lemma records_remove:
  assumes "distinct (map (lk_addr s) xs)" and "x \<in> set xs"
  shows "map (lk_record s) (remove1 x xs) = lru_drop (lk_addr s x) (map (lk_record s) xs)"
  using assms
proof (induction xs)
  case (Cons y xs)
  show ?case
  proof (cases "y = x")
    case True
    then have "lk_addr s x \<notin> lk_addr s ` set xs" using Cons.prems(1) by simp
    then have "lru_drop (lk_addr s x) (map (lk_record s) xs) = map (lk_record s) xs"
      unfolding lru_drop_def by (intro filter_True) (simp add: fst_lk_record, metis imageI)
    then show ?thesis using True by (simp add: lru_drop_def fst_lk_record)
  next
    case False
    then have "x \<in> set xs" "lk_addr s y \<noteq> lk_addr s x" using Cons.prems by auto
    then show ?thesis using Cons False by (simp add: lru_drop_def fst_lk_record)
  qed
qed simp

text \<open>Taking a record out of the list, and putting a block at its front.\<close>

lemma lk_remove:
  assumes inv: "lk_inv s xs fs" and x: "x \<in> set xs"
  shows "\<exists>h. btstack_linked_list_remove (nodes s) (db_mem_link_keys s) x = Some (0, h)
     \<and> lk_inv (s\<lparr> nodes := h \<rparr>) (remove1 x xs) fs \<and> x \<in> dom h"
proof -
  have l: "linked (nodes s) (db_mem_link_keys s) xs" "linked (nodes s) (link_key_pool s) fs"
    "set (db_mem_link_keys s # xs) \<inter> set (link_key_pool s # fs) = {}" using inv by (simp_all add: lk_inv_def)
  have ne: "x \<noteq> db_mem_link_keys s" "x \<in> dom (nodes s)" using linked_item [OF l(1) x] by auto
  obtain h where h: "btstack_linked_list_remove (nodes s) (db_mem_link_keys s) x = Some (0, h)"
    "linked h (db_mem_link_keys s) (remove1 x xs)" "same_except (insert (db_mem_link_keys s) (set xs)) (nodes s) h"
    using list_remove_refines [OF l(1) ne(1)] x by auto
  have "linked h (link_key_pool s) fs" using linked_frame [OF l(2) h(3)] l(3) by auto
  moreover have "set (remove1 x xs) \<subseteq> set xs" by (rule set_remove1_subset)
  moreover have "lk_addr (s\<lparr> nodes := h \<rparr>) = lk_addr s" by (simp add: lk_addr_def fun_eq_iff)
  ultimately have "lk_inv (s\<lparr> nodes := h \<rparr>) (remove1 x xs) fs"
    using inv h(2) by (auto simp: lk_inv_def distinct_map dest: inj_on_subset)
  moreover have "x \<in> dom h" using h(3) ne(2) by (simp add: same_except_def)
  ultimately show ?thesis using h(1) by blast
qed

lemma lk_add:
  assumes inv: "lk_inv s xs fs" and x: "x \<in> dom (nodes s)" "x \<noteq> NULL" "x \<noteq> db_mem_link_keys s" "x \<noteq> link_key_pool s"
    "x \<notin> set xs" "x \<notin> set fs"
    and e: "length (e_bd_addr e) = 6" "length (e_link_key e) = 16" "e_bd_addr e \<notin> lk_addr s ` set xs"
  shows "\<exists>h. btstack_linked_list_add (nodes s) (db_mem_link_keys s) x = Some h
     \<and> lk_inv (s\<lparr> entries := (entries s)(x \<mapsto> e), nodes := h \<rparr>) (x # xs) fs
     \<and> map (lk_record (s\<lparr> entries := (entries s)(x \<mapsto> e), nodes := h \<rparr>)) (x # xs) =
         (e_bd_addr e, e_link_key e, e_link_key_type e) # map (lk_record s) xs"
proof -
  have l: "linked (nodes s) (db_mem_link_keys s) xs" "linked (nodes s) (link_key_pool s) fs"
    "set (db_mem_link_keys s # xs) \<inter> set (link_key_pool s # fs) = {}" using inv by (simp_all add: lk_inv_def)
  obtain h where h: "btstack_linked_list_add (nodes s) (db_mem_link_keys s) x = Some h"
    "linked h (db_mem_link_keys s) (x # xs)" "same_except {db_mem_link_keys s, x} (nodes s) h"
    using list_add_refines [OF l(1) x(1-3)] x(5) by auto
  let ?s = "s\<lparr> entries := (entries s)(x \<mapsto> e), nodes := h \<rparr>"
  have fr: "linked h (link_key_pool s) fs" using linked_frame [OF l(2) h(3)] l(3) x(4,6) by auto
  have addr: "lk_addr ?s y = lk_addr s y" "lk_record ?s y = lk_record s y" if "y \<in> set xs" for y
    using that x(5) by (auto simp: lk_addr_def lk_record_def)
  have "lk_addr ?s ` set xs = lk_addr s ` set xs" by (rule image_cong) (use addr in auto)
  moreover have "distinct (map (lk_addr ?s) xs)"
  proof -
    have "map (lk_addr ?s) xs = map (lk_addr s) xs" using addr by simp
    moreover have "distinct (map (lk_addr s) xs)" using inv by (simp add: lk_inv_def)
    ultimately show ?thesis by (simp only:)
  qed
  moreover have "lk_addr ?s x = e_bd_addr e" by (simp add: lk_addr_def)
  ultimately have d: "distinct (map (lk_addr ?s) (x # xs))" using e(3) by simp
  have ent: "\<forall>y \<in> set (x # xs). \<exists>e. entries ?s y = Some e \<and> length (e_bd_addr e) = 6 \<and> length (e_link_key e) = 16"
    using inv e(1,2) by (simp add: lk_inv_def)
  have dj: "set (db_mem_link_keys s # x # xs) \<inter> set (link_key_pool s # fs) = {}" using l(3) x(4,6) by auto
  have "lk_inv ?s (x # xs) fs" unfolding lk_inv_def using h(2) fr dj ent d by simp
  moreover have "map (lk_record ?s) (x # xs) = (e_bd_addr e, e_link_key e, e_link_key_type e) # map (lk_record s) xs"
  proof -
    have "map (lk_record ?s) xs = map (lk_record s) xs" by (rule map_cong [OF refl addr(2)])
    moreover have "lk_record ?s x = (e_bd_addr e, e_link_key e, e_link_key_type e)" by (simp add: lk_record_def)
    ultimately show ?thesis by (simp only: list.map)
  qed
  ultimately show ?thesis using h(1) by - (rule exI [of _ h], intro conjI)
qed

section \<open>The operations follow the abstract database\<close>

lemma lk_nodes_only [simp]:
  "lk_addr (s\<lparr> nodes := h \<rparr>) = lk_addr s" "lk_record (s\<lparr> nodes := h \<rparr>) = lk_record s"
  by (simp_all add: fun_eq_iff lk_addr_def lk_record_def)

lemma lk_inv_linked:
  assumes "lk_inv s xs fs"
  shows "linked (nodes s) (db_mem_link_keys s) xs" and "linked (nodes s) (link_key_pool s) fs"
    and "set (db_mem_link_keys s # xs) \<inter> set (link_key_pool s # fs) = {}" and "distinct (map (lk_addr s) xs)"
  using assms by (simp_all add: lk_inv_def)

lemma lk_removed:
  assumes inv: "lk_inv s xs fs" and x: "x \<in> set xs"
  shows "x \<notin> set (remove1 x xs)" and "x \<notin> set fs" and "x \<noteq> db_mem_link_keys s" and "x \<noteq> link_key_pool s"
    and "x \<noteq> NULL" and "lk_addr s x \<notin> lk_addr s ` set (remove1 x xs)" and "length (remove1 x xs) + 1 = length xs"
proof -
  note l = lk_inv_linked [OF inv]
  have d: "distinct xs" using l(1) by (simp add: linked_def)
  show "x \<notin> set (remove1 x xs)" using d by simp
  show "x \<notin> set fs" "x \<noteq> link_key_pool s" using l(3) x by auto
  show "x \<noteq> db_mem_link_keys s" "x \<noteq> NULL" using linked_item [OF l(1) x] by auto
  show "lk_addr s x \<notin> lk_addr s ` set (remove1 x xs)"
    using l(4) d x by (auto simp: distinct_map inj_on_def)
  show "length (remove1 x xs) + 1 = length xs"
    using x length_pos_if_in_set [OF x] by (simp add: length_remove1)
qed

lemma get_link_key_eq:
  assumes inv: "lk_inv s xs fs" and a: "length a = 6"
  shows "\<exists>s' xs'. get_link_key s a = Some (map_of (map (lk_record s) xs) a, s') \<and> lk_inv s' xs' fs
     \<and> length xs' = length xs \<and> map (lk_record s') xs' = lru_touch a (map (lk_record s) xs)"
  using inv a
proof (cases rule: get_item_cases)
  case absent
  then show ?thesis using inv map_of_records_none [OF absent(2)]
    by (intro exI [of _ s] exI [of _ xs]) (simp add: get_link_key_def lru_touch_def)
next
  case (present x)
  note r = lk_removed [OF inv present(3)] and d = lk_inv_linked(4) [OF inv]
  obtain h where h: "btstack_linked_list_remove (nodes s) (db_mem_link_keys s) x = Some (0, h)"
    "lk_inv (s\<lparr> nodes := h \<rparr>) (remove1 x xs) fs" "x \<in> dom h"
    using lk_remove [OF inv present(3)] by blast
  obtain e where e: "entries s x = Some e" "length (e_bd_addr e) = 6" "length (e_link_key e) = 16"
    using inv present(3) by (auto simp: lk_inv_def)
  have ea: "e_bd_addr e = lk_addr s x" using e(1) by (simp add: lk_addr_def)
  let ?s = "s\<lparr> nodes := h \<rparr>"
  obtain h' where h': "btstack_linked_list_add h (db_mem_link_keys s) x = Some h'"
    "lk_inv (?s\<lparr> entries := (entries ?s)(x \<mapsto> e), nodes := h' \<rparr>) (x # remove1 x xs) fs"
    "map (lk_record (?s\<lparr> entries := (entries ?s)(x \<mapsto> e), nodes := h' \<rparr>)) (x # remove1 x xs) =
       (e_bd_addr e, e_link_key e, e_link_key_type e) # map (lk_record ?s) (remove1 x xs)"
    using lk_add [OF h(2), of x e] h(3) r e(2,3) ea by auto
  have same: "?s\<lparr> entries := (entries ?s)(x \<mapsto> e), nodes := h' \<rparr> = s\<lparr> nodes := h' \<rparr>"
    using e(1) by (cases s) (simp add: fun_upd_idem)
  have rec: "lk_record s x = (a, e_link_key e, e_link_key_type e)" using e(1) present(4) by (simp add: lk_record_def lk_addr_def)
  have m: "map_of (map (lk_record s) xs) a = Some (e_link_key e, e_link_key_type e)"
    using map_of_records [OF d present(3)] present(4) rec by simp
  have "get_link_key s a = Some (Some (e_link_key e, e_link_key_type e), s\<lparr> nodes := h' \<rparr>)"
    using present(1,2) e h(1) h'(1) by (simp add: get_link_key_def rd_range_def LINK_KEY_LEN_def)
  moreover have "map (lk_record (s\<lparr> nodes := h' \<rparr>)) (x # remove1 x xs) = lru_touch a (map (lk_record s) xs)"
    using h'(3) records_remove [OF d present(3)] present(4) m ea unfolding same by (simp add: lru_touch_def)
  ultimately show ?thesis using h'(2) r(7) m unfolding same
    by (intro exI [of _ "s\<lparr> nodes := h' \<rparr>"] exI [of _ "x # remove1 x xs"]) simp
qed

lemma delete_link_key_eq:
  assumes inv: "lk_inv s xs fs" and a: "length a = 6"
  shows "\<exists>s' xs' fs'. delete_link_key s a = Some s' \<and> lk_inv s' xs' fs'
     \<and> length xs' + length fs' = length xs + length fs \<and> map (lk_record s') xs' = lru_drop a (map (lk_record s) xs)"
  using inv a
proof (cases rule: get_item_cases)
  case absent
  have "lru_drop a (map (lk_record s) xs) = map (lk_record s) xs"
    unfolding lru_drop_def using absent(2) by (intro filter_True) (auto simp: fst_lk_record)
  then show ?thesis using absent(1) inv
    by (intro exI [of _ s] exI [of _ xs] exI [of _ fs]) (simp add: delete_link_key_def)
next
  case (present x)
  note r = lk_removed [OF inv present(3)] and d = lk_inv_linked(4) [OF inv]
  obtain h where h: "btstack_linked_list_remove (nodes s) (db_mem_link_keys s) x = Some (0, h)"
    "lk_inv (s\<lparr> nodes := h \<rparr>) (remove1 x xs) fs" "x \<in> dom h"
    using lk_remove [OF inv present(3)] by blast
  have l: "linked h (db_mem_link_keys s) (remove1 x xs)" "linked h (link_key_pool s) fs"
    "set (db_mem_link_keys s # remove1 x xs) \<inter> set (link_key_pool s # fs) = {}"
    using lk_inv_linked [OF h(2)] by simp_all
  obtain h' where h': "btstack_linked_list_add h (link_key_pool s) x = Some h'"
    "linked h' (link_key_pool s) (x # fs)" "same_except {link_key_pool s, x} h h'"
    using list_add_refines [OF l(2) h(3) r(5) r(4)] r(2) by auto
  have fr: "linked h' (db_mem_link_keys s) (remove1 x xs)"
    using linked_frame [OF l(1) h'(3)] l(3) r(1,3) by auto
  let ?s = "s\<lparr> nodes := h' \<rparr>"
  have dj: "set (db_mem_link_keys s # remove1 x xs) \<inter> set (link_key_pool s # x # fs) = {}"
    using l(3) r(1,3) by auto
  have "lk_inv ?s (remove1 x xs) (x # fs)"
    using h(2) fr h'(2) dj by (simp add: lk_inv_def)
  moreover have "delete_link_key s a = Some ?s"
    using present(1,2) h(1) h'(1) pool_free_is_add [OF l(2)]
    by (simp add: delete_link_key_def btstack_memory_btstack_link_key_db_memory_entry_free_def)
  ultimately show ?thesis
    using r(7) records_remove [OF d present(3)] present(4)
    by (intro exI [of _ ?s] exI [of _ "remove1 x xs"] exI [of _ "x # fs"]) simp
qed

lemma put_finish:
  assumes inv: "lk_inv s xs fs" and x: "x \<in> dom (nodes s)" "x \<noteq> NULL" "x \<noteq> db_mem_link_keys s" "x \<noteq> link_key_pool s"
    "x \<notin> set xs" "x \<notin> set fs"
    and a: "length a = 6" "length k = 16" "a \<notin> lk_addr s ` set xs"
  shows "\<exists>s'. do {
       bd_addr \<leftarrow> rd_range a 0 BD_ADDR_LEN;
       link_key \<leftarrow> rd_range k 0 LINK_KEY_LEN;
       h \<leftarrow> btstack_linked_list_add (nodes s) (db_mem_link_keys s) x;
       Some (s\<lparr> entries := (entries s)(x \<mapsto>
                 \<lparr> e_bd_addr = bd_addr, e_link_key = link_key, e_link_key_type = t \<rparr>), nodes := h \<rparr>) } = Some s'
     \<and> lk_inv s' (x # xs) fs \<and> map (lk_record s') (x # xs) = (a, k, t) # map (lk_record s) xs"
  using lk_add [OF inv x, of "\<lparr> e_bd_addr = a, e_link_key = k, e_link_key_type = t \<rparr>"] a
  by (auto simp: rd_range_def BD_ADDR_LEN_def LINK_KEY_LEN_def)

lemma put_link_key_eq:
  assumes inv: "lk_inv s xs fs" and n: "length xs + length fs = n" "0 < n"
    and a: "length a = 6" "length k = 16"
  shows "\<exists>s' xs' fs'. put_link_key s a k t = Some s' \<and> lk_inv s' xs' fs' \<and> length xs' + length fs' = n
     \<and> map (lk_record s') xs' = lru_put n (a, k, t) (map (lk_record s) xs)"
  using inv a(1)
proof (cases rule: get_item_cases)
  case (present x)
  note r = lk_removed [OF inv present(3)] and d = lk_inv_linked(4) [OF inv]
  obtain h where h: "btstack_linked_list_remove (nodes s) (db_mem_link_keys s) x = Some (0, h)"
    "lk_inv (s\<lparr> nodes := h \<rparr>) (remove1 x xs) fs" "x \<in> dom h"
    using lk_remove [OF inv present(3)] by blast
  obtain s' where s': "do {
       bd_addr \<leftarrow> rd_range a 0 BD_ADDR_LEN;
       link_key \<leftarrow> rd_range k 0 LINK_KEY_LEN;
       h \<leftarrow> btstack_linked_list_add h (db_mem_link_keys s) x;
       Some (s\<lparr> entries := (entries s)(x \<mapsto>
           \<lparr> e_bd_addr = bd_addr, e_link_key = link_key, e_link_key_type = t \<rparr>), nodes := h \<rparr>) } = Some s'"
     "lk_inv s' (x # remove1 x xs) fs" "map (lk_record s') (x # remove1 x xs) = (a, k, t) # map (lk_record s) (remove1 x xs)"
    using put_finish [OF h(2), of x a k t] h(3) r a present(4) by auto
  have "put_link_key s a k t = Some s'"
    using present(1,2) h(1) s'(1) by (simp add: put_link_key_def)
  then show ?thesis
    using s'(2,3) r(7) n records_remove [OF d present(3)] present(4) map_of_records [OF d present(3)]
    by (intro exI [of _ s'] exI [of _ "x # remove1 x xs"] exI [of _ fs]) (simp add: lru_put_def)
next
  case absent
  note l = lk_inv_linked [OF inv]
  have none: "map_of (map (lk_record s) xs) a = None" by (rule map_of_records_none [OF absent(2)])
  have pool: "btstack_memory_pool_get (nodes s) (link_key_pool s) = btstack_linked_list_pop (nodes s) (link_key_pool s)"
    by (rule pool_get_is_pop)
  obtain h where h: "btstack_linked_list_pop (nodes s) (link_key_pool s) = Some (case fs of [] \<Rightarrow> NULL | x # _ \<Rightarrow> x, h)"
    "linked h (link_key_pool s) (tl fs)" "same_except {link_key_pool s} (nodes s) h"
    using list_pop_refines [OF l(2)] by blast
  have fr: "linked h (db_mem_link_keys s) xs" using linked_frame [OF l(1) h(3)] l(3) by auto
  have dj: "set (db_mem_link_keys s # xs) \<inter> set (link_key_pool s # tl fs) = {}"
    using l(3) by (cases fs) auto
  have inv1: "lk_inv (s\<lparr> nodes := h \<rparr>) xs (tl fs)" using inv fr h(2) dj by (simp add: lk_inv_def)
  let ?s1 = "s\<lparr> nodes := h \<rparr>"
  show ?thesis
  proof (cases fs)
    case (Cons x gs)
    have x: "x \<in> dom h" "x \<noteq> NULL" "x \<noteq> db_mem_link_keys s" "x \<noteq> link_key_pool s" "x \<notin> set xs" "x \<notin> set gs"
      using linked_item [OF l(2), of x] l(2,3) Cons h(3) by (auto simp: linked_def same_except_def)
    obtain s' where s': "do {
         bd_addr \<leftarrow> rd_range a 0 BD_ADDR_LEN;
         link_key \<leftarrow> rd_range k 0 LINK_KEY_LEN;
         h \<leftarrow> btstack_linked_list_add h (db_mem_link_keys s) x;
         Some (s\<lparr> entries := (entries s)(x \<mapsto>
           \<lparr> e_bd_addr = bd_addr, e_link_key = link_key, e_link_key_type = t \<rparr>), nodes := h \<rparr>) } = Some s'"
       "lk_inv s' (x # xs) gs" "map (lk_record s') (x # xs) = (a, k, t) # map (lk_record s) xs"
      using put_finish [OF inv1, of x a k t] x a absent(2) Cons by auto
    have "put_link_key s a k t = Some s'"
      using absent(1) h(1) pool Cons x(2) s'(1)
      by (simp add: put_link_key_def btstack_memory_btstack_link_key_db_memory_entry_get_def)
    then show ?thesis using s'(2,3) n Cons none
      by (intro exI [of _ s'] exI [of _ "x # xs"] exI [of _ gs]) (simp add: lru_put_def)
  next
    case Nil
    have xs: "xs \<noteq> []" using n Nil by auto
    let ?x = "last xs"
    have mem: "?x \<in> set xs" using xs by simp
    note r = lk_removed [OF inv1 mem, simplified]
    have last: "btstack_linked_list_get_last_item h (db_mem_link_keys s) = Some ?x"
      using list_queries(3) [OF fr] xs by simp
    obtain h2 where h2: "btstack_linked_list_remove h (db_mem_link_keys s) ?x = Some (0, h2)"
      "lk_inv (s\<lparr> nodes := h2 \<rparr>) (remove1 ?x xs) []" "?x \<in> dom h2"
      using lk_remove [OF inv1 mem] Nil by auto
    have dx: "distinct xs" using l(1) by (simp add: linked_def)
    have bl: "remove1 ?x xs = butlast xs"
    proof -
      have sp: "xs = butlast xs @ [?x]" using xs by simp
      have "?x \<notin> set (butlast xs)" using dx by (subst (asm) sp) simp
      then show ?thesis by (subst sp) (simp add: remove1_append)
    qed
    have nin: "a \<notin> lk_addr s ` set (remove1 ?x xs)" using absent(2) set_remove1_subset [of ?x xs] by auto
    obtain s' where s': "do {
         bd_addr \<leftarrow> rd_range a 0 BD_ADDR_LEN;
         link_key \<leftarrow> rd_range k 0 LINK_KEY_LEN;
         h \<leftarrow> btstack_linked_list_add h2 (db_mem_link_keys s) ?x;
         Some (s\<lparr> entries := (entries s)(?x \<mapsto>
           \<lparr> e_bd_addr = bd_addr, e_link_key = link_key, e_link_key_type = t \<rparr>), nodes := h \<rparr>) } = Some s'"
       "lk_inv s' (?x # remove1 ?x xs) []"
       "map (lk_record s') (?x # remove1 ?x xs) = (a, k, t) # map (lk_record s) (remove1 ?x xs)"
      using put_finish [OF h2(2), of ?x a k t] h2(3) r a nin Nil by auto
    have "put_link_key s a k t = Some s'"
      using absent(1) h(1) pool Nil r(5) last h2(1) s'(1)
      by (simp add: put_link_key_def btstack_memory_btstack_link_key_db_memory_entry_get_def)
    then show ?thesis using s'(2,3) n Nil none r(7) bl
      by (intro exI [of _ s'] exI [of _ "?x # remove1 ?x xs"] exI [of _ "[]"])
         (simp add: lru_put_def map_butlast)
  qed
qed


lemma lk_holds_distinct: "lk_holds n s L \<Longrightarrow> distinct (map fst L) \<and> length L \<le> n \<and> 0 < n"
proof -
  assume "lk_holds n s L"
  then obtain xs fs where "lk_inv s xs fs" "length xs + length fs = n" "L = map (lk_record s) xs" "0 < n"
    by (auto simp: lk_holds_def)
  moreover have "map fst (map (lk_record s) xs) = map (lk_addr s) xs" by (simp add: fst_lk_record)
  ultimately show ?thesis using lk_inv_linked(4) [of s xs fs] by (simp del: map_map)
qed

lemma lk_holds_get:
  assumes "lk_holds n s L" and "length a = 6"
  shows "\<exists>s'. get_link_key s a = Some (map_of L a, s') \<and> lk_holds n s' (lru_touch a L)"
proof -
  obtain xs fs where x: "lk_inv s xs fs" "length xs + length fs = n" "L = map (lk_record s) xs" "0 < n"
    using assms(1) by (auto simp: lk_holds_def)
  obtain s' xs' where "get_link_key s a = Some (map_of L a, s')" "lk_inv s' xs' fs" "length xs' = length xs"
    "map (lk_record s') xs' = lru_touch a L"
    using get_link_key_eq [OF x(1) assms(2)] x(3) by blast
  then show ?thesis using x(2,4) unfolding lk_holds_def by (metis (no_types))
qed

lemma lk_holds_delete:
  assumes "lk_holds n s L" and "length a = 6"
  shows "\<exists>s'. delete_link_key s a = Some s' \<and> lk_holds n s' (lru_drop a L)"
proof -
  obtain xs fs where x: "lk_inv s xs fs" "length xs + length fs = n" "L = map (lk_record s) xs" "0 < n"
    using assms(1) by (auto simp: lk_holds_def)
  obtain s' xs' fs' where "delete_link_key s a = Some s'" "lk_inv s' xs' fs'"
    "length xs' + length fs' = length xs + length fs" "map (lk_record s') xs' = lru_drop a L"
    using delete_link_key_eq [OF x(1) assms(2)] x(3) by blast
  then show ?thesis using x(2,4) unfolding lk_holds_def by (metis (no_types))
qed

lemma lk_holds_put:
  assumes "lk_holds n s L" and "length a = 6" and "length k = 16"
  shows "\<exists>s'. put_link_key s a k t = Some s' \<and> lk_holds n s' (lru_put n (a, k, t) L)"
proof -
  obtain xs fs where x: "lk_inv s xs fs" "length xs + length fs = n" "L = map (lk_record s) xs" "0 < n"
    using assms(1) by (auto simp: lk_holds_def)
  obtain s' xs' fs' where "put_link_key s a k t = Some s'" "lk_inv s' xs' fs'" "length xs' + length fs' = n"
    "map (lk_record s') xs' = lru_put n (a, k, t) L"
    using put_link_key_eq [OF x(1,2,4) assms(2,3)] x(3) by blast
  then show ?thesis using x(4) unfolding lk_holds_def by (metis (no_types))
qed

section \<open>The memory database satisfies the contract\<close>

lemma map_of_lru_drop: "map_of (lru_drop a L) = (map_of L)(a := None)"
  by (induction L) (auto simp: lru_drop_def fun_eq_iff)

lemma map_of_lru_touch: "map_of (lru_touch a L) = map_of L"
  by (auto simp: lru_touch_def map_of_lru_drop fun_eq_iff split: option.splits)

lemma map_of_butlast:
  assumes "distinct (map fst L)" and "L \<noteq> []"
  shows "map_of (butlast L) = (map_of L) |` (- {fst (last L)})"
proof -
  have L: "L = butlast L @ [last L]" using assms(2) by simp
  have "fst (last L) \<notin> fst ` set (butlast L)"
    using assms(1) by (subst (asm) L) (simp only: map_append distinct_append list.map list.set set_map, blast)
  then have n: "map_of (butlast L) (fst (last L)) = None" by (simp add: map_of_eq_None_iff)
  have "map_of L = map_of [last L] ++ map_of (butlast L)" by (subst L) (rule map_of_append)
  then show ?thesis using n by (cases "last L") (auto simp: fun_eq_iff restrict_map_def map_add_def split: option.splits)
qed

definition lk_keys :: "nat \<Rightarrow> link_key_memory \<Rightarrow> link_key_map \<Rightarrow> bool" where
  "lk_keys n s M \<longleftrightarrow> (\<exists>L. lk_holds n s L \<and> M = map_of L)"

definition lk_ok_key :: "buffer \<Rightarrow> buffer \<Rightarrow> link_key_type \<Rightarrow> bool" where
  "lk_ok_key a k t \<longleftrightarrow> length a = 6 \<and> length k = 16"

lemma card_dom_map_of: "distinct (map fst L) \<Longrightarrow> card (dom (map_of L)) = length L"
  by (simp add: dom_map_of_conv_image_fst distinct_card flip: set_map)

interpretation lkm: link_key_db get_link_key put_link_key delete_link_key "lk_keys n" "\<lambda>_. n" lk_ok_key for n
proof
  fix s M assume "lk_keys n s M"
  then obtain L where L: "lk_holds n s L" "M = map_of L" by (auto simp: lk_keys_def)
  note d = lk_holds_distinct [OF L(1)]
  show "finite (dom M) \<and> card (dom M) \<le> n \<and> 0 < n"
    using d card_dom_map_of [of L] by (simp add: L(2) finite_dom_map_of)
  show "\<exists>s'. get_link_key s a = Some (M a, s') \<and> lk_keys n s' M \<and> n = n" if "length a = 6" for a
    using lk_holds_get [OF L(1) that] map_of_lru_touch [of a L] unfolding lk_keys_def L(2) by metis
  show "\<exists>s'. delete_link_key s a = Some s' \<and> lk_keys n s' (M(a := None)) \<and> n = n" if "length a = 6" for a
    using lk_holds_delete [OF L(1) that] map_of_lru_drop [of a L] unfolding lk_keys_def L(2) by metis
  fix a k t assume "lk_ok_key a k t"
  then obtain s' where s': "put_link_key s a k t = Some s'" "lk_holds n s' (lru_put n (a, k, t) L)"
    using lk_holds_put [OF L(1), of a k t] by (auto simp: lk_ok_key_def)
  let ?V = "if a \<in> dom M \<or> length L < n then {} else {fst (last L)}"
  have "map_of (lru_put n (a, k, t) L) = (M |` (- ?V))(a \<mapsto> (k, t))"
  proof (cases "a \<in> dom M \<or> length L < n")
    case True
    then show ?thesis by (auto simp: lru_put_def map_of_lru_drop L(2) fun_eq_iff)
  next
    case False
    then have "L \<noteq> []" using d by auto
    then show ?thesis using False map_of_butlast [of L] d by (auto simp: lru_put_def L(2) fun_eq_iff)
  qed
  then have "lk_keys n s' ((M |` (- ?V))(a \<mapsto> (k, t)))" using s'(2) unfolding lk_keys_def by metis
  moreover have "?V \<subseteq> dom M - {a}"
  proof (cases "a \<in> dom M \<or> length L < n")
    case False
    then have "L \<noteq> []" using d by auto
    then have "fst (last L) \<in> dom M" by (simp add: L(2) dom_map_of_conv_image_fst)
    then show ?thesis using False by auto
  qed simp
  ultimately show "\<exists>s' V. put_link_key s a k t = Some s' \<and> lk_keys n s' ((M |` (- V))(a \<mapsto> (k, t))) \<and> n = n
        \<and> V \<subseteq> dom M - {a} \<and> card V \<le> 1 \<and> (a \<in> dom M \<or> card (dom M) < n \<longrightarrow> V = {})"
    using s'(1) d card_dom_map_of [of L] L(2)
    by (intro exI [of _ s'] exI [of _ ?V]) auto
qed

section \<open>Any use of the database\<close>

datatype link_key_op = GetKey buffer | PutKey buffer buffer link_key_type | DeleteKey buffer

primrec link_key_op_ok :: "link_key_op \<Rightarrow> bool" where
  "link_key_op_ok (GetKey a) = (length a = 6)"
| "link_key_op_ok (PutKey a k t) = (length a = 6 \<and> length k = 16)"
| "link_key_op_ok (DeleteKey a) = (length a = 6)"

text \<open>Answers of the successive \<open>get_link_key\<close> calls.\<close>

fun link_key_run :: "link_key_memory \<Rightarrow> link_key_op list \<Rightarrow> (buffer \<times> link_key_type) option list option" where
  "link_key_run s [] = Some []"
| "link_key_run s (GetKey a # ops) = do {
     got \<leftarrow> get_link_key s a; rest \<leftarrow> link_key_run (snd got) ops; Some (fst got # rest) }"
| "link_key_run s (PutKey a k t # ops) = do { s \<leftarrow> put_link_key s a k t; link_key_run s ops }"
| "link_key_run s (DeleteKey a # ops) = do { s \<leftarrow> delete_link_key s a; link_key_run s ops }"

fun lru_run :: "nat \<Rightarrow> link_key_record list \<Rightarrow> link_key_op list \<Rightarrow> (buffer \<times> link_key_type) option list" where
  "lru_run n L [] = []"
| "lru_run n L (GetKey a # ops) = map_of L a # lru_run n (lru_touch a L) ops"
| "lru_run n L (PutKey a k t # ops) = lru_run n (lru_put n (a, k, t) L) ops"
| "lru_run n L (DeleteKey a # ops) = lru_run n (lru_drop a L) ops"

lemma link_key_run_eq:
  assumes "lk_holds n s L" and "list_all link_key_op_ok ops"
  shows "link_key_run s ops = Some (lru_run n L ops)"
  using assms
proof (induction ops arbitrary: s L)
  case (Cons op ops)
  show ?case
  proof (cases op)
    case (GetKey a)
    then show ?thesis using lk_holds_get [OF Cons.prems(1), of a] Cons.IH Cons.prems(2) by auto
  next
    case (PutKey a k t)
    then show ?thesis using lk_holds_put [OF Cons.prems(1), of a k t] Cons.IH Cons.prems(2) by auto
  next
    case (DeleteKey a)
    then show ?thesis using lk_holds_delete [OF Cons.prems(1), of a] Cons.IH Cons.prems(2) by auto
  qed
qed simp

text \<open>The database as \<open>btstack_memory_init\<close> leaves it: an empty list, all records in the pool.\<close>

definition link_key_memory_fresh :: "store \<Rightarrow> addr \<Rightarrow> addr \<Rightarrow> addr \<Rightarrow> nat \<Rightarrow> nat \<Rightarrow> link_key_memory option" where
  "link_key_memory_fresh h list pool storage count block_size = do {
     h \<leftarrow> set_next h list NULL;
     h \<leftarrow> btstack_memory_pool_create h pool storage count block_size;
     Some \<lparr> nodes = h, entries = Map.empty, db_mem_link_keys = list, link_key_pool = pool \<rparr> }"

text \<open>C24: The link key database in memory is a least recently used cache.  From the state after start up
  with \<open>count > 0\<close> records, any sequence of gets, puts and deletes runs without touching foreign memory,
  and its gets answer exactly as on a list of at most \<open>count\<close> records in the order of last use, from which
  a put of a new address into a full database drops the record used longest ago.\<close>

theorem link_key_memory_lru:
  assumes "{list, pool} \<union> set (storage_blocks storage count block_size) \<subseteq> dom h"
    and "NULL \<notin> {list, pool} \<union> set (storage_blocks storage count block_size)"
    and "list \<noteq> pool" and "{list, pool} \<inter> set (storage_blocks storage count block_size) = {}"
    and "0 < block_size" and "0 < count" and "list_all link_key_op_ok ops"
  shows "do { s \<leftarrow> link_key_memory_fresh h list pool storage count block_size; link_key_run s ops } =
           Some (lru_run count [] ops)"
proof -
  let ?B = "storage_blocks storage count block_size" and ?h = "h(list \<mapsto> NULL)"
  obtain h' where h': "btstack_memory_pool_create ?h pool storage count block_size = Some h'"
    "pool_inv (pool, set ?B, h') (rev ?B)"
    using pool_create_eq [of pool ?h block_size storage count] assms by auto
  have "h' list = Some NULL" using pool_create_frame [OF h'(1), of list] assms(3,4) by auto
  let ?s = "\<lparr> nodes = h', entries = Map.empty, db_mem_link_keys = list, link_key_pool = pool \<rparr>"
  have "lk_inv ?s [] (rev ?B)"
    using h'(2) \<open>h' list = Some NULL\<close> assms(2-4) by (auto simp: lk_inv_def linked_def)
  then have "lk_holds count ?s []"
    using assms(6) by (auto simp: lk_holds_def storage_blocks_def)
  moreover have "link_key_memory_fresh h list pool storage count block_size = Some ?s"
    using assms(1) h'(1) by (auto simp: link_key_memory_fresh_def set_next_def)
  ultimately show ?thesis using link_key_run_eq assms(7) by simp
qed

theorem link_key_memory_lru_witness:
  "do { s \<leftarrow> link_key_memory_fresh (\<lambda>a. Some 0) 1 2 100 2 40;
        link_key_run s [PutKey [1, 0, 0, 0, 0, 0] (replicate 16 7) COMBINATION_KEY,
          PutKey [2, 0, 0, 0, 0, 0] (replicate 16 8) COMBINATION_KEY, GetKey [1, 0, 0, 0, 0, 0],
          PutKey [3, 0, 0, 0, 0, 0] (replicate 16 9) COMBINATION_KEY, GetKey [2, 0, 0, 0, 0, 0]] } =
     Some (lru_run 2 [] [PutKey [1, 0, 0, 0, 0, 0] (replicate 16 7) COMBINATION_KEY,
          PutKey [2, 0, 0, 0, 0, 0] (replicate 16 8) COMBINATION_KEY, GetKey [1, 0, 0, 0, 0, 0],
          PutKey [3, 0, 0, 0, 0, 0] (replicate 16 9) COMBINATION_KEY, GetKey [2, 0, 0, 0, 0, 0]])"
  by (rule link_key_memory_lru) (auto simp: storage_blocks_def NULL_def)


end
