(* ===== verification/Le_Device_Db.thy ===== *)
theory Le_Device_Db
  imports BT_Prelude
begin

text \<open>
  Model of \<open>ble/le_device_db_memory.c\<close> (with \<open>ENABLE_LE_SIGNED_WRITE\<close>): the bonded LE devices in a static array.
  The array is a list whose length is \<open>MAX_NR_LE_DEVICE_DB_ENTRIES\<close>; an access outside of it is
  \<^const>\<open>None\<close>.  Output parameters are \<^const>\<open>None\<close> where the caller passes a null pointer.
\<close>

record le_device =
  addr_type :: int
  addr :: buffer
  irk :: buffer
  ltk :: buffer
  ediv :: u16
  rand :: buffer
  key_size :: u8
  authenticated :: u8
  authorized :: u8
  remote_csrk :: buffer
  remote_counter :: u32
  local_csrk :: buffer
  local_counter :: u32

type_synonym le_db = "le_device list"

definition INVALID_ENTRY_ADDR_TYPE :: int where "INVALID_ENTRY_ADDR_TYPE = 0xff"

definition le_at :: "le_db \<Rightarrow> int \<Rightarrow> le_device option" where
  "le_at db index = (if 0 \<le> index then rd db (nat index) else None)"

definition le_put :: "le_db \<Rightarrow> int \<Rightarrow> le_device \<Rightarrow> le_db option" where
  "le_put db index d = (if 0 \<le> index then wr db (nat index) d else None)"

section \<open>Slots\<close>

definition le_device_db_remove :: "le_db \<Rightarrow> int \<Rightarrow> le_db option" where
  "le_device_db_remove db index = do {
     d \<leftarrow> le_at db index;
     le_put db index (d\<lparr> addr_type := INVALID_ENTRY_ADDR_TYPE \<rparr>) }"

text \<open>The rounds \<open>0 .. n - 1\<close> of the loop.\<close>

primrec le_device_db_init_rounds :: "le_db \<Rightarrow> nat \<Rightarrow> le_db option" where
  "le_device_db_init_rounds db 0 = Some db"
| "le_device_db_init_rounds db (Suc i) = do {
     db \<leftarrow> le_device_db_init_rounds db i; le_device_db_remove db (int i) }"

definition le_device_db_init :: "le_db \<Rightarrow> le_db option" where
  "le_device_db_init db = le_device_db_init_rounds db (length db)"

fun le_device_db_count :: "le_db \<Rightarrow> int" where
  "le_device_db_count [] = 0"
| "le_device_db_count (d # db) =
     (if addr_type d \<noteq> INVALID_ENTRY_ADDR_TYPE then 1 else 0) + le_device_db_count db"

definition le_device_db_max_count :: "le_db \<Rightarrow> int" where
  "le_device_db_max_count db = int (length db)"

text \<open>The search of the first free slot, from slot \<open>i\<close> on.\<close>

fun le_free_from :: "le_db \<Rightarrow> int \<Rightarrow> int" where
  "le_free_from [] i = -1"
| "le_free_from (d # db) i = (if addr_type d = INVALID_ENTRY_ADDR_TYPE then i else le_free_from db (i + 1))"

definition le_device_db_add :: "le_db \<Rightarrow> int \<Rightarrow> buffer \<Rightarrow> buffer \<Rightarrow> (int \<times> le_db) option" where
  "le_device_db_add db addr_type' addr' irk' = do {
     let index = le_free_from db 0;
     if index < 0 then Some (-1, db)
     else do {
       d \<leftarrow> le_at db index;
       a \<leftarrow> rd_range addr' 0 6;
       k \<leftarrow> rd_range irk' 0 16;
       db \<leftarrow> le_put db index (d\<lparr> addr_type := addr_type', addr := a, irk := k, remote_counter := 0 \<rparr>);
       Some (index, db) } }"

section \<open>Identity\<close>

definition le_device_db_info :: "le_db \<Rightarrow> int \<Rightarrow> bool \<Rightarrow> bool \<Rightarrow> bool \<Rightarrow>
    (int option \<times> buffer option \<times> buffer option) option" where
  "le_device_db_info db index want_type want_addr want_irk = do {
     d \<leftarrow> le_at db index;
     Some (if want_type then Some (addr_type d) else None,
           if want_addr then Some (addr d) else None,
           if want_irk then Some (irk d) else None) }"

section \<open>Encryption keys\<close>

definition le_device_db_encryption_set ::
    "le_db \<Rightarrow> int \<Rightarrow> u16 \<Rightarrow> buffer option \<Rightarrow> buffer option \<Rightarrow> int \<Rightarrow> int \<Rightarrow> int \<Rightarrow> le_db option" where
  "le_device_db_encryption_set db index ediv' rand' ltk' key_size' authenticated' authorized' = do {
     d \<leftarrow> le_at db index;
     r \<leftarrow> (case rand' of None \<Rightarrow> Some (rand d) | Some r \<Rightarrow> rd_range r 0 8);
     l \<leftarrow> (case ltk' of None \<Rightarrow> Some (ltk d) | Some l \<Rightarrow> rd_range l 0 16);
     le_put db index (d\<lparr> ediv := ediv', rand := r, ltk := l, key_size := word_of_int key_size',
       authenticated := word_of_int authenticated', authorized := word_of_int authorized' \<rparr>) }"

text \<open>All outputs; a null pointer only drops the one it stands for.\<close>

definition le_device_db_encryption_get ::
    "le_db \<Rightarrow> int \<Rightarrow> (u16 \<times> buffer \<times> buffer \<times> int \<times> int \<times> int) option" where
  "le_device_db_encryption_get db index = do {
     d \<leftarrow> le_at db index;
     Some (ediv d, rand d, ltk d, uint (key_size d), uint (authenticated d), uint (authorized d)) }"

section \<open>Signed writes\<close>

definition le_device_db_remote_csrk_get :: "le_db \<Rightarrow> int \<Rightarrow> buffer \<Rightarrow> buffer option" where
  "le_device_db_remote_csrk_get db index csrk =
     (if index < 0 \<or> index \<ge> int (length db) then Some csrk
      else do { d \<leftarrow> le_at db index; wr_range csrk 0 (remote_csrk d) })"

definition le_device_db_remote_csrk_set :: "le_db \<Rightarrow> int \<Rightarrow> buffer option \<Rightarrow> le_db option" where
  "le_device_db_remote_csrk_set db index csrk =
     (if index < 0 \<or> index \<ge> int (length db) then Some db
      else case csrk of None \<Rightarrow> Some db
        | Some k \<Rightarrow> do { d \<leftarrow> le_at db index; k \<leftarrow> rd_range k 0 16; le_put db index (d\<lparr> remote_csrk := k \<rparr>) })"

definition le_device_db_local_csrk_get :: "le_db \<Rightarrow> int \<Rightarrow> buffer \<Rightarrow> buffer option" where
  "le_device_db_local_csrk_get db index csrk =
     (if index < 0 \<or> index \<ge> int (length db) then Some csrk
      else do { d \<leftarrow> le_at db index; wr_range csrk 0 (local_csrk d) })"

definition le_device_db_local_csrk_set :: "le_db \<Rightarrow> int \<Rightarrow> buffer option \<Rightarrow> le_db option" where
  "le_device_db_local_csrk_set db index csrk =
     (if index < 0 \<or> index \<ge> int (length db) then Some db
      else case csrk of None \<Rightarrow> Some db
        | Some k \<Rightarrow> do { d \<leftarrow> le_at db index; k \<leftarrow> rd_range k 0 16; le_put db index (d\<lparr> local_csrk := k \<rparr>) })"

definition le_device_db_remote_counter_get :: "le_db \<Rightarrow> int \<Rightarrow> u32 option" where
  "le_device_db_remote_counter_get db index = do { d \<leftarrow> le_at db index; Some (remote_counter d) }"

definition le_device_db_remote_counter_set :: "le_db \<Rightarrow> int \<Rightarrow> u32 \<Rightarrow> le_db option" where
  "le_device_db_remote_counter_set db index counter = do {
     d \<leftarrow> le_at db index; le_put db index (d\<lparr> remote_counter := counter \<rparr>) }"

definition le_device_db_local_counter_get :: "le_db \<Rightarrow> int \<Rightarrow> u32 option" where
  "le_device_db_local_counter_get db index = do { d \<leftarrow> le_at db index; Some (local_counter d) }"

definition le_device_db_local_counter_set :: "le_db \<Rightarrow> int \<Rightarrow> u32 \<Rightarrow> le_db option" where
  "le_device_db_local_counter_set db index counter = do {
     d \<leftarrow> le_at db index; le_put db index (d\<lparr> local_counter := counter \<rparr>) }"

section \<open>Slot management\<close>

definition le_used :: "le_device \<Rightarrow> bool" where "le_used d \<longleftrightarrow> addr_type d \<noteq> INVALID_ENTRY_ADDR_TYPE"

lemma le_at_iff: "le_at db i = Some d \<longleftrightarrow> 0 \<le> i \<and> nat i < length db \<and> db ! nat i = d"
  by (auto simp: le_at_def rd_eq_Some_iff)

lemma le_put_iff: "le_put db i d = Some db' \<longleftrightarrow> 0 \<le> i \<and> nat i < length db \<and> db' = db[nat i := d]"
  by (auto simp: le_put_def wr_eq_Some_iff)

lemma le_count_eq: "le_device_db_count db = int (length (filter le_used db))"
  by (induction db) (auto simp: le_used_def)

lemma le_free_from_cases:
  assumes "0 \<le> i"
  shows "(le_free_from db i = -1 \<and> list_all le_used db) \<or>
         (\<exists>k < length db. le_free_from db i = i + int k \<and> \<not> le_used (db ! k) \<and> (\<forall>j < k. le_used (db ! j)))"
  using assms
proof (induction db arbitrary: i)
  case (Cons d db)
  show ?case
  proof (cases "le_used d")
    case True
    from Cons.IH [of "i + 1"] Cons.prems have "(le_free_from db (i + 1) = -1 \<and> list_all le_used db) \<or>
         (\<exists>k < length db. le_free_from db (i + 1) = i + 1 + int k \<and> \<not> le_used (db ! k) \<and> (\<forall>j < k. le_used (db ! j)))"
      by simp
    then show ?thesis
    proof
      assume "\<exists>k < length db. le_free_from db (i + 1) = i + 1 + int k \<and> \<not> le_used (db ! k) \<and> (\<forall>j < k. le_used (db ! j))"
      then obtain k where k: "k < length db" "le_free_from db (i + 1) = i + 1 + int k" "\<not> le_used (db ! k)"
        "\<forall>j < k. le_used (db ! j)" by blast
      then have "\<forall>j < Suc k. le_used ((d # db) ! j)" using True by (auto simp: less_Suc_eq_0_disj)
      then show ?thesis using k True by (intro disjI2 exI [of _ "Suc k"]) (simp add: le_used_def)
    next
      assume "le_free_from db (i + 1) = - 1 \<and> list_all le_used db"
      then show ?thesis using True by (intro disjI1) (simp add: le_used_def [of d])
    qed
  next
    case False
    then show ?thesis by (intro disjI2 exI [of _ 0]) (simp add: le_used_def)
  qed
qed simp

lemma count_update_free:
  "k < length db \<Longrightarrow> \<not> le_used (db ! k) \<Longrightarrow> le_used d \<Longrightarrow>
     length (filter le_used (db[k := d])) = length (filter le_used db) + 1"
proof (induction db arbitrary: k)
  case (Cons e db)
  then show ?case by (cases k) auto
qed simp

text \<open>C25: Adding a device.  \<open>le_device_db_add\<close> answers \<open>-1\<close> exactly when every slot is in use; otherwise it takes
  the first free slot: the count goes up by one, \<open>le_device_db_info\<close> reports the new identity there (six bytes of address,
  16 of identity resolving key, and an address type that is not the mark of a free slot), the remote signing counter starts
  at zero, and no other slot changes.  The local signing counter, which the header also promises to be 0 then, is left
  as the slot had it.\<close>

theorem le_device_db_add_spec:
  assumes "length a = 6" and "length k = 16" and "t \<noteq> INVALID_ENTRY_ADDR_TYPE"
  shows "\<exists>index db'. le_device_db_add db t a k = Some (index, db')
     \<and> (if le_device_db_count db = le_device_db_max_count db then index = -1 \<and> db' = db
        else 0 \<le> index \<and> index < le_device_db_max_count db
          \<and> (\<forall>j < index. le_at db j = None \<or> (\<exists>d. le_at db j = Some d \<and> le_used d))
          \<and> le_device_db_count db' = le_device_db_count db + 1
          \<and> le_device_db_info db' index True True True = Some (Some t, Some a, Some k)
          \<and> le_device_db_remote_counter_get db' index = Some 0
          \<and> le_device_db_local_counter_get db' index = le_device_db_local_counter_get db index
          \<and> (\<forall>j. j \<noteq> index \<longrightarrow> le_at db' j = le_at db j))"
  using le_free_from_cases [of 0 db, simplified]
proof
  assume full: "le_free_from db 0 = - 1 \<and> list_all le_used db"
  then have "filter le_used db = db" by (simp add: filter_id_conv list_all_iff)
  then show ?thesis using full
    by (simp add: le_device_db_add_def le_count_eq le_device_db_max_count_def)
next
  assume "\<exists>i < length db. le_free_from db 0 = int i \<and> \<not> le_used (db ! i) \<and> (\<forall>j < i. le_used (db ! j))"
  then obtain i where i: "i < length db" "le_free_from db 0 = int i" "\<not> le_used (db ! i)"
    "\<forall>j < i. le_used (db ! j)" by blast
  let ?d = "(db ! i)\<lparr> addr_type := t, addr := a, irk := k, remote_counter := 0 \<rparr>"
  have add: "le_device_db_add db t a k = Some (int i, db[i := ?d])"
    using i assms(1,2) by (simp add: le_device_db_add_def le_at_def le_put_def rd_def wr_def rd_range_def)
  have "\<not> list_all le_used db" using i(1,3) by (auto simp: list_all_length)
  then have "length (filter le_used db) \<noteq> length db"
    by (metis filter_id_conv length_filter_less less_irrefl list_all_iff)
  moreover have "le_used ?d" using assms(3) by (simp add: le_used_def)
  ultimately show ?thesis
    using add i count_update_free [OF i(1,3), of ?d]
    by (intro exI [of _ "int i"] exI [of _ "db[i := ?d]"])
       (auto simp: le_count_eq le_device_db_max_count_def le_device_db_info_def le_device_db_remote_counter_get_def
          le_device_db_local_counter_get_def le_at_def rd_def nth_list_update)
qed

definition le_example :: le_device where
  "le_example = \<lparr> addr_type = 0xff, addr = replicate 6 0, irk = replicate 16 0, ltk = replicate 16 5, ediv = 9,
     rand = replicate 8 3, key_size = 16, authenticated = 1, authorized = 0, remote_csrk = replicate 16 0,
     remote_counter = 4, local_csrk = replicate 16 0, local_counter = 7 \<rparr>"

theorem le_device_db_add_spec_witness:
  "\<exists>index db'. le_device_db_add [le_example, le_example] 0 [1, 2, 3, 4, 5, 6] (replicate 16 0) = Some (index, db')
     \<and> (if le_device_db_count [le_example, le_example] = le_device_db_max_count [le_example, le_example]
        then index = -1 \<and> db' = [le_example, le_example]
        else 0 \<le> index \<and> index < le_device_db_max_count [le_example, le_example]
          \<and> (\<forall>j < index. le_at [le_example, le_example] j = None
               \<or> (\<exists>d. le_at [le_example, le_example] j = Some d \<and> le_used d))
          \<and> le_device_db_count db' = le_device_db_count [le_example, le_example] + 1
          \<and> le_device_db_info db' index True True True = Some (Some 0, Some [1, 2, 3, 4, 5, 6], Some (replicate 16 0))
          \<and> le_device_db_remote_counter_get db' index = Some 0
          \<and> le_device_db_local_counter_get db' index = le_device_db_local_counter_get [le_example, le_example] index
          \<and> (\<forall>j. j \<noteq> index \<longrightarrow> le_at db' j = le_at [le_example, le_example] j))"
  by (rule le_device_db_add_spec) (simp_all add: INVALID_ENTRY_ADDR_TYPE_def)

text \<open>A reused slot keeps the previous device's keys.  \<open>le_device_db_remove\<close> only marks the slot free and
  \<open>le_device_db_add\<close> writes only the identity, so until \<open>le_device_db_encryption_set\<close> is called for the new device,
  \<open>le_device_db_encryption_get\<close> returns the long term key, key size and security flags of the device that
  was deleted.\<close>

theorem le_device_db_add_keeps_old_keys:
  assumes "le_at db 0 = Some old" and "length a = 6" and "length k = 16"
  shows "do { db \<leftarrow> le_device_db_remove db 0;
              (index, db) \<leftarrow> le_device_db_add db t a k;
              le_device_db_encryption_get db index } = le_device_db_encryption_get db 0"
proof -
  obtain ds where db: "db = old # ds" using assms(1) by (cases db) (auto simp: le_at_def rd_def)
  show ?thesis
    using assms(2,3)
    by (simp add: db le_device_db_remove_def le_device_db_add_def le_device_db_encryption_get_def le_at_def le_put_def
        rd_def wr_def rd_range_def)
qed

theorem le_device_db_add_keeps_old_keys_witness:
  "do { db \<leftarrow> le_device_db_remove [le_example] 0;
        (index, db) \<leftarrow> le_device_db_add db 1 [6, 5, 4, 3, 2, 1] (replicate 16 2);
        le_device_db_encryption_get db index } = le_device_db_encryption_get [le_example] 0"
  by (rule le_device_db_add_keeps_old_keys) (simp_all add: le_at_def rd_def)

end
