(* ===== verification/Gsm_Model.thy ===== *)
theory Gsm_Model
  imports BT_Prelude
begin

text \<open>
  Model of \<open>classic/hfp_gsm_model.c\<close>: the table of at most three calls an HFP audio gateway keeps, and the
  event handler that drives it.  The handler is one \<open>switch\<close>; each of its cases is a definition of its own,
  composed by \<open>hfp_gsm_handler\<close>.  Every access to \<open>gsm_calls[i]\<close> is checked, because several cases use an
  index that is -1 when no such call exists: such an access is \<^const>\<open>None\<close>.
\<close>

section \<open>Data\<close>

datatype call_status = HFP_CALL_STATUS_NO_HELD_OR_ACTIVE_CALLS | HFP_CALL_STATUS_ACTIVE_OR_HELD_CALL_IS_PRESENT

datatype callsetup_status_t = HFP_CALLSETUP_STATUS_NO_CALL_SETUP_IN_PROGRESS
  | HFP_CALLSETUP_STATUS_INCOMING_CALL_SETUP_IN_PROGRESS
  | HFP_CALLSETUP_STATUS_OUTGOING_CALL_SETUP_IN_DIALING_STATE
  | HFP_CALLSETUP_STATUS_OUTGOING_CALL_SETUP_IN_ALERTING_STATE

datatype callheld_status = HFP_CALLHELD_STATUS_NO_CALLS_HELD | HFP_CALLHELD_STATUS_CALL_ON_HOLD_OR_SWAPPED
  | HFP_CALLHELD_STATUS_CALL_ON_HOLD_AND_NO_ACTIVE_CALLS

datatype call_event = HFP_AG_INCOMING_CALL | HFP_AG_INCOMING_CALL_ACCEPTED_BY_AG | HFP_AG_INCOMING_CALL_ACCEPTED_BY_HF
  | HFP_AG_AUDIO_CONNECTION_ESTABLISHED | HFP_AG_OUTGOING_CALL_INITIATED | HFP_AG_OUTGOING_CALL_REJECTED
  | HFP_AG_OUTGOING_CALL_ACCEPTED | HFP_AG_OUTGOING_CALL_RINGING | HFP_AG_OUTGOING_CALL_ESTABLISHED
  | HFP_AG_OUTGOING_REDIAL_INITIATED | HFP_AG_HELD_CALL_JOINED_BY_AG | HFP_AG_TERMINATE_CALL_BY_AG
  | HFP_AG_TERMINATE_CALL_BY_HF | HFP_AG_CALL_DROPPED
  | HFP_AG_RESPONSE_AND_HOLD_ACCEPT_INCOMING_CALL_BY_AG | HFP_AG_RESPONSE_AND_HOLD_ACCEPT_HELD_CALL_BY_AG
  | HFP_AG_RESPONSE_AND_HOLD_REJECT_HELD_CALL_BY_AG | HFP_AG_RESPONSE_AND_HOLD_ACCEPT_INCOMING_CALL_BY_HF
  | HFP_AG_RESPONSE_AND_HOLD_ACCEPT_HELD_CALL_BY_HF | HFP_AG_RESPONSE_AND_HOLD_REJECT_HELD_CALL_BY_HF
  | HFP_AG_CALL_HOLD_USER_BUSY | HFP_AG_CALL_HOLD_RELEASE_ACTIVE_ACCEPT_HELD_OR_WAITING_CALL
  | HFP_AG_CALL_HOLD_PARK_ACTIVE_ACCEPT_HELD_OR_WAITING_CALL | HFP_AG_CALL_HOLD_ADD_HELD_CALL
  | HFP_AG_CALL_HOLD_EXIT_AND_JOIN_CALLS | HFP_AG_SET_CLIP

datatype call_dir = HFP_ENHANCED_CALL_DIR_OUTGOING | HFP_ENHANCED_CALL_DIR_INCOMING

datatype enhanced_call_status = HFP_ENHANCED_CALL_STATUS_ACTIVE | HFP_ENHANCED_CALL_STATUS_HELD
  | HFP_ENHANCED_CALL_STATUS_OUTGOING_DIALING | HFP_ENHANCED_CALL_STATUS_OUTGOING_ALERTING
  | HFP_ENHANCED_CALL_STATUS_INCOMING | HFP_ENHANCED_CALL_STATUS_INCOMING_WAITING
  | HFP_ENHANCED_CALL_STATUS_CALL_HELD_BY_RESPONSE_AND_HOLD

datatype call_mpty = HFP_ENHANCED_CALL_MPTY_NOT_A_CONFERENCE_CALL | HFP_ENHANCED_CALL_MPTY_CONFERENCE_CALL

definition HFP_GSM_MAX_NR_CALLS :: int where "HFP_GSM_MAX_NR_CALLS = 3"
definition HFP_GSM_MAX_CALL_NUMBER_SIZE :: nat where "HFP_GSM_MAX_CALL_NUMBER_SIZE = 25"

record gsm_call =
  used_slot :: bool
  enhanced_status :: enhanced_call_status
  direction :: call_dir
  mpty :: call_mpty
  call_index :: int
  call_clip_type :: u8
  call_clip_number :: string

record gsm =
  gsm_calls :: "gsm_call list"
  callsetup_status :: callsetup_status_t
  clip_type :: u8
  clip_number :: string
  last_dialed_number :: string

section \<open>C strings\<close>

fun c_strlen :: "string \<Rightarrow> nat option" where
  "c_strlen [] = None"
| "c_strlen (c # cs) = (if c = CHR 0x00 then Some 0 else map_option Suc (c_strlen cs))"

fun c_prefix :: "nat \<Rightarrow> string \<Rightarrow> string option" where
  "c_prefix 0 cs = Some []"
| "c_prefix (Suc n) [] = None"
| "c_prefix (Suc n) (c # cs) = (if c = CHR 0x00 then Some [] else map_option ((#) c) (c_prefix n cs))"

text \<open>\<open>strncpy\<close> pads with zeros up to \<open>n\<close> characters and appends none behind them.\<close>

definition c_strncpy :: "string \<Rightarrow> string \<Rightarrow> nat \<Rightarrow> string option" where
  "c_strncpy dest src n = do {
     s \<leftarrow> c_prefix n src;
     wr_range dest 0 (s @ replicate (n - length s) CHR 0x00) }"

section \<open>Access to the table\<close>

definition call_at :: "gsm \<Rightarrow> int \<Rightarrow> gsm_call option" where
  "call_at s i = (if 0 \<le> i then rd (gsm_calls s) (nat i) else None)"

definition call_put :: "gsm \<Rightarrow> int \<Rightarrow> gsm_call \<Rightarrow> gsm option" where
  "call_put s i c = (if 0 \<le> i then map_option (\<lambda>cs. s\<lparr> gsm_calls := cs \<rparr>) (wr (gsm_calls s) (nat i) c) else None)"

definition call_upd :: "gsm \<Rightarrow> int \<Rightarrow> (gsm_call \<Rightarrow> gsm_call) \<Rightarrow> gsm option" where
  "call_upd s i f = do { c \<leftarrow> call_at s i; call_put s i (f c) }"

text \<open>\<open>for (i = 0; i < HFP_GSM_MAX_NR_CALLS; i++)\<close> with a body that changes the state.\<close>

definition for_calls :: "(int \<Rightarrow> gsm \<Rightarrow> gsm option) \<Rightarrow> gsm \<Rightarrow> gsm option" where
  "for_calls body s = do { s \<leftarrow> body 0 s; s \<leftarrow> body 1 s; body 2 s }"

text \<open>The first index whose call satisfies the condition, or -1.\<close>

definition first_call :: "gsm \<Rightarrow> (gsm_call \<Rightarrow> bool) \<Rightarrow> int" where
  "first_call s P = (case List.find (\<lambda>i. P (gsm_calls s ! i)) [0..<length (gsm_calls s)] of
     None \<Rightarrow> -1 | Some i \<Rightarrow> int i)"

definition count_calls :: "gsm \<Rightarrow> (gsm_call \<Rightarrow> bool) \<Rightarrow> int" where
  "count_calls s P = int (length (filter P (gsm_calls s)))"

section \<open>Status of a call\<close>

definition set_callsetup_status :: "gsm \<Rightarrow> callsetup_status_t \<Rightarrow> gsm" where
  "set_callsetup_status s status =
     (let s = s\<lparr> callsetup_status := status \<rparr>
      in if status \<noteq> HFP_CALLSETUP_STATUS_OUTGOING_CALL_SETUP_IN_ALERTING_STATE then s
         else s\<lparr> gsm_calls := map (\<lambda>c. if direction c = HFP_ENHANCED_CALL_DIR_OUTGOING
                 then c\<lparr> enhanced_status := HFP_ENHANCED_CALL_STATUS_OUTGOING_ALERTING \<rparr> else c) (gsm_calls s) \<rparr>)"

definition set_enhanced_call_status_active :: "gsm \<Rightarrow> int \<Rightarrow> gsm option" where
  "set_enhanced_call_status_active s i =
     call_upd s i (\<lambda>c. c\<lparr> enhanced_status := HFP_ENHANCED_CALL_STATUS_ACTIVE, used_slot := True \<rparr>)"

definition set_enhanced_call_status_held :: "gsm \<Rightarrow> int \<Rightarrow> gsm option" where
  "set_enhanced_call_status_held s i =
     call_upd s i (\<lambda>c. c\<lparr> enhanced_status := HFP_ENHANCED_CALL_STATUS_HELD, used_slot := True \<rparr>)"

definition set_enhanced_call_status_response_hold :: "gsm \<Rightarrow> int \<Rightarrow> gsm option" where
  "set_enhanced_call_status_response_hold s i =
     call_upd s i (\<lambda>c. c\<lparr> enhanced_status := HFP_ENHANCED_CALL_STATUS_CALL_HELD_BY_RESPONSE_AND_HOLD, used_slot := True \<rparr>)"

definition get_enhanced_call_status :: "gsm_call \<Rightarrow> enhanced_call_status option" where
  "get_enhanced_call_status c = (if \<not> used_slot c then None else Some (enhanced_status c))"

definition is_enhanced_call_status_active :: "gsm_call \<Rightarrow> bool" where
  "is_enhanced_call_status_active c = (get_enhanced_call_status c = Some HFP_ENHANCED_CALL_STATUS_ACTIVE)"

definition is_enhanced_call_status_initiated :: "gsm_call \<Rightarrow> bool" where
  "is_enhanced_call_status_initiated c =
     (case get_enhanced_call_status c of
        Some HFP_ENHANCED_CALL_STATUS_OUTGOING_DIALING \<Rightarrow> True
      | Some HFP_ENHANCED_CALL_STATUS_OUTGOING_ALERTING \<Rightarrow> True
      | Some HFP_ENHANCED_CALL_STATUS_INCOMING \<Rightarrow> True
      | Some HFP_ENHANCED_CALL_STATUS_INCOMING_WAITING \<Rightarrow> True
      | _ \<Rightarrow> False)"

definition free_call_slot :: "gsm \<Rightarrow> int \<Rightarrow> gsm option" where
  "free_call_slot s i = call_upd s i (\<lambda>c. c\<lparr> used_slot := False \<rparr>)"

definition blank_call :: gsm_call where
  "blank_call = \<lparr> used_slot = False, enhanced_status = HFP_ENHANCED_CALL_STATUS_ACTIVE,
     direction = HFP_ENHANCED_CALL_DIR_OUTGOING, mpty = HFP_ENHANCED_CALL_MPTY_NOT_A_CONFERENCE_CALL,
     call_index = 0, call_clip_type = 0, call_clip_number = replicate HFP_GSM_MAX_CALL_NUMBER_SIZE CHR 0x00 \<rparr>"

text \<open>\<open>memset(gsm_calls, 0, ..)\<close> makes every call \<^const>\<open>blank_call\<close>, so that freeing the slots changes nothing more.\<close>

definition hfp_gsm_init :: "gsm \<Rightarrow> gsm option" where
  "hfp_gsm_init s = do {
     let s = set_callsetup_status s HFP_CALLSETUP_STATUS_NO_CALL_SETUP_IN_PROGRESS;
     let s = s\<lparr> clip_type := 0, clip_number := replicate HFP_GSM_MAX_CALL_NUMBER_SIZE CHR 0x00,
               last_dialed_number := replicate HFP_GSM_MAX_CALL_NUMBER_SIZE CHR 0x00,
               gsm_calls := replicate 3 blank_call \<rparr>;
     for_calls (\<lambda>i s. free_call_slot s i) s }"

section \<open>Queries\<close>

definition get_number_calls_with_enhanced_status :: "gsm \<Rightarrow> enhanced_call_status \<Rightarrow> int" where
  "get_number_calls_with_enhanced_status s st = count_calls s (\<lambda>c. get_enhanced_call_status c = Some st)"

definition get_call_index_with_enhanced_status :: "gsm \<Rightarrow> enhanced_call_status \<Rightarrow> int" where
  "get_call_index_with_enhanced_status s st = first_call s (\<lambda>c. get_enhanced_call_status c = Some st)"

definition get_initiated_call_index :: "gsm \<Rightarrow> int" where
  "get_initiated_call_index s = first_call s is_enhanced_call_status_initiated"

definition get_next_free_slot :: "gsm \<Rightarrow> int" where
  "get_next_free_slot s = first_call s (\<lambda>c. \<not> used_slot c)"

definition get_active_call_index :: "gsm \<Rightarrow> int" where
  "get_active_call_index s = get_call_index_with_enhanced_status s HFP_ENHANCED_CALL_STATUS_ACTIVE"

definition get_held_call_index :: "gsm \<Rightarrow> int" where
  "get_held_call_index s = get_call_index_with_enhanced_status s HFP_ENHANCED_CALL_STATUS_HELD"

definition get_response_held_call_index :: "gsm \<Rightarrow> int" where
  "get_response_held_call_index s =
     get_call_index_with_enhanced_status s HFP_ENHANCED_CALL_STATUS_CALL_HELD_BY_RESPONSE_AND_HOLD"

definition get_number_none_calls :: "gsm \<Rightarrow> int" where
  "get_number_none_calls s = count_calls s (\<lambda>c. \<not> used_slot c)"

definition get_number_active_calls :: "gsm \<Rightarrow> int" where
  "get_number_active_calls s = get_number_calls_with_enhanced_status s HFP_ENHANCED_CALL_STATUS_ACTIVE"

definition get_number_held_calls :: "gsm \<Rightarrow> int" where
  "get_number_held_calls s = get_number_calls_with_enhanced_status s HFP_ENHANCED_CALL_STATUS_HELD"

definition get_number_response_held_calls :: "gsm \<Rightarrow> int" where
  "get_number_response_held_calls s =
     get_number_calls_with_enhanced_status s HFP_ENHANCED_CALL_STATUS_CALL_HELD_BY_RESPONSE_AND_HOLD"

definition next_call_index :: "gsm \<Rightarrow> int" where
  "next_call_index s = HFP_GSM_MAX_NR_CALLS + 1 - get_number_none_calls s"

definition hfp_gsm_get_number_of_calls :: "gsm \<Rightarrow> int" where
  "hfp_gsm_get_number_of_calls s = HFP_GSM_MAX_NR_CALLS - get_number_none_calls s"

definition hfp_gsm_clear_last_dialed_number :: "gsm \<Rightarrow> gsm" where
  "hfp_gsm_clear_last_dialed_number s = s\<lparr> last_dialed_number := replicate HFP_GSM_MAX_CALL_NUMBER_SIZE CHR 0x00 \<rparr>"

definition hfp_gsm_call :: "gsm \<Rightarrow> int \<Rightarrow> gsm_call option" where
  "hfp_gsm_call s call_index' = List.find (\<lambda>c. call_index c = call_index') (gsm_calls s)"

definition hfp_gsm_call_status :: "gsm \<Rightarrow> call_status" where
  "hfp_gsm_call_status s =
     (if get_number_active_calls s + get_number_held_calls s + get_number_response_held_calls s \<noteq> 0
      then HFP_CALL_STATUS_ACTIVE_OR_HELD_CALL_IS_PRESENT else HFP_CALL_STATUS_NO_HELD_OR_ACTIVE_CALLS)"

definition hfp_gsm_callheld_status :: "gsm \<Rightarrow> callheld_status" where
  "hfp_gsm_callheld_status s =
     (if get_number_held_calls s = 0 then HFP_CALLHELD_STATUS_NO_CALLS_HELD
      else if get_number_active_calls s = 0 then HFP_CALLHELD_STATUS_CALL_ON_HOLD_AND_NO_ACTIVE_CALLS
      else HFP_CALLHELD_STATUS_CALL_ON_HOLD_OR_SWAPPED)"

definition hfp_gsm_callsetup_status :: "gsm \<Rightarrow> callsetup_status_t" where
  "hfp_gsm_callsetup_status s = callsetup_status s"

definition hfp_gsm_response_held_active :: "gsm \<Rightarrow> bool" where
  "hfp_gsm_response_held_active s = (get_response_held_call_index s \<noteq> -1)"

definition hfp_gsm_call_possible :: "gsm \<Rightarrow> bool" where
  "hfp_gsm_call_possible s = (get_number_none_calls s > 0)"

text \<open>The call whose number is shown: the initiated one, else the active one, when it has a clip type.\<close>

definition hfp_gsm_clip_type :: "gsm \<Rightarrow> u8 option" where
  "hfp_gsm_clip_type s =
     (if clip_type s \<noteq> 0 then Some (clip_type s)
      else do {
        let initiated = get_initiated_call_index s;
        t1 \<leftarrow> (if initiated \<noteq> -1 then map_option call_clip_type (call_at s initiated) else Some 0);
        if t1 \<noteq> 0 then Some t1
        else do {
          let active = get_active_call_index s;
          if active \<noteq> -1 then map_option call_clip_type (call_at s active) else Some 0 } })"

definition hfp_gsm_clip_number :: "gsm \<Rightarrow> (string \<times> gsm) option" where
  "hfp_gsm_clip_number s = do {
     len \<leftarrow> c_strlen (clip_number s);
     if len \<noteq> 0 then Some (clip_number s, s)
     else do {
       let initiated = get_initiated_call_index s;
       c1 \<leftarrow> (if initiated \<noteq> -1 then call_at s initiated else Some blank_call);
       if call_clip_type c1 \<noteq> 0 then Some (call_clip_number c1, s)
       else do {
         let active = get_active_call_index s;
         c2 \<leftarrow> (if active \<noteq> -1 then call_at s active else Some blank_call);
         if call_clip_type c2 \<noteq> 0 then Some (call_clip_number c2, s)
         else do {
           empty \<leftarrow> wr (clip_number s) 0 (CHR 0x00);
           Some (empty, s\<lparr> clip_number := empty \<rparr>) } } } }"

section \<open>Creating and deleting calls\<close>

definition set_enhanced_call_status_initiated :: "gsm \<Rightarrow> int \<Rightarrow> gsm option" where
  "set_enhanced_call_status_initiated s i = do {
     c \<leftarrow> call_at s i;
     let st = (if direction c = HFP_ENHANCED_CALL_DIR_OUTGOING then HFP_ENHANCED_CALL_STATUS_OUTGOING_DIALING
               else if get_number_active_calls s > 0 then HFP_ENHANCED_CALL_STATUS_INCOMING_WAITING
               else HFP_ENHANCED_CALL_STATUS_INCOMING);
     call_put s i (c\<lparr> enhanced_status := st, used_slot := True \<rparr>) }"

text \<open>\<open>number\<close> is \<^const>\<open>None\<close> for \<open>NULL\<close>, whose \<open>strlen\<close> is undefined.\<close>

definition hfp_gsm_set_clip :: "gsm \<Rightarrow> int \<Rightarrow> u8 \<Rightarrow> string option \<Rightarrow> gsm option" where
  "hfp_gsm_set_clip s i type number = do {
     number \<leftarrow> number;
     len \<leftarrow> c_strlen number;
     if len = 0 then Some s
     else do {
       s \<leftarrow> call_upd s i (\<lambda>c. c\<lparr> call_clip_type := type \<rparr>);
       let clip_number_size = (if len < HFP_GSM_MAX_CALL_NUMBER_SIZE then len else HFP_GSM_MAX_CALL_NUMBER_SIZE - 1);
       c \<leftarrow> call_at s i;
       b \<leftarrow> c_strncpy (call_clip_number c) number clip_number_size;
       b \<leftarrow> wr b clip_number_size (CHR 0x00);
       s \<leftarrow> call_put s i (c\<lparr> call_clip_number := b \<rparr>);
       d \<leftarrow> c_strncpy (last_dialed_number s) number clip_number_size;
       d \<leftarrow> wr d clip_number_size (CHR 0x00);
       Some (s\<lparr> clip_type := 0, clip_number := replicate HFP_GSM_MAX_CALL_NUMBER_SIZE CHR 0x00,
                last_dialed_number := d \<rparr>) } }"

definition delete_call :: "gsm \<Rightarrow> int \<Rightarrow> gsm option" where
  "delete_call s del = do {
     s \<leftarrow> for_calls (\<lambda>i s. do {
       c \<leftarrow> call_at s i;
       d \<leftarrow> call_at s del;
       if call_index c > call_index d then call_put s i (c\<lparr> call_index := call_index c - 1 \<rparr>) else Some s }) s;
     s \<leftarrow> free_call_slot s del;
     c \<leftarrow> call_at s del;
     nr \<leftarrow> wr (call_clip_number c) 0 (CHR 0x00);
     call_put s del (c\<lparr> mpty := HFP_ENHANCED_CALL_MPTY_NOT_A_CONFERENCE_CALL, call_index := 0,
       call_clip_type := 0, call_clip_number := nr \<rparr>) }"

definition create_call :: "gsm \<Rightarrow> call_dir \<Rightarrow> gsm option" where
  "create_call s dir = do {
     let i = get_next_free_slot s;
     s \<leftarrow> call_upd s i (\<lambda>c. c\<lparr> direction := dir \<rparr>);
     s \<leftarrow> call_upd s i (\<lambda>c. c\<lparr> call_index := next_call_index s \<rparr>);
     s \<leftarrow> set_enhanced_call_status_initiated s i;
     c \<leftarrow> call_at s i;
     nr \<leftarrow> wr (call_clip_number c) 0 (CHR 0x00);
     s \<leftarrow> call_put s i (c\<lparr> mpty := HFP_ENHANCED_CALL_MPTY_NOT_A_CONFERENCE_CALL,
       call_clip_type := 0, call_clip_number := nr \<rparr>);
     hfp_gsm_set_clip s i (clip_type s) (Some (clip_number s)) }"

section \<open>The event handler\<close>

text \<open>One definition per case of the \<open>switch\<close>; the indices are those of the handler's local variables, taken
  before the case runs.\<close>

definition outgoing_call_initiated :: "gsm \<Rightarrow> int \<Rightarrow> gsm option" where
  "outgoing_call_initiated s next_free_slot =
     (if next_free_slot = -1 then Some s else create_call s HFP_ENHANCED_CALL_DIR_OUTGOING)"

definition outgoing_call_rejected :: "gsm \<Rightarrow> int \<Rightarrow> gsm option" where
  "outgoing_call_rejected s current = do {
     s \<leftarrow> (if current \<noteq> -1 then delete_call s current else Some s);
     Some (set_callsetup_status s HFP_CALLSETUP_STATUS_NO_CALL_SETUP_IN_PROGRESS) }"

definition outgoing_call_accepted :: "gsm \<Rightarrow> int \<Rightarrow> gsm option" where
  "outgoing_call_accepted s current = do {
     s \<leftarrow> (if current \<noteq> -1 then set_enhanced_call_status_held s current else Some s);
     Some (set_callsetup_status s HFP_CALLSETUP_STATUS_OUTGOING_CALL_SETUP_IN_DIALING_STATE) }"

definition outgoing_call_ringing :: "gsm \<Rightarrow> int \<Rightarrow> gsm option" where
  "outgoing_call_ringing s current =
     (if current = -1 then Some s
      else Some (set_callsetup_status s HFP_CALLSETUP_STATUS_OUTGOING_CALL_SETUP_IN_ALERTING_STATE))"

definition outgoing_call_established :: "gsm \<Rightarrow> int \<Rightarrow> gsm option" where
  "outgoing_call_established s initiated =
     set_enhanced_call_status_active (set_callsetup_status s HFP_CALLSETUP_STATUS_NO_CALL_SETUP_IN_PROGRESS) initiated"

definition incoming_call :: "gsm \<Rightarrow> gsm option" where
  "incoming_call s =
     (if hfp_gsm_callsetup_status s \<noteq> HFP_CALLSETUP_STATUS_NO_CALL_SETUP_IN_PROGRESS then Some s
      else create_call (set_callsetup_status s HFP_CALLSETUP_STATUS_INCOMING_CALL_SETUP_IN_PROGRESS)
             HFP_ENHANCED_CALL_DIR_INCOMING)"

definition incoming_call_accepted_by_ag :: "gsm \<Rightarrow> int \<Rightarrow> int \<Rightarrow> gsm option" where
  "incoming_call_accepted_by_ag s current initiated =
     (if hfp_gsm_callsetup_status s \<noteq> HFP_CALLSETUP_STATUS_INCOMING_CALL_SETUP_IN_PROGRESS then Some s
      else do {
        let s = set_callsetup_status s HFP_CALLSETUP_STATUS_NO_CALL_SETUP_IN_PROGRESS;
        s \<leftarrow> (if hfp_gsm_call_status s = HFP_CALL_STATUS_ACTIVE_OR_HELD_CALL_IS_PRESENT
              then set_enhanced_call_status_held s current else Some s);
        set_enhanced_call_status_active s initiated })"

definition held_call_joined_by_ag :: "gsm \<Rightarrow> int \<Rightarrow> int \<Rightarrow> gsm option" where
  "held_call_joined_by_ag s initiated held =
     (if hfp_gsm_call_status s \<noteq> HFP_CALL_STATUS_ACTIVE_OR_HELD_CALL_IS_PRESENT then Some s
      else do {
        s \<leftarrow> (if callsetup_status s = HFP_CALLSETUP_STATUS_INCOMING_CALL_SETUP_IN_PROGRESS
              then do {
                s \<leftarrow> set_enhanced_call_status_active s initiated;
                Some (set_callsetup_status s HFP_CALLSETUP_STATUS_NO_CALL_SETUP_IN_PROGRESS) }
              else if hfp_gsm_callheld_status s = HFP_CALLHELD_STATUS_CALL_ON_HOLD_OR_SWAPPED
              then set_enhanced_call_status_active s held
              else Some s);
        for_calls (\<lambda>i s. do {
          c \<leftarrow> call_at s i;
          if is_enhanced_call_status_active c
          then call_put s i (c\<lparr> mpty := HFP_ENHANCED_CALL_MPTY_CONFERENCE_CALL \<rparr>) else Some s }) s })"

definition incoming_call_accepted_by_hf :: "gsm \<Rightarrow> int \<Rightarrow> gsm option" where
  "incoming_call_accepted_by_hf s initiated =
     (if hfp_gsm_callsetup_status s \<noteq> HFP_CALLSETUP_STATUS_INCOMING_CALL_SETUP_IN_PROGRESS then Some s
      else if hfp_gsm_call_status s \<noteq> HFP_CALL_STATUS_NO_HELD_OR_ACTIVE_CALLS then Some s
      else set_enhanced_call_status_active
             (set_callsetup_status s HFP_CALLSETUP_STATUS_NO_CALL_SETUP_IN_PROGRESS) initiated)"

definition response_and_hold_accept_incoming_call :: "gsm \<Rightarrow> int \<Rightarrow> gsm option" where
  "response_and_hold_accept_incoming_call s initiated =
     (if hfp_gsm_callsetup_status s \<noteq> HFP_CALLSETUP_STATUS_INCOMING_CALL_SETUP_IN_PROGRESS then Some s
      else if hfp_gsm_call_status s \<noteq> HFP_CALL_STATUS_NO_HELD_OR_ACTIVE_CALLS then Some s
      else set_enhanced_call_status_response_hold
             (set_callsetup_status s HFP_CALLSETUP_STATUS_NO_CALL_SETUP_IN_PROGRESS) initiated)"

definition response_and_hold_accept_held_call :: "gsm \<Rightarrow> gsm option" where
  "response_and_hold_accept_held_call s =
     (if \<not> hfp_gsm_response_held_active s then Some s
      else set_enhanced_call_status_active s (get_response_held_call_index s))"

definition response_and_hold_reject_held_call :: "gsm \<Rightarrow> gsm option" where
  "response_and_hold_reject_held_call s =
     (if \<not> hfp_gsm_response_held_active s then Some s
      else delete_call s (get_response_held_call_index s))"

definition terminate_call_by_hf :: "gsm \<Rightarrow> int \<Rightarrow> gsm option" where
  "terminate_call_by_hf s current =
     (case hfp_gsm_call_status s of
        HFP_CALL_STATUS_NO_HELD_OR_ACTIVE_CALLS \<Rightarrow>
          Some (set_callsetup_status s HFP_CALLSETUP_STATUS_NO_CALL_SETUP_IN_PROGRESS)
      | HFP_CALL_STATUS_ACTIVE_OR_HELD_CALL_IS_PRESENT \<Rightarrow> delete_call s current)"

definition terminate_call_by_ag :: "gsm \<Rightarrow> int \<Rightarrow> gsm option" where
  "terminate_call_by_ag s current =
     (case hfp_gsm_call_status s of
        HFP_CALL_STATUS_NO_HELD_OR_ACTIVE_CALLS \<Rightarrow>
          if hfp_gsm_callsetup_status s \<noteq> HFP_CALLSETUP_STATUS_INCOMING_CALL_SETUP_IN_PROGRESS then Some s
          else Some (set_callsetup_status s HFP_CALLSETUP_STATUS_NO_CALL_SETUP_IN_PROGRESS)
      | HFP_CALL_STATUS_ACTIVE_OR_HELD_CALL_IS_PRESENT \<Rightarrow>
          delete_call (set_callsetup_status s HFP_CALLSETUP_STATUS_NO_CALL_SETUP_IN_PROGRESS) current)"

definition call_dropped :: "gsm \<Rightarrow> gsm option" where
  "call_dropped s =
     (let s = set_callsetup_status s HFP_CALLSETUP_STATUS_NO_CALL_SETUP_IN_PROGRESS
      in if hfp_gsm_call_status s \<noteq> HFP_CALL_STATUS_ACTIVE_OR_HELD_CALL_IS_PRESENT then Some s
         else for_calls (\<lambda>i s. delete_call s i) s)"

definition call_hold_user_busy :: "gsm \<Rightarrow> int \<Rightarrow> int \<Rightarrow> gsm option" where
  "call_hold_user_busy s initiated held = do {
     s \<leftarrow> free_call_slot (set_callsetup_status s HFP_CALLSETUP_STATUS_NO_CALL_SETUP_IN_PROGRESS) initiated;
     set_enhanced_call_status_active s held }"

text \<open>The tail shared by the two hold cases: the waiting call, else the held one, becomes active.\<close>

definition accept_held_or_waiting :: "gsm \<Rightarrow> int \<Rightarrow> int \<Rightarrow> gsm option" where
  "accept_held_or_waiting s initiated held = do {
     s \<leftarrow> (if callsetup_status s \<noteq> HFP_CALLSETUP_STATUS_NO_CALL_SETUP_IN_PROGRESS
           then set_enhanced_call_status_active s initiated
           else set_enhanced_call_status_active s held);
     Some (set_callsetup_status s HFP_CALLSETUP_STATUS_NO_CALL_SETUP_IN_PROGRESS) }"

definition call_hold_release_active :: "gsm \<Rightarrow> int \<Rightarrow> int \<Rightarrow> u8 \<Rightarrow> gsm option" where
  "call_hold_release_active s initiated held index = do {
     s \<leftarrow> (if index \<noteq> 0 \<and> uint index \<le> HFP_GSM_MAX_NR_CALLS
           then for_calls (\<lambda>i s. do {
             c \<leftarrow> call_at s i;
             if call_index c = uint index then delete_call s i else Some s }) s
           else for_calls (\<lambda>i s. do {
             c \<leftarrow> call_at s i;
             if is_enhanced_call_status_active c then delete_call s i else Some s }) s);
     accept_held_or_waiting s initiated held }"

definition call_hold_park_active :: "gsm \<Rightarrow> int \<Rightarrow> int \<Rightarrow> u8 \<Rightarrow> gsm option" where
  "call_hold_park_active s initiated held index = do {
     s \<leftarrow> for_calls (\<lambda>i s. do {
       c \<leftarrow> call_at s i;
       if is_enhanced_call_status_active c \<and> call_index c \<noteq> uint index
       then set_enhanced_call_status_held s i else Some s }) s;
     accept_held_or_waiting s initiated held }"

definition call_hold_add_held_call :: "gsm \<Rightarrow> gsm option" where
  "call_hold_add_held_call s =
     (if hfp_gsm_callheld_status s \<noteq> HFP_CALLHELD_STATUS_NO_CALLS_HELD
      then for_calls (\<lambda>i s. do {
        c \<leftarrow> call_at s i;
        if used_slot c
        then do {
          s \<leftarrow> set_enhanced_call_status_active s i;
          call_upd s i (\<lambda>c. c\<lparr> mpty := HFP_ENHANCED_CALL_MPTY_CONFERENCE_CALL \<rparr>) }
        else Some s }) s
      else Some s)"

definition call_hold_exit_and_join_calls :: "gsm \<Rightarrow> gsm option" where
  "call_hold_exit_and_join_calls s = for_calls (\<lambda>i s. delete_call s i) s"

definition handle_set_clip :: "gsm \<Rightarrow> int \<Rightarrow> u8 \<Rightarrow> string option \<Rightarrow> gsm option" where
  "handle_set_clip s initiated type number =
     (if initiated \<noteq> -1 then hfp_gsm_set_clip s initiated type number
      else do {
        let s = s\<lparr> clip_type := type \<rparr>;
        number \<leftarrow> number;
        b \<leftarrow> c_strncpy (clip_number s) number HFP_GSM_MAX_CALL_NUMBER_SIZE;
        b \<leftarrow> wr b (HFP_GSM_MAX_CALL_NUMBER_SIZE - 1) (CHR 0x00);
        Some (s\<lparr> clip_number := b \<rparr>) })"

definition hfp_gsm_handler :: "gsm \<Rightarrow> call_event \<Rightarrow> u8 \<Rightarrow> u8 \<Rightarrow> string option \<Rightarrow> gsm option" where
  "hfp_gsm_handler s event index type number =
     (let next_free_slot = get_next_free_slot s;
          current = get_active_call_index s;
          initiated = get_initiated_call_index s;
          held = get_held_call_index s
      in case event of
        HFP_AG_OUTGOING_CALL_INITIATED \<Rightarrow> outgoing_call_initiated s next_free_slot
      | HFP_AG_OUTGOING_REDIAL_INITIATED \<Rightarrow> outgoing_call_initiated s next_free_slot
      | HFP_AG_OUTGOING_CALL_REJECTED \<Rightarrow> outgoing_call_rejected s current
      | HFP_AG_OUTGOING_CALL_ACCEPTED \<Rightarrow> outgoing_call_accepted s current
      | HFP_AG_OUTGOING_CALL_RINGING \<Rightarrow> outgoing_call_ringing s current
      | HFP_AG_OUTGOING_CALL_ESTABLISHED \<Rightarrow> outgoing_call_established s initiated
      | HFP_AG_INCOMING_CALL \<Rightarrow> incoming_call s
      | HFP_AG_INCOMING_CALL_ACCEPTED_BY_AG \<Rightarrow> incoming_call_accepted_by_ag s current initiated
      | HFP_AG_HELD_CALL_JOINED_BY_AG \<Rightarrow> held_call_joined_by_ag s initiated held
      | HFP_AG_INCOMING_CALL_ACCEPTED_BY_HF \<Rightarrow> incoming_call_accepted_by_hf s initiated
      | HFP_AG_RESPONSE_AND_HOLD_ACCEPT_INCOMING_CALL_BY_AG \<Rightarrow> response_and_hold_accept_incoming_call s initiated
      | HFP_AG_RESPONSE_AND_HOLD_ACCEPT_INCOMING_CALL_BY_HF \<Rightarrow> response_and_hold_accept_incoming_call s initiated
      | HFP_AG_RESPONSE_AND_HOLD_ACCEPT_HELD_CALL_BY_AG \<Rightarrow> response_and_hold_accept_held_call s
      | HFP_AG_RESPONSE_AND_HOLD_ACCEPT_HELD_CALL_BY_HF \<Rightarrow> response_and_hold_accept_held_call s
      | HFP_AG_RESPONSE_AND_HOLD_REJECT_HELD_CALL_BY_AG \<Rightarrow> response_and_hold_reject_held_call s
      | HFP_AG_RESPONSE_AND_HOLD_REJECT_HELD_CALL_BY_HF \<Rightarrow> response_and_hold_reject_held_call s
      | HFP_AG_TERMINATE_CALL_BY_HF \<Rightarrow> terminate_call_by_hf s current
      | HFP_AG_TERMINATE_CALL_BY_AG \<Rightarrow> terminate_call_by_ag s current
      | HFP_AG_CALL_DROPPED \<Rightarrow> call_dropped s
      | HFP_AG_CALL_HOLD_USER_BUSY \<Rightarrow> call_hold_user_busy s initiated held
      | HFP_AG_CALL_HOLD_RELEASE_ACTIVE_ACCEPT_HELD_OR_WAITING_CALL \<Rightarrow> call_hold_release_active s initiated held index
      | HFP_AG_CALL_HOLD_PARK_ACTIVE_ACCEPT_HELD_OR_WAITING_CALL \<Rightarrow> call_hold_park_active s initiated held index
      | HFP_AG_CALL_HOLD_ADD_HELD_CALL \<Rightarrow> call_hold_add_held_call s
      | HFP_AG_CALL_HOLD_EXIT_AND_JOIN_CALLS \<Rightarrow> call_hold_exit_and_join_calls s
      | HFP_AG_SET_CLIP \<Rightarrow> handle_set_clip s initiated type number
      | _ \<Rightarrow> Some s)"

definition hfp_gsm_handle_event :: "gsm \<Rightarrow> call_event \<Rightarrow> gsm option" where
  "hfp_gsm_handle_event s event = hfp_gsm_handler s event 0 0 None"

definition hfp_gsm_handle_event_with_clip :: "gsm \<Rightarrow> call_event \<Rightarrow> u8 \<Rightarrow> string option \<Rightarrow> gsm option" where
  "hfp_gsm_handle_event_with_clip s event type number = hfp_gsm_handler s event 0 type number"

definition hfp_gsm_handle_event_with_call_index :: "gsm \<Rightarrow> call_event \<Rightarrow> u8 \<Rightarrow> gsm option" where
  "hfp_gsm_handle_event_with_call_index s event index = hfp_gsm_handler s event index 0 None"

definition hfp_gsm_handle_event_with_call_number :: "gsm \<Rightarrow> call_event \<Rightarrow> string option \<Rightarrow> gsm option" where
  "hfp_gsm_handle_event_with_call_number s event number = hfp_gsm_handler s event 0 0 number"

section \<open>Well-formed tables\<close>

definition call_ok :: "gsm_call \<Rightarrow> bool" where
  "call_ok c \<longleftrightarrow> length (call_clip_number c) = HFP_GSM_MAX_CALL_NUMBER_SIZE"

definition gsm_ok :: "gsm \<Rightarrow> bool" where
  "gsm_ok s \<longleftrightarrow> length (gsm_calls s) = 3 \<and> (\<forall>c \<in> set (gsm_calls s). call_ok c) \<and>
     length (clip_number s) = HFP_GSM_MAX_CALL_NUMBER_SIZE \<and> CHR 0x00 \<in> set (clip_number s) \<and>
     length (last_dialed_number s) = HFP_GSM_MAX_CALL_NUMBER_SIZE"

definition terminated :: "string option \<Rightarrow> bool" where
  "terminated number \<longleftrightarrow> (case number of None \<Rightarrow> True | Some cs \<Rightarrow> CHR 0x00 \<in> set cs)"

lemmas gsm_size = HFP_GSM_MAX_CALL_NUMBER_SIZE_def HFP_GSM_MAX_NR_CALLS_def

lemma c_strlen_Some: "CHR 0x00 \<in> set cs \<Longrightarrow> \<exists>n. c_strlen cs = Some n \<and> n < length cs"
  by (induction cs) auto

lemma c_prefix_Some: "CHR 0x00 \<in> set cs \<Longrightarrow> \<exists>p. c_prefix n cs = Some p \<and> length p \<le> n"
proof (induction n cs rule: c_prefix.induct)
  case (3 n c cs)
  show ?case
  proof (cases "c = CHR 0x00")
    case False
    with 3 obtain p where "c_prefix n cs = Some p" "length p \<le> n" by auto
    with False show ?thesis by simp
  qed simp
qed simp_all

lemma c_strncpy_Some:
  assumes "CHR 0x00 \<in> set cs" and "n \<le> length dest"
  obtains b where "c_strncpy dest cs n = Some b" and "length b = length dest"
proof -
  obtain p where p: "c_prefix n cs = Some p" "length p \<le> n" using c_prefix_Some [OF assms(1)] by blast
  have "wr_range dest 0 (p @ replicate (n - length p) CHR 0x00)
      = Some ((p @ replicate (n - length p) CHR 0x00) @ drop n dest)"
    using p(2) assms(2) by (subst wr_range_Some) auto
  then show ?thesis using that p assms(2) by (simp add: c_strncpy_def)
qed

section \<open>Accesses through an index\<close>

lemma call_at_int [simp]: "k < length (gsm_calls s) \<Longrightarrow> call_at s (int k) = Some (gsm_calls s ! k)"
  by (simp add: call_at_def rd_def)

lemma call_at_minus [simp]: "call_at s (- 1) = None"
  by (simp add: call_at_def)

lemma call_put_int [simp]:
  "k < length (gsm_calls s) \<Longrightarrow> call_put s (int k) c = Some (s\<lparr> gsm_calls := (gsm_calls s)[k := c] \<rparr>)"
  by (simp add: call_put_def wr_def)

lemma call_upd_int [simp]:
  "k < length (gsm_calls s) \<Longrightarrow>
     call_upd s (int k) f = Some (s\<lparr> gsm_calls := (gsm_calls s)[k := f (gsm_calls s ! k)] \<rparr>)"
  by (simp add: call_upd_def)

lemma call_upd_minus [simp]: "call_upd s (- 1) f = None"
  by (simp add: call_upd_def)

lemma first_call_cases:
  obtains (none) "first_call s P = -1" and "\<forall>c \<in> set (gsm_calls s). \<not> P c"
        | (found) k where "first_call s P = int k" and "k < length (gsm_calls s)" and "P (gsm_calls s ! k)"
proof (cases "List.find (\<lambda>i. P (gsm_calls s ! i)) [0..<length (gsm_calls s)]")
  case None
  then have "\<forall>c \<in> set (gsm_calls s). \<not> P c" by (auto simp: find_None_iff in_set_conv_nth)
  with None none show ?thesis by (simp add: first_call_def)
next
  case (Some k)
  then have "k < length (gsm_calls s)" "P (gsm_calls s ! k)"
    by (auto simp: find_Some_iff)
  with Some found show ?thesis by (simp add: first_call_def)
qed

lemma first_call_none_iff: "first_call s P = -1 \<longleftrightarrow> (\<forall>c \<in> set (gsm_calls s). \<not> P c)"
  by (cases rule: first_call_cases [of s P]) auto

lemma count_calls_0_iff: "count_calls s P = 0 \<longleftrightarrow> (\<forall>c \<in> set (gsm_calls s). \<not> P c)"
  by (simp add: count_calls_def filter_empty_conv)

lemma for_calls_inv:
  assumes "\<And>k s. k < 3 \<Longrightarrow> Q s \<Longrightarrow> \<exists>s'. body (int k) s = Some s' \<and> Q s'" and "Q s"
  shows "\<exists>s'. for_calls body s = Some s' \<and> Q s'"
proof -
  obtain s0 where s0: "body 0 s = Some s0" "Q s0" using assms(1) [of 0 s] assms(2) by auto
  obtain s1 where s1: "body 1 s0 = Some s1" "Q s1" using assms(1) [of 1 s0] s0 by auto
  obtain s2 where s2: "body 2 s1 = Some s2" "Q s2" using assms(1) [of 2 s1] s1 by auto
  show ?thesis using s0(1) s1(1) s2 by (simp add: for_calls_def)
qed

text \<open>The states the table's slots are told apart by.\<close>

definition has_status :: "gsm \<Rightarrow> enhanced_call_status \<Rightarrow> bool" where
  "has_status s st \<longleftrightarrow> (\<exists>c \<in> set (gsm_calls s). used_slot c \<and> enhanced_status c = st)"

definition has_initiated :: "gsm \<Rightarrow> bool" where
  "has_initiated s \<longleftrightarrow> has_status s HFP_ENHANCED_CALL_STATUS_OUTGOING_DIALING \<or>
     has_status s HFP_ENHANCED_CALL_STATUS_OUTGOING_ALERTING \<or>
     has_status s HFP_ENHANCED_CALL_STATUS_INCOMING \<or> has_status s HFP_ENHANCED_CALL_STATUS_INCOMING_WAITING"

lemma get_status_eq: "get_enhanced_call_status c = Some st \<longleftrightarrow> used_slot c \<and> enhanced_status c = st"
  by (simp add: get_enhanced_call_status_def)

lemma initiated_eq: "is_enhanced_call_status_initiated c \<longleftrightarrow> used_slot c \<and> enhanced_status c \<in>
    {HFP_ENHANCED_CALL_STATUS_OUTGOING_DIALING, HFP_ENHANCED_CALL_STATUS_OUTGOING_ALERTING,
     HFP_ENHANCED_CALL_STATUS_INCOMING, HFP_ENHANCED_CALL_STATUS_INCOMING_WAITING}"
  by (simp add: is_enhanced_call_status_initiated_def get_enhanced_call_status_def split: enhanced_call_status.split)

lemma initiated_none_iff: "get_initiated_call_index s = -1 \<longleftrightarrow> \<not> has_initiated s"
  by (auto simp: get_initiated_call_index_def first_call_none_iff initiated_eq has_initiated_def has_status_def)

lemma active_none_iff: "get_active_call_index s = -1 \<longleftrightarrow> \<not> has_status s HFP_ENHANCED_CALL_STATUS_ACTIVE"
  by (auto simp: get_active_call_index_def get_call_index_with_enhanced_status_def first_call_none_iff
      get_status_eq has_status_def)

lemma held_none_iff: "get_held_call_index s = -1 \<longleftrightarrow> \<not> has_status s HFP_ENHANCED_CALL_STATUS_HELD"
  by (auto simp: get_held_call_index_def get_call_index_with_enhanced_status_def first_call_none_iff
      get_status_eq has_status_def)

lemma free_none_iff: "get_next_free_slot s = -1 \<longleftrightarrow> (\<forall>c \<in> set (gsm_calls s). used_slot c)"
  by (auto simp: get_next_free_slot_def first_call_none_iff)

lemma call_status_eq:
  "hfp_gsm_call_status s = HFP_CALL_STATUS_ACTIVE_OR_HELD_CALL_IS_PRESENT \<longleftrightarrow>
     has_status s HFP_ENHANCED_CALL_STATUS_ACTIVE \<or> has_status s HFP_ENHANCED_CALL_STATUS_HELD \<or>
     has_status s HFP_ENHANCED_CALL_STATUS_CALL_HELD_BY_RESPONSE_AND_HOLD"
proof -
  have "count_calls s P \<ge> 0" for P by (simp add: count_calls_def)
  then have "hfp_gsm_call_status s = HFP_CALL_STATUS_ACTIVE_OR_HELD_CALL_IS_PRESENT \<longleftrightarrow>
    \<not> (get_number_active_calls s = 0 \<and> get_number_held_calls s = 0 \<and> get_number_response_held_calls s = 0)"
    by (simp add: hfp_gsm_call_status_def get_number_active_calls_def get_number_held_calls_def
        get_number_response_held_calls_def get_number_calls_with_enhanced_status_def add_nonneg_eq_0_iff)
  then show ?thesis
    by (auto simp: get_number_active_calls_def get_number_held_calls_def get_number_response_held_calls_def
        get_number_calls_with_enhanced_status_def count_calls_0_iff get_status_eq has_status_def)
qed

section \<open>The numbering of the calls\<close>

definition slots :: "gsm \<Rightarrow> (bool \<times> int) list" where
  "slots s = map (\<lambda>c. (used_slot c, call_index c)) (gsm_calls s)"

text \<open>The used slots carry the indices 1 to n, each once; a free slot carries 0.\<close>

definition numbered_slots :: "(bool \<times> int) list \<Rightarrow> bool" where
  "numbered_slots xs \<longleftrightarrow>
     (\<forall>(u, i) \<in> set xs. if u then 1 \<le> i \<and> i \<le> int (length (filter fst xs)) else i = 0) \<and>
     distinct (map snd (filter fst xs))"

definition numbered :: "gsm \<Rightarrow> bool" where
  "numbered s \<longleftrightarrow> numbered_slots (slots s)"

definition delete_slot :: "nat \<Rightarrow> (bool \<times> int) list \<Rightarrow> (bool \<times> int) list" where
  "delete_slot k xs = (map (\<lambda>(u, i). (u, if i > snd (xs ! k) then i - 1 else i)) xs)[k := (False, 0)]"

definition cleared_call :: "gsm_call \<Rightarrow> gsm_call" where
  "cleared_call c = c\<lparr> used_slot := False, mpty := HFP_ENHANCED_CALL_MPTY_NOT_A_CONFERENCE_CALL, call_index := 0,
     call_clip_type := 0, call_clip_number := (call_clip_number c)[0 := CHR 0x00] \<rparr>"

lemma length_3_obtain:
  assumes "length xs = 3"
  obtains a b c where "xs = [a, b, c]"
  using assms by (auto simp: numeral_3_eq_3 length_Suc_conv)

lemma less_3_cases: "(k :: nat) < 3 \<Longrightarrow> k = 0 \<or> k = 1 \<or> k = 2"
  by auto

lemma delete_slot_numbered:
  assumes "length xs = 3" and "k < 3" and "fst (xs ! k)" and "numbered_slots xs"
  shows "numbered_slots (delete_slot k xs)"
proof -
  obtain a b c where xs: "xs = [a, b, c]" using assms(1) by (rule length_3_obtain)
  obtain ua ia ub ib uc ic where abc: "a = (ua, ia)" "b = (ub, ib)" "c = (uc, ic)" by (meson surj_pair)
  show ?thesis using assms(3,4) less_3_cases [OF assms(2)] unfolding xs abc
    by (elim disjE; simp add: numbered_slots_def delete_slot_def; cases ua; cases ub; cases uc; simp; linarith)
qed

lemma add_slot_numbered:
  assumes "length xs = 3" and "k < 3" and "\<not> fst (xs ! k)" and "numbered_slots xs"
    and "i = 4 - int (length (filter (\<lambda>x. \<not> fst x) xs))"
  shows "numbered_slots (xs[k := (True, i)])"
proof -
  obtain a b c where xs: "xs = [a, b, c]" using assms(1) by (rule length_3_obtain)
  obtain ua ia ub ib uc ic where abc: "a = (ua, ia)" "b = (ub, ib)" "c = (uc, ic)" by (meson surj_pair)
  show ?thesis using assms(3,4,5) less_3_cases [OF assms(2)] unfolding xs abc
    by (elim disjE; simp add: numbered_slots_def; cases ua; cases ub; cases uc; simp)
qed

lemma delete_all_slots:
  assumes "length xs = 3" and "numbered_slots xs"
  shows "delete_slot 2 (delete_slot 1 (delete_slot 0 xs)) = [(False, 0), (False, 0), (False, 0)]"
proof -
  obtain a b c where xs: "xs = [a, b, c]" using assms(1) by (rule length_3_obtain)
  obtain ua ia ub ib uc ic where abc: "a = (ua, ia)" "b = (ub, ib)" "c = (uc, ic)" by (meson surj_pair)
  show ?thesis using assms(2) unfolding xs abc
    by (cases ua; cases ub; cases uc; auto simp: numbered_slots_def delete_slot_def)
qed

section \<open>The routines on a well-formed table\<close>

lemma gsm_ok_length [simp]: "gsm_ok s \<Longrightarrow> length (gsm_calls s) = 3"
  by (simp add: gsm_ok_def)

lemma gsm_ok_call: "gsm_ok s \<Longrightarrow> k < 3 \<Longrightarrow> call_ok (gsm_calls s ! k)"
  by (simp add: gsm_ok_def)

lemma gsm_ok_put: "gsm_ok s \<Longrightarrow> call_ok c \<Longrightarrow> gsm_ok (s\<lparr> gsm_calls := (gsm_calls s)[k := c] \<rparr>)"
  by (auto simp: gsm_ok_def dest!: subsetD [OF set_update_subset_insert])

lemma slots_length [simp]: "gsm_ok s \<Longrightarrow> length (slots s) = 3"
  by (simp add: slots_def)

lemma slots_put:
  "slots (s\<lparr> gsm_calls := (gsm_calls s)[k := c] \<rparr>) = (slots s)[k := (used_slot c, call_index c)]"
  by (simp add: slots_def map_update)

lemma slots_nth: "k < length (gsm_calls s) \<Longrightarrow> slots s ! k = (used_slot (gsm_calls s ! k), call_index (gsm_calls s ! k))"
  by (simp add: slots_def)

text \<open>Setting the status of a used call changes nothing the numbering depends on.\<close>

lemma put_status_ok:
  assumes "gsm_ok s" and "k < 3"
  shows "gsm_ok (s\<lparr> gsm_calls := (gsm_calls s)[k := (gsm_calls s ! k)\<lparr> enhanced_status := st, used_slot := True \<rparr>] \<rparr>)"
  using gsm_ok_call [OF assms] by (intro gsm_ok_put assms) (simp add: call_ok_def)

lemma put_status_slots:
  assumes "gsm_ok s" and "k < 3" and "used_slot (gsm_calls s ! k)"
  shows "slots (s\<lparr> gsm_calls := (gsm_calls s)[k := (gsm_calls s ! k)\<lparr> enhanced_status := st, used_slot := True \<rparr>] \<rparr>) = slots s"
  using assms by (simp add: slots_put) (metis list_update_id slots_nth gsm_ok_length)

lemma set_callsetup_ok [simp]: "gsm_ok (set_callsetup_status s st) \<longleftrightarrow> gsm_ok s"
  by (simp add: set_callsetup_status_def gsm_ok_def Let_def call_ok_def if_distrib [of call_clip_number]
      del: if_image_distrib cong: if_cong)

lemma set_callsetup_slots [simp]: "slots (set_callsetup_status s st) = slots s"
  by (auto simp: set_callsetup_status_def slots_def Let_def)

lemma set_callsetup_calls [simp]:
  "st \<noteq> HFP_CALLSETUP_STATUS_OUTGOING_CALL_SETUP_IN_ALERTING_STATE \<Longrightarrow>
     gsm_calls (set_callsetup_status s st) = gsm_calls s"
  by (simp add: set_callsetup_status_def)

lemma delete_call_eq:
  assumes ok: "gsm_ok s" and k: "k < 3"
  defines "d \<equiv> call_index (gsm_calls s ! k)"
  shows "delete_call s (int k) = Some (s\<lparr> gsm_calls :=
    (map (\<lambda>c. if call_index c > d then c\<lparr> call_index := call_index c - 1 \<rparr> else c) (gsm_calls s))
      [k := cleared_call (gsm_calls s ! k)] \<rparr>)"
proof -
  obtain x y z where xs: "gsm_calls s = [x, y, z]" using gsm_ok_length [OF ok] by (rule length_3_obtain)
  have "call_ok x" "call_ok y" "call_ok z" using ok by (auto simp: gsm_ok_def xs)
  then have "0 < length (call_clip_number x)" "0 < length (call_clip_number y)" "0 < length (call_clip_number z)"
    by (auto simp: call_ok_def gsm_size)
  then show ?thesis using less_3_cases [OF k] unfolding d_def
    by (elim disjE) (auto simp: delete_call_def for_calls_def call_at_def call_put_def call_upd_def rd_def wr_def
        free_call_slot_def xs cleared_call_def)
qed

lemma delete_call_ok:
  assumes "gsm_ok s" and "k < 3"
  obtains s' where "delete_call s (int k) = Some s'" and "gsm_ok s'" and "slots s' = delete_slot k (slots s)"
    and "callsetup_status s' = callsetup_status s"
proof -
  let ?d = "call_index (gsm_calls s ! k)"
  let ?s = "s\<lparr> gsm_calls :=
    (map (\<lambda>c. if call_index c > ?d then c\<lparr> call_index := call_index c - 1 \<rparr> else c) (gsm_calls s))
      [k := cleared_call (gsm_calls s ! k)] \<rparr>"
  have "gsm_ok ?s"
    using assms gsm_ok_call [OF assms]
    by (auto simp: gsm_ok_def call_ok_def cleared_call_def dest!: subsetD [OF set_update_subset_insert])
  moreover have "slots ?s = delete_slot k (slots s)"
    using assms by (auto simp: slots_def delete_slot_def map_update cleared_call_def intro!: arg_cong [where f = "\<lambda>x. x[k := (False, 0)]"])
  ultimately show ?thesis using that delete_call_eq [OF assms] by simp
qed

definition call_states :: "gsm \<Rightarrow> (bool \<times> enhanced_call_status) list" where
  "call_states s = map (\<lambda>c. (used_slot c, enhanced_status c)) (gsm_calls s)"

lemma hfp_gsm_set_clip_ok:
  assumes ok: "gsm_ok s" and k: "k < 3" and "number = Some cs" and t: "CHR 0x00 \<in> set cs"
  obtains s' where "hfp_gsm_set_clip s (int k) type number = Some s'" and "gsm_ok s'" and "slots s' = slots s"
    and "callsetup_status s' = callsetup_status s" and "call_states s' = call_states s"
proof -
  obtain n where n: "c_strlen cs = Some n" using c_strlen_Some [OF t] by blast
  show ?thesis
  proof (cases "n = 0")
    case True
    with n assms that show ?thesis by (simp add: hfp_gsm_set_clip_def)
  next
    case False
    define m where "m = (if n < HFP_GSM_MAX_CALL_NUMBER_SIZE then n else HFP_GSM_MAX_CALL_NUMBER_SIZE - 1)"
    have m: "m < HFP_GSM_MAX_CALL_NUMBER_SIZE" by (simp add: m_def gsm_size)
    have l1: "length (call_clip_number (gsm_calls s ! k)) = HFP_GSM_MAX_CALL_NUMBER_SIZE"
      using gsm_ok_call [OF ok k] by (simp add: call_ok_def)
    have l2: "length (last_dialed_number s) = HFP_GSM_MAX_CALL_NUMBER_SIZE" using ok by (simp add: gsm_ok_def)
    obtain b where b: "c_strncpy (call_clip_number (gsm_calls s ! k)) cs m = Some b"
        "length b = length (call_clip_number (gsm_calls s ! k))"
      using c_strncpy_Some [OF t] m l1 by (metis less_imp_le)
    obtain d where d: "c_strncpy (last_dialed_number s) cs m = Some d" "length d = length (last_dialed_number s)"
      using c_strncpy_Some [OF t] m l2 by (metis less_imp_le)
    let ?c = "(gsm_calls s ! k)\<lparr> call_clip_type := type, call_clip_number := b[m := CHR 0x00] \<rparr>"
    let ?s = "s\<lparr> gsm_calls := (gsm_calls s)[k := ?c], clip_type := 0,
      clip_number := replicate HFP_GSM_MAX_CALL_NUMBER_SIZE CHR 0x00, last_dialed_number := d[m := CHR 0x00] \<rparr>"
    have "hfp_gsm_set_clip s (int k) type number = Some ?s"
      using assms n False b d m l1 l2 k by (simp add: hfp_gsm_set_clip_def m_def [symmetric] wr_Some)
    moreover have "gsm_ok ?s"
      using ok b d l1 l2 by (auto simp: gsm_ok_def call_ok_def gsm_size dest!: subsetD [OF set_update_subset_insert])
    moreover have "slots ?s = slots s" "callsetup_status ?s = callsetup_status s" "call_states ?s = call_states s"
      using k ok by (simp_all add: slots_def call_states_def map_update list_update_same_conv)
    ultimately show ?thesis by (rule that)
  qed
qed

text \<open>A step that returns a well-formed table; with \<open>b\<close>, one that keeps the numbering too.\<close>

definition good_step :: "bool \<Rightarrow> gsm \<Rightarrow> gsm option \<Rightarrow> bool" where
  "good_step b s r \<longleftrightarrow> (\<exists>s'. r = Some s' \<and> gsm_ok s' \<and> (b \<longrightarrow> numbered s \<longrightarrow> numbered s'))"

named_theorems gsm_steps \<open>which steps of the handler are good, and which reach no slot\<close>

lemma good_Some: "gsm_ok s' \<Longrightarrow> (b \<Longrightarrow> numbered s \<Longrightarrow> numbered s') \<Longrightarrow> good_step b s (Some s')"
  by (simp add: good_step_def)

lemma good_same [simp]: "gsm_ok s \<Longrightarrow> good_step b s (Some s)"
  by (simp add: good_step_def)

lemma good_setup [simp]:
  "gsm_ok s \<Longrightarrow> good_step b s (Some (set_callsetup_status s st))"
  by (simp add: good_step_def numbered_def)

lemma good_bind:
  assumes "good_step b s r" and "\<And>s'. gsm_ok s' \<Longrightarrow> good_step b s' (f s')"
  shows "good_step b s (Option.bind r f)"
  using assms unfolding good_step_def by (metis bind.bind_lunit)

lemma good_setup_before:
  "good_step b (set_callsetup_status s st) r \<Longrightarrow> good_step b s r"
  by (simp add: good_step_def numbered_def)

lemma good_for_calls:
  assumes "gsm_ok s" and "\<And>k s. k < 3 \<Longrightarrow> gsm_ok s \<Longrightarrow> good_step b s (body (int k) s)"
  shows "good_step b s (for_calls body s)"
proof -
  have "\<exists>s'. for_calls body s = Some s' \<and> (gsm_ok s' \<and> (b \<longrightarrow> numbered s \<longrightarrow> numbered s'))"
    by (rule for_calls_inv) (use assms in \<open>auto simp: good_step_def\<close>)
  then show ?thesis by (simp add: good_step_def)
qed

lemma good_put:
  assumes "gsm_ok s" "k < 3" "call_ok c" "b \<Longrightarrow> used_slot c = used_slot (gsm_calls s ! k)"
    "b \<Longrightarrow> call_index c = call_index (gsm_calls s ! k)"
  shows "good_step b s (call_put s (int k) c)"
proof -
  have "numbered (s\<lparr> gsm_calls := (gsm_calls s)[k := c] \<rparr>)" if "b" "numbered s"
  proof -
    have "(used_slot c, call_index c) = slots s ! k" using that(1) assms by (simp add: slots_nth)
    then have "slots (s\<lparr> gsm_calls := (gsm_calls s)[k := c] \<rparr>) = slots s" by (simp add: slots_put)
    with that(2) show ?thesis by (simp add: numbered_def)
  qed
  with assms show ?thesis by (simp add: good_step_def gsm_ok_put)
qed

lemma good_upd:
  assumes "gsm_ok s" "k < 3" "call_ok (f (gsm_calls s ! k))" "b \<Longrightarrow> used_slot (f (gsm_calls s ! k)) = used_slot (gsm_calls s ! k)"
    "b \<Longrightarrow> call_index (f (gsm_calls s ! k)) = call_index (gsm_calls s ! k)"
  shows "good_step b s (call_upd s (int k) f)"
  using good_put [OF assms(1,2,3,4,5)] assms(1,2) by (simp add: call_upd_def)

lemma good_delete_used:
  "gsm_ok s \<Longrightarrow> k < 3 \<Longrightarrow> (b \<Longrightarrow> used_slot (gsm_calls s ! k)) \<Longrightarrow> good_step b s (delete_call s (int k))"
  by (rule delete_call_ok [of s k])
     (auto simp: good_step_def numbered_def slots_nth intro!: delete_slot_numbered)

lemma good_status:
  assumes "gsm_ok s" "k < 3" "b \<Longrightarrow> used_slot (gsm_calls s ! k)"
  shows "good_step b s (set_enhanced_call_status_active s (int k))"
    and "good_step b s (set_enhanced_call_status_held s (int k))"
    and "good_step b s (set_enhanced_call_status_response_hold s (int k))"
  using assms gsm_ok_call [OF assms(1,2)]
  unfolding set_enhanced_call_status_active_def set_enhanced_call_status_held_def
    set_enhanced_call_status_response_hold_def
  by (auto intro!: good_upd simp: call_ok_def simp del: call_upd_int)

lemma status_minus [simp]:
  "set_enhanced_call_status_active s (- 1) = None" "set_enhanced_call_status_held s (- 1) = None"
  "set_enhanced_call_status_response_hold s (- 1) = None" "free_call_slot s (- 1) = None"
  by (simp_all add: set_enhanced_call_status_active_def set_enhanced_call_status_held_def
      set_enhanced_call_status_response_hold_def free_call_slot_def)

lemma delete_call_minus [simp]: "delete_call s (- 1) = None"
  by (simp add: delete_call_def for_calls_def free_call_slot_def)

lemma good_delete_all:
  assumes ok: "gsm_ok s"
  shows "good_step b s (for_calls (\<lambda>i s. delete_call s i) s)"
proof -
  obtain s0 where s0: "delete_call s (int 0) = Some s0" "gsm_ok s0" "slots s0 = delete_slot 0 (slots s)"
    by (rule delete_call_ok [OF ok, of 0]) simp_all
  obtain s1 where s1: "delete_call s0 (int 1) = Some s1" "gsm_ok s1" "slots s1 = delete_slot 1 (slots s0)"
    by (rule delete_call_ok [OF s0(2), of 1]) simp_all
  obtain s2 where s2: "delete_call s1 (int 2) = Some s2" "gsm_ok s2" "slots s2 = delete_slot 2 (slots s1)"
    by (rule delete_call_ok [OF s1(2), of 2]) simp_all
  have "numbered s2" if "numbered s"
    using that delete_all_slots [of "slots s"] ok by (simp add: numbered_def s0 s1 s2 numbered_slots_def)
  with s0 s1 s2 show ?thesis by (simp add: good_step_def for_calls_def)
qed

lemma create_call_minus:
  "\<forall>c \<in> set (gsm_calls s). used_slot c \<Longrightarrow> create_call s dir = None"
  using free_none_iff [of s] by (simp add: create_call_def)

lemma create_call_eq:
  assumes ok: "gsm_ok s" and free: "\<exists>c \<in> set (gsm_calls s). \<not> used_slot c"
  shows "\<exists>k st s'. k < 3 \<and> \<not> used_slot (gsm_calls s ! k) \<and> create_call s dir = Some s' \<and> gsm_ok s' \<and> (numbered s \<longrightarrow> numbered s')
     \<and> callsetup_status s' = callsetup_status s \<and> call_states s' = (call_states s)[k := (True, st)]
     \<and> st \<in> {HFP_ENHANCED_CALL_STATUS_OUTGOING_DIALING, HFP_ENHANCED_CALL_STATUS_INCOMING_WAITING, HFP_ENHANCED_CALL_STATUS_INCOMING}"
proof -
  obtain k where k: "get_next_free_slot s = int k" "k < 3" "\<not> used_slot (gsm_calls s ! k)"
    using free ok unfolding get_next_free_slot_def
    by (cases rule: first_call_cases [of s "\<lambda>c. \<not> used_slot c"]) auto
  define c1 where "c1 = (gsm_calls s ! k)\<lparr> direction := dir \<rparr>"
  define s1 where "s1 = s\<lparr> gsm_calls := (gsm_calls s)[k := c1] \<rparr>"
  define c2 where "c2 = c1\<lparr> call_index := next_call_index s1 \<rparr>"
  define s2 where "s2 = s1\<lparr> gsm_calls := (gsm_calls s1)[k := c2] \<rparr>"
  define st where "st = (if direction c2 = HFP_ENHANCED_CALL_DIR_OUTGOING then HFP_ENHANCED_CALL_STATUS_OUTGOING_DIALING
               else if get_number_active_calls s2 > 0 then HFP_ENHANCED_CALL_STATUS_INCOMING_WAITING
               else HFP_ENHANCED_CALL_STATUS_INCOMING)"
  define c3 where "c3 = c2\<lparr> enhanced_status := st, used_slot := True \<rparr>"
  define s3 where "s3 = s2\<lparr> gsm_calls := (gsm_calls s2)[k := c3] \<rparr>"
  define c4 where "c4 = c3\<lparr> mpty := HFP_ENHANCED_CALL_MPTY_NOT_A_CONFERENCE_CALL,
       call_clip_type := 0, call_clip_number := (call_clip_number c3)[0 := CHR 0x00] \<rparr>"
  define s4 where "s4 = s3\<lparr> gsm_calls := (gsm_calls s3)[k := c4] \<rparr>"
  have cok: "call_ok (gsm_calls s ! k)" using gsm_ok_call [OF ok k(2)] .
  then have c1: "call_ok c1" by (simp add: c1_def call_ok_def)
  then have c2: "call_ok c2" by (simp add: c2_def call_ok_def)
  then have c3: "call_ok c3" by (simp add: c3_def call_ok_def)
  then have c4: "call_ok c4" by (simp add: c4_def call_ok_def)
  have s1: "gsm_ok s1" unfolding s1_def by (rule gsm_ok_put [OF ok c1])
  have s2: "gsm_ok s2" unfolding s2_def by (rule gsm_ok_put [OF s1 c2])
  have s3: "gsm_ok s3" unfolding s3_def by (rule gsm_ok_put [OF s2 c3])
  have s4: "gsm_ok s4" unfolding s4_def by (rule gsm_ok_put [OF s3 c4])
  have n1: "gsm_calls s1 ! k = c1" using ok k by (simp add: s1_def)
  have n2: "gsm_calls s2 ! k = c2" using s1 k by (simp add: s2_def)
  have n3: "gsm_calls s3 ! k = c3" using s2 k by (simp add: s3_def)
  have z: "wr (call_clip_number c3) 0 (CHR 0x00) = Some ((call_clip_number c3)[0 := CHR 0x00])"
    using c3 by (simp add: wr_def call_ok_def gsm_size)
  have init: "set_enhanced_call_status_initiated s2 (int k) = Some s3"
    using k s2 by (simp add: set_enhanced_call_status_initiated_def n2 s3_def c3_def st_def)
  have u1: "call_upd s (int k) (\<lambda>c. c\<lparr> direction := dir \<rparr>) = Some s1"
    using ok k by (simp add: s1_def c1_def)
  have u2: "call_upd s1 (int k) (\<lambda>c. c\<lparr> call_index := next_call_index s1 \<rparr>) = Some s2"
    using s1 k by (simp add: s2_def c2_def n1)
  have p4: "call_put s3 (int k) c4 = Some s4" using s3 k by (simp add: s4_def)
  have t: "CHR 0x00 \<in> set (clip_number s4)" using s4 by (simp add: gsm_ok_def)
  obtain s5 where s5: "hfp_gsm_set_clip s4 (int k) (clip_type s4) (Some (clip_number s4)) = Some s5"
      "gsm_ok s5" "slots s5 = slots s4" "callsetup_status s5 = callsetup_status s4" "call_states s5 = call_states s4"
    by (rule hfp_gsm_set_clip_ok [OF s4 k(2) refl t])
  have "create_call s dir = Some s5"
    using s3 k by (simp add: create_call_def k(1) u1 u2 init n3 z p4 c4_def [symmetric] s5 del: call_put_int call_upd_int)
  moreover have "numbered s5" if "numbered s"
  proof -
    have "get_number_none_calls s1 = int (length (filter (\<lambda>x. \<not> fst x) (slots s1)))"
      by (simp add: get_number_none_calls_def count_calls_def slots_def filter_map o_def)
    moreover have "slots s1 = slots s"
      using k ok by (simp add: slots_def s1_def c1_def map_update list_update_same_conv)
    ultimately have "next_call_index s1 = 4 - int (length (filter (\<lambda>x. \<not> fst x) (slots s)))"
      by (simp add: next_call_index_def gsm_size)
    moreover have "slots s4 = (slots s)[k := (True, next_call_index s1)]"
      by (simp add: s4_def s3_def s2_def s1_def slots_def map_update c4_def c3_def c2_def)
    ultimately show ?thesis
      using that add_slot_numbered [of "slots s" k] k ok by (simp add: numbered_def slots_nth s5(3))
  qed
  moreover have "callsetup_status s5 = callsetup_status s" by (simp add: s5(4) s4_def s3_def s2_def s1_def)
  moreover have "call_states s5 = (call_states s)[k := (True, st)]"
    unfolding s5(5) by (simp add: s4_def s3_def s2_def s1_def call_states_def map_update c4_def c3_def)
  moreover have "st \<in> {HFP_ENHANCED_CALL_STATUS_OUTGOING_DIALING, HFP_ENHANCED_CALL_STATUS_INCOMING_WAITING, HFP_ENHANCED_CALL_STATUS_INCOMING}"
    by (simp add: st_def)
  ultimately show ?thesis using s5(2) k(2,3) by blast
qed

lemma good_create:
  assumes "gsm_ok s" and "\<exists>c \<in> set (gsm_calls s). \<not> used_slot c"
  shows "good_step b s (create_call s dir)"
  using create_call_eq [OF assms, of dir] by (auto simp: good_step_def)

section \<open>The steps of the handler\<close>

lemma index_cases:
  assumes "gsm_ok s"
  shows "get_active_call_index s = -1 \<and> \<not> has_status s HFP_ENHANCED_CALL_STATUS_ACTIVE \<or>
      (\<exists>k < 3. get_active_call_index s = int k \<and> used_slot (gsm_calls s ! k) \<and> has_status s HFP_ENHANCED_CALL_STATUS_ACTIVE)"
    and "get_initiated_call_index s = -1 \<and> \<not> has_initiated s \<or>
      (\<exists>k < 3. get_initiated_call_index s = int k \<and> used_slot (gsm_calls s ! k) \<and>
         enhanced_status (gsm_calls s ! k) \<noteq> HFP_ENHANCED_CALL_STATUS_ACTIVE \<and> has_initiated s)"
    and "get_held_call_index s = -1 \<and> \<not> has_status s HFP_ENHANCED_CALL_STATUS_HELD \<or>
      (\<exists>k < 3. get_held_call_index s = int k \<and> used_slot (gsm_calls s ! k) \<and>
         enhanced_status (gsm_calls s ! k) \<noteq> HFP_ENHANCED_CALL_STATUS_ACTIVE \<and> has_status s HFP_ENHANCED_CALL_STATUS_HELD)"
    and "\<not> hfp_gsm_response_held_active s \<or>
      (\<exists>k < 3. get_response_held_call_index s = int k \<and> used_slot (gsm_calls s ! k) \<and> hfp_gsm_response_held_active s)"
proof -
  note eqs = get_status_eq initiated_eq gsm_ok_length [OF assms]
  show "get_active_call_index s = -1 \<and> \<not> has_status s HFP_ENHANCED_CALL_STATUS_ACTIVE \<or>
      (\<exists>k < 3. get_active_call_index s = int k \<and> used_slot (gsm_calls s ! k) \<and> has_status s HFP_ENHANCED_CALL_STATUS_ACTIVE)"
    using active_none_iff [of s] unfolding get_active_call_index_def get_call_index_with_enhanced_status_def
    by (cases rule: first_call_cases [of s "\<lambda>c. get_enhanced_call_status c = Some HFP_ENHANCED_CALL_STATUS_ACTIVE"])
       (auto simp: eqs)
  show "get_initiated_call_index s = -1 \<and> \<not> has_initiated s \<or>
      (\<exists>k < 3. get_initiated_call_index s = int k \<and> used_slot (gsm_calls s ! k) \<and>
         enhanced_status (gsm_calls s ! k) \<noteq> HFP_ENHANCED_CALL_STATUS_ACTIVE \<and> has_initiated s)"
    using initiated_none_iff [of s] unfolding get_initiated_call_index_def
    by (cases rule: first_call_cases [of s is_enhanced_call_status_initiated]) (auto simp: eqs)
  show "get_held_call_index s = -1 \<and> \<not> has_status s HFP_ENHANCED_CALL_STATUS_HELD \<or>
      (\<exists>k < 3. get_held_call_index s = int k \<and> used_slot (gsm_calls s ! k) \<and>
         enhanced_status (gsm_calls s ! k) \<noteq> HFP_ENHANCED_CALL_STATUS_ACTIVE \<and> has_status s HFP_ENHANCED_CALL_STATUS_HELD)"
    using held_none_iff [of s] unfolding get_held_call_index_def get_call_index_with_enhanced_status_def
    by (cases rule: first_call_cases [of s "\<lambda>c. get_enhanced_call_status c = Some HFP_ENHANCED_CALL_STATUS_HELD"])
       (auto simp: eqs)
  show "\<not> hfp_gsm_response_held_active s \<or>
      (\<exists>k < 3. get_response_held_call_index s = int k \<and> used_slot (gsm_calls s ! k) \<and> hfp_gsm_response_held_active s)"
    unfolding hfp_gsm_response_held_active_def get_response_held_call_index_def get_call_index_with_enhanced_status_def
    by (cases rule: first_call_cases
          [of s "\<lambda>c. get_enhanced_call_status c = Some HFP_ENHANCED_CALL_STATUS_CALL_HELD_BY_RESPONSE_AND_HOLD"])
       (auto simp: eqs)
qed

text \<open>The events whose handling reaches for a call that does not exist, and so for \<open>gsm_calls[-1]\<close>.\<close>

definition call_present :: "gsm \<Rightarrow> bool" where
  "call_present s \<longleftrightarrow> has_status s HFP_ENHANCED_CALL_STATUS_ACTIVE \<or> has_status s HFP_ENHANCED_CALL_STATUS_HELD \<or>
     has_status s HFP_ENHANCED_CALL_STATUS_CALL_HELD_BY_RESPONSE_AND_HOLD"

definition gsm_unsafe :: "gsm \<Rightarrow> call_event \<Rightarrow> string option \<Rightarrow> bool" where
  "gsm_unsafe s event number \<longleftrightarrow>
     (let active = has_status s HFP_ENHANCED_CALL_STATUS_ACTIVE;
          held = has_status s HFP_ENHANCED_CALL_STATUS_HELD;
          incoming = (callsetup_status s = HFP_CALLSETUP_STATUS_INCOMING_CALL_SETUP_IN_PROGRESS);
          setup = (callsetup_status s \<noteq> HFP_CALLSETUP_STATUS_NO_CALL_SETUP_IN_PROGRESS)
      in case event of
        HFP_AG_OUTGOING_CALL_ESTABLISHED \<Rightarrow> \<not> has_initiated s
      | HFP_AG_INCOMING_CALL \<Rightarrow> \<not> setup \<and> (\<forall>c \<in> set (gsm_calls s). used_slot c)
      | HFP_AG_INCOMING_CALL_ACCEPTED_BY_AG \<Rightarrow> incoming \<and> (\<not> has_initiated s \<or> call_present s \<and> \<not> active)
      | HFP_AG_HELD_CALL_JOINED_BY_AG \<Rightarrow> call_present s \<and> incoming \<and> \<not> has_initiated s
      | HFP_AG_INCOMING_CALL_ACCEPTED_BY_HF \<Rightarrow> incoming \<and> \<not> call_present s \<and> \<not> has_initiated s
      | HFP_AG_RESPONSE_AND_HOLD_ACCEPT_INCOMING_CALL_BY_AG \<Rightarrow> incoming \<and> \<not> call_present s \<and> \<not> has_initiated s
      | HFP_AG_RESPONSE_AND_HOLD_ACCEPT_INCOMING_CALL_BY_HF \<Rightarrow> incoming \<and> \<not> call_present s \<and> \<not> has_initiated s
      | HFP_AG_TERMINATE_CALL_BY_HF \<Rightarrow> call_present s \<and> \<not> active
      | HFP_AG_TERMINATE_CALL_BY_AG \<Rightarrow> call_present s \<and> \<not> active
      | HFP_AG_CALL_HOLD_USER_BUSY \<Rightarrow> \<not> has_initiated s \<or> \<not> held
      | HFP_AG_CALL_HOLD_RELEASE_ACTIVE_ACCEPT_HELD_OR_WAITING_CALL \<Rightarrow> if setup then \<not> has_initiated s else \<not> held
      | HFP_AG_CALL_HOLD_PARK_ACTIVE_ACCEPT_HELD_OR_WAITING_CALL \<Rightarrow> if setup then \<not> has_initiated s else \<not> held
      | HFP_AG_SET_CLIP \<Rightarrow> number = None
      | _ \<Rightarrow> False)"

text \<open>The two events that may spoil the numbering: \<open>HOLD_USER_BUSY\<close> frees a slot without taking its index back,
  and a release by index renumbers the table while it searches it.\<close>

definition spoils_numbering :: "call_event \<Rightarrow> u8 \<Rightarrow> bool" where
  "spoils_numbering event index \<longleftrightarrow>
     event = HFP_AG_CALL_HOLD_USER_BUSY \<or>
     event = HFP_AG_CALL_HOLD_RELEASE_ACTIVE_ACCEPT_HELD_OR_WAITING_CALL \<and> 1 \<le> uint index \<and> uint index \<le> 3"

definition handled :: "bool \<Rightarrow> gsm \<Rightarrow> bool \<Rightarrow> gsm option \<Rightarrow> bool" where
  "handled b s bad r \<longleftrightarrow> (if bad then r = None else good_step b s r)"

lemma call_present_iff:
  "hfp_gsm_call_status s = HFP_CALL_STATUS_ACTIVE_OR_HELD_CALL_IS_PRESENT \<longleftrightarrow> call_present s"
  "hfp_gsm_call_status s = HFP_CALL_STATUS_NO_HELD_OR_ACTIVE_CALLS \<longleftrightarrow> \<not> call_present s"
  using call_status_eq [of s] by (cases "hfp_gsm_call_status s"; simp add: call_present_def)+

lemma call_present_setup [simp]:
  "call_present (set_callsetup_status s HFP_CALLSETUP_STATUS_NO_CALL_SETUP_IN_PROGRESS) = call_present s"
  by (simp add: call_present_def has_status_def)

lemma has_status_setup [simp]:
  "has_status (set_callsetup_status s HFP_CALLSETUP_STATUS_NO_CALL_SETUP_IN_PROGRESS) = has_status s"
  by (simp add: has_status_def fun_eq_iff)

lemma good_after_setup:
  assumes "gsm_ok s" "k < 3" "b \<Longrightarrow> used_slot (gsm_calls s ! k)"
  defines "s0 \<equiv> set_callsetup_status s HFP_CALLSETUP_STATUS_NO_CALL_SETUP_IN_PROGRESS"
  shows "good_step b s (set_enhanced_call_status_active s0 (int k))"
    and "good_step b s (set_enhanced_call_status_held s0 (int k))"
    and "good_step b s (set_enhanced_call_status_response_hold s0 (int k))"
    and "good_step b s (delete_call s0 (int k))"
  using good_status [of s0 k b] good_delete_used [of s0 k b] assms
  by (auto intro: good_setup_before simp: s0_def)

lemma handled_outgoing:
  assumes ok: "gsm_ok s"
  shows "handled b s False (outgoing_call_initiated s (get_next_free_slot s))"
    and "handled b s False (outgoing_call_rejected s (get_active_call_index s))"
    and "handled b s False (outgoing_call_accepted s (get_active_call_index s))"
    and "handled b s False (outgoing_call_ringing s (get_active_call_index s))"
    and "handled b s (\<not> has_initiated s) (outgoing_call_established s (get_initiated_call_index s))"
proof -
  show "handled b s False (outgoing_call_initiated s (get_next_free_slot s))"
    using ok free_none_iff [of s] by (auto simp: handled_def outgoing_call_initiated_def intro: good_create)
  show "handled b s False (outgoing_call_rejected s (get_active_call_index s))"
    using index_cases(1) [OF ok] ok by (auto simp: handled_def outgoing_call_rejected_def intro!: good_bind good_delete_used)
  show "handled b s False (outgoing_call_accepted s (get_active_call_index s))"
    using index_cases(1) [OF ok] ok by (auto simp: handled_def outgoing_call_accepted_def intro!: good_bind good_status)
  show "handled b s False (outgoing_call_ringing s (get_active_call_index s))"
    using ok by (auto simp: handled_def outgoing_call_ringing_def)
  show "handled b s (\<not> has_initiated s) (outgoing_call_established s (get_initiated_call_index s))"
    using index_cases(2) [OF ok] ok
    by (auto simp: handled_def outgoing_call_established_def intro!: good_after_setup)
qed

lemma good_incoming:
  assumes ok: "gsm_ok s" and "\<exists>c \<in> set (gsm_calls s). \<not> used_slot c"
  shows "good_step b s (create_call (set_callsetup_status s HFP_CALLSETUP_STATUS_INCOMING_CALL_SETUP_IN_PROGRESS) d)"
  by (rule good_setup_before, rule good_create) (use assms in simp_all)

lemma handled_incoming:
  assumes ok: "gsm_ok s"
  shows "handled b s (callsetup_status s = HFP_CALLSETUP_STATUS_NO_CALL_SETUP_IN_PROGRESS \<and>
      (\<forall>c \<in> set (gsm_calls s). used_slot c)) (incoming_call s)"
    and "handled b s (callsetup_status s = HFP_CALLSETUP_STATUS_INCOMING_CALL_SETUP_IN_PROGRESS \<and> \<not> call_present s \<and>
      \<not> has_initiated s) (incoming_call_accepted_by_hf s (get_initiated_call_index s))"
    and "handled b s (callsetup_status s = HFP_CALLSETUP_STATUS_INCOMING_CALL_SETUP_IN_PROGRESS \<and> \<not> call_present s \<and>
      \<not> has_initiated s) (response_and_hold_accept_incoming_call s (get_initiated_call_index s))"
    and "handled b s False (response_and_hold_accept_held_call s)"
    and "handled b s False (response_and_hold_reject_held_call s)"
proof -
  show "handled b s (callsetup_status s = HFP_CALLSETUP_STATUS_NO_CALL_SETUP_IN_PROGRESS \<and>
      (\<forall>c \<in> set (gsm_calls s). used_slot c)) (incoming_call s)"
    using ok by (auto simp: handled_def incoming_call_def hfp_gsm_callsetup_status_def create_call_minus intro: good_incoming)
  show "handled b s (callsetup_status s = HFP_CALLSETUP_STATUS_INCOMING_CALL_SETUP_IN_PROGRESS \<and> \<not> call_present s \<and>
      \<not> has_initiated s) (incoming_call_accepted_by_hf s (get_initiated_call_index s))"
    using index_cases(2) [OF ok] ok
    by (auto simp: handled_def incoming_call_accepted_by_hf_def hfp_gsm_callsetup_status_def call_present_iff
        intro!: good_after_setup)
  show "handled b s (callsetup_status s = HFP_CALLSETUP_STATUS_INCOMING_CALL_SETUP_IN_PROGRESS \<and> \<not> call_present s \<and>
      \<not> has_initiated s) (response_and_hold_accept_incoming_call s (get_initiated_call_index s))"
    using index_cases(2) [OF ok] ok
    by (auto simp: handled_def response_and_hold_accept_incoming_call_def hfp_gsm_callsetup_status_def call_present_iff
        intro!: good_after_setup)
  show "handled b s False (response_and_hold_accept_held_call s)"
    using index_cases(4) [OF ok] ok
    by (auto simp: handled_def response_and_hold_accept_held_call_def intro!: good_status)
  show "handled b s False (response_and_hold_reject_held_call s)"
    using index_cases(4) [OF ok] ok
    by (auto simp: handled_def response_and_hold_reject_held_call_def intro!: good_delete_used)
qed

lemma handled_accepted_by_ag:
  assumes ok: "gsm_ok s"
  shows "handled b s (callsetup_status s = HFP_CALLSETUP_STATUS_INCOMING_CALL_SETUP_IN_PROGRESS \<and>
      (\<not> has_initiated s \<or> call_present s \<and> \<not> has_status s HFP_ENHANCED_CALL_STATUS_ACTIVE))
      (incoming_call_accepted_by_ag s (get_active_call_index s) (get_initiated_call_index s))"
proof (cases "callsetup_status s = HFP_CALLSETUP_STATUS_INCOMING_CALL_SETUP_IN_PROGRESS \<and> has_initiated s \<and>
    (call_present s \<longrightarrow> has_status s HFP_ENHANCED_CALL_STATUS_ACTIVE)")
  case False
  show ?thesis
  proof (cases "callsetup_status s = HFP_CALLSETUP_STATUS_INCOMING_CALL_SETUP_IN_PROGRESS")
    case True
    with False have "\<not> has_initiated s \<or> call_present s \<and> \<not> has_status s HFP_ENHANCED_CALL_STATUS_ACTIVE" by blast
    with True index_cases(1,2) [OF ok] show ?thesis
      by (auto simp: handled_def incoming_call_accepted_by_ag_def hfp_gsm_callsetup_status_def call_present_iff)
  qed (use ok in \<open>simp add: handled_def incoming_call_accepted_by_ag_def hfp_gsm_callsetup_status_def\<close>)
next
  case True
  let ?s = "set_callsetup_status s HFP_CALLSETUP_STATUS_NO_CALL_SETUP_IN_PROGRESS"
  obtain i where i: "get_initiated_call_index s = int i" "i < 3" "used_slot (gsm_calls s ! i)"
    using True index_cases(2) [OF ok] by blast
  have ok': "gsm_ok ?s" using ok by simp
  show ?thesis
  proof (cases "call_present s")
    case False
    then show ?thesis using True i good_after_setup(1) [OF ok i(2), of b]
      by (simp add: handled_def incoming_call_accepted_by_ag_def hfp_gsm_callsetup_status_def call_present_iff)
  next
    case p: True
    with True obtain a where a: "get_active_call_index s = int a" "a < 3" "used_slot (gsm_calls s ! a)"
      using index_cases(1) [OF ok] by blast
    have "good_step b ?s (Option.bind (set_enhanced_call_status_held ?s (int a)) (\<lambda>s. set_enhanced_call_status_active s (int i)))"
    proof -
      let ?s1 = "?s\<lparr> gsm_calls := (gsm_calls ?s)[a := (gsm_calls ?s ! a)\<lparr> enhanced_status := HFP_ENHANCED_CALL_STATUS_HELD, used_slot := True \<rparr>] \<rparr>"
      have e: "set_enhanced_call_status_held ?s (int a) = Some ?s1"
        using ok' a by (simp add: set_enhanced_call_status_held_def)
      have ok1: "gsm_ok ?s1" by (rule put_status_ok [OF ok' a(2)])
      have sl: "slots ?s1 = slots ?s" by (rule put_status_slots [OF ok' a(2)]) (use a in simp)
      have "used_slot (gsm_calls ?s1 ! i)" using i a ok by (simp add: nth_list_update)
      then have "good_step b ?s1 (set_enhanced_call_status_active ?s1 (int i))" using good_status(1) [OF ok1 i(2)] by blast
      then show ?thesis using sl by (simp add: e good_step_def numbered_def)
    qed
    then show ?thesis using True p i a good_setup_before
      by (auto simp: handled_def incoming_call_accepted_by_ag_def hfp_gsm_callsetup_status_def call_present_iff Let_def)
  qed
qed

lemma handled_terminate:
  assumes ok: "gsm_ok s"
  shows "handled b s (call_present s \<and> \<not> has_status s HFP_ENHANCED_CALL_STATUS_ACTIVE)
      (terminate_call_by_hf s (get_active_call_index s))"
    and "handled b s (call_present s \<and> \<not> has_status s HFP_ENHANCED_CALL_STATUS_ACTIVE)
      (terminate_call_by_ag s (get_active_call_index s))"
    and "handled b s False (call_dropped s)"
    and "handled b s False (call_hold_exit_and_join_calls s)"
proof -
  have split: "hfp_gsm_call_status s = (if call_present s then HFP_CALL_STATUS_ACTIVE_OR_HELD_CALL_IS_PRESENT
      else HFP_CALL_STATUS_NO_HELD_OR_ACTIVE_CALLS)"
    using call_present_iff [of s] by simp
  show "handled b s (call_present s \<and> \<not> has_status s HFP_ENHANCED_CALL_STATUS_ACTIVE)
      (terminate_call_by_hf s (get_active_call_index s))"
    using index_cases(1) [OF ok] ok
    by (auto simp: handled_def terminate_call_by_hf_def split intro!: good_delete_used)
  show "handled b s (call_present s \<and> \<not> has_status s HFP_ENHANCED_CALL_STATUS_ACTIVE)
      (terminate_call_by_ag s (get_active_call_index s))"
    using index_cases(1) [OF ok] ok
    by (auto simp: handled_def terminate_call_by_ag_def split intro!: good_after_setup)
  show "handled b s False (call_dropped s)"
    using ok good_delete_all [of "set_callsetup_status s HFP_CALLSETUP_STATUS_NO_CALL_SETUP_IN_PROGRESS" b]
    by (auto simp: handled_def call_dropped_def Let_def intro: good_setup_before)
  show "handled b s False (call_hold_exit_and_join_calls s)"
    using ok by (simp add: handled_def call_hold_exit_and_join_calls_def good_delete_all)
qed

lemma good_conference:
  assumes "gsm_ok s"
  shows "good_step b s (for_calls (\<lambda>i s. do {
          c \<leftarrow> call_at s i;
          if is_enhanced_call_status_active c
          then call_put s i (c\<lparr> mpty := HFP_ENHANCED_CALL_MPTY_CONFERENCE_CALL \<rparr>) else Some s }) s)"
proof (rule good_for_calls [OF assms])
  fix k s assume "k < (3 :: nat)" "gsm_ok s"
  moreover from this have "call_ok (gsm_calls s ! k)" by (rule gsm_ok_call [rotated])
  ultimately show "good_step b s (do { c \<leftarrow> call_at s (int k);
      if is_enhanced_call_status_active c
      then call_put s (int k) (c\<lparr> mpty := HFP_ENHANCED_CALL_MPTY_CONFERENCE_CALL \<rparr>) else Some s })"
    by (simp del: call_put_int) (auto simp: call_ok_def intro!: good_put simp del: call_put_int)
qed

lemmas good_conference_setup = good_setup_before [OF good_conference]

lemma good_conference_all:
  assumes "gsm_ok s"
  shows "good_step b s (for_calls (\<lambda>i s. do {
        c \<leftarrow> call_at s i;
        if used_slot c
        then do {
          s \<leftarrow> set_enhanced_call_status_active s i;
          call_upd s i (\<lambda>c. c\<lparr> mpty := HFP_ENHANCED_CALL_MPTY_CONFERENCE_CALL \<rparr>) }
        else Some s }) s)"
proof (rule good_for_calls [OF assms])
  fix k s assume k: "k < (3 :: nat)" and ok: "gsm_ok s"
  have upd: "good_step b s' (call_upd s' (int k) (\<lambda>c. c\<lparr> mpty := HFP_ENHANCED_CALL_MPTY_CONFERENCE_CALL \<rparr>))"
    if "gsm_ok s'" for s'
    using that k gsm_ok_call [OF that k] by (intro good_upd) (simp_all add: call_ok_def)
  show "good_step b s (do { c \<leftarrow> call_at s (int k);
        if used_slot c
        then do {
          s \<leftarrow> set_enhanced_call_status_active s (int k);
          call_upd s (int k) (\<lambda>c. c\<lparr> mpty := HFP_ENHANCED_CALL_MPTY_CONFERENCE_CALL \<rparr>) }
        else Some s })"
    using k ok upd by (auto simp del: call_upd_int intro!: good_bind good_status)
qed

lemma handled_joined:
  assumes ok: "gsm_ok s"
  shows "handled b s (call_present s \<and> callsetup_status s = HFP_CALLSETUP_STATUS_INCOMING_CALL_SETUP_IN_PROGRESS \<and>
      \<not> has_initiated s) (held_call_joined_by_ag s (get_initiated_call_index s) (get_held_call_index s))"
    and "handled b s False (call_hold_add_held_call s)"
proof -
  have held: "has_status s HFP_ENHANCED_CALL_STATUS_HELD"
    if "hfp_gsm_callheld_status s = HFP_CALLHELD_STATUS_CALL_ON_HOLD_OR_SWAPPED"
    using that by (auto simp: hfp_gsm_callheld_status_def get_number_held_calls_def
        get_number_calls_with_enhanced_status_def count_calls_0_iff get_status_eq has_status_def split: if_splits)
  show "handled b s (call_present s \<and> callsetup_status s = HFP_CALLSETUP_STATUS_INCOMING_CALL_SETUP_IN_PROGRESS \<and>
      \<not> has_initiated s) (held_call_joined_by_ag s (get_initiated_call_index s) (get_held_call_index s))"
    using index_cases(2,3) [OF ok] ok held
    by (auto simp: handled_def held_call_joined_by_ag_def call_present_iff
        intro!: good_bind good_conference good_conference_setup good_status)
  show "handled b s False (call_hold_add_held_call s)"
    using ok by (simp add: handled_def call_hold_add_held_call_def good_conference_all)
qed

lemma good_accept:
  assumes "gsm_ok s" "(if callsetup_status s \<noteq> HFP_CALLSETUP_STATUS_NO_CALL_SETUP_IN_PROGRESS then initiated else held) = int k"
    "k < 3" "b \<Longrightarrow> used_slot (gsm_calls s ! k)"
  shows "good_step b s (accept_held_or_waiting s initiated held)"
  using assms by (auto simp: accept_held_or_waiting_def split: if_splits intro!: good_bind good_status)

lemma accept_none:
  "(if callsetup_status s \<noteq> HFP_CALLSETUP_STATUS_NO_CALL_SETUP_IN_PROGRESS then initiated else held) = - 1 \<Longrightarrow>
     accept_held_or_waiting s initiated held = None"
  by (auto simp: accept_held_or_waiting_def split: if_splits)

text \<open>What the loops of the hold cases keep of the calls that are not active.\<close>

definition keeps_others :: "bool \<Rightarrow> gsm \<Rightarrow> gsm \<Rightarrow> bool" where
  "keeps_others b s s' \<longleftrightarrow> gsm_ok s' \<and> callsetup_status s' = callsetup_status s \<and>
     (b \<longrightarrow> (numbered s \<longrightarrow> numbered s') \<and>
       (\<forall>k < 3. used_slot (gsm_calls s ! k) \<and> enhanced_status (gsm_calls s ! k) \<noteq> HFP_ENHANCED_CALL_STATUS_ACTIVE \<longrightarrow>
          used_slot (gsm_calls s' ! k) \<and> enhanced_status (gsm_calls s' ! k) \<noteq> HFP_ENHANCED_CALL_STATUS_ACTIVE))"

lemma keeps_others_refl: "gsm_ok s \<Longrightarrow> keeps_others b s s"
  by (simp add: keeps_others_def)

lemma keeps_others_trans: "keeps_others b s s1 \<Longrightarrow> keeps_others b s1 s2 \<Longrightarrow> keeps_others b s s2"
  by (auto simp: keeps_others_def)

lemma keeps_others_loop:
  assumes "gsm_ok s" and "\<And>k s. k < 3 \<Longrightarrow> gsm_ok s \<Longrightarrow> \<exists>s'. body (int k) s = Some s' \<and> keeps_others b s s'"
  shows "\<exists>s'. for_calls body s = Some s' \<and> keeps_others b s s'"
proof (rule for_calls_inv [where Q = "keeps_others b s"])
  fix k :: nat and s1 assume "k < 3" "keeps_others b s s1"
  then show "\<exists>s2. body (int k) s1 = Some s2 \<and> keeps_others b s s2"
  proof -
    have "gsm_ok s1" using \<open>keeps_others b s s1\<close> by (simp add: keeps_others_def)
    then obtain s2 where "body (int k) s1 = Some s2" "keeps_others b s1 s2"
      using assms(2) \<open>k < 3\<close> by blast
    then show ?thesis using keeps_others_trans [OF \<open>keeps_others b s s1\<close>] by blast
  qed
qed (rule keeps_others_refl [OF assms(1)])

lemma delete_keeps_others:
  assumes ok: "gsm_ok s" and k: "k < 3" and "b \<Longrightarrow> is_enhanced_call_status_active (gsm_calls s ! k)"
  shows "\<exists>s'. delete_call s (int k) = Some s' \<and> keeps_others b s s'"
proof -
  have a: "used_slot (gsm_calls s ! k) \<and> enhanced_status (gsm_calls s ! k) = HFP_ENHANCED_CALL_STATUS_ACTIVE" if b
    using assms(3) [OF that] by (simp add: is_enhanced_call_status_active_def get_status_eq)
  obtain s' where s': "delete_call s (int k) = Some s'" "gsm_ok s'" "callsetup_status s' = callsetup_status s"
    using delete_call_ok [OF ok k] by metis
  have "numbered s \<longrightarrow> numbered s'" if b
    using good_delete_used [OF ok k, of True] a [OF that] s'(1) by (auto simp: good_step_def)
  moreover have "\<forall>j < 3. used_slot (gsm_calls s ! j) \<and> enhanced_status (gsm_calls s ! j) \<noteq> HFP_ENHANCED_CALL_STATUS_ACTIVE \<longrightarrow>
      used_slot (gsm_calls s' ! j) \<and> enhanced_status (gsm_calls s' ! j) \<noteq> HFP_ENHANCED_CALL_STATUS_ACTIVE" if b
    using s'(1) a [OF that] ok k by (auto simp: delete_call_eq [OF ok k] nth_list_update split: if_split_asm)
  ultimately show ?thesis using s' by (auto simp: keeps_others_def)
qed

lemma hold_keeps_others:
  assumes ok: "gsm_ok s" and k: "k < 3" and a: "is_enhanced_call_status_active (gsm_calls s ! k)"
  shows "\<exists>s'. set_enhanced_call_status_held s (int k) = Some s' \<and> keeps_others b s s'"
proof -
  have u: "used_slot (gsm_calls s ! k)" using a by (simp add: is_enhanced_call_status_active_def get_status_eq)
  show ?thesis
    using put_status_ok [OF ok k] put_status_slots [OF ok k u] ok k
    by (auto simp: set_enhanced_call_status_held_def keeps_others_def numbered_def nth_list_update)
qed

lemma handled_hold:
  fixes index :: u8
  assumes ok: "gsm_ok s"
  defines "bad \<equiv> (if callsetup_status s \<noteq> HFP_CALLSETUP_STATUS_NO_CALL_SETUP_IN_PROGRESS then \<not> has_initiated s
      else \<not> has_status s HFP_ENHANCED_CALL_STATUS_HELD)"
    and "b \<equiv> \<not> (1 \<le> uint index \<and> uint index \<le> 3)"
  shows "handled b s bad (call_hold_release_active s (get_initiated_call_index s) (get_held_call_index s) index)"
    and "handled True s bad (call_hold_park_active s (get_initiated_call_index s) (get_held_call_index s) index)"
proof -
  have tail: "handled b' s bad (do { s \<leftarrow> r; accept_held_or_waiting s (get_initiated_call_index s0) (get_held_call_index s0) })"
    if r: "\<exists>s'. r = Some s' \<and> keeps_others b' s s'" and s0: "s0 = s" for b' r s0
  proof -
    obtain s1 where s1: "r = Some s1" "keeps_others b' s s1" using r by blast
    have ok1: "gsm_ok s1" and st: "callsetup_status s1 = callsetup_status s" using s1(2) by (simp_all add: keeps_others_def)
    show ?thesis
    proof (cases bad)
      case True
      then have "(if callsetup_status s1 \<noteq> HFP_CALLSETUP_STATUS_NO_CALL_SETUP_IN_PROGRESS
          then get_initiated_call_index s else get_held_call_index s) = - 1"
        by (simp add: bad_def st initiated_none_iff held_none_iff split: if_splits)
      from accept_none [OF this] show ?thesis using True s1 s0 by (simp add: handled_def)
    next
      case False
      then obtain k where k: "(if callsetup_status s1 \<noteq> HFP_CALLSETUP_STATUS_NO_CALL_SETUP_IN_PROGRESS
          then get_initiated_call_index s else get_held_call_index s) = int k" "k < 3"
        "used_slot (gsm_calls s ! k) \<and> enhanced_status (gsm_calls s ! k) \<noteq> HFP_ENHANCED_CALL_STATUS_ACTIVE"
        using index_cases(2,3) [OF ok] by (auto simp: bad_def st split: if_splits)
      have "good_step b' s1 (accept_held_or_waiting s1 (get_initiated_call_index s) (get_held_call_index s))"
        by (rule good_accept [OF ok1 k(1,2)]) (use s1(2) k(2,3) in \<open>auto simp: keeps_others_def\<close>)
      then show ?thesis using False s1 s0 by (auto simp: handled_def good_step_def keeps_others_def)
    qed
  qed
  have idx: "index \<noteq> 0 \<and> uint index \<le> HFP_GSM_MAX_NR_CALLS \<longleftrightarrow> \<not> b"
  proof -
    have "uint index = 0 \<longleftrightarrow> index = 0" by (simp add: unsigned_eq_0_iff)
    moreover have "x \<noteq> 0 \<and> x \<le> 3 \<longleftrightarrow> 1 \<le> x \<and> x \<le> 3" if "0 \<le> x" for x :: int using that by auto
    from this [of "uint index"] have "uint index \<noteq> 0 \<and> uint index \<le> 3 \<longleftrightarrow> 1 \<le> uint index \<and> uint index \<le> 3" by simp
    ultimately show ?thesis by (simp add: b_def gsm_size)
  qed
  have l1: "\<exists>s'. for_calls (\<lambda>i s. do { c \<leftarrow> call_at s i; if call_index c = uint index then delete_call s i else Some s }) s = Some s'
      \<and> keeps_others False s s'"
    by (rule keeps_others_loop [OF ok]) (auto simp: keeps_others_refl delete_keeps_others)
  have l2: "\<exists>s'. for_calls (\<lambda>i s. do { c \<leftarrow> call_at s i; if is_enhanced_call_status_active c then delete_call s i else Some s }) s = Some s'
      \<and> keeps_others True s s'"
    by (rule keeps_others_loop [OF ok]) (auto simp: keeps_others_refl delete_keeps_others)
  have l3: "\<exists>s'. for_calls (\<lambda>i s. do { c \<leftarrow> call_at s i; if is_enhanced_call_status_active c \<and> call_index c \<noteq> uint index
      then set_enhanced_call_status_held s i else Some s }) s = Some s' \<and> keeps_others True s s'"
    by (rule keeps_others_loop [OF ok]) (auto simp: keeps_others_refl hold_keeps_others)
  show "handled b s bad (call_hold_release_active s (get_initiated_call_index s) (get_held_call_index s) index)"
  proof (cases b)
    case True
    then show ?thesis using tail [OF l2 refl] by (simp only: call_hold_release_active_def idx if_False not_True_eq_False)
  next
    case False
    then show ?thesis using tail [OF l1 refl] by (simp only: call_hold_release_active_def idx if_True not_False_eq_True)
  qed
  show "handled True s bad (call_hold_park_active s (get_initiated_call_index s) (get_held_call_index s) index)"
    using tail [OF l3 refl] by (simp add: call_hold_park_active_def)
qed

lemma handled_user_busy:
  assumes ok: "gsm_ok s"
  shows "handled False s (\<not> has_initiated s \<or> \<not> has_status s HFP_ENHANCED_CALL_STATUS_HELD)
      (call_hold_user_busy s (get_initiated_call_index s) (get_held_call_index s))"
proof -
  let ?s = "set_callsetup_status s HFP_CALLSETUP_STATUS_NO_CALL_SETUP_IN_PROGRESS"
  have free: "good_step False ?s (free_call_slot ?s (int k))" if "k < 3" for k
    using that ok gsm_ok_call [of ?s k] unfolding free_call_slot_def by (intro good_upd) (simp_all add: call_ok_def)
  show ?thesis
  proof (cases "has_initiated s \<and> has_status s HFP_ENHANCED_CALL_STATUS_HELD")
    case True
    then obtain i h where "get_initiated_call_index s = int i" "i < 3" "get_held_call_index s = int h" "h < 3"
      using index_cases(2,3) [OF ok] by blast
    with True show ?thesis
      by (auto simp: handled_def call_hold_user_busy_def intro!: good_setup_before [OF good_bind [OF free]] good_status)
  next
    case False
    then have "get_initiated_call_index s = - 1 \<or> get_held_call_index s = - 1"
      by (auto simp: initiated_none_iff held_none_iff)
    with False show ?thesis by (auto simp: handled_def call_hold_user_busy_def)
  qed
qed

lemma handled_set_clip:
  assumes ok: "gsm_ok s" and t: "terminated number"
  shows "handled b s (number = None) (handle_set_clip s (get_initiated_call_index s) type number)"
proof (cases number)
  case None
  then show ?thesis by (simp add: handled_def handle_set_clip_def hfp_gsm_set_clip_def Let_def)
next
  case (Some cs)
  then have z: "CHR 0x00 \<in> set cs" using t by (simp add: terminated_def)
  show ?thesis
  proof (cases "get_initiated_call_index s = - 1")
    case True
    obtain d where d: "c_strncpy (clip_number s) cs HFP_GSM_MAX_CALL_NUMBER_SIZE = Some d" "length d = HFP_GSM_MAX_CALL_NUMBER_SIZE"
      using c_strncpy_Some [OF z, of HFP_GSM_MAX_CALL_NUMBER_SIZE "clip_number s"] ok by (auto simp: gsm_ok_def)
    have "CHR 0x00 \<in> set (d[HFP_GSM_MAX_CALL_NUMBER_SIZE - 1 := CHR 0x00])"
      using d(2) by (intro set_update_memI) (simp add: gsm_size)
    then have "gsm_ok (s\<lparr> clip_type := type, clip_number := d[HFP_GSM_MAX_CALL_NUMBER_SIZE - 1 := CHR 0x00] \<rparr>)"
      using ok d(2) by (simp add: gsm_ok_def)
    moreover have "slots (s\<lparr> clip_type := type, clip_number := x \<rparr>) = slots s" for x by (simp add: slots_def)
    ultimately show ?thesis using True Some d
      by (simp add: handled_def handle_set_clip_def Let_def wr_def gsm_size good_step_def numbered_def)
  next
    case False
    then obtain i where i: "get_initiated_call_index s = int i" "i < 3" using index_cases(2) [OF ok] by auto
    obtain s' where "hfp_gsm_set_clip s (int i) type number = Some s'" "gsm_ok s'" "slots s' = slots s"
      by (rule hfp_gsm_set_clip_ok [OF ok i(2) Some z])
    then show ?thesis using Some False i
      by (simp add: handled_def handle_set_clip_def good_step_def numbered_def)
  qed
qed

lemma handler_handled:
  assumes ok: "gsm_ok s" and t: "terminated number"
  shows "handled (\<not> spoils_numbering event index) s (gsm_unsafe s event number) (hfp_gsm_handler s event index type number)"
proof -
  have same: "handled b s False (Some s)" for b by (simp add: handled_def ok)
  note h = handled_outgoing [OF ok] handled_incoming [OF ok] handled_accepted_by_ag [OF ok] handled_terminate [OF ok]
    handled_joined [OF ok] handled_hold [OF ok] handled_user_busy [OF ok] handled_set_clip [OF ok t] same
  show ?thesis
    by (cases event; simp only: hfp_gsm_handler_def gsm_unsafe_def spoils_numbering_def call_event.case Let_def
        call_event.distinct simp_thms)
       (rule h)+
qed

section \<open>Reachable tables\<close>

text \<open>A table is reachable when events other than those two lead to it from \<^const>\<open>hfp_gsm_init\<close>.\<close>

inductive gsm_reachable :: "gsm \<Rightarrow> bool" where
  reach_init: "hfp_gsm_init s = Some s' \<Longrightarrow> gsm_reachable s'"
| reach_step: "gsm_reachable s \<Longrightarrow> \<not> spoils_numbering event index \<Longrightarrow> terminated number \<Longrightarrow>
    hfp_gsm_handler s event index type number = Some s' \<Longrightarrow> gsm_reachable s'"

lemma hfp_gsm_init_eq:
  "hfp_gsm_init s = Some (s\<lparr> gsm_calls := replicate 3 blank_call,
     callsetup_status := HFP_CALLSETUP_STATUS_NO_CALL_SETUP_IN_PROGRESS, clip_type := 0,
     clip_number := replicate HFP_GSM_MAX_CALL_NUMBER_SIZE CHR 0x00,
     last_dialed_number := replicate HFP_GSM_MAX_CALL_NUMBER_SIZE CHR 0x00 \<rparr>)"
  by (simp add: hfp_gsm_init_def for_calls_def free_call_slot_def call_upd_def call_at_def call_put_def rd_def wr_def
      numeral_3_eq_3 blank_call_def set_callsetup_status_def)

lemma reachable_ok: "gsm_reachable s \<Longrightarrow> gsm_ok s \<and> numbered s"
proof (induction rule: gsm_reachable.induct)
  case (reach_init s s')
  then show ?case
    by (auto simp: hfp_gsm_init_eq gsm_ok_def call_ok_def blank_call_def gsm_size numbered_def slots_def
        numeral_3_eq_3 numbered_slots_def)
next
  case (reach_step s event index number type s')
  have "handled (\<not> spoils_numbering event index) s (gsm_unsafe s event number) (Some s')"
    using handler_handled [of s number event index type] reach_step by simp
  with reach_step show ?case by (auto simp: handled_def good_step_def split: if_splits)
qed

lemma find_index:
  assumes "length xs = 3" and "numbered_slots xs" and "1 \<le> k"
  shows "(\<exists>x \<in> set xs. snd x = k \<and> fst x) \<longleftrightarrow> k \<le> int (length (filter fst xs))"
    and "\<forall>x \<in> set xs. snd x = k \<longrightarrow> fst x"
proof -
  obtain a b c where xs: "xs = [a, b, c]" using assms(1) by (rule length_3_obtain)
  obtain ua ia ub ib uc ic where abc: "a = (ua, ia)" "b = (ub, ib)" "c = (uc, ic)" by (meson surj_pair)
  show "(\<exists>x \<in> set xs. snd x = k \<and> fst x) \<longleftrightarrow> k \<le> int (length (filter fst xs))"
    using assms(2,3) unfolding xs abc by (cases ua; cases ub; cases uc; simp add: numbered_slots_def; linarith)
  show "\<forall>x \<in> set xs. snd x = k \<longrightarrow> fst x"
    using assms(2,3) unfolding xs abc by (cases ua; cases ub; cases uc; simp add: numbered_slots_def)
qed

lemma call_lookup:
  assumes "gsm_ok s" and "numbered s" and "1 \<le> k"
  shows "(\<exists>c. hfp_gsm_call s k = Some c \<and> used_slot c \<and> call_index c = k) \<longleftrightarrow> k \<le> hfp_gsm_get_number_of_calls s"
    and "hfp_gsm_call s k \<noteq> None \<longleftrightarrow> k \<le> hfp_gsm_get_number_of_calls s"
proof -
  note f = find_index [of "slots s" k, OF _ assms(2) [unfolded numbered_def] assms(3)]
  have len: "length (filter used_slot (gsm_calls s)) + length (filter (\<lambda>c. \<not> used_slot c) (gsm_calls s)) = 3"
    using sum_length_filter_compl [of used_slot "gsm_calls s"] assms(1) by simp
  have n: "int (length (filter fst (slots s))) = hfp_gsm_get_number_of_calls s"
    using len by (simp add: hfp_gsm_get_number_of_calls_def get_number_none_calls_def count_calls_def slots_def
        filter_map o_def gsm_size)
  have all: "\<forall>c \<in> set (gsm_calls s). call_index c = k \<longrightarrow> used_slot c"
    using f(2) assms(1) by (auto simp: slots_def)
  have ex: "(\<exists>c \<in> set (gsm_calls s). call_index c = k) \<longleftrightarrow> k \<le> hfp_gsm_get_number_of_calls s"
    using f(1) assms(1) n all by (auto simp: slots_def)
  show "hfp_gsm_call s k \<noteq> None \<longleftrightarrow> k \<le> hfp_gsm_get_number_of_calls s"
    using ex by (auto simp: hfp_gsm_call_def find_None_iff)
  have "hfp_gsm_call s k = Some c \<Longrightarrow> used_slot c \<and> call_index c = k" for c
    using all unfolding hfp_gsm_call_def find_Some_iff by (metis nth_mem)
  then have "(\<exists>c. hfp_gsm_call s k = Some c \<and> used_slot c \<and> call_index c = k) \<longleftrightarrow> hfp_gsm_call s k \<noteq> None"
    by blast
  with \<open>hfp_gsm_call s k \<noteq> None \<longleftrightarrow> k \<le> hfp_gsm_get_number_of_calls s\<close>
  show "(\<exists>c. hfp_gsm_call s k = Some c \<and> used_slot c \<and> call_index c = k) \<longleftrightarrow> k \<le> hfp_gsm_get_number_of_calls s"
    by simp
qed

section \<open>Properties\<close>

definition gsm_start :: gsm where
  "gsm_start = \<lparr> gsm_calls = [blank_call, blank_call, blank_call],
     callsetup_status = HFP_CALLSETUP_STATUS_NO_CALL_SETUP_IN_PROGRESS, clip_type = 0,
     clip_number = replicate HFP_GSM_MAX_CALL_NUMBER_SIZE CHR 0x00,
     last_dialed_number = replicate HFP_GSM_MAX_CALL_NUMBER_SIZE CHR 0x00 \<rparr>"

lemma hfp_gsm_init_start: "hfp_gsm_init s = Some gsm_start"
  by (simp add: hfp_gsm_init_eq gsm_start_def numeral_3_eq_3)

lemma gsm_start_reachable: "gsm_reachable gsm_start"
  using gsm_reachable.reach_init hfp_gsm_init_start by blast

text \<open>A sequence of events, each with its call index.\<close>

fun gsm_run :: "gsm \<Rightarrow> (call_event \<times> u8) list \<Rightarrow> gsm option" where
  "gsm_run s [] = Some s"
| "gsm_run s ((event, index) # es) = do {
     s \<leftarrow> hfp_gsm_handle_event_with_call_index s event index;
     gsm_run s es }"

text \<open>C22: Safety of the call state machine.  On a table of three calls, and with a terminated number, the event
  handler stays within the table exactly when the event does not ask for a call that is missing: it accesses
  \<open>gsm_calls[-1]\<close> (or a null number) in the situations of \<open>gsm_unsafe\<close> and in no other, and whenever it returns the
  table is well formed again.\<close>

theorem hfp_gsm_handler_safe:
  assumes "gsm_ok s" and "terminated number"
  shows "(hfp_gsm_handler s event index type number = None \<longleftrightarrow> gsm_unsafe s event number) \<and>
    (\<forall>s'. hfp_gsm_handler s event index type number = Some s' \<longrightarrow> gsm_ok s')"
  using handler_handled [OF assms, of event index type] by (auto simp: handled_def good_step_def split: if_splits)

lemma gsm_start_ok: "gsm_ok gsm_start"
  using reachable_ok [OF gsm_start_reachable] by simp

theorem hfp_gsm_handler_safe_witness:
  "hfp_gsm_handler gsm_start HFP_AG_OUTGOING_CALL_ESTABLISHED 0 0 None = None \<and>
   hfp_gsm_handler gsm_start HFP_AG_OUTGOING_CALL_INITIATED 0 0 None \<noteq> None"
proof -
  have t: "terminated None" by (simp add: terminated_def)
  have u: "\<not> has_initiated gsm_start" by (simp add: has_initiated_def has_status_def gsm_start_def blank_call_def)
  show ?thesis
    using hfp_gsm_handler_safe [OF gsm_start_ok t, of HFP_AG_OUTGOING_CALL_ESTABLISHED 0 0]
      hfp_gsm_handler_safe [OF gsm_start_ok t, of HFP_AG_OUTGOING_CALL_INITIATED 0 0] u
    by (simp add: gsm_unsafe_def)
qed

text \<open>C23: Call indices.  In every table reachable from \<open>hfp_gsm_init\<close> by events other than \<open>CALL_HOLD_USER_BUSY\<close>
  and the release of one call by its index, the calls carry the indices 1 to n without gaps: \<open>hfp_gsm_call k\<close> finds a
  call in use that has the index k exactly for the k from 1 to \<open>hfp_gsm_get_number_of_calls\<close>, and nothing above.\<close>

theorem hfp_gsm_call_index:
  assumes "gsm_reachable s" and "1 \<le> k"
  shows "((\<exists>c. hfp_gsm_call s k = Some c \<and> used_slot c \<and> call_index c = k) \<longleftrightarrow> k \<le> hfp_gsm_get_number_of_calls s) \<and>
    (hfp_gsm_call s k \<noteq> None \<longleftrightarrow> k \<le> hfp_gsm_get_number_of_calls s)"
  using call_lookup [of s k] reachable_ok [OF assms(1)] assms(2) by simp_all

definition gsm_two_calls :: "(call_event \<times> u8) list" where
  "gsm_two_calls = [(HFP_AG_OUTGOING_CALL_INITIATED, 0), (HFP_AG_OUTGOING_CALL_ESTABLISHED, 0),
     (HFP_AG_INCOMING_CALL, 0), (HFP_AG_INCOMING_CALL_ACCEPTED_BY_AG, 0)]"

lemma gsm_run_reachable:
  "gsm_reachable s \<Longrightarrow> \<forall>(e, i) \<in> set es. \<not> spoils_numbering e i \<Longrightarrow> gsm_run s es = Some s' \<Longrightarrow> gsm_reachable s'"
proof (induction s es rule: gsm_run.induct)
  case (2 s event index es)
  then obtain s1 where s1: "hfp_gsm_handler s event index 0 None = Some s1" "gsm_run s1 es = Some s'"
    by (auto simp: hfp_gsm_handle_event_with_call_index_def split: bind_splits)
  have "gsm_reachable s1"
    using 2(2,3) s1(1) gsm_reachable.reach_step [of s event index None 0 s1] by (simp add: terminated_def)
  with 2 s1 show ?case by (auto simp: hfp_gsm_handle_event_with_call_index_def)
qed simp

lemma gsm_two_calls_run:
  "map_option (\<lambda>s. (hfp_gsm_get_number_of_calls s, map (\<lambda>c. (call_index c, enhanced_status c)) (gsm_calls s)))
     (gsm_run gsm_start gsm_two_calls) =
   Some (2, [(1, HFP_ENHANCED_CALL_STATUS_HELD), (2, HFP_ENHANCED_CALL_STATUS_ACTIVE), (0, HFP_ENHANCED_CALL_STATUS_ACTIVE)])"
  by code_simp

theorem hfp_gsm_call_index_witness:
  "\<exists>s c. gsm_run gsm_start gsm_two_calls = Some s \<and> hfp_gsm_call s 2 = Some c \<and> used_slot c \<and> call_index c = 2"
proof -
  obtain s where s: "gsm_run gsm_start gsm_two_calls = Some s" "hfp_gsm_get_number_of_calls s = 2"
    using gsm_two_calls_run by auto
  have "gsm_reachable s"
    by (rule gsm_run_reachable [OF gsm_start_reachable _ s(1)]) (simp add: gsm_two_calls_def spoils_numbering_def)
  from hfp_gsm_call_index [OF this, of 2] s show ?thesis by auto
qed

lemma gsm_run_append: "gsm_run s (es @ fs) = do { s \<leftarrow> gsm_run s es; gsm_run s fs }"
proof (induction es arbitrary: s)
  case (Cons e es)
  then show ?case by (cases e; cases "hfp_gsm_handle_event_with_call_index s (fst e) (snd e)") simp_all
qed simp

text \<open>A call that is rejected keeps its slot.\<close>

definition reject_round :: "call_event \<Rightarrow> (call_event \<times> u8) list" where
  "reject_round reject = [(HFP_AG_INCOMING_CALL, 0), (reject, 0)]"

lemma call_present_states:
  "call_present s \<longleftrightarrow> (\<exists>(u, st) \<in> set (call_states s). u \<and> st \<in> {HFP_ENHANCED_CALL_STATUS_ACTIVE, HFP_ENHANCED_CALL_STATUS_HELD,
     HFP_ENHANCED_CALL_STATUS_CALL_HELD_BY_RESPONSE_AND_HOLD})"
  by (auto simp: call_present_def has_status_def call_states_def)

lemma none_calls_states: "get_number_none_calls s = int (length (filter (\<lambda>x. \<not> fst x) (call_states s)))"
  by (simp add: get_number_none_calls_def count_calls_def call_states_def filter_map o_def)

lemma filter_update_used:
  "k < length xs \<Longrightarrow> \<not> fst (xs ! k) \<Longrightarrow> Suc (length (filter (\<lambda>x. \<not> fst x) (xs[k := (True, st)]))) = length (filter (\<lambda>x. \<not> fst x) xs)"
proof (induction xs arbitrary: k)
  case (Cons x xs)
  then show ?case by (cases k) auto
qed simp

lemma rejected_round:
  assumes ok: "gsm_ok s" and st: "callsetup_status s = HFP_CALLSETUP_STATUS_NO_CALL_SETUP_IN_PROGRESS" and np: "\<not> call_present s"
    and n: "get_number_none_calls s = int (Suc n)" and reject: "reject \<in> {HFP_AG_TERMINATE_CALL_BY_HF, HFP_AG_TERMINATE_CALL_BY_AG}"
  shows "\<exists>s'. gsm_run s (reject_round reject) = Some s' \<and> gsm_ok s' \<and> callsetup_status s' = HFP_CALLSETUP_STATUS_NO_CALL_SETUP_IN_PROGRESS
    \<and> \<not> call_present s' \<and> get_number_none_calls s' = int n"
proof -
  let ?in = "HFP_CALLSETUP_STATUS_INCOMING_CALL_SETUP_IN_PROGRESS" and ?no = "HFP_CALLSETUP_STATUS_NO_CALL_SETUP_IN_PROGRESS"
  let ?s = "set_callsetup_status s ?in"
  have calls: "gsm_calls ?s = gsm_calls s" by simp
  have "filter (\<lambda>c. \<not> used_slot c) (gsm_calls s) \<noteq> []" using n by (auto simp: get_number_none_calls_def count_calls_def)
  then have free: "\<exists>c \<in> set (gsm_calls ?s). \<not> used_slot c" by (auto simp: calls filter_empty_conv)
  have ok1: "gsm_ok ?s" using ok by simp
  obtain k cst s1 where s1: "k < 3" "\<not> used_slot (gsm_calls ?s ! k)" "create_call ?s HFP_ENHANCED_CALL_DIR_INCOMING = Some s1" "gsm_ok s1"
    "callsetup_status s1 = callsetup_status ?s" "call_states s1 = (call_states ?s)[k := (True, cst)]"
    "cst \<in> {HFP_ENHANCED_CALL_STATUS_OUTGOING_DIALING, HFP_ENHANCED_CALL_STATUS_INCOMING_WAITING, HFP_ENHANCED_CALL_STATUS_INCOMING}"
    using create_call_eq [OF ok1 free, of HFP_ENHANCED_CALL_DIR_INCOMING] by blast
  have cs: "call_states ?s = call_states s" by (simp add: call_states_def)
  have in_setup: "callsetup_status s1 = ?in" using s1(5) by (simp add: set_callsetup_status_def)
  have inc: "hfp_gsm_handle_event_with_call_index s HFP_AG_INCOMING_CALL 0 = Some s1"
    using st s1(3) by (simp add: hfp_gsm_handle_event_with_call_index_def hfp_gsm_handler_def incoming_call_def hfp_gsm_callsetup_status_def)
  have np1: "\<not> call_present s1"
    using np s1(7) set_update_subset_insert [of "call_states s" k "(True, cst)"] unfolding call_present_states s1(6) cs by fastforce
  have status: "hfp_gsm_call_status s1 = HFP_CALL_STATUS_NO_HELD_OR_ACTIVE_CALLS"
    using np1 call_present_iff [of s1] by (cases "hfp_gsm_call_status s1") simp_all
  have rej: "hfp_gsm_handle_event_with_call_index s1 reject 0 = Some (set_callsetup_status s1 ?no)"
    using reject status in_setup by (auto simp: hfp_gsm_handle_event_with_call_index_def hfp_gsm_handler_def terminate_call_by_hf_def
        terminate_call_by_ag_def hfp_gsm_callsetup_status_def)
  have "\<not> fst (call_states s ! k)" "k < length (call_states s)" using s1(1,2) ok by (simp_all add: call_states_def)
  then have "get_number_none_calls s1 = int n" using n filter_update_used [of k "call_states s" cst] unfolding none_calls_states s1(6) cs by simp
  then have "get_number_none_calls (set_callsetup_status s1 ?no) = int n" by (simp add: get_number_none_calls_def count_calls_def)
  moreover have "callsetup_status (set_callsetup_status s1 ?no) = ?no" by (simp add: set_callsetup_status_def)
  moreover have "gsm_run s (reject_round reject) = Some (set_callsetup_status s1 ?no)" using inc rej by (simp add: reject_round_def)
  ultimately show ?thesis using s1(4) np1 by simp
qed

text \<open>C26: Rejected calls fill the table.  Terminating an incoming call that was not accepted, on either side, resets the call
  setup state but not the call's slot.  From any well-formed table without an active or held call and without a call in
  setup, as many rejected calls as it has free slots use them up, although no call exists, and the next incoming call is stored
  at \<open>gsm_calls[-1]\<close>.\<close>

theorem hfp_gsm_rejected_calls_fill_table:
  assumes "gsm_ok s" and "callsetup_status s = HFP_CALLSETUP_STATUS_NO_CALL_SETUP_IN_PROGRESS" and "\<not> call_present s"
    and "get_number_none_calls s = int n" and "reject \<in> {HFP_AG_TERMINATE_CALL_BY_HF, HFP_AG_TERMINATE_CALL_BY_AG}"
  shows "\<exists>s'. gsm_run s (concat (replicate n (reject_round reject))) = Some s' \<and> \<not> call_present s' \<and> get_number_none_calls s' = 0
    \<and> hfp_gsm_handle_event s' HFP_AG_INCOMING_CALL = None"
  using assms(1-4)
proof (induction n arbitrary: s)
  case 0
  then have "\<forall>c \<in> set (gsm_calls s). used_slot c" by (simp add: get_number_none_calls_def count_calls_0_iff)
  then have "create_call (set_callsetup_status s HFP_CALLSETUP_STATUS_INCOMING_CALL_SETUP_IN_PROGRESS) HFP_ENHANCED_CALL_DIR_INCOMING = None"
    by (intro create_call_minus) simp
  then show ?case using 0 by (simp add: hfp_gsm_handle_event_def hfp_gsm_handler_def incoming_call_def hfp_gsm_callsetup_status_def)
next
  case (Suc n)
  obtain s1 where s1: "gsm_run s (reject_round reject) = Some s1" "gsm_ok s1"
    "callsetup_status s1 = HFP_CALLSETUP_STATUS_NO_CALL_SETUP_IN_PROGRESS" "\<not> call_present s1" "get_number_none_calls s1 = int n"
    using rejected_round [OF Suc.prems assms(5)] by blast
  from Suc.IH [OF s1(2-5)] show ?case using s1(1) by (simp add: gsm_run_append)
qed

theorem hfp_gsm_rejected_calls_fill_table_witness:
  "\<exists>s'. gsm_run gsm_start (concat (replicate 3 (reject_round HFP_AG_TERMINATE_CALL_BY_HF))) = Some s' \<and> \<not> call_present s'
    \<and> get_number_none_calls s' = 0 \<and> hfp_gsm_handle_event s' HFP_AG_INCOMING_CALL = None"
  by (rule hfp_gsm_rejected_calls_fill_table [OF gsm_start_ok])
    (simp_all add: gsm_start_def call_present_def has_status_def blank_call_def get_number_none_calls_def count_calls_def)

text \<open>Releasing a call by its index loses the others.  With a held call 1 and an active call 2, releasing call 1
  renumbers call 2 while the search goes on, so that it is deleted as well; the freed slot of call 1 then becomes active
  again, and the table holds one active call that has the index 0.\<close>

theorem hfp_gsm_release_by_index:
  "map_option (\<lambda>s. map (\<lambda>c. (used_slot c, call_index c, enhanced_status c)) (gsm_calls s))
     (Option.bind (hfp_gsm_init s) (\<lambda>s. gsm_run s (gsm_two_calls @
        [(HFP_AG_CALL_HOLD_RELEASE_ACTIVE_ACCEPT_HELD_OR_WAITING_CALL, 1)]))) =
   Some [(True, 0, HFP_ENHANCED_CALL_STATUS_ACTIVE), (False, 0, HFP_ENHANCED_CALL_STATUS_ACTIVE),
         (False, 0, HFP_ENHANCED_CALL_STATUS_ACTIVE)]"
  unfolding hfp_gsm_init_start bind.bind_lunit by code_simp

end
