(* ===== verification/Att_Db.thy ===== *)
theory Att_Db
  imports BT_Util
begin

text \<open>
  The attribute database of \<open>ble/att_db.c\<close>: the iterator over the serialised attributes, the searches by handle
  and by UUID, the access checks and the state of the attribute server.

  A pointer into the database is the list of the bytes from it to the end of the array; advancing it drops bytes, and
  a null pointer is \<^const>\<open>None\<close> (or no bytes at all where the code only reads through it).
\<close>

section \<open>Constants of \<open>bluetooth.h\<close>\<close>

abbreviation (input) ATT_PROPERTY_READ :: u16 where "ATT_PROPERTY_READ \<equiv> 0x02"
abbreviation (input) ATT_PROPERTY_WRITE_WITHOUT_RESPONSE :: u16 where "ATT_PROPERTY_WRITE_WITHOUT_RESPONSE \<equiv> 0x04"
abbreviation (input) ATT_PROPERTY_WRITE :: u16 where "ATT_PROPERTY_WRITE \<equiv> 0x08"
abbreviation (input) ATT_PROPERTY_NOTIFY :: u16 where "ATT_PROPERTY_NOTIFY \<equiv> 0x10"
abbreviation (input) ATT_PROPERTY_INDICATE :: u16 where "ATT_PROPERTY_INDICATE \<equiv> 0x20"
abbreviation (input) ATT_PROPERTY_DYNAMIC :: u16 where "ATT_PROPERTY_DYNAMIC \<equiv> 0x100"
abbreviation (input) ATT_PROPERTY_UUID128 :: u16 where "ATT_PROPERTY_UUID128 \<equiv> 0x200"
abbreviation (input) ATT_PROPERTY_READ_PERMISSION_BIT_0 :: u16 where "ATT_PROPERTY_READ_PERMISSION_BIT_0 \<equiv> 0x0400"
abbreviation (input) ATT_PROPERTY_READ_PERMISSION_BIT_1 :: u16 where "ATT_PROPERTY_READ_PERMISSION_BIT_1 \<equiv> 0x0800"
abbreviation (input) ATT_PROPERTY_WRITE_PERMISSION_BIT_0 :: u16 where "ATT_PROPERTY_WRITE_PERMISSION_BIT_0 \<equiv> 0x0001"
abbreviation (input) ATT_PROPERTY_WRITE_PERMISSION_BIT_1 :: u16 where "ATT_PROPERTY_WRITE_PERMISSION_BIT_1 \<equiv> 0x0010"

abbreviation (input) GATT_PRIMARY_SERVICE_UUID :: u16 where "GATT_PRIMARY_SERVICE_UUID \<equiv> 0x2800"
abbreviation (input) GATT_SECONDARY_SERVICE_UUID :: u16 where "GATT_SECONDARY_SERVICE_UUID \<equiv> 0x2801"
abbreviation (input) GATT_CHARACTERISTICS_UUID :: u16 where "GATT_CHARACTERISTICS_UUID \<equiv> 0x2803"
abbreviation (input) GATT_CLIENT_CHARACTERISTICS_CONFIGURATION :: u16 where "GATT_CLIENT_CHARACTERISTICS_CONFIGURATION \<equiv> 0x2902"

abbreviation (input) ATT_ERROR_INVALID_HANDLE :: u8 where "ATT_ERROR_INVALID_HANDLE \<equiv> 0x01"
abbreviation (input) ATT_ERROR_READ_NOT_PERMITTED :: u8 where "ATT_ERROR_READ_NOT_PERMITTED \<equiv> 0x02"
abbreviation (input) ATT_ERROR_WRITE_NOT_PERMITTED :: u8 where "ATT_ERROR_WRITE_NOT_PERMITTED \<equiv> 0x03"
abbreviation (input) ATT_ERROR_INSUFFICIENT_AUTHENTICATION :: u8 where "ATT_ERROR_INSUFFICIENT_AUTHENTICATION \<equiv> 0x05"
abbreviation (input) ATT_ERROR_INVALID_OFFSET :: u8 where "ATT_ERROR_INVALID_OFFSET \<equiv> 0x07"
abbreviation (input) ATT_ERROR_INSUFFICIENT_AUTHORIZATION :: u8 where "ATT_ERROR_INSUFFICIENT_AUTHORIZATION \<equiv> 0x08"
abbreviation (input) ATT_ERROR_ATTRIBUTE_NOT_FOUND :: u8 where "ATT_ERROR_ATTRIBUTE_NOT_FOUND \<equiv> 0x0a"
abbreviation (input) ATT_ERROR_INSUFFICIENT_ENCRYPTION_KEY_SIZE :: u8 where "ATT_ERROR_INSUFFICIENT_ENCRYPTION_KEY_SIZE \<equiv> 0x0c"
abbreviation (input) ATT_ERROR_INVALID_ATTRIBUTE_VALUE_LENGTH :: u8 where "ATT_ERROR_INVALID_ATTRIBUTE_VALUE_LENGTH \<equiv> 0x0d"
abbreviation (input) ATT_ERROR_INSUFFICIENT_ENCRYPTION :: u8 where "ATT_ERROR_INSUFFICIENT_ENCRYPTION \<equiv> 0x0f"
abbreviation (input) ATT_ERROR_UNSUPPORTED_GROUP_TYPE :: u8 where "ATT_ERROR_UNSUPPORTED_GROUP_TYPE \<equiv> 0x10"

section \<open>UUIDs\<close>

definition le_bluetooth_base_uuid :: buffer where
  "le_bluetooth_base_uuid = [0xfb, 0x34, 0x9b, 0x5f, 0x80, 0x00, 0x00, 0x80, 0x00, 0x10, 0x00, 0x00, 0x00, 0x00, 0x00, 0x00]"

definition is_Bluetooth_Base_UUID :: "buffer \<Rightarrow> bool option" where
  "is_Bluetooth_Base_UUID uuid = do {
     r \<leftarrow> memcmp_n 12 uuid le_bluetooth_base_uuid;
     if r \<noteq> 0 then Some False
     else do {
       r \<leftarrow> memcmp_n 2 (drop 14 uuid) (drop 14 le_bluetooth_base_uuid);
       Some (r = 0) } }"

definition uuid16_from_uuid :: "u16 \<Rightarrow> buffer \<Rightarrow> u16 option" where
  "uuid16_from_uuid uuid_len uuid =
     (if uuid_len = 2 then little_endian_read_16 uuid 0
      else do {
        base \<leftarrow> is_Bluetooth_Base_UUID uuid;
        if \<not> base then Some 0 else little_endian_read_16 uuid 12 })"

section \<open>The iterator\<close>

record att_iterator =
  att_ptr :: "buffer option"
  it_size :: u16
  it_flags :: u16
  it_handle :: u16
  it_uuid :: buffer
  it_value_len :: u16
  it_value :: buffer

definition att_iterator_init :: "buffer option \<Rightarrow> att_iterator" where
  "att_iterator_init att_db =
     \<lparr> att_ptr = att_db, it_size = 0, it_flags = 0, it_handle = 0, it_uuid = [], it_value_len = 0, it_value = [] \<rparr>"

definition att_iterator_has_next :: "att_iterator \<Rightarrow> bool" where
  "att_iterator_has_next it \<longleftrightarrow> att_ptr it \<noteq> None"

definition att_iterator_fetch_next :: "att_iterator \<Rightarrow> att_iterator option" where
  "att_iterator_fetch_next it = do {
     p \<leftarrow> att_ptr it;
     size \<leftarrow> little_endian_read_16 p 0;
     if size = 0
     then Some \<lparr> att_ptr = None, it_size = 0, it_flags = 0, it_handle = 0, it_uuid = [], it_value_len = 0, it_value = [] \<rparr>
     else do {
       flags \<leftarrow> little_endian_read_16 p 2;
       handle \<leftarrow> little_endian_read_16 p 4;
       let header = (if flags AND ATT_PROPERTY_UUID128 \<noteq> 0 then 22 else 8);
       Some \<lparr> att_ptr = Some (drop (unat size) p), it_size = size, it_flags = flags, it_handle = handle,
         it_uuid = drop 6 p, it_value_len = size - of_nat header, it_value = drop header p \<rparr> } }"

definition att_iterator_match_uuid16 :: "att_iterator \<Rightarrow> u16 \<Rightarrow> bool option" where
  "att_iterator_match_uuid16 it uuid =
     (if it_handle it = 0 then Some False
      else if it_flags it AND ATT_PROPERTY_UUID128 \<noteq> 0 then do {
        base \<leftarrow> is_Bluetooth_Base_UUID (it_uuid it);
        if \<not> base then Some False
        else do { u \<leftarrow> little_endian_read_16 (it_uuid it) 12; Some (u = uuid) } }
      else do { u \<leftarrow> little_endian_read_16 (it_uuid it) 0; Some (u = uuid) })"

definition att_iterator_match_uuid :: "att_iterator \<Rightarrow> buffer \<Rightarrow> u16 \<Rightarrow> bool option" where
  "att_iterator_match_uuid it uuid uuid_len =
     (if it_handle it = 0 then Some False
      else if uuid_len = 2 then do { u \<leftarrow> little_endian_read_16 uuid 0; att_iterator_match_uuid16 it u }
      else if it_flags it AND ATT_PROPERTY_UUID128 \<noteq> 0 then do { r \<leftarrow> memcmp_n 16 (it_uuid it) uuid; Some (r = 0) }
      else do {
        base \<leftarrow> is_Bluetooth_Base_UUID uuid;
        if \<not> base then Some False
        else do {
          u \<leftarrow> little_endian_read_16 uuid 12;
          v \<leftarrow> little_endian_read_16 (it_uuid it) 0;
          Some (u = v) } })"

text \<open>The loop \<open>while (att_iterator_has_next(&it)) { att_iterator_fetch_next(&it); .. }\<close> that every search and
  every request runs: the body sees the fetched attribute and the loop's variables, and says whether it breaks.\<close>

datatype 's loop = Break 's | Continue 's

function att_loop :: "(att_iterator \<Rightarrow> 's \<Rightarrow> 's loop option) \<Rightarrow> att_iterator \<Rightarrow> 's \<Rightarrow> 's option" where
  "att_loop body it s =
     (if att_iterator_has_next it then
        (case att_iterator_fetch_next it of
           None \<Rightarrow> None
         | Some it' \<Rightarrow> (case body it' s of
             None \<Rightarrow> None
           | Some (Break s') \<Rightarrow> Some s'
           | Some (Continue s') \<Rightarrow> att_loop body it' s'))
      else Some s)"
  by pat_completeness auto

lemma fetch_next_progress:
  assumes "att_iterator_has_next it" and "att_iterator_fetch_next it = Some it'"
  shows "(case att_ptr it' of None \<Rightarrow> 0 | Some p \<Rightarrow> Suc (length p)) <
         (case att_ptr it of None \<Rightarrow> 0 | Some p \<Rightarrow> Suc (length p))"
proof -
  obtain p where p: "att_ptr it = Some p" using assms(1) by (auto simp: att_iterator_has_next_def)
  obtain size where size: "little_endian_read_16 p 0 = Some size"
    using assms(2) by (auto simp: att_iterator_fetch_next_def p split: bind_splits)
  have len: "0 < length p" using size by (auto simp: little_endian_read_16_def rd_eq_Some_iff bind_eq_Some_conv)
  show ?thesis
  proof (cases "size = 0")
    case True
    with assms(2) show ?thesis by (auto simp: att_iterator_fetch_next_def p size)
  next
    case False
    then have "0 < unat size" by (simp add: word_greater_zero_iff unat_gt_0)
    with assms(2) False len show ?thesis
      by (auto simp: att_iterator_fetch_next_def p size Let_def bind_eq_Some_conv)
  qed
qed

termination att_loop
  by (relation "measure (\<lambda>(body, it, s). case att_ptr it of None \<Rightarrow> 0 | Some p \<Rightarrow> Suc (length p))")
     (use fetch_next_progress in auto)

declare att_loop.simps [simp del]

section \<open>Searches\<close>

text \<open>Whether the handle was found, and the iterator the search stopped with.\<close>

definition att_find_handle :: "buffer option \<Rightarrow> u16 \<Rightarrow> att_iterator option option" where
  "att_find_handle att_db handle =
     (if handle = 0 then Some None
      else att_loop (\<lambda>it found.
             if it_handle it \<noteq> handle then Some (Continue None) else Some (Break (Some it)))
           (att_iterator_init att_db) None)"

definition att_uuid_for_handle :: "buffer option \<Rightarrow> u16 \<Rightarrow> u16 option" where
  "att_uuid_for_handle att_db attribute_handle = do {
     found \<leftarrow> att_find_handle att_db attribute_handle;
     case found of
       None \<Rightarrow> Some 0
     | Some it \<Rightarrow> if it_flags it AND ATT_PROPERTY_UUID128 \<noteq> 0 then Some 0 else little_endian_read_16 (it_uuid it) 0 }"

section \<open>Connections and access checks\<close>

record att_connection =
  con_handle :: u16
  mtu :: u16
  max_mtu :: u16
  encryption_key_size :: u8
  authenticated :: u8
  authorized :: u8

datatype att_operation = ATT_READ | ATT_WRITE

definition att_validate_security :: "att_connection \<Rightarrow> att_operation \<Rightarrow> att_iterator \<Rightarrow> u8" where
  "att_validate_security conn operation it =
     (let bit0 = (case operation of ATT_READ \<Rightarrow> ATT_PROPERTY_READ_PERMISSION_BIT_0 | ATT_WRITE \<Rightarrow> ATT_PROPERTY_WRITE_PERMISSION_BIT_0);
          bit1 = (case operation of ATT_READ \<Rightarrow> ATT_PROPERTY_READ_PERMISSION_BIT_1 | ATT_WRITE \<Rightarrow> ATT_PROPERTY_WRITE_PERMISSION_BIT_1);
          required_security_level =
            (if it_flags it AND bit0 \<noteq> 0 then 1 else 0) OR (if it_flags it AND bit1 \<noteq> 0 then 2 else (0 :: int));
          key_size = uint (drop_bit 12 (it_flags it));
          required_encryption_size = (if key_size \<noteq> 0 then key_size + 1 else key_size)
      in if required_security_level \<ge> 3 \<and> authorized conn = 0 then ATT_ERROR_INSUFFICIENT_AUTHORIZATION
         else if required_security_level \<ge> 2 \<and> authenticated conn = 0 then ATT_ERROR_INSUFFICIENT_AUTHENTICATION
         else if required_security_level \<ge> 1 \<and> required_encryption_size > 0 \<and> encryption_key_size conn = 0
         then ATT_ERROR_INSUFFICIENT_ENCRYPTION
         else if required_security_level \<ge> 1 \<and> required_encryption_size > uint (encryption_key_size conn)
         then ATT_ERROR_INSUFFICIENT_ENCRYPTION_KEY_SIZE
         else 0)"

section \<open>The server\<close>

text \<open>
  The application's callbacks are parameters.  A read callback is given the application's state, the connection, the
  handle, the offset and the size of the buffer (\<^const>\<open>None\<close> for a null buffer, with which it only reports the size of
  the value); it answers a length and the bytes it wrote to the buffer.  A write callback answers an error code and
  the application's new state.
\<close>

type_synonym 'app read_callback = "'app \<Rightarrow> u16 \<Rightarrow> u16 \<Rightarrow> u16 \<Rightarrow> u16 option \<Rightarrow> u16 \<times> buffer"
type_synonym 'app write_callback = "'app \<Rightarrow> u16 \<Rightarrow> u16 \<Rightarrow> u16 \<Rightarrow> u16 \<Rightarrow> buffer \<Rightarrow> int \<times> 'app"

record 'app att_server =
  att_db :: "buffer option"
  att_read_callback :: "'app read_callback option"
  att_write_callback :: "'app write_callback option"
  att_prepare_write_error_code :: u8
  att_prepare_write_error_handle :: u16
  att_persistent_ccc_handle :: u16
  att_persistent_ccc_uuid16 :: u16
  app :: 'app

definition ATT_DB_VERSION :: u8 where "ATT_DB_VERSION = 1"

definition att_set_db :: "'app att_server \<Rightarrow> buffer option \<Rightarrow> 'app att_server option" where
  "att_set_db s db =
     (case db of
        None \<Rightarrow> Some s
      | Some p \<Rightarrow> do {
          version \<leftarrow> rd p 0;
          if version \<noteq> ATT_DB_VERSION then Some s else Some (s\<lparr> att_db := Some (drop 1 p) \<rparr>) })"

definition att_set_read_callback :: "'app att_server \<Rightarrow> 'app read_callback option \<Rightarrow> 'app att_server" where
  "att_set_read_callback s callback = s\<lparr> att_read_callback := callback \<rparr>"

definition att_set_write_callback :: "'app att_server \<Rightarrow> 'app write_callback option \<Rightarrow> 'app att_server" where
  "att_set_write_callback s callback = s\<lparr> att_write_callback := callback \<rparr>"

definition att_update_value_len :: "'app att_server \<Rightarrow> att_iterator \<Rightarrow> u16 \<Rightarrow> att_iterator option" where
  "att_update_value_len s it con =
     (if it_flags it AND ATT_PROPERTY_DYNAMIC = 0 then Some it
      else do {
        cb \<leftarrow> att_read_callback s;
        Some (it\<lparr> it_value_len := fst (cb (app s) con (it_handle it) 0 None) \<rparr>) })"

text \<open>The value goes to position \<open>pos\<close> of the response buffer.\<close>

definition att_copy_value ::
    "'app att_server \<Rightarrow> att_iterator \<Rightarrow> u16 \<Rightarrow> buffer \<Rightarrow> u16 \<Rightarrow> u16 \<Rightarrow> u16 \<Rightarrow> (u16 \<times> buffer) option" where
  "att_copy_value s it offset response pos buffer_size con =
     (if it_flags it AND ATT_PROPERTY_DYNAMIC \<noteq> 0
      then do {
        cb \<leftarrow> att_read_callback s;
        let (n, data) = cb (app s) con (it_handle it) offset (Some buffer_size);
        response \<leftarrow> wr_range response (unat pos) data;
        Some (n, response) }
      else do {
        let bytes_to_copy = it_value_len it - offset;
        let bytes_to_copy = (if bytes_to_copy > buffer_size then buffer_size else bytes_to_copy);
        data \<leftarrow> rd_range (it_value it) 0 (unat bytes_to_copy);
        response \<leftarrow> wr_range response (unat pos) data;
        Some (bytes_to_copy, response) })"

section \<open>Error responses\<close>

definition setup_error :: "buffer \<Rightarrow> u16 \<Rightarrow> u16 \<Rightarrow> u8 \<Rightarrow> (u16 \<times> buffer) option" where
  "setup_error response request handle error_code = do {
     response \<leftarrow> wr response 0 0x01;
     response \<leftarrow> wr response 1 (to8 request);
     response \<leftarrow> little_endian_store_16 response 2 handle;
     response \<leftarrow> wr response 4 error_code;
     Some (5, response) }"

definition setup_error_read_not_permitted :: "buffer \<Rightarrow> u16 \<Rightarrow> u16 \<Rightarrow> (u16 \<times> buffer) option" where
  "setup_error_read_not_permitted response request start_handle =
     setup_error response request start_handle ATT_ERROR_READ_NOT_PERMITTED"

definition setup_error_write_not_permitted :: "buffer \<Rightarrow> u16 \<Rightarrow> u16 \<Rightarrow> (u16 \<times> buffer) option" where
  "setup_error_write_not_permitted response request start_handle =
     setup_error response request start_handle ATT_ERROR_WRITE_NOT_PERMITTED"

definition setup_error_atribute_not_found :: "buffer \<Rightarrow> u16 \<Rightarrow> u16 \<Rightarrow> (u16 \<times> buffer) option" where
  "setup_error_atribute_not_found response request start_handle =
     setup_error response request start_handle ATT_ERROR_ATTRIBUTE_NOT_FOUND"

definition setup_error_invalid_handle :: "buffer \<Rightarrow> u16 \<Rightarrow> u16 \<Rightarrow> (u16 \<times> buffer) option" where
  "setup_error_invalid_handle response request handle = setup_error response request handle ATT_ERROR_INVALID_HANDLE"

definition setup_error_invalid_offset :: "buffer \<Rightarrow> u16 \<Rightarrow> u16 \<Rightarrow> (u16 \<times> buffer) option" where
  "setup_error_invalid_offset response request handle = setup_error response request handle ATT_ERROR_INVALID_OFFSET"

lemmas setup_errors = setup_error_read_not_permitted_def setup_error_write_not_permitted_def
  setup_error_atribute_not_found_def setup_error_invalid_handle_def setup_error_invalid_offset_def

end
