(* ===== verification/Att_Requests.thy ===== *)
theory Att_Requests
  imports Att_Db
begin

text \<open>
  The read side of the attribute protocol server in \<open>ble/att_db.c\<close>: MTU exchange, find information, find by type
  value, read by type, read, read blob, read multiple and read by group type.  A handler answers the length of the
  response and the response buffer; reads of the request and writes of the response are checked against the bytes the
  caller may access.  Sums and differences of the C code are computed in \<open>int\<close>; they are converted back where the
  code stores them in a 16 bit variable.
\<close>

section \<open>Exchange MTU\<close>

definition handle_exchange_mtu_request ::
    "att_connection \<Rightarrow> buffer \<Rightarrow> buffer \<Rightarrow> (u16 \<times> buffer \<times> att_connection) option" where
  "handle_exchange_mtu_request conn request response = do {
     client_rx_mtu \<leftarrow> little_endian_read_16 request 1;
     let conn = conn\<lparr> mtu := (if client_rx_mtu < max_mtu conn then client_rx_mtu else max_mtu conn) \<rparr>;
     response \<leftarrow> wr response 0 0x03;
     response \<leftarrow> little_endian_store_16 response 1 (mtu conn);
     Some (3, response, conn) }"

section \<open>Find information\<close>

text \<open>The loop's variables: \<open>offset\<close>, \<open>uuid_len\<close> and the response.\<close>

definition find_information_step ::
    "u16 \<Rightarrow> u16 \<Rightarrow> u16 \<Rightarrow> att_iterator \<Rightarrow> u16 \<times> u16 \<times> buffer \<Rightarrow> (u16 \<times> u16 \<times> buffer) loop option" where
  "find_information_step response_buffer_size start_handle end_handle it = (\<lambda>(offset, uuid_len, response).
     if it_handle it = 0 then Some (Break (offset, uuid_len, response))
     else if it_handle it > end_handle then Some (Break (offset, uuid_len, response))
     else if it_handle it < start_handle then Some (Continue (offset, uuid_len, response))
     else do {
       let uuid128 = (it_flags it AND ATT_PROPERTY_UUID128 \<noteq> 0);
       let this_uuid_len = (if uuid128 then 16 else 2);
       if offset > 1 \<and> this_uuid_len \<noteq> uuid_len then Some (Break (offset, uuid_len, response))
       else do {
         (offset, uuid_len, response) \<leftarrow>
           (if offset = 1 then do {
              response \<leftarrow> wr response (unat offset) (if uuid128 then 0x02 else 0x01);
              Some (offset + 1, this_uuid_len, response) }
            else Some (offset, uuid_len, response));
         if uint offset + 2 + uint uuid_len > uint response_buffer_size then Some (Break (offset, uuid_len, response))
         else do {
           response \<leftarrow> little_endian_store_16 response offset (it_handle it);
           let offset = offset + 2;
           uuid \<leftarrow> rd_range (it_uuid it) 0 (unat uuid_len);
           response \<leftarrow> wr_range response (unat offset) uuid;
           Some (Continue (offset + uuid_len, uuid_len, response)) } } })"

definition handle_find_information_request2 ::
    "'app att_server \<Rightarrow> buffer \<Rightarrow> u16 \<Rightarrow> u16 \<Rightarrow> u16 \<Rightarrow> (u16 \<times> buffer) option" where
  "handle_find_information_request2 s response response_buffer_size start_handle end_handle =
     (if start_handle > end_handle \<or> start_handle = 0
      then setup_error_invalid_handle response 0x04 start_handle
      else do {
        (offset, uuid_len, response) \<leftarrow> att_loop (find_information_step response_buffer_size start_handle end_handle)
          (att_iterator_init (att_db s)) (1, 0, response);
        if offset = 1 then setup_error_atribute_not_found response 0x04 start_handle
        else do { response \<leftarrow> wr response 0 0x05; Some (offset, response) } })"

definition handle_find_information_request ::
    "'app att_server \<Rightarrow> buffer \<Rightarrow> buffer \<Rightarrow> u16 \<Rightarrow> (u16 \<times> buffer) option" where
  "handle_find_information_request s request response response_buffer_size = do {
     start_handle \<leftarrow> little_endian_read_16 request 1;
     end_handle \<leftarrow> little_endian_read_16 request 3;
     handle_find_information_request2 s response response_buffer_size start_handle end_handle }"

section \<open>Find by type value\<close>

definition starts_service :: "att_iterator \<Rightarrow> bool option" where
  "starts_service it = do {
     primary \<leftarrow> att_iterator_match_uuid16 it GATT_PRIMARY_SERVICE_UUID;
     if primary then Some True else att_iterator_match_uuid16 it GATT_SECONDARY_SERVICE_UUID }"

text \<open>The variables: \<open>offset\<close>, \<open>in_group\<close>, \<open>prev_handle\<close> and the response.\<close>

definition find_by_type_value_step ::
    "u16 \<Rightarrow> u16 \<Rightarrow> u16 \<Rightarrow> u16 \<Rightarrow> u16 \<Rightarrow> buffer \<Rightarrow> att_iterator \<Rightarrow>
     u16 \<times> bool \<times> u16 \<times> buffer \<Rightarrow> (u16 \<times> bool \<times> u16 \<times> buffer) loop option" where
  "find_by_type_value_step response_buffer_size start_handle end_handle attribute_type attribute_len attribute_value it =
     (\<lambda>(offset, in_group, prev_handle, response).
     if it_handle it \<noteq> 0 \<and> it_handle it < start_handle then Some (Continue (offset, in_group, prev_handle, response))
     else if it_handle it > end_handle then Some (Break (offset, in_group, prev_handle, response))
     else do {
       close \<leftarrow> (if in_group then if it_handle it = 0 then Some True else starts_service it else Some False);
       (full, offset, in_group, response) \<leftarrow>
         (if close then do {
            response \<leftarrow> little_endian_store_16 response offset prev_handle;
            let offset = offset + 2;
            Some (uint offset + 4 > uint response_buffer_size, offset, False, response) }
          else Some (False, offset, in_group, response));
       if full then Some (Break (offset, in_group, prev_handle, response))
       else do {
         let prev_handle = it_handle it;
         matches \<leftarrow> (if it_handle it \<noteq> 0 then do {
                      same_type \<leftarrow> att_iterator_match_uuid16 it attribute_type;
                      if same_type \<and> attribute_len = it_value_len it
                      then do { r \<leftarrow> memcmp_n (unat (it_value_len it)) attribute_value (it_value it); Some (r = 0) }
                      else Some False }
                    else Some False);
         if matches then do {
           response \<leftarrow> little_endian_store_16 response offset (it_handle it);
           Some (Continue (offset + 2, True, prev_handle, response)) }
         else Some (Continue (offset, in_group, prev_handle, response)) } })"

definition handle_find_by_type_value_request2 ::
    "'app att_server \<Rightarrow> buffer \<Rightarrow> u16 \<Rightarrow> u16 \<Rightarrow> u16 \<Rightarrow> u16 \<Rightarrow> u16 \<Rightarrow> buffer \<Rightarrow> (u16 \<times> buffer) option" where
  "handle_find_by_type_value_request2 s response response_buffer_size start_handle end_handle
       attribute_type attribute_len attribute_value =
     (if start_handle > end_handle \<or> start_handle = 0
      then setup_error_invalid_handle response 0x06 start_handle
      else do {
        (offset, in_group, prev_handle, response) \<leftarrow>
          att_loop (find_by_type_value_step response_buffer_size start_handle end_handle attribute_type attribute_len attribute_value)
            (att_iterator_init (att_db s)) (1, False, 0, response);
        if offset = 1 then setup_error_atribute_not_found response 0x06 start_handle
        else do { response \<leftarrow> wr response 0 0x07; Some (offset, response) } })"

definition handle_find_by_type_value_request ::
    "'app att_server \<Rightarrow> buffer \<Rightarrow> u16 \<Rightarrow> buffer \<Rightarrow> u16 \<Rightarrow> (u16 \<times> buffer) option" where
  "handle_find_by_type_value_request s request request_len response response_buffer_size = do {
     start_handle \<leftarrow> little_endian_read_16 request 1;
     end_handle \<leftarrow> little_endian_read_16 request 3;
     attribute_type \<leftarrow> little_endian_read_16 request 5;
     handle_find_by_type_value_request2 s response response_buffer_size start_handle end_handle
       attribute_type (request_len - 7) (drop 7 request) }"

section \<open>Read by type\<close>

record read_by_type_vars =
  rt_offset :: u16
  rt_pair_len :: u16
  rt_error_code :: u8
  rt_unreadable_handle :: u16
  rt_response :: buffer

definition read_by_type_step ::
    "'app att_server \<Rightarrow> att_connection \<Rightarrow> u16 \<Rightarrow> u16 \<Rightarrow> u16 \<Rightarrow> u16 \<Rightarrow> buffer \<Rightarrow> att_iterator \<Rightarrow>
     read_by_type_vars \<Rightarrow> read_by_type_vars loop option" where
  "read_by_type_step s conn response_buffer_size start_handle end_handle attribute_type_len attribute_type it v =
     (if it_handle it = 0 then Some (Break v)
      else if it_handle it < start_handle then Some (Continue v)
      else if it_handle it > end_handle then Some (Break v)
      else do {
        matches \<leftarrow> att_iterator_match_uuid it attribute_type attribute_type_len;
        if \<not> matches then Some (Continue v)
        else if it_flags it AND ATT_PROPERTY_READ = 0
        then Some (Continue (if rt_unreadable_handle v = 0 then v\<lparr> rt_unreadable_handle := it_handle it \<rparr> else v))
        else do {
          let v = v\<lparr> rt_error_code := att_validate_security conn ATT_READ it \<rparr>;
          if rt_error_code v \<noteq> 0 then Some (Break v)
          else do {
            it \<leftarrow> att_update_value_len s it (con_handle conn);
            let this_pair_len = 2 + it_value_len it;
            if rt_offset v > 1 \<and> rt_pair_len v \<noteq> this_pair_len then Some (Break v)
            else do {
              v \<leftarrow> (if rt_offset v = 1 then do {
                       response \<leftarrow> wr (rt_response v) 1 (to8 this_pair_len);
                       Some (v\<lparr> rt_offset := 2, rt_pair_len := this_pair_len, rt_response := response \<rparr>) }
                     else Some v);
              if uint (rt_offset v) + uint (rt_pair_len v) > uint response_buffer_size \<and> rt_offset v > 2 then Some (Break v)
              else do {
                (it, v) \<leftarrow>
                  (if uint (rt_offset v) + uint (rt_pair_len v) > uint response_buffer_size then do {
                     let it = it\<lparr> it_value_len := response_buffer_size - 4 \<rparr>;
                     response \<leftarrow> wr (rt_response v) 1 (to8 (2 + it_value_len it));
                     Some (it, v\<lparr> rt_response := response \<rparr>) }
                   else Some (it, v));
                response \<leftarrow> little_endian_store_16 (rt_response v) (rt_offset v) (it_handle it);
                let offset = rt_offset v + 2;
                (bytes_copied, response) \<leftarrow> att_copy_value s it 0 response offset (it_value_len it) (con_handle conn);
                Some (Continue (v\<lparr> rt_offset := offset + bytes_copied, rt_response := response \<rparr>)) } } } } })"

definition handle_read_by_type_request2 ::
    "'app att_server \<Rightarrow> att_connection \<Rightarrow> buffer \<Rightarrow> u16 \<Rightarrow> u16 \<Rightarrow> u16 \<Rightarrow> u16 \<Rightarrow> buffer \<Rightarrow> (u16 \<times> buffer) option" where
  "handle_read_by_type_request2 s conn response response_buffer_size start_handle end_handle attribute_type_len attribute_type =
     (if start_handle > end_handle \<or> start_handle = 0
      then setup_error_invalid_handle response 0x08 start_handle
      else do {
        v \<leftarrow> att_loop (read_by_type_step s conn response_buffer_size start_handle end_handle attribute_type_len attribute_type)
          (att_iterator_init (att_db s))
          \<lparr> rt_offset = 1, rt_pair_len = 0, rt_error_code = 0, rt_unreadable_handle = 0, rt_response = response \<rparr>;
        if rt_offset v > 1 then do { response \<leftarrow> wr (rt_response v) 0 0x09; Some (rt_offset v, response) }
        else if rt_error_code v \<noteq> 0 then setup_error (rt_response v) 0x08 start_handle (rt_error_code v)
        else if rt_unreadable_handle v \<noteq> 0
        then setup_error_read_not_permitted (rt_response v) 0x08 (rt_unreadable_handle v)
        else setup_error_atribute_not_found (rt_response v) 0x08 start_handle })"

definition handle_read_by_type_request ::
    "'app att_server \<Rightarrow> att_connection \<Rightarrow> buffer \<Rightarrow> u16 \<Rightarrow> buffer \<Rightarrow> u16 \<Rightarrow> (u16 \<times> buffer) option" where
  "handle_read_by_type_request s conn request request_len response response_buffer_size = do {
     let attribute_type_len = (if request_len \<le> 7 then 2 else 16);
     start_handle \<leftarrow> little_endian_read_16 request 1;
     end_handle \<leftarrow> little_endian_read_16 request 3;
     handle_read_by_type_request2 s conn response response_buffer_size start_handle end_handle
       attribute_type_len (drop 5 request) }"

section \<open>Read and read blob\<close>

definition handle_read_request2 ::
    "'app att_server \<Rightarrow> att_connection \<Rightarrow> buffer \<Rightarrow> u16 \<Rightarrow> u16 \<Rightarrow> (u16 \<times> buffer) option" where
  "handle_read_request2 s conn response response_buffer_size handle = do {
     found \<leftarrow> att_find_handle (att_db s) handle;
     case found of
       None \<Rightarrow> setup_error_invalid_handle response 0x0a handle
     | Some it \<Rightarrow>
         if it_flags it AND ATT_PROPERTY_READ = 0 then setup_error_read_not_permitted response 0x0a handle
         else do {
           let error_code = att_validate_security conn ATT_READ it;
           if error_code \<noteq> 0 then setup_error response 0x0a handle error_code
           else do {
             it \<leftarrow> att_update_value_len s it (con_handle conn);
             let offset = 1;
             let it = (if uint offset + uint (it_value_len it) > uint response_buffer_size
                       then it\<lparr> it_value_len := response_buffer_size - 1 \<rparr> else it);
             (bytes_copied, response) \<leftarrow> att_copy_value s it 0 response offset (it_value_len it) (con_handle conn);
             let offset = offset + bytes_copied;
             response \<leftarrow> wr response 0 0x0b;
             Some (offset, response) } } }"

definition handle_read_request ::
    "'app att_server \<Rightarrow> att_connection \<Rightarrow> buffer \<Rightarrow> buffer \<Rightarrow> u16 \<Rightarrow> (u16 \<times> buffer) option" where
  "handle_read_request s conn request response response_buffer_size = do {
     handle \<leftarrow> little_endian_read_16 request 1;
     handle_read_request2 s conn response response_buffer_size handle }"

definition handle_read_blob_request2 ::
    "'app att_server \<Rightarrow> att_connection \<Rightarrow> buffer \<Rightarrow> u16 \<Rightarrow> u16 \<Rightarrow> u16 \<Rightarrow> (u16 \<times> buffer) option" where
  "handle_read_blob_request2 s conn response response_buffer_size handle value_offset = do {
     found \<leftarrow> att_find_handle (att_db s) handle;
     case found of
       None \<Rightarrow> setup_error_invalid_handle response 0x0c handle
     | Some it \<Rightarrow>
         if it_flags it AND ATT_PROPERTY_READ = 0 then setup_error_read_not_permitted response 0x0c handle
         else do {
           let error_code = att_validate_security conn ATT_READ it;
           if error_code \<noteq> 0 then setup_error response 0x0c handle error_code
           else do {
             it \<leftarrow> att_update_value_len s it (con_handle conn);
             if value_offset > it_value_len it then setup_error_invalid_offset response 0x0c handle
             else do {
               let offset = 1;
               let it = (if uint offset + uint (it_value_len it) - uint value_offset > uint response_buffer_size
                         then it\<lparr> it_value_len := response_buffer_size - 1 + value_offset \<rparr> else it);
               (bytes_copied, response) \<leftarrow>
                 att_copy_value s it value_offset response offset (it_value_len it - value_offset) (con_handle conn);
               let offset = offset + bytes_copied;
               response \<leftarrow> wr response 0 0x0d;
               Some (offset, response) } } } }"

definition handle_read_blob_request ::
    "'app att_server \<Rightarrow> att_connection \<Rightarrow> buffer \<Rightarrow> buffer \<Rightarrow> u16 \<Rightarrow> (u16 \<times> buffer) option" where
  "handle_read_blob_request s conn request response response_buffer_size = do {
     handle \<leftarrow> little_endian_read_16 request 1;
     value_offset \<leftarrow> little_endian_read_16 request 3;
     handle_read_blob_request2 s conn response response_buffer_size handle value_offset }"

section \<open>Read multiple\<close>

text \<open>The loop over the handles from the \<open>i\<close>th on, with \<open>n\<close> left.  It ends with the error code (0 for none), the
  handle it ended at, the offset and the response, or returns an error response at once.\<close>

datatype read_multiple_end = Return "u16 \<times> buffer" | Done u8 u16 u16 buffer

primrec read_multiple_from ::
    "'app att_server \<Rightarrow> att_connection \<Rightarrow> u16 \<Rightarrow> buffer \<Rightarrow> nat \<Rightarrow> nat \<Rightarrow> u16 \<Rightarrow> u16 \<Rightarrow> buffer \<Rightarrow> read_multiple_end option" where
  "read_multiple_from s conn response_buffer_size handles i 0 handle offset response = Some (Done 0 handle offset response)"
| "read_multiple_from s conn response_buffer_size handles i (Suc n) handle offset response = do {
     handle \<leftarrow> little_endian_read_16 handles (2 * i);
     if handle = 0 then map_option Return (setup_error_invalid_handle response 0x0e handle)
     else do {
       found \<leftarrow> att_find_handle (att_db s) handle;
       case found of
         None \<Rightarrow> map_option Return (setup_error_invalid_handle response 0x0e handle)
       | Some it \<Rightarrow>
           if it_flags it AND ATT_PROPERTY_READ = 0 then Some (Done ATT_ERROR_READ_NOT_PERMITTED handle offset response)
           else do {
             let error_code = att_validate_security conn ATT_READ it;
             if error_code \<noteq> 0 then Some (Done error_code handle offset response)
             else do {
               it \<leftarrow> att_update_value_len s it (con_handle conn);
               let it = (if uint offset + uint (it_value_len it) > uint response_buffer_size
                         then it\<lparr> it_value_len := response_buffer_size - 1 \<rparr> else it);
               (bytes_copied, response) \<leftarrow> att_copy_value s it 0 response offset (it_value_len it) (con_handle conn);
               read_multiple_from s conn response_buffer_size handles (i + 1) n handle (offset + bytes_copied) response } } } }"

definition handle_read_multiple_request2 ::
    "'app att_server \<Rightarrow> att_connection \<Rightarrow> buffer \<Rightarrow> u16 \<Rightarrow> u16 \<Rightarrow> buffer \<Rightarrow> (u16 \<times> buffer) option" where
  "handle_read_multiple_request2 s conn response response_buffer_size num_handles handles = do {
     r \<leftarrow> read_multiple_from s conn response_buffer_size handles 0 (unat num_handles) 0 1 response;
     case r of
       Return answer \<Rightarrow> Some answer
     | Done error_code handle offset response \<Rightarrow>
         if error_code \<noteq> 0 then setup_error response 0x0e handle error_code
         else do { response \<leftarrow> wr response 0 0x0f; Some (offset, response) } }"

text \<open>\<open>(request_len - 1) >> 1\<close> is computed in \<open>int\<close> and passed as a 16 bit number.\<close>

definition handle_read_multiple_request ::
    "'app att_server \<Rightarrow> att_connection \<Rightarrow> buffer \<Rightarrow> u16 \<Rightarrow> buffer \<Rightarrow> u16 \<Rightarrow> (u16 \<times> buffer) option" where
  "handle_read_multiple_request s conn request request_len response response_buffer_size =
     handle_read_multiple_request2 s conn response response_buffer_size
       (word_of_int (drop_bit 1 (uint request_len - 1))) (drop 1 request)"

section \<open>Read by group type\<close>

record group_vars =
  g_offset :: u16
  g_pair_len :: u16
  g_in_group :: bool
  g_start_handle :: u16
  g_start_value :: buffer
  g_prev_handle :: u16
  g_response :: buffer

definition read_by_group_type_step ::
    "u16 \<Rightarrow> u16 \<Rightarrow> u16 \<Rightarrow> u16 \<Rightarrow> buffer \<Rightarrow> att_iterator \<Rightarrow> group_vars \<Rightarrow> group_vars loop option" where
  "read_by_group_type_step response_buffer_size start_handle end_handle attribute_type_len attribute_type it v =
     (if it_handle it \<noteq> 0 \<and> it_handle it < start_handle then Some (Continue v)
      else if it_handle it > end_handle then Some (Break v)
      else do {
        close \<leftarrow> (if g_in_group v then if it_handle it = 0 then Some True else starts_service it else Some False);
        v \<leftarrow> (if close then do {
                 response \<leftarrow> little_endian_store_16 (g_response v) (g_offset v) (g_start_handle v);
                 response \<leftarrow> little_endian_store_16 response (g_offset v + 2) (g_prev_handle v);
                 value \<leftarrow> (if g_pair_len v < 4 then None else rd_range (g_start_value v) 0 (unat (g_pair_len v - 4)));
                 response \<leftarrow> wr_range response (unat (g_offset v + 4)) value;
                 Some (v\<lparr> g_offset := g_offset v + 4 + (g_pair_len v - 4), g_in_group := False, g_response := response \<rparr>) }
               else Some v);
        if close \<and> uint (g_offset v) + uint (g_pair_len v) > uint response_buffer_size then Some (Break v)
        else do {
          let v = v\<lparr> g_prev_handle := it_handle it \<rparr>;
          matches \<leftarrow> (if it_handle it \<noteq> 0 then att_iterator_match_uuid it attribute_type attribute_type_len else Some False);
          if \<not> matches then Some (Continue v)
          else do {
            let this_pair_len = 4 + it_value_len it;
            if g_offset v > 1 \<and> this_pair_len \<noteq> g_pair_len v then Some (Break v)
            else do {
              v \<leftarrow> (if g_offset v = 1 then do {
                       response \<leftarrow> wr (g_response v) 1 (to8 this_pair_len);
                       Some (v\<lparr> g_offset := 2, g_pair_len := this_pair_len, g_response := response \<rparr>) }
                     else Some v);
              Some (Continue (v\<lparr> g_in_group := True, g_start_handle := it_handle it, g_start_value := it_value it \<rparr>)) } } } })"

definition handle_read_by_group_type_request2 ::
    "'app att_server \<Rightarrow> buffer \<Rightarrow> u16 \<Rightarrow> u16 \<Rightarrow> u16 \<Rightarrow> u16 \<Rightarrow> buffer \<Rightarrow> (u16 \<times> buffer) option" where
  "handle_read_by_group_type_request2 s response response_buffer_size start_handle end_handle attribute_type_len attribute_type =
     (if start_handle > end_handle \<or> start_handle = 0
      then setup_error_invalid_handle response 0x10 start_handle
      else do {
        uuid16 \<leftarrow> uuid16_from_uuid attribute_type_len attribute_type;
        if uuid16 \<noteq> GATT_PRIMARY_SERVICE_UUID \<and> uuid16 \<noteq> GATT_SECONDARY_SERVICE_UUID
        then setup_error response 0x10 start_handle ATT_ERROR_UNSUPPORTED_GROUP_TYPE
        else do {
          v \<leftarrow> att_loop (read_by_group_type_step response_buffer_size start_handle end_handle attribute_type_len attribute_type)
            (att_iterator_init (att_db s))
            \<lparr> g_offset = 1, g_pair_len = 0, g_in_group = False, g_start_handle = 0, g_start_value = [],
              g_prev_handle = 0, g_response = response \<rparr>;
          if g_offset v = 1 then setup_error_atribute_not_found (g_response v) 0x10 start_handle
          else do { response \<leftarrow> wr (g_response v) 0 0x11; Some (g_offset v, response) } } })"

definition handle_read_by_group_type_request ::
    "'app att_server \<Rightarrow> buffer \<Rightarrow> u16 \<Rightarrow> buffer \<Rightarrow> u16 \<Rightarrow> (u16 \<times> buffer) option" where
  "handle_read_by_group_type_request s request request_len response response_buffer_size = do {
     let attribute_type_len = (if request_len \<le> 7 then 2 else 16);
     start_handle \<leftarrow> little_endian_read_16 request 1;
     end_handle \<leftarrow> little_endian_read_16 request 3;
     handle_read_by_group_type_request2 s response response_buffer_size start_handle end_handle
       attribute_type_len (drop 5 request) }"

end
