(* ===== verification/Att_Server.thy ===== *)
theory Att_Server
  imports Att_Requests
begin

text \<open>
  The write side of the attribute protocol server in \<open>ble/att_db.c\<close>, the dispatcher of requests, the handle value
  notifications, the lookups the GATT server API offers and the helpers for read callbacks.
\<close>

section \<open>Write callbacks\<close>

text \<open>The callback is handed the \<open>n\<close> bytes of the request from position \<open>pos\<close> on, which have to be there.\<close>

definition call_write_callback ::
    "'app att_server \<Rightarrow> u16 \<Rightarrow> u16 \<Rightarrow> u16 \<Rightarrow> u16 \<Rightarrow> buffer \<Rightarrow> nat \<Rightarrow> u16 \<Rightarrow> (u8 \<times> 'app att_server) option" where
  "call_write_callback s con handle transaction_mode offset request pos n = do {
     cb \<leftarrow> att_write_callback s;
     data \<leftarrow> rd_range request pos (unat n);
     let (error_code, a) = cb (app s) con handle transaction_mode offset data;
     Some (word_of_int error_code, s\<lparr> app := a \<rparr>) }"

definition att_prepare_write_reset :: "'app att_server \<Rightarrow> 'app att_server" where
  "att_prepare_write_reset s = s\<lparr> att_prepare_write_error_code := 0, att_prepare_write_error_handle := 0 \<rparr>"

definition att_prepare_write_update_errors :: "'app att_server \<Rightarrow> u8 \<Rightarrow> u16 \<Rightarrow> 'app att_server" where
  "att_prepare_write_update_errors s error_code handle =
     (if error_code = ATT_ERROR_INVALID_ATTRIBUTE_VALUE_LENGTH \<and> error_code \<noteq> att_prepare_write_error_code s
      then s\<lparr> att_prepare_write_error_code := error_code, att_prepare_write_error_handle := handle \<rparr>
      else if error_code = ATT_ERROR_INVALID_OFFSET \<and> att_prepare_write_error_code s = 0
      then s\<lparr> att_prepare_write_error_code := error_code, att_prepare_write_error_handle := handle \<rparr>
      else s)"

text \<open>The one item cache of the last written handle.\<close>

definition att_persistent_ccc_cache :: "'app att_server \<Rightarrow> att_iterator \<Rightarrow> 'app att_server option" where
  "att_persistent_ccc_cache s it =
     (if it_flags it AND ATT_PROPERTY_UUID128 \<noteq> 0
      then Some (s\<lparr> att_persistent_ccc_handle := it_handle it, att_persistent_ccc_uuid16 := 0 \<rparr>)
      else do {
        uuid16 \<leftarrow> little_endian_read_16 (it_uuid it) 0;
        Some (s\<lparr> att_persistent_ccc_handle := it_handle it, att_persistent_ccc_uuid16 := uuid16 \<rparr>) })"

definition att_is_persistent_ccc :: "'app att_server \<Rightarrow> u16 \<Rightarrow> (bool \<times> 'app att_server) option" where
  "att_is_persistent_ccc s handle =
     (if handle \<noteq> att_persistent_ccc_handle s
      then do {
        found \<leftarrow> att_find_handle (att_db s) handle;
        case found of
          None \<Rightarrow> Some (False, s)
        | Some it \<Rightarrow> do {
            s \<leftarrow> att_persistent_ccc_cache s it;
            Some (att_persistent_ccc_uuid16 s = GATT_CLIENT_CHARACTERISTICS_CONFIGURATION, s) } }
      else Some (att_persistent_ccc_uuid16 s = GATT_CLIENT_CHARACTERISTICS_CONFIGURATION, s))"

section \<open>Writes\<close>

abbreviation (input) ATT_TRANSACTION_MODE_NONE :: u16 where "ATT_TRANSACTION_MODE_NONE \<equiv> 0"
abbreviation (input) ATT_TRANSACTION_MODE_ACTIVE :: u16 where "ATT_TRANSACTION_MODE_ACTIVE \<equiv> 1"
abbreviation (input) ATT_TRANSACTION_MODE_EXECUTE :: u16 where "ATT_TRANSACTION_MODE_EXECUTE \<equiv> 2"
abbreviation (input) ATT_TRANSACTION_MODE_CANCEL :: u16 where "ATT_TRANSACTION_MODE_CANCEL \<equiv> 3"
abbreviation (input) ATT_TRANSACTION_MODE_VALIDATE :: u16 where "ATT_TRANSACTION_MODE_VALIDATE \<equiv> 4"

text \<open>A handler that may change the server answers the response's length, the response and the new server.\<close>

definition unchanged :: "'app att_server \<Rightarrow> (u16 \<times> buffer) option \<Rightarrow> (u16 \<times> buffer \<times> 'app att_server) option" where
  "unchanged s r = map_option (\<lambda>(n, response). (n, response, s)) r"

definition handle_write_request ::
    "'app att_server \<Rightarrow> att_connection \<Rightarrow> buffer \<Rightarrow> u16 \<Rightarrow> buffer \<Rightarrow> (u16 \<times> buffer \<times> 'app att_server) option" where
  "handle_write_request s conn request request_len response = do {
     handle \<leftarrow> little_endian_read_16 request 1;
     found \<leftarrow> att_find_handle (att_db s) handle;
     case found of
       None \<Rightarrow> unchanged s (setup_error_invalid_handle response 0x12 handle)
     | Some it \<Rightarrow>
         if att_write_callback s = None then unchanged s (setup_error_write_not_permitted response 0x12 handle)
         else if it_flags it AND ATT_PROPERTY_WRITE = 0 then unchanged s (setup_error_write_not_permitted response 0x12 handle)
         else if it_flags it AND ATT_PROPERTY_DYNAMIC = 0 then unchanged s (setup_error_write_not_permitted response 0x12 handle)
         else do {
           let error_code = att_validate_security conn ATT_WRITE it;
           if error_code \<noteq> 0 then unchanged s (setup_error response 0x12 handle error_code)
           else do {
             s \<leftarrow> att_persistent_ccc_cache s it;
             (error_code, s) \<leftarrow> call_write_callback s (con_handle conn) handle ATT_TRANSACTION_MODE_NONE 0 request 3 (request_len - 3);
             if error_code \<noteq> 0 then unchanged s (setup_error response 0x12 handle error_code)
             else do { response \<leftarrow> wr response 0 0x13; Some (1, response, s) } } } }"

definition handle_prepare_write_request ::
    "'app att_server \<Rightarrow> att_connection \<Rightarrow> buffer \<Rightarrow> u16 \<Rightarrow> buffer \<Rightarrow> (u16 \<times> buffer \<times> 'app att_server) option" where
  "handle_prepare_write_request s conn request request_len response = do {
     handle \<leftarrow> little_endian_read_16 request 1;
     offset \<leftarrow> little_endian_read_16 request 3;
     if att_write_callback s = None then unchanged s (setup_error_write_not_permitted response 0x16 handle)
     else do {
       found \<leftarrow> att_find_handle (att_db s) handle;
       case found of
         None \<Rightarrow> unchanged s (setup_error_invalid_handle response 0x16 handle)
       | Some it \<Rightarrow>
           if it_flags it AND ATT_PROPERTY_WRITE = 0 then unchanged s (setup_error_write_not_permitted response 0x16 handle)
           else if it_flags it AND ATT_PROPERTY_DYNAMIC = 0 then unchanged s (setup_error_write_not_permitted response 0x16 handle)
           else do {
             let error_code = att_validate_security conn ATT_WRITE it;
             if error_code \<noteq> 0 then unchanged s (setup_error response 0x16 handle error_code)
             else do {
               (error_code, s) \<leftarrow>
                 call_write_callback s (con_handle conn) handle ATT_TRANSACTION_MODE_ACTIVE offset request 5 (request_len - 5);
               if error_code \<noteq> 0 \<and> error_code \<noteq> ATT_ERROR_INVALID_OFFSET \<and>
                  error_code \<noteq> ATT_ERROR_INVALID_ATTRIBUTE_VALUE_LENGTH
               then unchanged s (setup_error response 0x16 handle error_code)
               else do {
                 let s = (if error_code = 0 then s else att_prepare_write_update_errors s error_code handle);
                 data \<leftarrow> rd_range request 0 (unat request_len);
                 response \<leftarrow> wr_range response 0 data;
                 response \<leftarrow> wr response 0 0x17;
                 Some (request_len, response, s) } } } } }"

definition att_clear_transaction_queue :: "'app att_server \<Rightarrow> att_connection \<Rightarrow> 'app att_server option" where
  "att_clear_transaction_queue s conn =
     map_option snd (call_write_callback s (con_handle conn) 0 ATT_TRANSACTION_MODE_CANCEL 0 [] 0 0)"

definition handle_execute_write_request ::
    "'app att_server \<Rightarrow> att_connection \<Rightarrow> buffer \<Rightarrow> buffer \<Rightarrow> (u16 \<times> buffer \<times> 'app att_server) option" where
  "handle_execute_write_request s conn request response = do {
     flag \<leftarrow> rd request 1;
     if flag \<noteq> 0 then do {
       s \<leftarrow> (if att_prepare_write_error_code s = 0 then do {
               (error_code, s) \<leftarrow> call_write_callback s (con_handle conn) 0 ATT_TRANSACTION_MODE_VALIDATE 0 [] 0 0;
               Some (s\<lparr> att_prepare_write_error_code := error_code \<rparr>) }
             else Some s);
       if att_prepare_write_error_code s \<noteq> 0 then do {
         s \<leftarrow> att_clear_transaction_queue s conn;
         let error_code = att_prepare_write_error_code s;
         let handle = att_prepare_write_error_handle s;
         unchanged (att_prepare_write_reset s) (setup_error response 0x18 handle error_code) }
       else do {
         (_, s) \<leftarrow> call_write_callback s (con_handle conn) 0 ATT_TRANSACTION_MODE_EXECUTE 0 [] 0 0;
         response \<leftarrow> wr response 0 0x19;
         Some (1, response, s) } }
     else do {
       s \<leftarrow> att_clear_transaction_queue s conn;
       response \<leftarrow> wr response 0 0x19;
       Some (1, response, s) } }"

definition handle_write_command ::
    "'app att_server \<Rightarrow> att_connection \<Rightarrow> buffer \<Rightarrow> u16 \<Rightarrow> 'app att_server option" where
  "handle_write_command s conn request request_len = do {
     handle \<leftarrow> little_endian_read_16 request 1;
     if att_write_callback s = None then Some s
     else do {
       found \<leftarrow> att_find_handle (att_db s) handle;
       case found of
         None \<Rightarrow> Some s
       | Some it \<Rightarrow>
           if it_flags it AND ATT_PROPERTY_DYNAMIC = 0 then Some s
           else if it_flags it AND ATT_PROPERTY_WRITE_WITHOUT_RESPONSE = 0 then Some s
           else if att_validate_security conn ATT_WRITE it \<noteq> 0 then Some s
           else do {
             s \<leftarrow> att_persistent_ccc_cache s it;
             map_option snd (call_write_callback s (con_handle conn) handle ATT_TRANSACTION_MODE_NONE 0 request 3 (request_len - 3)) } } }"

section \<open>Notifications and indications\<close>

text \<open>\<open>mtu - 3\<close> is negative for a smaller MTU; stored in \<open>value_len\<close> it wraps around.\<close>

definition prepare_handle_value ::
    "att_connection \<Rightarrow> u16 \<Rightarrow> buffer \<Rightarrow> u16 \<Rightarrow> buffer \<Rightarrow> (u16 \<times> buffer) option" where
  "prepare_handle_value conn handle value value_len response = do {
     response \<leftarrow> little_endian_store_16 response 1 handle;
     let value_len = (if uint value_len > uint (mtu conn) - 3 then mtu conn - 3 else value_len);
     data \<leftarrow> rd_range value 0 (unat value_len);
     response \<leftarrow> wr_range response 3 data;
     Some (value_len + 3, response) }"

definition att_prepare_handle_value_notification ::
    "att_connection \<Rightarrow> u16 \<Rightarrow> buffer \<Rightarrow> u16 \<Rightarrow> buffer \<Rightarrow> (u16 \<times> buffer) option" where
  "att_prepare_handle_value_notification conn handle value value_len response = do {
     response \<leftarrow> wr response 0 0x1b;
     prepare_handle_value conn handle value value_len response }"

definition att_prepare_handle_value_indication ::
    "att_connection \<Rightarrow> u16 \<Rightarrow> buffer \<Rightarrow> u16 \<Rightarrow> buffer \<Rightarrow> (u16 \<times> buffer) option" where
  "att_prepare_handle_value_indication conn handle value value_len response = do {
     response \<leftarrow> wr response 0 0x1d;
     prepare_handle_value conn handle value value_len response }"

section \<open>The dispatcher\<close>

definition att_handle_request ::
    "'app att_server \<Rightarrow> att_connection \<Rightarrow> buffer \<Rightarrow> u16 \<Rightarrow> buffer \<Rightarrow>
     (u16 \<times> buffer \<times> att_connection \<times> 'app att_server) option" where
  "att_handle_request s conn request request_len response = do {
     let response_buffer_size = mtu conn;
     let read = (\<lambda>r. map_option (\<lambda>(n, response). (n, response, conn, s)) r);
     let write = (\<lambda>r. map_option (\<lambda>(n, response, s). (n, response, conn, s)) r);
     opcode \<leftarrow> rd request 0;
     if opcode = 0x02 then map_option (\<lambda>(n, response, conn). (n, response, conn, s)) (handle_exchange_mtu_request conn request response)
     else if opcode = 0x04 then read (handle_find_information_request s request response response_buffer_size)
     else if opcode = 0x06 then read (handle_find_by_type_value_request s request request_len response response_buffer_size)
     else if opcode = 0x08 then read (handle_read_by_type_request s conn request request_len response response_buffer_size)
     else if opcode = 0x0a then read (handle_read_request s conn request response response_buffer_size)
     else if opcode = 0x0c then read (handle_read_blob_request s conn request response response_buffer_size)
     else if opcode = 0x0e then read (handle_read_multiple_request s conn request request_len response response_buffer_size)
     else if opcode = 0x10 then read (handle_read_by_group_type_request s request request_len response response_buffer_size)
     else if opcode = 0x12 then write (handle_write_request s conn request request_len response)
     else if opcode = 0x16 then write (handle_prepare_write_request s conn request request_len response)
     else if opcode = 0x18 then write (handle_execute_write_request s conn request response)
     else if opcode = 0x52 then map_option (\<lambda>s. (0, response, conn, s)) (handle_write_command s conn request request_len)
     else Some (0, response, conn, s) }"

section \<open>Lookups for the GATT server\<close>

text \<open>Variables: \<open>in_group\<close>, \<open>prev_handle\<close>, \<open>*start_handle\<close> and the result (\<open>*end_handle\<close>, when a group was closed).\<close>

definition service_range_step ::
    "buffer \<Rightarrow> u16 \<Rightarrow> att_iterator \<Rightarrow> bool \<times> u16 \<times> u16 option \<times> u16 option \<Rightarrow>
     (bool \<times> u16 \<times> u16 option \<times> u16 option) loop option" where
  "service_range_step attribute_value attribute_len it = (\<lambda>(in_group, prev_handle, start_handle, end_handle). do {
     new_service_started \<leftarrow> starts_service it;
     if in_group \<and> (it_handle it = 0 \<or> new_service_started)
     then Some (Break (in_group, prev_handle, start_handle, Some prev_handle))
     else do {
       let prev_handle = it_handle it;
       found \<leftarrow> (if it_handle it \<noteq> 0 \<and> new_service_started \<and> attribute_len = it_value_len it
                 then do { r \<leftarrow> memcmp_n (unat (it_value_len it)) attribute_value (it_value it); Some (r = 0) }
                 else Some False);
       if found then Some (Continue (True, prev_handle, Some (it_handle it), end_handle))
       else Some (Continue (in_group, prev_handle, start_handle, end_handle)) } })"

text \<open>The outputs \<open>*start_handle\<close> and \<open>*end_handle\<close>, where they are assigned; the routine returns 1 when the end is.\<close>

definition gatt_server_get_get_handle_range_for_service_with_uuid16 ::
    "buffer option \<Rightarrow> u16 \<Rightarrow> (u16 option \<times> u16 option) option" where
  "gatt_server_get_get_handle_range_for_service_with_uuid16 db uuid16 = do {
     attribute_value \<leftarrow> little_endian_store_16 [0, 0] 0 uuid16;
     (in_group, prev_handle, start_handle, end_handle) \<leftarrow>
       att_loop (service_range_step attribute_value 2) (att_iterator_init db) (False, 0, None, None);
     Some (start_handle, end_handle) }"

definition gatt_server_get_get_handle_range_for_service_with_uuid128 ::
    "buffer option \<Rightarrow> buffer \<Rightarrow> (u16 option \<times> u16 option) option" where
  "gatt_server_get_get_handle_range_for_service_with_uuid128 db uuid128 = do {
     attribute_value \<leftarrow> reverse_128 uuid128 (replicate 16 0);
     (in_group, prev_handle, start_handle, end_handle) \<leftarrow>
       att_loop (service_range_step attribute_value 16) (att_iterator_init db) (False, 0, None, None);
     Some (start_handle, end_handle) }"

text \<open>The variable is the result, 0 until it is found.\<close>

definition value_handle_step ::
    "(att_iterator \<Rightarrow> bool option) \<Rightarrow> u16 \<Rightarrow> u16 \<Rightarrow> att_iterator \<Rightarrow> u16 \<Rightarrow> u16 loop option" where
  "value_handle_step match_uuid start_handle end_handle it result =
     (if it_handle it \<noteq> 0 \<and> it_handle it < start_handle then Some (Continue result)
      else if it_handle it > end_handle then Some (Break result)
      else if it_handle it = 0 then Some (Break result)
      else do { found \<leftarrow> match_uuid it; Some (if found then Break (it_handle it) else Continue result) })"

definition gatt_server_get_value_handle_for_characteristic_with_uuid16 ::
    "buffer option \<Rightarrow> u16 \<Rightarrow> u16 \<Rightarrow> u16 \<Rightarrow> u16 option" where
  "gatt_server_get_value_handle_for_characteristic_with_uuid16 db start_handle end_handle uuid16 =
     att_loop (value_handle_step (\<lambda>it. att_iterator_match_uuid16 it uuid16) start_handle end_handle)
       (att_iterator_init db) 0"

definition gatt_server_get_value_handle_for_characteristic_with_uuid128 ::
    "buffer option \<Rightarrow> u16 \<Rightarrow> u16 \<Rightarrow> buffer \<Rightarrow> u16 option" where
  "gatt_server_get_value_handle_for_characteristic_with_uuid128 db start_handle end_handle uuid128 = do {
     attribute_value \<leftarrow> reverse_128 uuid128 (replicate 16 0);
     att_loop (value_handle_step (\<lambda>it. att_iterator_match_uuid it attribute_value 16) start_handle end_handle)
       (att_iterator_init db) 0 }"

text \<open>The variables: \<open>characteristic_found\<close> and the result.\<close>

definition configuration_handle_step ::
    "(att_iterator \<Rightarrow> bool option) \<Rightarrow> u16 \<Rightarrow> u16 \<Rightarrow> att_iterator \<Rightarrow> bool \<times> u16 \<Rightarrow> (bool \<times> u16) loop option" where
  "configuration_handle_step match_uuid start_handle end_handle it = (\<lambda>(characteristic_found, result).
     if it_handle it \<noteq> 0 \<and> it_handle it < start_handle then Some (Continue (characteristic_found, result))
     else if it_handle it > end_handle then Some (Break (characteristic_found, result))
     else if it_handle it = 0 then Some (Break (characteristic_found, result))
     else do {
       found \<leftarrow> match_uuid it;
       if found then Some (Continue (True, result))
       else do {
         service \<leftarrow> starts_service it;
         declaration \<leftarrow> (if service then Some True else att_iterator_match_uuid16 it GATT_CHARACTERISTICS_UUID);
         if declaration then Some (if characteristic_found then Break (characteristic_found, result)
                                   else Continue (characteristic_found, result))
         else do {
           ccc \<leftarrow> att_iterator_match_uuid16 it GATT_CLIENT_CHARACTERISTICS_CONFIGURATION;
           Some (if ccc then Break (characteristic_found, it_handle it) else Continue (characteristic_found, result)) } } })"

definition gatt_server_get_client_configuration_handle_for_characteristic_with_uuid16 ::
    "buffer option \<Rightarrow> u16 \<Rightarrow> u16 \<Rightarrow> u16 \<Rightarrow> u16 option" where
  "gatt_server_get_client_configuration_handle_for_characteristic_with_uuid16 db start_handle end_handle uuid16 =
     map_option snd (att_loop
       (configuration_handle_step (\<lambda>it. att_iterator_match_uuid16 it uuid16) start_handle end_handle)
       (att_iterator_init db) (False, 0))"

definition gatt_server_get_client_configuration_handle_for_characteristic_with_uuid128 ::
    "buffer option \<Rightarrow> u16 \<Rightarrow> u16 \<Rightarrow> buffer \<Rightarrow> u16 option" where
  "gatt_server_get_client_configuration_handle_for_characteristic_with_uuid128 db start_handle end_handle uuid128 = do {
     attribute_value \<leftarrow> reverse_128 uuid128 (replicate 16 0);
     map_option snd (att_loop
       (configuration_handle_step (\<lambda>it. att_iterator_match_uuid it attribute_value 16) start_handle end_handle)
       (att_iterator_init db) (False, 0)) }"

section \<open>Helpers for read callbacks\<close>

text \<open>The buffer is \<^const>\<open>None\<close> when null; the answer is the length and the buffer.  \<open>btstack_min\<close> compares
  unsigned 32 bit numbers, so an offset behind the blob copies \<open>buffer_size\<close> bytes.\<close>

definition att_read_callback_handle_blob ::
    "buffer \<Rightarrow> u16 \<Rightarrow> u16 \<Rightarrow> buffer option \<Rightarrow> u16 \<Rightarrow> (u16 \<times> buffer option) option" where
  "att_read_callback_handle_blob blob blob_size offset buffer buffer_size =
     (case buffer of
        None \<Rightarrow> Some (blob_size, None)
      | Some b \<Rightarrow> do {
          let bytes_to_copy = to16 (btstack_min (to32 blob_size - to32 offset) (to32 buffer_size));
          data \<leftarrow> rd_range blob (unat offset) (unat bytes_to_copy);
          b \<leftarrow> wr_range b 0 data;
          Some (bytes_to_copy, Some b) })"

definition att_read_callback_handle_little_endian_32 ::
    "u32 \<Rightarrow> u16 \<Rightarrow> buffer option \<Rightarrow> u16 \<Rightarrow> (u16 \<times> buffer option) option" where
  "att_read_callback_handle_little_endian_32 value offset buffer buffer_size = do {
     value_buffer \<leftarrow> little_endian_store_32 [0, 0, 0, 0] 0 value;
     att_read_callback_handle_blob value_buffer 4 offset buffer buffer_size }"

definition att_read_callback_handle_little_endian_16 ::
    "u16 \<Rightarrow> u16 \<Rightarrow> buffer option \<Rightarrow> u16 \<Rightarrow> (u16 \<times> buffer option) option" where
  "att_read_callback_handle_little_endian_16 value offset buffer buffer_size = do {
     value_buffer \<leftarrow> little_endian_store_16 [0, 0] 0 value;
     att_read_callback_handle_blob value_buffer 2 offset buffer buffer_size }"

definition att_read_callback_handle_byte :: "u8 \<Rightarrow> u16 \<Rightarrow> buffer option \<Rightarrow> u16 \<Rightarrow> (u16 \<times> buffer option) option" where
  "att_read_callback_handle_byte value offset buffer buffer_size =
     att_read_callback_handle_blob [value] 1 offset buffer buffer_size"

end
