(* ===== verification/Att_Spec.thy ===== *)
theory Att_Spec
  imports Att_Server
begin

text \<open>
  What the attribute database means: the bytes that encode a list of attributes, the loop over them as a walk along
  the list, and the UUID tests as tests of the attribute.
\<close>

section \<open>Encoded attributes\<close>

record attribute =
  a_flags :: u16
  a_handle :: u16
  a_uuid :: buffer
  a_value :: buffer

definition le16 :: "u16 \<Rightarrow> buffer" where
  "le16 v = [to8 v, to8 (drop_bit 8 v)]"

definition attribute_size :: "attribute \<Rightarrow> nat" where
  "attribute_size a = 6 + length (a_uuid a) + length (a_value a)"

definition has_uuid128 :: "attribute \<Rightarrow> bool" where
  "has_uuid128 a \<longleftrightarrow> a_flags a AND ATT_PROPERTY_UUID128 \<noteq> 0"

definition attribute_ok :: "attribute \<Rightarrow> bool" where
  "attribute_ok a \<longleftrightarrow> length (a_uuid a) = (if has_uuid128 a then 16 else 2) \<and> a_handle a \<noteq> 0 \<and> attribute_size a < 65536"

definition att_bytes :: "attribute \<Rightarrow> buffer" where
  "att_bytes a = le16 (of_nat (attribute_size a)) @ le16 (a_flags a) @ le16 (a_handle a) @ a_uuid a @ a_value a"

text \<open>The attributes, the end tag, and whatever follows it.\<close>

definition db_bytes :: "attribute list \<Rightarrow> buffer \<Rightarrow> buffer" where
  "db_bytes as tail = concat (map att_bytes as) @ le16 0 @ tail"

lemma le16_length [simp]: "length (le16 v) = 2"
  by (simp add: le16_def)

lemma read_le16 [simp]: "little_endian_read_16 (le16 v @ q) 0 = Some v"
  by (simp add: le16_def little_endian_read_16_def rd_def join_16)

lemma read_16_append: "little_endian_read_16 (p @ q) (length p + k) = little_endian_read_16 q k"
  by (simp add: little_endian_read_16_def rd_def nth_append flip: add.assoc)

lemma read_16_drop: "n \<le> length p \<Longrightarrow> little_endian_read_16 (drop n p) k = little_endian_read_16 p (n + k)"
  using read_16_append [of "take n p" "drop n p" k] by simp

lemma le16_read:
  assumes "length u = 2"
  shows "little_endian_read_16 (u @ q) 0 = Some v \<longleftrightarrow> u = le16 v"
proof -
  obtain x y where u: "u = [x, y]" using assms by (auto simp: numeral_2_eq_2 length_Suc_conv)
  show ?thesis
  proof
    assume "little_endian_read_16 (u @ q) 0 = Some v"
    then have v: "v = to16 x OR push_bit 8 (to16 y)" by (simp add: u little_endian_read_16_def rd_def)
    have "to8 v = x" "to8 (drop_bit 8 v) = y"
      unfolding v by (rule bit_word_eqI; auto simp: bit_simps dest: bit_imp_le_length)+
    then show "u = le16 v" by (simp add: u le16_def)
  next
    assume "u = le16 v" then show "little_endian_read_16 (u @ q) 0 = Some v" by simp
  qed
qed

lemma two_bytes:
  assumes "length u = 2"
  obtains v where "u = le16 v"
proof -
  obtain v where "little_endian_read_16 (u @ []) 0 = Some v"
    using assms by (auto simp: numeral_2_eq_2 length_Suc_conv little_endian_read_16_def rd_def)
  with le16_read [OF assms] that show ?thesis by blast
qed

lemma le16_inj [simp]: "le16 u = le16 v \<longleftrightarrow> u = v"
  using read_le16 [of u "[]"] read_le16 [of v "[]"] by (metis option.inject)

text \<open>The iterator at an attribute that is followed by \<open>rest\<close>, and at the end tag.\<close>

definition it_of :: "attribute \<Rightarrow> buffer \<Rightarrow> att_iterator" where
  "it_of a rest = \<lparr> att_ptr = Some rest, it_size = of_nat (attribute_size a), it_flags = a_flags a, it_handle = a_handle a,
     it_uuid = a_uuid a @ a_value a @ rest, it_value_len = of_nat (length (a_value a)), it_value = a_value a @ rest \<rparr>"

definition it_end :: att_iterator where
  "it_end = \<lparr> att_ptr = None, it_size = 0, it_flags = 0, it_handle = 0, it_uuid = [], it_value_len = 0, it_value = [] \<rparr>"

lemma attribute_size_unat: "attribute_ok a \<Longrightarrow> unat (of_nat (attribute_size a) :: u16) = attribute_size a"
  by (simp add: attribute_ok_def unat_of_nat_u16)

lemma fetch_attribute:
  assumes ok: "attribute_ok a" and "att_ptr it = Some (att_bytes a @ rest)"
  shows "att_iterator_fetch_next it = Some (it_of a rest)"
proof -
  let ?p = "att_bytes a @ rest" and ?s = "of_nat (attribute_size a) :: u16"
  have r0: "little_endian_read_16 ?p 0 = Some ?s" by (simp add: att_bytes_def)
  have r2: "little_endian_read_16 ?p 2 = Some (a_flags a)"
    using read_16_append [of "le16 ?s" "le16 (a_flags a) @ le16 (a_handle a) @ a_uuid a @ a_value a @ rest" 0]
    by (simp add: att_bytes_def)
  have r4: "little_endian_read_16 ?p 4 = Some (a_handle a)"
    using read_16_append [of "le16 ?s @ le16 (a_flags a)" "le16 (a_handle a) @ a_uuid a @ a_value a @ rest" 0]
    by (simp add: att_bytes_def)
  have size: "unat ?s = attribute_size a" using ok by (rule attribute_size_unat)
  have pos: "0 < attribute_size a" by (simp add: attribute_size_def)
  have nz: "?s \<noteq> 0" using size pos by (metis unat_0 less_irrefl)
  have d: "drop (attribute_size a) ?p = rest" by (simp add: att_bytes_def attribute_size_def)
  have d6: "drop 6 ?p = a_uuid a @ a_value a @ rest" by (simp add: att_bytes_def)
  have dv: "drop (if has_uuid128 a then 22 else 8) ?p = a_value a @ rest"
    using ok by (auto simp: att_bytes_def attribute_ok_def)
  have len: "?s - of_nat (if has_uuid128 a then 22 else 8) = of_nat (length (a_value a))"
    using ok by (auto simp: attribute_ok_def attribute_size_def)
  show ?thesis
    using nz assms(2) d d6 dv len size
    by (simp add: att_iterator_fetch_next_def r0 r2 r4 Let_def it_of_def has_uuid128_def [symmetric] cong: if_cong)
qed

lemma fetch_end: "att_ptr it = Some (le16 0 @ tail) \<Longrightarrow> att_iterator_fetch_next it = Some it_end"
  by (simp add: att_iterator_fetch_next_def it_end_def)

text \<open>The loop as a walk along the attributes and the end tag.\<close>

fun att_walk :: "(att_iterator \<Rightarrow> 's \<Rightarrow> 's loop option) \<Rightarrow> attribute list \<Rightarrow> buffer \<Rightarrow> 's \<Rightarrow> 's option" where
  "att_walk body [] tail s = (case body it_end s of
      None \<Rightarrow> None | Some (Break s') \<Rightarrow> Some s' | Some (Continue s') \<Rightarrow> Some s')"
| "att_walk body (a # as) tail s = (case body (it_of a (db_bytes as tail)) s of
      None \<Rightarrow> None | Some (Break s') \<Rightarrow> Some s' | Some (Continue s') \<Rightarrow> att_walk body as tail s')"

lemma att_loop_walk:
  "list_all attribute_ok as \<Longrightarrow> att_ptr it = Some (db_bytes as tail) \<Longrightarrow>
     att_loop body it s = att_walk body as tail s"
proof (induction as arbitrary: it s)
  case Nil
  then have "att_iterator_fetch_next it = Some it_end" by (intro fetch_end) (simp add: db_bytes_def)
  moreover have "att_loop body it_end s' = Some s'" for s'
    by (simp add: att_loop.simps att_iterator_has_next_def it_end_def)
  ultimately show ?case using Nil
    by (subst att_loop.simps) (simp add: att_iterator_has_next_def split: option.split loop.split)
next
  case (Cons a as)
  then have "att_iterator_fetch_next it = Some (it_of a (db_bytes as tail))"
    by (intro fetch_attribute) (simp_all add: db_bytes_def)
  moreover have "att_loop body (it_of a (db_bytes as tail)) s' = att_walk body as tail s'" for s'
    by (rule Cons.IH) (use Cons.prems in \<open>simp_all add: it_of_def\<close>)
  ultimately show ?case using Cons.prems
    by (subst att_loop.simps) (simp add: att_iterator_has_next_def split: option.split loop.split)
qed

lemma att_loop_db:
  "list_all attribute_ok as \<Longrightarrow>
     att_loop body (att_iterator_init (Some (db_bytes as tail))) s = att_walk body as tail s"
  by (rule att_loop_walk) (simp_all add: att_iterator_init_def)

lemma it_of_sel [simp]:
  "it_handle (it_of a r) = a_handle a" "it_flags (it_of a r) = a_flags a" "it_uuid (it_of a r) = a_uuid a @ a_value a @ r"
  "it_value_len (it_of a r) = of_nat (length (a_value a))" "it_value (it_of a r) = a_value a @ r"
  by (simp_all add: it_of_def)

lemma it_end_sel [simp]: "it_handle it_end = 0" "it_flags it_end = 0"
  by (simp_all add: it_end_def)

section \<open>Handles\<close>

definition find_attribute :: "attribute list \<Rightarrow> u16 \<Rightarrow> (attribute \<times> attribute list) option" where
  "find_attribute as handle =
     (case dropWhile (\<lambda>a. a_handle a \<noteq> handle) as of [] \<Rightarrow> None | a # r \<Rightarrow> Some (a, r))"

lemma find_walk:
  "handle \<noteq> 0 \<Longrightarrow> att_walk (\<lambda>it found. if it_handle it \<noteq> handle then Some (Continue None) else Some (Break (Some it)))
     as tail None = Some (map_option (\<lambda>(a, r). it_of a (db_bytes r tail)) (find_attribute as handle))"
  by (induction as) (simp_all add: find_attribute_def)

lemma att_find_handle_db:
  assumes "list_all attribute_ok as"
  shows "att_find_handle (Some (db_bytes as tail)) handle =
    Some (if handle = 0 then None else map_option (\<lambda>(a, r). it_of a (db_bytes r tail)) (find_attribute as handle))"
  using find_walk [of handle as tail] by (simp add: att_find_handle_def att_loop_db [OF assms])

lemma find_attribute_Some:
  "find_attribute as handle = Some (a, r) \<Longrightarrow> a \<in> set as \<and> a_handle a = handle"
proof (induction as)
  case (Cons x as)
  then show ?case by (cases "a_handle x = handle") (auto simp: find_attribute_def)
qed (simp add: find_attribute_def)

lemma find_attribute_distinct:
  assumes "distinct (map a_handle as)" and "a \<in> set as"
  shows "\<exists>r. find_attribute as (a_handle a) = Some (a, r)"
  using assms
proof (induction as)
  case (Cons x as)
  show ?case
  proof (cases "x = a")
    case False
    with Cons.prems have "a_handle x \<noteq> a_handle a" by (metis distinct.simps(2) image_eqI list.set_map list.simps(9) set_ConsD)
    with Cons False show ?thesis by (auto simp: find_attribute_def)
  qed (simp add: find_attribute_def)
qed simp

section \<open>UUIDs\<close>

text \<open>A 16 bit UUID stands for a 128 bit one; attributes are compared by the latter.\<close>

definition uuid128_of :: "buffer \<Rightarrow> buffer" where
  "uuid128_of u = (if length u = 2 then take 12 le_bluetooth_base_uuid @ u @ drop 14 le_bluetooth_base_uuid else u)"

definition has_uuid :: "attribute \<Rightarrow> buffer \<Rightarrow> bool" where
  "has_uuid a u \<longleftrightarrow> uuid128_of (a_uuid a) = uuid128_of u"

lemma memcmp_n_obtain:
  assumes "n \<le> length a" and "n \<le> length b"
  obtains x where "memcmp_n n a b = Some x" and "x = 0 \<longleftrightarrow> take n a = take n b"
proof -
  obtain x where x: "memcmp_n n a b = Some x" using memcmp_n_zero_iff [OF assms] by blast
  with memcmp_n_zero_iff [OF assms] have "x = 0 \<longleftrightarrow> take n a = take n b" by simp
  with x show ?thesis by (rule that)
qed

lemma base_uuid_length [simp]: "length le_bluetooth_base_uuid = 16"
  by (simp add: le_bluetooth_base_uuid_def)

lemma is_base_uuid:
  assumes "16 \<le> length u"
  shows "is_Bluetooth_Base_UUID u =
    Some (take 12 u = take 12 le_bluetooth_base_uuid \<and> take 2 (drop 14 u) = drop 14 le_bluetooth_base_uuid)"
proof -
  obtain x where x: "memcmp_n 12 u le_bluetooth_base_uuid = Some x" "x = 0 \<longleftrightarrow> take 12 u = take 12 le_bluetooth_base_uuid"
    by (rule memcmp_n_obtain [of 12 u le_bluetooth_base_uuid]) (use assms in simp_all)
  obtain y where y: "memcmp_n 2 (drop 14 u) (drop 14 le_bluetooth_base_uuid) = Some y"
      "y = 0 \<longleftrightarrow> take 2 (drop 14 u) = take 2 (drop 14 le_bluetooth_base_uuid)"
    by (rule memcmp_n_obtain [of 2 "drop 14 u" "drop 14 le_bluetooth_base_uuid"]) (use assms in simp_all)
  show ?thesis using x y by (simp add: is_Bluetooth_Base_UUID_def)
qed

lemma split_uuid:
  assumes "length u = 16"
  obtains p m q where "u = p @ m @ q" and "length p = 12" and "length m = 2" and "length q = 2"
proof (rule that)
  show "u = take 12 u @ take 2 (drop 12 u) @ drop 14 u"
    using split_range [of u 12 2] by simp
qed (use assms in simp_all)

text \<open>The test a base UUID and its short form make together.\<close>

lemma base_test:
  assumes "length u = 16"
  shows "do { base \<leftarrow> is_Bluetooth_Base_UUID (u @ r); if \<not> base then Some False
      else do { x \<leftarrow> little_endian_read_16 (u @ r) 12; Some (x = v) } } = Some (u = uuid128_of (le16 v))"
proof -
  obtain p m q where u: "u = p @ m @ q" "length p = 12" "length m = 2" "length q = 2" using assms by (rule split_uuid)
  have read: "little_endian_read_16 (u @ r) 12 = little_endian_read_16 (m @ q @ r) 0"
    using read_16_append [of p "m @ q @ r" 0] u by simp
  obtain x where x: "little_endian_read_16 (m @ q @ r) 0 = Some x"
    using u(3) by (auto simp: numeral_2_eq_2 length_Suc_conv little_endian_read_16_def rd_def)
  have m: "x = v \<longleftrightarrow> m = le16 v" using le16_read [OF u(3), of "q @ r" v] x by simp
  have "u = uuid128_of (le16 v) \<longleftrightarrow> p = take 12 le_bluetooth_base_uuid \<and> m = le16 v \<and> q = drop 14 le_bluetooth_base_uuid"
    using u by (simp add: uuid128_of_def)
  moreover have "is_Bluetooth_Base_UUID (u @ r) = Some (p = take 12 le_bluetooth_base_uuid \<and> q = drop 14 le_bluetooth_base_uuid)"
    using is_base_uuid [of "u @ r"] u by simp
  ultimately show ?thesis using read x m by (auto simp del: append_assoc)
qed

lemma uuid128_of_inj: "length u = 2 \<Longrightarrow> length v = 2 \<Longrightarrow> uuid128_of u = uuid128_of v \<longleftrightarrow> u = v"
  by (simp add: uuid128_of_def)

lemma match_uuid16:
  assumes ok: "attribute_ok a"
  shows "att_iterator_match_uuid16 (it_of a r) v = Some (has_uuid a (le16 v))"
proof (cases "has_uuid128 a")
  case True
  then have "length (a_uuid a) = 16" using ok by (simp add: attribute_ok_def)
  from base_test [OF this, of "a_value a @ r" v] True this show ?thesis
    using ok by (simp add: att_iterator_match_uuid16_def attribute_ok_def has_uuid_def has_uuid128_def [symmetric] cong: if_cong)
       (simp add: uuid128_of_def)
next
  case False
  then have l: "length (a_uuid a) = 2" using ok by (simp add: attribute_ok_def)
  obtain x where x: "little_endian_read_16 (a_uuid a @ a_value a @ r) 0 = Some x"
    using l by (auto simp: numeral_2_eq_2 length_Suc_conv little_endian_read_16_def rd_def)
  have "x = v \<longleftrightarrow> a_uuid a = le16 v" using le16_read [OF l, of "a_value a @ r" v] x by simp
  with x l False ok show ?thesis
    by (simp add: att_iterator_match_uuid16_def attribute_ok_def has_uuid_def has_uuid128_def [symmetric] uuid128_of_inj)
qed

lemma match_uuid16_end [simp]: "att_iterator_match_uuid16 it_end v = Some False"
  by (simp add: att_iterator_match_uuid16_def)

text \<open>The searched UUID may be followed by other bytes: the code reads its first two or sixteen.\<close>

lemma match_uuid:
  assumes ok: "attribute_ok a" and u: "length u = 2 \<and> n = 2 \<or> length u = 16 \<and> n = (16 :: u16)"
  shows "att_iterator_match_uuid (it_of a r) (u @ r') n = Some (has_uuid a u)"
proof (cases "length u = 2")
  case True
  then obtain v where v: "u = le16 v" by (rule two_bytes)
  with u True ok show ?thesis
    using match_uuid16 [OF ok, of r v] by (simp add: att_iterator_match_uuid_def attribute_ok_def)
next
  case False
  with u have l: "length u = 16" "n = 16" by auto
  show ?thesis
  proof (cases "has_uuid128 a")
    case True
    then have la: "length (a_uuid a) = 16" using ok by (simp add: attribute_ok_def)
    obtain x where x: "memcmp_n 16 (a_uuid a @ a_value a @ r) (u @ r') = Some x"
        "x = 0 \<longleftrightarrow> take 16 (a_uuid a @ a_value a @ r) = take 16 (u @ r')"
      by (rule memcmp_n_obtain [of 16 "a_uuid a @ a_value a @ r" "u @ r'"]) (use la l in simp_all)
    with True l la ok show ?thesis
      by (simp add: att_iterator_match_uuid_def attribute_ok_def has_uuid128_def [symmetric] has_uuid_def uuid128_of_def)
  next
    case False
    then have la: "length (a_uuid a) = 2" using ok by (simp add: attribute_ok_def)
    obtain v where v: "a_uuid a = le16 v" using la by (rule two_bytes)
    have "u = uuid128_of (le16 v) \<longleftrightarrow> has_uuid a u" using l by (auto simp: has_uuid_def v) (simp_all add: uuid128_of_def)
    with base_test [OF l(1), of r' v] l v False ok show ?thesis
      by (simp add: att_iterator_match_uuid_def attribute_ok_def has_uuid128_def [symmetric] cong: if_cong)
  qed
qed

lemma match_uuid_end [simp]: "att_iterator_match_uuid it_end u n = Some False"
  by (simp add: att_iterator_match_uuid_def)

definition is_service :: "attribute \<Rightarrow> bool" where
  "is_service a \<longleftrightarrow> has_uuid a (le16 GATT_PRIMARY_SERVICE_UUID) \<or> has_uuid a (le16 GATT_SECONDARY_SERVICE_UUID)"

lemma starts_service_of: "attribute_ok a \<Longrightarrow> starts_service (it_of a r) = Some (is_service a)"
  by (simp add: starts_service_def match_uuid16 is_service_def)

lemma starts_service_end [simp]: "starts_service it_end = Some False"
  by (simp add: starts_service_def)

section \<open>An example\<close>

text \<open>A primary service with one characteristic the client may read and write, and a static attribute with a 128 bit
  UUID that needs an encrypted connection to be read; an application that logs what is written to it, objects to more
  than four bytes, and whose value is one byte.\<close>

definition example_attributes :: "attribute list" where
  "example_attributes = [
     \<lparr> a_flags = 0x02, a_handle = 1, a_uuid = [0x00, 0x28], a_value = [0x00, 0x18] \<rparr>,
     \<lparr> a_flags = 0x02, a_handle = 2, a_uuid = [0x03, 0x28], a_value = [0x0e, 0x03, 0x00, 0x00, 0x2a] \<rparr>,
     \<lparr> a_flags = 0x10e, a_handle = 3, a_uuid = [0x00, 0x2a], a_value = [] \<rparr>,
     \<lparr> a_flags = 0xf602, a_handle = 4, a_uuid = [0x0f, 0x0e, 0x0d, 0x0c, 0x0b, 0x0a, 9, 8, 7, 6, 5, 4, 3, 2, 1, 0], a_value = [1, 2, 3] \<rparr>]"

definition example_read :: "(u16 \<times> buffer) list read_callback" where
  "example_read a con handle offset room = (case room of None \<Rightarrow> (1, []) | Some n \<Rightarrow> if n = 0 then (0, []) else (1, [0x2a]))"

definition example_write :: "(u16 \<times> buffer) list write_callback" where
  "example_write a con handle mode offset data = (if 4 < length data then 0x0d else 0, a @ [(mode, data)])"

definition example_server :: "(u16 \<times> buffer) list att_server" where
  "example_server = \<lparr> att_db = Some (db_bytes example_attributes []), att_read_callback = Some example_read,
     att_write_callback = Some example_write, att_prepare_write_error_code = 0, att_prepare_write_error_handle = 0,
     att_persistent_ccc_handle = 0, att_persistent_ccc_uuid16 = 0, app = [] \<rparr>"

definition example_conn :: att_connection where
  "example_conn = \<lparr> con_handle = 0x40, mtu = 23, max_mtu = 23, encryption_key_size = 0, authenticated = 0, authorized = 0 \<rparr>"

lemma example_ok: "list_all attribute_ok example_attributes"
  by (simp add: example_attributes_def attribute_ok_def attribute_size_def has_uuid128_def)

lemma example_server_sel:
  "att_db example_server = Some (db_bytes example_attributes [])" "att_write_callback example_server = Some example_write"
  "att_read_callback example_server = Some example_read" "att_prepare_write_error_code example_server = 0"
  "app example_server = []" "mtu example_conn = 23"
  by (simp_all add: example_server_def example_conn_def)

end
