(* ===== verification/Att_Safety.thy ===== *)
theory Att_Safety
  imports Att_Spec
begin

text \<open>
  The responses the server builds stay within the MTU and within the response buffer, for a well-formed database and
  read callbacks that keep their contract.
\<close>

section \<open>Writing into the response\<close>

definition put :: "nat \<Rightarrow> buffer \<Rightarrow> buffer \<Rightarrow> buffer" where
  "put p xs buf = take p buf @ xs @ drop (p + length xs) buf"

lemma put_length [simp]: "p + length xs \<le> length buf \<Longrightarrow> length (put p xs buf) = length buf"
  by (simp add: put_def)

lemma take_put [simp]: "p + length xs \<le> length buf \<Longrightarrow> take (p + length xs) (put p xs buf) = take p buf @ xs"
  by (simp add: put_def)

lemma wr_range_put: "p + length xs \<le> length buf \<Longrightarrow> wr_range buf p xs = Some (put p xs buf)"
  by (simp add: put_def wr_range_Some)

lemma wr_put: "p < length buf \<Longrightarrow> wr buf p x = Some (put p [x] buf)"
  by (simp add: put_def wr_def upd_conv_take_nth_drop)

lemma store_put:
  assumes "unat pos + 2 \<le> length buf" and "unat pos + 2 \<le> 65536"
  shows "little_endian_store_16 buf pos v = Some (put (unat pos) (le16 v) buf)"
proof -
  have p1: "unat (pos + 1) = unat pos + 1" using unat_plus_no_wrap [of pos 1] assms(2) by simp
  have "buf[unat pos := x, Suc (unat pos) := y] = take (unat pos) buf @ [x, y] @ drop (unat pos + 2) buf" for x y
  proof -
    have "drop (Suc (unat pos)) buf = buf ! Suc (unat pos) # drop (unat pos + 2) buf"
      using assms(1) by (simp add: Cons_nth_drop_Suc)
    then show ?thesis using assms(1) by (simp add: upd_conv_take_nth_drop list_update_append min_def)
  qed
  then show ?thesis using assms(1) by (simp add: little_endian_store_16_def wr_def p1 put_def le16_def)
qed

text \<open>A result that fits: the length is within the limit and the buffer has kept its length.\<close>

definition fits :: "u16 \<Rightarrow> buffer \<Rightarrow> (u16 \<times> buffer) option \<Rightarrow> bool" where
  "fits limit response r \<longleftrightarrow> (\<exists>n response'. r = Some (n, response') \<and> n \<le> limit \<and> length response' = length response)"

lemma fits_Some [simp]: "fits limit response (Some (n, response')) \<longleftrightarrow> n \<le> limit \<and> length response' = length response"
  by (simp add: fits_def)

lemma setup_error_eq:
  assumes "5 \<le> length response"
  shows "setup_error response request handle e =
    Some (5, put 0 ([0x01, to8 request] @ le16 handle @ [e]) response)"
proof -
  obtain a b c d f r where "response = a # b # c # d # f # r"
    using assms by (auto simp: numeral_eq_Suc Suc_le_length_iff)
  then show ?thesis
    by (simp add: setup_error_def little_endian_store_16_def wr_def put_def le16_def)
qed

lemma fits_setup_error [simp]:
  "23 \<le> unat limit \<Longrightarrow> unat limit \<le> length response \<Longrightarrow> fits limit response (setup_error response request handle e)"
  by (simp add: setup_error_eq word_le_nat_alt)

section \<open>Walks keep an invariant\<close>

definition step_keeps :: "('s \<Rightarrow> bool) \<Rightarrow> 's loop option \<Rightarrow> bool" where
  "step_keeps Q r \<longleftrightarrow> (\<exists>v. (r = Some (Break v) \<or> r = Some (Continue v)) \<and> Q v)"

lemma step_keeps_simps [simp]:
  "step_keeps Q (Some (Break v)) = Q v" "step_keeps Q (Some (Continue v)) = Q v" "\<not> step_keeps Q None"
  by (auto simp: step_keeps_def)

lemma att_walk_inv:
  assumes "\<And>a r v. a \<in> set as \<Longrightarrow> Q v \<Longrightarrow> step_keeps Q (body (it_of a r) v)"
    and "\<And>v. Q v \<Longrightarrow> step_keeps Q (body it_end v)" and "Q v"
  shows "\<exists>v'. att_walk body as tail v = Some v' \<and> Q v'"
  using assms
proof (induction as arbitrary: v)
  case Nil
  then have "step_keeps Q (body it_end v)" by blast
  then show ?case by (auto simp: step_keeps_def)
next
  case (Cons a as)
  have "step_keeps Q (body (it_of a (db_bytes as tail)) v)" using Cons.prems by simp
  then obtain v' where "body (it_of a (db_bytes as tail)) v = Some (Break v') \<or> body (it_of a (db_bytes as tail)) v = Some (Continue v')" "Q v'"
    by (auto simp: step_keeps_def)
  moreover have "\<exists>w. att_walk body as tail v' = Some w \<and> Q w" using Cons.IH Cons.prems \<open>Q v'\<close> by simp
  ultimately show ?case by auto
qed

section \<open>The contract of a read callback\<close>

text \<open>Asked for the size of a value it answers at most 512, the longest an attribute value may be; asked for a part of
  it, it writes as many bytes as it says, and no more than the buffer has room for.\<close>

definition read_contract :: "'app att_server \<Rightarrow> bool" where
  "read_contract s \<longleftrightarrow> (\<exists>cb. att_read_callback s = Some cb \<and>
     (\<forall>con handle. unat (fst (cb (app s) con handle 0 None)) \<le> 512) \<and>
     (\<forall>con handle offset size. case cb (app s) con handle offset (Some size) of (n, data) \<Rightarrow> length data = unat n \<and> n \<le> size))"

text \<open>A database whose attributes are well formed, and a callback for the dynamic ones.\<close>

definition serves :: "'app att_server \<Rightarrow> attribute list \<Rightarrow> bool" where
  "serves s as \<longleftrightarrow> (\<exists>tail. att_db s = Some (db_bytes as tail)) \<and> list_all attribute_ok as \<and>
     ((\<exists>a \<in> set as. a_flags a AND ATT_PROPERTY_DYNAMIC \<noteq> 0) \<longrightarrow> read_contract s)"

lemma attribute_value_length:
  "attribute_ok a \<Longrightarrow> unat (of_nat (length (a_value a)) :: u16) = length (a_value a) \<and> length (a_value a) < 65528"
  by (auto simp: attribute_ok_def attribute_size_def unat_of_nat_u16 split: if_splits)

lemma update_value_len:
  assumes "serves s as" and "a \<in> set as"
  obtains n where "att_update_value_len s (it_of a r) con = Some ((it_of a r)\<lparr> it_value_len := n \<rparr>)" and "unat n < 65528"
    and "a_flags a AND ATT_PROPERTY_DYNAMIC = 0 \<longrightarrow> unat n = length (a_value a)"
proof (cases "a_flags a AND ATT_PROPERTY_DYNAMIC = 0")
  case True
  have "attribute_ok a" using assms by (auto simp: serves_def list_all_iff)
  then show ?thesis
    using True attribute_value_length by (intro that [of "of_nat (length (a_value a))"]) (auto simp: att_update_value_len_def it_of_def)
next
  case False
  with assms obtain cb where "att_read_callback s = Some cb" "\<forall>con handle. unat (fst (cb (app s) con handle 0 None)) \<le> 512"
    by (auto simp: serves_def read_contract_def)
  moreover from this(2) have "unat (fst (cb (app s) con (a_handle a) 0 None)) \<le> 512" by blast
  then have "unat (fst (cb (app s) con (a_handle a) 0 None)) < 65528" by simp
  ultimately show ?thesis using False by (intro that) (auto simp: att_update_value_len_def)
qed

text \<open>Copying at most \<open>n\<close> bytes of a value to a place with room for them.\<close>

lemma copy_value:
  assumes "serves s as" and "a \<in> set as"
    and static: "a_flags a AND ATT_PROPERTY_DYNAMIC = 0 \<Longrightarrow> offset \<le> m \<and> unat m \<le> length (a_value a)"
    and room: "unat pos + unat n \<le> length response"
  obtains k response' where "att_copy_value s ((it_of a r)\<lparr> it_value_len := m \<rparr>) offset response pos n con = Some (k, response')"
    and "k \<le> n" and "length response' = length response"
proof (cases "a_flags a AND ATT_PROPERTY_DYNAMIC = 0")
  case True
  let ?k = "if m - offset > n then n else m - offset"
  have "unat (m - offset) = unat m - unat offset" using static [OF True] by (simp add: unat_sub)
  then have "unat ?k \<le> length (a_value a)" and kn: "?k \<le> n"
    using static [OF True] by (auto simp: word_less_nat_alt word_le_nat_alt)
  then have "rd_range (a_value a @ r) 0 (unat ?k) = Some (take (unat ?k) (a_value a))"
    by (simp add: rd_range_Some)
  moreover have "unat pos + length (take (unat ?k) (a_value a)) \<le> length response"
    using kn room by (simp add: word_le_nat_alt)
  moreover from this have "length (put (unat pos) (take (unat ?k) (a_value a)) response) = length response" by simp
  ultimately show ?thesis using True kn
    by (intro that [of ?k "put (unat pos) (take (unat ?k) (a_value a)) response"])
       (simp_all add: att_copy_value_def Let_def wr_range_put cong: if_cong)
next
  case False
  with assms obtain cb where cb: "att_read_callback s = Some cb"
      "\<forall>con handle offset size. case cb (app s) con handle offset (Some size) of (n, data) \<Rightarrow> length data = unat n \<and> n \<le> size"
    by (auto simp: serves_def read_contract_def)
  obtain k data where kd: "cb (app s) con (a_handle a) offset (Some n) = (k, data)" by (meson surj_pair)
  with cb(2) have "length data = unat k" "k \<le> n" by (metis (mono_tags, lifting) case_prod_conv)+
  moreover from this room have "unat pos + length data \<le> length response" by (simp add: word_le_nat_alt)
  ultimately show ?thesis using False cb(1) kd
    by (intro that [of k "put (unat pos) data response"]) (simp_all add: att_copy_value_def wr_range_put)
qed

section \<open>Find information\<close>

lemma put_put:
  assumes "p + length xs + length ys \<le> length buf"
  shows "put (p + length xs) ys (put p xs buf) = put p (xs @ ys) buf"
  using assms by (simp add: put_def ac_simps)

lemma store_two:
  fixes limit :: u16
  assumes "unat pos + 2 + length u \<le> unat limit" and "unat limit \<le> length response" and "n \<le> length u"
  shows "do { response \<leftarrow> little_endian_store_16 response pos v; x \<leftarrow> rd_range (u @ r) 0 n;
      response \<leftarrow> wr_range response (unat (pos + 2)) x; f response } =
    f (put (unat pos) (le16 v @ take n u) response)"
proof -
  have lt: "unat limit < 65536" by simp
  have o2: "unat (pos + 2) = unat pos + 2" using unat_plus_le [of pos 2 limit] assms(1) by simp
  have s: "little_endian_store_16 response pos v = Some (put (unat pos) (le16 v) response)"
    using assms lt by (intro store_put) linarith+
  have "wr_range (put (unat pos) (le16 v) response) (unat pos + 2) (take n u)
      = Some (put (unat pos + 2) (take n u) (put (unat pos) (le16 v) response))"
    using assms by (intro wr_range_put) simp
  also have "put (unat pos + 2) (take n u) (put (unat pos) (le16 v) response) = put (unat pos) (le16 v @ take n u) response"
    using put_put [of "unat pos" "le16 v" "take n u" response] assms by simp
  finally have w: "wr_range (put (unat pos) (le16 v) response) (unat pos + 2) (take n u)
      = Some (put (unat pos) (le16 v @ take n u) response)" .
  have rd: "rd_range (u @ r) 0 n = Some (take n u)" using assms(3) by (simp add: rd_range_Some)
  show ?thesis by (simp only: s o2 w rd bind.bind_lunit)
qed

definition uuid_len_of :: "attribute \<Rightarrow> u16" where
  "uuid_len_of a = (if has_uuid128 a then 16 else 2)"

lemma uuid_len_of_length: "attribute_ok a \<Longrightarrow> unat (uuid_len_of a) = length (a_uuid a)"
  by (simp add: uuid_len_of_def attribute_ok_def)

lemma word_two_le: "2 \<le> (x :: u16) \<longleftrightarrow> 2 \<le> unat x"
  by (simp add: word_le_nat_alt)

text \<open>One round, in terms of the attribute.\<close>

lemma find_information_step_eq:
  assumes ok: "attribute_ok a" and lim: "23 \<le> unat limit" "unat limit \<le> length response"
    and off: "offset = 1 \<or> 2 \<le> unat offset"
  shows "find_information_step limit start_handle end_handle (it_of a r) (offset, uuid_len, response) =
    (if a_handle a > end_handle then Some (Break (offset, uuid_len, response))
     else if a_handle a < start_handle then Some (Continue (offset, uuid_len, response))
     else if offset \<noteq> 1 \<and> uuid_len_of a \<noteq> uuid_len then Some (Break (offset, uuid_len, response))
     else let response = (if offset = 1 then put 1 [if has_uuid128 a then 2 else 1] response else response);
              offset = (if offset = 1 then 2 else offset)
          in if unat offset + 2 + length (a_uuid a) > unat limit then Some (Break (offset, uuid_len_of a, response))
             else Some (Continue (offset + 2 + uuid_len_of a, uuid_len_of a,
                    put (unat offset) (le16 (a_handle a) @ a_uuid a) response)))"
proof -
  have nz: "a_handle a \<noteq> 0" using ok by (simp add: attribute_ok_def)
  have gt1: "offset \<noteq> 1 \<longleftrightarrow> 1 < offset" using off by (auto simp: word_less_nat_alt)
  have fmt: "wr response (unat offset) x = Some (put 1 [x] response)" if "offset = 1" for x
    using that lim by (simp add: wr_put)
  have tail: "(if uint offset' + 2 + uint (uuid_len_of a) > uint limit then Some (Break (offset', uuid_len_of a, response'))
      else do {
        response \<leftarrow> little_endian_store_16 response' offset' (a_handle a);
        uuid \<leftarrow> rd_range (a_uuid a @ a_value a @ r) 0 (unat (uuid_len_of a));
        response \<leftarrow> wr_range response (unat (offset' + 2)) uuid;
        Some (Continue (offset' + 2 + uuid_len_of a, uuid_len_of a, response)) }) =
      (if unat offset' + 2 + length (a_uuid a) > unat limit then Some (Break (offset', uuid_len_of a, response'))
       else Some (Continue (offset' + 2 + uuid_len_of a, uuid_len_of a,
              put (unat offset') (le16 (a_handle a) @ a_uuid a) response')))"
    if "unat limit \<le> length response'" for offset' :: u16 and response'
  proof -
    have c: "uint offset' + 2 + uint (uuid_len_of a) > uint limit \<longleftrightarrow> unat offset' + 2 + length (a_uuid a) > unat limit"
      unfolding uint_nat uuid_len_of_length [OF ok, symmetric] by linarith
    show ?thesis
    proof (cases "unat offset' + 2 + length (a_uuid a) > unat limit")
      case False
      have "unat (uuid_len_of a) \<le> length (a_uuid a)" using uuid_len_of_length [OF ok] by simp
      from store_two [OF _ that this, of offset' "a_handle a" "a_value a @ r"
          "\<lambda>response. Some (Continue (offset' + 2 + uuid_len_of a, uuid_len_of a, response))"] False c
      show ?thesis by (simp add: uuid_len_of_length [OF ok])
    qed (use c in simp)
  qed
  have l1: "unat limit \<le> length (put 1 [x] response)" for x using lim by simp
  show ?thesis
  proof (cases "offset = 1")
    case True
    then show ?thesis using tail [OF l1, of 2] fmt
      by (simp add: find_information_step_def nz has_uuid128_def [symmetric] uuid_len_of_def [symmetric] Let_def
          cong: if_cong)
  next
    case False
    then show ?thesis using tail [OF lim(2), of offset] gt1
      by (cases "uuid_len = uuid_len_of a")
         (simp_all add: find_information_step_def nz has_uuid128_def [symmetric] uuid_len_of_def [symmetric] Let_def
           cong: if_cong)
  qed
qed

lemma find_information_end [simp]:
  "find_information_step limit s e it_end v = Some (Break v)"
  by (cases v) (simp add: find_information_step_def)

section \<open>Read by type\<close>

definition read_by_type_inv :: "u16 \<Rightarrow> nat \<Rightarrow> read_by_type_vars \<Rightarrow> bool" where
  "read_by_type_inv limit len v \<longleftrightarrow> length (rt_response v) = len \<and> (rt_offset v = 1 \<or> 2 \<le> unat (rt_offset v)) \<and>
     unat (rt_offset v) \<le> unat limit"

lemma read_by_type_store:
  assumes srv: "serves s as" "a \<in> set as" and lim: "23 \<le> unat limit" "unat limit \<le> len"
    and q: "length (rt_response v) = len" "2 \<le> unat (rt_offset v)"
    and m: "unat pos = unat (rt_offset v) + 2" "unat pos + unat m \<le> unat limit"
    and static: "a_flags a AND ATT_PROPERTY_DYNAMIC = 0 \<Longrightarrow> unat m \<le> length (a_value a)"
  shows "step_keeps (read_by_type_inv limit len) (do {
      response \<leftarrow> little_endian_store_16 (rt_response v) (rt_offset v) (a_handle a);
      (bytes_copied, response) \<leftarrow> att_copy_value s ((it_of a r)\<lparr> it_value_len := m \<rparr>) 0 response pos m con;
      Some (Continue (v\<lparr> rt_offset := pos + bytes_copied, rt_response := response \<rparr>)) })"
proof -
  have lt: "unat limit < 65536" by simp
  have s: "little_endian_store_16 (rt_response v) (rt_offset v) (a_handle a)
      = Some (put (unat (rt_offset v)) (le16 (a_handle a)) (rt_response v))"
    using q m lim lt by (intro store_put) linarith+
  have l: "length (put (unat (rt_offset v)) (le16 (a_handle a)) (rt_response v)) = len" using q m lim by simp
  have room: "unat pos + unat m \<le> length (put (unat (rt_offset v)) (le16 (a_handle a)) (rt_response v))"
    using l m lim by simp
  obtain k response' where k: "att_copy_value s ((it_of a r)\<lparr> it_value_len := m \<rparr>) 0
      (put (unat (rt_offset v)) (le16 (a_handle a)) (rt_response v)) pos m con = Some (k, response')"
      "k \<le> m" "length response' = length (put (unat (rt_offset v)) (le16 (a_handle a)) (rt_response v))"
    by (rule copy_value [OF srv _ room, of 0]) (use static in auto)
  have "unat k \<le> unat m" using k(2) by (simp add: word_le_nat_alt)
  then have "unat (pos + k) = unat pos + unat k" using unat_plus_le [of pos k limit] m(2) by simp
  with \<open>unat k \<le> unat m\<close> k(3) l m q(2) show ?thesis by (simp add: s k(1) read_by_type_inv_def)
qed

lemma read_by_type_keeps:
  assumes srv: "serves s as" "a \<in> set as" and lim: "23 \<le> unat limit" "unat limit \<le> len"
    and u: "length u = 2 \<and> ulen = 2 \<or> length u = 16 \<and> ulen = (16 :: u16)"
    and q: "read_by_type_inv limit len v"
  shows "step_keeps (read_by_type_inv limit len)
    (read_by_type_step s conn limit start_handle end_handle ulen (u @ r') (it_of a r) v)"
proof -
  have ok: "attribute_ok a" using srv by (auto simp: serves_def list_all_iff)
  have nz: "a_handle a \<noteq> 0" using ok by (simp add: attribute_ok_def)
  have match: "att_iterator_match_uuid (it_of a r) (u @ r') ulen = Some (has_uuid a u)" by (rule match_uuid [OF ok u])
  obtain n where n: "att_update_value_len s (it_of a r) (con_handle conn) = Some ((it_of a r)\<lparr> it_value_len := n \<rparr>)"
      "unat n < 65528" "a_flags a AND ATT_PROPERTY_DYNAMIC = 0 \<longrightarrow> unat n = length (a_value a)"
    by (rule update_value_len [OF srv, where r = r and con = "con_handle conn"])
  have pl: "unat (2 + n) = 2 + unat n" using unat_plus_no_wrap [of 2 n] n(2) by simp
  have two: "unat (w + 2) = unat w + 2" if "unat w + 2 \<le> unat limit" for w :: u16
    using unat_plus_le [of w 2 limit] that by simp
  have l4: "unat (limit - 4) = unat limit - 4" using lim(1) by (subst unat_sub) (simp_all add: word_le_nat_alt)
  have store: "step_keeps (read_by_type_inv limit len)
     (if uint (rt_offset w) + uint (2 + n) > uint limit \<and> rt_offset w > 2 then Some (Break w)
      else do {
        (it, w) \<leftarrow> (if uint (rt_offset w) + uint (2 + n) > uint limit then do {
             let it = (it_of a r)\<lparr> it_value_len := limit - 4 \<rparr>;
             response \<leftarrow> wr (rt_response w) 1 (to8 (2 + it_value_len it));
             Some (it, w\<lparr> rt_response := response \<rparr>) }
           else Some ((it_of a r)\<lparr> it_value_len := n \<rparr>, w));
        response \<leftarrow> little_endian_store_16 (rt_response w) (rt_offset w) (it_handle it);
        let offset = rt_offset w + 2;
        (bytes_copied, response) \<leftarrow> att_copy_value s it 0 response offset (it_value_len it) (con_handle conn);
        Some (Continue (w\<lparr> rt_offset := offset + bytes_copied, rt_response := response \<rparr>)) })"
    if w: "length (rt_response w) = len" "2 \<le> unat (rt_offset w)" "unat (rt_offset w) \<le> unat limit" for w
  proof -
    have cond: "uint (rt_offset w) + uint (2 + n) > uint limit \<longleftrightarrow> unat (rt_offset w) + 2 + unat n > unat limit"
      unfolding uint_nat pl by linarith
    have "rt_offset w > 2 \<longleftrightarrow> unat (rt_offset w) > 2" by (simp add: word_less_nat_alt)
    then consider "unat (rt_offset w) + 2 + unat n \<le> unat limit" | "unat (rt_offset w) + 2 + unat n > unat limit" "rt_offset w > 2"
      | "unat (rt_offset w) + 2 + unat n > unat limit" "unat (rt_offset w) = 2"
      using w(2) by linarith
    then show ?thesis
    proof cases
      case 1
      then have o2: "unat (rt_offset w + 2) = unat (rt_offset w) + 2" by (intro two) simp
      from read_by_type_store [OF srv lim w(1,2) o2, of n r "con_handle conn"] 1 n(3) cond o2 show ?thesis
        by (simp add: Let_def)
    next
      case 2
      with w cond show ?thesis by (simp add: read_by_type_inv_def)
    next
      case 3
      let ?w = "w\<lparr> rt_response := put 1 [to8 (2 + (limit - 4))] (rt_response w) \<rparr>"
      have wr1: "wr (rt_response w) 1 x = Some (put 1 [x] (rt_response w))" for x using w lim by (simp add: wr_put)
      have g: "\<not> rt_offset w > 2" using 3 by (simp add: word_less_nat_alt)
      have q1: "length (rt_response ?w) = len" using w lim by simp
      have q2: "2 \<le> unat (rt_offset ?w)" using 3 by simp
      have o2: "unat (rt_offset w + 2) = unat (rt_offset ?w) + 2" using 3 lim two [of "rt_offset w"] by simp
      have m: "unat (rt_offset w + 2) + unat (limit - 4) \<le> unat limit" using o2 3 l4 lim by simp
      have st: "unat (limit - 4) \<le> length (a_value a)" if "a_flags a AND ATT_PROPERTY_DYNAMIC = 0"
        using that n(3) 3 l4 by simp
      from read_by_type_store [OF srv lim q1 q2 o2 m st, of r "con_handle conn"] g cond 3 wr1 show ?thesis
        by (simp add: Let_def)
    qed
  qed
  show ?thesis
  proof (cases "a_handle a < start_handle \<or> a_handle a > end_handle \<or> \<not> has_uuid a u \<or> a_flags a AND ATT_PROPERTY_READ = 0
      \<or> att_validate_security conn ATT_READ (it_of a r) \<noteq> 0")
    case True
    with q nz match show ?thesis by (auto simp: read_by_type_step_def read_by_type_inv_def Let_def)
  next
    case False
    define w where "w = v\<lparr> rt_error_code := 0 \<rparr>"
    let ?w1 = "w\<lparr> rt_offset := 2, rt_pair_len := 2 + n, rt_response := put 1 [to8 (2 + n)] (rt_response w) \<rparr>"
    have qw: "read_by_type_inv limit len w" using q by (simp add: w_def read_by_type_inv_def)
    have wr1: "wr (rt_response w) 1 x = Some (put 1 [x] (rt_response w))" for x
      using qw lim by (simp add: wr_put read_by_type_inv_def)
    have gt: "rt_offset w \<noteq> 1 \<longleftrightarrow> rt_offset w > 1" using qw by (auto simp: read_by_type_inv_def word_less_nat_alt)
    consider "rt_offset w = 1" | "rt_offset w > 1" "rt_pair_len w \<noteq> 2 + n" | "rt_offset w > 1" "rt_pair_len w = 2 + n"
      using gt by blast
    then show ?thesis
    proof cases
      case 1
      have "length (rt_response ?w1) = len" using qw lim by (simp add: read_by_type_inv_def)
      with store [of ?w1] lim 1 nz match False n(1) wr1 show ?thesis
        by (simp add: read_by_type_step_def w_def Let_def cong: if_cong)
    next
      case 2
      with qw nz match False n(1) gt show ?thesis
        by (simp add: read_by_type_step_def w_def Let_def)
    next
      case 3
      with store [of w] qw gt nz match False n(1) show ?thesis
        by (simp add: read_by_type_step_def w_def Let_def read_by_type_inv_def cong: if_cong)
    qed
  qed
qed

section \<open>Groups of attributes\<close>

text \<open>An invariant for the rounds that continue, and what holds when the loop has ended.\<close>

definition step_ends :: "('s \<Rightarrow> bool) \<Rightarrow> ('s \<Rightarrow> bool) \<Rightarrow> 's loop option \<Rightarrow> bool" where
  "step_ends Q R r \<longleftrightarrow> (\<exists>v. r = Some (Break v) \<and> R v \<or> r = Some (Continue v) \<and> Q v)"

lemma step_ends_simps [simp]:
  "step_ends Q R (Some (Break v)) = R v" "step_ends Q R (Some (Continue v)) = Q v" "\<not> step_ends Q R None"
  by (auto simp: step_ends_def)

lemma att_walk_ends:
  assumes "\<And>a r v. a \<in> set as \<Longrightarrow> Q v \<Longrightarrow> step_ends Q R (body (it_of a r) v)"
    and "\<And>v. Q v \<Longrightarrow> step_ends Q R (body it_end v)" and "\<And>v. Q v \<Longrightarrow> R v" and "Q v"
  shows "\<exists>v'. att_walk body as tail v = Some v' \<and> R v'"
  using assms(1,2,4)
proof (induction as arbitrary: v)
  case Nil
  then have "step_ends Q R (body it_end v)" by blast
  then show ?case using assms(3) by (auto simp: step_ends_def)
next
  case (Cons a as)
  have "step_ends Q R (body (it_of a (db_bytes as tail)) v)" using Cons.prems by simp
  then consider v' where "body (it_of a (db_bytes as tail)) v = Some (Break v')" "R v'"
    | v' where "body (it_of a (db_bytes as tail)) v = Some (Continue v')" "Q v'"
    by (auto simp: step_ends_def)
  then show ?case
  proof cases
    case 2
    moreover have "\<exists>w. att_walk body as tail v' = Some w \<and> R w" using Cons.IH Cons.prems 2(2) by simp
    ultimately show ?thesis by simp
  qed simp
qed

text \<open>Service declarations hold a 16 bit or a 128 bit UUID.\<close>

definition services_ok :: "attribute list \<Rightarrow> bool" where
  "services_ok as \<longleftrightarrow> (\<forall>a \<in> set as. is_service a \<longrightarrow> length (a_value a) = 2 \<or> length (a_value a) = 16)"

definition by_value_inv :: "u16 \<Rightarrow> nat \<Rightarrow> u16 \<times> bool \<times> u16 \<times> buffer \<Rightarrow> bool" where
  "by_value_inv limit len = (\<lambda>(offset, in_group, prev_handle, response). length response = len \<and> 0 < unat offset \<and>
     unat offset + (if in_group then 2 else 4) \<le> unat limit)"

definition by_value_end :: "u16 \<Rightarrow> nat \<Rightarrow> u16 \<times> bool \<times> u16 \<times> buffer \<Rightarrow> bool" where
  "by_value_end limit len = (\<lambda>(offset, in_group, prev_handle, response). length response = len \<and> unat offset \<le> unat limit)"

lemma store_offset:
  fixes limit :: u16
  assumes "unat offset + 2 \<le> unat limit" and "unat limit \<le> length response"
  shows "little_endian_store_16 response offset v = Some (put (unat offset) (le16 v) response)"
    and "length (put (unat offset) (le16 v) response) = length response" and "unat (offset + 2) = unat offset + 2"
proof -
  have lt: "unat limit < 65536" by simp
  show "little_endian_store_16 response offset v = Some (put (unat offset) (le16 v) response)"
    using assms lt by (intro store_put) linarith+
  show "length (put (unat offset) (le16 v) response) = length response" using assms by simp
  show "unat (offset + 2) = unat offset + 2" using unat_plus_le [of offset 2 limit] assms(1) by simp
qed

text \<open>The end of a round: whether the attribute begins a group.\<close>

lemma by_value_begin:
  assumes "unat limit \<le> len" and q: "by_value_inv limit len (offset, in_group, prev, response)"
    and m: "matches \<Longrightarrow> \<not> in_group"
  shows "step_ends (by_value_inv limit len) (by_value_end limit len)
    (if matches then do { response \<leftarrow> little_endian_store_16 response offset h; Some (Continue (offset + 2, True, prev, response)) }
     else Some (Continue (offset, in_group, prev, response)))"
proof (cases matches)
  case True
  have l: "length response = len" "unat offset + 2 \<le> unat limit" "unat offset + 4 \<le> unat limit"
    using q m [OF True] by (simp_all add: by_value_inv_def)
  have "unat limit \<le> length response" using l assms(1) by simp
  note st = store_offset [OF l(2) this]
  show ?thesis using l True st(1) [of h] st(2) [of h] st(3) by (simp add: by_value_inv_def)
qed (use q in simp)

lemma memcmp_value:
  assumes "n = length p" and "n \<le> length x"
  obtains b where "memcmp_n n x (p @ r) = Some b"
  by (rule memcmp_n_obtain [where n = n and a = x and b = "p @ r"]) (use assms in auto)

lemma find_by_type_value_keeps:
  assumes ok: "attribute_ok a" and lim: "23 \<le> unat limit" "unat limit \<le> len" and val: "unat alen \<le> length value"
    and type: "type = GATT_PRIMARY_SERVICE_UUID \<or> type = GATT_SECONDARY_SERVICE_UUID"
    and q: "by_value_inv limit len v"
  shows "step_ends (by_value_inv limit len) (by_value_end limit len)
    (find_by_type_value_step limit start_handle end_handle type alen value (it_of a r) v)"
proof -
  obtain offset in_group prev response where v: "v = (offset, in_group, prev, response)" by (metis prod_cases4)
  have nz: "a_handle a \<noteq> 0" using ok by (simp add: attribute_ok_def)
  have l: "length response = len" "unat offset + 2 \<le> unat limit" using q by (auto simp: v by_value_inv_def split: if_splits)
  have ends: "by_value_end limit len v" using q by (auto simp: v by_value_inv_def by_value_end_def split: if_splits)
  have "\<exists>m. (if has_uuid a (le16 type) \<and> alen = of_nat (length (a_value a))
      then do { r \<leftarrow> memcmp_n (length (a_value a)) value (a_value a @ r); Some (r = 0) } else Some False) = Some m \<and>
      (m \<longrightarrow> is_service a)"
  proof (cases "has_uuid a (le16 type) \<and> alen = of_nat (length (a_value a))")
    case True
    then have "length (a_value a) \<le> length value" using attribute_value_length [OF ok] val by simp
    then obtain b where "memcmp_n (length (a_value a)) value (a_value a @ r) = Some b" by (rule memcmp_value [OF refl])
    with True type show ?thesis by (auto simp: is_service_def)
  next
    case False
    then show ?thesis by (intro exI [of _ False]) auto
  qed
  then obtain m where m: "(if has_uuid a (le16 type) \<and> alen = of_nat (length (a_value a))
      then do { r \<leftarrow> memcmp_n (length (a_value a)) value (a_value a @ r); Some (r = 0) } else Some False) = Some m"
      "m \<longrightarrow> is_service a" by blast
  have matches: "do {
       same_type \<leftarrow> att_iterator_match_uuid16 (it_of a r) type;
       if same_type \<and> alen = it_value_len (it_of a r)
       then do { x \<leftarrow> memcmp_n (unat (it_value_len (it_of a r))) value (it_value (it_of a r)); Some (x = 0) } else Some False } = Some m"
    using m(1) attribute_value_length [OF ok] by (cases "has_uuid a (le16 type)") (simp_all add: match_uuid16 [OF ok] cong: if_cong)
  have body: "step_ends (by_value_inv limit len) (by_value_end limit len)
     (if full then Some (Break (o1, g1, prev, r1)) else
       if m then do { response \<leftarrow> little_endian_store_16 r1 o1 (a_handle a); Some (Continue (o1 + 2, True, a_handle a, response)) }
       else Some (Continue (o1, g1, a_handle a, r1)))"
    if "length r1 = len" "unat o1 \<le> unat limit" "0 < unat o1" "\<not> full \<Longrightarrow> by_value_inv limit len (o1, g1, prev, r1)"
      "is_service a \<Longrightarrow> \<not> g1" for full o1 g1 r1
  proof (cases full)
    case True
    with that show ?thesis by (simp add: by_value_end_def)
  next
    case False
    have "by_value_inv limit len (o1, g1, a_handle a, r1)" using that(4) [OF False] by (simp add: by_value_inv_def)
    from by_value_begin [OF lim(2) this, of m "a_handle a"] m(2) that(5) False show ?thesis by simp
  qed
  have o2: "unat limit \<le> length response" using l lim by simp
  note so = store_offset [OF l(2) o2]
  note st = so(1) [of prev] so(2) [of prev] so(3)
  have full: "uint (offset + 2) + 4 > uint limit \<longleftrightarrow> unat offset + 6 > unat limit"
    unfolding uint_nat st(3) by linarith
  consider "a_handle a < start_handle" | "a_handle a > end_handle" | "\<not> a_handle a < start_handle" "\<not> a_handle a > end_handle" by blast
  then show ?thesis
  proof cases
    case 3
    show ?thesis
    proof (cases "in_group \<and> is_service a")
      case True
      have "step_ends (by_value_inv limit len) (by_value_end limit len)
         (if unat offset + 6 > unat limit then Some (Break (offset + 2, False, prev, put (unat offset) (le16 prev) response)) else
          if m then do { response \<leftarrow> little_endian_store_16 (put (unat offset) (le16 prev) response) (offset + 2) (a_handle a);
             Some (Continue (offset + 2 + 2, True, a_handle a, response)) }
          else Some (Continue (offset + 2, False, a_handle a, put (unat offset) (le16 prev) response)))"
        by (rule body) (use st l in \<open>simp_all add: by_value_inv_def\<close>)
      with 3 True nz ok st full matches show ?thesis
        by (simp add: find_by_type_value_step_def v starts_service_of Let_def cong: if_cong del: it_of_sel(4,5))
    next
      case False
      have "step_ends (by_value_inv limit len) (by_value_end limit len)
         (if False then Some (Break (offset, in_group, prev, response)) else
          if m then do { response \<leftarrow> little_endian_store_16 response offset (a_handle a); Some (Continue (offset + 2, True, a_handle a, response)) }
          else Some (Continue (offset, in_group, a_handle a, response)))"
        by (rule body) (use False q l in \<open>auto simp: v by_value_inv_def split: if_splits\<close>)
      with 3 False nz ok matches show ?thesis
        by (cases in_group) (simp_all add: find_by_type_value_step_def v starts_service_of Let_def cong: if_cong del: it_of_sel(4,5))
    qed
  qed (use nz q ends in \<open>auto simp: find_by_type_value_step_def v\<close>)
qed


lemma example_serves: "serves example_server example_attributes"
proof -
  have "read_contract example_server"
    by (auto simp: read_contract_def example_server_def example_read_def word_le_nat_alt split: option.split)
      (simp add: unat_gt_0 Suc_leI)
  then show ?thesis by (auto simp: serves_def example_ok example_server_sel)
qed

lemma example_services: "services_ok example_attributes"
  by (simp add: services_ok_def example_attributes_def is_service_def has_uuid_def uuid128_of_def le16_def le_bluetooth_base_uuid_def)

end
