(* ===== verification/Att_Answers.thy ===== *)
theory Att_Answers
  imports Att_Safety
begin

text \<open>
  What the read requests answer, as functions of the list of attributes, and the theorems that the handlers answer it.
\<close>

section \<open>Find information\<close>

text \<open>The attributes a request for a range of handles considers: those from the start handle on, until the first
  handle behind the end.\<close>

definition in_range :: "u16 \<Rightarrow> u16 \<Rightarrow> attribute list \<Rightarrow> attribute list" where
  "in_range start_handle end_handle as =
     filter (\<lambda>a. start_handle \<le> a_handle a) (takeWhile (\<lambda>a. a_handle a \<le> end_handle) as)"

definition information_entry :: "attribute \<Rightarrow> buffer" where
  "information_entry a = le16 (a_handle a) @ a_uuid a"

text \<open>As many entries with UUIDs of one length as fit into \<open>room\<close> bytes.\<close>

definition information_entries :: "nat \<Rightarrow> u16 \<Rightarrow> attribute list \<Rightarrow> attribute list" where
  "information_entries room uuid_len as = take (room div (2 + unat uuid_len)) (takeWhile (\<lambda>a. uuid_len_of a = uuid_len) as)"

definition find_information_answer :: "attribute list \<Rightarrow> u16 \<Rightarrow> u16 \<Rightarrow> u16 \<Rightarrow> buffer" where
  "find_information_answer as limit start_handle end_handle =
     (case in_range start_handle end_handle as of
        [] \<Rightarrow> [0x01, 0x04] @ le16 start_handle @ [ATT_ERROR_ATTRIBUTE_NOT_FOUND]
      | a # r \<Rightarrow> [0x05, if has_uuid128 a then 2 else 1] @
          concat (map information_entry (information_entries (unat limit - 2) (uuid_len_of a) (a # r))))"

lemma in_range_Cons:
  "in_range s e (a # as) = (if a_handle a > e then [] else if a_handle a < s then in_range s e as else a # in_range s e as)"
  by (auto simp: in_range_def word_less_nat_alt word_le_nat_alt)

lemma find_information_rest:
  fixes s e uuid_len :: u16
  assumes "list_all attribute_ok as" and "23 \<le> unat limit" and "unat limit \<le> length response"
    and "2 \<le> unat offset" and "unat offset \<le> unat limit"
  defines "ents \<equiv> \<lambda>offset. concat (map information_entry
      (information_entries (unat limit - unat (offset :: u16)) uuid_len (in_range s e as)))"
  shows "\<exists>offset' n' response'.
     att_walk (find_information_step limit s e) as tail (offset, uuid_len, response) = Some (offset', n', response') \<and>
     unat offset' = unat offset + length (ents offset) \<and> length response' = length response \<and>
     take (unat offset') response' = take (unat offset) response @ ents offset"
  using assms(1-5) unfolding ents_def
proof (induction as arbitrary: offset response)
  case Nil
  then show ?case by (simp add: in_range_def information_entries_def)
next
  case (Cons a as)
  have o1: "offset \<noteq> 1" using Cons.prems by auto
  have step: "find_information_step limit s e (it_of a (db_bytes as tail)) (offset, uuid_len, response) =
    (if a_handle a > e then Some (Break (offset, uuid_len, response))
     else if a_handle a < s then Some (Continue (offset, uuid_len, response))
     else if uuid_len_of a \<noteq> uuid_len then Some (Break (offset, uuid_len, response))
     else if unat offset + 2 + length (a_uuid a) > unat limit then Some (Break (offset, uuid_len, response))
     else Some (Continue (offset + 2 + uuid_len, uuid_len, put (unat offset) (information_entry a) response)))"
    using find_information_step_eq [of a limit response offset s e "db_bytes as tail" uuid_len] Cons.prems o1
    by (simp add: information_entry_def Let_def)
  consider "a_handle a > e \<or> \<not> a_handle a < s \<and> (uuid_len_of a \<noteq> uuid_len \<or> unat offset + 2 + length (a_uuid a) > unat limit)"
    | "\<not> a_handle a > e" "a_handle a < s"
    | "\<not> a_handle a > e" "\<not> a_handle a < s" "uuid_len_of a = uuid_len" "unat offset + 2 + length (a_uuid a) \<le> unat limit"
    by force
  then show ?case
  proof cases
    case 1
    have len: "length (a_uuid a) = unat (uuid_len_of a)" using Cons.prems by (simp add: uuid_len_of_length)
    have "information_entries (unat limit - unat offset) uuid_len (in_range s e (a # as)) = []" if "\<not> a_handle a > e"
      using 1 that len by (auto simp: information_entries_def in_range_Cons)
    moreover have "in_range s e (a # as) = []" if "a_handle a > e" using that by (simp add: in_range_Cons)
    ultimately have "information_entries (unat limit - unat offset) uuid_len (in_range s e (a # as)) = []"
      by (cases "a_handle a > e") (simp_all add: information_entries_def)
    with 1 step show ?thesis by auto
  next
    case 2
    with Cons step show ?thesis by (simp add: in_range_Cons)
  next
    case 3
    have len: "length (a_uuid a) = unat uuid_len" using uuid_len_of_length [of a] Cons.prems(1) 3(3) by simp
    let ?o = "offset + 2 + uuid_len" and ?r = "put (unat offset) (information_entry a) response"
    have o2: "unat (offset + 2) = unat offset + 2" using unat_plus_le [of offset 2 limit] 3 by simp
    have o: "unat ?o = unat offset + 2 + unat uuid_len" using unat_plus_le [of "offset + 2" uuid_len limit] 3 o2 len by simp
    have el: "length (information_entry a) = 2 + unat uuid_len" by (simp add: information_entry_def len)
    have fit: "unat offset + length (information_entry a) \<le> length response" using 3 el len Cons.prems by simp
    have lr: "length ?r = length response" using fit by simp
    have tr: "take (unat ?o) ?r = take (unat offset) response @ information_entry a"
    proof -
      have "unat ?o = unat offset + length (information_entry a)" using o el by linarith
      then show ?thesis by (simp only: take_put [OF fit])
    qed
    have div: "(unat limit - unat offset) div (2 + unat uuid_len) = Suc ((unat limit - unat ?o) div (2 + unat uuid_len))"
      using le_div_geq [of "2 + unat uuid_len" "unat limit - unat offset"] 3 len o by (simp add: diff_diff_left ac_simps)
    have ents: "information_entries (unat limit - unat offset) uuid_len (in_range s e (a # as)) =
        a # information_entries (unat limit - unat ?o) uuid_len (in_range s e as)"
      using 3 by (simp only: information_entries_def in_range_Cons div takeWhile.simps take_Suc_Cons if_True if_False simp_thms)
    have "list_all attribute_ok as" using Cons.prems by simp
    moreover have "unat limit \<le> length ?r" using Cons.prems lr by simp
    moreover have "2 \<le> unat ?o" "unat ?o \<le> unat limit" using o 3 len by simp_all
    ultimately obtain offset' n' response' where
      "att_walk (find_information_step limit s e) as tail (?o, uuid_len, ?r) = Some (offset', n', response')"
      "unat offset' = unat ?o + length (concat (map information_entry (information_entries (unat limit - unat ?o) uuid_len (in_range s e as))))"
      "length response' = length ?r"
      "take (unat offset') response' = take (unat ?o) ?r @
         concat (map information_entry (information_entries (unat limit - unat ?o) uuid_len (in_range s e as)))"
      using Cons.IH [of ?r ?o] Cons.prems(2) by blast
    with 3 step tr lr el o show ?thesis by (simp add: ents)
  qed
qed

lemma find_information_walk:
  assumes "list_all attribute_ok as" and "23 \<le> unat limit" and "unat limit \<le> length response"
  shows "\<exists>offset' n' response'.
     att_walk (find_information_step limit s e) as tail (1, 0, response) = Some (offset', n', response') \<and>
     length response' = length response \<and>
     (case in_range s e as of
        [] \<Rightarrow> offset' = 1
      | a # r \<Rightarrow> unat offset' = length (find_information_answer as limit s e) \<and> 
          take (unat offset') response' = take 1 response @ tl (find_information_answer as limit s e))"
  using assms
proof (induction as)
  case Nil
  then show ?case by (simp add: in_range_def)
next
  case (Cons a as)
  let ?len = "uuid_len_of a" and ?r1 = "put 1 [if has_uuid128 a then 2 else 1] response"
  have ok: "attribute_ok a" using Cons.prems by simp
  have small: "length (a_uuid a) \<le> 16" using ok by (simp add: attribute_ok_def)
  have step: "find_information_step limit s e (it_of a (db_bytes as tail)) (1, 0, response) =
    (if a_handle a > e then Some (Break (1, 0, response))
     else if a_handle a < s then Some (Continue (1, 0, response))
     else Some (Continue (4 + ?len, ?len, put 2 (information_entry a) ?r1)))"
    using find_information_step_eq [OF ok, of limit response 1 s e "db_bytes as tail" 0] Cons.prems small
    by (simp add: information_entry_def Let_def)
  have again: "find_information_step limit s e (it_of a (db_bytes as tail)) (2, ?len, ?r1) =
     Some (Continue (4 + ?len, ?len, put 2 (information_entry a) ?r1))" if "\<not> a_handle a > e" "\<not> a_handle a < s"
    using find_information_step_eq [OF ok, of limit ?r1 2 s e "db_bytes as tail" ?len] Cons.prems small that
    by (simp add: information_entry_def Let_def)
  consider "a_handle a > e" | "\<not> a_handle a > e" "a_handle a < s" | "\<not> a_handle a > e" "\<not> a_handle a < s" by blast
  then show ?case
  proof cases
    case 1
    with step show ?thesis by (simp add: in_range_Cons)
  next
    case 2
    then have eq: "find_information_answer (a # as) limit s e = find_information_answer as limit s e"
        "in_range s e (a # as) = in_range s e as"
      by (simp_all add: find_information_answer_def in_range_Cons)
    show ?thesis unfolding eq using 2 step Cons by simp
  next
    case 3
    have l: "length ?r1 = length response" using Cons.prems by simp
    have t: "take 2 ?r1 = take 1 response @ [if has_uuid128 a then 2 else 1]"
      using take_put [of 1 "[if has_uuid128 a then 2 else 1]" response] Cons.prems by (simp add: numeral_2_eq_2)
    have "att_walk (find_information_step limit s e) (a # as) tail (1, 0, response) =
        att_walk (find_information_step limit s e) (a # as) tail (2, ?len, ?r1)"
      using step again 3 by simp
    then show ?thesis
      using find_information_rest [where as = "a # as" and response = ?r1 and offset = 2 and uuid_len = ?len and s = s and e = e
          and limit = limit and tail = tail] Cons.prems l t 3
      by (auto simp: in_range_Cons find_information_answer_def)
  qed
qed

lemma information_answer_length:
  "in_range s e as = a # r \<Longrightarrow> 2 \<le> length (find_information_answer as limit s e) \<and>
     hd (find_information_answer as limit s e) = 0x05"
  by (simp add: find_information_answer_def)

lemma request2_find_information:
  assumes "att_db srv = Some (db_bytes as tail)" and "list_all attribute_ok as"
    and "23 \<le> unat limit" and "unat limit \<le> length response" and "s \<noteq> 0" and "s \<le> e"
  shows "\<exists>n response'. handle_find_information_request2 srv response limit s e = Some (n, response') \<and>
    unat n = length (find_information_answer as limit s e) \<and> length response' = length response \<and>
    take (unat n) response' = find_information_answer as limit s e"
proof -
  obtain offset' n' response' where w:
    "att_walk (find_information_step limit s e) as tail (1, 0, response) = Some (offset', n', response')"
    "length response' = length response"
    "case in_range s e as of [] \<Rightarrow> offset' = 1
      | a # r \<Rightarrow> unat offset' = length (find_information_answer as limit s e) \<and>
          take (unat offset') response' = take 1 response @ tl (find_information_answer as limit s e)"
    using find_information_walk [OF assms(2-4)] by blast
  note loop = att_loop_db [OF assms(2), of "find_information_step limit s e" tail "(1, 0, response)"]
  show ?thesis
  proof (cases "in_range s e as")
    case Nil
    have err: "handle_find_information_request2 srv response limit s e =
        Some (5, put 0 ([0x01, 0x04] @ le16 s @ [ATT_ERROR_ATTRIBUTE_NOT_FOUND]) response')"
      using w Nil assms assms(6) [THEN leD] setup_error_eq [of response' 4 s ATT_ERROR_ATTRIBUTE_NOT_FOUND]
      by (simp add: handle_find_information_request2_def loop setup_errors)
    then show ?thesis using Nil w(2) assms(3,4)
      take_put [of 0 "[0x01, 0x04] @ le16 s @ [ATT_ERROR_ATTRIBUTE_NOT_FOUND]" response']
      by (simp add: find_information_answer_def)
  next
    case (Cons a r)
    let ?ans = "find_information_answer as limit s e"
    have off: "unat offset' = length ?ans" "take (unat offset') response' = take 1 response @ tl ?ans"
      using w(3) Cons by auto
    have ans: "2 \<le> length ?ans" "hd ?ans = 0x05" using information_answer_length [OF Cons] by auto
    have ne: "offset' \<noteq> 1" using off(1) ans by auto
    have "wr response' 0 0x05 = Some (response'[0 := 0x05])" using w(2) assms(3,4) by (auto simp: wr_def)
    then have eq: "handle_find_information_request2 srv response limit s e = Some (offset', response'[0 := 0x05])"
      using w ne assms assms(6) [THEN leD] by (simp add: handle_find_information_request2_def loop)
    have "take (unat offset') (response'[0 := 0x05]) = (take (unat offset') response')[0 := 0x05]" by (simp add: take_update_swap)
    also have "\<dots> = ?ans"
    proof -
      obtain x where "take 1 response = [x]" using assms(3,4) by (cases response) auto
      moreover obtain y ys where "?ans = y # ys" using ans(1) by (cases ?ans) auto
      ultimately show ?thesis using off(2) ans(2) by simp
    qed
    finally show ?thesis using eq off(1) w(2) by simp
  qed
qed


section \<open>Read\<close>

definition error_answer :: "u8 \<Rightarrow> u16 \<Rightarrow> u8 \<Rightarrow> buffer" where
  "error_answer request handle e = [0x01, request] @ le16 handle @ [e]"

text \<open>The part of a value a read of at most \<open>room\<close> bytes returns: of a static attribute its stored value, of a
  dynamic one what the callback writes when asked for as much.\<close>

definition value_part :: "'app att_server \<Rightarrow> att_connection \<Rightarrow> u16 \<Rightarrow> attribute \<Rightarrow> buffer" where
  "value_part s conn room a =
     (if a_flags a AND ATT_PROPERTY_DYNAMIC = 0 then take (unat room) (a_value a)
      else (let read = the (att_read_callback s) (app s) (con_handle conn) (a_handle a) 0;
                len = fst (read None)
            in snd (read (Some (if len > room then room else len)))))"

definition read_answer :: "'app att_server \<Rightarrow> att_connection \<Rightarrow> attribute list \<Rightarrow> u16 \<Rightarrow> buffer" where
  "read_answer s conn as handle =
     (if handle = 0 then error_answer 0x0a handle ATT_ERROR_INVALID_HANDLE
      else case find_attribute as handle of
        None \<Rightarrow> error_answer 0x0a handle ATT_ERROR_INVALID_HANDLE
      | Some (a, r) \<Rightarrow>
          if a_flags a AND ATT_PROPERTY_READ = 0 then error_answer 0x0a handle ATT_ERROR_READ_NOT_PERMITTED
          else if att_validate_security conn ATT_READ (it_of a []) \<noteq> 0
          then error_answer 0x0a handle (att_validate_security conn ATT_READ (it_of a []))
          else 0x0b # value_part s conn (mtu conn - 1) a)"

lemma security_it_of: "att_validate_security conn op ((it_of a r)\<lparr> it_value_len := n \<rparr>) = att_validate_security conn op (it_of a [])"
  by (simp add: att_validate_security_def)

lemma security_it_of' : "att_validate_security conn op (it_of a r) = att_validate_security conn op (it_of a [])"
  by (simp add: att_validate_security_def)

text \<open>An answer that is at the front of the response.\<close>

definition answers :: "buffer \<Rightarrow> buffer \<Rightarrow> (u16 \<times> buffer) option \<Rightarrow> bool" where
  "answers response answer r \<longleftrightarrow> (\<exists>n response'. r = Some (n, response') \<and> unat n = length answer \<and>
     length response' = length response \<and> take (unat n) response' = answer)"

lemma to8_to16 [simp]: "to8 (to16 x) = (x :: u8)"
  by (rule bit_word_eqI) (auto simp: bit_simps dest: bit_imp_le_length)

lemma answers_error:
  "5 \<le> length response \<Longrightarrow> answers response (error_answer request handle e) (setup_error response (ucast request) handle e)"
  using take_put [of 0 "[0x01, request] @ le16 handle @ [e]" response]
  by (simp add: setup_error_eq answers_def error_answer_def)

lemma answers_copy:
  assumes srv: "serves s as" "a \<in> set as" and lim: "23 \<le> unat limit" "unat limit \<le> length response"
    and n: "att_update_value_len s (it_of a r) (con_handle conn) = Some ((it_of a r)\<lparr> it_value_len := n \<rparr>)"
    and m: "m = (if n > limit - 1 then limit - 1 else n)"
  shows "answers response (0x0b # value_part s conn (limit - 1) a) (do {
      (bytes_copied, response) \<leftarrow> att_copy_value s ((it_of a r)\<lparr> it_value_len := m \<rparr>) 0 response 1 m (con_handle conn);
      let offset = 1 + bytes_copied;
      response \<leftarrow> wr response 0 0x0b;
      Some (offset, response) })"
proof -
  have ok: "attribute_ok a" using srv by (auto simp: serves_def list_all_iff)
  have l1: "unat (limit - 1) = unat limit - 1" using lim by (subst unat_sub) (simp_all add: word_le_nat_alt)
  have ml: "unat m \<le> unat limit - 1" using m l1 by (auto simp: word_less_nat_alt)
  have "\<exists>k. att_copy_value s ((it_of a r)\<lparr> it_value_len := m \<rparr>) 0 response 1 m (con_handle conn)
      = Some (k, put 1 (value_part s conn (limit - 1) a) response) \<and> k \<le> m \<and> unat k = length (value_part s conn (limit - 1) a)"
  proof (cases "a_flags a AND ATT_PROPERTY_DYNAMIC = 0")
    case True
    then have nn: "n = of_nat (length (a_value a))" using n by (simp add: att_update_value_len_def it_of_def)
    have v: "value_part s conn (limit - 1) a = take (unat m) (a_value a)" "unat m \<le> length (a_value a)"
      using True m nn attribute_value_length [OF ok] l1 by (auto simp: value_part_def word_less_nat_alt)
    have "rd_range (a_value a @ r) 0 (unat m) = Some (take (unat m) (a_value a))" using v(2) by (simp add: rd_range_Some)
    moreover have "wr_range response 1 (take (unat m) (a_value a)) = Some (put 1 (take (unat m) (a_value a)) response)"
      using ml lim v(2) by (intro wr_range_put) simp
    ultimately show ?thesis using True v by (intro exI [of _ m]) (simp add: att_copy_value_def Let_def)
  next
    case False
    with srv obtain cb where cb: "att_read_callback s = Some cb"
      "\<forall>con handle offset size. case cb (app s) con handle offset (Some size) of (n, data) \<Rightarrow> length data = unat n \<and> n \<le> size"
      by (auto simp: serves_def read_contract_def)
    obtain k data where kd: "cb (app s) (con_handle conn) (a_handle a) 0 (Some m) = (k, data)" by (meson surj_pair)
    with cb(2) have c: "length data = unat k" "k \<le> m" by (metis (mono_tags, lifting) case_prod_conv)+
    have v: "value_part s conn (limit - 1) a = data"
      using False m n kd cb(1) by (auto simp: value_part_def Let_def att_update_value_len_def it_of_def)
    have "wr_range response 1 data = Some (put 1 data response)"
      using c ml lim by (intro wr_range_put) (simp add: word_le_nat_alt)
    with False cb(1) kd v c show ?thesis by (intro exI [of _ k]) (simp add: att_copy_value_def)
  qed
  then obtain k where k: "att_copy_value s ((it_of a r)\<lparr> it_value_len := m \<rparr>) 0 response 1 m (con_handle conn)
      = Some (k, put 1 (value_part s conn (limit - 1) a) response)" "unat k \<le> unat m" "unat k = length (value_part s conn (limit - 1) a)"
    by (auto simp: word_le_nat_alt)
  have u: "unat (1 + k) = 1 + unat k" using unat_plus_le [of 1 k limit] k(2) ml lim by simp
  have fit: "1 + length (value_part s conn (limit - 1) a) \<le> length response" using k ml lim by linarith
  obtain x ys where r: "response = x # ys" using lim by (cases response) auto
  have "wr (put 1 (value_part s conn (limit - 1) a) response) 0 0x0b
      = Some (0x0b # value_part s conn (limit - 1) a @ drop (length (value_part s conn (limit - 1) a)) ys)"
    by (simp add: wr_def put_def r)
  then show ?thesis using k(1,3) u fit by (simp add: answers_def Let_def r)
qed

lemma handle_read_answer:
  assumes srv: "serves s as" and lim: "23 \<le> unat (mtu conn)" "unat (mtu conn) \<le> length response"
  shows "answers response (read_answer s conn as handle) (handle_read_request2 s conn response (mtu conn) handle)"
proof -
  obtain tail where db: "att_db s = Some (db_bytes as tail)" and ok: "list_all attribute_ok as"
    using srv by (auto simp: serves_def)
  have "5 \<le> length response" using lim by simp
  note err = answers_error [OF this, of "0x0a" handle, simplified]
  show ?thesis
  proof (cases "handle = 0 \<or> find_attribute as handle = None")
    case True
    then show ?thesis using err by (auto simp: handle_read_request2_def read_answer_def db att_find_handle_db [OF ok] setup_errors)
  next
    case False
    then obtain a r where a: "find_attribute as handle = Some (a, r)" "a \<in> set as" using find_attribute_Some by fastforce
    obtain n where n: "att_update_value_len s (it_of a (db_bytes r tail)) (con_handle conn)
          = Some ((it_of a (db_bytes r tail))\<lparr> it_value_len := n \<rparr>)"
      by (rule update_value_len [OF srv a(2), where r = "db_bytes r tail" and con = "con_handle conn"])
    have l1: "unat (mtu conn - 1) = unat (mtu conn) - 1" using lim by (subst unat_sub) (simp_all add: word_le_nat_alt)
    have c: "1 + uint n > uint (mtu conn) \<longleftrightarrow> n > mtu conn - 1"
      unfolding uint_nat word_less_nat_alt l1 using lim by linarith
    note copy = answers_copy [OF srv a(2) lim n refl]
    show ?thesis using False a(1) n c err copy
      by (auto simp: handle_read_request2_def read_answer_def db att_find_handle_db [OF ok] setup_errors Let_def
          security_it_of' [of conn ATT_READ a "db_bytes r tail"] cong: if_cong)
  qed
qed

section \<open>The answers to requests\<close>

lemma answers_handler:
  "answers response answer r \<Longrightarrow>
     \<exists>n response'. map_option (\<lambda>(n, response). (n, response, conn, s)) r = Some (n, response', conn, s) \<and>
       unat n = length answer \<and> length response' = length response \<and> take (unat n) response' = answer"
  by (auto simp: answers_def)

lemma le16_at_1: "little_endian_read_16 (x # le16 v @ q) 1 = Some v"
  using read_16_append [of "[x]" "le16 v @ q" 0] by simp

lemma le16_at_3: "little_endian_read_16 (x # le16 u @ le16 v @ q) 3 = Some v"
  using read_16_append [of "x # le16 u" "le16 v @ q" 0] by simp

lemma le16_request:
  "little_endian_read_16 (x # le16 v) (Suc 0) = Some v" "little_endian_read_16 (x # le16 v @ q) (Suc 0) = Some v"
  "little_endian_read_16 (x # le16 u @ le16 v) 3 = Some v"
  using le16_at_1 [of x v "[]"] le16_at_1 [of x v q] le16_at_3 [of x u v "[]"] by simp_all

text \<open>C28: on a well-formed database, an MTU of at least 23 and a response buffer of at least the MTU, a find information request
  for a valid range of handles (not from 0, and not ending before it starts) is answered with a format byte and the pairs of handle and
  UUID of the first attributes in the range whose UUIDs have one length, as many as fit into the MTU, or with the error
  that there is no attribute in the range; nothing else is in the answer and the state does not change.\<close>

theorem att_find_information:
  assumes "att_db srv = Some (db_bytes as tail)" and "list_all attribute_ok as"
    and "23 \<le> unat (mtu conn)" and "unat (mtu conn) \<le> length response" and "s \<noteq> 0" and "s \<le> e"
  shows "\<exists>n response'. att_handle_request srv conn (0x04 # le16 s @ le16 e) 5 response = Some (n, response', conn, srv) \<and>
    unat n = length (find_information_answer as (mtu conn) s e) \<and> length response' = length response \<and>
    take (unat n) response' = find_information_answer as (mtu conn) s e"
  using answers_handler [OF request2_find_information [OF assms, folded answers_def], where conn = conn and s = srv]
  by (simp add: att_handle_request_def rd_def handle_find_information_request_def le16_request)

theorem att_find_information_witness:
  "\<exists>n response'. att_handle_request example_server example_conn (0x04 # le16 1 @ le16 0xffff) 5 (replicate 23 0)
      = Some (n, response', example_conn, example_server) \<and>
    take (unat n) response' = [0x05, 0x01, 1, 0, 0x00, 0x28, 2, 0, 0x03, 0x28, 3, 0, 0x00, 0x2a]"
proof -
  have "find_information_answer example_attributes 23 1 0xffff = [0x05, 0x01, 1, 0, 0x00, 0x28, 2, 0, 0x03, 0x28, 3, 0, 0x00, 0x2a]"
    by code_simp
  then show ?thesis
    using att_find_information [OF example_server_sel(1) example_ok, of example_conn "replicate 23 0" 1 "0xffff"]
    by (auto simp: example_server_sel)
qed

text \<open>C29: on a server with a well-formed database and callbacks that keep their contract, an MTU of at least 23 and a response
  buffer of at least the MTU, a read request is answered with the value of the attribute, cut off at the MTU, exactly when there is an
  attribute of the handle, it is readable and the connection's security suffices for it; otherwise the answer is the
  error of the first of these tests that fails, in that order, and says nothing else of the attribute.\<close>

theorem att_read:
  assumes "serves s as" and "23 \<le> unat (mtu conn)" and "unat (mtu conn) \<le> length response"
  shows "\<exists>n response'. att_handle_request s conn (0x0a # le16 handle) 3 response = Some (n, response', conn, s) \<and>
    unat n = length (read_answer s conn as handle) \<and> length response' = length response \<and>
    take (unat n) response' = read_answer s conn as handle"
  using answers_handler [OF handle_read_answer [OF assms, of handle], where conn = conn and s = s]
  by (simp add: att_handle_request_def rd_def handle_read_request_def le16_request)

theorem att_read_witness:
  "(\<exists>n response'. att_handle_request example_server example_conn (0x0a # le16 3) 3 (replicate 23 0)
      = Some (n, response', example_conn, example_server) \<and> take (unat n) response' = [0x0b, 0x2a]) \<and>
   (\<exists>n response'. att_handle_request example_server example_conn (0x0a # le16 4) 3 (replicate 23 0)
      = Some (n, response', example_conn, example_server) \<and> take (unat n) response' = [0x01, 0x0a, 4, 0, 0x0f])"
proof -
  have "read_answer example_server example_conn example_attributes 3 = [0x0b, 0x2a]"
    and "read_answer example_server example_conn example_attributes 4 = [0x01, 0x0a, 4, 0, 0x0f]"
    by code_simp+
  then show ?thesis
    using att_read [OF example_serves, of example_conn "replicate 23 0" 3] att_read [OF example_serves, of example_conn "replicate 23 0" 4]
    by (auto simp: example_server_sel)
qed

end
