(* ===== verification/Att_Writes.thy ===== *)
theory Att_Writes
  imports Att_Answers
begin

text \<open>
  What write requests, write commands and prepared writes do to the application, over the list of attributes, and
  histories of prepared writes.
\<close>

section \<open>Writes\<close>

text \<open>The attribute is the last written one.\<close>

definition last_written :: "'app att_server \<Rightarrow> attribute \<Rightarrow> 'app att_server" where
  "last_written s a = s\<lparr> att_persistent_ccc_handle := a_handle a,
     att_persistent_ccc_uuid16 := (if has_uuid128 a then 0 else the (little_endian_read_16 (a_uuid a) 0)) \<rparr>"

text \<open>The write callback's error code, and the server afterwards.\<close>

definition called :: "'app att_server \<Rightarrow> att_connection \<Rightarrow> u16 \<Rightarrow> u16 \<Rightarrow> u16 \<Rightarrow> buffer \<Rightarrow> u8 \<times> 'app att_server" where
  "called s conn handle mode offset value =
     (case the (att_write_callback s) (app s) (con_handle conn) handle mode offset value of (e, x) \<Rightarrow> (word_of_int e, s\<lparr> app := x \<rparr>))"

text \<open>The error a write of an attribute has before the application sees it, 0 for none.\<close>

definition write_error :: "'app att_server \<Rightarrow> att_connection \<Rightarrow> u16 \<Rightarrow> attribute \<Rightarrow> u8" where
  "write_error s conn property a =
     (if att_write_callback s = None \<or> a_flags a AND property = 0 \<or> a_flags a AND ATT_PROPERTY_DYNAMIC = 0
      then ATT_ERROR_WRITE_NOT_PERMITTED else att_validate_security conn ATT_WRITE (it_of a []))"

definition write_answer ::
    "'app att_server \<Rightarrow> att_connection \<Rightarrow> attribute list \<Rightarrow> u16 \<Rightarrow> buffer \<Rightarrow> buffer \<times> 'app att_server" where
  "write_answer s conn as handle value =
     (case (if handle = 0 then None else find_attribute as handle) of
        None \<Rightarrow> (error_answer 0x12 handle ATT_ERROR_INVALID_HANDLE, s)
      | Some (a, r) \<Rightarrow>
          if write_error s conn ATT_PROPERTY_WRITE a \<noteq> 0
          then (error_answer 0x12 handle (write_error s conn ATT_PROPERTY_WRITE a), s)
          else case called (last_written s a) conn handle ATT_TRANSACTION_MODE_NONE 0 value of
            (e, s) \<Rightarrow> (if e \<noteq> 0 then error_answer 0x12 handle e else [0x13], s))"

definition write_command_effect ::
    "'app att_server \<Rightarrow> att_connection \<Rightarrow> attribute list \<Rightarrow> u16 \<Rightarrow> buffer \<Rightarrow> 'app att_server" where
  "write_command_effect s conn as handle value =
     (case (if handle = 0 then None else find_attribute as handle) of
        None \<Rightarrow> s
      | Some (a, r) \<Rightarrow> if write_error s conn ATT_PROPERTY_WRITE_WITHOUT_RESPONSE a \<noteq> 0 then s
          else snd (called (last_written s a) conn handle ATT_TRANSACTION_MODE_NONE 0 value))"

lemma read_uuid16:
  assumes "attribute_ok a" and "\<not> has_uuid128 a"
  shows "little_endian_read_16 (a_uuid a @ q) 0 = Some (the (little_endian_read_16 (a_uuid a) 0))"
proof -
  have "length (a_uuid a) = 2" using assms by (simp add: attribute_ok_def)
  then obtain v where "a_uuid a = le16 v" by (rule two_bytes)
  then show ?thesis using read_le16 [of v q] read_le16 [of v "[]"] by simp
qed

lemma ccc_cache: "attribute_ok a \<Longrightarrow> att_persistent_ccc_cache s (it_of a r) = Some (last_written s a)"
  using read_uuid16 [of a "a_value a @ r"]
  by (simp add: att_persistent_ccc_cache_def last_written_def has_uuid128_def)

lemma call_called:
  assumes "att_write_callback s = Some cb" and "request = p @ value" and "pos = length p" and "unat n = length value"
  shows "call_write_callback s (con_handle conn) handle mode offset request pos n = Some (called s conn handle mode offset value)"
proof -
  have "rd_range request pos (unat n) = Some value" using assms(2-4) by (simp add: rd_range_Some)
  then show ?thesis using assms(1) by (simp add: call_write_callback_def called_def split: prod.split)
qed

lemma answers_one: "0 < length response \<Longrightarrow> answers response [x] (do { response \<leftarrow> wr response 0 x; Some (1, response) })"
  by (cases response) (simp_all add: answers_def wr_def)

text \<open>An answer and the server afterwards.\<close>

definition answers_with :: "buffer \<Rightarrow> buffer \<times> 'app att_server \<Rightarrow> (u16 \<times> buffer \<times> 'app att_server) option \<Rightarrow> bool" where
  "answers_with response answer r \<longleftrightarrow>
     (\<exists>r'. r = map_option (\<lambda>(n, response). (n, response, snd answer)) r' \<and> answers response (fst answer) r')"

lemma answers_with_unchanged: "answers response x r \<Longrightarrow> answers_with response (x, s) (unchanged s r)"
  by (auto simp: answers_with_def unchanged_def)

lemma answers_with_one:
  "0 < length response \<Longrightarrow> answers_with response ([x], s) (do { response \<leftarrow> wr response 0 x; Some (1, response, s) })"
  by (cases response) (auto simp: answers_with_def answers_def wr_def intro!: exI [of _ "Some (_, _)"])

lemma answers_with_error:
  "5 \<le> length response \<Longrightarrow>
     answers_with response (error_answer request handle e, s) (unchanged s (setup_error response (to16 request) handle e))"
  by (intro answers_with_unchanged answers_error)

lemma handle_write:
  assumes db: "att_db s = Some (db_bytes as tail)" and ok: "list_all attribute_ok as"
    and l: "5 \<le> length response" and n: "unat n = 3 + length value"
  shows "answers_with response (write_answer s conn as handle value)
    (handle_write_request s conn (0x12 # le16 handle @ value) n response)"
proof -
  note err = answers_with_error [OF l, of "0x12", simplified]
  have rd: "little_endian_read_16 (0x12 # le16 handle @ value) (Suc 0) = Some handle" by (simp add: le16_request)
  show ?thesis
  proof (cases "handle = 0 \<or> find_attribute as handle = None")
    case True
    then show ?thesis using err by (auto simp: handle_write_request_def rd db att_find_handle_db [OF ok] write_answer_def setup_errors)
  next
    case False
    then obtain a r where a: "find_attribute as handle = Some (a, r)" "a \<in> set as" using find_attribute_Some by fastforce
    have aok: "attribute_ok a" using a(2) ok by (simp add: list_all_iff)
    have "unat (n - 3) = unat n - 3" using n by (subst unat_sub) (simp_all add: word_le_nat_alt)
    then have n3: "unat (n - 3) = length value" using n by simp
    have call: "call_write_callback (last_written s a) (con_handle conn) handle 0 0 (0x12 # le16 handle @ value) 3 (n - 3)
        = Some (called (last_written s a) conn handle 0 0 value)" if "att_write_callback s \<noteq> None"
      using that by (intro call_called [where p = "0x12 # le16 handle" and cb = "the (att_write_callback s)"]) (auto simp: last_written_def n3)
    obtain e s' where es: "called (last_written s a) conn handle 0 0 value = (e, s')" by (meson surj_pair)
    have one: "answers_with response ([0x13], s') (do { response \<leftarrow> wr response 0 0x13; Some (1, response, s') })"
      using l by (intro answers_with_one) (cases response; simp)
    show ?thesis using False a(1) err one call es
      by (auto simp: handle_write_request_def rd db att_find_handle_db [OF ok] write_answer_def write_error_def setup_errors Let_def
          ccc_cache [OF aok] security_it_of' [of conn ATT_WRITE a "db_bytes r tail"] cong: if_cong)
  qed
qed

lemma handle_write_cmd:
  assumes db: "att_db s = Some (db_bytes as tail)" and ok: "list_all attribute_ok as" and n: "unat n = 3 + length value"
  shows "handle_write_command s conn (0x52 # le16 handle @ value) n = Some (write_command_effect s conn as handle value)"
proof -
  have rd: "little_endian_read_16 (0x52 # le16 handle @ value) (Suc 0) = Some handle" by (simp add: le16_request)
  show ?thesis
  proof (cases "handle = 0 \<or> find_attribute as handle = None")
    case True
    then show ?thesis by (auto simp: handle_write_command_def rd db att_find_handle_db [OF ok] write_command_effect_def)
  next
    case False
    then obtain a r where a: "find_attribute as handle = Some (a, r)" "a \<in> set as" using find_attribute_Some by fastforce
    have aok: "attribute_ok a" using a(2) ok by (simp add: list_all_iff)
    have "unat (n - 3) = unat n - 3" using n by (subst unat_sub) (simp_all add: word_le_nat_alt)
    then have n3: "unat (n - 3) = length value" using n by simp
    have call: "call_write_callback (last_written s a) (con_handle conn) handle 0 0 (0x52 # le16 handle @ value) 3 (n - 3)
        = Some (called (last_written s a) conn handle 0 0 value)" if "att_write_callback s \<noteq> None"
      using that by (intro call_called [where p = "0x52 # le16 handle" and cb = "the (att_write_callback s)"]) (auto simp: last_written_def n3)
    show ?thesis using False a(1) call
      by (auto simp: handle_write_command_def rd db att_find_handle_db [OF ok] write_command_effect_def write_error_def Let_def
          ccc_cache [OF aok] security_it_of' [of conn ATT_WRITE a "db_bytes r tail"])
  qed
qed

section \<open>Prepared writes\<close>

definition prepare_answer ::
    "'app att_server \<Rightarrow> att_connection \<Rightarrow> attribute list \<Rightarrow> u16 \<Rightarrow> u16 \<Rightarrow> buffer \<Rightarrow> buffer \<times> 'app att_server" where
  "prepare_answer s conn as handle offset value =
     (if att_write_callback s = None then (error_answer 0x16 handle ATT_ERROR_WRITE_NOT_PERMITTED, s)
      else case (if handle = 0 then None else find_attribute as handle) of
        None \<Rightarrow> (error_answer 0x16 handle ATT_ERROR_INVALID_HANDLE, s)
      | Some (a, r) \<Rightarrow>
          if write_error s conn ATT_PROPERTY_WRITE a \<noteq> 0
          then (error_answer 0x16 handle (write_error s conn ATT_PROPERTY_WRITE a), s)
          else case called s conn handle ATT_TRANSACTION_MODE_ACTIVE offset value of
            (e, s) \<Rightarrow>
              if e \<noteq> 0 \<and> e \<noteq> ATT_ERROR_INVALID_OFFSET \<and> e \<noteq> ATT_ERROR_INVALID_ATTRIBUTE_VALUE_LENGTH
              then (error_answer 0x16 handle e, s)
              else (0x17 # le16 handle @ le16 offset @ value,
                    if e = 0 then s else att_prepare_write_update_errors s e handle))"

lemma answers_with_echo:
  assumes "length (x # q) \<le> length response" and "unat n = length (x # q)"
  shows "answers_with response (y # q, s) (do {
      data \<leftarrow> rd_range (x # q) 0 (unat n); response \<leftarrow> wr_range response 0 data; response \<leftarrow> wr response 0 y;
      Some (n, response, s) })"
proof -
  have "rd_range (x # q) 0 (unat n) = Some (x # q)" unfolding assms(2) by (simp add: rd_range_def)
  moreover have "wr_range response 0 (x # q) = Some ((x # q) @ drop (Suc (length q)) response)"
    using assms(1) by (simp add: wr_range_def)
  moreover have "wr ((x # q) @ drop (Suc (length q)) response) 0 y = Some (y # q @ drop (Suc (length q)) response)"
    by (simp add: wr_def)
  ultimately show ?thesis using assms
    by (auto simp: answers_with_def answers_def intro!: exI [of _ "Some (n, y # q @ drop (Suc (length q)) response)"])
qed

lemma handle_prepare:
  assumes db: "att_db s = Some (db_bytes as tail)" and ok: "list_all attribute_ok as"
    and l: "5 + length value \<le> length response" and n: "unat n = 5 + length value"
  shows "answers_with response (prepare_answer s conn as handle offset value)
    (handle_prepare_write_request s conn (0x16 # le16 handle @ le16 offset @ value) n response)"
proof -
  let ?req = "0x16 # le16 handle @ le16 offset @ value"
  have "5 \<le> length response" using l by simp
  note err = answers_with_error [OF this, of "0x16", simplified]
  have rd: "little_endian_read_16 ?req (Suc 0) = Some handle" "little_endian_read_16 ?req 3 = Some offset"
    using le16_at_3 [of "0x16" handle offset "value"] by (simp_all add: le16_request)
  show ?thesis
  proof (cases "att_write_callback s = None \<or> handle = 0 \<or> find_attribute as handle = None")
    case True
    then show ?thesis using err
      by (auto simp: handle_prepare_write_request_def rd db att_find_handle_db [OF ok] prepare_answer_def setup_errors)
  next
    case False
    then obtain a r where a: "find_attribute as handle = Some (a, r)" "a \<in> set as" using find_attribute_Some by fastforce
    have "unat (n - 5) = unat n - 5" using n by (subst unat_sub) (simp_all add: word_le_nat_alt)
    then have n5: "unat (n - 5) = length value" using n by simp
    have call: "call_write_callback s (con_handle conn) handle ATT_TRANSACTION_MODE_ACTIVE offset ?req 5 (n - 5)
        = Some (called s conn handle ATT_TRANSACTION_MODE_ACTIVE offset value)"
      using False by (intro call_called [where p = "0x16 # le16 handle @ le16 offset" and cb = "the (att_write_callback s)"])
        (auto simp: n5)
    obtain e s' where es: "called s conn handle ATT_TRANSACTION_MODE_ACTIVE offset value = (e, s')" by (meson surj_pair)
    have echo: "answers_with response (0x17 # le16 handle @ le16 offset @ value, s'') (do {
      data \<leftarrow> rd_range ?req 0 (unat n); response \<leftarrow> wr_range response 0 data; response \<leftarrow> wr response 0 0x17;
      Some (n, response, s'') })" for s''
      using l n by (intro answers_with_echo) simp_all
    note H = handle_prepare_write_request_def prepare_answer_def setup_errors
    note sec = security_it_of' [of conn ATT_WRITE a "db_bytes r tail"]
    show ?thesis
    proof (cases "write_error s conn ATT_PROPERTY_WRITE a = 0")
      case w: False
      show ?thesis
      proof (cases "a_flags a AND ATT_PROPERTY_WRITE = 0 \<or> a_flags a AND ATT_PROPERTY_DYNAMIC = 0")
        case True
        then have "write_error s conn ATT_PROPERTY_WRITE a = ATT_ERROR_WRITE_NOT_PERMITTED" by (auto simp: write_error_def)
        with True False a(1) err [of handle ATT_ERROR_WRITE_NOT_PERMITTED] show ?thesis
          by (auto simp: H rd db att_find_handle_db [OF ok])
      next
        case f: False
        then have "write_error s conn ATT_PROPERTY_WRITE a = att_validate_security conn ATT_WRITE (it_of a [])"
          using False by (auto simp: write_error_def)
        with f w False a(1) err [of handle "att_validate_security conn ATT_WRITE (it_of a [])"] show ?thesis
          by (auto simp: H rd db att_find_handle_db [OF ok] sec Let_def)
      qed
    next
      case w: True
      then have f: "a_flags a AND ATT_PROPERTY_WRITE \<noteq> 0" "a_flags a AND ATT_PROPERTY_DYNAMIC \<noteq> 0"
          "att_validate_security conn ATT_WRITE (it_of a []) = 0"
        by (auto simp: write_error_def split: if_splits)
      have req: "handle_prepare_write_request s conn ?req n response =
         (if e \<noteq> 0 \<and> e \<noteq> ATT_ERROR_INVALID_OFFSET \<and> e \<noteq> ATT_ERROR_INVALID_ATTRIBUTE_VALUE_LENGTH
          then unchanged s' (setup_error response 0x16 handle e)
          else let s'' = (if e = 0 then s' else att_prepare_write_update_errors s' e handle) in do {
            data \<leftarrow> rd_range ?req 0 (unat n); response \<leftarrow> wr_range response 0 data; response \<leftarrow> wr response 0 0x17;
            Some (n, response, s'') })"
        using False a(1) f call es by (auto simp: H rd db att_find_handle_db [OF ok] sec Let_def)
      have ans: "prepare_answer s conn as handle offset value =
         (if e \<noteq> 0 \<and> e \<noteq> ATT_ERROR_INVALID_OFFSET \<and> e \<noteq> ATT_ERROR_INVALID_ATTRIBUTE_VALUE_LENGTH
          then (error_answer 0x16 handle e, s')
          else (0x17 # le16 handle @ le16 offset @ value, if e = 0 then s' else att_prepare_write_update_errors s' e handle))"
        using False a(1) w es by (auto simp: prepare_answer_def)
      show ?thesis
        by (cases "e \<noteq> 0 \<and> e \<noteq> ATT_ERROR_INVALID_OFFSET \<and> e \<noteq> ATT_ERROR_INVALID_ATTRIBUTE_VALUE_LENGTH")
          (simp_all only: req ans simp_thms if_True if_False Let_def err [of handle e] echo)
    qed
  qed
qed

definition execute_answer :: "'app att_server \<Rightarrow> att_connection \<Rightarrow> u8 \<Rightarrow> buffer \<times> 'app att_server" where
  "execute_answer s conn flag =
     (let cancel = (\<lambda>s. snd (called s conn 0 ATT_TRANSACTION_MODE_CANCEL 0 []))
      in if flag = 0 then ([0x19], cancel s)
         else if att_prepare_write_error_code s \<noteq> 0
         then (error_answer 0x18 (att_prepare_write_error_handle s) (att_prepare_write_error_code s), att_prepare_write_reset (cancel s))
         else case called s conn 0 ATT_TRANSACTION_MODE_VALIDATE 0 [] of (e, s) \<Rightarrow>
           if e \<noteq> 0 then (error_answer 0x18 (att_prepare_write_error_handle s) e, att_prepare_write_reset (cancel s))
           else ([0x19], snd (called s conn 0 ATT_TRANSACTION_MODE_EXECUTE 0 [])))"

lemma called_sel:
  "att_prepare_write_error_code (snd (called s conn h m off v)) = att_prepare_write_error_code s"
  "att_prepare_write_error_handle (snd (called s conn h m off v)) = att_prepare_write_error_handle s"
  "att_write_callback (snd (called s conn h m off v)) = att_write_callback s"
  "att_db (snd (called s conn h m off v)) = att_db s"
  "att_read_callback (snd (called s conn h m off v)) = att_read_callback s"
  by (simp_all add: called_def split: prod.split)

lemma handle_execute:
  assumes cb: "att_write_callback s \<noteq> None" and l: "5 \<le> length response"
  shows "answers_with response (execute_answer s conn flag) (handle_execute_write_request s conn [0x18, flag] response)"
proof -
  note err = answers_with_error [OF l, of "0x18", simplified]
  have call: "call_write_callback s' (con_handle conn) handle mode 0 [] 0 0 = Some (called s' conn handle mode 0 [])"
    if "att_write_callback s' \<noteq> None" for s' :: "'a att_server" and handle mode
    using that by (intro call_called [where p = "[]" and cb = "the (att_write_callback s')"]) auto
  have one: "answers_with response ([0x19], s') (do { response \<leftarrow> wr response 0 0x19; Some (1, response, s') })" for s' :: "'a att_server"
    using l by (intro answers_with_one) (cases response; simp)
  have rd: "rd [0x18 :: u8, x] (Suc 0) = Some x" for x by (simp add: rd_def)
  consider "flag = 0" | "flag \<noteq> 0" "att_prepare_write_error_code s \<noteq> 0" | "flag \<noteq> 0" "att_prepare_write_error_code s = 0" by blast
  then show ?thesis
  proof cases
    case 1
    then show ?thesis using one cb
      by (simp add: handle_execute_write_request_def execute_answer_def rd att_clear_transaction_queue_def call Let_def)
  next
    case 2
    then show ?thesis using err cb
      by (simp add: handle_execute_write_request_def execute_answer_def rd att_clear_transaction_queue_def call Let_def called_sel)
  next
    case 3
    obtain e s' where es: "called s conn 0 ATT_TRANSACTION_MODE_VALIDATE 0 [] = (e, s')" by (meson surj_pair)
    have s': "att_write_callback s' = att_write_callback s" "att_prepare_write_error_handle s' = att_prepare_write_error_handle s"
        "att_prepare_write_error_code s' = 0"
      using called_sel [of s conn 0 ATT_TRANSACTION_MODE_VALIDATE 0 "[]"] es 3 by simp_all
    have c: "called (s'\<lparr> att_prepare_write_error_code := e \<rparr>) conn h m 0 [] = (case called s' conn h m 0 [] of (e', s) \<Rightarrow>
        (e', s\<lparr> att_prepare_write_error_code := e \<rparr>))" for h m
      by (simp add: called_def split: prod.split)
    have v: "call_write_callback s (con_handle conn) 0 ATT_TRANSACTION_MODE_VALIDATE 0 [] 0 0 = Some (e, s')"
      using call [OF cb, of 0 ATT_TRANSACTION_MODE_VALIDATE] es by simp
    show ?thesis
    proof (cases "e = 0")
      case True
      then have same: "s'\<lparr> att_prepare_write_error_code := 0 \<rparr> = s'" using s'(3) by simp
      have "handle_execute_write_request s conn [0x18, flag] response =
          do { response \<leftarrow> wr response 0 0x19; Some (1, response, snd (called s' conn 0 ATT_TRANSACTION_MODE_EXECUTE 0 [])) }"
        using 3 v call [of s' 0 ATT_TRANSACTION_MODE_EXECUTE] cb s'(1,3)
        by (simp add: handle_execute_write_request_def rd split_beta True same)
      then show ?thesis using 3 one es True by (simp add: execute_answer_def)
    next
      case False
      let ?s = "s'\<lparr> att_prepare_write_error_code := e \<rparr>"
      have "handle_execute_write_request s conn [0x18, flag] response =
          unchanged (att_prepare_write_reset (snd (called s' conn 0 ATT_TRANSACTION_MODE_CANCEL 0 [])))
            (setup_error response 0x18 (att_prepare_write_error_handle s) e)"
        using 3 v call [of ?s 0 ATT_TRANSACTION_MODE_CANCEL] cb s' False
        by (simp add: handle_execute_write_request_def rd att_clear_transaction_queue_def Let_def c split_beta called_sel
            att_prepare_write_reset_def)
      then show ?thesis using 3 err es False s'(2) by (simp add: execute_answer_def Let_def)
    qed
  qed
qed

section \<open>The answers to write requests\<close>

lemma answers_with_handler:
  "answers_with response (answer, s') r \<Longrightarrow>
     \<exists>n response'. map_option (\<lambda>(n, response, s). (n, response, conn, s)) r = Some (n, response', conn, s') \<and>
       unat n = length answer \<and> length response' = length response \<and> take (unat n) response' = answer"
  by (auto simp: answers_with_def answers_def)

text \<open>C30: a write request is answered with the error of the first test that fails (no such handle; no write callback,
  not writable or not dynamic; security), and then the state is unchanged, or else the application's write callback has
  been called once, with the handle, offset 0, no transaction and the whole value of the request, and its error code
  decides between an error and the empty write response.\<close>

theorem att_write:
  assumes "att_db s = Some (db_bytes as tail)" and "list_all attribute_ok as"
    and "5 \<le> length response" and "unat n = 3 + length value"
  shows "\<exists>m response'. att_handle_request s conn (0x12 # le16 handle @ value) n response
        = Some (m, response', conn, snd (write_answer s conn as handle value)) \<and>
    unat m = length (fst (write_answer s conn as handle value)) \<and> length response' = length response \<and>
    take (unat m) response' = fst (write_answer s conn as handle value)"
  using answers_with_handler [where answer = "fst (write_answer s conn as handle value)"
      and s' = "snd (write_answer s conn as handle value)" and conn = conn, simplified, OF handle_write [OF assms]]
  by (simp add: att_handle_request_def rd_def)

theorem att_write_witness:
  "\<exists>m response' s'. att_handle_request example_server example_conn (0x12 # le16 3 @ [7, 8]) 5 (replicate 23 0)
      = Some (m, response', example_conn, s') \<and> take (unat m) response' = [0x13] \<and> app s' = [(0, [7, 8])]"
proof -
  have "fst (write_answer example_server example_conn example_attributes 3 [7, 8]) = [0x13]"
    "app (snd (write_answer example_server example_conn example_attributes 3 [7, 8])) = [(0, [7, 8])]"
    by code_simp+
  then show ?thesis
    using att_write [OF example_server_sel(1) example_ok, of "replicate 23 0" 5 "[7, 8]" example_conn 3] by auto
qed

text \<open>A write command is never answered; it reaches the application only when the attribute may be written without
  a response, is dynamic and the connection's security suffices, and otherwise changes nothing.\<close>

theorem att_write_command:
  assumes "att_db s = Some (db_bytes as tail)" and "list_all attribute_ok as" and "unat n = 3 + length value"
  shows "att_handle_request s conn (0x52 # le16 handle @ value) n response
    = Some (0, response, conn, write_command_effect s conn as handle value)"
  by (simp add: att_handle_request_def rd_def handle_write_cmd [OF assms])

theorem att_write_command_witness:
  "\<exists>s'. att_handle_request example_server example_conn (0x52 # le16 1 @ [7, 8]) 5 [] = Some (0, [], example_conn, s') \<and> app s' = []"
proof -
  have "app (write_command_effect example_server example_conn example_attributes 1 [7, 8]) = []" by code_simp
  then show ?thesis
    using att_write_command [OF example_server_sel(1) example_ok, of 5 "[7, 8]" example_conn 1 "[]"] by auto
qed

section \<open>Histories of prepared writes\<close>

text \<open>The requests of a client that prepares writes (handle, offset, value) one after the other.\<close>

type_synonym prepared = "u16 \<times> u16 \<times> buffer"

primrec prepare_requests ::
    "'app att_server \<Rightarrow> att_connection \<Rightarrow> buffer \<Rightarrow> prepared list \<Rightarrow> 'app att_server option" where
  "prepare_requests s conn response [] = Some s"
| "prepare_requests s conn response (x # xs) = do {
     let (handle, offset, data) = x;
     (n, r, conn', s) \<leftarrow> att_handle_request s conn (0x16 # le16 handle @ le16 offset @ data) (of_nat (5 + length data)) response;
     prepare_requests s conn response xs }"

text \<open>What the application says to each of them, 0 where it is not asked.\<close>

definition prepare_outcome :: "'app att_server \<Rightarrow> att_connection \<Rightarrow> attribute list \<Rightarrow> prepared \<Rightarrow> u8" where
  "prepare_outcome s conn as = (\<lambda>(handle, offset, data).
     (if att_write_callback s = None then 0
      else case (if handle = 0 then None else find_attribute as handle) of
        None \<Rightarrow> 0
      | Some (a, r) \<Rightarrow> if write_error s conn ATT_PROPERTY_WRITE a \<noteq> 0 then 0
          else fst (called s conn handle ATT_TRANSACTION_MODE_ACTIVE offset data)))"

primrec outcomes :: "'app att_server \<Rightarrow> att_connection \<Rightarrow> attribute list \<Rightarrow> prepared list \<Rightarrow> (u8 \<times> u16) list" where
  "outcomes s conn as [] = []"
| "outcomes s conn as (x # xs) = (prepare_outcome s conn as x, fst x) #
     outcomes (snd (case x of (handle, offset, data) \<Rightarrow> prepare_answer s conn as handle offset data)) conn as xs"

text \<open>The objection that is delivered: the first to a length, or else the first to an offset.\<close>

definition first_error :: "(u8 \<times> u16) list \<Rightarrow> (u8 \<times> u16) option" where
  "first_error xs = (case find (\<lambda>(e, h). e = ATT_ERROR_INVALID_ATTRIBUTE_VALUE_LENGTH) xs of
     Some x \<Rightarrow> Some x | None \<Rightarrow> find (\<lambda>(e, h). e = ATT_ERROR_INVALID_OFFSET) xs)"

definition pending :: "'app att_server \<Rightarrow> (u8 \<times> u16) option" where
  "pending s = (if att_prepare_write_error_code s = 0 then None
     else Some (att_prepare_write_error_code s, att_prepare_write_error_handle s))"

definition note_error :: "(u8 \<times> u16) option \<Rightarrow> u8 \<times> u16 \<Rightarrow> (u8 \<times> u16) option" where
  "note_error p x = (if fst x = ATT_ERROR_INVALID_ATTRIBUTE_VALUE_LENGTH \<and> (p = None \<or> fst (the p) \<noteq> fst x) \<or>
     fst x = ATT_ERROR_INVALID_OFFSET \<and> p = None then Some x else p)"

lemma note_error_simps:
  "note_error (Some (ATT_ERROR_INVALID_ATTRIBUTE_VALUE_LENGTH, h)) x = Some (ATT_ERROR_INVALID_ATTRIBUTE_VALUE_LENGTH, h)"
  "note_error (Some (ATT_ERROR_INVALID_OFFSET, h)) x =
     (if fst x = ATT_ERROR_INVALID_ATTRIBUTE_VALUE_LENGTH then Some x else Some (ATT_ERROR_INVALID_OFFSET, h))"
  "note_error None x =
     (if fst x = ATT_ERROR_INVALID_ATTRIBUTE_VALUE_LENGTH \<or> fst x = ATT_ERROR_INVALID_OFFSET then Some x else None)"
  by (auto simp: note_error_def)

lemma foldl_note_length: "foldl note_error (Some (ATT_ERROR_INVALID_ATTRIBUTE_VALUE_LENGTH, h)) xs = Some (ATT_ERROR_INVALID_ATTRIBUTE_VALUE_LENGTH, h)"
  by (induction xs) (simp_all add: note_error_simps)

lemma foldl_note_offset: "foldl note_error (Some (ATT_ERROR_INVALID_OFFSET, h)) xs =
    (case find (\<lambda>(e, h). e = ATT_ERROR_INVALID_ATTRIBUTE_VALUE_LENGTH) xs of Some x \<Rightarrow> Some x | None \<Rightarrow> Some (ATT_ERROR_INVALID_OFFSET, h))"
  by (induction xs) (auto simp: note_error_simps foldl_note_length)

lemma foldl_note_error: "foldl note_error None xs = first_error xs"
proof (induction xs)
  case (Cons x xs)
  obtain e h where x: "x = (e, h)" by (cases x)
  consider "e = ATT_ERROR_INVALID_ATTRIBUTE_VALUE_LENGTH" | "e = ATT_ERROR_INVALID_OFFSET"
    | "e \<noteq> ATT_ERROR_INVALID_ATTRIBUTE_VALUE_LENGTH" "e \<noteq> ATT_ERROR_INVALID_OFFSET" by blast
  then show ?case
    by cases (use Cons in \<open>auto simp: x note_error_simps first_error_def foldl_note_length foldl_note_offset split: option.split\<close>)
qed (simp add: first_error_def)

lemma pending_called [simp]: "pending (snd (called s conn h m off v)) = pending s"
  by (simp add: pending_def called_sel)

lemma pending_update:
  "pending s = None \<or> fst (the (pending s)) \<in> {ATT_ERROR_INVALID_ATTRIBUTE_VALUE_LENGTH, ATT_ERROR_INVALID_OFFSET} \<Longrightarrow>
     e \<noteq> 0 \<Longrightarrow> pending (att_prepare_write_update_errors s e h) = note_error (pending s) (e, h)"
  by (auto simp: pending_def att_prepare_write_update_errors_def note_error_def)

lemma update_errors_sel [simp]:
  "att_db (att_prepare_write_update_errors s e h) = att_db s"
  "att_write_callback (att_prepare_write_update_errors s e h) = att_write_callback s"
  by (simp_all add: att_prepare_write_update_errors_def)

lemma prepare_answer_sel:
  "att_db (snd (prepare_answer s conn as handle offset value)) = att_db s"
  "att_write_callback (snd (prepare_answer s conn as handle offset value)) = att_write_callback s"
  using called_sel [of s conn handle ATT_TRANSACTION_MODE_ACTIVE offset "value"]
  by (auto simp: prepare_answer_def split: option.split prod.split)

lemma prepare_answer_pending:
  assumes "pending s = None \<or> fst (the (pending s)) \<in> {ATT_ERROR_INVALID_ATTRIBUTE_VALUE_LENGTH, ATT_ERROR_INVALID_OFFSET}"
  shows "pending (snd (prepare_answer s conn as handle offset value))
    = note_error (pending s) (prepare_outcome s conn as (handle, offset, value), handle)"
proof (cases "att_write_callback s = None \<or> handle = 0 \<or> find_attribute as handle = None")
  case True
  then show ?thesis by (auto simp: prepare_answer_def prepare_outcome_def note_error_def)
next
  case False
  then obtain a r where a: "find_attribute as handle = Some (a, r)" by fastforce
  obtain e s' where es: "called s conn handle ATT_TRANSACTION_MODE_ACTIVE offset value = (e, s')" by (meson surj_pair)
  have p: "pending s' = pending s" using pending_called [of s conn handle ATT_TRANSACTION_MODE_ACTIVE offset "value"] es by simp
  show ?thesis
  proof (cases "write_error s conn ATT_PROPERTY_WRITE a = 0")
    case True
    consider "e = 0" | "e = ATT_ERROR_INVALID_OFFSET \<or> e = ATT_ERROR_INVALID_ATTRIBUTE_VALUE_LENGTH"
      | "e \<noteq> 0" "e \<noteq> ATT_ERROR_INVALID_OFFSET" "e \<noteq> ATT_ERROR_INVALID_ATTRIBUTE_VALUE_LENGTH" by blast
    then show ?thesis
    proof cases
      case 2
      then have "e \<noteq> 0" by auto
      with 2 True False a es p assms pending_update [of s' e handle] show ?thesis
        by (auto simp: prepare_answer_def prepare_outcome_def)
    qed (use True False a es p in \<open>auto simp: prepare_answer_def prepare_outcome_def note_error_def\<close>)
  next
    case w: False
    with False a show ?thesis by (auto simp: prepare_answer_def prepare_outcome_def note_error_def)
  qed
qed

lemma note_error_ok:
  "p = None \<or> fst (the p) \<in> {ATT_ERROR_INVALID_ATTRIBUTE_VALUE_LENGTH, ATT_ERROR_INVALID_OFFSET} \<Longrightarrow>
   note_error p x = None \<or> fst (the (note_error p x)) \<in> {ATT_ERROR_INVALID_ATTRIBUTE_VALUE_LENGTH, ATT_ERROR_INVALID_OFFSET}"
  by (auto simp: note_error_def)

lemma prepare_history:
  assumes "att_db s = Some (db_bytes as tail)" and "list_all attribute_ok as" and "att_write_callback s \<noteq> None"
    and "pending s = None \<or> fst (the (pending s)) \<in> {ATT_ERROR_INVALID_ATTRIBUTE_VALUE_LENGTH, ATT_ERROR_INVALID_OFFSET}"
    and "\<And>h off v. (h, off, v) \<in> set xs \<Longrightarrow> 5 + length v \<le> length response \<and> 5 + length v < 65536"
  shows "\<exists>s'. prepare_requests s conn response xs = Some s' \<and> att_write_callback s' \<noteq> None \<and>
    pending s' = foldl note_error (pending s) (outcomes s conn as xs)"
  using assms
proof (induction xs arbitrary: s)
  case (Cons x xs)
  obtain h off v where x: "x = (h, off, v)" by (cases x)
  have l: "5 + length v \<le> length response" "5 + length v < 65536" using Cons.prems(5) [of h off v] x by auto
  then have n: "unat (of_nat (5 + length v) :: u16) = 5 + length v" by (intro unat_of_nat_u16) simp
  let ?s = "snd (prepare_answer s conn as h off v)"
  obtain m r where "att_handle_request s conn (0x16 # le16 h @ le16 off @ v) (of_nat (5 + length v)) response = Some (m, r, conn, ?s)"
    using answers_with_handler [where answer = "fst (prepare_answer s conn as h off v)" and s' = ?s and conn = conn, simplified,
        OF handle_prepare [OF Cons.prems(1,2) l(1) n]]
    by (auto simp: att_handle_request_def rd_def)
  moreover have "\<exists>s'. prepare_requests ?s conn response xs = Some s' \<and> att_write_callback s' \<noteq> None \<and>
      pending s' = foldl note_error (pending ?s) (outcomes ?s conn as xs)"
    using Cons.prems prepare_answer_sel [of s conn as h off v] prepare_answer_pending [OF Cons.prems(4), of conn as h off v]
      note_error_ok [OF Cons.prems(4)]
    by (intro Cons.IH) auto
  ultimately show ?case using prepare_answer_pending [OF Cons.prems(4), of conn as h off v] by (simp add: x)
qed simp

lemma execute_request:
  assumes "att_write_callback s \<noteq> None" and "5 \<le> length response"
  shows "\<exists>m response'. att_handle_request s conn [0x18, flag] n response = Some (m, response', conn, snd (execute_answer s conn flag)) \<and>
    take (unat m) response' = fst (execute_answer s conn flag)"
  using answers_with_handler [where answer = "fst (execute_answer s conn flag)" and s' = "snd (execute_answer s conn flag)"
      and conn = conn, simplified, OF handle_execute [OF assms]]
  by (auto simp: att_handle_request_def rd_def)

lemma execute_pending:
  "pending s = Some (e, h) \<Longrightarrow> flag \<noteq> 0 \<Longrightarrow> execute_answer s conn flag =
     (error_answer 0x18 h e, att_prepare_write_reset (snd (called s conn 0 ATT_TRANSACTION_MODE_CANCEL 0 [])))"
  by (auto simp: pending_def execute_answer_def split: if_splits)

text \<open>C31: a client prepares any number of writes, with no error pending before, and executes them.  If the application
  objected to a length or an offset, the execute request is answered with the error of the first objection to a length,
  or else the first to an offset, with the handle of that write; the application is told to cancel, and not to execute,
  and no error is pending any more.\<close>

theorem att_prepared_writes_error:
  assumes "att_db s = Some (db_bytes as tail)" and "list_all attribute_ok as" and "att_write_callback s \<noteq> None"
    and "att_prepare_write_error_code s = 0" and "5 \<le> length response"
    and "\<And>h off v. (h, off, v) \<in> set xs \<Longrightarrow> 5 + length v \<le> length response \<and> 5 + length v < 65536"
    and "first_error (outcomes s conn as xs) = Some (e, h)" and "flag \<noteq> 0"
  shows "\<exists>s' m response'. prepare_requests s conn response xs = Some s' \<and>
    att_handle_request s' conn [0x18, flag] 2 response
      = Some (m, response', conn, att_prepare_write_reset (snd (called s' conn 0 ATT_TRANSACTION_MODE_CANCEL 0 []))) \<and>
    take (unat m) response' = error_answer 0x18 h e"
proof -
  have p: "pending s = None" using assms(4) by (simp add: pending_def)
  obtain s' where s': "prepare_requests s conn response xs = Some s'" "att_write_callback s' \<noteq> None" "pending s' = Some (e, h)"
    using prepare_history [OF assms(1-3) _ assms(6)] p foldl_note_error assms(7) by fastforce
  from execute_request [OF s'(2) assms(5), of conn flag 2] execute_pending [OF s'(3) assms(8), of conn] s'(1)
  show ?thesis by auto
qed

theorem att_prepared_writes_error_witness:
  "\<exists>s' s'' m response'. prepare_requests example_server example_conn (replicate 23 0) [(3, 0, [1]), (3, 1, [1, 2, 3, 4, 5])] = Some s' \<and>
    att_handle_request s' example_conn [0x18, 1] 2 (replicate 23 0) = Some (m, response', example_conn, s'') \<and>
    take (unat m) response' = error_answer 0x18 3 0x0d"
proof -
  have e: "first_error (outcomes example_server example_conn example_attributes [(3, 0, [1]), (3, 1, [1, 2, 3, 4, 5])]) = Some (0x0d, 3)"
    by code_simp
  have "\<exists>s' m response'. prepare_requests example_server example_conn (replicate 23 0) [(3, 0, [1]), (3, 1, [1, 2, 3, 4, 5])] = Some s' \<and>
    att_handle_request s' example_conn [0x18, 1] 2 (replicate 23 0)
      = Some (m, response', example_conn, att_prepare_write_reset (snd (called s' example_conn 0 ATT_TRANSACTION_MODE_CANCEL 0 []))) \<and>
    take (unat m) response' = error_answer 0x18 3 0x0d"
    by (rule att_prepared_writes_error [OF example_server_sel(1) example_ok _ _ _ _ e]) (auto simp: example_server_sel)
  then show ?thesis by blast
qed

text \<open>C33: an execute request with flag 0 cancels the prepared writes but leaves their error pending: the client is told
  that all is well, and however many writes it then prepares without objection, the next execute request is answered
  with the error of the cancelled write and they are cancelled as well.\<close>

theorem att_cancelled_error_survives:
  assumes "att_db s = Some (db_bytes as tail)" and "list_all attribute_ok as" and "att_write_callback s \<noteq> None"
    and "pending s = Some (e, h)"
    and "e = ATT_ERROR_INVALID_ATTRIBUTE_VALUE_LENGTH \<or> e = ATT_ERROR_INVALID_OFFSET" and "5 \<le> length response"
    and "\<And>h off v. (h, off, v) \<in> set xs \<Longrightarrow> 5 + length v \<le> length response \<and> 5 + length v < 65536"
    and "\<forall>(e, h) \<in> set (outcomes (snd (called s conn 0 ATT_TRANSACTION_MODE_CANCEL 0 [])) conn as xs). e = 0" and "flag \<noteq> 0"
  shows "\<exists>m1 response1 s1 s2 m2 response2.
    att_handle_request s conn [0x18, 0] 2 response = Some (m1, response1, conn, s1) \<and> take (unat m1) response1 = [0x19] \<and>
    prepare_requests s1 conn response xs = Some s2 \<and>
    att_handle_request s2 conn [0x18, flag] 2 response
      = Some (m2, response2, conn, att_prepare_write_reset (snd (called s2 conn 0 ATT_TRANSACTION_MODE_CANCEL 0 []))) \<and>
    take (unat m2) response2 = error_answer 0x18 h e"
proof -
  define s1 where "s1 = snd (called s conn 0 ATT_TRANSACTION_MODE_CANCEL 0 [])"
  have s1: "att_db s1 = Some (db_bytes as tail)" "att_write_callback s1 \<noteq> None" "pending s1 = Some (e, h)"
    using assms(1,3,4) by (simp_all add: s1_def called_sel)
  have "execute_answer s conn 0 = ([0x19], s1)" by (simp add: execute_answer_def s1_def)
  with execute_request [OF assms(3,6), of conn 0 2] obtain m1 response1 where
    one: "att_handle_request s conn [0x18, 0] 2 response = Some (m1, response1, conn, s1)" "take (unat m1) response1 = [0x19]"
    by auto
  have noted: "foldl note_error p ys = p" if "\<forall>(e, h) \<in> set ys. e = 0" for p ys
    using that by (induction ys) (auto simp: note_error_def)
  have "pending s1 = None \<or> fst (the (pending s1)) \<in> {ATT_ERROR_INVALID_ATTRIBUTE_VALUE_LENGTH, ATT_ERROR_INVALID_OFFSET}"
    using s1(3) assms(5) by auto
  from prepare_history [OF s1(1) assms(2) s1(2) this, of xs response conn] assms(7)
  obtain s2 where s2: "prepare_requests s1 conn response xs = Some s2" "att_write_callback s2 \<noteq> None" "pending s2 = Some (e, h)"
    using noted [OF assms(8), folded s1_def] s1(3) by auto
  from execute_request [OF s2(2) assms(6), of conn flag 2] execute_pending [OF s2(3) assms(9), of conn] one s2(1)
  show ?thesis by auto
qed

theorem att_cancelled_error_survives_witness:
  "\<exists>(s :: (u16 \<times> buffer) list att_server) m1 response1 s1 s2 m2 response2 s3.
    att_handle_request s example_conn [0x18, 0] 2 (replicate 23 0) = Some (m1, response1, example_conn, s1) \<and>
    take (unat m1) response1 = [0x19] \<and>
    prepare_requests s1 example_conn (replicate 23 0) [(3, 0, [1])] = Some s2 \<and>
    att_handle_request s2 example_conn [0x18, 1] 2 (replicate 23 0) = Some (m2, response2, example_conn, s3) \<and>
    take (unat m2) response2 = error_answer 0x18 3 0x07"
proof -
  let ?s = "example_server\<lparr> att_prepare_write_error_code := 0x07, att_prepare_write_error_handle := 3 \<rparr>"
  have o: "\<forall>(e, h) \<in> set (outcomes (snd (called ?s example_conn 0 ATT_TRANSACTION_MODE_CANCEL 0 [])) example_conn example_attributes [(3, 0, [1])]). e = 0"
    by code_simp
  have p: "pending ?s = Some (0x07, 3)" by (simp add: pending_def)
  have d: "att_db ?s = Some (db_bytes example_attributes [])" by (simp add: example_server_sel)
  have "\<exists>m1 response1 s1 s2 m2 response2.
    att_handle_request ?s example_conn [0x18, 0] 2 (replicate 23 0) = Some (m1, response1, example_conn, s1) \<and>
    take (unat m1) response1 = [0x19] \<and>
    prepare_requests s1 example_conn (replicate 23 0) [(3, 0, [1])] = Some s2 \<and>
    att_handle_request s2 example_conn [0x18, 1] 2 (replicate 23 0)
      = Some (m2, response2, example_conn, att_prepare_write_reset (snd (called s2 example_conn 0 ATT_TRANSACTION_MODE_CANCEL 0 []))) \<and>
    take (unat m2) response2 = error_answer 0x18 3 0x07"
    by (rule att_cancelled_error_survives [OF d example_ok _ p _ _ _ o]) (auto simp: example_server_sel)
  then show ?thesis by blast
qed

end
