(* ===== verification/Att_Groups.thy ===== *)
theory Att_Groups
  imports Att_Safety
begin

text \<open>
  Read by group type keeps its response within the limit, and the theorem that every read request of the server does.
\<close>

section \<open>Read by group type\<close>

definition group_inv :: "u16 \<Rightarrow> nat \<Rightarrow> group_vars \<Rightarrow> bool" where
  "group_inv limit len v \<longleftrightarrow> length (g_response v) = len \<and>
     (if g_offset v = 1 then \<not> g_in_group v
      else 2 \<le> unat (g_offset v) \<and> (g_pair_len v = 6 \<or> g_pair_len v = 20) \<and>
        unat (g_offset v) + unat (g_pair_len v) \<le> unat limit \<and>
        (g_in_group v \<longrightarrow> unat (g_pair_len v) - 4 \<le> length (g_start_value v)))"

definition group_end :: "u16 \<Rightarrow> nat \<Rightarrow> group_vars \<Rightarrow> bool" where
  "group_end limit len v \<longleftrightarrow> length (g_response v) = len \<and> unat (g_offset v) \<le> unat limit"

lemma group_inv_end: "group_inv limit len v \<Longrightarrow> 23 \<le> unat limit \<Longrightarrow> group_end limit len v"
  by (auto simp: group_inv_def group_end_def split: if_splits)

definition close_group :: "group_vars \<Rightarrow> group_vars option" where
  "close_group v = do {
     response \<leftarrow> little_endian_store_16 (g_response v) (g_offset v) (g_start_handle v);
     response \<leftarrow> little_endian_store_16 response (g_offset v + 2) (g_prev_handle v);
     value \<leftarrow> (if g_pair_len v < 4 then None else rd_range (g_start_value v) 0 (unat (g_pair_len v - 4)));
     response \<leftarrow> wr_range response (unat (g_offset v + 4)) value;
     Some (v\<lparr> g_offset := g_offset v + 4 + (g_pair_len v - 4), g_in_group := False, g_response := response \<rparr>) }"

lemma close_group:
  assumes q: "group_inv limit len v" and g: "g_in_group v" and lim: "unat limit \<le> len"
  obtains v' where "close_group v = Some v'" and "length (g_response v') = len" and "\<not> g_in_group v'"
    and "g_pair_len v' = g_pair_len v" and "unat (g_offset v') = unat (g_offset v) + unat (g_pair_len v)" 
    and "g_pair_len v = 6 \<or> g_pair_len v = 20" and "2 \<le> unat (g_offset v)"
proof -
  have l: "length (g_response v) = len" "2 \<le> unat (g_offset v)" "g_pair_len v = 6 \<or> g_pair_len v = 20"
      "unat (g_offset v) + unat (g_pair_len v) \<le> unat limit" "unat (g_pair_len v) - 4 \<le> length (g_start_value v)"
    using q g by (auto simp: group_inv_def split: if_splits)
  have pl: "6 \<le> unat (g_pair_len v)" "unat (g_pair_len v - 4) = unat (g_pair_len v) - 4" "\<not> g_pair_len v < 4"
    using l(3) by auto
  have lt: "unat limit < 65536" by simp
  have o: "unat (g_offset v + 2) = unat (g_offset v) + 2" "unat (g_offset v + 4) = unat (g_offset v) + 4"
    using unat_plus_le [of "g_offset v" 2 limit] unat_plus_le [of "g_offset v" 4 limit] l(4) pl(1) by simp_all
  have "g_offset v + 4 + (g_pair_len v - 4) = g_offset v + g_pair_len v" by simp
  moreover have "unat (g_offset v + g_pair_len v) = unat (g_offset v) + unat (g_pair_len v)"
    using unat_plus_le [of "g_offset v" "g_pair_len v" limit] l(4) by simp
  ultimately have off: "unat (g_offset v + 4 + (g_pair_len v - 4)) = unat (g_offset v) + unat (g_pair_len v)" by simp
  let ?r1 = "put (unat (g_offset v)) (le16 (g_start_handle v)) (g_response v)"
  let ?r2 = "put (unat (g_offset v + 2)) (le16 (g_prev_handle v)) ?r1"
  let ?x = "take (unat (g_pair_len v - 4)) (g_start_value v)"
  have s1: "little_endian_store_16 (g_response v) (g_offset v) (g_start_handle v) = Some ?r1"
    using l lim lt pl by (intro store_put) linarith+
  have l1: "length ?r1 = len" using l lim pl by simp
  have s2: "little_endian_store_16 ?r1 (g_offset v + 2) (g_prev_handle v) = Some ?r2"
    using l l1 lim lt pl o by (intro store_put) linarith+
  have l2: "length ?r2 = len" using l l1 lim pl o by simp
  have lx: "length ?x = unat (g_pair_len v) - 4" using l(5) pl(2) by simp
  have r: "rd_range (g_start_value v) 0 (unat (g_pair_len v - 4)) = Some ?x" using l(5) pl(2) by (simp add: rd_range_Some)
  have fit: "unat (g_offset v + 4) + length ?x \<le> length ?r2" using l l2 lim lx o pl by linarith
  show ?thesis
  proof (rule that)
    show "close_group v = Some (v\<lparr> g_offset := g_offset v + 4 + (g_pair_len v - 4), g_in_group := False,
        g_response := put (unat (g_offset v + 4)) ?x ?r2 \<rparr>)"
      unfolding close_group_def s1 bind.bind_lunit s2 using pl r wr_range_put [OF fit] by simp
  qed (use l l2 fit off in simp_all)
qed

lemma open_group:
  assumes q: "group_inv limit len v" and lim: "23 \<le> unat limit" "unat limit \<le> len" and g: "\<not> g_in_group v"
    and n: "n = 2 \<or> n = (16 :: u16)" and x: "unat n \<le> length x"
  shows "step_ends (group_inv limit len) (group_end limit len) (do {
     let this_pair_len = 4 + n;
     if g_offset v > 1 \<and> this_pair_len \<noteq> g_pair_len v then Some (Break v)
     else do {
       v \<leftarrow> (if g_offset v = 1 then do {
                response \<leftarrow> wr (g_response v) 1 (to8 this_pair_len);
                Some (v\<lparr> g_offset := 2, g_pair_len := this_pair_len, g_response := response \<rparr>) }
              else Some v);
       Some (Continue (v\<lparr> g_in_group := True, g_start_handle := h, g_start_value := x \<rparr>)) } })"
proof (cases "g_offset v = 1")
  case True
  have "wr (g_response v) 1 y = Some (put 1 [y] (g_response v))" for y
    using q lim by (auto simp: group_inv_def intro: wr_put)
  moreover have "length (put 1 [y] (g_response v)) = len" for y using q lim by (simp add: group_inv_def)
  ultimately show ?thesis using True n x lim by (auto simp: group_inv_def Let_def)
next
  case False
  then have "g_offset v > 1" using q by (auto simp: group_inv_def word_less_nat_alt)
  with False q n x show ?thesis by (auto simp: group_inv_def group_end_def Let_def)
qed

text \<open>One round, with the two parts named.\<close>

lemma read_by_group_type_step_eq:
  "read_by_group_type_step limit s e n u it v =
     (if it_handle it \<noteq> 0 \<and> it_handle it < s then Some (Continue v)
      else if it_handle it > e then Some (Break v)
      else do {
        close \<leftarrow> (if g_in_group v then if it_handle it = 0 then Some True else starts_service it else Some False);
        v \<leftarrow> (if close then close_group v else Some v);
        if close \<and> uint (g_offset v) + uint (g_pair_len v) > uint limit then Some (Break v)
        else do {
          let v = v\<lparr> g_prev_handle := it_handle it \<rparr>;
          matches \<leftarrow> (if it_handle it \<noteq> 0 then att_iterator_match_uuid it u n else Some False);
          if \<not> matches then Some (Continue v)
          else do {
            let this_pair_len = 4 + it_value_len it;
            if g_offset v > 1 \<and> this_pair_len \<noteq> g_pair_len v then Some (Break v)
            else do {
              v \<leftarrow> (if g_offset v = 1 then do {
                       response \<leftarrow> wr (g_response v) 1 (to8 this_pair_len);
                       Some (v\<lparr> g_offset := 2, g_pair_len := this_pair_len, g_response := response \<rparr>) }
                     else Some v);
              Some (Continue (v\<lparr> g_in_group := True, g_start_handle := it_handle it, g_start_value := it_value it \<rparr>)) } } } })"
  unfolding read_by_group_type_step_def close_group_def by (rule refl)

lemma group_closed:
  assumes "group_inv limit len v" and "unat limit \<le> len" and "23 \<le> unat limit"
  obtains v' where "(if g_in_group v then close_group v else Some v) = Some v'" and "\<not> g_in_group v'" and "group_end limit len v'"
    and "\<not> (g_in_group v \<and> uint (g_offset v') + uint (g_pair_len v') > uint limit) \<longrightarrow> group_inv limit len v'"
proof (cases "g_in_group v")
  case True
  obtain v' where v': "close_group v = Some v'" "length (g_response v') = len" "\<not> g_in_group v'"
     "g_pair_len v' = g_pair_len v" "unat (g_offset v') = unat (g_offset v) + unat (g_pair_len v)"
     "g_pair_len v = 6 \<or> g_pair_len v = 20" "2 \<le> unat (g_offset v)"
    by (rule close_group [OF assms(1) True assms(2)])
  have "unat (g_offset v) + unat (g_pair_len v) \<le> unat limit" using assms(1) v'(7) by (auto simp: group_inv_def split: if_splits)
  moreover have "2 \<le> unat (g_offset v')" using v' by simp
  moreover have "uint (g_offset v') + uint (g_pair_len v') > uint limit \<longleftrightarrow> unat (g_offset v') + unat (g_pair_len v') > unat limit"
    unfolding uint_nat by linarith
  ultimately show ?thesis using True v' by (intro that [of v']) (auto simp: group_inv_def group_end_def)
next
  case False
  with assms group_inv_end show ?thesis by (intro that [of v]) auto
qed

lemma group_type:
  assumes u: "length u = 2 \<and> n = 2 \<or> length u = 16 \<and> n = (16 :: u16)"
  obtains t where "uuid16_from_uuid n (u @ r) = Some t" and "t \<noteq> 0 \<longrightarrow> (\<forall>a. has_uuid a u = has_uuid a (le16 t))"
proof (cases "n = 2")
  case True
  with u have "length u = 2" by auto
  then obtain t where "u = le16 t" by (rule two_bytes)
  with True show ?thesis by (intro that [of t]) (simp_all add: uuid16_from_uuid_def)
next
  case False
  with u have l: "length u = 16" by auto
  obtain base where base: "is_Bluetooth_Base_UUID (u @ r) = Some base" using is_base_uuid [of "u @ r"] l by simp
  have "\<exists>t. little_endian_read_16 (u @ r) 12 = Some t" using l by (auto simp: little_endian_read_16_def rd_def)
  then obtain t where t: "little_endian_read_16 (u @ r) 12 = Some t" by blast
  show ?thesis
  proof (cases base)
    case True
    then have "u = uuid128_of (le16 t)" using base_test [OF l, of r t] base t by simp
    then have "has_uuid a u = has_uuid a (le16 t)" for a using l by (simp add: has_uuid_def uuid128_of_def)
    with True False base t show ?thesis by (intro that [of t]) (simp_all add: uuid16_from_uuid_def)
  next
    case no: False
    with False base show ?thesis by (intro that [of 0]) (simp_all add: uuid16_from_uuid_def)
  qed
qed

lemma read_by_group_type_keeps:
  assumes ok: "attribute_ok a" and lim: "23 \<le> unat limit" "unat limit \<le> len"
    and u: "length u = 2 \<and> n = 2 \<or> length u = 16 \<and> n = (16 :: u16)"
    and services: "has_uuid a u \<longrightarrow> is_service a \<and> (length (a_value a) = 2 \<or> length (a_value a) = 16)"
    and q: "group_inv limit len v"
  shows "step_ends (group_inv limit len) (group_end limit len) (read_by_group_type_step limit s e n (u @ r') (it_of a r) v)"
proof -
  have nz: "a_handle a \<noteq> 0" using ok by (simp add: attribute_ok_def)
  have qe: "group_end limit len v" by (rule group_inv_end [OF q lim(1)])
  have match: "att_iterator_match_uuid (it_of a r) (u @ r') n = Some (has_uuid a u)" by (rule match_uuid [OF ok u])
  have rest: "step_ends (group_inv limit len) (group_end limit len)
      (let v = w\<lparr> g_prev_handle := a_handle a \<rparr> in
       if \<not> has_uuid a u then Some (Continue v)
       else do {
         let this_pair_len = 4 + of_nat (length (a_value a));
         if g_offset v > 1 \<and> this_pair_len \<noteq> g_pair_len v then Some (Break v)
         else do {
           v \<leftarrow> (if g_offset v = 1 then do {
                    response \<leftarrow> wr (g_response v) 1 (to8 this_pair_len);
                    Some (v\<lparr> g_offset := 2, g_pair_len := this_pair_len, g_response := response \<rparr>) }
                  else Some v);
           Some (Continue (v\<lparr> g_in_group := True, g_start_handle := a_handle a, g_start_value := a_value a @ r \<rparr>)) } })"
    if w: "group_inv limit len w" "has_uuid a u \<Longrightarrow> \<not> g_in_group w" for w
  proof (cases "has_uuid a u")
    case True
    have w': "group_inv limit len (w\<lparr> g_prev_handle := a_handle a \<rparr>)" using w(1) by (simp add: group_inv_def)
    have "step_ends (group_inv limit len) (group_end limit len) (do {
     let this_pair_len = 4 + of_nat (length (a_value a));
     if g_offset (w\<lparr> g_prev_handle := a_handle a \<rparr>) > 1 \<and> this_pair_len \<noteq> g_pair_len (w\<lparr> g_prev_handle := a_handle a \<rparr>)
     then Some (Break (w\<lparr> g_prev_handle := a_handle a \<rparr>))
     else do {
       v \<leftarrow> (if g_offset (w\<lparr> g_prev_handle := a_handle a \<rparr>) = 1 then do {
                response \<leftarrow> wr (g_response (w\<lparr> g_prev_handle := a_handle a \<rparr>)) 1 (to8 this_pair_len);
                Some (w\<lparr> g_prev_handle := a_handle a, g_offset := 2, g_pair_len := this_pair_len, g_response := response \<rparr>) }
              else Some (w\<lparr> g_prev_handle := a_handle a \<rparr>));
       Some (Continue (v\<lparr> g_in_group := True, g_start_handle := a_handle a, g_start_value := a_value a @ r \<rparr>)) } })"
      using open_group [OF w' lim, of "of_nat (length (a_value a))" "a_value a @ r" "a_handle a"] services True w(2)
        attribute_value_length [OF ok] by auto
    then show ?thesis using True by (simp add: Let_def)
  next
    case False
    with w show ?thesis by (simp add: group_inv_def)
  qed
  show ?thesis
  proof (cases "a_handle a < s \<or> a_handle a > e")
    case True
    with nz q qe show ?thesis by (auto simp: read_by_group_type_step_eq)
  next
    case False
    show ?thesis
    proof (cases "g_in_group v \<and> is_service a")
      case True
      obtain v' where v': "(if g_in_group v then close_group v else Some v) = Some v'" "\<not> g_in_group v'" "group_end limit len v'"
        "\<not> (g_in_group v \<and> uint (g_offset v') + uint (g_pair_len v') > uint limit) \<longrightarrow> group_inv limit len v'"
        by (rule group_closed [OF q lim(2,1)])
      have "close_group v = Some v'" using v'(1) True by simp
      with True False nz v' rest [of v'] show ?thesis
        by (simp add: read_by_group_type_step_eq starts_service_of [OF ok] match cong: if_cong del: it_of_sel(3))
    next
      case no: False
      have "has_uuid a u \<Longrightarrow> \<not> g_in_group v" using services no by simp
      from rest [OF q this] False no nz show ?thesis
        by (cases "g_in_group v") (simp_all add: read_by_group_type_step_eq starts_service_of [OF ok] match cong: if_cong del: it_of_sel(3))
    qed
  qed
qed

lemma read_by_group_type_end:
  assumes "group_inv limit len v" and "unat limit \<le> len" and "23 \<le> unat limit"
  shows "step_ends (group_inv limit len) (group_end limit len) (read_by_group_type_step limit s e n u it_end v)"
proof -
  obtain v' where "(if g_in_group v then close_group v else Some v) = Some v'" "\<not> g_in_group v'" "group_end limit len v'"
        "\<not> (g_in_group v \<and> uint (g_offset v') + uint (g_pair_len v') > uint limit) \<longrightarrow> group_inv limit len v'"
    by (rule group_closed [OF assms])
  then show ?thesis
    by (cases "g_in_group v") (auto simp: read_by_group_type_step_eq Let_def group_inv_def)
qed

section \<open>Every read request fits\<close>

lemma fits_wr:
  assumes "23 \<le> unat limit" and "unat limit \<le> length response" and "length response' = length response" and "unat n \<le> unat limit"
  shows "fits limit response (do { response \<leftarrow> wr response' 0 x; Some (n, response) })"
proof -
  have "0 < length response'" using assms by linarith
  from wr_Some [OF this, of x] assms show ?thesis by (simp add: word_le_nat_alt)
qed

lemma fits_error:
  assumes "23 \<le> unat limit" and "unat limit \<le> length response" and "length response' = length response"
  shows "fits limit response (setup_error response' request handle e)"
  using fits_setup_error [of limit response'] assms by (simp add: fits_def)

lemmas fits_answer = fits_wr fits_error

lemma fits_find_information:
  assumes "serves s as" and lim: "23 \<le> unat limit" "unat limit \<le> length response"
  shows "fits limit response (handle_find_information_request2 s response limit start_handle end_handle)"
proof -
  obtain tail where db: "att_db s = Some (db_bytes as tail)" and ok: "list_all attribute_ok as"
    using assms(1) by (auto simp: serves_def)
  let ?Q = "\<lambda>(offset :: u16, uuid_len :: u16, response' :: buffer). length response' = length response \<and>
      (offset = 1 \<or> 2 \<le> unat offset) \<and> unat offset \<le> unat limit"
  have "\<exists>v. att_walk (find_information_step limit start_handle end_handle) as tail (1, 0, response) = Some v \<and> ?Q v"
  proof (rule att_walk_inv)
    fix a r and v :: "u16 \<times> u16 \<times> buffer"
    assume a: "a \<in> set as" and q: "?Q v"
    obtain offset n response' where v: "v = (offset, n, response')" by (metis prod_cases3)
    have aok: "attribute_ok a" using a ok by (simp add: list_all_iff)
    have len: "unat (uuid_len_of a) = length (a_uuid a)" by (rule uuid_len_of_length [OF aok])
    have sum: "unat (o' + 2 + uuid_len_of a) = unat o' + 2 + length (a_uuid a)"
      if "unat o' + 2 + length (a_uuid a) \<le> unat limit" for o' :: u16
      using unat_plus_le [of o' 2 limit] unat_plus_le [of "o' + 2" "uuid_len_of a" limit] that len by simp
    show "step_keeps ?Q (find_information_step limit start_handle end_handle (it_of a r) v)"
      using q lim sum [of offset] sum [of 2] unfolding v
      by (subst find_information_step_eq [OF aok lim(1)]) (auto simp: Let_def)
  qed (use lim in auto)
  then obtain offset n response' where
    w: "att_walk (find_information_step limit start_handle end_handle) as tail (1, 0, response) = Some (offset, n, response')"
       "length response' = length response" "unat offset \<le> unat limit" by auto
  show ?thesis using fits_answer [OF lim w(2)] w(3) lim
    by (simp add: handle_find_information_request2_def db att_loop_db [OF ok] setup_errors w(1))
qed

lemma find_by_type_value_end:
  assumes lim: "23 \<le> unat limit" "unat limit \<le> len" and q: "by_value_inv limit len v"
  shows "step_ends (by_value_inv limit len) (by_value_end limit len)
    (find_by_type_value_step limit start_handle end_handle type alen value it_end v)"
proof -
  obtain offset in_group prev response where v: "v = (offset, in_group, prev, response)" by (metis prod_cases4)
  have l: "length response = len" "unat offset + 2 \<le> unat limit" using q by (auto simp: v by_value_inv_def split: if_splits)
  have o2: "unat limit \<le> length response" using l lim by simp
  note so = store_offset [OF l(2) o2]
  have full: "uint (offset + 2) + 4 > uint limit \<longleftrightarrow> unat offset + 6 > unat limit"
    unfolding uint_nat so(3) by linarith
  show ?thesis
  proof (cases in_group)
    case True
    then show ?thesis using so(1,2) [of prev] so(3) full l
      by (simp add: find_by_type_value_step_def v by_value_inv_def by_value_end_def Let_def)
  next
    case False
    then show ?thesis using q by (simp add: find_by_type_value_step_def v by_value_inv_def by_value_end_def)
  qed
qed

lemma fits_find_by_type_value:
  assumes srv: "serves s as" and lim: "23 \<le> unat limit" "unat limit \<le> length response"
    and val: "unat alen \<le> length value" and type: "type = GATT_PRIMARY_SERVICE_UUID \<or> type = GATT_SECONDARY_SERVICE_UUID"
  shows "fits limit response (handle_find_by_type_value_request2 s response limit start_handle end_handle type alen value)"
proof -
  obtain tail where db: "att_db s = Some (db_bytes as tail)" and ok: "list_all attribute_ok as"
    using srv by (auto simp: serves_def)
  let ?Q = "by_value_inv limit (length response)" and ?R = "by_value_end limit (length response)"
  have "\<exists>v. att_walk (find_by_type_value_step limit start_handle end_handle type alen value) as tail (1, False, 0, response) = Some v \<and> ?R v"
  proof (rule att_walk_ends [where Q = ?Q])
    show "step_ends ?Q ?R (find_by_type_value_step limit start_handle end_handle type alen value (it_of a r) v)"
      if "a \<in> set as" "?Q v" for a r v
      using that ok lim val type by (intro find_by_type_value_keeps) (auto simp: list_all_iff)
    show "step_ends ?Q ?R (find_by_type_value_step limit start_handle end_handle type alen value it_end v)" if "?Q v" for v
      using find_by_type_value_end [OF lim that] .
    show "?R v" if "?Q v" for v using that by (auto simp: by_value_inv_def by_value_end_def split: if_splits)
    show "?Q (1, False, 0, response)" using lim by (simp add: by_value_inv_def)
  qed
  then obtain offset g prev response' where
    w: "att_walk (find_by_type_value_step limit start_handle end_handle type alen value) as tail (1, False, 0, response)
         = Some (offset, g, prev, response')" "length response' = length response" "unat offset \<le> unat limit"
    by (auto simp: by_value_end_def)
  show ?thesis using fits_answer [OF lim w(2)] w(3) lim
    by (simp add: handle_find_by_type_value_request2_def db att_loop_db [OF ok] setup_errors w(1))
qed

lemma fits_read_by_group_type:
  assumes srv: "serves s as" "services_ok as" and lim: "23 \<le> unat limit" "unat limit \<le> length response"
    and u: "length u = 2 \<and> n = 2 \<or> length u = 16 \<and> n = (16 :: u16)"
  shows "fits limit response (handle_read_by_group_type_request2 s response limit start_handle end_handle n (u @ r'))"
proof -
  obtain tail where db: "att_db s = Some (db_bytes as tail)" and ok: "list_all attribute_ok as"
    using srv(1) by (auto simp: serves_def)
  obtain t where t: "uuid16_from_uuid n (u @ r') = Some t" "t \<noteq> 0 \<longrightarrow> (\<forall>a. has_uuid a u = has_uuid a (le16 t))"
    by (rule group_type [OF u])
  show ?thesis
  proof (cases "(start_handle > end_handle \<or> start_handle = 0) \<or> t \<noteq> GATT_PRIMARY_SERVICE_UUID \<and> t \<noteq> GATT_SECONDARY_SERVICE_UUID")
    case True
    then show ?thesis using t(1) lim by (auto simp: handle_read_by_group_type_request2_def setup_errors)
  next
    case False
    then have services: "has_uuid a u \<longrightarrow> is_service a \<and> (length (a_value a) = 2 \<or> length (a_value a) = 16)" if "a \<in> set as" for a
      using t(2) srv(2) that by (auto simp: is_service_def services_ok_def)
    let ?v = "\<lparr> g_offset = 1, g_pair_len = 0, g_in_group = False, g_start_handle = 0, g_start_value = [],
                g_prev_handle = 0, g_response = response \<rparr>"
    let ?Q = "group_inv limit (length response)" and ?R = "group_end limit (length response)"
    have "\<exists>v. att_walk (read_by_group_type_step limit start_handle end_handle n (u @ r')) as tail ?v = Some v \<and> ?R v"
    proof (rule att_walk_ends [where Q = ?Q])
      show "step_ends ?Q ?R (read_by_group_type_step limit start_handle end_handle n (u @ r') (it_of a r) v)"
        if "a \<in> set as" "?Q v" for a r v
        using that ok lim u services by (intro read_by_group_type_keeps) (auto simp: list_all_iff)
      show "step_ends ?Q ?R (read_by_group_type_step limit start_handle end_handle n (u @ r') it_end v)" if "?Q v" for v
        by (rule read_by_group_type_end [OF that lim(2,1)])
      show "?R v" if "?Q v" for v by (rule group_inv_end [OF that lim(1)])
      show "?Q ?v" by (simp add: group_inv_def)
    qed
    then obtain v where
      w: "att_walk (read_by_group_type_step limit start_handle end_handle n (u @ r')) as tail ?v = Some v"
        "length (g_response v) = length response" "unat (g_offset v) \<le> unat limit"
      by (auto simp: group_end_def)
    show ?thesis using fits_answer [OF lim w(2)] w(3) False t(1)
      by (auto simp: handle_read_by_group_type_request2_def db att_loop_db [OF ok] setup_errors w(1))
  qed
qed

lemma fits_read_by_type:
  assumes srv: "serves s as" and lim: "23 \<le> unat limit" "unat limit \<le> length response"
    and u: "length u = 2 \<and> n = 2 \<or> length u = 16 \<and> n = (16 :: u16)"
  shows "fits limit response (handle_read_by_type_request2 s conn response limit start_handle end_handle n (u @ r'))"
proof -
  obtain tail where db: "att_db s = Some (db_bytes as tail)" and ok: "list_all attribute_ok as"
    using srv by (auto simp: serves_def)
  let ?v = "\<lparr> rt_offset = 1, rt_pair_len = 0, rt_error_code = 0, rt_unreadable_handle = 0, rt_response = response \<rparr>"
  let ?Q = "read_by_type_inv limit (length response)"
  have "\<exists>v. att_walk (read_by_type_step s conn limit start_handle end_handle n (u @ r')) as tail ?v = Some v \<and> ?Q v"
  proof (rule att_walk_inv)
    show "step_keeps ?Q (read_by_type_step s conn limit start_handle end_handle n (u @ r') (it_of a r) v)"
      if "a \<in> set as" "?Q v" for a r v
      using that lim u by (intro read_by_type_keeps [OF srv])
    show "step_keeps ?Q (read_by_type_step s conn limit start_handle end_handle n (u @ r') it_end v)" if "?Q v" for v
      using that by (simp add: read_by_type_step_def)
    show "?Q ?v" using lim by (simp add: read_by_type_inv_def)
  qed
  then obtain v where
    w: "att_walk (read_by_type_step s conn limit start_handle end_handle n (u @ r')) as tail ?v = Some v"
      "length (rt_response v) = length response" "unat (rt_offset v) \<le> unat limit"
    by (auto simp: read_by_type_inv_def)
  show ?thesis using fits_answer [OF lim w(2)] w(3) lim
    by (auto simp: handle_read_by_type_request2_def db att_loop_db [OF ok] setup_errors w(1) Let_def)
qed

text \<open>The common end of a read and a read blob request.\<close>

lemma fits_copy:
  assumes srv: "serves s as" "a \<in> set as" and lim: "23 \<le> unat limit" "unat limit \<le> length response"
    and m: "unat (m - offset) + 1 \<le> unat limit"
    and static: "a_flags a AND ATT_PROPERTY_DYNAMIC = 0 \<Longrightarrow> offset \<le> m \<and> unat m \<le> length (a_value a)"
  shows "fits limit response (do {
      (bytes_copied, response) \<leftarrow> att_copy_value s ((it_of a r)\<lparr> it_value_len := m \<rparr>) offset response 1 (m - offset) con;
      let offset = 1 + bytes_copied;
      response \<leftarrow> wr response 0 x;
      Some (offset, response) })"
proof -
  have room: "unat (1 :: u16) + unat (m - offset) \<le> length response" using m lim by simp
  obtain k response' where k: "att_copy_value s ((it_of a r)\<lparr> it_value_len := m \<rparr>) offset response 1 (m - offset) con = Some (k, response')"
      "k \<le> m - offset" "length response' = length response"
    by (rule copy_value [OF srv static room])
  have "unat (1 + k) \<le> unat limit"
    using k(2) m unat_plus_le [of 1 k limit] by (simp add: word_le_nat_alt)
  from fits_wr [OF lim k(3) this] show ?thesis by (simp add: k(1) Let_def)
qed

lemma fits_read:
  assumes srv: "serves s as" and lim: "23 \<le> unat limit" "unat limit \<le> length response"
  shows "fits limit response (handle_read_request2 s conn response limit handle)"
proof -
  obtain tail where db: "att_db s = Some (db_bytes as tail)" and ok: "list_all attribute_ok as"
    using srv by (auto simp: serves_def)
  show ?thesis
  proof (cases "handle = 0 \<or> find_attribute as handle = None")
    case True
    then show ?thesis using lim by (auto simp: handle_read_request2_def db att_find_handle_db [OF ok] setup_errors)
  next
    case False
    then obtain a r where a: "find_attribute as handle = Some (a, r)" "a \<in> set as" using find_attribute_Some by fastforce
    obtain n where n: "att_update_value_len s (it_of a (db_bytes r tail)) (con_handle conn)
          = Some ((it_of a (db_bytes r tail))\<lparr> it_value_len := n \<rparr>)"
      "unat n < 65528" "a_flags a AND ATT_PROPERTY_DYNAMIC = 0 \<longrightarrow> unat n = length (a_value a)"
      by (rule update_value_len [OF srv a(2), where r = "db_bytes r tail" and con = "con_handle conn"])
    have c: "1 + uint n > uint limit \<longleftrightarrow> 1 + unat n > unat limit" unfolding uint_nat by linarith
    have l1: "unat (limit - 1) = unat limit - 1" using lim by (subst unat_sub) (simp_all add: word_le_nat_alt)
    let ?m = "if 1 + unat n > unat limit then limit - 1 else n"
    have m: "unat (?m - 0) + 1 \<le> unat limit" using lim l1 by auto
    have st: "0 \<le> ?m \<and> unat ?m \<le> length (a_value a)" if "a_flags a AND ATT_PROPERTY_DYNAMIC = 0" using n(3) l1 that by auto
    show ?thesis using False a(1) n(1) c lim fits_copy [OF srv a(2) lim m st, of "db_bytes r tail" "con_handle conn" "0x0b"]
      by (auto simp: handle_read_request2_def db att_find_handle_db [OF ok] setup_errors Let_def)
  qed
qed

lemma fits_read_blob:
  assumes srv: "serves s as" and lim: "23 \<le> unat limit" "unat limit \<le> length response"
  shows "fits limit response (handle_read_blob_request2 s conn response limit handle offset)"
proof -
  obtain tail where db: "att_db s = Some (db_bytes as tail)" and ok: "list_all attribute_ok as"
    using srv by (auto simp: serves_def)
  show ?thesis
  proof (cases "handle = 0 \<or> find_attribute as handle = None")
    case True
    then show ?thesis using lim by (auto simp: handle_read_blob_request2_def db att_find_handle_db [OF ok] setup_errors)
  next
    case False
    then obtain a r where a: "find_attribute as handle = Some (a, r)" "a \<in> set as" using find_attribute_Some by fastforce
    obtain n where n: "att_update_value_len s (it_of a (db_bytes r tail)) (con_handle conn)
          = Some ((it_of a (db_bytes r tail))\<lparr> it_value_len := n \<rparr>)"
      "unat n < 65528" "a_flags a AND ATT_PROPERTY_DYNAMIC = 0 \<longrightarrow> unat n = length (a_value a)"
      by (rule update_value_len [OF srv a(2), where r = "db_bytes r tail" and con = "con_handle conn"])
    show ?thesis
    proof (cases "offset > n")
      case True
      then show ?thesis using False a(1) n(1) lim
        by (auto simp: handle_read_blob_request2_def db att_find_handle_db [OF ok] setup_errors Let_def)
    next
      case on: False
      then have on': "unat offset \<le> unat n" by (simp add: word_le_nat_alt word_less_nat_alt)
      have c: "1 + uint n - uint offset > uint limit \<longleftrightarrow> 1 + unat n - unat offset > unat limit"
        unfolding uint_nat using on' by linarith
      have l1: "unat (limit - 1) = unat limit - 1" using lim by (subst unat_sub) (simp_all add: word_le_nat_alt)
      let ?m = "if 1 + unat n - unat offset > unat limit then limit - 1 + offset else n"
      have sum: "unat (limit - 1 + offset) = unat limit - 1 + unat offset" if "1 + unat n - unat offset > unat limit"
        using that l1 lim unat_plus_le [of "limit - 1" offset n] by simp
      have d: "unat (?m - offset) = (if 1 + unat n - unat offset > unat limit then unat limit - 1 else unat n - unat offset)"
        using l1 on' by (simp add: unat_sub word_le_nat_alt)
      have m: "unat (?m - offset) + 1 \<le> unat limit" using lim on' unfolding d by auto
      have st: "offset \<le> ?m \<and> unat ?m \<le> length (a_value a)" if "a_flags a AND ATT_PROPERTY_DYNAMIC = 0"
        using n(3) sum that on' lim by (auto simp: word_le_nat_alt)
      show ?thesis using False a(1) n(1) c lim on
          fits_copy [OF srv a(2) lim m st, of "db_bytes r tail" "con_handle conn" "0x0d"]
        by (auto simp: handle_read_blob_request2_def db att_find_handle_db [OF ok] setup_errors Let_def)
    qed
  qed
qed

section \<open>The read requests of a client\<close>

text \<open>Read requests of the lengths the protocol gives them.  Find by type value asks for services here.\<close>

definition read_request :: "buffer \<Rightarrow> bool" where
  "read_request req \<longleftrightarrow> req \<noteq> [] \<and> length req < 65536 \<and>
     (let opcode = hd req; n = length req in
        opcode = 0x04 \<and> n = 5
      \<or> opcode = 0x06 \<and> 7 \<le> n \<and> (take 2 (drop 5 req) = le16 GATT_PRIMARY_SERVICE_UUID \<or> take 2 (drop 5 req) = le16 GATT_SECONDARY_SERVICE_UUID)
      \<or> opcode = 0x08 \<and> (n = 7 \<or> n = 21)
      \<or> opcode = 0x0a \<and> n = 3
      \<or> opcode = 0x0c \<and> n = 5
      \<or> opcode = 0x10 \<and> (n = 7 \<or> n = 21))"

lemma read_16_exists: "k + 2 \<le> length p \<Longrightarrow> \<exists>v. little_endian_read_16 p k = Some v"
  by (simp add: little_endian_read_16_def rd_Some)

lemma read_16_of_take:
  assumes "take 2 (drop k p) = le16 v"
  shows "little_endian_read_16 p k = Some v"
proof -
  have p: "drop k p = le16 v @ drop (k + 2) p" using split_drop [of k p 2] assms by simp
  then have k: "k \<le> length p" by (cases "k \<le> length p") (auto simp: le16_def)
  have "little_endian_read_16 (drop k p) 0 = Some v" by (subst p) (rule read_le16)
  with read_16_drop [OF k, of 0] show ?thesis by simp
qed

lemma fits_handler:
  assumes "read_request req" and "unat n = length req" and "serves s as" and "services_ok as" 
    and lim: "23 \<le> unat (mtu conn)" "unat (mtu conn) \<le> length response"
  shows "\<exists>r. att_handle_request s conn req n response = map_option (\<lambda>(n, response). (n, response, conn, s)) r \<and>
    fits (mtu conn) response r"
proof -
  have rd: "rd req 0 = Some (hd req)" using assms(1) by (cases req) (auto simp: read_request_def rd_def)
  note H = att_handle_request_def rd
  consider (info) "hd req = 0x04" "length req = 5"
    | (find) t where "hd req = 0x06" "7 \<le> length req" "take 2 (drop 5 req) = le16 t" "t = GATT_PRIMARY_SERVICE_UUID \<or> t = GATT_SECONDARY_SERVICE_UUID"
    | (type) "hd req = 0x08" "length req = 7 \<or> length req = 21"
    | (read) "hd req = 0x0a" "length req = 3" | (blob) "hd req = 0x0c" "length req = 5"
    | (group) "hd req = 0x10" "length req = 7 \<or> length req = 21"
    using assms(1) unfolding read_request_def Let_def by blast
  then show ?thesis
  proof cases
    case info
    obtain a b where "little_endian_read_16 req 1 = Some a" "little_endian_read_16 req 3 = Some b"
      using read_16_exists [of 1 req] read_16_exists [of 3 req] info by auto
    with fits_find_information [OF assms(3) lim, of a b] info show ?thesis
      by (auto simp: H handle_find_information_request_def)
  next
    case find
    obtain a b where ab: "little_endian_read_16 req 1 = Some a" "little_endian_read_16 req 3 = Some b"
      using read_16_exists [of 1 req] read_16_exists [of 3 req] find by auto
    have "unat (n - 7) = unat n - 7" using assms(2) find(2) by (subst unat_sub) (simp_all add: word_le_nat_alt)
    then have "unat (n - 7) \<le> length (drop 7 req)" using assms(2) by simp
    from fits_find_by_type_value [OF assms(3) lim this find(4)] ab find read_16_of_take [OF find(3)] show ?thesis
      by (auto simp: H handle_find_by_type_value_request_def)
  next
    case type
    obtain a b where ab: "little_endian_read_16 req 1 = Some a" "little_endian_read_16 req 3 = Some b"
      using read_16_exists [of 1 req] read_16_exists [of 3 req] type by auto
    have u: "length (drop 5 req) = 2 \<and> (if n \<le> 7 then 2 else 16) = (2::u16) \<or> length (drop 5 req) = 16 \<and> (if n \<le> 7 then 2 else 16) = (16::u16)"
      using type(2) assms(2) by (auto simp: word_le_nat_alt)
    from fits_read_by_type [OF assms(3) lim u, where r' = "[]"] ab type show ?thesis
      by (auto simp: H handle_read_by_type_request_def Let_def)
  next
    case read
    obtain a where "little_endian_read_16 req 1 = Some a" using read_16_exists [of 1 req] read by auto
    with fits_read [OF assms(3) lim] read show ?thesis by (auto simp: H handle_read_request_def)
  next
    case blob
    obtain a b where "little_endian_read_16 req 1 = Some a" "little_endian_read_16 req 3 = Some b"
      using read_16_exists [of 1 req] read_16_exists [of 3 req] blob by auto
    with fits_read_blob [OF assms(3) lim] blob show ?thesis by (auto simp: H handle_read_blob_request_def)
  next
    case group
    obtain a b where ab: "little_endian_read_16 req 1 = Some a" "little_endian_read_16 req 3 = Some b"
      using read_16_exists [of 1 req] read_16_exists [of 3 req] group by auto
    have u: "length (drop 5 req) = 2 \<and> (if n \<le> 7 then 2 else 16) = (2::u16) \<or> length (drop 5 req) = 16 \<and> (if n \<le> 7 then 2 else 16) = (16::u16)"
      using group(2) assms(2) by (auto simp: word_le_nat_alt)
    from fits_read_by_group_type [OF assms(3,4) lim u, where r' = "[]"] ab group show ?thesis
      by (auto simp: H handle_read_by_group_type_request_def Let_def)
  qed
qed

text \<open>C27: for a well-formed database, read callbacks that keep their contract, an MTU of at least 23 and a response
  buffer as long as the MTU, every well-formed find information, find by type value (for services), read by type, read,
  read blob and read by group type request is answered without leaving the request, the database or the response
  buffer; the answer is no longer than the MTU and neither the connection nor the server changes.\<close>

theorem att_read_requests_safe:
  assumes "serves s as" and "services_ok as" and "read_request req" and "unat n = length req"
    and "23 \<le> unat (mtu conn)" and "unat (mtu conn) \<le> length response"
  shows "\<exists>m response'. att_handle_request s conn req n response = Some (m, response', conn, s) \<and>
    m \<le> mtu conn \<and> length response' = length response"
  using fits_handler [OF assms(3,4,1,2,5,6)] by (auto simp: fits_def)

theorem att_read_requests_safe_witness:
  "\<exists>m response'. att_handle_request example_server example_conn [0x10, 1, 0, 0xff, 0xff, 0, 0x28] 7 (replicate 23 0)
    = Some (m, response', example_conn, example_server) \<and> m \<le> 23 \<and> length response' = 23"
  using att_read_requests_safe [OF example_serves example_services, of "[0x10, 1, 0, 0xff, 0xff, 0, 0x28]" 7 example_conn "replicate 23 0"]
  by (simp add: read_request_def example_server_sel)

end
