(* ===== verification/Att_Faults.thy ===== *)
theory Att_Faults
  imports Att_Writes Att_Groups
begin

text \<open>
  Requests the server answers wrongly: reads from an offset, an MTU below the minimum, reads of several attributes and
  ranges that end inside a service.
\<close>

section \<open>Reading from an offset\<close>

text \<open>A static, readable attribute the connection may read.\<close>

definition readable :: "att_connection \<Rightarrow> attribute \<Rightarrow> bool" where
  "readable conn a \<longleftrightarrow> a_flags a AND ATT_PROPERTY_READ \<noteq> 0 \<and> a_flags a AND ATT_PROPERTY_DYNAMIC = 0 \<and>
     att_validate_security conn ATT_READ (it_of a []) = 0"

lemma copy_static:
  assumes "a_flags a AND ATT_PROPERTY_DYNAMIC = 0" and "unat n \<le> length (a_value a)" and "n = m - offset"
    and "1 + unat n \<le> length response"
  shows "att_copy_value s ((it_of a r)\<lparr> it_value_len := m \<rparr>) offset response 1 n con
    = Some (n, put 1 (take (unat n) (a_value a)) response)"
proof -
  have "rd_range (a_value a @ r) 0 (unat n) = Some (take (unat n) (a_value a))" using assms(2) by (simp add: rd_range_Some)
  moreover have "wr_range response 1 (take (unat n) (a_value a)) = Some (put 1 (take (unat n) (a_value a)) response)"
    using assms(2,4) by (intro wr_range_put) simp
  ultimately show ?thesis using assms(1,3) by (simp add: att_copy_value_def Let_def)
qed

lemma answers_put:
  assumes "1 + length v \<le> length response" and "unat n = 1 + length v"
  shows "answers response (x # v) (do { response \<leftarrow> wr (put 1 v response) 0 x; Some (n, response) })"
proof -
  obtain y ys where r: "response = y # ys" using assms(1) by (cases response) auto
  have "wr (put 1 v response) 0 x = Some (x # v @ drop (length v) ys)" by (simp add: wr_def put_def r)
  then show ?thesis using assms by (simp add: answers_def r)
qed

text \<open>C34: a read blob request for a static attribute answers as many bytes as are behind the offset (up to the MTU), but
  takes them from the beginning of the value instead of from the offset.\<close>

theorem att_read_blob_ignores_offset:
  assumes "att_db s = Some (db_bytes as tail)" and "list_all attribute_ok as" and "find_attribute as h = Some (a, r)" and "h \<noteq> 0"
    and "readable conn a" and "unat offset \<le> length (a_value a)" and "23 \<le> unat (mtu conn)" and "unat (mtu conn) \<le> length response"
  shows "\<exists>m response'. att_handle_request s conn (0x0c # le16 h @ le16 offset) 5 response = Some (m, response', conn, s) \<and>
    take (unat m) response' = 0x0d # take (min (length (a_value a) - unat offset) (unat (mtu conn) - 1)) (a_value a)"
proof -
  have aok: "attribute_ok a" using assms(2,3) find_attribute_Some by (fastforce simp: list_all_iff)
  let ?it = "it_of a (db_bytes r tail)" and ?n = "of_nat (length (a_value a)) :: u16"
  have n: "unat ?n = length (a_value a)" using attribute_value_length [OF aok] by simp
  have l1: "unat (mtu conn - 1) = unat (mtu conn) - 1" using assms(7) by (subst unat_sub) (simp_all add: word_le_nat_alt)
  have c: "1 + uint ?n - uint offset > uint (mtu conn) \<longleftrightarrow> 1 + length (a_value a) - unat offset > unat (mtu conn)"
    unfolding uint_nat n using assms(6) by linarith
  let ?c = "1 + length (a_value a) - unat offset > unat (mtu conn)"
  let ?m = "if ?c then mtu conn - 1 + offset else ?n"
  let ?k = "?m - offset"
  have k: "unat ?k = min (length (a_value a) - unat offset) (unat (mtu conn) - 1)"
    using l1 n assms(6,7) by (auto simp: unat_sub word_le_nat_alt)
  have k1: "unat (1 + ?k) = 1 + unat ?k" using unat_plus_le [of 1 ?k "mtu conn"] k assms(7) by simp
  let ?v = "take (unat ?k) (a_value a)"
  have cp: "att_copy_value s (?it\<lparr> it_value_len := ?m \<rparr>) offset response 1 ?k (con_handle conn) = Some (?k, put 1 ?v response)"
    using assms(5,7,8) k by (intro copy_static) (auto simp: readable_def)
  have lv: "length ?v = unat ?k" using k by simp
  have upd: "att_update_value_len s ?it (con_handle conn) = Some ?it"
    using assms(5) by (simp add: att_update_value_len_def readable_def)
  have off: "\<not> offset > ?n" using assms(6) n by (simp add: word_less_nat_alt)
  have sec: "att_validate_security conn ATT_READ ?it = 0" using assms(5) by (simp add: readable_def security_it_of' [of _ _ _ "db_bytes r tail"])
  have same: "?it\<lparr> it_value_len := ?n \<rparr> = ?it" by (simp add: it_of_def)
  have eq: "handle_read_blob_request2 s conn response (mtu conn) h offset =
     do { response \<leftarrow> wr (put 1 ?v response) 0 0x0d; Some (1 + ?k, response) }"
    using assms(1,3,4,5) upd off sec c cp
    by (cases ?c) (simp_all add: same handle_read_blob_request2_def att_find_handle_db [OF assms(2)] readable_def Let_def)
  have "answers response (0x0d # ?v) (handle_read_blob_request2 s conn response (mtu conn) h offset)"
    unfolding eq
  proof (rule answers_put)
    show "1 + length ?v \<le> length response" using k assms(7,8) unfolding lv by linarith
    show "unat (1 + ?k) = 1 + length ?v" unfolding lv by (rule k1)
  qed
  from answers_handler [OF this [unfolded k], where conn = conn and s = s] show ?thesis
    by (auto simp: att_handle_request_def rd_def handle_read_blob_request_def le16_request)
qed

theorem att_read_blob_ignores_offset_witness:
  "\<exists>m response'. att_handle_request example_server (example_conn\<lparr> encryption_key_size := 16 \<rparr>) (0x0c # le16 4 @ le16 1) 5 (replicate 23 0)
      = Some (m, response', example_conn\<lparr> encryption_key_size := 16 \<rparr>, example_server) \<and>
    take (unat m) response' = [0x0d, 1, 2]"
proof -
  let ?a = "\<lparr> a_flags = 0xf602, a_handle = 4, a_uuid = [0x0f, 0x0e, 0x0d, 0x0c, 0x0b, 0x0a, 9, 8, 7, 6, 5, 4, 3, 2, 1, 0], a_value = [1, 2, 3] \<rparr>"
  have f: "find_attribute example_attributes 4 = Some (?a, [])" by (simp add: find_attribute_def example_attributes_def)
  have r: "readable (example_conn\<lparr> encryption_key_size := 16 \<rparr>) ?a" by code_simp
  show ?thesis
    using att_read_blob_ignores_offset [OF example_server_sel(1) example_ok f _ r, of 1 "replicate 23 0"]
    by (simp add: example_server_sel)
qed

section \<open>An MTU below the minimum\<close>

text \<open>C35: the server accepts any MTU a client asks for.  Once a client has asked for 0, each read of a static attribute
  it may read has its limit computed as 0 - 1, wraps around to 65535, and copies that many bytes from the database and into
  the response buffer, however long these are.\<close>

theorem att_mtu_zero_overflow:
  assumes "att_db s = Some (db_bytes as tail)" and "list_all attribute_ok as" and "find_attribute as h = Some (a, r)" and "h \<noteq> 0"
    and "readable (conn\<lparr> mtu := 0 \<rparr>) a" and "3 \<le> length response" and "length response < 65536"
  shows "\<exists>response'. att_handle_request s conn [0x02, 0, 0] 3 response = Some (3, response', conn\<lparr> mtu := 0 \<rparr>, s) \<and>
    take 3 response' = [0x03, 0, 0] \<and> att_handle_request s (conn\<lparr> mtu := 0 \<rparr>) (0x0a # le16 h) 3 response = None"
proof -
  let ?it = "it_of a (db_bytes r tail)"
  obtain x y z q where r: "response = x # y # z # q" using assms(6) by (auto simp: numeral_3_eq_3 Suc_le_length_iff)
  have exchange: "att_handle_request s conn [0x02, 0, 0] 3 response = Some (3, 0x03 # 0 # 0 # q, conn\<lparr> mtu := 0 \<rparr>, s)"
    by (cases "max_mtu conn = 0")
      (auto simp: att_handle_request_def rd_def handle_exchange_mtu_request_def little_endian_read_16_def little_endian_store_16_def
        wr_def r word_greater_zero_iff)
  have upd: "att_update_value_len s ?it (con_handle conn) = Some ?it"
    using assms(5) by (simp add: att_update_value_len_def readable_def)
  have sec: "att_validate_security (conn\<lparr> mtu := 0 \<rparr>) ATT_READ ?it = 0"
    using assms(5) by (simp add: readable_def security_it_of' [of _ _ _ "db_bytes r tail"])
  have c: "1 + uint w > uint (0 :: u16)" for w :: u16 by (simp add: add_pos_nonneg)
  have m1: "unat (- 1 :: u16) = 65535" by (simp add: unsigned_minus_1_eq_mask mask_eq_exp_minus_1)
  have "att_copy_value s (?it\<lparr> it_value_len := - 1 \<rparr>) 0 response 1 (- 1) (con_handle conn) = None"
  proof (cases "rd_range (a_value a @ db_bytes r tail) 0 65535")
    case (Some data)
    then have "length data = 65535" by (rule rd_range_length)
    then have "wr_range response 1 data = None" using assms(7) by (auto simp: wr_range_def)
    then show ?thesis using Some assms(5) by (simp add: att_copy_value_def readable_def Let_def m1)
  qed (use assms(5) in \<open>simp add: att_copy_value_def readable_def Let_def m1\<close>)
  then have "handle_read_request2 s (conn\<lparr> mtu := 0 \<rparr>) response 0 h = None"
    using assms(1,3,4,5) upd sec c
    by (simp add: handle_read_request2_def att_find_handle_db [OF assms(2)] readable_def Let_def)
  then have "att_handle_request s (conn\<lparr> mtu := 0 \<rparr>) (0x0a # le16 h) 3 response = None"
    by (simp add: att_handle_request_def rd_def handle_read_request_def le16_request)
  with exchange show ?thesis by simp
qed

theorem att_mtu_zero_overflow_witness:
  "att_handle_request example_server (example_conn\<lparr> mtu := 0 \<rparr>) (0x0a # le16 1) 3 (replicate 100 0) = None"
proof -
  let ?a = "\<lparr> a_flags = 0x02, a_handle = 1, a_uuid = [0x00, 0x28], a_value = [0x00, 0x18] \<rparr>"
  have f: "find_attribute example_attributes 1 = Some (?a, tl example_attributes)"
    by (simp add: find_attribute_def example_attributes_def)
  have r: "readable (example_conn\<lparr> mtu := 0 \<rparr>) ?a" by code_simp
  show ?thesis
    using att_mtu_zero_overflow [OF example_server_sel(1) example_ok f _ r, of "replicate 100 0"] by auto
qed

section \<open>Several attributes, and part of a service\<close>

text \<open>A read of several attributes limits each value by the size of the response instead of by what is left of it, so the
  answer outgrows the MTU; when the response buffer is as long as the MTU it is overrun.\<close>

definition long_values :: "attribute list" where
  "long_values = [\<lparr> a_flags = 0x02, a_handle = 1, a_uuid = [0, 0x2a], a_value = replicate 22 1 \<rparr>]"

lemma att_read_multiple_exceeds_mtu:
  "att_handle_request (example_server\<lparr> att_db := Some (db_bytes long_values []) \<rparr>) example_conn [0x0e, 1, 0, 1, 0] 5 (replicate 23 0) = None"
  "map_option fst (att_handle_request (example_server\<lparr> att_db := Some (db_bytes long_values []) \<rparr>) example_conn
     [0x0e, 1, 0, 1, 0] 5 (replicate 100 0)) = Some 45"
  by code_simp+

text \<open>When the end handle of a read by group type request lies inside a service, the service is begun but not ended: the
  answer is the two bytes of a header with no entry.\<close>

lemma att_read_by_group_type_cut_off:
  "map_option (\<lambda>(n, r, _). take (unat n) r) (att_handle_request example_server example_conn [0x10, 1, 0, 2, 0, 0x00, 0x28] 7 (replicate 23 0))
    = Some [0x11, 6]"
  by code_simp

text \<open>The client configuration of a characteristic is looked up by the characteristic's UUID, but that of an earlier
  characteristic is returned: the attribute is not required to follow the characteristic.\<close>

definition two_characteristics :: "attribute list" where
  "two_characteristics = [
     \<lparr> a_flags = 0x02, a_handle = 1, a_uuid = [0x03, 0x28], a_value = [0x10, 2, 0, 0x01, 0x2a] \<rparr>,
     \<lparr> a_flags = 0x10e, a_handle = 2, a_uuid = [0x01, 0x2a], a_value = [] \<rparr>,
     \<lparr> a_flags = 0x10e, a_handle = 3, a_uuid = [0x02, 0x29], a_value = [0, 0] \<rparr>,
     \<lparr> a_flags = 0x02, a_handle = 4, a_uuid = [0x03, 0x28], a_value = [0x10, 5, 0, 0x02, 0x2a] \<rparr>,
     \<lparr> a_flags = 0x10e, a_handle = 5, a_uuid = [0x02, 0x2a], a_value = [] \<rparr>,
     \<lparr> a_flags = 0x10e, a_handle = 6, a_uuid = [0x02, 0x29], a_value = [0, 0] \<rparr>]"

lemma gatt_client_configuration_of_other_characteristic:
  "gatt_server_get_client_configuration_handle_for_characteristic_with_uuid16 (Some (db_bytes two_characteristics [])) 1 6 0x2a02 = Some 3"
  by code_simp

end
