(* ===== verification/Att_Db_Util.thy ===== *)
theory Att_Db_Util
  imports Att_Writes Att_Groups
begin

text \<open>
  The construction of an attribute database at run time, \<open>ble/att_db_util.c\<close>, in the configuration with \<open>malloc\<close>;
  that the database built is the encoding of the attributes asked for, so that the server's theorems hold of it; and the
  growth of the storage, which may be too small.

  \<open>malloc\<close> and \<open>realloc\<close> are the parameter \<open>alloc\<close>: for a number of bytes, \<^const>\<open>None\<close> or a fresh block with whatever
  it contains.  \<open>realloc\<close> keeps the old contents as far as they fit.
\<close>

section \<open>Storage\<close>

type_synonym allocator = "nat \<Rightarrow> buffer option"

text \<open>\<open>util_registered\<close> says that the attribute server reads its database from this storage.\<close>

record att_db_util =
  util_db :: buffer
  util_size :: u16
  util_max_size :: u16
  util_next_handle :: u16
  util_registered :: bool

definition att_db_util_set_end_tag :: "att_db_util \<Rightarrow> att_db_util option" where
  "att_db_util_set_end_tag b = do {
     db \<leftarrow> wr (util_db b) (unat (util_size b)) 0;
     db \<leftarrow> wr db (unat (util_size b) + 1) 0;
     Some (b\<lparr> util_db := db \<rparr>) }"

definition att_db_util_init :: "allocator \<Rightarrow> att_db_util option" where
  "att_db_util_init alloc = do {
     db \<leftarrow> alloc 128;
     db \<leftarrow> wr db 0 ATT_DB_VERSION;
     att_db_util_set_end_tag \<lparr> util_db = db, util_size = 1, util_max_size = 128, util_next_handle = 1, util_registered = False \<rparr> }"

definition realloc :: "allocator \<Rightarrow> buffer \<Rightarrow> nat \<Rightarrow> buffer option" where
  "realloc alloc old n = map_option (\<lambda>fresh. take n old @ drop (length old) fresh) (alloc n)"

definition att_db_util_assert_space :: "allocator \<Rightarrow> att_db_util \<Rightarrow> u16 \<Rightarrow> (bool \<times> att_db_util) option" where
  "att_db_util_assert_space alloc b n =
     (let n = n + 2
      in if uint (util_size b) + uint n \<le> uint (util_max_size b) then Some (True, b)
         else let new_size = uint (util_size b) + uint (util_size b) div 2
              in case realloc alloc (util_db b) (nat new_size) of
                   None \<Rightarrow> Some (False, b)
                 | Some new_db \<Rightarrow> do {
                     version \<leftarrow> rd new_db 0;
                     Some (True, b\<lparr> util_db := new_db, util_max_size := word_of_int new_size,
                       util_registered := (util_registered b \<or> version = ATT_DB_VERSION) \<rparr>) })"

section \<open>Attributes\<close>

definition util_store_16 :: "att_db_util \<Rightarrow> u16 \<Rightarrow> att_db_util option" where
  "util_store_16 b v = do {
     db \<leftarrow> little_endian_store_16 (util_db b) (util_size b) v;
     Some (b\<lparr> util_db := db, util_size := util_size b + 2 \<rparr>) }"

definition util_copy :: "att_db_util \<Rightarrow> buffer \<Rightarrow> u16 \<Rightarrow> att_db_util option" where
  "util_copy b bytes n = do {
     bytes \<leftarrow> rd_range bytes 0 (unat n);
     db \<leftarrow> wr_range (util_db b) (unat (util_size b)) bytes;
     Some (b\<lparr> util_db := db, util_size := util_size b + n \<rparr>) }"

definition att_db_util_add_attribute_uuid16 ::
    "allocator \<Rightarrow> att_db_util \<Rightarrow> u16 \<Rightarrow> u16 \<Rightarrow> buffer \<Rightarrow> u16 \<Rightarrow> att_db_util option" where
  "att_db_util_add_attribute_uuid16 alloc b uuid16 flags bytes bytes_len = do {
     let n = 2 + 2 + 2 + 2 + uint bytes_len;
     (ok, b) \<leftarrow> att_db_util_assert_space alloc b (word_of_int n);
     if \<not> ok then Some b
     else do {
       b \<leftarrow> util_store_16 b (word_of_int n);
       b \<leftarrow> util_store_16 b flags;
       b \<leftarrow> util_store_16 b (util_next_handle b);
       let b = b\<lparr> util_next_handle := util_next_handle b + 1 \<rparr>;
       b \<leftarrow> util_store_16 b uuid16;
       b \<leftarrow> util_copy b bytes bytes_len;
       att_db_util_set_end_tag b } }"

definition att_db_util_add_attribute_uuid128 ::
    "allocator \<Rightarrow> att_db_util \<Rightarrow> buffer \<Rightarrow> u16 \<Rightarrow> buffer \<Rightarrow> u16 \<Rightarrow> att_db_util option" where
  "att_db_util_add_attribute_uuid128 alloc b uuid128 flags bytes bytes_len = do {
     let n = 2 + 2 + 2 + 16 + uint bytes_len;
     (ok, b) \<leftarrow> att_db_util_assert_space alloc b (word_of_int n);
     if \<not> ok then Some b
     else do {
       let flags = flags OR ATT_PROPERTY_UUID128;
       b \<leftarrow> util_store_16 b (word_of_int n);
       b \<leftarrow> util_store_16 b flags;
       b \<leftarrow> util_store_16 b (util_next_handle b);
       let b = b\<lparr> util_next_handle := util_next_handle b + 1 \<rparr>;
       uuid \<leftarrow> reverse_128 uuid128 (replicate 16 0);
       b \<leftarrow> util_copy b uuid 16;
       b \<leftarrow> util_copy b bytes bytes_len;
       att_db_util_set_end_tag b } }"

section \<open>Services, characteristics and descriptors\<close>

definition att_db_util_add_service_uuid16 :: "allocator \<Rightarrow> att_db_util \<Rightarrow> u16 \<Rightarrow> (u16 \<times> att_db_util) option" where
  "att_db_util_add_service_uuid16 alloc b uuid16 = do {
     buffer \<leftarrow> little_endian_store_16 [0, 0] 0 uuid16;
     let service_handle = util_next_handle b;
     b \<leftarrow> att_db_util_add_attribute_uuid16 alloc b GATT_PRIMARY_SERVICE_UUID ATT_PROPERTY_READ buffer 2;
     Some (service_handle, b) }"

definition att_db_util_add_service_uuid128 :: "allocator \<Rightarrow> att_db_util \<Rightarrow> buffer \<Rightarrow> (u16 \<times> att_db_util) option" where
  "att_db_util_add_service_uuid128 alloc b uuid128 = do {
     buffer \<leftarrow> reverse_128 uuid128 (replicate 16 0);
     let service_handle = util_next_handle b;
     b \<leftarrow> att_db_util_add_attribute_uuid16 alloc b GATT_PRIMARY_SERVICE_UUID ATT_PROPERTY_READ buffer 16;
     Some (service_handle, b) }"

definition att_db_util_add_client_characteristic_configuration ::
    "allocator \<Rightarrow> att_db_util \<Rightarrow> u16 \<Rightarrow> att_db_util option" where
  "att_db_util_add_client_characteristic_configuration alloc b flags = do {
     let flags = (flags AND 0xf311) OR ATT_PROPERTY_READ OR ATT_PROPERTY_WRITE OR ATT_PROPERTY_DYNAMIC;
     buffer \<leftarrow> little_endian_store_16 [0, 0] 0 0;
     att_db_util_add_attribute_uuid16 alloc b GATT_CLIENT_CHARACTERISTICS_CONFIGURATION flags buffer 2 }"

definition att_db_util_encode_permissions :: "u16 \<Rightarrow> u8 \<Rightarrow> u8 \<Rightarrow> u16" where
  "att_db_util_encode_permissions properties read_permission write_permission =
     (let flags = properties AND 0xffce;
          flags = (if read_permission > 0 \<or> write_permission > 0 then flags OR 0xf000 else flags);
          flags = (if read_permission AND 1 \<noteq> 0 then flags OR ATT_PROPERTY_READ_PERMISSION_BIT_0 else flags);
          flags = (if read_permission AND 2 \<noteq> 0 then flags OR ATT_PROPERTY_READ_PERMISSION_BIT_1 else flags);
          flags = (if write_permission AND 1 \<noteq> 0 then flags OR ATT_PROPERTY_WRITE_PERMISSION_BIT_0 else flags);
          flags = (if write_permission AND 2 \<noteq> 0 then flags OR ATT_PROPERTY_WRITE_PERMISSION_BIT_1 else flags)
      in flags)"

definition att_db_util_add_characteristic_uuid16 ::
    "allocator \<Rightarrow> att_db_util \<Rightarrow> u16 \<Rightarrow> u16 \<Rightarrow> u8 \<Rightarrow> u8 \<Rightarrow> buffer \<Rightarrow> u16 \<Rightarrow> (u16 \<times> att_db_util) option" where
  "att_db_util_add_characteristic_uuid16 alloc b uuid16 properties read_permission write_permission bytes bytes_len = do {
     buffer \<leftarrow> wr [0, 0, 0, 0, 0] 0 (to8 properties);
     buffer \<leftarrow> little_endian_store_16 buffer 1 (util_next_handle b + 1);
     buffer \<leftarrow> little_endian_store_16 buffer 3 uuid16;
     b \<leftarrow> att_db_util_add_attribute_uuid16 alloc b GATT_CHARACTERISTICS_UUID ATT_PROPERTY_READ buffer 5;
     let flags = att_db_util_encode_permissions properties read_permission write_permission;
     let value_handle = util_next_handle b;
     b \<leftarrow> att_db_util_add_attribute_uuid16 alloc b uuid16 flags bytes bytes_len;
     b \<leftarrow> (if properties AND (ATT_PROPERTY_NOTIFY OR ATT_PROPERTY_INDICATE) \<noteq> 0
          then att_db_util_add_client_characteristic_configuration alloc b flags else Some b);
     Some (value_handle, b) }"

definition att_db_util_add_characteristic_uuid128 ::
    "allocator \<Rightarrow> att_db_util \<Rightarrow> buffer \<Rightarrow> u16 \<Rightarrow> u8 \<Rightarrow> u8 \<Rightarrow> buffer \<Rightarrow> u16 \<Rightarrow> (u16 \<times> att_db_util) option" where
  "att_db_util_add_characteristic_uuid128 alloc b uuid128 properties read_permission write_permission bytes bytes_len = do {
     buffer \<leftarrow> wr (replicate 19 0) 0 (to8 properties);
     buffer \<leftarrow> little_endian_store_16 buffer 1 (util_next_handle b + 1);
     uuid \<leftarrow> reverse_128 uuid128 (drop 3 buffer);
     let buffer = take 3 buffer @ uuid;
     b \<leftarrow> att_db_util_add_attribute_uuid16 alloc b GATT_CHARACTERISTICS_UUID ATT_PROPERTY_READ buffer 19;
     let flags = att_db_util_encode_permissions properties read_permission write_permission;
     let value_handle = util_next_handle b;
     b \<leftarrow> att_db_util_add_attribute_uuid128 alloc b uuid128 flags bytes bytes_len;
     b \<leftarrow> (if properties AND (ATT_PROPERTY_NOTIFY OR ATT_PROPERTY_INDICATE) \<noteq> 0
          then att_db_util_add_client_characteristic_configuration alloc b flags else Some b);
     Some (value_handle, b) }"

definition att_db_util_add_descriptor_uuid16 ::
    "allocator \<Rightarrow> att_db_util \<Rightarrow> u16 \<Rightarrow> u16 \<Rightarrow> u8 \<Rightarrow> u8 \<Rightarrow> buffer \<Rightarrow> u16 \<Rightarrow> (u16 \<times> att_db_util) option" where
  "att_db_util_add_descriptor_uuid16 alloc b uuid16 properties read_permission write_permission bytes bytes_len = do {
     let descriptor_handler = util_next_handle b;
     let flags = att_db_util_encode_permissions properties read_permission write_permission;
     b \<leftarrow> att_db_util_add_attribute_uuid16 alloc b uuid16 flags bytes bytes_len;
     Some (descriptor_handler, b) }"

definition att_db_util_add_descriptor_uuid128 ::
    "allocator \<Rightarrow> att_db_util \<Rightarrow> buffer \<Rightarrow> u16 \<Rightarrow> u8 \<Rightarrow> u8 \<Rightarrow> buffer \<Rightarrow> u16 \<Rightarrow> (u16 \<times> att_db_util) option" where
  "att_db_util_add_descriptor_uuid128 alloc b uuid128 properties read_permission write_permission bytes bytes_len = do {
     let descriptor_handler = util_next_handle b;
     let flags = att_db_util_encode_permissions properties read_permission write_permission;
     b \<leftarrow> att_db_util_add_attribute_uuid128 alloc b uuid128 flags bytes bytes_len;
     Some (descriptor_handler, b) }"

text \<open>The database and its size.\<close>

definition att_db_util_get_address :: "att_db_util \<Rightarrow> buffer" where
  "att_db_util_get_address b = util_db b"

definition att_db_util_get_size :: "att_db_util \<Rightarrow> u16" where
  "att_db_util_get_size b = util_size b + 2"

section \<open>Adding an attribute\<close>

text \<open>An allocator that always finds memory.\<close>

definition enough_memory :: "allocator \<Rightarrow> bool" where
  "enough_memory alloc \<longleftrightarrow> (\<forall>n. \<exists>fresh. alloc n = Some fresh \<and> length fresh = n)"

definition handles_from :: "nat \<Rightarrow> attribute list \<Rightarrow> bool" where
  "handles_from n as \<longleftrightarrow> map a_handle as = map of_nat [n..<n + length as]"

text \<open>The builder holds the encoding of the attributes, whose handles count from 1.\<close>

definition db_image :: "attribute list \<Rightarrow> buffer" where
  "db_image as = ATT_DB_VERSION # concat (map att_bytes as)"

definition built :: "att_db_util \<Rightarrow> attribute list \<Rightarrow> bool" where
  "built b as \<longleftrightarrow> length (util_db b) = unat (util_max_size b) \<and> 128 \<le> unat (util_max_size b) \<and>
     unat (util_size b) + 2 \<le> unat (util_max_size b) \<and> unat (util_size b) = length (db_image as) \<and>
     take (length (db_image as) + 2) (util_db b) = db_image as @ le16 0 \<and>
     util_next_handle b = of_nat (1 + length as) \<and> handles_from 1 as"

lemma assert_space:
  assumes mem: "enough_memory alloc" and b: "built b as" and n: "unat n \<le> 40" and small: "unat (util_size b) \<le> 43000"
  obtains b' where "att_db_util_assert_space alloc b n = Some (True, b')" and "built b' as"
    and "util_size b' = util_size b" and "unat (util_size b) + unat n + 2 \<le> unat (util_max_size b')"
proof -
  have n2: "unat (n + 2) = unat n + 2" using unat_plus_no_wrap [of n 2] n by simp
  have cond: "uint (util_size b) + uint (n + 2) \<le> uint (util_max_size b) \<longleftrightarrow> unat (util_size b) + unat n + 2 \<le> unat (util_max_size b)"
    unfolding uint_nat n2 by linarith
  show ?thesis
  proof (cases "unat (util_size b) + unat n + 2 \<le> unat (util_max_size b)")
    case True
    with cond b show ?thesis by (intro that [of b]) (simp_all add: att_db_util_assert_space_def)
  next
    case False
    let ?k = "unat (util_size b) + unat (util_size b) div 2"
    have ik: "int ?k = uint (util_size b) + uint (util_size b) div 2" unfolding uint_nat by (simp add: zdiv_int)
    have k: "nat (uint (util_size b) + uint (util_size b) div 2) = ?k"
      unfolding uint_nat by (simp add: nat_add_distrib nat_div_distrib)
    obtain fresh where f: "alloc ?k = Some fresh" "length fresh = ?k" using mem by (auto simp: enough_memory_def)
    let ?db = "take ?k (util_db b) @ drop (length (util_db b)) fresh"
    have size: "unat (util_size b) + 2 \<le> length (util_db b)" "128 \<le> length (util_db b)" using b by (simp_all add: built_def)
    have big: "87 \<le> unat (util_size b)" using False n b by (simp add: built_def)
    have grow: "unat (util_size b) + unat n + 2 \<le> ?k" using big n by linarith
    have k128: "128 \<le> ?k" using big by linarith
    have len: "length ?db = ?k" using f(2) by simp
    have tk: "take (unat (util_size b) + 2) ?db = take (unat (util_size b) + 2) (util_db b)" using grow size by simp
    have tb: "take (unat (util_size b) + 2) (util_db b) = db_image as @ le16 0"
      using b by (simp add: built_def)
    have t1: "take 1 ?db = [ATT_DB_VERSION]"
    proof -
      have "take 1 xs = take 1 (take (m + 2) xs)" for m and xs :: buffer by simp
      then have "take 1 ?db = take 1 (take (unat (util_size b) + 2) ?db)" .
      also have "\<dots> = [ATT_DB_VERSION]" unfolding tk tb by (simp add: db_image_def)
      finally show ?thesis .
    qed
    then have "?db ! 0 = ATT_DB_VERSION" by (metis hd_conv_nth list.sel(1) take_eq_Nil zero_neq_one hd_take zero_less_one not_Cons_self2)
    then have v: "rd ?db 0 = Some ATT_DB_VERSION" using len grow by (simp add: rd_def)
    have max: "unat (word_of_int (uint (util_size b) + uint (util_size b) div 2) :: u16) = ?k"
    proof -
      have "word_of_int (uint (util_size b) + uint (util_size b) div 2) = (of_nat ?k :: u16)"
        unfolding ik [symmetric] by simp
      moreover have "unat (of_nat ?k :: u16) = ?k" using small by (intro unat_of_nat_u16) linarith
      ultimately show ?thesis by (simp only:)
    qed
    show ?thesis
    proof (rule that)
      show "att_db_util_assert_space alloc b n = Some (True, b\<lparr> util_db := ?db,
          util_max_size := word_of_int (uint (util_size b) + uint (util_size b) div 2), util_registered := True \<rparr>)"
        using False cond v f(1) k by (simp add: att_db_util_assert_space_def Let_def realloc_def)
    qed (use b max len tk tb grow k128 in \<open>simp_all add: built_def\<close>)
  qed
qed

definition written :: "att_db_util \<Rightarrow> buffer \<Rightarrow> att_db_util" where
  "written b xs = b\<lparr> util_db := put (unat (util_size b)) xs (util_db b), util_size := util_size b + of_nat (length xs) \<rparr>"

text \<open>There is room for \<open>n\<close> more bytes.\<close>

definition room :: "att_db_util \<Rightarrow> nat \<Rightarrow> bool" where
  "room b n \<longleftrightarrow> unat (util_size b) + n \<le> length (util_db b) \<and> length (util_db b) < 65536"

lemma unat_add_of_nat: "unat (w :: u16) + n < 65536 \<Longrightarrow> unat (w + of_nat n) = unat w + n"
  by (subst unat_plus_no_wrap) (simp_all add: unat_of_nat_u16)

lemma room_written: "room b (length xs + n) \<Longrightarrow> room (written b xs) n"
  by (auto simp: room_def written_def unat_add_of_nat)

lemma written_size: "room b (length xs) \<Longrightarrow> unat (util_size (written b xs)) = unat (util_size b) + length xs"
  by (simp add: room_def written_def unat_add_of_nat)

lemma written_written: "room b (length xs + length ys) \<Longrightarrow> written (written b xs) ys = written b (xs @ ys)"
  using put_put [of "unat (util_size b)" xs ys "util_db b"]
  by (auto simp: room_def written_def unat_add_of_nat add.assoc)

lemma written_handle: "written (b\<lparr> util_next_handle := h \<rparr>) xs = (written b xs)\<lparr> util_next_handle := h \<rparr>"
  by (simp add: written_def)

lemma room_handle [simp]: "room (b\<lparr> util_next_handle := h \<rparr>) n = room b n"
  by (simp add: room_def)

lemma written_next [simp]: "util_next_handle (written b xs) = util_next_handle b"
  by (simp add: written_def)

lemma store_written: "room b 2 \<Longrightarrow> util_store_16 b v = Some (written b (le16 v))"
  using store_put [of "util_size b" "util_db b" v] by (auto simp: room_def util_store_16_def written_def)

lemma copy_written: "room b (unat n) \<Longrightarrow> unat n \<le> length bytes \<Longrightarrow> util_copy b bytes n = Some (written b (take (unat n) bytes))"
  using wr_range_put [of "unat (util_size b)" "take (unat n) bytes" "util_db b"]
  by (auto simp: room_def util_copy_def written_def rd_range_Some)

lemma end_tag: "room b 2 \<Longrightarrow> att_db_util_set_end_tag b = Some (b\<lparr> util_db := put (unat (util_size b)) (le16 0) (util_db b) \<rparr>)"
proof -
  assume r: "room b 2"
  let ?p = "unat (util_size b)"
  have "wr (util_db b) ?p 0 = Some (put ?p [0] (util_db b))" "length (put ?p [0] (util_db b)) = length (util_db b)"
    using r by (auto simp: room_def wr_put)
  moreover from this have "wr (put ?p [0] (util_db b)) (?p + 1) 0 = Some (put (?p + 1) [0] (put ?p [0] (util_db b)))"
    using r by (intro wr_put) (simp add: room_def)
  moreover have "put (?p + 1) [0] (put ?p [0] (util_db b)) = put ?p (le16 0) (util_db b)"
    using put_put [of ?p "[0]" "[0]" "util_db b"] r by (simp add: room_def le16_def)
  ultimately show ?thesis by (simp add: att_db_util_set_end_tag_def)
qed

lemma built_written:
  assumes b: "built b as" and r: "room b (length (att_bytes a) + 2)" and max: "unat (util_size b) + length (att_bytes a) + 2 \<le> unat (util_max_size b)"
    and h: "a_handle a = util_next_handle b"
  defines "w \<equiv> written b (att_bytes a)"
  shows "built (w\<lparr> util_next_handle := util_next_handle b + 1, util_db := put (unat (util_size w)) (le16 0) (util_db w) \<rparr>) (as @ [a])"
proof -
  let ?e = "att_bytes a" and ?s = "unat (util_size b)"
  have l: "length (util_db b) = unat (util_max_size b)" using b by (simp add: built_def)
  have ws: "unat (util_size w) = ?s + length ?e" using written_size [of b ?e] r by (simp add: w_def room_def)
  have db: "put (unat (util_size w)) (le16 0) (util_db w) = put ?s (?e @ le16 0) (util_db b)"
    using put_put [of ?s ?e "le16 0" "util_db b"] ws l max by (simp add: w_def written_def)
  have sz: "?s = length (db_image as)" and "take (length (db_image as) + 2) (util_db b) = db_image as @ le16 0"
    using b by (simp_all add: built_def)
  then have front: "take ?s (util_db b) = db_image as"
    by (metis append_eq_conv_conj le_add1 min.absorb1 take_take)
  have img: "db_image (as @ [a]) = db_image as @ ?e" by (simp add: db_image_def)
  have "take (?s + (length ?e + 2)) (put ?s (?e @ le16 0) (util_db b)) = db_image as @ ?e @ le16 0"
    using take_put [of ?s "?e @ le16 0" "util_db b"] front l max by simp
  moreover have "handles_from 1 (as @ [a])" using b h by (simp add: handles_from_def built_def)
  moreover have "length (put ?s (?e @ le16 0) (util_db b)) = length (util_db b)" using l max by simp
  ultimately show ?thesis using b ws db max l sz
    by (simp add: built_def w_def written_def add.assoc img)
qed

lemma built_room: "built b as \<Longrightarrow> unat (util_size b) + n \<le> unat (util_max_size b) \<Longrightarrow> room b n"
  using unsigned_less [of "util_max_size b"] by (simp add: built_def room_def)

lemma add_attribute_uuid16:
  fixes flags uuid16 :: u16
  assumes mem: "enough_memory alloc" and b: "built b as" and small: "unat (util_size b) \<le> 43000"
    and n: "unat n \<le> 32" "unat n \<le> length bytes"
  defines "a \<equiv> \<lparr> a_flags = flags, a_handle = util_next_handle b, a_uuid = le16 uuid16, a_value = take (unat n) bytes \<rparr>"
  obtains b' where "att_db_util_add_attribute_uuid16 alloc b uuid16 flags bytes n = Some b'" and "built b' (as @ [a])"
proof -
  have ni: "word_of_int (2 + 2 + 2 + 2 + uint n) = (8 + n :: u16)" by simp
  have n8: "unat (8 + n) = 8 + unat n" using unat_plus_no_wrap [of 8 n] n by simp
  then have n40: "unat (8 + n) \<le> 40" using n by simp
  obtain c where c: "att_db_util_assert_space alloc b (8 + n) = Some (True, c)" "built c as" "util_size c = util_size b"
      "unat (util_size b) + unat (8 + n) + 2 \<le> unat (util_max_size c)"
    by (rule assert_space [OF mem b n40 small])
  have nx: "util_next_handle c = util_next_handle b" using b c(2) by (simp add: built_def)
  have le: "length (att_bytes a) = unat (8 + n)" using n n8 by (simp add: att_bytes_def a_def)
  have rm: "room c (length (att_bytes a) + 2)" using built_room [OF c(2)] c(3,4) le by simp
  have asz: "of_nat (attribute_size a) = 8 + n" using n by (simp add: attribute_size_def a_def)
  let ?w = "written c (att_bytes a)"
  have rms: "room c k" if "k \<le> unat (8 + n) + 2" for k using rm that le by (simp add: room_def)
  have r1: "room c 2" "room (written c (le16 (8 + n))) 2" "room (written c (le16 (8 + n) @ le16 flags)) 2"
      "room (written c (le16 (8 + n) @ le16 flags @ le16 (util_next_handle b))) 2"
      "room (written c (le16 (8 + n) @ le16 flags @ le16 (util_next_handle b) @ le16 uuid16)) (unat n)"
    by (intro room_written rms; simp add: n8)+
  have r5: "room ?w 2" by (intro room_written rms) (simp add: le n8)
  have ww: "written (written c xs) ys = written c (xs @ ys)" if "length xs + length ys \<le> unat (8 + n)" for xs ys
    using that by (intro written_written rms) simp
  have all: "le16 (8 + n) @ le16 flags @ le16 (util_next_handle b) @ le16 uuid16 @ take (unat n) bytes = att_bytes a"
    using asz by (simp add: att_bytes_def a_def)
  have l: "length (le16 v) = 2" for v by simp
  show ?thesis
  proof (rule that)
    show "att_db_util_add_attribute_uuid16 alloc b uuid16 flags bytes n
      = Some (?w\<lparr> util_next_handle := util_next_handle c + 1, util_db := put (unat (util_size ?w)) (le16 0) (util_db ?w) \<rparr>)"
      using r1 r5 n ww all [symmetric]
      by (simp add: att_db_util_add_attribute_uuid16_def ni c(1) store_written copy_written written_handle nx n8 end_tag Let_def)
    show "built (?w\<lparr> util_next_handle := util_next_handle c + 1, util_db := put (unat (util_size ?w)) (le16 0) (util_db ?w) \<rparr>) (as @ [a])"
      using c(3,4) le nx by (intro built_written [OF c(2) rm]) (simp_all add: a_def)
  qed
qed
lemma add_attribute_uuid128:
  fixes flags :: u16
  assumes mem: "enough_memory alloc" and b: "built b as" and small: "unat (util_size b) \<le> 43000"
    and n: "unat n \<le> 18" "unat n \<le> length bytes" and u: "length uuid128 = 16"
  defines "a \<equiv> \<lparr> a_flags = flags OR ATT_PROPERTY_UUID128, a_handle = util_next_handle b, a_uuid = rev uuid128, a_value = take (unat n) bytes \<rparr>"
  obtains b' where "att_db_util_add_attribute_uuid128 alloc b uuid128 flags bytes n = Some b'" and "built b' (as @ [a])"
proof -
  have ni: "word_of_int (2 + 2 + 2 + 16 + uint n) = (22 + n :: u16)" by simp
  have n8: "unat (22 + n) = 22 + unat n" using unat_plus_no_wrap [of 22 n] n by simp
  then have n40: "unat (22 + n) \<le> 40" using n by simp
  obtain c where c: "att_db_util_assert_space alloc b (22 + n) = Some (True, c)" "built c as" "util_size c = util_size b"
      "unat (util_size b) + unat (22 + n) + 2 \<le> unat (util_max_size c)"
    by (rule assert_space [OF mem b n40 small])
  have nx: "util_next_handle c = util_next_handle b" using b c(2) by (simp add: built_def)
  have le: "length (att_bytes a) = unat (22 + n)" using n n8 u by (simp add: att_bytes_def a_def)
  have rm: "room c (length (att_bytes a) + 2)" using built_room [OF c(2)] c(3,4) le by simp
  have asz: "of_nat (attribute_size a) = 22 + n" using n u by (simp add: attribute_size_def a_def)
  have rv: "reverse_128 uuid128 (replicate 16 0) = Some (rev uuid128)"
    using reverse_bytes_eq [of 16 uuid128 "replicate 16 0"] u by (simp add: reverse_128_def)
  let ?w = "written c (att_bytes a)"
  have rms: "room c k" if "k \<le> unat (22 + n) + 2" for k using rm that le by (simp add: room_def)
  have r1: "room c 2" "room (written c (le16 (22 + n))) 2" "room (written c (le16 (22 + n) @ le16 (flags OR 0x200))) 2"
      "room (written c (le16 (22 + n) @ le16 (flags OR 0x200) @ le16 (util_next_handle b))) 16"
      "room (written c (le16 (22 + n) @ le16 (flags OR 0x200) @ le16 (util_next_handle b) @ rev uuid128)) (unat n)"
    by (intro room_written rms; simp add: n8 u)+
  have r5: "room ?w 2" by (intro room_written rms) (simp add: le n8)
  have ww: "written (written c xs) ys = written c (xs @ ys)" if "length xs + length ys \<le> unat (22 + n)" for xs ys
    using that by (intro written_written rms) simp
  have all: "le16 (22 + n) @ le16 (flags OR 0x200) @ le16 (util_next_handle b) @ rev uuid128 @ take (unat n) bytes = att_bytes a"
    using asz by (simp add: att_bytes_def a_def)
  show ?thesis
  proof (rule that)
    show "att_db_util_add_attribute_uuid128 alloc b uuid128 flags bytes n
      = Some (?w\<lparr> util_next_handle := util_next_handle c + 1, util_db := put (unat (util_size ?w)) (le16 0) (util_db ?w) \<rparr>)"
      using r1 r5 n ww all [symmetric] u
      by (simp add: att_db_util_add_attribute_uuid128_def ni c(1) store_written copy_written written_handle nx n8 end_tag Let_def rv)
    show "built (?w\<lparr> util_next_handle := util_next_handle c + 1, util_db := put (unat (util_size ?w)) (le16 0) (util_db ?w) \<rparr>) (as @ [a])"
      using c(3,4) le nx by (intro built_written [OF c(2) rm]) (simp_all add: a_def)
  qed
qed

section \<open>Databases\<close>

text \<open>What an application may ask for, and the attributes that stands for, the next handle being \<open>h\<close>.\<close>

datatype gatt_item =
  Service16 u16
| Service128 buffer
| Characteristic16 u16 u16 u8 u8 buffer
| Characteristic128 buffer u16 u8 u8 buffer
| Descriptor16 u16 u16 u8 u8 buffer
| Descriptor128 buffer u16 u8 u8 buffer

definition add_item :: "allocator \<Rightarrow> att_db_util \<Rightarrow> gatt_item \<Rightarrow> (u16 \<times> att_db_util) option" where
  "add_item alloc b item = (case item of
     Service16 u \<Rightarrow> att_db_util_add_service_uuid16 alloc b u
   | Service128 u \<Rightarrow> att_db_util_add_service_uuid128 alloc b u
   | Characteristic16 u p r w bytes \<Rightarrow> att_db_util_add_characteristic_uuid16 alloc b u p r w bytes (of_nat (length bytes))
   | Characteristic128 u p r w bytes \<Rightarrow> att_db_util_add_characteristic_uuid128 alloc b u p r w bytes (of_nat (length bytes))
   | Descriptor16 u p r w bytes \<Rightarrow> att_db_util_add_descriptor_uuid16 alloc b u p r w bytes (of_nat (length bytes))
   | Descriptor128 u p r w bytes \<Rightarrow> att_db_util_add_descriptor_uuid128 alloc b u p r w bytes (of_nat (length bytes)))"

primrec add_items :: "allocator \<Rightarrow> att_db_util \<Rightarrow> gatt_item list \<Rightarrow> (u16 list \<times> att_db_util) option" where
  "add_items alloc b [] = Some ([], b)"
| "add_items alloc b (x # xs) = do {
     (h, b) \<leftarrow> add_item alloc b x;
     (hs, b) \<leftarrow> add_items alloc b xs;
     Some (h # hs, b) }"

definition configuration_of :: "u16 \<Rightarrow> u16 \<Rightarrow> attribute" where
  "configuration_of flags h = \<lparr> a_flags = (flags AND 0xf311) OR 0x10a, a_handle = h, a_uuid = le16 0x2902, a_value = le16 0 \<rparr>"

definition item_attributes :: "u16 \<Rightarrow> gatt_item \<Rightarrow> attribute list" where
  "item_attributes h item = (case item of
     Service16 u \<Rightarrow> [\<lparr> a_flags = 0x02, a_handle = h, a_uuid = le16 0x2800, a_value = le16 u \<rparr>]
   | Service128 u \<Rightarrow> [\<lparr> a_flags = 0x02, a_handle = h, a_uuid = le16 0x2800, a_value = rev u \<rparr>]
   | Characteristic16 u p r w bytes \<Rightarrow>
       [\<lparr> a_flags = 0x02, a_handle = h, a_uuid = le16 0x2803, a_value = to8 p # le16 (h + 1) @ le16 u \<rparr>,
        \<lparr> a_flags = att_db_util_encode_permissions p r w, a_handle = h + 1, a_uuid = le16 u, a_value = bytes \<rparr>] @
       (if p AND 0x30 \<noteq> 0 then [configuration_of (att_db_util_encode_permissions p r w) (h + 2)] else [])
   | Characteristic128 u p r w bytes \<Rightarrow>
       [\<lparr> a_flags = 0x02, a_handle = h, a_uuid = le16 0x2803, a_value = to8 p # le16 (h + 1) @ rev u \<rparr>,
        \<lparr> a_flags = att_db_util_encode_permissions p r w OR 0x200, a_handle = h + 1, a_uuid = rev u, a_value = bytes \<rparr>] @
       (if p AND 0x30 \<noteq> 0 then [configuration_of (att_db_util_encode_permissions p r w) (h + 2)] else [])
   | Descriptor16 u p r w bytes \<Rightarrow>
       [\<lparr> a_flags = att_db_util_encode_permissions p r w, a_handle = h, a_uuid = le16 u, a_value = bytes \<rparr>]
   | Descriptor128 u p r w bytes \<Rightarrow>
       [\<lparr> a_flags = att_db_util_encode_permissions p r w OR 0x200, a_handle = h, a_uuid = rev u, a_value = bytes \<rparr>])"

primrec items_attributes :: "u16 \<Rightarrow> gatt_item list \<Rightarrow> attribute list" where
  "items_attributes h [] = []"
| "items_attributes h (x # xs) = item_attributes h x @ items_attributes (h + of_nat (length (item_attributes h x))) xs"

text \<open>The handle reported for an item: the service's, the descriptor's, or the characteristic's value's.\<close>

definition item_handle :: "u16 \<Rightarrow> gatt_item \<Rightarrow> u16" where
  "item_handle h item = (case item of
     Characteristic16 u p r w bytes \<Rightarrow> h + 1 | Characteristic128 u p r w bytes \<Rightarrow> h + 1 | _ \<Rightarrow> h)"

primrec items_handles :: "u16 \<Rightarrow> gatt_item list \<Rightarrow> u16 list" where
  "items_handles h [] = []"
| "items_handles h (x # xs) = item_handle h x # items_handles (h + of_nat (length (item_attributes h x))) xs"

text \<open>UUIDs of 16 bytes, values short enough that the growing storage is always large enough, and the flag of a 128 bit
  UUID left to the code.\<close>

definition item_ok :: "gatt_item \<Rightarrow> bool" where
  "item_ok item \<longleftrightarrow> (case item of
     Service16 u \<Rightarrow> True
   | Service128 u \<Rightarrow> length u = 16
   | Characteristic16 u p r w bytes \<Rightarrow> p AND 0x200 = 0 \<and> length bytes \<le> 32
   | Characteristic128 u p r w bytes \<Rightarrow> p AND 0x200 = 0 \<and> length u = 16 \<and> length bytes \<le> 18
   | Descriptor16 u p r w bytes \<Rightarrow> p AND 0x200 = 0 \<and> length bytes \<le> 32
   | Descriptor128 u p r w bytes \<Rightarrow> p AND 0x200 = 0 \<and> length u = 16 \<and> length bytes \<le> 18)"

lemma encode_permissions_uuid128: "att_db_util_encode_permissions p r w AND 0x200 = p AND 0x200"
  by (simp add: att_db_util_encode_permissions_def Let_def bit.conj_disj_distrib2 and.assoc)

lemma built_next: "built b as \<Longrightarrow> util_next_handle b = of_nat (1 + length as)"
  by (simp add: built_def)

lemma built_size: "built b as \<Longrightarrow> unat (util_size b) = length (db_image as)"
  by (simp add: built_def)

lemma store_buffers:
  "little_endian_store_16 [0, 0] 0 v = Some (le16 v)"
  "little_endian_store_16 [x, 0, 0, 0, 0] 1 v = Some (x # le16 v @ [0, 0])"
  "little_endian_store_16 (x # le16 v @ [0, 0]) 3 w = Some (x # le16 v @ le16 w)"
  "little_endian_store_16 (x # 0 # 0 # q) 1 v = Some (x # le16 v @ q)"
  by (simp_all add: store_put put_def)

lemma db_image_append: "length (db_image (as @ bs)) = length (db_image as) + length (concat (map att_bytes bs))"
  by (simp add: db_image_def)

lemma add_attribute_16_value:
  assumes "enough_memory alloc" and "built b as" and "length (db_image as) \<le> 43000" and "length bytes \<le> 32"
    and "n = of_nat (length bytes)" and "h = util_next_handle b"
  obtains b' where "att_db_util_add_attribute_uuid16 alloc b uuid16 flags bytes n = Some b'"
    and "built b' (as @ [\<lparr> a_flags = flags, a_handle = h, a_uuid = le16 uuid16, a_value = bytes \<rparr>])"
proof -
  have "unat n = length bytes" using assms(4,5) by (simp add: unat_of_nat_u16)
  with add_attribute_uuid16 [OF assms(1,2), of n bytes uuid16 flags] built_size [OF assms(2)] assms(3,4,6) that
  show ?thesis by auto
qed

lemma add_attribute_128_value:
  assumes "enough_memory alloc" and "built b as" and "length (db_image as) \<le> 43000" and "length bytes \<le> 18"
    and "n = of_nat (length bytes)" and "h = util_next_handle b" and "length u = 16"
  obtains b' where "att_db_util_add_attribute_uuid128 alloc b u flags bytes n = Some b'"
    and "built b' (as @ [\<lparr> a_flags = flags OR 0x200, a_handle = h, a_uuid = rev u, a_value = bytes \<rparr>])"
proof -
  have "unat n = length bytes" using assms(4,5) by (simp add: unat_of_nat_u16)
  with add_attribute_uuid128 [OF assms(1,2), of n bytes u flags] built_size [OF assms(2)] assms(3,4,6,7) that
  show ?thesis by auto
qed

lemma add_configuration:
  assumes "enough_memory alloc" and "built b as" and "length (db_image as) \<le> 43000" and "h = util_next_handle b"
  obtains b' where "att_db_util_add_client_characteristic_configuration alloc b flags = Some b'"
    and "built b' (as @ [configuration_of flags h])"
proof -
  obtain b' where "att_db_util_add_attribute_uuid16 alloc b 0x2902 ((flags AND 0xf311) OR 0x02 OR 0x08 OR 0x100) (le16 0) 2 = Some b'"
    "built b' (as @ [\<lparr> a_flags = (flags AND 0xf311) OR 0x02 OR 0x08 OR 0x100, a_handle = h, a_uuid = le16 0x2902, a_value = le16 0 \<rparr>])"
    by (rule add_attribute_16_value [OF assms(1-3) _ _ assms(4), of "le16 0" 2]) simp_all
  then show ?thesis
    by (intro that) (simp_all add: att_db_util_add_client_characteristic_configuration_def store_buffers configuration_of_def or.assoc)
qed

lemma built_next_append: "built b' (as @ bs) \<Longrightarrow> built b as \<Longrightarrow> util_next_handle b' = util_next_handle b + of_nat (length bs)"
  by (simp add: built_next add.assoc)

lemma reverse_uuid: "length u = 16 \<Longrightarrow> length d = 16 \<Longrightarrow> reverse_128 u d = Some (rev u)"
  using reverse_bytes_eq [of 16 u d] by (simp add: reverse_128_def)

lemma add_item:
  assumes mem: "enough_memory alloc" and b: "built b as" and ok: "item_ok x" and h: "h = util_next_handle b"
    and small: "length (db_image (as @ item_attributes h x)) \<le> 43000"
  shows "\<exists>b'. add_item alloc b x = Some (item_handle h x, b') \<and> built b' (as @ item_attributes h x)"
proof -
  have s0: "length (db_image as) \<le> 43000" using small by (simp add: db_image_append)
  note add16 = add_attribute_16_value [OF mem b s0 _ _ h]
  show ?thesis
  proof (cases x)
    case (Service16 u)
    obtain b' where "att_db_util_add_attribute_uuid16 alloc b 0x2800 0x02 (le16 u) 2 = Some b'"
      "built b' (as @ [\<lparr> a_flags = 0x02, a_handle = h, a_uuid = le16 0x2800, a_value = le16 u \<rparr>])"
      by (rule add16 [of "le16 u" 2]) simp_all
    then show ?thesis
      by (simp add: Service16 add_item_def att_db_util_add_service_uuid16_def store_buffers item_handle_def item_attributes_def h Let_def)
  next
    case (Service128 u)
    then have l: "length u = 16" using ok by (simp add: item_ok_def)
    obtain b' where "att_db_util_add_attribute_uuid16 alloc b 0x2800 0x02 (rev u) 16 = Some b'"
      "built b' (as @ [\<lparr> a_flags = 0x02, a_handle = h, a_uuid = le16 0x2800, a_value = rev u \<rparr>])"
      by (rule add16 [of "rev u" 16]) (simp_all add: l)
    then show ?thesis
      by (simp add: Service128 add_item_def att_db_util_add_service_uuid128_def reverse_uuid l item_handle_def item_attributes_def h Let_def)
  next
    case (Descriptor16 u p r w bytes)
    then have l: "length bytes \<le> 32" using ok by (simp add: item_ok_def)
    obtain b' where "att_db_util_add_attribute_uuid16 alloc b u (att_db_util_encode_permissions p r w) bytes (of_nat (length bytes)) = Some b'"
      "built b' (as @ [\<lparr> a_flags = att_db_util_encode_permissions p r w, a_handle = h, a_uuid = le16 u, a_value = bytes \<rparr>])"
      by (rule add16 [OF l refl])
    then show ?thesis
      by (simp add: Descriptor16 add_item_def att_db_util_add_descriptor_uuid16_def item_handle_def item_attributes_def h Let_def)
  next
    case (Descriptor128 u p r w bytes)
    then have l: "length bytes \<le> 18" "length u = 16" using ok by (simp_all add: item_ok_def)
    obtain b' where "att_db_util_add_attribute_uuid128 alloc b u (att_db_util_encode_permissions p r w) bytes (of_nat (length bytes)) = Some b'"
      "built b' (as @ [\<lparr> a_flags = att_db_util_encode_permissions p r w OR 0x200, a_handle = h, a_uuid = rev u, a_value = bytes \<rparr>])"
      by (rule add_attribute_128_value [OF mem b s0 l(1) refl h l(2)])
    then show ?thesis
      by (simp add: Descriptor128 add_item_def att_db_util_add_descriptor_uuid128_def item_handle_def item_attributes_def h Let_def)
  next
    case (Characteristic16 u p r w bytes)
    then have l: "length bytes \<le> 32" using ok by (simp add: item_ok_def)
    let ?d = "\<lparr> a_flags = 0x02, a_handle = h, a_uuid = le16 0x2803, a_value = to8 p # le16 (h + 1) @ le16 u \<rparr>"
    let ?f = "att_db_util_encode_permissions p r w"
    let ?v = "\<lparr> a_flags = ?f, a_handle = h + 1, a_uuid = le16 u, a_value = bytes \<rparr>"
    have attrs: "item_attributes h x = [?d, ?v] @ (if p AND 0x30 \<noteq> 0 then [configuration_of ?f (h + 2)] else [])"
      by (simp add: Characteristic16 item_attributes_def)
    obtain b1 where b1: "att_db_util_add_attribute_uuid16 alloc b 0x2803 0x02 (to8 p # le16 (h + 1) @ le16 u) 5 = Some b1" "built b1 (as @ [?d])"
      by (rule add16 [of "to8 p # le16 (h + 1) @ le16 u" 5]) simp_all
    have h1: "h + 1 = util_next_handle b1" using built_next_append [OF b1(2) b] h by simp
    have s1: "length (db_image (as @ [?d])) \<le> 43000" using small by (simp add: attrs db_image_append)
    obtain b2 where b2: "att_db_util_add_attribute_uuid16 alloc b1 u ?f bytes (of_nat (length bytes)) = Some b2" "built b2 ((as @ [?d]) @ [?v])"
      by (rule add_attribute_16_value [OF mem b1(2) s1 l refl h1])
    have h2: "h + 2 = util_next_handle b2" using built_next_append [OF b2(2) b1(2)] h1 [symmetric] by simp
    have s2: "length (db_image ((as @ [?d]) @ [?v])) \<le> 43000" using small by (simp add: attrs db_image_append)
    obtain b3 where b3: "att_db_util_add_client_characteristic_configuration alloc b2 ?f = Some b3"
      "built b3 (((as @ [?d]) @ [?v]) @ [configuration_of ?f (h + 2)])"
      by (rule add_configuration [OF mem b2(2) s2 h2])
    have w0: "wr [0, 0, 0, 0, 0] 0 y = Some [y, 0, 0, 0, 0]" for y :: u8 by (simp add: wr_def)
    show ?thesis unfolding attrs using b1(1) b2 b3
      by (cases "p AND 0x30 = 0")
        (simp_all add: Characteristic16 add_item_def att_db_util_add_characteristic_uuid16_def item_handle_def w0 store_buffers
          h [symmetric] h1 [symmetric] Let_def)
  next
    case (Characteristic128 u p r w bytes)
    then have l: "length bytes \<le> 18" "length u = 16" using ok by (simp_all add: item_ok_def)
    let ?d = "\<lparr> a_flags = 0x02, a_handle = h, a_uuid = le16 0x2803, a_value = to8 p # le16 (h + 1) @ rev u \<rparr>"
    let ?f = "att_db_util_encode_permissions p r w"
    let ?v = "\<lparr> a_flags = ?f OR 0x200, a_handle = h + 1, a_uuid = rev u, a_value = bytes \<rparr>"
    have attrs: "item_attributes h x = [?d, ?v] @ (if p AND 0x30 \<noteq> 0 then [configuration_of ?f (h + 2)] else [])"
      by (simp add: Characteristic128 item_attributes_def)
    obtain b1 where b1: "att_db_util_add_attribute_uuid16 alloc b 0x2803 0x02 (to8 p # le16 (h + 1) @ rev u) 19 = Some b1" "built b1 (as @ [?d])"
      by (rule add16 [of "to8 p # le16 (h + 1) @ rev u" 19]) (simp_all add: l)
    have h1: "h + 1 = util_next_handle b1" using built_next_append [OF b1(2) b] h by simp
    have s1: "length (db_image (as @ [?d])) \<le> 43000" using small by (simp add: attrs db_image_append)
    obtain b2 where b2: "att_db_util_add_attribute_uuid128 alloc b1 u ?f bytes (of_nat (length bytes)) = Some b2" "built b2 ((as @ [?d]) @ [?v])"
      by (rule add_attribute_128_value [OF mem b1(2) s1 l(1) refl h1 l(2)])
    have h2: "h + 2 = util_next_handle b2" using built_next_append [OF b2(2) b1(2)] h1 [symmetric] by simp
    have s2: "length (db_image ((as @ [?d]) @ [?v])) \<le> 43000" using small by (simp add: attrs db_image_append)
    obtain b3 where b3: "att_db_util_add_client_characteristic_configuration alloc b2 ?f = Some b3"
      "built b3 (((as @ [?d]) @ [?v]) @ [configuration_of ?f (h + 2)])"
      by (rule add_configuration [OF mem b2(2) s2 h2])
    have w0: "wr (replicate 19 0) 0 y = Some (y # 0 # 0 # replicate 16 0)" for y :: u8 by (simp add: wr_def numeral_eq_Suc)
    have rv: "reverse_128 u (replicate 16 0) = Some (rev u)" by (rule reverse_uuid) (simp_all add: l(2))
    show ?thesis unfolding attrs using b1(1) b2 b3
      by (cases "p AND 0x30 = 0")
        (simp_all add: Characteristic128 add_item_def att_db_util_add_characteristic_uuid128_def item_handle_def w0 store_buffers
          rv h [symmetric] h1 [symmetric] Let_def)
  qed
qed
lemma add_items_built:
  assumes "enough_memory alloc" and "built b as" and "list_all item_ok xs" and "h = util_next_handle b"
    and "length (db_image (as @ items_attributes h xs)) \<le> 43000"
  shows "\<exists>b'. add_items alloc b xs = Some (items_handles h xs, b') \<and> built b' (as @ items_attributes h xs)"
  using assms(2-)
proof (induction xs arbitrary: b as h)
  case (Cons x xs)
  have "length (db_image (as @ item_attributes h x)) \<le> 43000" using Cons.prems(4) by (simp add: db_image_append)
  with Cons.prems obtain b1 where b1: "add_item alloc b x = Some (item_handle h x, b1)" "built b1 (as @ item_attributes h x)"
    using add_item [OF assms(1), of b as x h] by auto
  have h1: "h + of_nat (length (item_attributes h x)) = util_next_handle b1"
    using built_next_append [OF b1(2)] Cons.prems(1,3) by simp
  have "\<exists>b'. add_items alloc b1 xs = Some (items_handles (h + of_nat (length (item_attributes h x))) xs, b') \<and>
      built b' ((as @ item_attributes h x) @ items_attributes (h + of_nat (length (item_attributes h x))) xs)"
    using Cons.prems by (intro Cons.IH [OF b1(2) _ h1]) simp_all
  with b1(1) show ?case by auto
qed simp

lemma init_built:
  assumes "enough_memory alloc"
  obtains b where "att_db_util_init alloc = Some b" and "built b []" and "util_next_handle b = 1"
proof -
  obtain fresh where f: "alloc 128 = Some fresh" "length fresh = 128" using assms by (auto simp: enough_memory_def)
  obtain x y z q where fq: "fresh = x # y # z # q" using f(2) by (auto simp: numeral_eq_Suc length_Suc_conv)
  have q: "length q = 125" using f(2) fq by simp
  have "att_db_util_init alloc = Some \<lparr> util_db = ATT_DB_VERSION # 0 # 0 # q, util_size = 1, util_max_size = 128,
      util_next_handle = 1, util_registered = False \<rparr>"
    by (simp add: att_db_util_init_def f(1) fq wr_def att_db_util_set_end_tag_def)
  then show ?thesis
    by (rule that) (simp_all add: built_def q db_image_def le16_def handles_from_def numeral_3_eq_3)
qed

lemma has_uuid128_flags: "has_uuid128 \<lparr> a_flags = f, a_handle = h, a_uuid = u, a_value = v \<rparr> \<longleftrightarrow> f AND 0x200 \<noteq> 0"
  by (simp add: has_uuid128_def)

lemma configuration_flags: "((f AND 0xf311) OR 0x10a) AND 0x200 = (f AND 0x200 :: u16)"
  by (simp add: bit.conj_disj_distrib2 and.assoc)

lemma or_uuid128: "(f OR 0x200) AND 0x200 \<noteq> (0 :: u16)"
  by (simp add: bit.conj_disj_distrib2) 

lemma item_attributes_shape:
  "item_ok x \<Longrightarrow> a \<in> set (item_attributes h x) \<Longrightarrow>
     length (a_uuid a) = (if has_uuid128 a then 16 else 2) \<and> attribute_size a < 65536"
  by (cases x) (auto simp: item_ok_def item_attributes_def attribute_size_def has_uuid128_flags configuration_of_def
      configuration_flags encode_permissions_uuid128 or_uuid128 split: if_splits)

lemma items_attributes_shape:
  "list_all item_ok xs \<Longrightarrow> a \<in> set (items_attributes h xs) \<Longrightarrow>
     length (a_uuid a) = (if has_uuid128 a then 16 else 2) \<and> attribute_size a < 65536"
  by (induction xs arbitrary: h) (auto dest: item_attributes_shape)

lemma db_image_count: "length as \<le> length (db_image as)"
proof -
  have "length as \<le> length (concat (map att_bytes as))" by (induction as) (simp_all add: att_bytes_def)
  then show ?thesis by (simp add: db_image_def)
qed


lemma nonzero_handles:
  assumes "handles_from 1 as" and "length as < 65535" and "a \<in> set as"
  shows "a_handle a \<noteq> 0"
proof -
  have "a_handle a \<in> set (map of_nat [1..<1 + length as])" using assms(1,3) unfolding handles_from_def by (metis imageI set_map)
  then obtain k where "a_handle a = of_nat k" "k \<in> set [1..<1 + length as]" by (auto simp del: set_upt)
  then have k: "a_handle a = of_nat k" "0 < k" "k \<le> length as" by auto
  then have "unat (a_handle a) = k" using assms(2) by (simp add: unat_of_nat_u16)
  then show ?thesis using k(2) by auto
qed

text \<open>C32: a database built at run time by adding services, characteristics and descriptors (with values of up to 32 or,
  under a 128 bit UUID, 18 bytes, with properties that leave the flag for 128 bit UUIDs to the builder, at most 43000 bytes in all, and enough memory) is the encoding of exactly the attributes these stand for, with
  well-formed sizes, UUIDs and flags and handles counting from 1; the handles reported are those of the services, the
  characteristic values and the descriptors; and the attribute server accepts it as its database.\<close>

theorem att_db_util_serves:
  assumes "enough_memory alloc" and "list_all item_ok xs" and "length (db_image (items_attributes 1 xs)) \<le> 43000"
  shows "\<exists>b0 b tail. att_db_util_init alloc = Some b0 \<and> add_items alloc b0 xs = Some (items_handles 1 xs, b) \<and>
    att_set_db s (Some (att_db_util_get_address b)) = Some (s\<lparr> att_db := Some (db_bytes (items_attributes 1 xs) tail) \<rparr>) \<and>
    unat (att_db_util_get_size b) = length (db_image (items_attributes 1 xs)) + 2 \<and>
    list_all attribute_ok (items_attributes 1 xs) \<and>
    map a_handle (items_attributes 1 xs) = map of_nat [1..<1 + length (items_attributes 1 xs)]"
proof -
  let ?as = "items_attributes 1 xs"
  obtain b0 where b0: "att_db_util_init alloc = Some b0" "built b0 []" "util_next_handle b0 = 1" by (rule init_built [OF assms(1)])
  obtain b where b: "add_items alloc b0 xs = Some (items_handles 1 xs, b)" "built b ?as"
    using add_items_built [OF assms(1) b0(2) assms(2), of 1] b0(3) assms(3) by auto
  have front: "take (length (db_image ?as) + 2) (util_db b) = db_image ?as @ le16 0" using b(2) by (simp add: built_def)
  define tail where "tail = drop (length (db_image ?as) + 2) (util_db b)"
  have db: "util_db b = ATT_DB_VERSION # db_bytes ?as tail"
  proof -
    have "util_db b = (db_image ?as @ le16 0) @ tail" by (simp only: front [symmetric] tail_def append_take_drop_id)
    then show ?thesis by (simp add: db_image_def db_bytes_def)
  qed
  have set: "att_set_db s (Some (att_db_util_get_address b)) = Some (s\<lparr> att_db := Some (db_bytes ?as tail) \<rparr>)"
    unfolding att_db_util_get_address_def db by (simp add: att_set_db_def rd_def)
  have size: "unat (att_db_util_get_size b) = length (db_image ?as) + 2"
    using built_size [OF b(2)] assms(3) unat_plus_no_wrap [of "util_size b" 2] by (simp add: att_db_util_get_size_def)
  have handles: "handles_from 1 ?as" using b(2) by (simp add: built_def)
  have "length ?as < 65535" using db_image_count [of ?as] assms(3) by linarith
  then have "list_all attribute_ok ?as"
    using items_attributes_shape [OF assms(2)] nonzero_handles [OF handles] by (auto simp: list_all_iff attribute_ok_def)
  with b0(1) b(1) set size handles show ?thesis by (auto simp: handles_from_def)
qed

definition example_items :: "gatt_item list" where
  "example_items = [Service16 0x1800, Characteristic16 0x2a00 0x12 0 0 [1, 2, 3], Descriptor16 0x2901 0x02 0 0 [4]]"

theorem att_db_util_serves_witness:
  "\<exists>b0 b. att_db_util_init (\<lambda>n. Some (replicate n 0)) = Some b0 \<and> add_items (\<lambda>n. Some (replicate n 0)) b0 example_items = Some ([1, 3, 5], b) \<and>
    unat (att_db_util_get_size b) = 56"
proof -
  have "list_all item_ok example_items" "items_handles 1 example_items = [1, 3, 5]" "length (db_image (items_attributes 1 example_items)) = 54"
    by code_simp+
  then show ?thesis
    using att_db_util_serves [of "\<lambda>n. Some (replicate n 0)" example_items example_server] by (auto simp: enough_memory_def)
qed

section \<open>Growing too little\<close>

lemma store_within:
  assumes "util_store_16 c v = Some c'" and "unat (util_size c) + 2 < 65536"
  shows "unat (util_size c') = unat (util_size c) + 2 \<and> length (util_db c') = length (util_db c) \<and>
    unat (util_size c') \<le> length (util_db c')"
proof -
  have "unat (util_size c + 1) = unat (util_size c) + 1" using unat_plus_no_wrap [of "util_size c" 1] assms(2) by simp
  moreover have "unat (util_size c + 2) = unat (util_size c) + 2" using unat_plus_no_wrap [of "util_size c" 2] assms(2) by simp
  ultimately show ?thesis using assms(1)
    by (auto simp: util_store_16_def little_endian_store_16_def bind_eq_Some_conv wr_eq_Some_iff)
qed

lemma copy_within:
  assumes "util_copy c bytes n = Some c'" and "unat (util_size c) \<le> length (util_db c)"
  shows "unat (util_size c) + unat n \<le> length (util_db c)"
proof -
  obtain xs db where xs: "rd_range bytes 0 (unat n) = Some xs" "wr_range (util_db c) (unat (util_size c)) xs = Some db"
    using assms(1) by (auto simp: util_copy_def bind_eq_Some_conv)
  have "length xs = unat n" using rd_range_length [OF xs(1)] .
  with xs(2) assms(2) show ?thesis by (auto simp: wr_range_def split: if_splits)
qed

lemma next_handle_sel [simp]: "util_db (c\<lparr> util_next_handle := h \<rparr>) = util_db c" "util_size (c\<lparr> util_next_handle := h \<rparr>) = util_size c"
  by simp_all

text \<open>C36: when the storage is full it grows by half of what is in use, whatever is needed: if the attribute to add is longer
  than that, it is written behind the end of the reallocated block.  The first attribute, when it does not fit, is a case
  in point: the block is then reallocated to one byte.\<close>

theorem att_db_util_overflow:
  assumes mem: "enough_memory alloc" and small: "unat (util_size b) \<le> 43000"
    and full: "unat (util_max_size b) < unat (util_size b) + 10 + unat n"
    and long: "unat (util_size b) div 2 < 8 + unat n" and n: "unat n < 20000"
  shows "att_db_util_add_attribute_uuid16 alloc b uuid16 flags bytes n = None"
proof (rule ccontr)
  assume "\<not> ?thesis"
  then obtain b' where b': "att_db_util_add_attribute_uuid16 alloc b uuid16 flags bytes n = Some b'" by auto
  let ?k = "unat (util_size b) + unat (util_size b) div 2"
  have ni: "word_of_int (2 + 2 + 2 + 2 + uint n) = (8 + n :: u16)" by simp
  have n10: "unat (8 + n + 2) = 10 + unat n" using unat_plus_no_wrap [of 10 n] n by (simp add: add.assoc [of 8 n 2] add.commute [of n] flip: add.assoc)
  have cond: "\<not> uint (util_size b) + uint (8 + n + 2) \<le> uint (util_max_size b)"
    unfolding uint_nat n10 using full by linarith
  have k: "nat (uint (util_size b) + uint (util_size b) div 2) = ?k"
    unfolding uint_nat by (simp add: nat_add_distrib nat_div_distrib)
  obtain fresh where f: "alloc ?k = Some fresh" "length fresh = ?k" using mem by (auto simp: enough_memory_def)
  have "\<exists>c. att_db_util_assert_space alloc b (8 + n) = Some (True, c) \<and> length (util_db c) = ?k \<and> util_size c = util_size b"
    if "att_db_util_assert_space alloc b (8 + n) \<noteq> None"
    using that cond f k by (auto simp: att_db_util_assert_space_def Let_def realloc_def bind_eq_Some_conv)
  with b' obtain c where c: "att_db_util_assert_space alloc b (8 + n) = Some (True, c)" "length (util_db c) = ?k"
      "util_size c = util_size b"
    by (auto simp: att_db_util_add_attribute_uuid16_def ni bind_eq_Some_conv Let_def)
  from b' obtain c1 c2 c3 c4 c5 where s: "util_store_16 c (8 + n) = Some c1" "util_store_16 c1 flags = Some c2"
      "util_store_16 c2 (util_next_handle c2) = Some c3"
      "util_store_16 (c3\<lparr> util_next_handle := util_next_handle c3 + 1 \<rparr>) uuid16 = Some c4" "util_copy c4 bytes n = Some c5"
    by (auto simp: att_db_util_add_attribute_uuid16_def ni c(1) bind_eq_Some_conv Let_def)
  have w1: "unat (util_size c1) = unat (util_size b) + 2" "length (util_db c1) = ?k"
    using store_within [OF s(1)] c small by auto
  have w2: "unat (util_size c2) = unat (util_size b) + 4" "length (util_db c2) = ?k"
    using store_within [OF s(2)] w1 small by auto
  have w3: "unat (util_size c3) = unat (util_size b) + 6" "length (util_db c3) = ?k"
    using store_within [OF s(3)] w2 small by auto
  have w4: "unat (util_size c4) = unat (util_size b) + 8" "length (util_db c4) = ?k" "unat (util_size c4) \<le> length (util_db c4)"
    using store_within [OF s(4)] w3 small by auto
  from copy_within [OF s(5) w4(3)] w4 long show False by simp
qed

theorem att_db_util_overflow_witness:
  "\<exists>b. att_db_util_init (\<lambda>n. Some (replicate n 0)) = Some b \<and>
    att_db_util_add_attribute_uuid16 (\<lambda>n. Some (replicate n 0)) b 0x2a00 0x02 (replicate 120 7) 120 = None"
proof -
  have mem: "enough_memory (\<lambda>n. Some (replicate n 0))" by (simp add: enough_memory_def)
  let ?b = "\<lparr> util_db = ATT_DB_VERSION # replicate 127 0, util_size = 1, util_max_size = 128, util_next_handle = 1, util_registered = False \<rparr>"
  have "att_db_util_init (\<lambda>n. Some (replicate n 0)) = Some ?b"
    by (simp add: att_db_util_init_def wr_def att_db_util_set_end_tag_def numeral_eq_Suc)
  moreover have "att_db_util_add_attribute_uuid16 (\<lambda>n. Some (replicate n 0)) ?b 0x2a00 0x02 (replicate 120 7) 120 = None"
    by (rule att_db_util_overflow [OF mem]) simp_all
  ultimately show ?thesis by blast
qed

end
