(* ===== verification/Sdp_Util.thy ===== *)
theory Sdp_Util
  imports BT_Util
begin

text \<open>
  Model of \<open>classic/sdp_util.c\<close>: data elements of the service discovery protocol, building and reading them, the
  traversals of sequences and attribute lists with their callbacks, and the searches the SDP server is made of.

  A pointer to an element is the list of the bytes from it to the end of its object; \<open>element + pos\<close> is the sublist
  from \<open>pos\<close>.  The routines that build elements work at an offset of their buffer.  A callback answers its result and
  its changed context; that of an attribute list also the attribute value, which it may overwrite.  Sums of \<open>int\<close> that
  overflow are \<^const>\<open>None\<close>.
\<close>

section \<open>Element headers\<close>

abbreviation (input) DE_NIL :: u8 where "DE_NIL \<equiv> 0"
abbreviation (input) DE_UINT :: u8 where "DE_UINT \<equiv> 1"
abbreviation (input) DE_UUID :: u8 where "DE_UUID \<equiv> 3"
abbreviation (input) DE_STRING :: u8 where "DE_STRING \<equiv> 4"
abbreviation (input) DE_DES :: u8 where "DE_DES \<equiv> 6"

abbreviation (input) DE_SIZE_8 :: u8 where "DE_SIZE_8 \<equiv> 0"
abbreviation (input) DE_SIZE_16 :: u8 where "DE_SIZE_16 \<equiv> 1"
abbreviation (input) DE_SIZE_32 :: u8 where "DE_SIZE_32 \<equiv> 2"
abbreviation (input) DE_SIZE_128 :: u8 where "DE_SIZE_128 \<equiv> 4"
abbreviation (input) DE_SIZE_VAR_8 :: u8 where "DE_SIZE_VAR_8 \<equiv> 5"
abbreviation (input) DE_SIZE_VAR_16 :: u8 where "DE_SIZE_VAR_16 \<equiv> 6"
abbreviation (input) DE_SIZE_VAR_32 :: u8 where "DE_SIZE_VAR_32 \<equiv> 7"

definition de_get_size_type :: "buffer \<Rightarrow> u8 option" where
  "de_get_size_type header = do { b \<leftarrow> rd header 0; Some (b AND 7) }"

definition de_get_element_type :: "buffer \<Rightarrow> u8 option" where
  "de_get_element_type header = do { b \<leftarrow> rd header 0; Some (drop_bit 3 b) }"

definition de_get_header_size :: "buffer \<Rightarrow> u32 option" where
  "de_get_header_size header = do {
     de_size \<leftarrow> de_get_size_type header;
     if de_size \<le> DE_SIZE_128 then Some 1
     else Some (1 + push_bit (unat (de_size - DE_SIZE_VAR_8)) 1) }"

definition de_get_data_size :: "buffer \<Rightarrow> u32 option" where
  "de_get_data_size header = do {
     de_type \<leftarrow> de_get_element_type header;
     de_size \<leftarrow> de_get_size_type header;
     if de_size = DE_SIZE_VAR_8 then map_option to32 (rd header 1)
     else if de_size = DE_SIZE_VAR_16 then big_endian_read_16 header 1
     else if de_size = DE_SIZE_VAR_32 then big_endian_read_32 header 1
     else if de_type = DE_NIL then Some 0
     else Some (push_bit (unat de_size) 1) }"

definition de_get_len :: "buffer \<Rightarrow> int option" where
  "de_get_len header = do {
     header_size \<leftarrow> de_get_header_size header;
     data_size \<leftarrow> de_get_data_size header;
     Some (sint (header_size + data_size)) }"

definition de_get_len_safe :: "buffer \<Rightarrow> u32 \<Rightarrow> u32 option" where
  "de_get_len_safe header sz =
     (if 1 > sz then Some 0
      else do {
        header_size \<leftarrow> de_get_header_size header;
        if header_size > sz then Some 0
        else do {
          data_size \<leftarrow> de_get_data_size header;
          if data_size > sz then Some 0
          else let de_len = header_size + data_size
            in if de_len > sz then Some 0 else Some de_len } })"

definition de_element_get_uint16 :: "buffer \<Rightarrow> (int \<times> u16 option) option" where
  "de_element_get_uint16 element = do {
     size_type \<leftarrow> de_get_size_type element;
     if size_type \<noteq> DE_SIZE_16 then Some (0, None)
     else do {
       header_size \<leftarrow> de_get_header_size element;
       v \<leftarrow> big_endian_read_16 element (unat header_size);
       Some (1, Some (to16 v)) } }"

definition de_get_normalized_uuid :: "buffer \<Rightarrow> buffer \<Rightarrow> (int \<times> buffer) option" where
  "de_get_normalized_uuid uuid128 element = do {
     uuidType \<leftarrow> de_get_element_type element;
     uuidSize \<leftarrow> de_get_size_type element;
     if uuidType \<noteq> DE_UUID then Some (0, uuid128)
     else if uuidSize = DE_SIZE_16 then do {
       shortUUID \<leftarrow> big_endian_read_16 element 1;
       uuid128 \<leftarrow> uuid_add_bluetooth_prefix uuid128 shortUUID;
       Some (1, uuid128) }
     else if uuidSize = DE_SIZE_32 then do {
       shortUUID \<leftarrow> big_endian_read_32 element 1;
       uuid128 \<leftarrow> uuid_add_bluetooth_prefix uuid128 shortUUID;
       Some (1, uuid128) }
     else if uuidSize = DE_SIZE_128 then do {
       xs \<leftarrow> rd_range element 1 16;
       uuid128 \<leftarrow> wr_range uuid128 0 xs;
       Some (1, uuid128) }
     else Some (0, uuid128) }"

text \<open>The local arrays of 16 bytes are not initialised; what they hold, \<open>junk\<close>, must not matter.\<close>

definition de_get_uuid32 :: "buffer \<Rightarrow> buffer \<Rightarrow> u32 option" where
  "de_get_uuid32 junk element = do {
     (validUuid128, uuid128) \<leftarrow> de_get_normalized_uuid junk element;
     if validUuid128 = 0 then Some 0
     else do {
       hasBluetoothBaseUuid \<leftarrow> uuid_has_bluetooth_prefix uuid128;
       if \<not> hasBluetoothBaseUuid then Some 0 else big_endian_read_32 uuid128 0 } }"

definition de_get_string :: "buffer \<Rightarrow> buffer option option" where
  "de_get_string element = do {
     de_type \<leftarrow> de_get_element_type element;
     if de_type \<noteq> DE_STRING then Some None
     else do {
       header_size \<leftarrow> de_get_header_size element;
       if unat header_size \<le> length element then Some (Some (drop (unat header_size) element)) else None } }"

section \<open>Building elements\<close>

text \<open>An operation at the pointer \<open>buf + p\<close>.\<close>

definition at_offset :: "nat \<Rightarrow> (buffer \<Rightarrow> buffer option) \<Rightarrow> buffer \<Rightarrow> buffer option" where
  "at_offset p f buf =
     (if p \<le> length buf then map_option (\<lambda>b. take p buf @ b) (f (drop p buf)) else None)"

definition de_store_descriptor :: "u8 \<Rightarrow> u8 \<Rightarrow> buffer \<Rightarrow> buffer option" where
  "de_store_descriptor type sz header = wr header 0 (push_bit 3 type OR sz)"

definition de_store_descriptor_with_len :: "u8 \<Rightarrow> u8 \<Rightarrow> u32 \<Rightarrow> buffer \<Rightarrow> buffer option" where
  "de_store_descriptor_with_len type sz len header = do {
     header \<leftarrow> wr header 0 (push_bit 3 type OR sz);
     if sz = DE_SIZE_VAR_8 then wr header 1 (to8 len)
     else if sz = DE_SIZE_VAR_16 then big_endian_store_16 header 1 (to16 len)
     else if sz = DE_SIZE_VAR_32 then big_endian_store_32 header 1 len
     else Some header }"

definition de_create_sequence :: "buffer \<Rightarrow> nat \<Rightarrow> buffer option" where
  "de_create_sequence buf header = at_offset header (de_store_descriptor_with_len DE_DES DE_SIZE_VAR_16 0) buf"

definition de_push_sequence :: "buffer \<Rightarrow> nat \<Rightarrow> (nat \<times> buffer) option" where
  "de_push_sequence buf header = do {
     element_len \<leftarrow> de_get_len (drop header buf);
     if element_len < 0 then None
     else do {
       buf \<leftarrow> at_offset (header + nat element_len) (de_store_descriptor_with_len DE_DES DE_SIZE_VAR_16 0) buf;
       Some (header + nat element_len, buf) } }"

definition de_pop_sequence :: "buffer \<Rightarrow> nat \<Rightarrow> nat \<Rightarrow> buffer option" where
  "de_pop_sequence buf parent child = do {
     child_len \<leftarrow> de_get_len (drop child buf);
     data_size_parent \<leftarrow> big_endian_read_16 (drop parent buf) 1;
     at_offset parent (\<lambda>h. big_endian_store_16 h 1 (word_of_int (uint data_size_parent + child_len))) buf }"

definition de_add_number :: "buffer \<Rightarrow> nat \<Rightarrow> u8 \<Rightarrow> u8 \<Rightarrow> u32 \<Rightarrow> buffer option" where
  "de_add_number buf seq type sz value = do {
     data_size \<leftarrow> big_endian_read_16 (drop seq buf) 1;
     buf \<leftarrow> at_offset (seq + 3 + unat data_size) (de_store_descriptor type sz) buf;
     (buf, element_size) \<leftarrow>
       (if sz = DE_SIZE_8 then
          if type \<noteq> DE_NIL then do {
            buf \<leftarrow> at_offset seq (\<lambda>s. wr s (4 + unat data_size) (to8 value)) buf;
            Some (buf, 2) }
          else Some (buf, 1)
        else if sz = DE_SIZE_16 then do {
          buf \<leftarrow> at_offset seq (\<lambda>s. big_endian_store_16 s (to16 (4 + data_size)) (to16 value)) buf;
          Some (buf, 3) }
        else if sz = DE_SIZE_32 then do {
          buf \<leftarrow> at_offset seq (\<lambda>s. big_endian_store_32 s (to16 (4 + data_size)) value) buf;
          Some (buf, 5) }
        else Some (buf, 1));
     at_offset seq (\<lambda>s. big_endian_store_16 s 1 (to16 (data_size + element_size))) buf }"

definition de_add_data :: "buffer \<Rightarrow> nat \<Rightarrow> u8 \<Rightarrow> u16 \<Rightarrow> buffer \<Rightarrow> buffer option" where
  "de_add_data buf seq type sz data = do {
     data_size \<leftarrow> big_endian_read_16 (drop seq buf) 1;
     (buf, data_size) \<leftarrow>
       (if sz > 0xff then do {
          buf \<leftarrow> at_offset (seq + 3 + unat data_size) (de_store_descriptor_with_len type DE_SIZE_VAR_16 (to32 sz)) buf;
          Some (buf, data_size + 3) }
        else do {
          buf \<leftarrow> at_offset (seq + 3 + unat data_size) (de_store_descriptor_with_len type DE_SIZE_VAR_8 (to32 sz)) buf;
          Some (buf, data_size + 2) });
     xs \<leftarrow> rd_range data 0 (unat sz);
     buf \<leftarrow> at_offset (seq + 3 + unat data_size) (\<lambda>s. wr_range s 0 xs) buf;
     at_offset seq (\<lambda>s. big_endian_store_16 s 1 (to16 (data_size + to32 sz))) buf }"

definition de_add_uuid128 :: "buffer \<Rightarrow> nat \<Rightarrow> buffer \<Rightarrow> buffer option" where
  "de_add_uuid128 buf seq uuid = do {
     data_size \<leftarrow> big_endian_read_16 (drop seq buf) 1;
     buf \<leftarrow> at_offset (seq + 3 + unat data_size) (de_store_descriptor DE_UUID DE_SIZE_128) buf;
     xs \<leftarrow> rd_range uuid 0 16;
     buf \<leftarrow> at_offset (seq + 4 + unat data_size) (\<lambda>s. wr_range s 0 xs) buf;
     at_offset seq (\<lambda>s. big_endian_store_16 s 1 (to16 (data_size + 1 + 16))) buf }"

section \<open>The iterator of a sequence\<close>

text \<open>\<open>it->element + it->pos\<close>.\<close>

definition ptr_add :: "buffer \<Rightarrow> int \<Rightarrow> buffer option" where
  "ptr_add element pos = (if 0 \<le> pos \<and> nat pos \<le> length element then Some (drop (nat pos) element) else None)"

text \<open>Addition of type \<open>int\<close>.\<close>

definition int_add :: "int \<Rightarrow> int \<Rightarrow> int option" where
  "int_add a b = (if - (2 ^ 31) \<le> a + b \<and> a + b < 2 ^ 31 then Some (a + b) else None)"

record des_iterator =
  des_element :: buffer
  des_pos :: u16
  des_length :: u16

definition des_iterator_init :: "des_iterator \<Rightarrow> buffer \<Rightarrow> (int \<times> des_iterator) option" where
  "des_iterator_init it element = do {
     type \<leftarrow> de_get_element_type element;
     if type \<noteq> DE_DES then Some (0, it)
     else do {
       header_size \<leftarrow> de_get_header_size element;
       len \<leftarrow> de_get_len element;
       Some (1, \<lparr> des_element = element, des_pos = to16 header_size, des_length = word_of_int len \<rparr>) } }"

definition des_iterator_get_type :: "des_iterator \<Rightarrow> u8 option" where
  "des_iterator_get_type it = do {
     e \<leftarrow> ptr_add (des_element it) (uint (des_pos it));
     de_get_element_type e }"

definition des_iterator_get_size :: "des_iterator \<Rightarrow> u16 option" where
  "des_iterator_get_size it = do {
     e \<leftarrow> ptr_add (des_element it) (uint (des_pos it));
     len \<leftarrow> de_get_len e;
     header_size \<leftarrow> de_get_header_size e;
     Some (word_of_int (len - uint header_size)) }"

definition des_iterator_has_more :: "des_iterator \<Rightarrow> bool" where
  "des_iterator_has_more it \<longleftrightarrow> des_pos it < des_length it"

definition des_iterator_get_element :: "des_iterator \<Rightarrow> buffer option option" where
  "des_iterator_get_element it =
     (if \<not> des_iterator_has_more it then Some None
      else map_option Some (ptr_add (des_element it) (uint (des_pos it))))"

definition des_iterator_next :: "des_iterator \<Rightarrow> des_iterator option" where
  "des_iterator_next it = do {
     e \<leftarrow> ptr_add (des_element it) (uint (des_pos it));
     element_len \<leftarrow> de_get_len e;
     Some (it\<lparr> des_pos := word_of_int (uint (des_pos it) + element_len) \<rparr>) }"

section \<open>Traversals\<close>

text \<open>The loop of \<open>de_traverse_sequence\<close>.  The result of the callback is cut to a byte.\<close>

partial_function (option) traverse_from ::
    "buffer \<Rightarrow> (buffer \<Rightarrow> u8 \<Rightarrow> u8 \<Rightarrow> 's \<Rightarrow> (int \<times> 's) option) \<Rightarrow> int \<Rightarrow> int \<Rightarrow> 's \<Rightarrow> 's option" where
  "traverse_from element handler pos end_pos context =
     (if pos \<ge> end_pos then Some context
      else do {
        e \<leftarrow> ptr_add element pos;
        elemType \<leftarrow> de_get_element_type e;
        elemSize \<leftarrow> de_get_size_type e;
        (r, context) \<leftarrow> handler e elemType elemSize context;
        if (word_of_int r :: u8) \<noteq> 0 then Some context
        else do {
          len \<leftarrow> de_get_len e;
          pos \<leftarrow> int_add pos len;
          traverse_from element handler pos end_pos context } })"

definition de_traverse_sequence ::
    "buffer \<Rightarrow> (buffer \<Rightarrow> u8 \<Rightarrow> u8 \<Rightarrow> 's \<Rightarrow> (int \<times> 's) option) \<Rightarrow> 's \<Rightarrow> 's option" where
  "de_traverse_sequence element handler context = do {
     type \<leftarrow> de_get_element_type element;
     if type \<noteq> DE_DES then Some context
     else do {
       header_size \<leftarrow> de_get_header_size element;
       end_pos \<leftarrow> de_get_len element;
       traverse_from element handler (sint header_size) end_pos context } }"

type_synonym 's attribute_handler = "u16 \<Rightarrow> buffer \<Rightarrow> u8 \<Rightarrow> u8 \<Rightarrow> 's \<Rightarrow> (int \<times> buffer \<times> 's) option"

partial_function (option) attributes_from ::
    "buffer \<Rightarrow> 's attribute_handler \<Rightarrow> int \<Rightarrow> int \<Rightarrow> 's \<Rightarrow> (buffer \<times> 's) option" where
  "attributes_from element handler pos end_pos context =
     (if pos \<ge> end_pos then Some (element, context)
      else do {
        e \<leftarrow> ptr_add element pos;
        idType \<leftarrow> de_get_element_type e;
        idSize \<leftarrow> de_get_size_type e;
        if idType \<noteq> DE_UINT \<or> idSize \<noteq> DE_SIZE_16 then Some (element, context)
        else do {
          attribute_id \<leftarrow> big_endian_read_16 e 1;
          pos \<leftarrow> int_add pos 3;
          if pos \<ge> end_pos then Some (element, context)
          else do {
            e \<leftarrow> ptr_add element pos;
            valueType \<leftarrow> de_get_element_type e;
            valueSize \<leftarrow> de_get_size_type e;
            (r, e, context) \<leftarrow> handler (to16 attribute_id) e valueType valueSize context;
            let element = take (nat pos) element @ e;
            if (word_of_int r :: u8) \<noteq> 0 then Some (element, context)
            else do {
              len \<leftarrow> de_get_len e;
              pos \<leftarrow> int_add pos len;
              attributes_from element handler pos end_pos context } } } })"

definition sdp_attribute_list_traverse_sequence ::
    "buffer \<Rightarrow> 's attribute_handler \<Rightarrow> 's \<Rightarrow> (buffer \<times> 's) option" where
  "sdp_attribute_list_traverse_sequence element handler context = do {
     type \<leftarrow> de_get_element_type element;
     if type \<noteq> DE_DES then Some (element, context)
     else do {
       header_size \<leftarrow> de_get_header_size element;
       end_pos \<leftarrow> de_get_len element;
       attributes_from element handler (sint header_size) end_pos context } }"

section \<open>Attribute identifiers\<close>

record context_attributeID_search =
  search_result :: int
  search_attributeID :: u16

definition sdp_traversal_attributeID_search ::
    "buffer \<Rightarrow> u8 \<Rightarrow> u8 \<Rightarrow> context_attributeID_search \<Rightarrow> (int \<times> context_attributeID_search) option" where
  "sdp_traversal_attributeID_search element type sz context =
     (if type \<noteq> DE_UINT then Some (0, context)
      else if sz = DE_SIZE_16 then do {
        v \<leftarrow> big_endian_read_16 element 1;
        if v = to32 (search_attributeID context) then Some (1, context\<lparr> search_result := 1 \<rparr>) else Some (0, context) }
      else if sz = DE_SIZE_32 then do {
        low \<leftarrow> big_endian_read_16 element 1;
        if low \<le> to32 (search_attributeID context) then do {
          high \<leftarrow> big_endian_read_16 element 3;
          if to32 (search_attributeID context) \<le> high then Some (1, context\<lparr> search_result := 1 \<rparr>) else Some (0, context) }
        else Some (0, context) }
      else Some (0, context))"

definition sdp_attribute_list_constains_id :: "buffer \<Rightarrow> u16 \<Rightarrow> int option" where
  "sdp_attribute_list_constains_id attributeIDList attributeID =
     map_option search_result (de_traverse_sequence attributeIDList sdp_traversal_attributeID_search
       \<lparr> search_result = 0, search_attributeID = attributeID \<rparr>)"

section \<open>Collecting attributes\<close>

record context_append_attributes =
  append_buffer :: buffer
  append_startOffset :: u16
  append_maxBytes :: u16
  append_usedBytes :: u16
  append_attributeIDList :: buffer

definition sdp_traversal_append_attributes :: "context_append_attributes attribute_handler" where
  "sdp_traversal_append_attributes attributeID attributeValue de_type de_size context = do {
     contained \<leftarrow> sdp_attribute_list_constains_id (append_attributeIDList context) attributeID;
     if contained \<noteq> 0 then do {
       data_size \<leftarrow> map_option to16 (big_endian_read_16 (append_buffer context) 1);
       attribute_len \<leftarrow> de_get_len attributeValue;
       needed \<leftarrow> int_add (3 + uint data_size) (3 + attribute_len);
       if needed \<le> uint (append_maxBytes context) then do {
         buf \<leftarrow> de_add_number (append_buffer context) 0 DE_UINT DE_SIZE_16 (to32 attributeID);
         let data_size = data_size + 3;
         if attribute_len < 0 then None
         else do {
           xs \<leftarrow> rd_range attributeValue 0 (nat attribute_len);
           buf \<leftarrow> wr_range buf (3 + unat data_size) xs;
           buf \<leftarrow> big_endian_store_16 buf 1 (word_of_int (uint data_size + attribute_len));
           Some (0, attributeValue, context\<lparr> append_buffer := buf \<rparr>) } }
       else Some (1, attributeValue, context) }
     else Some (0, attributeValue, context) }"

definition sdp_append_attributes_in_attributeIDList ::
    "buffer \<Rightarrow> buffer \<Rightarrow> u16 \<Rightarrow> u16 \<Rightarrow> buffer \<Rightarrow> (u16 \<times> buffer) option" where
  "sdp_append_attributes_in_attributeIDList r attributeIDList startOffset maxBytes buf = do {
     (_, context) \<leftarrow> sdp_attribute_list_traverse_sequence r sdp_traversal_append_attributes
       \<lparr> append_buffer = buf, append_startOffset = startOffset, append_maxBytes = maxBytes,
         append_usedBytes = 0, append_attributeIDList = attributeIDList \<rparr>;
     Some (append_usedBytes context, append_buffer context) }"

section \<open>Filtering attributes\<close>

text \<open>\<open>buffer\<close> points to \<open>filter_buffer + filter_pos\<close>.\<close>

record context_filter_attributes =
  filter_buffer :: buffer
  filter_pos :: nat
  filter_startOffset :: u16
  filter_maxBytes :: u16
  filter_usedBytes :: u16
  filter_attributeIDList :: buffer
  filter_complete :: int

definition spd_append_range ::
    "context_filter_attributes \<Rightarrow> u16 \<Rightarrow> buffer \<Rightarrow> (int \<times> context_filter_attributes) option" where
  "spd_append_range context len data =
     (let remainder_len = len - filter_startOffset context;
          (ok, remainder_len) = (if filter_maxBytes context < remainder_len then (0, filter_maxBytes context) else (1, remainder_len))
      in do {
        xs \<leftarrow> rd_range data (unat (filter_startOffset context)) (unat remainder_len);
        buf \<leftarrow> wr_range (filter_buffer context) (filter_pos context) xs;
        Some (ok, context\<lparr> filter_buffer := buf, filter_usedBytes := filter_usedBytes context + remainder_len,
          filter_pos := filter_pos context + unat remainder_len, filter_maxBytes := filter_maxBytes context - remainder_len,
          filter_startOffset := 0 \<rparr>) })"

definition sdp_traversal_filter_attributes :: "context_filter_attributes attribute_handler" where
  "sdp_traversal_filter_attributes attributeID attributeValue de_type de_size context = do {
     contained \<leftarrow> sdp_attribute_list_constains_id (filter_attributeIDList context) attributeID;
     if contained = 0 then Some (0, attributeValue, context)
     else do {
       (ok, context) \<leftarrow>
         (if filter_startOffset context \<ge> 3 then
            Some (1, context\<lparr> filter_startOffset := filter_startOffset context - 3 \<rparr>)
          else do {
            idBuffer \<leftarrow> de_store_descriptor DE_UINT DE_SIZE_16 [0, 0, 0];
            idBuffer \<leftarrow> big_endian_store_16 idBuffer 1 attributeID;
            spd_append_range context 3 idBuffer });
       if ok = 0 then Some (1, attributeValue, context\<lparr> filter_complete := 0 \<rparr>)
       else do {
         attribute_len \<leftarrow> de_get_len attributeValue;
         if uint (filter_startOffset context) \<ge> attribute_len then
           Some (0, attributeValue, context\<lparr> filter_startOffset := word_of_int (uint (filter_startOffset context) - attribute_len) \<rparr>)
         else do {
           (ok, context) \<leftarrow> spd_append_range context (word_of_int attribute_len) attributeValue;
           if ok = 0 then Some (1, attributeValue, context\<lparr> filter_complete := 0 \<rparr>)
           else Some (0, attributeValue, context) } } } }"

text \<open>The result, the number of bytes used and the buffer.\<close>

definition sdp_filter_attributes_in_attributeIDList ::
    "buffer \<Rightarrow> buffer \<Rightarrow> u16 \<Rightarrow> u16 \<Rightarrow> buffer \<Rightarrow> (int \<times> u16 \<times> buffer) option" where
  "sdp_filter_attributes_in_attributeIDList r attributeIDList startOffset maxBytes buf = do {
     (_, context) \<leftarrow> sdp_attribute_list_traverse_sequence r sdp_traversal_filter_attributes
       \<lparr> filter_buffer = buf, filter_pos = 0, filter_startOffset = startOffset, filter_maxBytes = maxBytes,
         filter_usedBytes = 0, filter_attributeIDList = attributeIDList, filter_complete = 1 \<rparr>;
     Some (filter_complete context, filter_usedBytes context, filter_buffer context) }"

record context_get_filtered_size =
  filtered_attributeIDList :: buffer
  filtered_size :: u16

definition sdp_traversal_get_filtered_size :: "context_get_filtered_size attribute_handler" where
  "sdp_traversal_get_filtered_size attributeID attributeValue de_type de_size context = do {
     contained \<leftarrow> sdp_attribute_list_constains_id (filtered_attributeIDList context) attributeID;
     if contained \<noteq> 0 then do {
       len \<leftarrow> de_get_len attributeValue;
       added \<leftarrow> int_add 3 len;
       Some (0, attributeValue, context\<lparr> filtered_size := word_of_int (uint (filtered_size context) + added) \<rparr>) }
     else Some (0, attributeValue, context) }"

definition spd_get_filtered_size :: "buffer \<Rightarrow> buffer \<Rightarrow> int option" where
  "spd_get_filtered_size r attributeIDList = do {
     (_, context) \<leftarrow> sdp_attribute_list_traverse_sequence r sdp_traversal_get_filtered_size
       \<lparr> filtered_attributeIDList = attributeIDList, filtered_size = 0 \<rparr>;
     Some (uint (filtered_size context)) }"

section \<open>The value of an attribute\<close>

record context_attribute_by_id =
  by_id_attributeID :: u16
  by_id_attributeValue :: "buffer option"

definition sdp_traversal_attribute_by_id :: "context_attribute_by_id attribute_handler" where
  "sdp_traversal_attribute_by_id attributeID attributeValue de_type de_size context =
     (if attributeID = by_id_attributeID context
      then Some (1, attributeValue, context\<lparr> by_id_attributeValue := Some attributeValue \<rparr>)
      else Some (0, attributeValue, context))"

definition sdp_get_attribute_value_for_attribute_id :: "buffer \<Rightarrow> u16 \<Rightarrow> buffer option option" where
  "sdp_get_attribute_value_for_attribute_id r attributeID = do {
     (_, context) \<leftarrow> sdp_attribute_list_traverse_sequence r sdp_traversal_attribute_by_id
       \<lparr> by_id_attributeID = attributeID, by_id_attributeValue = None \<rparr>;
     Some (by_id_attributeValue context) }"

record context_set_attribute_for_id =
  set_attributeID :: u16
  set_attributeValue :: u32
  set_attributeFound :: u8

definition sdp_traversal_set_attribute_for_id :: "context_set_attribute_for_id attribute_handler" where
  "sdp_traversal_set_attribute_for_id attributeID attributeValue attributeType sz context =
     (if attributeID = set_attributeID context then do {
        let context = context\<lparr> set_attributeFound := 1 \<rparr>;
        attributeValue \<leftarrow>
          (if sz = DE_SIZE_8 then
             if attributeType \<noteq> DE_NIL then wr attributeValue 1 (to8 (set_attributeValue context)) else Some attributeValue
           else if sz = DE_SIZE_16 then big_endian_store_16 attributeValue 1 (to16 (set_attributeValue context))
           else if sz = DE_SIZE_32 then big_endian_store_32 attributeValue 1 (set_attributeValue context)
           else Some attributeValue);
        Some (1, attributeValue, context) }
      else Some (0, attributeValue, context))"

definition sdp_set_attribute_value_for_attribute_id :: "buffer \<Rightarrow> u16 \<Rightarrow> u32 \<Rightarrow> (u8 \<times> buffer) option" where
  "sdp_set_attribute_value_for_attribute_id r attributeID v = do {
     (r, context) \<leftarrow> sdp_attribute_list_traverse_sequence r sdp_traversal_set_attribute_for_id
       \<lparr> set_attributeID = attributeID, set_attributeValue = v, set_attributeFound = 0 \<rparr>;
     Some (set_attributeFound context, r) }"

section \<open>Searching for UUIDs\<close>

record context_contains_uuid128 =
  contains_uuid128 :: buffer
  contains_result :: int

text \<open>The callback calls the search it serves, \<open>search\<close>, for a sequence inside.\<close>

definition sdp_traversal_contains_UUID128 ::
    "(buffer \<Rightarrow> buffer \<Rightarrow> int option) \<Rightarrow> buffer \<Rightarrow> u8 \<Rightarrow> u8 \<Rightarrow> context_contains_uuid128
       \<Rightarrow> (int \<times> context_contains_uuid128) option" where
  "sdp_traversal_contains_UUID128 search element type de_size context = do {
     context \<leftarrow>
       (if type = DE_UUID then do {
          (uuidOK, normalizedUUID) \<leftarrow> de_get_normalized_uuid (replicate 16 0) element;
          if uuidOK \<noteq> 0 then do {
            c \<leftarrow> memcmp_n 16 (contains_uuid128 context) normalizedUUID;
            Some (context\<lparr> contains_result := if c = 0 then 1 else 0 \<rparr>) }
          else Some (context\<lparr> contains_result := 0 \<rparr>) }
        else Some context);
     context \<leftarrow>
       (if type = DE_DES then do {
          result \<leftarrow> search element (contains_uuid128 context);
          Some (context\<lparr> contains_result := result \<rparr>) }
        else Some context);
     Some (contains_result context, context) }"

text \<open>A traversal is monotone in its callback, so that a callback may call the function the traversal is part of.\<close>

lemma traverse_from_le:
  assumes "\<And>e t s c y. h e t s c = Some y \<Longrightarrow> h' e t s c = Some y"
  shows "traverse_from el h pos ep c = Some y \<Longrightarrow> traverse_from el h' pos ep c = Some y"
proof -
  assume "traverse_from el h pos ep c = Some y"
  moreover have "k = h \<longrightarrow> traverse_from el h' pos ep c = Some y" if "traverse_from el k pos ep c = Some y" for k
    using that
  proof (induction rule: traverse_from.raw_induct [rotated, consumes 1])
    case (1 trav el k pos ep c y)
    show ?case
    proof
      assume k: "k = h"
      show "traverse_from el h' pos ep c = Some y"
      proof (cases "pos \<ge> ep")
        case True
        then show ?thesis using 1(2) by (subst traverse_from.simps) simp
      next
        case False
        from 1(2) False k obtain e t s r c' where e: "ptr_add el pos = Some e" "de_get_element_type e = Some t"
          "de_get_size_type e = Some s" "h e t s c = Some (r, c')"
          and rest: "(if (word_of_int r :: u8) \<noteq> 0 then Some c'
            else do { len \<leftarrow> de_get_len e; pos \<leftarrow> int_add pos len; trav el k pos ep c' }) = Some y"
          by (auto simp: bind_eq_Some_conv)
        have "traverse_from el h' pos ep c = (if (word_of_int r :: u8) \<noteq> 0 then Some c'
            else do { len \<leftarrow> de_get_len e; pos \<leftarrow> int_add pos len; traverse_from el h' pos ep c' })"
          using e False assms [OF e(4)] by (subst traverse_from.simps) simp
        then show ?thesis using rest 1(1) k by (auto simp: bind_eq_Some_conv split: if_splits)
      qed
    qed
  qed
  ultimately show ?thesis by blast
qed

lemma mono_option_iff: "monotone ord (flat_ord None) F \<longleftrightarrow> (\<forall>f g y. ord f g \<longrightarrow> F f = Some y \<longrightarrow> F g = Some y)"
  unfolding monotone_def flat_ord_def by (metis not_None_eq)

lemma de_traverse_sequence_mono [partial_function_mono]:
  assumes "\<And>e t s c. monotone ord (flat_ord None) (\<lambda>f. h f e t s c)"
  shows "monotone ord (flat_ord None) (\<lambda>f. de_traverse_sequence element (h f) context)"
  unfolding mono_option_iff
proof (intro allI impI)
  fix f g y
  assume o: "ord f g" and "de_traverse_sequence element (h f) context = Some y"
  moreover have "\<And>e t s c y. h f e t s c = Some y \<Longrightarrow> h g e t s c = Some y" using assms o unfolding mono_option_iff by blast
  note traverse_from_le [of "h f" "h g", OF this]
  ultimately show "de_traverse_sequence element (h g) context = Some y"
    unfolding de_traverse_sequence_def by (auto simp: bind_eq_Some_conv split: if_splits)
qed

lemma sdp_traversal_contains_UUID128_mono [partial_function_mono]:
  assumes "\<And>e u. monotone ord (flat_ord None) (\<lambda>f. search f e u)"
  shows "monotone ord (flat_ord None) (\<lambda>f. sdp_traversal_contains_UUID128 (search f) element type de_size context)"
  unfolding mono_option_iff
proof (intro allI impI)
  fix f g y
  assume o: "ord f g" and "sdp_traversal_contains_UUID128 (search f) element type de_size context = Some y"
  moreover have "\<And>e u y. search f e u = Some y \<Longrightarrow> search g e u = Some y" using assms o unfolding mono_option_iff by blast
  ultimately show "sdp_traversal_contains_UUID128 (search g) element type de_size context = Some y"
    unfolding sdp_traversal_contains_UUID128_def by (auto simp: bind_eq_Some_conv split: if_splits)
qed

partial_function (option) sdp_record_contains_UUID128 :: "buffer \<Rightarrow> buffer \<Rightarrow> int option" where
  "sdp_record_contains_UUID128 r uuid128 = do {
     context \<leftarrow> de_traverse_sequence r (sdp_traversal_contains_UUID128 (\<lambda>e u. sdp_record_contains_UUID128 e u))
       \<lparr> contains_uuid128 = uuid128, contains_result = 0 \<rparr>;
     Some (contains_result context) }"

record context_match_pattern =
  match_record :: buffer
  match_result :: int

definition sdp_traversal_match_pattern ::
    "buffer \<Rightarrow> u8 \<Rightarrow> u8 \<Rightarrow> context_match_pattern \<Rightarrow> (int \<times> context_match_pattern) option" where
  "sdp_traversal_match_pattern element de_type de_size context = do {
     (uuidOK, normalizedUUID) \<leftarrow> de_get_normalized_uuid (replicate 16 0) element;
     contained \<leftarrow> (if (word_of_int uuidOK :: u8) = 0 then Some 0
                   else sdp_record_contains_UUID128 (match_record context) normalizedUUID);
     if contained = 0 then Some (1, context\<lparr> match_result := 0 \<rparr>) else Some (0, context) }"

definition sdp_record_matches_service_search_pattern :: "buffer \<Rightarrow> buffer \<Rightarrow> int option" where
  "sdp_record_matches_service_search_pattern r serviceSearchPattern =
     map_option match_result (de_traverse_sequence serviceSearchPattern sdp_traversal_match_pattern
       \<lparr> match_record = r, match_result = 1 \<rparr>)"

section \<open>Search patterns\<close>

text \<open>The static buffers are written whole, up to their constant headers.\<close>

definition des_serviceSearchPatternUUID16 :: buffer where
  "des_serviceSearchPatternUUID16 = [0x35, 0x03, 0x19, 0x00, 0x00]"

definition des_serviceSearchPatternUUID128 :: buffer where
  "des_serviceSearchPatternUUID128 = [0x35, 0x11, 0x1c] @ replicate 16 0"

definition sdp_service_search_pattern_for_uuid16 :: "u16 \<Rightarrow> buffer option" where
  "sdp_service_search_pattern_for_uuid16 uuid16 = big_endian_store_16 des_serviceSearchPatternUUID16 3 uuid16"

definition sdp_service_search_pattern_for_uuid128 :: "buffer \<Rightarrow> buffer option" where
  "sdp_service_search_pattern_for_uuid128 uuid128 = do {
     xs \<leftarrow> rd_range uuid128 0 16;
     wr_range des_serviceSearchPatternUUID128 3 xs }"

end
