(* ===== verification/Sdp_Server.thy ===== *)
theory Sdp_Server
  imports Sdp_Util Memory_Pool "HOL-Library.Signed_Division"
begin

text \<open>
  Model of \<open>classic/sdp_server.c\<close>: the registry of service records, the three requests and the packet handler.

  The registered records are a linked list of blocks from the pool \<open>service_record_item_pool\<close>
  (\<open>btstack_memory.c\<close>): the \<open>next\<close> pointers are in the store \<open>sdp_nodes\<close>, the other fields of a block in \<open>sdp_items\<close>.
  A record is not copied: its bytes are those behind the registered pointer.  The calls of L2CAP are the outputs
  \<open>sdp_calls\<close>, oldest first; the MTU of a channel is the parameter \<open>mtu_of\<close>.
\<close>

section \<open>State\<close>

record service_record_item =
  service_record_handle :: u32
  service_record :: buffer

datatype l2cap_call = Register_service u16 u16 | Request_can_send_now u16 | Send u16 buffer
  | Decline_connection u16 | Accept_connection u16

record sdp_server =
  sdp_nodes :: store
  sdp_items :: "addr \<rightharpoonup> service_record_item"
  sdp_service_records :: addr
  service_record_item_pool :: addr
  sdp_next_service_record_handle :: u32
  sdp_response_buffer :: buffer
  l2cap_cid :: u16
  sdp_response_size :: u16
  sdp_calls :: "l2cap_call list"

definition btstack_memory_service_record_item_get :: "sdp_server \<Rightarrow> (addr \<times> sdp_server) option" where
  "btstack_memory_service_record_item_get s = do {
     (item, nodes) \<leftarrow> btstack_memory_pool_get (sdp_nodes s) (service_record_item_pool s);
     Some (item, s\<lparr> sdp_nodes := nodes \<rparr>) }"

definition btstack_memory_service_record_item_free :: "sdp_server \<Rightarrow> addr \<Rightarrow> sdp_server option" where
  "btstack_memory_service_record_item_free s item = do {
     nodes \<leftarrow> btstack_memory_pool_free (sdp_nodes s) (service_record_item_pool s) item;
     Some (s\<lparr> sdp_nodes := nodes \<rparr>) }"

definition call_l2cap :: "l2cap_call \<Rightarrow> sdp_server \<Rightarrow> sdp_server" where
  "call_l2cap c s = s\<lparr> sdp_calls := sdp_calls s @ [c] \<rparr>"

definition sdp_init :: "sdp_server \<Rightarrow> sdp_server" where
  "sdp_init s = call_l2cap (Register_service 1 0xffff) s"

text \<open>Assignment to a variable of type \<open>uint16_t\<close>.\<close>

abbreviation read_u16 :: "buffer \<Rightarrow> nat \<Rightarrow> u16 option" where
  "read_u16 buf pos \<equiv> map_option to16 (big_endian_read_16 buf pos)"

section \<open>The registry\<close>

definition sdp_get_service_record_handle :: "buffer \<Rightarrow> u32 option" where
  "sdp_get_service_record_handle r = do {
     serviceRecordHandleAttribute \<leftarrow> sdp_get_attribute_value_for_attribute_id r 0;
     case serviceRecordHandleAttribute of
       None \<Rightarrow> Some 0
     | Some v \<Rightarrow> do {
         type \<leftarrow> de_get_element_type v;
         if type \<noteq> DE_UINT then Some 0
         else do {
           sz \<leftarrow> de_get_size_type v;
           if sz \<noteq> DE_SIZE_32 then Some 0 else big_endian_read_32 v 1 } } }"

partial_function (option) record_item_from :: "sdp_server \<Rightarrow> addr \<Rightarrow> u32 \<Rightarrow> addr option" where
  "record_item_from s it handle =
     (if it = NULL then Some NULL
      else do {
        item \<leftarrow> sdp_items s it;
        if service_record_handle item = handle then Some it
        else do { n \<leftarrow> sdp_nodes s it; record_item_from s n handle } })"

definition sdp_get_record_item_for_handle :: "sdp_server \<Rightarrow> u32 \<Rightarrow> addr option" where
  "sdp_get_record_item_for_handle s handle = do {
     it \<leftarrow> sdp_nodes s (sdp_service_records s);
     record_item_from s it handle }"

definition sdp_get_record_for_handle :: "sdp_server \<Rightarrow> u32 \<Rightarrow> buffer option option" where
  "sdp_get_record_for_handle s handle = do {
     record_item \<leftarrow> sdp_get_record_item_for_handle s handle;
     if record_item = NULL then Some None
     else do { item \<leftarrow> sdp_items s record_item; Some (Some (service_record item)) } }"

partial_function (option) sdp_create_service_record_handle :: "sdp_server \<Rightarrow> (u32 \<times> sdp_server) option" where
  "sdp_create_service_record_handle s = do {
     let handle = sdp_next_service_record_handle s;
     let s = s\<lparr> sdp_next_service_record_handle := handle + 1 \<rparr>;
     item \<leftarrow> sdp_get_record_item_for_handle s handle;
     let handle = (if item \<noteq> NULL then 0 else handle);
     if handle = 0 then sdp_create_service_record_handle s else Some (handle, s) }"

abbreviation (input) SDP_HANDLE_ALREADY_REGISTERED :: u8 where "SDP_HANDLE_ALREADY_REGISTERED \<equiv> 0x80"
abbreviation (input) SDP_HANDLE_INVALID :: u8 where "SDP_HANDLE_INVALID \<equiv> 0x83"
abbreviation (input) BTSTACK_MEMORY_ALLOC_FAILED :: u8 where "BTSTACK_MEMORY_ALLOC_FAILED \<equiv> 0x56"

definition sdp_register_service :: "sdp_server \<Rightarrow> buffer \<Rightarrow> (u8 \<times> sdp_server) option" where
  "sdp_register_service s r = do {
     record_handle \<leftarrow> sdp_get_service_record_handle r;
     if record_handle = 0 then Some (SDP_HANDLE_INVALID, s)
     else if record_handle \<le> 0xffff then Some (SDP_HANDLE_INVALID, s)
     else do {
       item \<leftarrow> sdp_get_record_item_for_handle s record_handle;
       if item \<noteq> NULL then Some (SDP_HANDLE_ALREADY_REGISTERED, s)
       else do {
         (newRecordItem, s) \<leftarrow> btstack_memory_service_record_item_get s;
         if newRecordItem = NULL then Some (BTSTACK_MEMORY_ALLOC_FAILED, s)
         else do {
           let s = s\<lparr> sdp_items := (sdp_items s)(newRecordItem \<mapsto>
                        \<lparr> service_record_handle = record_handle, service_record = r \<rparr>) \<rparr>;
           nodes \<leftarrow> btstack_linked_list_add (sdp_nodes s) (sdp_service_records s) newRecordItem;
           Some (0, s\<lparr> sdp_nodes := nodes \<rparr>) } } } }"

definition sdp_unregister_service :: "sdp_server \<Rightarrow> u32 \<Rightarrow> sdp_server option" where
  "sdp_unregister_service s handle = do {
     record_item \<leftarrow> sdp_get_record_item_for_handle s handle;
     if record_item = NULL then Some s
     else do {
       (_, nodes) \<leftarrow> btstack_linked_list_remove (sdp_nodes s) (sdp_service_records s) record_item;
       btstack_memory_service_record_item_free (s\<lparr> sdp_nodes := nodes \<rparr>) record_item } }"

section \<open>Responses\<close>

definition sdp_create_error_response :: "sdp_server \<Rightarrow> u16 \<Rightarrow> u16 \<Rightarrow> (u16 \<times> sdp_server) option" where
  "sdp_create_error_response s transaction_id error_code = do {
     buf \<leftarrow> wr (sdp_response_buffer s) 0 1;
     buf \<leftarrow> big_endian_store_16 buf 1 transaction_id;
     buf \<leftarrow> big_endian_store_16 buf 3 2;
     buf \<leftarrow> big_endian_store_16 buf 5 error_code;
     Some (7, s\<lparr> sdp_response_buffer := buf \<rparr>) }"

text \<open>An operation with a result at the pointer \<open>buf + p\<close>.\<close>

definition at_pointer :: "nat \<Rightarrow> (buffer \<Rightarrow> ('a \<times> 'b \<times> buffer) option) \<Rightarrow> buffer \<Rightarrow> ('a \<times> 'b \<times> buffer) option" where
  "at_pointer p f buf =
     (if p \<le> length buf then map_option (\<lambda>(x, y, b). (x, y, take p buf @ b)) (f (drop p buf)) else None)"

section \<open>Service search\<close>

partial_function (option) total_from :: "sdp_server \<Rightarrow> buffer \<Rightarrow> addr \<Rightarrow> u16 \<Rightarrow> u16 option" where
  "total_from s serviceSearchPattern it total_service_count =
     (if it = NULL then Some total_service_count
      else do {
        item \<leftarrow> sdp_items s it;
        matches \<leftarrow> sdp_record_matches_service_search_pattern (service_record item) serviceSearchPattern;
        n \<leftarrow> sdp_nodes s it;
        total_from s serviceSearchPattern n (if matches = 0 then total_service_count else total_service_count + 1) })"

text \<open>The variables of the loop that collects handles.\<close>

record service_search =
  ss_buffer :: buffer
  ss_pos :: u16
  ss_current_service_count :: u16
  ss_current_service_index :: u16
  ss_matching_service_count :: u16
  ss_continuation :: bool
  ss_continuation_index :: u16

text \<open>The body of the loop; the result tells whether to go on.\<close>

definition search_body :: "buffer \<Rightarrow> u16 \<Rightarrow> u16 \<Rightarrow> service_record_item \<Rightarrow> service_search \<Rightarrow> (bool \<times> service_search) option" where
  "search_body serviceSearchPattern total_service_count maxNrServiceRecordsPerResponse item c = do {
     matches \<leftarrow> sdp_record_matches_service_search_pattern (service_record item) serviceSearchPattern;
     if matches = 0 then Some (True, c)
     else do {
       let c = c\<lparr> ss_matching_service_count := ss_matching_service_count c + 1 \<rparr>;
       if ss_current_service_index c < ss_continuation_index c then Some (True, c)
       else do {
         buf \<leftarrow> big_endian_store_32 (ss_buffer c) (ss_pos c) (service_record_handle item);
         let c = c\<lparr> ss_buffer := buf, ss_pos := ss_pos c + 4, ss_current_service_count := ss_current_service_count c + 1 \<rparr>;
         if ss_matching_service_count c \<ge> total_service_count then Some (False, c)
         else if ss_current_service_count c \<ge> maxNrServiceRecordsPerResponse then
           Some (False, c\<lparr> ss_continuation := True, ss_continuation_index := ss_current_service_index c + 1 \<rparr>)
         else Some (True, c) } } }"

partial_function (option) search_from ::
    "sdp_server \<Rightarrow> (service_record_item \<Rightarrow> service_search \<Rightarrow> (bool \<times> service_search) option) \<Rightarrow> addr \<Rightarrow> service_search
       \<Rightarrow> service_search option" where
  "search_from s body it c =
     (if it = NULL then Some c
      else do {
        item \<leftarrow> sdp_items s it;
        (go_on, c) \<leftarrow> body item c;
        if \<not> go_on then Some c
        else do {
          n \<leftarrow> sdp_nodes s it;
          search_from s body n (c\<lparr> ss_current_service_index := ss_current_service_index c + 1 \<rparr>) } })"

text \<open>The part of the handler behind the checks of the request.\<close>

definition service_search_response ::
    "sdp_server \<Rightarrow> u16 \<Rightarrow> buffer \<Rightarrow> u16 \<Rightarrow> u16 \<Rightarrow> u16 \<Rightarrow> (u16 \<times> sdp_server) option" where
  "service_search_response s transaction_id serviceSearchPattern maximumServiceRecordCount remote_mtu continuation_index = do {
     let maxNrServiceRecordsPerResponse = word_of_int ((uint remote_mtu - (9 + 3)) sdiv 4);
     it \<leftarrow> sdp_nodes s (sdp_service_records s);
     total_service_count \<leftarrow> total_from s serviceSearchPattern it 0;
     let total_service_count = (if total_service_count > maximumServiceRecordCount then maximumServiceRecordCount
                                else total_service_count);
     c \<leftarrow> search_from s (search_body serviceSearchPattern total_service_count maxNrServiceRecordsPerResponse) it
       \<lparr> ss_buffer = sdp_response_buffer s, ss_pos = 9, ss_current_service_count = 0, ss_current_service_index = 0,
         ss_matching_service_count = 0, ss_continuation = False, ss_continuation_index = continuation_index \<rparr>;
     let pos = ss_pos c;
     (buf, pos) \<leftarrow>
       (if ss_continuation c then do {
          buf \<leftarrow> wr (ss_buffer c) (unat pos) 2;
          buf \<leftarrow> big_endian_store_16 buf (pos + 1) (ss_continuation_index c);
          Some (buf, pos + 1 + 2) }
        else do { buf \<leftarrow> wr (ss_buffer c) (unat pos) 0; Some (buf, pos + 1) });
     buf \<leftarrow> wr buf 0 3;
     buf \<leftarrow> big_endian_store_16 buf 1 transaction_id;
     buf \<leftarrow> big_endian_store_16 buf 3 (pos - 5);
     buf \<leftarrow> big_endian_store_16 buf 5 total_service_count;
     buf \<leftarrow> big_endian_store_16 buf 7 (ss_current_service_count c);
     Some (pos, s\<lparr> sdp_response_buffer := buf \<rparr>) }"

definition sdp_handle_service_search_request :: "sdp_server \<Rightarrow> buffer \<Rightarrow> u16 \<Rightarrow> (u16 \<times> sdp_server) option" where
  "sdp_handle_service_search_request s packet remote_mtu = do {
     transaction_id \<leftarrow> read_u16 packet 1;
     param_len \<leftarrow> read_u16 packet 3;
     serviceSearchPattern \<leftarrow> ptr_add packet 5;
     serviceSearchPatternLen \<leftarrow> map_option to16 (de_get_len_safe serviceSearchPattern (to32 param_len));
     if serviceSearchPatternLen = 0 then Some (0, s)
     else do {
       let param_len = param_len - serviceSearchPatternLen;
       if param_len < 2 then Some (0, s)
       else do {
         maximumServiceRecordCount \<leftarrow> read_u16 packet (5 + unat serviceSearchPatternLen);
         let param_len = param_len - 2;
         if param_len < 1 then Some (0, s)
         else do {
           continuationState \<leftarrow> ptr_add packet (5 + uint serviceSearchPatternLen + 2);
           continuationLen \<leftarrow> rd continuationState 0;
           if 1 + unat continuationLen > unat param_len then Some (0, s)
           else do {
             continuation_index \<leftarrow> (if continuationLen = 2 then read_u16 continuationState 1 else Some 0);
             service_search_response s transaction_id serviceSearchPattern maximumServiceRecordCount remote_mtu
               continuation_index } } } } }"

section \<open>Attributes of a record\<close>

definition service_attribute_response ::
    "sdp_server \<Rightarrow> u16 \<Rightarrow> u32 \<Rightarrow> u16 \<Rightarrow> buffer \<Rightarrow> u16 \<Rightarrow> (u16 \<times> sdp_server) option" where
  "service_attribute_response s transaction_id serviceRecordHandle maximumAttributeByteCount attributeIDList continuation_offset = do {
     item \<leftarrow> sdp_get_record_item_for_handle s serviceRecordHandle;
     if item = NULL then sdp_create_error_response s transaction_id 2
     else do {
       r \<leftarrow> map_option service_record (sdp_items s item);
       let buf = sdp_response_buffer s;
       (buf, pos, maximumAttributeByteCount) \<leftarrow>
         (if continuation_offset = 0 then do {
            filtered_attributes_size \<leftarrow> map_option word_of_int (spd_get_filtered_size r attributeIDList);
            buf \<leftarrow> at_offset 7
              (de_store_descriptor_with_len DE_DES DE_SIZE_VAR_16 (to32 (filtered_attributes_size :: u16))) buf;
            Some (buf, 7 + 3, maximumAttributeByteCount - 3) }
          else Some (buf, 7, maximumAttributeByteCount));
       (complete, bytes_used, buf) \<leftarrow> at_pointer (unat (pos :: u16))
         (sdp_filter_attributes_in_attributeIDList r attributeIDList continuation_offset maximumAttributeByteCount) buf;
       let pos = pos + bytes_used;
       let attributeListByteCount = pos - 7;
       (buf, pos) \<leftarrow>
         (if complete \<noteq> 0 then do { buf \<leftarrow> wr buf (unat pos) 0; Some (buf, pos + 1) }
          else do {
            buf \<leftarrow> wr buf (unat pos) 2;
            buf \<leftarrow> big_endian_store_16 buf (pos + 1) (continuation_offset + bytes_used);
            Some (buf, pos + 1 + 2) });
       buf \<leftarrow> wr buf 0 5;
       buf \<leftarrow> big_endian_store_16 buf 1 transaction_id;
       buf \<leftarrow> big_endian_store_16 buf 3 (pos - 5);
       buf \<leftarrow> big_endian_store_16 buf 5 attributeListByteCount;
       Some (pos, s\<lparr> sdp_response_buffer := buf \<rparr>) } }"

definition sdp_handle_service_attribute_request :: "sdp_server \<Rightarrow> buffer \<Rightarrow> u16 \<Rightarrow> (u16 \<times> sdp_server) option" where
  "sdp_handle_service_attribute_request s packet remote_mtu = do {
     transaction_id \<leftarrow> read_u16 packet 1;
     param_len \<leftarrow> read_u16 packet 3;
     if param_len < 6 then Some (0, s)
     else do {
       serviceRecordHandle \<leftarrow> big_endian_read_32 packet 5;
       maximumAttributeByteCount \<leftarrow> read_u16 packet 9;
       let param_len = param_len - 6;
       attributeIDList \<leftarrow> ptr_add packet 11;
       attributeIDListLen \<leftarrow> map_option to16 (de_get_len_safe attributeIDList (to32 param_len));
       if attributeIDListLen = 0 then Some (0, s)
       else do {
         let param_len = param_len - attributeIDListLen;
         if param_len < 1 then Some (0, s)
         else do {
           continuationState \<leftarrow> ptr_add packet (11 + uint attributeIDListLen);
           continuationLen \<leftarrow> rd continuationState 0;
           if 1 + unat continuationLen > unat param_len then Some (0, s)
           else do {
             let maximumAttributeByteCount2 = remote_mtu - (7 + 3);
             let maximumAttributeByteCount = (if maximumAttributeByteCount2 < maximumAttributeByteCount
                                              then maximumAttributeByteCount2 else maximumAttributeByteCount);
             continuation_offset \<leftarrow> (if continuationLen = 2 then read_u16 continuationState 1 else Some 0);
             service_attribute_response s transaction_id serviceRecordHandle maximumAttributeByteCount attributeIDList
               continuation_offset } } } } }"

section \<open>Attributes of all records that match\<close>

partial_function (option) size_from :: "sdp_server \<Rightarrow> buffer \<Rightarrow> buffer \<Rightarrow> addr \<Rightarrow> u16 \<Rightarrow> u16 option" where
  "size_from s serviceSearchPattern attributeIDList it total_response_size =
     (if it = NULL then Some total_response_size
      else do {
        item \<leftarrow> sdp_items s it;
        n \<leftarrow> sdp_nodes s it;
        matches \<leftarrow> sdp_record_matches_service_search_pattern (service_record item) serviceSearchPattern;
        if matches = 0 then size_from s serviceSearchPattern attributeIDList n total_response_size
        else do {
          filtered_size \<leftarrow> spd_get_filtered_size (service_record item) attributeIDList;
          size_from s serviceSearchPattern attributeIDList n
            (word_of_int (uint total_response_size + (3 + filtered_size))) } })"

definition sdp_get_size_for_service_search_attribute_response :: "sdp_server \<Rightarrow> buffer \<Rightarrow> buffer \<Rightarrow> u16 option" where
  "sdp_get_size_for_service_search_attribute_response s serviceSearchPattern attributeIDList = do {
     it \<leftarrow> sdp_nodes s (sdp_service_records s);
     size_from s serviceSearchPattern attributeIDList it 0 }"

text \<open>The variables of the loop that collects the attribute lists, and its body.\<close>

record attribute_lists =
  al_buffer :: buffer
  al_pos :: u16
  al_maximumAttributeByteCount :: u16
  al_first_answer :: bool
  al_continuation :: bool
  al_current_service_index :: u16
  al_continuation_offset :: u16

definition attribute_lists_body ::
    "buffer \<Rightarrow> buffer \<Rightarrow> u16 \<Rightarrow> service_record_item \<Rightarrow> attribute_lists \<Rightarrow> (bool \<times> attribute_lists) option" where
  "attribute_lists_body serviceSearchPattern attributeIDList continuation_service_index item c =
     (if al_current_service_index c < continuation_service_index then Some (True, c)
      else do {
        matches \<leftarrow> sdp_record_matches_service_search_pattern (service_record item) serviceSearchPattern;
        if matches = 0 then Some (True, c)
        else do {
          (stop, c) \<leftarrow>
            (if al_continuation_offset c = 0 then do {
               filtered_attributes_size \<leftarrow>
                 map_option word_of_int (spd_get_filtered_size (service_record item) attributeIDList);
               if unat (filtered_attributes_size :: u16) + 3 > unat (al_maximumAttributeByteCount c) \<and> \<not> al_first_answer c
               then Some (True, c\<lparr> al_continuation := True \<rparr>)
               else do {
                 buf \<leftarrow> at_offset (unat (al_pos c))
                   (de_store_descriptor_with_len DE_DES DE_SIZE_VAR_16 (to32 filtered_attributes_size)) (al_buffer c);
                 Some (False, c\<lparr> al_buffer := buf, al_pos := al_pos c + 3,
                   al_maximumAttributeByteCount := al_maximumAttributeByteCount c - 3 \<rparr>) } }
             else Some (False, c));
          if stop then Some (False, c)
          else do {
            let c = c\<lparr> al_first_answer := False \<rparr>;
            (complete, bytes_used, buf) \<leftarrow> at_pointer (unat (al_pos c))
              (sdp_filter_attributes_in_attributeIDList (service_record item) attributeIDList (al_continuation_offset c)
                (al_maximumAttributeByteCount c)) (al_buffer c);
            let c = c\<lparr> al_buffer := buf, al_pos := al_pos c + bytes_used,
                       al_maximumAttributeByteCount := al_maximumAttributeByteCount c - bytes_used \<rparr>;
            if complete \<noteq> 0 then Some (True, c\<lparr> al_continuation_offset := 0 \<rparr>)
            else Some (False, c\<lparr> al_continuation := True,
                   al_continuation_offset := al_continuation_offset c + bytes_used \<rparr>) } } })"

partial_function (option) attribute_lists_from ::
    "sdp_server \<Rightarrow> (service_record_item \<Rightarrow> attribute_lists \<Rightarrow> (bool \<times> attribute_lists) option) \<Rightarrow> addr \<Rightarrow> attribute_lists
       \<Rightarrow> attribute_lists option" where
  "attribute_lists_from s body it c =
     (if it = NULL then Some c
      else do {
        item \<leftarrow> sdp_items s it;
        (go_on, c) \<leftarrow> body item c;
        if \<not> go_on then Some c
        else do {
          n \<leftarrow> sdp_nodes s it;
          attribute_lists_from s body n (c\<lparr> al_current_service_index := al_current_service_index c + 1 \<rparr>) } })"

definition service_search_attribute_response ::
    "sdp_server \<Rightarrow> u16 \<Rightarrow> buffer \<Rightarrow> u16 \<Rightarrow> buffer \<Rightarrow> u16 \<Rightarrow> u16 \<Rightarrow> (u16 \<times> sdp_server) option" where
  "service_search_attribute_response s transaction_id serviceSearchPattern maximumAttributeByteCount attributeIDList
     continuation_service_index continuation_offset = do {
     let buf = sdp_response_buffer s;
     (buf, pos, maximumAttributeByteCount) \<leftarrow>
       (if continuation_service_index = 0 \<and> continuation_offset = 0 then do {
          total_response_size \<leftarrow> sdp_get_size_for_service_search_attribute_response s serviceSearchPattern attributeIDList;
          buf \<leftarrow> at_offset 7 (de_store_descriptor_with_len DE_DES DE_SIZE_VAR_16 (to32 total_response_size)) buf;
          Some (buf, 7 + 3, maximumAttributeByteCount - 3) }
        else Some (buf, 7, maximumAttributeByteCount));
     it \<leftarrow> sdp_nodes s (sdp_service_records s);
     c \<leftarrow> attribute_lists_from s (attribute_lists_body serviceSearchPattern attributeIDList continuation_service_index) it
       \<lparr> al_buffer = buf, al_pos = pos, al_maximumAttributeByteCount = maximumAttributeByteCount, al_first_answer = True,
         al_continuation = False, al_current_service_index = 0, al_continuation_offset = continuation_offset \<rparr>;
     let pos = al_pos c;
     let attributeListsByteCount = pos - 7;
     (buf, pos) \<leftarrow>
       (if al_continuation c then do {
          buf \<leftarrow> wr (al_buffer c) (unat pos) 4;
          buf \<leftarrow> big_endian_store_16 buf (pos + 1) (al_current_service_index c);
          buf \<leftarrow> big_endian_store_16 buf (pos + 1 + 2) (al_continuation_offset c);
          Some (buf, pos + 1 + 2 + 2) }
        else do { buf \<leftarrow> wr (al_buffer c) (unat pos) 0; Some (buf, pos + 1) });
     buf \<leftarrow> wr buf 0 7;
     buf \<leftarrow> big_endian_store_16 buf 1 transaction_id;
     buf \<leftarrow> big_endian_store_16 buf 3 (pos - 5);
     buf \<leftarrow> big_endian_store_16 buf 5 attributeListsByteCount;
     Some (pos, s\<lparr> sdp_response_buffer := buf \<rparr>) }"

text \<open>The length of the attribute identifiers is not taken off \<open>param_len\<close> here.\<close>

definition sdp_handle_service_search_attribute_request :: "sdp_server \<Rightarrow> buffer \<Rightarrow> u16 \<Rightarrow> (u16 \<times> sdp_server) option" where
  "sdp_handle_service_search_attribute_request s packet remote_mtu = do {
     transaction_id \<leftarrow> read_u16 packet 1;
     param_len \<leftarrow> read_u16 packet 3;
     serviceSearchPattern \<leftarrow> ptr_add packet 5;
     serviceSearchPatternLen \<leftarrow> map_option to16 (de_get_len_safe serviceSearchPattern (to32 param_len));
     if serviceSearchPatternLen = 0 then Some (0, s)
     else do {
       let param_len = param_len - serviceSearchPatternLen;
       if param_len < 2 then Some (0, s)
       else do {
         maximumAttributeByteCount \<leftarrow> read_u16 packet (5 + unat serviceSearchPatternLen);
         let param_len = param_len - 2;
         attributeIDList \<leftarrow> ptr_add packet (5 + uint serviceSearchPatternLen + 2);
         attributeIDListLen \<leftarrow> map_option to16 (de_get_len_safe attributeIDList (to32 param_len));
         if attributeIDListLen = 0 then Some (0, s)
         else if param_len < 1 then Some (0, s)
         else do {
           continuationState \<leftarrow> ptr_add packet (5 + uint serviceSearchPatternLen + 2 + uint attributeIDListLen);
           continuationLen \<leftarrow> rd continuationState 0;
           if 1 + unat continuationLen > unat param_len then Some (0, s)
           else do {
             let maximumAttributeByteCount2 = remote_mtu - 12;
             let maximumAttributeByteCount = (if maximumAttributeByteCount2 < maximumAttributeByteCount
                                              then maximumAttributeByteCount2 else maximumAttributeByteCount);
             (continuation_service_index, continuation_offset) \<leftarrow>
               (if continuationLen = 4 then do {
                  i \<leftarrow> read_u16 continuationState 1;
                  off \<leftarrow> read_u16 continuationState 3;
                  Some (i, off) }
                else Some (0, 0));
             service_search_attribute_response s transaction_id serviceSearchPattern maximumAttributeByteCount attributeIDList
               continuation_service_index continuation_offset } } } } }"

section \<open>The packet handler\<close>

definition sdp_respond :: "sdp_server \<Rightarrow> sdp_server option" where
  "sdp_respond s =
     (if sdp_response_size s = 0 then Some s
      else if l2cap_cid s = 0 then Some s
      else do {
        let sz = sdp_response_size s;
        response \<leftarrow> rd_range (sdp_response_buffer s) 0 (unat sz);
        Some (call_l2cap (Send (l2cap_cid s) response) (s\<lparr> sdp_response_size := 0 \<rparr>)) })"

definition sdp_request :: "(u16 \<Rightarrow> u16) \<Rightarrow> sdp_server \<Rightarrow> u16 \<Rightarrow> buffer \<Rightarrow> u16 \<Rightarrow> sdp_server option" where
  "sdp_request mtu_of s channel packet sz = do {
     pdu_id \<leftarrow> rd packet 0;
     transaction_id \<leftarrow> read_u16 packet 1;
     param_len \<leftarrow> read_u16 packet 3;
     let remote_mtu = mtu_of channel;
     let remote_mtu = (if unat remote_mtu > length (sdp_response_buffer s) then of_nat (length (sdp_response_buffer s))
                       else remote_mtu);
     let pdu_id = (if unat param_len + 5 > unat sz then 1 else pdu_id);
     (response_size, s) \<leftarrow>
       (if pdu_id = 2 then sdp_handle_service_search_request s packet remote_mtu
        else if pdu_id = 4 then sdp_handle_service_attribute_request s packet remote_mtu
        else if pdu_id = 6 then sdp_handle_service_search_attribute_request s packet remote_mtu
        else sdp_create_error_response s transaction_id 3);
     let s = s\<lparr> sdp_response_size := response_size \<rparr>;
     if response_size = 0 then Some s
     else Some (call_l2cap (Request_can_send_now (l2cap_cid s)) s) }"

definition sdp_packet_handler :: "(u16 \<Rightarrow> u16) \<Rightarrow> sdp_server \<Rightarrow> u8 \<Rightarrow> u16 \<Rightarrow> buffer \<Rightarrow> u16 \<Rightarrow> sdp_server option" where
  "sdp_packet_handler mtu_of s packet_type channel packet sz =
     (if packet_type = 6 then sdp_request mtu_of s channel packet sz
      else if packet_type = 4 then do {
        event \<leftarrow> rd packet 0;
        if event = 0x72 then
          if l2cap_cid s \<noteq> 0 then Some (call_l2cap (Decline_connection channel) s)
          else Some (call_l2cap (Accept_connection channel) (s\<lparr> l2cap_cid := channel, sdp_response_size := 0 \<rparr>))
        else if event = 0x70 then do {
          status \<leftarrow> rd packet 2;
          Some (if status \<noteq> 0 then s\<lparr> l2cap_cid := 0 \<rparr> else s) }
        else if event = 0x78 then sdp_respond s
        else if event = 0x71 then Some (if channel = l2cap_cid s then s\<lparr> l2cap_cid := 0 \<rparr> else s)
        else Some s }
      else Some s)"

end
