(* ===== verification/Sdp_Spec.thy ===== *)
theory Sdp_Spec
  imports Sdp_Util
begin

text \<open>
  What the bytes of service records mean: data elements as a datatype, their encoding, and the traversals of sequences
  and attribute lists as walks along lists of elements.
\<close>

section \<open>Data elements\<close>

text \<open>An element that is not a sequence has type, size code and data; a sequence has the size code of its length.\<close>

datatype de = Item u8 u8 buffer | Seq u8 "de list"

definition be_16 :: "u16 \<Rightarrow> buffer" where "be_16 v = [to8 (drop_bit 8 v), to8 v]"

definition be_32 :: "u32 \<Rightarrow> buffer" where
  "be_32 v = [to8 (drop_bit 24 v), to8 (drop_bit 16 v), to8 (drop_bit 8 v), to8 v]"

definition de_length :: "u8 \<Rightarrow> nat \<Rightarrow> buffer" where
  "de_length s n =
     (if s = 5 then [of_nat n] else if s = 6 then be_16 (of_nat n) else if s = 7 then be_32 (of_nat n) else [])"

definition de_header :: "u8 \<Rightarrow> u8 \<Rightarrow> nat \<Rightarrow> buffer" where
  "de_header t s n = (push_bit 3 t OR s) # de_length s n"

fun de_bytes :: "de \<Rightarrow> buffer" where
  "de_bytes (Item t s d) = de_header t s (length d) @ d"
| "de_bytes (Seq s es) = de_header 6 s (length (concat (map de_bytes es))) @ concat (map de_bytes es)"

definition size_fits :: "u8 \<Rightarrow> u8 \<Rightarrow> nat \<Rightarrow> bool" where
  "size_fits t s n \<longleftrightarrow>
     (if s < 5 then n = (if t = 0 then 0 else 2 ^ unat s)
      else if s = 5 then n < 2 ^ 8 else if s = 6 then n < 2 ^ 16 else s = 7 \<and> n < 2 ^ 31 - 5)"

fun de_ok :: "de \<Rightarrow> bool" where
  "de_ok (Item t s d) \<longleftrightarrow> t < 32 \<and> t \<noteq> 6 \<and> size_fits t s (length d)"
| "de_ok (Seq s es) \<longleftrightarrow> 5 \<le> s \<and> size_fits 6 s (length (concat (map de_bytes es))) \<and> list_all de_ok es"

fun de_type_of :: "de \<Rightarrow> u8" where
  "de_type_of (Item t s d) = t" | "de_type_of (Seq s es) = 6"

fun de_size_of :: "de \<Rightarrow> u8" where
  "de_size_of (Item t s d) = s" | "de_size_of (Seq s es) = s"

section \<open>Reading headers\<close>

lemma be_16_length [simp]: "length (be_16 v) = 2" by (simp add: be_16_def)
lemma be_32_length [simp]: "length (be_32 v) = 4" by (simp add: be_32_def)

lemma read_be_16: "big_endian_read_16 (xs @ be_16 v @ rest) (length xs) = Some (to32 v)"
  by (simp add: big_endian_read_16_def rd_def be_16_def nth_append join_16)

lemma read_be_16_1 [simp]: "big_endian_read_16 (x # be_16 v @ rest) (Suc 0) = Some (to32 v)"
  using read_be_16 [of "[x]" v rest] by simp

lemma read_be_32_1 [simp]: "big_endian_read_32 (x # be_32 v @ rest) (Suc 0) = Some v"
  by (simp add: big_endian_read_32_def rd_def be_32_def join_32)

lemma size_fits_less: "size_fits t s n \<Longrightarrow> s < 8"
  by (auto simp: size_fits_def word_less_nat_alt split: if_splits)

lemma bit_below:
  fixes w :: "'a::len word"
  assumes "unat w < 2 ^ k" and "bit w n"
  shows "n < k"
proof (rule ccontr)
  assume "\<not> n < k"
  then have "(2 :: nat) ^ k \<le> 2 ^ n" by simp
  then have "unat w div 2 ^ n = 0" using assms(1) by (meson div_less less_le_trans)
  then have "\<not> bit (unat w) n" by (simp add: bit_iff_odd)
  then show False using assms(2) by (simp add: bit_unsigned_iff bit_imp_le_length)
qed

lemma header_byte:
  assumes "t < 32" and "s < (8 :: u8)"
  shows "(push_bit 3 t OR s) AND 7 = s" and "drop_bit 3 (push_bit 3 t OR s) = t"
proof -
  have "unat t < 2 ^ 5" "unat s < 2 ^ 3" using assms by (simp_all add: word_less_nat_alt)
  note bt = bit_below [OF this(1)] and bs = bit_below [OF this(2)]
  have m: "(7 :: u8) = mask 3" by (simp add: mask_eq_exp_minus_1)
  show "(push_bit 3 t OR s) AND 7 = s"
    unfolding m by (rule bit_word_eqI) (use bs in \<open>auto simp: bit_simps\<close>)
  show "drop_bit 3 (push_bit 3 t OR s) = t"
    by (rule bit_word_eqI) (use bt bs in \<open>fastforce simp: bit_simps\<close>)
qed

definition header_length :: "u8 \<Rightarrow> nat" where
  "header_length s = (if s = 5 then 2 else if s = 6 then 3 else if s = 7 then 5 else 1)"

lemma de_header_length [simp]: "length (de_header t s n) = header_length s"
  by (simp add: de_header_def de_length_def header_length_def)

lemma u8_less_8: "s < (8 :: u8) \<Longrightarrow> s = 0 \<or> s = 1 \<or> s = 2 \<or> s = 3 \<or> s = 4 \<or> s = 5 \<or> s = 6 \<or> s = 7"
proof -
  assume "s < 8"
  then have "unat s < 8" by (simp add: word_less_nat_alt)
  then have "unat s \<in> {0, 1, 2, 3, 4, 5, 6, 7}" by auto
  then have "s \<in> of_nat ` {0, 1, 2, 3, 4, 5, 6, 7}" by (metis imageI of_nat_unat ucast_id)
  then show ?thesis by simp
qed

lemma read_header:
  assumes "t < 32" and "size_fits t s n"
  shows "de_get_element_type (de_header t s n @ rest) = Some t"
    and "de_get_size_type (de_header t s n @ rest) = Some s"
    and "de_get_header_size (de_header t s n @ rest) = Some (of_nat (header_length s))"
    and "de_get_data_size (de_header t s n @ rest) = Some (of_nat n)"
proof -
  have s: "s < 8" by (rule size_fits_less [OF assms(2)])
  define h where "h = push_bit 3 t OR s"
  have hd: "de_header t s n = h # de_length s n" by (simp add: de_header_def h_def)
  have ty: "de_get_element_type (h # xs) = Some t" and sz: "de_get_size_type (h # xs) = Some s" for xs
    using header_byte [OF assms(1) s]
    by (simp_all add: de_get_element_type_def de_get_size_type_def rd_def h_def del: push_bit_eq_mult)
  show "de_get_element_type (de_header t s n @ rest) = Some t" "de_get_size_type (de_header t s n @ rest) = Some s"
    by (simp_all add: hd ty sz)
  show "de_get_header_size (de_header t s n @ rest) = Some (of_nat (header_length s))"
    using u8_less_8 [OF s] by (auto simp: de_get_header_size_def hd sz header_length_def push_bit_eq_mult)
  show "de_get_data_size (de_header t s n @ rest) = Some (of_nat n)"
    using u8_less_8 [OF s] assms(2) unfolding hd
    by (elim disjE) (simp_all add: de_get_data_size_def ty sz size_fits_def de_length_def rd_def push_bit_eq_mult
        unsigned_of_nat take_bit_nat_eq_self)
qed

lemma de_shape:
  assumes "de_ok e"
  obtains d where "de_bytes e = de_header (de_type_of e) (de_size_of e) (length d) @ d" and "de_type_of e < 32"
    and "size_fits (de_type_of e) (de_size_of e) (length d)"
  using assms by (cases e) (auto simp: word_less_nat_alt)

lemma size_fits_bound:
  assumes "size_fits t s n"
  shows "header_length s + n < 2147483648"
  using u8_less_8 [OF size_fits_less [OF assms]] assms
  by (elim disjE) (simp_all add: size_fits_def header_length_def)

lemma read_element:
  assumes "de_ok e"
  shows "de_get_element_type (de_bytes e @ rest) = Some (de_type_of e)"
    and "de_get_size_type (de_bytes e @ rest) = Some (de_size_of e)"
    and "de_get_header_size (de_bytes e @ rest) = Some (of_nat (header_length (de_size_of e)))"
    and "de_get_len (de_bytes e @ rest) = Some (int (length (de_bytes e)))"
proof -
  obtain d where d: "de_bytes e = de_header (de_type_of e) (de_size_of e) (length d) @ d" "de_type_of e < 32"
    "size_fits (de_type_of e) (de_size_of e) (length d)" by (rule de_shape [OF assms])
  note r = read_header [OF d(2,3), of "d @ rest"]
  show "de_get_element_type (de_bytes e @ rest) = Some (de_type_of e)"
    "de_get_size_type (de_bytes e @ rest) = Some (de_size_of e)"
    "de_get_header_size (de_bytes e @ rest) = Some (of_nat (header_length (de_size_of e)))"
    using r unfolding d(1) by simp_all
  have "de_get_len (de_bytes e @ rest)
      = Some (sint (of_nat (header_length (de_size_of e)) + of_nat (length d) :: u32))"
    using r unfolding d(1) by (simp add: de_get_len_def)
  also have "\<dots> = Some (int (length (de_bytes e)))"
    using sint_of_nat_u32 [OF size_fits_bound [OF d(3)]] unfolding d(1) by simp
  finally show "de_get_len (de_bytes e @ rest) = Some (int (length (de_bytes e)))" .
qed

lemma de_bytes_pos: "de_ok e \<Longrightarrow> 0 < length (de_bytes e)"
  by (erule de_shape) (simp add: header_length_def)

lemma de_bytes_bound: "de_ok e \<Longrightarrow> length (de_bytes e) < 2147483648"
  by (erule de_shape) (metis size_fits_bound de_header_length length_append)

section \<open>Walking a sequence\<close>

abbreviation body :: "de list \<Rightarrow> buffer" where "body es \<equiv> concat (map de_bytes es)"

fun visit :: "(de \<Rightarrow> 's \<Rightarrow> (int \<times> 's) option) \<Rightarrow> de list \<Rightarrow> 's \<Rightarrow> 's option" where
  "visit h [] c = Some c"
| "visit h (e # es) c = do {
     (r, c) \<leftarrow> h e c;
     if (word_of_int r :: u8) \<noteq> 0 then Some c else visit h es c }"

text \<open>A callback acts on elements, in contexts of a certain kind, when it looks at no more than the element.\<close>

definition acts_on :: "(buffer \<Rightarrow> u8 \<Rightarrow> u8 \<Rightarrow> 's \<Rightarrow> (int \<times> 's) option) \<Rightarrow> (de \<Rightarrow> 's \<Rightarrow> (int \<times> 's) option) \<Rightarrow>
    de list \<Rightarrow> ('s \<Rightarrow> bool) \<Rightarrow> bool" where
  "acts_on handler h es I \<longleftrightarrow>
     (\<forall>e \<in> set es. \<forall>rest c. I c \<longrightarrow> handler (de_bytes e @ rest) (de_type_of e) (de_size_of e) c = h e c
        \<and> (\<forall>r c'. h e c = Some (r, c') \<longrightarrow> I c'))"

lemma acts_on_Cons:
  assumes "acts_on handler h (e # es) I"
  shows "acts_on handler h es I"
    and "I c \<Longrightarrow> handler (de_bytes e @ rest) (de_type_of e) (de_size_of e) c = h e c"
    and "I c \<Longrightarrow> h e c = Some (r, c') \<Longrightarrow> I c'"
  using assms unfolding acts_on_def by (meson list.set_intros)+

lemma traverse_from_visit:
  assumes "acts_on handler h es I" and "I c" and "list_all de_ok es" and "length (pre @ body es) < 2147483648"
  shows "traverse_from (pre @ body es @ rest) handler (int (length pre)) (int (length (pre @ body es))) c = visit h es c"
  using assms
proof (induction es arbitrary: pre c)
  case Nil
  then show ?case by (subst traverse_from.simps) simp
next
  case (Cons e es)
  let ?el = "pre @ body (e # es) @ rest" and ?ep = "int (length (pre @ body (e # es)))"
  have ok: "de_ok e" and oks: "list_all de_ok es" using Cons.prems(3) by simp_all
  have acts: "acts_on handler h es I" by (rule acts_on_Cons(1) [OF Cons.prems(1)])
  have "length pre < length (pre @ body (e # es))" using de_bytes_pos [OF ok] by simp
  then have lt: "\<not> ?ep \<le> int (length pre)" by linarith
  have p: "ptr_add (pre @ de_bytes e @ body es @ rest) (int (length pre)) = Some (de_bytes e @ body es @ rest)"
    by (simp add: ptr_add_def)
  have h: "handler (de_bytes e @ body es @ rest) (de_type_of e) (de_size_of e) c = h e c"
    by (rule acts_on_Cons(2) [OF Cons.prems(1,2)])
  have a: "int_add (int (length pre)) (int (length (de_bytes e))) = Some (int (length pre) + int (length (de_bytes e)))"
    using Cons.prems(4) by (simp add: int_add_def)
  have "traverse_from ?el handler (int (length pre)) ?ep c = do {
      (r, c) \<leftarrow> h e c;
      if (word_of_int r :: u8) \<noteq> 0 then Some c
      else traverse_from ?el handler (int (length (pre @ de_bytes e))) ?ep c }"
    using lt by (subst traverse_from.simps) (simp add: p read_element [OF ok] h a cong: if_cong)
  also have "\<dots> = visit h (e # es) c"
  proof (cases "h e c")
    case (Some rc)
    obtain r c' where rc: "rc = (r, c')" by (cases rc)
    have "I c'" by (rule acts_on_Cons(3) [OF Cons.prems(1,2)]) (simp add: Some rc)
    then have "traverse_from ?el handler (int (length (pre @ de_bytes e))) ?ep c' = visit h es c'"
      using Cons.IH [OF acts _ oks, of c' "pre @ de_bytes e"] Cons.prems(4) by simp
    then show ?thesis using Some rc by simp
  qed simp
  finally show ?case .
qed

lemma de_traverse_visit:
  assumes "de_ok (Seq s es)" and "acts_on handler h es I" and "I c"
  shows "de_traverse_sequence (de_bytes (Seq s es) @ rest) handler c = visit h es c"
proof -
  note r = read_element [OF assms(1), of rest]
  have hl: "sint (of_nat (header_length s) :: u32) = int (header_length s)"
    by (rule sint_of_nat_u32) (simp add: header_length_def)
  have "length (de_header 6 s (length (body es)) @ body es) < 2147483648" using de_bytes_bound [OF assms(1)] by simp
  from traverse_from_visit [OF assms(2,3) _ this, of rest] assms(1)
  show ?thesis using r by (simp add: de_traverse_sequence_def hl)
qed

section \<open>Walking an attribute list\<close>

type_synonym attribute_list = "(u16 \<times> de) list"

abbreviation id_item :: "u16 \<Rightarrow> de" where "id_item i \<equiv> Item 1 1 (be_16 i)"

fun attribute_items :: "u16 \<times> de \<Rightarrow> de list" where "attribute_items (i, v) = [id_item i, v]"

abbreviation record_items :: "attribute_list \<Rightarrow> de list" where
  "record_items as \<equiv> concat (map attribute_items as)"

fun attribute_bytes :: "u16 \<times> de \<Rightarrow> buffer" where "attribute_bytes (i, v) = de_bytes (id_item i) @ de_bytes v"

fun visit_attributes_at :: "(u16 \<Rightarrow> de \<Rightarrow> buffer \<Rightarrow> 's \<Rightarrow> (int \<times> 's) option) \<Rightarrow> attribute_list \<Rightarrow> buffer \<Rightarrow> 's \<Rightarrow> 's option" where
  "visit_attributes_at h [] rest c = Some c"
| "visit_attributes_at h ((i, v) # as) rest c = do {
     (r, c) \<leftarrow> h i v (body (record_items as) @ rest) c;
     if (word_of_int r :: u8) \<noteq> 0 then Some c else visit_attributes_at h as rest c }"

text \<open>Most callbacks do not look behind the value.\<close>

fun visit_attributes :: "(u16 \<Rightarrow> de \<Rightarrow> 's \<Rightarrow> (int \<times> 's) option) \<Rightarrow> attribute_list \<Rightarrow> 's \<Rightarrow> 's option" where
  "visit_attributes h [] c = Some c"
| "visit_attributes h ((i, v) # as) c = do {
     (r, c) \<leftarrow> h i v c;
     if (word_of_int r :: u8) \<noteq> 0 then Some c else visit_attributes h as c }"

lemma visit_attributes_at_simple: "visit_attributes_at (\<lambda>i v _. h i v) as rest c = visit_attributes h as c"
proof (induction as arbitrary: c)
  case (Cons iv as)
  then show ?case by (cases iv) (simp cong: if_cong)
qed simp

definition acts_on_attributes :: "'s attribute_handler \<Rightarrow> (u16 \<Rightarrow> de \<Rightarrow> buffer \<Rightarrow> 's \<Rightarrow> (int \<times> 's) option) \<Rightarrow>
    attribute_list \<Rightarrow> ('s \<Rightarrow> bool) \<Rightarrow> bool" where
  "acts_on_attributes handler h as I \<longleftrightarrow>
     (\<forall>(i, v) \<in> set as. \<forall>rest c. I c \<longrightarrow> handler i (de_bytes v @ rest) (de_type_of v) (de_size_of v) c
        = map_option (\<lambda>(r, c). (r, de_bytes v @ rest, c)) (h i v rest c) \<and> (\<forall>r c'. h i v rest c = Some (r, c') \<longrightarrow> I c'))"

lemma acts_on_attributes_Cons:
  assumes "acts_on_attributes handler h ((i, v) # as) I"
  shows "acts_on_attributes handler h as I"
    and "I c \<Longrightarrow> handler i (de_bytes v @ rest) (de_type_of v) (de_size_of v) c
      = map_option (\<lambda>(r, c). (r, de_bytes v @ rest, c)) (h i v rest c)"
    and "I c \<Longrightarrow> h i v rest c = Some (r, c') \<Longrightarrow> I c'"
  using assms unfolding acts_on_attributes_def list.set by blast+

lemma id_item_bytes: "de_bytes (id_item i) = 0x09 # be_16 i" and id_item_ok [simp]: "de_ok (id_item i)"
  by (simp_all add: de_header_def de_length_def size_fits_def)

lemma attributes_from_visit:
  assumes "acts_on_attributes handler h as I" and "I c" and "\<forall>(i, v) \<in> set as. de_ok v"
    and "length (pre @ body (record_items as)) < 2147483648"
  shows "attributes_from (pre @ body (record_items as) @ rest) handler (int (length pre))
           (int (length (pre @ body (record_items as)))) c
         = map_option (Pair (pre @ body (record_items as) @ rest)) (visit_attributes_at h as rest c)"
  using assms
proof (induction as arbitrary: pre c)
  case Nil
  then show ?case by (subst attributes_from.simps) simp
next
  case (Cons iv as)
  obtain i v where iv: "iv = (i, v)" by (cases iv)
  let ?id = "de_bytes (id_item i)" and ?tl = "body (record_items as) @ rest"
  let ?el = "pre @ ?id @ de_bytes v @ ?tl"
  define ep where "ep = int (length (pre @ body (record_items (iv # as))))"
  have ok: "de_ok v" and oks: "\<forall>(i, v) \<in> set as. de_ok v" using Cons.prems(3) iv by auto
  have acts: "acts_on_attributes handler h as I" 
    and cons: "acts_on_attributes handler h ((i, v) # as) I"
    using acts_on_attributes_Cons(1) Cons.prems(1) unfolding iv by blast+
  have idl: "length ?id = 3" unfolding id_item_bytes by simp
  have el: "pre @ body (record_items (iv # as)) @ rest = ?el" by (simp add: iv)
  have "0 < length (de_bytes v)" by (rule de_bytes_pos [OF ok])
  then have lt: "\<not> ep \<le> int (length pre)" "\<not> ep \<le> int (length pre) + 3"
    unfolding ep_def iv by (simp_all only: attribute_items.simps list.map concat.simps length_append idl append.simps)
  have p: "ptr_add ?el (int (length pre)) = Some (?id @ de_bytes v @ ?tl)" by (simp add: ptr_add_def)
  have q: "ptr_add ?el (int (length pre) + 3) = Some (de_bytes v @ ?tl)"
    using idl by (simp add: ptr_add_def nat_add_distrib)
  have rd: "big_endian_read_16 (?id @ de_bytes v @ ?tl) (Suc 0) = Some (to32 i)" unfolding id_item_bytes by simp
  have sz: "length pre + 3 + length (de_bytes v) < 2147483648" using Cons.prems(4) idl by (simp add: iv)
  have a: "int_add (int (length pre)) 3 = Some (int (length pre) + 3)"
    "int_add (int (length pre) + 3) (int (length (de_bytes v))) = Some (int (length pre) + 3 + int (length (de_bytes v)))"
    using sz by (simp_all add: int_add_def)
  have h: "handler i (de_bytes v @ ?tl) (de_type_of v) (de_size_of v) c
      = map_option (\<lambda>(r, c). (r, de_bytes v @ ?tl, c)) (h i v ?tl c)"
    by (rule acts_on_attributes_Cons(2) [OF cons Cons.prems(2)])
  have t16: "to16 (to32 i) = i" by (rule bit_word_eqI) (simp add: bit_simps)
  have step: "attributes_from ?el handler (int (length pre)) ep c = do {
      (r, c) \<leftarrow> h i v ?tl c;
      if (word_of_int r :: u8) \<noteq> 0 then Some (?el, c)
      else attributes_from ?el handler (int (length pre) + 3 + int (length (de_bytes v))) ep c }"
  proof -
    note rid = read_element [OF id_item_ok [of i], of "de_bytes v @ ?tl"]
    note rv = read_element [OF ok, of ?tl]
    show ?thesis
      using lt by (subst attributes_from.simps, cases "h i v ?tl c")
        (auto simp: p q rd a h t16 rid(1,2) rv(1,2,4) Let_def idl nat_add_distrib simp del: de_bytes.simps cong: if_cong)
  qed
  have "attributes_from ?el handler (int (length pre) + 3 + int (length (de_bytes v))) ep c'
      = map_option (Pair ?el) (visit_attributes_at h as rest c')"
    if I': "I c'" for c'
    using Cons.IH [OF acts I' oks, of "pre @ ?id @ de_bytes v"] Cons.prems(4) idl
    by (simp add: iv ep_def el add.assoc del: de_bytes.simps)
  moreover have "I c'" if "h i v ?tl c = Some (r, c')" for r c'
    by (rule acts_on_attributes_Cons(3) [OF cons Cons.prems(2) that])
  ultimately show ?case
    unfolding el ep_def [symmetric] unfolding step iv by (cases "h i v ?tl c") (auto simp del: de_bytes.simps)
qed

lemma attribute_list_visit_at:
  assumes "de_ok (Seq s (record_items as))" and "acts_on_attributes handler h as I" and "I c"
  shows "sdp_attribute_list_traverse_sequence (de_bytes (Seq s (record_items as)) @ rest) handler c
    = map_option (Pair (de_bytes (Seq s (record_items as)) @ rest)) (visit_attributes_at h as rest c)"
proof -
  let ?r = "Seq s (record_items as)"
  note r = read_element [OF assms(1), of rest]
  have hl: "sint (of_nat (header_length s) :: u32) = int (header_length s)"
    by (rule sint_of_nat_u32) (simp add: header_length_def)
  have b: "length (de_header 6 s (length (body (record_items as))) @ body (record_items as)) < 2147483648"
    using de_bytes_bound [OF assms(1)] by simp
  have ok: "\<forall>(i, v) \<in> set as. de_ok v" using assms(1) by (fastforce simp: list_all_iff)
  from attributes_from_visit [OF assms(2,3) ok b, of rest]
  show ?thesis using r by (simp add: sdp_attribute_list_traverse_sequence_def hl)
qed

lemma attribute_list_visit:
  assumes "de_ok (Seq s (record_items as))" and "acts_on_attributes handler (\<lambda>i v _. h i v) as I" and "I c"
  shows "sdp_attribute_list_traverse_sequence (de_bytes (Seq s (record_items as)) @ rest) handler c
    = map_option (Pair (de_bytes (Seq s (record_items as)) @ rest)) (visit_attributes h as c)"
  using attribute_list_visit_at [OF assms] unfolding visit_attributes_at_simple .

end
