(* ===== verification/Sdp_Search.thy ===== *)
theory Sdp_Search
  imports Sdp_Spec
begin

text \<open>
  What the searches of the SDP server answer, over data elements: attribute identifiers in a list of identifiers and
  ranges, UUIDs anywhere in a record, and records that match a search pattern.
\<close>

section \<open>Identifiers and ranges\<close>

definition u16_be :: "buffer \<Rightarrow> nat \<Rightarrow> u16" where
  "u16_be d i = to16 (d ! (i + 1)) OR push_bit 8 (to16 (d ! i))"

fun covers :: "u16 \<Rightarrow> de \<Rightarrow> bool" where
  "covers i (Item t s d) \<longleftrightarrow> t = 1 \<and> (s = 1 \<and> u16_be d 0 = i \<or> s = 2 \<and> u16_be d 0 \<le> i \<and> i \<le> u16_be d 2)"
| "covers i (Seq s es) \<longleftrightarrow> False"

lemma read_16_data:
  "k + 1 < length d \<Longrightarrow> big_endian_read_16 (x # d @ rest) (Suc k) = Some (to32 (u16_be d k))"
  by (simp add: big_endian_read_16_def rd_def u16_be_def nth_append)

lemma unat_to32 [simp]: "unat (to32 (a :: u16)) = unat a"
proof -
  have "unat a < 2 ^ 32" by (rule order.strict_trans [OF unat_u16_less]) simp
  then show ?thesis by (simp add: unsigned_ucast_eq take_bit_nat_eq_self)
qed

lemma to32_u16 [simp]:
  fixes a b :: u16
  shows "to32 a = to32 b \<longleftrightarrow> a = b" and "to32 a \<le> to32 b \<longleftrightarrow> a \<le> b"
  by (metis unat_to32 word_unat_eq_iff) (simp add: word_le_nat_alt)

definition id_search :: "de \<Rightarrow> context_attributeID_search \<Rightarrow> (int \<times> context_attributeID_search) option" where
  "id_search e c =
     (if covers (search_attributeID c) e then Some (1, c\<lparr> search_result := 1 \<rparr>) else Some (0, c))"

lemma de_bytes_data:
  assumes "de_ok (Item t s d)" and "s < 5"
  shows "\<exists>x. de_bytes (Item t s d) = x # d" and "t \<noteq> 0 \<Longrightarrow> length d = 2 ^ unat s"
proof -
  have "s \<noteq> 5" "s \<noteq> 6" "s \<noteq> 7" using assms(2) by auto
  then show "\<exists>x. de_bytes (Item t s d) = x # d" by (simp add: de_header_def de_length_def)
  show "t \<noteq> 0 \<Longrightarrow> length d = 2 ^ unat s" using assms by (simp add: size_fits_def)
qed

lemma id_search_acts: "list_all de_ok es \<Longrightarrow> acts_on sdp_traversal_attributeID_search id_search es (\<lambda>_. True)"
  unfolding acts_on_def
proof (intro ballI allI)
  fix e rest and c :: context_attributeID_search
  assume ok: "list_all de_ok es" and "e \<in> set es"
  then have ok: "de_ok e" by (auto simp: list_all_iff)
  have "sdp_traversal_attributeID_search (de_bytes e @ rest) (de_type_of e) (de_size_of e) c = id_search e c"
  proof (cases e)
    case (Seq s es)
    then show ?thesis by (simp add: sdp_traversal_attributeID_search_def id_search_def)
  next
    case (Item t s d)
    consider "t \<noteq> 1" | "s \<noteq> 1" "s \<noteq> 2" | "t = 1" "s = 1" | "t = 1" "s = 2" by blast
    then show ?thesis
    proof cases
      case 3
      then obtain x where "de_bytes e = x # d" "length d = 2"
        using de_bytes_data [of t s d] ok Item by fastforce
      then show ?thesis
        using 3 Item read_16_data [of 0 d x rest] by (simp add: sdp_traversal_attributeID_search_def id_search_def)
    next
      case 4
      then obtain x where "de_bytes e = x # d" "length d = 4"
        using de_bytes_data [of t s d] ok Item by fastforce
      then show ?thesis
        using 4 Item read_16_data [of 0 d x rest] read_16_data [of 2 d x rest]
        by (simp add: sdp_traversal_attributeID_search_def id_search_def eval_nat_numeral)
    qed (use Item in \<open>simp_all add: sdp_traversal_attributeID_search_def id_search_def\<close>)
  qed
  then show "True \<longrightarrow> sdp_traversal_attributeID_search (de_bytes e @ rest) (de_type_of e) (de_size_of e) c = id_search e c
      \<and> (\<forall>r c'. id_search e c = Some (r, c') \<longrightarrow> True)" by simp
qed

lemma visit_id_search:
  "search_result c = 0 \<Longrightarrow> map_option search_result (visit id_search es c)
     = Some (if \<exists>e \<in> set es. covers (search_attributeID c) e then 1 else 0)"
  by (induction es) (auto simp: id_search_def)

lemma constains_id:
  assumes "de_ok (Seq s ids)"
  shows "sdp_attribute_list_constains_id (de_bytes (Seq s ids) @ rest) i
    = Some (if \<exists>e \<in> set ids. covers i e then 1 else 0)"
  using assms visit_id_search [of "\<lparr> search_result = 0, search_attributeID = i \<rparr>" ids]
  by (subst sdp_attribute_list_constains_id_def, subst de_traverse_visit [OF assms id_search_acts TrueI]) simp_all

section \<open>UUIDs\<close>

fun uuid_of :: "de \<Rightarrow> buffer option" where
  "uuid_of (Item t s d) =
     (if t \<noteq> 3 then None
      else if s = 1 then Some ([0, 0] @ d @ drop 4 bluetooth_base_uuid)
      else if s = 2 then Some (d @ drop 4 bluetooth_base_uuid)
      else if s = 4 then Some d else None)"
| "uuid_of (Seq s es) = None"

text \<open>The UUIDs of an element, those of sequences inside included.\<close>

fun uuids :: "de \<Rightarrow> buffer set" where
  "uuids (Item t s d) = set_option (uuid_of (Item t s d))"
| "uuids (Seq s es) = \<Union> (set (map uuids es))"

lemma split_16:
  fixes a b :: u8
  defines "v \<equiv> to32 (to16 b OR push_bit 8 (to16 a))"
  shows "to8 (drop_bit 24 v) = 0" and "to8 (drop_bit 16 v) = 0" and "to8 (drop_bit 8 v) = a" and "to8 v = b"
  unfolding v_def by (rule bit_word_eqI; auto simp: bit_simps dest: bit_imp_le_length)+

lemma split_32:
  fixes a b c d :: u8
  defines "v \<equiv> to32 d OR push_bit 8 (to32 c) OR push_bit 16 (to32 b) OR push_bit 24 (to32 a)"
  shows "to8 (drop_bit 24 v) = a" and "to8 (drop_bit 16 v) = b" and "to8 (drop_bit 8 v) = c" and "to8 v = d"
  unfolding v_def by (rule bit_word_eqI; auto simp: bit_simps dest: bit_imp_le_length)+

lemma normalized_uuid:
  assumes "de_ok e" and "length j = 16"
  shows "de_get_normalized_uuid j (de_bytes e @ rest) = Some (case uuid_of e of Some u \<Rightarrow> (1, u) | None \<Rightarrow> (0, j))"
proof (cases e)
  case (Seq s es)
  then show ?thesis using read_element [OF assms(1), of rest] by (simp add: de_get_normalized_uuid_def del: de_bytes.simps)
next
  case (Item t s d)
  note r = read_element [OF assms(1), of rest]
  have ty: "de_type_of e = t" "de_size_of e = s" using Item by simp_all
  show ?thesis
  proof (cases "t = 3 \<and> (s = 1 \<or> s = 2 \<or> s = 4)")
    case False
    then show ?thesis using r by (auto simp: de_get_normalized_uuid_def Item simp del: de_bytes.simps)
  next
    case True
    then have "s < 5" by auto
    then obtain x where x: "de_bytes e = x # d" and l: "length d = 2 ^ unat s"
      using de_bytes_data [of t s d] assms(1) True Item by auto
    consider "t = 3" "s = 1" | "t = 3" "s = 2" | "t = 3" "s = 4" using True by blast
    then show ?thesis
    proof cases
      case 1
      then obtain a b where d: "d = [a, b]" using l by (auto simp: numeral_2_eq_2 length_Suc_conv)
      have "big_endian_read_16 (de_bytes e @ rest) 1 = Some (to32 (to16 b OR push_bit 8 (to16 a)))"
        by (simp add: x d big_endian_read_16_def rd_def)
      then show ?thesis using r 1 d Item
        by (simp add: de_get_normalized_uuid_def uuid_add_bluetooth_prefix_eq [OF assms(2)] split_16 del: de_bytes.simps)
    next
      case 2
      then have "length d = 4" using l by simp
      then obtain a b c e' where d: "d = [a, b, c, e']" by (auto simp: eval_nat_numeral length_Suc_conv)
      obtain v where "big_endian_read_32 (de_bytes e @ rest) 1 = Some v" and v: "to8 (drop_bit 24 v) = a"
        "to8 (drop_bit 16 v) = b" "to8 (drop_bit 8 v) = c" "to8 v = e'"
        using split_32 by (simp add: x d big_endian_read_32_def rd_def)
      then show ?thesis using r 2 d Item
        by (simp add: de_get_normalized_uuid_def uuid_add_bluetooth_prefix_eq [OF assms(2)] v del: de_bytes.simps)
    next
      case 3
      then have d: "length d = 16" using l by simp
      then have "rd_range (de_bytes e @ rest) 1 16 = Some d" by (simp add: x rd_range_def)
      moreover have "wr_range j 0 d = Some d" using d assms(2) by (auto simp: wr_range_def)
      ultimately show ?thesis using r 3 Item by (simp add: de_get_normalized_uuid_def del: de_bytes.simps)
    qed
  qed
qed

lemma uuid_of_length: "de_ok e \<Longrightarrow> uuid_of e = Some u \<Longrightarrow> length u = 16"
  by (cases e) (auto simp: size_fits_def bluetooth_base_uuid_def split: if_splits)

section \<open>Records that contain a UUID\<close>

definition uuid_search :: "de \<Rightarrow> context_contains_uuid128 \<Rightarrow> (int \<times> context_contains_uuid128) option" where
  "uuid_search e c =
     (let c = (case e of
          Item t s d \<Rightarrow> if t = 3 then c\<lparr> contains_result := if uuid_of e = Some (contains_uuid128 c) then 1 else 0 \<rparr> else c
        | Seq s es \<Rightarrow> c\<lparr> contains_result := if contains_uuid128 c \<in> uuids e then 1 else 0 \<rparr>)
      in Some (contains_result c, c))"

lemma visit_uuid_search:
  "contains_result c = 0 \<Longrightarrow> map_option contains_result (visit uuid_search es c)
     = Some (if contains_uuid128 c \<in> \<Union> (set (map uuids es)) then 1 else 0)"
proof (induction es)
  case (Cons e es)
  show ?case
  proof (cases "contains_uuid128 c \<in> uuids e")
    case True
    then show ?thesis by (cases e) (auto simp: uuid_search_def Let_def split: if_splits)
  next
    case False
    have "uuid_search e c = Some (0, c)"
      using False Cons.prems by (cases e) (auto simp: uuid_search_def Let_def split: if_splits)
    then show ?thesis using Cons False by simp
  qed
qed simp

lemma contains_UUID128_acts:
  assumes "list_all de_ok es" and "length u = 16"
    and "\<And>s es' rest. Seq s es' \<in> set es \<Longrightarrow> search (de_bytes (Seq s es') @ rest) u = Some (if u \<in> uuids (Seq s es') then 1 else 0)"
    and "e \<in> set es" and "contains_uuid128 c = u"
  shows "sdp_traversal_contains_UUID128 search (de_bytes e @ rest) (de_type_of e) (de_size_of e) c = uuid_search e c"
proof (cases e)
  case (Seq s es')
  then show ?thesis using assms(3) [of s es' rest] assms(4,5)
    by (simp add: sdp_traversal_contains_UUID128_def uuid_search_def Let_def del: de_bytes.simps uuids.simps)
next
  case (Item t s d)
  have ok: "de_ok e" using assms(1,4) by (auto simp: list_all_iff)
  show ?thesis
  proof (cases "t = 3")
    case False
    then show ?thesis using ok Item by (simp add: sdp_traversal_contains_UUID128_def uuid_search_def Let_def)
  next
    case True
    note n = normalized_uuid [OF ok, of "replicate 16 0" rest]
    show ?thesis
    proof (cases "uuid_of e")
      case None
      then show ?thesis using n Item True
        by (simp add: sdp_traversal_contains_UUID128_def uuid_search_def Let_def del: de_bytes.simps uuid_of.simps)
    next
      case (Some w)
      have "length w = 16" by (rule uuid_of_length [OF ok Some])
      then obtain r where "memcmp_n 16 u w = Some r" "r = 0 \<longleftrightarrow> u = w"
        using memcmp_n_zero_iff [of 16 u w] assms(2) by auto
      then show ?thesis using n Item True Some assms(5)
        by (auto simp: sdp_traversal_contains_UUID128_def uuid_search_def Let_def simp del: de_bytes.simps uuid_of.simps)
    qed
  qed
qed

lemma uuid_search_context: "uuid_search e c = Some (r, c') \<Longrightarrow> contains_uuid128 c' = contains_uuid128 c"
  by (cases e) (auto simp: uuid_search_def Let_def split: if_splits)

lemma contains_UUID128_seq:
  "de_ok (Seq s es) \<Longrightarrow> length u = 16 \<Longrightarrow>
     sdp_record_contains_UUID128 (de_bytes (Seq s es) @ rest) u = Some (if u \<in> uuids (Seq s es) then 1 else 0)"
proof (induction "Seq s es" arbitrary: s es rest rule: measure_induct_rule [of size])
  case (less s es)
  let ?h = "sdp_traversal_contains_UUID128 (\<lambda>e u. sdp_record_contains_UUID128 e u)"
  have inner: "sdp_record_contains_UUID128 (de_bytes (Seq s' es') @ rest') u = Some (if u \<in> uuids (Seq s' es') then 1 else 0)"
    if "Seq s' es' \<in> set es" for s' es' rest'
  proof (rule less.hyps)
    have "size (Seq s' es') \<le> size_list size es" using that by (rule size_list_estimation') simp
    then show "size (Seq s' es') < size (Seq s es)" by simp
    show "de_ok (Seq s' es')" using less.prems(1) that by (fastforce simp: list_all_iff)
  qed (rule less.prems(2))
  have ok: "list_all de_ok es" using less.prems(1) by simp
  have acts: "acts_on ?h uuid_search es (\<lambda>c. contains_uuid128 c = u)"
    unfolding acts_on_def
    using contains_UUID128_acts [where search = "\<lambda>e u. sdp_record_contains_UUID128 e u", OF ok less.prems(2) inner]
      uuid_search_context by blast
  show ?case
    using visit_uuid_search [of "\<lparr> contains_uuid128 = u, contains_result = 0 \<rparr>" es]
    by (subst sdp_record_contains_UUID128.simps, subst de_traverse_visit [OF less.prems(1) acts])
      (auto simp del: uuids.simps simp: uuids.simps(2))
qed

section \<open>Records that match a pattern\<close>

definition found_in :: "de \<Rightarrow> de \<Rightarrow> bool" where
  "found_in r e \<longleftrightarrow> (case uuid_of e of Some u \<Rightarrow> u \<in> uuids r | None \<Rightarrow> False)"

definition pattern_search :: "de \<Rightarrow> de \<Rightarrow> context_match_pattern \<Rightarrow> (int \<times> context_match_pattern) option" where
  "pattern_search r e c = (if found_in r e then Some (0, c) else Some (1, c\<lparr> match_result := 0 \<rparr>))"

lemma match_pattern_acts:
  assumes "list_all de_ok ps" and "de_ok (Seq s es)"
  shows "acts_on sdp_traversal_match_pattern (pattern_search (Seq s es)) ps
    (\<lambda>c. match_record c = de_bytes (Seq s es) @ rest)"
  unfolding acts_on_def
proof (intro ballI allI impI conjI)
  fix e rest' and c :: context_match_pattern
  assume "e \<in> set ps" and c: "match_record c = de_bytes (Seq s es) @ rest"
  then have ok: "de_ok e" using assms(1) by (auto simp: list_all_iff)
  note n = normalized_uuid [OF ok, of "replicate 16 0" rest']
  show "sdp_traversal_match_pattern (de_bytes e @ rest') (de_type_of e) (de_size_of e) c = pattern_search (Seq s es) e c"
  proof (cases "uuid_of e")
    case None
    then show ?thesis using n by (simp add: sdp_traversal_match_pattern_def pattern_search_def found_in_def)
  next
    case (Some u)
    have "length u = 16" by (rule uuid_of_length [OF ok Some])
    from contains_UUID128_seq [OF assms(2) this, of rest] Some n c show ?thesis
      by (simp add: sdp_traversal_match_pattern_def pattern_search_def found_in_def del: uuids.simps de_bytes.simps)
  qed
next
  fix e c r c'
  assume "match_record c = de_bytes (Seq s es) @ rest" and "pattern_search (Seq s es) e c = Some (r, c')"
  then show "match_record c' = de_bytes (Seq s es) @ rest" by (auto simp: pattern_search_def split: if_splits)
qed

lemma visit_pattern_search:
  "map_option match_result (visit (pattern_search r) ps c)
     = Some (if \<forall>e \<in> set ps. found_in r e then match_result c else 0)"
  by (induction ps) (auto simp: pattern_search_def)

lemma pattern_match:
  assumes "de_ok (Seq s es)" and "de_ok (Seq s' ps)"
  shows "sdp_record_matches_service_search_pattern (de_bytes (Seq s es) @ rest) (de_bytes (Seq s' ps) @ rest')
    = Some (if \<forall>p \<in> set ps. \<exists>u. uuid_of p = Some u \<and> u \<in> uuids (Seq s es) then 1 else 0)"
proof -
  have ok: "list_all de_ok ps" using assms(2) by simp
  have f: "found_in r e \<longleftrightarrow> (\<exists>u. uuid_of e = Some u \<and> u \<in> uuids r)" for r e
    by (auto simp: found_in_def split: option.split)
  let ?c = "\<lparr> match_record = de_bytes (Seq s es) @ rest, match_result = 1 \<rparr>"
  have "de_traverse_sequence (de_bytes (Seq s' ps) @ rest') sdp_traversal_match_pattern ?c
      = visit (pattern_search (Seq s es)) ps ?c"
    by (rule de_traverse_visit [OF assms(2) match_pattern_acts [OF ok assms(1)]]) simp
  then show ?thesis
    by (simp only: sdp_record_matches_service_search_pattern_def visit_pattern_search f context_match_pattern.simps)
qed

text \<open>C11: The search at the heart of the SDP server.  For every record and every search pattern that are well-formed
  data elements, in whatever size encodings and however deeply nested, the match returns and tells whether every
  element of the pattern is a UUID that occurs in the record, at any depth, where UUIDs of 16, 32 and 128 bits are
  the same when their 128 bit forms are.  An element of the pattern that is no UUID makes the match fail.\<close>

theorem sdp_pattern_match:
  assumes "de_ok (Seq s es)" and "de_ok (Seq s' ps)"
  shows "sdp_record_matches_service_search_pattern (de_bytes (Seq s es) @ rest) (de_bytes (Seq s' ps) @ rest')
    = Some (if \<forall>p \<in> set ps. \<exists>u. uuid_of p = Some u \<and> u \<in> uuids (Seq s es) then 1 else 0)"
  by (rule pattern_match [OF assms])

text \<open>The attributes of a serial port service: handle, service classes, protocols and name.\<close>

definition example_services :: attribute_list where
  "example_services =
     [(0x0000, Item 1 2 [0, 1, 0, 1]),
      (0x0001, Seq 5 [Item 3 1 [0x11, 0x01]]),
      (0x0004, Seq 5 [Seq 5 [Item 3 1 [0x01, 0x00]], Seq 5 [Item 3 1 [0x00, 0x03], Item 1 0 [1]]]),
      (0x0100, Item 4 5 [0x53, 0x50, 0x50])]"

definition example_record :: de where "example_record = Seq 6 (record_items example_services)"

lemma example_record_ok: "de_ok (Seq 6 (record_items example_services))"
  by (simp add: example_services_def size_fits_def header_length_def)

text \<open>The pattern asks for L2CAP by its 16 bit and RFCOMM by its 128 bit UUID.\<close>

theorem sdp_pattern_match_witness:
  "sdp_record_matches_service_search_pattern
     (de_bytes (Seq 6 (record_items example_services)))
     (de_bytes (Seq 5 [Item 3 1 [0x01, 0x00], Item 3 4 ([0, 0, 0, 3] @ drop 4 bluetooth_base_uuid)])) = Some 1"
proof -
  let ?ps = "[Item 3 1 [0x01, 0x00], Item 3 4 ([0, 0, 0, 3] @ drop 4 bluetooth_base_uuid)]"
  have "de_ok (Seq 5 ?ps)" by (simp add: size_fits_def header_length_def bluetooth_base_uuid_def)
  moreover have "\<forall>p \<in> set ?ps. \<exists>u. uuid_of p = Some u \<and> u \<in> uuids (Seq 6 (record_items example_services))"
    by (simp add: example_services_def bluetooth_base_uuid_def)
  ultimately show ?thesis
    using sdp_pattern_match [OF example_record_ok, of 5 ?ps "[]" "[]"] by simp
qed

end
