(* ===== verification/Sdp_Filter.thy ===== *)
theory Sdp_Filter
  imports Sdp_Search
begin

text \<open>
  What the attribute searches of the SDP server return: the requested attributes of a record, cut to the part a
  response may carry, and the value of one attribute.
\<close>

section \<open>Appending to the response\<close>

text \<open>The context after \<open>out\<close> was appended to a buffer of at least \<open>M\<close> bytes, with \<open>k\<close> bytes still to skip.\<close>

definition filter_context :: "nat \<Rightarrow> buffer \<Rightarrow> buffer \<Rightarrow> buffer \<Rightarrow> nat \<Rightarrow> int \<Rightarrow> context_filter_attributes" where
  "filter_context M buf ids out k complete =
     \<lparr> filter_buffer = out @ drop (length out) buf, filter_pos = length out, filter_startOffset = of_nat k,
       filter_maxBytes = of_nat (M - length out), filter_usedBytes = of_nat (length out),
       filter_attributeIDList = ids, filter_complete = complete \<rparr>"

lemma append_range:
  assumes "M \<le> length buf" and "M < 65536" and "length out \<le> M" and "k \<le> length D" and "length D < 65536"
  shows "spd_append_range (filter_context M buf ids out k cpl) (of_nat (length D)) (D @ rest)
    = Some (if length D - k \<le> M - length out then 1 else 0,
        filter_context M buf ids (out @ take (M - length out) (drop k D)) 0 cpl)"
proof -
  define m n where "m = M - length out" and "n = length D - k"
  have dn: "of_nat (length D) - of_nat k = (of_nat n :: u16)" using assms(4) by (simp add: n_def of_nat_diff)
  have w: "unat (of_nat n :: u16) = n" "unat (of_nat m :: u16) = m" "unat (of_nat k :: u16) = k"
    by (rule unat_of_nat_u16; use assms in \<open>simp add: n_def m_def\<close>)+
  have lt: "(of_nat m :: u16) < of_nat n \<longleftrightarrow> m < n" by (simp add: word_less_nat_alt w)
  define xs q where "xs = take m (drop k D)" and "q = min m n"
  have xl: "length xs = q" by (simp add: xs_def q_def n_def)
  have rd: "rd_range (D @ rest) k q = Some xs"
    using assms(4) by (auto simp: rd_range_def xs_def q_def n_def min_def)
  have wr: "wr_range (out @ drop (length out) buf) (length out) xs = Some (out @ xs @ drop (length out + q) buf)"
    using assms(1,3) xl by (auto simp: wr_range_def m_def q_def min_def add.commute)
  have mq: "of_nat m - of_nat q = (of_nat (m - q) :: u16)" by (simp add: of_nat_diff q_def)
  have Mq: "M - (length out + q) = m - q" by (simp add: m_def)
  show ?thesis
  proof (cases "m < n")
    case True
    then have "q = m" by (simp add: q_def)
    then show ?thesis using rd wr xl mq Mq True
      unfolding spd_append_range_def filter_context_def m_def [symmetric] n_def [symmetric] xs_def [symmetric]
      by (simp add: Let_def dn lt w)
  next
    case False
    then have "q = n" by (simp add: q_def)
    then show ?thesis using rd wr xl mq Mq False
      unfolding spd_append_range_def filter_context_def m_def [symmetric] n_def [symmetric] xs_def [symmetric]
      by (simp add: Let_def dn lt w)
  qed
qed

text \<open>What appending \<open>X\<close> does: the bytes behind the \<open>k\<close> skipped ones, as far as they fit.\<close>

definition filtered :: "nat \<Rightarrow> buffer \<Rightarrow> buffer \<Rightarrow> buffer \<Rightarrow> nat \<Rightarrow> int \<Rightarrow> buffer \<Rightarrow> int \<times> context_filter_attributes" where
  "filtered M buf ids out k cpl X =
     (let fits = length X - k \<le> M - length out
      in (if fits then 0 else 1,
          filter_context M buf ids (out @ take (M - length out) (drop k X)) (k - length X) (if fits then cpl else 0)))"

lemma filter_value:
  fixes V av ids :: buffer and cpl :: int
  assumes "M \<le> length buf" and "M < 65536" and "length out \<le> M" and "k < 65536" and "length V < 65536"
  defines "c \<equiv> filter_context M buf ids out k cpl"
  shows "(if uint (filter_startOffset c) \<ge> int (length V) then
            Some (0, av, c\<lparr> filter_startOffset := word_of_int (uint (filter_startOffset c) - int (length V)) \<rparr>)
          else do {
            (ok, c) \<leftarrow> spd_append_range c (word_of_int (int (length V))) (V @ rest);
            if ok = 0 then Some (1, av, c\<lparr> filter_complete := 0 \<rparr>) else Some (0, av, c) })
       = (let (r, c') = filtered M buf ids out k cpl V in Some (r, av, c'))"
proof -
  have k: "uint (filter_startOffset c) = int k"
    using assms(4) by (simp add: c_def filter_context_def uint_nat unat_of_nat_u16)
  show ?thesis
  proof (cases "length V \<le> k")
    case True
    then have "word_of_int (int k - int (length V)) = (of_nat (k - length V) :: u16)" by (simp add: of_nat_diff)
    with True show ?thesis by (simp add: k filtered_def) (simp add: c_def filter_context_def)
  next
    case False
    with append_range [OF assms(1-3) _ assms(5), of k ids cpl rest] show ?thesis
      by (simp add: k filtered_def c_def [symmetric]) (simp add: filter_context_def)
  qed
qed

lemma filter_handler:
  fixes rest' :: buffer
  assumes "de_ok (Seq si ids)" and "de_ok v"
    and "M \<le> length buf" and "M < 65536" and "length out \<le> M" and "k < 65536"
    and X: "X = (if \<exists>e \<in> set ids. covers i e then attribute_bytes (i, v) else [])" and "length X < 65536"
  defines "idb \<equiv> de_bytes (Seq si ids) @ rest'"
  shows "sdp_traversal_filter_attributes i (de_bytes v @ rest) t sz (filter_context M buf idb out k cpl)
    = (let (r, c') = filtered M buf idb out k cpl X in Some (r, de_bytes v @ rest, c'))"
proof (cases "\<exists>e \<in> set ids. covers i e")
  case False
  then show ?thesis using constains_id [OF assms(1), of rest' i]
    by (simp add: sdp_traversal_filter_attributes_def X filtered_def) (simp add: filter_context_def idb_def)
next
  case True
  let ?c = "filter_context M buf idb out k cpl" and ?V = "de_bytes v" and ?I = "0x09 # be_16 i"
  have con: "sdp_attribute_list_constains_id (filter_attributeIDList ?c) i = Some 1"
    using constains_id [OF assms(1), of rest' i] True by (simp add: filter_context_def idb_def)
  have XV: "X = ?I @ ?V" using True X by (simp only: attribute_bytes.simps id_item_bytes if_True simp_thms)
  have lX: "length X = length ?V + 3" unfolding XV by simp
  have dX: "drop k X = drop k ?I @ drop (k - 3) ?V" for k unfolding XV drop_append by simp
  have V: "length ?V < 65536" using assms(8) XV by simp
  have len: "de_get_len (?V @ rest) = Some (int (length ?V))" by (rule read_element [OF assms(2)])
  have idb: "de_store_descriptor DE_UINT DE_SIZE_16 [0, 0, 0] = Some [0x09, 0, 0]"
    "big_endian_store_16 [0x09, 0, 0] 1 i = Some ?I"
    by (simp_all add: de_store_descriptor_def wr_def big_endian_store_16_def be_16_def)
  have k3: "3 \<le> filter_startOffset ?c \<longleftrightarrow> 3 \<le> k"
    using assms(6) by (simp add: filter_context_def word_le_nat_alt unat_of_nat_u16)
  show ?thesis
  proof (cases "3 \<le> k")
    case True
    have "of_nat k - 3 = (of_nat (k - 3) :: u16)" using True by (simp add: of_nat_diff)
    then have c: "?c\<lparr> filter_startOffset := filter_startOffset ?c - 3 \<rparr> = filter_context M buf idb out (k - 3) cpl"
      by (simp add: filter_context_def)
    have f: "filtered M buf idb out (k - 3) cpl ?V = filtered M buf idb out k cpl X"
      using True by (simp add: filtered_def dX lX add.commute)
    have "k - 3 < 65536" using assms(6) by simp
    from filter_value [OF assms(3-5) this V, of idb cpl "?V @ rest" rest]
    show ?thesis using k3 True unfolding sdp_traversal_filter_attributes_def
      by (simp add: con c len f)
  next
    case False
    have "spd_append_range ?c (of_nat (length ?I)) (?I @ [])
        = Some (if length ?I - k \<le> M - length out then 1 else 0,
            filter_context M buf idb (out @ take (M - length out) (drop k ?I)) 0 cpl)"
      by (rule append_range [OF assms(3-5)]) (use False in simp_all)
    then have ap: "spd_append_range ?c 3 ?I = Some (if 3 - k \<le> M - length out then 1 else 0,
            filter_context M buf idb (out @ take (M - length out) (drop k ?I)) 0 cpl)" by simp
    show ?thesis
    proof (cases "3 - k \<le> M - length out")
      case True
      let ?out = "out @ drop k ?I"
      have tk: "take (M - length out) (drop k ?I) = drop k ?I" using True by simp
      have ol: "length ?out \<le> M" using True assms(5) False by simp
      have f: "filtered M buf idb ?out 0 cpl ?V = filtered M buf idb out k cpl X"
      proof -
        have "length ?V \<le> M + k - (length out + 3) \<longleftrightarrow> length ?V + 3 - k \<le> M - length out"
          using False True assms(5) by arith
        then show ?thesis using False True assms(5) by (simp add: filtered_def dX lX)
      qed
      from filter_value [OF assms(3,4) ol _ V, of 0 idb cpl "?V @ rest" rest]
      show ?thesis using k3 False True unfolding sdp_traversal_filter_attributes_def
        by (simp add: con idb ap tk len f)
    next
      case no: False
      have nf: "\<not> length ?V + 3 - k \<le> M - length out" using False no by arith
      have "filtered M buf idb out k cpl X
          = (1, (filter_context M buf idb (out @ take (M - length out) (drop k ?I)) 0 cpl)\<lparr> filter_complete := 0 \<rparr>)"
        using False no nf by (simp add: filtered_def dX lX filter_context_def)
      then show ?thesis using k3 False no unfolding sdp_traversal_filter_attributes_def
        by (simp add: con idb ap)
    qed
  qed
qed

section \<open>The attributes of a response\<close>

definition filter_step :: "nat \<Rightarrow> buffer \<Rightarrow> buffer \<Rightarrow> de list \<Rightarrow> u16 \<Rightarrow> de \<Rightarrow> context_filter_attributes
    \<Rightarrow> (int \<times> context_filter_attributes) option" where
  "filter_step M buf idb ids i v c =
     map_option (\<lambda>(r, _, c). (r, c)) (sdp_traversal_filter_attributes i (de_bytes v) (de_type_of v) (de_size_of v) c)"

text \<open>The bytes of the attributes asked for.\<close>

fun selected :: "de list \<Rightarrow> attribute_list \<Rightarrow> buffer" where
  "selected ids [] = []"
| "selected ids ((i, v) # as) = (if \<exists>e \<in> set ids. covers i e then attribute_bytes (i, v) else []) @ selected ids as"

definition filter_reached :: "nat \<Rightarrow> buffer \<Rightarrow> buffer \<Rightarrow> context_filter_attributes \<Rightarrow> bool" where
  "filter_reached M buf idb c \<longleftrightarrow> (\<exists>out k cpl. c = filter_context M buf idb out k cpl \<and> length out \<le> M \<and> k < 65536)"

lemma filtered_reached:
  "length out \<le> M \<Longrightarrow> k < 65536 \<Longrightarrow> filter_reached M buf idb (snd (filtered M buf idb out k cpl X))"
  unfolding filter_reached_def filtered_def Let_def snd_conv by (intro exI conjI) (rule refl, simp_all)

lemma selected_bound: "(i, v) \<in> set as \<Longrightarrow> \<exists>e \<in> set ids. covers i e \<Longrightarrow> length (attribute_bytes (i, v)) \<le> length (selected ids as)"
  by (induction as rule: list.induct) (auto simp del: attribute_bytes.simps)

lemma filter_acts:
  fixes rest' :: buffer
  assumes "de_ok (Seq si ids)" and "\<forall>(i, v) \<in> set as. de_ok v" and "M \<le> length buf" and "M < 65536"
    and "length (selected ids as) < 65536"
  defines "idb \<equiv> de_bytes (Seq si ids) @ rest'"
  shows "acts_on_attributes sdp_traversal_filter_attributes (\<lambda>i v _. filter_step M buf idb ids i v) as (filter_reached M buf idb)"
  unfolding acts_on_attributes_def
proof (clarify, intro conjI allI impI)
  fix i v rest c
  assume iv: "(i, v) \<in> set as" and "filter_reached M buf idb c"
  then obtain out k cpl where c: "c = filter_context M buf idb out k cpl" "length out \<le> M" "k < 65536"
    unfolding filter_reached_def by blast
  define X where "X = (if \<exists>e \<in> set ids. covers i e then attribute_bytes (i, v) else [])"
  have X: "length X < 65536" 
  proof (cases "\<exists>e \<in> set ids. covers i e")
    case True
    then show ?thesis using selected_bound [OF iv True] assms(5) unfolding X_def by (simp only: if_True)
  qed (simp add: X_def)
  have ok: "de_ok v" using assms(2) iv by auto
  note h = filter_handler [OF assms(1) ok assms(3,4) c(2,3) X_def X]
  show "sdp_traversal_filter_attributes i (de_bytes v @ rest) (de_type_of v) (de_size_of v) c
      = map_option (\<lambda>(r, c). (r, de_bytes v @ rest, c)) (filter_step M buf idb ids i v c)"
    using h [where rest = rest] h [where rest = "[]"]
    unfolding c idb_def by (simp add: filter_step_def split: prod.split)
  fix r c'
  assume "filter_step M buf idb ids i v c = Some (r, c')"
  then have "c' = snd (filtered M buf idb out k cpl X)"
    using h [where rest = "[]"] unfolding c idb_def by (auto simp: filter_step_def split: prod.splits)
  then show "filter_reached M buf idb c'" using filtered_reached [OF c(2,3)] by simp
qed

lemma visit_filter:
  fixes rest' :: buffer
  assumes "de_ok (Seq si ids)" and "M \<le> length buf" and "M < 65536"
  defines "idb \<equiv> de_bytes (Seq si ids) @ rest'"
  shows "\<forall>(i, v) \<in> set as. de_ok v \<Longrightarrow> length (selected ids as) < 65536 \<Longrightarrow> length out \<le> M \<Longrightarrow> k < 65536
    \<Longrightarrow> visit_attributes (filter_step M buf idb ids) as (filter_context M buf idb out k cpl)
        = Some (snd (filtered M buf idb out k cpl (selected ids as)))"
proof (induction as arbitrary: out k)
  case Nil
  then show ?case by (simp add: filtered_def)
next
  case (Cons iv as)
  obtain i v where iv: "iv = (i, v)" by (cases iv)
  define X Y where "X = (if \<exists>e \<in> set ids. covers i e then attribute_bytes (i, v) else [])" and "Y = selected ids as"
  have XY: "selected ids (iv # as) = X @ Y" by (simp add: iv X_def Y_def)
  have ok: "de_ok v" using Cons.prems(1) iv by auto
  have X: "length X < 65536" and Y: "length (selected ids as) < 65536" using Cons.prems(2) unfolding XY Y_def [symmetric] by simp_all
  have step: "filter_step M buf idb ids i v (filter_context M buf idb out k cpl) = Some (filtered M buf idb out k cpl X)"
    using filter_handler [OF assms(1) ok assms(2,3) Cons.prems(3,4) X_def X, where rest = "[]"]
    unfolding idb_def by (simp add: filter_step_def split: prod.split)
  show ?case
  proof (cases "length X - k \<le> M - length out")
    case True
    then have f: "filtered M buf idb out k cpl X = (0, filter_context M buf idb (out @ drop k X) (k - length X) cpl)"
      by (simp add: filtered_def)
    have "length (out @ drop k X) \<le> M" using True Cons.prems(3) by simp
    from Cons.IH [OF _ Y this, of "k - length X"] Cons.prems(1,4)
    have "visit_attributes (filter_step M buf idb ids) as (filter_context M buf idb (out @ drop k X) (k - length X) cpl)
        = Some (snd (filtered M buf idb (out @ drop k X) (k - length X) cpl Y))" by (simp add: Y_def)
    moreover have "filtered M buf idb (out @ drop k X) (k - length X) cpl Y = filtered M buf idb out k cpl (X @ Y)"
    proof -
      have "length Y - (k - length X) \<le> M - length (out @ drop k X) \<longleftrightarrow> length (X @ Y) - k \<le> M - length out"
        using True Cons.prems(3) unfolding length_append length_drop by arith
      moreover have "M - length out - (length X - k) = M - length (out @ drop k X)" by simp
      ultimately show ?thesis using True by (simp add: filtered_def Let_def)
    qed
    ultimately show ?thesis by (simp add: iv step f XY [unfolded iv] del: selected.simps)
  next
    case False
    then have "filtered M buf idb out k cpl X = (1, snd (filtered M buf idb out k cpl (X @ Y)))"
      by (auto simp: filtered_def Let_def)
    then show ?thesis by (simp add: iv step XY [unfolded iv] del: selected.simps)
  qed
qed

section \<open>The size of a response\<close>

definition size_step :: "de list \<Rightarrow> u16 \<Rightarrow> de \<Rightarrow> context_get_filtered_size \<Rightarrow> (int \<times> context_get_filtered_size) option" where
  "size_step ids i v c =
     Some (0, if \<exists>e \<in> set ids. covers i e
              then c\<lparr> filtered_size := filtered_size c + of_nat (length (attribute_bytes (i, v))) \<rparr> else c)"

lemma attribute_bytes_length: "length (attribute_bytes (i, v)) = 3 + length (de_bytes v)"
  by (simp only: attribute_bytes.simps id_item_bytes length_append) simp

lemma size_acts:
  assumes "de_ok (Seq si ids)" and "\<forall>(i, v) \<in> set as. de_ok v" and "length (selected ids as) < 65536"
  shows "acts_on_attributes sdp_traversal_get_filtered_size (\<lambda>i v _. size_step ids i v) as
    (\<lambda>c. filtered_attributeIDList c = de_bytes (Seq si ids) @ rest')"
  unfolding acts_on_attributes_def
proof (clarify, intro conjI allI impI)
  fix i v rest and c :: context_get_filtered_size
  assume iv: "(i, v) \<in> set as" and c: "filtered_attributeIDList c = de_bytes (Seq si ids) @ rest'"
  have ok: "de_ok v" using assms(2) iv by auto
  show "sdp_traversal_get_filtered_size i (de_bytes v @ rest) (de_type_of v) (de_size_of v) c
      = map_option (\<lambda>(r, c). (r, de_bytes v @ rest, c)) (size_step ids i v c)"
  proof (cases "\<exists>e \<in> set ids. covers i e")
    case True
    have l: "length (attribute_bytes (i, v)) < 65536" using selected_bound [OF iv True] assms(3) by linarith
    then have "int_add 3 (int (length (de_bytes v))) = Some (int (length (attribute_bytes (i, v))))"
      unfolding attribute_bytes_length by (simp add: int_add_def)
    moreover have "word_of_int (uint (filtered_size c) + int n) = filtered_size c + (of_nat n :: u16)" for n
      by (simp add: wi_hom_add [symmetric])
    ultimately show ?thesis using True constains_id [OF assms(1), of rest' i] read_element(4) [OF ok, of rest]
      by (simp add: sdp_traversal_get_filtered_size_def size_step_def c del: de_bytes.simps attribute_bytes.simps)
  next
    case False
    then show ?thesis using constains_id [OF assms(1), of rest' i]
      by (simp add: sdp_traversal_get_filtered_size_def size_step_def c del: de_bytes.simps)
  qed
qed (auto simp: size_step_def split: if_splits)

lemma visit_size:
  "visit_attributes (size_step ids) as c
     = Some (c\<lparr> filtered_size := filtered_size c + of_nat (length (selected ids as)) \<rparr>)"
  by (induction as arbitrary: c rule: selected.induct) (simp_all add: size_step_def add.assoc del: attribute_bytes.simps)

lemma filter_answer:
  assumes "de_ok (Seq s (record_items as))" and "de_ok (Seq s' ids)" and "unat maxBytes \<le> length buf"
    and "length (selected ids as) < 65536"
  shows "sdp_filter_attributes_in_attributeIDList (de_bytes (Seq s (record_items as)) @ rest)
           (de_bytes (Seq s' ids) @ rest') startOffset maxBytes buf
         = (let answer = drop (unat startOffset) (selected ids as); part = take (unat maxBytes) answer
            in Some (if length answer \<le> unat maxBytes then 1 else 0, of_nat (length part), part @ drop (length part) buf))"
proof -
  let ?idb = "de_bytes (Seq s' ids) @ rest'"
  have ok: "\<forall>(i, v) \<in> set as. de_ok v" using assms(1) by (fastforce simp: list_all_iff)
  let ?c = "filter_context (unat maxBytes) buf ?idb [] (unat startOffset) 1"
  have c: "\<lparr> filter_buffer = buf, filter_pos = 0, filter_startOffset = startOffset, filter_maxBytes = maxBytes,
      filter_usedBytes = 0, filter_attributeIDList = ?idb, filter_complete = 1 \<rparr> = ?c" by (simp add: filter_context_def)
  have "filter_reached (unat maxBytes) buf ?idb ?c" unfolding filter_reached_def by (intro exI conjI) (rule refl, simp_all)
  note tr = attribute_list_visit [OF assms(1) filter_acts [OF assms(2) ok assms(3) _ assms(4)] this, of rest]
  have "visit_attributes (filter_step (unat maxBytes) buf ?idb ids) as ?c
      = Some (snd (filtered (unat maxBytes) buf ?idb [] (unat startOffset) 1 (selected ids as)))"
    by (rule visit_filter [OF assms(2,3) _ ok assms(4)]) simp_all
  with tr have "sdp_attribute_list_traverse_sequence (de_bytes (Seq s (record_items as)) @ rest) sdp_traversal_filter_attributes ?c
      = Some (de_bytes (Seq s (record_items as)) @ rest,
          snd (filtered (unat maxBytes) buf ?idb [] (unat startOffset) 1 (selected ids as)))"
    by (simp only: option.map unat_u16_less)
  then show ?thesis
    unfolding sdp_filter_attributes_in_attributeIDList_def c by (simp add: filtered_def Let_def filter_context_def)
qed

lemma filtered_answer_size:
  assumes "de_ok (Seq s (record_items as))" and "de_ok (Seq s' ids)" and "length (selected ids as) < 65536"
  shows "spd_get_filtered_size (de_bytes (Seq s (record_items as)) @ rest) (de_bytes (Seq s' ids) @ rest')
    = Some (int (length (selected ids as)))"
proof -
  let ?idb = "de_bytes (Seq s' ids) @ rest'"
  have ok: "\<forall>(i, v) \<in> set as. de_ok v" using assms(1) by (fastforce simp: list_all_iff)
  have l: "uint (of_nat (length (selected ids as)) :: u16) = int (length (selected ids as))"
    unfolding uint_nat by (rule arg_cong [OF unat_of_nat_u16 [OF assms(3)]])
  have "sdp_attribute_list_traverse_sequence (de_bytes (Seq s (record_items as)) @ rest) sdp_traversal_get_filtered_size
        \<lparr> filtered_attributeIDList = ?idb, filtered_size = 0 \<rparr>
      = Some (de_bytes (Seq s (record_items as)) @ rest,
          \<lparr> filtered_attributeIDList = ?idb, filtered_size = of_nat (length (selected ids as)) \<rparr>)"
    by (subst attribute_list_visit [OF assms(1) size_acts [OF assms(2) ok assms(3)]]) (simp_all add: visit_size)
  then show ?thesis
    by (simp add: spd_get_filtered_size_def l del: de_bytes.simps selected.simps)
qed

section \<open>Properties\<close>

text \<open>The attributes of a response.  For every well-formed record and list of attribute identifiers and ranges, the
  filter copies to the response exactly the bytes from \<open>startOffset\<close> on, \<open>maxBytes\<close> at most, of the attributes asked for
  (each with its identifier, in the order of the record), reports their number, and reports completion just when
  nothing is left: so the fragments of a long answer, each starting where the last one ended, make up the answer.  The
  rest of the buffer is untouched, and the size announced beforehand is that of the whole answer.\<close>

theorem sdp_filter_attributes:
  assumes "de_ok (Seq s (record_items as))" and "de_ok (Seq s' ids)" and "unat maxBytes \<le> length buf"
    and "length (selected ids as) < 65536"
  shows "sdp_filter_attributes_in_attributeIDList (de_bytes (Seq s (record_items as)) @ rest)
           (de_bytes (Seq s' ids) @ rest') startOffset maxBytes buf
         = (let answer = drop (unat startOffset) (selected ids as); part = take (unat maxBytes) answer
            in Some (if length answer \<le> unat maxBytes then 1 else 0, of_nat (length part), part @ drop (length part) buf))
     \<and> spd_get_filtered_size (de_bytes (Seq s (record_items as)) @ rest) (de_bytes (Seq s' ids) @ rest')
         = Some (int (length (selected ids as)))"
  by (rule conjI [OF filter_answer [OF assms] filtered_answer_size [OF assms(1,2,4)]])

text \<open>The service classes and protocols of the example, the first 8 bytes skipped, in a response of at most 12.\<close>

theorem sdp_filter_attributes_witness:
  "sdp_filter_attributes_in_attributeIDList (de_bytes (Seq 6 (record_items example_services)))
     (de_bytes (Seq 5 [Item 1 2 [0, 1, 0, 5]])) 8 12 (replicate 14 0xff)
   = Some (0, 12, [0x09, 0, 4, 0x35, 12, 0x35, 3, 0x19, 1, 0, 0x35, 5, 0xff, 0xff])"
proof -
  have s: "selected [Item 1 2 [0, 1, 0, 5]] example_services
    = [0x09, 0, 1, 0x35, 3, 0x19, 0x11, 1, 0x09, 0, 4, 0x35, 12, 0x35, 3, 0x19, 1, 0, 0x35, 5, 0x19, 0, 3, 8, 1]"
    by (simp add: example_services_def u16_be_def de_header_def de_length_def be_16_def)
  have "de_ok (Seq 5 [Item 1 2 [0, 1, 0, 5]])" by (simp add: size_fits_def header_length_def)
  moreover have "replicate 2 (0xff :: u8) = [0xff, 0xff]" by (simp add: numeral_2_eq_2)
  ultimately show ?thesis
    using sdp_filter_attributes [OF example_record_ok, of 5 "[Item 1 2 [0, 1, 0, 5]]" 12 "replicate 14 0xff" "[]" "[]" 8]
    by (simp add: s del: de_bytes.simps de_ok.simps selected.simps)
qed

end
