(* ===== verification/Sdp_Build.thy ===== *)
theory Sdp_Build
  imports Sdp_Search
begin

text \<open>
  Building service records: the routines that append an element to a sequence write the encoding of the sequence with
  the element, sequences inside included, and the attributes of a record built so are found.
\<close>

section \<open>Stores in the middle of a buffer\<close>

lemma wr_at: "wr (xs @ y # zs) (length xs) v = Some (xs @ v # zs)"
  by (simp add: wr_def)

lemma store_16_at:
  assumes "unat pos = length xs" and "length xs + 1 < 65536"
  shows "big_endian_store_16 (xs @ y0 # y1 # zs) pos v = Some (xs @ be_16 v @ zs)"
proof -
  have "unat (pos + 1) = length (xs @ [w])" for w :: u8 using assms by simp
  then show ?thesis using wr_at [of xs y0 "y1 # zs"] wr_at [of "xs @ [w]" y1 zs for w]
    by (simp add: big_endian_store_16_def assms(1) be_16_def)
qed

lemma store_32_at:
  assumes "unat pos = length xs" and "length xs + 3 < 65536"
  shows "big_endian_store_32 (xs @ y0 # y1 # y2 # y3 # zs) pos v = Some (xs @ be_32 v @ zs)"
proof -
  have p: "unat (pos + 1) = length xs + 1" "unat (pos + 2) = length xs + 2" "unat (pos + 3) = length xs + 3"
    using assms by simp_all
  show ?thesis
    by (simp add: big_endian_store_32_def assms(1) p be_32_def wr_def list_update_append)
qed

lemma at_offset_append: "at_offset (length pre) f (pre @ xs) = map_option (append pre) (f xs)"
  by (simp add: at_offset_def)

section \<open>Appending an element\<close>

text \<open>An open sequence of a 16 bit length with contents \<open>B\<close>, and free space behind it.\<close>

abbreviation open_seq :: "buffer \<Rightarrow> buffer \<Rightarrow> buffer \<Rightarrow> buffer" where
  "open_seq pre B junk \<equiv> pre @ de_header 6 6 (length B) @ B @ junk"

lemma seq_header: "de_header 6 6 n = 0x36 # be_16 (of_nat n)"
  by (simp add: de_header_def de_length_def)

lemma open_seq_size:
  assumes "length B < 65536"
  shows "big_endian_read_16 (de_header 6 6 (length B) @ B @ junk) (Suc 0) = Some (of_nat (length B))"
    and "unat (of_nat (length B) :: u32) = length B"
proof -
  show u: "unat (of_nat (length B) :: u32) = length B" using assms by (simp add: unat_of_nat_u32)
  have "to32 (of_nat (length B) :: u16) = of_nat (length B)"
    using assms u by (simp add: word_unat_eq_iff unat_of_nat_u16)
  then show "big_endian_read_16 (de_header 6 6 (length B) @ B @ junk) (Suc 0) = Some (of_nat (length B))"
    by (simp add: seq_header)
qed

lemma close_item:
  assumes "length (B @ E) < 65536" and "w = of_nat (length (B @ E))"
  shows "at_offset (length pre) (\<lambda>s. big_endian_store_16 s 1 w) (pre @ de_header 6 6 n @ B @ E @ junk)
    = Some (open_seq pre (B @ E) junk)"
proof -
  have "big_endian_store_16 ([0x36] @ to8 (drop_bit 8 (of_nat n :: u16)) # to8 (of_nat n :: u16) # (B @ E @ junk)) 1 w
      = Some ([0x36] @ be_16 w @ (B @ E @ junk))" by (rule store_16_at) simp_all
  then show ?thesis by (simp add: at_offset_append seq_header assms(2) be_16_def)
qed

lemma at_end:
  "at_offset (length pre + 3 + length B) f (pre @ de_header 6 6 n @ B @ junk)
    = map_option (\<lambda>j. pre @ de_header 6 6 n @ B @ j) (f junk)"
  by (cases "f junk") (simp_all add: at_offset_def header_length_def)

lemma to16_of_nat: "to16 (of_nat n :: u32) = of_nat n"
  by (simp add: word_unat_eq_iff unsigned_ucast_eq unsigned_of_nat)

definition number_bytes :: "u8 \<Rightarrow> u8 \<Rightarrow> u32 \<Rightarrow> buffer" where
  "number_bytes t s v =
     (if s = 0 then if t = 0 then [] else [to8 v] else if s = 1 then be_16 (to16 v) else be_32 v)"

lemma length_3: "n \<le> length js \<Longrightarrow> \<exists>ks. js = take n js @ ks" by (metis append_take_drop_id)

lemma store_field:
  assumes "length B + 4 + length d < 65536" and "length d = length ks"
    and "f = (\<lambda>s. wr s (4 + length B) (hd d)) \<and> length d = 1
       \<or> f = (\<lambda>s. big_endian_store_16 s (to16 (4 + of_nat (length B) :: u32)) v) \<and> d = be_16 v
       \<or> f = (\<lambda>s. big_endian_store_32 s (to16 (4 + of_nat (length B) :: u32)) v') \<and> d = be_32 v'"
  shows "at_offset (length pre) f (pre @ de_header 6 6 n @ B @ x # ks @ js) = Some (pre @ de_header 6 6 n @ B @ x # d @ js)"
proof -
  let ?xs = "de_header 6 6 n @ B @ [x]"
  have l: "length ?xs = 4 + length B" by (simp add: header_length_def)
  have p: "unat (to16 (4 + of_nat (length B) :: u32)) = 4 + length B"
  proof -
    have "unat (4 + of_nat (length B) :: u32) = 4 + length B" using assms(1)
      by (subst unat_plus_no_wrap) (simp_all add: unat_of_nat_u32)
    then show ?thesis using assms(1) by (simp add: unsigned_ucast_eq take_bit_nat_eq_self)
  qed
  have "f (?xs @ ks @ js) = Some (?xs @ d @ js)"
    using assms(3)
  proof (elim disjE conjE)
    assume f: "f = (\<lambda>s. wr s (4 + length B) (hd d))" and "length d = 1"
    moreover have "length ks = Suc 0" "length d = Suc 0" using assms(2) \<open>length d = 1\<close> by simp_all
    then obtain k y where "ks = [k]" "d = [y]" by (auto simp: length_Suc_conv)
    ultimately show ?thesis using wr_at [of ?xs k js y] unfolding l by simp
  next
    assume f: "f = (\<lambda>s. big_endian_store_16 s (to16 (4 + of_nat (length B) :: u32)) v)" and d: "d = be_16 v"
    have "length ks = Suc (Suc 0)" using assms(2) d by simp
    then obtain a b where "ks = [a, b]" by (auto simp: length_Suc_conv)
    then show ?thesis using store_16_at [of "to16 (4 + of_nat (length B) :: u32)" ?xs a b js v] assms(1) p l
      unfolding f d by simp
  next
    assume f: "f = (\<lambda>s. big_endian_store_32 s (to16 (4 + of_nat (length B) :: u32)) v')" and d: "d = be_32 v'"
    have "length ks = Suc (Suc (Suc (Suc 0)))" using assms(2) d by simp
    then obtain a b c e where "ks = [a, b, c, e]" by (auto simp: length_Suc_conv)
    then show ?thesis using store_32_at [of "to16 (4 + of_nat (length B) :: u32)" ?xs a b c e js v'] assms(1) p l
      unfolding f d by simp
  qed
  then show ?thesis by (simp add: at_offset_append)
qed

lemma add_number_item:
  assumes "s \<le> 2" and "t < 32" and "s \<noteq> 0 \<longrightarrow> t \<noteq> 0" and E: "E = de_bytes (Item t s (number_bytes t s v))"
    and "length (B @ E) + 3 < 65536" and "length E \<le> length junk"
  shows "de_add_number (open_seq pre B junk) (length pre) t s v = Some (open_seq pre (B @ E) (drop (length E) junk))"
proof -
  let ?d = "number_bytes t s v"
  define h where "h = push_bit 3 t OR s"
  have s: "s = 0 \<or> s = 1 \<or> s = 2" using assms(1) u8_less_8 [of s] by (auto simp: word_le_nat_alt word_less_nat_alt)
  then have E: "E = h # ?d" unfolding E by (auto simp: h_def de_header_def de_length_def)
  obtain x ks js where j: "junk = x # ks @ js" "length ?d = length ks"
  proof -
    obtain x xs where "junk = x # xs" "length ?d \<le> length xs" using assms(6) unfolding E by (cases junk) auto
    then show ?thesis using that [of x "take (length ?d) xs" "drop (length ?d) xs"] by simp
  qed
  have dj: "drop (length E) junk = js" using j(2) unfolding E j(1) by simp
  have n: "length B < 65536" and B: "length B + 4 + length ?d < 65536" using assms(5) unfolding E by simp_all
  have w: "to16 (of_nat (length B) + of_nat (1 + length ?d) :: u32) = of_nat (length (B @ E))"
    unfolding E of_nat_add [symmetric] to16_of_nat by simp
  have close: "at_offset (length pre) (\<lambda>s. big_endian_store_16 s 1 (to16 (of_nat (length B) + of_nat (1 + length ?d) :: u32)))
      (pre @ de_header 6 6 (length B) @ B @ h # ?d @ js) = Some (open_seq pre (B @ E) js)"
    using close_item [of B E _ pre "length B" js] assms(5) unfolding w E by simp
  have desc: "at_offset (length pre + 3 + length B) (de_store_descriptor t s) (open_seq pre B junk)
      = Some (pre @ de_header 6 6 (length B) @ B @ h # ks @ js)"
    by (simp add: at_end de_store_descriptor_def wr_def h_def j(1))
  note field = store_field [OF B j(2), of _ _ _ pre "length B" h js]
  note size = open_seq_size [OF n]
  consider "s = 0" "t = 0" | "s = 0" "t \<noteq> 0" | "s = 1" | "s = 2" using s by blast
  then show ?thesis
  proof cases
    case 1
    then show ?thesis using desc close j(2)
      by (simp add: de_add_number_def size dj number_bytes_def)
  next
    case 2
    then show ?thesis using desc close field [of "\<lambda>s. wr s (4 + length B) (to8 v)" 0 0]
      by (simp add: de_add_number_def size dj number_bytes_def)
  next
    case 3
    then show ?thesis using desc close field [of "\<lambda>s. big_endian_store_16 s (to16 (4 + of_nat (length B) :: u32)) (to16 v)" "to16 v" 0]
      by (simp add: de_add_number_def size dj number_bytes_def)
  next
    case 4
    then show ?thesis using desc close field [of "\<lambda>s. big_endian_store_32 s (to16 (4 + of_nat (length B) :: u32)) v" 0 v]
      by (simp add: de_add_number_def size dj number_bytes_def)
  qed
qed

lemma store_with_len:
  assumes "s = 5 \<or> s = 6" and "header_length s \<le> length junk"
  shows "de_store_descriptor_with_len t s (of_nat n) junk = Some (de_header t s n @ drop (header_length s) junk)"
  using assms(1)
proof
  assume s: "s = 5"
  then have "Suc (Suc 0) \<le> length junk" using assms(2) by (simp add: header_length_def)
  then obtain a b js where "junk = a # b # js" by (auto simp: Suc_le_length_iff)
  moreover have "to8 (of_nat n :: u32) = of_nat n" by (simp add: word_unat_eq_iff unsigned_ucast_eq unsigned_of_nat)
  ultimately show ?thesis using s
    by (simp add: de_store_descriptor_with_len_def wr_def de_header_def de_length_def header_length_def)
next
  assume s: "s = 6"
  then have "Suc (Suc (Suc 0)) \<le> length junk" using assms(2) by (simp add: header_length_def)
  then obtain a b c js where "junk = a # b # c # js" by (auto simp: Suc_le_length_iff)
  then show ?thesis using s store_16_at [of 1 "[push_bit 3 t OR 6]" b c js]
    by (simp add: de_store_descriptor_with_len_def wr_def de_header_def de_length_def header_length_def to16_of_nat)
qed

lemma add_data_item:
  assumes "t < 32" and E: "E = de_bytes (Item t (if length d > 255 then 6 else 5) d)"
    and "length (B @ E) + 3 < 65536" and "length E \<le> length junk"
  shows "de_add_data (open_seq pre B junk) (length pre) t (of_nat (length d)) d
    = Some (open_seq pre (B @ E) (drop (length E) junk))"
proof -
  define s :: u8 where "s = (if length d > 255 then 6 else 5)"
  let ?H = "de_header t s (length d)" and ?hl = "header_length s"
  have E: "E = ?H @ d" unfolding E s_def by simp
  have s: "s = 5 \<or> s = 6" by (simp add: s_def)
  have d: "length d < 65536" and n: "length B < 65536" using assms(3) unfolding E by simp_all
  have u: "unat (of_nat (length d) :: u16) = length d" using d by (simp add: unat_of_nat_u16)
  have big: "(of_nat (length d) :: u16) > 0xff \<longleftrightarrow> length d > 255" using u by (simp add: word_less_nat_alt)
  have t32: "to32 (of_nat (length d) :: u16) = of_nat (length d)" using d u by (simp add: word_unat_eq_iff unat_of_nat_u32)
  have hl: "?hl \<le> length junk" using assms(4) unfolding E by simp
  note desc = store_with_len [OF s hl, of t "length d"]
  have a1: "at_offset (length pre + 3 + length B) (de_store_descriptor_with_len t s (of_nat (length d))) (open_seq pre B junk)
      = Some (pre @ de_header 6 6 (length B) @ (B @ ?H) @ drop ?hl junk)"
    by (simp add: at_end desc)
  have wr: "wr_range (drop ?hl junk) 0 d = Some (d @ drop (length E) junk)"
    using assms(4) unfolding E by (auto simp: wr_range_def add.commute)
  have a2: "at_offset (length pre + 3 + length (B @ ?H)) (\<lambda>s. wr_range s 0 d) (pre @ de_header 6 6 (length B) @ (B @ ?H) @ drop ?hl junk)
      = Some (pre @ de_header 6 6 (length B) @ (B @ ?H) @ d @ drop (length E) junk)"
    unfolding at_end wr by simp
  have sz: "unat (of_nat (length B) + of_nat ?hl :: u32) = length (B @ ?H)"
    using assms(3) unfolding E by (simp add: unat_of_nat_u32 flip: of_nat_add)
  have w: "to16 (of_nat (length B) + of_nat ?hl + of_nat (length d) :: u32) = of_nat (length (B @ E))"
    unfolding E of_nat_add [symmetric] to16_of_nat by simp
  have a3: "at_offset (length pre) (\<lambda>s. big_endian_store_16 s 1 (of_nat (length (B @ E))))
      (pre @ de_header 6 6 (length B) @ (B @ ?H) @ d @ drop (length E) junk) = Some (open_seq pre (B @ E) (drop (length E) junk))"
    using close_item [of B E _ pre "length B" "drop (length E) junk"] assms(3) unfolding E by simp
  have rd: "rd_range d 0 (length d) = Some d" by (simp add: rd_range_def)
  have hl5: "of_nat ?hl = (if length d > 255 then 3 else 2 :: u32)" by (simp add: s_def header_length_def)
  have "de_add_data (open_seq pre B junk) (length pre) t (of_nat (length d)) d = do {
      buf \<leftarrow> at_offset (length pre + 3 + length B) (de_store_descriptor_with_len t s (of_nat (length d))) (open_seq pre B junk);
      buf \<leftarrow> at_offset (length pre + 3 + unat (of_nat (length B) + of_nat ?hl :: u32)) (\<lambda>s. wr_range s 0 d) buf;
      at_offset (length pre) (\<lambda>s. big_endian_store_16 s 1 (to16 (of_nat (length B) + of_nat ?hl + of_nat (length d) :: u32))) buf }"
    by (cases "length d > 255") (simp_all add: de_add_data_def open_seq_size [OF n] big t32 u rd s_def header_length_def)
  also have "\<dots> = Some (open_seq pre (B @ E) (drop (length E) junk))"
    by (simp only: a1 a2 a3 sz w Option.bind.bind_lunit)
  finally show ?thesis .
qed

lemma add_uuid128_item:
  assumes "length d = 16" and E: "E = de_bytes (Item 3 4 d)"
    and "length (B @ E) + 3 < 65536" and "length E \<le> length junk"
  shows "de_add_uuid128 (open_seq pre B junk) (length pre) d = Some (open_seq pre (B @ E) (drop (length E) junk))"
proof -
  have E: "E = 0x1c # d" unfolding E by (simp add: de_header_def de_length_def)
  obtain x js where j: "junk = x # js" using assms(4) unfolding E by (cases junk) auto
  have n: "length B < 65536" using assms(3) by simp
  have a1: "at_offset (length pre + 3 + length B) (de_store_descriptor 3 4) (open_seq pre B junk)
      = Some (pre @ de_header 6 6 (length B) @ (B @ [0x1c]) @ js)"
    by (simp add: at_end de_store_descriptor_def wr_def j)
  have wr: "wr_range js 0 d = Some (d @ drop (length E) junk)"
    using assms(1,4) unfolding E j by (auto simp: wr_range_def)
  have a2: "at_offset (length pre + 3 + length (B @ [0x1c])) (\<lambda>s. wr_range s 0 d) (pre @ de_header 6 6 (length B) @ (B @ [0x1c]) @ js)
      = Some (pre @ de_header 6 6 (length B) @ (B @ [0x1c]) @ d @ drop (length E) junk)"
    unfolding at_end wr by simp
  have w: "to16 (of_nat (length B) + 1 + 16 :: u32) = of_nat (length (B @ E))"
  proof -
    have "(of_nat (length B) + 1 + 16 :: u32) = of_nat (length B + 17)" by simp
    moreover have "length (B @ E) = length B + 17" unfolding E using assms(1) by simp
    ultimately show ?thesis by (simp only: to16_of_nat)
  qed
  have a3: "at_offset (length pre) (\<lambda>s. big_endian_store_16 s 1 (of_nat (length (B @ E))))
      (pre @ de_header 6 6 (length B) @ (B @ [0x1c]) @ d @ drop (length E) junk) = Some (open_seq pre (B @ E) (drop (length E) junk))"
    using close_item [of B E _ pre "length B" "drop (length E) junk"] assms(3) unfolding E by simp
  have rd: "rd_range d 0 16 = Some d" using assms(1) by (simp add: rd_range_def)
  have p: "length pre + 4 + length B = length pre + 3 + length (B @ [0x1c])" by simp
  have "de_add_uuid128 (open_seq pre B junk) (length pre) d = do {
      buf \<leftarrow> at_offset (length pre + 3 + length B) (de_store_descriptor 3 4) (open_seq pre B junk);
      buf \<leftarrow> at_offset (length pre + 4 + length B) (\<lambda>s. wr_range s 0 d) buf;
      at_offset (length pre) (\<lambda>s. big_endian_store_16 s 1 (to16 (of_nat (length B) + 1 + 16 :: u32))) buf }"
    by (simp add: de_add_uuid128_def open_seq_size [OF n] rd)
  also have "\<dots> = Some (open_seq pre (B @ E) (drop (length E) junk))"
    by (simp only: a1 a2 a3 p w Option.bind.bind_lunit)
  finally show ?thesis .
qed

section \<open>Sequences inside\<close>

lemma open_seq_len:
  assumes "length B < 65536"
  shows "de_get_len (de_header 6 6 (length B) @ B @ junk) = Some (int (3 + length B))"
proof -
  note r = read_header [of 6 6 "length B" "B @ junk"]
  have "de_get_len (de_header 6 6 (length B) @ B @ junk) = Some (sint (of_nat (3 + length B) :: u32))"
    using r assms by (simp add: de_get_len_def size_fits_def header_length_def)
  then show ?thesis using assms sint_of_nat_u32 [of "3 + length B"] by simp
qed

lemma create_seq:
  assumes "3 \<le> length junk"
  shows "at_offset (length pre) (de_store_descriptor_with_len DE_DES DE_SIZE_VAR_16 0) (pre @ junk)
    = Some (open_seq pre [] (drop 3 junk))"
  using store_with_len [of 6 junk 6 0] assms by (simp add: at_offset_append header_length_def)

lemma push_seq:
  assumes "length B < 65536" and "3 \<le> length junk" and inner: "inner = pre @ de_header 6 6 (length B) @ B"
  shows "de_push_sequence (open_seq pre B junk) (length pre) = Some (length inner, open_seq inner [] (drop 3 junk))"
proof -
  have p: "length pre + nat (int (3 + length B)) = length inner" by (simp add: inner header_length_def)
  have b: "open_seq pre B junk = inner @ junk" by (simp add: inner)
  have d: "drop (length pre) (open_seq pre B junk) = de_header 6 6 (length B) @ B @ junk" by simp
  have "\<not> int (3 + length B) < 0" by simp
  then show ?thesis
    unfolding de_push_sequence_def d open_seq_len [OF assms(1)] Option.bind.bind_lunit
    by (simp only: if_False p b create_seq [OF assms(2)] Option.bind.bind_lunit)
qed

lemma pop_seq:
  assumes "length (B @ E) < 65536" and E: "E = de_header 6 6 (length C) @ C"
    and inner: "inner = pre @ de_header 6 6 (length B) @ B"
  shows "de_pop_sequence (open_seq inner C junk) (length pre) (length inner) = Some (open_seq pre (B @ E) junk)"
proof -
  have n: "length B < 65536" "length C < 65536" using assms(1) unfolding E by simp_all
  have b: "open_seq inner C junk = pre @ de_header 6 6 (length B) @ B @ E @ junk" by (simp add: inner E)
  have d1: "drop (length inner) (open_seq inner C junk) = de_header 6 6 (length C) @ C @ junk" by simp
  have d2: "drop (length pre) (open_seq inner C junk) = de_header 6 6 (length B) @ B @ E @ junk" unfolding b by simp
  have w: "word_of_int (uint (of_nat (length B) :: u32) + int (3 + length C)) = (of_nat (length (B @ E)) :: u16)"
  proof -
    have "uint (of_nat (length B) :: u32) = int (length B)" using open_seq_size(2) [OF n(1)] unfolding uint_nat by simp
    then have "uint (of_nat (length B) :: u32) + int (3 + length C) = int (length (B @ E))"
      by (simp add: E header_length_def)
    then show ?thesis by (simp only: of_int_of_nat_eq)
  qed
  show ?thesis
    unfolding de_pop_sequence_def d1 d2 open_seq_len [OF n(2)] Option.bind.bind_lunit w
    using close_item [OF assms(1) refl, of pre "length B" junk]
    by (simp only: One_nat_def open_seq_size(1) [OF n(1)] Option.bind.bind_lunit w b)
qed


section \<open>Building a whole sequence\<close>

text \<open>What a caller of the builder adds to a sequence, and the element it stands for.\<close>

datatype de_script = Number u8 u8 u32 | Uuid128 buffer | Data u8 buffer | Sequence "de_script list"

fun element :: "de_script \<Rightarrow> de" where
  "element (Number t s v) = Item t s (number_bytes t s v)"
| "element (Uuid128 d) = Item 3 4 d"
| "element (Data t d) = Item t (if length d > 255 then 6 else 5) d"
| "element (Sequence ss) = Seq 6 (map element ss)"

fun script_ok :: "de_script \<Rightarrow> bool" where
  "script_ok (Number t s v) \<longleftrightarrow> t < 32 \<and> t \<noteq> 6 \<and> s \<le> 2 \<and> (s \<noteq> 0 \<longrightarrow> t \<noteq> 0)"
| "script_ok (Uuid128 d) \<longleftrightarrow> length d = 16"
| "script_ok (Data t d) \<longleftrightarrow> t < 32 \<and> t \<noteq> 6"
| "script_ok (Sequence ss) \<longleftrightarrow> list_all script_ok ss"

fun add_script :: "buffer \<Rightarrow> nat \<Rightarrow> de_script \<Rightarrow> buffer option"
  and add_scripts :: "buffer \<Rightarrow> nat \<Rightarrow> de_script list \<Rightarrow> buffer option" where
  "add_script buf seq (Number t s v) = de_add_number buf seq t s v"
| "add_script buf seq (Uuid128 d) = de_add_uuid128 buf seq d"
| "add_script buf seq (Data t d) = de_add_data buf seq t (of_nat (length d)) d"
| "add_script buf seq (Sequence ss) = do {
     (child, buf) \<leftarrow> de_push_sequence buf seq;
     buf \<leftarrow> add_scripts buf child ss;
     de_pop_sequence buf seq child }"
| "add_scripts buf seq [] = Some buf"
| "add_scripts buf seq (s # ss) = do { buf \<leftarrow> add_script buf seq s; add_scripts buf seq ss }"

text \<open>Adding appends an encoding, where there is room for it.\<close>

definition appends :: "(buffer \<Rightarrow> nat \<Rightarrow> buffer option) \<Rightarrow> buffer \<Rightarrow> bool" where
  "appends f E \<longleftrightarrow> (\<forall>pre B junk. length (B @ E) + 3 < 65536 \<longrightarrow> length E \<le> length junk \<longrightarrow>
     f (open_seq pre B junk) (length pre) = Some (open_seq pre (B @ E) (drop (length E) junk)))"

lemma appendsD:
  assumes "appends f E" and "length (B @ E) + 3 < 65536" and "length E \<le> length junk"
  shows "f (open_seq pre B junk) (length pre) = Some (open_seq pre (B @ E) (drop (length E) junk))"
  using assms unfolding appends_def by blast

lemma add_scripts_appends:
  assumes "\<And>s. s \<in> set ss \<Longrightarrow> appends (\<lambda>buf seq. add_script buf seq s) (de_bytes (element s))"
  shows "appends (\<lambda>buf seq. add_scripts buf seq ss) (body (map element ss))"
  using assms
proof (induction ss)
  case (Cons s ss)
  let ?E = "de_bytes (element s)" and ?F = "body (map element ss)"
  have s: "appends (\<lambda>buf seq. add_script buf seq s) ?E" by (rule Cons.prems) simp
  have ss: "appends (\<lambda>buf seq. add_scripts buf seq ss) ?F" by (rule Cons.IH) (rule Cons.prems, simp)
  have E: "body (map element (s # ss)) = ?E @ ?F" by simp
  show ?case
    unfolding appends_def E add_scripts.simps
  proof (intro allI impI)
    fix pre B junk :: buffer
    assume l: "length (B @ ?E @ ?F) + 3 < 65536" "length (?E @ ?F) \<le> length junk"
    then have "length (B @ ?E) + 3 < 65536" "length ?E \<le> length junk" "length ((B @ ?E) @ ?F) + 3 < 65536"
      "length ?F \<le> length (drop (length ?E) junk)" by simp_all
    note appendsD [OF s this(1,2), of pre] appendsD [OF ss this(3,4), of pre]
    then show "do { buf \<leftarrow> add_script (open_seq pre B junk) (length pre) s; add_scripts buf (length pre) ss }
      = Some (open_seq pre (B @ ?E @ ?F) (drop (length (?E @ ?F)) junk))"
      by (simp only: Option.bind.bind_lunit append_assoc drop_drop length_append add.commute)
  qed
qed (simp add: appends_def)

lemma add_script_appends: "script_ok s \<Longrightarrow> appends (\<lambda>buf seq. add_script buf seq s) (de_bytes (element s))"
proof (induction s)
  case (Number t s v)
  then show ?case unfolding appends_def add_script.simps element.simps script_ok.simps
    by (intro allI impI) (rule add_number_item [OF _ _ _ refl], blast+)
next
  case (Uuid128 d)
  then show ?case unfolding appends_def add_script.simps element.simps script_ok.simps
    by (intro allI impI) (rule add_uuid128_item [OF _ refl], blast+)
next
  case (Data t d)
  then show ?case unfolding appends_def add_script.simps element.simps script_ok.simps
    by (intro allI impI) (rule add_data_item [OF _ refl], blast+)
next
  case (Sequence ss)
  let ?C = "body (map element ss)"
  have "\<And>s. s \<in> set ss \<Longrightarrow> script_ok s" using Sequence.prems by (simp add: list_all_iff)
  then have ss: "appends (\<lambda>buf seq. add_scripts buf seq ss) ?C"
    by (intro add_scripts_appends Sequence.IH)
  define E where "E = de_bytes (element (Sequence ss))"
  have E: "E = de_header 6 6 (length ?C) @ ?C" by (simp add: E_def)
  have lE: "length E = 3 + length ?C" unfolding E by (simp add: header_length_def)
  show ?case
    unfolding appends_def add_script.simps E_def [symmetric]
  proof (intro allI impI)
    fix pre B junk :: buffer
    assume l: "length (B @ E) + 3 < 65536" "length E \<le> length junk"
    define inner where "inner = pre @ de_header 6 6 (length B) @ B"
    have b: "length B < 65536" "3 \<le> length junk" "length (B @ E) < 65536" "length ([] @ ?C) + 3 < 65536"
      "length ?C \<le> length (drop 3 junk)" using l unfolding length_append lE by simp_all
    have j: "drop (length ?C) (drop 3 junk) = drop (length E) junk" unfolding lE by (simp add: add.commute)
    have "do { (child, buf) \<leftarrow> de_push_sequence (open_seq pre B junk) (length pre);
          buf \<leftarrow> add_scripts buf child ss; de_pop_sequence buf (length pre) child }
        = do { buf \<leftarrow> add_scripts (open_seq inner [] (drop 3 junk)) (length inner) ss;
          de_pop_sequence buf (length pre) (length inner) }"
      by (simp only: push_seq [OF b(1,2) inner_def] Option.bind.bind_lunit prod.case)
    also have "\<dots> = de_pop_sequence (open_seq inner ?C (drop (length E) junk)) (length pre) (length inner)"
      by (simp only: appendsD [OF ss b(4,5), of inner, unfolded append_Nil] Option.bind.bind_lunit append_Nil j)
    also have "\<dots> = Some (open_seq pre (B @ E) (drop (length E) junk))" by (rule pop_seq [OF b(3) E inner_def])
    finally show "do { (child, buf) \<leftarrow> de_push_sequence (open_seq pre B junk) (length pre);
          buf \<leftarrow> add_scripts buf child ss; de_pop_sequence buf (length pre) child }
        = Some (open_seq pre (B @ E) (drop (length E) junk))" .
  qed
qed


lemma number_bytes_length:
  assumes "s \<le> 2" and "s \<noteq> 0 \<longrightarrow> t \<noteq> 0"
  shows "size_fits t s (length (number_bytes t s v))"
proof -
  have "s = 0 \<or> s = 1 \<or> s = 2" using assms(1) u8_less_8 [of s] by (auto simp: word_le_nat_alt word_less_nat_alt)
  then show ?thesis using assms(2) by (auto simp: size_fits_def number_bytes_def)
qed

lemma part_less: "e \<in> set es \<Longrightarrow> length (de_bytes e) \<le> length (body es)"
  by (induction es) auto

lemma element_ok: "script_ok s \<Longrightarrow> length (de_bytes (element s)) < 65536 \<Longrightarrow> de_ok (element s)"
proof (induction s)
  case (Number t s v)
  then show ?case using number_bytes_length [of s t v] by simp
next
  case (Uuid128 d)
  then show ?case by (simp add: size_fits_def)
next
  case (Data t d)
  then show ?case by (auto simp: size_fits_def)
next
  case (Sequence ss)
  have b: "length (body (map element ss)) < 65536" using Sequence.prems(2) by simp
  have "de_ok (element s)" if "s \<in> set ss" for s
  proof (rule Sequence.IH [OF that])
    show "script_ok s" using Sequence.prems(1) that by (simp add: list_all_iff)
    show "length (de_bytes (element s)) < 65536" using part_less [of "element s" "map element ss"] that b by simp
  qed
  then show ?case using b by (simp add: size_fits_def list_all_iff del: length_concat)
qed

text \<open>A sequence made from scratch at the start of the buffer.\<close>

definition build_sequence :: "buffer \<Rightarrow> de_script list \<Rightarrow> buffer option" where
  "build_sequence buf ss = do { buf \<leftarrow> de_create_sequence buf 0; add_scripts buf 0 ss }"

lemma build_sequence_bytes:
  assumes "list_all script_ok ss" and r: "r = Seq 6 (map element ss)"
    and "length (de_bytes r) < 65536" and "length (de_bytes r) \<le> length buf"
  shows "build_sequence buf ss = Some (de_bytes r @ drop (length (de_bytes r)) buf)"
proof -
  let ?F = "body (map element ss)"
  have l: "length (de_bytes r) = 3 + length ?F" unfolding r by (simp add: header_length_def)
  have b: "3 \<le> length buf" "length ([] @ ?F) + 3 < 65536" "length ?F \<le> length (drop 3 buf)"
    using assms(3,4) unfolding l by simp_all
  have "appends (\<lambda>buf seq. add_scripts buf seq ss) ?F"
    by (rule add_scripts_appends, rule add_script_appends) (use assms(1) in \<open>simp add: list_all_iff\<close>)
  from appendsD [OF this b(2,3), of "[]"]
  have "add_scripts (open_seq [] [] (drop 3 buf)) 0 ss = Some (de_bytes r @ drop (length (de_bytes r)) buf)"
    by (simp add: r header_length_def add.commute)
  then show ?thesis using create_seq [OF b(1), of "[]"]
    by (simp add: build_sequence_def de_create_sequence_def)
qed

section \<open>Looking up attributes\<close>

definition by_id_step :: "u16 \<Rightarrow> de \<Rightarrow> buffer \<Rightarrow> context_attribute_by_id \<Rightarrow> (int \<times> context_attribute_by_id) option" where
  "by_id_step i v rest c =
     (if i = by_id_attributeID c then Some (1, c\<lparr> by_id_attributeValue := Some (de_bytes v @ rest) \<rparr>) else Some (0, c))"

lemma by_id_acts: "acts_on_attributes sdp_traversal_attribute_by_id by_id_step as (\<lambda>_. True)"
  unfolding acts_on_attributes_def
  by (auto simp: sdp_traversal_attribute_by_id_def by_id_step_def simp del: de_bytes.simps split: prod.splits)

lemma visit_by_id:
  "\<exists>c'. visit_attributes_at by_id_step as rest c = Some c' \<and>
     (case map_of as (by_id_attributeID c) of None \<Rightarrow> c' = c | Some v \<Rightarrow> \<exists>rest'. by_id_attributeValue c' = Some (de_bytes v @ rest'))"
proof (induction as)
  case (Cons iv as)
  obtain i v where iv: "iv = (i, v)" by (cases iv)
  show ?case
    using Cons unfolding iv by (cases "i = by_id_attributeID c") (auto simp: by_id_step_def simp del: de_bytes.simps)
qed simp

lemma get_attribute_value:
  assumes "de_ok (Seq s (record_items as))"
  shows "case map_of as i of
      None \<Rightarrow> sdp_get_attribute_value_for_attribute_id (de_bytes (Seq s (record_items as)) @ rest) i = Some None
    | Some v \<Rightarrow> \<exists>rest'. sdp_get_attribute_value_for_attribute_id (de_bytes (Seq s (record_items as)) @ rest) i
        = Some (Some (de_bytes v @ rest'))"
proof -
  let ?c = "\<lparr> by_id_attributeID = i, by_id_attributeValue = None \<rparr>"
  obtain c' where c': "visit_attributes_at by_id_step as rest ?c = Some c'"
    "case map_of as i of None \<Rightarrow> c' = ?c | Some v \<Rightarrow> \<exists>rest'. by_id_attributeValue c' = Some (de_bytes v @ rest')"
    using visit_by_id [of as rest ?c] by auto
  have "sdp_get_attribute_value_for_attribute_id (de_bytes (Seq s (record_items as)) @ rest) i
      = Some (by_id_attributeValue c')"
    unfolding sdp_get_attribute_value_for_attribute_id_def
    by (subst attribute_list_visit_at [OF assms by_id_acts]) (simp_all add: c'(1) del: de_bytes.simps)
  then show ?thesis using c'(2) by (cases "map_of as i") (auto simp del: de_bytes.simps)
qed

section \<open>Properties\<close>

fun attribute_script :: "u16 \<times> de_script \<Rightarrow> de_script list" where
  "attribute_script (i, s) = [Number 1 1 (to32 i), s]"

lemma attribute_script_items:
  "map element (concat (map attribute_script as)) = record_items (map (apsnd element) as)"
proof -
  have "to16 (to32 i) = i" for i :: u16 by (rule bit_word_eqI) (simp add: bit_simps)
  then have "map element (attribute_script a) = attribute_items (apsnd element a)" for a
    by (cases a) (simp add: number_bytes_def)
  then show ?thesis by (induction as) simp_all
qed

text \<open>C12: Building records.  Let a caller make a record at the start of a buffer by creating a sequence and adding for
  each attribute its identifier and its value, numbers, UUIDs, strings and sequences inside sequences to any depth.  If
  the encoding is below 65536 bytes and fits the buffer, no store fails, the buffer then holds the encoding of the
  record followed by what was behind it, the record is well-formed, and looking up any identifier finds the value
  that was first added under it, or nothing when none was.\<close>

theorem sdp_build:
  assumes "\<forall>(i, s) \<in> set as. script_ok s"
    and "r = Seq 6 (record_items (map (apsnd element) as))"
    and "length (de_bytes r) < 65536" and "length (de_bytes r) \<le> length buf"
  shows "\<exists>built. build_sequence buf (concat (map attribute_script as)) = Some built
    \<and> built = de_bytes r @ drop (length (de_bytes r)) buf \<and> de_ok r
    \<and> (\<forall>i. case map_of as i of
          None \<Rightarrow> sdp_get_attribute_value_for_attribute_id built i = Some None
        | Some s \<Rightarrow> \<exists>rest. sdp_get_attribute_value_for_attribute_id built i = Some (Some (de_bytes (element s) @ rest)))"
proof -
  let ?ss = "concat (map attribute_script as)" and ?as = "map (apsnd element) as"
  have r: "r = Seq 6 (map element ?ss)" unfolding attribute_script_items by (rule assms(2))
  have ss: "list_all script_ok ?ss" using assms(1) by (fastforce simp: list_all_iff)
  have "de_ok (element (Sequence ?ss))" by (rule element_ok) (use ss assms(3) in \<open>simp_all add: r\<close>)
  then have ok: "de_ok r" by (simp add: r)
  have "map_of ?as i = map_option element (map_of as i)" for i by (induction as) (auto simp: apsnd_def map_prod_def)
  then have "case map_of as i of None \<Rightarrow> sdp_get_attribute_value_for_attribute_id (de_bytes r @ rest) i = Some None
        | Some s \<Rightarrow> \<exists>rest'. sdp_get_attribute_value_for_attribute_id (de_bytes r @ rest) i = Some (Some (de_bytes (element s) @ rest'))"
    for i rest using get_attribute_value [of 6 ?as rest i] ok unfolding assms(2) by (cases "map_of as i") simp_all
  then show ?thesis using build_sequence_bytes [OF ss r assms(3,4)] ok by blast
qed

text \<open>A record with a handle and a protocol list, in a buffer of 32 bytes.\<close>

theorem sdp_build_witness:
  "build_sequence (replicate 32 0xee)
     (concat (map attribute_script [(0, Number 1 2 0x10001), (4, Sequence [Sequence [Number 3 1 0x100, Number 1 1 3]])]))
   = Some ([0x36, 0, 23, 0x09, 0, 0, 0x0a, 0, 1, 0, 1, 0x09, 0, 4, 0x36, 0, 9, 0x36, 0, 6, 0x19, 1, 0, 0x09, 0, 3]
       @ replicate 6 0xee)"
proof -
  let ?as = "[(0, Number 1 2 0x10001), (4, Sequence [Sequence [Number 3 1 0x100, Number 1 1 3]])] :: (u16 \<times> de_script) list"
  have b: "de_bytes (Seq 6 (record_items (map (apsnd element) ?as)))
    = [0x36, 0, 23, 0x09, 0, 0, 0x0a, 0, 1, 0, 1, 0x09, 0, 4, 0x36, 0, 9, 0x36, 0, 6, 0x19, 1, 0, 0x09, 0, 3]"
    by (simp add: number_bytes_def de_header_def de_length_def be_16_def be_32_def)
  have d: "drop 26 (replicate 32 (0xee :: u8)) = replicate 6 0xee" by simp
  show ?thesis
    using sdp_build [of ?as _ "replicate 32 0xee", OF _ refl] unfolding b by (simp add: d)
qed

end
