(* ===== verification/Sdp_Responses.thy ===== *)
theory Sdp_Responses
  imports Sdp_Server Sdp_Filter Sdp_Build
begin

text \<open>
  What the SDP server answers.  The registered records as a list, the loops over them as walks along the list, and the
  contract of an answer in fragments: a client that sends the continuation state it got last gets the whole answer.
\<close>

section \<open>The registered records\<close>

definition registered :: "sdp_server \<Rightarrow> service_record_item list \<Rightarrow> bool" where
  "registered s rs \<longleftrightarrow>
     (\<exists>xs. chain (sdp_nodes s) (sdp_service_records s) xs \<and> map (sdp_items s) xs = map Some rs)"

fun walk :: "('i \<Rightarrow> 'c \<Rightarrow> (bool \<times> 'c) option) \<Rightarrow> ('c \<Rightarrow> 'c) \<Rightarrow> 'i list \<Rightarrow> 'c \<Rightarrow> 'c option" where
  "walk f inc [] c = Some c"
| "walk f inc (i # is) c = do { (go_on, c) \<leftarrow> f i c; if \<not> go_on then Some c else walk f inc is (inc c) }"

lemma chain_Cons_next:
  assumes "chain h p (x # xs)" and "h p = Some it"
  obtains n where "it = x" and "x \<noteq> NULL" and "h x = Some n" and "chain h x xs"
  using assms by (auto dest: chain_first)

lemma record_item_from_walk:
  assumes "chain (sdp_nodes s) p xs" and "sdp_nodes s p = Some it" and "map (sdp_items s) xs = map Some rs"
  shows "case List.find (\<lambda>i. service_record_handle i = h) rs of
      None \<Rightarrow> record_item_from s it h = Some NULL
    | Some i \<Rightarrow> \<exists>x \<in> set xs. record_item_from s it h = Some x \<and> x \<noteq> NULL \<and> sdp_items s x = Some i"
  using assms
proof (induction xs arbitrary: p it rs)
  case (Cons x xs)
  obtain n where n: "it = x" "x \<noteq> NULL" "sdp_nodes s x = Some n" "chain (sdp_nodes s) x xs"
    by (rule chain_Cons_next [OF Cons.prems(1,2)])
  obtain r rs' where r: "rs = r # rs'" "sdp_items s x = Some r" "map (sdp_items s) xs = map Some rs'"
    using Cons.prems(3) by (cases rs) auto
  have step: "record_item_from s x h = (if service_record_handle r = h then Some x else record_item_from s n h)"
    using n(2,3) r(2) by (subst record_item_from.simps) simp
  show ?case
    using Cons.IH [OF n(4,3) r(3)] n(1,2) r(2) unfolding r(1) by (auto simp: step split: option.splits)
qed (simp add: record_item_from.simps)

lemma total_from_walk:
  assumes "chain (sdp_nodes s) p xs" and "sdp_nodes s p = Some it" and "map (sdp_items s) xs = map Some rs"
    and "\<And>r. r \<in> set rs \<Longrightarrow> sdp_record_matches_service_search_pattern (service_record r) pat = Some (if m r then 1 else 0)"
  shows "total_from s pat it c = Some (c + of_nat (length (filter m rs)))"
  using assms
proof (induction xs arbitrary: p it rs c)
  case (Cons x xs)
  obtain n where n: "it = x" "x \<noteq> NULL" "sdp_nodes s x = Some n" "chain (sdp_nodes s) x xs"
    by (rule chain_Cons_next [OF Cons.prems(1,2)])
  obtain r rs' where r: "rs = r # rs'" "sdp_items s x = Some r" "map (sdp_items s) xs = map Some rs'"
    using Cons.prems(3) by (cases rs) auto
  have "total_from s pat n c' = Some (c' + of_nat (length (filter m rs')))" for c'
    by (rule Cons.IH [OF n(4,3) r(3)]) (simp add: Cons.prems(4) r(1))
  then show ?case
    using n(2,3) r(2) Cons.prems(4) [of r] unfolding r(1) n(1) by (subst total_from.simps) (simp add: add.assoc)
qed (simp add: total_from.simps)

lemma size_from_walk:
  assumes "chain (sdp_nodes s) p xs" and "sdp_nodes s p = Some it" and "map (sdp_items s) xs = map Some rs"
    and "\<And>r. r \<in> set rs \<Longrightarrow> sdp_record_matches_service_search_pattern (service_record r) pat = Some (if m r then 1 else 0)"
    and "\<And>r. r \<in> set rs \<Longrightarrow> m r \<Longrightarrow> spd_get_filtered_size (service_record r) ids = Some (int (f r))"
  shows "size_from s pat ids it c = Some (c + of_nat (\<Sum>r \<leftarrow> filter m rs. 3 + f r))"
  using assms
proof (induction xs arbitrary: p it rs c)
  case (Cons x xs)
  obtain n where n: "it = x" "x \<noteq> NULL" "sdp_nodes s x = Some n" "chain (sdp_nodes s) x xs"
    by (rule chain_Cons_next [OF Cons.prems(1,2)])
  obtain r rs' where r: "rs = r # rs'" "sdp_items s x = Some r" "map (sdp_items s) xs = map Some rs'"
    using Cons.prems(3) by (cases rs) auto
  have "size_from s pat ids n c' = Some (c' + of_nat (\<Sum>r \<leftarrow> filter m rs'. 3 + f r))" for c'
    by (rule Cons.IH [OF n(4,3) r(3)]) (simp_all add: Cons.prems(4,5) r(1))
  then show ?case
    using n(2,3) r(2) Cons.prems(4,5) [of r] unfolding r(1) n(1) by (subst size_from.simps) (simp add: add.assoc)
qed (simp add: size_from.simps)

lemma search_from_walk:
  assumes "chain (sdp_nodes s) p xs" and "sdp_nodes s p = Some it" and "map (sdp_items s) xs = map Some rs"
  shows "search_from s b it c = walk b (\<lambda>c. c\<lparr> ss_current_service_index := ss_current_service_index c + 1 \<rparr>) rs c"
  using assms
proof (induction xs arbitrary: p it rs c)
  case (Cons x xs)
  obtain n where n: "it = x" "x \<noteq> NULL" "sdp_nodes s x = Some n" "chain (sdp_nodes s) x xs"
    by (rule chain_Cons_next [OF Cons.prems(1,2)])
  obtain r rs' where r: "rs = r # rs'" "sdp_items s x = Some r" "map (sdp_items s) xs = map Some rs'"
    using Cons.prems(3) by (cases rs) auto
  show ?case
    using n(2,3) r(2) Cons.IH [OF n(4,3) r(3)] unfolding r(1) n(1)
    by (subst search_from.simps) (simp cong: if_cong)
qed (simp add: search_from.simps)

lemma attribute_lists_from_walk:
  assumes "chain (sdp_nodes s) p xs" and "sdp_nodes s p = Some it" and "map (sdp_items s) xs = map Some rs"
  shows "attribute_lists_from s b it c
    = walk b (\<lambda>c. c\<lparr> al_current_service_index := al_current_service_index c + 1 \<rparr>) rs c"
  using assms
proof (induction xs arbitrary: p it rs c)
  case (Cons x xs)
  obtain n where n: "it = x" "x \<noteq> NULL" "sdp_nodes s x = Some n" "chain (sdp_nodes s) x xs"
    by (rule chain_Cons_next [OF Cons.prems(1,2)])
  obtain r rs' where r: "rs = r # rs'" "sdp_items s x = Some r" "map (sdp_items s) xs = map Some rs'"
    using Cons.prems(3) by (cases rs) auto
  show ?case
    using n(2,3) r(2) Cons.IH [OF n(4,3) r(3)] unfolding r(1) n(1)
    by (subst attribute_lists_from.simps) (simp cong: if_cong)
qed (simp add: attribute_lists_from.simps)

section \<open>Answers in fragments\<close>

text \<open>The client: it asks with the continuation state of the last response, until there is none.\<close>

partial_function (option) sdp_fetch ::
    "('s \<Rightarrow> buffer \<Rightarrow> (buffer \<times> 's) option) \<Rightarrow> (buffer \<Rightarrow> buffer) \<Rightarrow> (buffer \<Rightarrow> (buffer \<times> buffer) option)
       \<Rightarrow> buffer \<Rightarrow> buffer \<Rightarrow> 's \<Rightarrow> (buffer \<times> 's) option" where
  "sdp_fetch server request split_response continuation acc s = do {
     (response, s) \<leftarrow> server s (request continuation);
     (part, continuation) \<leftarrow> split_response response;
     if continuation = [0] then Some (acc @ part, s)
     else sdp_fetch server request split_response continuation (acc @ part) s }"

text \<open>\<open>remaining c rest\<close>: \<open>c\<close> is the continuation state of an answer of which \<open>rest\<close> is still to come.\<close>

locale fragmented_answer =
  fixes server :: "'s \<Rightarrow> buffer \<Rightarrow> (buffer \<times> 's) option" and request :: "buffer \<Rightarrow> buffer"
    and split_response :: "buffer \<Rightarrow> (buffer \<times> buffer) option"
    and good :: "'s \<Rightarrow> bool" and remaining :: "buffer \<Rightarrow> buffer \<Rightarrow> bool"
  assumes fragment: "good s \<Longrightarrow> remaining c rest \<Longrightarrow>
    \<exists>response s' part c'. server s (request c) = Some (response, s') \<and> good s' \<and> split_response response = Some (part, c')
      \<and> (if c' = [0] then rest = part else part \<noteq> [] \<and> (\<exists>rest'. rest = part @ rest' \<and> remaining c' rest'))"
begin

lemma fetch_all:
  assumes "good s" and "remaining c rest"
  shows "\<exists>s'. sdp_fetch server request split_response c acc s = Some (acc @ rest, s') \<and> good s'"
  using assms
proof (induction "length rest" arbitrary: s c rest acc rule: less_induct)
  case less
  obtain response s' part c' where f: "server s (request c) = Some (response, s')" "good s'"
    "split_response response = Some (part, c')"
    and rest: "if c' = [0] then rest = part else part \<noteq> [] \<and> (\<exists>rest'. rest = part @ rest' \<and> remaining c' rest')"
    using fragment [OF less.prems] by blast
  show ?case
  proof (cases "c' = [0]")
    case True
    then show ?thesis using f rest by (subst sdp_fetch.simps) simp
  next
    case False
    then obtain rest' where r: "part \<noteq> []" "rest = part @ rest'" "remaining c' rest'" using rest by auto
    then have "length rest' < length rest" by (simp add: length_greater_0_conv)
    from less.hyps [OF this f(2) r(3), of "acc @ part"] show ?thesis
      using f(1,3) False r(2) by (subst sdp_fetch.simps) simp
  qed
qed

end

text \<open>What a request and the permission to send make the server send.  L2CAP refuses what exceeds the MTU.\<close>

definition sdp_transact :: "(u16 \<Rightarrow> u16) \<Rightarrow> sdp_server \<Rightarrow> buffer \<Rightarrow> (buffer \<times> sdp_server) option" where
  "sdp_transact mtu_of s packet = do {
     s \<leftarrow> sdp_packet_handler mtu_of s 6 (l2cap_cid s) packet (of_nat (length packet));
     s \<leftarrow> sdp_packet_handler mtu_of s 4 (l2cap_cid s) [0x78, 0] 2;
     case rev (sdp_calls s) of
       Send c response # _ \<Rightarrow> if length response \<le> unat (mtu_of c) then Some (response, s) else None
     | _ \<Rightarrow> None }"


section \<open>Requests and responses\<close>

type_synonym service = "u32 \<times> u8 \<times> attribute_list"

fun item_of :: "service \<Rightarrow> service_record_item" where
  "item_of (h, t, as) = \<lparr> service_record_handle = h, service_record = de_bytes (Seq t (record_items as)) \<rparr>"

fun service_ok :: "service \<Rightarrow> bool" where
  "service_ok (h, t, as) \<longleftrightarrow> de_ok (Seq t (record_items as))"

definition serves :: "(u16 \<Rightarrow> u16) \<Rightarrow> service list \<Rightarrow> sdp_server \<Rightarrow> bool" where
  "serves mtu_of svs s \<longleftrightarrow> registered s (map item_of svs) \<and> list_all service_ok svs \<and> length svs < 65536
     \<and> l2cap_cid s \<noteq> 0 \<and> 48 \<le> mtu_of (l2cap_cid s)
     \<and> 48 \<le> length (sdp_response_buffer s) \<and> length (sdp_response_buffer s) < 65536"

definition remote_mtu :: "(u16 \<Rightarrow> u16) \<Rightarrow> sdp_server \<Rightarrow> u16" where
  "remote_mtu mtu_of s = (if unat (mtu_of (l2cap_cid s)) > length (sdp_response_buffer s)
     then of_nat (length (sdp_response_buffer s)) else mtu_of (l2cap_cid s))"

lemma remote_mtu_bounds:
  assumes "serves mtu_of svs s"
  shows "48 \<le> unat (remote_mtu mtu_of s)" and "unat (remote_mtu mtu_of s) \<le> unat (mtu_of (l2cap_cid s))"
    and "unat (remote_mtu mtu_of s) \<le> length (sdp_response_buffer s)"
  using assms by (auto simp: serves_def remote_mtu_def unat_of_nat_u16 word_le_nat_alt)

definition sdp_pdu :: "u8 \<Rightarrow> u16 \<Rightarrow> buffer \<Rightarrow> buffer" where
  "sdp_pdu pdu transaction_id params = [pdu] @ be_16 transaction_id @ be_16 (of_nat (length params)) @ params"

lemma to16_to32 [simp]: "to16 (to32 (i :: u16)) = i"
  by (rule bit_word_eqI) (simp add: bit_simps)

lemma read_u16_at:
  assumes "length xs = n"
  shows "read_u16 (xs @ be_16 v @ rest) n = Some v"
  using read_be_16 [of xs v rest] assms by simp

lemma sdp_pdu_head:
  shows "rd (sdp_pdu pdu tid params) 0 = Some pdu" and "read_u16 (sdp_pdu pdu tid params) 1 = Some tid"
    and "read_u16 (sdp_pdu pdu tid params) 3 = Some (of_nat (length params))"
    and "length (sdp_pdu pdu tid params) = 5 + length params"
proof -
  show "rd (sdp_pdu pdu tid params) 0 = Some pdu" by (simp add: sdp_pdu_def rd_def)
  show "read_u16 (sdp_pdu pdu tid params) 1 = Some tid" unfolding sdp_pdu_def by (rule read_u16_at) simp
  show "read_u16 (sdp_pdu pdu tid params) 3 = Some (of_nat (length params))"
    using read_u16_at [of "[pdu] @ be_16 tid" 3] by (simp add: sdp_pdu_def)
  show "length (sdp_pdu pdu tid params) = 5 + length params" by (simp add: sdp_pdu_def)
qed

text \<open>The handler of a kind of request.\<close>

definition handle_pdu :: "u8 \<Rightarrow> sdp_server \<Rightarrow> buffer \<Rightarrow> u16 \<Rightarrow> (u16 \<times> sdp_server) option" where
  "handle_pdu pdu = (if pdu = 2 then sdp_handle_service_search_request
     else if pdu = 4 then sdp_handle_service_attribute_request else sdp_handle_service_search_attribute_request)"

lemma transact_response:
  assumes s: "serves mtu_of svs s" and pdu: "pdu = 2 \<or> pdu = 4 \<or> pdu = 6" and "length params + 5 < 65536"
    and h: "handle_pdu pdu s (sdp_pdu pdu tid params) (remote_mtu mtu_of s)
      = Some (of_nat (length r), s\<lparr> sdp_response_buffer := r @ junk \<rparr>)"
    and r: "r \<noteq> []" "length r \<le> unat (remote_mtu mtu_of s)" and "length (r @ junk) = length (sdp_response_buffer s)"
  shows "\<exists>s'. sdp_transact mtu_of s (sdp_pdu pdu tid params) = Some (r, s') \<and> serves mtu_of svs s'"
proof -
  let ?p = "sdp_pdu pdu tid params"
  have n: "unat (of_nat (length ?p) :: u16) = length params + 5" "unat (of_nat (length params) :: u16) = length params"
    unfolding sdp_pdu_head(4) by (subst unat_of_nat_u16; use assms(3) in simp)+
  have lr: "unat (of_nat (length r) :: u16) = length r"
    by (rule unat_of_nat_u16 [OF le_less_trans [OF r(2) unat_u16_less]])
  then have r0: "(of_nat (length r) :: u16) \<noteq> 0" using r(1) by (metis length_0_conv unat_0)
  define s1 where "s1 = s\<lparr> sdp_response_buffer := r @ junk, sdp_response_size := of_nat (length r),
      sdp_calls := sdp_calls s @ [Request_can_send_now (l2cap_cid s)] \<rparr>"
  have 1: "sdp_packet_handler mtu_of s 6 (l2cap_cid s) ?p (of_nat (length ?p)) = Some s1"
    using h pdu r0 n
    by (auto simp: sdp_packet_handler_def sdp_request_def sdp_pdu_head(1-3) sdp_pdu_head(2) [unfolded One_nat_def] handle_pdu_def remote_mtu_def s1_def
        call_l2cap_def cong: if_cong)
  define s2 where "s2 = call_l2cap (Send (l2cap_cid s) r) (s1\<lparr> sdp_response_size := 0 \<rparr>)"
  have 2: "sdp_packet_handler mtu_of s1 4 (l2cap_cid s1) [0x78, 0] 2 = Some s2"
    using s r0 lr by (simp add: sdp_packet_handler_def rd_def sdp_respond_def s2_def s1_def rd_range_def serves_def Let_def)
  have "length r \<le> unat (mtu_of (l2cap_cid s))" using r(2) remote_mtu_bounds(2) [OF s] by simp
  then have "sdp_transact mtu_of s ?p = Some (r, s2)"
    using 1 2 by (simp add: sdp_transact_def) (simp add: s2_def s1_def call_l2cap_def)
  moreover have "serves mtu_of svs s2"
    using s assms(7) by (simp add: serves_def s2_def s1_def call_l2cap_def registered_def)
  ultimately show ?thesis by blast
qed

text \<open>The layout of the two kinds of response that carry attributes.\<close>

definition attributes_response :: "u8 \<Rightarrow> u16 \<Rightarrow> buffer \<Rightarrow> buffer \<Rightarrow> buffer" where
  "attributes_response pdu transaction_id part continuation =
     sdp_pdu pdu transaction_id (be_16 (of_nat (length part)) @ part @ continuation)"

definition split_attributes :: "buffer \<Rightarrow> (buffer \<times> buffer) option" where
  "split_attributes response = do {
     n \<leftarrow> read_u16 response 5;
     part \<leftarrow> rd_range response 7 (unat n);
     Some (part, drop (7 + unat n) response) }"

lemma split_attributes_response:
  "length part < 65536 \<Longrightarrow> split_attributes (attributes_response pdu tid part c) = Some (part, c)"
proof -
  assume l: "length part < 65536"
  define h where "h = [pdu] @ be_16 tid @ be_16 (of_nat (length (be_16 (of_nat (length part)) @ part @ c)))"
  have a: "attributes_response pdu tid part c = h @ be_16 (of_nat (length part)) @ part @ c"
    by (simp add: attributes_response_def sdp_pdu_def h_def)
  have h: "length h = 5" by (simp add: h_def)
  show ?thesis
    unfolding a split_attributes_def read_u16_at [OF h]
    using l h by (simp add: unat_of_nat_u16 rd_range_def)
qed

lemma header_stores_then:
  assumes "length h = 7"
  shows "do { buf \<leftarrow> wr (h @ xs) 0 pdu; buf \<leftarrow> big_endian_store_16 buf 1 tid; buf \<leftarrow> big_endian_store_16 buf 3 v;
       buf \<leftarrow> big_endian_store_16 buf 5 w; f buf }
    = f ([pdu] @ be_16 tid @ be_16 v @ be_16 w @ xs)"
proof -
  obtain a b c d e g i where h: "h = [a, b, c, d, e, g, i]"
    using assms by (auto simp: numeral_eq_Suc length_Suc_conv)
  have "wr (h @ xs) 0 pdu = Some ([pdu] @ b # c # d # e # g # i # xs)" by (simp add: h wr_def)
  moreover have "big_endian_store_16 ([pdu] @ b # c # d # e # g # i # xs) 1 tid = Some ([pdu] @ be_16 tid @ d # e # g # i # xs)"
    by (rule store_16_at) simp_all
  moreover have "big_endian_store_16 (([pdu] @ be_16 tid) @ d # e # g # i # xs) 3 v
      = Some (([pdu] @ be_16 tid) @ be_16 v @ g # i # xs)" by (rule store_16_at) simp_all
  moreover have "big_endian_store_16 (([pdu] @ be_16 tid @ be_16 v) @ g # i # xs) 5 w
      = Some (([pdu] @ be_16 tid @ be_16 v) @ be_16 w @ xs)" by (rule store_16_at) simp_all
  ultimately show ?thesis by simp
qed

lemmas header_stores = header_stores_then [where f = "\<lambda>buf. Some (f buf)" for f]


lemma to32_of_nat: "n < 65536 \<Longrightarrow> to32 (of_nat n :: u16) = of_nat n"
  by (simp add: word_unat_eq_iff unat_of_nat_u16 unat_of_nat_u32)

lemma header_into:
  assumes "p + 3 \<le> length b" and "n < 65536"
  shows "at_offset p (de_store_descriptor_with_len DE_DES DE_SIZE_VAR_16 (to32 (of_nat n :: u16))) b
    = Some (take p b @ de_header 6 6 n @ drop (p + 3) b)"
  using store_with_len [of 6 "drop p b" 6 n] assms
  by (simp add: at_offset_def to32_of_nat header_length_def add.commute)

lemma filter_into:
  assumes "de_ok (Seq t (record_items as))" and "de_ok (Seq t' ids)" and "length (selected ids as) < 65536"
    and "p + unat m \<le> length b" and part: "part = take (unat m) (drop (unat off) (selected ids as))"
  shows "at_pointer p (sdp_filter_attributes_in_attributeIDList (de_bytes (Seq t (record_items as)))
      (de_bytes (Seq t' ids) @ rest') off m) b
    = Some (if length (selected ids as) - unat off \<le> unat m then 1 else 0, of_nat (length part),
        take p b @ part @ drop (p + length part) b)"
  using filter_answer [OF assms(1,2) _ assms(3), of m "drop p b" "[]" rest' off] assms(4)
  by (simp add: at_pointer_def part add.commute del: de_bytes.simps selected.simps)

text \<open>The end of a response: the continuation state and the header.\<close>

lemma unat_next:
  assumes "unat (pos :: u16) = p" and "p + 1 < 65536"
  shows "unat (pos + 1) = p + 1"
  by (subst unat_plus_no_wrap) (use assms in simp_all)

lemma end_of_answer:
  assumes "length b0 = 7" and "unat pos = 7 + length part" and "8 + length part \<le> 7 + length part + length js"
  shows "do { buf \<leftarrow> wr (b0 @ part @ js) (unat pos) 0; Some (buf, pos + 1) }
    = Some (b0 @ part @ [0] @ drop 1 js, pos + 1)"
proof -
  obtain j js' where js: "js = j # js'" using assms(3) by (cases js) auto
  show ?thesis using wr_at [of "b0 @ part" j js' 0] by (simp add: js assms(1,2))
qed

lemma continuation_of_answer:
  assumes "length b0 = 7" and "unat pos = 7 + length part" and "3 \<le> length js" and "10 + length part < 65536"
  shows "do { buf \<leftarrow> wr (b0 @ part @ js) (unat pos) 2; buf \<leftarrow> big_endian_store_16 buf (pos + 1) k; Some (buf, pos + 1 + 2) }
    = Some (b0 @ part @ (2 # be_16 k) @ drop 3 js, pos + 3)"
proof -
  obtain i j l js' where js: "js = i # j # l # js'"
    using assms(3) by (auto simp: Suc_le_length_iff numeral_3_eq_3)
  have "unat (pos + 1) = length (b0 @ part @ [2])" using unat_next [OF assms(2)] assms(1,4) by simp
  then have "big_endian_store_16 ((b0 @ part @ [2]) @ j # l # js') (pos + 1) k = Some ((b0 @ part @ [2]) @ be_16 k @ js')"
    using assms(1,4) by (intro store_16_at) simp_all
  then show ?thesis using wr_at [of "b0 @ part" i "j # l # js'" 2] by (simp add: js assms(1,2))
qed

section \<open>Requests for the attributes of a record\<close>

definition attribute_continuation :: "nat \<Rightarrow> buffer" where
  "attribute_continuation off = (if off = 0 then [0] else 2 # be_16 (of_nat off))"

text \<open>What is left of the answer, a sequence, behind \<open>off\<close> bytes of the attributes.\<close>

definition attributes_left :: "buffer \<Rightarrow> nat \<Rightarrow> buffer" where
  "attributes_left A off = (if off = 0 then de_header 6 6 (length A) @ A else drop off A)"

lemma attributes_left_split:
  assumes "M < length (attributes_left A off)" and "off = 0 \<longrightarrow> 3 < M" and "0 < M"
    and off': "off' = off + (M - (if off = 0 then 3 else 0))"
  shows "attributes_left A off = take M (attributes_left A off) @ attributes_left A off'" and "off' < length A" and "off' \<noteq> 0"
proof -
  have l: "length (attributes_left A off) = (if off = 0 then 3 + length A else length A - off)"
    by (simp add: attributes_left_def header_length_def)
  show "off' < length A" "off' \<noteq> 0" using assms l by (auto split: if_splits)
  then have "drop M (attributes_left A off) = attributes_left A off'"
    using assms(2) by (auto simp: attributes_left_def off' header_length_def add.commute)
  then show "attributes_left A off = take M (attributes_left A off) @ attributes_left A off'" by (metis append_take_drop_id)
qed

lemma piece_next:
  assumes ok: "de_ok (Seq t (record_items as))" "de_ok (Seq t' ids)"
    and A: "A = selected ids as" "length A < 65536"
    and "p + unat m \<le> length b" and off: "0 < off" "off < 65536" and part: "part = take (unat m) (attributes_left A off)"
  shows "at_pointer p (sdp_filter_attributes_in_attributeIDList (de_bytes (Seq t (record_items as)))
      (de_bytes (Seq t' ids) @ rest) (of_nat off) m) b
    = Some (if length (attributes_left A off) \<le> unat m then 1 else 0, of_nat (length part), take p b @ part @ drop (p + length part) b)"
proof -
  have "unat (of_nat off :: u16) = off" using off by (simp add: unat_of_nat_u16)
  then show ?thesis
    using filter_into [OF ok A(2) [unfolded A(1)] assms(5), of part "of_nat off" rest] off(1)
    by (simp add: A(1) part attributes_left_def del: de_bytes.simps selected.simps)
qed

lemma piece_first:
  assumes ok: "de_ok (Seq t (record_items as))" "de_ok (Seq t' ids)"
    and A: "A = selected ids as" "length A < 65536"
    and m: "3 \<le> unat m" "p + unat m \<le> length b" and part: "part = take (unat m) (attributes_left A 0)"
  obtains b' where "at_offset p (de_store_descriptor_with_len DE_DES DE_SIZE_VAR_16 (to32 (of_nat (length A) :: u16))) b = Some b'"
    and "at_pointer (p + 3) (sdp_filter_attributes_in_attributeIDList (de_bytes (Seq t (record_items as)))
        (de_bytes (Seq t' ids) @ rest) 0 (m - 3)) b'
      = Some (if length (attributes_left A 0) \<le> unat m then 1 else 0, of_nat (length part - 3),
          take p b @ part @ drop (p + length part) b)" and "3 \<le> length part"
proof -
  let ?H = "de_header 6 6 (length A)"
  define q where "q = take (unat m - 3) A"
  have hl: "length ?H = 3" by (simp add: header_length_def)
  have um: "unat (m - 3) = unat m - 3" using m(1) by (simp add: unat_sub word_le_nat_alt)
  have pq: "part = ?H @ q" using m(1) hl by (simp add: part attributes_left_def q_def)
  have lp: "length part = 3 + length q" using hl by (simp add: pq)
  have bp: "min (length b) p = p" using m(2) by simp
  define b' where "b' = take p b @ ?H @ drop (p + 3) b"
  have tb: "take (p + 3) b' = take p b @ ?H" and db: "drop (p + 3 + k) b' = drop (p + 3 + k) b" for k
    using hl bp unfolding b'_def by (simp_all add: min.commute add.commute add.left_commute)
  have lb: "length b' = length b" using hl m unfolding b'_def by simp
  have s1: "at_offset p (de_store_descriptor_with_len DE_DES DE_SIZE_VAR_16 (to32 (of_nat (length A) :: u16))) b = Some b'"
    using header_into [OF _ A(2), of p b] m by (simp add: b'_def)
  have "(length A - 0 \<le> unat (m - 3)) = (length (attributes_left A 0) \<le> unat m)"
    using m(1) hl by (auto simp: um attributes_left_def)
  moreover have "take (p + 3) b' @ q @ drop (p + 3 + length q) b' = take p b @ part @ drop (p + length part) b"
    unfolding tb db lp pq using hl by (simp add: header_length_def add.assoc)
  ultimately have s2: "at_pointer (p + 3) (sdp_filter_attributes_in_attributeIDList (de_bytes (Seq t (record_items as)))
        (de_bytes (Seq t' ids) @ rest) 0 (m - 3)) b'
      = Some (if length (attributes_left A 0) \<le> unat m then 1 else 0, of_nat (length part - 3),
          take p b @ part @ drop (p + length part) b)"
    using filter_into [OF ok A(2) [unfolded A(1)], of "p + 3" "m - 3" b' q 0 rest] m lb um lp
    by (simp add: A(1) q_def del: de_bytes.simps selected.simps)
  show ?thesis by (rule that [OF s1 s2]) (simp add: lp)
qed

text \<open>The front of a response: the header of the sequence, if it is the first, and a piece of the attributes.\<close>

lemma attributes_front:
  assumes ok: "de_ok (Seq t (record_items as))" "de_ok (Seq t' ids)"
    and A: "A = selected ids as" "length A < 65536"
    and m: "4 \<le> unat m" "unat m + 10 \<le> length b"
    and off: "off < 65536" and part: "part = take (unat m) (attributes_left A off)"
  shows "do { (buf, pos, m) \<leftarrow>
         (if (of_nat off :: u16) = 0 then do {
            n \<leftarrow> map_option word_of_int (spd_get_filtered_size (de_bytes (Seq t (record_items as))) (de_bytes (Seq t' ids) @ rest));
            buf \<leftarrow> at_offset 7 (de_store_descriptor_with_len DE_DES DE_SIZE_VAR_16 (to32 (n :: u16))) b;
            Some (buf, 7 + 3, m - 3) }
          else Some (b, 7, m));
       (complete, bytes_used, buf) \<leftarrow> at_pointer (unat (pos :: u16))
         (sdp_filter_attributes_in_attributeIDList (de_bytes (Seq t (record_items as))) (de_bytes (Seq t' ids) @ rest)
           (of_nat off) m) buf;
       f complete bytes_used buf (pos + bytes_used) }
     = f (if length (attributes_left A off) \<le> unat m then 1 else 0) (of_nat (length part - (if off = 0 then 3 else 0)))
         (take 7 b @ part @ drop (7 + length part) b) (of_nat (7 + length part))"
proof (cases "off = 0")
  case False
  have "(of_nat off :: u16) \<noteq> 0" using False off by (simp add: unat_of_nat_u16 flip: unat_eq_zero)
  then show ?thesis
    using False piece_next [OF ok A _ _ off part, of 7 b rest] m(2) by (simp del: de_bytes.simps)
next
  case True
  have p0: "part = take (unat m) (attributes_left A 0)" using part True by simp
  obtain b' where b': "at_offset 7 (de_store_descriptor_with_len DE_DES DE_SIZE_VAR_16 (to32 (of_nat (length A) :: u16))) b = Some b'"
    "at_pointer (7 + 3) (sdp_filter_attributes_in_attributeIDList (de_bytes (Seq t (record_items as)))
        (de_bytes (Seq t' ids) @ rest) 0 (m - 3)) b'
      = Some (if length (attributes_left A 0) \<le> unat m then 1 else 0, of_nat (length part - 3),
          take 7 b @ part @ drop (7 + length part) b)" "3 \<le> length part"
    using piece_first [OF ok A _ _ p0, of 7 b rest] m by auto
  have "10 + of_nat (length part - 3) = (of_nat (7 + length part) :: u16)" using b'(3) by simp
  then show ?thesis
    using filtered_answer_size [OF ok A(2) [unfolded A(1)], of "[]" rest] b' True
    by (simp add: A(1) del: de_bytes.simps selected.simps)
qed

lemma attribute_response:
  assumes item: "sdp_get_record_item_for_handle s h = Some x" "x \<noteq> NULL" "sdp_items s x = Some (item_of (h, t, as))"
    and ok: "de_ok (Seq t (record_items as))" "de_ok (Seq t' ids)"
    and A: "A = selected ids as" "length A < 65536"
    and m: "4 \<le> unat m" "unat m + 10 \<le> length (sdp_response_buffer s)" "length (sdp_response_buffer s) < 65536"
    and off: "off < 65536" and part: "part = take (unat m) (attributes_left A off)"
    and c: "c = (if length (attributes_left A off) \<le> unat m then [0]
      else 2 # be_16 (of_nat (off + (length part - (if off = 0 then 3 else 0)))))"
    and r: "r = attributes_response 5 tid part c"
  shows "service_attribute_response s tid h m (de_bytes (Seq t' ids) @ rest) (of_nat off)
    = Some (of_nat (length r), s\<lparr> sdp_response_buffer := r @ drop (length r) (sdp_response_buffer s) \<rparr>)"
proof -
  define b where "b = sdp_response_buffer s"
  define u where "u = length part - (if off = 0 then 3 else 0)"
  have lp: "length part \<le> unat m" by (simp add: part)
  have l7: "length (take 7 b) = 7" and js: "3 \<le> length (drop (7 + length part) b)" and l16: "10 + length part < 65536"
    using m lp by (simp_all add: b_def)
  have pos: "unat (of_nat (7 + length part) :: u16) = 7 + length part"
    by (rule unat_of_nat_u16) (use l16 in simp)
  have mb: "unat m + 10 \<le> length b" using m(2) by (simp add: b_def)
  have lr: "length r = 7 + length part + length c" by (simp add: r attributes_response_def sdp_pdu_def)
  have ends: "(if complete \<noteq> 0 then do { buf \<leftarrow> wr (take 7 b @ part @ drop (7 + length part) b) (unat (of_nat (7 + length part) :: u16)) 0;
              Some (buf, (of_nat (7 + length part) :: u16) + 1) }
            else do { buf \<leftarrow> wr (take 7 b @ part @ drop (7 + length part) b) (unat (of_nat (7 + length part) :: u16)) 2;
              buf \<leftarrow> big_endian_store_16 buf (of_nat (7 + length part) + 1) (of_nat off + of_nat u);
              Some (buf, of_nat (7 + length part) + 1 + 2) })
          = Some (take 7 b @ part @ c @ drop (length r) b, of_nat (length r))"
    if "complete = (if length (attributes_left A off) \<le> unat m then 1 else (0 :: int))" for complete
  proof (cases "length (attributes_left A off) \<le> unat m")
    case True
    then show ?thesis using end_of_answer [OF l7 pos, of "drop (7 + length part) b"] js that
      by (simp add: c lr add.commute)
  next
    case False
    have "(of_nat (7 + length part) + 3 :: u16) = of_nat (length r)" using False by (simp add: c lr)
    then show ?thesis using continuation_of_answer [OF l7 pos js l16, of "of_nat off + of_nat u"] that False
      by (simp add: c lr u_def add.commute add.left_commute)
  qed
  have n5: "(of_nat (length r) - 5 :: u16) = of_nat (length (be_16 (of_nat (length part)) @ part @ c))"
    by (simp add: lr)
  have n7: "(of_nat (7 + length part) - 7 :: u16) = of_nat (length part)" by simp
  let ?f = "\<lambda>(complete :: int) bytes_used buf pos. do {
      (buf, pos') \<leftarrow>
         (if complete \<noteq> 0 then do { buf \<leftarrow> wr buf (unat pos) 0; Some (buf, pos + 1) }
          else do { buf \<leftarrow> wr buf (unat pos) 2; buf \<leftarrow> big_endian_store_16 buf (pos + 1) (of_nat off + bytes_used);
            Some (buf, pos + 1 + 2) });
      buf \<leftarrow> wr buf 0 5; buf \<leftarrow> big_endian_store_16 buf 1 tid; buf \<leftarrow> big_endian_store_16 buf 3 (pos' - 5);
      buf \<leftarrow> big_endian_store_16 buf 5 (pos - 7); Some (pos', s\<lparr> sdp_response_buffer := buf \<rparr>) }"
  have "service_attribute_response s tid h m (de_bytes (Seq t' ids) @ rest) (of_nat off)
      = ?f (if length (attributes_left A off) \<le> unat m then 1 else 0) (of_nat u)
          (take 7 b @ part @ drop (7 + length part) b) (of_nat (7 + length part))"
    using item(2,3) attributes_front [OF ok A m(1) mb off part, where f = ?f and rest = rest]
    unfolding service_attribute_response_def item(1) Option.bind.bind_lunit b_def [symmetric] u_def
    by (simp only: if_False option.map item_of.simps service_record_item.simps Option.bind.bind_lunit Let_def)
  also have "\<dots> = do {
      (buf, pos) \<leftarrow> Some (take 7 b @ part @ c @ drop (length r) b, of_nat (length r));
      buf \<leftarrow> wr buf 0 5; buf \<leftarrow> big_endian_store_16 buf 1 tid; buf \<leftarrow> big_endian_store_16 buf 3 (pos - 5);
      buf \<leftarrow> big_endian_store_16 buf 5 (of_nat (7 + length part) - 7); Some (pos, s\<lparr> sdp_response_buffer := buf \<rparr>) }"
    by (simp only: ends [OF refl])
  also have "\<dots> = Some (of_nat (length r), s\<lparr> sdp_response_buffer := r @ drop (length r) b \<rparr>)"
  proof -
    have "[5] @ be_16 tid @ be_16 (of_nat (length r) - 5) @ be_16 (of_nat (7 + length part) - 7) @ part @ c @ drop (length r) b
        = r @ drop (length r) b" unfolding n5 n7 by (simp add: r attributes_response_def sdp_pdu_def)
    then show ?thesis
      using header_stores [OF l7, of "part @ c @ drop (length r) b" 5 tid "of_nat (length r) - 5" "of_nat (7 + length part) - 7"
        "\<lambda>buf. (of_nat (length r), s\<lparr> sdp_response_buffer := buf \<rparr>)"]
      by (simp only: Option.bind.bind_lunit prod.case)
  qed
  finally show ?thesis by (simp only: b_def)
qed


text \<open>Parsing requests.\<close>

lemma get_len_safe:
  assumes "de_ok e" and "length (de_bytes e) \<le> unat sz"
  shows "de_get_len_safe (de_bytes e @ rest) sz = Some (of_nat (length (de_bytes e)))"
proof -
  obtain d where d: "de_bytes e = de_header (de_type_of e) (de_size_of e) (length d) @ d" "de_type_of e < 32"
    "size_fits (de_type_of e) (de_size_of e) (length d)" by (rule de_shape [OF assms(1)])
  let ?hl = "header_length (de_size_of e)"
  note r = read_header [OF d(2,3), of "d @ rest"]
  have l: "length (de_bytes e) = ?hl + length d" using arg_cong [OF d(1), of length] by simp
  have "1 \<le> ?hl" by (simp add: header_length_def)
  then have "?hl + length d < 4294967296" and le: "1 \<le> unat sz" "?hl \<le> unat sz" "length d \<le> unat sz" "?hl + length d \<le> unat sz"
    using assms(2) size_fits_bound [OF d(3)] unfolding l by simp_all
  then have u: "unat (of_nat ?hl :: u32) = ?hl" "unat (of_nat (length d) :: u32) = length d"
    "unat (of_nat ?hl + of_nat (length d) :: u32) = ?hl + length d"
    by (simp_all add: unat_of_nat_u32 flip: of_nat_add)
  show ?thesis
    unfolding d(1) de_get_len_safe_def using r u le
    by (simp add: word_less_nat_alt l [unfolded d(1)] not_less)
qed

lemma get_len_safe_u16:
  assumes "de_ok e" and "length (de_bytes e) \<le> unat n"
  shows "map_option to16 (de_get_len_safe (de_bytes e @ rest) (to32 (n :: u16))) = Some (of_nat (length (de_bytes e)))"
  using get_len_safe [OF assms(1), of "to32 n" rest] assms(2) by (simp add: to16_of_nat)

lemma unat_sub_of_nat:
  assumes "k + n < 65536" shows "(of_nat (k + n) - of_nat k :: u16) = of_nat n"
  by simp

lemma attribute_continuation_read:
  assumes "off < 65536"
  shows "\<exists>n. rd (attribute_continuation off) 0 = Some n \<and> length (attribute_continuation off) = 1 + unat n
    \<and> (if n = 2 then read_u16 (attribute_continuation off) 1 else Some 0) = Some (of_nat off)"
  using read_u16_at [of "[2]" 1 "of_nat off" "[]"] by (simp add: attribute_continuation_def rd_def)

definition attribute_params :: "u32 \<Rightarrow> u16 \<Rightarrow> de \<Rightarrow> buffer \<Rightarrow> buffer" where
  "attribute_params h maxBytes ids continuation = be_32 h @ be_16 maxBytes @ de_bytes ids @ continuation"

lemma handle_attribute_request:
  assumes ok: "de_ok ids" and off: "off < 65536" and "length (de_bytes ids) + 16 < 65536"
  shows "sdp_handle_service_attribute_request s (sdp_pdu 4 tid (attribute_params h maxBytes ids (attribute_continuation off))) mtu
    = service_attribute_response s tid h (min maxBytes (mtu - 10)) (de_bytes ids @ attribute_continuation off) (of_nat off)"
proof -
  define c where "c = attribute_continuation off"
  define P where "P = attribute_params h maxBytes ids c"
  define n where "n = length (de_bytes ids)"
  obtain cl where c: "rd c 0 = Some cl" "length c = 1 + unat cl" "(if cl = 2 then read_u16 c 1 else Some 0) = Some (of_nat off)"
    using attribute_continuation_read [OF off] unfolding c_def by blast
  have lc: "1 \<le> length c" "length c \<le> 3" by (simp_all add: c_def attribute_continuation_def)
  have lP: "length P = 6 + (n + length c)" by (simp add: P_def attribute_params_def n_def)
  have l: "6 + (n + length c) < 65536" using assms(3) lc(2) by (simp add: n_def)
  define hd where "hd = [4] @ be_16 tid @ be_16 (of_nat (length P))"
  have hd: "length hd = 5" by (simp add: hd_def)
  have p: "sdp_pdu 4 tid P = hd @ be_32 h @ be_16 maxBytes @ de_bytes ids @ c"
    by (simp add: sdp_pdu_def P_def attribute_params_def hd_def)
  have r32: "big_endian_read_32 (sdp_pdu 4 tid P) 5 = Some h"
    unfolding p big_endian_read_32_def rd_def be_32_def by (simp add: nth_append hd join_32)
  have rmax: "read_u16 (sdp_pdu 4 tid P) 9 = Some maxBytes"
    using read_u16_at [of "hd @ be_32 h" 9 maxBytes] by (simp add: p hd)
  have d11: "ptr_add (sdp_pdu 4 tid P) 11 = Some (de_bytes ids @ c)" by (simp add: p hd ptr_add_def)
  have un: "unat (of_nat n :: u16) = n" "uint (of_nat n :: u16) = int n"
    using l by (simp_all add: unat_of_nat_u16 uint_nat)
  have dc: "ptr_add (sdp_pdu 4 tid P) (11 + uint (of_nat n :: u16)) = Some c"
    unfolding un(2) by (simp add: p hd ptr_add_def n_def nat_add_distrib)
  have pl: "(of_nat (length P) :: u16) - 6 = of_nat (n + length c)" "(of_nat (n + length c) :: u16) - of_nat n = of_nat (length c)"
    by (simp_all add: lP)
  have u: "unat (of_nat (length P) :: u16) = length P" "unat (of_nat (n + length c) :: u16) = n + length c"
    "unat (of_nat (length c) :: u16) = length c" unfolding lP by (rule unat_of_nat_u16, use l in simp)+
  have n0: "0 < n" using de_bytes_pos [OF ok] by (simp add: n_def)
  then have g: "map_option to16 (de_get_len_safe (de_bytes ids @ c) (to32 (of_nat (n + length c) :: u16))) = Some (of_nat n)"
    "(of_nat n :: u16) \<noteq> 0"
    using get_len_safe_u16 [OF ok, of "of_nat (n + length c)" c] un(1) u(2) by (auto simp: n_def [symmetric] simp flip: unat_eq_zero)
  have lts: "\<not> (of_nat (length P) :: u16) < 6" "\<not> (of_nat (length c) :: u16) < 1" "\<not> 1 + unat cl > unat (of_nat (length c) :: u16)"
    using u(1,3) lP lc(1) c(2) by (simp_all add: word_less_nat_alt)
  have mn: "(if mtu - (7 + 3) < maxBytes then mtu - (7 + 3) else maxBytes) = min maxBytes (mtu - 10)"
    by (auto simp: min_def)
  show ?thesis
    unfolding c_def [symmetric] P_def [symmetric] sdp_handle_service_attribute_request_def sdp_pdu_head(2,3)
      Option.bind.bind_lunit Let_def r32 rmax d11
    by (simp only: lts if_False Option.bind.bind_lunit r32 rmax d11 pl g dc c(1,3) mn)
qed


text \<open>Looking up records.\<close>

lemma find_item: "List.find (\<lambda>i. service_record_handle i = h) (map item_of svs)
    = map_option (\<lambda>(t, as). item_of (h, t, as)) (map_of svs h)"
  by (induction svs) auto

lemma item_for_handle:
  assumes "registered s (map item_of svs)"
  shows "case map_of svs h of
      None \<Rightarrow> sdp_get_record_item_for_handle s h = Some NULL
    | Some (t, as) \<Rightarrow> \<exists>x. sdp_get_record_item_for_handle s h = Some x \<and> x \<noteq> NULL \<and> sdp_items s x = Some (item_of (h, t, as))"
proof -
  obtain xs where xs: "chain (sdp_nodes s) (sdp_service_records s) xs" "map (sdp_items s) xs = map Some (map item_of svs)"
    using assms by (auto simp: registered_def)
  obtain it where it: "sdp_nodes s (sdp_service_records s) = Some it" using chain_first [OF xs(1)] by blast
  show ?thesis
    using record_item_from_walk [OF xs(1) it xs(2), of h]
    by (auto simp: find_item sdp_get_record_item_for_handle_def it split: option.splits)
qed

lemma serves_service_ok: "serves mtu_of svs s \<Longrightarrow> map_of svs h = Some (t, as) \<Longrightarrow> de_ok (Seq t (record_items as))"
  unfolding serves_def list_all_iff by (metis map_of_SomeD service_ok.simps)

text \<open>The exchange of a client that reads the attributes of a record.\<close>

definition attributes_remaining :: "service list \<Rightarrow> u32 \<Rightarrow> de list \<Rightarrow> buffer \<Rightarrow> buffer \<Rightarrow> bool" where
  "attributes_remaining svs h ids c rest \<longleftrightarrow> (\<exists>t as off. map_of svs h = Some (t, as) \<and> length (selected ids as) < 65536
     \<and> off < 65536 \<and> c = attribute_continuation off \<and> rest = attributes_left (selected ids as) off)"

definition sequence_ok :: "u8 \<Rightarrow> de list \<Rightarrow> bool" where
  "sequence_ok t es \<longleftrightarrow> de_ok (Seq t es) \<and> length (de_bytes (Seq t es)) < 32000"

lemma attribute_fragment:
  assumes s: "serves mtu_of svs s" and ids: "sequence_ok t' ids" and mx: "7 \<le> maxBytes"
    and rem: "attributes_remaining svs h ids c rest"
  shows "\<exists>r s' part c'. sdp_transact mtu_of s (sdp_pdu 4 tid (attribute_params h maxBytes (Seq t' ids) c)) = Some (r, s')
    \<and> serves mtu_of svs s' \<and> split_attributes r = Some (part, c')
    \<and> (if c' = [0] then rest = part else part \<noteq> [] \<and> (\<exists>rest'. rest = part @ rest' \<and> attributes_remaining svs h ids c' rest'))"
proof -
  obtain t as off where r: "map_of svs h = Some (t, as)" "length (selected ids as) < 65536" "off < 65536"
    "c = attribute_continuation off" "rest = attributes_left (selected ids as) off"
    using rem by (auto simp: attributes_remaining_def)
  define A where "A = selected ids as"
  define b where "b = sdp_response_buffer s"
  define m where "m = min maxBytes (remote_mtu mtu_of s - 10)"
  note mtu = remote_mtu_bounds [OF s]
  have "unat (remote_mtu mtu_of s - 10) = unat (remote_mtu mtu_of s) - 10"
    using mtu(1) by (simp add: unat_sub word_le_nat_alt)
  then have m: "7 \<le> unat m" "unat m + 10 \<le> unat (remote_mtu mtu_of s)"
    using mx mtu(1) by (auto simp: m_def min_def word_le_nat_alt)
  have mb: "unat m + 10 \<le> length (sdp_response_buffer s)" "length (sdp_response_buffer s) < 65536"
    using m(2) mtu(3) s by (simp_all add: serves_def)
  define part where "part = take (unat m) rest"
  define off' where "off' = off + (length part - (if off = 0 then 3 else 0))"
  define c' where "c' = (if length rest \<le> unat m then [0] else 2 # be_16 (of_nat off'))"
  define rsp where "rsp = attributes_response 5 tid part c'"
  have ids': "de_ok (Seq t' ids)" "length (de_bytes (Seq t' ids)) + 16 < 65536" using ids by (auto simp: sequence_ok_def)
  obtain x where x: "sdp_get_record_item_for_handle s h = Some x" "x \<noteq> NULL" "sdp_items s x = Some (item_of (h, t, as))"
    using item_for_handle [of s svs h] s r(1) by (auto simp: serves_def)
  have h: "handle_pdu 4 s (sdp_pdu 4 tid (attribute_params h maxBytes (Seq t' ids) c)) (remote_mtu mtu_of s)
      = Some (of_nat (length rsp), s\<lparr> sdp_response_buffer := rsp @ drop (length rsp) b \<rparr>)"
    using attribute_response [OF x serves_service_ok [OF s r(1)] ids'(1) A_def r(2) [folded A_def] _ mb r(3),
        of part c' rsp tid "attribute_continuation off"] m(1)
    by (simp add: handle_pdu_def handle_attribute_request [OF ids'(1) r(3) ids'(2)] r(4) m_def [symmetric] b_def part_def c'_def
        off'_def rsp_def r(5) A_def)
  have lp: "length part \<le> unat m" and lr: "length rsp = 7 + length part + length c'" and lc: "length c' \<le> 3"
    by (simp_all add: part_def rsp_def attributes_response_def sdp_pdu_def c'_def)
  have "length (attribute_params h maxBytes (Seq t' ids) c) + 5 < 65536"
    using ids'(2) by (simp add: attribute_params_def r(4) attribute_continuation_def del: de_bytes.simps)
  moreover have "rsp \<noteq> []" "length rsp \<le> unat (remote_mtu mtu_of s)" "length (rsp @ drop (length rsp) b) = length (sdp_response_buffer s)"
    using lp lc m(2) mtu(3) unfolding lr b_def by (auto simp: rsp_def attributes_response_def sdp_pdu_def)
  ultimately obtain s' where s': "sdp_transact mtu_of s (sdp_pdu 4 tid (attribute_params h maxBytes (Seq t' ids) c)) = Some (rsp, s')"
    "serves mtu_of svs s'" using transact_response [OF s _ _ h] by blast
  have sp: "split_attributes rsp = Some (part, c')"
    unfolding rsp_def by (rule split_attributes_response) (use lp unat_u16_less [of m] in linarith)
  have "if c' = [0] then rest = part else part \<noteq> [] \<and> (\<exists>rest'. rest = part @ rest' \<and> attributes_remaining svs h ids c' rest')"
  proof (cases "length rest \<le> unat m")
    case True
    then show ?thesis by (simp add: c'_def part_def)
  next
    case False
    then have lpm: "length part = unat m" by (simp add: part_def)
    have cn: "c' \<noteq> [0]" using False by (simp add: c'_def be_16_def)
    have "unat m < length (attributes_left A off)" using False by (simp add: r(5) A_def)
    note o = attributes_left_split [OF this _ _ off'_def [unfolded lpm]]
    have o: "rest = part @ attributes_left A off'" "off' < length A" "off' \<noteq> 0"
      using o m(1) by (simp_all add: part_def r(5) A_def)
    note o(1)
    moreover have "attributes_remaining svs h ids c' (attributes_left A off')"
      unfolding attributes_remaining_def using o r(1,2) False
      by (intro exI [of _ t] exI [of _ as] exI [of _ off']) (simp add: c'_def attribute_continuation_def A_def)
    moreover have "part \<noteq> []" using lpm m(1) by auto
    ultimately show ?thesis using cn by auto
  qed
  with s' sp show ?thesis by blast
qed

interpretation ar: fragmented_answer "sdp_transact mtu_of"
  "\<lambda>c. sdp_pdu 4 tid (attribute_params h maxBytes (Seq t' ids) c)" split_attributes
  "\<lambda>s. serves mtu_of svs s \<and> sequence_ok t' ids \<and> 7 \<le> maxBytes" "attributes_remaining svs h ids"
  for mtu_of svs tid h t' ids and maxBytes :: u16
  by unfold_locales (use attribute_fragment in blast)

end
