(* ===== verification/Sdp_Exchange.thy ===== *)
theory Sdp_Exchange
  imports Sdp_Responses
begin

text \<open>
  Whole exchanges with the SDP server: a client that follows the continuation states reads the attributes of a record,
  the attributes of all records that match a pattern, and the handles of the records that match.
\<close>

section \<open>The attribute lists of the records that match\<close>

text \<open>The state of the loop over the records: \<open>out\<close> of the answer is stored, \<open>M\<close> bytes may still be.\<close>

definition lists_at :: "buffer \<Rightarrow> buffer \<Rightarrow> buffer \<Rightarrow> nat \<Rightarrow> bool \<Rightarrow> bool \<Rightarrow> nat \<Rightarrow> nat \<Rightarrow> attribute_lists" where
  "lists_at b0 out js M first continued j off =
     \<lparr> al_buffer = b0 @ out @ js, al_pos = of_nat (7 + length out), al_maximumAttributeByteCount = of_nat M,
       al_first_answer = first, al_continuation = continued, al_current_service_index = of_nat j,
       al_continuation_offset = of_nat off \<rparr>"

lemma of_nat_0_iff: "n < 65536 \<Longrightarrow> (of_nat n :: u16) = 0 \<longleftrightarrow> n = 0"
  by (simp add: unat_of_nat_u16 flip: unat_eq_zero)

lemma lists_body_found:
  assumes ok: "de_ok (Seq t (record_items as))" "de_ok (Seq t' ids)"
    and A: "A = selected ids as" "length A < 65536"
    and found: "sdp_record_matches_service_search_pattern (de_bytes (Seq t (record_items as))) pat = Some 1"
    and b: "length b0 = 7" "M + 5 \<le> length js" "length (b0 @ out @ js) < 65536"
    and ix: "i \<le> j" "j < 65536" "off < 65536" and first: "first \<longrightarrow> 3 \<le> M"
    and part: "part = take M (attributes_left A off)"
  shows "attribute_lists_body pat (de_bytes (Seq t' ids) @ rest) (of_nat i) (item_of (h, t, as))
      (lists_at b0 out js M first False j off)
    = Some (if off = 0 \<and> length A + 3 > M \<and> \<not> first then (False, lists_at b0 out js M first True j off)
        else if length (attributes_left A off) \<le> M
        then (True, lists_at b0 (out @ part) (drop (length part) js) (M - length part) False False j 0)
        else (False, lists_at b0 (out @ part) (drop (length part) js) (M - length part) False True j
               (off + (length part - (if off = 0 then 3 else 0)))))"
proof -
  let ?b = "b0 @ out @ js" and ?p = "7 + length out"
  have M: "M < 65536" and p: "?p < 65536" using b by simp_all
  have uM: "unat (of_nat M :: u16) = M" and up: "unat (of_nat ?p :: u16) = ?p" and uA: "unat (of_nat (length A) :: u16) = length A"
    by (rule unat_of_nat_u16, use M p A(2) in simp)+
  have room: "?p + unat (of_nat M :: u16) \<le> length ?b" using b by (simp add: uM)
  have ij: "\<not> (of_nat j :: u16) < of_nat i" using ix by (simp add: word_less_nat_alt unat_of_nat_u16)
  have lp: "length part \<le> M" by (simp add: part)
  have tk: "take ?p ?b @ part @ drop (?p + length part) ?b = b0 @ (out @ part) @ drop (length part) js"
    using b(1) by simp
  have mm: "(of_nat M - of_nat (length part) :: u16) = of_nat (M - length part)" using lp by (simp add: of_nat_diff)
  have part': "part = take (unat (of_nat M :: u16)) (attributes_left A off)" by (simp add: part uM)
  note size = filtered_answer_size [OF ok A(2) [unfolded A(1)], of "[]" rest]
  show ?thesis
  proof (cases "off = 0")
    case False
    then have o: "(of_nat off :: u16) \<noteq> 0" "0 < off" using of_nat_0_iff [OF ix(3)] by auto
    note nx = piece_next [OF ok A room o(2) ix(3) part', of rest]
    show ?thesis
      using False ij found nx uM up mm tk
      by (simp add: attribute_lists_body_def lists_at_def o(1) add.assoc del: de_bytes.simps)
  next
    case True
    show ?thesis
    proof (cases "length A + 3 > M \<and> \<not> first")
      case c: True
      then show ?thesis using True ij found size uA uM
        by (simp add: attribute_lists_body_def lists_at_def A(1) del: de_bytes.simps selected.simps)
    next
      case c: False
      then have M3: "3 \<le> M" using first by auto
      have p0: "part = take (unat (of_nat M :: u16)) (attributes_left A 0)" using part' True by simp
      obtain b' where b': "at_offset ?p (de_store_descriptor_with_len DE_DES DE_SIZE_VAR_16 (to32 (of_nat (length A) :: u16))) ?b = Some b'"
        "at_pointer (?p + 3) (sdp_filter_attributes_in_attributeIDList (de_bytes (Seq t (record_items as)))
          (de_bytes (Seq t' ids) @ rest) 0 (of_nat M - 3)) b'
        = Some (if length (attributes_left A 0) \<le> unat (of_nat M :: u16) then 1 else 0, of_nat (length part - 3),
          take ?p ?b @ part @ drop (?p + length part) ?b)" "3 \<le> length part"
        using piece_first [OF ok A _ room p0, of rest] M3 uM by auto
      have up3: "unat (of_nat ?p + 3 :: u16) = ?p + 3"
        by (subst unat_plus_no_wrap) (use up b M3 in simp_all)
      have w: "(of_nat ?p + 3 + of_nat (length part - 3) :: u16) = of_nat (7 + length (out @ part))"
        "(of_nat M - 3 - of_nat (length part - 3) :: u16) = of_nat (M - length part)"
        using b'(3) lp by (simp_all add: of_nat_diff)
      show ?thesis
        using True c ij found size uA uM up up3 w tk b'
        by (cases first) (simp_all add: attribute_lists_body_def lists_at_def A(1) del: de_bytes.simps selected.simps)
    qed
  qed
qed


fun matches_service :: "de list \<Rightarrow> service \<Rightarrow> bool" where
  "matches_service ps (h, t, as) \<longleftrightarrow> (\<forall>p \<in> set ps. \<exists>u. uuid_of p = Some u \<and> u \<in> uuids (Seq t (record_items as)))"

fun service_bytes :: "de list \<Rightarrow> service \<Rightarrow> buffer" where
  "service_bytes ids (h, t, as) = selected ids as"

text \<open>What is left of the attribute lists, behind \<open>off\<close> bytes of the attributes of the first record that matches.\<close>

fun lists_left :: "de list \<Rightarrow> de list \<Rightarrow> service list \<Rightarrow> nat \<Rightarrow> buffer" where
  "lists_left ids ps [] off = []"
| "lists_left ids ps (sv # svs) off =
     (if matches_service ps sv then attributes_left (service_bytes ids sv) off @ lists_left ids ps svs 0
      else lists_left ids ps svs off)"

fun inside_list :: "de list \<Rightarrow> de list \<Rightarrow> service list \<Rightarrow> nat \<Rightarrow> bool" where
  "inside_list ids ps [] off \<longleftrightarrow> off = 0"
| "inside_list ids ps (sv # svs) off \<longleftrightarrow>
     off = 0 \<or> (if matches_service ps sv then off < length (service_bytes ids sv) else inside_list ids ps svs off)"

lemma inside_list_0 [simp]: "inside_list ids ps svs 0"
  by (cases svs) simp_all

lemma match_record:
  assumes "service_ok sv" and "de_ok (Seq tp ps)"
  shows "sdp_record_matches_service_search_pattern (service_record (item_of sv)) (de_bytes (Seq tp ps) @ rest)
    = Some (if matches_service ps sv then 1 else 0)"
proof -
  obtain h t as where sv: "sv = (h, t, as)" by (cases sv)
  show ?thesis
    using pattern_match [OF _ assms(2), of t "record_items as" "[]" rest] assms(1) sv
    by (simp del: de_bytes.simps uuids.simps de_ok.simps)
qed

abbreviation next_list :: "attribute_lists \<Rightarrow> attribute_lists" where
  "next_list \<equiv> (\<lambda>c. c\<lparr> al_current_service_index := al_current_service_index c + 1 \<rparr>)"

lemma next_lists_at: "next_list (lists_at b0 out js M first continued j off) = lists_at b0 out js M first continued (Suc j) off"
  by (simp add: lists_at_def add.commute)

lemma lists_walk:
  assumes "list_all service_ok svs" and ok: "de_ok (Seq t' ids)" "de_ok (Seq tp ps)"
    and "\<forall>sv \<in> set svs. matches_service ps sv \<longrightarrow> length (service_bytes ids sv) < 65536"
    and b: "length b0 = 7" "M + 5 \<le> length js" "length (b0 @ out @ js) < 65536"
    and ix: "i < 65536" "j + length svs < 65536" "off < 65536" "inside_list ids ps (drop (i - j) svs) off"
    and first: "if first then 3 < M else off = 0 \<and> 1 \<le> j"
  shows "\<exists>part M' first' continued j' off'.
      walk (attribute_lists_body (de_bytes (Seq tp ps) @ rest) (de_bytes (Seq t' ids) @ rest') (of_nat i)) next_list
        (map item_of svs) (lists_at b0 out js M first False j off)
      = Some (lists_at b0 (out @ part) (drop (length part) js) M' first' continued j' off')
    \<and> length part \<le> M
    \<and> (if continued
       then lists_left ids ps (drop (i - j) svs) off = part @ lists_left ids ps (drop (j' - j) svs) off'
         \<and> j \<le> j' \<and> j' < 65536 \<and> off' < 65536 \<and> inside_list ids ps (drop (j' - j) svs) off'
         \<and> (first \<longrightarrow> part \<noteq> []) \<and> (off' = 0 \<longrightarrow> 1 \<le> j')
       else lists_left ids ps (drop (i - j) svs) off = part)"
  using assms
proof (induction svs arbitrary: out js M first j off)
  case Nil
  then show ?case by (intro exI [of _ "[]"] exI) (rule conjI, simp, simp)
next
  case (Cons sv svs)
  obtain h t as where sv: "sv = (h, t, as)" by (cases sv)
  let ?body = "attribute_lists_body (de_bytes (Seq tp ps) @ rest) (de_bytes (Seq t' ids) @ rest') (of_nat i)"
  let ?c = "lists_at b0 out js M first False j off"
  have okr: "service_ok sv" "list_all service_ok svs" using Cons.prems(1) by simp_all
  have lens: "matches_service ps sv \<Longrightarrow> length (service_bytes ids sv) < 65536"
    "\<forall>sv \<in> set svs. matches_service ps sv \<longrightarrow> length (service_bytes ids sv) < 65536"
    using Cons.prems(4) by simp_all
  note m = match_record [OF okr(1) ok(2), of rest]
  have j: "j < 65536" "Suc j + length svs < 65536" using Cons.prems(9) by simp_all
  note IH = Cons.IH [OF okr(2) ok lens(2) b(1) _ _ ix(1) j(2)]
  have less: "(of_nat j :: u16) < of_nat i \<longleftrightarrow> j < i" using j(1) ix(1) by (simp add: word_less_nat_alt unat_of_nat_u16)
  show ?case
  proof (cases "i \<le> j \<and> matches_service ps sv")
    case False
    then have go: "?body (item_of sv) ?c = Some (True, ?c)"
      using less m by (auto simp: attribute_lists_body_def lists_at_def)
    have l: "lists_left ids ps (drop (i - j) (sv # svs)) off = lists_left ids ps (drop (i - Suc j) svs) off"
      and ins: "inside_list ids ps (drop (i - Suc j) svs) off"
      using False Cons.prems(11) by (cases "i \<le> j"; auto simp: Suc_diff_Suc [symmetric])+
    have "if first then 3 < M else off = 0 \<and> 1 \<le> Suc j" using Cons.prems(12) by (simp split: if_splits)
    from IH [OF Cons.prems(6,7) Cons.prems(10) ins this] obtain part M' first' continued j' off' where w:
      "walk ?body next_list (map item_of svs) (lists_at b0 out js M first False (Suc j) off)
        = Some (lists_at b0 (out @ part) (drop (length part) js) M' first' continued j' off')" "length part \<le> M"
      "if continued then lists_left ids ps (drop (i - Suc j) svs) off = part @ lists_left ids ps (drop (j' - Suc j) svs) off'
         \<and> Suc j \<le> j' \<and> j' < 65536 \<and> off' < 65536 \<and> inside_list ids ps (drop (j' - Suc j) svs) off'
         \<and> (first \<longrightarrow> part \<noteq> []) \<and> (off' = 0 \<longrightarrow> 1 \<le> j')
       else lists_left ids ps (drop (i - Suc j) svs) off = part" by blast
    have d: "drop (j' - j) (sv # svs) = drop (j' - Suc j) svs" if "Suc j \<le> j'" using that by (simp add: Suc_diff_Suc [symmetric])
    show ?thesis
      by (rule exI [of _ part], rule exI [of _ M'], rule exI [of _ first'], rule exI [of _ continued], rule exI [of _ j'],
          rule exI [of _ off']) (use w l d go in \<open>auto simp: next_lists_at\<close>)
  next
    case True
    define A where "A = service_bytes ids sv"
    define p where "p = take M (attributes_left A off)"
    have A: "A = selected ids as" "length A < 65536" using lens(1) True by (simp_all add: A_def sv)
    have ij: "i - j = 0" using True by simp
    have okt: "de_ok (Seq t (record_items as))" using okr(1) by (simp add: sv)
    have m1: "sdp_record_matches_service_search_pattern (de_bytes (Seq t (record_items as))) (de_bytes (Seq tp ps) @ rest) = Some 1"
      using m True by (simp add: sv del: de_bytes.simps)
    have L: "lists_left ids ps (drop (i - j) (sv # svs)) off = attributes_left A off @ lists_left ids ps svs 0"
      using True ij by (simp add: A_def)
    have step: "?body (item_of sv) ?c
      = Some (if off = 0 \<and> length A + 3 > M \<and> \<not> first then (False, lists_at b0 out js M first True j off)
        else if length (attributes_left A off) \<le> M
        then (True, lists_at b0 (out @ p) (drop (length p) js) (M - length p) False False j 0)
        else (False, lists_at b0 (out @ p) (drop (length p) js) (M - length p) False True j
               (off + (length p - (if off = 0 then 3 else 0)))))"
      unfolding sv using True Cons.prems(12)
      by (intro lists_body_found [OF okt ok(1) A m1 b(1) Cons.prems(6,7) _ j(1) Cons.prems(10) _ p_def])
        (auto split: if_splits)
    consider (stop) "off = 0" "length A + 3 > M" "\<not> first"
      | (all) "\<not> (off = 0 \<and> length A + 3 > M \<and> \<not> first)" "length (attributes_left A off) \<le> M"
      | (piece) "\<not> (off = 0 \<and> length A + 3 > M \<and> \<not> first)" "\<not> length (attributes_left A off) \<le> M" by blast
    then show ?thesis
    proof cases
      case stop
      then have "?body (item_of sv) ?c = Some (False, lists_at b0 out js M first True j off)" using step by simp
      then have w: "walk ?body next_list (map item_of (sv # svs)) ?c
          = Some (lists_at b0 (out @ []) (drop (length []) js) M first True j off)" by simp
      show ?thesis
        by (rule exI [of _ "[]"], rule exI [of _ M], rule exI [of _ first], rule exI [of _ True], rule exI [of _ j],
          rule exI [of _ off], rule conjI, rule w) (use stop Cons.prems(12) ij j in auto)
    next
      case piece
      let ?off = "off + (length p - (if off = 0 then 3 else 0))"
      have lp: "length p = M" using piece(2) by (simp add: p_def)
      have "off = 0 \<longrightarrow> first" using piece Cons.prems(12) by (auto simp: attributes_left_def header_length_def)
      then have M: "off = 0 \<longrightarrow> 3 < M" "0 < M"
        using Cons.prems(12) by (auto split: if_splits)
      have "M < length (attributes_left A off)" using piece(2) by simp
      note sp = attributes_left_split [OF this M refl, folded p_def]
      have w: "walk ?body next_list (map item_of (sv # svs)) ?c
          = Some (lists_at b0 (out @ p) (drop (length p) js) (M - length p) False True j ?off)" using step piece by auto
      show ?thesis
        by (rule exI [of _ p], rule exI [of _ "M - length p"], rule exI [of _ False], rule exI [of _ True], rule exI [of _ j],
          rule exI [of _ ?off], rule conjI, rule w)
          (use sp lp M True ij j A L in \<open>auto simp: A_def [symmetric]\<close>)
    next
      case all
      have p: "p = attributes_left A off" using all(2) by (simp add: p_def)
      have lp: "length p \<le> M" by (simp add: p_def)
      have pn: "p \<noteq> []" if first
      proof (cases "off = 0")
        case False
        then have "off < length A" using Cons.prems(11) True ij by (simp add: A_def)
        then show ?thesis using False by (simp add: p attributes_left_def)
      qed (simp add: p attributes_left_def de_header_def)
      have bs: "M - length p + 5 \<le> length (drop (length p) js)" "length (b0 @ (out @ p) @ drop (length p) js) < 65536"
        using Cons.prems(6,7) lp by simp_all
      have ins: "inside_list ids ps (drop (i - Suc j) svs) 0" by simp
      have "if False then 3 < M - length p else 0 = (0 :: nat) \<and> 1 \<le> Suc j" by simp
      from IH [OF bs _ ins this] obtain part M' first' continued j' off' where w:
        "walk ?body next_list (map item_of svs) (lists_at b0 (out @ p) (drop (length p) js) (M - length p) False False (Suc j) 0)
          = Some (lists_at b0 ((out @ p) @ part) (drop (length part) (drop (length p) js)) M' first' continued j' off')"
        "length part \<le> M - length p"
        "if continued then lists_left ids ps (drop (i - Suc j) svs) 0 = part @ lists_left ids ps (drop (j' - Suc j) svs) off'
           \<and> Suc j \<le> j' \<and> j' < 65536 \<and> off' < 65536 \<and> inside_list ids ps (drop (j' - Suc j) svs) off'
           \<and> (False \<longrightarrow> part \<noteq> []) \<and> (off' = 0 \<longrightarrow> 1 \<le> j')
         else lists_left ids ps (drop (i - Suc j) svs) 0 = part" by (auto simp del: lists_left.simps inside_list.simps)
      have d: "drop (j' - j) (sv # svs) = drop (j' - Suc j) svs" if "Suc j \<le> j'" using that by (simp add: Suc_diff_Suc [symmetric])
      have "?body (item_of sv) ?c = Some (True, lists_at b0 (out @ p) (drop (length p) js) (M - length p) False False j 0)"
        using step all by auto
      moreover have dd: "drop (length part) (drop (length p) js) = drop (length (p @ part)) js" by (simp add: add.commute)
      ultimately have w': "walk ?body next_list (map item_of (sv # svs)) ?c
          = Some (lists_at b0 (out @ p @ part) (drop (length (p @ part)) js) M' first' continued j' off')"
        using w(1) [unfolded dd] by (simp add: next_lists_at del: length_append de_bytes.simps)
      have i0: "drop (i - Suc j) svs = svs" using True by simp
      show ?thesis
        by (rule exI [of _ "p @ part"], rule exI [of _ M'], rule exI [of _ first'], rule exI [of _ continued],
          rule exI [of _ j'], rule exI [of _ off'], rule conjI, rule w')
          (use w(2,3) lp d pn L p i0 in \<open>auto simp del: lists_left.simps inside_list.simps\<close>)
    qed
  qed
qed


lemma lists_left_0: "lists_left ids ps svs 0 = concat (map (\<lambda>sv. attributes_left (service_bytes ids sv) 0) (filter (matches_service ps) svs))"
  by (induction svs) simp_all

lemma service_bytes_bound:
  "sv \<in> set svs \<Longrightarrow> matches_service ps sv \<Longrightarrow> length (service_bytes ids sv) \<le> length (lists_left ids ps svs 0)"
  by (induction svs) (auto simp: attributes_left_def)

lemma lists_left_sum:
  "(\<Sum>r \<leftarrow> filter (matches_service ps) svs. 3 + length (service_bytes ids r)) = length (lists_left ids ps svs 0)"
  by (induction svs) (simp_all add: attributes_left_def header_length_def)

lemma size_of_lists:
  assumes "registered s (map item_of svs)" and "list_all service_ok svs"
    and ok: "de_ok (Seq t' ids)" "de_ok (Seq tp ps)" and "length (lists_left ids ps svs 0) < 65536"
  shows "sdp_get_size_for_service_search_attribute_response s (de_bytes (Seq tp ps) @ rest) (de_bytes (Seq t' ids) @ rest')
    = Some (of_nat (length (lists_left ids ps svs 0)))"
proof -
  obtain xs where xs: "chain (sdp_nodes s) (sdp_service_records s) xs" "map (sdp_items s) xs = map Some (map item_of svs)"
    using assms(1) by (auto simp: registered_def)
  obtain it where it: "sdp_nodes s (sdp_service_records s) = Some it" using chain_first [OF xs(1)] by blast
  define m where "m r = (sdp_record_matches_service_search_pattern (service_record r) (de_bytes (Seq tp ps) @ rest) = Some 1)"
    for r :: service_record_item
  define f where "f r = nat (the (spd_get_filtered_size (service_record r) (de_bytes (Seq t' ids) @ rest')))"
    for r :: service_record_item
  have m: "m (item_of sv) = matches_service ps sv" if "sv \<in> set svs" for sv
    using match_record [OF _ ok(2), of sv rest] that assms(2) by (auto simp: m_def list_all_iff)
  have size: "spd_get_filtered_size (service_record (item_of sv)) (de_bytes (Seq t' ids) @ rest') = Some (int (length (service_bytes ids sv)))"
    if sv: "sv \<in> set svs" "matches_service ps sv" for sv
  proof -
    obtain h t as where e: "sv = (h, t, as)" by (cases sv)
    have "de_ok (Seq t (record_items as))" using assms(2) sv(1) e by (auto simp: list_all_iff simp del: de_ok.simps)
    moreover have "length (selected ids as) < 65536" using service_bytes_bound [OF sv, of ids] assms(5) e by simp
    ultimately show ?thesis using filtered_answer_size [OF _ ok(1), of t as "[]" rest'] e by (simp del: de_bytes.simps)
  qed
  have "size_from s (de_bytes (Seq tp ps) @ rest) (de_bytes (Seq t' ids) @ rest') it 0
      = Some (0 + of_nat (\<Sum>r \<leftarrow> filter m (map item_of svs). 3 + f r))"
  proof (rule size_from_walk [OF xs(1) it xs(2)])
    fix r assume "r \<in> set (map item_of svs)"
    then obtain sv where sv: "sv \<in> set svs" "r = item_of sv" by auto
    then show "sdp_record_matches_service_search_pattern (service_record r) (de_bytes (Seq tp ps) @ rest) = Some (if m r then 1 else 0)"
      using match_record [OF _ ok(2), of sv rest] assms(2) m [OF sv(1)] by (auto simp: list_all_iff)
    show "spd_get_filtered_size (service_record r) (de_bytes (Seq t' ids) @ rest') = Some (int (f r))" if "m r"
      using size [OF sv(1)] m [OF sv(1)] sv(2) that by (simp add: f_def)
  qed
  moreover have "(\<Sum>r \<leftarrow> filter m (map item_of svs). 3 + f r) = (\<Sum>r \<leftarrow> filter (matches_service ps) svs. 3 + length (service_bytes ids r))"
    using m size by (induction svs) (auto simp: f_def)
  ultimately show ?thesis
    by (simp add: sdp_get_size_for_service_search_attribute_response_def it lists_left_sum)
qed

lemma continuation_of_lists:
  assumes "length b0 = 7" and "unat pos = 7 + length part" and "5 \<le> length js" and "12 + length part < 65536"
  shows "do { buf \<leftarrow> wr (b0 @ part @ js) (unat pos) 4; buf \<leftarrow> big_endian_store_16 buf (pos + 1) i;
      buf \<leftarrow> big_endian_store_16 buf (pos + 1 + 2) k; Some (buf, pos + 1 + 2 + 2) }
    = Some (b0 @ part @ (4 # be_16 i @ be_16 k) @ drop 5 js, pos + 5)"
proof -
  obtain a b c d e js' where js: "js = a # b # c # d # e # js'"
    using assms(3) by (auto simp: Suc_le_length_iff numeral_eq_Suc)
  have p1: "unat (pos + 1) = length (b0 @ part @ [4])" using unat_next [OF assms(2)] assms(1,4) by simp
  have p3: "unat (pos + 1 + 2) = length (b0 @ part @ [4] @ be_16 i)"
    by (subst unat_plus_no_wrap) (use p1 assms(1,4) in simp_all)
  have "big_endian_store_16 ((b0 @ part @ [4]) @ b # c # d # e # js') (pos + 1) i
      = Some ((b0 @ part @ [4]) @ be_16 i @ d # e # js')" by (rule store_16_at [OF p1]) (use assms(1,4) in simp)
  moreover have "big_endian_store_16 ((b0 @ part @ [4] @ be_16 i) @ d # e # js') (pos + 1 + 2) k
      = Some ((b0 @ part @ [4] @ be_16 i) @ be_16 k @ js')" by (rule store_16_at [OF p3]) (use assms(1,4) in simp)
  ultimately show ?thesis using wr_at [of "b0 @ part" a "b # c # d # e # js'" 4] by (simp add: js assms(1,2))
qed

definition lists_continuation :: "nat \<Rightarrow> nat \<Rightarrow> buffer" where
  "lists_continuation i off = (if i = 0 \<and> off = 0 then [0] else 4 # be_16 (of_nat i) @ be_16 (of_nat off))"

definition answer_left :: "de list \<Rightarrow> de list \<Rightarrow> service list \<Rightarrow> nat \<Rightarrow> nat \<Rightarrow> buffer" where
  "answer_left ids ps svs i off =
     (if i = 0 \<and> off = 0 then attributes_left (lists_left ids ps svs 0) 0 else lists_left ids ps (drop i svs) off)"


lemma lists_front:
  assumes s: "serves mtu_of svs s" and ok: "de_ok (Seq t' ids)" "de_ok (Seq tp ps)"
    and L: "length (lists_left ids ps svs 0) < 65536"
    and ix: "i < 65536" "off < 65536" "inside_list ids ps (drop i svs) off"
    and m: "7 \<le> unat m" "unat m + 12 \<le> length b" and b: "b = sdp_response_buffer s"
  shows "\<exists>P M' first' continued j' off'.
      do { (buf, pos, m) \<leftarrow>
             (if (of_nat i :: u16) = 0 \<and> (of_nat off :: u16) = 0 then do {
                n \<leftarrow> sdp_get_size_for_service_search_attribute_response s (de_bytes (Seq tp ps) @ rest) (de_bytes (Seq t' ids) @ rest');
                buf \<leftarrow> at_offset 7 (de_store_descriptor_with_len DE_DES DE_SIZE_VAR_16 (to32 n)) b;
                Some (buf, 7 + 3, m - 3) }
              else Some (b, 7, m));
           it \<leftarrow> sdp_nodes s (sdp_service_records s);
           attribute_lists_from s (attribute_lists_body (de_bytes (Seq tp ps) @ rest) (de_bytes (Seq t' ids) @ rest') (of_nat i)) it
             \<lparr> al_buffer = buf, al_pos = pos, al_maximumAttributeByteCount = m, al_first_answer = True,
               al_continuation = False, al_current_service_index = 0, al_continuation_offset = of_nat off \<rparr> }
      = Some (lists_at (take 7 b) P (drop (7 + length P) b) M' first' continued j' off')
    \<and> length P \<le> unat m
    \<and> (if continued
       then answer_left ids ps svs i off = P @ lists_left ids ps (drop j' svs) off' \<and> j' < 65536 \<and> off' < 65536
         \<and> inside_list ids ps (drop j' svs) off' \<and> P \<noteq> [] \<and> (off' = 0 \<longrightarrow> 1 \<le> j')
       else answer_left ids ps svs i off = P)"
proof -
  have reg: "registered s (map item_of svs)" and okr: "list_all service_ok svs" and lsv: "0 + length svs < 65536"
    and lb: "length b < 65536" using s by (simp_all add: serves_def b)
  obtain xs where xs: "chain (sdp_nodes s) (sdp_service_records s) xs" "map (sdp_items s) xs = map Some (map item_of svs)"
    using reg by (auto simp: registered_def)
  obtain it where it: "sdp_nodes s (sdp_service_records s) = Some it" using chain_first [OF xs(1)] by blast
  note from_walk = attribute_lists_from_walk [OF xs(1) it xs(2)]
  have lens: "\<forall>sv \<in> set svs. matches_service ps sv \<longrightarrow> length (service_bytes ids sv) < 65536"
    using service_bytes_bound [of _ svs ps ids] L le_less_trans by blast
  have l7: "length (take 7 b) = 7" using m by simp
  note walk = lists_walk [OF okr ok lens l7 _ _ ix(1) lsv ix(2), of _ _ _ True rest rest']
  show ?thesis
  proof (cases "i = 0 \<and> off = 0")
    case False
    then have n0: "\<not> ((of_nat i :: u16) = 0 \<and> (of_nat off :: u16) = 0)" using ix(1,2) by (auto simp: of_nat_0_iff)
    have c: "\<lparr> al_buffer = b, al_pos = 7, al_maximumAttributeByteCount = m, al_first_answer = True,
        al_continuation = False, al_current_service_index = 0, al_continuation_offset = of_nat off \<rparr>
      = lists_at (take 7 b) [] (drop 7 b) (unat m) True False 0 off" by (simp add: lists_at_def)
    have r: "unat m + 5 \<le> length (drop 7 b)" "length (take 7 b @ [] @ drop 7 b) < 65536" using m lb by simp_all
    have "inside_list ids ps (drop (i - 0) svs) off" "if True then 3 < unat m else off = 0 \<and> (1 :: nat) \<le> 0"
      using ix(3) m(1) by simp_all
    from walk [OF r this] obtain part M' first' continued j' off' where w:
      "walk (attribute_lists_body (de_bytes (Seq tp ps) @ rest) (de_bytes (Seq t' ids) @ rest') (of_nat i)) next_list
          (map item_of svs) (lists_at (take 7 b) [] (drop 7 b) (unat m) True False 0 off)
        = Some (lists_at (take 7 b) ([] @ part) (drop (length part) (drop 7 b)) M' first' continued j' off')"
      "length part \<le> unat m"
      "if continued then lists_left ids ps (drop (i - 0) svs) off = part @ lists_left ids ps (drop (j' - 0) svs) off'
         \<and> 0 \<le> j' \<and> j' < 65536 \<and> off' < 65536 \<and> inside_list ids ps (drop (j' - 0) svs) off'
         \<and> (True \<longrightarrow> part \<noteq> []) \<and> (off' = 0 \<longrightarrow> 1 \<le> j')
       else lists_left ids ps (drop (i - 0) svs) off = part" by blast
    have d: "drop (length part) (drop 7 b) = drop (7 + length part) b" by (simp add: add.commute)
    have al: "answer_left ids ps svs i off = lists_left ids ps (drop (i - 0) svs) off"
      using False by (auto simp: answer_left_def)
    have st: "(if (of_nat i :: u16) = 0 \<and> (of_nat off :: u16) = 0 then X else Y) = Y" for X Y :: "(buffer \<times> u16 \<times> u16) option"
      using n0 by (rule if_not_P)
    show ?thesis
      unfolding st al Option.bind.bind_lunit prod.case it from_walk c w(1) [unfolded d append_Nil] Option.bind.bind_lunit
      by (rule exI [of _ part], rule exI [of _ M'], rule exI [of _ first'], rule exI [of _ continued], rule exI [of _ j'],
          rule exI [of _ off'], intro conjI refl w(2)) (use w(3) in \<open>cases continued; simp\<close>)
  next
    case True
    define H where "H = de_header 6 6 (length (lists_left ids ps svs 0))"
    have lH: "length H = 3" by (simp add: H_def header_length_def)
    have h: "at_offset 7 (de_store_descriptor_with_len DE_DES DE_SIZE_VAR_16 (to32 (of_nat (length (lists_left ids ps svs 0)) :: u16))) b
        = Some (take 7 b @ H @ drop 10 b)"
      using header_into [OF _ L, of 7 b] m by (simp add: H_def)
    have um: "of_nat (unat m - 3) = m - 3" using m(1) by (simp add: of_nat_diff)
    have c: "\<lparr> al_buffer = take 7 b @ H @ drop 10 b, al_pos = 10, al_maximumAttributeByteCount = m - 3, al_first_answer = True,
        al_continuation = False, al_current_service_index = 0, al_continuation_offset = of_nat off \<rparr>
      = lists_at (take 7 b) H (drop 10 b) (unat m - 3) True False 0 off" by (simp add: lists_at_def um lH)
    have r: "unat m - 3 + 5 \<le> length (drop 10 b)" "length (take 7 b @ H @ drop 10 b) < 65536" using m lb lH by simp_all
    have "inside_list ids ps (drop (i - 0) svs) off" "if True then 3 < unat m - 3 else off = 0 \<and> (1 :: nat) \<le> 0"
      using ix(3) m(1) by simp_all
    from walk [OF r this] obtain part M' first' continued j' off' where w:
      "walk (attribute_lists_body (de_bytes (Seq tp ps) @ rest) (de_bytes (Seq t' ids) @ rest') (of_nat i)) next_list
          (map item_of svs) (lists_at (take 7 b) H (drop 10 b) (unat m - 3) True False 0 off)
        = Some (lists_at (take 7 b) (H @ part) (drop (length part) (drop 10 b)) M' first' continued j' off')"
      "length part \<le> unat m - 3"
      "if continued then lists_left ids ps (drop (i - 0) svs) off = part @ lists_left ids ps (drop (j' - 0) svs) off'
         \<and> 0 \<le> j' \<and> j' < 65536 \<and> off' < 65536 \<and> inside_list ids ps (drop (j' - 0) svs) off'
         \<and> (True \<longrightarrow> part \<noteq> []) \<and> (off' = 0 \<longrightarrow> 1 \<le> j')
       else lists_left ids ps (drop (i - 0) svs) off = part" by blast
    have d: "drop (length part) (drop 10 b) = drop (7 + length (H @ part)) b" by (simp add: lH add.commute)
    have al: "answer_left ids ps svs i off = H @ lists_left ids ps (drop (i - 0) svs) off"
      using True by (simp add: answer_left_def attributes_left_def H_def)
    have st: "(if (of_nat i :: u16) = 0 \<and> (of_nat off :: u16) = 0 then X else Y) = X" for X Y :: "(buffer \<times> u16 \<times> u16) option"
      using True by simp
    have p10: "(7 + 3 :: u16) = 10" by simp
    have lP: "length (H @ part) \<le> unat m" using w(2) m(1) lH by simp
    show ?thesis
      unfolding st al size_of_lists [OF reg okr ok L] h Option.bind.bind_lunit prod.case it from_walk p10 c w(1) [unfolded d]
      by (rule exI [of _ "H @ part"], rule exI [of _ M'], rule exI [of _ first'], rule exI [of _ continued],
          rule exI [of _ j'], rule exI [of _ off'], intro conjI refl lP) (use w(3) in \<open>cases continued; simp\<close>)
  qed
qed


lemma lists_response:
  assumes s: "serves mtu_of svs s" and ok: "de_ok (Seq t' ids)" "de_ok (Seq tp ps)"
    and L: "length (lists_left ids ps svs 0) < 65536"
    and ix: "i < 65536" "off < 65536" "inside_list ids ps (drop i svs) off"
    and m: "7 \<le> unat m" "unat m + 12 \<le> length (sdp_response_buffer s)"
  shows "\<exists>part c. service_search_attribute_response s tid (de_bytes (Seq tp ps) @ rest) m (de_bytes (Seq t' ids) @ rest')
          (of_nat i) (of_nat off)
        = Some (of_nat (length (attributes_response 7 tid part c)), s\<lparr> sdp_response_buffer := attributes_response 7 tid part c
            @ drop (length (attributes_response 7 tid part c)) (sdp_response_buffer s) \<rparr>)
    \<and> length part \<le> unat m \<and> length c \<le> 5
    \<and> (if c = [0] then answer_left ids ps svs i off = part
       else part \<noteq> [] \<and> (\<exists>i' off'. c = lists_continuation i' off' \<and> answer_left ids ps svs i off = part @ answer_left ids ps svs i' off'
         \<and> i' < 65536 \<and> off' < 65536 \<and> inside_list ids ps (drop i' svs) off'))"
proof -
  define b where "b = sdp_response_buffer s"
  have m': "unat m + 12 \<le> length b" and lb: "length b < 65536" using m(2) s by (simp_all add: b_def serves_def)
  obtain P M' first' continued j' off' where f:
    "do { (buf, pos, m) \<leftarrow>
             (if (of_nat i :: u16) = 0 \<and> (of_nat off :: u16) = 0 then do {
                n \<leftarrow> sdp_get_size_for_service_search_attribute_response s (de_bytes (Seq tp ps) @ rest) (de_bytes (Seq t' ids) @ rest');
                buf \<leftarrow> at_offset 7 (de_store_descriptor_with_len DE_DES DE_SIZE_VAR_16 (to32 n)) b;
                Some (buf, 7 + 3, m - 3) }
              else Some (b, 7, m));
           it \<leftarrow> sdp_nodes s (sdp_service_records s);
           attribute_lists_from s (attribute_lists_body (de_bytes (Seq tp ps) @ rest) (de_bytes (Seq t' ids) @ rest') (of_nat i)) it
             \<lparr> al_buffer = buf, al_pos = pos, al_maximumAttributeByteCount = m, al_first_answer = True,
               al_continuation = False, al_current_service_index = 0, al_continuation_offset = of_nat off \<rparr> }
      = Some (lists_at (take 7 b) P (drop (7 + length P) b) M' first' continued j' off')" (is "?front = _")
    and P: "length P \<le> unat m"
    and left: "if continued
       then answer_left ids ps svs i off = P @ lists_left ids ps (drop j' svs) off' \<and> j' < 65536 \<and> off' < 65536
         \<and> inside_list ids ps (drop j' svs) off' \<and> P \<noteq> [] \<and> (off' = 0 \<longrightarrow> 1 \<le> j')
       else answer_left ids ps svs i off = P"
    using lists_front [OF s ok L ix m(1) m' b_def, of rest rest'] by blast
  define c where "c = (if continued then 4 # be_16 (of_nat j') @ be_16 (of_nat off') else [0])"
  define r where "r = attributes_response 7 tid P c"
  have l7: "length (take 7 b) = 7" and js: "5 \<le> length (drop (7 + length P) b)" and l16: "12 + length P < 65536"
    using m' lb P by simp_all
  have pos: "unat (of_nat (7 + length P) :: u16) = 7 + length P"
    by (rule unat_of_nat_u16) (use l16 in simp)
  have lr: "length r = 7 + length P + length c" by (simp add: r_def attributes_response_def sdp_pdu_def)
  let ?c = "lists_at (take 7 b) P (drop (7 + length P) b) M' first' continued j' off'"
  let ?finish = "\<lambda>c. do {
      let pos = al_pos c;
      let attributeListsByteCount = pos - 7;
      (buf, pos) \<leftarrow>
        (if al_continuation c then do {
           buf \<leftarrow> wr (al_buffer c) (unat pos) 4;
           buf \<leftarrow> big_endian_store_16 buf (pos + 1) (al_current_service_index c);
           buf \<leftarrow> big_endian_store_16 buf (pos + 1 + 2) (al_continuation_offset c);
           Some (buf, pos + 1 + 2 + 2) }
         else do { buf \<leftarrow> wr (al_buffer c) (unat pos) 0; Some (buf, pos + 1) });
      buf \<leftarrow> wr buf 0 7;
      buf \<leftarrow> big_endian_store_16 buf 1 tid;
      buf \<leftarrow> big_endian_store_16 buf 3 (pos - 5);
      buf \<leftarrow> big_endian_store_16 buf 5 attributeListsByteCount;
      Some (pos, s\<lparr> sdp_response_buffer := buf \<rparr>) }"
  have resp: "service_search_attribute_response s tid (de_bytes (Seq tp ps) @ rest) m (de_bytes (Seq t' ids) @ rest')
      (of_nat i) (of_nat off) = ?front \<bind> ?finish"
    unfolding service_search_attribute_response_def b_def by (simp add: Let_def case_prod_unfold del: de_bytes.simps)
  have ends: "(if al_continuation ?c then do {
           buf \<leftarrow> wr (al_buffer ?c) (unat (al_pos ?c)) 4;
           buf \<leftarrow> big_endian_store_16 buf (al_pos ?c + 1) (al_current_service_index ?c);
           buf \<leftarrow> big_endian_store_16 buf (al_pos ?c + 1 + 2) (al_continuation_offset ?c);
           Some (buf, al_pos ?c + 1 + 2 + 2) }
         else do { buf \<leftarrow> wr (al_buffer ?c) (unat (al_pos ?c)) 0; Some (buf, al_pos ?c + 1) })
      = Some (take 7 b @ P @ c @ drop (length r) b, of_nat (length r))"
  proof (cases continued)
    case False
    then show ?thesis using end_of_answer [OF l7 pos, of "drop (7 + length P) b"] js
      by (simp add: lists_at_def c_def lr add.commute)
  next
    case True
    have "(of_nat (7 + length P) + 5 :: u16) = of_nat (length r)" using True by (simp add: c_def lr)
    then show ?thesis using continuation_of_lists [OF l7 pos js l16, of "of_nat j'" "of_nat off'"] True
      by (simp add: lists_at_def c_def lr add.commute add.left_commute)
  qed
  have n5: "(of_nat (length r) - 5 :: u16) = of_nat (length (be_16 (of_nat (length P)) @ P @ c))" by (simp add: lr)
  have n7: "al_pos ?c - 7 = of_nat (length P)" by (simp add: lists_at_def)
  have "[7] @ be_16 tid @ be_16 (of_nat (length r) - 5) @ be_16 (al_pos ?c - 7) @ P @ c @ drop (length r) b = r @ drop (length r) b"
    unfolding n5 n7 by (simp add: r_def attributes_response_def sdp_pdu_def)
  then have "?finish ?c = Some (of_nat (length r), s\<lparr> sdp_response_buffer := r @ drop (length r) b \<rparr>)"
    using header_stores [OF l7, of "P @ c @ drop (length r) b" 7 tid "of_nat (length r) - 5" "al_pos ?c - 7"
        "\<lambda>buf. (of_nat (length r), s\<lparr> sdp_response_buffer := buf \<rparr>)"]
    unfolding Let_def ends by (simp only: Option.bind.bind_lunit prod.case)
  then have res: "service_search_attribute_response s tid (de_bytes (Seq tp ps) @ rest) m (de_bytes (Seq t' ids) @ rest')
      (of_nat i) (of_nat off) = Some (of_nat (length r), s\<lparr> sdp_response_buffer := r @ drop (length r) b \<rparr>)"
    unfolding resp f Option.bind.bind_lunit .
  have "if c = [0] then answer_left ids ps svs i off = P
       else P \<noteq> [] \<and> (\<exists>i' off'. c = lists_continuation i' off' \<and> answer_left ids ps svs i off = P @ answer_left ids ps svs i' off'
         \<and> i' < 65536 \<and> off' < 65536 \<and> inside_list ids ps (drop i' svs) off')"
  proof (cases continued)
    case True
    then have n: "\<not> (j' = 0 \<and> off' = 0)" using left by auto
    have "c = lists_continuation j' off'" "c \<noteq> [0]" using True n by (auto simp: c_def lists_continuation_def)
    moreover have "answer_left ids ps svs i off = P @ answer_left ids ps svs j' off'"
      using left True n by (auto simp: answer_left_def)
    ultimately show ?thesis using left True by auto
  qed (use left in \<open>simp add: c_def\<close>)
  moreover have "length c \<le> 5" by (simp add: c_def)
  ultimately show ?thesis using P res unfolding r_def b_def by blast
qed


text \<open>Parsing the request.\<close>

lemma lists_continuation_read:
  assumes "i < 65536" and "off < 65536"
  shows "\<exists>n. rd (lists_continuation i off) 0 = Some n \<and> length (lists_continuation i off) = 1 + unat n
    \<and> (if n = 4 then do { a \<leftarrow> read_u16 (lists_continuation i off) 1; b \<leftarrow> read_u16 (lists_continuation i off) 3; Some (a, b) }
       else Some (0, 0)) = Some (of_nat i, of_nat off)"
  using read_u16_at [of "[4]" 1 "of_nat i" "be_16 (of_nat off)"] read_u16_at [of "4 # be_16 (of_nat i)" 3 "of_nat off" "[]"]
  by (auto simp: lists_continuation_def rd_def)

definition lists_params :: "de \<Rightarrow> u16 \<Rightarrow> de \<Rightarrow> buffer \<Rightarrow> buffer" where
  "lists_params pat maxBytes ids continuation = de_bytes pat @ be_16 maxBytes @ de_bytes ids @ continuation"

lemma handle_lists_request:
  assumes ok: "de_ok pat" "de_ok ids" and ix: "i < 65536" "off < 65536"
    and "length (de_bytes pat) + length (de_bytes ids) + 16 < 65536"
  shows "sdp_handle_service_search_attribute_request s (sdp_pdu 6 tid (lists_params pat maxBytes ids (lists_continuation i off))) mtu
    = service_search_attribute_response s tid (de_bytes pat @ be_16 maxBytes @ de_bytes ids @ lists_continuation i off)
        (min maxBytes (mtu - 12)) (de_bytes ids @ lists_continuation i off) (of_nat i) (of_nat off)"
proof -
  define c where "c = lists_continuation i off"
  define P where "P = lists_params pat maxBytes ids c"
  define k where "k = length (de_bytes pat)"
  define n where "n = length (de_bytes ids)"
  obtain cl where c: "rd c 0 = Some cl" "length c = 1 + unat cl"
    "(if cl = 4 then do { a \<leftarrow> read_u16 c 1; b \<leftarrow> read_u16 c 3; Some (a, b) } else Some (0, 0)) = Some (of_nat i, of_nat off)"
    using lists_continuation_read [OF ix] unfolding c_def by blast
  have lc: "1 \<le> length c" "length c \<le> 5" by (simp_all add: c_def lists_continuation_def)
  have lP: "length P = k + (2 + (n + length c))" by (simp add: P_def lists_params_def n_def k_def)
  have l: "k + (2 + (n + length c)) < 65531" using assms(5) lc(2) by (simp add: n_def k_def)
  define hd where "hd = [6] @ be_16 tid @ be_16 (of_nat (length P))"
  have hd: "length hd = 5" by (simp add: hd_def)
  let ?tl = "be_16 maxBytes @ de_bytes ids @ c"
  have p: "sdp_pdu 6 tid P = hd @ de_bytes pat @ ?tl" by (simp add: sdp_pdu_def P_def lists_params_def hd_def)
  have un: "unat (of_nat n :: u16) = n" "unat (of_nat k :: u16) = k" "unat (of_nat (n + length c) :: u16) = n + length c"
    "unat (of_nat (2 + (n + length c)) :: u16) = 2 + (n + length c)" "unat (of_nat (length P) :: u16) = length P"
    unfolding lP by (rule unat_of_nat_u16, use l in simp)+
  have ui: "uint (of_nat n :: u16) = int n" "uint (of_nat k :: u16) = int k" using un by (simp_all only: uint_nat)
  have d5: "ptr_add (sdp_pdu 6 tid P) 5 = Some (de_bytes pat @ ?tl)" by (simp add: p hd ptr_add_def)
  have rmax: "read_u16 (sdp_pdu 6 tid P) (5 + k) = Some maxBytes"
    using read_u16_at [of "hd @ de_bytes pat" "5 + k" maxBytes "de_bytes ids @ c"] by (simp add: p hd k_def)
  have dids: "ptr_add (sdp_pdu 6 tid P) (5 + int k + 2) = Some (de_bytes ids @ c)"
    by (simp add: p hd ptr_add_def k_def nat_add_distrib)
  have dc: "ptr_add (sdp_pdu 6 tid P) (5 + int k + 2 + int n) = Some c"
    by (simp add: p hd ptr_add_def k_def n_def nat_add_distrib)
  have pl: "(of_nat (length P) :: u16) - of_nat k = of_nat (2 + (n + length c))"
    "(of_nat (2 + (n + length c)) :: u16) - 2 = of_nat (n + length c)" by (simp_all add: lP)
  have "0 < n" "0 < k" using de_bytes_pos [OF ok(2)] de_bytes_pos [OF ok(1)] by (simp_all add: n_def k_def)
  then have nz: "(of_nat n :: u16) \<noteq> 0" "(of_nat k :: u16) \<noteq> 0" using un(1,2) by (auto simp flip: unat_eq_zero)
  have g: "map_option to16 (de_get_len_safe (de_bytes pat @ ?tl) (to32 (of_nat (length P) :: u16))) = Some (of_nat k)"
    "map_option to16 (de_get_len_safe (de_bytes ids @ c) (to32 (of_nat (n + length c) :: u16))) = Some (of_nat n)"
    using get_len_safe_u16 [OF ok(1), of "of_nat (length P)" ?tl] get_len_safe_u16 [OF ok(2), of "of_nat (n + length c)" c] un lP
    by (simp_all add: n_def [symmetric] k_def [symmetric])
  have lts: "\<not> (of_nat (2 + (n + length c)) :: u16) < 2" "\<not> (of_nat (n + length c) :: u16) < 1"
    "\<not> n + length c < 1 + unat cl"
    unfolding word_less_nat_alt un(3,4) using lc(1) c(2) by simp_all
  have mn: "(if mtu - 12 < maxBytes then mtu - 12 else maxBytes) = min maxBytes (mtu - 12)" by (auto simp: min_def)
  show ?thesis
    unfolding c_def [symmetric] P_def [symmetric] sdp_handle_service_search_attribute_request_def sdp_pdu_head(2,3)
      Option.bind.bind_lunit Let_def d5 g(1) un(2) ui(2) rmax
    by (simp only: lts nz if_False Option.bind.bind_lunit rmax dids ui pl g dc c(1,3) mn prod.case un)
qed

text \<open>The exchange of a client that searches and reads attributes.\<close>

definition lists_remaining :: "service list \<Rightarrow> de list \<Rightarrow> de list \<Rightarrow> buffer \<Rightarrow> buffer \<Rightarrow> bool" where
  "lists_remaining svs ids ps c rest \<longleftrightarrow> (\<exists>i off. i < 65536 \<and> off < 65536 \<and> inside_list ids ps (drop i svs) off
     \<and> c = lists_continuation i off \<and> rest = answer_left ids ps svs i off)"

lemma lists_fragment:
  assumes s: "serves mtu_of svs s" and ids: "sequence_ok t' ids" and ps: "sequence_ok tp ps" and mx: "7 \<le> maxBytes"
    and L: "length (lists_left ids ps svs 0) < 65536" and rem: "lists_remaining svs ids ps c rest"
  shows "\<exists>r s' part c'. sdp_transact mtu_of s (sdp_pdu 6 tid (lists_params (Seq tp ps) maxBytes (Seq t' ids) c)) = Some (r, s')
    \<and> serves mtu_of svs s' \<and> split_attributes r = Some (part, c')
    \<and> (if c' = [0] then rest = part else part \<noteq> [] \<and> (\<exists>rest'. rest = part @ rest' \<and> lists_remaining svs ids ps c' rest'))"
proof -
  obtain i off where r: "i < 65536" "off < 65536" "inside_list ids ps (drop i svs) off" "c = lists_continuation i off"
    "rest = answer_left ids ps svs i off" using rem by (auto simp: lists_remaining_def)
  define m where "m = min maxBytes (remote_mtu mtu_of s - 12)"
  note mtu = remote_mtu_bounds [OF s]
  have "unat (remote_mtu mtu_of s - 12) = unat (remote_mtu mtu_of s) - 12"
    using mtu(1) by (simp add: unat_sub word_le_nat_alt)
  then have m: "7 \<le> unat m" "unat m + 12 \<le> unat (remote_mtu mtu_of s)"
    using mx mtu(1) by (auto simp: m_def min_def word_le_nat_alt)
  have mb: "unat m + 12 \<le> length (sdp_response_buffer s)" using m(2) mtu(3) by simp
  have ok: "de_ok (Seq t' ids)" "de_ok (Seq tp ps)"
    and lens: "length (de_bytes (Seq tp ps)) + length (de_bytes (Seq t' ids)) + 16 < 65536"
    using ids ps by (auto simp: sequence_ok_def)
  obtain part c' where x: "service_search_attribute_response s tid (de_bytes (Seq tp ps) @ be_16 maxBytes @ de_bytes (Seq t' ids) @ c)
        m (de_bytes (Seq t' ids) @ c) (of_nat i) (of_nat off)
      = Some (of_nat (length (attributes_response 7 tid part c')), s\<lparr> sdp_response_buffer := attributes_response 7 tid part c'
            @ drop (length (attributes_response 7 tid part c')) (sdp_response_buffer s) \<rparr>)"
    and lp: "length part \<le> unat m" and lc: "length c' \<le> 5"
    and left: "if c' = [0] then answer_left ids ps svs i off = part
       else part \<noteq> [] \<and> (\<exists>i' off'. c' = lists_continuation i' off' \<and> answer_left ids ps svs i off = part @ answer_left ids ps svs i' off'
         \<and> i' < 65536 \<and> off' < 65536 \<and> inside_list ids ps (drop i' svs) off')"
    using lists_response [OF s ok L r(1-3) m(1) mb] by blast
  define rsp where "rsp = attributes_response 7 tid part c'"
  have h: "handle_pdu 6 s (sdp_pdu 6 tid (lists_params (Seq tp ps) maxBytes (Seq t' ids) c)) (remote_mtu mtu_of s)
      = Some (of_nat (length rsp), s\<lparr> sdp_response_buffer := rsp @ drop (length rsp) (sdp_response_buffer s) \<rparr>)"
    using x unfolding r(4) by (simp add: handle_pdu_def handle_lists_request [OF ok(2,1) r(1,2) lens] m_def rsp_def del: de_bytes.simps)
  have lr: "length rsp = 7 + length part + length c'" by (simp add: rsp_def attributes_response_def sdp_pdu_def)
  have "length (lists_params (Seq tp ps) maxBytes (Seq t' ids) c) + 5 < 65536"
    using lens by (simp add: lists_params_def r(4) lists_continuation_def del: de_bytes.simps)
  moreover have "rsp \<noteq> []" "length rsp \<le> unat (remote_mtu mtu_of s)"
    "length (rsp @ drop (length rsp) (sdp_response_buffer s)) = length (sdp_response_buffer s)"
    using lp lc m(2) mtu(3) unfolding lr by (auto simp: rsp_def attributes_response_def sdp_pdu_def)
  ultimately obtain s' where s': "sdp_transact mtu_of s (sdp_pdu 6 tid (lists_params (Seq tp ps) maxBytes (Seq t' ids) c)) = Some (rsp, s')"
    "serves mtu_of svs s'" using transact_response [OF s _ _ h] by blast
  have sp: "split_attributes rsp = Some (part, c')"
    unfolding rsp_def by (rule split_attributes_response) (use lp unat_u16_less [of m] in linarith)
  have "if c' = [0] then rest = part else part \<noteq> [] \<and> (\<exists>rest'. rest = part @ rest' \<and> lists_remaining svs ids ps c' rest')"
    using left unfolding r(5) lists_remaining_def by (cases "c' = [0]") auto
  with s' sp show ?thesis by blast
qed

interpretation al: fragmented_answer "sdp_transact mtu_of"
  "\<lambda>c. sdp_pdu 6 tid (lists_params (Seq tp ps) maxBytes (Seq t' ids) c)" split_attributes
  "\<lambda>s. serves mtu_of svs s \<and> sequence_ok t' ids \<and> sequence_ok tp ps \<and> 7 \<le> maxBytes \<and> length (lists_left ids ps svs 0) < 65536"
  "lists_remaining svs ids ps"
  for mtu_of svs tid tp ps t' ids and maxBytes :: u16
  by unfold_locales (use lists_fragment in blast)


section \<open>Properties\<close>

text \<open>The attributes that a list of identifiers and ranges asks for.\<close>

definition asked :: "de list \<Rightarrow> attribute_list \<Rightarrow> attribute_list" where
  "asked ids as = filter (\<lambda>(i, v). \<exists>e \<in> set ids. covers i e) as"

lemma selected_asked: "selected ids as = body (record_items (asked ids as))"
proof (induction as)
  case (Cons iv as)
  then show ?case by (cases iv) (simp add: asked_def del: de_bytes.simps)
qed (simp add: asked_def)

lemma attributes_left_start: "attributes_left (body es) 0 = de_bytes (Seq 6 es)"
  by (simp add: attributes_left_def)

fun reply_for :: "de list \<Rightarrow> service \<Rightarrow> de" where
  "reply_for ids (h, t, as) = Seq 6 (record_items (asked ids as))"

lemma lists_left_reply: "lists_left ids ps svs 0 = body (map (reply_for ids) (filter (matches_service ps) svs))"
proof (induction svs)
  case (Cons sv svs)
  obtain h t as where "sv = (h, t, as)" by (cases sv)
  then show ?case using Cons
    by (simp add: selected_asked attributes_left_start del: de_bytes.simps matches_service.simps)
qed simp

text \<open>C3: Reading the attributes of a record.  A client that sends a service attribute request for a registered record
  and repeats it with the continuation state of each response, until there is none, gets, put together, the encoding of
  the sequence of exactly the attributes it asked for, in the order of the record.  This holds whatever number of bytes
  (7 or more) it allows per response and for every MTU from 48 bytes on; the exchange ends, no response is longer than
  the MTU, the server accesses no byte outside of its buffers, and it is ready for the next request.\<close>

theorem sdp_attribute_exchange:
  assumes "serves mtu_of svs s" and "map_of svs h = Some (t, as)" and "sequence_ok t' ids" and "7 \<le> maxBytes"
    and "length (de_bytes (Seq 6 (record_items (asked ids as)))) < 65536"
  shows "\<exists>s'. sdp_fetch (sdp_transact mtu_of) (\<lambda>c. sdp_pdu 4 tid (attribute_params h maxBytes (Seq t' ids) c))
      split_attributes [0] [] s = Some (de_bytes (Seq 6 (record_items (asked ids as))), s') \<and> serves mtu_of svs s'"
proof -
  have "length (selected ids as) < 65536" using assms(5) by (simp add: selected_asked)
  then have "attributes_remaining svs h ids [0] (attributes_left (selected ids as) 0)"
    using assms(2) unfolding attributes_remaining_def by (intro exI [of _ t] exI [of _ as] exI [of _ 0]) (simp add: attribute_continuation_def)
  with ar.fetch_all [where tid = tid and h = h and t' = t' and ids = ids and maxBytes = maxBytes and acc = "[]"] assms(1,3,4)
  show ?thesis unfolding selected_asked attributes_left_start by fastforce
qed

text \<open>Two services in the registry; the client's MTU is the smallest allowed.\<close>

definition example_registry :: "service list" where
  "example_registry = [(0x10001, 6, example_services), (0x10002, 5, [(0, Item 1 2 [0, 1, 0, 2]), (1, Seq 5 [Item 3 1 [0x12, 0]])])]"

definition example_sdp_server :: sdp_server where
  "example_sdp_server = \<lparr> sdp_nodes = [10 \<mapsto> 20, 20 \<mapsto> 30, 30 \<mapsto> 0, 40 \<mapsto> 0],
     sdp_items = [20 \<mapsto> item_of (0x10001, 6, example_services),
       30 \<mapsto> item_of (0x10002, 5, [(0, Item 1 2 [0, 1, 0, 2]), (1, Seq 5 [Item 3 1 [0x12, 0]])])],
     sdp_service_records = 10, service_record_item_pool = 40, sdp_next_service_record_handle = 0x10001,
     sdp_response_buffer = replicate 60 0, l2cap_cid = 0x41, sdp_response_size = 0, sdp_calls = [] \<rparr>"

lemma example_serves_sdp: "serves (\<lambda>_. 48) example_registry example_sdp_server"
proof -
  have "registered example_sdp_server (map item_of example_registry)"
    unfolding registered_def
    by (rule exI [of _ "[20, 30]"]) (simp add: example_sdp_server_def example_registry_def NULL_def del: item_of.simps)
  moreover have "list_all service_ok example_registry"
    using example_record_ok
    by (simp add: example_registry_def size_fits_def header_length_def del: de_ok.simps(2))
      (simp add: size_fits_def header_length_def)
  ultimately show ?thesis by (simp add: serves_def) (simp add: example_sdp_server_def example_registry_def)
qed

theorem sdp_attribute_exchange_witness:
  "\<exists>s'. sdp_fetch (sdp_transact (\<lambda>_. 48))
      (\<lambda>c. sdp_pdu 4 1 (attribute_params 0x10001 10 (Seq 5 [Item 1 2 [0, 1, 0, 5]]) c)) split_attributes [0] [] example_sdp_server
    = Some ([0x36, 0, 25, 0x09, 0, 1, 0x35, 3, 0x19, 0x11, 1, 0x09, 0, 4, 0x35, 12, 0x35, 3, 0x19, 1, 0, 0x35, 5, 0x19, 0, 3, 8, 1], s')"
proof -
  have a: "asked [Item 1 2 [0, 1, 0, 5]] example_services
      = [(1, Seq 5 [Item 3 1 [0x11, 1]]), (4, Seq 5 [Seq 5 [Item 3 1 [1, 0]], Seq 5 [Item 3 1 [0, 3], Item 1 0 [1]]])]"
    by (simp add: asked_def example_services_def u16_be_def)
  have b: "de_bytes (Seq 6 (record_items (asked [Item 1 2 [0, 1, 0, 5]] example_services)))
    = [0x36, 0, 25, 0x09, 0, 1, 0x35, 3, 0x19, 0x11, 1, 0x09, 0, 4, 0x35, 12, 0x35, 3, 0x19, 1, 0, 0x35, 5, 0x19, 0, 3, 8, 1]"
    unfolding a by (simp add: de_header_def de_length_def be_16_def)
  have m: "map_of example_registry 0x10001 = Some (6, example_services)" by (simp add: example_registry_def)
  have q: "sequence_ok 5 [Item 1 2 [0, 1, 0, 5]]" by (simp add: sequence_ok_def size_fits_def header_length_def)
  show ?thesis
    using sdp_attribute_exchange [OF example_serves_sdp m q, of 10 1] unfolding b by auto
qed

text \<open>C4: Searching for services and reading their attributes at once.  A client that sends a service search attribute
  request and repeats it with the continuation state of each response gets, put together, the encoding of a sequence
  with, for each registered record that matches the search pattern, the sequence of the attributes it asked for.  The
  server splits the answer inside records and between them, whatever fits; again this holds for every number of bytes
  per response from 7 on and every MTU from 48 on, the exchange ends and no response is longer than the MTU.\<close>

theorem sdp_search_attribute_exchange:
  assumes "serves mtu_of svs s" and "sequence_ok t' ids" and "sequence_ok tp ps" and "7 \<le> maxBytes"
    and "length (de_bytes (Seq 6 (map (reply_for ids) (filter (matches_service ps) svs)))) < 65536"
  shows "\<exists>s'. sdp_fetch (sdp_transact mtu_of) (\<lambda>c. sdp_pdu 6 tid (lists_params (Seq tp ps) maxBytes (Seq t' ids) c))
      split_attributes [0] [] s
    = Some (de_bytes (Seq 6 (map (reply_for ids) (filter (matches_service ps) svs))), s') \<and> serves mtu_of svs s'"
proof -
  have l: "length (lists_left ids ps svs 0) < 65536" using assms(5) by (simp add: lists_left_reply)
  have "lists_remaining svs ids ps [0] (answer_left ids ps svs 0 0)"
    unfolding lists_remaining_def by (intro exI [of _ 0]) (simp add: lists_continuation_def)
  with al.fetch_all [where tid = tid and t' = t' and tp = tp and maxBytes = maxBytes and acc = "[]"] assms(1-4) l
  show ?thesis
    unfolding answer_left_def lists_left_reply attributes_left_start by fastforce
qed

theorem sdp_search_attribute_exchange_witness:
  "\<exists>s'. sdp_fetch (sdp_transact (\<lambda>_. 48))
      (\<lambda>c. sdp_pdu 6 1 (lists_params (Seq 5 [Item 3 1 [0x12, 0]]) 10 (Seq 5 [Item 1 1 [0, 0]]) c)) split_attributes [0] [] example_sdp_server
    = Some ([0x36, 0, 11, 0x36, 0, 8, 0x09, 0, 0, 0x0a, 0, 1, 0, 2], s')"
proof -
  let ?ids = "[Item 1 1 [0, 0]]" and ?ps = "[Item 3 1 [0x12, 0]]"
  have f: "filter (matches_service ?ps) example_registry = [(0x10002, 5, [(0, Item 1 2 [0, 1, 0, 2]), (1, Seq 5 [Item 3 1 [0x12, 0]])])]"
    by (simp add: example_registry_def example_services_def bluetooth_base_uuid_def)
  have b: "de_bytes (Seq 6 (map (reply_for ?ids) (filter (matches_service ?ps) example_registry)))
    = [0x36, 0, 11, 0x36, 0, 8, 0x09, 0, 0, 0x0a, 0, 1, 0, 2]"
    unfolding f by (simp add: asked_def u16_be_def de_header_def de_length_def be_16_def)
  have q: "sequence_ok 5 ?ids" "sequence_ok 5 ?ps" by (simp_all add: sequence_ok_def size_fits_def header_length_def)
  show ?thesis
    using sdp_search_attribute_exchange [OF example_serves_sdp q, of 10 1] unfolding b by auto
qed

end
