(* ===== verification/Sdp_Handles.thy ===== *)
theory Sdp_Handles
  imports Sdp_Exchange
begin

text \<open>
  The exchange of a client that searches for services: the handles of the registered records that match.
\<close>

section \<open>The loop over the records\<close>

text \<open>The handles that are left when \<open>n\<close> of at most \<open>lim\<close> are already sent.\<close>

definition handles_left :: "de list \<Rightarrow> nat \<Rightarrow> nat \<Rightarrow> service list \<Rightarrow> buffer" where
  "handles_left ps lim n svs = concat (map (\<lambda>sv. be_32 (fst sv)) (take (lim - n) (filter (matches_service ps) svs)))"

definition matching :: "de list \<Rightarrow> nat \<Rightarrow> service list \<Rightarrow> nat" where
  "matching ps n svs = length (filter (matches_service ps) (take n svs))"

definition search_at :: "buffer \<Rightarrow> buffer \<Rightarrow> buffer \<Rightarrow> nat \<Rightarrow> nat \<Rightarrow> nat \<Rightarrow> bool \<Rightarrow> nat \<Rightarrow> service_search" where
  "search_at b0 out js count j found continued next_index =
     \<lparr> ss_buffer = b0 @ out @ js, ss_pos = of_nat (9 + length out), ss_current_service_count = of_nat count,
       ss_current_service_index = of_nat j, ss_matching_service_count = of_nat found, ss_continuation = continued,
       ss_continuation_index = of_nat next_index \<rparr>"

abbreviation next_service :: "service_search \<Rightarrow> service_search" where
  "next_service \<equiv> (\<lambda>c. c\<lparr> ss_current_service_index := ss_current_service_index c + 1 \<rparr>)"

lemma next_search_at: "next_service (search_at b0 out js n j k continued ci) = search_at b0 out js n (Suc j) k continued ci"
  by (simp add: search_at_def add.commute)

lemma store_handle:
  assumes "length b0 = 9" and "4 \<le> length js" and "length (b0 @ out @ js) < 65536"
  shows "big_endian_store_32 (b0 @ out @ js) (of_nat (9 + length out)) v = Some (b0 @ (out @ be_32 v) @ drop 4 js)"
proof -
  obtain a b c d js' where js: "js = a # b # c # d # js'"
    using assms(2) by (auto simp: Suc_le_length_iff numeral_eq_Suc)
  have u: "unat (of_nat (9 + length out) :: u16) = length (b0 @ out)" using assms by (subst unat_of_nat_u16) simp_all
  show ?thesis using store_32_at [OF u, of a b c d js' v] assms(3) by (simp add: js)
qed

lemma search_body_skipped:
  assumes "service_ok sv" and "de_ok (Seq tp ps)" and "j < 65536" and "ci < 65536" and "j < ci \<or> \<not> matches_service ps sv"
  shows "search_body (de_bytes (Seq tp ps) @ rest) lim maxN (item_of sv) (search_at b0 out js n j k False ci)
    = Some (True, search_at b0 out js n j (if matches_service ps sv then Suc k else k) False ci)"
proof -
  have "(of_nat j :: u16) < of_nat ci \<longleftrightarrow> j < ci" using assms(3,4) by (simp add: word_less_nat_alt unat_of_nat_u16)
  then show ?thesis
    using assms(5) match_record [OF assms(1,2), of rest]
    by (auto simp: search_body_def search_at_def add.commute simp del: de_bytes.simps matches_service.simps)
qed

lemma search_body_found:
  assumes "service_ok sv" and "de_ok (Seq tp ps)" and "j + 1 < 65536" and "ci \<le> j" and "matches_service ps sv"
    and b: "length b0 = 9" "4 \<le> length js" "length (b0 @ out @ js) < 65536"
    and bounds: "Suc k < 65536" "lim < 65536" "Suc n < 65536" "maxN < 65536"
    and out': "out' = out @ be_32 (fst sv)" "js' = drop 4 js"
  shows "search_body (de_bytes (Seq tp ps) @ rest) (of_nat lim) (of_nat maxN) (item_of sv) (search_at b0 out js n j k False ci)
    = Some (if lim \<le> Suc k then (False, search_at b0 out' js' (Suc n) j (Suc k) False ci)
        else if maxN \<le> Suc n then (False, search_at b0 out' js' (Suc n) j (Suc k) True (Suc j))
        else (True, search_at b0 out' js' (Suc n) j (Suc k) False ci))"
proof -
  have le: "(of_nat a :: u16) \<le> of_nat b \<longleftrightarrow> a \<le> b" if "a < 65536" "b < 65536" for a b
    using that by (simp add: word_le_nat_alt unat_of_nat_u16)
  have j: "\<not> (of_nat j :: u16) < of_nat ci" using le [of ci j] assms(3,4) by (simp add: not_less)
  have s: "(of_nat a + 1 :: u16) = of_nat (Suc a)" for a by simp
  have h: "service_record_handle (item_of sv) = fst sv" by (cases sv) simp
  have p: "(of_nat (9 + length out) + 4 :: u16) = of_nat (9 + length (out @ be_32 (fst sv)))" by simp
  show ?thesis
    unfolding search_body_def match_record [OF assms(1,2)] search_at_def
    using assms(5) j store_handle [OF b] le [OF bounds(2,1)] le [OF bounds(4,3)]
    by (simp only: Let_def Option.bind.bind_lunit if_True if_False one_neq_zero service_search.simps s p h out')
      (simp del: matches_service.simps)
qed


lemma search_walk:
  assumes "list_all service_ok svs" and ok: "de_ok (Seq tp ps)"
    and b: "length b0 = 9" "4 * (maxN - n) + 3 \<le> length js" "length (b0 @ out @ js) < 65536"
    and ix: "ci < 65536" "j + length svs < 65536" "k + length svs < 65536"
    and bounds: "n < maxN" "maxN < 65536" "lim < 65536"
    and more: "filter (matches_service ps) svs = [] \<or> k + matching ps (ci - j) svs < lim"
  shows "\<exists>part n' j' k' continued ci'.
      walk (search_body (de_bytes (Seq tp ps) @ rest) (of_nat lim) (of_nat maxN)) next_service (map item_of svs)
        (search_at b0 out js n j k False ci)
      = Some (search_at b0 (out @ part) (drop (length part) js) n' j' k' continued ci')
    \<and> n \<le> n' \<and> n' \<le> maxN \<and> length part = 4 * (n' - n)
    \<and> (if continued
       then handles_left ps lim (k + matching ps (ci - j) svs) (drop (ci - j) svs)
           = part @ handles_left ps lim (k + matching ps (ci' - j) svs) (drop (ci' - j) svs)
         \<and> j < ci' \<and> ci' < 65536 \<and> part \<noteq> [] \<and> k + matching ps (ci' - j) svs < lim
       else handles_left ps lim (k + matching ps (ci - j) svs) (drop (ci - j) svs) = part)"
  using assms
proof (induction svs arbitrary: out js n j k)
  case Nil
  show ?case
    by (rule exI [of _ "[]"], rule exI [of _ n], rule exI [of _ j], rule exI [of _ k], rule exI [of _ False], rule exI [of _ ci])
      (use Nil.prems in \<open>simp add: handles_left_def\<close>)
next
  case (Cons sv svs)
  let ?body = "search_body (de_bytes (Seq tp ps) @ rest) (of_nat lim) (of_nat maxN)"
  let ?c = "search_at b0 out js n j k False ci"
  have okr: "service_ok sv" "list_all service_ok svs" using Cons.prems(1) by simp_all
  have j: "j < 65536" "j + 1 < 65536" "Suc j + length svs < 65536" using Cons.prems(7) by simp_all
  note IH = Cons.IH [OF okr(2) ok b(1) _ _ ix(1) j(3)]
  have d: "drop (ci' - j) (sv # svs) = drop (ci' - Suc j) svs"
    and mt: "matching ps (ci' - j) (sv # svs) = (if matches_service ps sv then 1 else 0) + matching ps (ci' - Suc j) svs"
    if "j < ci'" for ci' using that by (simp_all add: matching_def Suc_diff_Suc [symmetric] del: matches_service.simps)
  show ?case
  proof (cases "j < ci \<or> \<not> matches_service ps sv")
    case True
    let ?k = "if matches_service ps sv then Suc k else k"
    have go: "?body (item_of sv) ?c = Some (True, search_at b0 out js n j ?k False ci)"
      by (rule search_body_skipped [OF okr(1) ok j(1) ix(1) True])
    have same: "k + matching ps (ci - j) (sv # svs) = ?k + matching ps (ci - Suc j) svs"
      "handles_left ps lim x (drop (ci - j) (sv # svs)) = handles_left ps lim x (drop (ci - Suc j) svs)" for x
      using True d [of ci] mt [of ci] by (cases "j < ci"; simp add: handles_left_def matching_def del: matches_service.simps)+
    have "?k + length svs < 65536" using Cons.prems(8) by (simp del: matches_service.simps)
    moreover have "filter (matches_service ps) svs = [] \<or> ?k + matching ps (ci - Suc j) svs < lim"
      using Cons.prems(12) unfolding same(1) by (auto simp del: matches_service.simps split: if_splits)
    ultimately obtain part n' j' k' continued ci' where w:
      "walk ?body next_service (map item_of svs) (search_at b0 out js n (Suc j) ?k False ci)
        = Some (search_at b0 (out @ part) (drop (length part) js) n' j' k' continued ci')"
      "n \<le> n' \<and> n' \<le> maxN \<and> length part = 4 * (n' - n)"
      "if continued
       then handles_left ps lim (?k + matching ps (ci - Suc j) svs) (drop (ci - Suc j) svs)
           = part @ handles_left ps lim (?k + matching ps (ci' - Suc j) svs) (drop (ci' - Suc j) svs)
         \<and> Suc j < ci' \<and> ci' < 65536 \<and> part \<noteq> [] \<and> ?k + matching ps (ci' - Suc j) svs < lim
       else handles_left ps lim (?k + matching ps (ci - Suc j) svs) (drop (ci - Suc j) svs) = part"
      using IH [OF Cons.prems(4,5) _ Cons.prems(9-11)] by blast
    have "?k + matching ps (ci' - Suc j) svs = k + matching ps (ci' - j) (sv # svs)" if "Suc j < ci'"
      using mt [of ci'] that by (simp del: matches_service.simps)
    then show ?thesis
      using w(2,3) d [of ci']
      by - (rule exI [of _ part], rule exI [of _ n'], rule exI [of _ j'], rule exI [of _ k'], rule exI [of _ continued], rule exI [of _ ci'],
          unfold same, use w(1) go in \<open>cases continued; simp add: next_search_at del: matches_service.simps\<close>)
  next
    case False
    then have cj: "ci \<le> j" and m: "matches_service ps sv" by auto
    define out' where "out' = out @ be_32 (fst sv)"
    define js' where "js' = drop 4 js"
    have k: "k < lim" using Cons.prems(12) m cj by (simp add: matching_def del: matches_service.simps)
    have l4: "4 \<le> length js" "Suc k < 65536" "Suc n < 65536" using Cons.prems(4,8,9,10) by simp_all
    have step: "?body (item_of sv) ?c = Some (if lim \<le> Suc k then (False, search_at b0 out' js' (Suc n) j (Suc k) False ci)
        else if maxN \<le> Suc n then (False, search_at b0 out' js' (Suc n) j (Suc k) True (Suc j))
        else (True, search_at b0 out' js' (Suc n) j (Suc k) False ci))"
      by (rule search_body_found [OF okr(1) ok j(2) cj m b(1) l4(1) Cons.prems(5) l4(2) Cons.prems(11) l4(3) Cons.prems(10)
          out'_def js'_def])
    have L: "handles_left ps lim (k + matching ps (ci - j) (sv # svs)) (drop (ci - j) (sv # svs))
        = be_32 (fst sv) @ handles_left ps lim (Suc k) svs"
      using m cj k by (simp add: handles_left_def matching_def Suc_diff_Suc [symmetric] del: matches_service.simps)
    consider (stop) "lim \<le> Suc k" | (full) "\<not> lim \<le> Suc k" "maxN \<le> Suc n" | (on) "\<not> lim \<le> Suc k" "\<not> maxN \<le> Suc n" by blast
    then show ?thesis
    proof cases
      case stop
      have w: "walk ?body next_service (map item_of (sv # svs)) ?c
          = Some (search_at b0 (out @ be_32 (fst sv)) (drop (length (be_32 (fst sv))) js) (Suc n) j (Suc k) False ci)"
        using step stop by (simp add: out'_def js'_def)
      show ?thesis
        by (rule exI [of _ "be_32 (fst sv)"], rule exI [of _ "Suc n"], rule exI [of _ j], rule exI [of _ "Suc k"], rule exI [of _ False],
          rule exI [of _ ci], rule conjI, rule w) (use stop L bounds(1) Cons.prems(9) in \<open>simp add: handles_left_def\<close>)
    next
      case full
      have w: "walk ?body next_service (map item_of (sv # svs)) ?c
          = Some (search_at b0 (out @ be_32 (fst sv)) (drop (length (be_32 (fst sv))) js) (Suc n) j (Suc k) True (Suc j))"
        using step full by (simp add: out'_def js'_def)
      have "be_32 (fst sv) \<noteq> []" by (simp add: be_32_def)
      then show ?thesis
        by - (rule exI [of _ "be_32 (fst sv)"], rule exI [of _ "Suc n"], rule exI [of _ j], rule exI [of _ "Suc k"], rule exI [of _ True],
          rule exI [of _ "Suc j"], rule conjI, rule w,
          use full L Cons.prems(9) m j in \<open>simp add: matching_def del: matches_service.simps\<close>)
    next
      case on
      have bs: "4 * (maxN - Suc n) + 3 \<le> length js'" "length (b0 @ out' @ js') < 65536" "Suc k + length svs < 65536" "Suc n < maxN"
        using Cons.prems(4,5,8) on l4(1) by (simp_all add: js'_def out'_def)
      have i0: "ci - Suc j = 0" using cj by simp
      have "filter (matches_service ps) svs = [] \<or> Suc k + matching ps (ci - Suc j) svs < lim" using on by (simp add: i0 matching_def)
      from IH [OF bs(1-3,4) Cons.prems(10,11) this] obtain part n' j' k' continued ci' where w:
        "walk ?body next_service (map item_of svs) (search_at b0 out' js' (Suc n) (Suc j) (Suc k) False ci)
          = Some (search_at b0 (out' @ part) (drop (length part) js') n' j' k' continued ci')"
        "Suc n \<le> n' \<and> n' \<le> maxN \<and> length part = 4 * (n' - Suc n)"
        "if continued
         then handles_left ps lim (Suc k + matching ps (ci - Suc j) svs) (drop (ci - Suc j) svs)
             = part @ handles_left ps lim (Suc k + matching ps (ci' - Suc j) svs) (drop (ci' - Suc j) svs)
           \<and> Suc j < ci' \<and> ci' < 65536 \<and> part \<noteq> [] \<and> Suc k + matching ps (ci' - Suc j) svs < lim
         else handles_left ps lim (Suc k + matching ps (ci - Suc j) svs) (drop (ci - Suc j) svs) = part" by blast
      have dd: "drop (length part) js' = drop (length (be_32 (fst sv) @ part)) js" by (simp add: js'_def add.commute)
      have w': "walk ?body next_service (map item_of (sv # svs)) ?c
          = Some (search_at b0 (out @ be_32 (fst sv) @ part) (drop (length (be_32 (fst sv) @ part)) js) n' j' k' continued ci')"
        using step on w(1) [unfolded dd] by (simp add: next_search_at out'_def del: length_append)
      have mE: "k + matching ps (ci' - j) (sv # svs) = Suc k + matching ps (ci' - Suc j) svs" if "Suc j < ci'"
        using mt [of ci'] that m by (simp del: matches_service.simps)
      have e: "handles_left ps lim (Suc k) svs = handles_left ps lim (Suc k + matching ps (ci - Suc j) svs) (drop (ci - Suc j) svs)"
        by (simp add: i0 matching_def)
      have l: "n \<le> n' \<and> n' \<le> maxN \<and> length (be_32 (fst sv) @ part) = 4 * (n' - n)" using w(2) by auto
      have r: "if continued
         then be_32 (fst sv) @ handles_left ps lim (Suc k) svs = (be_32 (fst sv) @ part)
             @ handles_left ps lim (k + matching ps (ci' - j) (sv # svs)) (drop (ci' - j) (sv # svs))
           \<and> j < ci' \<and> ci' < 65536 \<and> be_32 (fst sv) @ part \<noteq> [] \<and> k + matching ps (ci' - j) (sv # svs) < lim
         else be_32 (fst sv) @ handles_left ps lim (Suc k) svs = be_32 (fst sv) @ part"
        using w(3) d [of ci'] mE unfolding e by (cases continued) (simp_all del: matches_service.simps)
      show ?thesis
        unfolding L using w' l r by blast
    qed
  qed
qed


section \<open>Responses\<close>

lemma handles_per_response:
  assumes "12 \<le> unat (mtu :: u16)"
  shows "(word_of_int ((uint mtu - (9 + 3)) sdiv 4) :: u16) = of_nat ((unat mtu - 12) div 4)"
proof -
  have "uint mtu - 12 = int (unat mtu - 12)" unfolding uint_nat using assms by linarith
  moreover have "int a sdiv 4 = int (a div 4)" for a by (simp add: signed_divide_int_def zdiv_int sgn_if)
  ultimately show ?thesis by simp
qed

definition handles_response :: "u16 \<Rightarrow> nat \<Rightarrow> buffer \<Rightarrow> buffer \<Rightarrow> buffer" where
  "handles_response transaction_id lim part continuation =
     sdp_pdu 3 transaction_id (be_16 (of_nat lim) @ be_16 (of_nat (length part div 4)) @ part @ continuation)"

definition split_handles :: "buffer \<Rightarrow> (buffer \<times> buffer) option" where
  "split_handles response = do {
     n \<leftarrow> read_u16 response 7;
     part \<leftarrow> rd_range response 9 (4 * unat n);
     Some (part, drop (9 + 4 * unat n) response) }"

lemma split_handles_response:
  assumes "length part = 4 * n" and "n < 65536"
  shows "split_handles (handles_response tid lim part c) = Some (part, c)"
proof -
  define h where "h = [3] @ be_16 tid @ be_16 (of_nat (length (be_16 (of_nat lim) @ be_16 (of_nat n) @ part @ c))) @ be_16 (of_nat lim)"
  have a: "handles_response tid lim part c = h @ be_16 (of_nat n) @ part @ c"
    by (simp add: handles_response_def sdp_pdu_def h_def assms(1))
  have h: "length h = 7" by (simp add: h_def)
  show ?thesis
    unfolding a split_handles_def read_u16_at [OF h]
    using assms h by (cases "n = 0") (simp_all add: unat_of_nat_u16 rd_range_def)
qed

definition handles_limit :: "de list \<Rightarrow> u16 \<Rightarrow> service list \<Rightarrow> nat" where
  "handles_limit ps maxCount svs = min (length (filter (matches_service ps) svs)) (unat maxCount)"

lemma two_elements: "length xs = 2 \<Longrightarrow> \<exists>x y. xs = [x, y]"
  by (auto simp: numeral_2_eq_2 length_Suc_conv)

lemma search_response:
  assumes s: "serves mtu_of svs s" and ok: "de_ok (Seq tp ps)" and mx: "1 \<le> unat maxCount"
    and lim: "lim = handles_limit ps maxCount svs"
    and ix: "i < 65536" "i = 0 \<or> matching ps i svs < lim"
    and mtu: "48 \<le> unat mtu" "unat mtu \<le> length (sdp_response_buffer s)"
  shows "\<exists>part n c. service_search_response s tid (de_bytes (Seq tp ps) @ rest) maxCount mtu (of_nat i)
        = Some (of_nat (length (handles_response tid lim part c)), s\<lparr> sdp_response_buffer := handles_response tid lim part c
            @ drop (length (handles_response tid lim part c)) (sdp_response_buffer s) \<rparr>)
    \<and> length part = 4 * n \<and> n \<le> (unat mtu - 12) div 4 \<and> length c \<le> 3
    \<and> (if c = [0] then handles_left ps lim (matching ps i svs) (drop i svs) = part
       else part \<noteq> [] \<and> (\<exists>i'. c = attribute_continuation i' \<and> i' < 65536 \<and> matching ps i' svs < lim
         \<and> handles_left ps lim (matching ps i svs) (drop i svs) = part @ handles_left ps lim (matching ps i' svs) (drop i' svs)))"
proof -
  define b where "b = sdp_response_buffer s"
  define maxN where "maxN = (unat mtu - 12) div 4"
  have "maxN \<le> unat mtu" unfolding maxN_def by arith
  then have maxN: "0 < maxN" "4 * maxN + 12 \<le> length b" "maxN < 65536"
    using mtu le_less_trans [OF _ unat_u16_less [of mtu]] by (simp_all add: maxN_def b_def)
  have reg: "registered s (map item_of svs)" and okr: "list_all service_ok svs" and lsv: "0 + length svs < 65536"
    and lb: "length b < 65536" using s by (simp_all add: serves_def b_def)
  obtain xs where xs: "chain (sdp_nodes s) (sdp_service_records s) xs" "map (sdp_items s) xs = map Some (map item_of svs)"
    using reg by (auto simp: registered_def)
  obtain it where it: "sdp_nodes s (sdp_service_records s) = Some it" using chain_first [OF xs(1)] by blast
  let ?pat = "de_bytes (Seq tp ps) @ rest" and ?H = "filter (matches_service ps) svs"
  define m where "m r = (sdp_record_matches_service_search_pattern (service_record r) ?pat = Some 1)" for r :: service_record_item
  have m: "m (item_of sv) = matches_service ps sv"
    "sdp_record_matches_service_search_pattern (service_record (item_of sv)) ?pat = Some (if matches_service ps sv then 1 else 0)"
    if "sv \<in> set svs" for sv
    using match_record [OF _ ok, of sv rest] that okr by (auto simp: m_def list_all_iff)
  have "total_from s ?pat it 0 = Some (0 + of_nat (length (filter m (map item_of svs))))"
    by (rule total_from_walk [OF xs(1) it xs(2)]) (auto simp: m simp del: matches_service.simps item_of.simps de_bytes.simps)
  moreover have "length (filter m (map item_of svs)) = length ?H" using m(1) by (induction svs) auto
  ultimately have tot: "total_from s ?pat it 0 = Some (of_nat (length ?H))" by simp
  have lH: "length ?H < 65536" using le_less_trans [OF length_filter_le] lsv by simp
  then have lim': "(if (of_nat (length ?H) :: u16) > maxCount then maxCount else of_nat (length ?H)) = of_nat lim" "lim < 65536"
    by (auto simp: lim handles_limit_def word_less_nat_alt unat_of_nat_u16 min_def)
  have more: "?H = [] \<or> 0 + matching ps (i - 0) svs < lim"
    using ix(2) mx by (auto simp: lim handles_limit_def matching_def)
  have l9: "length (take 9 b) = 9" and r: "4 * (maxN - 0) + 3 \<le> length (drop 9 b)" "length (take 9 b @ [] @ drop 9 b) < 65536"
    using maxN lb by simp_all
  obtain part n j' k' continued ci' where w:
    "walk (search_body ?pat (of_nat lim) (of_nat maxN)) next_service (map item_of svs) (search_at (take 9 b) [] (drop 9 b) 0 0 0 False i)
      = Some (search_at (take 9 b) ([] @ part) (drop (length part) (drop 9 b)) n j' k' continued ci')"
    "n \<le> maxN" "length part = 4 * (n - 0)"
    "if continued
       then handles_left ps lim (0 + matching ps (i - 0) svs) (drop (i - 0) svs)
           = part @ handles_left ps lim (0 + matching ps (ci' - 0) svs) (drop (ci' - 0) svs)
         \<and> 0 < ci' \<and> ci' < 65536 \<and> part \<noteq> [] \<and> 0 + matching ps (ci' - 0) svs < lim
       else handles_left ps lim (0 + matching ps (i - 0) svs) (drop (i - 0) svs) = part"
    using search_walk [OF okr ok l9 r ix(1) lsv lsv maxN(1,3) lim'(2) more, of rest] by blast
  define c where "c = (if continued then 2 # be_16 (of_nat ci') else [0])"
  define R where "R = handles_response tid lim part c"
  let ?c = "search_at (take 9 b) part (drop (9 + length part) b) n j' k' continued ci'"
  have w1: "search_from s (search_body ?pat (of_nat lim) (of_nat maxN)) it
      \<lparr> ss_buffer = b, ss_pos = 9, ss_current_service_count = 0, ss_current_service_index = 0,
        ss_matching_service_count = 0, ss_continuation = False, ss_continuation_index = of_nat i \<rparr> = Some ?c"
  proof -
    have "\<lparr> ss_buffer = b, ss_pos = 9, ss_current_service_count = 0, ss_current_service_index = 0,
        ss_matching_service_count = 0, ss_continuation = False, ss_continuation_index = of_nat i \<rparr>
      = search_at (take 9 b) [] (drop 9 b) 0 0 0 False i" by (simp add: search_at_def)
    then show ?thesis using search_from_walk [OF xs(1) it xs(2)] w(1) by (simp add: add.commute del: de_bytes.simps)
  qed
  have lp: "length part = 4 * n" using w(3) by simp
  have js: "3 \<le> length (drop (9 + length part) b)" and l16: "12 + length part < 65536"
    using maxN w(2) lp lb by simp_all
  have lr: "length R = 9 + length part + length c" by (simp add: R_def handles_response_def sdp_pdu_def)
  let ?xs = "drop 7 (take 9 b) @ part"
  have b7: "length (take 7 b) = 7" and tk: "take 9 b = take 7 b @ drop 7 (take 9 b)" "length (drop 7 (take 9 b)) = 2"
    using maxN(2) by (simp_all add: drop_take flip: take_add)
  have lxs: "length ?xs = 2 + length part" using tk(2) by simp
  have bx: "take 9 b @ part @ drop (9 + length part) b = take 7 b @ ?xs @ drop (9 + length part) b"
    using tk(1) by (metis append_assoc)
  have pos: "unat (of_nat (9 + length part) :: u16) = 7 + length ?xs"
    using l16 lxs by (subst unat_of_nat_u16) simp_all
  have ends: "(if ss_continuation ?c then do {
          buf \<leftarrow> wr (ss_buffer ?c) (unat (ss_pos ?c)) 2;
          buf \<leftarrow> big_endian_store_16 buf (ss_pos ?c + 1) (ss_continuation_index ?c);
          Some (buf, ss_pos ?c + 1 + 2) }
        else do { buf \<leftarrow> wr (ss_buffer ?c) (unat (ss_pos ?c)) 0; Some (buf, ss_pos ?c + 1) })
      = Some (take 7 b @ ?xs @ c @ drop (length R) b, of_nat (length R))"
  proof (cases continued)
    case False
    then show ?thesis using end_of_answer [OF b7 pos, of "drop (9 + length part) b"] js lxs
      unfolding search_at_def service_search.simps bx by (simp add: c_def lr add.commute)
  next
    case True
    have "(of_nat (9 + length part) + 3 :: u16) = of_nat (length R)" using True by (simp add: c_def lr)
    then show ?thesis using continuation_of_answer [OF b7 pos js, of "of_nat ci'"] True l16 lxs
      unfolding search_at_def service_search.simps bx by (simp add: c_def lr add.commute add.left_commute)
  qed
  obtain x y where xy: "drop 7 (take 9 b) = [x, y]" using two_elements [OF tk(2)] by blast
  let ?hd = "[3] @ be_16 tid @ be_16 (of_nat (length R) - 5) @ be_16 (of_nat lim)"
  have st7: "big_endian_store_16 (?hd @ (?xs @ c @ drop (length R) b)) 7 (of_nat n) = Some (?hd @ be_16 (of_nat n) @ part @ c @ drop (length R) b)"
    unfolding xy using store_16_at [of 7 ?hd x y "part @ c @ drop (length R) b" "of_nat n"] by simp
  have n5: "(of_nat (length R) - 5 :: u16) = of_nat (length (be_16 (of_nat lim) @ be_16 (of_nat n) @ part @ c))" by (simp add: lr)
  have RR: "?hd @ be_16 (of_nat n) @ part @ c @ drop (length R) b = R @ drop (length R) b"
    unfolding n5 by (simp add: R_def handles_response_def sdp_pdu_def lp)
  have cnt: "ss_current_service_count ?c = of_nat n" by (simp add: search_at_def)
  have "service_search_response s tid ?pat maxCount mtu (of_nat i) = Some (of_nat (length R), s\<lparr> sdp_response_buffer := R @ drop (length R) b \<rparr>)"
    unfolding service_search_response_def Let_def it Option.bind.bind_lunit tot lim'(1)
      handles_per_response [OF order.trans [OF _ mtu(1), of 12, simplified]] maxN_def [symmetric] b_def [symmetric] w1 ends prod.case
    by (simp only: header_stores_then [OF b7] append_assoc cnt st7 [unfolded append_assoc] RR [unfolded append_assoc] Option.bind.bind_lunit)
  moreover have "if c = [0] then handles_left ps lim (matching ps i svs) (drop i svs) = part
       else part \<noteq> [] \<and> (\<exists>i'. c = attribute_continuation i' \<and> i' < 65536 \<and> matching ps i' svs < lim
         \<and> handles_left ps lim (matching ps i svs) (drop i svs) = part @ handles_left ps lim (matching ps i' svs) (drop i' svs))"
    using w(4) by (cases continued) (auto simp: c_def attribute_continuation_def)
  moreover have "length c \<le> 3" by (simp add: c_def)
  ultimately show ?thesis using lp w(2) unfolding R_def b_def maxN_def by blast
qed


section \<open>The exchange\<close>

definition search_params :: "de \<Rightarrow> u16 \<Rightarrow> buffer \<Rightarrow> buffer" where
  "search_params pat maxCount continuation = de_bytes pat @ be_16 maxCount @ continuation"

lemma handle_search_request:
  assumes ok: "de_ok pat" and ix: "i < 65536" and "length (de_bytes pat) + 16 < 65536"
  shows "sdp_handle_service_search_request s (sdp_pdu 2 tid (search_params pat maxCount (attribute_continuation i))) mtu
    = service_search_response s tid (de_bytes pat @ be_16 maxCount @ attribute_continuation i) maxCount mtu (of_nat i)"
proof -
  define c where "c = attribute_continuation i"
  define P where "P = search_params pat maxCount c"
  define k where "k = length (de_bytes pat)"
  obtain cl where c: "rd c 0 = Some cl" "length c = 1 + unat cl" "(if cl = 2 then read_u16 c 1 else Some 0) = Some (of_nat i)"
    using attribute_continuation_read [OF ix] unfolding c_def by blast
  have lc: "1 \<le> length c" "length c \<le> 3" by (simp_all add: c_def attribute_continuation_def)
  have lP: "length P = k + (2 + length c)" by (simp add: P_def search_params_def k_def)
  have l: "k + (2 + length c) < 65531" using assms(3) lc(2) by (simp add: k_def)
  define hd where "hd = [2] @ be_16 tid @ be_16 (of_nat (length P))"
  have hd: "length hd = 5" by (simp add: hd_def)
  have p: "sdp_pdu 2 tid P = hd @ de_bytes pat @ be_16 maxCount @ c" by (simp add: sdp_pdu_def P_def search_params_def hd_def)
  have un: "unat (of_nat k :: u16) = k" "unat (of_nat (2 + length c) :: u16) = 2 + length c"
    "unat (of_nat (length c) :: u16) = length c" "unat (of_nat (length P) :: u16) = length P"
    unfolding lP by (rule unat_of_nat_u16, use l in simp)+
  have ui: "uint (of_nat k :: u16) = int k" using un(1) by (simp only: uint_nat)
  have d5: "ptr_add (sdp_pdu 2 tid P) 5 = Some (de_bytes pat @ be_16 maxCount @ c)" by (simp add: p hd ptr_add_def)
  have rmax: "read_u16 (sdp_pdu 2 tid P) (5 + k) = Some maxCount"
    using read_u16_at [of "hd @ de_bytes pat" "5 + k" maxCount c] by (simp add: p hd k_def)
  have dc: "ptr_add (sdp_pdu 2 tid P) (5 + int k + 2) = Some c"
    by (simp add: p hd ptr_add_def k_def nat_add_distrib)
  have pl: "(of_nat (length P) :: u16) - of_nat k = of_nat (2 + length c)" "(of_nat (2 + length c) :: u16) - 2 = of_nat (length c)"
    by (simp_all add: lP)
  have "0 < k" using de_bytes_pos [OF ok] by (simp add: k_def)
  then have nz: "(of_nat k :: u16) \<noteq> 0" using un(1) by (auto simp flip: unat_eq_zero)
  have g: "map_option to16 (de_get_len_safe (de_bytes pat @ be_16 maxCount @ c) (to32 (of_nat (length P) :: u16))) = Some (of_nat k)"
    using get_len_safe_u16 [OF ok, of "of_nat (length P)" "be_16 maxCount @ c"] un lP by (simp add: k_def [symmetric])
  have lts: "\<not> (of_nat (2 + length c) :: u16) < 2" "\<not> (of_nat (length c) :: u16) < 1" "\<not> length c < 1 + unat cl"
    unfolding word_less_nat_alt un(2,3) using lc(1) c(2) by simp_all
  show ?thesis
    unfolding c_def [symmetric] P_def [symmetric] sdp_handle_service_search_request_def sdp_pdu_head(2,3)
      Option.bind.bind_lunit Let_def d5 g un(1) ui rmax
    by (simp only: lts nz if_False Option.bind.bind_lunit rmax pl dc c(1,3) un)
qed

definition handles_remaining :: "service list \<Rightarrow> de list \<Rightarrow> nat \<Rightarrow> buffer \<Rightarrow> buffer \<Rightarrow> bool" where
  "handles_remaining svs ps lim c rest \<longleftrightarrow> (\<exists>i. i < 65536 \<and> (i = 0 \<or> matching ps i svs < lim)
     \<and> c = attribute_continuation i \<and> rest = handles_left ps lim (matching ps i svs) (drop i svs))"

lemma search_fragment:
  assumes s: "serves mtu_of svs s" and ps: "sequence_ok tp ps" and mx: "1 \<le> maxCount"
    and rem: "handles_remaining svs ps (handles_limit ps maxCount svs) c rest"
  shows "\<exists>r s' part c'. sdp_transact mtu_of s (sdp_pdu 2 tid (search_params (Seq tp ps) maxCount c)) = Some (r, s')
    \<and> serves mtu_of svs s' \<and> split_handles r = Some (part, c')
    \<and> (if c' = [0] then rest = part
       else part \<noteq> [] \<and> (\<exists>rest'. rest = part @ rest' \<and> handles_remaining svs ps (handles_limit ps maxCount svs) c' rest'))"
proof -
  let ?lim = "handles_limit ps maxCount svs"
  obtain i where r: "i < 65536" "i = 0 \<or> matching ps i svs < ?lim" "c = attribute_continuation i"
    "rest = handles_left ps ?lim (matching ps i svs) (drop i svs)" using rem by (auto simp: handles_remaining_def)
  define mtu where "mtu = remote_mtu mtu_of s"
  note mtu = remote_mtu_bounds [OF s, folded mtu_def]
  have ok: "de_ok (Seq tp ps)" and lens: "length (de_bytes (Seq tp ps)) + 16 < 65536" using ps by (auto simp: sequence_ok_def)
  have mx': "1 \<le> unat maxCount" using mx by (simp add: word_le_nat_alt)
  obtain part n c' where x: "service_search_response s tid (de_bytes (Seq tp ps) @ be_16 maxCount @ c) maxCount mtu (of_nat i)
      = Some (of_nat (length (handles_response tid ?lim part c')), s\<lparr> sdp_response_buffer := handles_response tid ?lim part c'
            @ drop (length (handles_response tid ?lim part c')) (sdp_response_buffer s) \<rparr>)"
    and lp: "length part = 4 * n" "n \<le> (unat mtu - 12) div 4" and lc: "length c' \<le> 3"
    and left: "if c' = [0] then handles_left ps ?lim (matching ps i svs) (drop i svs) = part
       else part \<noteq> [] \<and> (\<exists>i'. c' = attribute_continuation i' \<and> i' < 65536 \<and> matching ps i' svs < ?lim
         \<and> handles_left ps ?lim (matching ps i svs) (drop i svs) = part @ handles_left ps ?lim (matching ps i' svs) (drop i' svs))"
    using search_response [OF s ok mx' refl r(1,2) mtu(1,3)] by blast
  define rsp where "rsp = handles_response tid ?lim part c'"
  have h: "handle_pdu 2 s (sdp_pdu 2 tid (search_params (Seq tp ps) maxCount c)) (remote_mtu mtu_of s)
      = Some (of_nat (length rsp), s\<lparr> sdp_response_buffer := rsp @ drop (length rsp) (sdp_response_buffer s) \<rparr>)"
    using x unfolding r(3) mtu_def by (simp add: handle_pdu_def handle_search_request [OF ok r(1) lens] rsp_def del: de_bytes.simps)
  have lr: "length rsp = 9 + length part + length c'" by (simp add: rsp_def handles_response_def sdp_pdu_def)
  have n4: "4 * n + 12 \<le> unat mtu" using lp(2) mtu(1) by linarith
  have "length (search_params (Seq tp ps) maxCount c) + 5 < 65536"
    using lens by (simp add: search_params_def r(3) attribute_continuation_def del: de_bytes.simps)
  moreover have "rsp \<noteq> []" "length rsp \<le> unat (remote_mtu mtu_of s)"
    "length (rsp @ drop (length rsp) (sdp_response_buffer s)) = length (sdp_response_buffer s)"
    using lp(1) lc n4 mtu(3) unfolding lr mtu_def by (auto simp: rsp_def handles_response_def sdp_pdu_def)
  ultimately obtain s' where s': "sdp_transact mtu_of s (sdp_pdu 2 tid (search_params (Seq tp ps) maxCount c)) = Some (rsp, s')"
    "serves mtu_of svs s'" using transact_response [OF s _ _ h] by blast
  have sp: "split_handles rsp = Some (part, c')"
    unfolding rsp_def by (rule split_handles_response [OF lp(1)]) (use n4 unat_u16_less [of mtu] in linarith)
  have "if c' = [0] then rest = part
       else part \<noteq> [] \<and> (\<exists>rest'. rest = part @ rest' \<and> handles_remaining svs ps ?lim c' rest')"
    using left unfolding r(4) handles_remaining_def by (cases "c' = [0]") auto
  with s' sp show ?thesis by blast
qed

interpretation hs: fragmented_answer "sdp_transact mtu_of"
  "\<lambda>c. sdp_pdu 2 tid (search_params (Seq tp ps) maxCount c)" split_handles
  "\<lambda>s. serves mtu_of svs s \<and> sequence_ok tp ps \<and> 1 \<le> maxCount" "handles_remaining svs ps (handles_limit ps maxCount svs)"
  for mtu_of svs tid tp ps and maxCount :: u16
  by unfold_locales (use search_fragment in blast)

text \<open>C5: Searching for services.  A client that sends a service search request and repeats it with the continuation
  state of each response gets, put together, the handles of the registered records that match its search pattern, in
  the order of the registry, and of no others, up to the number it asked for.  This holds for every such number from 1
  on and every MTU from 48 on; the exchange ends and no response is longer than the MTU.\<close>

theorem sdp_search_exchange:
  assumes "serves mtu_of svs s" and "sequence_ok tp ps" and "1 \<le> maxCount"
  shows "\<exists>s'. sdp_fetch (sdp_transact mtu_of) (\<lambda>c. sdp_pdu 2 tid (search_params (Seq tp ps) maxCount c)) split_handles [0] [] s
    = Some (concat (map be_32 (take (unat maxCount) (map fst (filter (matches_service ps) svs)))), s') \<and> serves mtu_of svs s'"
proof -
  have "handles_remaining svs ps (handles_limit ps maxCount svs) [0] (handles_left ps (handles_limit ps maxCount svs) 0 svs)"
    unfolding handles_remaining_def by (intro exI [of _ 0]) (simp add: attribute_continuation_def matching_def)
  moreover have "handles_left ps (handles_limit ps maxCount svs) 0 svs
      = concat (map be_32 (take (unat maxCount) (map fst (filter (matches_service ps) svs))))"
    by (simp add: handles_left_def handles_limit_def take_map comp_def min_def del: matches_service.simps)
  ultimately show ?thesis
    using hs.fetch_all [where tid = tid and tp = tp and maxCount = maxCount and acc = "[]"] assms by fastforce
qed

text \<open>The pattern that asks for the second service of the example.\<close>

theorem sdp_search_exchange_witness:
  "\<exists>s'. sdp_fetch (sdp_transact (\<lambda>_. 48)) (\<lambda>c. sdp_pdu 2 1 (search_params (Seq 5 [Item 3 1 [0x12, 0]]) 5 c)) split_handles [0] []
     example_sdp_server = Some ([0, 1, 0, 2], s')"
proof -
  let ?ps = "[Item 3 1 [0x12, 0]]"
  have f: "filter (matches_service ?ps) example_registry = [(0x10002, 5, [(0, Item 1 2 [0, 1, 0, 2]), (1, Seq 5 [Item 3 1 [0x12, 0]])])]"
    by (simp add: example_registry_def example_services_def bluetooth_base_uuid_def)
  have q: "sequence_ok 5 ?ps" by (simp add: sequence_ok_def size_fits_def header_length_def)
  have "concat (map be_32 (take (unat (5 :: u16)) (map fst (filter (matches_service ?ps) example_registry)))) = [0, 1, 0, 2]"
    unfolding f by (simp add: be_32_def)
  then show ?thesis using sdp_search_exchange [OF example_serves_sdp q, of 5 1] by auto
qed

end
