(* ===== verification/Sdp_Registry.thy ===== *)
theory Sdp_Registry
  imports Sdp_Handles
begin

text \<open>
  The registry of the SDP server: the handle a record names, the state of the list and of the pool its blocks are from,
  registration, removal and lookup against a list of services (the locale \<open>service_registry\<close>), and new handles.
\<close>

section \<open>The handle of a record\<close>

lemma shift_in_byte: "push_bit 8 v OR to32 b = v * 256 + to32 b" for v :: u32 and b :: u8
proof -
  have "\<not> bit (push_bit 8 v) n \<or> \<not> bit (to32 b) n" for n
  proof (cases "n < 8")
    case True
    then show ?thesis by (simp only: bit_push_bit_iff) auto
  next
    case False
    then have "\<not> bit b n" using bit_imp_le_length [of b n] by auto
    then show ?thesis by (simp only: bit_unsigned_iff) auto
  qed
  then have "push_bit 8 v + to32 b = push_bit 8 v OR to32 b" by (intro disjunctive_add)
  then show ?thesis by (simp add: push_bit_eq_mult)
qed

lemma big_endian_read_32_number:
  "big_endian_read_32 (a # b # c # d # e # rest) 1 = Some (foldl (\<lambda>v b. v * 256 + to32 b) 0 [b, c, d, e])"
proof -
  have "to32 e OR push_bit 8 (to32 d) OR push_bit 16 (to32 c) OR push_bit 24 (to32 b)
    = push_bit 8 (push_bit 8 (push_bit 8 (push_bit 8 0 OR to32 b) OR to32 c) OR to32 d) OR (to32 e :: u32)"
    by (simp only: push_bit_or push_bit_push_bit push_bit_of_0 or.left_neutral or.assoc or.commute or.left_commute) simp
  then show ?thesis unfolding shift_in_byte
    by (simp add: big_endian_read_32_def rd_def)
qed

text \<open>The value of the attribute 0, an unsigned number of four bytes; 0 when there is none.\<close>

definition handle_of :: "attribute_list \<Rightarrow> u32" where
  "handle_of as = (case map_of as 0 of
     Some (Item t s d) \<Rightarrow> if t = 1 \<and> s = 2 then foldl (\<lambda>v b. v * 256 + to32 b) 0 d else 0
   | _ \<Rightarrow> 0)"

lemma map_of_de_ok:
  assumes "de_ok (Seq s (record_items as))" and "map_of as i = Some v"
  shows "de_ok v"
proof -
  have "(i, v) \<in> set as" using assms(2) by (rule map_of_SomeD)
  then have "v \<in> set (record_items as)" by force
  then show ?thesis using assms(1) by (auto simp: list_all_iff)
qed

lemma service_record_handle_read:
  assumes ok: "de_ok (Seq s (record_items as))"
  shows "sdp_get_service_record_handle (de_bytes (Seq s (record_items as)) @ rest) = Some (handle_of as)"
proof (cases "map_of as 0")
  case None
  then show ?thesis
    using get_attribute_value [OF ok, where i = 0 and rest = rest] by (simp add: sdp_get_service_record_handle_def handle_of_def del: de_bytes.simps)
next
  case (Some v)
  obtain rest' where v: "sdp_get_attribute_value_for_attribute_id (de_bytes (Seq s (record_items as)) @ rest) 0 = Some (Some (de_bytes v @ rest'))"
    using get_attribute_value [OF ok, where i = 0 and rest = rest] Some by auto
  have okv: "de_ok v" by (rule map_of_de_ok [OF ok Some])
  note r = read_element [OF okv, of rest']
  show ?thesis
  proof (cases v)
    case (Item t z d)
    have "\<exists>b0 b1 b2 b3. d = [b0, b1, b2, b3]" if "z = 2" "t = 1"
    proof -
      have "length d = Suc (Suc (Suc (Suc 0)))" using okv that by (simp add: Item size_fits_def)
      then show ?thesis by (auto simp: length_Suc_conv)
    qed
    then have "big_endian_read_32 (de_bytes v @ rest') 1 = Some (foldl (\<lambda>v b. v * 256 + to32 b) 0 d)" if "z = 2" "t = 1"
      using that by (auto simp: Item de_header_def de_length_def big_endian_read_32_number [unfolded One_nat_def])
    then show ?thesis using v r Some
      by (simp add: sdp_get_service_record_handle_def handle_of_def Item del: de_bytes.simps cong: if_cong)
  next
    case (Seq z es)
    then show ?thesis using v r Some
      by (simp add: sdp_get_service_record_handle_def handle_of_def del: de_bytes.simps)
  qed
qed

lemma handle_of_be_32: "map_of as 0 = Some (Item 1 2 (be_32 h)) \<Longrightarrow> handle_of as = h"
proof -
  have "foldl (\<lambda>v b. v * 256 + to32 b) 0 (be_32 h) = h"
    using read_be_32_1 [of 0 h "[]"] big_endian_read_32_number [of 0 _ _ _ _ "[]"] by (simp add: be_32_def del: foldl.simps)
  then show "map_of as 0 = Some (Item 1 2 (be_32 h)) \<Longrightarrow> handle_of as = h" by (simp add: handle_of_def)
qed

section \<open>The state of the registry\<close>

definition registry_inv :: "nat \<Rightarrow> sdp_server \<Rightarrow> addr list \<Rightarrow> addr list \<Rightarrow> service list \<Rightarrow> bool" where
  "registry_inv n s xs fs svs \<longleftrightarrow>
     linked (sdp_nodes s) (sdp_service_records s) xs \<and> linked (sdp_nodes s) (service_record_item_pool s) fs
     \<and> set (sdp_service_records s # xs) \<inter> set (service_record_item_pool s # fs) = {}
     \<and> map (sdp_items s) xs = map Some (map item_of svs) \<and> length xs + length fs = n
     \<and> distinct (map fst svs) \<and> list_all service_ok svs"

lemma registry_inv_registered: "registry_inv n s xs fs svs \<Longrightarrow> registered s (map item_of svs)"
  unfolding registry_inv_def registered_def linked_def by blast

lemma item_of_handle: "item_of sv = item_of sv' \<Longrightarrow> fst sv = fst sv'"
  by (cases sv; cases sv') simp

lemma items_remove1:
  assumes "map f xs = map Some (map item_of svs)" and "distinct (map fst svs)" and "distinct xs" and "x \<in> set xs"
    and "f x = Some (item_of sv)"
  shows "map f (remove1 x xs) = map Some (map item_of (filter (\<lambda>sv'. fst sv' \<noteq> fst sv) svs))"
  using assms
proof (induction xs arbitrary: svs)
  case (Cons y ys)
  obtain v vs where svs: "svs = v # vs" "f y = Some (item_of v)" "map f ys = map Some (map item_of vs)"
    using Cons.prems(1) by (cases svs) auto
  show ?case
  proof (cases "y = x")
    case True
    then have v: "fst v = fst sv" using svs(2) Cons.prems(5) by (intro item_of_handle) simp
    then have "filter (\<lambda>sv'. fst sv' \<noteq> fst sv) vs = vs" using Cons.prems(2) unfolding svs(1) by (intro filter_True) (auto simp: rev_image_eqI)
    then show ?thesis using True v svs(3) by (simp add: svs(1))
  next
    case False
    have "x \<in> set ys" using Cons.prems(4) False by simp
    then have "Some (item_of sv) \<in> set (map f ys)" using Cons.prems(5) [symmetric] by simp
    then obtain v' where v': "v' \<in> set vs" "item_of sv = item_of v'" unfolding svs(3) by auto
    then have "fst v \<noteq> fst sv" using Cons.prems(2) item_of_handle [OF v'(2)] by (auto simp: svs(1) image_iff)
    moreover have "map f (remove1 x ys) = map Some (map item_of (filter (\<lambda>sv'. fst sv' \<noteq> fst sv) vs))"
      by (rule Cons.IH [OF svs(3)]) (use Cons.prems(2,3,5) \<open>x \<in> set ys\<close> in \<open>simp_all add: svs(1)\<close>)
    ultimately show ?thesis using False svs(2) by (simp add: svs(1))
  qed
qed simp


text \<open>Which block holds a handle.\<close>

lemma item_cases:
  assumes inv: "registry_inv n s xs fs svs"
  obtains (absent) "sdp_get_record_item_for_handle s h = Some NULL" and "map_of svs h = None"
  | (present) x t as where "sdp_get_record_item_for_handle s h = Some x" and "x \<noteq> NULL" and "x \<in> set xs"
      and "sdp_items s x = Some (item_of (h, t, as))" and "map_of svs h = Some (t, as)"
proof -
  have c: "chain (sdp_nodes s) (sdp_service_records s) xs" and i: "map (sdp_items s) xs = map Some (map item_of svs)"
    using inv by (simp_all add: registry_inv_def linked_def)
  obtain it where it: "sdp_nodes s (sdp_service_records s) = Some it" using chain_first [OF c] by blast
  show ?thesis
    using record_item_from_walk [OF c it i, of h] absent present
    by (auto simp: find_item sdp_get_record_item_for_handle_def it simp del: item_of.simps split: option.splits)
qed

lemma registry_remove:
  assumes inv: "registry_inv n s xs fs svs" and x: "x \<in> set xs" "sdp_items s x = Some (item_of (h, t, as))"
  shows "\<exists>nodes nodes'. btstack_linked_list_remove (sdp_nodes s) (sdp_service_records s) x = Some (0, nodes)
     \<and> btstack_memory_pool_free nodes (service_record_item_pool s) x = Some nodes'
     \<and> registry_inv n (s\<lparr> sdp_nodes := nodes' \<rparr>) (remove1 x xs) (x # fs) (filter (\<lambda>sv. fst sv \<noteq> h) svs)"
proof -
  let ?l = "sdp_service_records s" and ?p = "service_record_item_pool s"
  have l: "linked (sdp_nodes s) ?l xs" "linked (sdp_nodes s) ?p fs" "set (?l # xs) \<inter> set (?p # fs) = {}"
    and i: "map (sdp_items s) xs = map Some (map item_of svs)" and n: "length xs + length fs = n"
    and d: "distinct (map fst svs)" "list_all service_ok svs"
    using inv by (simp_all add: registry_inv_def)
  have ne: "x \<in> dom (sdp_nodes s)" "x \<noteq> NULL" "x \<noteq> ?l" using linked_item [OF l(1) x(1)] by auto
  have dx: "distinct xs" using l(1) by (simp add: linked_def)
  obtain h1 where h1: "btstack_linked_list_remove (sdp_nodes s) ?l x = Some (0, h1)" "linked h1 ?l (remove1 x xs)"
    "same_except (insert ?l (set xs)) (sdp_nodes s) h1"
    using list_remove_refines [OF l(1) ne(3)] x(1) by auto
  have p1: "linked h1 ?p fs" using linked_frame [OF l(2) h1(3)] l(3) by auto
  have x1: "x \<in> dom h1" "x \<noteq> ?p" "x \<notin> set fs" using h1(3) ne(1) l(3) x(1) by (auto simp: same_except_def)
  obtain h2 where h2: "btstack_linked_list_add h1 ?p x = Some h2" "linked h2 ?p (x # fs)" "same_except {?p, x} h1 h2"
    using list_add_refines [OF p1 x1(1) ne(2) x1(2)] x1(3) by auto
  have sub: "set (remove1 x xs) \<subseteq> set xs" "x \<notin> set (remove1 x xs)" using dx by (simp_all add: set_remove1_subset)
  then have dj: "{?p, x} \<inter> set (?l # remove1 x xs) = {}" using l(3) ne(3) by auto
  have l2: "linked h2 ?l (remove1 x xs)" by (rule linked_frame [OF h1(2) h2(3) dj])
  have "map (sdp_items s) (remove1 x xs) = map Some (map item_of (filter (\<lambda>sv. fst sv \<noteq> fst (h, t, as)) svs))"
    by (rule items_remove1 [OF i d(1) dx x])
  moreover have "length (remove1 x xs) + length (x # fs) = n"
    using x(1) n length_pos_if_in_set [OF x(1)] by (simp add: length_remove1 del: length_greater_0_conv)
  moreover have "list_all service_ok (filter (\<lambda>sv. fst sv \<noteq> h) svs)" using d(2) by (simp add: list_all_iff)
  moreover have "set (?l # remove1 x xs) \<inter> set (?p # x # fs) = {}" using dj l(3) sub(1) by auto
  ultimately have "registry_inv n (s\<lparr> sdp_nodes := h2 \<rparr>) (remove1 x xs) (x # fs) (filter (\<lambda>sv. fst sv \<noteq> h) svs)"
    unfolding registry_inv_def using l2 h2(2) d(1) by (simp add: distinct_map_filter)
  then show ?thesis using h1(1) h2(1) pool_free_is_add [OF p1] by auto
qed

lemma registry_unregister:
  assumes inv: "registry_inv n s xs fs svs"
  shows "\<exists>nodes xs' fs'. sdp_unregister_service s h = Some (s\<lparr> sdp_nodes := nodes \<rparr>)
     \<and> registry_inv n (s\<lparr> sdp_nodes := nodes \<rparr>) xs' fs' (filter (\<lambda>sv. fst sv \<noteq> h) svs)"
proof (cases rule: item_cases [OF inv, of h, case_names absent present])
  case absent
  have "filter (\<lambda>sv. fst sv \<noteq> h) svs = svs" using absent(2) by (auto simp: map_of_eq_None_iff intro!: filter_True)
  then show ?thesis using absent(1) inv
    by (intro exI [of _ "sdp_nodes s"] exI [of _ xs] exI [of _ fs]) (simp add: sdp_unregister_service_def)
next
  case (present x t as)
  obtain nodes nodes' where r: "btstack_linked_list_remove (sdp_nodes s) (sdp_service_records s) x = Some (0, nodes)"
     "btstack_memory_pool_free nodes (service_record_item_pool s) x = Some nodes'"
     "registry_inv n (s\<lparr> sdp_nodes := nodes' \<rparr>) (remove1 x xs) (x # fs) (filter (\<lambda>sv. fst sv \<noteq> h) svs)"
    using registry_remove [OF inv present(3,4)] by blast
  have "sdp_unregister_service s h = Some (s\<lparr> sdp_nodes := nodes' \<rparr>)"
    using present(1,2) r(1,2) by (simp add: sdp_unregister_service_def btstack_memory_service_record_item_free_def)
  then show ?thesis using r(3) by blast
qed


text \<open>The registry does not touch the connection.\<close>

definition same_channel :: "sdp_server \<Rightarrow> sdp_server \<Rightarrow> bool" where
  "same_channel s s' \<longleftrightarrow> sdp_response_buffer s' = sdp_response_buffer s \<and> l2cap_cid s' = l2cap_cid s"

lemma registry_register:
  assumes inv: "registry_inv n s xs fs svs" and ok: "de_ok (Seq t (record_items as))"
  shows "\<exists>s' xs' fs' svs' status. sdp_register_service s (de_bytes (Seq t (record_items as))) = Some (status, s')
     \<and> registry_inv n s' xs' fs' svs' \<and> same_channel s s'
     \<and> (status, svs') = (if handle_of as \<le> 0xffff then (SDP_HANDLE_INVALID, svs)
         else if map_of svs (handle_of as) \<noteq> None then (SDP_HANDLE_ALREADY_REGISTERED, svs)
         else if length svs < n then (0, (handle_of as, t, as) # svs)
         else (BTSTACK_MEMORY_ALLOC_FAILED, svs))"
proof -
  let ?r = "de_bytes (Seq t (record_items as))" and ?h = "handle_of as"
  let ?l = "sdp_service_records s" and ?p = "service_record_item_pool s"
  have rd: "sdp_get_service_record_handle ?r = Some ?h"
    using service_record_handle_read [OF ok, of "[]"] by simp
  have l: "linked (sdp_nodes s) ?l xs" "linked (sdp_nodes s) ?p fs" "set (?l # xs) \<inter> set (?p # fs) = {}"
    and i: "map (sdp_items s) xs = map Some (map item_of svs)" and n: "length xs + length fs = n"
    and d: "distinct (map fst svs)" "list_all service_ok svs"
    using inv by (simp_all add: registry_inv_def)
  have len: "length xs = length svs" using arg_cong [OF i, of length] by simp
  show ?thesis
  proof (cases "?h \<le> 0xffff")
    case True
    then show ?thesis using rd inv by (auto simp: sdp_register_service_def same_channel_def)
  next
    case big: False
    then have nz: "?h \<noteq> 0" by auto
    show ?thesis
    proof (cases rule: item_cases [OF inv, of ?h, case_names absent present])
      case (present x t' as')
      then show ?thesis using rd inv big nz by (auto simp: sdp_register_service_def same_channel_def simp del: de_bytes.simps)
    next
      case absent
      obtain h1 where h1: "btstack_linked_list_pop (sdp_nodes s) ?p = Some (case fs of [] \<Rightarrow> NULL | x # _ \<Rightarrow> x, h1)"
        "linked h1 ?p (tl fs)" "same_except {?p} (sdp_nodes s) h1"
        using list_pop_refines [OF l(2)] by blast
      have l1: "linked h1 ?l xs" using linked_frame [OF l(1) h1(3)] l(3) by auto
      show ?thesis
      proof (cases fs)
        case Nil
        have "registry_inv n (s\<lparr> sdp_nodes := h1 \<rparr>) xs [] svs"
          using inv l1 h1(2) by (simp add: registry_inv_def Nil)
        then show ?thesis using rd big nz absent h1(1) n len Nil
          by (auto simp: sdp_register_service_def btstack_memory_service_record_item_get_def pool_get_is_pop same_channel_def simp del: de_bytes.simps)
      next
        case (Cons x gs)
        have x: "x \<in> dom (sdp_nodes s)" "x \<noteq> NULL" "x \<noteq> ?p" "x \<notin> set gs" "x \<noteq> ?l" "x \<notin> set xs"
          using linked_item [OF l(2), of x] l(2,3) by (auto simp: Cons linked_def)
        have x1: "x \<in> dom h1" using x(1) h1(3) by (simp add: same_except_def)
        obtain h2 where h2: "btstack_linked_list_add h1 ?l x = Some h2" "linked h2 ?l (x # xs)" "same_except {?l, x} h1 h2"
          using list_add_refines [OF l1 x1 x(2,5)] x(6) by auto
        have p2: "linked h2 ?p gs" using linked_frame [OF h1(2) h2(3)] l(3) x(3,4) by (auto simp: Cons)
        let ?s = "s\<lparr> sdp_items := (sdp_items s)(x \<mapsto> item_of (?h, t, as)), sdp_nodes := h2 \<rparr>"
        have "map (sdp_items ?s) (x # xs) = map Some (map item_of ((?h, t, as) # svs))"
          using i x(6) by (simp add: map_fun_upd del: item_of.simps)
        moreover have "set (?l # x # xs) \<inter> set (?p # gs) = {}" using l(3) x(3,4) by (auto simp: Cons)
        moreover have "distinct (map fst ((?h, t, as) # svs))" using d(1) absent(2) by (simp add: map_of_eq_None_iff)
        ultimately have inv': "registry_inv n ?s (x # xs) gs ((?h, t, as) # svs)"
          unfolding registry_inv_def using h2(2) p2 d(2) ok n Cons by simp
        have "sdp_register_service s ?r = Some (0, ?s)"
          using rd big nz absent(1) h1(1) h2(1) x(2)
          by (simp add: sdp_register_service_def btstack_memory_service_record_item_get_def pool_get_is_pop Cons del: de_bytes.simps)
        then show ?thesis using inv' big absent(2) n len Cons
          by (intro exI [of _ ?s] exI [of _ "x # xs"] exI [of _ gs] exI [of _ "(?h, t, as) # svs"] exI [of _ 0])
            (simp add: same_channel_def del: de_bytes.simps)
      qed
    qed
  qed
qed

lemma registry_lookup:
  assumes "registry_inv n s xs fs svs"
  shows "sdp_get_record_for_handle s h = Some (map_option (\<lambda>(t, as). de_bytes (Seq t (record_items as))) (map_of svs h))"
  by (cases rule: item_cases [OF assms, of h, case_names absent present])
    (auto simp: sdp_get_record_for_handle_def simp del: de_bytes.simps)

section \<open>Any use of the registry\<close>

datatype registry_op = Register u8 attribute_list | Unregister u32 | Lookup u32
datatype registry_answer = Status u8 | Found "buffer option"

primrec registry_op_ok :: "registry_op \<Rightarrow> bool" where
  "registry_op_ok (Register t as) = de_ok (Seq t (record_items as))"
| "registry_op_ok (Unregister h) = True"
| "registry_op_ok (Lookup h) = True"

text \<open>The answers of a registry, and what they should be: at most \<open>n\<close> records, each under the handle it names.\<close>

fun registry_run :: "('s \<Rightarrow> buffer \<Rightarrow> (u8 \<times> 's) option) \<Rightarrow> ('s \<Rightarrow> u32 \<Rightarrow> 's option) \<Rightarrow> ('s \<Rightarrow> u32 \<Rightarrow> buffer option option)
    \<Rightarrow> 's \<Rightarrow> registry_op list \<Rightarrow> (registry_answer list \<times> 's) option" where
  "registry_run register unregister lookup s [] = Some ([], s)"
| "registry_run register unregister lookup s (Register t as # ops) = do {
     (status, s) \<leftarrow> register s (de_bytes (Seq t (record_items as)));
     (answers, s) \<leftarrow> registry_run register unregister lookup s ops;
     Some (Status status # answers, s) }"
| "registry_run register unregister lookup s (Unregister h # ops) = do {
     s \<leftarrow> unregister s h; registry_run register unregister lookup s ops }"
| "registry_run register unregister lookup s (Lookup h # ops) = do {
     r \<leftarrow> lookup s h;
     (answers, s) \<leftarrow> registry_run register unregister lookup s ops;
     Some (Found r # answers, s) }"

definition register_spec :: "nat \<Rightarrow> u8 \<Rightarrow> attribute_list \<Rightarrow> service list \<Rightarrow> u8 \<times> service list" where
  "register_spec n t as svs =
     (if handle_of as \<le> 0xffff then (SDP_HANDLE_INVALID, svs)
      else if map_of svs (handle_of as) \<noteq> None then (SDP_HANDLE_ALREADY_REGISTERED, svs)
      else if length svs < n then (0, (handle_of as, t, as) # svs)
      else (BTSTACK_MEMORY_ALLOC_FAILED, svs))"

definition lookup_spec :: "service list \<Rightarrow> u32 \<Rightarrow> buffer option" where
  "lookup_spec svs h = map_option (\<lambda>(t, as). de_bytes (Seq t (record_items as))) (map_of svs h)"

fun registry_spec :: "nat \<Rightarrow> service list \<Rightarrow> registry_op list \<Rightarrow> registry_answer list \<times> service list" where
  "registry_spec n svs [] = ([], svs)"
| "registry_spec n svs (Register t as # ops) =
     (let (status, svs) = register_spec n t as svs; (answers, svs) = registry_spec n svs ops in (Status status # answers, svs))"
| "registry_spec n svs (Unregister h # ops) = registry_spec n (filter (\<lambda>sv. fst sv \<noteq> h) svs) ops"
| "registry_spec n svs (Lookup h # ops) =
     (let (answers, svs') = registry_spec n svs ops in (Found (lookup_spec svs h) # answers, svs'))"

text \<open>What a registry of service records promises.\<close>

locale service_registry =
  fixes register :: "'s \<Rightarrow> buffer \<Rightarrow> (u8 \<times> 's) option" and unregister :: "'s \<Rightarrow> u32 \<Rightarrow> 's option"
    and lookup :: "'s \<Rightarrow> u32 \<Rightarrow> buffer option option" and holds :: "nat \<Rightarrow> service list \<Rightarrow> 's \<Rightarrow> bool"
  assumes register: "holds n svs s \<Longrightarrow> de_ok (Seq t (record_items as)) \<Longrightarrow>
      \<exists>s'. register s (de_bytes (Seq t (record_items as))) = Some (fst (register_spec n t as svs), s')
        \<and> holds n (snd (register_spec n t as svs)) s'"
    and unregister: "holds n svs s \<Longrightarrow> \<exists>s'. unregister s h = Some s' \<and> holds n (filter (\<lambda>sv. fst sv \<noteq> h) svs) s'"
    and lookup: "holds n svs s \<Longrightarrow> lookup s h = Some (lookup_spec svs h)"
begin

lemma run_spec:
  assumes "holds n svs s" and "list_all registry_op_ok ops"
  shows "\<exists>s'. registry_run register unregister lookup s ops = Some (fst (registry_spec n svs ops), s')
    \<and> holds n (snd (registry_spec n svs ops)) s'"
  using assms
proof (induction ops arbitrary: s svs)
  case (Cons op ops)
  show ?case
  proof (cases op)
    case (Register t as)
    then have "de_ok (Seq t (record_items as))" using Cons.prems(2) by simp
    from register [OF Cons.prems(1) this] obtain s' where
      s': "register s (de_bytes (Seq t (record_items as))) = Some (fst (register_spec n t as svs), s')"
        "holds n (snd (register_spec n t as svs)) s'" by blast
    show ?thesis using s'(1) Cons.IH [OF s'(2)] Cons.prems(2)
      by (auto simp: Register Let_def split: prod.splits simp del: de_bytes.simps de_ok.simps)
  next
    case (Unregister h)
    obtain s' where s': "unregister s h = Some s'" "holds n (filter (\<lambda>sv. fst sv \<noteq> h) svs) s'"
      using unregister [OF Cons.prems(1)] by blast
    show ?thesis using s'(1) Cons.IH [OF s'(2)] Cons.prems(2) by (simp add: Unregister)
  next
    case (Lookup h)
    show ?thesis using lookup [OF Cons.prems(1), of h] Cons.IH [OF Cons.prems(1)] Cons.prems(2)
      by (auto simp: Lookup Let_def split: prod.splits)
  qed
qed simp

end

section \<open>The server implements it\<close>

definition registry_holds :: "u16 \<Rightarrow> buffer \<Rightarrow> nat \<Rightarrow> service list \<Rightarrow> sdp_server \<Rightarrow> bool" where
  "registry_holds cid buf n svs s \<longleftrightarrow> (\<exists>xs fs. registry_inv n s xs fs svs) \<and> l2cap_cid s = cid \<and> sdp_response_buffer s = buf"

interpretation sr: service_registry sdp_register_service sdp_unregister_service sdp_get_record_for_handle
  "registry_holds cid buf" for cid buf
proof unfold_locales
  fix n svs s h t as
  assume "registry_holds cid buf n svs s"
  then obtain xs fs where inv: "registry_inv n s xs fs svs" and c: "l2cap_cid s = cid" "sdp_response_buffer s = buf"
    by (auto simp: registry_holds_def)
  show "sdp_get_record_for_handle s h = Some (lookup_spec svs h)"
    unfolding lookup_spec_def by (rule registry_lookup [OF inv])
  show "\<exists>s'. sdp_unregister_service s h = Some s' \<and> registry_holds cid buf n (filter (\<lambda>sv. fst sv \<noteq> h) svs) s'"
  proof -
    obtain nodes xs' fs' where u: "sdp_unregister_service s h = Some (s\<lparr> sdp_nodes := nodes \<rparr>)"
      "registry_inv n (s\<lparr> sdp_nodes := nodes \<rparr>) xs' fs' (filter (\<lambda>sv. fst sv \<noteq> h) svs)"
      using registry_unregister [OF inv, of h] by blast
    then have "registry_holds cid buf n (filter (\<lambda>sv. fst sv \<noteq> h) svs) (s\<lparr> sdp_nodes := nodes \<rparr>)"
      unfolding registry_holds_def using c by auto
    then show ?thesis using u(1) by blast
  qed
  assume ok: "de_ok (Seq t (record_items as))"
  obtain s' xs' fs' svs' status where
    r: "sdp_register_service s (de_bytes (Seq t (record_items as))) = Some (status, s')"
      "registry_inv n s' xs' fs' svs'" "same_channel s s'" "(status, svs') = register_spec n t as svs"
    using registry_register [OF inv ok] unfolding register_spec_def by blast
  then have "registry_holds cid buf n svs' s'" using c by (auto simp: registry_holds_def same_channel_def)
  then show "\<exists>s'. sdp_register_service s (de_bytes (Seq t (record_items as))) = Some (fst (register_spec n t as svs), s')
      \<and> registry_holds cid buf n (snd (register_spec n t as svs)) s'"
    using r(1) unfolding r(4) [symmetric] by auto
qed

text \<open>The server as \<open>btstack_memory_init\<close> and \<open>sdp_init\<close> leave it.\<close>

definition sdp_fresh :: "store \<Rightarrow> addr \<Rightarrow> addr \<Rightarrow> addr \<Rightarrow> nat \<Rightarrow> nat \<Rightarrow> nat \<Rightarrow> sdp_server option" where
  "sdp_fresh h list pool storage count block_size buffer_size = do {
     h \<leftarrow> set_next h list NULL;
     h \<leftarrow> btstack_memory_pool_create h pool storage count block_size;
     Some (sdp_init \<lparr> sdp_nodes = h, sdp_items = Map.empty, sdp_service_records = list, service_record_item_pool = pool,
       sdp_next_service_record_handle = 0xffff + 2, sdp_response_buffer = replicate buffer_size 0, l2cap_cid = 0,
       sdp_response_size = 0, sdp_calls = [] \<rparr>) }"

text \<open>C6: The registry of service records.  From the state after start up, with \<open>count\<close> blocks for records, any
  sequence of calls that register well formed records, unregister handles and look records up runs without touching
  foreign memory and answers like a list of at most \<open>count\<close> records under the handles they name: a record without a
  handle above the reserved range, one whose handle is taken and one too many are refused with the three error codes.
  A channel that is then opened finds a server that holds exactly these records, which is what the properties of the
  exchanges with a client ask for.\<close>

theorem sdp_registry:
  assumes "{list, pool} \<union> set (storage_blocks storage count block_size) \<subseteq> dom h"
    and "NULL \<notin> {list, pool} \<union> set (storage_blocks storage count block_size)"
    and "list \<noteq> pool" and "{list, pool} \<inter> set (storage_blocks storage count block_size) = {}"
    and "0 < block_size" and "count < 65536" and "48 \<le> buffer_size" and "buffer_size < 65536"
    and "list_all registry_op_ok ops" and "cid \<noteq> 0" and "48 \<le> mtu_of cid"
  shows "\<exists>s s'. do { s \<leftarrow> sdp_fresh h list pool storage count block_size buffer_size;
         registry_run sdp_register_service sdp_unregister_service sdp_get_record_for_handle s ops } =
           Some (fst (registry_spec count [] ops), s)
     \<and> sdp_packet_handler mtu_of s 4 cid [0x72] 1 = Some s'
     \<and> serves mtu_of (snd (registry_spec count [] ops)) s' \<and> distinct (map fst (snd (registry_spec count [] ops)))"
proof -
  let ?B = "storage_blocks storage count block_size" and ?h = "h(list \<mapsto> NULL)"
  obtain h' where h': "btstack_memory_pool_create ?h pool storage count block_size = Some h'"
    "pool_inv (pool, set ?B, h') (rev ?B)"
    using pool_create_eq [of pool ?h block_size storage count] assms by auto
  have l: "h' list = Some NULL" using pool_create_frame [OF h'(1), of list] assms(3,4) by auto
  obtain s where s: "sdp_fresh h list pool storage count block_size buffer_size = Some s"
    "s = sdp_init \<lparr> sdp_nodes = h', sdp_items = Map.empty, sdp_service_records = list, service_record_item_pool = pool,
       sdp_next_service_record_handle = 0xffff + 2, sdp_response_buffer = replicate buffer_size 0, l2cap_cid = 0,
       sdp_response_size = 0, sdp_calls = [] \<rparr>"
    using assms(1) h'(1) by (auto simp: sdp_fresh_def set_next_def)
  have "registry_inv count s [] (rev ?B) []"
    using h'(2) l assms(2-4) by (auto simp: s(2) registry_inv_def sdp_init_def call_l2cap_def linked_def storage_blocks_def)
  then have "registry_holds 0 (replicate buffer_size 0) count [] s"
    by (auto simp: registry_holds_def s(2) sdp_init_def call_l2cap_def)
  from sr.run_spec [OF this assms(9)] obtain s1 xs fs where s1:
    "registry_run sdp_register_service sdp_unregister_service sdp_get_record_for_handle s ops
       = Some (fst (registry_spec count [] ops), s1)"
    "registry_inv count s1 xs fs (snd (registry_spec count [] ops))" "l2cap_cid s1 = 0"
    "sdp_response_buffer s1 = replicate buffer_size 0"
    unfolding registry_holds_def by blast
  let ?s = "call_l2cap (Accept_connection cid) (s1\<lparr> l2cap_cid := cid, sdp_response_size := 0 \<rparr>)"
  have "sdp_packet_handler mtu_of s1 4 cid [0x72] 1 = Some ?s"
    using s1(3) by (simp add: sdp_packet_handler_def rd_def)
  moreover have "registered ?s (map item_of (snd (registry_spec count [] ops)))"
    using registry_inv_registered [OF s1(2)] by (simp add: registered_def call_l2cap_def)
  moreover have "length (snd (registry_spec count [] ops)) \<le> count"
    and "list_all service_ok (snd (registry_spec count [] ops))" and "distinct (map fst (snd (registry_spec count [] ops)))"
    using s1(2) map_eq_imp_length_eq [of "sdp_items s1" xs Some] by (auto simp: registry_inv_def simp del: map_map)
  ultimately show ?thesis
    using s(1) s1(1,4) assms(6-8,10,11) by (intro exI [of _ s1] exI [of _ ?s]) (simp add: serves_def call_l2cap_def)
qed


theorem sdp_registry_witness:
  "\<exists>s s'. do { s \<leftarrow> sdp_fresh (\<lambda>a. Some 0) 1 2 100 1 40 64;
       registry_run sdp_register_service sdp_unregister_service sdp_get_record_for_handle s
         [Register 5 [(0, Item 1 2 [0, 1, 0, 1])], Register 5 [(0, Item 1 2 [0, 1, 0, 1])], Register 5 [(0, Item 1 2 [0, 1, 0, 2])],
          Unregister 0x10001, Lookup 0x10001, Register 5 [(0, Item 1 2 [0, 1, 0, 2])], Register 5 [(1, Item 1 0 [7])]] } =
       Some ([Status 0, Status 0x80, Status 0x56, Found None, Status 0, Status 0x83], s)
     \<and> sdp_packet_handler (\<lambda>_. 48) s 4 0x41 [0x72] 1 = Some s'
     \<and> serves (\<lambda>_. 48) [(0x10002, 5, [(0, Item 1 2 [0, 1, 0, 2])])] s'"
proof -
  let ?ops = "[Register 5 [(0, Item 1 2 [0, 1, 0, 1])], Register 5 [(0, Item 1 2 [0, 1, 0, 1])], Register 5 [(0, Item 1 2 [0, 1, 0, 2])],
          Unregister 0x10001, Lookup 0x10001, Register 5 [(0, Item 1 2 [0, 1, 0, 2])], Register 5 [(1, Item 1 0 [7])]]"
  have ok: "list_all registry_op_ok ?ops" by (simp add: size_fits_def header_length_def)
  have spec: "registry_spec 1 [] ?ops = ([Status 0, Status 0x80, Status 0x56, Found None, Status 0, Status 0x83],
      [(0x10002, 5, [(0, Item 1 2 [0, 1, 0, 2])])])"
    by (simp add: register_spec_def handle_of_def lookup_spec_def)
  have "\<exists>s s'. do { s \<leftarrow> sdp_fresh (\<lambda>a. Some 0) 1 2 100 1 40 64;
         registry_run sdp_register_service sdp_unregister_service sdp_get_record_for_handle s ?ops } =
           Some (fst (registry_spec 1 [] ?ops), s)
     \<and> sdp_packet_handler (\<lambda>_. 48) s 4 0x41 [0x72] 1 = Some s'
     \<and> serves (\<lambda>_. 48) (snd (registry_spec 1 [] ?ops)) s' \<and> distinct (map fst (snd (registry_spec 1 [] ?ops)))"
    by (rule sdp_registry [OF _ _ _ _ _ _ _ _ ok]) (simp_all add: storage_blocks_def NULL_def dom_def)
  then show ?thesis unfolding spec by auto
qed

section \<open>New handles\<close>

lemma create_round:
  assumes "registered s (map item_of svs)"
  shows "sdp_create_service_record_handle s =
    (let h = sdp_next_service_record_handle s; s' = s\<lparr> sdp_next_service_record_handle := h + 1 \<rparr> in
     if h \<in> insert 0 (fst ` set svs) then sdp_create_service_record_handle s' else Some (h, s'))"
proof -
  let ?h = "sdp_next_service_record_handle s"
  let ?s = "s\<lparr> sdp_next_service_record_handle := ?h + 1 \<rparr>"
  have "registered ?s (map item_of svs)" using assms by (simp add: registered_def)
  note i = item_for_handle [OF this, of ?h]
  have m: "?h \<in> fst ` set svs \<longleftrightarrow> map_of svs ?h \<noteq> None" by (metis map_of_eq_None_iff)
  show ?thesis
    using i unfolding Let_def insert_iff m
    by (subst sdp_create_service_record_handle.simps)
      (cases "map_of svs ?h", auto simp: Let_def simp del: item_of.simps)
qed

lemma create_after:
  assumes "registered s (map item_of svs)" and "sdp_next_service_record_handle s + of_nat k \<notin> insert 0 (fst ` set svs)"
    and "\<forall>j < k. sdp_next_service_record_handle s + of_nat j \<in> insert 0 (fst ` set svs)"
  shows "sdp_create_service_record_handle s = Some (sdp_next_service_record_handle s + of_nat k,
    s\<lparr> sdp_next_service_record_handle := sdp_next_service_record_handle s + of_nat k + 1 \<rparr>)"
  using assms
proof (induction k arbitrary: s)
  case 0
  then show ?case by (subst create_round [OF 0(1)]) (simp add: Let_def)
next
  case (Suc k)
  let ?h = "sdp_next_service_record_handle s"
  let ?s = "s\<lparr> sdp_next_service_record_handle := ?h + 1 \<rparr>"
  have "sdp_create_service_record_handle ?s = Some (sdp_next_service_record_handle ?s + of_nat k,
    ?s\<lparr> sdp_next_service_record_handle := sdp_next_service_record_handle ?s + of_nat k + 1 \<rparr>)"
  proof (rule Suc.IH)
    show "registered ?s (map item_of svs)" using Suc.prems(1) by (simp add: registered_def)
    show "sdp_next_service_record_handle ?s + of_nat k \<notin> insert 0 (fst ` set svs)"
      using Suc.prems(2) by (simp add: add.assoc)
    show "\<forall>j < k. sdp_next_service_record_handle ?s + of_nat j \<in> insert 0 (fst ` set svs)"
    proof (intro allI impI)
      fix j assume "j < k"
      then show "sdp_next_service_record_handle ?s + of_nat j \<in> insert 0 (fst ` set svs)"
        using spec [OF Suc.prems(3), of "Suc j"] by (simp add: add.assoc)
    qed
  qed
  moreover have "?h \<in> insert 0 (fst ` set svs)" using spec [OF Suc.prems(3), of 0] by simp
  ultimately show ?case by (subst create_round [OF Suc.prems(1)]) (simp add: Let_def add.assoc)
qed

text \<open>C38: A service record handle is always found, but not always a valid one.  However the counter stands,
  \<open>sdp_create_service_record_handle\<close> ends after at most one round per registered record and two more, with the first handle from
  the counter on (and round again) that is not 0 and not registered, and moves the counter behind it.  The handles up to
  0xffff are reserved, and \<open>sdp_register_service\<close> refuses them.  While the counter is behind them and does not run over, the handle
  is a valid one, as the header promises; once it has run over, the next handle found is 1, which is not.\<close>

theorem sdp_create_handle:
  assumes "registered s (map item_of svs)" and "length svs + 1 < 2 ^ 32"
  shows "\<exists>k \<le> length svs + 1. sdp_create_service_record_handle s = Some (sdp_next_service_record_handle s + of_nat k,
       s\<lparr> sdp_next_service_record_handle := sdp_next_service_record_handle s + of_nat k + 1 \<rparr>)
     \<and> sdp_next_service_record_handle s + of_nat k \<notin> insert 0 (fst ` set svs)
     \<and> (\<forall>j < k. sdp_next_service_record_handle s + of_nat j \<in> insert 0 (fst ` set svs))
     \<and> (0xffff < sdp_next_service_record_handle s \<and> unat (sdp_next_service_record_handle s) + k < 2 ^ 32
          \<longrightarrow> 0xffff < sdp_next_service_record_handle s + of_nat k)
     \<and> (sdp_next_service_record_handle s = 0 \<and> 1 \<notin> fst ` set svs \<longrightarrow> sdp_next_service_record_handle s + of_nat k = 1)"
proof -
  let ?h = "sdp_next_service_record_handle s" and ?used = "insert 0 (fst ` set svs)"
  have inj: "inj_on (\<lambda>j. ?h + of_nat j) {..length svs + 1}"
  proof (rule inj_onI)
    fix i j assume "i \<in> {..length svs + 1}" "j \<in> {..length svs + 1}" "?h + of_nat i = ?h + of_nat j"
    then have "(of_nat i :: u32) = of_nat j" and b: "i < 4294967296" "j < 4294967296" using assms(2) by auto
    then have "unat (of_nat i :: u32) = unat (of_nat j :: u32)" by (simp only:)
    then show "i = j" unfolding unat_of_nat_u32 [OF b(1)] unat_of_nat_u32 [OF b(2)] .
  qed
  have "card (fst ` set svs) \<le> length svs" using card_length [of "map fst svs"] by simp
  then have "card ?used \<le> Suc (length svs)" by (simp add: card_insert_if)
  moreover have "card ((\<lambda>j. ?h + of_nat j) ` {..length svs + 1}) = length svs + 2" unfolding card_image [OF inj] by simp
  ultimately have "card ?used < card ((\<lambda>j. ?h + of_nat j) ` {..length svs + 1})" by linarith
  then have "\<not> (\<lambda>j. ?h + of_nat j) ` {..length svs + 1} \<subseteq> ?used"
    by (meson List.finite_set card_mono finite_imageI finite_insert not_le)
  then obtain j where j: "j \<le> length svs + 1" "?h + of_nat j \<notin> ?used" by blast
  define k where "k = (LEAST j. ?h + of_nat j \<notin> ?used)"
  have k: "?h + of_nat k \<notin> ?used" unfolding k_def by (rule LeastI [where P = "\<lambda>j. ?h + of_nat j \<notin> ?used", OF j(2)])
  have least: "\<forall>i < k. ?h + of_nat i \<in> ?used"
    unfolding k_def using not_less_Least [where P = "\<lambda>j. ?h + of_nat j \<notin> ?used"] by blast
  have "k \<le> j" unfolding k_def by (rule Least_le [where P = "\<lambda>j. ?h + of_nat j \<notin> ?used", OF j(2)])
  then have kl: "k \<le> length svs + 1" using j(1) by simp
  have valid: "0xffff < ?h + of_nat k" if "0xffff < ?h" "unat ?h + k < 2 ^ 32"
  proof -
    have "unat (of_nat k :: u32) = k" by (rule unat_of_nat_u32) (use that(2) in simp)
    then have "unat (?h + of_nat k) = unat ?h + k" using that(2) by (subst unat_plus_no_wrap) simp_all
    then show ?thesis using that(1) by (simp add: word_less_nat_alt)
  qed
  have one: "?h + of_nat k = 1" if "?h = 0" "1 \<notin> fst ` set svs"
  proof -
    have "k \<noteq> 0" using k that(1) by auto
    moreover have "\<not> 1 < k"
    proof
      assume "1 < k"
      then have "?h + of_nat 1 \<in> ?used" using least by blast
      then show False using that by simp
    qed
    ultimately have "k = 1" by simp
    then show ?thesis using that(1) by simp
  qed
  show ?thesis using create_after [OF assms(1) k least] k least kl valid one by blast
qed

text \<open>The counter stands on the handle of the first service of the example.\<close>

theorem sdp_create_handle_witness:
  "\<exists>s'. sdp_create_service_record_handle example_sdp_server = Some (0x10003, s')"
proof -
  have n: "sdp_next_service_record_handle example_sdp_server = 0x10001" by (simp add: example_sdp_server_def)
  have r: "registered example_sdp_server (map item_of example_registry)" using example_serves_sdp by (simp add: serves_def)
  have l: "length example_registry = 2" by (simp add: example_registry_def)
  obtain k where k: "k \<le> 2 + 1" "sdp_create_service_record_handle example_sdp_server = Some (0x10001 + of_nat k,
       example_sdp_server\<lparr> sdp_next_service_record_handle := 0x10001 + of_nat k + 1 \<rparr>)"
     "0x10001 + of_nat k \<notin> insert (0 :: u32) (fst ` set example_registry)"
     "\<forall>j < k. 0x10001 + of_nat j \<in> insert (0 :: u32) (fst ` set example_registry)"
    using sdp_create_handle [OF r, unfolded n l] by auto
  have "k = 0 \<or> k = 1 \<or> k = 2 \<or> k = 3" using k(1) by auto
  then have "k = 2" using k(3) spec [OF k(4), of 2] by (elim disjE) (simp_all add: example_registry_def)
  then show ?thesis using k(2) by simp
qed

end
