(* ===== verification/Sdp_Faults.thy ===== *)
theory Sdp_Faults
  imports Sdp_Handles
begin

text \<open>
  Requests that the SDP server does not survive: an element of length 0 in a list of identifiers, and a limit of the
  response below the size of its descriptor.
\<close>

section \<open>A callback that fails\<close>

lemma attributes_first_fails:
  assumes "de_ok v" and "handler i (de_bytes v @ ys) (de_type_of v) (de_size_of v) c = None"
    and "int (length pre) + 3 < ep" and "length pre + 3 < 2147483648"
  shows "attributes_from (pre @ de_bytes (id_item i) @ de_bytes v @ ys) handler (int (length pre)) ep c = None"
proof -
  let ?id = "de_bytes (id_item i)"
  let ?el = "pre @ ?id @ de_bytes v @ ys"
  have idl: "length ?id = 3" unfolding id_item_bytes by simp
  have p: "ptr_add ?el (int (length pre)) = Some (?id @ de_bytes v @ ys)" by (simp add: ptr_add_def)
  have q: "ptr_add ?el (int (length pre) + 3) = Some (de_bytes v @ ys)"
    using idl by (simp add: ptr_add_def nat_add_distrib)
  have rd: "big_endian_read_16 (?id @ de_bytes v @ ys) (Suc 0) = Some (to32 i)" unfolding id_item_bytes by simp
  have a: "int_add (int (length pre)) 3 = Some (int (length pre) + 3)" using assms(4) by (simp add: int_add_def)
  note rid = read_element [OF id_item_ok [of i], of "de_bytes v @ ys"]
  note rv = read_element [OF assms(1), of ys]
  show ?thesis
    using assms(2,3) by (subst attributes_from.simps)
      (auto simp: p q rd a rid(1,2) rv(1,2) simp del: de_bytes.simps cong: if_cong)
qed

lemma record_first_fails:
  assumes ok: "de_ok (Seq t (record_items ((i, v) # as)))"
    and h: "\<And>rest. handler i (de_bytes v @ rest) (de_type_of v) (de_size_of v) c = None"
  shows "sdp_attribute_list_traverse_sequence (de_bytes (Seq t (record_items ((i, v) # as))) @ rest) handler c = None"
proof -
  let ?r = "Seq t (record_items ((i, v) # as))"
  let ?b = "body (record_items ((i, v) # as))"
  note r = read_element [OF ok, of rest]
  have hl: "sint (of_nat (header_length t) :: u32) = int (header_length t)"
    by (rule sint_of_nat_u32) (simp add: header_length_def)
  have okv: "de_ok v" using ok by simp
  have b: "length (de_bytes ?r) < 2147483648" by (rule de_bytes_bound [OF ok])
  have bs: "de_bytes ?r @ rest = de_header 6 t (length ?b) @ de_bytes (id_item i) @ de_bytes v @ (body (record_items as) @ rest)"
    by simp
  have l: "length (de_bytes ?r) = header_length t + 3 + length (de_bytes v) + length (body (record_items as))"
    by (simp add: id_item_bytes del: de_bytes.simps(1))
  have "0 < length (de_bytes v)" by (rule de_bytes_pos [OF okv])
  then have p: "1 \<le> length (de_bytes v)" by linarith
  have "attributes_from (de_bytes ?r @ rest) handler (int (length (de_header 6 t (length ?b)))) (int (length (de_bytes ?r))) c = None"
    unfolding bs by (rule attributes_first_fails [where handler = handler, OF okv h]) (use b l p in \<open>simp_all del: de_bytes.simps\<close>)
  then show ?thesis using r hl by (simp add: sdp_attribute_list_traverse_sequence_def del: de_bytes.simps)
qed

section \<open>A list of identifiers without an end\<close>

definition endless_list :: "u8 \<Rightarrow> buffer" where
  "endless_list h = [0x35, 5, h, 0xff, 0xff, 0xff, 0xfb]"

lemma endless_element:
  assumes "h AND 7 = 7"
  shows "de_get_size_type (h # rest) = Some 7" and "\<exists>t. de_get_element_type (h # rest) = Some t"
    and "de_get_len (h # 0xff # 0xff # 0xff # 0xfb # rest) = Some 0"
  using assms
  by (simp_all add: de_get_size_type_def de_get_element_type_def de_get_len_def de_get_header_size_def de_get_data_size_def
      rd_def big_endian_read_32_def)

lemma traverse_endless:
  assumes "traverse_from el handler pos e c = Some r" and "de_get_len (drop (nat pos) el) = Some 0" and "pos < e" and "0 \<le> pos"
    and "\<And>t c. \<exists>c'. handler (drop (nat pos) el) t 7 c = Some (0, c')" and "de_get_size_type (drop (nat pos) el) = Some 7"
    and "pos < 2147483648"
  shows False
  using assms
proof (induction rule: traverse_from.raw_induct [rotated, consumes 1])
  case (1 trav el handler pos e c r)
  obtain t where t: "ptr_add el pos = Some (drop (nat pos) el)" "de_get_element_type (drop (nat pos) el) = Some t"
    using 1(2,4,5) by (auto simp: ptr_add_def bind_eq_Some_conv split: if_splits)
  obtain c' where c': "handler (drop (nat pos) el) t 7 c = Some (0, c')" using 1(6) by blast
  have p: "int_add pos 0 = Some pos" using 1(5,8) by (simp add: int_add_def)
  have "trav el handler pos e c' = Some r" using 1(2,3,4,7) t c' p by simp
  then show False using 1(1) 1(3-8) by blast
qed

lemma endless_list_read:
  shows "de_get_element_type (endless_list h @ rest) = Some 6" and "de_get_header_size (endless_list h @ rest) = Some 2"
    and "de_get_len (endless_list h @ rest) = Some 7"
    and "7 \<le> n \<Longrightarrow> de_get_len_safe (endless_list h @ rest) n = Some 7"
proof -
  have s: "de_get_size_type (endless_list h @ rest) = Some 5"
    by (simp add: endless_list_def de_get_size_type_def rd_def)
  show t: "de_get_element_type (endless_list h @ rest) = Some 6"
    by (simp add: endless_list_def de_get_element_type_def rd_def)
  show z: "de_get_header_size (endless_list h @ rest) = Some 2" by (simp add: de_get_header_size_def s)
  have d: "de_get_data_size (endless_list h @ rest) = Some 5"
    by (simp add: de_get_data_size_def s t) (simp add: endless_list_def rd_def)
  show "de_get_len (endless_list h @ rest) = Some 7" by (simp add: de_get_len_def z d)
  show "7 \<le> n \<Longrightarrow> de_get_len_safe (endless_list h @ rest) n = Some 7"
    by (auto simp: de_get_len_safe_def z d word_le_nat_alt word_less_nat_alt)
qed

lemma endless_list_id:
  assumes "h AND 7 = 7"
  shows "sdp_attribute_list_constains_id (endless_list h @ rest) i = None"
proof -
  let ?el = "endless_list h @ rest" and ?h = "sdp_traversal_attributeID_search" and ?c = "\<lparr> search_result = 0, search_attributeID = i \<rparr>"
  have d: "drop (nat 2) ?el = h # 0xff # 0xff # 0xff # 0xfb # rest" by (simp add: endless_list_def)
  have "\<not> (\<exists>r. traverse_from ?el ?h 2 7 ?c = Some r)"
  proof
    assume "\<exists>r. traverse_from ?el ?h 2 7 ?c = Some r"
    then obtain r where "traverse_from ?el ?h 2 7 ?c = Some r" ..
    then show False
      by (rule traverse_endless) (use endless_element [OF assms] in \<open>simp_all add: d [simplified] sdp_traversal_attributeID_search_def\<close>)
  qed
  then show ?thesis by (simp add: sdp_attribute_list_constains_id_def de_traverse_sequence_def endless_list_read)
qed


text \<open>A request for the attributes of one record, with any bytes for the list of identifiers.\<close>

lemma attribute_request_read:
  assumes "length ids + 16 < 65536" and "ids \<noteq> []"
    and "de_get_len_safe (ids @ [0]) (of_nat (length ids + 1)) = Some (of_nat (length ids))"
  shows "sdp_handle_service_attribute_request s (sdp_pdu 4 tid (be_32 h @ be_16 maxBytes @ ids @ [0])) mtu
    = service_attribute_response s tid h (min maxBytes (mtu - 10)) (ids @ [0]) 0"
proof -
  define P where "P = be_32 h @ be_16 maxBytes @ ids @ [0]"
  define n where "n = length ids"
  have lP: "length P = 6 + (n + 1)" by (simp add: P_def n_def)
  have l: "7 + n < 65536" "0 < n" using assms(1,2) by (simp_all add: n_def)
  define hd where "hd = [4] @ be_16 tid @ be_16 (of_nat (length P))"
  have hd: "length hd = 5" by (simp add: hd_def)
  have p: "sdp_pdu 4 tid P = hd @ be_32 h @ be_16 maxBytes @ ids @ [0]"
    by (simp add: sdp_pdu_def P_def hd_def)
  have r32: "big_endian_read_32 (sdp_pdu 4 tid P) 5 = Some h"
    unfolding p big_endian_read_32_def rd_def be_32_def by (simp add: nth_append hd join_32)
  have rmax: "read_u16 (sdp_pdu 4 tid P) 9 = Some maxBytes"
    using read_u16_at [of "hd @ be_32 h" 9 maxBytes] by (simp add: p hd)
  have d11: "ptr_add (sdp_pdu 4 tid P) 11 = Some (ids @ [0])" by (simp add: p hd ptr_add_def)
  have un: "unat (of_nat n :: u16) = n" "uint (of_nat n :: u16) = int n"
    using l by (simp_all add: unat_of_nat_u16 uint_nat)
  have dc: "ptr_add (sdp_pdu 4 tid P) (11 + uint (of_nat n :: u16)) = Some [0]"
    unfolding un(2) by (simp add: p hd ptr_add_def n_def nat_add_distrib)
  have pl: "(of_nat (length P) :: u16) - 6 = of_nat (n + 1)" "(of_nat (n + 1) :: u16) - of_nat n = 1" by (simp_all add: lP)
  have u: "unat (of_nat (length P) :: u16) = length P" unfolding lP by (rule unat_of_nat_u16) (use l in simp)
  have w: "unat (to32 x) = unat x" for x :: u16 by simp
  have "unat (to32 (of_nat (n + 1) :: u16)) = n + 1" unfolding w by (rule unat_of_nat_u16) (use l in simp)
  moreover have "unat (of_nat (n + 1) :: u32) = n + 1" by (rule unat_of_nat_u32) (use l in simp)
  ultimately have "to32 (of_nat (n + 1) :: u16) = of_nat (n + 1)" by (simp only: word_unat_eq_iff)
  then have g: "map_option to16 (de_get_len_safe (ids @ [0]) (to32 (of_nat (n + 1) :: u16))) = Some (of_nat n)"
    using assms(3) l by (simp add: n_def [symmetric] unsigned_of_nat take_bit_nat_eq_self)
  have n0: "(of_nat n :: u16) \<noteq> 0" using un(1) l(2) by (auto simp flip: unat_eq_zero)
  have lts: "\<not> (of_nat (length P) :: u16) < 6" using u lP by (simp add: word_less_nat_alt)
  have mn: "(if mtu - (7 + 3) < maxBytes then mtu - (7 + 3) else maxBytes) = min maxBytes (mtu - 10)"
    by (auto simp: min_def)
  show ?thesis
    unfolding P_def [symmetric] sdp_handle_service_attribute_request_def sdp_pdu_head(2,3)
      Option.bind.bind_lunit Let_def r32 rmax d11
    by (simp only: lts if_False Option.bind.bind_lunit r32 rmax d11 pl g n0 dc mn) (simp add: rd_def)
qed

text \<open>C40: A list of identifiers that hangs the server.  \<open>de_get_len\<close> adds header and data size modulo \<open>2 ^ 32\<close>, so an
  element with the data size \<open>0xfffffffb\<close> has the length 0, and the traversal of the list that contains it never moves
  on.  The request passes every check of the handler, which tests the length of the list, but not those of its elements:
  for any registered record with an attribute the server never returns to the run loop.\<close>

theorem sdp_zero_length_hangs:
  assumes "serves mtu_of svs s" and "map_of svs h = Some (t, a # as)" and "x AND 7 = 7"
  shows "de_get_len_safe (endless_list x) 7 = Some 7 \<and> de_get_len (drop 2 (endless_list x)) = Some 0
     \<and> sdp_packet_handler mtu_of s 6 (l2cap_cid s) (sdp_pdu 4 tid (be_32 h @ be_16 maxBytes @ endless_list x @ [0])) 19 = None"
proof -
  obtain i v where a: "a = (i, v)" by (cases a)
  let ?r = "Seq t (record_items (a # as))" and ?ids = "endless_list x @ [0]"
  let ?p = "sdp_pdu 4 tid (be_32 h @ be_16 maxBytes @ endless_list x @ [0])"
  have ok: "de_ok ?r" using serves_service_ok [OF assms(1,2)] .
  obtain item where it: "sdp_get_record_item_for_handle s h = Some item" "item \<noteq> NULL" "sdp_items s item = Some (item_of (h, t, a # as))"
    using item_for_handle [of s svs h] assms(1,2) by (auto simp: serves_def)
  have "sdp_attribute_list_traverse_sequence (de_bytes ?r) sdp_traversal_get_filtered_size
      \<lparr> filtered_attributeIDList = ?ids, filtered_size = 0 \<rparr> = None"
    using record_first_fails [of t i v as sdp_traversal_get_filtered_size _ "[]"] ok endless_list_id [OF assms(3)]
    by (simp add: a sdp_traversal_get_filtered_size_def del: de_bytes.simps)
  then have "spd_get_filtered_size (de_bytes ?r) ?ids = None" by (simp add: spd_get_filtered_size_def del: de_bytes.simps)
  then have "service_attribute_response s tid h m ?ids 0 = None" for m
    using it by (simp add: service_attribute_response_def del: de_bytes.simps)
  moreover have "sdp_handle_service_attribute_request s ?p mtu
      = service_attribute_response s tid h (min maxBytes (mtu - 10)) ?ids 0" for mtu
    by (rule attribute_request_read) (use endless_list_read(4) [of 8 x "[0]"] in \<open>simp_all add: endless_list_def\<close>)
  ultimately have n: "sdp_handle_service_attribute_request s ?p mtu = None" for mtu by simp
  have l: "length (be_32 h @ be_16 maxBytes @ endless_list x @ [0]) = 14" by (simp add: endless_list_def)
  have "sdp_packet_handler mtu_of s 6 (l2cap_cid s) ?p 19 = None"
    unfolding sdp_packet_handler_def sdp_request_def sdp_pdu_head Option.bind.bind_lunit l by (simp add: n)
  then show ?thesis
    using endless_list_read(4) [of 7 x "[]"] endless_element(3) [OF assms(3), of "[]"] by (simp add: endless_list_def)
qed

theorem sdp_zero_length_hangs_witness:
  "sdp_packet_handler (\<lambda>_. 48) example_sdp_server 6 0x41
     (sdp_pdu 4 1 (be_32 0x10002 @ be_16 100 @ [0x35, 5, 0x0f, 0xff, 0xff, 0xff, 0xfb] @ [0])) 19 = None"
proof -
  have "map_of example_registry 0x10002 = Some (5, (0, Item 1 2 [0, 1, 0, 2]) # [(1, Seq 5 [Item 3 1 [0x12, 0]])])"
    by (simp add: example_registry_def)
  from sdp_zero_length_hangs [OF example_serves_sdp this, of "0x0f" 1 100] show ?thesis
    by (simp add: endless_list_def example_sdp_server_def)
qed

section \<open>A response limit below three\<close>

lemma filter_overflows:
  assumes "de_ok v" and "sdp_attribute_list_constains_id ids i = Some 1" and "65533 \<le> m"
    and "length b < 3 + length (de_bytes v)" and "length (de_bytes v) < 65530"
  shows "sdp_traversal_filter_attributes i (de_bytes v @ rest) ty z
    \<lparr> filter_buffer = b, filter_pos = 0, filter_startOffset = 0, filter_maxBytes = m, filter_usedBytes = 0,
       filter_attributeIDList = ids, filter_complete = 1 \<rparr> = None"
proof -
  let ?n = "length (de_bytes v)"
  let ?c = "\<lparr> filter_buffer = b, filter_pos = 0, filter_startOffset = 0, filter_maxBytes = m, filter_usedBytes = 0,
       filter_attributeIDList = ids, filter_complete = 1 \<rparr>"
  have m: "65533 \<le> unat m" using assms(3) by (simp add: word_le_nat_alt)
  have n: "unat (of_nat ?n :: u16) = ?n" "0 < ?n" using assms(5) de_bytes_pos [OF assms(1)] by (simp_all add: unat_of_nat_u16 del: length_greater_0_conv)
  obtain idb where idb: "do { d \<leftarrow> de_store_descriptor DE_UINT DE_SIZE_16 [0, 0, 0]; big_endian_store_16 d 1 i } = Some idb"
      "length idb = 3"
    by (simp add: de_store_descriptor_def big_endian_store_16_def wr_def)
  have m3: "\<not> m < 3" using m by (simp add: word_less_nat_alt)
  have r3: "rd_range idb 0 3 = Some idb" using idb(2) by (simp add: rd_range_def)
  have len: "de_get_len (de_bytes v @ rest) = Some (int ?n)" by (rule read_element(4) [OF assms(1)])
  have app1: "spd_append_range ?c 3 idb = (if length b < 3 then None
      else Some (1, ?c\<lparr> filter_buffer := idb @ drop 3 b, filter_usedBytes := 3, filter_pos := 3, filter_maxBytes := m - 3 \<rparr>))"
    using m3 idb(2) r3 by (auto simp: spd_append_range_def wr_range_def)
  have um: "unat (m - 3) = unat m - 3" using m by (simp add: unat_sub word_le_nat_alt)
  have m3': "\<not> m - 3 < of_nat ?n" unfolding word_less_nat_alt um n(1) using m assms(5) by simp
  have r: "rd_range (de_bytes v @ rest) 0 ?n = Some (de_bytes v)" by (simp add: rd_range_def)
  have app2: "spd_append_range (?c\<lparr> filter_buffer := idb @ drop 3 b, filter_usedBytes := 3, filter_pos := 3, filter_maxBytes := m - 3 \<rparr>)
      (of_nat ?n) (de_bytes v @ rest) = None" if "\<not> length b < 3"
    using m3' n assms(4) that idb(2) r by (simp add: spd_append_range_def wr_range_def)
  obtain d where d: "de_store_descriptor DE_UINT DE_SIZE_16 [0, 0, 0] = Some d" "big_endian_store_16 d 1 i = Some idb"
    using idb(1) by (auto simp: bind_eq_Some_conv)
  show ?thesis
  proof (cases "length b < 3")
    case True
    then show ?thesis using assms(2) app1 d by (simp add: sdp_traversal_filter_attributes_def)
  next
    case False
    then show ?thesis using assms(2) len app1 app2 n(2) d by (simp add: sdp_traversal_filter_attributes_def)
  qed
qed

text \<open>C39: A response limit below three overflows the response buffer.  The three bytes of the descriptor are subtracted
  from the number of bytes the client allows, which wraps around to at least 65533, so that nothing limits the copying of
  the attributes: for a record whose first attribute is asked for and does not fit behind the header of the response the
  server writes behind its buffer.\<close>

theorem sdp_small_count_overflow:
  assumes "serves mtu_of svs s" and "map_of svs h = Some (t, (i, v) # as)" and "sequence_ok t' ids"
    and "\<exists>e \<in> set ids. covers i e" and "maxBytes < 3"
    and "length (sdp_response_buffer s) < 13 + length (de_bytes v)" and "length (de_bytes v) < 65530"
  shows "sdp_packet_handler mtu_of s 6 (l2cap_cid s) (sdp_pdu 4 tid (attribute_params h maxBytes (Seq t' ids) [0]))
     (of_nat (12 + length (de_bytes (Seq t' ids)))) = None"
proof -
  let ?r = "Seq t (record_items ((i, v) # as))" and ?ids = "de_bytes (Seq t' ids) @ [0]" and ?n = "length (de_bytes (Seq t' ids))"
  let ?p = "sdp_pdu 4 tid (attribute_params h maxBytes (Seq t' ids) [0])"
  have ok: "de_ok ?r" using serves_service_ok [OF assms(1,2)] .
  have okv: "de_ok v" using ok by simp
  have ids: "de_ok (Seq t' ids)" "?n < 32000" using assms(3) by (simp_all add: sequence_ok_def del: de_bytes.simps)
  have con: "sdp_attribute_list_constains_id ?ids i = Some 1" using constains_id [OF ids(1), of "[0]" i] assms(4) by simp
  obtain item where it: "sdp_get_record_item_for_handle s h = Some item" "item \<noteq> NULL" "sdp_items s item = Some (item_of (h, t, (i, v) # as))"
    using item_for_handle [of s svs h] assms(1,2) by (auto simp: serves_def)
  have filter_fails: "at_pointer 10 (sdp_filter_attributes_in_attributeIDList (de_bytes ?r) ?ids 0 (m - 3)) b = None"
    if m: "m < 3" and b: "length b = length (sdp_response_buffer s)" for m b
  proof -
    have "unat m < 3" using m by (simp add: word_less_nat_alt)
    then have "unat m = 0 \<or> unat m = 1 \<or> unat m = 2" by linarith
    then have "m = 0 \<or> m = 1 \<or> m = 2" by (auto simp: word_unat_eq_iff)
    then have w: "65533 \<le> m - 3" by auto
    have bl: "length (drop 10 b) < 3 + length (de_bytes v)" using assms(6) b by (simp add: less_diff_conv2)
    have "sdp_traversal_filter_attributes i (de_bytes v @ rest) (de_type_of v) (de_size_of v)
        \<lparr> filter_buffer = drop 10 b, filter_pos = 0, filter_startOffset = 0, filter_maxBytes = m - 3, filter_usedBytes = 0,
          filter_attributeIDList = ?ids, filter_complete = 1 \<rparr> = None" for rest
      by (rule filter_overflows [OF okv con w bl assms(7)])
    note f = this
    have "sdp_attribute_list_traverse_sequence (de_bytes ?r) sdp_traversal_filter_attributes
        \<lparr> filter_buffer = drop 10 b, filter_pos = 0, filter_startOffset = 0, filter_maxBytes = m - 3, filter_usedBytes = 0,
          filter_attributeIDList = ?ids, filter_complete = 1 \<rparr> = None"
      using record_first_fails [where handler = sdp_traversal_filter_attributes, OF ok f, of "[]"] by (simp only: append_Nil2)
    then show ?thesis by (simp add: at_pointer_def sdp_filter_attributes_in_attributeIDList_def del: de_bytes.simps)
  qed
  have "service_attribute_response s tid h m ?ids 0 = None" if m: "m < 3" for m
  proof (cases "spd_get_filtered_size (de_bytes ?r) ?ids")
    case None
    then show ?thesis using it by (simp add: service_attribute_response_def del: de_bytes.simps)
  next
    case (Some z)
    define w :: u16 where "w = word_of_int z"
    have "\<exists>b. at_offset 7 (de_store_descriptor_with_len DE_DES DE_SIZE_VAR_16 (to32 w)) (sdp_response_buffer s) = Some b
        \<and> length b = length (sdp_response_buffer s)"
      using header_into [of 7 "sdp_response_buffer s" "unat w"] assms(1)
      by (simp add: serves_def) (simp add: header_length_def)
    then show ?thesis
      using it Some filter_fails [OF m] by (auto simp: service_attribute_response_def w_def simp del: de_bytes.simps)
  qed
  moreover have "min maxBytes (mtu - 10) < 3" for mtu using assms(5) by (auto simp: min_def word_less_nat_alt word_le_nat_alt)
  ultimately have n: "sdp_handle_service_attribute_request s ?p mtu = None" for mtu
    using handle_attribute_request [OF ids(1), of 0 s tid h maxBytes mtu] ids(2)
    by (simp add: attribute_continuation_def del: de_bytes.simps)
  have l: "length (attribute_params h maxBytes (Seq t' ids) [0]) = 7 + ?n"
    by (simp add: attribute_params_def del: de_bytes.simps)
  have u: "unat (of_nat (7 + ?n) :: u16) = 7 + ?n" "unat (of_nat (12 + ?n) :: u16) = 12 + ?n"
    by (rule unat_of_nat_u16, use ids(2) in simp)+
  show ?thesis
    unfolding sdp_packet_handler_def sdp_request_def sdp_pdu_head Option.bind.bind_lunit l u Let_def by (simp add: n del: de_bytes.simps)
qed

text \<open>A service whose first attribute is 60 bytes long, and the smallest buffer.\<close>

definition long_registry :: "service list" where
  "long_registry = [(0x10001, 5, [(0, Item 4 5 (replicate 58 0x61))])]"

definition long_sdp_server :: sdp_server where
  "long_sdp_server = example_sdp_server\<lparr> sdp_nodes := [10 \<mapsto> 20, 20 \<mapsto> 0, 40 \<mapsto> 0],
     sdp_items := [20 \<mapsto> item_of (0x10001, 5, [(0, Item 4 5 (replicate 58 0x61))])] \<rparr>"

lemma long_serves_sdp: "serves (\<lambda>_. 48) long_registry long_sdp_server"
proof -
  have "registered long_sdp_server (map item_of long_registry)"
    unfolding registered_def
    by (rule exI [of _ "[20]"]) (simp add: long_sdp_server_def example_sdp_server_def long_registry_def NULL_def del: item_of.simps)
  moreover have "list_all service_ok long_registry"
    by (simp add: long_registry_def size_fits_def header_length_def)
  ultimately show ?thesis by (simp add: serves_def) (simp add: long_sdp_server_def example_sdp_server_def long_registry_def)
qed

theorem sdp_small_count_overflow_witness:
  "sdp_packet_handler (\<lambda>_. 48) long_sdp_server 6 0x41 (sdp_pdu 4 1 (attribute_params 0x10001 2 (Seq 5 [Item 1 1 [0, 0]]) [0])) 17 = None"
proof -
  have m: "map_of long_registry 0x10001 = Some (5, [(0, Item 4 5 (replicate 58 0x61))])" by (simp add: long_registry_def)
  have q: "sequence_ok 5 [Item 1 1 [0, 0]]" by (simp add: sequence_ok_def size_fits_def header_length_def)
  have l: "length (de_bytes (Item 4 5 (replicate 58 0x61))) = 60" by (simp add: header_length_def)
  have c: "covers 0 (Item 1 1 [0, 0])" by (simp add: u16_be_def)
  have l': "length (de_bytes (Seq 5 [Item 1 1 [0, 0]])) = 5" by (simp add: header_length_def)
  show ?thesis
    using sdp_small_count_overflow [OF long_serves_sdp m q, of 2 1] c l unfolding l'
    by (simp add: long_sdp_server_def example_sdp_server_def del: de_bytes.simps)
qed

end
