(* ===== verification/Spec2Isabelle.thy ===== *)
theory Spec2Isabelle
  imports Ring_Buffer Linked_List Pool_Memory Run_Loop Slip H5_Faults Ad_Parser Tlv_Flash Link_Key_Db Le_Device_Db Gsm_Model Att_Faults Att_Db_Util
    Sdp_Registry Sdp_Faults
begin

text \<open>
  Verification library for the core of the BTstack Bluetooth stack in \<open>code/src/btstack\<close> (file names below are
  relative to its \<open>src\<close> directory unless they start with \<open>platform/\<close>).

  \<^bold>\<open>The program.\<close>  BTstack is a single threaded protocol stack: a run loop polls data sources (the UART of the
  Bluetooth controller) and runs timers; bytes from the UART are framed (SLIP), carried up through HCI and L2CAP, and end
  in protocol servers, of which the attribute server of Bluetooth LE and the call model of the hands-free profile are
  pure data processing.  Below them are containers without dynamic memory (ring buffer, intrusive lists, block pools),
  and beside them the databases that keep link keys and bonded devices, in memory or in a log structured store over
  two banks of flash.  The parts talk through tables of function pointers (\<open>hal_flash_bank_t\<close>, \<open>btstack_tlv_t\<close>,
  \<open>btstack_link_key_db_t\<close>, \<open>btstack_run_loop_t\<close>), through callbacks registered by the application, and through nodes
  shared in intrusive lists.  The configuration is that of \<open>btstack_config.h\<close>: \<open>HAVE_MALLOC\<close>, \<open>HAVE_EMBEDDED_TICK\<close>,
  \<open>ENABLE_LE_SIGNED_WRITE\<close>, no delayed read responses.

  \<^bold>\<open>How code becomes definitions.\<close>  A C function is a definition of the same name (a name that clashes with the library's
  gets a suffix).  Static variables and structures are records; integers that may wrap are words of their width
  (\<open>u8\<close>, \<open>u16\<close>, \<open>u32\<close>), other \<open>int\<close>s are \<^typ>\<open>int\<close> or \<^typ>\<open>nat\<close>.  A pointer to bytes is the list of the bytes
  that may be accessed through it; a node of a list is an address in a store \<^typ>\<open>addr \<rightharpoonup> addr\<close>.  The value
  \<^const>\<open>None\<close> stands for undefined behaviour (an access outside of an object, a null pointer, a read of memory
  that was never written) and for a loop that does not end: that a routine returns \<^const>\<open>Some\<close> is therefore always a
  claim of memory safety and of termination.  Loops whose progress the data decide are \<open>partial_function (option)\<close>;
  no routine of the code has fuel in its model (\<open>slip_encode\<close>, the client that drains the encoder of SLIP, counts the
  bytes it may ask for, two per byte of payload, and that is shown to be enough).  What is not in the repository or is supplied by the application is a
  parameter: callbacks and handlers, \<open>malloc\<close>, the flash HAL of the log structured store, the MTU of an L2CAP channel,
  the packet handler over a transport and the answers of its UART driver;
  calls of L2CAP by the discovery server are an output.

  \<^bold>\<open>The theories.\<close>

  \<^item> \<open>BT_Prelude\<close>: word types, checked reads and writes of bytes and ranges, the lemmas on them that all parts use.
  \<^item> \<open>BT_Util\<close> (\<open>btstack_util.c\<close>): byte order, text forms of addresses and UUIDs, number parsing, the CRC-8 of RFCOMM.
    Address text round trips; the table driven CRC equals its bitwise definition and detects every error in one byte.
  \<^item> \<open>Ring_Buffer\<close> (\<open>btstack_ring_buffer.c\<close>): refinement of a bounded queue of bytes, as the locale \<open>byte_fifo\<close>.
  \<^item> \<open>Linked_List\<close> (\<open>btstack_linked_list.c\<close>): \<open>linked h l xs\<close> abstracts a list variable of the store to the list of its
    nodes; each operation and the iterator, removal during iteration included, refine list operations.  \<open>same_except\<close>
    frames what an operation may change.
  \<^item> \<open>Memory_Pool\<close> (\<open>btstack_memory_pool.c\<close>): blocks are owned by the pool or by a client, never both; the locale
    \<open>block_pool\<close>.  \<open>Pool_Memory\<close> has the same operations on bytes, where the pointers of blocks that are too small overlap;
    they refine those on cells when a block can hold a pointer.
  \<^item> \<open>Run_Loop\<close> (\<open>btstack_run_loop.c\<close>, \<open>platform/embedded/btstack_run_loop_embedded.c\<close>): timers in a list ordered by the
    signed distance to the tick; the split comparison of the code equals that order, a pass returns and runs exactly
    what is due, and the ring an active timer makes when it is added again.
  \<^item> \<open>Slip\<close> (\<open>btstack_slip.c\<close>): encoder and decoder are inverse; the decoder stays in its buffer.
  \<^item> \<open>H5_Link\<close> (\<open>hci_transport_h5.c\<close>): the model of the three-wire link over that framing, its state a record of the static
    variables and a trace of what passes its interfaces.  \<open>H5_Frame\<close>: what is sent and received are whole frames, however they are cut
    into blocks; \<open>H5_Steps\<close>: what each entry of the code does to numbers, packets and frames; \<open>H5_Net\<close>: two ends and wires that lose
    frames, with the invariant that ties frames to the packets they carry or acknowledge; \<open>H5_Delivery\<close>: every packet is
    delivered at most once and in order, and gets through while nothing is lost; \<open>H5_Faults\<close>: a frame through the whole code,
    and two faults of the link.
  \<^item> \<open>Ad_Parser\<close> (\<open>ad_parser.c\<close>): searches in advertising data, as predicates on the list of its structures.
  \<^item> \<open>Flash_Bank\<close> (\<open>platform/embedded/hal_flash_bank_memory.c\<close>): the locale \<open>flash_banks\<close>, what a store needs of two flash
    banks, interpreted on the RAM implementation; \<open>Tag_Store\<close> (\<open>btstack_tlv.h\<close>, \<open>btstack_tlv.c\<close>): the locale \<open>tag_store\<close>,
    the contract of a store of tagged values; \<open>Tlv_Flash\<close> (\<open>platform/embedded/btstack_tlv_flash_bank.c\<close>): the log
    structured store is one, over any banks of the first contract with byte alignment: any run of stores, lookups and
    deletions, migrations between the banks included, answers like a map, and so does the store after a restart.
  \<^item> \<open>Link_Key_Db\<close> (\<open>classic/btstack_link_key_db_memory.c\<close>, \<open>btstack_memory.c\<close>): the locale \<open>link_key_db\<close>; the implementation
    over a list of pool blocks is a map that forgets the least recently used key.
  \<^item> \<open>Le_Device_Db\<close> (\<open>ble/le_device_db_memory.c\<close>): which slot a new device gets.
  \<^item> \<open>Gsm_Model\<close> (\<open>classic/hfp_gsm_model.c\<close>): the table of calls and its event handler, one definition per case; the
    reachable states under well-behaved events, their invariant and the numbering of calls.
  \<^item> \<open>Att_Db\<close>, \<open>Att_Requests\<close>, \<open>Att_Server\<close> (\<open>ble/att_db.c\<close>): the model of the attribute server.  \<open>Att_Spec\<close>: a list of
    attributes, its encoding \<open>db_bytes\<close> and the loop over it; \<open>Att_Safety\<close>, \<open>Att_Groups\<close>: responses keep within the MTU
    and the buffer; \<open>Att_Answers\<close>, \<open>Att_Writes\<close>: what requests answer and do; \<open>Att_Faults\<close>: what they do wrong.
    \<open>Att_Db_Util\<close> (\<open>ble/att_db_util.c\<close>): the database built at run time is the encoding of what was added, so that the
    server's theorems hold of it.
  \<^item> \<open>Sdp_Util\<close> (\<open>classic/sdp_util.c\<close>): data elements of the service discovery protocol, the traversals and their
    callbacks.  \<open>Sdp_Spec\<close>: elements as a datatype, their encoding \<open>de_bytes\<close>, and the traversals as walks along lists
    of elements; \<open>Sdp_Search\<close>: which records match a search pattern; \<open>Sdp_Filter\<close>: which bytes of a record a response
    holds; \<open>Sdp_Build\<close>: records built with the builder routines are encodings, and lookups find what was added.
  \<^item> \<open>Sdp_Server\<close> (\<open>classic/sdp_server.c\<close>): the registry of service records, the three requests, the packet handler.
    \<open>Sdp_Responses\<close>: the client that follows continuation states, and the contract \<open>fragmented_answer\<close> of a server
    that answers it; \<open>Sdp_Exchange\<close> and \<open>Sdp_Handles\<close> discharge it for the attributes of one record, the attributes of
    all records that match and the handles of those: the fragments a client collects are the whole answer, for every MTU.
    \<open>Sdp_Registry\<close>: the registry answers like a list of services (the locale \<open>service_registry\<close>), and new handles are free.
    \<open>Sdp_Faults\<close>: requests that the server does not survive.

  \<^bold>\<open>Findings.\<close>  Theorems of the form \<open>..._hangs\<close>, \<open>..._overflow\<close>, \<open>..._is_lost\<close> and the like state behaviour of the code
  that is not what it means to do; the theorems on correct behaviour have the hypotheses that exclude it.

  \<^bold>\<open>Not modelled.\<close>  Printing and logging; the endless outer loop of the run loop; HCI, its other transports and the chip set
  initialisation, L2CAP, RFCOMM, the security manager and the profiles above them, whose state machines are driven by
  events of hardware and of each other; the codecs (floating point and vendored); the terminal firmware around the
  stack, which accesses hardware.
\<close>

end
